(* ===== verification/Prelude.thy ===== *)
theory Prelude
  imports Main "HOL-Library.Monad_Syntax"
begin

text \<open>
  Shared vocabulary of the development: Go slices and their run-time bounds checks, the
  value streams that \<^verbatim>\<open>labgob\<close> encoders and decoders read and write, and the generic
  lemmas the component theories use.

  A Go expression that can panic (an index or a slice bound out of range, an explicit
  \<^verbatim>\<open>panic\<close>) is modelled by a function into \<open>option\<close>: \<open>None\<close> is the panic. Sequencing is
  the monadic \<open>do\<close> of \<open>option\<close>, so a panic ends the whole handler, as it does in Go.
\<close>

named_theorems go_slice \<open>facts about bounds-checked slice operations\<close>

section \<open>Slices\<close>

text \<open>\<^verbatim>\<open>xs[i]\<close>\<close>

definition nth_int :: "'a list \<Rightarrow> int \<Rightarrow> 'a option" where
  "nth_int xs i = (if 0 \<le> i \<and> i < int (length xs) then Some (xs ! nat i) else None)"

text \<open>\<^verbatim>\<open>xs[i] = v\<close>\<close>

definition update_int :: "'a list \<Rightarrow> int \<Rightarrow> 'a \<Rightarrow> 'a list option" where
  "update_int xs i v =
     (if 0 \<le> i \<and> i < int (length xs) then Some (xs[nat i := v]) else None)"

text \<open>\<^verbatim>\<open>xs[i:]\<close>\<close>

definition slice_from :: "'a list \<Rightarrow> int \<Rightarrow> 'a list option" where
  "slice_from xs i = (if 0 \<le> i \<and> i \<le> int (length xs) then Some (drop (nat i) xs) else None)"

text \<open>\<^verbatim>\<open>xs[:i]\<close>, used by the code only with \<^verbatim>\<open>i <= len(xs)\<close>\<close>

definition slice_to :: "'a list \<Rightarrow> int \<Rightarrow> 'a list option" where
  "slice_to xs i = (if 0 \<le> i \<and> i \<le> int (length xs) then Some (take (nat i) xs) else None)"

lemma nth_int_Some_iff [go_slice]:
  "nth_int xs i = Some x \<longleftrightarrow> 0 \<le> i \<and> i < int (length xs) \<and> x = xs ! nat i"
  by (auto simp: nth_int_def)

lemma nth_int_in_range [go_slice]:
  "0 \<le> i \<Longrightarrow> i < int (length xs) \<Longrightarrow> nth_int xs i = Some (xs ! nat i)"
  by (simp add: nth_int_def)

lemma nth_int_None_iff [go_slice]:
  "nth_int xs i = None \<longleftrightarrow> i < 0 \<or> int (length xs) \<le> i"
  by (auto simp: nth_int_def)

lemma nth_int_append:
  "nth_int (xs @ ys) i =
     (if i < int (length xs) then nth_int xs i else nth_int ys (i - int (length xs)))"
  by (auto simp: nth_int_def nth_append nat_diff_distrib')

lemma nth_int_take:
  "nth_int (take k xs) i = (if i < int k then nth_int xs i else None)"
  by (auto simp: nth_int_def)

lemma nth_int_drop:
  "0 \<le> i \<Longrightarrow> nth_int (drop k xs) i = nth_int xs (i + int k)"
  by (auto simp: nth_int_def nat_add_distrib add.commute)

lemma nth_int_Cons:
  "nth_int (x # xs) i = (if i = 0 then Some x else nth_int xs (i - 1))"
  by (auto simp: nth_int_def nat_diff_distrib nth_Cons')

lemma update_int_Some_iff [go_slice]:
  "update_int xs i v = Some ys \<longleftrightarrow>
     0 \<le> i \<and> i < int (length xs) \<and> ys = xs[nat i := v]"
  by (auto simp: update_int_def)

lemma slice_from_Some_iff [go_slice]:
  "slice_from xs i = Some ys \<longleftrightarrow>
     0 \<le> i \<and> i \<le> int (length xs) \<and> ys = drop (nat i) xs"
  by (auto simp: slice_from_def)

lemma slice_to_Some_iff [go_slice]:
  "slice_to xs i = Some ys \<longleftrightarrow>
     0 \<le> i \<and> i \<le> int (length xs) \<and> ys = take (nat i) xs"
  by (auto simp: slice_to_def)

lemma nth_int_int [simp]: "k < length xs \<Longrightarrow> nth_int xs (int k) = Some (xs ! k)"
  by (simp add: nth_int_def)

lemma drop_nat_Cons:
  "0 \<le> i \<Longrightarrow> i < int (length xs) \<Longrightarrow> drop (nat i) xs = xs ! nat i # drop (nat (i + 1)) xs"
  by (simp add: nat_add_distrib Cons_nth_drop_Suc)

lemma take_nat_snoc:
  "0 \<le> i \<Longrightarrow> i < int (length xs) \<Longrightarrow> take (nat (i + 1)) xs = take (nat i) xs @ [xs ! nat i]"
  by (simp add: nat_add_distrib take_Suc_conv_app_nth)

section \<open>Encoded streams\<close>

text \<open>
  What a \<^verbatim>\<open>LabEncoder\<close> writes into a \<^verbatim>\<open>bytes.Buffer\<close> is modelled as the sequence of the
  values encoded so far. \<open>Encode\<close> appends one value; \<open>Decode\<close> takes the first one off, and
  fails (a non-nil error in Go) when the stream is exhausted or holds a value of another type.
  The argument \<open>prj\<close> of \<open>Decode\<close> selects the type of the variable decoded into.
\<close>

definition Encode :: "'v list \<Rightarrow> 'v \<Rightarrow> 'v list" where
  "Encode w v = w @ [v]"

definition Decode :: "('v \<Rightarrow> 'a option) \<Rightarrow> 'v list \<Rightarrow> ('a \<times> 'v list) option" where
  "Decode prj s = (case s of [] \<Rightarrow> None | v # r \<Rightarrow> map_option (\<lambda>a. (a, r)) (prj v))"

lemma Decode_Nil [simp]: "Decode prj [] = None"
  by (simp add: Decode_def)

lemma Decode_Cons [simp]: "Decode prj (v # r) = map_option (\<lambda>a. (a, r)) (prj v)"
  by (simp add: Decode_def)

text \<open>
  The contract of a pair of an encoding and a decoding routine: what was encoded is decoded
  back. It is interpreted for Raft's persistent state and for the key/value snapshots.
\<close>

locale codec =
  fixes enc :: "'a \<Rightarrow> 'v list"
    and dec :: "'v list \<Rightarrow> 'a option"
  assumes dec_enc: "dec (enc a) = Some a"
begin

lemma enc_inj: "enc a = enc b \<Longrightarrow> a = b"
  by (metis dec_enc option.inject)

end

section \<open>Options\<close>

lemmas bind_Some_iff [simp] = Option.bind_eq_Some_conv

lemma bind_None_iff:
  "Option.bind m f = None \<longleftrightarrow> m = None \<or> (\<exists>x. m = Some x \<and> f x = None)"
  by (cases m) auto

lemma those_nth: "those xs = Some ys \<Longrightarrow> k < length xs \<Longrightarrow> xs ! k = Some (ys ! k)"
proof (induction xs arbitrary: ys k)
  case (Cons x xs)
  then show ?case by (cases k) (auto split: option.splits)
qed simp

lemma those_length: "those xs = Some ys \<Longrightarrow> length ys = length xs"
  by (induction xs arbitrary: ys) (auto split: option.splits)

end
