(* ===== verification/RaftTypes.thy ===== *)
theory RaftTypes
  imports Prelude
begin

text \<open>
  The data of the Raft peer: \<^verbatim>\<open>raft/types.go\<close>, \<^verbatim>\<open>raft/constants.go\<close> and the \<^verbatim>\<open>Persister\<close>
  of \<^verbatim>\<open>raft/persister.go\<close>. The type variable \<open>'c\<close> is the type of commands (an
  \<^verbatim>\<open>interface{}\<close>, whose nil is \<open>None\<close>), \<open>'b\<close> the type of the bytes of a snapshot.
  Message structs get a prefix on their field names where Go reuses a name (\<^verbatim>\<open>Term\<close>).
\<close>

section \<open>Constants\<close>

text \<open>Durations are in nanoseconds, as \<^verbatim>\<open>time.Duration\<close> is.\<close>

definition Millisecond :: int where
  "Millisecond = 1000000"

definition SELECTION_TIMEOUT :: int where
  "SELECTION_TIMEOUT = 500 * Millisecond"

definition HEATBEAT_INTERVAL :: int where
  "HEATBEAT_INTERVAL = 100 * Millisecond"

datatype RaftState = Follower | Candidate | Leader

section \<open>Log entries and apply messages\<close>

record 'c Entry =
  entTerm :: int
  entCommand :: "'c option"

record ('c, 'b) ApplyMsg =
  amCommandValid :: bool
  amCommand :: "'c option"
  amCommandIndex :: int
  amSnapshotValid :: bool
  amSnapshot :: "'b list"
  amSnapshotTerm :: int
  amSnapshotIndex :: int

section \<open>The persister\<close>

text \<open>The values Raft writes with \<^verbatim>\<open>labgob\<close>: integers and the log.\<close>

datatype 'c gob = GobInt int | GobLog "'c Entry list"

fun gobInt :: "'c gob \<Rightarrow> int option" where
  "gobInt (GobInt n) = Some n"
| "gobInt (GobLog _) = None"

fun gobLog :: "'c gob \<Rightarrow> 'c Entry list option" where
  "gobLog (GobLog l) = Some l"
| "gobLog (GobInt _) = None"

record ('c, 'b) Persister =
  raftstate :: "'c gob list"
  psnapshot :: "'b list"

definition MakePersister :: "('c, 'b) Persister" where
  "MakePersister = \<lparr>raftstate = [], psnapshot = []\<rparr>"

text \<open>\<^verbatim>\<open>clone\<close> copies a byte slice into a fresh array: the identity on values.\<close>

definition clone :: "'a list \<Rightarrow> 'a list" where
  "clone orig = orig"

definition Copy :: "('c, 'b) Persister \<Rightarrow> ('c, 'b) Persister" where
  "Copy ps = MakePersister\<lparr>raftstate := raftstate ps, psnapshot := psnapshot ps\<rparr>"

definition ReadRaftState :: "('c, 'b) Persister \<Rightarrow> 'c gob list" where
  "ReadRaftState ps = clone (raftstate ps)"

definition Save :: "('c, 'b) Persister \<Rightarrow> 'c gob list \<Rightarrow> 'b list \<Rightarrow> ('c, 'b) Persister" where
  "Save ps rs sn = ps\<lparr>raftstate := clone rs, psnapshot := clone sn\<rparr>"

definition ReadSnapshot :: "('c, 'b) Persister \<Rightarrow> 'b list" where
  "ReadSnapshot ps = clone (psnapshot ps)"

definition SnapshotSize :: "('c, 'b) Persister \<Rightarrow> int" where
  "SnapshotSize ps = int (length (psnapshot ps))"

text \<open>
  The byte length of the encoded Raft state depends on the wire format of
  \<^verbatim>\<open>encoding/gob\<close>; it is a parameter \<open>gobsize\<close> of the definitions that use it.
\<close>

definition RaftStateSize :: "('c gob list \<Rightarrow> int) \<Rightarrow> ('c, 'b) Persister \<Rightarrow> int" where
  "RaftStateSize gobsize ps = gobsize (raftstate ps)"

lemmas persister_defs = MakePersister_def clone_def Copy_def ReadRaftState_def Save_def
  ReadSnapshot_def

lemma Copy_eq [simp]: "Copy ps = ps"
  by (simp add: Copy_def MakePersister_def)

section \<open>The Raft peer\<close>

text \<open>
  \<^verbatim>\<open>rf.mu\<close> is not a field: every operation below is a critical section of it. \<open>npeers\<close> is
  \<^verbatim>\<open>len(rf.peers)\<close>; \<open>wakeCh\<close> says whether the one-slot channel \<^verbatim>\<open>rf.wakeCh\<close> is full;
  \<open>replicators\<close> lists the peers of the goroutines started by \<^verbatim>\<open>go rf.replicator(i)\<close>, which
  the Go runtime keeps.
\<close>

record ('c, 'b) Raft =
  npeers :: nat
  persister :: "('c, 'b) Persister"
  me :: nat
  dead :: bool
  wakeCh :: bool
  currentTerm :: int
  state :: RaftState
  votedFor :: int
  lastTouchedAt :: int
  log :: "'c Entry list"
  commitIndex :: int
  lastApplied :: int
  nextIndex :: "int list"
  matchIndex :: "int list"
  snapIndex :: int
  snapshot :: "'b list"
  replicators :: "nat list"

section \<open>RPC structs\<close>

record RequestVoteArgs =
  rvTerm :: int
  rvCandidateId :: int
  rvLastLogIndex :: int
  rvLastLogTerm :: int

record RequestVoteReply =
  rvrTerm :: int
  rvrVoteGranted :: bool

record 'c AppendEntriesArgs =
  aeTerm :: int
  aeLeaderId :: int
  aePrevLogIndex :: int
  aePrevLogTerm :: int
  aeEntries :: "'c Entry list"
  aeLeaderCommit :: int

record AppendEntriesReply =
  aerTerm :: int
  aerSuccess :: bool
  aerXTerm :: int
  aerXIndex :: int
  aerXLen :: int

record 'b InstallSnapshotArgs =
  isTerm :: int
  isLeaderId :: int
  isLastIncludedIndex :: int
  isLastIncludedTerm :: int
  isData :: "'b list"

record InstallSnapshotReply =
  isrTerm :: int

end
