(* ===== verification/RaftLog.thy ===== *)
theory RaftLog
  imports RaftTypes
begin

text \<open>
  Durable state and the log: \<^verbatim>\<open>persist\<close>, \<^verbatim>\<open>readPersist\<close> and \<^verbatim>\<open>Snapshot\<close> of
  \<^verbatim>\<open>raft/persister.go\<close> and the accessors of \<^verbatim>\<open>raft/help_log.go\<close>. The log is a slice whose
  element 0 stands for the entry at global index \<^verbatim>\<open>snapIndex\<close>; the lemmas describe it through
  the view \<open>entry_at\<close>, a partial map from global indices to entries, which compaction must
  leave unchanged above the compacted prefix.
\<close>

section \<open>Waking the applier\<close>

definition bEffortKick :: "('c, 'b) Raft \<Rightarrow> ('c, 'b) Raft" where
  "bEffortKick rf = rf\<lparr>wakeCh := True\<rparr>"

section \<open>Persistence\<close>

definition encodeRaftState :: "int \<times> int \<times> 'c Entry list \<times> int \<Rightarrow> 'c gob list" where
  "encodeRaftState = (\<lambda>(term, vote, l, snap).
     Encode (Encode (Encode (Encode [] (GobInt term)) (GobInt vote)) (GobLog l)) (GobInt snap))"

definition decodeRaftState :: "'c gob list \<Rightarrow> (int \<times> int \<times> 'c Entry list \<times> int) option" where
  "decodeRaftState d = do {
     (term, d) \<leftarrow> Decode gobInt d;
     (vote, d) \<leftarrow> Decode gobInt d;
     (l, d) \<leftarrow> Decode gobLog d;
     (snap, d) \<leftarrow> Decode gobInt d;
     Some (term, vote, l, snap)
   }"

definition persist :: "('c, 'b) Raft \<Rightarrow> ('c, 'b) Raft" where
  "persist rf = rf\<lparr>persister := Save (persister rf)
     (encodeRaftState (currentTerm rf, votedFor rf, log rf, snapIndex rf)) (snapshot rf)\<rparr>"

text \<open>\<open>None\<close> is \<^verbatim>\<open>panic("readPersist failed")\<close>.\<close>

definition readPersist :: "('c, 'b) Raft \<Rightarrow> 'c gob list \<Rightarrow> ('c, 'b) Raft option" where
  "readPersist rf data =
     (if data = [] then Some rf
      else case decodeRaftState data of
        None \<Rightarrow> None
      | Some (term, vote, l, snap) \<Rightarrow>
          Some (rf\<lparr>currentTerm := term, votedFor := vote, log := l, snapIndex := snap,
                   snapshot := ReadSnapshot (persister rf)\<rparr>))"

section \<open>The accessors of help\_log.go\<close>

definition getSnap :: "('c, 'b) Raft \<Rightarrow> int option" where
  "getSnap rf = map_option entTerm (nth_int (log rf) 0)"

definition setSnap :: "('c, 'b) Raft \<Rightarrow> int \<Rightarrow> ('c, 'b) Raft option" where
  "setSnap rf snapTerm = do {
     e \<leftarrow> nth_int (log rf) 0;
     l \<leftarrow> update_int (log rf) 0 (e\<lparr>entTerm := snapTerm\<rparr>);
     Some (rf\<lparr>log := l\<rparr>)
   }"

definition get :: "('c, 'b) Raft \<Rightarrow> int \<Rightarrow> 'c Entry option" where
  "get rf i = nth_int (log rf) (i - snapIndex rf)"

definition entriesFrom :: "('c, 'b) Raft \<Rightarrow> int \<Rightarrow> 'c Entry list option" where
  "entriesFrom rf start = slice_from (log rf) (start - snapIndex rf)"

definition logLength :: "('c, 'b) Raft \<Rightarrow> int" where
  "logLength rf = int (length (log rf)) + snapIndex rf"

definition append_entry :: "('c, 'b) Raft \<Rightarrow> 'c Entry \<Rightarrow> ('c, 'b) Raft" where
  "append_entry rf e = persist (bEffortKick (rf\<lparr>log := log rf @ [e]\<rparr>))"

definition batchAppend :: "('c, 'b) Raft \<Rightarrow> 'c Entry list \<Rightarrow> ('c, 'b) Raft" where
  "batchAppend rf es = persist (bEffortKick (rf\<lparr>log := log rf @ es\<rparr>))"

section \<open>Snapshot, called by the service\<close>

definition Snapshot :: "('c, 'b) Raft \<Rightarrow> int \<Rightarrow> 'b list \<Rightarrow> ('c, 'b) Raft option" where
  "Snapshot rf index snap =
     (if index \<le> snapIndex rf then Some rf
      else do {
        e \<leftarrow> get rf index;
        rest \<leftarrow> slice_from (log rf) (index - snapIndex rf + 1);
        Some (persist (rf\<lparr>log := \<lparr>entTerm = entTerm e, entCommand = None\<rparr> # rest,
                          snapIndex := index, snapshot := snap\<rparr>))
      })"

section \<open>The log as a map from global indices\<close>

text \<open>The entries above the compacted prefix.\<close>

definition entry_at :: "('c, 'b) Raft \<Rightarrow> int \<Rightarrow> 'c Entry option" where
  "entry_at rf i = (if i \<le> snapIndex rf then None else get rf i)"

definition term_at :: "('c, 'b) Raft \<Rightarrow> int \<Rightarrow> int option" where
  "term_at rf i = map_option entTerm (get rf i)"

text \<open>The well-formed log: element 0 exists and the compacted prefix is not negative.\<close>

definition log_ok :: "('c, 'b) Raft \<Rightarrow> bool" where
  "log_ok rf \<longleftrightarrow> log rf \<noteq> [] \<and> 0 \<le> snapIndex rf"

lemma get_Some_iff:
  "get rf i = Some e \<longleftrightarrow>
     snapIndex rf \<le> i \<and> i < logLength rf \<and> e = log rf ! nat (i - snapIndex rf)"
  by (auto simp: get_def logLength_def nth_int_Some_iff)

lemma get_in_range:
  "snapIndex rf \<le> i \<Longrightarrow> i < logLength rf \<Longrightarrow> get rf i = Some (log rf ! nat (i - snapIndex rf))"
  by (simp add: get_Some_iff)

lemma get_None_iff: "get rf i = None \<longleftrightarrow> i < snapIndex rf \<or> logLength rf \<le> i"
  by (auto simp: get_def logLength_def nth_int_None_iff)

lemma entriesFrom_in_range:
  "snapIndex rf \<le> i \<Longrightarrow> i \<le> logLength rf \<Longrightarrow>
   entriesFrom rf i = Some (drop (nat (i - snapIndex rf)) (log rf))"
  by (simp add: entriesFrom_def slice_from_def logLength_def)

lemma log_ok_logLength: "log_ok rf \<Longrightarrow> snapIndex rf < logLength rf"
  by (cases "log rf") (auto simp: log_ok_def logLength_def)

lemma get_last: "log_ok rf \<Longrightarrow> get rf (logLength rf - 1) = Some (last (log rf))"
  by (auto simp: log_ok_def get_def logLength_def nth_int_def last_conv_nth nat_diff_distrib
      Suc_le_eq)

section \<open>Durability\<close>

text \<open>
  \<open>durable\<close>: the persister holds exactly the state that a crash must not lose. A peer that
  has never persisted still has the state it was created with.
\<close>

definition persistent_state :: "('c, 'b) Raft \<Rightarrow> int \<times> int \<times> 'c Entry list \<times> int" where
  "persistent_state rf = (currentTerm rf, votedFor rf, log rf, snapIndex rf)"

definition fresh_state :: "int \<times> int \<times> 'c Entry list \<times> int" where
  "fresh_state = (0, - 1, [\<lparr>entTerm = - 1, entCommand = None\<rparr>], 0)"

definition durable :: "('c, 'b) Raft \<Rightarrow> bool" where
  "durable rf \<longleftrightarrow> psnapshot (persister rf) = snapshot rf \<and>
     (raftstate (persister rf) = encodeRaftState (persistent_state rf) \<or>
      raftstate (persister rf) = [] \<and> persistent_state rf = fresh_state \<and> snapshot rf = [])"

interpretation raftstate: codec encodeRaftState decodeRaftState
  by unfold_locales (auto simp: encodeRaftState_def decodeRaftState_def Encode_def)

lemma encodeRaftState_not_Nil [simp]: "encodeRaftState p \<noteq> []" "[] \<noteq> encodeRaftState p"
  by (cases p, simp add: encodeRaftState_def Encode_def)+

lemma persist_durable [simp]: "durable (persist rf)"
  by (simp add: durable_def persist_def Save_def clone_def persistent_state_def)

lemma persist_frame [simp]:
  "npeers (persist rf) = npeers rf" "me (persist rf) = me rf" "dead (persist rf) = dead rf"
  "wakeCh (persist rf) = wakeCh rf" "currentTerm (persist rf) = currentTerm rf"
  "state (persist rf) = state rf" "votedFor (persist rf) = votedFor rf"
  "lastTouchedAt (persist rf) = lastTouchedAt rf" "log (persist rf) = log rf"
  "commitIndex (persist rf) = commitIndex rf" "lastApplied (persist rf) = lastApplied rf"
  "nextIndex (persist rf) = nextIndex rf" "matchIndex (persist rf) = matchIndex rf"
  "snapIndex (persist rf) = snapIndex rf" "snapshot (persist rf) = snapshot rf"
  "replicators (persist rf) = replicators rf"
  by (simp_all add: persist_def)

lemma bEffortKick_frame [simp]:
  "npeers (bEffortKick rf) = npeers rf" "me (bEffortKick rf) = me rf"
  "persister (bEffortKick rf) = persister rf" "currentTerm (bEffortKick rf) = currentTerm rf"
  "state (bEffortKick rf) = state rf" "votedFor (bEffortKick rf) = votedFor rf"
  "lastTouchedAt (bEffortKick rf) = lastTouchedAt rf" "log (bEffortKick rf) = log rf"
  "commitIndex (bEffortKick rf) = commitIndex rf" "lastApplied (bEffortKick rf) = lastApplied rf"
  "nextIndex (bEffortKick rf) = nextIndex rf" "matchIndex (bEffortKick rf) = matchIndex rf"
  "snapIndex (bEffortKick rf) = snapIndex rf" "snapshot (bEffortKick rf) = snapshot rf"
  "replicators (bEffortKick rf) = replicators rf" "dead (bEffortKick rf) = dead rf"
  by (simp_all add: bEffortKick_def)

text \<open>Only the fields that \<open>durable\<close> mentions matter for it.\<close>

lemma durable_cong:
  "persister rf' = persister rf \<Longrightarrow> currentTerm rf' = currentTerm rf \<Longrightarrow>
   votedFor rf' = votedFor rf \<Longrightarrow> log rf' = log rf \<Longrightarrow> snapIndex rf' = snapIndex rf \<Longrightarrow>
   snapshot rf' = snapshot rf \<Longrightarrow> durable rf' = durable rf"
  by (simp add: durable_def persistent_state_def)

lemma get_cong:
  "log rf' = log rf \<Longrightarrow> snapIndex rf' = snapIndex rf \<Longrightarrow> get rf' = get rf"
  by (simp add: get_def fun_eq_iff)

lemma logLength_cong:
  "log rf' = log rf \<Longrightarrow> snapIndex rf' = snapIndex rf \<Longrightarrow> logLength rf' = logLength rf"
  by (simp add: logLength_def)

lemma get_persist [simp]: "get (persist rf) = get rf"
  and get_bEffortKick [simp]: "get (bEffortKick rf) = get rf"
  and logLength_persist [simp]: "logLength (persist rf) = logLength rf"
  and logLength_bEffortKick [simp]: "logLength (bEffortKick rf) = logLength rf"
  by (simp_all add: get_def fun_eq_iff logLength_def)

text \<open>Reading back what a durable peer persisted restores its durable state.\<close>

lemma readPersist_durable:
  assumes "durable rf" and "persister rf' = persister rf"
    and "persistent_state rf' = fresh_state" and "snapshot rf' = []"
  shows "\<exists>rf''. readPersist rf' (ReadRaftState (persister rf)) = Some rf'' \<and>
    persistent_state rf'' = persistent_state rf \<and> snapshot rf'' = snapshot rf"
proof (cases "raftstate (persister rf) = []")
  case True
  with assms show ?thesis
    by (auto simp: durable_def readPersist_def ReadRaftState_def clone_def)
next
  case False
  with assms(1) have "raftstate (persister rf) = encodeRaftState (persistent_state rf)"
    and "psnapshot (persister rf) = snapshot rf"
    by (auto simp: durable_def)
  then show ?thesis
    using assms(2) by (simp add: readPersist_def ReadRaftState_def ReadSnapshot_def clone_def
        raftstate.dec_enc persistent_state_def)
qed

section \<open>Compaction keeps the log above the snapshot\<close>

lemma Snapshot_spec:
  assumes "log_ok rf" "snapIndex rf < index" "index < logLength rf"
  shows "\<exists>rf'. Snapshot rf index snap = Some rf' \<and> log_ok rf' \<and> snapIndex rf' = index \<and>
    logLength rf' = logLength rf \<and> snapshot rf' = snap \<and> durable rf' \<and>
    (\<forall>i. index < i \<longrightarrow> get rf' i = get rf i) \<and> term_at rf' index = term_at rf index"
proof -
  let ?k = "nat (index - snapIndex rf)"
  let ?rest = "drop (Suc ?k) (log rf)"
  from assms have g: "get rf index = Some (log rf ! ?k)"
    by (intro get_in_range) auto
  have s: "slice_from (log rf) (index - snapIndex rf + 1) = Some ?rest"
    using assms by (auto simp: slice_from_def logLength_def nat_add_distrib)
  let ?rf = "rf\<lparr>log := \<lparr>entTerm = entTerm (log rf ! ?k), entCommand = None\<rparr> # ?rest,
                snapIndex := index, snapshot := snap\<rparr>"
  have *: "Snapshot rf index snap = Some (persist ?rf)"
    using assms g s by (simp add: Snapshot_def)
  have len: "logLength ?rf = logLength rf"
    using assms by (auto simp: logLength_def)
  have "get ?rf i = get rf i" if "index < i" for i
    using that assms
    by (auto simp: get_def nth_int_def logLength_def nth_Cons' nat_diff_distrib
        intro!: arg_cong [where f = "nth (log rf)"])
  moreover have "term_at ?rf index = term_at rf index"
    using g by (simp add: term_at_def get_def nth_int_def)
  ultimately show ?thesis
    using assms * len by (auto simp: log_ok_def term_at_def)
qed

end
