(* ===== verification/RaftElection.thy ===== *)
theory RaftElection
  imports RaftLog
begin

text \<open>
  Leader election on one peer: \<^verbatim>\<open>raft/help_election.go\<close>, \<^verbatim>\<open>raft/election.go\<close> and the
  constructor, ticker and accessors of \<^verbatim>\<open>raft/raft.go\<close>. Operations that read the clock take
  the time \<open>now\<close>. A goroutine that takes \<^verbatim>\<open>rf.mu\<close> more than once is one definition per
  critical section: \<open>voteArgs\<close> and \<open>voteReply\<close> are the two halves of the goroutine that
  \<^verbatim>\<open>collectOpinion\<close> starts for each peer.
\<close>

section \<open>help\_election.go\<close>

definition toFollower :: "('c, 'b) Raft \<Rightarrow> ('c, 'b) Raft" where
  "toFollower rf = rf\<lparr>state := Follower\<rparr>"

definition becomeCandidate :: "('c, 'b) Raft \<Rightarrow> ('c, 'b) Raft" where
  "becomeCandidate rf = persist (rf\<lparr>currentTerm := currentTerm rf + 1, state := Candidate,
     votedFor := int (me rf)\<rparr>)"

definition becomeLeader :: "('c, 'b) Raft \<Rightarrow> ('c, 'b) Raft" where
  "becomeLeader rf =
     (let lastLogIndex = logLength rf - 1; peers = [0..<npeers rf] in
      rf\<lparr>state := Leader,
         nextIndex := map (\<lambda>i. if i = me rf then - 1 else lastLogIndex + 1) peers,
         matchIndex := map (\<lambda>i. if i = me rf then - 1 else 0) peers,
         replicators := replicators rf @ filter (\<lambda>i. i \<noteq> me rf) peers\<rparr>)"

definition newGen :: "('c, 'b) Raft \<Rightarrow> int \<Rightarrow> ('c, 'b) Raft" where
  "newGen rf term = persist (rf\<lparr>currentTerm := term, state := Follower, votedFor := - 1\<rparr>)"

definition tryVotingFor :: "int \<Rightarrow> ('c, 'b) Raft \<Rightarrow> int \<Rightarrow> int \<Rightarrow> int \<Rightarrow> (('c, 'b) Raft \<times> bool) option" where
  "tryVotingFor now rf candidate lastLogIndex lastLogTerm = do {
     let myLastIndex = logLength rf - 1;
     e \<leftarrow> get rf myLastIndex;
     let myLastTerm = entTerm e;
     let upToDate = (lastLogTerm > myLastTerm \<or>
                     (lastLogTerm = myLastTerm \<and> lastLogIndex \<ge> myLastIndex));
     Some (if (votedFor rf = - 1 \<or> votedFor rf = candidate) \<and> upToDate
           then ((persist (rf\<lparr>votedFor := candidate\<rparr>))\<lparr>lastTouchedAt := now\<rparr>, True)
           else (rf, False))
   }"

definition touched :: "int \<Rightarrow> ('c, 'b) Raft \<Rightarrow> ('c, 'b) Raft" where
  "touched now rf = rf\<lparr>lastTouchedAt := now\<rparr>"

definition min_go :: "int \<Rightarrow> int \<Rightarrow> int" where
  "min_go a b = (if a \<le> b then a else b)"

section \<open>election.go\<close>

text \<open>The first critical section of a vote goroutine: building the arguments.\<close>

definition voteArgs :: "('c, 'b) Raft \<Rightarrow> RequestVoteArgs option" where
  "voteArgs rf = do {
     let lastLogIndex = logLength rf - 1;
     e \<leftarrow> get rf lastLogIndex;
     Some \<lparr>rvTerm = currentTerm rf, rvCandidateId = int (me rf),
           rvLastLogIndex = lastLogIndex, rvLastLogTerm = entTerm e\<rparr>
   }"

text \<open>
  Its second critical section: the reply. \<open>supporter\<close> is the counter shared by the goroutines
  of one \<^verbatim>\<open>collectOpinion\<close> call.
\<close>

definition voteReply ::
  "('c, 'b) Raft \<Rightarrow> nat \<Rightarrow> RequestVoteArgs \<Rightarrow> RequestVoteReply \<Rightarrow> ('c, 'b) Raft \<times> nat" where
  "voteReply rf supporter args reply =
     (let rf = (if rvrTerm reply > currentTerm rf then newGen rf (rvrTerm reply) else rf) in
      if rvrVoteGranted reply \<and> state rf = Candidate \<and> currentTerm rf = rvTerm args
      then let supporter = supporter + 1 in
           (if supporter > npeers rf div 2 then becomeLeader rf else rf, supporter)
      else (rf, supporter))"

definition RequestVote ::
  "int \<Rightarrow> ('c, 'b) Raft \<Rightarrow> RequestVoteArgs \<Rightarrow> (('c, 'b) Raft \<times> RequestVoteReply) option" where
  "RequestVote now rf args =
     (let rf = (if rvTerm args > currentTerm rf then newGen rf (rvTerm args) else rf) in
      if rvTerm args < currentTerm rf
      then Some (rf, \<lparr>rvrTerm = currentTerm rf, rvrVoteGranted = False\<rparr>)
      else do {
        (rf, granted) \<leftarrow>
          tryVotingFor now rf (rvCandidateId args) (rvLastLogIndex args) (rvLastLogTerm args);
        Some (rf, \<lparr>rvrTerm = currentTerm rf, rvrVoteGranted = granted\<rparr>)
      })"

section \<open>raft.go\<close>

definition initRaft :: "nat \<Rightarrow> nat \<Rightarrow> ('c, 'b) Persister \<Rightarrow> int \<Rightarrow> ('c, 'b) Raft" where
  "initRaft n i ps now =
     \<lparr>npeers = n, persister = ps, me = i, dead = False, wakeCh = False,
      currentTerm = 0, state = Follower, votedFor = - 1, lastTouchedAt = now,
      log = [\<lparr>entTerm = - 1, entCommand = None\<rparr>], commitIndex = 0, lastApplied = 0,
      nextIndex = [], matchIndex = [], snapIndex = 0, snapshot = [], replicators = []\<rparr>"

definition Make :: "nat \<Rightarrow> nat \<Rightarrow> ('c, 'b) Persister \<Rightarrow> int \<Rightarrow> ('c, 'b) Raft option" where
  "Make n i ps now = readPersist (initRaft n i ps now) (ReadRaftState ps)"

text \<open>
  One iteration of the ticker; the second component says whether
  \<^verbatim>\<open>go rf.collectOpinion()\<close> was executed.
\<close>

definition tick :: "int \<Rightarrow> ('c, 'b) Raft \<Rightarrow> ('c, 'b) Raft \<times> bool" where
  "tick now rf =
     (if now - lastTouchedAt rf > SELECTION_TIMEOUT \<and> state rf \<noteq> Leader
      then (becomeCandidate rf, True) else (rf, False))"

definition Kill :: "('c, 'b) Raft \<Rightarrow> ('c, 'b) Raft" where
  "Kill rf = rf\<lparr>dead := True\<rparr>"

definition killed :: "('c, 'b) Raft \<Rightarrow> bool" where
  "killed rf = dead rf"

definition GetState :: "('c, 'b) Raft \<Rightarrow> int \<times> bool" where
  "GetState rf = (if killed rf then (- 1, False) else (currentTerm rf, state rf = Leader))"

section \<open>Facts\<close>

lemmas election_defs = toFollower_def becomeCandidate_def becomeLeader_def newGen_def
  touched_def

lemma newGen_simps [simp]:
  "npeers (newGen rf t) = npeers rf" "me (newGen rf t) = me rf" "dead (newGen rf t) = dead rf"
  "currentTerm (newGen rf t) = t" "state (newGen rf t) = Follower" "votedFor (newGen rf t) = - 1"
  "log (newGen rf t) = log rf" "snapIndex (newGen rf t) = snapIndex rf"
  "commitIndex (newGen rf t) = commitIndex rf" "lastApplied (newGen rf t) = lastApplied rf"
  "nextIndex (newGen rf t) = nextIndex rf" "matchIndex (newGen rf t) = matchIndex rf"
  "snapshot (newGen rf t) = snapshot rf" "durable (newGen rf t)"
  "get (newGen rf t) = get rf" "logLength (newGen rf t) = logLength rf"
  "log_ok (newGen rf t) = log_ok rf" "lastTouchedAt (newGen rf t) = lastTouchedAt rf"
  by (simp_all add: newGen_def log_ok_def get_def logLength_def fun_eq_iff)

lemma becomeCandidate_simps [simp]:
  "npeers (becomeCandidate rf) = npeers rf" "me (becomeCandidate rf) = me rf"
  "currentTerm (becomeCandidate rf) = currentTerm rf + 1"
  "state (becomeCandidate rf) = Candidate" "votedFor (becomeCandidate rf) = int (me rf)"
  "log (becomeCandidate rf) = log rf" "snapIndex (becomeCandidate rf) = snapIndex rf"
  "commitIndex (becomeCandidate rf) = commitIndex rf"
  "lastApplied (becomeCandidate rf) = lastApplied rf"
  "nextIndex (becomeCandidate rf) = nextIndex rf" "matchIndex (becomeCandidate rf) = matchIndex rf"
  "snapshot (becomeCandidate rf) = snapshot rf" "durable (becomeCandidate rf)"
  "lastTouchedAt (becomeCandidate rf) = lastTouchedAt rf"
  by (simp_all add: becomeCandidate_def)

lemma becomeLeader_simps [simp]:
  "npeers (becomeLeader rf) = npeers rf" "me (becomeLeader rf) = me rf"
  "currentTerm (becomeLeader rf) = currentTerm rf" "state (becomeLeader rf) = Leader"
  "votedFor (becomeLeader rf) = votedFor rf" "log (becomeLeader rf) = log rf"
  "snapIndex (becomeLeader rf) = snapIndex rf" "commitIndex (becomeLeader rf) = commitIndex rf"
  "lastApplied (becomeLeader rf) = lastApplied rf" "snapshot (becomeLeader rf) = snapshot rf"
  "persister (becomeLeader rf) = persister rf" "durable (becomeLeader rf) = durable rf"
  "length (nextIndex (becomeLeader rf)) = npeers rf"
  "length (matchIndex (becomeLeader rf)) = npeers rf"
  by (simp_all add: becomeLeader_def Let_def durable_def persistent_state_def)

lemma voteArgs_ok:
  "log_ok rf \<Longrightarrow> voteArgs rf = Some \<lparr>rvTerm = currentTerm rf, rvCandidateId = int (me rf),
     rvLastLogIndex = logLength rf - 1, rvLastLogTerm = entTerm (last (log rf))\<rparr>"
  by (simp add: voteArgs_def get_last)

text \<open>A vote is granted exactly when the peer is free to vote and the candidate is up to date.\<close>

definition up_to_date :: "('c, 'b) Raft \<Rightarrow> int \<Rightarrow> int \<Rightarrow> bool" where
  "up_to_date rf lastLogIndex lastLogTerm \<longleftrightarrow>
     lastLogTerm > entTerm (last (log rf)) \<or>
     (lastLogTerm = entTerm (last (log rf)) \<and> lastLogIndex \<ge> logLength rf - 1)"

lemma tryVotingFor_ok:
  assumes "log_ok rf"
  shows "tryVotingFor now rf candidate lli llt =
    Some (if (votedFor rf = - 1 \<or> votedFor rf = candidate) \<and> up_to_date rf lli llt
          then ((persist (rf\<lparr>votedFor := candidate\<rparr>))\<lparr>lastTouchedAt := now\<rparr>, True)
          else (rf, False))"
  using assms by (simp add: tryVotingFor_def get_last up_to_date_def)

lemma up_to_date_newGen [simp]: "up_to_date (newGen rf t) = up_to_date rf"
  by (simp add: up_to_date_def fun_eq_iff)

end
