(* ===== verification/RaftReplicate.thy ===== *)
theory RaftReplicate
  imports RaftElection
begin

text \<open>
  Log replication and snapshot transfer: \<^verbatim>\<open>raft/help_replicate.go\<close>, \<^verbatim>\<open>raft/replicate.go\<close>
  and \<^verbatim>\<open>raft/install.go\<close>, with one definition per critical section.
\<close>

section \<open>help\_replicate.go\<close>

text \<open>The inner loop of \<^verbatim>\<open>updateCommitIndex\<close>: how many peers hold index \<open>N\<close>.\<close>

fun count_match :: "('c, 'b) Raft \<Rightarrow> int \<Rightarrow> nat list \<Rightarrow> nat \<Rightarrow> nat option" where
  "count_match rf N [] count = Some count"
| "count_match rf N (i # is) count =
     (if i = me rf then count_match rf N is (count + 1)
      else do {
        m \<leftarrow> nth_int (matchIndex rf) (int i);
        count_match rf N is (if m \<ge> N then count + 1 else count)
      })"

function commit_loop :: "('c, 'b) Raft \<Rightarrow> int \<Rightarrow> ('c, 'b) Raft option" where
  "commit_loop rf N =
     (if N > commitIndex rf \<and> N > snapIndex rf then do {
        count \<leftarrow> count_match rf N [0..<npeers rf] 0;
        if count > npeers rf div 2 then do {
          e \<leftarrow> get rf N;
          if entTerm e = currentTerm rf
          then Some (bEffortKick (rf\<lparr>commitIndex := N\<rparr>))
          else commit_loop rf (N - 1)
        } else commit_loop rf (N - 1)
      } else Some rf)"
  by pat_completeness auto
termination
  by (relation "measure (\<lambda>(rf, N). nat (N - commitIndex rf))") auto

declare commit_loop.simps [simp del]

definition updateCommitIndex :: "('c, 'b) Raft \<Rightarrow> ('c, 'b) Raft option" where
  "updateCommitIndex rf = commit_loop rf (logLength rf - 1)"

function lastIndex_loop :: "('c, 'b) Raft \<Rightarrow> int \<Rightarrow> int \<Rightarrow> int option" where
  "lastIndex_loop rf term i =
     (if i > snapIndex rf then do {
        e \<leftarrow> get rf i;
        if entTerm e = term then Some i else lastIndex_loop rf term (i - 1)
      } else Some (- 1))"
  by pat_completeness auto
termination
  by (relation "measure (\<lambda>(rf, term, i). nat (i - snapIndex rf))") auto

declare lastIndex_loop.simps [simp del]

definition lastIndexOfTerm :: "('c, 'b) Raft \<Rightarrow> int \<Rightarrow> int option" where
  "lastIndexOfTerm rf term = lastIndex_loop rf term (logLength rf - 1)"

definition setNextIndex :: "('c, 'b) Raft \<Rightarrow> nat \<Rightarrow> int \<Rightarrow> ('c, 'b) Raft option" where
  "setNextIndex rf server v = do {
     ni \<leftarrow> update_int (nextIndex rf) (int server) v;
     Some (rf\<lparr>nextIndex := ni\<rparr>)
   }"

definition stepBack :: "('c, 'b) Raft \<Rightarrow> nat \<Rightarrow> int \<Rightarrow> int \<Rightarrow> int \<Rightarrow> ('c, 'b) Raft option" where
  "stepBack rf server xTerm xIndex xLen =
     (if xTerm = - 1 then setNextIndex rf server (min_go xLen (logLength rf))
      else do {
        term \<leftarrow> lastIndexOfTerm rf xTerm;
        if term \<noteq> - 1 then setNextIndex rf server (term + 1)
        else setNextIndex rf server xIndex
      })"

function reconcile_loop ::
  "('c, 'b) Raft \<Rightarrow> int \<Rightarrow> int \<Rightarrow> 'c Entry list \<Rightarrow> (('c, 'b) Raft \<times> int) option" where
  "reconcile_loop rf myIdx yourIdx entries =
     (if myIdx < logLength rf \<and> yourIdx < int (length entries) then do {
        mine \<leftarrow> get rf myIdx;
        yours \<leftarrow> nth_int entries yourIdx;
        if entTerm mine \<noteq> entTerm yours then do {
          l \<leftarrow> slice_to (log rf) (myIdx - snapIndex rf);
          Some (rf\<lparr>log := l\<rparr>, yourIdx)
        } else reconcile_loop rf (myIdx + 1) (yourIdx + 1) entries
      } else Some (rf, yourIdx))"
  by pat_completeness auto
termination
  by (relation "measure (\<lambda>(rf, myIdx, yourIdx, entries). nat (int (length entries) - yourIdx))") auto

declare reconcile_loop.simps [simp del]

definition reconcileEntries ::
  "('c, 'b) Raft \<Rightarrow> int \<Rightarrow> int \<Rightarrow> 'c Entry list \<Rightarrow> ('c, 'b) Raft option" where
  "reconcileEntries rf myIdx yourIdx entries = do {
     (rf, yourIdx) \<leftarrow> reconcile_loop rf myIdx yourIdx entries;
     rest \<leftarrow> slice_from entries yourIdx;
     Some (batchAppend rf rest)
   }"

definition tryUpdateCommit :: "('c, 'b) Raft \<Rightarrow> int \<Rightarrow> ('c, 'b) Raft" where
  "tryUpdateCommit rf leaderCommit =
     (if leaderCommit > commitIndex rf
      then let rf = rf\<lparr>commitIndex := min_go leaderCommit (logLength rf - 1)\<rparr> in
           if commitIndex rf > lastApplied rf then bEffortKick rf else rf
      else rf)"

section \<open>replicate.go: the follower\<close>

text \<open>The loop that moves \<^verbatim>\<open>xIndex\<close> to the first entry of the conflicting term.\<close>

function xIndex_loop :: "('c, 'b) Raft \<Rightarrow> int \<Rightarrow> int \<Rightarrow> int option" where
  "xIndex_loop rf xTerm xIndex =
     (if xIndex - 1 \<ge> snapIndex rf + 1 then do {
        e \<leftarrow> get rf (xIndex - 1);
        if entTerm e = xTerm then xIndex_loop rf xTerm (xIndex - 1) else Some xIndex
      } else Some xIndex)"
  by pat_completeness auto
termination
  by (relation "measure (\<lambda>(rf, xTerm, xIndex). nat (xIndex - snapIndex rf))") auto

declare xIndex_loop.simps [simp del]

text \<open>The reply struct as the RPC layer allocates it: every field zero.\<close>

definition zeroReply :: AppendEntriesReply where
  "zeroReply = \<lparr>aerTerm = 0, aerSuccess = False, aerXTerm = 0, aerXIndex = 0, aerXLen = 0\<rparr>"

text \<open>
  The part of the handler that runs once the sender's term is known to be current: the
  consistency check and the reconciliation.
\<close>

definition AppendEntries_log ::
  "('c, 'b) Raft \<Rightarrow> 'c AppendEntriesArgs \<Rightarrow> (('c, 'b) Raft \<times> AppendEntriesReply) option" where
  "AppendEntries_log rf args =
     (if aePrevLogIndex args \<le> snapIndex rf
      then let reply = zeroReply\<lparr>aerTerm := currentTerm rf, aerSuccess := True\<rparr>;
               appendStart = snapIndex rf - aePrevLogIndex args in
           if appendStart \<ge> int (length (aeEntries args))
           then Some (tryUpdateCommit rf (aeLeaderCommit args), reply)
           else do {
             rf \<leftarrow> reconcileEntries rf (snapIndex rf + 1) appendStart (aeEntries args);
             Some (tryUpdateCommit rf (aeLeaderCommit args), reply)
           }
      else if aePrevLogIndex args \<ge> logLength rf
      then Some (rf, zeroReply\<lparr>aerXTerm := - 1, aerXIndex := - 1, aerXLen := logLength rf,
                               aerTerm := currentTerm rf, aerSuccess := False\<rparr>)
      else do {
        e \<leftarrow> get rf (aePrevLogIndex args);
        if entTerm e \<noteq> aePrevLogTerm args then do {
          xIndex \<leftarrow> xIndex_loop rf (entTerm e) (aePrevLogIndex args);
          Some (rf, zeroReply\<lparr>aerXTerm := entTerm e, aerXIndex := xIndex, aerXLen := - 1,
                              aerTerm := currentTerm rf, aerSuccess := False\<rparr>)
        } else do {
          rf \<leftarrow> reconcileEntries rf (aePrevLogIndex args + 1) 0 (aeEntries args);
          let rf = tryUpdateCommit rf (aeLeaderCommit args);
          Some (rf, zeroReply\<lparr>aerTerm := currentTerm rf, aerSuccess := True\<rparr>)
        }
      })"

definition AppendEntries ::
  "int \<Rightarrow> ('c, 'b) Raft \<Rightarrow> 'c AppendEntriesArgs \<Rightarrow> (('c, 'b) Raft \<times> AppendEntriesReply) option" where
  "AppendEntries now rf args =
     (let rf = (if aeTerm args > currentTerm rf then newGen rf (aeTerm args)
                else if state rf = Candidate \<and> aeTerm args = currentTerm rf then toFollower rf
                else rf) in
      if aeTerm args < currentTerm rf
      then Some (rf, zeroReply\<lparr>aerTerm := currentTerm rf, aerSuccess := False\<rparr>)
      else AppendEntries_log (touched now rf) args)"

section \<open>install.go\<close>

text \<open>The two critical sections of \<^verbatim>\<open>helpInstall\<close>, around the RPC.\<close>

definition helpInstall_args :: "('c, 'b) Raft \<Rightarrow> 'b InstallSnapshotArgs option" where
  "helpInstall_args rf = do {
     t \<leftarrow> getSnap rf;
     Some \<lparr>isTerm = currentTerm rf, isLeaderId = int (me rf),
           isLastIncludedIndex = snapIndex rf, isLastIncludedTerm = t, isData = snapshot rf\<rparr>
   }"

definition helpInstall_reply ::
  "('c, 'b) Raft \<Rightarrow> nat \<Rightarrow> 'b InstallSnapshotArgs \<Rightarrow> InstallSnapshotReply \<Rightarrow> ('c, 'b) Raft option" where
  "helpInstall_reply rf i args reply =
     (if isrTerm reply > currentTerm rf then Some (newGen rf (isrTerm reply))
      else do {
        mi \<leftarrow> update_int (matchIndex rf) (int i) (isLastIncludedIndex args);
        ni \<leftarrow> update_int (nextIndex rf) (int i) (isLastIncludedIndex args + 1);
        Some (rf\<lparr>matchIndex := mi, nextIndex := ni\<rparr>)
      })"

text \<open>
  The handler. The third component lists the message that the goroutine started at the end
  sends on \<^verbatim>\<open>applyCh\<close>.
\<close>

definition InstallSnapshot ::
  "int \<Rightarrow> ('c, 'b) Raft \<Rightarrow> 'b InstallSnapshotArgs \<Rightarrow>
   (('c, 'b) Raft \<times> InstallSnapshotReply \<times> ('c, 'b) ApplyMsg list) option" where
  "InstallSnapshot now rf args =
     (if isTerm args < currentTerm rf then Some (rf, \<lparr>isrTerm = currentTerm rf\<rparr>, [])
      else
        let rf = (if isTerm args > currentTerm rf then newGen rf (isTerm args) else rf);
            rf = touched now rf in
        if isLastIncludedIndex args \<le> snapIndex rf
        then Some (rf, \<lparr>isrTerm = currentTerm rf\<rparr>, [])
        else do {
          newLog \<leftarrow> (if isLastIncludedIndex args < logLength rf - 1
                     then map_option (\<lambda>es. \<lparr>entTerm = 0, entCommand = None\<rparr> # es)
                            (entriesFrom rf (isLastIncludedIndex args + 1))
                     else Some [\<lparr>entTerm = 0, entCommand = None\<rparr>]);
          rf \<leftarrow> setSnap (rf\<lparr>log := newLog, snapIndex := isLastIncludedIndex args\<rparr>)
                  (isLastIncludedTerm args);
          let rf = persist (rf\<lparr>snapshot := isData args\<rparr>);
          Some (if lastApplied rf < snapIndex rf
                then (rf\<lparr>lastApplied := snapIndex rf, commitIndex := snapIndex rf\<rparr>,
                      \<lparr>isrTerm = currentTerm rf\<rparr>,
                      [\<lparr>amCommandValid = False, amCommand = None, amCommandIndex = 0,
                        amSnapshotValid = True, amSnapshot = isData args,
                        amSnapshotTerm = isLastIncludedTerm args,
                        amSnapshotIndex = isLastIncludedIndex args\<rparr>])
                else (rf, \<lparr>isrTerm = currentTerm rf\<rparr>, []))
        })"

section \<open>replicate.go: the leader\<close>

text \<open>
  \<^verbatim>\<open>singleAppend\<close> up to the RPC: what the replicator of peer \<open>i\<close> sends, and, after it, how
  the reply is processed. The boolean is the value of \<^verbatim>\<open>retry\<close>.
\<close>

datatype ('c, 'b) AppendPlan =
  NotLeader | SendSnapshot "'b InstallSnapshotArgs" | SendEntries "'c AppendEntriesArgs"

definition singleAppend_args :: "('c, 'b) Raft \<Rightarrow> nat \<Rightarrow> ('c, 'b) AppendPlan option" where
  "singleAppend_args rf i =
     (if state rf \<noteq> Leader then Some NotLeader
      else do {
        ni \<leftarrow> nth_int (nextIndex rf) (int i);
        let prevLogIndex = ni - 1;
        if prevLogIndex < snapIndex rf then map_option SendSnapshot (helpInstall_args rf)
        else do {
          e \<leftarrow> get rf prevLogIndex;
          es \<leftarrow> entriesFrom rf (prevLogIndex + 1);
          Some (SendEntries
            \<lparr>aeTerm = currentTerm rf, aeLeaderId = int (me rf), aePrevLogIndex = prevLogIndex,
             aePrevLogTerm = entTerm e, aeEntries = es, aeLeaderCommit = commitIndex rf\<rparr>)
        }
      })"

definition singleAppend_reply ::
  "('c, 'b) Raft \<Rightarrow> nat \<Rightarrow> 'c AppendEntriesArgs \<Rightarrow> AppendEntriesReply \<Rightarrow>
   (('c, 'b) Raft \<times> bool) option" where
  "singleAppend_reply rf i args reply =
     (if aerTerm reply > currentTerm rf then Some (newGen rf (aerTerm reply), False)
      else if currentTerm rf \<noteq> aeTerm args \<or> state rf \<noteq> Leader then Some (rf, False)
      else if \<not> aerSuccess reply then do {
        rf \<leftarrow> stepBack rf i (aerXTerm reply) (aerXIndex reply) (aerXLen reply);
        Some (rf, True)
      } else do {
        let m = aePrevLogIndex args + int (length (aeEntries args));
        mi \<leftarrow> update_int (matchIndex rf) (int i) m;
        ni \<leftarrow> update_int (nextIndex rf) (int i) (m + 1);
        rf \<leftarrow> updateCommitIndex (rf\<lparr>matchIndex := mi, nextIndex := ni\<rparr>);
        Some (rf, False)
      })"

end
