(* ===== verification/RaftApply.thy ===== *)
theory RaftApply
  imports RaftReplicate
begin

text \<open>
  \<^verbatim>\<open>raft/log_commit.go\<close>: entries enter the log through \<open>Start\<close>, and \<open>guardKick\<close> hands the
  committed ones to the service.
\<close>

definition Start :: "('c, 'b) Raft \<Rightarrow> 'c \<Rightarrow> ('c, 'b) Raft \<times> int \<times> int \<times> bool" where
  "Start rf command =
     (if state rf \<noteq> Leader then (rf, - 1, - 1, False)
      else
        let entry = \<lparr>entTerm = currentTerm rf, entCommand = Some command\<rparr>;
            rf = append_entry rf entry in
        (rf, logLength rf - 1, currentTerm rf, state rf = Leader))"

text \<open>The loop of \<^verbatim>\<open>guardKick\<close> that fills \<^verbatim>\<open>applies\<close>; what it returns is \<^verbatim>\<open>applies[:j]\<close>.\<close>

function collect_applies :: "('c, 'b) Raft \<Rightarrow> int \<Rightarrow> int \<Rightarrow> ('c, 'b) ApplyMsg list option" where
  "collect_applies rf i stop =
     (if i \<le> stop then
        if i \<le> snapIndex rf then collect_applies rf (i + 1) stop
        else do {
          e \<leftarrow> get rf i;
          ms \<leftarrow> collect_applies rf (i + 1) stop;
          Some (\<lparr>amCommandValid = True, amCommand = entCommand e, amCommandIndex = i,
                 amSnapshotValid = False, amSnapshot = [], amSnapshotTerm = 0,
                 amSnapshotIndex = 0\<rparr> # ms)
        }
      else Some [])"
  by pat_completeness auto
termination
  by (relation "measure (\<lambda>(rf, i, stop). nat (stop + 1 - i))") auto

declare collect_applies.simps [simp del]

text \<open>
  One iteration of \<^verbatim>\<open>for range rf.wakeCh\<close>, with the messages it then sends on \<^verbatim>\<open>applyCh\<close>.
  Receiving from the channel empties its slot.
\<close>

definition guardKick :: "('c, 'b) Raft \<Rightarrow> (('c, 'b) Raft \<times> ('c, 'b) ApplyMsg list) option" where
  "guardKick rf =
     (let rf = rf\<lparr>wakeCh := False\<rparr>; start = lastApplied rf + 1; stop = commitIndex rf in
      if stop < start then Some (rf, [])
      else do {
        applies \<leftarrow> collect_applies rf start stop;
        Some (rf\<lparr>lastApplied := commitIndex rf\<rparr>, applies)
      })"

end
