(* ===== verification/RaftReplicateProps.thy ===== *)
theory RaftReplicateProps
  imports RaftApply
begin

text \<open>
  Functional correctness of replication on one peer: the reference definition of log
  reconciliation and its refinement by the loop of \<^verbatim>\<open>reconcileEntries\<close>, the commit rules of
  leader and follower, the back-tracking of \<^verbatim>\<open>nextIndex\<close>, and the in-order delivery of
  committed entries.
\<close>

section \<open>Reconciliation\<close>

text \<open>
  The receiver rules 3 and 4 of AppendEntries as one list function: \<open>mine\<close> are the follower's
  entries from the first index compared on, \<open>yours\<close> the leader's. The first conflict of terms
  discards the rest of \<open>mine\<close>; entries that do not conflict are kept.
\<close>

fun merge_entries :: "'c Entry list \<Rightarrow> 'c Entry list \<Rightarrow> 'c Entry list" where
  "merge_entries [] yours = yours"
| "merge_entries mine [] = mine"
| "merge_entries (x # mine) (y # yours) =
     (if entTerm x \<noteq> entTerm y then y # yours else x # merge_entries mine yours)"

lemma merge_entries_Nil2 [simp]: "merge_entries mine [] = mine"
  by (cases mine) auto

lemma length_merge_entries: "length yours \<le> length (merge_entries mine yours)"
  by (induction mine yours rule: merge_entries.induct) auto

lemma merge_entries_terms:
  "k < length yours \<Longrightarrow> entTerm (merge_entries mine yours ! k) = entTerm (yours ! k)"
  by (induction mine yours arbitrary: k rule: merge_entries.induct) (auto simp: nth_Cons')

lemma merge_entries_conflict:
  "k < length mine \<Longrightarrow> k < length yours \<Longrightarrow> entTerm (mine ! k) \<noteq> entTerm (yours ! k) \<Longrightarrow>
   length (merge_entries mine yours) = length yours"
proof (induction mine yours arbitrary: k rule: merge_entries.induct)
  case (3 x mine y yours)
  then show ?case by (cases k) auto
qed auto

lemma merge_entries_no_conflict:
  "(\<And>k. k < length mine \<Longrightarrow> k < length yours \<Longrightarrow> entTerm (mine ! k) = entTerm (yours ! k)) \<Longrightarrow>
   merge_entries mine yours = mine @ drop (length mine) yours"
proof (induction mine yours rule: merge_entries.induct)
  case (3 x mine y yours)
  from 3(2) [of 0] have "entTerm x = entTerm y" by simp
  moreover have "merge_entries mine yours = mine @ drop (length mine) yours"
  proof (rule 3(1))
    show "\<not> entTerm x \<noteq> entTerm y" using \<open>entTerm x = entTerm y\<close> by simp
    show "entTerm (mine ! k) = entTerm (yours ! k)"
      if "k < length mine" "k < length yours" for k
      using 3(2) [of "Suc k"] that by simp
  qed
  ultimately show ?case by simp
qed auto

text \<open>Entries of the same term at the same index are the same entry (Log Matching): then the
  merged log carries exactly the leader's entries.\<close>

lemma merge_entries_same:
  "(\<And>k. k < length mine \<Longrightarrow> k < length yours \<Longrightarrow> entTerm (mine ! k) = entTerm (yours ! k) \<Longrightarrow>
      mine ! k = yours ! k) \<Longrightarrow>
   take (length yours) (merge_entries mine yours) = yours"
proof (induction mine yours rule: merge_entries.induct)
  case (3 x mine y yours)
  show ?case
  proof (cases "entTerm x = entTerm y")
    case True
    with 3(2) [of 0] have "x = y" by simp
    moreover have "take (length yours) (merge_entries mine yours) = yours"
      using True 3(2) [of "Suc k" for k] by (intro 3(1)) auto
    ultimately show ?thesis using True by simp
  qed simp
qed auto

lemma merge_entries_idem: "merge_entries (merge_entries mine yours) yours = merge_entries mine yours"
proof (induction mine yours rule: merge_entries.induct)
  case (1 yours)
  have "merge_entries yours yours = yours @ drop (length yours) yours"
    by (rule merge_entries_no_conflict) simp
  then show ?case by simp
next
  case (3 x mine y yours)
  have "merge_entries yours yours = yours @ drop (length yours) yours"
    by (rule merge_entries_no_conflict) simp
  with 3 show ?case by auto
qed simp

text \<open>A stale message, carrying a prefix of what is already there, changes nothing.\<close>

lemma merge_entries_stale:
  "merge_entries (merge_entries mine yours) (take k yours) = merge_entries mine yours"
proof -
  have "length (take k yours) \<le> length (merge_entries mine yours)"
    using length_merge_entries [of yours mine] by simp
  moreover have "merge_entries (merge_entries mine yours) (take k yours) =
      merge_entries mine yours @ drop (length (merge_entries mine yours)) (take k yours)"
    by (rule merge_entries_no_conflict) (simp add: merge_entries_terms)
  ultimately show ?thesis by simp
qed

text \<open>The loop of \<^verbatim>\<open>reconcileEntries\<close> computes \<open>merge_entries\<close> from the first index on.\<close>

definition from_idx :: "('c, 'b) Raft \<Rightarrow> int \<Rightarrow> 'c Entry list" where
  "from_idx rf i = drop (nat (i - snapIndex rf)) (log rf)"

definition upto_idx :: "('c, 'b) Raft \<Rightarrow> int \<Rightarrow> 'c Entry list" where
  "upto_idx rf i = take (nat (i - snapIndex rf)) (log rf)"

lemma upto_from_idx [simp]: "upto_idx rf i @ from_idx rf i = log rf"
  by (simp add: upto_idx_def from_idx_def)

lemma reconcile_loop_merge:
  assumes "snapIndex rf \<le> my" "my \<le> logLength rf" "0 \<le> your" "your \<le> int (length es)"
  shows "\<exists>l' your'. reconcile_loop rf my your es = Some (rf\<lparr>log := l'\<rparr>, your') \<and>
    0 \<le> your' \<and> your' \<le> int (length es) \<and>
    l' @ drop (nat your') es = upto_idx rf my @ merge_entries (from_idx rf my) (drop (nat your) es)"
  using assms
proof (induction rf my your es rule: reconcile_loop.induct)
  case (1 rf my your es)
  note prems = "1.prems"
  show ?case
  proof (cases "my < logLength rf \<and> your < int (length es)")
    case False
    then consider "my = logLength rf" | "your = int (length es)" using prems by linarith
    then have "log rf @ drop (nat your) es =
        upto_idx rf my @ merge_entries (from_idx rf my) (drop (nat your) es)"
    proof cases
      case 1
      then have "from_idx rf my = []" by (simp add: from_idx_def logLength_def)
      then show ?thesis using upto_from_idx [of rf my] by simp
    next
      case 2
      then show ?thesis by simp
    qed
    with False prems show ?thesis
      by (subst reconcile_loop.simps) (auto intro!: exI [of _ "log rf"])
  next
    case True
    let ?x = "log rf ! nat (my - snapIndex rf)" and ?y = "es ! nat your"
    have g: "get rf my = Some ?x" and n: "nth_int es your = Some ?y"
      using True prems by (simp_all add: get_in_range nth_int_in_range)
    have fx: "from_idx rf my = ?x # from_idx rf (my + 1)"
      and ux: "upto_idx rf (my + 1) = upto_idx rf my @ [?x]"
      using True prems drop_nat_Cons [of "my - snapIndex rf" "log rf"]
        take_nat_snoc [of "my - snapIndex rf" "log rf"]
      by (simp_all add: from_idx_def upto_idx_def logLength_def algebra_simps)
    have fy: "drop (nat your) es = ?y # drop (nat (your + 1)) es"
      using True prems by (intro drop_nat_Cons) auto
    show ?thesis
    proof (cases "entTerm ?x = entTerm ?y")
      case False
      have "slice_to (log rf) (my - snapIndex rf) = Some (upto_idx rf my)"
        using True prems by (simp add: slice_to_def logLength_def upto_idx_def)
      with True g n False
      have "reconcile_loop rf my your es = Some (rf\<lparr>log := upto_idx rf my\<rparr>, your)"
        by (subst reconcile_loop.simps) simp
      moreover have "merge_entries (from_idx rf my) (drop (nat your) es) = drop (nat your) es"
        using False by (simp add: fx fy)
      ultimately show ?thesis using prems by auto
    next
      case eq: True
      obtain l' your' where IH: "reconcile_loop rf (my + 1) (your + 1) es = Some (rf\<lparr>log := l'\<rparr>, your')"
        "0 \<le> your'" "your' \<le> int (length es)"
        "l' @ drop (nat your') es =
           upto_idx rf (my + 1) @ merge_entries (from_idx rf (my + 1)) (drop (nat (your + 1)) es)"
        using "1.IH" [OF True g n] eq True prems by auto
      have "reconcile_loop rf my your es = Some (rf\<lparr>log := l'\<rparr>, your')"
        using True g n eq IH(1) by (subst reconcile_loop.simps) simp
      with IH fx fy ux eq show ?thesis by auto
    qed
  qed
qed


definition merged_log :: "('c, 'b) Raft \<Rightarrow> int \<Rightarrow> 'c Entry list \<Rightarrow> 'c Entry list" where
  "merged_log rf my es = upto_idx rf my @ merge_entries (from_idx rf my) es"

lemma reconcileEntries_refines:
  assumes "snapIndex rf \<le> my" "my \<le> logLength rf" "0 \<le> your" "your \<le> int (length es)"
  shows "reconcileEntries rf my your es =
    Some (persist (bEffortKick (rf\<lparr>log := merged_log rf my (drop (nat your) es)\<rparr>)))"
proof -
  obtain l' your' where *: "reconcile_loop rf my your es = Some (rf\<lparr>log := l'\<rparr>, your')"
    "0 \<le> your'" "your' \<le> int (length es)"
    "l' @ drop (nat your') es = merged_log rf my (drop (nat your) es)"
    using reconcile_loop_merge [OF assms] by (auto simp: merged_log_def)
  then have "slice_from es your' = Some (drop (nat your') es)"
    by (simp add: slice_from_def)
  with * show ?thesis by (simp add: reconcileEntries_def batchAppend_def)
qed

lemma length_upto_idx:
  "snapIndex rf \<le> i \<Longrightarrow> i \<le> logLength rf \<Longrightarrow> int (length (upto_idx rf i)) = i - snapIndex rf"
  by (auto simp: upto_idx_def logLength_def)

lemma merged_log_prefix:
  assumes "snapIndex rf \<le> my" "my \<le> logLength rf" "i < my"
  shows "nth_int (merged_log rf my es) (i - snapIndex rf) = get rf i"
  using assms length_upto_idx [of rf my]
  by (auto simp: merged_log_def nth_int_append get_def upto_idx_def nth_int_take)

lemma merged_log_not_Nil: "snapIndex rf < my \<Longrightarrow> log rf \<noteq> [] \<Longrightarrow> merged_log rf my es \<noteq> []"
  by (auto simp: merged_log_def upto_idx_def)

section \<open>The conflict index\<close>

lemma xIndex_loop_spec:
  assumes "snapIndex rf < x" "x \<le> logLength rf"
  shows "\<exists>x'. xIndex_loop rf t x = Some x' \<and> snapIndex rf < x' \<and> x' \<le> x \<and>
    (\<forall>i. x' \<le> i \<and> i < x \<longrightarrow> term_at rf i = Some t) \<and>
    (x' = snapIndex rf + 1 \<or> term_at rf (x' - 1) \<noteq> Some t)"
  using assms
proof (induction rf t x rule: xIndex_loop.induct)
  case (1 rf t x)
  show ?case
  proof (cases "x - 1 \<ge> snapIndex rf + 1")
    case False
    with "1.prems" show ?thesis by (subst xIndex_loop.simps) auto
  next
    case True
    let ?e = "log rf ! nat (x - 1 - snapIndex rf)"
    have g: "get rf (x - 1) = Some ?e"
      using True "1.prems" by (intro get_in_range) auto
    show ?thesis
    proof (cases "entTerm ?e = t")
      case False
      with True g "1.prems" show ?thesis
        by (subst xIndex_loop.simps) (auto simp: term_at_def)
    next
      case eq: True
      obtain x' where IH: "xIndex_loop rf t (x - 1) = Some x'" "snapIndex rf < x'" "x' \<le> x - 1"
        "\<forall>i. x' \<le> i \<and> i < x - 1 \<longrightarrow> term_at rf i = Some t"
        "x' = snapIndex rf + 1 \<or> term_at rf (x' - 1) \<noteq> Some t"
        using "1.IH" [OF True g] eq True "1.prems" by auto
      have "term_at rf i = Some t" if "x' \<le> i" "i < x" for i
        using that IH(4) g eq by (cases "i = x - 1") (auto simp: term_at_def)
      with IH True g eq show ?thesis
        by (subst xIndex_loop.simps) auto
    qed
  qed
qed

section \<open>AppendEntries\<close>

text \<open>The state in which the receiver examines a message that is not from an old term.\<close>

definition accept_term :: "int \<Rightarrow> ('c, 'b) Raft \<Rightarrow> int \<Rightarrow> ('c, 'b) Raft" where
  "accept_term now rf t = touched now
     (if t > currentTerm rf then newGen rf t
      else if state rf = Candidate \<and> t = currentTerm rf then toFollower rf else rf)"

lemma accept_term_simps [simp]:
  "log (accept_term now rf t) = log rf" "snapIndex (accept_term now rf t) = snapIndex rf"
  "commitIndex (accept_term now rf t) = commitIndex rf"
  "lastApplied (accept_term now rf t) = lastApplied rf"
  "nextIndex (accept_term now rf t) = nextIndex rf"
  "matchIndex (accept_term now rf t) = matchIndex rf"
  "snapshot (accept_term now rf t) = snapshot rf"
  "npeers (accept_term now rf t) = npeers rf" "me (accept_term now rf t) = me rf"
  "get (accept_term now rf t) = get rf" "logLength (accept_term now rf t) = logLength rf"
  "from_idx (accept_term now rf t) = from_idx rf" "upto_idx (accept_term now rf t) = upto_idx rf"
  "merged_log (accept_term now rf t) = merged_log rf"
  "log_ok (accept_term now rf t) = log_ok rf"
  by (simp_all add: accept_term_def touched_def toFollower_def get_def logLength_def from_idx_def
      upto_idx_def merged_log_def log_ok_def fun_eq_iff)

lemma accept_term_term:
  "currentTerm rf \<le> t \<Longrightarrow> currentTerm (accept_term now rf t) = t"
  by (simp add: accept_term_def touched_def toFollower_def)

lemma accept_term_durable: "durable rf \<Longrightarrow> durable (accept_term now rf t)"
  by (auto simp: accept_term_def touched_def toFollower_def durable_def persistent_state_def
      newGen_def persist_def Save_def clone_def)

lemma AppendEntries_stale:
  "aeTerm args < currentTerm rf \<Longrightarrow>
   AppendEntries now rf args = Some (rf, zeroReply\<lparr>aerTerm := currentTerm rf\<rparr>)"
  by (simp add: AppendEntries_def zeroReply_def)

text \<open>Accepting: the entries are merged in after the later of \<^verbatim>\<open>PrevLogIndex\<close> and the snapshot.\<close>

definition merge_point :: "('c, 'b) Raft \<Rightarrow> 'c AppendEntriesArgs \<Rightarrow> int" where
  "merge_point rf args = max (aePrevLogIndex args) (snapIndex rf)"

definition new_entries :: "('c, 'b) Raft \<Rightarrow> 'c AppendEntriesArgs \<Rightarrow> 'c Entry list" where
  "new_entries rf args = drop (nat (merge_point rf args - aePrevLogIndex args)) (aeEntries args)"

definition consistent_at :: "('c, 'b) Raft \<Rightarrow> 'c AppendEntriesArgs \<Rightarrow> bool" where
  "consistent_at rf args \<longleftrightarrow> aePrevLogIndex args \<le> snapIndex rf \<or>
     term_at rf (aePrevLogIndex args) = Some (aePrevLogTerm args)"

lemma AppendEntries_current:
  "currentTerm rf \<le> aeTerm args \<Longrightarrow>
   AppendEntries now rf args = AppendEntries_log (accept_term now rf (aeTerm args)) args"
  by (simp add: AppendEntries_def accept_term_def touched_def toFollower_def Let_def)

lemma tryUpdateCommit_frame [simp]:
  "log (tryUpdateCommit rf c) = log rf" "snapIndex (tryUpdateCommit rf c) = snapIndex rf"
  "currentTerm (tryUpdateCommit rf c) = currentTerm rf" "state (tryUpdateCommit rf c) = state rf"
  "votedFor (tryUpdateCommit rf c) = votedFor rf" "me (tryUpdateCommit rf c) = me rf"
  "npeers (tryUpdateCommit rf c) = npeers rf" "persister (tryUpdateCommit rf c) = persister rf"
  "snapshot (tryUpdateCommit rf c) = snapshot rf" "nextIndex (tryUpdateCommit rf c) = nextIndex rf"
  "matchIndex (tryUpdateCommit rf c) = matchIndex rf"
  "lastApplied (tryUpdateCommit rf c) = lastApplied rf"
  "lastTouchedAt (tryUpdateCommit rf c) = lastTouchedAt rf"
  "durable (tryUpdateCommit rf c) = durable rf"
  by (simp_all add: tryUpdateCommit_def Let_def durable_def persistent_state_def)

text \<open>
  The outcome of the log part, in one formula per branch: a message whose entries all lie in
  the snapshot, an accepted one, and the two rejections with their hints.
\<close>

lemma AppendEntries_log_inside:
  "aePrevLogIndex args \<le> snapIndex rf \<Longrightarrow>
   int (length (aeEntries args)) \<le> snapIndex rf - aePrevLogIndex args \<Longrightarrow>
   AppendEntries_log rf args = Some (tryUpdateCommit rf (aeLeaderCommit args),
     zeroReply\<lparr>aerTerm := currentTerm rf, aerSuccess := True\<rparr>)"
  by (simp add: AppendEntries_log_def)

lemma AppendEntries_log_merge:
  assumes "log_ok rf" "consistent_at rf args"
    "\<not> int (length (aeEntries args)) \<le> snapIndex rf - aePrevLogIndex args
     \<or> snapIndex rf < aePrevLogIndex args"
  shows "AppendEntries_log rf args =
    Some (tryUpdateCommit
            (persist (bEffortKick (rf
               \<lparr>log := merged_log rf (merge_point rf args + 1) (new_entries rf args)\<rparr>)))
            (aeLeaderCommit args),
          zeroReply\<lparr>aerTerm := currentTerm rf, aerSuccess := True\<rparr>)"
proof (cases "aePrevLogIndex args \<le> snapIndex rf")
  case True
  with assms log_ok_logLength [OF assms(1)] show ?thesis
    by (simp add: AppendEntries_log_def merge_point_def new_entries_def max_def
        reconcileEntries_refines)
next
  case False
  with assms(2) have g: "term_at rf (aePrevLogIndex args) = Some (aePrevLogTerm args)"
    by (simp add: consistent_at_def)
  then have len: "aePrevLogIndex args < logLength rf"
    by (auto simp: term_at_def get_Some_iff)
  from g obtain e where "get rf (aePrevLogIndex args) = Some e" "entTerm e = aePrevLogTerm args"
    by (auto simp: term_at_def)
  with False len show ?thesis
    by (simp add: AppendEntries_log_def merge_point_def new_entries_def max_def
        reconcileEntries_refines)
qed

lemma AppendEntries_log_too_short:
  "snapIndex rf < aePrevLogIndex args \<Longrightarrow> logLength rf \<le> aePrevLogIndex args \<Longrightarrow>
   AppendEntries_log rf args =
     Some (rf, zeroReply\<lparr>aerXTerm := - 1, aerXIndex := - 1, aerXLen := logLength rf,
                         aerTerm := currentTerm rf\<rparr>)"
  by (simp add: AppendEntries_log_def zeroReply_def)

lemma AppendEntries_log_conflict:
  assumes "snapIndex rf < aePrevLogIndex args" "term_at rf (aePrevLogIndex args) = Some t"
    "t \<noteq> aePrevLogTerm args"
  shows "\<exists>x. AppendEntries_log rf args =
      Some (rf, zeroReply\<lparr>aerXTerm := t, aerXIndex := x, aerXLen := - 1,
                          aerTerm := currentTerm rf\<rparr>) \<and>
    snapIndex rf < x \<and> x \<le> aePrevLogIndex args \<and>
    (\<forall>i. x \<le> i \<and> i \<le> aePrevLogIndex args \<longrightarrow> term_at rf i = Some t) \<and>
    (x = snapIndex rf + 1 \<or> term_at rf (x - 1) \<noteq> Some t)"
proof -
  from assms(2) obtain e where e: "get rf (aePrevLogIndex args) = Some e" "entTerm e = t"
    by (auto simp: term_at_def)
  then have len: "aePrevLogIndex args < logLength rf" by (simp add: get_Some_iff)
  obtain x where x: "xIndex_loop rf t (aePrevLogIndex args) = Some x"
    "snapIndex rf < x" "x \<le> aePrevLogIndex args"
    "\<forall>i. x \<le> i \<and> i < aePrevLogIndex args \<longrightarrow> term_at rf i = Some t"
    "x = snapIndex rf + 1 \<or> term_at rf (x - 1) \<noteq> Some t"
    using xIndex_loop_spec [of rf "aePrevLogIndex args" t] assms(1) len by auto
  have "term_at rf i = Some t" if "x \<le> i" "i \<le> aePrevLogIndex args" for i
    using that x(4) assms(2) by (cases "i = aePrevLogIndex args") auto
  with x e assms(1,3) len show ?thesis
    by (simp add: AppendEntries_log_def zeroReply_def)
qed

text \<open>Every message falls under one of the four.\<close>

lemma AppendEntries_log_cases:
  obtains (inside) "aePrevLogIndex args \<le> snapIndex rf"
      "int (length (aeEntries args)) \<le> snapIndex rf - aePrevLogIndex args"
  | (merge) "consistent_at rf args"
      "\<not> int (length (aeEntries args)) \<le> snapIndex rf - aePrevLogIndex args
       \<or> snapIndex rf < aePrevLogIndex args"
  | (too_short) "snapIndex rf < aePrevLogIndex args" "logLength rf \<le> aePrevLogIndex args"
  | (conflict) t where "snapIndex rf < aePrevLogIndex args"
      "term_at rf (aePrevLogIndex args) = Some t" "t \<noteq> aePrevLogTerm args"
proof (cases "snapIndex rf < aePrevLogIndex args")
  case False
  then show thesis
    using inside merge by (auto simp: consistent_at_def)
next
  case True
  show thesis
  proof (cases "term_at rf (aePrevLogIndex args)")
    case None
    with True have "logLength rf \<le> aePrevLogIndex args"
      by (auto simp: term_at_def get_None_iff)
    with True too_short show thesis by blast
  next
    case (Some t)
    with True merge conflict show thesis by (auto simp: consistent_at_def)
  qed
qed

end
