(* ===== verification/RaftCommitProps.thy ===== *)
theory RaftCommitProps
  imports RaftReplicateProps
begin

text \<open>
  What commits and what is applied: the leader's and the follower's commit rule, the search
  that backs \<^verbatim>\<open>nextIndex\<close> up after a rejection, the delivery of committed entries by
  \<^verbatim>\<open>guardKick\<close>, and the effect of installing a snapshot.
\<close>

section \<open>The leader's commit rule\<close>

definition replicated_on :: "('c, 'b) Raft \<Rightarrow> int \<Rightarrow> nat set" where
  "replicated_on rf N = {i. i < npeers rf \<and> (i = me rf \<or> matchIndex rf ! i \<ge> N)}"

definition committable :: "('c, 'b) Raft \<Rightarrow> int \<Rightarrow> bool" where
  "committable rf N \<longleftrightarrow> card (replicated_on rf N) > npeers rf div 2 \<and>
     term_at rf N = Some (currentTerm rf)"

lemma count_match_filter:
  "\<forall>i \<in> set is. i < length (matchIndex rf) \<Longrightarrow>
   count_match rf N is c =
     Some (c + length (filter (\<lambda>i. i = me rf \<or> matchIndex rf ! i \<ge> N) is))"
  by (induction "is" arbitrary: c) auto

lemma count_match_card:
  assumes "length (matchIndex rf) = npeers rf"
  shows "count_match rf N [0..<npeers rf] 0 = Some (card (replicated_on rf N))"
proof -
  let ?P = "\<lambda>i. i = me rf \<or> matchIndex rf ! i \<ge> N"
  have "replicated_on rf N = set (filter ?P [0..<npeers rf])"
    by (auto simp: replicated_on_def)
  then have "card (replicated_on rf N) = length (filter ?P [0..<npeers rf])"
    by (simp only: distinct_card distinct_filter distinct_upt)
  with assms show ?thesis by (subst count_match_filter) auto
qed

text \<open>
  The outcome of the search from \<open>N\<close> downwards: the greatest committable index above
  \<^verbatim>\<open>commitIndex\<close> and the snapshot, or no change when there is none.
\<close>

definition commit_outcome :: "('c, 'b) Raft \<Rightarrow> int \<Rightarrow> ('c, 'b) Raft \<Rightarrow> bool" where
  "commit_outcome rf N rf' \<longleftrightarrow>
     rf' = rf \<and> (\<forall>M. commitIndex rf < M \<and> snapIndex rf < M \<and> M \<le> N \<longrightarrow> \<not> committable rf M) \<or>
     (\<exists>M. commitIndex rf < M \<and> snapIndex rf < M \<and> M \<le> N \<and> committable rf M \<and>
        (\<forall>K. M < K \<and> K \<le> N \<longrightarrow> \<not> committable rf K) \<and>
        rf' = bEffortKick (rf\<lparr>commitIndex := M\<rparr>))"

lemma commit_outcome_here:
  "commitIndex rf < N \<Longrightarrow> snapIndex rf < N \<Longrightarrow> committable rf N \<Longrightarrow>
   commit_outcome rf N (bEffortKick (rf\<lparr>commitIndex := N\<rparr>))"
  by (auto simp: commit_outcome_def)

lemma commit_outcome_below:
  assumes "\<not> committable rf N" "commit_outcome rf (N - 1) rf'"
  shows "commit_outcome rf N rf'"
proof -
  have le: "M \<le> N \<longleftrightarrow> M = N \<or> M \<le> N - 1" for M by auto
  show ?thesis
    using assms unfolding commit_outcome_def le [of M for M] by blast
qed

lemma commit_loop_spec:
  assumes "length (matchIndex rf) = npeers rf" "N < logLength rf"
  shows "\<exists>rf'. commit_loop rf N = Some rf' \<and> commit_outcome rf N rf'"
  using assms
proof (induction rf N rule: commit_loop.induct)
  case (1 rf N)
  show ?case
  proof (cases "N > commitIndex rf \<and> N > snapIndex rf")
    case False
    then show ?thesis by (subst commit_loop.simps) (auto simp: commit_outcome_def)
  next
    case True
    let ?e = "log rf ! nat (N - snapIndex rf)" and ?c = "card (replicated_on rf N)"
    have g: "get rf N = Some ?e" using True "1.prems" by (intro get_in_range) auto
    have c: "count_match rf N [0..<npeers rf] 0 = Some ?c"
      by (rule count_match_card) (rule "1.prems")
    show ?thesis
    proof (cases "committable rf N")
      case com: True
      with True g c show ?thesis
        by (subst commit_loop.simps)
          (auto simp: committable_def term_at_def intro: commit_outcome_here)
    next
      case False
      have step: "commit_loop rf N = commit_loop rf (N - 1)"
        using True g c False
        by (subst commit_loop.simps) (auto simp: committable_def term_at_def)
      have "\<exists>rf'. commit_loop rf (N - 1) = Some rf' \<and> commit_outcome rf (N - 1) rf'"
      proof (cases "?c > npeers rf div 2")
        case maj: True
        with False g have "entTerm ?e \<noteq> currentTerm rf"
          by (simp add: committable_def term_at_def)
        with maj "1.prems" show ?thesis by (intro "1.IH"(1) [OF True c _ g]) auto
      next
        case min: False
        with "1.prems" show ?thesis by (intro "1.IH"(2) [OF True c]) auto
      qed
      with step False show ?thesis by (auto intro: commit_outcome_below)
    qed
  qed
qed

lemma updateCommitIndex_spec:
  assumes "length (matchIndex rf) = npeers rf"
  shows "\<exists>rf'. updateCommitIndex rf = Some rf' \<and> commit_outcome rf (logLength rf - 1) rf'"
  unfolding updateCommitIndex_def by (rule commit_loop_spec) (simp_all add: assms)

section \<open>The follower's commit rule\<close>

lemma tryUpdateCommit_commitIndex:
  "commitIndex (tryUpdateCommit rf c) =
     (if c > commitIndex rf then min c (logLength rf - 1) else commitIndex rf)"
  by (simp add: tryUpdateCommit_def min_go_def min_def Let_def)

section \<open>Backing up\<close>

lemma lastIndex_loop_spec:
  assumes "i < logLength rf"
  shows "(\<exists>j. lastIndex_loop rf t i = Some j \<and> snapIndex rf < j \<and> j \<le> i \<and> term_at rf j = Some t \<and>
            (\<forall>k. j < k \<and> k \<le> i \<longrightarrow> term_at rf k \<noteq> Some t)) \<or>
         (lastIndex_loop rf t i = Some (- 1) \<and>
            (\<forall>k. snapIndex rf < k \<and> k \<le> i \<longrightarrow> term_at rf k \<noteq> Some t))"
  using assms
proof (induction rf t i rule: lastIndex_loop.induct)
  case (1 rf t i)
  show ?case
  proof (cases "i > snapIndex rf")
    case False
    then show ?thesis by (subst lastIndex_loop.simps) auto
  next
    case True
    let ?e = "log rf ! nat (i - snapIndex rf)"
    have g: "get rf i = Some ?e" using True "1.prems" by (intro get_in_range) auto
    show ?thesis
    proof (cases "entTerm ?e = t")
      case eq: True
      with True g show ?thesis
        by (subst lastIndex_loop.simps) (auto simp: term_at_def)
    next
      case False
      have step: "lastIndex_loop rf t i = lastIndex_loop rf t (i - 1)"
        using True g False by (subst lastIndex_loop.simps) simp
      have ti: "term_at rf i \<noteq> Some t" using g False by (simp add: term_at_def)
      have up: "\<forall>k. j < k \<and> k \<le> i \<longrightarrow> term_at rf k \<noteq> Some t"
        if "\<forall>k. j < k \<and> k \<le> i - 1 \<longrightarrow> term_at rf k \<noteq> Some t" for j
        using that ti by (metis zle_diff1_eq order_le_less)
      show ?thesis
        using "1.IH" [OF True g False] "1.prems" up unfolding step by fastforce
    qed
  qed
qed

section \<open>Delivery\<close>

definition command_msg :: "('c, 'b) Raft \<Rightarrow> int \<Rightarrow> ('c, 'b) ApplyMsg" where
  "command_msg rf i = \<lparr>amCommandValid = True, amCommand = entCommand (the (get rf i)),
     amCommandIndex = i, amSnapshotValid = False, amSnapshot = [], amSnapshotTerm = 0,
     amSnapshotIndex = 0\<rparr>"

lemma collect_applies_spec:
  assumes "stop < logLength rf"
  shows "collect_applies rf i stop =
    Some (map (command_msg rf) [max i (snapIndex rf + 1)..stop])"
  using assms
proof (induction rf i stop rule: collect_applies.induct)
  case (1 rf i stop)
  show ?case
  proof (cases "i \<le> stop")
    case False
    then show ?thesis by (subst collect_applies.simps) simp
  next
    case True
    show ?thesis
    proof (cases "i \<le> snapIndex rf")
      case snap: True
      then have "max i (snapIndex rf + 1) = max (i + 1) (snapIndex rf + 1)" by simp
      with True snap "1.IH"(1) [OF True snap] "1.prems" show ?thesis
        by (subst collect_applies.simps) simp
    next
      case False
      let ?e = "log rf ! nat (i - snapIndex rf)"
      have g: "get rf i = Some ?e" using True False "1.prems" by (intro get_in_range) auto
      have "[i..stop] = i # [i + 1..stop]" using True by (simp add: upto_rec1)
      moreover have "max i (snapIndex rf + 1) = i" "max (i + 1) (snapIndex rf + 1) = i + 1"
        using False by auto
      ultimately show ?thesis
        using True False g "1.IH"(2) [OF True False g] "1.prems"
        by (subst collect_applies.simps) (simp add: command_msg_def)
    qed
  qed
qed

section \<open>Installing a snapshot\<close>

definition snapshot_msg :: "'b InstallSnapshotArgs \<Rightarrow> ('c, 'b) ApplyMsg" where
  "snapshot_msg args = \<lparr>amCommandValid = False, amCommand = None, amCommandIndex = 0,
     amSnapshotValid = True, amSnapshot = isData args, amSnapshotTerm = isLastIncludedTerm args,
     amSnapshotIndex = isLastIncludedIndex args\<rparr>"

text \<open>The peer after the handler has trimmed its log, before it decides on delivery.\<close>

definition installed :: "int \<Rightarrow> ('c, 'b) Raft \<Rightarrow> 'b InstallSnapshotArgs \<Rightarrow> ('c, 'b) Raft" where
  "installed now rf args =
     (let rf = touched now (if isTerm args > currentTerm rf then newGen rf (isTerm args) else rf) in
      persist (rf\<lparr>log := \<lparr>entTerm = isLastIncludedTerm args, entCommand = None\<rparr> #
                        from_idx rf (isLastIncludedIndex args + 1),
                  snapIndex := isLastIncludedIndex args, snapshot := isData args\<rparr>))"

lemma installed_frame [simp]:
  "npeers (installed now rf args) = npeers rf" "me (installed now rf args) = me rf"
  "snapIndex (installed now rf args) = isLastIncludedIndex args"
  "snapshot (installed now rf args) = isData args"
  "lastApplied (installed now rf args) = lastApplied rf"
  "commitIndex (installed now rf args) = commitIndex rf"
  "nextIndex (installed now rf args) = nextIndex rf"
  "matchIndex (installed now rf args) = matchIndex rf"
  "durable (installed now rf args)" "log (installed now rf args) \<noteq> []"
  by (simp_all add: installed_def Let_def touched_def)

lemma InstallSnapshot_stale:
  "isTerm args < currentTerm rf \<Longrightarrow>
   InstallSnapshot now rf args = Some (rf, \<lparr>isrTerm = currentTerm rf\<rparr>, [])"
  by (simp add: InstallSnapshot_def)

lemma InstallSnapshot_old:
  "currentTerm rf \<le> isTerm args \<Longrightarrow> isLastIncludedIndex args \<le> snapIndex rf \<Longrightarrow>
   InstallSnapshot now rf args =
     Some (touched now (if isTerm args > currentTerm rf then newGen rf (isTerm args) else rf),
           \<lparr>isrTerm = isTerm args\<rparr>, [])"
  by (simp add: InstallSnapshot_def touched_def)

lemma InstallSnapshot_new:
  assumes "currentTerm rf \<le> isTerm args" "snapIndex rf < isLastIncludedIndex args"
  shows "InstallSnapshot now rf args =
    (let rf' = installed now rf args in
     Some (if lastApplied rf < isLastIncludedIndex args
           then (rf'\<lparr>lastApplied := isLastIncludedIndex args, commitIndex := isLastIncludedIndex args\<rparr>,
                 \<lparr>isrTerm = isTerm args\<rparr>, [snapshot_msg args])
           else (rf', \<lparr>isrTerm = isTerm args\<rparr>, [])))"
proof -
  let ?rf = "touched now (if isTerm args > currentTerm rf then newGen rf (isTerm args) else rf)"
  have sl: "snapIndex ?rf = snapIndex rf" "logLength ?rf = logLength rf"
    by (simp_all add: touched_def logLength_def)
  have ct: "currentTerm ?rf = isTerm args" using assms(1) by (simp add: touched_def)
  have la: "lastApplied ?rf = lastApplied rf" by (simp add: touched_def)
  let ?l = "if isLastIncludedIndex args < logLength ?rf - 1
            then map_option (\<lambda>es. \<lparr>entTerm = 0, entCommand = None\<rparr> # es)
                   (entriesFrom ?rf (isLastIncludedIndex args + 1))
            else Some [\<lparr>entTerm = 0, entCommand = None\<rparr>]"
  have l: "?l = Some (\<lparr>entTerm = 0, entCommand = None\<rparr> # from_idx ?rf (isLastIncludedIndex args + 1))"
  proof (cases "isLastIncludedIndex args < logLength ?rf - 1")
    case True
    with assms(2) show ?thesis by (simp add: entriesFrom_in_range from_idx_def sl)
  next
    case False
    then show ?thesis using sl by (auto simp: from_idx_def logLength_def)
  qed
  have "InstallSnapshot now rf args =
     (?l \<bind> (\<lambda>newLog.
        setSnap (?rf\<lparr>log := newLog, snapIndex := isLastIncludedIndex args\<rparr>) (isLastIncludedTerm args) \<bind>
        (\<lambda>rf. let rf = persist (rf\<lparr>snapshot := isData args\<rparr>) in
          Some (if lastApplied rf < snapIndex rf
                then (rf\<lparr>lastApplied := snapIndex rf, commitIndex := snapIndex rf\<rparr>,
                      \<lparr>isrTerm = currentTerm rf\<rparr>, [snapshot_msg args])
                else (rf, \<lparr>isrTerm = currentTerm rf\<rparr>, [])))))"
    using assms sl unfolding InstallSnapshot_def snapshot_msg_def Let_def by simp
  moreover have "setSnap (?rf\<lparr>log := \<lparr>entTerm = 0, entCommand = None\<rparr> # es,
        snapIndex := isLastIncludedIndex args\<rparr>) (isLastIncludedTerm args) =
      Some (?rf\<lparr>log := \<lparr>entTerm = isLastIncludedTerm args, entCommand = None\<rparr> # es,
                snapIndex := isLastIncludedIndex args\<rparr>)" for es
    by (simp add: setSnap_def nth_int_def update_int_def)
  moreover have "installed now rf args =
      persist (?rf\<lparr>log := \<lparr>entTerm = isLastIncludedTerm args, entCommand = None\<rparr> #
                        from_idx ?rf (isLastIncludedIndex args + 1),
                  snapIndex := isLastIncludedIndex args, snapshot := isData args\<rparr>)"
    by (simp add: installed_def Let_def)
  ultimately show ?thesis
    unfolding l Let_def using ct la by simp
qed

end
