(* ===== verification/RaftNode.thy ===== *)
theory RaftNode
  imports RaftCommitProps
begin

text \<open>
  One Raft peer as a machine: an event for every critical section of \<^verbatim>\<open>rf.mu\<close>, the
  invariant that every event keeps, freedom from run-time panics, and what each event may do
  to the term, the vote and the role. A crash followed by \<^verbatim>\<open>Make\<close> on the same persister is
  the event \<open>Restart\<close>.
\<close>

section \<open>Events\<close>

datatype ('c, 'b) node_event =
    Tick int
  | RecvVoteReply nat RequestVoteArgs RequestVoteReply
  | RecvRequestVote int RequestVoteArgs
  | RecvAppendEntries int "'c AppendEntriesArgs"
  | RecvInstallSnapshot int "'b InstallSnapshotArgs"
  | RecvAppendReply nat "'c AppendEntriesArgs" AppendEntriesReply
  | RecvInstallReply nat "'b InstallSnapshotArgs" InstallSnapshotReply
  | ClientStart 'c
  | Kicked
  | TakeSnapshot int "'b list"
  | KillPeer
  | Restart int

fun node_step :: "('c, 'b) node_event \<Rightarrow> ('c, 'b) Raft \<Rightarrow> ('c, 'b) Raft option" where
  "node_step (Tick now) rf = Some (fst (tick now rf))"
| "node_step (RecvVoteReply supporter args reply) rf = Some (fst (voteReply rf supporter args reply))"
| "node_step (RecvRequestVote now args) rf = map_option fst (RequestVote now rf args)"
| "node_step (RecvAppendEntries now args) rf = map_option fst (AppendEntries now rf args)"
| "node_step (RecvInstallSnapshot now args) rf = map_option fst (InstallSnapshot now rf args)"
| "node_step (RecvAppendReply i args reply) rf = map_option fst (singleAppend_reply rf i args reply)"
| "node_step (RecvInstallReply i args reply) rf = helpInstall_reply rf i args reply"
| "node_step (ClientStart c) rf = Some (fst (Start rf c))"
| "node_step Kicked rf = map_option fst (guardKick rf)"
| "node_step (TakeSnapshot index snap) rf = Snapshot rf index snap"
| "node_step KillPeer rf = Some (Kill rf)"
| "node_step (Restart now) rf = Make (npeers rf) (me rf) (persister rf) now"

section \<open>The invariant\<close>

definition node_ok :: "('c, 'b) Raft \<Rightarrow> bool" where
  "node_ok rf \<longleftrightarrow> log_ok rf \<and> durable rf \<and> me rf < npeers rf \<and>
     length (nextIndex rf) = length (matchIndex rf) \<and>
     length (matchIndex rf) \<in> {0, npeers rf} \<and>
     (state rf = Leader \<longrightarrow> length (matchIndex rf) = npeers rf)"

lemma node_okI:
  "log_ok rf \<Longrightarrow> durable rf \<Longrightarrow> me rf < npeers rf \<Longrightarrow>
   length (nextIndex rf) = length (matchIndex rf) \<Longrightarrow> length (matchIndex rf) \<in> {0, npeers rf} \<Longrightarrow>
   (state rf = Leader \<Longrightarrow> length (matchIndex rf) = npeers rf) \<Longrightarrow> node_ok rf"
  by (simp add: node_ok_def)

text \<open>
  A step that keeps the peer's identity, the lengths of its per-peer arrays, and becomes
  leader only if it was one.
\<close>

definition same_shape :: "('c, 'b) Raft \<Rightarrow> ('c, 'b) Raft \<Rightarrow> bool" where
  "same_shape rf rf' \<longleftrightarrow> me rf' = me rf \<and> npeers rf' = npeers rf \<and>
     length (nextIndex rf') = length (nextIndex rf) \<and>
     length (matchIndex rf') = length (matchIndex rf) \<and> (state rf' = Leader \<longrightarrow> state rf = Leader)"

lemma node_ok_same_shape:
  "node_ok rf \<Longrightarrow> same_shape rf rf' \<Longrightarrow> log_ok rf' \<Longrightarrow> durable rf' \<Longrightarrow> node_ok rf'"
  by (simp add: node_ok_def same_shape_def)

section \<open>Terms, votes and roles\<close>

text \<open>
  \<open>quiet\<close>: no vote is cast and no one is promoted. Within a term the vote stays and the role
  can only fall back; a new term starts without a vote, as a follower.
\<close>

definition quiet :: "('c, 'b) Raft \<Rightarrow> ('c, 'b) Raft \<Rightarrow> bool" where
  "quiet rf rf' \<longleftrightarrow> me rf' = me rf \<and> npeers rf' = npeers rf \<and>
     (currentTerm rf' = currentTerm rf \<and> votedFor rf' = votedFor rf \<and>
        (state rf' = state rf \<or> state rf' = Follower) \<or>
      currentTerm rf < currentTerm rf' \<and> votedFor rf' = - 1 \<and> state rf' = Follower)"

lemma quiet_refl [simp]: "quiet rf rf"
  by (simp add: quiet_def)

lemma quiet_newGen [intro]: "currentTerm rf < t \<Longrightarrow> quiet rf (newGen rf t)"
  by (simp add: quiet_def)

lemma log_ok_cong: "log rf' = log rf \<Longrightarrow> snapIndex rf' = snapIndex rf \<Longrightarrow> log_ok rf' = log_ok rf"
  by (simp add: log_ok_def)

text \<open>The three handlers of election.\<close>

lemma tick_cases:
  "fst (tick now rf) = rf \<and> \<not> snd (tick now rf) \<or>
   fst (tick now rf) = becomeCandidate rf \<and> snd (tick now rf) \<and> state rf \<noteq> Leader"
  by (auto simp: tick_def)

lemma becomeCandidate_ok: "node_ok rf \<Longrightarrow> node_ok (becomeCandidate rf)"
  by (auto simp: node_ok_def log_ok_def)

lemma becomeLeader_ok: "node_ok rf \<Longrightarrow> node_ok (becomeLeader rf)"
  by (auto simp: node_ok_def log_ok_def)

lemma newGen_ok [intro]: "node_ok rf \<Longrightarrow> node_ok (newGen rf t)"
  by (auto simp: node_ok_def)

text \<open>The reply of a vote goroutine either is quiet or promotes a candidate of the term asked for.\<close>

lemma voteReply_cases:
  obtains (quiet) "quiet rf (fst (voteReply rf spt args reply))"
      "snd (voteReply rf spt args reply) = spt"
  | (counted) "fst (voteReply rf spt args reply) = rf" "snd (voteReply rf spt args reply) = spt + 1"
      "rvrVoteGranted reply" "state rf = Candidate" "currentTerm rf = rvTerm args"
  | (elected) "fst (voteReply rf spt args reply) = becomeLeader rf"
      "snd (voteReply rf spt args reply) = spt + 1" "spt + 1 > npeers rf div 2"
      "rvrVoteGranted reply" "state rf = Candidate" "currentTerm rf = rvTerm args"
proof (cases "rvrTerm reply > currentTerm rf")
  case True
  then show thesis using quiet by (simp add: voteReply_def quiet_newGen)
next
  case False
  then show thesis
    using quiet counted elected by (cases "rvrVoteGranted reply \<and> state rf = Candidate \<and>
        currentTerm rf = rvTerm args"; cases "spt + 1 > npeers rf div 2") (auto simp: voteReply_def Let_def)
qed

text \<open>A vote request either is quiet and denied, or casts the one vote of its term.\<close>

lemma RequestVote_cases:
  assumes "log_ok rf"
  obtains (denied) rf' r where "RequestVote now rf args = Some (rf', r)" "quiet rf rf'"
      "\<not> rvrVoteGranted r" "rvrTerm r = currentTerm rf'"
  | (granted) rf' r where "RequestVote now rf args = Some (rf', r)" "rvrVoteGranted r"
      "rvrTerm r = currentTerm rf'" "currentTerm rf' = rvTerm args" "currentTerm rf \<le> rvTerm args"
      "votedFor rf' = rvCandidateId args" "me rf' = me rf" "npeers rf' = npeers rf"
      "currentTerm rf = rvTerm args \<Longrightarrow> votedFor rf \<in> {- 1, rvCandidateId args} \<and> state rf' = state rf"
      "currentTerm rf < rvTerm args \<Longrightarrow> state rf' = Follower"
      "up_to_date rf (rvLastLogIndex args) (rvLastLogTerm args)"
proof -
  let ?rf = "if rvTerm args > currentTerm rf then newGen rf (rvTerm args) else rf"
  have ok: "log_ok ?rf" using assms by simp
  have utd: "up_to_date ?rf = up_to_date rf" by simp
  consider (old) "rvTerm args < currentTerm rf"
    | (no) "currentTerm rf \<le> rvTerm args" "\<not> ((votedFor ?rf = - 1 \<or> votedFor ?rf = rvCandidateId args) \<and>
        up_to_date rf (rvLastLogIndex args) (rvLastLogTerm args))"
    | (yes) "currentTerm rf \<le> rvTerm args" "(votedFor ?rf = - 1 \<or> votedFor ?rf = rvCandidateId args) \<and>
        up_to_date rf (rvLastLogIndex args) (rvLastLogTerm args)" by linarith
  then show thesis
  proof cases
    case old
    then have "RequestVote now rf args = Some (rf, \<lparr>rvrTerm = currentTerm rf, rvrVoteGranted = False\<rparr>)"
      by (simp add: RequestVote_def)
    then show thesis by (rule denied) auto
  next
    case no
    have "RequestVote now rf args = Some (?rf, \<lparr>rvrTerm = currentTerm ?rf, rvrVoteGranted = False\<rparr>)"
      using no utd unfolding RequestVote_def Let_def tryVotingFor_ok [OF ok] by (auto split: if_splits)
    then show thesis by (rule denied) (auto simp: quiet_newGen)
  next
    case yes
    have "RequestVote now rf args = Some ((persist (?rf\<lparr>votedFor := rvCandidateId args\<rparr>))\<lparr>lastTouchedAt := now\<rparr>,
        \<lparr>rvrTerm = currentTerm ?rf, rvrVoteGranted = True\<rparr>)"
      using yes utd unfolding RequestVote_def Let_def tryVotingFor_ok [OF ok] by auto
    then show thesis by (rule granted) (use yes in auto)
  qed
qed


section \<open>Every other handler is quiet\<close>

lemma accept_term_quiet: "currentTerm rf \<le> t \<Longrightarrow> quiet rf (accept_term now rf t)"
  by (auto simp: accept_term_def quiet_def touched_def toFollower_def)

lemma quiet_cong:
  "quiet rf rf1 \<Longrightarrow> currentTerm rf' = currentTerm rf1 \<Longrightarrow> votedFor rf' = votedFor rf1 \<Longrightarrow>
   state rf' = state rf1 \<Longrightarrow> me rf' = me rf1 \<Longrightarrow> npeers rf' = npeers rf1 \<Longrightarrow> quiet rf rf'"
  by (simp add: quiet_def)

lemma accept_term_shape: "same_shape rf (accept_term now rf t)"
  by (auto simp: same_shape_def accept_term_def touched_def toFollower_def)

text \<open>What a step on the log keeps, for the cases below.\<close>

lemma AppendEntries_log_step:
  assumes "log_ok rf" "durable rf"
  obtains rf' r where "AppendEntries_log rf args = Some (rf', r)" "aerTerm r = currentTerm rf"
    "log_ok rf'" "durable rf'" "same_shape rf rf'" "quiet rf rf'"
    "currentTerm rf' = currentTerm rf" "snapIndex rf' = snapIndex rf"
    "lastApplied rf' = lastApplied rf"
proof (cases rule: AppendEntries_log_cases [of args rf])
  case inside
  show thesis
    by (rule that [OF AppendEntries_log_inside [OF inside]])
      (use assms in \<open>auto simp: zeroReply_def same_shape_def quiet_def log_ok_def\<close>)
next
  case merge
  have "merged_log rf (merge_point rf args + 1) (new_entries rf args) \<noteq> []"
    using assms(1) by (intro merged_log_not_Nil) (auto simp: log_ok_def merge_point_def)
  then show thesis
    by (intro that [OF AppendEntries_log_merge [OF assms(1) merge]])
      (use assms in \<open>auto simp: zeroReply_def same_shape_def quiet_def log_ok_def\<close>)
next
  case too_short
  show thesis
    by (rule that [OF AppendEntries_log_too_short [OF too_short]])
      (use assms in \<open>auto simp: zeroReply_def same_shape_def\<close>)
next
  case (conflict t)
  obtain x where "AppendEntries_log rf args =
      Some (rf, zeroReply\<lparr>aerXTerm := t, aerXIndex := x, aerXLen := - 1,
                          aerTerm := currentTerm rf\<rparr>)"
    using AppendEntries_log_conflict [OF conflict] by blast
  then show thesis
    by (rule that) (use assms in \<open>auto simp: same_shape_def\<close>)
qed

lemma quiet_trans_same:
  "quiet rf rf1 \<Longrightarrow> quiet rf1 rf' \<Longrightarrow> currentTerm rf' = currentTerm rf1 \<Longrightarrow> quiet rf rf'"
  by (auto simp: quiet_def)

lemma same_shape_trans: "same_shape a b \<Longrightarrow> same_shape b c \<Longrightarrow> same_shape a c"
  by (auto simp: same_shape_def)

lemma AppendEntries_step:
  assumes "node_ok rf"
  obtains rf' r where "AppendEntries now rf args = Some (rf', r)" "node_ok rf'" "quiet rf rf'"
    "aerTerm r = currentTerm rf'"
proof (cases "aeTerm args < currentTerm rf")
  case True
  show thesis by (rule that [OF AppendEntries_stale [OF True]]) (use assms in \<open>auto simp: zeroReply_def\<close>)
next
  case False
  let ?rf = "accept_term now rf (aeTerm args)"
  have lo: "log_ok ?rf" and du: "durable ?rf"
    using assms by (auto simp: node_ok_def intro: accept_term_durable)
  obtain rf' r where *: "AppendEntries_log ?rf args = Some (rf', r)" "aerTerm r = currentTerm ?rf"
    "log_ok rf'" "durable rf'" "same_shape ?rf rf'" "quiet ?rf rf'" "currentTerm rf' = currentTerm ?rf"
    by (rule AppendEntries_log_step [OF lo du])
  have q: "quiet rf rf'"
    by (rule quiet_trans_same [OF accept_term_quiet]) (use * False in auto)
  have "node_ok rf'"
    using assms * same_shape_trans [OF accept_term_shape] by (blast intro: node_ok_same_shape)
  moreover have "AppendEntries now rf args = Some (rf', r)"
    using False * by (simp add: AppendEntries_current)
  ultimately show thesis using that q * by metis
qed

lemma InstallSnapshot_step:
  assumes "node_ok rf"
  obtains rf' r ms where "InstallSnapshot now rf args = Some (rf', r, ms)" "node_ok rf'"
    "quiet rf rf'" "isrTerm r = currentTerm rf'"
proof -
  let ?rf = "touched now (if isTerm args > currentTerm rf then newGen rf (isTerm args) else rf)"
  have "durable ?rf"
    using assms by (auto simp: node_ok_def durable_def touched_def persistent_state_def newGen_def
        persist_def Save_def clone_def)
  then have ok: "node_ok ?rf"
    using assms by (auto simp: node_ok_def touched_def log_ok_def)
  have q: "currentTerm rf \<le> isTerm args \<Longrightarrow> quiet rf ?rf" by (auto simp: quiet_def touched_def)
  have ct: "currentTerm rf \<le> isTerm args \<Longrightarrow> currentTerm ?rf = isTerm args" by (simp add: touched_def)
  consider (stale) "isTerm args < currentTerm rf"
    | (old) "currentTerm rf \<le> isTerm args" "isLastIncludedIndex args \<le> snapIndex rf"
    | (new) "currentTerm rf \<le> isTerm args" "snapIndex rf < isLastIncludedIndex args" by linarith
  then show thesis
  proof cases
    case stale
    then show thesis using that [OF InstallSnapshot_stale] assms by simp
  next
    case old
    then show thesis using that [OF InstallSnapshot_old] ok q ct by simp
  next
    case new
    let ?rf' = "installed now rf args"
    have i: "currentTerm ?rf' = isTerm args" "votedFor ?rf' = votedFor ?rf" "state ?rf' = state ?rf"
      using ct [OF new(1)] by (simp_all add: installed_def Let_def)
    have "quiet rf ?rf'"
      by (rule quiet_cong [OF q [OF new(1)]]) (use i ct [OF new(1)] in \<open>simp_all add: touched_def\<close>)
    moreover have "node_ok ?rf'"
      using ok assms new i by (auto simp: node_ok_def log_ok_def touched_def)
    ultimately have *: "node_ok (?rf'\<lparr>lastApplied := a, commitIndex := b\<rparr>)"
        "quiet rf (?rf'\<lparr>lastApplied := a, commitIndex := b\<rparr>)" "node_ok ?rf'" "quiet rf ?rf'" for a b
      by (auto simp: node_ok_def log_ok_def durable_def persistent_state_def quiet_def)
    show thesis
      using InstallSnapshot_new [OF new] that * i(1)
      by (cases "lastApplied rf < isLastIncludedIndex args") (auto simp: Let_def)
  qed
qed

lemma updateCommitIndex_step:
  assumes "node_ok rf" "state rf = Leader"
  obtains rf' where "updateCommitIndex rf = Some rf'" "node_ok rf'" "quiet rf rf'"
    "log rf' = log rf" "snapIndex rf' = snapIndex rf" "commitIndex rf \<le> commitIndex rf'"
proof -
  obtain rf' where *: "updateCommitIndex rf = Some rf'" "commit_outcome rf (logLength rf - 1) rf'"
    using updateCommitIndex_spec [of rf] assms by (auto simp: node_ok_def)
  then have "rf' = rf \<or> (\<exists>M > commitIndex rf. rf' = bEffortKick (rf\<lparr>commitIndex := M\<rparr>))"
    by (auto simp: commit_outcome_def)
  then have "node_ok rf' \<and> quiet rf rf' \<and> log rf' = log rf \<and> snapIndex rf' = snapIndex rf \<and>
      commitIndex rf \<le> commitIndex rf'"
    using assms by (auto simp: node_ok_def log_ok_def durable_def persistent_state_def quiet_def)
  with * that show thesis by blast
qed

lemma stepBack_step:
  assumes "node_ok rf" "state rf = Leader" "i < npeers rf"
  obtains v where "stepBack rf i xTerm xIndex xLen = Some (rf\<lparr>nextIndex := (nextIndex rf)[i := v]\<rparr>)"
    "xTerm = - 1 \<and> v = min xLen (logLength rf) \<or>
     xTerm \<noteq> - 1 \<and> v = xIndex \<and> (\<forall>k. snapIndex rf < k \<longrightarrow> term_at rf k \<noteq> Some xTerm) \<or>
     xTerm \<noteq> - 1 \<and> snapIndex rf < v - 1 \<and> v \<le> logLength rf \<and> term_at rf (v - 1) = Some xTerm \<and>
       (\<forall>k. v \<le> k \<longrightarrow> term_at rf k \<noteq> Some xTerm)"
proof -
  have set: "setNextIndex rf i v = Some (rf\<lparr>nextIndex := (nextIndex rf)[i := v]\<rparr>)" for v
    using assms by (simp add: setNextIndex_def update_int_def node_ok_def)
  have above: "term_at rf k \<noteq> Some t" if "logLength rf \<le> k" for k t
    using that by (auto simp: term_at_def get_Some_iff)
  have snap: "0 \<le> snapIndex rf" using assms by (simp add: node_ok_def log_ok_def)
  show thesis
  proof (cases "xTerm = - 1")
    case True
    show thesis
      by (rule that [of "min xLen (logLength rf)"])
        (use True set in \<open>simp_all add: stepBack_def min_go_def min_def\<close>)
  next
    case False
    from lastIndex_loop_spec [of "logLength rf - 1" rf xTerm]
    consider (some) j where "lastIndexOfTerm rf xTerm = Some j" "snapIndex rf < j"
        "j \<le> logLength rf - 1" "term_at rf j = Some xTerm"
        "\<forall>k. j < k \<and> k \<le> logLength rf - 1 \<longrightarrow> term_at rf k \<noteq> Some xTerm"
      | (none) "lastIndexOfTerm rf xTerm = Some (- 1)"
        "\<forall>k. snapIndex rf < k \<and> k \<le> logLength rf - 1 \<longrightarrow> term_at rf k \<noteq> Some xTerm"
      unfolding lastIndexOfTerm_def by fastforce
    then show thesis
    proof cases
      case some
      have "term_at rf k \<noteq> Some xTerm" if "j + 1 \<le> k" for k
        using some(5) above [of k] that by (cases "k \<le> logLength rf - 1") auto
      with some snap False show thesis
        by (intro that [of "j + 1"]) (simp_all add: stepBack_def set)
    next
      case none
      have "term_at rf k \<noteq> Some xTerm" if "snapIndex rf < k" for k
        using none(2) above [of k] that by (cases "k \<le> logLength rf - 1") auto
      with none False show thesis
        by (intro that [of xIndex]) (simp_all add: stepBack_def set)
    qed
  qed
qed

section \<open>Every event keeps the invariant\<close>

lemma same_log_ok:
  "node_ok rf \<Longrightarrow> same_shape rf rf' \<Longrightarrow> persister rf' = persister rf \<Longrightarrow>
   currentTerm rf' = currentTerm rf \<Longrightarrow> votedFor rf' = votedFor rf \<Longrightarrow> log rf' = log rf \<Longrightarrow>
   snapIndex rf' = snapIndex rf \<Longrightarrow> snapshot rf' = snapshot rf \<Longrightarrow> node_ok rf'"
  by (rule node_ok_same_shape) (auto simp: node_ok_def log_ok_def durable_def persistent_state_def)

lemma singleAppend_reply_step:
  assumes "node_ok rf" "i < npeers rf"
  obtains rf' b where "singleAppend_reply rf i args reply = Some (rf', b)" "node_ok rf'" "quiet rf rf'"
proof -
  consider (newer) "aerTerm reply > currentTerm rf"
    | (stale) "\<not> aerTerm reply > currentTerm rf" "currentTerm rf \<noteq> aeTerm args \<or> state rf \<noteq> Leader"
    | (fail) "\<not> aerTerm reply > currentTerm rf" "currentTerm rf = aeTerm args" "state rf = Leader"
        "\<not> aerSuccess reply"
    | (ok) "\<not> aerTerm reply > currentTerm rf" "currentTerm rf = aeTerm args" "state rf = Leader"
        "aerSuccess reply" by blast
  then show thesis
  proof cases
    case newer
    then show thesis
      using that [of "newGen rf (aerTerm reply)" False] assms(1)
      by (auto simp: singleAppend_reply_def)
  next
    case stale
    then show thesis using that [of rf False] assms by (simp add: singleAppend_reply_def)
  next
    case fail
    obtain v where v: "stepBack rf i (aerXTerm reply) (aerXIndex reply) (aerXLen reply) =
        Some (rf\<lparr>nextIndex := (nextIndex rf)[i := v]\<rparr>)"
      by (rule stepBack_step [OF assms(1) fail(3) assms(2)])
    show thesis
    proof (rule that)
      show "singleAppend_reply rf i args reply = Some (rf\<lparr>nextIndex := (nextIndex rf)[i := v]\<rparr>, True)"
        using fail v by (simp add: singleAppend_reply_def)
      show "node_ok (rf\<lparr>nextIndex := (nextIndex rf)[i := v]\<rparr>)"
        using assms(1) by (rule same_log_ok) (simp_all add: same_shape_def)
    qed (simp add: quiet_def)
  next
    case ok
    let ?m = "aePrevLogIndex args + int (length (aeEntries args))"
    let ?rf = "rf\<lparr>matchIndex := (matchIndex rf)[i := ?m], nextIndex := (nextIndex rf)[i := ?m + 1]\<rparr>"
    have "node_ok ?rf" using assms(1) by (rule same_log_ok) (simp_all add: same_shape_def)
    moreover have "state ?rf = Leader" using ok by simp
    ultimately obtain rf' where u: "updateCommitIndex ?rf = Some rf'" "node_ok rf'" "quiet ?rf rf'"
      by (rule updateCommitIndex_step)
    have "update_int (matchIndex rf) (int i) ?m = Some ((matchIndex rf)[i := ?m])"
      "update_int (nextIndex rf) (int i) (?m + 1) = Some ((nextIndex rf)[i := ?m + 1])"
      using assms ok by (simp_all add: update_int_def node_ok_def)
    with ok u(1) have "singleAppend_reply rf i args reply = Some (rf', False)"
      by (simp add: singleAppend_reply_def)
    moreover have "quiet rf rf'" using u(3) by (simp add: quiet_def)
    ultimately show thesis using that u(2) by blast
  qed
qed

lemma helpInstall_reply_step:
  assumes "node_ok rf" "helpInstall_reply rf i args reply = Some rf'"
  shows "node_ok rf' \<and> quiet rf rf'"
proof (cases "isrTerm reply > currentTerm rf")
  case True
  with assms show ?thesis by (auto simp: helpInstall_reply_def)
next
  case False
  with assms(2) have rf': "rf' = rf\<lparr>matchIndex := (matchIndex rf)[i := isLastIncludedIndex args],
      nextIndex := (nextIndex rf)[i := isLastIncludedIndex args + 1]\<rparr>"
    by (auto simp: helpInstall_reply_def update_int_Some_iff)
  have "node_ok rf'" using assms(1) by (rule same_log_ok) (simp_all add: rf' same_shape_def)
  moreover have "quiet rf rf'" by (simp add: rf' quiet_def)
  ultimately show ?thesis by blast
qed

lemma Start_step:
  assumes "node_ok rf"
  shows "node_ok (fst (Start rf c)) \<and> quiet rf (fst (Start rf c))"
  using assms
  by (auto simp: Start_def Let_def append_entry_def node_ok_def log_ok_def quiet_def)

lemma guardKick_step:
  assumes "node_ok rf" "guardKick rf = Some (rf', ms)"
  shows "node_ok rf' \<and> quiet rf rf'"
proof -
  from assms(2) have rf': "rf' = rf\<lparr>wakeCh := False\<rparr> \<or>
      rf' = rf\<lparr>wakeCh := False, lastApplied := commitIndex rf\<rparr>"
    by (auto simp: guardKick_def Let_def split: if_splits)
  have "node_ok rf'" using assms(1) by (rule same_log_ok) (use rf' in \<open>auto simp: same_shape_def\<close>)
  moreover have "quiet rf rf'" using rf' by (auto simp: quiet_def)
  ultimately show ?thesis by blast
qed

lemma Snapshot_step:
  assumes "node_ok rf" "Snapshot rf index snap = Some rf'"
  shows "node_ok rf' \<and> quiet rf rf'"
proof (cases "index \<le> snapIndex rf")
  case True
  with assms show ?thesis by (simp add: Snapshot_def)
next
  case False
  with assms show ?thesis
    by (auto simp: Snapshot_def node_ok_def log_ok_def quiet_def)
qed

lemma Make_step:
  assumes "node_ok rf"
  obtains rf' where "Make (npeers rf) (me rf) (persister rf) now = Some rf'" "node_ok rf'"
    "quiet rf rf'" "persistent_state rf' = persistent_state rf" "snapshot rf' = snapshot rf"
    "state rf' = Follower"
proof -
  let ?i = "initRaft (npeers rf) (me rf) (persister rf) now"
  have d: "durable rf" using assms by (simp add: node_ok_def)
  obtain rf' where *: "readPersist ?i (ReadRaftState (persister rf)) = Some rf'"
    "persistent_state rf' = persistent_state rf" "snapshot rf' = snapshot rf"
    using readPersist_durable [OF d, of ?i]
    by (auto simp: initRaft_def persistent_state_def fresh_state_def)
  have f: "persister rf' = persister rf" "me rf' = me rf" "npeers rf' = npeers rf" "state rf' = Follower"
    "nextIndex rf' = []" "matchIndex rf' = []"
    using *(1) by (auto simp: readPersist_def initRaft_def split: if_splits option.splits)
  have "durable rf'" using d *(2,3) f(1) by (simp add: durable_def)
  with assms f *(2) have "node_ok rf'" by (auto simp: node_ok_def log_ok_def persistent_state_def)
  moreover have "quiet rf rf'" using f *(2) by (auto simp: quiet_def persistent_state_def)
  ultimately show thesis using that * f by (simp add: Make_def)
qed

lemma RequestVote_ok:
  assumes "node_ok rf" "RequestVote now rf args = Some (rf', r)"
  shows "node_ok rf'"
proof -
  let ?rf = "if rvTerm args > currentTerm rf then newGen rf (rvTerm args) else rf"
  have ok: "node_ok ?rf" using assms(1) by auto
  then have lok: "log_ok ?rf" by (simp add: node_ok_def)
  have "rf' = ?rf \<or> rf' = (persist (?rf\<lparr>votedFor := rvCandidateId args\<rparr>))\<lparr>lastTouchedAt := now\<rparr>"
    using assms(2) unfolding RequestVote_def Let_def tryVotingFor_ok [OF lok]
    by (auto split: if_splits)
  moreover have "node_ok ((persist (?rf\<lparr>votedFor := rvCandidateId args\<rparr>))\<lparr>lastTouchedAt := now\<rparr>)"
    using ok by (auto simp: node_ok_def log_ok_def durable_def persist_def Save_def clone_def
        persistent_state_def)
  ultimately show ?thesis using ok by auto
qed

lemma voteReply_ok: "node_ok rf \<Longrightarrow> node_ok (fst (voteReply rf spt args reply))"
  by (simp add: voteReply_def Let_def becomeLeader_ok newGen_ok)

lemma init_node_ok: "i < n \<Longrightarrow> node_ok (initRaft n i MakePersister now)"
  by (simp add: node_ok_def log_ok_def durable_def initRaft_def persistent_state_def fresh_state_def
      MakePersister_def)

end
