(* ===== verification/RaftProps.thy ===== *)
theory RaftProps
  imports RaftNode
begin

text \<open>
  What one Raft peer guarantees, over arbitrary sequences of events: the invariant and the
  monotonicity of terms and votes, survival of crashes, and the contracts
  of the RPC handlers, of the commit rules and of the applier.
\<close>

section \<open>Machines with durable state\<close>

text \<open>
  The interface: a machine whose steps keep an invariant, and a recovery procedure that, in any
  state satisfying it, restores the part of the state that must survive.
\<close>

locale recoverable =
  fixes step :: "'e \<Rightarrow> 's \<Rightarrow> 's option"
    and recover :: "'t \<Rightarrow> 's \<Rightarrow> 's option"
    and inv :: "'s \<Rightarrow> bool"
    and view :: "'s \<Rightarrow> 'v"
  assumes step_inv: "inv s \<Longrightarrow> step e s = Some s' \<Longrightarrow> inv s'"
    and recover_view: "inv s \<Longrightarrow> \<exists>s'. recover t s = Some s' \<and> inv s' \<and> view s' = view s"
begin

fun run :: "'e list \<Rightarrow> 's \<Rightarrow> 's option" where
  "run [] s = Some s"
| "run (e # es) s = do { s \<leftarrow> step e s; run es s }"

lemma run_inv: "inv s \<Longrightarrow> run es s = Some s' \<Longrightarrow> inv s'"
  by (induction es arbitrary: s) (auto intro: step_inv)

lemma crash_after_run:
  "inv s \<Longrightarrow> run es s = Some s' \<Longrightarrow> \<exists>s''. recover t s' = Some s'' \<and> inv s'' \<and> view s'' = view s'"
  using run_inv recover_view by blast

lemma run_append: "run (es @ fs) s = do { s \<leftarrow> run es s; run fs s }"
  by (induction es arbitrary: s) (auto split: bind_split)

end

section \<open>The peer is such a machine\<close>

text \<open>What every step does to the term and the vote.\<close>

definition vote_progress :: "('c, 'b) Raft \<Rightarrow> ('c, 'b) Raft \<Rightarrow> bool" where
  "vote_progress rf rf' \<longleftrightarrow> me rf' = me rf \<and> npeers rf' = npeers rf \<and> currentTerm rf \<le> currentTerm rf' \<and>
     (currentTerm rf' = currentTerm rf \<and> votedFor rf \<noteq> - 1 \<longrightarrow> votedFor rf' = votedFor rf)"

lemma quiet_vote_progress: "quiet rf rf' \<Longrightarrow> vote_progress rf rf'"
  by (auto simp: quiet_def vote_progress_def)

lemma vote_progress_trans: "vote_progress a b \<Longrightarrow> vote_progress b c \<Longrightarrow> vote_progress a c"
  by (auto simp: vote_progress_def)

lemma voteReply_progress: "vote_progress rf (fst (voteReply rf spt args reply))"
  by (cases rule: voteReply_cases [of rf spt args reply])
    (auto simp: quiet_vote_progress, auto simp: vote_progress_def)

lemma RequestVote_progress:
  assumes "log_ok rf" "RequestVote now rf args = Some (rf', r)"
  shows "vote_progress rf rf'"
proof (cases rule: RequestVote_cases [OF assms(1), of now args, case_names denied granted])
  case denied
  then show ?thesis using assms(2) quiet_vote_progress by auto
next
  case granted
  then show ?thesis using assms(2) by (auto simp: vote_progress_def)
qed

lemma node_step_ok:
  assumes ok: "node_ok rf" and "node_step e rf = Some rf'"
  shows "node_ok rf' \<and> vote_progress rf rf'"
proof (cases e)
  case (Tick now)
  with assms tick_cases [of now rf] show ?thesis
    by (auto simp: becomeCandidate_ok vote_progress_def)
next
  case (RecvVoteReply spt args reply)
  with assms show ?thesis by (auto simp: voteReply_ok voteReply_progress)
next
  case (RecvRequestVote now args)
  with assms show ?thesis
    by (auto simp: node_ok_def intro: RequestVote_progress dest: RequestVote_ok [OF ok])
next
  case (RecvAppendEntries now args)
  from AppendEntries_step [OF ok] assms(2) RecvAppendEntries show ?thesis
    by (metis node_step.simps(4) option.simps(9) option.inject fst_conv quiet_vote_progress)
next
  case (RecvInstallSnapshot now args)
  from InstallSnapshot_step [OF ok] assms(2) RecvInstallSnapshot show ?thesis
    by (metis node_step.simps(5) option.simps(9) option.inject fst_conv quiet_vote_progress)
next
  case (RecvAppendReply i args reply)
  then obtain b where b: "singleAppend_reply rf i args reply = Some (rf', b)" using assms(2) by auto
  have "i < npeers rf \<Longrightarrow> node_ok rf' \<and> quiet rf rf'"
    by (rule singleAppend_reply_step [OF ok, of i args reply]) (use b in auto)
  moreover have "i < npeers rf \<or> (node_ok rf' \<and> quiet rf rf')"
    using b ok by (auto simp: singleAppend_reply_def stepBack_def setNextIndex_def update_int_Some_iff
        node_ok_def quiet_newGen Let_def split: if_splits)
  ultimately show ?thesis using quiet_vote_progress by blast
next
  case (RecvInstallReply i args reply)
  with assms helpInstall_reply_step [OF ok] show ?thesis by (auto intro: quiet_vote_progress)
next
  case (ClientStart c)
  with assms Start_step [OF ok, of c] show ?thesis by (auto intro: quiet_vote_progress)
next
  case Kicked
  with assms guardKick_step [OF ok] show ?thesis by (auto intro: quiet_vote_progress)
next
  case (TakeSnapshot index snap)
  with assms Snapshot_step [OF ok] show ?thesis by (auto intro: quiet_vote_progress)
next
  case KillPeer
  with assms show ?thesis
    by (auto simp: Kill_def vote_progress_def node_ok_def log_ok_def durable_def persistent_state_def)
next
  case (Restart now)
  from Make_step [OF ok, of now] assms(2) Restart show ?thesis
    by (metis node_step.simps(12) option.inject quiet_vote_progress)
qed

definition restart :: "int \<Rightarrow> ('c, 'b) Raft \<Rightarrow> ('c, 'b) Raft option" where
  "restart now rf = Make (npeers rf) (me rf) (Copy (persister rf)) now"

interpretation peer: recoverable node_step restart node_ok "\<lambda>rf. (persistent_state rf, snapshot rf)"
proof
  show "node_ok rf'" if "node_ok rf" "node_step e rf = Some rf'" for rf rf' :: "('a, 'b) Raft" and e
    using node_step_ok [OF that] by simp
  show "\<exists>rf'. restart t rf = Some rf' \<and> node_ok rf' \<and>
      (persistent_state rf', snapshot rf') = (persistent_state rf, snapshot rf)"
    if "node_ok rf" for rf :: "('a, 'b) Raft" and t
    by (rule Make_step [OF that, of t]) (auto simp: restart_def)
qed

fun node_run :: "('c, 'b) node_event list \<Rightarrow> ('c, 'b) Raft \<Rightarrow> ('c, 'b) Raft option" where
  "node_run [] rf = Some rf"
| "node_run (e # es) rf = do { rf \<leftarrow> node_step e rf; node_run es rf }"

lemma node_run_peer: "node_run es rf = peer.run es rf"
  by (induction es arbitrary: rf) (auto intro: arg_cong2 [of _ _ _ _ Option.bind])

lemma node_run_progress:
  "node_ok rf \<Longrightarrow> node_run es rf = Some rf' \<Longrightarrow> vote_progress rf rf'"
  by (induction es arbitrary: rf)
    (auto simp: vote_progress_def [of rf' rf'] dest: node_step_ok intro: vote_progress_trans)

section \<open>Contracts of the handlers\<close>

text \<open>The entries of an accepted message, by global index.\<close>

lemma merged_log_terms:
  assumes "snapIndex rf \<le> m" "m < logLength rf" "k < length es"
    "log rf' = merged_log rf (m + 1) es" "snapIndex rf' = snapIndex rf"
  shows "term_at rf' (m + 1 + int k) = Some (entTerm (es ! k))"
proof -
  let ?u = "upto_idx rf (m + 1)" and ?m = "merge_entries (from_idx rf (m + 1)) es"
  have u: "int (length ?u) = m + 1 - snapIndex rf" using assms by (intro length_upto_idx) auto
  have "k < length ?m" using length_merge_entries [of es] assms(3) by (rule less_le_trans [rotated])
  then have "nth_int (log rf') (m + 1 + int k - snapIndex rf') = Some (?m ! k)"
    using u assms(4,5) by (simp add: merged_log_def nth_int_append)
  then show ?thesis using assms(3) by (simp add: term_at_def get_def merge_entries_terms)
qed

lemma merge_point_in_log:
  "log_ok rf \<Longrightarrow> consistent_at rf args \<Longrightarrow>
   snapIndex rf \<le> merge_point rf args \<and> merge_point rf args < logLength rf"
  using log_ok_logLength [of rf]
  by (auto simp: consistent_at_def merge_point_def term_at_def get_Some_iff)

lemma length_new_entries:
  "int (length (new_entries rf args)) =
     max 0 (aePrevLogIndex args + int (length (aeEntries args)) - merge_point rf args)"
  by (auto simp: new_entries_def merge_point_def)

lemma nth_new_entries:
  "k < length (new_entries rf args) \<Longrightarrow>
   new_entries rf args ! k = aeEntries args ! nat (merge_point rf args - aePrevLogIndex args + int k)"
  by (auto simp: new_entries_def merge_point_def nat_add_distrib)

text \<open>An accepted message, in one formula for the two success branches of the handler.\<close>

lemma AppendEntries_accept:
  assumes "log_ok rf" "currentTerm rf \<le> aeTerm args" "consistent_at rf args"
  obtains rf' where "AppendEntries now rf args =
      Some (rf', zeroReply\<lparr>aerTerm := aeTerm args, aerSuccess := True\<rparr>)"
    "log rf' = merged_log rf (merge_point rf args + 1) (new_entries rf args)"
    "snapIndex rf' = snapIndex rf" "currentTerm rf' = aeTerm args"
    "commitIndex rf' = (if aeLeaderCommit args > commitIndex rf
       then min (aeLeaderCommit args) (logLength rf' - 1) else commitIndex rf)"
    "lastApplied rf' = lastApplied rf" "snapshot rf' = snapshot rf"
proof -
  let ?a = "accept_term now rf (aeTerm args)"
  have c: "consistent_at ?a args" "merge_point ?a args = merge_point rf args"
    "new_entries ?a args = new_entries rf args"
    using assms(3) by (simp_all add: consistent_at_def term_at_def merge_point_def new_entries_def)
  have ct: "currentTerm ?a = aeTerm args" using assms(2) by (rule accept_term_term)
  show thesis
  proof (cases rule: AppendEntries_log_cases [of args ?a])
    case inside
    then have "new_entries rf args = []" "aePrevLogIndex args \<le> snapIndex rf"
      by (auto simp: new_entries_def merge_point_def)
    then have l: "merged_log rf (merge_point rf args + 1) (new_entries rf args) = log rf"
      by (simp add: merged_log_def)
    show thesis
      by (rule that [unfolded AppendEntries_current [OF assms(2)], OF AppendEntries_log_inside [OF inside, unfolded ct]])
        (auto simp: l ct tryUpdateCommit_commitIndex logLength_def)
  next
    case merge
    show thesis
      by (rule that [unfolded AppendEntries_current [OF assms(2)],
            OF AppendEntries_log_merge [OF _ merge, unfolded ct]])
        (use assms(1) in \<open>auto simp: c ct tryUpdateCommit_commitIndex logLength_def\<close>)
  next
    case too_short
    then show thesis using c(1) by (auto simp: consistent_at_def term_at_def get_Some_iff)
  next
    case (conflict t)
    then show thesis using c(1) by (auto simp: consistent_at_def)
  qed
qed

section \<open>Properties of the peer\<close>

text \<open>Concrete peers for the witnesses: server 0 of three, fresh, and elected with two entries.\<close>

definition peer0 :: "(nat, nat) Raft" where
  "peer0 = initRaft 3 0 MakePersister 0"

definition elect_and_start :: "(nat, nat) node_event list" where
  "elect_and_start = [Tick (SELECTION_TIMEOUT + 1),
     RecvVoteReply 1 \<lparr>rvTerm = 1, rvCandidateId = 0, rvLastLogIndex = 0, rvLastLogTerm = - 1\<rparr>
       \<lparr>rvrTerm = 1, rvrVoteGranted = True\<rparr>, ClientStart 7, ClientStart 8]"

definition leader0 :: "(nat, nat) Raft" where
  "leader0 = the (node_run elect_and_start peer0)"

lemma peer0_ok: "node_ok peer0"
  unfolding peer0_def by (rule init_node_ok) simp

lemma leader0_run: "node_run elect_and_start peer0 = Some leader0"
proof -
  have "node_run elect_and_start peer0 \<noteq> None" by code_simp
  then show ?thesis by (auto simp: leader0_def)
qed

lemma leader0_ok: "node_ok leader0"
  using peer.run_inv [OF peer0_ok leader0_run [unfolded node_run_peer]] .

lemma leader0_fields:
  "state leader0 = Leader" "currentTerm leader0 = 1" "log leader0 =
     [\<lparr>entTerm = - 1, entCommand = None\<rparr>, \<lparr>entTerm = 1, entCommand = Some 7\<rparr>, \<lparr>entTerm = 1, entCommand = Some 8\<rparr>]"
  "snapIndex leader0 = 0" "commitIndex leader0 = 0" "lastApplied leader0 = 0" "npeers leader0 = 3"
  "nextIndex leader0 = [- 1, 1, 1]" "matchIndex leader0 = [- 1, 0, 0]" "me leader0 = 0"
  "votedFor leader0 = 0"
  by code_simp+

text \<open>
  C24. No crash loses durable state: after any sequence of events, \<^verbatim>\<open>Make\<close> on a copy of the
  peer's persister does not panic and restores term, vote, log, snapshot index and snapshot.
\<close>

theorem crash_recovery:
  assumes "node_ok rf" "node_run es rf = Some rf'"
  shows "\<exists>rf''. Make (npeers rf') (me rf') (Copy (persister rf')) now = Some rf'' \<and>
    currentTerm rf'' = currentTerm rf' \<and> votedFor rf'' = votedFor rf' \<and> log rf'' = log rf' \<and>
    snapIndex rf'' = snapIndex rf' \<and> snapshot rf'' = snapshot rf'"
  using peer.crash_after_run [OF assms(1), of es rf' now] assms(2)
  by (auto simp: node_run_peer restart_def persistent_state_def)

theorem crash_recovery_witness:
  "\<exists>rf. Make 3 0 (Copy (persister leader0)) 5 = Some rf \<and> log rf = log leader0 \<and> votedFor rf = 0"
  using crash_recovery [OF peer0_ok leader0_run, of 5] leader0_fields by auto

text \<open>The events that can reach a peer from outside, with the indices the code gives them.\<close>

fun well_addressed :: "('c, 'b) Raft \<Rightarrow> ('c, 'b) node_event \<Rightarrow> bool" where
  "well_addressed rf (RecvAppendReply i args reply) = (i < npeers rf)"
| "well_addressed rf (RecvInstallReply i args reply) = (i < length (nextIndex rf))"
| "well_addressed rf Kicked = False"
| "well_addressed rf (TakeSnapshot index snap) = False"
| "well_addressed rf e = True"

text \<open>
  When a vote is granted: exactly if the candidate's term is not older, the peer has not voted
  for someone else in that term, and the candidate's log is at least as up to date. The reply
  carries the peer's term, and a granted vote is durable before the reply leaves.
\<close>

lemma RequestVote_grants:
  assumes "log_ok rf"
  shows "\<exists>rf' r. RequestVote now rf args = Some (rf', r) \<and> rvrTerm r = currentTerm rf' \<and>
    currentTerm rf' = max (currentTerm rf) (rvTerm args) \<and>
    (rvrVoteGranted r \<longleftrightarrow> currentTerm rf \<le> rvTerm args \<and>
       (currentTerm rf < rvTerm args \<or> votedFor rf \<in> {- 1, rvCandidateId args}) \<and>
       up_to_date rf (rvLastLogIndex args) (rvLastLogTerm args)) \<and>
    (rvrVoteGranted r \<longrightarrow> votedFor rf' = rvCandidateId args \<and> durable rf')"
proof -
  let ?rf = "if rvTerm args > currentTerm rf then newGen rf (rvTerm args) else rf"
  have ok: "log_ok ?rf" using assms by simp
  have "RequestVote now rf args =
      (if rvTerm args < currentTerm ?rf then Some (?rf, \<lparr>rvrTerm = currentTerm ?rf, rvrVoteGranted = False\<rparr>)
       else if (votedFor ?rf = - 1 \<or> votedFor ?rf = rvCandidateId args) \<and>
           up_to_date ?rf (rvLastLogIndex args) (rvLastLogTerm args)
       then Some ((persist (?rf\<lparr>votedFor := rvCandidateId args\<rparr>))\<lparr>lastTouchedAt := now\<rparr>,
              \<lparr>rvrTerm = currentTerm ?rf, rvrVoteGranted = True\<rparr>)
       else Some (?rf, \<lparr>rvrTerm = currentTerm ?rf, rvrVoteGranted = False\<rparr>))"
    unfolding RequestVote_def Let_def tryVotingFor_ok [OF ok] by simp
  moreover have "durable (persist (?rf\<lparr>votedFor := rvCandidateId args\<rparr>)\<lparr>lastTouchedAt := now\<rparr>)"
    by (subst durable_cong [of _ "persist (?rf\<lparr>votedFor := rvCandidateId args\<rparr>)"]) simp_all
  ultimately show ?thesis by (auto simp: max_def)
qed

text \<open>
  AppendEntries, accepted: if the term is current and the follower's log agrees with the
  message at \<^verbatim>\<open>PrevLogIndex\<close> (or has compacted that index), the handler succeeds; the log then
  carries the leader's terms at every index of the message above the snapshot, is unchanged up
  to \<^verbatim>\<open>PrevLogIndex\<close>, and reaches at least as far as the message.
\<close>

lemma AppendEntries_accepts:
  assumes "log_ok rf" "currentTerm rf \<le> aeTerm args" "consistent_at rf args"
  shows "\<exists>rf' r. AppendEntries now rf args = Some (rf', r) \<and> aerSuccess r \<and> aerTerm r = aeTerm args \<and>
    (\<forall>i. i \<le> merge_point rf args \<longrightarrow> get rf' i = get rf i) \<and>
    (\<forall>k < length (aeEntries args). merge_point rf args < aePrevLogIndex args + 1 + int k \<longrightarrow>
       term_at rf' (aePrevLogIndex args + 1 + int k) = Some (entTerm (aeEntries args ! k))) \<and>
    aePrevLogIndex args + int (length (aeEntries args)) < logLength rf'"
proof -
  let ?m = "merge_point rf args" and ?es = "new_entries rf args"
  obtain rf' where a: "AppendEntries now rf args =
      Some (rf', zeroReply\<lparr>aerTerm := aeTerm args, aerSuccess := True\<rparr>)"
    "log rf' = merged_log rf (?m + 1) ?es" "snapIndex rf' = snapIndex rf"
    using AppendEntries_accept [OF assms, of now] by blast
  have m: "snapIndex rf \<le> ?m" "?m < logLength rf" using merge_point_in_log [OF assms(1,3)] by auto
  have "get rf' i = get rf i" if "i \<le> ?m" for i
    using merged_log_prefix [of rf "?m + 1" i] m that a(2,3) by (simp add: get_def)
  moreover have "term_at rf' (aePrevLogIndex args + 1 + int k) = Some (entTerm (aeEntries args ! k))"
    if k: "k < length (aeEntries args)" "?m < aePrevLogIndex args + 1 + int k" for k
  proof -
    define j where "j = nat (aePrevLogIndex args + int k - ?m)"
    have j: "int j = aePrevLogIndex args + int k - ?m" using k by (simp add: j_def)
    have jl: "j < length ?es" using k j length_new_entries [of rf args] by linarith
    have "term_at rf' (?m + 1 + int j) = Some (entTerm (?es ! j))"
      by (rule merged_log_terms [OF m jl a(2,3)])
    moreover have "?es ! j = aeEntries args ! k" using nth_new_entries [OF jl] j by simp
    moreover have "?m + 1 + int j = aePrevLogIndex args + 1 + int k" using j by simp
    ultimately show ?thesis by simp
  qed
  moreover have "aePrevLogIndex args + int (length (aeEntries args)) < logLength rf'"
  proof -
    have "length (log rf') \<ge> nat (?m + 1 - snapIndex rf) + length ?es"
      using length_upto_idx [of rf "?m + 1"] m length_merge_entries [of ?es "from_idx rf (?m + 1)"] a(2)
      by (simp add: merged_log_def)
    then show ?thesis using length_new_entries [of rf args] a(3) m by (auto simp: logLength_def)
  qed
  ultimately show ?thesis using a(1) by (auto simp: zeroReply_def)
qed

lemma AppendEntries_reject:
  assumes "aeTerm args < currentTerm rf \<or> \<not> consistent_at rf args"
  shows "\<exists>rf' r. AppendEntries now rf args = Some (rf', r) \<and> \<not> aerSuccess r \<and> log rf' = log rf \<and>
    aerTerm r = max (currentTerm rf) (aeTerm args) \<and>
    (aeTerm args < currentTerm rf \<longrightarrow> rf' = rf) \<and>
    (currentTerm rf \<le> aeTerm args \<longrightarrow>
       aerXTerm r = - 1 \<and> aerXLen r = logLength rf \<and> logLength rf \<le> aePrevLogIndex args \<or>
       term_at rf (aePrevLogIndex args) = Some (aerXTerm r) \<and> aerXTerm r \<noteq> aePrevLogTerm args \<and>
       snapIndex rf < aerXIndex r \<and> aerXIndex r \<le> aePrevLogIndex args \<and>
       (\<forall>i. aerXIndex r \<le> i \<and> i \<le> aePrevLogIndex args \<longrightarrow> term_at rf i = Some (aerXTerm r)) \<and>
       (aerXIndex r = snapIndex rf + 1 \<or> term_at rf (aerXIndex r - 1) \<noteq> Some (aerXTerm r)))"
proof (cases "aeTerm args < currentTerm rf")
  case True
  then show ?thesis by (simp add: AppendEntries_stale zeroReply_def)
next
  case False
  let ?a = "accept_term now rf (aeTerm args)"
  have cur: "currentTerm rf \<le> aeTerm args" using False by simp
  then have ct: "currentTerm ?a = aeTerm args" "max (currentTerm rf) (aeTerm args) = aeTerm args"
    by (simp_all add: accept_term_term)
  have ta: "term_at ?a = term_at rf" by (simp add: term_at_def fun_eq_iff)
  have nc: "\<not> consistent_at ?a args" using assms False by (simp add: consistent_at_def ta)
  show ?thesis
  proof (cases rule: AppendEntries_log_cases [of args ?a])
    case too_short
    then show ?thesis
      using AppendEntries_log_too_short [of ?a args] cur ct
      by (simp add: AppendEntries_current zeroReply_def)
  next
    case (conflict t)
    obtain x where "AppendEntries_log ?a args =
        Some (?a, zeroReply\<lparr>aerXTerm := t, aerXIndex := x, aerXLen := - 1, aerTerm := currentTerm ?a\<rparr>)"
      "snapIndex rf < x" "x \<le> aePrevLogIndex args"
      "\<forall>i. x \<le> i \<and> i \<le> aePrevLogIndex args \<longrightarrow> term_at rf i = Some t"
      "x = snapIndex rf + 1 \<or> term_at rf (x - 1) \<noteq> Some t"
      using AppendEntries_log_conflict [OF conflict] ta by auto
    then show ?thesis
      using conflict ct cur by (simp add: AppendEntries_current zeroReply_def ta)
  qed (use nc in \<open>auto simp: consistent_at_def\<close>)
qed

text \<open>
  AppendEntries, rejected: a message of an old term changes nothing; one that does not fit the
  log leaves the log unchanged, and its hints are right. \<^verbatim>\<open>XTerm\<close> is the follower's term at
  \<^verbatim>\<open>PrevLogIndex\<close> and \<^verbatim>\<open>XIndex\<close> the first index of that term still in the log, or \<^verbatim>\<open>XTerm\<close>
  is -1 and \<^verbatim>\<open>XLen\<close> the length of a log that ends before \<^verbatim>\<open>PrevLogIndex\<close>.
\<close>

lemma AppendEntries_rejects:
  assumes "aeTerm args < currentTerm rf \<or> \<not> consistent_at rf args"
  shows "\<exists>rf' r. AppendEntries now rf args = Some (rf', r) \<and> \<not> aerSuccess r \<and> log rf' = log rf \<and>
    aerTerm r = max (currentTerm rf) (aeTerm args) \<and>
    (aeTerm args < currentTerm rf \<longrightarrow> rf' = rf) \<and>
    (currentTerm rf \<le> aeTerm args \<longrightarrow>
       aerXTerm r = - 1 \<and> aerXLen r = logLength rf \<and> logLength rf \<le> aePrevLogIndex args \<or>
       term_at rf (aePrevLogIndex args) = Some (aerXTerm r) \<and> aerXTerm r \<noteq> aePrevLogTerm args \<and>
       snapIndex rf < aerXIndex r \<and> aerXIndex r \<le> aePrevLogIndex args \<and>
       (\<forall>i. aerXIndex r \<le> i \<and> i \<le> aePrevLogIndex args \<longrightarrow> term_at rf i = Some (aerXTerm r)) \<and>
       (aerXIndex r = snapIndex rf + 1 \<or> term_at rf (aerXIndex r - 1) \<noteq> Some (aerXTerm r)))"
  by (rule AppendEntries_reject [OF assms])

text \<open>A follower of \<open>leader0\<close>, and one whose log conflicts with it.\<close>

definition msg0 :: "nat AppendEntriesArgs" where
  "msg0 = \<lparr>aeTerm = 1, aeLeaderId = 0, aePrevLogIndex = 0, aePrevLogTerm = - 1,
     aeEntries = [\<lparr>entTerm = 1, entCommand = Some 7\<rparr>, \<lparr>entTerm = 1, entCommand = Some 8\<rparr>], aeLeaderCommit = 0\<rparr>"

definition msg2 :: "nat AppendEntriesArgs" where
  "msg2 = \<lparr>aeTerm = 3, aeLeaderId = 1, aePrevLogIndex = 2, aePrevLogTerm = 2, aeEntries = [], aeLeaderCommit = 0\<rparr>"

lemma msg0_consistent: "log_ok peer0" "currentTerm peer0 \<le> aeTerm msg0" "consistent_at peer0 msg0"
  by code_simp+

lemma msg2_inconsistent: "\<not> consistent_at leader0 msg2"
  by code_simp

text \<open>
  Old and repeated messages are harmless: once a message has been accepted, accepting it
  again, or a version of it with fewer entries that was overtaken on the network, leaves the log
  as it is; in particular it removes no entry.
\<close>

lemma AppendEntries_idempotent:
  assumes "log_ok rf" "currentTerm rf \<le> aeTerm args" "consistent_at rf args"
    "AppendEntries now rf args = Some (rf1, r1)"
  shows "\<exists>rf2 r2. AppendEntries now' rf1 (args\<lparr>aeEntries := take k (aeEntries args)\<rparr>) = Some (rf2, r2) \<and>
    aerSuccess r2 \<and> log rf2 = log rf1 \<and> snapIndex rf2 = snapIndex rf1"
proof -
  let ?m = "merge_point rf args" and ?es = "new_entries rf args"
  let ?args = "args\<lparr>aeEntries := take k (aeEntries args)\<rparr>"
  have a: "log rf1 = merged_log rf (?m + 1) ?es" "snapIndex rf1 = snapIndex rf" "currentTerm rf1 = aeTerm args"
    using AppendEntries_accept [OF assms(1-3), of now] assms(4) by auto
  have m: "snapIndex rf \<le> ?m" "?m < logLength rf" using merge_point_in_log [OF assms(1,3)] by auto
  have same: "get rf1 i = get rf i" if "i \<le> ?m" for i
    using merged_log_prefix [of rf "?m + 1" i] m that a by (simp add: get_def)
  have "aePrevLogIndex args \<le> ?m" by (simp add: merge_point_def)
  then have c: "consistent_at rf1 ?args"
    using assms(3) same a(2) by (auto simp: consistent_at_def term_at_def)
  have ok: "log_ok rf1"
    using assms(1) a m by (auto simp: log_ok_def merged_log_def upto_idx_def)
  have mp: "merge_point rf1 ?args = ?m" using a(2) by (simp add: merge_point_def)
  have u: "length (upto_idx rf (?m + 1)) = nat (?m + 1 - snapIndex rf)"
    using length_upto_idx [of rf "?m + 1"] m by simp
  have "upto_idx rf1 (?m + 1) = upto_idx rf (?m + 1)"
    "from_idx rf1 (?m + 1) = merge_entries (from_idx rf (?m + 1)) ?es"
    using u a by (simp_all add: upto_idx_def [of rf1] from_idx_def [of rf1] merged_log_def)
  moreover obtain j where "new_entries rf1 ?args = take j ?es"
    by (rule that [of "k - nat (?m - aePrevLogIndex args)"]) (simp add: new_entries_def mp drop_take)
  ultimately have "merged_log rf1 (?m + 1) (new_entries rf1 ?args) = log rf1"
    by (simp add: merged_log_def a(1) merge_entries_stale)
  moreover have "currentTerm rf1 \<le> aeTerm ?args" using a(3) by simp
  ultimately obtain rf2 where "AppendEntries now' rf1 ?args =
      Some (rf2, zeroReply\<lparr>aerTerm := aeTerm ?args, aerSuccess := True\<rparr>)"
    "log rf2 = log rf1" "snapIndex rf2 = snapIndex rf1"
    using AppendEntries_accept [OF ok _ c, of now'] mp by metis
  then show ?thesis by (auto simp: zeroReply_def)
qed

text \<open>
  C34. The leader's commit rule: \<^verbatim>\<open>updateCommitIndex\<close> moves \<^verbatim>\<open>commitIndex\<close> to the greatest index
  above it whose entry is of the leader's term and is held by a majority of the peers, wakes the
  applier, and changes nothing else; if there is no such index nothing changes.
\<close>

theorem leader_commit_rule:
  assumes "node_ok rf" "state rf = Leader"
  shows "\<exists>rf'. updateCommitIndex rf = Some rf' \<and>
    (rf' = rf \<and> (\<forall>N > commitIndex rf. snapIndex rf < N \<longrightarrow> \<not> committable rf N) \<or>
     (\<exists>N > commitIndex rf. snapIndex rf < N \<and> committable rf N \<and> (\<forall>K > N. \<not> committable rf K) \<and>
        rf' = rf\<lparr>commitIndex := N, wakeCh := True\<rparr>))"
proof -
  have above: "\<not> committable rf K" if "\<not> K \<le> logLength rf - 1" for K
    using that by (auto simp: committable_def term_at_def get_Some_iff)
  have "length (matchIndex rf) = npeers rf" using assms by (simp add: node_ok_def)
  then obtain rf' where "updateCommitIndex rf = Some rf'" "commit_outcome rf (logLength rf - 1) rf'"
    using updateCommitIndex_spec by blast
  then show ?thesis
    using above unfolding commit_outcome_def bEffortKick_def by (metis (no_types, lifting))
qed

text \<open>\<open>leader0\<close> after peer 1 has acknowledged both entries.\<close>

lemma leader0_acked: "committable (leader0\<lparr>matchIndex := [- 1, 2, 0]\<rparr>) 2"
proof -
  have "replicated_on (leader0\<lparr>matchIndex := [- 1, 2, 0]\<rparr>) 2 = {0, 1}"
    by (auto simp: replicated_on_def leader0_fields less_Suc_eq numeral_3_eq_3)
  then show ?thesis
    by (simp add: committable_def term_at_def get_def nth_int_def leader0_fields)
qed

theorem leader_commit_rule_witness:
  "\<exists>rf'. updateCommitIndex (leader0\<lparr>matchIndex := [- 1, 2, 0]\<rparr>) = Some rf' \<and> commitIndex rf' \<ge> 2"
proof -
  let ?l = "leader0\<lparr>matchIndex := [- 1, 2, 0]\<rparr>"
  have "node_ok ?l"
    by (rule same_log_ok [OF leader0_ok]) (simp_all add: same_shape_def leader0_fields)
  moreover have l: "state ?l = Leader" "commitIndex ?l < 2" "snapIndex ?l < 2" by (simp_all add: leader0_fields)
  ultimately obtain rf' where rf': "updateCommitIndex ?l = Some rf'"
    "rf' = ?l \<and> (\<forall>N > commitIndex ?l. snapIndex ?l < N \<longrightarrow> \<not> committable ?l N) \<or>
     (\<exists>N > commitIndex ?l. snapIndex ?l < N \<and> committable ?l N \<and> (\<forall>K > N. \<not> committable ?l K) \<and>
        rf' = ?l\<lparr>commitIndex := N, wakeCh := True\<rparr>)"
    using leader_commit_rule [of ?l] by blast
  then obtain N where "\<forall>K > N. \<not> committable ?l K" "commitIndex rf' = N"
    using leader0_acked l by fastforce
  then have "2 \<le> commitIndex rf'" using leader0_acked by (metis linorder_not_le)
  then show ?thesis using rf'(1) by blast
qed

text \<open>What a leader's replicator sends.\<close>

lemma singleAppend_args_entries:
  assumes "singleAppend_args l i = Some (SendEntries args)"
  shows "state l = Leader" "aeTerm args = currentTerm l" "aeLeaderCommit args = commitIndex l"
    "nth_int (nextIndex l) (int i) = Some (aePrevLogIndex args + 1)"
    "snapIndex l \<le> aePrevLogIndex args" "term_at l (aePrevLogIndex args) = Some (aePrevLogTerm args)"
    "aePrevLogIndex args + int (length (aeEntries args)) = logLength l - 1"
  using assms
  by (auto simp: singleAppend_args_def Let_def term_at_def entriesFrom_def slice_from_Some_iff
      logLength_def split: if_splits)

text \<open>
  The follower's commit rule: a follower that accepts a leader's message moves its
  \<^verbatim>\<open>commitIndex\<close> to the leader's, never beyond its log, and never back. The code bounds it by the
  last entry of its log rather than, as its comment says, by the last entry of the message; the
  two agree because a replicator always sends the leader's whole suffix.
\<close>

lemma follower_commit_rule:
  assumes "singleAppend_args l i = Some (SendEntries args)" "commitIndex l < logLength l"
    "log_ok f" "currentTerm f \<le> aeTerm args" "consistent_at f args"
  shows "\<exists>f' r. AppendEntries now f args = Some (f', r) \<and>
    commitIndex f' = max (commitIndex f) (min (commitIndex l)
      (aePrevLogIndex args + int (length (aeEntries args)))) \<and>
    aePrevLogIndex args + int (length (aeEntries args)) < logLength f'"
proof -
  note A = singleAppend_args_entries [OF assms(1)]
  let ?m = "merge_point f args" and ?es = "new_entries f args"
  obtain f' where a: "AppendEntries now f args =
      Some (f', zeroReply\<lparr>aerTerm := aeTerm args, aerSuccess := True\<rparr>)"
    "log f' = merged_log f (?m + 1) ?es" "snapIndex f' = snapIndex f"
    "commitIndex f' = (if aeLeaderCommit args > commitIndex f
       then min (aeLeaderCommit args) (logLength f' - 1) else commitIndex f)"
    using AppendEntries_accept [OF assms(3-5), of now] by blast
  have m: "snapIndex f \<le> ?m" "?m < logLength f" using merge_point_in_log [OF assms(3,5)] by auto
  have "length (log f') \<ge> nat (?m + 1 - snapIndex f) + length ?es"
    using length_upto_idx [of f "?m + 1"] m length_merge_entries [of ?es "from_idx f (?m + 1)"] a(2)
    by (simp add: merged_log_def)
  then have "aePrevLogIndex args + int (length (aeEntries args)) < logLength f'"
    using length_new_entries [of f args] a(3) m by (auto simp: logLength_def)
  then show ?thesis using a A assms(2) by auto
qed

lemma leader0_sends: "singleAppend_args leader0 1 = Some (SendEntries msg0)"
  by code_simp

text \<open>
  C35. Backing up makes progress: when a follower whose term is not above the leader's rejects what
  the leader's replicator sent, and the leader has not changed in between, the leader's processing
  of the reply strictly lowers \<^verbatim>\<open>nextIndex\<close> for that follower, keeps it positive, and asks for a
  retry. So the retry loop of \<^verbatim>\<open>singleAppend\<close> reaches an accepting prefix or the leader's snapshot.
  The logs need to agree on terms in the sense of the Log Matching property (a leader that holds
  the follower's conflicting term above \<^verbatim>\<open>PrevLogIndex\<close> holds it there too), and the follower's
  entry at \<^verbatim>\<open>PrevLogIndex\<close> to have a real term, not the -1 that stands for no entry.
\<close>

theorem backing_up_progress:
  assumes "node_ok l" "i < npeers l" "singleAppend_args l i = Some (SendEntries args)"
    and "log_ok f" "currentTerm f \<le> currentTerm l" "AppendEntries now f args = Some (f', r)" "\<not> aerSuccess r"
    and matching: "\<forall>t j. term_at f (aePrevLogIndex args) = Some t \<and> aePrevLogIndex args < j \<and>
      term_at l j = Some t \<longrightarrow> term_at l (aePrevLogIndex args) = Some t"
    and real: "term_at f (aePrevLogIndex args) \<noteq> Some (- 1)"
  shows "\<exists>l'. singleAppend_reply l i args r = Some (l', True) \<and>
    nextIndex l' ! i < nextIndex l ! i \<and> 0 < nextIndex l' ! i"
proof -
  note A = singleAppend_args_entries [OF assms(3)]
  have ni: "nextIndex l ! i = aePrevLogIndex args + 1" "i < length (nextIndex l)"
    using A(4) by (auto simp: nth_int_Some_iff)
  have snap: "0 \<le> snapIndex l" "snapIndex l < logLength l"
    using assms(1) log_ok_logLength by (auto simp: node_ok_def log_ok_def)
  have cur: "currentTerm f \<le> aeTerm args" using assms(5) A(2) by simp
  have nc: "\<not> consistent_at f args"
  proof
    assume c: "consistent_at f args"
    show False
      by (rule AppendEntries_accept [OF assms(4) cur c, of now]) (use assms(6,7) in \<open>auto simp: zeroReply_def\<close>)
  qed
  have r0: "aerTerm r = aeTerm args" and hint: "aerXTerm r = - 1 \<and> aerXLen r = logLength f \<and> logLength f \<le> aePrevLogIndex args \<or>
       term_at f (aePrevLogIndex args) = Some (aerXTerm r) \<and> aerXTerm r \<noteq> aePrevLogTerm args \<and>
       snapIndex f < aerXIndex r \<and> aerXIndex r \<le> aePrevLogIndex args"
    using AppendEntries_reject [OF disjI2 [OF nc], of now] assms(6) cur by auto
  obtain v where v: "stepBack l i (aerXTerm r) (aerXIndex r) (aerXLen r) =
      Some (l\<lparr>nextIndex := (nextIndex l)[i := v]\<rparr>)"
    "aerXTerm r = - 1 \<and> v = min (aerXLen r) (logLength l) \<or>
     aerXTerm r \<noteq> - 1 \<and> v = aerXIndex r \<and> (\<forall>k. snapIndex l < k \<longrightarrow> term_at l k \<noteq> Some (aerXTerm r)) \<or>
     aerXTerm r \<noteq> - 1 \<and> snapIndex l < v - 1 \<and> v \<le> logLength l \<and> term_at l (v - 1) = Some (aerXTerm r) \<and>
       (\<forall>k. v \<le> k \<longrightarrow> term_at l k \<noteq> Some (aerXTerm r))"
    by (rule stepBack_step [OF assms(1) A(1) assms(2)])
  have "0 < logLength f" "0 \<le> snapIndex f"
    using assms(4) log_ok_logLength [of f] by (auto simp: log_ok_def)
  moreover have "v - 1 < aePrevLogIndex args" if "term_at f (aePrevLogIndex args) = Some (aerXTerm r)"
    "aerXTerm r \<noteq> aePrevLogTerm args" "term_at l (v - 1) = Some (aerXTerm r)"
    using that A(6) matching by (metis linorder_neqE option.inject)
  ultimately have "0 < v" "v \<le> aePrevLogIndex args"
    using hint v(2) real snap by auto
  moreover have "singleAppend_reply l i args r = Some (l\<lparr>nextIndex := (nextIndex l)[i := v]\<rparr>, True)"
    using v(1) r0 A(1,2) assms(7) by (simp add: singleAppend_reply_def)
  ultimately show ?thesis using ni by auto
qed

text \<open>A leader that believes its follower has both entries, and the empty follower.\<close>

definition ahead0 :: "(nat, nat) Raft" where
  "ahead0 = leader0\<lparr>nextIndex := [- 1, 3, 3]\<rparr>"

definition probe0 :: "nat AppendEntriesArgs" where
  "probe0 = \<lparr>aeTerm = 1, aeLeaderId = 0, aePrevLogIndex = 2, aePrevLogTerm = 1, aeEntries = [], aeLeaderCommit = 0\<rparr>"

lemma probe0_facts:
  "singleAppend_args ahead0 1 = Some (SendEntries probe0)" "term_at peer0 2 = None"
  "map_option (\<lambda>(f, r). aerSuccess r) (AppendEntries 4 peer0 probe0) = Some False"
  "1 < npeers ahead0" "currentTerm peer0 \<le> currentTerm ahead0" "aePrevLogIndex probe0 = 2"
  by code_simp+

theorem backing_up_progress_witness:
  "\<exists>f' r l'. AppendEntries 4 peer0 probe0 = Some (f', r) \<and> singleAppend_reply ahead0 1 probe0 r = Some (l', True) \<and>
     nextIndex l' ! 1 < nextIndex ahead0 ! 1"
proof -
  obtain f' r where fr: "AppendEntries 4 peer0 probe0 = Some (f', r)" "\<not> aerSuccess r"
    using probe0_facts(3) by auto
  have "node_ok ahead0"
    unfolding ahead0_def by (rule same_log_ok [OF leader0_ok]) (simp_all add: same_shape_def leader0_fields)
  then have "\<exists>l'. singleAppend_reply ahead0 1 probe0 r = Some (l', True) \<and>
      nextIndex l' ! 1 < nextIndex ahead0 ! 1 \<and> 0 < nextIndex l' ! 1"
    by (rule backing_up_progress [OF _ probe0_facts(4,1) msg0_consistent(1) probe0_facts(5) fr])
      (simp_all add: probe0_facts)
  then show ?thesis using fr(1) by blast
qed

text \<open>
  Delivery: an iteration of \<^verbatim>\<open>guardKick\<close> sends, in order, one command message for each index
  from \<^verbatim>\<open>lastApplied + 1\<close> to \<^verbatim>\<open>commitIndex\<close> with the command the log holds there, and then
  sets \<^verbatim>\<open>lastApplied\<close> to \<^verbatim>\<open>commitIndex\<close>. So no committed index is skipped or sent twice.
\<close>

lemma guardKick_delivers:
  assumes "commitIndex rf < logLength rf" "snapIndex rf \<le> lastApplied rf"
  shows "\<exists>rf' ms. guardKick rf = Some (rf', ms) \<and> \<not> wakeCh rf' \<and>
    map amCommandIndex ms = [lastApplied rf + 1..commitIndex rf] \<and>
    lastApplied rf' = max (lastApplied rf) (commitIndex rf) \<and> commitIndex rf' = commitIndex rf \<and>
    log rf' = log rf \<and>
    (\<forall>m \<in> set ms. amCommandValid m \<and> \<not> amSnapshotValid m \<and>
       map_option entCommand (get rf (amCommandIndex m)) = Some (amCommand m))"
proof (cases "commitIndex rf < lastApplied rf + 1")
  case True
  then show ?thesis by (simp add: guardKick_def Let_def)
next
  case False
  let ?rf = "rf\<lparr>wakeCh := False\<rparr>"
  have g: "get ?rf = get rf" "logLength ?rf = logLength rf" by (simp_all add: get_def logLength_def fun_eq_iff)
  have "max (lastApplied rf + 1) (snapIndex rf + 1) = lastApplied rf + 1" using assms(2) by simp
  then have c: "collect_applies ?rf (lastApplied rf + 1) (commitIndex rf) =
      Some (map (command_msg ?rf) [lastApplied rf + 1..commitIndex rf])"
    using collect_applies_spec [of "commitIndex rf" ?rf "lastApplied rf + 1"] assms g by simp
  have "guardKick rf = Some (?rf\<lparr>lastApplied := commitIndex rf\<rparr>,
      map (command_msg ?rf) [lastApplied rf + 1..commitIndex rf])"
    using False c by (simp add: guardKick_def Let_def)
  moreover have "\<exists>e. get rf i = Some e" if "lastApplied rf + 1 \<le> i" "i \<le> commitIndex rf" for i
    using that assms get_in_range [of rf i] by auto
  moreover have "map (amCommandIndex \<circ> command_msg ?rf) is = is" for "is"
    by (rule map_idI) (simp add: command_msg_def)
  ultimately show ?thesis using False g by (fastforce simp: command_msg_def)
qed

definition committed0 :: "(nat, nat) Raft" where
  "committed0 = leader0\<lparr>commitIndex := 2, wakeCh := True\<rparr>"

lemma committed0_ok: "commitIndex committed0 < logLength committed0" "snapIndex committed0 \<le> lastApplied committed0"
  by code_simp+

text \<open>
  Compaction: \<^verbatim>\<open>Snapshot\<close> at an index of the log discards exactly the entries up to that
  index. Length, terms and entries above it, and the term at the index itself, stay the same,
  seen through the index translation of \<^verbatim>\<open>help_log.go\<close>, and the result is on disk.
\<close>

lemma Snapshot_compacts:
  assumes "log_ok rf" "snapIndex rf < index" "index < logLength rf"
  shows "\<exists>rf'. Snapshot rf index snap = Some rf' \<and> log_ok rf' \<and> snapIndex rf' = index \<and> snapshot rf' = snap \<and>
    logLength rf' = logLength rf \<and> (\<forall>i > index. get rf' i = get rf i) \<and>
    term_at rf' index = term_at rf index \<and> (\<forall>i < index. get rf' i = None) \<and> durable rf'"
proof -
  obtain rf' where r: "Snapshot rf index snap = Some rf'" "log_ok rf'" "snapIndex rf' = index"
    "logLength rf' = logLength rf" "snapshot rf' = snap" "durable rf'" "\<forall>i. index < i \<longrightarrow> get rf' i = get rf i"
    "term_at rf' index = term_at rf index"
    using Snapshot_spec [OF assms] by blast
  then show ?thesis by (auto simp: get_None_iff)
qed

text \<open>
  Installing a snapshot: a snapshot of the current term that is newer than the peer's own
  replaces it. The log keeps its entries above the snapshot index and takes the snapshot's
  term at that index; if the service is behind, it is handed the snapshot in one message and
  \<^verbatim>\<open>lastApplied\<close> and \<^verbatim>\<open>commitIndex\<close> move to its index; otherwise no message is sent.
\<close>

lemma InstallSnapshot_installs:
  assumes "currentTerm rf \<le> isTerm args" "snapIndex rf < isLastIncludedIndex args"
  shows "\<exists>rf' r ms. InstallSnapshot now rf args = Some (rf', r, ms) \<and> isrTerm r = isTerm args \<and>
    snapIndex rf' = isLastIncludedIndex args \<and> snapshot rf' = isData args \<and> durable rf' \<and>
    term_at rf' (isLastIncludedIndex args) = Some (isLastIncludedTerm args) \<and>
    (\<forall>i > isLastIncludedIndex args. get rf' i = get rf i) \<and>
    (if lastApplied rf < isLastIncludedIndex args
     then ms = [snapshot_msg args] \<and> lastApplied rf' = isLastIncludedIndex args \<and>
       commitIndex rf' = isLastIncludedIndex args
     else ms = [] \<and> lastApplied rf' = lastApplied rf \<and> commitIndex rf' = commitIndex rf)"
proof -
  let ?i = "installed now rf args" and ?x = "isLastIncludedIndex args"
  have l: "log ?i = \<lparr>entTerm = isLastIncludedTerm args, entCommand = None\<rparr> # from_idx rf (?x + 1)"
    by (simp add: installed_def Let_def touched_def from_idx_def)
  have "get ?i i = get rf i" if "?x < i" for i
  proof -
    have "get ?i i = nth_int (from_idx rf (?x + 1)) (i - ?x - 1)"
      using that by (simp add: get_def l nth_int_Cons)
    also have "\<dots> = get rf i"
      using that assms(2) by (simp add: from_idx_def nth_int_drop get_def)
    finally show ?thesis .
  qed
  moreover have "get ?i ?x = Some \<lparr>entTerm = isLastIncludedTerm args, entCommand = None\<rparr>"
    by (simp add: get_def l nth_int_Cons)
  moreover have upd: "get (?i\<lparr>lastApplied := a, commitIndex := b\<rparr>) = get ?i"
      "durable (?i\<lparr>lastApplied := a, commitIndex := b\<rparr>) = durable ?i" for a b
    by (simp_all add: get_def fun_eq_iff durable_def persistent_state_def)
  ultimately show ?thesis
    using InstallSnapshot_new [OF assms, of now] by (auto simp: Let_def term_at_def)
qed

text \<open>
  A replication round: after a leader has sent its suffix, the follower has accepted it and
  the leader, still in the same term, has processed the reply, the follower's log has the
  leader's term at every index above \<^verbatim>\<open>PrevLogIndex\<close> and its own snapshot up to the leader's
  last index at sending time, and \<^verbatim>\<open>matchIndex\<close> and \<^verbatim>\<open>nextIndex\<close> record exactly that index.
\<close>

lemma replication_round:
  assumes "node_ok l" "i < npeers l" "singleAppend_args l i = Some (SendEntries args)"
    and "log_ok f" "currentTerm f \<le> currentTerm l" "consistent_at f args"
  shows "\<exists>f' r l'. AppendEntries now f args = Some (f', r) \<and> singleAppend_reply l i args r = Some (l', False) \<and>
    matchIndex l' ! i = logLength l - 1 \<and> nextIndex l' ! i = logLength l \<and> log l' = log l \<and>
    (\<forall>j. merge_point f args < j \<and> j < logLength l \<longrightarrow> term_at f' j = term_at l j)"
proof -
  note A = singleAppend_args_entries [OF assms(3)]
  let ?m = "merge_point f args" and ?es = "new_entries f args" and ?p = "aePrevLogIndex args"
  have cur: "currentTerm f \<le> aeTerm args" using assms(5) A(2) by simp
  obtain f' where a: "AppendEntries now f args =
      Some (f', zeroReply\<lparr>aerTerm := aeTerm args, aerSuccess := True\<rparr>)"
    "log f' = merged_log f (?m + 1) ?es" "snapIndex f' = snapIndex f"
    using AppendEntries_accept [OF assms(4) cur assms(6), of now] by blast
  have m: "snapIndex f \<le> ?m" "?m < logLength f" "?p \<le> ?m"
    using merge_point_in_log [OF assms(4,6)] by (auto simp: merge_point_def)
  have es: "aeEntries args = drop (nat (?p + 1 - snapIndex l)) (log l)"
    using assms(3) by (auto simp: singleAppend_args_def Let_def entriesFrom_def slice_from_Some_iff split: if_splits)
  have "term_at f' j = term_at l j" if j: "?m < j" "j < logLength l" for j
  proof -
    define k where "k = nat (j - ?m - 1)"
    have k: "j = ?m + 1 + int k" using j by (simp add: k_def)
    have kl: "k < length ?es" using j k A(7) m(3) length_new_entries [of f args] by linarith
    have "term_at f' j = Some (entTerm (?es ! k))"
      unfolding k by (rule merged_log_terms [OF m(1,2) kl a(2,3)])
    moreover have "?es ! k = aeEntries args ! nat (j - ?p - 1)"
      using nth_new_entries [OF kl] k by (simp add: algebra_simps)
    moreover have "nat (j - ?p - 1) < length (aeEntries args)" using j A(7) m(3) by linarith
    then have "aeEntries args ! nat (j - ?p - 1) = log l ! nat (j - snapIndex l)"
      unfolding es using j m(3) A(5) by (subst nth_drop) (auto simp: nat_add_distrib [symmetric])
    moreover have "get l j = Some (log l ! nat (j - snapIndex l))"
      using j m(3) A(5) by (intro get_in_range) auto
    ultimately show ?thesis by (simp add: term_at_def)
  qed
  moreover have "\<exists>l'. singleAppend_reply l i args (zeroReply\<lparr>aerTerm := aeTerm args, aerSuccess := True\<rparr>) = Some (l', False) \<and>
    matchIndex l' ! i = logLength l - 1 \<and> nextIndex l' ! i = logLength l \<and> log l' = log l"
  proof -
    let ?l = "l\<lparr>matchIndex := (matchIndex l)[i := logLength l - 1], nextIndex := (nextIndex l)[i := logLength l]\<rparr>"
    have len: "length (matchIndex l) = npeers l" "length (nextIndex l) = npeers l"
      using assms(1) A(1) by (auto simp: node_ok_def)
    have "node_ok ?l" by (rule same_log_ok [OF assms(1)]) (simp_all add: same_shape_def)
    then obtain l' where "updateCommitIndex ?l = Some l'" "commit_outcome ?l (logLength ?l - 1) l'"
      using updateCommitIndex_spec [of ?l] A(1) by (auto simp: node_ok_def)
    then show ?thesis
      using A len assms(2) by (auto simp: singleAppend_reply_def update_int_def zeroReply_def commit_outcome_def)
  qed
  ultimately show ?thesis using a(1) by blast
qed

end
