(* ===== verification/RaftInt64.thy ===== *)
theory RaftInt64
  imports RaftProps
begin

text \<open>
  The peer with the integers of the machine. Everywhere else terms and log indices are unbounded
  integers; here every sum and difference of \<^verbatim>\<open>raft/\<close> that a critical section computes is taken
  modulo \<open>2 ^ 64\<close>, as Go's \<^verbatim>\<open>int\<close> does on the 64-bit platforms the labs run on, one definition per
  definition of the unbounded peer (time stamps and \<^verbatim>\<open>len\<close> excepted: the first are compared by the
  library's \<^verbatim>\<open>time\<close> package, the second cannot overflow). The lemmas say when the two agree. The
  properties are then proved of the wrapping peer: which messages make a handler panic, and what
  every run keeps as long as its numbers stay small.

  \<open>None\<close> is a panic; for the loops given by \<open>partial_function\<close> it would also be a loop that does not
  end, which the agreement with the unbounded (total) definitions excludes.
\<close>

section \<open>Wrap-around\<close>

definition int64 :: "int \<Rightarrow> int" where
  "int64 x = (x + 2 ^ 63) mod 2 ^ 64 - 2 ^ 63"

definition in64 :: "int \<Rightarrow> bool" where
  "in64 x \<longleftrightarrow> - (2 ^ 63) \<le> x \<and> x < 2 ^ 63"

lemma int64_id: "in64 x \<Longrightarrow> int64 x = x"
  by (simp add: int64_def in64_def)

lemma in64_int64 [simp]: "in64 (int64 x)"
  by (simp add: int64_def in64_def pos_mod_bound algebra_simps)

lemma int64_above: "2 ^ 63 \<le> x \<Longrightarrow> x < 2 ^ 64 \<Longrightarrow> int64 x = x - 2 ^ 64"
proof -
  assume "2 ^ 63 \<le> x" "x < 2 ^ 64"
  then have "(x + 2 ^ 63 - 2 ^ 64) mod 2 ^ 64 = x + 2 ^ 63 - 2 ^ 64" by (intro mod_pos_pos_trivial) auto
  moreover have "(x + 2 ^ 63 - 2 ^ 64) mod 2 ^ 64 = (x + 2 ^ 63) mod 2 ^ 64" by (rule minus_mod_self2)
  ultimately show ?thesis by (simp add: int64_def)
qed

section \<open>help\_log.go and persister.go\<close>

definition get64 :: "('c, 'b) Raft \<Rightarrow> int \<Rightarrow> 'c Entry option" where
  "get64 rf i = nth_int (log rf) (int64 (i - snapIndex rf))"

definition entriesFrom64 :: "('c, 'b) Raft \<Rightarrow> int \<Rightarrow> 'c Entry list option" where
  "entriesFrom64 rf start = slice_from (log rf) (int64 (start - snapIndex rf))"

definition logLength64 :: "('c, 'b) Raft \<Rightarrow> int" where
  "logLength64 rf = int64 (int (length (log rf)) + snapIndex rf)"

definition Snapshot64 :: "('c, 'b) Raft \<Rightarrow> int \<Rightarrow> 'b list \<Rightarrow> ('c, 'b) Raft option" where
  "Snapshot64 rf index snap =
     (if index \<le> snapIndex rf then Some rf
      else do {
        e \<leftarrow> get64 rf index;
        rest \<leftarrow> slice_from (log rf) (int64 (int64 (index - snapIndex rf) + 1));
        Some (persist (rf\<lparr>log := \<lparr>entTerm = entTerm e, entCommand = None\<rparr> # rest,
                          snapIndex := index, snapshot := snap\<rparr>))
      })"

section \<open>help\_election.go, election.go and raft.go\<close>

definition becomeCandidate64 :: "('c, 'b) Raft \<Rightarrow> ('c, 'b) Raft" where
  "becomeCandidate64 rf = persist (rf\<lparr>currentTerm := int64 (currentTerm rf + 1), state := Candidate,
     votedFor := int (me rf)\<rparr>)"

definition becomeLeader64 :: "('c, 'b) Raft \<Rightarrow> ('c, 'b) Raft" where
  "becomeLeader64 rf =
     (let lastLogIndex = int64 (logLength64 rf - 1); peers = [0..<npeers rf] in
      rf\<lparr>state := Leader,
         nextIndex := map (\<lambda>i. if i = me rf then - 1 else int64 (lastLogIndex + 1)) peers,
         matchIndex := map (\<lambda>i. if i = me rf then - 1 else 0) peers,
         replicators := replicators rf @ filter (\<lambda>i. i \<noteq> me rf) peers\<rparr>)"

definition tryVotingFor64 :: "int \<Rightarrow> ('c, 'b) Raft \<Rightarrow> int \<Rightarrow> int \<Rightarrow> int \<Rightarrow> (('c, 'b) Raft \<times> bool) option" where
  "tryVotingFor64 now rf candidate lastLogIndex lastLogTerm = do {
     let myLastIndex = int64 (logLength64 rf - 1);
     e \<leftarrow> get64 rf myLastIndex;
     let myLastTerm = entTerm e;
     let upToDate = (lastLogTerm > myLastTerm \<or>
                     (lastLogTerm = myLastTerm \<and> lastLogIndex \<ge> myLastIndex));
     Some (if (votedFor rf = - 1 \<or> votedFor rf = candidate) \<and> upToDate
           then ((persist (rf\<lparr>votedFor := candidate\<rparr>))\<lparr>lastTouchedAt := now\<rparr>, True)
           else (rf, False))
   }"

definition voteReply64 ::
  "('c, 'b) Raft \<Rightarrow> nat \<Rightarrow> RequestVoteArgs \<Rightarrow> RequestVoteReply \<Rightarrow> ('c, 'b) Raft \<times> nat" where
  "voteReply64 rf supporter args reply =
     (let rf = (if rvrTerm reply > currentTerm rf then newGen rf (rvrTerm reply) else rf) in
      if rvrVoteGranted reply \<and> state rf = Candidate \<and> currentTerm rf = rvTerm args
      then let supporter = supporter + 1 in
           (if supporter > npeers rf div 2 then becomeLeader64 rf else rf, supporter)
      else (rf, supporter))"

definition RequestVote64 ::
  "int \<Rightarrow> ('c, 'b) Raft \<Rightarrow> RequestVoteArgs \<Rightarrow> (('c, 'b) Raft \<times> RequestVoteReply) option" where
  "RequestVote64 now rf args =
     (let rf = (if rvTerm args > currentTerm rf then newGen rf (rvTerm args) else rf) in
      if rvTerm args < currentTerm rf
      then Some (rf, \<lparr>rvrTerm = currentTerm rf, rvrVoteGranted = False\<rparr>)
      else do {
        (rf, granted) \<leftarrow>
          tryVotingFor64 now rf (rvCandidateId args) (rvLastLogIndex args) (rvLastLogTerm args);
        Some (rf, \<lparr>rvrTerm = currentTerm rf, rvrVoteGranted = granted\<rparr>)
      })"

definition tick64 :: "int \<Rightarrow> ('c, 'b) Raft \<Rightarrow> ('c, 'b) Raft \<times> bool" where
  "tick64 now rf =
     (if now - lastTouchedAt rf > SELECTION_TIMEOUT \<and> state rf \<noteq> Leader
      then (becomeCandidate64 rf, True) else (rf, False))"

section \<open>help\_replicate.go\<close>

partial_function (option) commit_loop64 :: "('c, 'b) Raft \<Rightarrow> int \<Rightarrow> ('c, 'b) Raft option" where
  [code]: "commit_loop64 rf N =
     (if N > commitIndex rf \<and> N > snapIndex rf then do {
        count \<leftarrow> count_match rf N [0..<npeers rf] 0;
        if count > npeers rf div 2 then do {
          e \<leftarrow> get64 rf N;
          if entTerm e = currentTerm rf
          then Some (bEffortKick (rf\<lparr>commitIndex := N\<rparr>))
          else commit_loop64 rf (int64 (N - 1))
        } else commit_loop64 rf (int64 (N - 1))
      } else Some rf)"

definition updateCommitIndex64 :: "('c, 'b) Raft \<Rightarrow> ('c, 'b) Raft option" where
  "updateCommitIndex64 rf = commit_loop64 rf (int64 (logLength64 rf - 1))"

partial_function (option) lastIndex_loop64 :: "('c, 'b) Raft \<Rightarrow> int \<Rightarrow> int \<Rightarrow> int option" where
  [code]: "lastIndex_loop64 rf term i =
     (if i > snapIndex rf then do {
        e \<leftarrow> get64 rf i;
        if entTerm e = term then Some i else lastIndex_loop64 rf term (int64 (i - 1))
      } else Some (- 1))"

definition lastIndexOfTerm64 :: "('c, 'b) Raft \<Rightarrow> int \<Rightarrow> int option" where
  "lastIndexOfTerm64 rf term = lastIndex_loop64 rf term (int64 (logLength64 rf - 1))"

definition stepBack64 :: "('c, 'b) Raft \<Rightarrow> nat \<Rightarrow> int \<Rightarrow> int \<Rightarrow> int \<Rightarrow> ('c, 'b) Raft option" where
  "stepBack64 rf server xTerm xIndex xLen =
     (if xTerm = - 1 then setNextIndex rf server (min_go xLen (logLength64 rf))
      else do {
        term \<leftarrow> lastIndexOfTerm64 rf xTerm;
        if term \<noteq> - 1 then setNextIndex rf server (int64 (term + 1))
        else setNextIndex rf server xIndex
      })"

partial_function (option) reconcile_loop64 ::
  "('c, 'b) Raft \<Rightarrow> int \<Rightarrow> int \<Rightarrow> 'c Entry list \<Rightarrow> (('c, 'b) Raft \<times> int) option" where
  [code]: "reconcile_loop64 rf myIdx yourIdx entries =
     (if myIdx < logLength64 rf \<and> yourIdx < int (length entries) then do {
        mine \<leftarrow> get64 rf myIdx;
        yours \<leftarrow> nth_int entries yourIdx;
        if entTerm mine \<noteq> entTerm yours then do {
          l \<leftarrow> slice_to (log rf) (int64 (myIdx - snapIndex rf));
          Some (rf\<lparr>log := l\<rparr>, yourIdx)
        } else reconcile_loop64 rf (int64 (myIdx + 1)) (int64 (yourIdx + 1)) entries
      } else Some (rf, yourIdx))"

definition reconcileEntries64 ::
  "('c, 'b) Raft \<Rightarrow> int \<Rightarrow> int \<Rightarrow> 'c Entry list \<Rightarrow> ('c, 'b) Raft option" where
  "reconcileEntries64 rf myIdx yourIdx entries = do {
     (rf, yourIdx) \<leftarrow> reconcile_loop64 rf myIdx yourIdx entries;
     rest \<leftarrow> slice_from entries yourIdx;
     Some (batchAppend rf rest)
   }"

definition tryUpdateCommit64 :: "('c, 'b) Raft \<Rightarrow> int \<Rightarrow> ('c, 'b) Raft" where
  "tryUpdateCommit64 rf leaderCommit =
     (if leaderCommit > commitIndex rf
      then let rf = rf\<lparr>commitIndex := min_go leaderCommit (int64 (logLength64 rf - 1))\<rparr> in
           if commitIndex rf > lastApplied rf then bEffortKick rf else rf
      else rf)"

section \<open>replicate.go and install.go\<close>

partial_function (option) xIndex_loop64 :: "('c, 'b) Raft \<Rightarrow> int \<Rightarrow> int \<Rightarrow> int option" where
  [code]: "xIndex_loop64 rf xTerm xIndex =
     (if int64 (xIndex - 1) \<ge> int64 (snapIndex rf + 1) then do {
        e \<leftarrow> get64 rf (int64 (xIndex - 1));
        if entTerm e = xTerm then xIndex_loop64 rf xTerm (int64 (xIndex - 1)) else Some xIndex
      } else Some xIndex)"

definition AppendEntries_log64 ::
  "('c, 'b) Raft \<Rightarrow> 'c AppendEntriesArgs \<Rightarrow> (('c, 'b) Raft \<times> AppendEntriesReply) option" where
  "AppendEntries_log64 rf args =
     (if aePrevLogIndex args \<le> snapIndex rf
      then let reply = zeroReply\<lparr>aerTerm := currentTerm rf, aerSuccess := True\<rparr>;
               appendStart = int64 (snapIndex rf - aePrevLogIndex args) in
           if appendStart \<ge> int (length (aeEntries args))
           then Some (tryUpdateCommit64 rf (aeLeaderCommit args), reply)
           else do {
             rf \<leftarrow> reconcileEntries64 rf (int64 (snapIndex rf + 1)) appendStart (aeEntries args);
             Some (tryUpdateCommit64 rf (aeLeaderCommit args), reply)
           }
      else if aePrevLogIndex args \<ge> logLength64 rf
      then Some (rf, zeroReply\<lparr>aerXTerm := - 1, aerXIndex := - 1, aerXLen := logLength64 rf,
                               aerTerm := currentTerm rf, aerSuccess := False\<rparr>)
      else do {
        e \<leftarrow> get64 rf (aePrevLogIndex args);
        if entTerm e \<noteq> aePrevLogTerm args then do {
          xIndex \<leftarrow> xIndex_loop64 rf (entTerm e) (aePrevLogIndex args);
          Some (rf, zeroReply\<lparr>aerXTerm := entTerm e, aerXIndex := xIndex, aerXLen := - 1,
                              aerTerm := currentTerm rf, aerSuccess := False\<rparr>)
        } else do {
          rf \<leftarrow> reconcileEntries64 rf (int64 (aePrevLogIndex args + 1)) 0 (aeEntries args);
          let rf = tryUpdateCommit64 rf (aeLeaderCommit args);
          Some (rf, zeroReply\<lparr>aerTerm := currentTerm rf, aerSuccess := True\<rparr>)
        }
      })"

definition AppendEntries64 ::
  "int \<Rightarrow> ('c, 'b) Raft \<Rightarrow> 'c AppendEntriesArgs \<Rightarrow> (('c, 'b) Raft \<times> AppendEntriesReply) option" where
  "AppendEntries64 now rf args =
     (let rf = (if aeTerm args > currentTerm rf then newGen rf (aeTerm args)
                else if state rf = Candidate \<and> aeTerm args = currentTerm rf then toFollower rf
                else rf) in
      if aeTerm args < currentTerm rf
      then Some (rf, zeroReply\<lparr>aerTerm := currentTerm rf, aerSuccess := False\<rparr>)
      else AppendEntries_log64 (touched now rf) args)"

definition helpInstall_reply64 ::
  "('c, 'b) Raft \<Rightarrow> nat \<Rightarrow> 'b InstallSnapshotArgs \<Rightarrow> InstallSnapshotReply \<Rightarrow> ('c, 'b) Raft option" where
  "helpInstall_reply64 rf i args reply =
     (if isrTerm reply > currentTerm rf then Some (newGen rf (isrTerm reply))
      else do {
        mi \<leftarrow> update_int (matchIndex rf) (int i) (isLastIncludedIndex args);
        ni \<leftarrow> update_int (nextIndex rf) (int i) (int64 (isLastIncludedIndex args + 1));
        Some (rf\<lparr>matchIndex := mi, nextIndex := ni\<rparr>)
      })"

definition InstallSnapshot64 ::
  "int \<Rightarrow> ('c, 'b) Raft \<Rightarrow> 'b InstallSnapshotArgs \<Rightarrow>
   (('c, 'b) Raft \<times> InstallSnapshotReply \<times> ('c, 'b) ApplyMsg list) option" where
  "InstallSnapshot64 now rf args =
     (if isTerm args < currentTerm rf then Some (rf, \<lparr>isrTerm = currentTerm rf\<rparr>, [])
      else
        let rf = (if isTerm args > currentTerm rf then newGen rf (isTerm args) else rf);
            rf = touched now rf in
        if isLastIncludedIndex args \<le> snapIndex rf
        then Some (rf, \<lparr>isrTerm = currentTerm rf\<rparr>, [])
        else do {
          newLog \<leftarrow> (if isLastIncludedIndex args < int64 (logLength64 rf - 1)
                     then map_option (\<lambda>es. \<lparr>entTerm = 0, entCommand = None\<rparr> # es)
                            (entriesFrom64 rf (int64 (isLastIncludedIndex args + 1)))
                     else Some [\<lparr>entTerm = 0, entCommand = None\<rparr>]);
          rf \<leftarrow> setSnap (rf\<lparr>log := newLog, snapIndex := isLastIncludedIndex args\<rparr>)
                  (isLastIncludedTerm args);
          let rf = persist (rf\<lparr>snapshot := isData args\<rparr>);
          Some (if lastApplied rf < snapIndex rf
                then (rf\<lparr>lastApplied := snapIndex rf, commitIndex := snapIndex rf\<rparr>,
                      \<lparr>isrTerm = currentTerm rf\<rparr>,
                      [\<lparr>amCommandValid = False, amCommand = None, amCommandIndex = 0,
                        amSnapshotValid = True, amSnapshot = isData args,
                        amSnapshotTerm = isLastIncludedTerm args,
                        amSnapshotIndex = isLastIncludedIndex args\<rparr>])
                else (rf, \<lparr>isrTerm = currentTerm rf\<rparr>, []))
        })"

definition singleAppend_reply64 ::
  "('c, 'b) Raft \<Rightarrow> nat \<Rightarrow> 'c AppendEntriesArgs \<Rightarrow> AppendEntriesReply \<Rightarrow>
   (('c, 'b) Raft \<times> bool) option" where
  "singleAppend_reply64 rf i args reply =
     (if aerTerm reply > currentTerm rf then Some (newGen rf (aerTerm reply), False)
      else if currentTerm rf \<noteq> aeTerm args \<or> state rf \<noteq> Leader then Some (rf, False)
      else if \<not> aerSuccess reply then do {
        rf \<leftarrow> stepBack64 rf i (aerXTerm reply) (aerXIndex reply) (aerXLen reply);
        Some (rf, True)
      } else do {
        let m = int64 (aePrevLogIndex args + int (length (aeEntries args)));
        mi \<leftarrow> update_int (matchIndex rf) (int i) m;
        ni \<leftarrow> update_int (nextIndex rf) (int i) (int64 (m + 1));
        rf \<leftarrow> updateCommitIndex64 (rf\<lparr>matchIndex := mi, nextIndex := ni\<rparr>);
        Some (rf, False)
      })"

section \<open>log\_commit.go\<close>

partial_function (option) collect_applies64 ::
  "('c, 'b) Raft \<Rightarrow> int \<Rightarrow> int \<Rightarrow> ('c, 'b) ApplyMsg list option" where
  [code]: "collect_applies64 rf i stop =
     (if i \<le> stop then
        if i \<le> snapIndex rf then collect_applies64 rf (int64 (i + 1)) stop
        else do {
          e \<leftarrow> get64 rf i;
          ms \<leftarrow> collect_applies64 rf (int64 (i + 1)) stop;
          Some (\<lparr>amCommandValid = True, amCommand = entCommand e, amCommandIndex = i,
                 amSnapshotValid = False, amSnapshot = [], amSnapshotTerm = 0,
                 amSnapshotIndex = 0\<rparr> # ms)
        }
      else Some [])"

text \<open>\<^verbatim>\<open>make([]ApplyMsg, end+1-start)\<close> panics on a negative length.\<close>

definition guardKick64 :: "('c, 'b) Raft \<Rightarrow> (('c, 'b) Raft \<times> ('c, 'b) ApplyMsg list) option" where
  "guardKick64 rf =
     (let rf = rf\<lparr>wakeCh := False\<rparr>; start = int64 (lastApplied rf + 1); stop = commitIndex rf in
      if stop < start then Some (rf, [])
      else if int64 (int64 (stop + 1) - start) < 0 then None
      else do {
        applies \<leftarrow> collect_applies64 rf start stop;
        Some (rf\<lparr>lastApplied := commitIndex rf\<rparr>, applies)
      })"

section \<open>The machine\<close>

fun node_step64 :: "('c, 'b) node_event \<Rightarrow> ('c, 'b) Raft \<Rightarrow> ('c, 'b) Raft option" where
  "node_step64 (Tick now) rf = Some (fst (tick64 now rf))"
| "node_step64 (RecvVoteReply supporter args reply) rf = Some (fst (voteReply64 rf supporter args reply))"
| "node_step64 (RecvRequestVote now args) rf = map_option fst (RequestVote64 now rf args)"
| "node_step64 (RecvAppendEntries now args) rf = map_option fst (AppendEntries64 now rf args)"
| "node_step64 (RecvInstallSnapshot now args) rf = map_option fst (InstallSnapshot64 now rf args)"
| "node_step64 (RecvAppendReply i args reply) rf = map_option fst (singleAppend_reply64 rf i args reply)"
| "node_step64 (RecvInstallReply i args reply) rf = helpInstall_reply64 rf i args reply"
| "node_step64 (ClientStart c) rf = Some (fst (Start rf c))"
| "node_step64 Kicked rf = map_option fst (guardKick64 rf)"
| "node_step64 (TakeSnapshot index snap) rf = Snapshot64 rf index snap"
| "node_step64 KillPeer rf = Some (Kill rf)"
| "node_step64 (Restart now) rf = Make (npeers rf) (me rf) (persister rf) now"

fun node_run64 :: "('c, 'b) node_event list \<Rightarrow> ('c, 'b) Raft \<Rightarrow> ('c, 'b) Raft option" where
  "node_run64 [] rf = Some rf"
| "node_run64 (e # es) rf = do { rf \<leftarrow> node_step64 e rf; node_run64 es rf }"

section \<open>Agreement with the unbounded peer\<close>

text \<open>\<open>log64\<close>: the log, compacted prefix included, is shorter than the largest integer.\<close>

definition log64 :: "('c, 'b) Raft \<Rightarrow> bool" where
  "log64 rf \<longleftrightarrow> log_ok rf \<and> logLength rf < 2 ^ 63"

lemma log64_bounds:
  "log64 rf \<Longrightarrow> 0 \<le> snapIndex rf \<and> snapIndex rf < logLength rf \<and> logLength rf < 2 ^ 63"
  using log_ok_logLength [of rf] by (simp add: log64_def log_ok_def)

lemma log64_cong: "log rf' = log rf \<Longrightarrow> snapIndex rf' = snapIndex rf \<Longrightarrow> log64 rf' = log64 rf"
  by (simp add: log64_def log_ok_def logLength_def)

lemma log64_update [simp]:
  "log64 (rf\<lparr>wakeCh := b\<rparr>) = log64 rf"
  "log64 (rf\<lparr>matchIndex := a, nextIndex := c\<rparr>) = log64 rf"
  by (rule log64_cong; simp)+

lemma logLength64_id: "log64 rf \<Longrightarrow> logLength64 rf = logLength rf"
  using log64_bounds [of rf] by (simp add: logLength64_def int64_id in64_def flip: logLength_def)

lemma get64_id: "log64 rf \<Longrightarrow> in64 i \<Longrightarrow> - (2 ^ 63) \<le> i - snapIndex rf \<Longrightarrow> get64 rf i = get rf i"
  using log64_bounds [of rf] by (simp add: get64_def get_def int64_id in64_def)

lemma last64: "log64 rf \<Longrightarrow> int64 (logLength64 rf - 1) = logLength rf - 1"
  using log64_bounds [of rf] by (simp add: logLength64_id int64_id in64_def)

lemma tryUpdateCommit64_id: "log64 rf \<Longrightarrow> tryUpdateCommit64 rf c = tryUpdateCommit rf c"
  by (simp add: tryUpdateCommit64_def tryUpdateCommit_def last64)

lemma becomeLeader64_id: "log64 rf \<Longrightarrow> becomeLeader64 rf = becomeLeader rf"
  using log64_bounds [of rf]
  by (simp add: becomeLeader64_def becomeLeader_def last64 int64_id in64_def Let_def cong: map_cong)

lemma tryVotingFor64_id: "log64 rf \<Longrightarrow> tryVotingFor64 now rf c i t = tryVotingFor now rf c i t"
  using log64_bounds [of rf]
  by (simp add: tryVotingFor64_def tryVotingFor_def last64 get64_id in64_def)

text \<open>The loops stay inside the log, so their counters do not wrap.\<close>

lemma commit_loop64_id:
  "log64 rf \<Longrightarrow> - (2 ^ 63) \<le> N \<Longrightarrow> N < logLength rf \<Longrightarrow> commit_loop64 rf N = commit_loop rf N"
proof (induction rf N rule: commit_loop.induct)
  case (1 rf N)
  note b = log64_bounds [OF \<open>log64 rf\<close>]
  show ?case
  proof (cases "N > commitIndex rf \<and> N > snapIndex rf")
    case True
    with b 1(4,5) have g: "get64 rf N = get rf N" "int64 (N - 1) = N - 1"
      by (simp_all add: get64_id 1(3) int64_id in64_def)
    have IH: "commit_loop64 rf (N - 1) = commit_loop rf (N - 1)"
      if "count_match rf N [0..<npeers rf] 0 = Some c" "c > npeers rf div 2 \<Longrightarrow> \<exists>e. get rf N = Some e \<and> entTerm e \<noteq> currentTerm rf" for c
      using 1(1) [OF True that(1)] 1(2) [OF True that(1)] that(2) 1(3,4,5) True b by fastforce
    show ?thesis
      by (subst commit_loop64.simps, subst commit_loop.simps)
        (use True IH in \<open>auto simp: g split: bind_split\<close>)
  qed (auto simp: commit_loop64.simps [of rf N] commit_loop.simps [of rf N])
qed

lemma lastIndex_loop64_id:
  "log64 rf \<Longrightarrow> - (2 ^ 63) \<le> i \<Longrightarrow> i < logLength rf \<Longrightarrow> lastIndex_loop64 rf t i = lastIndex_loop rf t i"
proof (induction rf t i rule: lastIndex_loop.induct)
  case (1 rf t i)
  note b = log64_bounds [OF \<open>log64 rf\<close>]
  show ?case
  proof (cases "i > snapIndex rf")
    case True
    with b 1(3,4) have g: "get64 rf i = get rf i" "int64 (i - 1) = i - 1"
      by (simp_all add: get64_id 1(2) int64_id in64_def)
    have IH: "lastIndex_loop64 rf t (i - 1) = lastIndex_loop rf t (i - 1)"
      if "get rf i = Some e" "entTerm e \<noteq> t" for e
      using 1(1) [OF True that] 1(2,3,4) True b by simp
    show ?thesis
      by (subst lastIndex_loop64.simps, subst lastIndex_loop.simps)
        (use True IH in \<open>auto simp: g split: bind_split\<close>)
  qed (auto simp: lastIndex_loop64.simps [of rf t i] lastIndex_loop.simps [of rf t i])
qed

lemma xIndex_loop64_id:
  "log64 rf \<Longrightarrow> snapIndex rf < x \<Longrightarrow> x < logLength rf \<Longrightarrow> xIndex_loop64 rf t x = xIndex_loop rf t x"
proof (induction rf t x rule: xIndex_loop.induct)
  case (1 rf t x)
  note b = log64_bounds [OF \<open>log64 rf\<close>]
  have g: "int64 (x - 1) = x - 1" "int64 (snapIndex rf + 1) = snapIndex rf + 1"
    "get64 rf (x - 1) = get rf (x - 1)"
    using b 1(3,4) by (simp_all add: get64_id 1(2) int64_id in64_def)
  show ?case
  proof (cases "x - 1 \<ge> snapIndex rf + 1")
    case True
    have IH: "xIndex_loop64 rf t (x - 1) = xIndex_loop rf t (x - 1)"
      if "get rf (x - 1) = Some e" "entTerm e = t" for e
      using 1(1) [OF True that] 1(2,3,4) True by simp
    show ?thesis
      by (subst xIndex_loop64.simps, subst xIndex_loop.simps)
        (use True IH in \<open>auto simp: g split: bind_split\<close>)
  qed (auto simp: xIndex_loop64.simps [of rf t x] xIndex_loop.simps [of rf t x] g)
qed

lemma reconcile_loop64_id:
  "log64 rf \<Longrightarrow> int (length entries) < 2 ^ 63 \<Longrightarrow> snapIndex rf < m \<Longrightarrow> m \<le> logLength rf \<Longrightarrow> 0 \<le> y \<Longrightarrow>
   reconcile_loop64 rf m y entries = reconcile_loop rf m y entries"
proof (induction rf m y entries rule: reconcile_loop.induct)
  case (1 rf m y entries)
  note b = log64_bounds [OF \<open>log64 rf\<close>] and ll = logLength64_id [OF \<open>log64 rf\<close>]
  show ?case
  proof (cases "m < logLength rf \<and> y < int (length entries)")
    case True
    then have g: "int64 (m + 1) = m + 1" "int64 (y + 1) = y + 1" "get64 rf m = get rf m"
        "int64 (m - snapIndex rf) = m - snapIndex rf"
      using b 1(3,4,5,6) by (simp_all add: get64_id 1(2) int64_id in64_def)
    have IH: "reconcile_loop64 rf (m + 1) (y + 1) entries = reconcile_loop rf (m + 1) (y + 1) entries"
      if "get rf m = Some e" "nth_int entries y = Some f" "\<not> entTerm e \<noteq> entTerm f" for e f
      using 1(1) [OF True that] 1(2,3,4,5,6) True by simp
    show ?thesis
      by (subst reconcile_loop64.simps, subst reconcile_loop.simps)
        (use True IH in \<open>auto simp: g ll split: bind_split\<close>)
  qed (auto simp: reconcile_loop64.simps [of rf m] reconcile_loop.simps [of rf m] ll)
qed

lemma collect_applies64_id:
  "log64 rf \<Longrightarrow> - (2 ^ 62) \<le> i \<Longrightarrow> stop < 2 ^ 62 \<Longrightarrow> i < 2 ^ 62 + 1 \<Longrightarrow>
   collect_applies64 rf i stop = collect_applies rf i stop"
proof (induction rf i stop rule: collect_applies.induct)
  case (1 rf i stop)
  note b = log64_bounds [OF \<open>log64 rf\<close>]
  show ?case
  proof (cases "i \<le> stop")
    case True
    then have g: "int64 (i + 1) = i + 1" using 1(4,5) by (simp add: int64_id in64_def)
    have get: "get64 rf i = get rf i" if "\<not> i \<le> snapIndex rf"
      using that b 1(5,6) True by (simp add: get64_id 1(3) in64_def)
    have IH: "collect_applies64 rf (i + 1) stop = collect_applies rf (i + 1) stop"
      if "i \<le> snapIndex rf \<or> (\<exists>e. get rf i = Some e)"
      using that 1(1) [OF True] 1(2) [OF True] 1(3,4,5,6) True by (cases "i \<le> snapIndex rf") auto
    show ?thesis
      by (subst collect_applies64.simps, subst collect_applies.simps)
        (use True IH in \<open>auto simp: g get split: bind_split\<close>)
  qed (auto simp: collect_applies64.simps [of rf i] collect_applies.simps [of rf i])
qed

text \<open>The handlers: whatever the arguments, except where a difference or sum of them overflows.\<close>

lemma reconcileEntries64_id:
  "log64 rf \<Longrightarrow> int (length entries) < 2 ^ 63 \<Longrightarrow> snapIndex rf < m \<Longrightarrow> m \<le> logLength rf \<Longrightarrow> 0 \<le> y \<Longrightarrow>
   reconcileEntries64 rf m y entries = reconcileEntries rf m y entries"
  by (simp add: reconcileEntries64_def reconcileEntries_def reconcile_loop64_id)

lemma voteReply64_id: "log64 rf \<Longrightarrow> voteReply64 rf s args reply = voteReply rf s args reply"
  using becomeLeader64_id [of rf] becomeLeader64_id [of "newGen rf (rvrTerm reply)"]
    log64_cong [of "newGen rf (rvrTerm reply)" rf]
  by (auto simp: voteReply64_def voteReply_def Let_def)

lemma RequestVote64_id: "log64 rf \<Longrightarrow> RequestVote64 now rf args = RequestVote now rf args"
  using tryVotingFor64_id [of rf] tryVotingFor64_id [of "newGen rf (rvTerm args)"]
    log64_cong [of "newGen rf (rvTerm args)" rf]
  by (auto simp: RequestVote64_def RequestVote_def Let_def)

lemma updateCommitIndex64_id: "log64 rf \<Longrightarrow> updateCommitIndex64 rf = updateCommitIndex rf"
  using log64_bounds [of rf]
  by (simp add: updateCommitIndex64_def updateCommitIndex_def last64 commit_loop64_id)

lemma lastIndexOfTerm64_id: "log64 rf \<Longrightarrow> lastIndexOfTerm64 rf t = lastIndexOfTerm rf t"
  using log64_bounds [of rf]
  by (simp add: lastIndexOfTerm64_def lastIndexOfTerm_def last64 lastIndex_loop64_id)

lemma stepBack64_id:
  assumes "log64 rf"
  shows "stepBack64 rf i xt xi xl = stepBack rf i xt xi xl"
proof -
  note b = log64_bounds [OF assms]
  have "t \<noteq> - 1 \<longrightarrow> int64 (t + 1) = t + 1" if "lastIndexOfTerm rf xt = Some t" for t
    using that lastIndex_loop_spec [of "logLength rf - 1" rf xt] b
    by (auto simp: lastIndexOfTerm_def int64_id in64_def)
  then show ?thesis
    by (auto simp: stepBack64_def stepBack_def logLength64_id lastIndexOfTerm64_id assms split: bind_split)
qed

text \<open>The part of \<^verbatim>\<open>AppendEntries\<close> that works on the log, branch by branch.\<close>

lemma reconcileEntries64_merge:
  assumes "log64 rf" "int (length es) < 2 ^ 63" "snapIndex rf < m" "m \<le> logLength rf" "0 \<le> y"
    "y \<le> int (length es)"
  shows "reconcileEntries64 rf m y es =
    Some (persist (bEffortKick (rf\<lparr>log := merged_log rf m (drop (nat y) es)\<rparr>)))"
  using assms by (simp add: reconcileEntries64_id reconcileEntries_refines)

lemma length_merge_entries_le: "length (merge_entries mine yours) \<le> length mine + length yours"
  by (induction mine yours rule: merge_entries.induct) auto

lemma length_merged_log: "length (merged_log rf m es) \<le> length (log rf) + length es"
  using length_merge_entries_le [of "from_idx rf m" es]
  by (simp add: merged_log_def upto_idx_def from_idx_def)

lemma merged_log64:
  assumes "log64 rf" "logLength rf + int (length es) < 2 ^ 63" "snapIndex rf < m" "m \<le> logLength rf"
    "length es' \<le> length es"
  shows "log64 (persist (bEffortKick (rf\<lparr>log := merged_log rf m es'\<rparr>)))"
proof -
  have "upto_idx rf m \<noteq> []" using assms(1,3) by (auto simp: upto_idx_def log64_def log_ok_def)
  then have "merged_log rf m es' \<noteq> []" by (simp add: merged_log_def)
  with assms length_merged_log [of rf m es'] show ?thesis
    by (auto simp: log64_def log_ok_def logLength_def)
qed

lemma AppendEntries_log64_id:
  assumes l: "log64 rf" and len: "logLength rf + int (length (aeEntries args)) < 2 ^ 63"
    and d: "snapIndex rf - aePrevLogIndex args < 2 ^ 63"
  shows "AppendEntries_log64 rf args = AppendEntries_log rf args"
proof -
  note b = log64_bounds [OF l]
  have len': "int (length (aeEntries args)) < 2 ^ 63" using len b by linarith
  have rec: "do { rf \<leftarrow> reconcileEntries64 rf m y (aeEntries args); f (tryUpdateCommit64 rf c) } =
      do { rf \<leftarrow> reconcileEntries rf m y (aeEntries args); f (tryUpdateCommit rf c) }"
    if "snapIndex rf < m" "m \<le> logLength rf" "0 \<le> y" "y \<le> int (length (aeEntries args))"
    for m y c and f :: "('a, 'b) Raft \<Rightarrow> (('a, 'b) Raft \<times> AppendEntriesReply) option"
    using that by (simp add: reconcileEntries64_merge [OF l len'] reconcileEntries_refines
        tryUpdateCommit64_id [OF merged_log64 [OF l len]])
  show ?thesis
  proof (cases "aePrevLogIndex args \<le> snapIndex rf")
    case True
    then have "int64 (snapIndex rf - aePrevLogIndex args) = snapIndex rf - aePrevLogIndex args"
      "int64 (snapIndex rf + 1) = snapIndex rf + 1"
      using b d by (simp_all add: int64_id in64_def)
    then show ?thesis
      using True b rec [of "snapIndex rf + 1" "snapIndex rf - aePrevLogIndex args"
          "\<lambda>rf'. Some (rf', zeroReply\<lparr>aerTerm := currentTerm rf, aerSuccess := True\<rparr>)"]
      by (simp add: AppendEntries_log64_def AppendEntries_log_def tryUpdateCommit64_id [OF l] Let_def)
  next
    case False
    have "get64 rf (aePrevLogIndex args) = get rf (aePrevLogIndex args)"
      "int64 (aePrevLogIndex args + 1) = aePrevLogIndex args + 1"
      "xIndex_loop64 rf t (aePrevLogIndex args) = xIndex_loop rf t (aePrevLogIndex args)"
      if "aePrevLogIndex args < logLength rf" for t
      using False b that by (simp_all add: get64_id [OF l] xIndex_loop64_id [OF l] int64_id in64_def)
    then show ?thesis
      using False b rec [of "aePrevLogIndex args + 1" 0
          "\<lambda>rf'. Some (rf', zeroReply\<lparr>aerTerm := currentTerm rf', aerSuccess := True\<rparr>)"]
      by (auto simp: AppendEntries_log64_def AppendEntries_log_def logLength64_id [OF l] Let_def
          split: bind_split)
  qed
qed

text \<open>Where the difference overflows, the slice expression of \<^verbatim>\<open>reconcileEntries\<close> panics.\<close>

lemma reconcileEntries64_negative: "y < 0 \<Longrightarrow> reconcileEntries64 rf m y es = None"
  by (auto simp: reconcileEntries64_def reconcile_loop64.simps [of rf m y] slice_from_def nth_int_def
      split: bind_split)

lemma AppendEntries_log64_overflow:
  assumes "log64 rf" "in64 (aePrevLogIndex args)" "2 ^ 63 \<le> snapIndex rf - aePrevLogIndex args"
  shows "AppendEntries_log64 rf args = None"
proof -
  have "int64 (snapIndex rf - aePrevLogIndex args) = snapIndex rf - aePrevLogIndex args - 2 ^ 64"
    using assms log64_bounds [OF assms(1)] by (intro int64_above) (auto simp: in64_def)
  moreover have "snapIndex rf - aePrevLogIndex args - 2 ^ 64 < 0"
    using assms(2) log64_bounds [OF assms(1)] by (simp add: in64_def)
  ultimately show ?thesis
    using assms(3) by (simp add: AppendEntries_log64_def reconcileEntries64_negative Let_def)
qed

lemma AppendEntries_log64_returns:
  assumes l: "log64 rf" and len: "int (length (aeEntries args)) < 2 ^ 63"
    and d: "snapIndex rf - aePrevLogIndex args < 2 ^ 63"
  shows "\<exists>r. AppendEntries_log64 rf args = Some r"
proof -
  note b = log64_bounds [OF l]
  show ?thesis
  proof (cases "aePrevLogIndex args \<le> snapIndex rf")
    case True
    then have "int64 (snapIndex rf - aePrevLogIndex args) = snapIndex rf - aePrevLogIndex args"
      "int64 (snapIndex rf + 1) = snapIndex rf + 1"
      using b d by (simp_all add: int64_id in64_def)
    then show ?thesis
      using True b by (auto simp: AppendEntries_log64_def reconcileEntries64_merge [OF l len] Let_def)
  next
    case False
    show ?thesis
    proof (cases "aePrevLogIndex args < logLength rf")
      case True
      have g: "get64 rf (aePrevLogIndex args) = get rf (aePrevLogIndex args)"
        "int64 (aePrevLogIndex args + 1) = aePrevLogIndex args + 1"
        "xIndex_loop64 rf t (aePrevLogIndex args) = xIndex_loop rf t (aePrevLogIndex args)" for t
        using False b True by (simp_all add: get64_id [OF l] xIndex_loop64_id [OF l] int64_id in64_def)
      obtain e where e: "get rf (aePrevLogIndex args) = Some e"
        using get_in_range False True by (metis linear)
      obtain x where "xIndex_loop rf (entTerm e) (aePrevLogIndex args) = Some x"
        using xIndex_loop_spec [of rf "aePrevLogIndex args" "entTerm e"] False True by auto
      then show ?thesis
        using False True b g e
        by (simp add: AppendEntries_log64_def logLength64_id [OF l] reconcileEntries64_merge [OF l len] Let_def)
    qed (use False in \<open>simp add: AppendEntries_log64_def logLength64_id [OF l]\<close>)
  qed
qed

lemma AppendEntries64_current:
  "currentTerm rf \<le> aeTerm args \<Longrightarrow>
   AppendEntries64 now rf args = AppendEntries_log64 (accept_term now rf (aeTerm args)) args"
  by (simp add: AppendEntries64_def accept_term_def touched_def toFollower_def Let_def)

lemma log64_accept_term: "log64 (accept_term now rf t) = log64 rf"
  by (rule log64_cong) simp_all

lemma AppendEntries64_stale:
  "aeTerm args < currentTerm rf \<Longrightarrow> AppendEntries64 now rf args = AppendEntries now rf args"
  by (simp add: AppendEntries64_def AppendEntries_def Let_def)

lemma AppendEntries64_id:
  assumes "log64 rf" "logLength rf + int (length (aeEntries args)) < 2 ^ 63"
    "snapIndex rf - aePrevLogIndex args < 2 ^ 63"
  shows "AppendEntries64 now rf args = AppendEntries now rf args"
  by (cases "aeTerm args < currentTerm rf")
    (use assms in \<open>simp_all add: AppendEntries64_stale AppendEntries64_current AppendEntries_current
       AppendEntries_log64_id log64_accept_term\<close>)

lemma InstallSnapshot64_id:
  assumes l: "log64 rf" and i: "in64 (isLastIncludedIndex args)"
  shows "InstallSnapshot64 now rf args = InstallSnapshot now rf args"
proof -
  let ?rf = "touched now (if isTerm args > currentTerm rf then newGen rf (isTerm args) else rf)"
  have l': "log64 ?rf" using l by (subst log64_cong [of _ rf]) (simp_all add: touched_def)
  note b = log64_bounds [OF l']
  have e: "entriesFrom64 ?rf (int64 (isLastIncludedIndex args + 1)) = entriesFrom ?rf (isLastIncludedIndex args + 1)"
    if "isLastIncludedIndex args < logLength ?rf - 1" "\<not> isLastIncludedIndex args \<le> snapIndex ?rf"
    using that b by (simp add: entriesFrom64_def entriesFrom_def int64_id in64_def)
  show ?thesis
    unfolding InstallSnapshot64_def InstallSnapshot_def Let_def last64 [OF l'] using e by auto
qed

lemma singleAppend_reply64_id:
  assumes l: "log64 rf" and m: "in64 (aePrevLogIndex args + int (length (aeEntries args)))"
    "aePrevLogIndex args + int (length (aeEntries args)) < 2 ^ 63 - 1"
  shows "singleAppend_reply64 rf i args reply = singleAppend_reply rf i args reply"
proof -
  let ?m = "aePrevLogIndex args + int (length (aeEntries args))"
  have i: "int64 ?m = ?m" "int64 (?m + 1) = ?m + 1"
    using m by (simp_all add: int64_id in64_def)
  have "updateCommitIndex64 (rf\<lparr>matchIndex := a, nextIndex := c\<rparr>) =
      updateCommitIndex (rf\<lparr>matchIndex := a, nextIndex := c\<rparr>)" for a c
    using l by (intro updateCommitIndex64_id) simp
  then show ?thesis
    unfolding singleAppend_reply64_def singleAppend_reply_def Let_def i stepBack64_id [OF l] by simp
qed

lemma Snapshot64_id:
  assumes l: "log64 rf" and i: "in64 index"
  shows "Snapshot64 rf index snap = Snapshot rf index snap"
proof (cases "index \<le> snapIndex rf")
  case False
  note b = log64_bounds [OF l]
  have g: "get64 rf index = get rf index" "int64 (index - snapIndex rf) = index - snapIndex rf"
    using False b i by (simp_all add: get64_id [OF l] int64_id in64_def)
  have "int64 (index - snapIndex rf + 1) = index - snapIndex rf + 1" if "get rf index = Some e" for e
    using that b i False by (simp add: get_Some_iff int64_id in64_def)
  with g show ?thesis by (auto simp: Snapshot64_def Snapshot_def split: bind_split)
qed (simp add: Snapshot64_def Snapshot_def)

lemma guardKick64_id:
  assumes l: "log64 rf" and "- (2 ^ 62) < lastApplied rf" "lastApplied rf < 2 ^ 62"
    "- (2 ^ 62) < commitIndex rf" "commitIndex rf < 2 ^ 62"
  shows "guardKick64 rf = guardKick rf"
proof -
  have "log64 (rf\<lparr>wakeCh := False\<rparr>)" using l by simp
  then have "collect_applies64 (rf\<lparr>wakeCh := False\<rparr>) (lastApplied rf + 1) (commitIndex rf) =
      collect_applies (rf\<lparr>wakeCh := False\<rparr>) (lastApplied rf + 1) (commitIndex rf)"
    using assms by (intro collect_applies64_id) simp_all
  moreover have "int64 (lastApplied rf + 1) = lastApplied rf + 1"
    "int64 (commitIndex rf + 1) = commitIndex rf + 1"
    "int64 (commitIndex rf + 1 - (lastApplied rf + 1)) = commitIndex rf + 1 - (lastApplied rf + 1)"
    using assms by (simp_all add: int64_id in64_def)
  ultimately show ?thesis by (simp add: guardKick64_def guardKick_def Let_def)
qed

section \<open>Which messages panic\<close>

text \<open>The integers of an event, as the RPC layer delivers them.\<close>

fun event64 :: "('c, 'b) node_event \<Rightarrow> bool" where
  "event64 (RecvAppendEntries now args) =
     (in64 (aePrevLogIndex args) \<and> int (length (aeEntries args)) < 2 ^ 63)"
| "event64 (RecvInstallSnapshot now args) = in64 (isLastIncludedIndex args)"
| "event64 e = True"

fun overflows :: "('c, 'b) Raft \<Rightarrow> ('c, 'b) node_event \<Rightarrow> bool" where
  "overflows rf (RecvAppendEntries now args) =
     (currentTerm rf \<le> aeTerm args \<and> 2 ^ 63 \<le> snapIndex rf - aePrevLogIndex args)"
| "overflows rf e = False"

lemma singleAppend_reply64_returns:
  assumes ok: "node_ok rf" and l: "log64 rf" and i: "i < npeers rf"
  shows "\<exists>r. singleAppend_reply64 rf i args reply = Some r"
proof (cases "aerTerm reply > currentTerm rf \<or> currentTerm rf \<noteq> aeTerm args \<or> state rf \<noteq> Leader")
  case False
  let ?m = "int64 (aePrevLogIndex args + int (length (aeEntries args)))"
  let ?rf = "rf\<lparr>matchIndex := (matchIndex rf)[i := ?m], nextIndex := (nextIndex rf)[i := int64 (?m + 1)]\<rparr>"
  have "node_ok ?rf" using ok by (rule same_log_ok) (simp_all add: same_shape_def)
  then obtain rf' where "updateCommitIndex ?rf = Some rf'"
    using updateCommitIndex_step [of ?rf] False by auto
  moreover have "log64 ?rf" using l by simp
  ultimately have u: "updateCommitIndex64 ?rf = Some rf'" by (simp add: updateCommitIndex64_id)
  obtain v where "stepBack rf i (aerXTerm reply) (aerXIndex reply) (aerXLen reply) = Some v"
    using stepBack_step [OF ok _ i] False by metis
  with u False ok i show ?thesis
    by (auto simp: singleAppend_reply64_def stepBack64_id [OF l] update_int_def node_ok_def)
qed (auto simp: singleAppend_reply64_def)

lemma AppendEntries64_None_iff:
  assumes l: "log64 rf" and e: "event64 (RecvAppendEntries now args)"
  shows "AppendEntries64 now rf args = None \<longleftrightarrow> overflows rf (RecvAppendEntries now args)"
proof (cases "aeTerm args < currentTerm rf")
  case True
  then show ?thesis by (simp add: AppendEntries64_def Let_def)
next
  case False
  let ?rf = "accept_term now rf (aeTerm args)"
  have l': "log64 ?rf" using l by (simp add: log64_accept_term)
  have "AppendEntries_log64 ?rf args = None \<longleftrightarrow> 2 ^ 63 \<le> snapIndex rf - aePrevLogIndex args"
    using AppendEntries_log64_overflow [OF l', of args] AppendEntries_log64_returns [OF l', of args] e
    by fastforce
  with False show ?thesis by (simp add: AppendEntries64_current)
qed

text \<open>
  C36. Which message can panic a peer, with 64-bit arithmetic: in a well-formed peer whose log
  (compacted prefix included) is shorter than \<open>2 ^ 63\<close>, whatever 64-bit integers a request or reply
  carries, timers and clients included, the handler panics exactly if it is an AppendEntries of a
  current term whose \<^verbatim>\<open>PrevLogIndex\<close> lies \<open>2 ^ 63\<close> or more below the snapshot index, so that
  \<^verbatim>\<open>rf.snapIndex - args.PrevLogIndex\<close> overflows; otherwise it returns. A reply to an AppendEntries or
  InstallSnapshot RPC must carry the index of a peer; for the latter the peer must have been leader
  since its start. The applier (\<^verbatim>\<open>Kicked\<close>) and the service's own call of \<^verbatim>\<open>Snapshot\<close> take no message
  and are not covered.
\<close>

theorem handlers_never_panic:
  assumes "node_ok rf" "logLength rf < 2 ^ 63" "well_addressed rf e" "event64 e"
  shows "node_step64 e rf = None \<longleftrightarrow> overflows rf e"
proof -
  have lo: "log_ok rf" and l: "log64 rf" using assms by (simp_all add: node_ok_def log64_def)
  show ?thesis
  proof (cases e)
    case (RecvRequestVote now args)
    then show ?thesis
      by (cases rule: RequestVote_cases [OF lo, of now args]) (auto simp: RequestVote64_id [OF l])
  next
    case (RecvAppendEntries now args)
    then show ?thesis using AppendEntries64_None_iff [OF l] assms(4) by simp
  next
    case (RecvInstallSnapshot now args)
    then show ?thesis
      using assms(4) by (auto simp: InstallSnapshot64_id [OF l] intro: InstallSnapshot_step [OF assms(1), of now args])
  next
    case (RecvAppendReply i args reply)
    then show ?thesis using singleAppend_reply64_returns [OF assms(1) l, of i args reply] assms(3) by auto
  next
    case (RecvInstallReply i args reply)
    then show ?thesis
      using assms(1,3) by (auto simp: helpInstall_reply64_def update_int_def node_ok_def)
  next
    case (Restart now)
    then show ?thesis by (auto intro: Make_step [OF assms(1), of now])
  qed (use assms(3) in auto)
qed

definition poison :: "int \<Rightarrow> nat AppendEntriesArgs" where
  "poison prev = \<lparr>aeTerm = 5, aeLeaderId = 2, aePrevLogIndex = prev, aePrevLogTerm = 4,
     aeEntries = [\<lparr>entTerm = 5, entCommand = Some 3\<rparr>], aeLeaderCommit = 40\<rparr>"

theorem handlers_never_panic_witness:
  "node_step64 (RecvAppendEntries 9 (poison 17)) leader0 \<noteq> None \<and>
   node_step64 (RecvAppendEntries 9 (poison (- (2 ^ 63)))) leader0 = None"
proof -
  have "logLength leader0 < 2 ^ 63" by (simp add: logLength_def leader0_fields)
  note p = handlers_never_panic [OF leader0_ok this, of "RecvAppendEntries 9 (poison p)" for p]
  show ?thesis
    using p [of 17] p [of "- (2 ^ 63)"] by (simp add: poison_def in64_def leader0_fields)
qed

section \<open>Runs whose numbers stay small\<close>

definition within :: "int \<Rightarrow> int \<Rightarrow> bool" where
  "within B x \<longleftrightarrow> - B \<le> x \<and> x \<le> B"

definition small :: "int \<Rightarrow> ('c, 'b) Raft \<Rightarrow> bool" where
  "small B rf \<longleftrightarrow> within B (currentTerm rf) \<and> within B (commitIndex rf) \<and> within B (lastApplied rf) \<and>
     logLength rf \<le> B"

fun event_small :: "int \<Rightarrow> ('c, 'b) node_event \<Rightarrow> bool" where
  "event_small B (RecvVoteReply supporter args reply) = within B (rvrTerm reply)"
| "event_small B (RecvRequestVote now args) = within B (rvTerm args)"
| "event_small B (RecvAppendEntries now args) =
     (within B (aeTerm args) \<and> within B (aePrevLogIndex args) \<and> within B (aeLeaderCommit args))"
| "event_small B (RecvInstallSnapshot now args) =
     (within B (isTerm args) \<and> within B (isLastIncludedIndex args))"
| "event_small B (RecvAppendReply i args reply) =
     (within B (aerTerm reply) \<and> within B (aePrevLogIndex args) \<and> int (length (aeEntries args)) \<le> B)"
| "event_small B (RecvInstallReply i args reply) =
     (within B (isrTerm reply) \<and> within B (isLastIncludedIndex args))"
| "event_small B (TakeSnapshot index snap) = within B index"
| "event_small B e = True"

text \<open>By how much one event can raise the largest number of the peer.\<close>

fun growth :: "('c, 'b) node_event \<Rightarrow> int" where
  "growth (RecvAppendEntries now args) = 1 + int (length (aeEntries args))"
| "growth e = 1"

lemma growth_pos: "1 \<le> growth e"
  by (cases e) auto

lemma growth_sum_nonneg: "0 \<le> (\<Sum>e\<leftarrow>es. growth e)"
proof (induction es)
  case (Cons e es)
  then show ?case using growth_pos [of e] by simp
qed simp

lemma within_mono: "within B x \<Longrightarrow> B \<le> B' \<Longrightarrow> within B' x"
  by (simp add: within_def)

lemma event_small_mono: "event_small B e \<Longrightarrow> B \<le> B' \<Longrightarrow> event_small B' e"
  by (cases e) (auto intro: within_mono)

lemma small_mono: "small B rf \<Longrightarrow> B \<le> B' \<Longrightarrow> small B' rf"
  by (auto simp: small_def intro: within_mono)

lemma small_log64: "log_ok rf \<Longrightarrow> small B rf \<Longrightarrow> B < 2 ^ 62 \<Longrightarrow> log64 rf"
  by (simp add: log64_def small_def)

lemma node_step64_id:
  assumes ok: "node_ok rf" and s: "small B rf" and e: "event_small B e" and B: "B + growth e < 2 ^ 62"
  shows "node_step64 e rf = node_step e rf"
proof -
  have l: "log64 rf"
    using ok s B growth_pos [of e] by (intro small_log64 [of _ B]) (auto simp: node_ok_def)
  have B': "B < 2 ^ 62" "0 \<le> B"
    using B growth_pos [of e] s log64_bounds [OF l] by (auto simp: small_def)
  note bounds = B' s [unfolded small_def within_def] log64_bounds [OF l]
  show ?thesis
  proof (cases e)
    case (Tick now)
    have "int64 (currentTerm rf + 1) = currentTerm rf + 1" using bounds by (simp add: int64_id in64_def)
    with Tick show ?thesis by (simp add: tick64_def tick_def becomeCandidate64_def becomeCandidate_def)
  next
    case (RecvAppendEntries now args)
    have "AppendEntries64 now rf args = AppendEntries now rf args"
      using bounds e B RecvAppendEntries by (intro AppendEntries64_id [OF l]) (auto simp: within_def)
    with RecvAppendEntries show ?thesis by simp
  next
    case (RecvInstallSnapshot now args)
    then show ?thesis using bounds e by (simp add: InstallSnapshot64_id [OF l] in64_def within_def)
  next
    case (RecvAppendReply i args reply)
    have "singleAppend_reply64 rf i args reply = singleAppend_reply rf i args reply"
      using bounds e B RecvAppendReply by (intro singleAppend_reply64_id [OF l]) (auto simp: within_def in64_def)
    with RecvAppendReply show ?thesis by simp
  next
    case (RecvInstallReply i args reply)
    then have "int64 (isLastIncludedIndex args + 1) = isLastIncludedIndex args + 1"
      using bounds e by (simp add: int64_id in64_def within_def)
    with RecvInstallReply show ?thesis by (simp add: helpInstall_reply64_def helpInstall_reply_def)
  next
    case Kicked
    then show ?thesis using bounds by (simp add: guardKick64_id [OF l])
  next
    case (TakeSnapshot index snap)
    then show ?thesis using bounds e by (simp add: Snapshot64_id [OF l] in64_def within_def)
  qed (simp_all add: voteReply64_id [OF l] RequestVote64_id [OF l])
qed

text \<open>What a step adds to the numbers; the snapshot index never goes back.\<close>

definition grown :: "int \<Rightarrow> ('c, 'b) Raft \<Rightarrow> ('c, 'b) Raft \<Rightarrow> bool" where
  "grown B rf rf' \<longleftrightarrow> small B rf' \<and> snapIndex rf \<le> snapIndex rf'"

lemma grown_same:
  assumes "small B rf" "snapIndex rf' = snapIndex rf" "log rf' = log rf"
    "within B (currentTerm rf')" "commitIndex rf' = commitIndex rf" "lastApplied rf' = lastApplied rf"
  shows "grown B rf rf'"
  using assms by (simp add: grown_def small_def logLength_def)

lemma AppendEntries_grown:
  assumes ok: "node_ok rf" and s: "small B rf" and e: "event_small B (RecvAppendEntries now args)"
    and ev: "AppendEntries now rf args = Some (rf', r)"
  shows "grown (B + 1 + int (length (aeEntries args))) rf rf'"
proof (cases "aeTerm args < currentTerm rf")
  case True
  then have "rf' = rf" using ev AppendEntries_stale [OF True] by simp
  then show ?thesis using small_mono [OF s] by (simp add: grown_def)
next
  case False
  let ?a = "accept_term now rf (aeTerm args)" and ?B = "B + 1 + int (length (aeEntries args))"
  have ct: "currentTerm ?a = aeTerm args" using False by (intro accept_term_term) simp
  have lo: "log_ok ?a" using ok by (simp add: node_ok_def)
  have s': "grown ?B rf ?a"
    by (rule grown_same) (use small_mono [OF s, of ?B] e in \<open>auto simp: ct within_def\<close>)
  have upd: "grown ?B rf (tryUpdateCommit rf1 (aeLeaderCommit args))"
    if "grown ?B rf rf1" "log_ok rf1" for rf1
    using that e log_ok_logLength [of rf1]
    by (auto simp: grown_def small_def within_def tryUpdateCommit_commitIndex log_ok_def logLength_def)
  have ev': "AppendEntries_log ?a args = Some (rf', r)" using ev False by (simp add: AppendEntries_current)
  show ?thesis
  proof (cases rule: AppendEntries_log_cases [of args ?a, case_names inside merge short conflict])
    case inside
    then show ?thesis using ev' AppendEntries_log_inside [OF inside] upd [OF s' lo] by auto
  next
    case merge
    let ?l = "merged_log ?a (merge_point ?a args + 1) (new_entries ?a args)"
    have "length (new_entries ?a args) \<le> length (aeEntries args)" by (simp add: new_entries_def)
    then have len: "int (length ?l) \<le> int (length (log rf)) + int (length (aeEntries args))"
      using length_merged_log [of ?a "merge_point ?a args + 1" "new_entries ?a args"] by simp
    have "?l \<noteq> []"
      using merge_point_in_log [OF lo merge(1)] lo by (auto simp: merged_log_def upto_idx_def log_ok_def)
    then show ?thesis
      using ev' AppendEntries_log_merge [OF lo merge] s' s len lo
        upd [of "persist (bEffortKick (?a\<lparr>log := ?l\<rparr>))"]
      by (auto simp: grown_def small_def logLength_def log_ok_def)
  next
    case short
    then show ?thesis using ev' AppendEntries_log_too_short [OF short] s' by simp
  next
    case (conflict t)
    then show ?thesis using ev' AppendEntries_log_conflict [OF conflict] s' by auto
  qed
qed

lemma InstallSnapshot_grown:
  assumes ok: "node_ok rf" and s: "small B rf" and e: "event_small B (RecvInstallSnapshot now args)"
    and ev: "InstallSnapshot now rf args = Some (rf', r, ms)"
  shows "grown (B + 1) rf rf'"
proof -
  let ?a = "touched now (if isTerm args > currentTerm rf then newGen rf (isTerm args) else rf)"
  consider (stale) "isTerm args < currentTerm rf"
    | (old) "currentTerm rf \<le> isTerm args" "isLastIncludedIndex args \<le> snapIndex rf"
    | (new) "currentTerm rf \<le> isTerm args" "snapIndex rf < isLastIncludedIndex args" by linarith
  then show ?thesis
  proof cases
    case stale
    then show ?thesis using ev InstallSnapshot_stale [OF stale] small_mono [OF s] by (simp add: grown_def)
  next
    case old
    have "grown (B + 1) rf ?a"
      by (rule grown_same) (use small_mono [OF s, of "B + 1"] e in \<open>auto simp: touched_def small_def within_def\<close>)
    then show ?thesis using ev InstallSnapshot_old [OF old] by simp
  next
    case new
    let ?n = "installed now rf args" and ?i = "isLastIncludedIndex args"
    have "0 \<le> snapIndex rf" using ok by (simp add: node_ok_def log_ok_def)
    then have "logLength ?n \<le> B + 1"
      using s e new by (auto simp: small_def installed_def Let_def logLength_def touched_def from_idx_def within_def)
    then have "grown (B + 1) rf ?n" "grown (B + 1) rf (?n\<lparr>lastApplied := ?i, commitIndex := ?i\<rparr>)"
      using s e new by (auto simp: grown_def small_def within_def logLength_def installed_def Let_def touched_def)
    then show ?thesis using ev InstallSnapshot_new [OF new] by (auto simp: Let_def split: if_splits)
  qed
qed

lemma singleAppend_reply_grown:
  assumes ok: "node_ok rf" and s: "small B rf" and e: "event_small B (RecvAppendReply i args reply)"
    and ev: "singleAppend_reply rf i args reply = Some (rf', b)"
  shows "grown (B + 1) rf rf'"
proof -
  have s1: "small (B + 1) rf" using small_mono [OF s] by simp
  have newer: "grown (B + 1) rf (newGen rf (aerTerm reply))"
    by (rule grown_same) (use s1 e in \<open>auto simp: within_def\<close>)
  have upd: "grown (B + 1) rf rf2"
    if "updateCommitIndex (rf\<lparr>matchIndex := x, nextIndex := y\<rparr>) = Some rf2"
      "length x = npeers rf" for x y rf2
  proof -
    let ?rf = "rf\<lparr>matchIndex := x, nextIndex := y\<rparr>"
    have "commit_outcome ?rf (logLength ?rf - 1) rf2"
      using updateCommitIndex_spec [of ?rf] that by auto
    then have "rf2 = ?rf \<or> (\<exists>M. commitIndex ?rf < M \<and> M \<le> logLength ?rf - 1 \<and>
        rf2 = bEffortKick (?rf\<lparr>commitIndex := M\<rparr>))"
      by (auto simp: commit_outcome_def)
    then show ?thesis
      using s1 by (auto simp: grown_def small_def within_def logLength_def bEffortKick_def)
  qed
  have stepped: "grown (B + 1) rf rf2" if "stepBack rf i a c d = Some rf2" for a c d rf2
    using that s1 by (auto simp: stepBack_def setNextIndex_def grown_def small_def logLength_def split: if_splits)
  have same: "grown (B + 1) rf rf" using s1 by (simp add: grown_def)
  show ?thesis
    using ev newer same upd stepped ok
    by (auto simp: singleAppend_reply_def Let_def update_int_Some_iff node_ok_def
        split: if_splits)
qed

lemma node_step_grown:
  assumes ok: "node_ok rf" and s: "small B rf" and e: "event_small B ev" and st: "node_step ev rf = Some rf'"
  shows "grown (B + growth ev) rf rf'"
proof (cases ev)
  case (Tick now)
  then show ?thesis
    using st s by (auto simp: tick_def grown_def small_def within_def logLength_def)
next
  case (RecvVoteReply spt args reply)
  then show ?thesis
    using st s e by (auto simp: voteReply_def Let_def grown_def small_def within_def logLength_def)
next
  case (RecvRequestVote now args)
  have "log_ok rf" using ok by (simp add: node_ok_def)
  then show ?thesis
    using st s e RecvRequestVote
    by (auto simp: RequestVote_def Let_def tryVotingFor_ok grown_def small_def within_def logLength_def
        split: if_splits)
next
  case (RecvAppendEntries now args)
  then show ?thesis using st AppendEntries_grown [OF ok s, of now args] e by (auto simp: add.assoc)
next
  case (RecvInstallSnapshot now args)
  then show ?thesis using st InstallSnapshot_grown [OF ok s, of now args] e by auto
next
  case (RecvAppendReply i args reply)
  then show ?thesis using st singleAppend_reply_grown [OF ok s, of i args reply] e by auto
next
  case (RecvInstallReply i args reply)
  then show ?thesis
    using st s e by (auto simp: helpInstall_reply_def grown_def small_def within_def logLength_def split: if_splits)
next
  case (ClientStart c)
  then show ?thesis
    using st s by (auto simp: Start_def Let_def append_entry_def grown_def small_def within_def logLength_def)
next
  case Kicked
  then show ?thesis
    using st s by (auto simp: guardKick_def Let_def grown_def small_def within_def logLength_def split: if_splits)
next
  case (TakeSnapshot index snap)
  then show ?thesis
    using st s ok by (auto simp: Snapshot_def grown_def small_def within_def logLength_def get_Some_iff
        slice_from_Some_iff split: if_splits)
next
  case KillPeer
  then show ?thesis using st s by (auto simp: Kill_def grown_def small_def within_def logLength_def)
next
  case (Restart now)
  have "commitIndex rf' = 0 \<and> lastApplied rf' = 0"
    using st Restart by (auto simp: Make_def readPersist_def initRaft_def split: if_splits option.splits prod.splits)
  moreover have "persistent_state rf' = persistent_state rf"
    by (rule Make_step [OF ok, of now]) (use st Restart in auto)
  ultimately show ?thesis
    using s Restart by (auto simp: grown_def small_def within_def logLength_def persistent_state_def)
qed

text \<open>A run of small numbers does not overflow: the wrapping peer does what the unbounded one does.\<close>

lemma node_run64_id:
  "node_ok rf \<Longrightarrow> small B rf \<Longrightarrow> list_all (event_small B) es \<Longrightarrow>
   B + (\<Sum>e\<leftarrow>es. growth e) < 2 ^ 62 \<Longrightarrow>
   node_run64 es rf = node_run es rf \<and>
   (\<forall>rf'. node_run es rf = Some rf' \<longrightarrow> grown (B + (\<Sum>e\<leftarrow>es. growth e)) rf rf')"
proof (induction es arbitrary: rf B)
  case Nil
  then show ?case by (simp add: grown_def)
next
  case (Cons e es)
  have B: "B + growth e < 2 ^ 62" using Cons.prems(4) growth_sum_nonneg [of es] by simp
  have step: "node_step64 e rf = node_step e rf"
    using Cons.prems B by (intro node_step64_id) auto
  show ?case
  proof (cases "node_step e rf")
    case None
    then show ?thesis using step by simp
  next
    case (Some rf1)
    have g: "grown (B + growth e) rf rf1" using node_step_grown Cons.prems Some by fastforce
    have "list_all (event_small (B + growth e)) es"
      using Cons.prems(3) growth_pos [of e] by (auto simp: list_all_iff intro: event_small_mono [of B])
    then have "node_run64 es rf1 = node_run es rf1 \<and>
        (\<forall>rf'. node_run es rf1 = Some rf' \<longrightarrow> grown (B + growth e + (\<Sum>e\<leftarrow>es. growth e)) rf1 rf')"
      using Cons.prems g node_step_ok [OF Cons.prems(1) Some]
      by (intro Cons.IH) (auto simp: grown_def)
    then show ?thesis using Some step g by (auto simp: grown_def add.assoc)
  qed
qed

text \<open>
  C26. A peer with 64-bit arithmetic, over every sequence of events (timeouts, any messages, client
  commands, snapshots, crashes with restart) whose numbers are small: if the term, the indices and
  the length of the log of the peer, and the terms and indices of all the messages, are at most \<open>B\<close>
  in absolute value, and \<open>B\<close> plus the number of events and of entries received is below \<open>2 ^ 62\<close>,
  then no operation overflows (the run is the run of the unbounded peer), the invariant \<open>node_ok\<close>
  holds at the end (the log is well-formed, what must survive a crash is on disk, a leader's arrays
  have one slot per peer), the term and the snapshot index have not decreased, and within a term a
  vote, once cast, has not changed. A message with the largest term would make the next election
  wrap; it is what the bound excludes.
\<close>

theorem peer_invariant:
  assumes "node_ok rf" "small B rf" "list_all (event_small B) es" "B + (\<Sum>e\<leftarrow>es. growth e) < 2 ^ 62"
    and run: "node_run64 es rf = Some rf'"
  shows "node_run es rf = Some rf' \<and> node_ok rf' \<and> currentTerm rf \<le> currentTerm rf' \<and>
    snapIndex rf \<le> snapIndex rf' \<and>
    (currentTerm rf' = currentTerm rf \<and> votedFor rf \<noteq> - 1 \<longrightarrow> votedFor rf' = votedFor rf)"
proof -
  note r = node_run64_id [OF assms(1-4)]
  then have u: "node_run es rf = Some rf'" using run by simp
  then show ?thesis
    using peer.run_inv [OF assms(1)] node_run_progress [OF assms(1) u] r
    by (simp add: node_run_peer vote_progress_def grown_def)
qed

theorem peer_invariant_witness:
  "node_ok leader0 \<and> currentTerm peer0 \<le> currentTerm leader0 \<and> snapIndex peer0 \<le> snapIndex leader0"
proof -
  have e: "list_all (event_small 1) elect_and_start" "1 + (\<Sum>e\<leftarrow>elect_and_start. growth e) < (2::int) ^ 62"
    "small 1 peer0"
    by (simp_all add: elect_and_start_def within_def small_def peer0_def initRaft_def logLength_def)
  have "node_run64 elect_and_start peer0 = Some leader0"
    using node_run64_id [OF peer0_ok e(3,1,2)] leader0_run by simp
  from peer_invariant [OF peer0_ok e(3,1,2) this] show ?thesis by blast
qed

end
