(* ===== verification/Quorum.thy ===== *)
theory Quorum
  imports Prelude
begin

text \<open>
  Majorities. The interface is a family of quorums any two of which share a member; the client
  lemma is that votes, of which every member has at most one, elect at most one candidate. The
  provider is the test \<^verbatim>\<open>count > len(peers) / 2\<close> that the election and the commit rule use.
\<close>

locale quorum_system =
  fixes is_quorum :: "'p set \<Rightarrow> bool"
  assumes quorum_overlap: "is_quorum A \<Longrightarrow> is_quorum B \<Longrightarrow> A \<inter> B \<noteq> {}"
begin

lemma at_most_one_winner:
  assumes one_vote: "\<And>v c d. voted v c \<Longrightarrow> voted v d \<Longrightarrow> c = d"
    and "is_quorum A" "\<And>v. v \<in> A \<Longrightarrow> voted v c"
    and "is_quorum B" "\<And>v. v \<in> B \<Longrightarrow> voted v d"
  shows "c = d"
proof -
  from quorum_overlap [OF assms(2,4)] obtain v where "v \<in> A" "v \<in> B" by blast
  then show ?thesis using assms by blast
qed

end

definition majority :: "nat \<Rightarrow> nat set \<Rightarrow> bool" where
  "majority n A \<longleftrightarrow> A \<subseteq> {..<n} \<and> card A > n div 2"

lemma majority_overlap:
  assumes "majority n A" "majority n B"
  shows "A \<inter> B \<noteq> {}"
proof
  assume "A \<inter> B = {}"
  moreover have "finite A" "finite B"
    using assms by (auto simp: majority_def intro: finite_subset)
  ultimately have "card (A \<union> B) = card A + card B" by (simp add: card_Un_disjoint)
  moreover have "card (A \<union> B) \<le> n"
    using assms card_mono [of "{..<n}" "A \<union> B"] by (auto simp: majority_def)
  ultimately show False using assms by (auto simp: majority_def)
qed

lemma majority_mono: "majority n A \<Longrightarrow> A \<subseteq> B \<Longrightarrow> B \<subseteq> {..<n} \<Longrightarrow> majority n B"
  unfolding majority_def by (meson card_mono finite_lessThan finite_subset less_le_trans)

interpretation peers: quorum_system "majority n" for n
  by unfold_locales (rule majority_overlap)

end
