(* ===== verification/Cluster.thy ===== *)
theory Cluster
  imports RaftNode Quorum
begin

text \<open>
  A cluster of peers that talk over \<^verbatim>\<open>labrpc\<close>. The state holds the peers and every RPC that was
  ever started; a step is one critical section of one peer, or the network giving up on a
  call. An RPC is executed by its receiver at most once (\<^verbatim>\<open>Network.processReq\<close> dispatches a
  request once), at any later time, also after its caller has given up; its reply reaches the
  caller at most once, at any later time, or never. So messages are delayed, reordered and lost
  arbitrarily. A peer can crash and restart from its persister at any time, which ends the
  goroutines of its old instance.

  The goroutines of \<^verbatim>\<open>collectOpinion\<close> are the entries of \<open>vcalls\<close>: each is started by a
  ticker step, builds its arguments in a later step of its own, and processes its reply in
  another. \<open>rdTerm\<close> is the term in which the round was started; the code does not keep it, and
  no step reads it.
\<close>

section \<open>State\<close>

record round =
  rdOwner :: nat
  rdTerm :: int
  rdSupporter :: nat

record vcall =
  vcRound :: nat
  vcPeer :: nat
  vcArgs :: "RequestVoteArgs option"
  vcReply :: "RequestVoteReply option"
  vcOpen :: bool

record 'c acall =
  acOwner :: nat
  acPeer :: nat
  acArgs :: "'c AppendEntriesArgs"
  acReply :: "AppendEntriesReply option"
  acOpen :: bool

record 'b icall =
  icOwner :: nat
  icPeer :: nat
  icArgs :: "'b InstallSnapshotArgs"
  icReply :: "InstallSnapshotReply option"
  icOpen :: bool

record ('c, 'b) cluster =
  nodes :: "('c, 'b) Raft list"
  rounds :: "round list"
  vcalls :: "vcall list"
  acalls :: "'c acall list"
  icalls :: "'b icall list"
  outbox :: "('c, 'b) ApplyMsg list list"

definition init_cluster :: "nat \<Rightarrow> ('c, 'b) cluster" where
  "init_cluster n = \<lparr>nodes = map (\<lambda>i. initRaft n i MakePersister 0) [0..<n], rounds = [],
     vcalls = [], acalls = [], icalls = [], outbox = replicate n []\<rparr>"

section \<open>Events\<close>

datatype ('c, 'b) event =
    CTick nat int
  | CVoteSend nat
  | CVoteServe nat int
  | CVoteRecv nat
  | CVoteDrop nat
  | CStart nat 'c
  | CAppendSend nat nat
  | CAppendServe nat int
  | CAppendRecv nat
  | CAppendDrop nat
  | CInstallServe nat int
  | CInstallRecv nat
  | CInstallDrop nat
  | CApply nat
  | CSnapshot nat int "'b list"
  | CRestart nat int

abbreviation set_node :: "nat \<Rightarrow> ('c, 'b) Raft \<Rightarrow> ('c, 'b) cluster \<Rightarrow> ('c, 'b) cluster" where
  "set_node i rf s \<equiv> s\<lparr>nodes := (nodes s)[i := rf]\<rparr>"

definition emit :: "nat \<Rightarrow> ('c, 'b) ApplyMsg list \<Rightarrow> ('c, 'b) cluster \<Rightarrow> ('c, 'b) cluster" where
  "emit i ms s = s\<lparr>outbox := (outbox s)[i := outbox s ! i @ ms]\<rparr>"

text \<open>\<^verbatim>\<open>collectOpinion\<close>: a fresh counter and one goroutine per other peer.\<close>

definition start_round :: "nat \<Rightarrow> ('c, 'b) cluster \<Rightarrow> ('c, 'b) cluster" where
  "start_round i s =
     (let rf = nodes s ! i; r = length (rounds s) in
      s\<lparr>rounds := rounds s @ [\<lparr>rdOwner = i, rdTerm = currentTerm rf, rdSupporter = 1\<rparr>],
        vcalls := vcalls s @
          map (\<lambda>j. \<lparr>vcRound = r, vcPeer = j, vcArgs = None, vcReply = None, vcOpen = True\<rparr>)
              (filter (\<lambda>j. j \<noteq> me rf) [0..<npeers rf])\<rparr>)"

abbreviation call_owner :: "('c, 'b) cluster \<Rightarrow> vcall \<Rightarrow> nat" where
  "call_owner s c \<equiv> rdOwner (rounds s ! vcRound c)"

text \<open>
  When an event can happen. A service takes a snapshot only of what it was given
  (\<open>CSnapshot\<close>); a leader's replicators can start a call at any time (\<open>CAppendSend\<close>).
\<close>

fun enabled :: "('c, 'b) event \<Rightarrow> ('c, 'b) cluster \<Rightarrow> bool" where
  "enabled (CTick i now) s = (i < length (nodes s))"
| "enabled (CVoteSend k) s =
     (k < length (vcalls s) \<and> vcOpen (vcalls s ! k) \<and> vcArgs (vcalls s ! k) = None)"
| "enabled (CVoteServe k now) s =
     (k < length (vcalls s) \<and> vcArgs (vcalls s ! k) \<noteq> None \<and> vcReply (vcalls s ! k) = None)"
| "enabled (CVoteRecv k) s =
     (k < length (vcalls s) \<and> vcOpen (vcalls s ! k) \<and> vcReply (vcalls s ! k) \<noteq> None)"
| "enabled (CVoteDrop k) s =
     (k < length (vcalls s) \<and> vcOpen (vcalls s ! k) \<and> vcArgs (vcalls s ! k) \<noteq> None)"
| "enabled (CStart i c) s = (i < length (nodes s))"
| "enabled (CAppendSend i j) s =
     (i < length (nodes s) \<and> j < length (nodes s) \<and> j \<noteq> i)"
| "enabled (CAppendServe k now) s = (k < length (acalls s) \<and> acReply (acalls s ! k) = None)"
| "enabled (CAppendRecv k) s =
     (k < length (acalls s) \<and> acOpen (acalls s ! k) \<and> acReply (acalls s ! k) \<noteq> None)"
| "enabled (CAppendDrop k) s = (k < length (acalls s) \<and> acOpen (acalls s ! k))"
| "enabled (CInstallServe k now) s = (k < length (icalls s) \<and> icReply (icalls s ! k) = None)"
| "enabled (CInstallRecv k) s =
     (k < length (icalls s) \<and> icOpen (icalls s ! k) \<and> icReply (icalls s ! k) \<noteq> None)"
| "enabled (CInstallDrop k) s = (k < length (icalls s) \<and> icOpen (icalls s ! k))"
| "enabled (CApply i) s = (i < length (nodes s) \<and> wakeCh (nodes s ! i))"
| "enabled (CSnapshot i index d) s = (i < length (nodes s) \<and> index \<le> lastApplied (nodes s ! i))"
| "enabled (CRestart i now) s = (i < length (nodes s))"

text \<open>What an enabled event does; \<open>None\<close> when the handler it runs panics.\<close>

fun exec :: "('c, 'b) event \<Rightarrow> ('c, 'b) cluster \<Rightarrow> ('c, 'b) cluster option" where
  "exec (CTick i now) s =
     (let (rf, started) = tick now (nodes s ! i); s = set_node i rf s in
      Some (if started then start_round i s else s))"
| "exec (CVoteSend k) s = do {
     let c = vcalls s ! k;
     args \<leftarrow> voteArgs (nodes s ! call_owner s c);
     Some (s\<lparr>vcalls := (vcalls s)[k := c\<lparr>vcArgs := Some args\<rparr>]\<rparr>)
   }"
| "exec (CVoteServe k now) s = do {
     let c = vcalls s ! k;
     args \<leftarrow> vcArgs c;
     (rf, reply) \<leftarrow> RequestVote now (nodes s ! vcPeer c) args;
     Some (set_node (vcPeer c) rf (s\<lparr>vcalls := (vcalls s)[k := c\<lparr>vcReply := Some reply\<rparr>]\<rparr>))
   }"
| "exec (CVoteRecv k) s = do {
     let c = vcalls s ! k;
     args \<leftarrow> vcArgs c;
     reply \<leftarrow> vcReply c;
     let r = rounds s ! vcRound c;
     let (rf, n) = voteReply (nodes s ! rdOwner r) (rdSupporter r) args reply;
     Some (set_node (rdOwner r) rf
       (s\<lparr>rounds := (rounds s)[vcRound c := r\<lparr>rdSupporter := n\<rparr>],
          vcalls := (vcalls s)[k := c\<lparr>vcOpen := False\<rparr>]\<rparr>))
   }"
| "exec (CVoteDrop k) s = Some (s\<lparr>vcalls := (vcalls s)[k := (vcalls s ! k)\<lparr>vcOpen := False\<rparr>]\<rparr>)"
| "exec (CStart i c) s = Some (set_node i (fst (Start (nodes s ! i) c)) s)"
| "exec (CAppendSend i j) s = do {
     plan \<leftarrow> singleAppend_args (nodes s ! i) j;
     Some (case plan of
        NotLeader \<Rightarrow> s
      | SendEntries args \<Rightarrow> s\<lparr>acalls := acalls s @
          [\<lparr>acOwner = i, acPeer = j, acArgs = args, acReply = None, acOpen = True\<rparr>]\<rparr>
      | SendSnapshot args \<Rightarrow> s\<lparr>icalls := icalls s @
          [\<lparr>icOwner = i, icPeer = j, icArgs = args, icReply = None, icOpen = True\<rparr>]\<rparr>)
   }"
| "exec (CAppendServe k now) s = do {
     let c = acalls s ! k;
     (rf, reply) \<leftarrow> AppendEntries now (nodes s ! acPeer c) (acArgs c);
     Some (set_node (acPeer c) rf (s\<lparr>acalls := (acalls s)[k := c\<lparr>acReply := Some reply\<rparr>]\<rparr>))
   }"
| "exec (CAppendRecv k) s = do {
     let c = acalls s ! k;
     reply \<leftarrow> acReply c;
     (rf, retry) \<leftarrow> singleAppend_reply (nodes s ! acOwner c) (acPeer c) (acArgs c) reply;
     Some (set_node (acOwner c) rf (s\<lparr>acalls := (acalls s)[k := c\<lparr>acOpen := False\<rparr>]\<rparr>))
   }"
| "exec (CAppendDrop k) s = Some (s\<lparr>acalls := (acalls s)[k := (acalls s ! k)\<lparr>acOpen := False\<rparr>]\<rparr>)"
| "exec (CInstallServe k now) s = do {
     let c = icalls s ! k;
     (rf, reply, ms) \<leftarrow> InstallSnapshot now (nodes s ! icPeer c) (icArgs c);
     Some (emit (icPeer c) ms
       (set_node (icPeer c) rf (s\<lparr>icalls := (icalls s)[k := c\<lparr>icReply := Some reply\<rparr>]\<rparr>)))
   }"
| "exec (CInstallRecv k) s = do {
     let c = icalls s ! k;
     reply \<leftarrow> icReply c;
     rf \<leftarrow> helpInstall_reply (nodes s ! icOwner c) (icPeer c) (icArgs c) reply;
     Some (set_node (icOwner c) rf (s\<lparr>icalls := (icalls s)[k := c\<lparr>icOpen := False\<rparr>]\<rparr>))
   }"
| "exec (CInstallDrop k) s = Some (s\<lparr>icalls := (icalls s)[k := (icalls s ! k)\<lparr>icOpen := False\<rparr>]\<rparr>)"
| "exec (CApply i) s = do {
     (rf, ms) \<leftarrow> guardKick (nodes s ! i);
     Some (emit i ms (set_node i rf s))
   }"
| "exec (CSnapshot i index d) s = do {
     rf \<leftarrow> Snapshot (nodes s ! i) index d;
     Some (set_node i rf s)
   }"
| "exec (CRestart i now) s = do {
     rf \<leftarrow> Make (npeers (nodes s ! i)) (me (nodes s ! i)) (Copy (persister (nodes s ! i))) now;
     Some (set_node i rf
       (s\<lparr>vcalls := map (\<lambda>c. if call_owner s c = i then c\<lparr>vcOpen := False\<rparr> else c) (vcalls s),
          acalls := map (\<lambda>c. if acOwner c = i then c\<lparr>acOpen := False\<rparr> else c) (acalls s),
          icalls := map (\<lambda>c. if icOwner c = i then c\<lparr>icOpen := False\<rparr> else c) (icalls s)\<rparr>))
   }"

definition cstep :: "('c, 'b) event \<Rightarrow> ('c, 'b) cluster \<Rightarrow> ('c, 'b) cluster option" where
  "cstep e s = (if enabled e s then exec e s else None)"

fun crun :: "('c, 'b) event list \<Rightarrow> ('c, 'b) cluster \<Rightarrow> ('c, 'b) cluster option" where
  "crun [] s = Some s"
| "crun (e # es) s = do { s \<leftarrow> cstep e s; crun es s }"

inductive reachable :: "nat \<Rightarrow> ('c, 'b) cluster \<Rightarrow> bool" for n where
  reachable_init: "reachable n (init_cluster n)"
| reachable_step: "reachable n s \<Longrightarrow> cstep e s = Some s' \<Longrightarrow> reachable n s'"

lemma reachable_crun: "reachable n s \<Longrightarrow> crun es s = Some s' \<Longrightarrow> reachable n s'"
  by (induction es arbitrary: s) (auto intro: reachable_step)

end
