(* ===== verification/ElectionSafety.thy ===== *)
theory ElectionSafety
  imports Cluster
begin

text \<open>
  At most one leader per term. A vote is on record once a server has granted it (or a candidate
  has started a round); the record never shrinks, every peer has at most one vote per term, and
  a leader holds the votes of a majority.

  The last step needs that the votes a round counts were all cast in the term of that round.
  The code does not ensure this: the goroutines of \<^verbatim>\<open>collectOpinion\<close> read
  \<^verbatim>\<open>rf.currentTerm\<close> when they get the lock, so one that is delayed past the next election
  asks for, and then counts, a vote of the later term, on top of the votes of the earlier one.
  The theorem therefore assumes either that no goroutine was delayed so (\<open>prompt\<close>), or that the
  cluster has at most three servers, where the candidate and one vote are already a majority.
  With five servers and a delayed goroutine, two leaders of one term are reachable.
\<close>

section \<open>Well-formed clusters\<close>

definition wf_call :: "nat \<Rightarrow> ('c, 'b) cluster \<Rightarrow> vcall \<Rightarrow> bool" where
  "wf_call n s c \<longleftrightarrow> vcRound c < length (rounds s) \<and> vcPeer c < n \<and> vcPeer c \<noteq> call_owner s c \<and>
     (\<forall>a. vcArgs c = Some a \<longrightarrow> rvCandidateId a = int (call_owner s c)) \<and>
     (vcReply c \<noteq> None \<longrightarrow> vcArgs c \<noteq> None)"

definition wf_cluster :: "nat \<Rightarrow> ('c, 'b) cluster \<Rightarrow> bool" where
  "wf_cluster n s \<longleftrightarrow> length (nodes s) = n \<and>
     (\<forall>i < n. me (nodes s ! i) = i \<and> npeers (nodes s ! i) = n \<and> node_ok (nodes s ! i)) \<and>
     (\<forall>r \<in> set (rounds s). rdOwner r < n) \<and> (\<forall>c \<in> set (vcalls s). wf_call n s c) \<and>
     distinct (map (\<lambda>c. (vcRound c, vcPeer c)) (vcalls s)) \<and>
     (\<forall>c \<in> set (acalls s). acOwner c < n \<and> acPeer c < n) \<and>
     (\<forall>c \<in> set (icalls s). icOwner c < n \<and> icPeer c < n)"

lemma wf_clusterD:
  assumes "wf_cluster n s"
  shows "length (nodes s) = n"
    and "i < n \<Longrightarrow> me (nodes s ! i) = i" and "i < n \<Longrightarrow> npeers (nodes s ! i) = n"
    and "i < n \<Longrightarrow> node_ok (nodes s ! i)"
    and "r < length (rounds s) \<Longrightarrow> rdOwner (rounds s ! r) < n"
    and "k < length (vcalls s) \<Longrightarrow> wf_call n s (vcalls s ! k)"
    and "k < length (acalls s) \<Longrightarrow> acOwner (acalls s ! k) < n \<and> acPeer (acalls s ! k) < n"
    and "k < length (icalls s) \<Longrightarrow> icOwner (icalls s ! k) < n \<and> icPeer (icalls s ! k) < n"
  using assms by (auto simp: wf_cluster_def)

section \<open>Steps as election steps\<close>

text \<open>How a call may change in a step: it is closed, its arguments or its reply are filled in.\<close>

definition call_step :: "nat \<Rightarrow> vcall \<Rightarrow> vcall \<Rightarrow> bool" where
  "call_step own c c' \<longleftrightarrow> vcRound c' = vcRound c \<and> vcPeer c' = vcPeer c \<and> (vcOpen c' \<longrightarrow> vcOpen c) \<and>
     (\<forall>a. vcArgs c = Some a \<longrightarrow> vcArgs c' = Some a) \<and>
     (\<forall>a. vcArgs c = None \<longrightarrow> vcArgs c' = Some a \<longrightarrow> rvCandidateId a = int own) \<and>
     (vcReply c' \<noteq> None \<longrightarrow> vcArgs c' \<noteq> None)"

definition calls_step :: "('c, 'b) cluster \<Rightarrow> vcall list \<Rightarrow> bool" where
  "calls_step s cs' \<longleftrightarrow> length cs' = length (vcalls s) \<and>
     (\<forall>k < length cs'. call_step (call_owner s (vcalls s ! k)) (vcalls s ! k) (cs' ! k))"

text \<open>The term in which the callee of a call granted its vote.\<close>

definition vote_of :: "vcall \<Rightarrow> int option" where
  "vote_of c = (case (vcArgs c, vcReply c) of
     (Some a, Some r) \<Rightarrow> if rvrVoteGranted r then Some (rvTerm a) else None | _ \<Rightarrow> None)"

lemma vote_of_simps [simp]:
  "vcReply c = None \<Longrightarrow> vote_of c = None"
  "vote_of (c\<lparr>vcOpen := b\<rparr>) = vote_of c"
  "vcReply c = None \<Longrightarrow> vote_of (c\<lparr>vcArgs := a\<rparr>) = None"
  "\<not> rvrVoteGranted r \<Longrightarrow> vote_of (c\<lparr>vcReply := Some r\<rparr>) = None"
  "rvrVoteGranted r \<Longrightarrow> vcArgs c = Some args \<Longrightarrow> vote_of (c\<lparr>vcReply := Some r\<rparr>) = Some (rvTerm args)"
  by (auto simp: vote_of_def split: option.splits)

definition valid_calls :: "nat \<Rightarrow> ('c, 'b) cluster \<Rightarrow> bool" where
  "valid_calls n s \<longleftrightarrow> (\<forall>c \<in> set (acalls s). acOwner c < n \<and> acPeer c < n) \<and>
     (\<forall>c \<in> set (icalls s). icOwner c < n \<and> icPeer c < n)"

text \<open>A step that casts no vote and promotes no one.\<close>

definition quiet_step :: "nat \<Rightarrow> ('c, 'b) cluster \<Rightarrow> ('c, 'b) cluster \<Rightarrow> bool" where
  "quiet_step n s s' \<longleftrightarrow>
     (\<exists>i rf. i < n \<and> nodes s' = (nodes s)[i := rf] \<and> quiet (nodes s ! i) rf \<and> node_ok rf) \<and>
     rounds s' = rounds s \<and> calls_step s (vcalls s') \<and>
     map vote_of (vcalls s') = map vote_of (vcalls s) \<and> valid_calls n s'"

lemma quiet_stepI:
  assumes "i < n" "quiet (nodes s ! i) rf" "node_ok rf" "nodes s' = (nodes s)[i := rf]"
    "rounds s' = rounds s" "calls_step s (vcalls s')"
    "map vote_of (vcalls s') = map vote_of (vcalls s)" "valid_calls n s'"
  shows "quiet_step n s s'"
  using assms by (auto simp: quiet_step_def)

lemma quiet_step_same:
  assumes "wf_cluster n s" "0 < n" "nodes s' = nodes s" "rounds s' = rounds s" "calls_step s (vcalls s')"
    "map vote_of (vcalls s') = map vote_of (vcalls s)" "valid_calls n s'"
  shows "quiet_step n s s'"
  by (rule quiet_stepI [where i = 0 and rf = "nodes s ! 0"])
    (use assms wf_clusterD [OF assms(1)] in auto)

lemma call_step_refl: "wf_call n s c \<Longrightarrow> call_step own c c"
  by (auto simp: call_step_def wf_call_def)

lemma calls_step_same [simp]:
  assumes "wf_cluster n s" shows "calls_step s (vcalls s)"
  using wf_clusterD(6) [OF assms] by (auto simp: calls_step_def intro: call_step_refl)

lemma calls_step_update:
  assumes "wf_cluster n s" "k < length (vcalls s)"
    "call_step (call_owner s (vcalls s ! k)) (vcalls s ! k) c'"
  shows "calls_step s ((vcalls s)[k := c'])"
  using assms wf_clusterD(6) [OF assms(1)]
  by (auto simp: calls_step_def nth_list_update intro: call_step_refl)

lemma map_vote_of_update:
  "k < length cs \<Longrightarrow> vote_of c' = vote_of (cs ! k) \<Longrightarrow> map vote_of (cs[k := c']) = map vote_of cs"
  by (metis list_update_id map_update nth_map)

lemma call_step_close: "wf_call n s c \<Longrightarrow> call_step own c (c\<lparr>vcOpen := False\<rparr>)"
  by (auto simp: call_step_def wf_call_def)

lemma set_updateD: "c \<in> set (xs[k := y]) \<Longrightarrow> c = y \<or> c \<in> set xs"
  using set_update_subset_insert by fastforce

lemma valid_calls_of [simp]: "wf_cluster n s \<Longrightarrow> valid_calls n s"
  by (simp add: valid_calls_def wf_cluster_def)

lemma valid_acalls_update:
  "wf_cluster n s \<Longrightarrow> k < length (acalls s) \<Longrightarrow> icalls s' = icalls s \<Longrightarrow> acalls s' = (acalls s)[k := y] \<Longrightarrow>
   acOwner y = acOwner (acalls s ! k) \<Longrightarrow> acPeer y = acPeer (acalls s ! k) \<Longrightarrow> valid_calls n s'"
  using wf_clusterD(7,8) [of n s] valid_calls_of [of n s] unfolding valid_calls_def by (auto dest!: set_updateD)

lemma valid_icalls_update:
  "wf_cluster n s \<Longrightarrow> k < length (icalls s) \<Longrightarrow> acalls s' = acalls s \<Longrightarrow> icalls s' = (icalls s)[k := y] \<Longrightarrow>
   icOwner y = icOwner (icalls s ! k) \<Longrightarrow> icPeer y = icPeer (icalls s ! k) \<Longrightarrow> valid_calls n s'"
  using wf_clusterD(7,8) [of n s] valid_calls_of [of n s] unfolding valid_calls_def by (auto dest!: set_updateD)

lemma valid_calls_same:
  "wf_cluster n s \<Longrightarrow> acalls s' = acalls s \<Longrightarrow> icalls s' = icalls s \<Longrightarrow> valid_calls n s'"
  using valid_calls_of [of n s] by (simp add: valid_calls_def)

text \<open>Steps of replication, of the applier and of the service, and restarts, are quiet.\<close>

lemma append_quiet:
  assumes wf: "wf_cluster n s" and en: "enabled e s" and ex: "exec e s = Some s'"
    and "\<exists>i j k now. e \<in> {CAppendSend i j, CAppendServe k now, CAppendRecv k, CAppendDrop k}"
  shows "quiet_step n s s'"
proof -
  note D = wf_clusterD [OF wf]
  show ?thesis
  proof (cases e)
    case (CAppendSend i j)
    then have ij: "i < n" "j < n" using en D by auto
    obtain plan where "s' = (case plan of
        NotLeader \<Rightarrow> s
      | SendEntries args \<Rightarrow> s\<lparr>acalls := acalls s @
          [\<lparr>acOwner = i, acPeer = j, acArgs = args, acReply = None, acOpen = True\<rparr>]\<rparr>
      | SendSnapshot args \<Rightarrow> s\<lparr>icalls := icalls s @
          [\<lparr>icOwner = i, icPeer = j, icArgs = args, icReply = None, icOpen = True\<rparr>]\<rparr>)"
      using ex CAppendSend by auto
    then show ?thesis
      by (intro quiet_step_same [OF wf])
        (use wf ij valid_calls_of [OF wf] in \<open>auto simp: valid_calls_def split: AppendPlan.splits\<close>)
  next
    case (CAppendServe k now)
    then have k: "k < length (acalls s)" using en by simp
    then have p: "acPeer (acalls s ! k) < n" using D by blast
    obtain rf r where a: "AppendEntries now (nodes s ! acPeer (acalls s ! k)) (acArgs (acalls s ! k)) =
        Some (rf, r)" "node_ok rf" "quiet (nodes s ! acPeer (acalls s ! k)) rf"
      by (rule AppendEntries_step [OF D(4) [OF p]])
    have s': "s' = set_node (acPeer (acalls s ! k)) rf
        (s\<lparr>acalls := (acalls s)[k := (acalls s ! k)\<lparr>acReply := Some r\<rparr>]\<rparr>)"
      using ex CAppendServe a by (simp add: Let_def)
    show ?thesis
      by (rule quiet_stepI [OF p a(3,2)]) (use s' wf valid_acalls_update [OF wf k] in auto)
  next
    case (CAppendRecv k)
    then have k: "k < length (acalls s)" using en by simp
    then have p: "acOwner (acalls s ! k) < n" "acPeer (acalls s ! k) < n" using D by blast+
    obtain reply where r: "acReply (acalls s ! k) = Some reply" using en CAppendRecv by auto
    have "acPeer (acalls s ! k) < npeers (nodes s ! acOwner (acalls s ! k))" using p D by simp
    then obtain rf b where a: "singleAppend_reply (nodes s ! acOwner (acalls s ! k))
        (acPeer (acalls s ! k)) (acArgs (acalls s ! k)) reply = Some (rf, b)" "node_ok rf"
        "quiet (nodes s ! acOwner (acalls s ! k)) rf"
      by (rule singleAppend_reply_step [OF D(4) [OF p(1)]])
    have s': "s' = set_node (acOwner (acalls s ! k)) rf
        (s\<lparr>acalls := (acalls s)[k := (acalls s ! k)\<lparr>acOpen := False\<rparr>]\<rparr>)"
      using ex CAppendRecv a r by (simp add: Let_def)
    show ?thesis
      by (rule quiet_stepI [OF p(1) a(3,2)]) (use s' wf valid_acalls_update [OF wf k] in auto)
  next
    case (CAppendDrop k)
    then have k: "k < length (acalls s)" using en by simp
    then have n: "0 < n" using D by fastforce
    show ?thesis
      by (rule quiet_step_same [OF wf n])
        (use ex CAppendDrop wf valid_acalls_update [OF wf k] in auto)
  qed (use assms(4) in auto)
qed

lemma install_quiet:
  assumes wf: "wf_cluster n s" and en: "enabled e s" and ex: "exec e s = Some s'"
    and "\<exists>k now. e \<in> {CInstallServe k now, CInstallRecv k, CInstallDrop k}"
  shows "quiet_step n s s'"
proof -
  note D = wf_clusterD [OF wf]
  show ?thesis
  proof (cases e)
    case (CInstallServe k now)
    then have k: "k < length (icalls s)" using en by simp
    then have p: "icPeer (icalls s ! k) < n" using D by blast
    obtain rf r ms where a: "InstallSnapshot now (nodes s ! icPeer (icalls s ! k)) (icArgs (icalls s ! k)) =
        Some (rf, r, ms)" "node_ok rf" "quiet (nodes s ! icPeer (icalls s ! k)) rf"
      by (rule InstallSnapshot_step [OF D(4) [OF p]])
    have s': "s' = emit (icPeer (icalls s ! k)) ms (set_node (icPeer (icalls s ! k)) rf
        (s\<lparr>icalls := (icalls s)[k := (icalls s ! k)\<lparr>icReply := Some r\<rparr>]\<rparr>))"
      using ex CInstallServe a by (simp add: Let_def)
    show ?thesis
      by (rule quiet_stepI [OF p a(3,2)])
        (use s' wf valid_icalls_update [OF wf k] in \<open>auto simp: emit_def\<close>)
  next
    case (CInstallRecv k)
    then have k: "k < length (icalls s)" using en by simp
    then have p: "icOwner (icalls s ! k) < n" "icPeer (icalls s ! k) < n" using D by blast+
    obtain reply where r: "icReply (icalls s ! k) = Some reply" using en CInstallRecv by auto
    obtain rf where a: "helpInstall_reply (nodes s ! icOwner (icalls s ! k))
        (icPeer (icalls s ! k)) (icArgs (icalls s ! k)) reply = Some rf"
      and s': "s' = set_node (icOwner (icalls s ! k)) rf
        (s\<lparr>icalls := (icalls s)[k := (icalls s ! k)\<lparr>icOpen := False\<rparr>]\<rparr>)"
      using ex CInstallRecv r by (auto simp: Let_def)
    have q: "node_ok rf" "quiet (nodes s ! icOwner (icalls s ! k)) rf"
      using helpInstall_reply_step [OF D(4) [OF p(1)] a] by auto
    show ?thesis
      by (rule quiet_stepI [OF p(1) q(2,1)]) (use s' wf valid_icalls_update [OF wf k] in auto)
  next
    case (CInstallDrop k)
    then have k: "k < length (icalls s)" using en by simp
    then have n: "0 < n" using D by fastforce
    show ?thesis
      by (rule quiet_step_same [OF wf n])
        (use ex CInstallDrop wf valid_icalls_update [OF wf k] in auto)
  qed (use assms(4) in auto)
qed

lemma service_quiet:
  assumes wf: "wf_cluster n s" and en: "enabled e s" and ex: "exec e s = Some s'"
    and "\<exists>i c d index now. e \<in> {CStart i c, CApply i, CSnapshot i index d, CRestart i now}"
  shows "quiet_step n s s'"
proof -
  note D = wf_clusterD [OF wf]
  note same = valid_calls_same [OF wf]
  show ?thesis
  proof (cases e)
    case (CStart i c)
    then have i: "i < n" using en D by simp
    show ?thesis
      by (rule quiet_stepI [OF i]) (use ex CStart wf same Start_step [OF D(4) [OF i], of c] in auto)
  next
    case (CApply i)
    then have i: "i < n" using en D by simp
    obtain rf ms where a: "guardKick (nodes s ! i) = Some (rf, ms)" and s': "s' = emit i ms (set_node i rf s)"
      using ex CApply by auto
    show ?thesis
      by (rule quiet_stepI [OF i]) (use guardKick_step [OF D(4) [OF i] a] s' wf same in \<open>auto simp: emit_def\<close>)
  next
    case (CSnapshot i index d)
    then have i: "i < n" using en D by simp
    obtain rf where a: "Snapshot (nodes s ! i) index d = Some rf" and s': "s' = set_node i rf s"
      using ex CSnapshot by auto
    show ?thesis
      by (rule quiet_stepI [OF i]) (use Snapshot_step [OF D(4) [OF i] a] s' wf same in auto)
  next
    case (CRestart i now)
    then have i: "i < n" using en D by simp
    obtain rf where a: "Make (npeers (nodes s ! i)) (me (nodes s ! i)) (persister (nodes s ! i)) now = Some rf"
      "node_ok rf" "quiet (nodes s ! i) rf"
      by (rule Make_step [OF D(4) [OF i]])
    have s': "nodes s' = (nodes s)[i := rf]" "rounds s' = rounds s"
      "vcalls s' = map (\<lambda>c. if call_owner s c = i then c\<lparr>vcOpen := False\<rparr> else c) (vcalls s)"
      "acalls s' = map (\<lambda>c. if acOwner c = i then c\<lparr>acOpen := False\<rparr> else c) (acalls s)"
      "icalls s' = map (\<lambda>c. if icOwner c = i then c\<lparr>icOpen := False\<rparr> else c) (icalls s)"
      using ex CRestart a by auto
    have "calls_step s (vcalls s')"
      using D(6) by (auto simp: s' calls_step_def intro: call_step_refl call_step_close)
    moreover have "valid_calls n s'" using valid_calls_of [OF wf] by (auto simp: valid_calls_def s')
    ultimately show ?thesis
      by (intro quiet_stepI [OF i a(3,2)]) (auto simp: s')
  qed (use assms(4) in auto)
qed

text \<open>Every step is quiet, starts a round, casts a vote, or counts one.\<close>

lemma cstep_cases:
  assumes wf: "wf_cluster n s" and ev: "cstep e s = Some s'"
  obtains (quiet) "quiet_step n s s'"
  | (started) i where "i < n" "s' = start_round i (set_node i (becomeCandidate (nodes s ! i)) s)"
  | (voted) k args rf reply where "k < length (vcalls s)" "vcArgs (vcalls s ! k) = Some args"
      "vcReply (vcalls s ! k) = None" "rvrVoteGranted reply" "node_ok rf"
      "me rf = me (nodes s ! vcPeer (vcalls s ! k))" "npeers rf = npeers (nodes s ! vcPeer (vcalls s ! k))"
      "currentTerm rf = rvTerm args" "votedFor rf = rvCandidateId args"
      "currentTerm (nodes s ! vcPeer (vcalls s ! k)) \<le> rvTerm args"
      "currentTerm (nodes s ! vcPeer (vcalls s ! k)) = rvTerm args \<Longrightarrow>
         votedFor (nodes s ! vcPeer (vcalls s ! k)) \<in> {- 1, rvCandidateId args} \<and>
         state rf = state (nodes s ! vcPeer (vcalls s ! k))"
      "currentTerm (nodes s ! vcPeer (vcalls s ! k)) < rvTerm args \<Longrightarrow> state rf = Follower"
      "s' = set_node (vcPeer (vcalls s ! k)) rf
         (s\<lparr>vcalls := (vcalls s)[k := (vcalls s ! k)\<lparr>vcReply := Some reply\<rparr>]\<rparr>)"
  | (counted) k r rf where "k < length (vcalls s)" "r = vcRound (vcalls s ! k)" "vcOpen (vcalls s ! k)"
      "vote_of (vcalls s ! k) = Some (currentTerm (nodes s ! rdOwner (rounds s ! r)))"
      "state (nodes s ! rdOwner (rounds s ! r)) = Candidate"
      "rf = nodes s ! rdOwner (rounds s ! r) \<or>
       rf = becomeLeader (nodes s ! rdOwner (rounds s ! r)) \<and> rdSupporter (rounds s ! r) + 1 > n div 2"
      "s' = set_node (rdOwner (rounds s ! r)) rf
         (s\<lparr>rounds := (rounds s)[r := (rounds s ! r)\<lparr>rdSupporter := rdSupporter (rounds s ! r) + 1\<rparr>],
            vcalls := (vcalls s)[k := (vcalls s ! k)\<lparr>vcOpen := False\<rparr>]\<rparr>)"
proof -
  note D = wf_clusterD [OF wf]
  note same = valid_calls_same [OF wf]
  from ev have en: "enabled e s" and ex: "exec e s = Some s'"
    by (auto simp: cstep_def split: if_splits)
  show thesis
  proof (cases e)
    case (CTick i now)
    then have i: "i < n" using en D by simp
    from tick_cases [of now "nodes s ! i"] show thesis
    proof
      assume t: "fst (tick now (nodes s ! i)) = nodes s ! i \<and> \<not> snd (tick now (nodes s ! i))"
      then have "s' = s" using ex CTick by (auto simp: Let_def split: prod.splits)
      then show thesis using quiet quiet_step_same [OF wf] i wf by auto
    next
      assume t: "fst (tick now (nodes s ! i)) = becomeCandidate (nodes s ! i) \<and> snd (tick now (nodes s ! i))
        \<and> state (nodes s ! i) \<noteq> Leader"
      then show thesis using ex CTick started [OF i] by (auto simp: Let_def split: prod.splits)
    qed
  next
    case (CVoteSend k)
    then have k: "k < length (vcalls s)" and c: "vcOpen (vcalls s ! k)" "vcArgs (vcalls s ! k) = None"
      using en by auto
    have w: "wf_call n s (vcalls s ! k)" using D(6) [OF k] .
    let ?o = "call_owner s (vcalls s ! k)"
    have o: "?o < n" using w D(5) by (auto simp: wf_call_def)
    obtain args where "voteArgs (nodes s ! ?o) = Some args" "rvCandidateId args = int ?o"
      using voteArgs_ok [of "nodes s ! ?o"] D(2,4) [OF o] by (auto simp: node_ok_def)
    with ex CVoteSend have a: "rvCandidateId args = int ?o"
      "s' = s\<lparr>vcalls := (vcalls s)[k := (vcalls s ! k)\<lparr>vcArgs := Some args\<rparr>]\<rparr>" by (auto simp: Let_def)
    have "call_step ?o (vcalls s ! k) ((vcalls s ! k)\<lparr>vcArgs := Some args\<rparr>)"
      using c w a by (simp add: call_step_def)
    then have "quiet_step n s s'"
      using o k c w a(2) by (intro quiet_step_same [OF wf])
        (auto simp: wf_call_def intro!: calls_step_update [OF wf k] map_vote_of_update same)
    then show thesis by (rule quiet)
  next
    case (CVoteServe k now)
    then have k: "k < length (vcalls s)" and r: "vcReply (vcalls s ! k) = None" using en by auto
    obtain args where args: "vcArgs (vcalls s ! k) = Some args" using en CVoteServe by auto
    have w: "wf_call n s (vcalls s ! k)" using D(6) [OF k] .
    let ?p = "vcPeer (vcalls s ! k)"
    have p: "?p < n" using w by (simp add: wf_call_def)
    have lok: "log_ok (nodes s ! ?p)" using D(4) [OF p] by (simp add: node_ok_def)
    show thesis
    proof (cases rule: RequestVote_cases [OF lok, of now args, consumes 0, case_names denied granted])
      case (denied rf reply)
      have s': "s' = set_node ?p rf (s\<lparr>vcalls := (vcalls s)[k := (vcalls s ! k)\<lparr>vcReply := Some reply\<rparr>]\<rparr>)"
        using ex CVoteServe args denied(1) by (simp add: Let_def)
      have ok: "node_ok rf" using RequestVote_ok [OF D(4) [OF p] denied(1)] .
      have "calls_step s (vcalls s')" unfolding s'
        by (simp, rule calls_step_update [OF wf k]) (simp add: call_step_def args)
      then have "quiet_step n s s'"
        using s' r denied(3) k
        by (intro quiet_stepI [OF p denied(2) ok]) (auto intro!: map_vote_of_update same)
      then show thesis by (rule quiet)
    next
      case (granted rf reply)
      have s': "s' = set_node ?p rf (s\<lparr>vcalls := (vcalls s)[k := (vcalls s ! k)\<lparr>vcReply := Some reply\<rparr>]\<rparr>)"
        using ex CVoteServe args granted(1) by (simp add: Let_def)
      show thesis
        by (rule voted [OF k args r granted(2) RequestVote_ok [OF D(4) [OF p] granted(1)]
            granted(7,8,4,6,5,9,10) s'])
    qed
  next
    case (CVoteRecv k)
    then have k: "k < length (vcalls s)" and op: "vcOpen (vcalls s ! k)" using en by auto
    have w: "wf_call n s (vcalls s ! k)" using D(6) [OF k] .
    obtain args reply where ar: "vcArgs (vcalls s ! k) = Some args" "vcReply (vcalls s ! k) = Some reply"
      using en CVoteRecv w by (auto simp: wf_call_def)
    let ?r = "vcRound (vcalls s ! k)"
    let ?o = "rdOwner (rounds s ! ?r)" and ?spt = "rdSupporter (rounds s ! ?r)"
    let ?v = "voteReply (nodes s ! ?o) ?spt args reply"
    have o: "?o < n" using w D(5) by (auto simp: wf_call_def)
    have s': "s' = set_node ?o (fst ?v)
         (s\<lparr>rounds := (rounds s)[?r := (rounds s ! ?r)\<lparr>rdSupporter := snd ?v\<rparr>],
            vcalls := (vcalls s)[k := (vcalls s ! k)\<lparr>vcOpen := False\<rparr>]\<rparr>)"
      using ex CVoteRecv ar by (auto simp: Let_def split: prod.splits)
    show thesis
    proof (cases rule: voteReply_cases [of "nodes s ! ?o" ?spt args reply, case_names q c el])
      case q
      have "calls_step s (vcalls s')" unfolding s'
        by (simp, rule calls_step_update [OF wf k]) (rule call_step_close [OF w])
      then have "quiet_step n s s'"
        using s' q(2) k
        by (intro quiet_stepI [OF o q(1) voteReply_ok [OF D(4) [OF o]]])
          (auto intro!: map_vote_of_update same)
      then show thesis by (rule quiet)
    next
      case c
      then have "vote_of (vcalls s ! k) = Some (currentTerm (nodes s ! ?o))"
        using ar by (simp add: vote_of_def)
      then show thesis
        using s' c by (intro counted [OF k refl op, where rf = "fst ?v"]) auto
    next
      case el
      then have "vote_of (vcalls s ! k) = Some (currentTerm (nodes s ! ?o))"
        using ar by (simp add: vote_of_def)
      then show thesis
        using s' el D(3) [OF o] by (intro counted [OF k refl op, where rf = "fst ?v"]) auto
    qed
  next
    case (CVoteDrop k)
    then have k: "k < length (vcalls s)" using en by auto
    have w: "wf_call n s (vcalls s ! k)" using D(6) [OF k] .
    then have n: "0 < n" by (auto simp: wf_call_def)
    have s': "s' = s\<lparr>vcalls := (vcalls s)[k := (vcalls s ! k)\<lparr>vcOpen := False\<rparr>]\<rparr>"
      using ex CVoteDrop by simp
    have "calls_step s (vcalls s')" unfolding s'
      by (simp, rule calls_step_update [OF wf k]) (rule call_step_close [OF w])
    then have "quiet_step n s s'"
      using s' k by (intro quiet_step_same [OF wf n]) (auto intro!: map_vote_of_update same)
    then show thesis by (rule quiet)
  qed (use quiet append_quiet [OF wf en ex] install_quiet [OF wf en ex] service_quiet [OF wf en ex] in auto)
qed

section \<open>Votes on record\<close>

definition voted :: "('c, 'b) cluster \<Rightarrow> int \<Rightarrow> nat \<Rightarrow> nat \<Rightarrow> bool" where
  "voted s T v c \<longleftrightarrow>
     (\<exists>k < length (vcalls s). vcPeer (vcalls s ! k) = v \<and> call_owner s (vcalls s ! k) = c \<and>
        vote_of (vcalls s ! k) = Some T) \<or>
     v = c \<and> (\<exists>r < length (rounds s). rdOwner (rounds s ! r) = c \<and> rdTerm (rounds s ! r) = T)"

definition prompt :: "('c, 'b) cluster \<Rightarrow> bool" where
  "prompt s \<longleftrightarrow> (\<forall>c \<in> set (vcalls s). \<forall>a. vcArgs c = Some a \<longrightarrow> rvTerm a = rdTerm (rounds s ! vcRound c))"

definition tally :: "('c, 'b) cluster \<Rightarrow> nat \<Rightarrow> nat set" where
  "tally s r = (\<lambda>k. vcPeer (vcalls s ! k)) `
     {k. k < length (vcalls s) \<and> vcRound (vcalls s ! k) = r \<and> \<not> vcOpen (vcalls s ! k) \<and>
         vote_of (vcalls s ! k) \<noteq> None}"

lemma finite_tally [simp]: "finite (tally s r)"
  by (simp add: tally_def)

text \<open>The invariants, over the peers and the votes on record.\<close>

definition ballot_inv :: "nat \<Rightarrow> ('c, 'b) Raft list \<Rightarrow> (int \<Rightarrow> nat \<Rightarrow> nat \<Rightarrow> bool) \<Rightarrow> bool" where
  "ballot_inv n nds V \<longleftrightarrow> length nds = n \<and>
     (\<forall>T v c. V T v c \<longrightarrow> v < n \<and> T \<le> currentTerm (nds ! v) \<and>
        (T = currentTerm (nds ! v) \<longrightarrow> votedFor (nds ! v) = int c)) \<and>
     (\<forall>T v c d. V T v c \<longrightarrow> V T v d \<longrightarrow> c = d) \<and>
     (\<forall>i < n. state (nds ! i) \<noteq> Follower \<longrightarrow> V (currentTerm (nds ! i)) i i)"

definition leaders_inv :: "nat \<Rightarrow> ('c, 'b) Raft list \<Rightarrow> (int \<Rightarrow> nat \<Rightarrow> nat \<Rightarrow> bool) \<Rightarrow> bool" where
  "leaders_inv n nds V \<longleftrightarrow> (\<forall>i < n. state (nds ! i) = Leader \<longrightarrow>
     majority n {v. v < n \<and> V (currentTerm (nds ! i)) v i})"

definition tally_inv :: "('c, 'b) cluster \<Rightarrow> bool" where
  "tally_inv s \<longleftrightarrow> (\<forall>r < length (rounds s). rdSupporter (rounds s ! r) \<le> 1 + card (tally s r))"

definition election_inv :: "nat \<Rightarrow> ('c, 'b) cluster \<Rightarrow> bool" where
  "election_inv n s \<longleftrightarrow> wf_cluster n s \<and> ballot_inv n (nodes s) (voted s) \<and> tally_inv s \<and>
     (prompt s \<or> n \<le> 3 \<longrightarrow> leaders_inv n (nodes s) (voted s))"

lemma tally_inv_of: "election_inv n s \<Longrightarrow> tally_inv s"
  by (simp add: election_inv_def)

lemma ballot_quiet:
  assumes "ballot_inv n nds V" "i < n" "quiet (nds ! i) rf"
  shows "ballot_inv n (nds[i := rf]) V"
proof -
  have v: "v < n \<and> T \<le> currentTerm (nds[i := rf] ! v) \<and>
      (T = currentTerm (nds[i := rf] ! v) \<longrightarrow> votedFor (nds[i := rf] ! v) = int c)" if "V T v c" for T v c
  proof (cases "v = i")
    case True
    then have "T \<le> currentTerm (nds ! i)" "T = currentTerm (nds ! i) \<longrightarrow> votedFor (nds ! i) = int c"
      using assms(1) that by (auto simp: ballot_inv_def)
    then show ?thesis using True assms by (auto simp: quiet_def ballot_inv_def)
  qed (use assms(1) that in \<open>auto simp: ballot_inv_def\<close>)
  have f: "V (currentTerm (nds[i := rf] ! j)) j j" if "j < n" "state (nds[i := rf] ! j) \<noteq> Follower" for j
    using that assms by (cases "j = i") (auto simp: ballot_inv_def quiet_def)
  show ?thesis using v f assms(1) unfolding ballot_inv_def by (metis length_list_update)
qed

lemma ballot_cast:
  assumes inv: "ballot_inv n nds V" and v: "v0 < n" and rf: "currentTerm rf = T0" "votedFor rf = int c0"
    and old: "currentTerm (nds ! v0) \<le> T0"
      "currentTerm (nds ! v0) = T0 \<Longrightarrow> votedFor (nds ! v0) \<in> {- 1, int c0}"
    and role: "state rf \<noteq> Follower \<Longrightarrow> c0 = v0 \<or> currentTerm (nds ! v0) = T0 \<and> state (nds ! v0) \<noteq> Follower"
  shows "ballot_inv n (nds[v0 := rf]) (\<lambda>T v c. V T v c \<or> (T, v, c) = (T0, v0, c0))"
proof -
  have same: "c = c0" if "V T0 v0 c" for c
    using inv that old unfolding ballot_inv_def by fastforce
  have b: "v < n \<and> T \<le> currentTerm (nds[v0 := rf] ! v) \<and>
      (T = currentTerm (nds[v0 := rf] ! v) \<longrightarrow> votedFor (nds[v0 := rf] ! v) = int c)"
    if "V T v c \<or> (T, v, c) = (T0, v0, c0)" for T v c
  proof (cases "v = v0")
    case True
    have "V T v0 c \<Longrightarrow> T \<le> T0" using inv old(1) unfolding ballot_inv_def by force
    then show ?thesis using True that same rf v inv by (auto simp: ballot_inv_def)
  next
    case False
    then show ?thesis using that inv by (auto simp: ballot_inv_def)
  qed
  moreover have "V (currentTerm (nds[v0 := rf] ! i)) i i \<or>
      (currentTerm (nds[v0 := rf] ! i), i, i) = (T0, v0, c0)"
    if "i < n" "state (nds[v0 := rf] ! i) \<noteq> Follower" for i
    using that role rf inv v by (cases "i = v0") (auto simp: ballot_inv_def)
  ultimately show ?thesis
    using same inv unfolding ballot_inv_def by auto
qed

lemma leaders_mono:
  assumes "leaders_inv n nds V" "length nds = n" "i < n" "\<And>T v c. V T v c \<Longrightarrow> V' T v c"
    "state rf = Leader \<Longrightarrow> state (nds ! i) = Leader \<and> currentTerm rf = currentTerm (nds ! i)"
  shows "leaders_inv n (nds[i := rf]) V'"
  unfolding leaders_inv_def
proof (intro allI impI)
  fix j assume j: "j < n" "state (nds[i := rf] ! j) = Leader"
  then have "state (nds ! j) = Leader" "currentTerm (nds[i := rf] ! j) = currentTerm (nds ! j)"
    using assms by (auto simp: nth_list_update split: if_splits)
  then show "majority n {v. v < n \<and> V' (currentTerm (nds[i := rf] ! j)) v j}"
    using assms(1,4) j by (simp only: leaders_inv_def) (rule majority_mono, auto)
qed

lemma leaders_quiet:
  assumes "leaders_inv n nds V" "length nds = n" "i < n" "quiet (nds ! i) rf"
  shows "leaders_inv n (nds[i := rf]) V"
  using assms by (intro leaders_mono [OF assms(1-3)]) (auto simp: quiet_def)

section \<open>Every step keeps the invariants\<close>

lemma wf_step:
  assumes wf: "wf_cluster n s" and i: "i < n" "nodes s' = (nodes s)[i := rf]" "node_ok rf"
    and rf: "me rf = me (nodes s ! i)" "npeers rf = npeers (nodes s ! i)"
    and own: "map rdOwner (rounds s') = map rdOwner (rounds s)"
    and cs: "calls_step s (vcalls s')" and v: "valid_calls n s'"
  shows "wf_cluster n s'"
proof -
  note D = wf_clusterD [OF wf]
  have rl: "length (rounds s') = length (rounds s)" using own by (metis length_map)
  have ro: "r < length (rounds s) \<Longrightarrow> rdOwner (rounds s' ! r) = rdOwner (rounds s ! r)" for r
    using own rl by (metis nth_map)
  have c: "wf_call n s' (vcalls s' ! k)" if "k < length (vcalls s')" for k
    using that cs D(6) [of k]
    by (cases "vcArgs (vcalls s ! k)") (auto simp: calls_step_def call_step_def wf_call_def ro rl)
  have "map (\<lambda>c. (vcRound c, vcPeer c)) (vcalls s') = map (\<lambda>c. (vcRound c, vcPeer c)) (vcalls s)"
    using cs by (intro nth_equalityI) (auto simp: calls_step_def call_step_def)
  moreover have "\<forall>r \<in> set (rounds s'). rdOwner r < n"
    using D(5) ro rl by (metis in_set_conv_nth)
  ultimately show ?thesis
    using wf c v i rf unfolding wf_cluster_def valid_calls_def
    by (auto simp: nth_list_update in_set_conv_nth)
qed

lemma ex_nth_update:
  "k < length xs \<Longrightarrow> \<not> P (xs ! k) \<Longrightarrow>
   (\<exists>j < length xs. P (xs[k := y] ! j)) \<longleftrightarrow> (\<exists>j < length xs. P (xs ! j)) \<or> P y"
  by (metis nth_list_update_eq nth_list_update_neq)

lemma ex_nth_snoc:
  "(\<exists>j < length (xs @ [y]). P ((xs @ [y]) ! j)) \<longleftrightarrow> (\<exists>j < length xs. P (xs ! j)) \<or> P y"
proof -
  have set: "(\<exists>j < length zs. P (zs ! j)) \<longleftrightarrow> (\<exists>z \<in> set zs. P z)" for zs by (metis in_set_conv_nth)
  show ?thesis unfolding set by auto
qed

lemma voted_frame:
  assumes "wf_cluster n s" "calls_step s (vcalls s')" "map vote_of (vcalls s') = map vote_of (vcalls s)"
    "map rdOwner (rounds s') = map rdOwner (rounds s)" "map rdTerm (rounds s') = map rdTerm (rounds s)"
  shows "voted s' = voted s"
proof -
  have l: "length (rounds s') = length (rounds s)" "length (vcalls s') = length (vcalls s)"
    using assms(3,4) by (metis length_map)+
  have r: "r < length (rounds s) \<Longrightarrow> rdOwner (rounds s' ! r) = rdOwner (rounds s ! r) \<and>
      rdTerm (rounds s' ! r) = rdTerm (rounds s ! r)" for r
    using assms(4,5) l by (metis nth_map)
  have c: "k < length (vcalls s) \<Longrightarrow> vcPeer (vcalls s' ! k) = vcPeer (vcalls s ! k) \<and>
      call_owner s' (vcalls s' ! k) = call_owner s (vcalls s ! k) \<and>
      vote_of (vcalls s' ! k) = vote_of (vcalls s ! k)" for k
    using assms(2) arg_cong [OF assms(3), of "\<lambda>xs. xs ! k"] l r wf_clusterD(6) [OF assms(1), of k]
    by (simp add: calls_step_def call_step_def wf_call_def)
  have "voted s' T v d = voted s T v d" for T v d
    unfolding voted_def l using r c by (metis (no_types, lifting))
  then show ?thesis by blast
qed

lemma tally_mono:
  assumes "calls_step s (vcalls s')" "\<And>k. k < length (vcalls s) \<Longrightarrow> vote_of (vcalls s ! k) \<noteq> None \<Longrightarrow>
    vote_of (vcalls s' ! k) \<noteq> None"
  shows "tally s r \<subseteq> tally s' r"
  using assms by (auto simp: tally_def calls_step_def call_step_def image_iff)

lemma tally_inv_mono:
  assumes "tally_inv s" "map rdSupporter (rounds s') = map rdSupporter (rounds s)"
    "\<And>r. tally s r \<subseteq> tally s' r"
  shows "tally_inv s'"
  unfolding tally_inv_def
proof (intro allI impI)
  fix r assume r: "r < length (rounds s')"
  have l: "length (rounds s') = length (rounds s)" using assms(2) by (metis length_map)
  have "rdSupporter (rounds s' ! r) = rdSupporter (rounds s ! r)" using assms(2) r l by (metis nth_map)
  moreover have "card (tally s r) \<le> card (tally s' r)" using assms(3) by (simp add: card_mono)
  ultimately show "rdSupporter (rounds s' ! r) \<le> 1 + card (tally s' r)"
    using assms(1) r l unfolding tally_inv_def by fastforce
qed

lemma prompt_back:
  assumes "wf_cluster n s" "calls_step s (vcalls s')" "map rdTerm (rounds s') = map rdTerm (rounds s)" "prompt s'"
  shows "prompt s"
  unfolding prompt_def
proof (intro ballI allI impI)
  fix c a assume c: "c \<in> set (vcalls s)" "vcArgs c = Some a"
  then obtain k where k: "k < length (vcalls s)" "vcalls s ! k = c" by (auto simp: in_set_conv_nth)
  have "wf_call n s c" using wf_clusterD(6) [OF assms(1) k(1)] k by simp
  then have "vcRound c < length (rounds s)" by (simp add: wf_call_def)
  then have t: "rdTerm (rounds s' ! vcRound c) = rdTerm (rounds s ! vcRound c)"
    using assms(3) by (metis length_map nth_map)
  have "vcArgs (vcalls s' ! k) = Some a" "vcRound (vcalls s' ! k) = vcRound c" "k < length (vcalls s')"
    using assms(2) k c by (auto simp: calls_step_def call_step_def)
  then show "rvTerm a = rdTerm (rounds s ! vcRound c)"
    using assms(4) t unfolding prompt_def by (metis nth_mem)
qed

lemma election_quiet:
  assumes inv: "election_inv n s" and q: "quiet_step n s s'"
  shows "election_inv n s'"
proof -
  have wf: "wf_cluster n s" using inv by (simp add: election_inv_def)
  from q obtain i rf where i: "i < n" "nodes s' = (nodes s)[i := rf]" "quiet (nodes s ! i) rf" "node_ok rf"
    and s': "rounds s' = rounds s" "calls_step s (vcalls s')"
      "map vote_of (vcalls s') = map vote_of (vcalls s)" "valid_calls n s'"
    by (auto simp: quiet_step_def)
  have w: "wf_cluster n s'"
    by (rule wf_step [OF wf i(1,2,4)]) (use i(3) s' in \<open>auto simp: quiet_def\<close>)
  have v: "voted s' = voted s" by (rule voted_frame [OF wf]) (use s' in auto)
  have "k < length (vcalls s) \<Longrightarrow> vote_of (vcalls s' ! k) = vote_of (vcalls s ! k)" for k
    using s'(3) by (metis length_map nth_map)
  then have "tally s r \<subseteq> tally s' r" for r by (intro tally_mono s') auto
  then have t: "tally_inv s'" by (rule tally_inv_mono [OF tally_inv_of [OF inv], rotated]) (simp add: s')
  have p: "prompt s' \<Longrightarrow> prompt s" by (rule prompt_back [OF wf]) (use s' in auto)
  show ?thesis
    using inv w v t p i leaders_quiet [OF _ wf_clusterD(1) [OF wf] i(1,3)] ballot_quiet [OF _ i(1,3)]
    unfolding election_inv_def by auto
qed

text \<open>Granting a vote adds that vote to the record.\<close>

lemma voted_cast:
  assumes k: "k < length (vcalls s)" "vcArgs (vcalls s ! k) = Some args" "vcReply (vcalls s ! k) = None" "rvrVoteGranted reply"
    and s': "s' = set_node p rf (s\<lparr>vcalls := (vcalls s)[k := (vcalls s ! k)\<lparr>vcReply := Some reply\<rparr>]\<rparr>)"
  shows "voted s' = (\<lambda>T v c. voted s T v c \<or> (T, v, c) = (rvTerm args, vcPeer (vcalls s ! k), call_owner s (vcalls s ! k)))"
proof (intro ext)
  fix T v c
  have k0: "vote_of (vcalls s ! k) = None" using k by simp
  let ?P = "\<lambda>d. vcPeer d = v \<and> call_owner s d = c \<and> vote_of d = Some T"
  have "(\<exists>j < length (vcalls s'). ?P (vcalls s' ! j)) \<longleftrightarrow> (\<exists>j < length (vcalls s). ?P (vcalls s ! j)) \<or>
      ?P ((vcalls s ! k)\<lparr>vcReply := Some reply\<rparr>)"
    using ex_nth_update [OF k(1), of ?P] k0 by (simp add: s')
  then show "voted s' T v c = (voted s T v c \<or> (T, v, c) = (rvTerm args, vcPeer (vcalls s ! k), call_owner s (vcalls s ! k)))"
    using k by (auto simp: voted_def s')
qed

lemma election_voted:
  assumes inv: "election_inv n s" and k: "k < length (vcalls s)" "vcArgs (vcalls s ! k) = Some args"
      "vcReply (vcalls s ! k) = None" "rvrVoteGranted reply" and ok: "node_ok rf"
    and p: "p = vcPeer (vcalls s ! k)" "me rf = me (nodes s ! p)" "npeers rf = npeers (nodes s ! p)"
      "currentTerm rf = rvTerm args" "votedFor rf = rvCandidateId args" "currentTerm (nodes s ! p) \<le> rvTerm args"
      "currentTerm (nodes s ! p) = rvTerm args \<Longrightarrow> votedFor (nodes s ! p) \<in> {- 1, rvCandidateId args} \<and>
         state rf = state (nodes s ! p)"
      "currentTerm (nodes s ! p) < rvTerm args \<Longrightarrow> state rf = Follower"
    and s': "s' = set_node p rf (s\<lparr>vcalls := (vcalls s)[k := (vcalls s ! k)\<lparr>vcReply := Some reply\<rparr>]\<rparr>)"
  shows "election_inv n s'"
proof -
  have wf: "wf_cluster n s" using inv by (simp add: election_inv_def)
  note D = wf_clusterD [OF wf]
  have w: "wf_call n s (vcalls s ! k)" using D(6) [OF k(1)] .
  let ?o = "call_owner s (vcalls s ! k)"
  have o: "rvCandidateId args = int ?o" "p < n" using w k p(1) by (auto simp: wf_call_def)
  have cs: "calls_step s (vcalls s')" unfolding s'
    by (simp, rule calls_step_update [OF wf k(1)]) (simp add: call_step_def k)
  have w': "wf_cluster n s'"
    by (rule wf_step [OF wf o(2) _ ok p(2,3) _ cs]) (auto simp: s' intro: valid_calls_same [OF wf])
  have vo: "vote_of (vcalls s' ! j) = (if j = k then Some (rvTerm args) else vote_of (vcalls s ! j))"
    if "j < length (vcalls s)" for j
    using that k by (simp add: s' nth_list_update)
  have V: "voted s' = (\<lambda>T v c. voted s T v c \<or> (T, v, c) = (rvTerm args, p, ?o))"
    using voted_cast [OF k s'] p(1) by simp
  then have v: "voted s' T v c \<longleftrightarrow> voted s T v c \<or> (T, v, c) = (rvTerm args, p, ?o)" for T v c by simp
  have N: "nodes s' = (nodes s)[p := rf]" by (simp add: s')
  have role: "state rf \<noteq> Follower \<Longrightarrow> currentTerm (nodes s ! p) = rvTerm args \<and> state rf = state (nodes s ! p)"
    using p(6-8) by fastforce
  have b: "ballot_inv n (nodes s') (voted s')"
    unfolding V N
  proof (rule ballot_cast)
    show "ballot_inv n (nodes s) (voted s)" using inv by (simp add: election_inv_def)
    show "votedFor rf = int ?o" using p(5) o(1) by simp
    show "currentTerm (nodes s ! p) = rvTerm args \<Longrightarrow> votedFor (nodes s ! p) \<in> {- 1, int ?o}"
      using p(7) o(1) by simp
    show "state rf \<noteq> Follower \<Longrightarrow> ?o = p \<or> currentTerm (nodes s ! p) = rvTerm args \<and>
        state (nodes s ! p) \<noteq> Follower"
      using role by simp
  qed (fact o(2) p(4,6))+
  have "leaders_inv n (nodes s) (voted s) \<Longrightarrow> leaders_inv n (nodes s') (voted s')"
    using leaders_mono [OF _ D(1) o(2), of "voted s" "voted s'" rf] role p(4) v by (simp add: s')
  moreover have "prompt s' \<Longrightarrow> prompt s" by (rule prompt_back [OF wf cs]) (simp_all add: s')
  moreover have "tally s r \<subseteq> tally s' r" for r by (rule tally_mono [OF cs]) (use vo in auto)
  then have "tally_inv s'" by (rule tally_inv_mono [OF tally_inv_of [OF inv], rotated]) (simp add: s')
  ultimately show ?thesis using inv w' b unfolding election_inv_def by blast
qed

lemma start_round_simps [simp]:
  "nodes (start_round i s) = nodes s" "acalls (start_round i s) = acalls s"
  "icalls (start_round i s) = icalls s"
  "rounds (start_round i s) =
     rounds s @ [\<lparr>rdOwner = i, rdTerm = currentTerm (nodes s ! i), rdSupporter = 1\<rparr>]"
  "vcalls (start_round i s) = vcalls s @
     map (\<lambda>j. \<lparr>vcRound = length (rounds s), vcPeer = j, vcArgs = None, vcReply = None, vcOpen = True\<rparr>)
         (filter (\<lambda>j. j \<noteq> me (nodes s ! i)) [0..<npeers (nodes s ! i)])"
  by (simp_all add: start_round_def Let_def)

lemma start_round_wf:
  assumes wf: "wf_cluster n s" and i: "i < n"
  shows "wf_cluster n (start_round i s)"
proof -
  note D = wf_clusterD [OF wf]
  have old: "wf_call n (start_round i s) c" if "wf_call n s c" for c
    using that by (simp add: wf_call_def nth_append)
  let ?new = "map (\<lambda>j. \<lparr>vcRound = length (rounds s), vcPeer = j, vcArgs = None, vcReply = None, vcOpen = True\<rparr>)
         (filter (\<lambda>j. j \<noteq> me (nodes s ! i)) [0..<npeers (nodes s ! i)])"
  have new: "wf_call n (start_round i s) c" if "c \<in> set ?new" for c
    using that D(2,3) [OF i] by (auto simp: wf_call_def)
  have "distinct (map (\<lambda>c. (vcRound c, vcPeer c)) (vcalls s @ ?new))"
    using wf by (auto simp: wf_cluster_def wf_call_def distinct_map inj_on_def)
  then show ?thesis
    using wf old new i unfolding wf_cluster_def by auto
qed

text \<open>Starting a round puts the vote of the candidate for itself on record.\<close>

lemma voted_round:
  assumes wf: "wf_cluster n s" and i: "i < n"
    and s': "s' = start_round i (set_node i (becomeCandidate (nodes s ! i)) s)"
  shows "voted s' = (\<lambda>T v c. voted s T v c \<or> (T, v, c) = (currentTerm (becomeCandidate (nodes s ! i)), i, i))"
proof (intro ext)
  fix T v c
  note D = wf_clusterD [OF wf]
  let ?rf = "becomeCandidate (nodes s ! i)"
  have ro: "k < length (vcalls s) \<Longrightarrow> vcRound (vcalls s ! k) < length (rounds s)" for k
    using D(6) by (simp add: wf_call_def)
  have new: "vote_of (vcalls s' ! k) = None" if "\<not> k < length (vcalls s)" "k < length (vcalls s')" for k
    using that by (simp add: s' nth_append)
  have old: "vcalls s' ! k = vcalls s ! k" "call_owner s' (vcalls s ! k) = call_owner s (vcalls s ! k)"
    "k < length (vcalls s')" if "k < length (vcalls s)" for k
    using that ro by (simp_all add: s' nth_append)
  have calls: "(\<exists>k < length (vcalls s'). vcPeer (vcalls s' ! k) = v \<and> call_owner s' (vcalls s' ! k) = c \<and>
        vote_of (vcalls s' ! k) = Some T) \<longleftrightarrow>
    (\<exists>k < length (vcalls s). vcPeer (vcalls s ! k) = v \<and> call_owner s (vcalls s ! k) = c \<and>
        vote_of (vcalls s ! k) = Some T)"
    using new old by (metis option.distinct(1))
  have "(\<exists>r < length (rounds s'). rdOwner (rounds s' ! r) = c \<and> rdTerm (rounds s' ! r) = T) \<longleftrightarrow>
    (\<exists>r < length (rounds s). rdOwner (rounds s ! r) = c \<and> rdTerm (rounds s ! r) = T) \<or>
    c = i \<and> T = currentTerm ?rf"
    using ex_nth_snoc [of "rounds s" "\<lparr>rdOwner = i, rdTerm = currentTerm ?rf, rdSupporter = 1\<rparr>"
        "\<lambda>r. rdOwner r = c \<and> rdTerm r = T"] i D(1) by (auto simp: s')
  then show "voted s' T v c = (voted s T v c \<or> (T, v, c) = (currentTerm ?rf, i, i))"
    unfolding voted_def calls by blast
qed

lemma election_started:
  assumes inv: "election_inv n s" and i: "i < n"
    and s': "s' = start_round i (set_node i (becomeCandidate (nodes s ! i)) s)"
  shows "election_inv n s'"
proof -
  have wf: "wf_cluster n s" using inv by (simp add: election_inv_def)
  note D = wf_clusterD [OF wf]
  let ?rf = "becomeCandidate (nodes s ! i)"
  let ?s = "set_node i ?rf s"
  have w: "wf_cluster n ?s"
    by (rule wf_step [OF wf i, where rf = ?rf]) (use D(1,4) i wf valid_calls_same [OF wf] in \<open>simp_all add: becomeCandidate_ok\<close>)
  have w': "wf_cluster n s'" unfolding s' by (rule start_round_wf [OF w i])
  have ro: "k < length (vcalls s) \<Longrightarrow> vcRound (vcalls s ! k) < length (rounds s)" for k
    using D(6) by (simp add: wf_call_def)
  have old: "vcalls s' ! k = vcalls s ! k" "call_owner s' (vcalls s ! k) = call_owner s (vcalls s ! k)"
    "rdTerm (rounds s' ! vcRound (vcalls s ! k)) = rdTerm (rounds s ! vcRound (vcalls s ! k))"
    "k < length (vcalls s')" if "k < length (vcalls s)" for k
    using that ro by (simp_all add: s' nth_append)
  note V = voted_round [OF wf i s']
  then have v: "voted s' T v c \<longleftrightarrow> voted s T v c \<or> (T, v, c) = (currentTerm ?rf, i, i)" for T v c by simp
  have N: "nodes s' = (nodes s)[i := ?rf]" by (simp add: s')
  have b: "ballot_inv n (nodes s') (voted s')"
    using ballot_cast [of n "nodes s" "voted s" i ?rf "currentTerm ?rf" i] inv i D(2) [OF i]
    unfolding V N by (simp add: election_inv_def)
  have l: "leaders_inv n (nodes s) (voted s) \<Longrightarrow> leaders_inv n (nodes s') (voted s')"
    using leaders_mono [OF _ D(1) i, of "voted s" "voted s'" ?rf] v by (simp add: s')
  have p: "prompt s" if "prompt s'"
    using that old unfolding prompt_def by (metis in_set_conv_nth)
  have sub: "tally s r \<subseteq> tally s' r" for r
    using old unfolding tally_def by (auto simp: image_iff) (metis option.distinct(1))
  have t: "tally_inv s'"
    unfolding tally_inv_def
  proof (intro allI impI)
    fix r assume "r < length (rounds s')"
    then consider "r < length (rounds s)" | "rdSupporter (rounds s' ! r) = 1"
      by (auto simp: s' nth_append less_Suc_eq)
    then show "rdSupporter (rounds s' ! r) \<le> 1 + card (tally s' r)"
    proof cases
      case 1
      then have "rdSupporter (rounds s' ! r) \<le> 1 + card (tally s r)"
        using inv by (simp add: election_inv_def tally_inv_def s' nth_append)
      moreover have "card (tally s r) \<le> card (tally s' r)" using sub by (simp add: card_mono)
      ultimately show ?thesis by linarith
    qed simp
  qed
  show ?thesis using inv w' b l p t unfolding election_inv_def by blast
qed

text \<open>A candidate that counts its way past half of the peers holds the votes of a majority.\<close>

lemma open_call_not_in_tally:
  assumes "wf_cluster n s" "k < length (vcalls s)" "vcOpen (vcalls s ! k)"
  shows "vcPeer (vcalls s ! k) \<notin> tally s (vcRound (vcalls s ! k))"
proof
  assume "vcPeer (vcalls s ! k) \<in> tally s (vcRound (vcalls s ! k))"
  then obtain j where j: "j < length (vcalls s)" "vcPeer (vcalls s ! j) = vcPeer (vcalls s ! k)"
    "vcRound (vcalls s ! j) = vcRound (vcalls s ! k)" "\<not> vcOpen (vcalls s ! j)"
    by (auto simp: tally_def)
  have "distinct (map (\<lambda>c. (vcRound c, vcPeer c)) (vcalls s))" using assms(1) by (simp add: wf_cluster_def)
  then have "j = k" using j assms(2) by (simp add: distinct_conv_nth) blast
  then show False using j assms(3) by simp
qed

lemma counted_majority:
  assumes inv: "election_inv n s" and ok: "prompt s \<or> n \<le> 3"
    and k: "k < length (vcalls s)" "vcOpen (vcalls s ! k)"
    and r: "r = vcRound (vcalls s ! k)" "i = rdOwner (rounds s ! r)"
    and vote: "vote_of (vcalls s ! k) = Some (currentTerm (nodes s ! i))"
    and cand: "state (nodes s ! i) = Candidate" and count: "rdSupporter (rounds s ! r) + 1 > n div 2"
  shows "majority n {v. v < n \<and> voted s (currentTerm (nodes s ! i)) v i}"
proof -
  have wf: "wf_cluster n s" using inv by (simp add: election_inv_def)
  note D = wf_clusterD [OF wf]
  have w: "wf_call n s (vcalls s ! k)" using D(6) [OF k(1)] .
  have rl: "r < length (rounds s)" and i: "i < n" using w r D(5) by (auto simp: wf_call_def)
  let ?T = "currentTerm (nodes s ! i)" and ?p = "vcPeer (vcalls s ! k)"
  let ?V = "{v. v < n \<and> voted s ?T v i}"
  have p: "?p \<noteq> i" "?p \<in> ?V" using w r vote k(1) by (auto simp: wf_call_def voted_def)
  have self: "i \<in> ?V" using inv i cand by (auto simp: election_inv_def ballot_inv_def)
  have "n div 2 < card ?V"
  proof (cases "n \<le> 3")
    case True
    have "card {?p, i} \<le> card ?V" using p self by (intro card_mono) auto
    then show ?thesis using True p by simp
  next
    case False
    then have pr: "prompt s" using ok by simp
    have T: "T = rdTerm (rounds s ! r)" if "j < length (vcalls s)" "vcRound (vcalls s ! j) = r"
      "vote_of (vcalls s ! j) = Some T" for j T
      using that pr by (auto simp: prompt_def vote_of_def split: option.splits if_splits)
    have rT: "rdTerm (rounds s ! r) = ?T" using T [OF k(1) _ vote] r by simp
    have tv: "tally s r \<subseteq> ?V - {?p, i}"
    proof
      fix v assume v: "v \<in> tally s r"
      then obtain j where j: "j < length (vcalls s)" "vcRound (vcalls s ! j) = r" "vcPeer (vcalls s ! j) = v"
        "vote_of (vcalls s ! j) \<noteq> None" by (auto simp: tally_def)
      then have vj: "vote_of (vcalls s ! j) = Some ?T" using T [OF j(1,2)] rT by fastforce
      have "wf_call n s (vcalls s ! j)" using D(6) [OF j(1)] .
      then have "v \<in> ?V" "v \<noteq> i" using j vj r(2) by (auto simp: wf_call_def voted_def)
      moreover have "v \<noteq> ?p" using open_call_not_in_tally [OF wf k] v r(1) by metis
      ultimately show "v \<in> ?V - {?p, i}" by simp
    qed
    have "card (tally s r) \<le> card (?V - {?p, i})" using tv by (intro card_mono) auto
    also have "\<dots> = card ?V - 2" using p self by (subst card_Diff_subset) auto
    finally have "card (tally s r) \<le> card ?V - 2" .
    moreover have "card {?p, i} \<le> card ?V" using p self by (intro card_mono) auto
    moreover have "rdSupporter (rounds s ! r) \<le> 1 + card (tally s r)"
      using inv rl by (simp add: election_inv_def tally_inv_def)
    ultimately show ?thesis using count p by simp
  qed
  then show ?thesis by (auto simp: majority_def)
qed

lemma election_counted:
  assumes inv: "election_inv n s" and k: "k < length (vcalls s)" "vcOpen (vcalls s ! k)"
    and r: "r = vcRound (vcalls s ! k)" "i = rdOwner (rounds s ! r)"
    and vote: "vote_of (vcalls s ! k) = Some (currentTerm (nodes s ! i))"
    and cand: "state (nodes s ! i) = Candidate"
    and rf: "rf = nodes s ! i \<or> rf = becomeLeader (nodes s ! i) \<and> rdSupporter (rounds s ! r) + 1 > n div 2"
    and s': "s' = set_node i rf
         (s\<lparr>rounds := (rounds s)[r := (rounds s ! r)\<lparr>rdSupporter := rdSupporter (rounds s ! r) + 1\<rparr>],
            vcalls := (vcalls s)[k := (vcalls s ! k)\<lparr>vcOpen := False\<rparr>]\<rparr>)"
  shows "election_inv n s'"
proof -
  have wf: "wf_cluster n s" using inv by (simp add: election_inv_def)
  note D = wf_clusterD [OF wf]
  have w: "wf_call n s (vcalls s ! k)" using D(6) [OF k(1)] .
  have rl: "r < length (rounds s)" and i: "i < n" using w r D(5) by (auto simp: wf_call_def)
  have rfs: "me rf = me (nodes s ! i)" "npeers rf = npeers (nodes s ! i)" "node_ok rf"
    "currentTerm rf = currentTerm (nodes s ! i)" "votedFor rf = votedFor (nodes s ! i)"
    "state rf \<noteq> Follower"
    using rf D(4) [OF i] cand by (auto intro: becomeLeader_ok)
  have cs: "calls_step s (vcalls s')" unfolding s'
    by (simp, rule calls_step_update [OF wf k(1)]) (rule call_step_close [OF w])
  have ro: "map rdOwner (rounds s') = map rdOwner (rounds s)" "map rdTerm (rounds s') = map rdTerm (rounds s)"
    using rl by (auto simp: s' map_update list_update_same_conv)
  have w': "wf_cluster n s'"
    by (rule wf_step [OF wf i _ rfs(3,1,2) ro(1) cs]) (auto simp: s' intro: valid_calls_same [OF wf])
  have vo: "map vote_of (vcalls s') = map vote_of (vcalls s)"
    using k by (simp add: s' map_vote_of_update)
  have v: "voted s' = voted s" by (rule voted_frame [OF wf cs vo ro])
  have b: "ballot_inv n (nodes s) (voted s)" using inv by (simp add: election_inv_def)
  have b': "ballot_inv n (nodes s') (voted s')"
    using b rfs cand i unfolding v ballot_inv_def by (simp add: s' nth_list_update)
  have pr: "prompt s' \<Longrightarrow> prompt s" by (rule prompt_back [OF wf cs ro(2)])
  have l: "leaders_inv n (nodes s') (voted s')" if ok: "prompt s \<or> n \<le> 3"
    unfolding leaders_inv_def v
  proof (intro allI impI)
    fix j assume j: "j < n" "state (nodes s' ! j) = Leader"
    show "majority n {v. v < n \<and> voted s (currentTerm (nodes s' ! j)) v j}"
    proof (cases "j = i")
      case True
      then have "rf = becomeLeader (nodes s ! i)" "rdSupporter (rounds s ! r) + 1 > n div 2"
        using j rf cand i D(1) by (auto simp: s')
      then show ?thesis
        using counted_majority [OF inv ok k r vote cand] True i D(1) by (simp add: s')
    next
      case False
      then show ?thesis
        using inv ok j by (simp add: election_inv_def leaders_inv_def s')
    qed
  qed
  have sub: "tally s q \<subseteq> tally s' q" for q
    by (rule tally_mono [OF cs]) (use vo in \<open>metis length_map nth_map\<close>)
  have "vcPeer (vcalls s ! k) \<in> tally s' r"
    unfolding tally_def using k(1) r(1) vote by (intro image_eqI [where x = k]) (auto simp: s')
  then have "insert (vcPeer (vcalls s ! k)) (tally s r) \<subseteq> tally s' r" using sub by simp
  then have "card (insert (vcPeer (vcalls s ! k)) (tally s r)) \<le> card (tally s' r)" by (intro card_mono) auto
  then have more: "card (tally s r) + 1 \<le> card (tally s' r)"
    using open_call_not_in_tally [OF wf k] r(1) by simp
  have t: "tally_inv s'"
    unfolding tally_inv_def
  proof (intro allI impI)
    fix q assume q: "q < length (rounds s')"
    have "rdSupporter (rounds s ! q) \<le> 1 + card (tally s q)"
      using tally_inv_of [OF inv] q by (auto simp: tally_inv_def s')
    moreover have "card (tally s q) \<le> card (tally s' q)" using sub by (intro card_mono) auto
    ultimately show "rdSupporter (rounds s' ! q) \<le> 1 + card (tally s' q)"
      using more rl by (cases "q = r") (auto simp: s')
  qed
  show ?thesis using w' b' pr l t unfolding election_inv_def by blast
qed

lemma election_init: "election_inv n (init_cluster n)"
  by (simp add: election_inv_def init_cluster_def wf_cluster_def init_node_ok ballot_inv_def voted_def
      tally_inv_def leaders_inv_def)
    (simp add: initRaft_def)

lemma election_step:
  assumes inv: "election_inv n s" and ev: "cstep e s = Some s'"
  shows "election_inv n s'"
proof -
  have wf: "wf_cluster n s" using inv by (simp add: election_inv_def)
  show ?thesis
  proof (cases rule: cstep_cases [OF wf ev, case_names quiet started voted counted])
    case quiet
    then show ?thesis by (rule election_quiet [OF inv])
  next
    case (started i)
    then show ?thesis by (rule election_started [OF inv])
  next
    case (voted k args rf reply)
    show ?thesis by (rule election_voted [OF inv voted(1-5) refl voted(6-13)])
  next
    case (counted k r rf)
    show ?thesis by (rule election_counted [OF inv counted(1,3,2) refl counted(4-7)])
  qed
qed

text \<open>A prompt state has only prompt states before it.\<close>

lemma prompt_cstep:
  assumes wf: "wf_cluster n s" and ev: "cstep e s = Some s'" and pr: "prompt s'"
  shows "prompt s"
proof (cases rule: cstep_cases [OF wf ev, case_names quiet started voted counted])
  case quiet
  then show ?thesis by (intro prompt_back [OF wf _ _ pr]) (auto simp: quiet_step_def)
next
  case (started i)
  have "vcRound c < length (rounds s)" if "c \<in> set (vcalls s)" for c
    using wf that by (auto simp: wf_cluster_def wf_call_def)
  then show ?thesis using pr unfolding prompt_def by (simp add: started(2) nth_append ball_Un)
next
  case (voted k args rf reply)
  have "calls_step s (vcalls s')" unfolding voted(13)
    by (simp, rule calls_step_update [OF wf voted(1)]) (simp add: call_step_def voted(2,3))
  then show ?thesis by (intro prompt_back [OF wf _ _ pr]) (auto simp: voted(13))
next
  case (counted k r rf)
  have w: "wf_call n s (vcalls s ! k)" using wf_clusterD(6) [OF wf counted(1)] .
  have cs: "calls_step s (vcalls s')" unfolding counted(7)
    by (simp, rule calls_step_update [OF wf counted(1)]) (rule call_step_close [OF w])
  have "map rdTerm (rounds s') = map rdTerm (rounds s)"
    using w counted(2) by (simp add: counted(7) map_update list_update_same_conv wf_call_def)
  then show ?thesis by (rule prompt_back [OF wf cs _ pr])
qed

lemma reachable_inv: "reachable n s \<Longrightarrow> election_inv n s"
  by (induction rule: reachable.induct) (auto intro: election_init election_step)

section \<open>Properties\<close>

text \<open>
  C4. Election safety: in every reachable state of a cluster, under arbitrary delay, loss and
  reordering of messages and arbitrary crashes and restarts, two leaders of the same term are
  the same peer, provided no vote goroutine of a round was delayed into a later term, or the
  cluster has at most three servers.
\<close>

theorem election_safety:
  fixes s :: "('c, 'b) cluster"
  assumes "reachable n s" "prompt s \<or> n \<le> 3" "i < n" "j < n"
    "state (nodes s ! i) = Leader" "state (nodes s ! j) = Leader"
    "currentTerm (nodes s ! i) = currentTerm (nodes s ! j)"
  shows "i = j"
proof -
  have inv: "election_inv n s" by (rule reachable_inv [OF assms(1)])
  have one: "c = d" if "voted s (currentTerm (nodes s ! i)) v c" "voted s (currentTerm (nodes s ! i)) v d" for v c d
    using inv that unfolding election_inv_def ballot_inv_def by blast
  have "leaders_inv n (nodes s) (voted s)" using inv assms(2) by (simp add: election_inv_def)
  then have maj: "majority n {v. v < n \<and> voted s (currentTerm (nodes s ! i)) v i}"
    "majority n {v. v < n \<and> voted s (currentTerm (nodes s ! i)) v j}"
    using assms(3-7) by (auto simp: leaders_inv_def)
  show ?thesis
    by (rule peers.at_most_one_winner
        [where voted = "voted s (currentTerm (nodes s ! i))", OF one maj(1) _ maj(2)]) auto
qed

text \<open>A run of three servers in which server 0 wins term 1 with the vote of server 2.\<close>

abbreviation timeout :: int where
  "timeout \<equiv> SELECTION_TIMEOUT + 1"

definition elect_run :: "(nat, nat) event list" where
  "elect_run = [CTick 0 timeout, CVoteSend 0, CVoteSend 1, CVoteServe 1 timeout, CVoteRecv 1]"

definition run_of :: "nat \<Rightarrow> (nat, nat) event list \<Rightarrow> (nat, nat) cluster" where
  "run_of n es = the (crun es (init_cluster n))"

lemma run_of_reachable: "crun es (init_cluster n) \<noteq> None \<Longrightarrow> reachable n (run_of n es)"
  unfolding run_of_def by (auto intro: reachable_crun [OF reachable_init])

lemma elect_run_ok: "map (\<lambda>rf. (state rf, currentTerm rf)) (nodes (run_of 3 elect_run)) =
    [(Leader, 1), (Follower, 0), (Follower, 1)] \<and> crun elect_run (init_cluster 3) \<noteq> None"
  by code_simp

lemma elect_run_leader: "state (nodes (run_of 3 elect_run) ! 0) = Leader"
  by code_simp

theorem election_safety_witness:
  "{j. j < 3 \<and> state (nodes (run_of 3 elect_run) ! j) = Leader \<and>
       currentTerm (nodes (run_of 3 elect_run) ! 0) = currentTerm (nodes (run_of 3 elect_run) ! j)} = {0}"
  using election_safety [OF run_of_reachable [OF conjunct2 [OF elect_run_ok]], of 0] elect_run_leader by auto

text \<open>
  The run behind the next property. Server 0 starts an election in term 1 and counts the vote of
  server 1; its second vote goroutine is slow. It times out and starts term 2. Now the slow
  goroutine runs: it asks server 2 for a vote in term 2, gets it, and finds three supporters.
  Meanwhile server 3, candidate in term 2 as well, wins the votes of servers 1 and 4.
\<close>

definition two_leaders_run :: "(nat, nat) event list" where
  "two_leaders_run =
     [CTick 0 timeout, CVoteSend 0, CVoteServe 0 timeout, CVoteRecv 0, CTick 3 timeout,
      CTick 0 (2 * timeout), CVoteSend 1, CVoteServe 1 (2 * timeout), CVoteRecv 1,
      CTick 3 (2 * timeout),
      CVoteSend 13, CVoteServe 13 (2 * timeout), CVoteRecv 13,
      CVoteSend 15, CVoteServe 15 (2 * timeout), CVoteRecv 15]"

lemma two_leaders_run_ok:
  "crun two_leaders_run (init_cluster 5) \<noteq> None"
  "map state (nodes (run_of 5 two_leaders_run)) = [Leader, Follower, Follower, Leader, Follower]"
  "map currentTerm (nodes (run_of 5 two_leaders_run)) = [2, 2, 2, 2, 2]"
  by code_simp+

text \<open>
  C22. Without that proviso election safety fails: with five servers two different leaders of one
  term are reachable, since the goroutines of one round share their counter of votes across
  terms and read the term only when they run.
\<close>

theorem two_leaders_reachable:
  "\<exists>s :: (nat, nat) cluster. reachable 5 s \<and>
     state (nodes s ! 0) = Leader \<and> state (nodes s ! 3) = Leader \<and>
     currentTerm (nodes s ! 0) = currentTerm (nodes s ! 3)"
proof (intro exI conjI)
  let ?s = "run_of 5 two_leaders_run"
  show "reachable 5 ?s" by (rule run_of_reachable [OF two_leaders_run_ok(1)])
  have len: "length (nodes ?s) = 5" using arg_cong [OF two_leaders_run_ok(2), of length] by simp
  then show "state (nodes ?s ! 0) = Leader" "state (nodes ?s ! 3) = Leader"
    using arg_cong [OF two_leaders_run_ok(2), of "\<lambda>xs. xs ! 0"]
      arg_cong [OF two_leaders_run_ok(2), of "\<lambda>xs. xs ! 3"] by simp_all
  show "currentTerm (nodes ?s ! 0) = currentTerm (nodes ?s ! 3)"
    using len arg_cong [OF two_leaders_run_ok(3), of "\<lambda>xs. xs ! 0"]
      arg_cong [OF two_leaders_run_ok(3), of "\<lambda>xs. xs ! 3"] by simp
qed

text \<open>
  One vote per term, across the whole history of a cluster: two votes that one server has
  granted in one term, over any number of its crashes and restarts, are for the same candidate.
\<close>

lemma one_vote_per_term:
  assumes "reachable n s" "voted s T v c" "voted s T v d"
  shows "c = d"
  using reachable_inv [OF assms(1)] assms(2,3) unfolding election_inv_def ballot_inv_def by blast

lemma elect_run_vote: "voted (run_of 3 elect_run) 1 2 0"
  unfolding voted_def by (intro disjI1 exI [of _ 1]) code_simp

end
