(* ===== verification/RaftSpec.thy ===== *)
theory RaftSpec
  imports Quorum RaftTypes "HOL-Library.Sublist"
begin

text \<open>
  Raft as a protocol, without messages, timers and disks: servers move to later terms, run for
  election, vote, are elected, append to their logs, and adopt a prefix of the log of the
  leader of their term. \<open>spLead\<close> is the log of the leader of each term, as far as it has grown, and
  \<open>spAck\<close> holds who has acknowledged the log of which term up to which index. The invariant of the
  protocol is proved here once; \<^verbatim>\<open>RaftRefinement\<close> shows that the cluster of the code's peers
  simulates the protocol.
\<close>

section \<open>States and steps\<close>

record 'c spec =
  spLog :: "nat \<Rightarrow> 'c Entry list"
  spTerm :: "nat \<Rightarrow> int"
  spRole :: "nat \<Rightarrow> RaftState"
  spVote :: "(int \<times> nat \<times> nat) set"
  spAck :: "(nat \<times> int \<times> nat) set"
  spLead :: "int \<Rightarrow> 'c Entry list"

abbreviation dummy :: "'c Entry" where
  "dummy \<equiv> \<lparr>entTerm = - 1, entCommand = None\<rparr>"

definition spec_init :: "'c spec" where
  "spec_init = \<lparr>spLog = (\<lambda>v. [dummy]), spTerm = (\<lambda>v. 0), spRole = (\<lambda>v. Follower), spVote = {}, spAck = {},
     spLead = (\<lambda>T. [])\<rparr>"

text \<open>A log takes over a prefix of the leader's log: it is left alone if it has that prefix already.\<close>

definition adopt :: "'e list \<Rightarrow> 'e list \<Rightarrow> 'e list" where
  "adopt l f = (if take (length f) l = f then l else f)"

definition fresher :: "'c Entry list \<Rightarrow> 'c Entry list \<Rightarrow> bool" where
  "fresher l l' \<longleftrightarrow> entTerm (last l) > entTerm (last l') \<or>
     entTerm (last l) = entTerm (last l') \<and> length l \<ge> length l'"

text \<open>\<open>C\<close> holds the commands that clients may give to a leader.\<close>

inductive spec_step :: "nat \<Rightarrow> 'c set \<Rightarrow> 'c spec \<Rightarrow> 'c spec \<Rightarrow> bool" for n C a where
  sp_term: "v < n \<Longrightarrow> spTerm a v < t \<Longrightarrow>
    spec_step n C a (a\<lparr>spTerm := (spTerm a)(v := t), spRole := (spRole a)(v := Follower)\<rparr>)"
| sp_follow: "v < n \<Longrightarrow> spec_step n C a (a\<lparr>spRole := (spRole a)(v := Follower)\<rparr>)"
| sp_run: "v < n \<Longrightarrow> spec_step n C a (a\<lparr>spTerm := (spTerm a)(v := spTerm a v + 1),
    spRole := (spRole a)(v := Candidate), spVote := insert (spTerm a v + 1, v, v) (spVote a)\<rparr>)"
| sp_vote: "v < n \<Longrightarrow> c < n \<Longrightarrow> spTerm a v \<le> spTerm a c \<Longrightarrow> \<forall>d. (spTerm a v, v, d) \<in> spVote a \<longrightarrow> d = c \<Longrightarrow>
    (spRole a c = Candidate \<Longrightarrow> spTerm a c = spTerm a v \<Longrightarrow> spLead a (spTerm a v) = [] \<Longrightarrow>
       fresher (spLog a c) (spLog a v)) \<Longrightarrow>
    spec_step n C a (a\<lparr>spVote := insert (spTerm a v, v, c) (spVote a)\<rparr>)"
| sp_elect: "c < n \<Longrightarrow> spRole a c = Candidate \<Longrightarrow> majority n {v. (spTerm a c, v, c) \<in> spVote a} \<Longrightarrow>
    spec_step n C a (a\<lparr>spRole := (spRole a)(c := Leader), spLead := (spLead a)(spTerm a c := spLog a c),
      spAck := insert (c, spTerm a c, length (spLog a c) - 1) (spAck a)\<rparr>)"
| sp_start: "p < n \<Longrightarrow> spRole a p = Leader \<Longrightarrow> entTerm e = spTerm a p \<Longrightarrow> entCommand e \<in> Some ` C \<Longrightarrow>
    spec_step n C a (a\<lparr>spLog := (spLog a)(p := spLog a p @ [e]),
      spLead := (spLead a)(spTerm a p := spLog a p @ [e]),
      spAck := insert (p, spTerm a p, length (spLog a p)) (spAck a)\<rparr>)"
| sp_accept: "v < n \<Longrightarrow> m < length (spLead a (spTerm a v)) \<Longrightarrow>
    spec_step n C a (a\<lparr>spLog := (spLog a)(v := adopt (spLog a v) (take (Suc m) (spLead a (spTerm a v)))),
      spAck := insert (v, spTerm a v, m) (spAck a)\<rparr>)"

section \<open>The invariant\<close>

definition acked :: "'c spec \<Rightarrow> nat \<Rightarrow> nat \<Rightarrow> int \<Rightarrow> bool" where
  "acked a v i T \<longleftrightarrow> (\<exists>m \<ge> i. (v, T, m) \<in> spAck a)"

text \<open>\<open>l\<close> has the log of the leader of term \<open>T\<close> up to index \<open>i\<close>.\<close>

definition has :: "'c spec \<Rightarrow> 'c Entry list \<Rightarrow> nat \<Rightarrow> int \<Rightarrow> bool" where
  "has a l i T \<longleftrightarrow> i < length (spLead a T) \<and> take (Suc i) l = take (Suc i) (spLead a T)"

text \<open>The entry at index \<open>i\<close> of that log is, or when it comes will be, of that leader's own term.\<close>

definition own_entry :: "'c spec \<Rightarrow> nat \<Rightarrow> int \<Rightarrow> bool" where
  "own_entry a i T \<longleftrightarrow> (i < length (spLead a T) \<longrightarrow> entTerm (spLead a T ! i) = T)"

text \<open>A majority has moved past term \<open>T\<close> without acknowledging the entry, so it will never be committed.\<close>

definition doomed :: "nat \<Rightarrow> 'c spec \<Rightarrow> nat \<Rightarrow> int \<Rightarrow> bool" where
  "doomed n a i T \<longleftrightarrow> (\<exists>Q. majority n Q \<and> (\<forall>u \<in> Q. T < spTerm a u \<and> \<not> acked a u i T))"

text \<open>Every entry of a log is there together with what precedes it in the log of the entry's term.\<close>

definition legit :: "'c spec \<Rightarrow> 'c Entry list \<Rightarrow> bool" where
  "legit a l \<longleftrightarrow> l \<noteq> [] \<and> l ! 0 = dummy \<and> sorted (map entTerm l) \<and>
     (\<forall>j. 0 < j \<and> j < length l \<longrightarrow> entCommand (l ! j) \<noteq> None \<and> take (Suc j) l = take (Suc j) (spLead a (entTerm (l ! j))))"

text \<open>What is committed in an earlier term is in \<open>l\<close>.\<close>

definition complete :: "nat \<Rightarrow> 'c spec \<Rightarrow> 'c Entry list \<Rightarrow> int \<Rightarrow> bool" where
  "complete n a l T' \<longleftrightarrow> (\<forall>i T. T < T' \<and> own_entry a i T \<longrightarrow> has a l i T \<or> doomed n a i T)"

definition votes_ok :: "nat \<Rightarrow> 'c spec \<Rightarrow> bool" where
  "votes_ok n a \<longleftrightarrow> (\<forall>T v c. (T, v, c) \<in> spVote a \<longrightarrow> v < n \<and> T \<le> spTerm a v \<and> T \<le> spTerm a c) \<and>
     (\<forall>T v c d. (T, v, c) \<in> spVote a \<longrightarrow> (T, v, d) \<in> spVote a \<longrightarrow> c = d)"

definition leads :: "nat \<Rightarrow> 'c spec \<Rightarrow> nat \<Rightarrow> int \<Rightarrow> bool" where
  "leads n a c T \<longleftrightarrow> c < n \<and> majority n {v. (T, v, c) \<in> spVote a}"

definition terms_ok :: "'c spec \<Rightarrow> bool" where
  "terms_ok a \<longleftrightarrow> (\<forall>v. 0 \<le> spTerm a v \<and> (spRole a v \<noteq> Follower \<longrightarrow> 0 < spTerm a v))"

definition leaders_ok :: "nat \<Rightarrow> 'c spec \<Rightarrow> bool" where
  "leaders_ok n a \<longleftrightarrow> terms_ok a \<and>
     (\<forall>T. spLead a T \<noteq> [] \<longrightarrow> 0 < T \<and> (\<exists>c. leads n a c T \<and> T \<le> spTerm a c \<and> (spTerm a c = T \<longrightarrow> spRole a c \<noteq> Candidate))) \<and>
     (\<forall>c < n. spRole a c = Leader \<longrightarrow> leads n a c (spTerm a c) \<and> spLead a (spTerm a c) = spLog a c \<and>
        (c, spTerm a c, length (spLog a c) - 1) \<in> spAck a)"

definition logs_ok :: "nat \<Rightarrow> 'c spec \<Rightarrow> bool" where
  "logs_ok n a \<longleftrightarrow>
     (\<forall>v < n. legit a (spLog a v) \<and> (\<forall>e \<in> set (spLog a v). entTerm e \<le> spTerm a v)) \<and>
     (\<forall>T. spLead a T \<noteq> [] \<longrightarrow> legit a (spLead a T) \<and> (\<forall>e \<in> set (spLead a T). entTerm e \<le> T))"

definition acks_ok :: "nat \<Rightarrow> 'c spec \<Rightarrow> bool" where
  "acks_ok n a \<longleftrightarrow> (\<forall>v T m. (v, T, m) \<in> spAck a \<longrightarrow> v < n \<and> T \<le> spTerm a v \<and> m < length (spLead a T))"

definition complete_ok :: "nat \<Rightarrow> 'c spec \<Rightarrow> bool" where
  "complete_ok n a \<longleftrightarrow> (\<forall>T. spLead a T \<noteq> [] \<longrightarrow> complete n a (spLead a T) T)"

text \<open>What a server has acknowledged it still has, unless it does not matter any more.\<close>

definition keeps_ok :: "nat \<Rightarrow> 'c spec \<Rightarrow> bool" where
  "keeps_ok n a \<longleftrightarrow> (\<forall>v i T. acked a v i T \<and> own_entry a i T \<longrightarrow> has a (spLog a v) i T \<or> doomed n a i T)"

text \<open>What a voter has acknowledged in earlier terms the candidate it votes for has, as long as its term has no leader.\<close>

definition ballots_ok :: "nat \<Rightarrow> 'c spec \<Rightarrow> bool" where
  "ballots_ok n a \<longleftrightarrow> (\<forall>v c i T. c < n \<and> spRole a c = Candidate \<and> spLead a (spTerm a c) = [] \<and> (spTerm a c, v, c) \<in> spVote a \<and> T < spTerm a c \<and>
     acked a v i T \<and> own_entry a i T \<longrightarrow> has a (spLog a c) i T \<or> doomed n a i T)"

definition spec_inv :: "nat \<Rightarrow> 'c spec \<Rightarrow> bool" where
  "spec_inv n a \<longleftrightarrow> votes_ok n a \<and> leaders_ok n a \<and> logs_ok n a \<and> acks_ok n a \<and> complete_ok n a \<and>
     keeps_ok n a \<and> ballots_ok n a"

section \<open>How the protocol evolves\<close>

text \<open>
  Terms and leader logs only grow, and a server only acknowledges in its present or a later
  term. So what the invariant says of the past stays true.
\<close>

definition evolves :: "'c spec \<Rightarrow> 'c spec \<Rightarrow> bool" where
  "evolves a a' \<longleftrightarrow> (\<forall>u. spTerm a u \<le> spTerm a' u) \<and> spAck a \<subseteq> spAck a' \<and> spVote a \<subseteq> spVote a' \<and>
     (\<forall>u T m. (u, T, m) \<in> spAck a' \<longrightarrow> (u, T, m) \<in> spAck a \<or> spTerm a u \<le> T) \<and> (\<forall>T. prefix (spLead a T) (spLead a' T))"

lemma prefix_take_eq: "prefix xs ys \<Longrightarrow> k \<le> length xs \<Longrightarrow> take k ys = take k xs"
  by (auto simp: prefix_def)

lemma evolves_has: "evolves a a' \<Longrightarrow> has a l i T \<Longrightarrow> has a' l i T"
  using prefix_take_eq [of "spLead a T" "spLead a' T" "Suc i"] prefix_length_le [of "spLead a T" "spLead a' T"]
  by (auto simp: evolves_def has_def)

lemma evolves_own: "evolves a a' \<Longrightarrow> own_entry a' i T \<Longrightarrow> own_entry a i T"
proof -
  assume e: "evolves a a'" and o: "own_entry a' i T"
  from e obtain zs where "spLead a' T = spLead a T @ zs" unfolding evolves_def by (meson prefixE)
  then show ?thesis using o by (auto simp: own_entry_def nth_append)
qed

lemma evolves_acked: "evolves a a' \<Longrightarrow> acked a v i T \<Longrightarrow> acked a' v i T"
  unfolding evolves_def acked_def by blast

lemma evolves_acked_back: "evolves a a' \<Longrightarrow> acked a' v i T \<Longrightarrow> T < spTerm a v \<Longrightarrow> acked a v i T"
proof -
  assume e: "evolves a a'" and k: "acked a' v i T" and t: "T < spTerm a v"
  from k obtain m where m: "i \<le> m" "(v, T, m) \<in> spAck a'" by (auto simp: acked_def)
  then have "(v, T, m) \<in> spAck a" using e t unfolding evolves_def by (meson not_less)
  then show ?thesis using m(1) by (auto simp: acked_def)
qed

lemma evolves_doomed: "evolves a a' \<Longrightarrow> doomed n a i T \<Longrightarrow> doomed n a' i T"
  unfolding doomed_def by (meson evolves_acked_back evolves_def order_less_le_trans)

lemma evolves_complete: "evolves a a' \<Longrightarrow> complete n a l T \<Longrightarrow> complete n a' l T"
  unfolding complete_def using evolves_has evolves_own evolves_doomed by blast

lemma has_longer: "has a l i T \<Longrightarrow> prefix l l' \<Longrightarrow> has a l' i T"
proof -
  assume h: "has a l i T" and p: "prefix l l'"
  then have "length (take (Suc i) l) = Suc i" by (simp add: has_def)
  then have "Suc i \<le> length l" by simp
  then show ?thesis using h prefix_take_eq [OF p] by (simp add: has_def)
qed

lemma complete_longer: "complete n a l T \<Longrightarrow> prefix l l' \<Longrightarrow> complete n a l' T"
  unfolding complete_def using has_longer by blast

lemma has_length: "has a l i T \<Longrightarrow> i < length l"
proof -
  assume "has a l i T"
  then have "length (take (Suc i) l) = Suc i" by (simp add: has_def)
  then show ?thesis by simp
qed

lemma has_nth: "has a l i T \<Longrightarrow> j \<le> i \<Longrightarrow> l ! j = spLead a T ! j"
  unfolding has_def by (metis le_imp_less_Suc nth_take)

lemma evolves_legit: "evolves a a' \<Longrightarrow> legit a l \<Longrightarrow> legit a' l"
proof -
  assume e: "evolves a a'" and l: "legit a l"
  have "entCommand (l ! j) \<noteq> None \<and> take (Suc j) l = take (Suc j) (spLead a' (entTerm (l ! j)))" if "0 < j" "j < length l" for j
  proof -
    have eq: "take (Suc j) l = take (Suc j) (spLead a (entTerm (l ! j)))" "entCommand (l ! j) \<noteq> None" using l that by (simp_all add: legit_def)
    then have "Suc j \<le> length (spLead a (entTerm (l ! j)))" using that by (metis Suc_leI length_take min.absorb_iff2)
    moreover have "prefix (spLead a (entTerm (l ! j))) (spLead a' (entTerm (l ! j)))" using e by (simp add: evolves_def)
    ultimately show ?thesis using eq by (simp add: prefix_take_eq)
  qed
  then show ?thesis using l by (simp add: legit_def)
qed

lemma doomed_cong: "spTerm a' = spTerm a \<Longrightarrow> spAck a' = spAck a \<Longrightarrow> doomed n a' i T = doomed n a i T"
  by (simp add: doomed_def acked_def)

section \<open>Consequences of the invariant\<close>

lemma leads_unique:
  assumes "votes_ok n a" "leads n a c T" "leads n a d T"
  shows "c = d"
proof (rule peers.at_most_one_winner [where voted = "\<lambda>v c. (T, v, c) \<in> spVote a"])
  show "majority n {v. (T, v, c) \<in> spVote a}" "majority n {v. (T, v, d) \<in> spVote a}"
    using assms by (simp_all add: leads_def)
qed (use assms(1) in \<open>auto simp: votes_ok_def\<close>)

text \<open>Log matching: two logs with an entry of the same term at the same index agree up to there.\<close>

lemma legit_match:
  assumes "legit a l" "legit a l'" "j < length l" "j < length l'" "entTerm (l ! j) = entTerm (l' ! j)"
  shows "take (Suc j) l = take (Suc j) l'"
proof (cases j)
  case 0
  then show ?thesis using assms by (simp add: legit_def take_Suc hd_conv_nth)
next
  case (Suc k)
  then show ?thesis using assms unfolding legit_def by (metis zero_less_Suc)
qed

text \<open>A prefix of a leader's log that ends in an entry of a later term contains what the leader has of earlier terms.\<close>

lemma has_before:
  assumes "has a l i T" "own_entry a i T" "sorted (map entTerm l)" "j < length l" "T < entTerm (l ! j)"
  shows "i < j"
proof (rule ccontr)
  assume "\<not> i < j"
  then have "j \<le> i" by simp
  then have "entTerm (l ! j) \<le> entTerm (l ! i)"
    using assms(3) has_length [OF assms(1)] by (simp add: sorted_iff_nth_mono)
  moreover have "entTerm (l ! i) = T" using assms(1,2) has_nth [OF assms(1), of i] by (simp add: has_def own_entry_def)
  ultimately show False using assms(5) by simp
qed

lemma has_take: "has a l i T \<Longrightarrow> i < k \<Longrightarrow> take k l' = take k l \<Longrightarrow> has a l' i T"
  unfolding has_def by (metis Suc_leI min.absorb1 take_take)

lemma spec_invD:
  assumes "spec_inv n a"
  shows "votes_ok n a" "leaders_ok n a" "logs_ok n a" "acks_ok n a" "complete_ok n a" "keeps_ok n a" "ballots_ok n a"
  using assms by (simp_all add: spec_inv_def)

lemma legit_last:
  assumes "legit a l" "entTerm (last l) \<noteq> - 1"
  shows "l = take (length l) (spLead a (entTerm (last l)))"
proof -
  have l: "l \<noteq> []" using assms(1) by (simp add: legit_def)
  then have e: "last l = l ! (length l - 1)" "Suc (length l - 1) = length l" by (simp_all add: last_conv_nth)
  then have "0 < length l - 1" using assms by (cases "length l - 1") (auto simp: legit_def)
  then have "take (length l) l = take (length l) (spLead a (entTerm (last l)))"
    using assms(1) l e unfolding legit_def by (metis diff_less length_greater_0_conv zero_less_one)
  then show ?thesis by simp
qed

text \<open>The election restriction: a log at least as fresh as one that has an entry has it too, unless the entry is doomed.\<close>

lemma fresher_has:
  assumes inv: "logs_ok n a" "complete_ok n a" and n: "legit a l" "legit a l'"
    and f: "fresher l l'" and h: "has a l' i T" "own_entry a i T" and T: "T \<noteq> - 1"
  shows "has a l i T \<or> doomed n a i T"
proof -
  let ?t = "entTerm (last l)" and ?t' = "entTerm (last l')"
  have ne: "l \<noteq> []" "l' \<noteq> []" "sorted (map entTerm l)" "sorted (map entTerm l')" using n by (auto simp: legit_def)
  have i: "i < length l'" by (rule has_length [OF h(1)])
  have "entTerm (l' ! i) = T" using h has_nth [OF h(1), of i] by (simp add: has_def own_entry_def)
  then have Tt': "T \<le> ?t'" using ne i by (auto simp: last_conv_nth sorted_iff_nth_mono)
  have "- 1 \<le> T"
    using \<open>entTerm (l' ! i) = T\<close> n(2) ne i sorted_nth_mono [OF ne(4), of 0 i] by (auto simp: legit_def)
  then have t': "?t' \<noteq> - 1" using Tt' T by linarith
  from f consider "?t = ?t'" "length l' \<le> length l" | "?t' < ?t" by (auto simp: fresher_def)
  then show ?thesis
  proof cases
    case 1
    have "l = take (length l) (spLead a ?t)" by (rule legit_last) (use n 1 t' in auto)
    moreover have "l' = take (length l') (spLead a ?t)" using legit_last [OF n(2) t'] 1 by simp
    ultimately have "take (length l') l = take (length l') l'" using 1(2) by (metis min.absorb1 take_take take_all_iff order_refl)
    then show ?thesis using has_take [OF h(1) i] by blast
  next
    case 2
    then have t: "?t \<noteq> - 1" using Tt' \<open>- 1 \<le> T\<close> by linarith
    have eq: "l = take (length l) (spLead a ?t)" by (rule legit_last [OF n(1) t])
    then have L: "spLead a ?t \<noteq> []" using ne(1) by auto
    from inv(2) L have "complete n a (spLead a ?t) ?t" by (simp add: complete_ok_def)
    then consider "has a (spLead a ?t) i T" | "doomed n a i T" using h(2) Tt' 2 unfolding complete_def by (meson order_le_less_trans)
    then show ?thesis
    proof cases
      case 1
      let ?j = "length l - 1"
      have len: "length l \<le> length (spLead a ?t)" using eq by (metis length_take min.cobounded1)
      have "l ! ?j = spLead a ?t ! ?j"
        using arg_cong [OF eq, where f = "\<lambda>xs. xs ! ?j"] ne(1) by simp
      then have j2: "entTerm (spLead a ?t ! ?j) = ?t" using last_conv_nth [OF ne(1)] by simp
      have "0 < length l" using ne(1) by simp
      then have j1: "?j < length (spLead a ?t)" using len by linarith
      have "sorted (map entTerm (spLead a ?t))" using inv(1) L by (auto simp: logs_ok_def legit_def)
      from has_before [OF 1 h(2) this j1] have "i < ?j" using j2 Tt' 2 by simp
      then have "has a l i T" by (intro has_take [OF 1, of "length l"]) (use eq in auto)
      then show ?thesis ..
    qed simp
  qed
qed

section \<open>Every step keeps the invariant\<close>

text \<open>What remains to be shown of a step that changes neither logs nor acknowledgements.\<close>

lemma spec_inv_frame:
  assumes inv: "spec_inv n a" and e: "evolves a a'" and same: "spLog a' = spLog a" "spLead a' = spLead a" "spAck a' = spAck a"
    and new: "votes_ok n a'" "leaders_ok n a'" "ballots_ok n a'"
  shows "spec_inv n a'"
proof -
  note I = spec_invD [OF inv]
  have t: "spTerm a v \<le> spTerm a' v" for v using e by (simp add: evolves_def)
  have k: "acked a' = acked a" and h: "has a' = has a" and o: "own_entry a' = own_entry a"
    by (auto simp: fun_eq_iff acked_def has_def own_entry_def same)
  have l: "legit a' = legit a" by (auto simp: fun_eq_iff legit_def same)
  have "logs_ok n a'" using I(3) t unfolding logs_ok_def l same by (meson order_trans)
  moreover have "acks_ok n a'" using I(4) t unfolding acks_ok_def same by (meson order_trans)
  moreover have "complete_ok n a'" using I(5) evolves_complete [OF e] unfolding complete_ok_def same by blast
  moreover have "keeps_ok n a'" using I(6) evolves_doomed [OF e] unfolding keeps_ok_def k h o same by blast
  ultimately show ?thesis using new by (simp add: spec_inv_def)
qed

lemma leads_mono:
  assumes "leads n a c T" "spVote a \<subseteq> spVote a'" "votes_ok n a'"
  shows "leads n a' c T"
  using assms unfolding leads_def votes_ok_def by (auto elim!: majority_mono)

lemma leaders_ok_frame:
  assumes inv: "spec_inv n a" and e: "evolves a a'" and v: "votes_ok n a'" and lead: "spLead a' = spLead a" and pos: "terms_ok a'"
    and role: "\<And>c. spTerm a' c = spTerm a c \<Longrightarrow> spRole a' c = spRole a c \<or> spRole a' c = Follower"
      "\<And>c. spRole a' c = Leader \<Longrightarrow> spTerm a' c = spTerm a c \<and> spLog a' c = spLog a c"
  shows "leaders_ok n a'"
proof -
  have m: "leads n a c T \<Longrightarrow> leads n a' c T" for c T
    by (rule leads_mono [OF _ _ v]) (use e in \<open>auto simp: evolves_def\<close>)
  have t: "spTerm a v \<le> spTerm a' v" for v using e by (simp add: evolves_def)
  have "\<exists>c. leads n a' c T \<and> T \<le> spTerm a' c \<and> (spTerm a' c = T \<longrightarrow> spRole a' c \<noteq> Candidate)" if L: "spLead a T \<noteq> []" for T
  proof -
    from spec_invD(2) [OF inv] L obtain c where c: "leads n a c T" "T \<le> spTerm a c" "spTerm a c = T \<longrightarrow> spRole a c \<noteq> Candidate"
      unfolding leaders_ok_def by blast
    have "spRole a' c \<noteq> Candidate" if h: "spTerm a' c = T"
      using c h t [of c] role(1) [of c] by auto
    then show ?thesis using c m t [of c] by (meson order_trans)
  qed
  moreover have "0 < T" if "spLead a T \<noteq> []" for T using spec_invD(2) [OF inv] that unfolding leaders_ok_def by blast
  moreover have "leads n a' c (spTerm a' c) \<and> spLead a (spTerm a' c) = spLog a' c \<and> (c, spTerm a' c, length (spLog a' c) - 1) \<in> spAck a'"
    if h: "c < n" "spRole a' c = Leader" for c
  proof -
    have same: "spTerm a' c = spTerm a c" "spLog a' c = spLog a c" using role(2) [OF h(2)] by auto
    then have "spRole a c = Leader" using role(1) [of c] h(2) by auto
    moreover have "spAck a \<subseteq> spAck a'" using e by (simp add: evolves_def)
    ultimately show ?thesis using spec_invD(2) [OF inv] h(1) m same unfolding leaders_ok_def by auto
  qed
  ultimately show ?thesis using pos unfolding leaders_ok_def lead by blast
qed

lemma inv_term:
  assumes inv: "spec_inv n a" and v: "v < n" "spTerm a v \<le> t" "spTerm a v = t \<Longrightarrow> r = spRole a v \<or> r = Follower"
    "r \<noteq> Follower \<Longrightarrow> spTerm a v = t"
    and a': "a' = a\<lparr>spTerm := (spTerm a)(v := t), spRole := (spRole a)(v := r)\<rparr>"
  shows "spec_inv n a' \<and> evolves a a'"
proof -
  note I = spec_invD [OF inv]
  have e: "evolves a a'" using v by (auto simp: evolves_def a')
  have vo: "votes_ok n a'" using I(1) v unfolding votes_ok_def by (auto simp: a' intro: order_trans)
  have "terms_ok a" using I(2) by (simp add: leaders_ok_def)
  then have pos: "terms_ok a'" using v unfolding terms_ok_def by (auto simp: a' intro: order_trans)
  have lo: "leaders_ok n a'" by (rule leaders_ok_frame [OF inv e vo _ pos]) (use v in \<open>auto simp: a'\<close>)
  have cand: "spRole a c = Candidate \<and> spTerm a' c = spTerm a c" if "spRole a' c = Candidate" for c
    using that v by (cases "c = v") (auto simp: a')
  have "ballots_ok n a'"
    unfolding ballots_ok_def
  proof (intro allI impI, elim conjE)
    fix u c i T
    assume h: "c < n" "spRole a' c = Candidate" "(spTerm a' c, u, c) \<in> spVote a'" "T < spTerm a' c" "acked a' u i T" "own_entry a' i T"
      "spLead a' (spTerm a' c) = []"
    then have "has a (spLog a c) i T \<or> doomed n a i T"
      using I(7) cand [OF h(2)] unfolding ballots_ok_def by (simp add: a' acked_def own_entry_def)
    then show "has a' (spLog a' c) i T \<or> doomed n a' i T"
      using evolves_has [OF e] evolves_doomed [OF e] by (auto simp: a')
  qed
  then have "spec_inv n a'" by (intro spec_inv_frame [OF inv e _ _ _ vo lo]) (simp_all add: a')
  then show ?thesis using e ..
qed

lemma inv_run:
  assumes inv: "spec_inv n a" and v: "v < n"
    and a': "a' = a\<lparr>spTerm := (spTerm a)(v := spTerm a v + 1), spRole := (spRole a)(v := Candidate),
      spVote := insert (spTerm a v + 1, v, v) (spVote a)\<rparr>"
  shows "spec_inv n a' \<and> evolves a a'"
proof -
  note I = spec_invD [OF inv]
  have e: "evolves a a'" by (auto simp: evolves_def a')
  have old: "T \<le> spTerm a u \<and> T \<le> spTerm a c" if "(T, u, c) \<in> spVote a" for T u c
    using I(1) that by (auto simp: votes_ok_def)
  have vo: "votes_ok n a'" using I(1) v old unfolding votes_ok_def by (fastforce simp: a')
  have "terms_ok a" using I(2) by (simp add: leaders_ok_def)
  then have pos: "terms_ok a'" unfolding terms_ok_def by (auto simp: a' add_pos_nonneg add_nonneg_pos)
  have lo: "leaders_ok n a'" by (rule leaders_ok_frame [OF inv e vo _ pos]) (auto simp: a' split: if_splits)
  have "ballots_ok n a'"
    unfolding ballots_ok_def
  proof (intro allI impI, elim conjE)
    fix u c i T
    assume h: "c < n" "spRole a' c = Candidate" "(spTerm a' c, u, c) \<in> spVote a'" "T < spTerm a' c" "acked a' u i T" "own_entry a' i T"
      "spLead a' (spTerm a' c) = []"
    then have k: "acked a u i T" "own_entry a i T" by (auto simp: a' acked_def own_entry_def)
    have "has a (spLog a c) i T \<or> doomed n a i T"
    proof (cases "c = v")
      case True
      then have "u = v" using h(3) old [of "spTerm a v + 1" u v] by (auto simp: a')
      then show ?thesis using I(6) k True unfolding keeps_ok_def by blast
    next
      case False
      then show ?thesis using I(7) h k unfolding ballots_ok_def by (auto simp: a')
    qed
    then show "has a' (spLog a' c) i T \<or> doomed n a' i T"
      using evolves_has [OF e] evolves_doomed [OF e] by (auto simp: a')
  qed
  then have "spec_inv n a'" by (intro spec_inv_frame [OF inv e _ _ _ vo lo]) (simp_all add: a')
  then show ?thesis using e ..
qed

lemma acked_term: "spec_inv n a \<Longrightarrow> acked a v i T \<Longrightarrow> v < n \<and> T \<le> spTerm a v \<and> i < length (spLead a T) \<and> 0 < T"
proof -
  assume inv: "spec_inv n a" and k: "acked a v i T"
  then obtain m where m: "i \<le> m" "(v, T, m) \<in> spAck a" by (auto simp: acked_def)
  then have "v < n" "T \<le> spTerm a v" "m < length (spLead a T)" using spec_invD(4) [OF inv] by (auto simp: acks_ok_def)
  moreover from this have "spLead a T \<noteq> []" by auto
  then have "0 < T" using spec_invD(2) [OF inv] unfolding leaders_ok_def by blast
  ultimately show ?thesis using m by simp
qed

lemma inv_vote:
  assumes inv: "spec_inv n a" and v: "v < n" "c < n" "spTerm a v \<le> spTerm a c" "\<forall>d. (spTerm a v, v, d) \<in> spVote a \<longrightarrow> d = c"
    and f: "spRole a c = Candidate \<Longrightarrow> spTerm a c = spTerm a v \<Longrightarrow> spLead a (spTerm a v) = [] \<Longrightarrow> fresher (spLog a c) (spLog a v)"
    and a': "a' = a\<lparr>spVote := insert (spTerm a v, v, c) (spVote a)\<rparr>"
  shows "spec_inv n a' \<and> evolves a a'"
proof -
  note I = spec_invD [OF inv]
  have e: "evolves a a'" by (auto simp: evolves_def a')
  have vo: "votes_ok n a'" using I(1) v unfolding votes_ok_def by (auto simp: a')
  have "terms_ok a" using I(2) by (simp add: leaders_ok_def)
  then have pos: "terms_ok a'" unfolding terms_ok_def by (simp add: a')
  have lo: "leaders_ok n a'" by (rule leaders_ok_frame [OF inv e vo _ pos]) (auto simp: a')
  have lg: "legit a (spLog a v)" "legit a (spLog a c)" using I(3) v by (auto simp: logs_ok_def)
  have "ballots_ok n a'"
    unfolding ballots_ok_def
  proof (intro allI impI, elim conjE)
    fix u d i T
    assume h: "d < n" "spRole a' d = Candidate" "(spTerm a' d, u, d) \<in> spVote a'" "T < spTerm a' d" "acked a' u i T" "own_entry a' i T"
      "spLead a' (spTerm a' d) = []"
    then have k: "acked a u i T" "own_entry a i T" "spRole a d = Candidate" "T < spTerm a d" "spLead a (spTerm a d) = []"
      by (auto simp: a' acked_def own_entry_def)
    have "has a (spLog a d) i T \<or> doomed n a i T"
    proof (cases "(spTerm a d, u, d) \<in> spVote a")
      case True
      then show ?thesis using I(7) h(1) k unfolding ballots_ok_def by blast
    next
      case False
      then have d: "d = c" "u = v" "spTerm a c = spTerm a v" using h(3) by (auto simp: a')
      have "has a (spLog a v) i T \<or> doomed n a i T" using I(6) k d unfolding keeps_ok_def by blast
      then show ?thesis
        using fresher_has [OF I(3,5) lg(2,1) _ _ k(2)] f k(3,5) d acked_term [OF inv k(1)] by auto
    qed
    then show "has a' (spLog a' d) i T \<or> doomed n a' i T"
      using evolves_has [OF e] evolves_doomed [OF e] by (auto simp: a')
  qed
  then have "spec_inv n a'" by (intro spec_inv_frame [OF inv e _ _ _ vo lo]) (simp_all add: a')
  then show ?thesis using e ..
qed

text \<open>No one else can be elected in a term that has a leader's log.\<close>

lemma elect_fresh:
  assumes inv: "spec_inv n a" and c: "c < n" "spRole a c = Candidate" "leads n a c (spTerm a c)"
  shows "spLead a (spTerm a c) = []"
proof (rule ccontr)
  assume "spLead a (spTerm a c) \<noteq> []"
  then obtain d where d: "leads n a d (spTerm a c)" "spTerm a d = spTerm a c \<longrightarrow> spRole a d \<noteq> Candidate"
    using spec_invD(2) [OF inv] unfolding leaders_ok_def by blast
  have "d = c" by (rule leads_unique [OF spec_invD(1) [OF inv] d(1) c(3)])
  then show False using d(2) c(2) by simp
qed

lemma ballots_frame:
  assumes inv: "spec_inv n a" and e: "evolves a a'" and same: "spVote a' = spVote a" "spTerm a' = spTerm a"
    and cand: "\<And>c. spRole a' c = Candidate \<Longrightarrow> spLead a' (spTerm a c) = [] \<Longrightarrow> spRole a c = Candidate \<and> spLog a' c = spLog a c"
  shows "ballots_ok n a'"
  unfolding ballots_ok_def
proof (intro allI impI, elim conjE)
  note I = spec_invD [OF inv]
  fix u d i T
  assume h: "d < n" "spRole a' d = Candidate" "(spTerm a' d, u, d) \<in> spVote a'" "T < spTerm a' d" "acked a' u i T" "own_entry a' i T"
    "spLead a' (spTerm a' d) = []"
  have c: "spRole a d = Candidate" "spLog a' d = spLog a d" using cand [OF h(2)] h(7) by (auto simp: same)
  have "prefix (spLead a (spTerm a d)) (spLead a' (spTerm a d))" using e by (simp add: evolves_def)
  then have "spLead a (spTerm a d) = []" using h(7) by (simp add: same)
  moreover have "spTerm a d \<le> spTerm a u" using I(1) h(3) by (auto simp: votes_ok_def same)
  then have "T < spTerm a u" using h(4) by (simp add: same)
  then have "acked a u i T" using evolves_acked_back [OF e h(5)] by simp
  ultimately have "has a (spLog a d) i T \<or> doomed n a i T"
    using I(7) h c(1) evolves_own [OF e h(6)] unfolding ballots_ok_def by (simp add: same)
  then show "has a' (spLog a' d) i T \<or> doomed n a' i T"
    using evolves_has [OF e] evolves_doomed [OF e] c(2) by auto
qed

lemma keeps_frame:
  assumes inv: "spec_inv n a" and e: "evolves a a'"
    and old: "\<And>v i T. acked a v i T \<Longrightarrow> own_entry a i T \<Longrightarrow> has a (spLog a v) i T \<Longrightarrow> has a' (spLog a' v) i T \<or> doomed n a' i T"
    and new: "\<And>v i T. acked a' v i T \<Longrightarrow> \<not> acked a v i T \<Longrightarrow> has a' (spLog a' v) i T"
  shows "keeps_ok n a'"
  unfolding keeps_ok_def
proof (intro allI impI, elim conjE)
  fix v i T assume h: "acked a' v i T" "own_entry a' i T"
  show "has a' (spLog a' v) i T \<or> doomed n a' i T"
  proof (cases "acked a v i T")
    case True
    then have "has a (spLog a v) i T \<or> doomed n a i T"
      using spec_invD(6) [OF inv] evolves_own [OF e h(2)] unfolding keeps_ok_def by blast
    then show ?thesis using old [OF True evolves_own [OF e h(2)]] evolves_doomed [OF e] by blast
  next
    case False
    then show ?thesis using new [OF h(1)] by blast
  qed
qed

text \<open>The log of a newly elected leader has what was committed before: a majority voted for it.\<close>

lemma elect_complete:
  assumes inv: "spec_inv n a" and c: "c < n" "spRole a c = Candidate" "majority n {v. (spTerm a c, v, c) \<in> spVote a}"
  shows "complete n a (spLog a c) (spTerm a c)"
  unfolding complete_def
proof (intro allI impI, elim conjE)
  note I = spec_invD [OF inv]
  let ?Q = "{v. (spTerm a c, v, c) \<in> spVote a}"
  fix i T assume h: "T < spTerm a c" "own_entry a i T"
  show "has a (spLog a c) i T \<or> doomed n a i T"
  proof (cases "\<exists>v \<in> ?Q. acked a v i T")
    case True
    moreover have "spLead a (spTerm a c) = []" by (rule elect_fresh [OF inv c(1,2)]) (use c in \<open>simp add: leads_def\<close>)
    ultimately show ?thesis using I(7) c h unfolding ballots_ok_def by blast
  next
    case False
    have "T < spTerm a u" if "u \<in> ?Q" for u using I(1) that h(1) unfolding votes_ok_def by force
    then show ?thesis using False c(3) unfolding doomed_def by blast
  qed
qed

lemma elect_leaders:
  assumes inv: "spec_inv n a" and c: "c < n" "spRole a c = Candidate" "leads n a c (spTerm a c)"
    and a': "spTerm a' = spTerm a" "spRole a' = (spRole a)(c := Leader)" "spLog a' = spLog a" "spVote a' = spVote a"
      "spLead a' = (spLead a)(spTerm a c := spLog a c)" "spAck a' = insert (c, spTerm a c, length (spLog a c) - 1) (spAck a)"
  shows "leaders_ok n a'"
  unfolding leaders_ok_def
proof (intro conjI allI impI)
  note I = spec_invD [OF inv]
  let ?T = "spTerm a c"
  have pos: "0 < ?T" using I(2) c(2) by (auto simp: leaders_ok_def terms_ok_def)
  have m: "leads n a' d T = leads n a d T" for d T by (simp add: leads_def a')
  show "terms_ok a'" using I(2) pos by (simp add: leaders_ok_def terms_ok_def a')
  {
    fix T assume L: "spLead a' T \<noteq> []"
    show "0 < T" using L pos I(2) by (cases "T = ?T") (auto simp: a' leaders_ok_def)
    show "\<exists>d. leads n a' d T \<and> T \<le> spTerm a' d \<and> (spTerm a' d = T \<longrightarrow> spRole a' d \<noteq> Candidate)"
    proof (cases "T = ?T")
      case False
      then obtain d where "leads n a d T" "T \<le> spTerm a d" "spTerm a d = T \<longrightarrow> spRole a d \<noteq> Candidate"
        using I(2) L unfolding leaders_ok_def by (auto simp: a')
      then show ?thesis by (intro exI [of _ d]) (simp add: m a')
    qed (use c in \<open>auto simp: m a' intro!: exI [of _ c]\<close>)
  next
    fix d assume d: "d < n" "spRole a' d = Leader"
    show "leads n a' d (spTerm a' d)" using I(2) d c by (cases "d = c") (auto simp: m leaders_ok_def a')
    have "d \<noteq> c \<Longrightarrow> spTerm a d \<noteq> ?T"
      using I(2) d c leads_unique [OF I(1), of d ?T c] by (auto simp: leaders_ok_def a')
    then show "spLead a' (spTerm a' d) = spLog a' d"
      using I(2) d by (cases "d = c") (auto simp: leaders_ok_def a')
    show "(d, spTerm a' d, length (spLog a' d) - 1) \<in> spAck a'"
      using I(2) d by (cases "d = c") (auto simp: leaders_ok_def a')
  }
qed

lemma inv_elect:
  assumes inv: "spec_inv n a" and c: "c < n" "spRole a c = Candidate" "majority n {v. (spTerm a c, v, c) \<in> spVote a}"
    and a': "a' = a\<lparr>spRole := (spRole a)(c := Leader), spLead := (spLead a)(spTerm a c := spLog a c),
      spAck := insert (c, spTerm a c, length (spLog a c) - 1) (spAck a)\<rparr>"
  shows "spec_inv n a' \<and> evolves a a'"
proof -
  note I = spec_invD [OF inv]
  let ?T = "spTerm a c"
  have ld: "leads n a c ?T" using c by (simp add: leads_def)
  have fresh: "spLead a ?T = []" by (rule elect_fresh [OF inv c(1,2) ld])
  have e: "evolves a a'" using fresh by (auto simp: evolves_def a')
  have lc: "legit a (spLog a c)" "\<forall>e \<in> set (spLog a c). entTerm e \<le> ?T" using I(3) c(1) by (auto simp: logs_ok_def)
  then have len: "i \<le> length (spLog a c) - Suc 0 \<longleftrightarrow> i < length (spLog a c)" for i by (cases "spLog a c") (auto simp: legit_def)
  have "votes_ok n a'" using I(1) by (simp add: votes_ok_def a')
  moreover have "leaders_ok n a'" by (rule elect_leaders [OF inv c(1,2) ld]) (simp_all add: a')
  moreover have "logs_ok n a'"
    unfolding logs_ok_def using I(3) lc evolves_legit [OF e] by (auto simp: a' logs_ok_def)
  moreover have "acks_ok n a'" using I(4) fresh c(1) len [of "length (spLog a c) - Suc 0"] by (fastforce simp: acks_ok_def a')
  moreover have "complete_ok n a'"
    unfolding complete_ok_def using I(5) elect_complete [OF inv c] evolves_complete [OF e] by (auto simp: a' complete_ok_def)
  moreover have "keeps_ok n a'"
    by (rule keeps_frame [OF inv e]) (use evolves_has [OF e] in \<open>auto simp: a' acked_def has_def len\<close>)
  moreover have "ballots_ok n a'" by (rule ballots_frame [OF inv e]) (auto simp: a' split: if_splits)
  ultimately show ?thesis using e by (simp add: spec_inv_def)
qed

lemma legit_snoc:
  assumes "legit a l" "\<forall>e' \<in> set l. entTerm e' \<le> entTerm e" "entCommand e \<noteq> None" "spLead a (entTerm e) = l @ [e]"
  shows "legit a (l @ [e])"
  using assms unfolding legit_def by (auto simp: nth_append sorted_append less_Suc_eq)

lemma inv_start:
  assumes inv: "spec_inv n a" and p: "p < n" "spRole a p = Leader" "entTerm e = spTerm a p" "entCommand e \<noteq> None"
    and a': "a' = a\<lparr>spLog := (spLog a)(p := spLog a p @ [e]), spLead := (spLead a)(spTerm a p := spLog a p @ [e]),
      spAck := insert (p, spTerm a p, length (spLog a p)) (spAck a)\<rparr>"
  shows "spec_inv n a' \<and> evolves a a'"
proof -
  note I = spec_invD [OF inv]
  let ?T = "spTerm a p" and ?l = "spLog a p @ [e]"
  have L: "spLead a ?T = spLog a p" and ld: "leads n a p ?T" using I(2) p by (auto simp: leaders_ok_def)
  have e: "evolves a a'" using L by (auto simp: evolves_def a')
  have lp: "legit a (spLog a p)" "\<forall>e \<in> set (spLog a p). entTerm e \<le> ?T" using I(3) p(1) by (auto simp: logs_ok_def)
  then have ne: "spLead a ?T \<noteq> []" using L by (auto simp: legit_def)
  have lp': "legit a' ?l" by (rule legit_snoc [OF evolves_legit [OF e lp(1)]]) (use lp p(3,4) in \<open>auto simp: a'\<close>)
  have m: "leads n a' d T = leads n a d T" for d T by (simp add: leads_def a')
  have "votes_ok n a'" using I(1) by (simp add: votes_ok_def a')
  moreover have "leaders_ok n a'"
    unfolding leaders_ok_def m using I(2) p ne leads_unique [OF I(1) _ ld] by (auto simp: a' leaders_ok_def terms_ok_def)
  moreover have "logs_ok n a'"
    unfolding logs_ok_def using I(3) lp lp' p(3) evolves_legit [OF e] by (auto simp: a' logs_ok_def)
  moreover have "acks_ok n a'" using I(4) p(1) L unfolding acks_ok_def by (fastforce simp: a')
  moreover have "complete_ok n a'"
    unfolding complete_ok_def
  proof (intro allI impI)
    fix T assume "spLead a' T \<noteq> []"
    then have "complete n a (spLead a T) T" using I(5) ne by (cases "T = ?T") (auto simp: a' complete_ok_def)
    then have "complete n a' (spLead a T) T" by (rule evolves_complete [OF e])
    then show "complete n a' (spLead a' T) T" by (rule complete_longer) (use e in \<open>auto simp: evolves_def\<close>)
  qed
  moreover have "keeps_ok n a'"
  proof (rule keeps_frame [OF inv e])
    fix v i T assume "has a (spLog a v) i T"
    from evolves_has [OF e has_longer [OF this]] show "has a' (spLog a' v) i T \<or> doomed n a' i T"
      by (auto simp: a')
  next
    fix v i T assume "acked a' v i T" "\<not> acked a v i T"
    then have "v = p \<and> T = ?T \<and> i \<le> length (spLog a p)" by (auto simp: acked_def a')
    then show "has a' (spLog a' v) i T" by (auto simp: has_def a')
  qed
  moreover have "ballots_ok n a'" by (rule ballots_frame [OF inv e]) (use p in \<open>auto simp: a'\<close>)
  ultimately show ?thesis using e by (simp add: spec_inv_def)
qed

section \<open>Adopting the log of the leader\<close>

lemma legit_take: "legit a l \<Longrightarrow> legit a (take (Suc m) l)"
proof -
  assume l: "legit a l"
  have "entCommand (take (Suc m) l ! j) \<noteq> None \<and> take (Suc j) (take (Suc m) l) = take (Suc j) (spLead a (entTerm (take (Suc m) l ! j)))"
    if "0 < j" "j < length (take (Suc m) l)" for j
    using l that by (simp add: legit_def min_def split: if_splits)
  then show ?thesis using l by (simp add: legit_def take_map [symmetric] sorted_wrt_take)
qed

lemma adopt_cases: "adopt l f = l \<and> take (length f) l = f \<or> adopt l f = f"
  by (simp add: adopt_def)

lemma adopt_has: "has a l i T \<Longrightarrow> has a f i T \<Longrightarrow> has a (adopt l f) i T"
  by (simp add: adopt_def)

lemma adopt_take:
  "m < length f \<Longrightarrow> adopt l (take (Suc m) f) = (if take (Suc m) l = take (Suc m) f then l else take (Suc m) f)"
  by (simp add: adopt_def min.absorb2 Suc_le_eq)

lemma adopt_agree: "m < length f \<Longrightarrow> take (Suc m) (adopt l (take (Suc m) f)) = take (Suc m) f"
  by (simp add: adopt_take)

text \<open>If a log and the leader's log agree beyond what is adopted, nothing is lost.\<close>

lemma adopt_keeps:
  assumes "take (Suc i) l = take (Suc i) f" "i < length f" "m < length f"
  shows "take (Suc i) (adopt l (take (Suc m) f)) = take (Suc i) f"
proof (cases "m \<le> i")
  case True
  then have "take (Suc m) l = take (Suc m) f" using arg_cong [OF assms(1), of "take (Suc m)"] by (simp add: min_def)
  then have "adopt l (take (Suc m) f) = l" using assms(3) by (simp add: adopt_take)
  then show ?thesis using assms(1) by simp
next
  case False
  then show ?thesis using arg_cong [OF adopt_agree [OF assms(3), of l], of "take (Suc i)"] by (simp add: min_def split: if_splits)
qed

lemma accept_log:
  assumes inv: "spec_inv n a" and v: "v < n" "m < length (spLead a (spTerm a v))"
  shows "legit a (adopt (spLog a v) (take (Suc m) (spLead a (spTerm a v))))"
    and "\<forall>e \<in> set (adopt (spLog a v) (take (Suc m) (spLead a (spTerm a v)))). entTerm e \<le> spTerm a v"
    and "spRole a v = Leader \<Longrightarrow> adopt (spLog a v) (take (Suc m) (spLead a (spTerm a v))) = spLog a v"
proof -
  note I = spec_invD [OF inv]
  let ?f = "spLead a (spTerm a v)"
  have ne: "?f \<noteq> []" using v by auto
  then have f: "legit a ?f" "\<forall>e \<in> set ?f. entTerm e \<le> spTerm a v" using I(3) by (auto simp: logs_ok_def)
  have l: "legit a (spLog a v)" "\<forall>e \<in> set (spLog a v). entTerm e \<le> spTerm a v" using I(3) v by (auto simp: logs_ok_def)
  show "legit a (adopt (spLog a v) (take (Suc m) ?f))" using l(1) legit_take [OF f(1)] by (simp add: adopt_def)
  show "\<forall>e \<in> set (adopt (spLog a v) (take (Suc m) ?f)). entTerm e \<le> spTerm a v"
    using f(2) l(2) by (auto simp: adopt_def dest: in_set_takeD)
  assume "spRole a v = Leader"
  then have "?f = spLog a v" using I(2) v(1) by (auto simp: leaders_ok_def)
  then show "adopt (spLog a v) (take (Suc m) ?f) = spLog a v" using v(2) by (simp add: adopt_def min_def)
qed

text \<open>An entry that the server had acknowledged survives: the leader of its term has it as well.\<close>

lemma accept_keeps:
  assumes inv: "spec_inv n a" and v: "v < n" "m < length (spLead a (spTerm a v))"
    and h: "acked a v i T" "own_entry a i T" "has a (spLog a v) i T"
  shows "has a (adopt (spLog a v) (take (Suc m) (spLead a (spTerm a v)))) i T \<or> doomed n a i T"
proof -
  note I = spec_invD [OF inv]
  let ?f = "spLead a (spTerm a v)"
  have T: "T \<le> spTerm a v" using acked_term [OF inv h(1)] by simp
  have "has a ?f i T \<or> doomed n a i T"
  proof (cases "T = spTerm a v")
    case False
    then show ?thesis using I(5) v T h(2) unfolding complete_ok_def complete_def by (metis length_0_conv less_nat_zero_code order_le_less)
  qed (use h(3) in \<open>auto simp: has_def\<close>)
  then show ?thesis
  proof
    assume f: "has a ?f i T"
    have "take (Suc i) (adopt (spLog a v) (take (Suc m) ?f)) = take (Suc i) ?f"
      by (rule adopt_keeps) (use f h(3) has_length [OF f] v(2) in \<open>simp_all add: has_def\<close>)
    then show ?thesis using f by (simp add: has_def)
  qed simp
qed

lemma inv_accept:
  assumes inv: "spec_inv n a" and v: "v < n" "m < length (spLead a (spTerm a v))"
    and a': "a' = a\<lparr>spLog := (spLog a)(v := adopt (spLog a v) (take (Suc m) (spLead a (spTerm a v)))),
      spAck := insert (v, spTerm a v, m) (spAck a)\<rparr>"
  shows "spec_inv n a' \<and> evolves a a'"
proof -
  note I = spec_invD [OF inv]
  note new = accept_log [OF inv v]
  have e: "evolves a a'" by (auto simp: evolves_def a')
  have m: "leads n a' d T = leads n a d T" and hs: "has a' l i T = has a l i T" for d T l i by (simp_all add: leads_def has_def a')
  have vo: "votes_ok n a'" using I(1) by (simp add: votes_ok_def a')
  have "terms_ok a" using I(2) by (simp add: leaders_ok_def)
  then have pos: "terms_ok a'" by (simp add: terms_ok_def a')
  have lo: "leaders_ok n a'" by (rule leaders_ok_frame [OF inv e vo _ pos]) (use new(3) in \<open>auto simp: a'\<close>)
  have logs: "logs_ok n a'"
    unfolding logs_ok_def using I(3) new evolves_legit [OF e] by (auto simp: a' logs_ok_def)
  have acks: "acks_ok n a'" using I(4) v by (auto simp: acks_ok_def a')
  have comp: "complete_ok n a'" using I(5) evolves_complete [OF e] by (auto simp: complete_ok_def a')
  have keep: "keeps_ok n a'"
  proof (rule keeps_frame [OF inv e])
    fix u i T assume h: "acked a u i T" "own_entry a i T" "has a (spLog a u) i T"
    show "has a' (spLog a' u) i T \<or> doomed n a' i T"
    proof (cases "u = v")
      case True
      then have "has a (spLog a' u) i T \<or> doomed n a i T" using accept_keeps [OF inv v] h by (simp add: a')
      then show ?thesis using evolves_doomed [OF e] unfolding hs by blast
    next
      case False
      then show ?thesis using h(3) unfolding hs by (simp add: a')
    qed
  next
    fix u i T assume "acked a' u i T" "\<not> acked a u i T"
    then have u: "u = v" "T = spTerm a v" "i \<le> m" by (auto simp: acked_def a')
    have "take (Suc i) (spLog a' v) = take (Suc i) (spLead a (spTerm a v))"
      using arg_cong [OF adopt_agree [OF v(2), of "spLog a v"], of "take (Suc i)"] u(3) by (simp add: a' min_def)
    then show "has a' (spLog a' u) i T" using u v(2) unfolding hs by (simp add: has_def)
  qed
  have "ballots_ok n a'" by (rule ballots_frame [OF inv e]) (use v in \<open>auto simp: a'\<close>)
  then show ?thesis using vo lo logs acks comp keep e by (simp add: spec_inv_def)
qed

section \<open>Safety of the protocol\<close>

lemma spec_inv_init: "spec_inv n spec_init"
  by (auto simp: spec_inv_def spec_init_def votes_ok_def leaders_ok_def terms_ok_def logs_ok_def legit_def acks_ok_def
      complete_ok_def keeps_ok_def ballots_ok_def acked_def)

lemma spec_step_inv: "spec_step n C a a' \<Longrightarrow> spec_inv n a \<Longrightarrow> spec_inv n a' \<and> evolves a a'"
proof (induction rule: spec_step.cases)
  case (sp_term v t)
  then show ?case by (intro inv_term [where r = Follower]) auto
next
  case (sp_follow v)
  have "a\<lparr>spRole := (spRole a)(v := Follower)\<rparr> = a\<lparr>spTerm := (spTerm a)(v := spTerm a v), spRole := (spRole a)(v := Follower)\<rparr>"
    by simp
  then show ?case using sp_follow by (intro inv_term [where r = Follower and t = "spTerm a v"]) auto
next
  case (sp_run v)
  then show ?case by (intro inv_run) auto
next
  case (sp_vote v c)
  show ?case by (rule inv_vote [OF sp_vote(7,2-6,1)])
next
  case (sp_elect c)
  then show ?case by (intro inv_elect) auto
next
  case (sp_start q e)
  then show ?case by (intro inv_start) auto
next
  case (sp_accept v m)
  then show ?case by (intro inv_accept) auto
qed

lemma evolves_refl: "evolves a a"
  by (simp add: evolves_def)

lemma evolves_trans: "evolves a b \<Longrightarrow> evolves b c \<Longrightarrow> evolves a c"
  unfolding evolves_def by (meson order_trans prefix_order.order_trans subset_trans)

text \<open>A candidate in a term without a leader has the log it had when it became one.\<close>

definition runs_on :: "'c spec \<Rightarrow> 'c spec \<Rightarrow> bool" where
  "runs_on a a' \<longleftrightarrow> (\<forall>v. spRole a' v = Candidate \<and> spLead a' (spTerm a' v) = [] \<longrightarrow>
     spTerm a v < spTerm a' v \<or> spRole a v = Candidate \<and> spTerm a v = spTerm a' v \<and> spLog a' v = spLog a v)"

lemma runs_on_step: "spec_step n C a a' \<Longrightarrow> runs_on a a'"
  by (induction rule: spec_step.induct) (auto simp: runs_on_def)

lemma runs_on_trans:
  assumes "runs_on a b" "runs_on b c" "evolves a b" "evolves b c"
  shows "runs_on a c"
  unfolding runs_on_def
proof (intro allI impI, elim conjE)
  fix v assume h: "spRole c v = Candidate" "spLead c (spTerm c v) = []"
  have t: "spTerm a v \<le> spTerm b v" "spTerm b v \<le> spTerm c v" using assms(3,4) by (auto simp: evolves_def)
  have "prefix (spLead b (spTerm c v)) (spLead c (spTerm c v))" using assms(4) by (simp add: evolves_def)
  then have "spLead b (spTerm c v) = []" using h(2) by simp
  then show "spTerm a v < spTerm c v \<or> spRole a v = Candidate \<and> spTerm a v = spTerm c v \<and> spLog c v = spLog a v"
    using h t assms(1,2) unfolding runs_on_def by (metis order_le_less_trans order_less_le_trans)
qed

lemma spec_steps_inv: "(spec_step n C)\<^sup>*\<^sup>* a a' \<Longrightarrow> spec_inv n a \<Longrightarrow> spec_inv n a' \<and> evolves a a' \<and> runs_on a a'"
proof (induction rule: rtranclp_induct)
  case (step b c)
  then show ?case using spec_step_inv [of n C b c] evolves_trans runs_on_trans runs_on_step by blast
qed (simp add: evolves_refl, simp add: runs_on_def)

text \<open>Committed: a majority has acknowledged an entry of the leader's own term.\<close>

definition chosen :: "nat \<Rightarrow> 'c spec \<Rightarrow> nat \<Rightarrow> int \<Rightarrow> bool" where
  "chosen n a k T \<longleftrightarrow> k < length (spLead a T) \<and> entTerm (spLead a T ! k) = T \<and> (\<exists>Q. majority n Q \<and> (\<forall>u \<in> Q. acked a u k T))"

lemma chosen_not_doomed: "chosen n a k T \<Longrightarrow> \<not> doomed n a k T"
  unfolding chosen_def doomed_def using majority_overlap by blast

text \<open>Leader completeness.\<close>

lemma chosen_in_leader:
  assumes "spec_inv n a" "chosen n a k T" "T \<le> T'" "spLead a T' \<noteq> []"
  shows "take (Suc k) (spLead a T') = take (Suc k) (spLead a T)"
proof (cases "T = T'")
  case False
  then have "complete n a (spLead a T') T'" using spec_invD(5) [OF assms(1)] assms(4) by (simp add: complete_ok_def)
  moreover have "own_entry a k T" using assms(2) by (simp add: chosen_def own_entry_def)
  moreover have "T < T'" using False assms(3) by simp
  ultimately have "has a (spLead a T') k T" using chosen_not_doomed [OF assms(2)] unfolding complete_def by blast
  then show ?thesis by (simp add: has_def)
qed simp

lemma chosen_agree:
  assumes "spec_inv n a" "chosen n a k T" "chosen n a k' T'" "i \<le> k" "i \<le> k'"
  shows "spLead a T ! i = spLead a T' ! i"
proof -
  have ne: "spLead a T \<noteq> []" "spLead a T' \<noteq> []" using assms(2,3) by (auto simp: chosen_def)
  have "T \<le> T' \<or> T' \<le> T" by linarith
  then show ?thesis
  proof
    assume "T \<le> T'"
    then show ?thesis using chosen_in_leader [OF assms(1,2) _ ne(2)] assms(4) by (metis le_imp_less_Suc nth_take)
  next
    assume "T' \<le> T"
    then show ?thesis using chosen_in_leader [OF assms(1,3) _ ne(1)] assms(5) by (metis le_imp_less_Suc nth_take)
  qed
qed

lemma evolves_chosen: "evolves a a' \<Longrightarrow> chosen n a k T \<Longrightarrow> chosen n a' k T"
proof -
  assume e: "evolves a a'" and c: "chosen n a k T"
  from e obtain zs where "spLead a' T = spLead a T @ zs" unfolding evolves_def by (meson prefixE)
  then show ?thesis using c evolves_acked [OF e] unfolding chosen_def by (auto simp: nth_append)
qed

end
