(* ===== verification/RaftSimulation.thy ===== *)
theory RaftSimulation
  imports ElectionSafety RaftSpec
begin

text \<open>
  The relation \<open>sim\<close> between the cluster of \<^verbatim>\<open>Cluster\<close> and the protocol of \<^verbatim>\<open>RaftSpec\<close>. It ties the logs,
  terms, roles and votes of the peers to the state of the protocol, and says of every message what the leader
  that sent it knew: a request carries a part of the log of its term, a positive reply an acknowledgement or what
  is committed anyway, \<^verbatim>\<open>matchIndex\<close> such indices, \<^verbatim>\<open>commitIndex\<close> a committed prefix, and a snapshot
  the term of a committed entry.

  The log of a peer in the protocol is whole, while the peer keeps what follows its snapshot. When \<^verbatim>\<open>InstallSnapshot\<close> is given
  an index inside the log it keeps the entries after that index without comparing the term there, so the snapshot may be
  followed by entries that do not belong to it. The protocol keeps the old log in this case; \<open>log_sim\<close> relates
  the two only after the snapshot, and what precedes it is committed (\<open>snapped\<close>).
\<close>

section \<open>Committed prefixes\<close>

text \<open>Up to index \<open>c\<close> the log \<open>l\<close> is what was committed in terms up to \<open>t\<close>.\<close>

definition committed :: "nat \<Rightarrow> 'c spec \<Rightarrow> 'c Entry list \<Rightarrow> int \<Rightarrow> int \<Rightarrow> bool" where
  "committed n a l c t \<longleftrightarrow> c \<le> 0 \<or>
     (\<exists>k T. nat c \<le> k \<and> T \<le> t \<and> chosen n a k T \<and> take (Suc (nat c)) l = take (Suc (nat c)) (spLead a T))"

lemma evolves_take:
  "evolves a a' \<Longrightarrow> i < length (spLead a T) \<Longrightarrow> take (Suc i) (spLead a' T) = take (Suc i) (spLead a T)"
  by (rule prefix_take_eq) (auto simp: evolves_def)

lemma evolves_length: "evolves a a' \<Longrightarrow> length (spLead a T) \<le> length (spLead a' T)"
  by (rule prefix_length_le) (simp add: evolves_def)

lemma committed_mono:
  assumes "committed n a l c t" "evolves a a'" "t \<le> t'"
  shows "committed n a' l c t'"
proof (cases "c \<le> 0")
  case False
  with assms(1) obtain k T where k: "nat c \<le> k" "T \<le> t" "chosen n a k T"
    "take (Suc (nat c)) l = take (Suc (nat c)) (spLead a T)" by (auto simp: committed_def)
  then have "nat c < length (spLead a T)" by (simp add: chosen_def)
  then show ?thesis
    using k assms(3) evolves_take [OF assms(2)] evolves_chosen [OF assms(2) k(3)]
    unfolding committed_def by (metis order_trans)
qed (simp add: committed_def)

lemma committed_length: "committed n a l c t \<Longrightarrow> 0 < c \<Longrightarrow> nat c < length l"
proof -
  assume "committed n a l c t" "0 < c"
  then obtain k T where "nat c \<le> k" "k < length (spLead a T)" "take (Suc (nat c)) l = take (Suc (nat c)) (spLead a T)"
    by (auto simp: committed_def chosen_def)
  then have "length (take (Suc (nat c)) l) = Suc (nat c)" by simp
  then show ?thesis by simp
qed

lemma committed_take:
  "committed n a l c t \<Longrightarrow> take (Suc (nat c)) l' = take (Suc (nat c)) l \<Longrightarrow> committed n a l' c t"
  by (auto simp: committed_def)

lemma committed_longer:
  assumes "committed n a l c t" shows "committed n a (l @ zs) c t"
proof (cases "c \<le> 0")
  case False
  then show ?thesis using committed_take [OF assms, of "l @ zs"] committed_length [OF assms] by simp
qed (simp add: committed_def)

text \<open>A committed prefix is in the log of every later leader, so adopting that log keeps it.\<close>

lemma committed_lead:
  assumes "spec_inv n a" "committed n a l c t" "0 < c" "spLead a t \<noteq> []"
  shows "nat c < length (spLead a t) \<and> take (Suc (nat c)) l = take (Suc (nat c)) (spLead a t)"
proof -
  from assms(2,3) obtain k T where k: "nat c \<le> k" "T \<le> t" "chosen n a k T"
    "take (Suc (nat c)) l = take (Suc (nat c)) (spLead a T)" by (auto simp: committed_def)
  have eq: "take (Suc k) (spLead a t) = take (Suc k) (spLead a T)" by (rule chosen_in_leader [OF assms(1) k(3,2) assms(4)])
  moreover have "k < length (spLead a T)" using k(3) by (simp add: chosen_def)
  ultimately have "length (take (Suc k) (spLead a t)) = Suc k" by simp
  then have "k < length (spLead a t)" by simp
  moreover have "take (Suc (nat c)) (spLead a t) = take (Suc (nat c)) (spLead a T)"
    using arg_cong [OF eq, of "take (Suc (nat c))"] k(1) by (simp add: min_def)
  ultimately show ?thesis using k by simp
qed

lemma committed_adopt:
  assumes "spec_inv n a" "committed n a l c t" "m < length (spLead a t)"
  shows "committed n a (adopt l (take (Suc m) (spLead a t))) c t"
proof (cases "c \<le> 0")
  case False
  have ne: "spLead a t \<noteq> []" using assms(3) by auto
  have c: "nat c < length (spLead a t)" "take (Suc (nat c)) l = take (Suc (nat c)) (spLead a t)"
    using committed_lead [OF assms(1,2) _ ne] False by auto
  have "take (Suc (nat c)) (adopt l (take (Suc m) (spLead a t))) = take (Suc (nat c)) l"
    using adopt_keeps [OF c(2,1) assms(3)] c(2) by simp
  then show ?thesis by (rule committed_take [OF assms(2)])
qed (simp add: committed_def)

text \<open>Index \<open>i\<close> is committed, in a term up to \<open>T\<close>, with an entry of term \<open>t\<close>; index 0 is the dummy entry.\<close>

definition snapped :: "nat \<Rightarrow> 'c spec \<Rightarrow> int \<Rightarrow> int \<Rightarrow> int \<Rightarrow> bool" where
  "snapped n a i t T \<longleftrightarrow> i = 0 \<and> t = - 1 \<or>
     0 < i \<and> (\<exists>k T'. nat i \<le> k \<and> T' \<le> T \<and> chosen n a k T' \<and> t = entTerm (spLead a T' ! nat i))"

lemma snapped_mono:
  assumes "snapped n a i t T" "evolves a a'" "T \<le> T'"
  shows "snapped n a' i t T'"
proof (cases "0 < i")
  case True
  then obtain k T1 where k: "nat i \<le> k" "T1 \<le> T" "chosen n a k T1" "t = entTerm (spLead a T1 ! nat i)"
    using assms(1) by (auto simp: snapped_def)
  then have "nat i < length (spLead a T1)" by (simp add: chosen_def)
  from evolves_take [OF assms(2) this] have "spLead a' T1 ! nat i = spLead a T1 ! nat i" by (metis lessI nth_take)
  then show ?thesis using True k assms(3) evolves_chosen [OF assms(2) k(3)] unfolding snapped_def by (metis order_trans)
qed (use assms(1) in \<open>auto simp: snapped_def\<close>)

text \<open>A committed index is in the log of every later leader.\<close>

lemma snapped_lead:
  assumes "spec_inv n a" "snapped n a i t T" "spLead a T \<noteq> []"
  shows "nat i < length (spLead a T) \<and> entTerm (spLead a T ! nat i) = t"
proof (cases "0 < i")
  case True
  then obtain k T1 where k: "nat i \<le> k" "T1 \<le> T" "chosen n a k T1" "t = entTerm (spLead a T1 ! nat i)"
    using assms(2) by (auto simp: snapped_def)
  have eq: "take (Suc k) (spLead a T) = take (Suc k) (spLead a T1)" by (rule chosen_in_leader [OF assms(1) k(3,2) assms(3)])
  moreover have "k < length (spLead a T1)" using k(3) by (simp add: chosen_def)
  ultimately have "length (take (Suc k) (spLead a T)) = Suc k" by simp
  then show ?thesis using eq k(1,4) by (metis Suc_le_lessD length_take less_Suc_eq_le min.cobounded1 nth_take order_le_less_trans)
next
  case False
  then have "i = 0" "t = - 1" using assms(2) by (auto simp: snapped_def)
  then show ?thesis using assms(3) spec_invD(3) [OF assms(1)] by (auto simp: logs_ok_def legit_def)
qed

text \<open>A prefix of a leader's log below a snapshot is committed.\<close>

lemma snapped_committed:
  assumes "spec_inv n a" "snapped n a i t T" "spLead a T \<noteq> []" "c \<le> i"
  shows "committed n a (spLead a T) c T"
proof (cases "0 < c")
  case True
  then obtain k T1 where k: "nat i \<le> k" "T1 \<le> T" "chosen n a k T1" using assms(2,4) by (auto simp: snapped_def)
  have "take (Suc k) (spLead a T) = take (Suc k) (spLead a T1)" by (rule chosen_in_leader [OF assms(1) k(3,2) assms(3)])
  moreover have c: "nat c \<le> k" using assms(4) k(1) by linarith
  ultimately have "take (Suc (nat c)) (spLead a T) = take (Suc (nat c)) (spLead a T1)"
    by (metis Suc_le_mono min.absorb1 take_take)
  then show ?thesis using k c unfolding committed_def by blast
qed (simp add: committed_def)

text \<open>Server \<open>j\<close> has acknowledged the log of term \<open>T\<close> up to \<open>i\<close>, or \<open>i\<close> is committed without it.\<close>

definition covered :: "nat \<Rightarrow> 'c spec \<Rightarrow> nat \<Rightarrow> nat \<Rightarrow> int \<Rightarrow> bool" where
  "covered n a j i T \<longleftrightarrow> acked a j i T \<or> (\<exists>k T'. i \<le> k \<and> T' \<le> T \<and> chosen n a k T')"

lemma covered_mono: "covered n a j i T \<Longrightarrow> evolves a a' \<Longrightarrow> covered n a' j i T"
  unfolding covered_def using evolves_acked evolves_chosen by blast

lemma snapped_covered:
  assumes "snapped n a i t T" "1 \<le> m" "int m \<le> i"
  shows "covered n a j m T"
proof -
  obtain k T' where "nat i \<le> k" "T' \<le> T" "chosen n a k T'" using assms by (auto simp: snapped_def)
  moreover from this(1) have "m \<le> k" using assms(3) by linarith
  ultimately show ?thesis unfolding covered_def by blast
qed

section \<open>The simulation relation\<close>

definition log_sim :: "'c Entry list \<Rightarrow> ('c, 'b) Raft \<Rightarrow> bool" where
  "log_sim l rf \<longleftrightarrow> log rf \<noteq> [] \<and> 0 \<le> snapIndex rf \<and> nat (snapIndex rf) < length l \<and>
     tl (log rf) = drop (Suc (nat (snapIndex rf))) l \<and> (snapIndex rf = 0 \<longrightarrow> log rf = l) \<and>
     (length l = Suc (nat (snapIndex rf)) \<longrightarrow> entTerm (last l) = entTerm (hd (log rf)))"

definition node_sim :: "nat \<Rightarrow> 'c spec \<Rightarrow> nat \<Rightarrow> ('c, 'b) Raft \<Rightarrow> bool" where
  "node_sim n a v rf \<longleftrightarrow> log_sim (spLog a v) rf \<and> spTerm a v = currentTerm rf \<and> spRole a v = state rf \<and>
     snapped n a (snapIndex rf) (entTerm (hd (log rf))) (currentTerm rf) \<and>
     (commitIndex rf \<le> snapIndex rf \<or> committed n a (spLog a v) (commitIndex rf) (currentTerm rf)) \<and>
     lastApplied rf \<le> max (commitIndex rf) (snapIndex rf) \<and>
     (state rf = Leader \<longrightarrow> (\<forall>j < n. j \<noteq> v \<and> 1 \<le> matchIndex rf ! j \<longrightarrow>
        covered n a j (nat (matchIndex rf ! j)) (currentTerm rf)))"

definition last_sent :: "'c AppendEntriesArgs \<Rightarrow> nat" where
  "last_sent args = nat (aePrevLogIndex args) + length (aeEntries args)"

text \<open>A request carries the part of the leader's log between \<^verbatim>\<open>PrevLogIndex\<close> and its end at that time.\<close>

definition args_sim :: "nat \<Rightarrow> 'c spec \<Rightarrow> 'c AppendEntriesArgs \<Rightarrow> bool" where
  "args_sim n a args \<longleftrightarrow> 0 \<le> aePrevLogIndex args \<and> last_sent args < length (spLead a (aeTerm args)) \<and>
     entTerm (spLead a (aeTerm args) ! nat (aePrevLogIndex args)) = aePrevLogTerm args \<and>
     aeEntries args = drop (Suc (nat (aePrevLogIndex args))) (take (Suc (last_sent args)) (spLead a (aeTerm args))) \<and>
     aeLeaderCommit args \<le> int (last_sent args) \<and>
     committed n a (spLead a (aeTerm args)) (aeLeaderCommit args) (aeTerm args)"

definition call_sim :: "nat \<Rightarrow> 'c spec \<Rightarrow> 'c acall \<Rightarrow> bool" where
  "call_sim n a c \<longleftrightarrow> args_sim n a (acArgs c) \<and>
     (\<forall>r. acReply c = Some r \<and> aerSuccess r \<and> 1 \<le> last_sent (acArgs c) \<longrightarrow>
        covered n a (acPeer c) (last_sent (acArgs c)) (aeTerm (acArgs c)))"

definition inst_sim :: "nat \<Rightarrow> 'c spec \<Rightarrow> 'b icall \<Rightarrow> bool" where
  "inst_sim n a c \<longleftrightarrow> snapped n a (isLastIncludedIndex (icArgs c)) (isLastIncludedTerm (icArgs c)) (isTerm (icArgs c)) \<and>
     spLead a (isTerm (icArgs c)) \<noteq> [] \<and> isTerm (icArgs c) \<le> spTerm a (icOwner c)"

text \<open>A request for a vote in the term of a candidate tells the end of the candidate's log.\<close>

definition vote_sim :: "'c spec \<Rightarrow> nat \<Rightarrow> RequestVoteArgs option \<Rightarrow> bool" where
  "vote_sim a own req \<longleftrightarrow> (\<forall>args. req = Some args \<longrightarrow> rvTerm args \<le> spTerm a own \<and>
     (spRole a own = Candidate \<and> spTerm a own = rvTerm args \<and> spLead a (rvTerm args) = [] \<longrightarrow>
        rvLastLogIndex args = int (length (spLog a own)) - 1 \<and> rvLastLogTerm args = entTerm (last (spLog a own))))"

text \<open>What is given to the service: committed commands, and snapshots of committed prefixes.\<close>

definition msg_sim :: "nat \<Rightarrow> 'c spec \<Rightarrow> ('c, 'b) ApplyMsg \<Rightarrow> bool" where
  "msg_sim n a m \<longleftrightarrow> (if amCommandValid m then 0 < amCommandIndex m \<and>
       (\<exists>k T. nat (amCommandIndex m) \<le> k \<and> chosen n a k T \<and> amCommand m = entCommand (spLead a T ! nat (amCommandIndex m)))
     else amSnapshotValid m \<and> 0 < amSnapshotIndex m \<and> (\<exists>T. snapped n a (amSnapshotIndex m) (amSnapshotTerm m) T))"

definition votes_of :: "('c, 'b) cluster \<Rightarrow> (int \<times> nat \<times> nat) set" where
  "votes_of s = {(T, v, c). voted s T v c}"

definition sim :: "nat \<Rightarrow> ('c, 'b) cluster \<Rightarrow> 'c spec \<Rightarrow> bool" where
  "sim n s a \<longleftrightarrow> length (outbox s) = n \<and> spVote a = votes_of s \<and> (\<forall>v < n. node_sim n a v (nodes s ! v)) \<and>
     (\<forall>c \<in> set (acalls s). call_sim n a c) \<and> (\<forall>c \<in> set (icalls s). inst_sim n a c) \<and>
     (\<forall>c \<in> set (vcalls s). vote_sim a (call_owner s c) (vcArgs c)) \<and> (\<forall>v < n. \<forall>m \<in> set (outbox s ! v). msg_sim n a m)"

lemma simD:
  assumes "sim n s a"
  shows "length (outbox s) = n" and "spVote a = votes_of s" and "v < n \<Longrightarrow> node_sim n a v (nodes s ! v)"
    and "k < length (acalls s) \<Longrightarrow> call_sim n a (acalls s ! k)"
    and "k < length (icalls s) \<Longrightarrow> inst_sim n a (icalls s ! k)"
    and "k < length (vcalls s) \<Longrightarrow> vote_sim a (call_owner s (vcalls s ! k)) (vcArgs (vcalls s ! k))"
    and "v < n \<Longrightarrow> m \<in> set (outbox s ! v) \<Longrightarrow> msg_sim n a m"
  using assms by (auto simp: sim_def)

lemma node_simD:
  assumes "node_sim n a v rf"
  shows "log_sim (spLog a v) rf" "spTerm a v = currentTerm rf" "spRole a v = state rf"
    "snapped n a (snapIndex rf) (entTerm (hd (log rf))) (currentTerm rf)"
    "commitIndex rf \<le> snapIndex rf \<or> committed n a (spLog a v) (commitIndex rf) (currentTerm rf)"
    "lastApplied rf \<le> max (commitIndex rf) (snapIndex rf)"
  using assms by (auto simp: node_sim_def)

text \<open>Reading the log of a peer.\<close>

lemma log_simD:
  assumes "log_sim l rf"
  shows "log rf = hd (log rf) # drop (Suc (nat (snapIndex rf))) l" "0 \<le> snapIndex rf" "snapIndex rf < int (length l)"
proof -
  have "log rf \<noteq> []" "tl (log rf) = drop (Suc (nat (snapIndex rf))) l" using assms by (simp_all add: log_sim_def)
  then show "log rf = hd (log rf) # drop (Suc (nat (snapIndex rf))) l" by (metis list.collapse)
qed (use assms in \<open>auto simp: log_sim_def\<close>)

lemma log_sim_length: "log_sim l rf \<Longrightarrow> logLength rf = int (length l)"
  using arg_cong [OF log_simD(1), of l rf length] log_simD(2,3) [of l rf] by (auto simp: logLength_def)

lemma log_sim_last: "log_sim l rf \<Longrightarrow> entTerm (last (log rf)) = entTerm (last l)"
proof -
  assume h: "log_sim l rf"
  show ?thesis
  proof (cases "length l = Suc (nat (snapIndex rf))")
    case True
    then show ?thesis using h log_simD(1) [OF h] by (auto simp: log_sim_def) (metis last.simps)
  next
    case False
    then have "Suc (nat (snapIndex rf)) < length l" using log_simD(2,3) [OF h] by auto
    then show ?thesis using log_simD(1) [OF h] by (metis drop_eq_Nil last_ConsR last_drop leD)
  qed
qed

lemma log_sim_get:
  assumes "log_sim l rf" "snapIndex rf < i" "i < int (length l)"
  shows "get rf i = Some (l ! nat i)"
proof -
  have "0 < nat (i - snapIndex rf)" using assms(2) by simp
  then obtain k where k: "nat (i - snapIndex rf) = Suc k" by (cases "nat (i - snapIndex rf)") auto
  have e: "Suc (nat (snapIndex rf)) + k = nat i" using k log_simD(2) [OF assms(1)] by linarith
  have "log rf ! nat (i - snapIndex rf) = l ! nat i"
    using log_simD(1,3) [OF assms(1)] assms(3) e unfolding k by (metis nth_Cons_Suc nth_drop Suc_leI log_simD(2) [OF assms(1)] nat_less_iff)
  then show ?thesis using get_in_range [of rf i] assms log_sim_length [OF assms(1)] by simp
qed

lemma log_sim_from:
  assumes "log_sim l rf" "snapIndex rf < i"
  shows "drop (nat (i - snapIndex rf)) (log rf) = drop (nat i) l"
proof -
  have "0 < nat (i - snapIndex rf)" using assms(2) by simp
  then obtain k where k: "nat (i - snapIndex rf) = Suc k" by (cases "nat (i - snapIndex rf)") auto
  have e: "k + Suc (nat (snapIndex rf)) = nat i" using k log_simD(2) [OF assms(1)] by linarith
  have "drop (Suc k) (log rf) = drop k (drop (Suc (nat (snapIndex rf))) l)" by (subst log_simD(1) [OF assms(1)]) simp
  then show ?thesis using e by (simp only: k drop_drop)
qed

section \<open>The relation as the protocol evolves\<close>

lemma evolves_node:
  assumes "node_sim n a v rf" "evolves a a'" "spLog a' v = spLog a v" "spTerm a' v = spTerm a v" "spRole a' v = spRole a v"
  shows "node_sim n a' v rf"
  using assms committed_mono [OF _ assms(2) order_refl] snapped_mono [OF _ assms(2) order_refl] covered_mono [OF _ assms(2)]
  by (auto simp: node_sim_def)

lemma evolves_args:
  assumes e: "evolves a a'" and h: "args_sim n a args"
  shows "args_sim n a' args"
proof -
  let ?T = "aeTerm args" and ?m = "last_sent args"
  have m: "?m < length (spLead a ?T)" "nat (aePrevLogIndex args) \<le> ?m" using h by (auto simp: args_sim_def last_sent_def)
  have t: "take (Suc ?m) (spLead a' ?T) = take (Suc ?m) (spLead a ?T)" by (rule evolves_take [OF e m(1)])
  have p: "spLead a' ?T ! nat (aePrevLogIndex args) = spLead a ?T ! nat (aePrevLogIndex args)"
    using t m(2) by (metis le_imp_less_Suc nth_take)
  have c: "committed n a' (spLead a' ?T) (aeLeaderCommit args) ?T"
  proof (cases "0 < aeLeaderCommit args")
    case True
    have c: "committed n a (spLead a ?T) (aeLeaderCommit args) ?T" using h by (simp add: args_sim_def)
    show ?thesis
      using committed_mono [OF committed_take [OF c evolves_take [OF e committed_length [OF c True]]] e] by simp
  qed (simp add: committed_def)
  show ?thesis using h t p c evolves_length [OF e, of ?T] by (auto simp: args_sim_def)
qed

lemma evolves_call: "evolves a a' \<Longrightarrow> call_sim n a c \<Longrightarrow> call_sim n a' c"
  using evolves_args [of a a' n "acArgs c"] covered_mono by (auto simp: call_sim_def)

lemma evolves_inst: "evolves a a' \<Longrightarrow> inst_sim n a c \<Longrightarrow> inst_sim n a' c"
proof -
  assume e: "evolves a a'" and h: "inst_sim n a c"
  have "spTerm a (icOwner c) \<le> spTerm a' (icOwner c)" using e by (simp add: evolves_def)
  moreover have "spLead a' (isTerm (icArgs c)) \<noteq> []"
    using h evolves_length [OF e, of "isTerm (icArgs c)"] by (auto simp: inst_sim_def)
  ultimately show ?thesis using h snapped_mono [OF _ e order_refl] by (auto simp: inst_sim_def)
qed

lemma evolves_vote: "evolves a a' \<Longrightarrow> runs_on a a' \<Longrightarrow> vote_sim a own req \<Longrightarrow> vote_sim a' own req"
proof -
  assume e: "evolves a a'" and r: "runs_on a a'" and h: "vote_sim a own req"
  have t: "spTerm a own \<le> spTerm a' own" using e by (simp add: evolves_def)
  have "rvLastLogIndex args = int (length (spLog a' own)) - 1 \<and> rvLastLogTerm args = entTerm (last (spLog a' own))"
    if c: "req = Some args" "spRole a' own = Candidate" "spTerm a' own = rvTerm args" "spLead a' (rvTerm args) = []" for args
  proof -
    have T: "rvTerm args \<le> spTerm a own" using h c(1) by (simp add: vote_sim_def)
    then have "spRole a own = Candidate" "spTerm a own = rvTerm args" "spLog a' own = spLog a own"
      using r c unfolding runs_on_def by (metis not_less)+
    moreover have "spLead a (rvTerm args) = []" using c(4) evolves_length [OF e, of "rvTerm args"] by simp
    ultimately show ?thesis using h c(1) by (simp add: vote_sim_def)
  qed
  then show ?thesis using h t by (auto simp: vote_sim_def)
qed

lemma evolves_msg:
  assumes e: "evolves a a'" and h: "msg_sim n a m"
  shows "msg_sim n a' m"
proof (cases "amCommandValid m")
  case True
  with h obtain k T where k: "nat (amCommandIndex m) \<le> k" "chosen n a k T"
    "amCommand m = entCommand (spLead a T ! nat (amCommandIndex m))" by (auto simp: msg_sim_def)
  then have "nat (amCommandIndex m) < length (spLead a T)" by (simp add: chosen_def)
  from evolves_take [OF e this] have "spLead a' T ! nat (amCommandIndex m) = spLead a T ! nat (amCommandIndex m)"
    by (metis lessI nth_take)
  then show ?thesis using True h k evolves_chosen [OF e k(2)] unfolding msg_sim_def by metis
next
  case False
  then show ?thesis using h snapped_mono [OF _ e order_refl] unfolding msg_sim_def by metis
qed

text \<open>Steps of the protocol by one server, which cast no vote.\<close>

definition local_steps :: "nat \<Rightarrow> 'c set \<Rightarrow> nat \<Rightarrow> 'c spec \<Rightarrow> 'c spec \<Rightarrow> bool" where
  "local_steps n C i a a' \<longleftrightarrow> (spec_step n C)\<^sup>*\<^sup>* a a' \<and> spVote a' = spVote a \<and>
     (\<forall>u. u \<noteq> i \<longrightarrow> spLog a' u = spLog a u \<and> spTerm a' u = spTerm a u \<and> spRole a' u = spRole a u)"

lemma local_refl [simp]: "local_steps n C i a a"
  by (simp add: local_steps_def)

lemma local_trans: "local_steps n C i a b \<Longrightarrow> local_steps n C i b c \<Longrightarrow> local_steps n C i a c"
  unfolding local_steps_def by (metis rtranclp_trans)

lemma local_one: "spec_step n C a a' \<Longrightarrow> spVote a' = spVote a \<Longrightarrow>
  \<forall>u. u \<noteq> i \<longrightarrow> spLog a' u = spLog a u \<and> spTerm a' u = spTerm a u \<and> spRole a' u = spRole a u \<Longrightarrow> local_steps n C i a a'"
  unfolding local_steps_def by blast

lemma local_inv: "local_steps n C i a a' \<Longrightarrow> spec_inv n a \<Longrightarrow> spec_inv n a' \<and> evolves a a'"
  unfolding local_steps_def using spec_steps_inv by blast

section \<open>Steps of the cluster\<close>

text \<open>The vote requests of a state, up to whether they are open and answered.\<close>

definition calls_kept :: "('c, 'b) cluster \<Rightarrow> ('c, 'b) cluster \<Rightarrow> bool" where
  "calls_kept s s' \<longleftrightarrow> (\<forall>c' \<in> set (vcalls s'). \<exists>c \<in> set (vcalls s). vcArgs c' = vcArgs c \<and> call_owner s' c' = call_owner s c)"

lemma calls_kept_same: "vcalls s' = vcalls s \<Longrightarrow> rounds s' = rounds s \<Longrightarrow> calls_kept s s'"
  by (auto simp: calls_kept_def)

text \<open>A cluster step that changes one peer matches protocol steps if that peer and the new messages do.\<close>

lemma sim_step:
  assumes sim: "sim n s a" and wf: "wf_cluster n s" and inv: "spec_inv n a" and adv: "(spec_step n C)\<^sup>*\<^sup>* a a'"
    and other: "\<forall>u. u \<noteq> i \<longrightarrow> spLog a' u = spLog a u \<and> spTerm a' u = spTerm a u \<and> spRole a' u = spRole a u"
    and node: "nodes s' = (nodes s)[i := rf]" "i < n" "node_sim n a' i rf" and votes: "spVote a' = votes_of s'"
    and calls: "\<And>c. c \<in> set (acalls s') \<Longrightarrow> c \<in> set (acalls s) \<or> call_sim n a' c"
      "\<And>c. c \<in> set (icalls s') \<Longrightarrow> c \<in> set (icalls s) \<or> inst_sim n a' c"
      "\<And>c. c \<in> set (vcalls s') \<Longrightarrow> (\<exists>d \<in> set (vcalls s). vcArgs c = vcArgs d \<and> call_owner s' c = call_owner s d) \<or>
        vote_sim a' (call_owner s' c) (vcArgs c)"
    and out: "length (outbox s') = n" "\<And>v m. v < n \<Longrightarrow> m \<in> set (outbox s' ! v) \<Longrightarrow> m \<in> set (outbox s ! v) \<or> msg_sim n a' m"
  shows "sim n s' a'"
proof -
  note D = simD [OF sim]
  have e: "evolves a a'" "runs_on a a'" using spec_steps_inv [OF adv inv] by simp_all
  have "node_sim n a' v (nodes s' ! v)" if "v < n" for v
    using node wf_clusterD(1) [OF wf] evolves_node [OF D(3) [OF that] e(1)] other that by (cases "v = i") auto
  moreover have "call_sim n a' c" if "c \<in> set (acalls s')" for c
    using calls(1) [OF that] evolves_call [OF e(1)] sim by (auto simp: sim_def)
  moreover have "inst_sim n a' c" if "c \<in> set (icalls s')" for c
    using calls(2) [OF that] evolves_inst [OF e(1), of n c] sim by (auto simp: sim_def)
  moreover have "vote_sim a' (call_owner s' c) (vcArgs c)" if "c \<in> set (vcalls s')" for c
    using calls(3) [OF that] evolves_vote [OF e] sim by (auto simp: sim_def)
  moreover have "msg_sim n a' m" if "v < n" "m \<in> set (outbox s' ! v)" for v m
    using out(2) [OF that] evolves_msg [OF e(1)] D(7) [OF that(1)] by blast
  ultimately show ?thesis using votes out(1) by (simp add: sim_def)
qed

lemma sim_local:
  assumes sim: "sim n s a" and wf: "wf_cluster n s" and inv: "spec_inv n a" and loc: "local_steps n C i a a'"
    and node: "nodes s' = (nodes s)[i := rf]" "i < n" "node_sim n a' i rf" and votes: "voted s' = voted s"
    and kept: "calls_kept s s'"
    and calls: "\<And>c. c \<in> set (acalls s') \<Longrightarrow> c \<in> set (acalls s) \<or> call_sim n a' c"
      "\<And>c. c \<in> set (icalls s') \<Longrightarrow> c \<in> set (icalls s) \<or> inst_sim n a' c"
    and out: "length (outbox s') = n" "\<And>v m. v < n \<Longrightarrow> m \<in> set (outbox s' ! v) \<Longrightarrow> m \<in> set (outbox s ! v) \<or> msg_sim n a' m"
  shows "\<exists>a'. (spec_step n C)\<^sup>*\<^sup>* a a' \<and> sim n s' a'"
proof (intro exI conjI)
  show "(spec_step n C)\<^sup>*\<^sup>* a a'" using loc by (simp add: local_steps_def)
  then show "sim n s' a'"
  proof (rule sim_step [OF sim wf inv _ _ node _ calls _ out])
    show "spVote a' = votes_of s'" using loc simD(2) [OF sim] votes by (simp add: local_steps_def votes_of_def)
  qed (use loc kept in \<open>auto simp: local_steps_def calls_kept_def\<close>)
qed

lemma voted_quiet:
  assumes "wf_cluster n s" "quiet_step n s s'" shows "voted s' = voted s"
  by (rule voted_frame [OF assms(1)]) (use assms(2) in \<open>auto simp: quiet_step_def\<close>)

section \<open>Steps of one peer\<close>

text \<open>What remains of the relation when a peer keeps its log.\<close>

lemma node_sim_keep:
  assumes sim: "node_sim n a i rf" and e: "evolves a a'" "spLog a' i = spLog a i"
    and rf': "spTerm a' i = currentTerm rf'" "spRole a' i = state rf'" "log rf' = log rf" "snapIndex rf' = snapIndex rf"
      "currentTerm rf \<le> currentTerm rf'"
      "commitIndex rf' = commitIndex rf \<and> lastApplied rf' \<le> max (commitIndex rf) (snapIndex rf) \<or>
       commitIndex rf' \<le> snapIndex rf \<and> lastApplied rf' \<le> snapIndex rf"
      "\<And>j. state rf' = Leader \<Longrightarrow> j < n \<Longrightarrow> j \<noteq> i \<Longrightarrow> 1 \<le> matchIndex rf' ! j \<Longrightarrow>
        covered n a' j (nat (matchIndex rf' ! j)) (currentTerm rf')"
  shows "node_sim n a' i rf'"
proof -
  note D = node_simD [OF sim]
  have "log_sim (spLog a' i) rf'" using D(1) rf'(3,4) e(2) by (simp add: log_sim_def)
  moreover have "snapped n a' (snapIndex rf') (entTerm (hd (log rf'))) (currentTerm rf')"
    using snapped_mono [OF D(4) e(1) rf'(5)] rf'(3,4) by simp
  moreover have "commitIndex rf' \<le> snapIndex rf' \<or> committed n a' (spLog a' i) (commitIndex rf') (currentTerm rf')"
    using D(5) rf'(4,6) committed_mono [OF _ e(1) rf'(5)] e(2) by auto
  moreover have "lastApplied rf' \<le> max (commitIndex rf') (snapIndex rf')" using rf'(4,6) by auto
  ultimately show ?thesis using rf'(1,2,7) by (simp add: node_sim_def)
qed

lemma node_sim_same:
  assumes "node_sim n a i rf" "log rf' = log rf" "currentTerm rf' = currentTerm rf" "state rf' = state rf"
    "snapIndex rf' = snapIndex rf" "commitIndex rf' = commitIndex rf" "lastApplied rf' = lastApplied rf" "matchIndex rf' = matchIndex rf"
  shows "node_sim n a i rf'"
  using assms by (simp add: node_sim_def log_sim_def)

text \<open>Stepping down, with or without a new term, and restarting from the persister.\<close>

lemma down_sim:
  assumes sim: "node_sim n a i rf" and i: "i < n" and inv: "spec_inv n a"
    and rf': "log rf' = log rf" "currentTerm rf \<le> currentTerm rf'" "state rf' = Follower" "snapIndex rf' = snapIndex rf"
      "commitIndex rf' = commitIndex rf \<and> lastApplied rf' = lastApplied rf \<or>
       commitIndex rf' \<le> snapIndex rf \<and> lastApplied rf' \<le> snapIndex rf"
  obtains a' where "local_steps n C i a a'" "node_sim n a' i rf'" "spLog a' = spLog a"
proof -
  let ?a = "a\<lparr>spTerm := (spTerm a)(i := currentTerm rf'), spRole := (spRole a)(i := Follower)\<rparr>"
  note D = node_simD [OF sim]
  have l: "local_steps n C i a ?a"
  proof (cases "currentTerm rf = currentTerm rf'")
    case True
    then have "?a = a\<lparr>spRole := (spRole a)(i := Follower)\<rparr>" using D(2) by (simp add: fun_upd_idem)
    then show ?thesis using sp_follow [OF i, of C a] by (intro local_one) auto
  next
    case False
    then show ?thesis using sp_term [OF i, of a "currentTerm rf'" C] rf'(2) D(2) by (intro local_one) auto
  qed
  then have e: "evolves a ?a" using local_inv [OF _ inv] by simp
  have "node_sim n ?a i rf'" by (rule node_sim_keep [OF sim e]) (use rf' D(6) in auto)
  with l show thesis by (rule that) simp
qed

lemma newGen_sim:
  assumes "node_sim n a i rf" "i < n" "spec_inv n a" "currentTerm rf < t"
  obtains a' where "local_steps n C i a a'" "node_sim n a' i (newGen rf t)" "spLog a' = spLog a"
  by (rule down_sim [OF assms(1-3), of "newGen rf t"]) (use assms(4) in auto)

end
