(* ===== verification/RaftRefinement.thy ===== *)
theory RaftRefinement
  imports RaftSimulation
begin

text \<open>
  Every event of the cluster of \<^verbatim>\<open>Cluster\<close> is matched by steps of the protocol of \<^verbatim>\<open>RaftSpec\<close>, as long as elections are
  safe: replication, snapshots that the service takes or a leader installs, the service and restarts, elections.
\<close>

section \<open>Serving append requests\<close>

lemma accept_term_sim:
  assumes sim: "node_sim n a i rf" and i: "i < n" and t: "currentTerm rf \<le> t" and inv: "spec_inv n a"
  obtains a' where "local_steps n C i a a'" "node_sim n a' i (accept_term now rf t)"
proof (cases "t > currentTerm rf \<or> state rf = Candidate")
  case True
  then have f: "state (accept_term now rf t) = Follower" using t by (auto simp: accept_term_def touched_def toFollower_def)
  obtain a' where a': "local_steps n C i a a'" "node_sim n a' i (accept_term now rf t)" "spLog a' = spLog a"
    by (rule down_sim [OF sim i inv, of "accept_term now rf t"]) (use f accept_term_term [OF t] t in auto)
  show thesis by (rule that [OF a'(1,2)])
next
  case False
  then have "accept_term now rf t = touched now rf" using t by (simp add: accept_term_def)
  then show thesis
    using that [of a] node_sim_same [OF sim, of "touched now rf"] by (simp add: touched_def)
qed

text \<open>
  Between well-formed logs, the merge of \<^verbatim>\<open>reconcileEntries\<close> adopts the leader's log: two entries
  of one term at one index are the same entry, with the same entries before it.
\<close>

lemma merge_adopt:
  assumes l: "legit a l" "legit a f" and p: "take p l = take p f" "p \<le> length l" "p \<le> Suc m" and m: "m < length f"
  shows "take p l @ merge_entries (drop p l) (drop p (take (Suc m) f)) = adopt l (take (Suc m) f)"
proof -
  let ?mine = "drop p l" and ?yours = "drop p (take (Suc m) f)"
  have ly: "length ?yours = Suc m - p" using m by (simp add: Suc_le_eq min.absorb2)
  have y: "?yours ! k = f ! (p + k)" if "k < length ?yours" for k using that m ly by simp
  have match: "take (Suc (p + k)) l = take (Suc (p + k)) f"
    if "k < length ?mine" "k < length ?yours" "entTerm (?mine ! k) = entTerm (?yours ! k)" for k
    using that y m ly by (intro legit_match [OF l]) auto
  show ?thesis
  proof (cases "take (Suc m) l = take (Suc m) f")
    case True
    then have "length (take (Suc m) l) = Suc m" using m by (simp add: Suc_le_eq min.absorb2)
    then have ll: "Suc m \<le> length l" by simp
    have "?mine ! k = ?yours ! k" if "k < length ?yours" for k
      using that arg_cong [OF True, of "\<lambda>xs. xs ! (p + k)"] ly ll y [OF that] p(2) by simp
    then have "merge_entries ?mine ?yours = ?mine @ drop (length ?mine) ?yours" by (intro merge_entries_no_conflict) auto
    then have "merge_entries ?mine ?yours = ?mine" using ll ly by simp
    then show ?thesis using True m by (simp add: adopt_take)
  next
    case False
    have same: "?mine ! k = ?yours ! k"
      if "k < length ?mine" "k < length ?yours" "entTerm (?mine ! k) = entTerm (?yours ! k)" for k
      using arg_cong [OF match [OF that], of "\<lambda>xs. xs ! (p + k)"] that y [OF that(2)] by simp
    have "length (merge_entries ?mine ?yours) = length ?yours"
    proof (cases "\<exists>k. k < length ?mine \<and> k < length ?yours \<and> entTerm (?mine ! k) \<noteq> entTerm (?yours ! k)")
      case True
      then show ?thesis using merge_entries_conflict by blast
    next
      case none: False
      have "length ?mine < length ?yours"
      proof (rule ccontr)
        assume long: "\<not> length ?mine < length ?yours"
        show False
        proof (cases "p = Suc m")
          case True
          then show False using p False by simp
        next
          case False
          then have k: "m - p < length ?yours" "p + (m - p) = m" using p(3) ly by auto
          then have "take (Suc m) l = take (Suc m) f" using match [of "m - p"] none long by (metis not_less order_less_le_trans)
          then show False using \<open>take (Suc m) l \<noteq> take (Suc m) f\<close> by simp
        qed
      qed
      moreover have "merge_entries ?mine ?yours = ?mine @ drop (length ?mine) ?yours"
        using none by (intro merge_entries_no_conflict) blast
      ultimately show ?thesis by simp
    qed
    then have "merge_entries ?mine ?yours = ?yours" using merge_entries_same [of ?mine ?yours] same by (metis order_refl take_all)
    then show ?thesis using False m p(1,3) by (simp add: adopt_take) (metis append_take_drop_id min.absorb1 take_take)
  qed
qed

text \<open>
  The merge that a follower performs when \<^verbatim>\<open>PrevLogIndex\<close> fits its log or lies in its snapshot. The entries after a
  snapshot that do not belong to it conflict with the first entry of the leader there.
\<close>

lemma merged_log_eq:
  assumes ls: "log_sim l rf" and q: "merge_point rf args = int q" and p: "aePrevLogIndex args = int p" and m: "q \<le> m"
    and es: "aeEntries args = drop (Suc p) (take (Suc m) f)"
  shows "merged_log rf (merge_point rf args + 1) (new_entries rf args) = hd (log rf) # drop (Suc (nat (snapIndex rf))) (take (Suc q) l) @
    merge_entries (drop (Suc q) l) (drop (Suc q) (take (Suc m) f))"
proof -
  let ?s = "nat (snapIndex rf)"
  have s: "snapIndex rf = int ?s" using log_simD(2) [OF ls] by simp
  have le: "?s \<le> q" "p \<le> q" using q p s by (auto simp: merge_point_def)
  have "nat (int q + 1 - snapIndex rf) = Suc (q - ?s)" using s le(1) by linarith
  then have "upto_idx rf (int q + 1) = take (Suc (q - ?s)) (hd (log rf) # drop (Suc ?s) l)"
    using log_simD(1) [OF ls] unfolding upto_idx_def by simp
  then have "upto_idx rf (int q + 1) = hd (log rf) # drop (Suc ?s) (take (Suc q) l)" using le(1) by (simp add: drop_take Suc_diff_le)
  moreover have "from_idx rf (int q + 1) = drop (Suc q) l"
    using log_sim_from [OF ls, of "int q + 1"] s le(1) by (simp add: from_idx_def nat_add_distrib)
  moreover have "new_entries rf args = drop (Suc q) (take (Suc m) f)" using le(2) by (simp add: new_entries_def q p es nat_diff_distrib)
  ultimately show ?thesis by (simp add: merged_log_def q)
qed

lemma merged_log_adopt:
  assumes ls: "log_sim l rf" and l: "legit a l" "legit a (spLead a (aeTerm args))" and args: "args_sim n a args"
    and c: "consistent_at rf args" and new: "snapIndex rf < int (last_sent args)"
  shows "merged_log rf (merge_point rf args + 1) (new_entries rf args) =
    hd (log rf) # drop (Suc (nat (snapIndex rf))) (adopt l (take (Suc (last_sent args)) (spLead a (aeTerm args))))"
proof -
  let ?f = "spLead a (aeTerm args)" and ?p = "nat (aePrevLogIndex args)" and ?m = "last_sent args" and ?s = "nat (snapIndex rf)"
  define q where "q = max ?p ?s"
  have p: "0 \<le> aePrevLogIndex args" "?m < length ?f" "?p \<le> ?m" using args by (auto simp: args_sim_def last_sent_def)
  have s: "0 \<le> snapIndex rf" "?s < ?m" using log_simD(2) [OF ls] new by auto
  have q: "merge_point rf args = int q" "?s \<le> q" "q \<le> ?m" using p s by (auto simp: merge_point_def q_def)
  have eq: "merged_log rf (merge_point rf args + 1) (new_entries rf args) = hd (log rf) # drop (Suc ?s) (take (Suc q) l) @
      merge_entries (drop (Suc q) l) (drop (Suc q) (take (Suc ?m) ?f))"
    by (rule merged_log_eq [OF ls q(1) _ q(3)]) (use args p in \<open>auto simp: args_sim_def\<close>)
  show ?thesis
  proof (cases "take (Suc q) l = take (Suc q) ?f")
    case True
    then have "length (take (Suc q) l) = Suc q" using q(3) p(2) by simp
    then have len: "Suc q \<le> length l" by simp
    show ?thesis unfolding eq merge_adopt [OF l True len _ p(2), symmetric, OF Suc_le_mono [THEN iffD2, OF q(3)]]
      using len q(2) by simp
  next
    case False
    have ps: "?p \<le> ?s"
    proof (rule ccontr)
      assume h: "\<not> ?p \<le> ?s"
      then have "snapIndex rf < aePrevLogIndex args" using s(1) p(1) by linarith
      moreover from this have "term_at rf (aePrevLogIndex args) = Some (aePrevLogTerm args)" using c by (simp add: consistent_at_def)
      ultimately have "?p < length l \<and> entTerm (l ! ?p) = entTerm (?f ! ?p)"
        using args p(1) log_sim_get [OF ls, of "aePrevLogIndex args"] log_sim_length [OF ls]
        by (auto simp: term_at_def args_sim_def get_Some_iff)
      then have "take (Suc ?p) l = take (Suc ?p) ?f" using p by (intro legit_match [OF l]) auto
      then show False using False h by (simp add: max_def q_def)
    qed
    then have no: "take (Suc ?s) l \<noteq> take (Suc ?s) ?f" using False by (simp add: max_def q_def)
    then have far: "take (Suc k) l \<noteq> take (Suc k) ?f" if "?s \<le> k" for k
      using that by (metis Suc_le_mono min.absorb1 take_take)
    have "merge_entries (drop (Suc ?s) l) (drop (Suc ?s) (take (Suc ?m) ?f)) = drop (Suc ?s) (take (Suc ?m) ?f)"
    proof (cases "drop (Suc ?s) l")
      case (Cons x xs)
      then have x: "Suc ?s < length l" "x = l ! Suc ?s" by (metis drop_eq_Nil list.distinct(1) not_less, metis Cons hd_drop_conv_nth drop_eq_Nil list.sel(1) list.distinct(1) not_less)
      have y: "Suc ?s < length (take (Suc ?m) ?f)" using s(2) p(2) by simp
      have "entTerm (l ! Suc ?s) \<noteq> entTerm (?f ! Suc ?s)"
        using far [of "Suc ?s"] legit_match [OF l x(1)] s(2) p(2) by auto
      then show ?thesis unfolding Cons Cons_nth_drop_Suc [OF y, symmetric] using x s(2) by simp
    qed simp
    moreover have "adopt l (take (Suc ?m) ?f) = take (Suc ?m) ?f" using far [of ?m] s(2) p(2) by (simp add: adopt_take)
    ultimately show ?thesis unfolding eq using ps by (simp add: max_def q_def)
  qed
qed

lemma AppendEntries_log_outcome:
  assumes ok: "log_ok rf" and ls: "log_sim l rf" and l: "legit a l" "legit a (spLead a (aeTerm args))"
    and args: "args_sim n a args" and ev: "AppendEntries_log rf args = Some (rf', r)"
  obtains (rejected) "\<not> aerSuccess r" "rf' = rf"
  | (inside) "int (last_sent args) \<le> snapIndex rf" "rf' = tryUpdateCommit rf (aeLeaderCommit args)"
  | (merged) rf1 where "snapIndex rf < int (last_sent args)" "rf' = tryUpdateCommit rf1 (aeLeaderCommit args)"
      "log rf1 = hd (log rf) # drop (Suc (nat (snapIndex rf))) (adopt l (take (Suc (last_sent args)) (spLead a (aeTerm args))))"
      "currentTerm rf1 = currentTerm rf" "state rf1 = state rf" "snapIndex rf1 = snapIndex rf" "matchIndex rf1 = matchIndex rf"
      "commitIndex rf1 = commitIndex rf" "lastApplied rf1 = lastApplied rf"
proof -
  have p: "0 \<le> aePrevLogIndex args" using args by (simp add: args_sim_def)
  show thesis
  proof (cases rule: AppendEntries_log_cases [of args rf, case_names in_snapshot merge short conflict])
    case in_snapshot
    then show thesis using inside ev AppendEntries_log_inside [OF in_snapshot] p by (auto simp: last_sent_def)
  next
    case merge
    then have m: "snapIndex rf < int (last_sent args)" using p by (auto simp: last_sent_def)
    show thesis
      using ev AppendEntries_log_merge [OF ok merge] merged_log_adopt [OF ls l args merge(1) m] m
      by (intro merged [of "persist (bEffortKick (rf\<lparr>log := merged_log rf (merge_point rf args + 1) (new_entries rf args)\<rparr>))"])
        (auto simp: persist_def)
  next
    case short
    then show thesis using rejected ev AppendEntries_log_too_short [OF short] by (auto simp: zeroReply_def)
  next
    case (conflict t)
    then show thesis using rejected ev AppendEntries_log_conflict [OF conflict] by (auto simp: zeroReply_def)
  qed
qed

lemma log_sim_adopt:
  assumes ls: "log_sim l rf" and l: "legit a l" "legit a f" and m: "snapIndex rf < int m" "m < length f"
    and rf': "log rf' = hd (log rf) # drop (Suc (nat (snapIndex rf))) (adopt l (take (Suc m) f))" "snapIndex rf' = snapIndex rf"
  shows "log_sim (adopt l (take (Suc m) f)) rf'" "m < length (adopt l (take (Suc m) f))"
proof -
  let ?l = "adopt l (take (Suc m) f)"
  have "length (take (Suc m) ?l) = Suc m" using adopt_agree [OF m(2), of l] m(2) by simp
  then show len: "m < length ?l" by simp
  have "?l ! 0 = l ! 0" "?l \<noteq> []" using l m(2) by (auto simp: adopt_def legit_def)
  then have "log rf' = ?l" if "snapIndex rf = 0"
    using that rf'(1) ls by (cases ?l) (auto simp: log_sim_def hd_conv_nth legit_def)
  then show "log_sim ?l rf'" using ls rf' len m(1) by (auto simp: log_sim_def)
qed

text \<open>Serving an append request.\<close>

lemma accept_sim:
  assumes sim: "node_sim n a i rf" and i: "i < n" "aeTerm args = currentTerm rf" and inv: "spec_inv n a"
    and ok: "log_ok rf" and args: "args_sim n a args" and ev: "AppendEntries_log rf args = Some (rf', r)"
  obtains a' where "local_steps n C i a a'" "node_sim n a' i rf'"
    "aerSuccess r \<Longrightarrow> 1 \<le> last_sent args \<Longrightarrow> covered n a' i (last_sent args) (aeTerm args)"
proof -
  note D = node_simD [OF sim] and I = spec_invD [OF inv]
  let ?f = "spLead a (aeTerm args)" and ?m = "last_sent args" and ?l = "spLog a i"
  have m: "?m < length ?f" using args by (simp add: args_sim_def)
  then have ne: "?f \<noteq> []" by auto
  have l: "legit a ?l" "legit a ?f" using I(3) i(1) ne by (auto simp: logs_ok_def)
  have c: "aeLeaderCommit args \<le> int ?m" "committed n a ?f (aeLeaderCommit args) (aeTerm args)" using args by (auto simp: args_sim_def)
  from ok D(1) l args ev show thesis
  proof (cases rule: AppendEntries_log_outcome)
    case rejected
    then show thesis using that [of a] sim by simp
  next
    case inside
    have "node_sim n a i rf'"
      by (rule node_sim_keep [OF sim evolves_refl])
        (use inside c(1) D sim in \<open>auto simp: tryUpdateCommit_commitIndex node_sim_def\<close>)
    moreover have "covered n a i ?m (aeTerm args)" if "1 \<le> ?m"
      using snapped_covered [OF D(4) that inside(1)] i(2) by simp
    ultimately show thesis using that [of a] by simp
  next
    case (merged rf1)
    let ?a = "a\<lparr>spLog := (spLog a)(i := adopt ?l (take (Suc ?m) (spLead a (spTerm a i)))),
      spAck := insert (i, spTerm a i, ?m) (spAck a)\<rparr>"
    have loc: "local_steps n C i a ?a" using sp_accept [OF i(1), of ?m a] i(2) D m by (intro local_one) auto
    then have e: "evolves a ?a" using local_inv [OF _ inv] by simp
    have L: "spLog ?a i = adopt ?l (take (Suc ?m) ?f)" using D(2) i(2) by simp
    have ls: "log_sim (spLog ?a i) rf1" "?m < length (spLog ?a i)"
      unfolding L by (rule log_sim_adopt [OF D(1) l merged(1) m merged(3,6)])+
    have rf': "log rf' = log rf1" "snapIndex rf' = snapIndex rf1" "currentTerm rf' = currentTerm rf" "state rf' = state rf"
      "matchIndex rf' = matchIndex rf" "lastApplied rf' = lastApplied rf" using merged by simp_all
    have "logLength rf1 = int (length (spLog ?a i))" by (rule log_sim_length [OF ls(1)])
    then have ci: "commitIndex rf' = (if aeLeaderCommit args > commitIndex rf then aeLeaderCommit args else commitIndex rf)"
      using merged(2,8) c(1) ls(2) by (auto simp: tryUpdateCommit_commitIndex)
    have "commitIndex rf' \<le> snapIndex rf \<or> committed n a (spLog ?a i) (commitIndex rf') (currentTerm rf)"
    proof (cases "aeLeaderCommit args > commitIndex rf")
      case False
      then show ?thesis using committed_adopt [OF inv, of _ _ "currentTerm rf" ?m] m i(2) D(5) ci unfolding L by auto
    next
      case True
      have "take (Suc (nat (aeLeaderCommit args))) (spLog ?a i) = take (Suc (nat (aeLeaderCommit args))) ?f"
        using arg_cong [OF adopt_agree [OF m, of ?l], of "take (Suc (nat (aeLeaderCommit args)))"] c(1) unfolding L
        by (simp add: min_def nat_le_iff)
      from committed_take [OF c(2) this] show ?thesis using True ci i(2) by simp
    qed
    then have "commitIndex rf' \<le> snapIndex rf' \<or> committed n ?a (spLog ?a i) (commitIndex rf') (currentTerm rf')"
      using committed_mono [OF _ e order_refl] rf' merged(6) by auto
    moreover have "log_sim (spLog ?a i) rf'" using ls(1) rf' by (simp add: log_sim_def)
    moreover have "snapped n ?a (snapIndex rf') (entTerm (hd (log rf'))) (currentTerm rf')"
      using snapped_mono [OF D(4) e order_refl] rf' merged(3,6) by simp
    moreover have "lastApplied rf' \<le> max (commitIndex rf') (snapIndex rf')" using D(6) ci rf' merged(6) by auto
    moreover have "covered n ?a j (nat (matchIndex rf ! j)) (currentTerm rf)"
      if "state rf = Leader" "j < n" "j \<noteq> i" "1 \<le> matchIndex rf ! j" for j
      using sim that covered_mono [OF _ e] by (simp add: node_sim_def)
    ultimately have "node_sim n ?a i rf'" using rf' D(2,3) unfolding node_sim_def by simp
    moreover have "covered n ?a i ?m (aeTerm args)" using D(2) i(2) by (auto simp: covered_def acked_def)
    ultimately show thesis using that [OF loc] by blast
  qed
qed

lemma AppendEntries_sim:
  assumes sim: "node_sim n a i rf" and i: "i < n" and inv: "spec_inv n a" and ok: "node_ok rf" and args: "args_sim n a args"
    and ev: "AppendEntries now rf args = Some (rf', r)"
  obtains a' where "local_steps n C i a a'" "node_sim n a' i rf'"
    "aerSuccess r \<Longrightarrow> 1 \<le> last_sent args \<Longrightarrow> covered n a' i (last_sent args) (aeTerm args)"
proof (cases "aeTerm args < currentTerm rf")
  case True
  then have "rf' = rf" "\<not> aerSuccess r" using ev AppendEntries_stale [OF True] by (auto simp: zeroReply_def)
  then show thesis using that [of a] sim by simp
next
  case False
  then have t: "currentTerm rf \<le> aeTerm args" by simp
  let ?rf = "accept_term now rf (aeTerm args)"
  obtain a1 where a1: "local_steps n C i a a1" "node_sim n a1 i ?rf"
    by (rule accept_term_sim [OF sim i t inv])
  have inv1: "spec_inv n a1" "evolves a a1" using local_inv [OF a1(1) inv] by auto
  have ev1: "AppendEntries_log ?rf args = Some (rf', r)" using ev AppendEntries_current [OF t] by simp
  have ok1: "log_ok ?rf" using ok by (simp add: node_ok_def log_ok_def)
  have T: "aeTerm args = currentTerm ?rf" using accept_term_term [OF t] by simp
  obtain a2 where a2: "local_steps n C i a1 a2" "node_sim n a2 i rf'"
      "aerSuccess r \<Longrightarrow> 1 \<le> last_sent args \<Longrightarrow> covered n a2 i (last_sent args) (aeTerm args)"
    by (rule accept_sim [OF a1(2) i T inv1(1) ok1 evolves_args [OF inv1(2) args] ev1]) blast
  show thesis by (rule that [OF local_trans [OF a1(1) a2(1)] a2(2,3)])
qed

section \<open>Replication\<close>

lemma append_serve_sim:
  assumes sim: "sim n s a" and wf: "wf_cluster n s" and inv: "spec_inv n a"
    and en: "enabled (CAppendServe k now) s" and ex: "exec (CAppendServe k now) s = Some s'"
  shows "\<exists>a'. (spec_step n C)\<^sup>*\<^sup>* a a' \<and> sim n s' a'"
proof -
  note D = wf_clusterD [OF wf] and S = simD [OF sim]
  let ?c = "acalls s ! k" and ?i = "acPeer (acalls s ! k)"
  have k: "k < length (acalls s)" "acReply ?c = None" using en by auto
  have i: "?i < n" using D(7) [OF k(1)] by simp
  obtain rf r where ev: "AppendEntries now (nodes s ! ?i) (acArgs ?c) = Some (rf, r)"
    and s': "s' = set_node ?i rf (s\<lparr>acalls := (acalls s)[k := ?c\<lparr>acReply := Some r\<rparr>]\<rparr>)"
    using ex by (auto simp: Let_def)
  have args: "args_sim n a (acArgs ?c)" using S(4) [OF k(1)] by (simp add: call_sim_def)
  obtain a' where a': "local_steps n C ?i a a'" "node_sim n a' ?i rf"
      "aerSuccess r \<Longrightarrow> 1 \<le> last_sent (acArgs ?c) \<Longrightarrow> covered n a' ?i (last_sent (acArgs ?c)) (aeTerm (acArgs ?c))"
    by (rule AppendEntries_sim [OF S(3) [OF i] i inv D(4) [OF i] args ev]) blast
  have e: "evolves a a'" using local_inv [OF a'(1) inv] by simp
  have "call_sim n a' (?c\<lparr>acReply := Some r\<rparr>)"
    using evolves_args [OF e args] a'(3) by (simp add: call_sim_def)
  then have calls: "c \<in> set (acalls s) \<or> call_sim n a' c" if "c \<in> set (acalls s')" for c
    using that by (auto simp: s' dest: set_updateD)
  have "voted s' = voted s"
    by (rule voted_quiet [OF wf append_quiet [OF wf en ex]]) blast
  then show ?thesis
    by (rule sim_local [OF sim wf inv a'(1) _ i a'(2) _ _ calls, rotated])
      (use S(1) in \<open>auto simp: s' intro: calls_kept_same\<close>)
qed

text \<open>The log of a leader is the log of its term, also where its snapshot begins.\<close>

lemma leader_log:
  assumes sim: "node_sim n a i rf" and i: "i < n" "state rf = Leader" and inv: "spec_inv n a"
  shows "spLead a (currentTerm rf) = spLog a i" "spLead a (currentTerm rf) \<noteq> []"
    "snapIndex rf \<le> x \<Longrightarrow> x < int (length (spLog a i)) \<Longrightarrow> \<exists>e. get rf x = Some e \<and> entTerm e = entTerm (spLog a i ! nat x)"
    "committed n a (spLog a i) (commitIndex rf) (currentTerm rf)"
proof -
  note N = node_simD [OF sim]
  show L: "spLead a (currentTerm rf) = spLog a i" using spec_invD(2) [OF inv] i N by (auto simp: leaders_ok_def)
  then show ne: "spLead a (currentTerm rf) \<noteq> []" using spec_invD(3) [OF inv] i by (auto simp: logs_ok_def legit_def)
  show "committed n a (spLog a i) (commitIndex rf) (currentTerm rf)"
    using N(5) snapped_committed [OF inv N(4) ne] L by auto
  show "\<exists>e. get rf x = Some e \<and> entTerm e = entTerm (spLog a i ! nat x)"
    if x: "snapIndex rf \<le> x" "x < int (length (spLog a i))"
  proof (cases "x = snapIndex rf")
    case True
    have "get rf x = Some (hd (log rf))"
      using x log_sim_length [OF N(1)] N(1) by (auto simp: get_Some_iff True hd_conv_nth log_sim_def)
    then show ?thesis using snapped_lead [OF inv N(4) ne] L True by simp
  qed (use x log_sim_get [OF N(1), of x] in auto)
qed

lemma append_args_sim:
  assumes sim: "node_sim n a i rf" and i: "i < n" and inv: "spec_inv n a"
    and plan: "singleAppend_args rf j = Some (SendEntries args)"
  shows "args_sim n a args"
proof -
  note N = node_simD [OF sim]
  let ?l = "spLog a i"
  from plan have ld: "state rf = Leader" by (auto simp: singleAppend_args_def split: if_splits)
  note L = leader_log [OF sim i ld inv]
  from plan obtain ni e where ni: "snapIndex rf \<le> ni - 1" "get rf (ni - 1) = Some e" "entriesFrom rf ni = Some (aeEntries args)"
    "args = \<lparr>aeTerm = currentTerm rf, aeLeaderId = int (me rf), aePrevLogIndex = ni - 1, aePrevLogTerm = entTerm e,
      aeEntries = aeEntries args, aeLeaderCommit = commitIndex rf\<rparr>"
    by (auto simp: singleAppend_args_def Let_def split: if_splits)
  have fields: "aeTerm args = currentTerm rf" "aePrevLogIndex args = ni - 1" "aePrevLogTerm args = entTerm e"
    "aeLeaderCommit args = commitIndex rf" by (subst ni(4), simp)+
  have s: "0 \<le> snapIndex rf" by (rule log_simD(2) [OF N(1)])
  have g: "ni - 1 < int (length ?l)" using ni(2) log_sim_length [OF N(1)] by (simp add: get_Some_iff)
  have e: "entTerm e = entTerm (?l ! nat (ni - 1))" using L(3) [OF ni(1) g] ni(2) by auto
  have es: "aeEntries args = drop (nat ni) ?l"
    using ni(1,3) g log_sim_from [OF N(1), of ni] entriesFrom_in_range [of rf ni] log_sim_length [OF N(1)] by simp
  have n1: "Suc (nat (ni - 1)) = nat ni" using ni(1) s by linarith
  have last: "last_sent args = length ?l - 1" "Suc (length ?l - 1) = length ?l"
    using g es n1 L(1,2) by (auto simp: last_sent_def fields)
  have "commitIndex rf \<le> int (length ?l) - 1"
    using committed_length [OF L(4)] last(2) by (cases "0 < commitIndex rf") auto
  then show ?thesis
    using L(1,4) ni(1) s g e es last n1 by (simp add: args_sim_def fields of_nat_diff)
qed

lemma append_send_sim:
  assumes sim: "sim n s a" and wf: "wf_cluster n s" and inv: "spec_inv n a"
    and en: "enabled (CAppendSend i j) s" and ex: "exec (CAppendSend i j) s = Some s'"
  shows "\<exists>a'. (spec_step n C)\<^sup>*\<^sup>* a a' \<and> sim n s' a'"
proof -
  note D = wf_clusterD [OF wf] and S = simD [OF sim]
  have i: "i < n" using en D by simp
  let ?rf = "nodes s ! i"
  note N = node_simD [OF S(3) [OF i]]
  obtain plan where plan: "singleAppend_args ?rf j = Some plan" using ex by auto
  have args: "args_sim n a args" if "plan = SendEntries args" for args
    using append_args_sim [OF S(3) [OF i] i inv] plan that by simp
  have inst: "inst_sim n a \<lparr>icOwner = i, icPeer = j, icArgs = args, icReply = None, icOpen = True\<rparr>" if h: "plan = SendSnapshot args" for args
  proof -
    have ld: "state ?rf = Leader" and "helpInstall_args ?rf = Some args"
      using plan h by (auto simp: singleAppend_args_def Let_def split: if_splits)
    then have "isTerm args = currentTerm ?rf" "isLastIncludedIndex args = snapIndex ?rf" "isLastIncludedTerm args = entTerm (hd (log ?rf))"
      using N(1) by (auto simp: helpInstall_args_def getSnap_def nth_int_def log_sim_def hd_conv_nth split: if_splits)
    then show ?thesis using N(2,4) leader_log(2) [OF S(3) [OF i] i ld inv] by (simp add: inst_sim_def)
  qed
  have s': "s' = (case plan of NotLeader \<Rightarrow> s
      | SendEntries args \<Rightarrow> s\<lparr>acalls := acalls s @ [\<lparr>acOwner = i, acPeer = j, acArgs = args, acReply = None, acOpen = True\<rparr>]\<rparr>
      | SendSnapshot args \<Rightarrow> s\<lparr>icalls := icalls s @ [\<lparr>icOwner = i, icPeer = j, icArgs = args, icReply = None, icOpen = True\<rparr>]\<rparr>)"
    using ex plan by auto
  have "voted s' = voted s" by (rule voted_quiet [OF wf append_quiet [OF wf en ex]]) blast
  then show ?thesis
    by (rule sim_local [OF sim wf inv local_refl _ i S(3) [OF i], rotated])
      (use args inst i S(1) in \<open>auto simp: s' call_sim_def intro: calls_kept_same split: AppendPlan.splits\<close>)
qed

text \<open>What the commit rule of the leader commits is committed in the protocol.\<close>

lemma committable_chosen:
  assumes sim: "node_sim n a i rf" and i: "i < n" "state rf = Leader" "me rf = i" "npeers rf = n" and inv: "spec_inv n a"
    and M: "committable rf M" "snapIndex rf < M"
  shows "committed n a (spLog a i) M (currentTerm rf)"
proof -
  note N = node_simD [OF sim] and LL = leader_log [OF sim i(1,2) inv]
  let ?T = "currentTerm rf" and ?l = "spLog a i"
  have L: "(i, ?T, length ?l - 1) \<in> spAck a" using spec_invD(2) [OF inv] i N by (auto simp: leaders_ok_def)
  have pos: "0 < M" using M(2) log_simD(2) [OF N(1)] by simp
  obtain e where e: "get rf M = Some e" "entTerm e = ?T" using M(1) by (auto simp: committable_def term_at_def)
  then have M2: "M < int (length ?l)" using log_sim_length [OF N(1)] by (simp add: get_Some_iff)
  then have g: "nat M < length ?l" "entTerm (?l ! nat M) = ?T" using pos log_sim_get [OF N(1) M(2) M2] e by auto
  have cov: "covered n a u (nat M) ?T" if u: "u \<in> replicated_on rf M" for u
  proof (cases "u = i")
    case True
    then show ?thesis using L g(1) unfolding covered_def acked_def by (intro disjI1 exI [of _ "length ?l - 1"]) simp
  next
    case False
    then have *: "u < n" "M \<le> matchIndex rf ! u" using u i by (auto simp: replicated_on_def)
    then have "covered n a u (nat (matchIndex rf ! u)) ?T" using sim False i pos by (simp add: node_sim_def)
    moreover have "nat M \<le> nat (matchIndex rf ! u)" using * by simp
    ultimately show ?thesis unfolding covered_def acked_def by (meson order_trans)
  qed
  show ?thesis
  proof (cases "\<exists>k T'. nat M \<le> k \<and> T' \<le> ?T \<and> chosen n a k T'")
    case True
    then obtain k T' where k: "nat M \<le> k" "T' \<le> ?T" "chosen n a k T'" by blast
    then have "snapped n a M (entTerm (spLead a T' ! nat M)) ?T" using pos unfolding snapped_def by blast
    then show ?thesis using snapped_committed [OF inv _ LL(2) order_refl] LL(1) by simp
  next
    case False
    then have "acked a u (nat M) ?T" if "u \<in> replicated_on rf M" for u using cov [OF that] by (auto simp: covered_def)
    moreover have "majority n (replicated_on rf M)"
      using M(1) i by (auto simp: majority_def committable_def replicated_on_def)
    ultimately have "chosen n a (nat M) ?T" using g LL(1) unfolding chosen_def by auto
    then show ?thesis using False by blast
  qed
qed

lemma node_sim_match:
  assumes sim: "node_sim n a i rf" and x: "x \<le> 0 \<or> covered n a j (nat x) (currentTerm rf)"
  shows "node_sim n a i (rf\<lparr>matchIndex := (matchIndex rf)[j := x], nextIndex := ni\<rparr>)"
proof -
  have "covered n a q (nat ((matchIndex rf)[j := x] ! q)) (currentTerm rf)"
    if "state rf = Leader" "q < n" "q \<noteq> i" "1 \<le> (matchIndex rf)[j := x] ! q" for q
  proof (cases "q = j \<and> j < length (matchIndex rf)")
    case True
    then show ?thesis using that x by simp
  next
    case False
    then have "(matchIndex rf)[j := x] ! q = matchIndex rf ! q" by (cases "q = j") (auto simp: list_update_beyond)
    then show ?thesis using sim that by (simp add: node_sim_def)
  qed
  then show ?thesis using sim by (simp add: node_sim_def log_sim_def)
qed

lemma append_reply_sim:
  assumes sim: "node_sim n a i rf" and i: "i < n" "me rf = i" "npeers rf = n" and inv: "spec_inv n a" and ok: "node_ok rf" and j: "j < n"
    and ack: "aerSuccess reply \<Longrightarrow> 1 \<le> last_sent args \<Longrightarrow> covered n a j (last_sent args) (aeTerm args)" and prev: "0 \<le> aePrevLogIndex args"
    and ev: "singleAppend_reply rf j args reply = Some (rf', retry)"
  obtains a' where "local_steps n C i a a'" "node_sim n a' i rf'"
proof -
  note N = node_simD [OF sim]
  consider (newer) "aerTerm reply > currentTerm rf"
    | (stale) "\<not> aerTerm reply > currentTerm rf" "currentTerm rf \<noteq> aeTerm args \<or> state rf \<noteq> Leader"
    | (fail) "\<not> aerTerm reply > currentTerm rf" "currentTerm rf = aeTerm args" "state rf = Leader" "\<not> aerSuccess reply"
    | (success) "\<not> aerTerm reply > currentTerm rf" "currentTerm rf = aeTerm args" "state rf = Leader" "aerSuccess reply"
    by blast
  then show thesis
  proof cases
    case newer
    then have "rf' = newGen rf (aerTerm reply)" using ev by (simp add: singleAppend_reply_def)
    then show thesis using newGen_sim [OF sim i(1) inv newer] that by blast
  next
    case stale
    then have "rf' = rf" using ev by (auto simp: singleAppend_reply_def)
    then show thesis using that [of a] sim by simp
  next
    case fail
    have "j < npeers rf" using j i by simp
    from stepBack_step [OF ok fail(3) this] obtain v where "rf' = rf\<lparr>nextIndex := (nextIndex rf)[j := v]\<rparr>"
      using ev fail by (auto simp: singleAppend_reply_def) (metis option.inject)
    then show thesis using that [of a] node_sim_same [OF sim, of rf'] by simp
  next
    case success
    let ?m = "int (last_sent args)"
    have len: "length (matchIndex rf) = n" "length (nextIndex rf) = n" using ok success(3) i by (auto simp: node_ok_def)
    let ?rf = "rf\<lparr>matchIndex := (matchIndex rf)[j := ?m], nextIndex := (nextIndex rf)[j := ?m + 1]\<rparr>"
    have "updateCommitIndex ?rf = Some rf'"
      using ev success j len prev by (auto simp: singleAppend_reply_def update_int_def last_sent_def Let_def)
    moreover have "length (matchIndex ?rf) = npeers ?rf" using len i by simp
    ultimately have out: "commit_outcome ?rf (logLength ?rf - 1) rf'" using updateCommitIndex_spec [of ?rf] by auto
    have sim1: "node_sim n a i ?rf"
      by (rule node_sim_match [OF sim]) (use ack [OF success(4)] success(2) in \<open>cases "1 \<le> last_sent args"; auto\<close>)
    from out consider "rf' = ?rf" | M where "commitIndex ?rf < M" "snapIndex ?rf < M" "committable ?rf M" "rf' = bEffortKick (?rf\<lparr>commitIndex := M\<rparr>)"
      by (auto simp: commit_outcome_def)
    then have "node_sim n a i rf'"
    proof cases
      case 2
      have "committed n a (spLog a i) M (currentTerm ?rf)"
        by (rule committable_chosen [OF sim1 i(1) _ _ _ inv 2(3,2)]) (use success i in auto)
      then show ?thesis using sim1 2 unfolding node_sim_def log_sim_def by auto
    qed (use sim1 in simp)
    then show thesis using that [of a] by simp
  qed
qed

lemma append_recv_sim:
  assumes sim: "sim n s a" and wf: "wf_cluster n s" and inv: "spec_inv n a"
    and en: "enabled (CAppendRecv k) s" and ex: "exec (CAppendRecv k) s = Some s'"
  shows "\<exists>a'. (spec_step n C)\<^sup>*\<^sup>* a a' \<and> sim n s' a'"
proof -
  note D = wf_clusterD [OF wf] and S = simD [OF sim]
  let ?c = "acalls s ! k" and ?i = "acOwner (acalls s ! k)"
  have k: "k < length (acalls s)" using en by auto
  have i: "?i < n" "acPeer ?c < n" using D(7) [OF k] by auto
  obtain reply rf retry where r: "acReply ?c = Some reply"
    and ev: "singleAppend_reply (nodes s ! ?i) (acPeer ?c) (acArgs ?c) reply = Some (rf, retry)"
    and s': "s' = set_node ?i rf (s\<lparr>acalls := (acalls s)[k := ?c\<lparr>acOpen := False\<rparr>]\<rparr>)"
    using ex by (auto simp: Let_def)
  have cs: "call_sim n a ?c" using S(4) [OF k] .
  obtain a' where a': "local_steps n C ?i a a'" "node_sim n a' ?i rf"
    by (rule append_reply_sim [OF S(3) [OF i(1)] i(1) D(2,3) [OF i(1)] inv D(4) [OF i(1)] i(2) _ _ ev])
      (use cs r in \<open>auto simp: call_sim_def args_sim_def\<close>)
  have e: "evolves a a'" using local_inv [OF a'(1) inv] by simp
  have "call_sim n a' (?c\<lparr>acOpen := False\<rparr>)" using evolves_call [OF e cs] by (simp add: call_sim_def)
  then have calls: "c \<in> set (acalls s) \<or> call_sim n a' c" if "c \<in> set (acalls s')" for c
    using that by (auto simp: s' dest: set_updateD)
  have "voted s' = voted s" by (rule voted_quiet [OF wf append_quiet [OF wf en ex]]) blast
  then show ?thesis
    by (rule sim_local [OF sim wf inv a'(1) _ i(1) a'(2) _ _ calls, rotated])
      (use S(1) in \<open>auto simp: s' intro: calls_kept_same\<close>)
qed

section \<open>Snapshots\<close>

lemma last_nth: "length l = Suc k \<Longrightarrow> last l = l ! k"
  by (cases l) (auto simp: last_conv_nth)

text \<open>A new snapshot of committed entries, with the entries of the old log after it.\<close>

lemma compact_log_sim:
  assumes ls: "log_sim l rf" and x: "snapIndex rf < x" "x < int (length l)"
    and rf': "log rf' = e # drop (Suc (nat x)) l" "snapIndex rf' = x"
    and last: "length l = Suc (nat x) \<Longrightarrow> entTerm (last l) = entTerm e"
  shows "log_sim l rf'"
  using assms log_simD(2) [OF ls] by (auto simp: log_sim_def)

lemma Snapshot_sim:
  assumes sim: "node_sim n a i rf" and x: "x \<le> lastApplied rf" and ev: "Snapshot rf x d = Some rf'"
  shows "node_sim n a i rf'"
proof (cases "x \<le> snapIndex rf")
  case True
  then show ?thesis using ev sim by (simp add: Snapshot_def)
next
  case False
  note N = node_simD [OF sim]
  let ?l = "spLog a i" and ?c = "commitIndex rf"
  have s: "0 \<le> snapIndex rf" by (rule log_simD(2) [OF N(1)])
  have c: "x \<le> ?c" "committed n a ?l ?c (currentTerm rf)" using False x N(5,6) by auto
  have "0 < ?c" using c(1) False s by simp
  then obtain k T where k: "nat ?c \<le> k" "T \<le> currentTerm rf" "chosen n a k T" "take (Suc (nat ?c)) ?l = take (Suc (nat ?c)) (spLead a T)"
    using c(2) by (auto simp: committed_def)
  have len: "x < int (length ?l)" using committed_length [OF c(2) \<open>0 < ?c\<close>] c(1) by linarith
  have g: "get rf x = Some (?l ! nat x)" by (rule log_sim_get [OF N(1) _ len]) (use False in simp)
  have "drop (nat (x + 1 - snapIndex rf)) (log rf) = drop (Suc (nat x)) ?l"
    using log_sim_from [OF N(1), of "x + 1"] False s by (simp add: nat_add_distrib)
  then have "slice_from (log rf) (x - snapIndex rf + 1) = Some (drop (Suc (nat x)) ?l)"
    using len log_sim_length [OF N(1)] False by (simp add: slice_from_def logLength_def add.commute add_diff_eq)
  then have rf': "log rf' = \<lparr>entTerm = entTerm (?l ! nat x), entCommand = None\<rparr> # drop (Suc (nat x)) ?l" "snapIndex rf' = x"
    "currentTerm rf' = currentTerm rf" "state rf' = state rf" "commitIndex rf' = ?c" "lastApplied rf' = lastApplied rf" "matchIndex rf' = matchIndex rf"
    using ev False g by (auto simp: Snapshot_def persist_def)
  have "log_sim ?l rf'"
    by (rule compact_log_sim [OF N(1) _ len rf'(1,2)]) (use False in \<open>auto simp: last_nth\<close>)
  moreover have "?l ! nat x = spLead a T ! nat x" using arg_cong [OF k(4), of "\<lambda>xs. xs ! nat x"] c(1) by simp
  then have "snapped n a x (entTerm (?l ! nat x)) (currentTerm rf)"
    using k c(1) False s unfolding snapped_def by (intro disjI2 conjI exI [of _ k] exI [of _ T]) auto
  moreover have "lastApplied rf \<le> ?c" using N(6) x False by linarith
  ultimately show ?thesis using sim rf' c by (simp add: node_sim_def)
qed

lemma snapshot_sim:
  assumes sim: "sim n s a" and wf: "wf_cluster n s" and inv: "spec_inv n a"
    and en: "enabled (CSnapshot i x d) s" and ex: "exec (CSnapshot i x d) s = Some s'"
  shows "\<exists>a'. (spec_step n C)\<^sup>*\<^sup>* a a' \<and> sim n s' a'"
proof -
  note D = wf_clusterD [OF wf] and S = simD [OF sim]
  have i: "i < n" "x \<le> lastApplied (nodes s ! i)" using en D by auto
  obtain rf where ev: "Snapshot (nodes s ! i) x d = Some rf" and s': "s' = set_node i rf s" using ex by auto
  have ns: "node_sim n a i rf" by (rule Snapshot_sim [OF S(3) [OF i(1)] i(2) ev])
  have "voted s' = voted s" by (rule voted_quiet [OF wf service_quiet [OF wf en ex]]) blast
  then show ?thesis
    by (rule sim_local [OF sim wf inv local_refl _ i(1) ns, rotated]) (use S(1) in \<open>auto simp: s' intro: calls_kept_same\<close>)
qed

text \<open>A leader's snapshot replaces the log up to its index, and all of a log that ends there or before.\<close>

lemma install_log_sim:
  assumes sim: "node_sim n a i rf" and i: "i < n" and inv: "spec_inv n a"
    and snap: "snapped n a x t (currentTerm rf)" "spLead a (currentTerm rf) \<noteq> []" and x: "snapIndex rf < x"
    and new: "rf1 = rf\<lparr>log := \<lparr>entTerm = t, entCommand = None\<rparr> # (if x < logLength rf - 1 then drop (nat (x + 1 - snapIndex rf)) (log rf) else []),
      snapIndex := x\<rparr>"
  obtains a' where "local_steps n C i a a'" "log_sim (spLog a' i) rf1" "spTerm a' i = currentTerm rf" "spRole a' i = state rf"
    "commitIndex rf \<le> snapIndex rf \<or> committed n a' (spLog a' i) (commitIndex rf) (currentTerm rf)"
proof -
  note N = node_simD [OF sim]
  let ?l = "spLog a i" and ?f = "spLead a (currentTerm rf)"
  have s: "0 \<le> snapIndex rf" "0 < x" using log_simD(2) [OF N(1)] x by auto
  have f: "nat x < length ?f" "entTerm (?f ! nat x) = t" using snapped_lead [OF inv snap] by auto
  show thesis
  proof (cases "x < logLength rf - 1")
    case True
    then have "x + 1 < int (length ?l)" using log_sim_length [OF N(1)] by simp
    then have "log_sim ?l rf1"
      using True log_sim_from [OF N(1), of "x + 1"] x s
      by (intro compact_log_sim [OF N(1) x, where e = "\<lparr>entTerm = t, entCommand = None\<rparr>"]) (auto simp: new nat_add_distrib)
    then show thesis using that [of a] N by simp
  next
    case False
    let ?a = "a\<lparr>spLog := (spLog a)(i := adopt ?l (take (Suc (nat x)) (spLead a (spTerm a i)))), spAck := insert (i, spTerm a i, nat x) (spAck a)\<rparr>"
    have loc: "local_steps n C i a ?a" using sp_accept [OF i, of "nat x" a] N(2) f(1) by (intro local_one) auto
    then have e: "evolves a ?a" using local_inv [OF _ inv] by simp
    have "length ?l \<le> Suc (nat x)" using False log_sim_length [OF N(1)] by linarith
    then have L: "spLog ?a i = take (Suc (nat x)) ?f" using N(2) f(1) by (auto simp: adopt_def)
    have "log_sim (spLog ?a i) rf1"
      unfolding L using False f s by (auto simp: log_sim_def new take_Suc_conv_app_nth)
    moreover have "commitIndex rf \<le> snapIndex rf \<or> committed n ?a (spLog ?a i) (commitIndex rf) (currentTerm rf)"
      using N(2,5) committed_mono [OF committed_adopt [OF inv _ f(1)] e order_refl] by auto
    ultimately show thesis using that [OF loc] N by simp
  qed
qed

lemma InstallSnapshot_sim:
  assumes sim: "node_sim n a i rf" and i: "i < n" and inv: "spec_inv n a"
    and snap: "snapped n a (isLastIncludedIndex args) (isLastIncludedTerm args) (isTerm args)" "spLead a (isTerm args) \<noteq> []"
    and ev: "InstallSnapshot now rf args = Some (rf', r, ms)"
  obtains a' where "local_steps n C i a a'" "node_sim n a' i rf'" "\<And>m. m \<in> set ms \<Longrightarrow> msg_sim n a' m"
proof (cases "isTerm args < currentTerm rf")
  case True
  then show thesis using that [of a] sim ev by (simp add: InstallSnapshot_def)
next
  case False
  let ?x = "isLastIncludedIndex args" and ?t = "isLastIncludedTerm args"
  let ?rf = "touched now (if isTerm args > currentTerm rf then newGen rf (isTerm args) else rf)"
  have T: "currentTerm ?rf = isTerm args" using False by (simp add: touched_def)
  obtain a1 where a1: "local_steps n C i a a1" "node_sim n a1 i ?rf"
  proof (cases "isTerm args > currentTerm rf")
    case True
    obtain b where b: "local_steps n C i a b" "node_sim n b i (newGen rf (isTerm args))" "spLog b = spLog a" by (rule newGen_sim [OF sim i inv True])
    then show thesis using that [of b] node_sim_same [OF b(2), of ?rf] True by (simp add: touched_def)
  qed (use that [of a] node_sim_same [OF sim, of ?rf] in \<open>simp add: touched_def\<close>)
  have inv1: "spec_inv n a1" "evolves a a1" using local_inv [OF a1(1) inv] by auto
  note N = node_simD [OF a1(2)]
  have snap1: "snapped n a1 ?x ?t (currentTerm ?rf)" "spLead a1 (currentTerm ?rf) \<noteq> []"
    using snapped_mono [OF snap(1) inv1(2) order_refl] snap(2) evolves_length [OF inv1(2), of "isTerm args"] T by auto
  show thesis
  proof (cases "?x \<le> snapIndex ?rf")
    case True
    then have "rf' = ?rf" "ms = []" using ev False by (auto simp: InstallSnapshot_def touched_def Let_def)
    then show thesis using that [OF a1(1)] a1(2) by simp
  next
    case x: False
    define rf1 where "rf1 = ?rf\<lparr>log := \<lparr>entTerm = ?t, entCommand = None\<rparr> #
      (if ?x < logLength ?rf - 1 then drop (nat (?x + 1 - snapIndex ?rf)) (log ?rf) else []), snapIndex := ?x\<rparr>"
    obtain a2 where a2: "local_steps n C i a1 a2" "log_sim (spLog a2 i) rf1" "spTerm a2 i = currentTerm ?rf" "spRole a2 i = state ?rf"
      "commitIndex ?rf \<le> snapIndex ?rf \<or> committed n a2 (spLog a2 i) (commitIndex ?rf) (currentTerm ?rf)"
      by (rule install_log_sim [OF a1(2) i inv1(1) snap1 _ rf1_def]) (use x in auto)
    have e: "evolves a1 a2" using local_inv [OF a2(1) inv1(1)] by simp
    have "slice_from (log ?rf) (?x + 1 - snapIndex ?rf) = Some (drop (nat (?x + 1 - snapIndex ?rf)) (log ?rf))" if "?x < logLength ?rf - 1"
      using that x by (simp add: slice_from_def logLength_def)
    then have rf': "rf' = (if lastApplied ?rf < ?x then (persist (rf1\<lparr>snapshot := isData args\<rparr>))\<lparr>lastApplied := ?x, commitIndex := ?x\<rparr>
        else persist (rf1\<lparr>snapshot := isData args\<rparr>))"
      and ms: "ms = (if lastApplied ?rf < ?x then [\<lparr>amCommandValid = False, amCommand = None, amCommandIndex = 0,
        amSnapshotValid = True, amSnapshot = isData args, amSnapshotTerm = ?t, amSnapshotIndex = ?x\<rparr>] else [])"
      using ev False x by (auto simp: InstallSnapshot_def touched_def Let_def setSnap_def nth_int_def update_int_def entriesFrom_def persist_def rf1_def
          logLength_def split: if_splits)
    have f: "log rf' = log rf1" "snapIndex rf' = ?x" "currentTerm rf' = currentTerm ?rf" "state rf' = state ?rf" "matchIndex rf' = matchIndex ?rf"
      unfolding rf' by (simp_all add: rf1_def persist_def)
    have snap2: "snapped n a2 ?x ?t (currentTerm ?rf)" by (rule snapped_mono [OF snap1(1) e order_refl])
    have "commitIndex rf' \<le> snapIndex rf' \<or> committed n a2 (spLog a2 i) (commitIndex rf') (currentTerm rf')"
      "lastApplied rf' \<le> max (commitIndex rf') (snapIndex rf')"
      using a2(5) N(6) x f unfolding rf' by (auto simp: rf1_def persist_def)
    moreover have "snapIndex rf1 = ?x" by (simp add: rf1_def)
    then have "log_sim (spLog a2 i) rf'" using a2(2) f(1,2) by (simp add: log_sim_def)
    moreover have "covered n a2 j (nat (matchIndex ?rf ! j)) (currentTerm ?rf)"
      if "state ?rf = Leader" "j < n" "j \<noteq> i" "1 \<le> matchIndex ?rf ! j" for j
      using a1(2) that covered_mono [OF _ e] unfolding node_sim_def by blast
    ultimately have "node_sim n a2 i rf'" using a2(3,4) snap2 f unfolding node_sim_def by (simp add: rf1_def)
    moreover have "0 < ?x" using x log_simD(2) [OF N(1)] by simp
    then have "msg_sim n a2 m" if "m \<in> set ms" for m using that snap2 by (auto simp: ms msg_sim_def split: if_splits)
    ultimately show thesis using that [OF local_trans [OF a1(1) a2(1)]] by blast
  qed
qed

lemma install_serve_sim:
  assumes sim: "sim n s a" and wf: "wf_cluster n s" and inv: "spec_inv n a"
    and en: "enabled (CInstallServe k now) s" and ex: "exec (CInstallServe k now) s = Some s'"
  shows "\<exists>a'. (spec_step n C)\<^sup>*\<^sup>* a a' \<and> sim n s' a'"
proof -
  note D = wf_clusterD [OF wf] and S = simD [OF sim]
  let ?c = "icalls s ! k" and ?i = "icPeer (icalls s ! k)"
  have k: "k < length (icalls s)" using en by auto
  have i: "?i < n" using D(8) [OF k] by simp
  obtain rf r ms where ev: "InstallSnapshot now (nodes s ! ?i) (icArgs ?c) = Some (rf, r, ms)"
    and s': "s' = emit ?i ms (set_node ?i rf (s\<lparr>icalls := (icalls s)[k := ?c\<lparr>icReply := Some r\<rparr>]\<rparr>))"
    using ex by (auto simp: Let_def)
  obtain a' where a': "local_steps n C ?i a a'" "node_sim n a' ?i rf" "\<And>m. m \<in> set ms \<Longrightarrow> msg_sim n a' m"
    using InstallSnapshot_sim [OF S(3) [OF i] i inv _ _ ev] S(5) [OF k] by (auto simp: inst_sim_def)
  have e: "evolves a a'" using local_inv [OF a'(1) inv] by simp
  have "inst_sim n a' (?c\<lparr>icReply := Some r\<rparr>)" using evolves_inst [OF e S(5) [OF k]] by (simp add: inst_sim_def)
  then have calls: "c \<in> set (icalls s) \<or> inst_sim n a' c" if "c \<in> set (icalls s')" for c
    using that by (auto simp: s' emit_def dest: set_updateD)
  have "voted s' = voted s" by (rule voted_quiet [OF wf install_quiet [OF wf en ex]]) blast
  then show ?thesis
    by (rule sim_local [OF sim wf inv a'(1) _ i a'(2) _ _ _ calls, rotated])
      (use S(1) i a'(3) in \<open>auto simp: s' emit_def nth_list_update intro: calls_kept_same split: if_splits\<close>)
qed

lemma install_recv_sim:
  assumes sim: "sim n s a" and wf: "wf_cluster n s" and inv: "spec_inv n a"
    and en: "enabled (CInstallRecv k) s" and ex: "exec (CInstallRecv k) s = Some s'"
  shows "\<exists>a'. (spec_step n C)\<^sup>*\<^sup>* a a' \<and> sim n s' a'"
proof -
  note D = wf_clusterD [OF wf] and S = simD [OF sim]
  let ?c = "icalls s ! k" and ?i = "icOwner (icalls s ! k)"
  let ?rf = "nodes s ! ?i" and ?x = "isLastIncludedIndex (icArgs (icalls s ! k))"
  have k: "k < length (icalls s)" using en by auto
  have i: "?i < n" using D(8) [OF k] by simp
  note N = node_simD [OF S(3) [OF i]]
  obtain reply rf where r: "icReply ?c = Some reply"
    and ev: "helpInstall_reply ?rf (icPeer ?c) (icArgs ?c) reply = Some rf"
    and s': "s' = set_node ?i rf (s\<lparr>icalls := (icalls s)[k := ?c\<lparr>icOpen := False\<rparr>]\<rparr>)"
    using ex by (auto simp: Let_def)
  have sn: "snapped n a ?x (isLastIncludedTerm (icArgs ?c)) (currentTerm ?rf)"
    using S(5) [OF k] N(2) snapped_mono [OF _ evolves_refl] by (auto simp: inst_sim_def)
  obtain a' where a': "local_steps n C ?i a a'" "node_sim n a' ?i rf"
  proof (cases "isrTerm reply > currentTerm ?rf")
    case True
    then have "rf = newGen ?rf (isrTerm reply)" using ev by (simp add: helpInstall_reply_def)
    then show thesis using newGen_sim [OF S(3) [OF i] i inv True] that by blast
  next
    case False
    then obtain ni where f: "rf = ?rf\<lparr>matchIndex := (matchIndex ?rf)[icPeer ?c := ?x], nextIndex := ni\<rparr>"
      using ev by (auto simp: helpInstall_reply_def update_int_def split: if_splits)
    have "node_sim n a ?i rf" unfolding f
      by (rule node_sim_match [OF S(3) [OF i]]) (use snapped_covered [OF sn, of "nat ?x"] in \<open>cases "0 < ?x"; auto\<close>)
    then show thesis using that [of a] by simp
  qed
  have e: "evolves a a'" using local_inv [OF a'(1) inv] by simp
  have "inst_sim n a' (?c\<lparr>icOpen := False\<rparr>)" using evolves_inst [OF e S(5) [OF k]] by (simp add: inst_sim_def)
  then have calls: "c \<in> set (icalls s) \<or> inst_sim n a' c" if "c \<in> set (icalls s')" for c
    using that by (auto simp: s' dest: set_updateD)
  have "voted s' = voted s" by (rule voted_quiet [OF wf install_quiet [OF wf en ex]]) blast
  then show ?thesis
    by (rule sim_local [OF sim wf inv a'(1) _ i a'(2) _ _ _ calls, rotated])
      (use S(1) in \<open>auto simp: s' intro: calls_kept_same\<close>)
qed

section \<open>The service and restarts\<close>

lemma start_sim:
  assumes sim: "sim n s a" and wf: "wf_cluster n s" and inv: "spec_inv n a"
    and en: "enabled (CStart i c) s" and ex: "exec (CStart i c) s = Some s'" and c: "c \<in> C"
  shows "\<exists>a'. (spec_step n C)\<^sup>*\<^sup>* a a' \<and> sim n s' a'"
proof -
  note D = wf_clusterD [OF wf] and S = simD [OF sim]
  have i: "i < n" using en D by simp
  let ?rf = "nodes s ! i" and ?rf' = "fst (Start (nodes s ! i) c)"
  note N = node_simD [OF S(3) [OF i]]
  have s': "s' = set_node i ?rf' s" using ex by simp
  obtain a' where a': "local_steps n C i a a'" "node_sim n a' i ?rf'"
  proof (cases "state ?rf = Leader")
    case False
    then show thesis using that [of a] S(3) [OF i] by (simp add: Start_def)
  next
    case True
    let ?e = "\<lparr>entTerm = currentTerm ?rf, entCommand = Some c\<rparr>"
    let ?a = "a\<lparr>spLog := (spLog a)(i := spLog a i @ [?e]), spLead := (spLead a)(spTerm a i := spLog a i @ [?e]),
      spAck := insert (i, spTerm a i, length (spLog a i)) (spAck a)\<rparr>"
    have loc: "local_steps n C i a ?a" using sp_start [OF i, of a ?e C] True N c by (intro local_one) auto
    then have e: "evolves a ?a" using local_inv [OF _ inv] by simp
    have f: "log ?rf' = log ?rf @ [?e]" "currentTerm ?rf' = currentTerm ?rf" "state ?rf' = state ?rf" "snapIndex ?rf' = snapIndex ?rf"
      "commitIndex ?rf' = commitIndex ?rf" "lastApplied ?rf' = lastApplied ?rf" "matchIndex ?rf' = matchIndex ?rf"
      using True by (simp_all add: Start_def Let_def append_entry_def persist_def)
    have "commitIndex ?rf \<le> snapIndex ?rf \<or> committed n ?a (spLog a i @ [?e]) (commitIndex ?rf) (currentTerm ?rf)"
      using N(5) committed_mono [OF committed_longer e order_refl] by blast
    moreover have "log_sim (spLog a i @ [?e]) ?rf'" using N(1) f by (auto simp: log_sim_def)
    moreover have "snapped n ?a (snapIndex ?rf) (entTerm (hd (log ?rf @ [?e]))) (currentTerm ?rf)"
      using snapped_mono [OF N(4) e order_refl] N(1) by (simp add: log_sim_def)
    moreover have "covered n ?a j (nat (matchIndex ?rf ! j)) (currentTerm ?rf)" if "j < n" "j \<noteq> i" "1 \<le> matchIndex ?rf ! j" for j
      using S(3) [OF i] that True covered_mono [OF _ e] by (simp add: node_sim_def)
    ultimately have "node_sim n ?a i ?rf'" using N(2,3,6) unfolding node_sim_def f by simp
    with loc show thesis by (rule that)
  qed
  have "voted s' = voted s" by (rule voted_quiet [OF wf service_quiet [OF wf en ex]]) blast
  then show ?thesis
    by (rule sim_local [OF sim wf inv a'(1) _ i a'(2), rotated]) (use S(1) in \<open>auto simp: s' intro: calls_kept_same\<close>)
qed

text \<open>What is handed to the service is committed.\<close>

lemma committed_nth:
  assumes "committed n a l c T" "0 < j" "j \<le> c"
  shows "\<exists>k T. nat j \<le> k \<and> chosen n a k T \<and> l ! nat j = spLead a T ! nat j"
proof -
  obtain k T where k: "nat c \<le> k" "chosen n a k T" "take (Suc (nat c)) l = take (Suc (nat c)) (spLead a T)"
    using assms by (auto simp: committed_def)
  have "l ! nat j = spLead a T ! nat j" using arg_cong [OF k(3), of "\<lambda>xs. xs ! nat j"] assms(3) by simp
  moreover have "nat j \<le> k" using assms(3) k(1) by linarith
  ultimately show ?thesis using k(2) by blast
qed

lemma commit_in_log:
  assumes "node_sim n a i rf"
  shows "commitIndex rf < int (length (spLog a i))"
proof -
  note N = node_simD [OF assms]
  show ?thesis
  proof (cases "commitIndex rf \<le> snapIndex rf")
    case False
    then have "0 < commitIndex rf" "committed n a (spLog a i) (commitIndex rf) (currentTerm rf)" using N(5) log_simD(2) [OF N(1)] by auto
    then show ?thesis using committed_length by fastforce
  qed (use log_simD(3) [OF N(1)] in linarith)
qed

lemma guardKick_msgs:
  assumes sim: "node_sim n a i rf" and ev: "guardKick rf = Some (rf', ms)" and m: "m \<in> set ms"
  obtains j where "max (lastApplied rf) (snapIndex rf) < j" "j \<le> commitIndex rf" "m = command_msg rf j"
    "entCommand (spLog a i ! nat j) = amCommand m" "amCommandIndex m = j" "msg_sim n a m"
proof -
  note N = node_simD [OF sim]
  let ?c = "commitIndex rf"
  from ev m have "lastApplied rf + 1 \<le> ?c" by (auto simp: guardKick_def Let_def split: if_splits)
  then have "collect_applies (rf\<lparr>wakeCh := False\<rparr>) (lastApplied rf + 1) ?c = Some ms"
    using ev by (auto simp: guardKick_def Let_def split: if_splits)
  moreover have len: "?c < int (length (spLog a i))" by (rule commit_in_log [OF sim])
  ultimately have "m \<in> command_msg (rf\<lparr>wakeCh := False\<rparr>) ` {max (lastApplied rf + 1) (snapIndex rf + 1)..?c}"
    using collect_applies_spec [of ?c "rf\<lparr>wakeCh := False\<rparr>" "lastApplied rf + 1"] m log_sim_length [OF N(1)] by (auto simp: logLength_def)
  then obtain j where "j \<in> {max (lastApplied rf + 1) (snapIndex rf + 1)..?c}" and m_eq: "m = command_msg (rf\<lparr>wakeCh := False\<rparr>) j" by blast
  then have j: "lastApplied rf < j" "snapIndex rf < j" "j \<le> ?c" by auto
  have g: "get rf j = Some (spLog a i ! nat j)" "get (rf\<lparr>wakeCh := False\<rparr>) j = get rf j"
    using log_sim_get [OF N(1) j(2)] j(3) len by (auto simp: get_def)
  have pos: "0 < j" using j(2) log_simD(2) [OF N(1)] by simp
  have com: "committed n a (spLog a i) ?c (currentTerm rf)" using N(5) j(2,3) by linarith
  obtain k T where k: "nat j \<le> k" "chosen n a k T" "spLog a i ! nat j = spLead a T ! nat j"
    using committed_nth [OF com pos j(3)] by blast
  have "msg_sim n a m"
    using k pos g by (auto simp: msg_sim_def m_eq command_msg_def intro!: exI [of _ k] exI [of _ T])
  moreover have "m = command_msg rf j" using m_eq g(2) by (simp add: command_msg_def)
  moreover from this have "entCommand (spLog a i ! nat j) = amCommand m" "amCommandIndex m = j" using g(1) by (simp_all add: command_msg_def)
  moreover have "max (lastApplied rf) (snapIndex rf) < j" using j by simp
  ultimately show thesis using that j(3) by blast
qed

lemma apply_sim:
  assumes sim: "sim n s a" and wf: "wf_cluster n s" and inv: "spec_inv n a"
    and en: "enabled (CApply i) s" and ex: "exec (CApply i) s = Some s'"
  shows "\<exists>a'. (spec_step n C)\<^sup>*\<^sup>* a a' \<and> sim n s' a'"
proof -
  note D = wf_clusterD [OF wf] and S = simD [OF sim]
  have i: "i < n" using en D by simp
  obtain rf ms where ev: "guardKick (nodes s ! i) = Some (rf, ms)" and s': "s' = emit i ms (set_node i rf s)" using ex by auto
  from ev have rf: "rf = (nodes s ! i)\<lparr>wakeCh := False\<rparr> \<or> rf = (nodes s ! i)\<lparr>wakeCh := False, lastApplied := commitIndex (nodes s ! i)\<rparr>"
    by (auto simp: guardKick_def Let_def split: if_splits)
  have ns: "node_sim n a i rf"
    by (rule node_sim_keep [OF S(3) [OF i] evolves_refl]) (use S(3) [OF i] rf in \<open>auto simp: node_sim_def\<close>)
  have "msg_sim n a m" if "m \<in> set ms" for m using guardKick_msgs [OF S(3) [OF i] ev that] by blast
  then have out: "m \<in> set (outbox s ! v) \<or> msg_sim n a m" if "v < n" "m \<in> set (outbox s' ! v)" for v m
    using that i S(1) by (cases "v = i") (auto simp: s' emit_def)
  have "voted s' = voted s" by (rule voted_quiet [OF wf service_quiet [OF wf en ex]]) blast
  then show ?thesis
    by (rule sim_local [OF sim wf inv local_refl _ i ns _ _ _ _ _ out, rotated])
      (use S(1) in \<open>auto simp: s' emit_def intro: calls_kept_same\<close>)
qed

lemma restart_sim:
  assumes sim: "sim n s a" and wf: "wf_cluster n s" and inv: "spec_inv n a"
    and en: "enabled (CRestart i now) s" and ex: "exec (CRestart i now) s = Some s'"
  shows "\<exists>a'. (spec_step n C)\<^sup>*\<^sup>* a a' \<and> sim n s' a'"
proof -
  note D = wf_clusterD [OF wf] and S = simD [OF sim]
  have i: "i < n" using en D by simp
  let ?rf = "nodes s ! i"
  note N = node_simD [OF S(3) [OF i]]
  obtain rf where m: "Make (npeers ?rf) (me ?rf) (persister ?rf) now = Some rf" "persistent_state rf = persistent_state ?rf" "state rf = Follower"
    by (rule Make_step [OF D(4) [OF i]])
  have c: "commitIndex rf = 0" "lastApplied rf = 0"
    using m(1) by (auto simp: Make_def readPersist_def initRaft_def split: if_splits option.splits)
  have p: "currentTerm rf = currentTerm ?rf" "log rf = log ?rf" "snapIndex rf = snapIndex ?rf" using m(2) by (auto simp: persistent_state_def)
  have s': "nodes s' = (nodes s)[i := rf]" "rounds s' = rounds s" "outbox s' = outbox s"
    "vcalls s' = map (\<lambda>c. if call_owner s c = i then c\<lparr>vcOpen := False\<rparr> else c) (vcalls s)"
    "acalls s' = map (\<lambda>c. if acOwner c = i then c\<lparr>acOpen := False\<rparr> else c) (acalls s)"
    "icalls s' = map (\<lambda>c. if icOwner c = i then c\<lparr>icOpen := False\<rparr> else c) (icalls s)"
    using ex m by auto
  obtain a' where a': "local_steps n C i a a'" "node_sim n a' i rf" "spLog a' = spLog a"
    by (rule down_sim [OF S(3) [OF i] i inv, of rf]) (use p c m(3) log_simD(2) [OF N(1)] in auto)
  have e: "evolves a a'" using local_inv [OF a'(1) inv] by simp
  have "call_sim n a' c" if "c \<in> set (acalls s')" for c
    using that sim evolves_call [OF e] by (auto simp: s' sim_def call_sim_def)
  moreover have "inst_sim n a' c" if c: "c \<in> set (icalls s')" for c
  proof -
    obtain d where d: "d \<in> set (icalls s)" "icArgs c = icArgs d" "icOwner c = icOwner d" using c by (auto simp: s' split: if_splits)
    then have "inst_sim n a' d" using sim evolves_inst [OF e, of n d] by (auto simp: sim_def)
    then show ?thesis using d by (simp add: inst_sim_def)
  qed
  moreover have "calls_kept s s'" by (auto simp: calls_kept_def s')
  moreover have "voted s' = voted s" by (rule voted_quiet [OF wf service_quiet [OF wf en ex]]) blast
  ultimately show ?thesis
    by (intro sim_local [OF sim wf inv a'(1) s'(1) i a'(2)]) (use S(1) in \<open>auto simp: s'(3)\<close>)
qed

section \<open>Elections\<close>

lemma tick_sim:
  assumes sim: "sim n s a" and wf: "wf_cluster n s" and inv: "spec_inv n a"
    and en: "enabled (CTick i now) s" and ex: "exec (CTick i now) s = Some s'"
  shows "\<exists>a'. (spec_step n C)\<^sup>*\<^sup>* a a' \<and> sim n s' a'"
proof -
  note D = wf_clusterD [OF wf] and S = simD [OF sim]
  have i: "i < n" using en D by simp
  let ?rf = "nodes s ! i"
  let ?c = "becomeCandidate ?rf"
  note N = node_simD [OF S(3) [OF i]]
  from tick_cases [of now ?rf] show ?thesis
  proof
    assume "fst (tick now ?rf) = ?rf \<and> \<not> snd (tick now ?rf)"
    then have "s' = s" using ex by (auto simp: Let_def split: prod.splits)
    then show ?thesis using sim by blast
  next
    assume t: "fst (tick now ?rf) = ?c \<and> snd (tick now ?rf) \<and> state ?rf \<noteq> Leader"
    then have s': "s' = start_round i (set_node i ?c s)" using ex by (auto simp: Let_def split: prod.splits)
    let ?a = "a\<lparr>spTerm := (spTerm a)(i := spTerm a i + 1), spRole := (spRole a)(i := Candidate),
      spVote := insert (spTerm a i + 1, i, i) (spVote a)\<rparr>"
    have st: "spec_step n C a ?a" by (rule sp_run [OF i])
    then have e: "evolves a ?a" using spec_step_inv [OF _ inv] by blast
    have adv: "(spec_step n C)\<^sup>*\<^sup>* a ?a" using st by blast
    have "node_sim n ?a i ?c" by (rule node_sim_keep [OF S(3) [OF i] e]) (use N in auto)
    moreover have "spVote ?a = votes_of s'"
      using voted_round [OF wf i s'] S(2) N(2) by (auto simp: votes_of_def)
    moreover have "(\<exists>d \<in> set (vcalls s). vcArgs c = vcArgs d \<and> call_owner s' c = call_owner s d) \<or> vote_sim ?a (call_owner s' c) (vcArgs c)"
      if c: "c \<in> set (vcalls s')" for c
    proof (cases "c \<in> set (vcalls s)")
      case True
      then have "vcRound c < length (rounds s)" using wf by (auto simp: wf_cluster_def wf_call_def)
      then have "call_owner s' c = call_owner s c" by (simp add: s' nth_append)
      then show ?thesis using True by blast
    next
      case False
      then have "vcArgs c = None" using c by (auto simp: s')
      then show ?thesis by (simp add: vote_sim_def)
    qed
    ultimately have "sim n s' ?a"
      by (intro sim_step [OF sim wf inv adv, where i = i and rf = ?c]) (use i S(1) in \<open>auto simp: s' start_round_def Let_def\<close>)
    then show ?thesis using adv by blast
  qed
qed

lemma vote_send_sim:
  assumes sim: "sim n s a" and wf: "wf_cluster n s" and inv: "spec_inv n a"
    and en: "enabled (CVoteSend k) s" and ex: "exec (CVoteSend k) s = Some s'"
  shows "\<exists>a'. (spec_step n C)\<^sup>*\<^sup>* a a' \<and> sim n s' a'"
proof -
  note D = wf_clusterD [OF wf] and S = simD [OF sim]
  let ?c = "vcalls s ! k" and ?o = "call_owner s (vcalls s ! k)"
  have k: "k < length (vcalls s)" "vcArgs ?c = None" using en by auto
  have w: "wf_call n s ?c" using D(6) [OF k(1)] .
  have o: "?o < n" using w D(5) by (auto simp: wf_call_def)
  note N = node_simD [OF S(3) [OF o]]
  let ?args = "\<lparr>rvTerm = currentTerm (nodes s ! ?o), rvCandidateId = int (me (nodes s ! ?o)),
     rvLastLogIndex = logLength (nodes s ! ?o) - 1, rvLastLogTerm = entTerm (last (log (nodes s ! ?o)))\<rparr>"
  have "voteArgs (nodes s ! ?o) = Some ?args" using D(4) [OF o] by (intro voteArgs_ok) (simp add: node_ok_def)
  then have s': "s' = s\<lparr>vcalls := (vcalls s)[k := ?c\<lparr>vcArgs := Some ?args\<rparr>]\<rparr>" using ex by (simp add: Let_def)
  have "vcReply ?c = None" using w k(2) by (auto simp: wf_call_def)
  then have "map vote_of (vcalls s') = map vote_of (vcalls s)" using k(1) by (simp add: s' map_vote_of_update)
  moreover have "calls_step s (vcalls s')"
    unfolding s' using w k D(2) [OF o] by (auto simp: call_step_def wf_call_def intro!: calls_step_update [OF wf])
  ultimately have v: "voted s' = voted s" by (intro voted_frame [OF wf]) (auto simp: s')
  have "vote_sim a ?o (Some ?args)" using N log_sim_length [OF N(1)] log_sim_last [OF N(1)] by (simp add: vote_sim_def)
  then have vs: "(\<exists>d \<in> set (vcalls s). vcArgs c = vcArgs d \<and> call_owner s' c = call_owner s d) \<or> vote_sim a (call_owner s' c) (vcArgs c)"
    if c: "c \<in> set (vcalls s')" for c
    using c by (auto simp: s' dest!: set_updateD)
  have "sim n s' a"
    by (rule sim_step [OF sim wf inv rtranclp.rtrancl_refl, where i = ?o and rf = "nodes s ! ?o"])
      (use S o v vs in \<open>auto simp: s' votes_of_def\<close>)
  then show ?thesis by blast
qed

lemma kept_update:
  assumes "k < length (vcalls s)" "vcalls s' = (vcalls s)[k := c]" "map rdOwner (rounds s') = map rdOwner (rounds s)"
    "wf_cluster n s" "vcArgs c = vcArgs (vcalls s ! k)" "vcRound c = vcRound (vcalls s ! k)"
  shows "calls_kept s s'"
proof -
  have r: "call_owner s' d = call_owner s d" if "vcRound d < length (rounds s)" for d
    using assms(3) that by (metis length_map nth_map)
  have w: "vcRound d < length (rounds s)" if "d \<in> set (vcalls s)" for d
    using assms(4) that by (auto simp: wf_cluster_def wf_call_def)
  have "\<exists>d \<in> set (vcalls s). vcArgs c' = vcArgs d \<and> call_owner s' c' = call_owner s d" if "c' \<in> set (vcalls s')" for c'
  proof -
    have "c' = c \<or> c' \<in> set (vcalls s)" using that assms(2) by (auto dest: set_updateD)
    then show ?thesis
    proof
      assume "c' = c"
      then show ?thesis using assms(1,5,6) r [of c] w [OF nth_mem [OF assms(1)]] by (intro bexI [of _ "vcalls s ! k"]) auto
    next
      assume "c' \<in> set (vcalls s)"
      then show ?thesis using r [OF w] by blast
    qed
  qed
  then show ?thesis by (simp add: calls_kept_def)
qed

lemma up_to_date_fresher:
  assumes "log_sim l' rf" "up_to_date rf (int (length l) - 1) (entTerm (last l))"
  shows "fresher l l'"
  using assms(2) log_sim_length [OF assms(1)] log_sim_last [OF assms(1)] by (auto simp: up_to_date_def fresher_def)

text \<open>A request for a vote first moves the server to its term.\<close>

lemma vote_term_sim:
  assumes sim: "node_sim n a i rf" and i: "i < n" and inv: "spec_inv n a" and ok: "node_ok rf"
    and ev: "RequestVote now rf args = Some (rf', r)"
  obtains a' where "local_steps n C i a a'" "node_sim n a' i rf'" "spLog a' i = spLog a i"
    "rvrVoteGranted r \<Longrightarrow> currentTerm rf' = rvTerm args \<and> up_to_date rf (rvLastLogIndex args) (rvLastLogTerm args)"
proof (cases "rvTerm args < currentTerm rf")
  case True
  then have "rf' = rf" "\<not> rvrVoteGranted r" using ev by (auto simp: RequestVote_def)
  then show thesis using that [of a] sim by simp
next
  case False
  let ?rf = "if rvTerm args > currentTerm rf then newGen rf (rvTerm args) else rf"
  have lok: "log_ok ?rf" "currentTerm ?rf = rvTerm args" "log ?rf = log rf" using ok False by (auto simp: node_ok_def log_ok_def)
  obtain a' where a': "local_steps n C i a a'" "node_sim n a' i ?rf" "spLog a' i = spLog a i"
  proof (cases "rvTerm args > currentTerm rf")
    case True
    obtain b where b: "local_steps n C i a b" "node_sim n b i (newGen rf (rvTerm args))" "spLog b = spLog a"
      by (rule newGen_sim [OF sim i inv True])
    show thesis by (rule that [OF b(1)]) (use b True in simp_all)
  qed (use that [of a] sim in auto)
  from ev False obtain rf2 where t: "tryVotingFor now ?rf (rvCandidateId args) (rvLastLogIndex args) (rvLastLogTerm args) = Some (rf', rvrVoteGranted r)"
    by (auto simp: RequestVote_def Let_def split: if_splits)
  then have rf': "rf' = (if rvrVoteGranted r then (persist (?rf\<lparr>votedFor := rvCandidateId args\<rparr>))\<lparr>lastTouchedAt := now\<rparr> else ?rf)"
      "rvrVoteGranted r \<Longrightarrow> up_to_date ?rf (rvLastLogIndex args) (rvLastLogTerm args)"
    unfolding tryVotingFor_ok [OF lok(1)] by (auto split: if_splits)
  have f: "log rf' = log ?rf" "currentTerm rf' = currentTerm ?rf" "state rf' = state ?rf" "snapIndex rf' = snapIndex ?rf"
    "commitIndex rf' = commitIndex ?rf" "lastApplied rf' = lastApplied ?rf" "matchIndex rf' = matchIndex ?rf" using rf'(1) by (simp_all add: persist_def)
  show thesis
    by (rule that [OF a'(1) node_sim_same [OF a'(2) f] a'(3)]) (use f lok rf'(2) False in \<open>auto split: if_splits\<close>)
qed

lemma vote_serve_sim:
  assumes sim: "sim n s a" and wf: "wf_cluster n s" and inv: "spec_inv n a" and el: "election_inv n s'"
    and en: "enabled (CVoteServe k now) s" and ex: "exec (CVoteServe k now) s = Some s'"
  shows "\<exists>a'. (spec_step n C)\<^sup>*\<^sup>* a a' \<and> sim n s' a'"
proof -
  note D = wf_clusterD [OF wf] and S = simD [OF sim]
  let ?c = "vcalls s ! k" and ?i = "vcPeer (vcalls s ! k)" and ?o = "call_owner s (vcalls s ! k)"
  have k: "k < length (vcalls s)" "vcReply ?c = None" using en by auto
  obtain args rf r where args: "vcArgs ?c = Some args" and ev: "RequestVote now (nodes s ! ?i) args = Some (rf, r)"
    and s': "s' = set_node ?i rf (s\<lparr>vcalls := (vcalls s)[k := ?c\<lparr>vcReply := Some r\<rparr>]\<rparr>)"
    using ex by (auto simp: Let_def)
  have w: "wf_call n s ?c" using D(6) [OF k(1)] .
  have i: "?i < n" "?o < n" "?i \<noteq> ?o" using w D(5) by (auto simp: wf_call_def)
  obtain a1 where a1: "local_steps n C ?i a a1" "node_sim n a1 ?i rf" "spLog a1 ?i = spLog a ?i"
    "rvrVoteGranted r \<Longrightarrow> currentTerm rf = rvTerm args \<and> up_to_date (nodes s ! ?i) (rvLastLogIndex args) (rvLastLogTerm args)"
    by (rule vote_term_sim [OF S(3) [OF i(1)] i(1) inv D(4) [OF i(1)] ev]) blast
  have kept: "calls_kept s s'" by (rule kept_update [OF k(1) _ _ wf, where c = "?c\<lparr>vcReply := Some r\<rparr>"]) (auto simp: s')
  show ?thesis
  proof (cases "rvrVoteGranted r")
    case False
    then have "map vote_of (vcalls s') = map vote_of (vcalls s)" using k by (simp add: s' map_vote_of_update)
    moreover have "calls_step s (vcalls s')"
      unfolding s' using args by (auto simp: call_step_def intro!: calls_step_update [OF wf k(1)])
    ultimately have "voted s' = voted s" by (intro voted_frame [OF wf]) (auto simp: s')
    then show ?thesis
      by (rule sim_local [OF sim wf inv a1(1) _ i(1) a1(2) _ kept, rotated]) (use S(1) in \<open>auto simp: s'\<close>)
  next
    case True
    let ?T = "rvTerm args"
    have e1: "evolves a a1" "runs_on a a1" using spec_steps_inv [of n C a a1] a1(1) inv by (auto simp: local_steps_def)
    have N: "spTerm a1 ?i = ?T" using node_simD(2) [OF a1(2)] a1(4) True by auto
    have vs: "vote_sim a1 ?o (Some args)" using evolves_vote [OF e1 S(6) [OF k(1)]] args by simp
    note V = voted_cast [OF k(1) args k(2) True s']
    have V1: "spVote a1 = votes_of s" using a1(1) S(2) by (simp add: local_steps_def)
    have one: "d = ?o" if "(?T, ?i, d) \<in> spVote a1" for d
      using el that V V1 unfolding election_inv_def ballot_inv_def votes_of_def by auto
    let ?a = "a1\<lparr>spVote := insert (spTerm a1 ?i, ?i, ?o) (spVote a1)\<rparr>"
    have st: "spec_step n C a1 ?a"
    proof (rule sp_vote [OF i(1,2)])
      show "spTerm a1 ?i \<le> spTerm a1 ?o" using N vs by (simp add: vote_sim_def)
      show "\<forall>d. (spTerm a1 ?i, ?i, d) \<in> spVote a1 \<longrightarrow> d = ?o" using one N by simp
      assume "spRole a1 ?o = Candidate" "spTerm a1 ?o = spTerm a1 ?i" "spLead a1 (spTerm a1 ?i) = []"
      then have "rvLastLogIndex args = int (length (spLog a1 ?o)) - 1" "rvLastLogTerm args = entTerm (last (spLog a1 ?o))"
        using vs N by (auto simp: vote_sim_def)
      then show "fresher (spLog a1 ?o) (spLog a1 ?i)"
        using up_to_date_fresher [OF node_simD(1) [OF S(3) [OF i(1)]]] a1(4) [OF True] a1(3) by simp
    qed
    have adv: "(spec_step n C)\<^sup>*\<^sup>* a ?a" using a1(1) st by (auto simp: local_steps_def)
    have "evolves a1 ?a" by (auto simp: evolves_def)
    then have ns: "node_sim n ?a ?i rf" by (rule evolves_node [OF a1(2)]) auto
    have "spVote ?a = votes_of s'" unfolding votes_of_def V using V1 N(1) by (auto simp: votes_of_def)
    then have "sim n s' ?a"
      using kept by (intro sim_step [OF sim wf inv adv _ _ i(1) ns]) (use a1(1) S(1) in \<open>auto simp: s' local_steps_def calls_kept_def\<close>)
    then show ?thesis using adv by blast
  qed
qed

lemma elect_sim:
  assumes sim: "node_sim n a i rf" and i: "i < n" "npeers rf = n" "state rf = Candidate" and inv: "spec_inv n a"
    and maj: "majority n {v. (currentTerm rf, v, i) \<in> spVote a}"
  obtains a' where "local_steps n C i a a'" "node_sim n a' i (becomeLeader rf)"
proof -
  note N = node_simD [OF sim]
  let ?a = "a\<lparr>spRole := (spRole a)(i := Leader), spLead := (spLead a)(spTerm a i := spLog a i),
      spAck := insert (i, spTerm a i, length (spLog a i) - 1) (spAck a)\<rparr>"
  have loc: "local_steps n C i a ?a" using sp_elect [OF i(1), of a] i(3) maj N by (intro local_one) auto
  then have e: "evolves a ?a" using local_inv [OF _ inv] by simp
  have "\<not> 1 \<le> matchIndex (becomeLeader rf) ! j" if "j < n" for j using that i(2) by (simp add: becomeLeader_def Let_def)
  then have "node_sim n ?a i (becomeLeader rf)"
    by (intro node_sim_keep [OF sim e]) (use N in auto)
  with loc show thesis by (rule that)
qed

lemma voteReply_outcome:
  "rvrTerm reply > currentTerm rf \<and> fst (voteReply rf spt args reply) = newGen rf (rvrTerm reply) \<or>
   fst (voteReply rf spt args reply) = rf \<or>
   fst (voteReply rf spt args reply) = becomeLeader rf \<and> spt + 1 > npeers rf div 2 \<and> rvrVoteGranted reply \<and>
     state rf = Candidate \<and> currentTerm rf = rvTerm args"
  by (cases "rvrTerm reply > currentTerm rf") (simp_all add: voteReply_def Let_def)

lemma vote_recv_sim:
  assumes sim: "sim n s a" and el: "election_inv n s" and inv: "spec_inv n a" and ok: "prompt s \<or> n \<le> 3"
    and en: "enabled (CVoteRecv k) s" and ex: "exec (CVoteRecv k) s = Some s'"
  shows "\<exists>a'. (spec_step n C)\<^sup>*\<^sup>* a a' \<and> sim n s' a'"
proof -
  have wf: "wf_cluster n s" using el by (simp add: election_inv_def)
  note D = wf_clusterD [OF wf] and S = simD [OF sim]
  let ?c = "vcalls s ! k" and ?r = "vcRound (vcalls s ! k)"
  let ?i = "rdOwner (rounds s ! ?r)" and ?spt = "rdSupporter (rounds s ! ?r)"
  have k: "k < length (vcalls s)" "vcOpen ?c" using en by auto
  have w: "wf_call n s ?c" using D(6) [OF k(1)] .
  have i: "?i < n" "?r < length (rounds s)" using w D(5) by (auto simp: wf_call_def)
  obtain args reply where ar: "vcArgs ?c = Some args" "vcReply ?c = Some reply" using en w by (auto simp: wf_call_def)
  let ?rf = "nodes s ! ?i"
  let ?v = "voteReply ?rf ?spt args reply"
  note N = node_simD [OF S(3) [OF i(1)]]
  have s': "s' = set_node ?i (fst ?v) (s\<lparr>rounds := (rounds s)[?r := (rounds s ! ?r)\<lparr>rdSupporter := snd ?v\<rparr>],
      vcalls := (vcalls s)[k := ?c\<lparr>vcOpen := False\<rparr>]\<rparr>)"
    using ex ar by (auto simp: Let_def split: prod.splits)
  have ro: "map rdOwner (rounds s') = map rdOwner (rounds s)" "map rdTerm (rounds s') = map rdTerm (rounds s)"
    using i(2) by (auto simp: s' map_update list_update_same_conv)
  have "calls_step s (vcalls s')" unfolding s' by (simp, rule calls_step_update [OF wf k(1)]) (rule call_step_close [OF w])
  then have vt: "voted s' = voted s" by (rule voted_frame [OF wf _ _ ro]) (use k(1) in \<open>simp add: s' map_vote_of_update\<close>)
  have kept: "calls_kept s s'" by (rule kept_update [OF k(1) _ ro(1) wf, where c = "?c\<lparr>vcOpen := False\<rparr>"]) (auto simp: s')
  obtain a' where a': "local_steps n C ?i a a'" "node_sim n a' ?i (fst ?v)"
  proof -
    consider (newer) "rvrTerm reply > currentTerm ?rf" "fst ?v = newGen ?rf (rvrTerm reply)" | (same) "fst ?v = ?rf"
      | (elected) "fst ?v = becomeLeader ?rf" "?spt + 1 > npeers ?rf div 2" "rvrVoteGranted reply" "state ?rf = Candidate" "currentTerm ?rf = rvTerm args"
      using voteReply_outcome [of ?rf reply ?spt args] by blast
    then show thesis
    proof cases
      case newer
      then show thesis using newGen_sim [OF S(3) [OF i(1)] i(1) inv newer(1)] that by metis
    next
      case same
      then show thesis using that [of a] S(3) [OF i(1)] by simp
    next
      case elected
      have "vote_of ?c = Some (currentTerm ?rf)" using ar elected by (simp add: vote_of_def)
      then have "majority n {v. v < n \<and> voted s (currentTerm ?rf) v ?i}"
        using counted_majority [OF el ok k refl refl] elected D(3) [OF i(1)] by simp
      moreover have "{v. v < n \<and> voted s (currentTerm ?rf) v ?i} = {v. (currentTerm ?rf, v, ?i) \<in> spVote a}"
        using spec_invD(1) [OF inv] S(2) by (auto simp: votes_ok_def votes_of_def)
      ultimately obtain a' where "local_steps n C ?i a a'" "node_sim n a' ?i (fst ?v)"
        using elect_sim [OF S(3) [OF i(1)] i(1) D(3) [OF i(1)] elected(4) inv] elected(1) by auto
      then show thesis by (rule that)
    qed
  qed
  show ?thesis
    by (rule sim_local [OF sim wf inv a'(1) _ i(1) a'(2) vt kept]) (use S(1) in \<open>auto simp: s'\<close>)
qed

text \<open>Giving up on a call changes nothing that the relation reads.\<close>

lemma drop_sim:
  assumes sim: "sim n s a" and wf: "wf_cluster n s" and inv: "spec_inv n a" and en: "enabled e s" and ex: "exec e s = Some s'"
    and e: "e = CVoteDrop k \<or> e = CAppendDrop k \<or> e = CInstallDrop k"
  shows "\<exists>a'. (spec_step n C)\<^sup>*\<^sup>* a a' \<and> sim n s' a'"
proof -
  note D = wf_clusterD [OF wf] and S = simD [OF sim]
  have n: "0 < n"
    using e en D(6-8) [of k] by (auto simp: wf_call_def)
  have vt: "voted s' = voted s"
  proof (cases "e = CVoteDrop k")
    case True
    then have k: "k < length (vcalls s)" using en by simp
    have "calls_step s (vcalls s')"
      using ex True calls_step_update [OF wf k call_step_close [OF D(6) [OF k]]] by auto
    then show ?thesis by (rule voted_frame [OF wf]) (use ex True k in \<open>auto simp: map_vote_of_update\<close>)
  next
    case False
    then have "quiet_step n s s'" using e append_quiet [OF wf en ex] install_quiet [OF wf en ex] by blast
    then show ?thesis by (rule voted_quiet [OF wf])
  qed
  have kept: "calls_kept s s'"
  proof (cases "e = CVoteDrop k")
    case True
    then show ?thesis
      using en ex by (intro kept_update [OF _ _ _ wf, where k = k and c = "(vcalls s ! k)\<lparr>vcOpen := False\<rparr>"]) auto
  qed (use e ex in \<open>auto intro!: calls_kept_same\<close>)
  have calls: "c \<in> set (acalls s) \<or> call_sim n a c" if "c \<in> set (acalls s')" for c
    using that e ex en S(4) [of k] by (auto simp: call_sim_def dest!: set_updateD)
  have insts: "c \<in> set (icalls s) \<or> inst_sim n a c" if "c \<in> set (icalls s')" for c
    using that e ex en S(5) [of k] by (auto simp: inst_sim_def dest!: set_updateD)
  show ?thesis
    by (rule sim_local [OF sim wf inv local_refl _ n S(3) [OF n] vt kept calls insts]) (use e ex S(1) in auto)
qed

section \<open>The simulation\<close>

fun takes_snapshot :: "('c, 'b) event \<Rightarrow> bool" where
  "takes_snapshot (CSnapshot i index d) = True"
| "takes_snapshot _ = False"

lemma cstep_sim:
  assumes sim: "sim n s a" and el: "election_inv n s" and inv: "spec_inv n a" and ev: "cstep e s = Some s'"
    and ok: "prompt s' \<or> n \<le> 3" and C: "\<And>i c. e = CStart i c \<Longrightarrow> c \<in> C"
  shows "\<exists>a'. (spec_step n C)\<^sup>*\<^sup>* a a' \<and> sim n s' a'"
proof -
  have wf: "wf_cluster n s" using el by (simp add: election_inv_def)
  from ev have en: "enabled e s" and ex: "exec e s = Some s'" by (auto simp: cstep_def split: if_splits)
  have ok': "prompt s \<or> n \<le> 3" using ok prompt_cstep [OF wf ev] by blast
  show ?thesis
  proof (cases e)
    case (CVoteServe k now)
    then show ?thesis using vote_serve_sim [OF sim wf inv election_step [OF el ev]] en ex by blast
  next
    case (CVoteRecv k)
    then show ?thesis using vote_recv_sim [OF sim el inv ok'] en ex by blast
  next
    case (CStart i c)
    then show ?thesis using start_sim [OF sim wf inv _ _ C] en ex by blast
  qed (use en ex tick_sim [OF sim wf inv] vote_send_sim [OF sim wf inv] append_send_sim [OF sim wf inv]
      append_serve_sim [OF sim wf inv] append_recv_sim [OF sim wf inv] install_serve_sim [OF sim wf inv]
      install_recv_sim [OF sim wf inv] apply_sim [OF sim wf inv] snapshot_sim [OF sim wf inv] restart_sim [OF sim wf inv]
      drop_sim [OF sim wf inv en ex] in metis)+
qed

end
