(* ===== verification/StateMachineSafety.thy ===== *)
theory StateMachineSafety
  imports RaftRefinement
begin

text \<open>
  What the simulation of \<^verbatim>\<open>RaftRefinement\<close> gives for the code: log matching, leader completeness and
  state machine safety, for every run of a cluster, over crashes and restarts, with snapshots taken and installed
  at any time, and with messages lost, delayed and reordered.
\<close>

section \<open>Runs\<close>

lemma init_sim: "sim n (init_cluster n) spec_init"
  by (auto simp: sim_def init_cluster_def spec_init_def votes_of_def voted_def node_sim_def log_sim_def snapped_def initRaft_def)

lemma prompt_crun: "crun es s = Some s' \<Longrightarrow> election_inv n s \<Longrightarrow> prompt s' \<Longrightarrow> prompt s"
proof (induction es arbitrary: s)
  case (Cons e es)
  then obtain s1 where s1: "cstep e s = Some s1" "crun es s1 = Some s'" by auto
  have "prompt s1" using Cons.IH [OF s1(2) election_step [OF Cons.prems(2) s1(1)] Cons.prems(3)] .
  then show ?case using prompt_cstep [OF _ s1(1)] Cons.prems(2) by (auto simp: election_inv_def)
qed simp

lemma crun_sim:
  assumes "crun es s = Some s'" "sim n s a" "election_inv n s" "spec_inv n a" "prompt s' \<or> n \<le> 3" "\<forall>i c. CStart i c \<in> set es \<longrightarrow> c \<in> C"
  shows "\<exists>a'. (spec_step n C)\<^sup>*\<^sup>* a a' \<and> sim n s' a'"
  using assms
proof (induction es arbitrary: s a)
  case (Cons e es)
  then obtain s1 where s1: "cstep e s = Some s1" "crun es s1 = Some s'" by auto
  have el: "election_inv n s1" by (rule election_step [OF Cons.prems(3) s1(1)])
  have "prompt s1 \<or> n \<le> 3" using Cons.prems(5) prompt_crun [OF s1(2) el] by blast
  then obtain a1 where a1: "(spec_step n C)\<^sup>*\<^sup>* a a1" "sim n s1 a1"
    using cstep_sim [OF Cons.prems(2-4) s1(1), of C] Cons.prems(6) by auto
  have "spec_inv n a1" using spec_steps_inv [OF a1(1) Cons.prems(4)] by simp
  then obtain a2 where "(spec_step n C)\<^sup>*\<^sup>* a1 a2" "sim n s' a2"
    using Cons.IH [OF s1(2) a1(2) el _ Cons.prems(5)] Cons.prems(6) by auto
  then show ?case using a1(1) by (meson rtranclp_trans)
qed auto

lemma run_sim:
  assumes "crun es (init_cluster n) = Some s" "prompt s \<or> n \<le> 3"
  obtains a where "(spec_step n {c. \<exists>i. CStart i c \<in> set es})\<^sup>*\<^sup>* spec_init a" "spec_inv n a" "sim n s a"
  using crun_sim [OF assms(1) init_sim election_init spec_inv_init assms(2), of "{c. \<exists>i. CStart i c \<in> set es}"] spec_steps_inv [OF _ spec_inv_init] that by blast

text \<open>Servers agree on what they apply.\<close>

lemma applied_agree:
  assumes "crun es (init_cluster n) = Some s" "prompt s \<or> n \<le> 3" and "u < n" "v < n" "m \<in> set (outbox s ! u)" "m' \<in> set (outbox s ! v)"
    and "amCommandValid m" "amCommandValid m'" "amCommandIndex m = amCommandIndex m'"
  shows "amCommand m = amCommand m'"
proof -
  obtain a where a: "spec_inv n a" "sim n s a" by (rule run_sim [OF assms(1,2)])
  let ?i = "nat (amCommandIndex m)"
  have "msg_sim n a m" "msg_sim n a m'" using simD(7) [OF a(2)] assms(3-6) by auto
  then obtain k T k' T' where "?i \<le> k" "chosen n a k T" "amCommand m = entCommand (spLead a T ! ?i)"
      "?i \<le> k'" "chosen n a k' T'" "amCommand m' = entCommand (spLead a T' ! ?i)"
    using assms(7-9) unfolding msg_sim_def by auto
  then show ?thesis using chosen_agree [OF a(1)] by metis
qed

section \<open>Properties\<close>

text \<open>
  C5. Refinement of the protocol: every run of a cluster, in which services take snapshots and leaders install them, matches a run of the
  Raft protocol \<open>spec_step\<close> (terms, votes, elections, appending the commands given to \<^verbatim>\<open>Start\<close>, adopting the leader's log), related by
  \<open>sim\<close>; vote requests must be sent in the term in which their round began, or the cluster have at most three
  servers.
\<close>

theorem cluster_refines_protocol:
  assumes "crun es (init_cluster n) = Some s" "prompt s \<or> n \<le> 3"
  shows "\<exists>a. (spec_step n {c. \<exists>i. CStart i c \<in> set es})\<^sup>*\<^sup>* spec_init a \<and> sim n s a"
  using run_sim [OF assms] by blast

text \<open>
  The run of the witnesses: server 0 is elected, replicates a command to server 2, commits and applies it, takes a
  snapshot of it, installs the snapshot on server 1, and replicates a second command to server 1, which applies it
  after the snapshot.
\<close>

definition commit_run :: "(nat, nat) event list" where
  "commit_run = elect_run @ [CStart 0 7, CAppendSend 0 2, CAppendServe 0 timeout, CAppendRecv 0, CApply 0,
     CAppendSend 0 2, CAppendServe 1 timeout, CApply 2, CSnapshot 0 1 [42], CAppendSend 0 1, CInstallServe 0 timeout, CInstallRecv 0,
     CStart 0 8, CAppendSend 0 1, CAppendServe 2 timeout, CAppendRecv 2, CApply 0, CAppendSend 0 1, CAppendServe 3 timeout, CApply 1]"

lemma commit_run_ok: "crun commit_run (init_cluster 3) \<noteq> None"
  by code_simp

lemma commit_run_Some: "crun commit_run (init_cluster 3) = Some (run_of 3 commit_run)"
  using commit_run_ok by (auto simp: run_of_def)

lemma commit_run_snapshots: "snapIndex (nodes (run_of 3 commit_run) ! 0) = 1" "snapIndex (nodes (run_of 3 commit_run) ! 1) = 1"
  by code_simp+

theorem cluster_refines_protocol_witness: "\<exists>a. (spec_step 3 {c. \<exists>i. CStart i c \<in> set commit_run})\<^sup>*\<^sup>* spec_init a \<and> sim 3 (run_of 3 commit_run) a"
  using cluster_refines_protocol [OF commit_run_Some] by simp

text \<open>
  C2. State machine safety: over the whole history of a cluster, with any number of crashes and restarts and with
  snapshots taken and installed at any time, two commands that any two servers have handed to their services for the
  same index are the same.
\<close>

theorem state_machine_safety:
  assumes "crun es (init_cluster n) = Some s" "prompt s \<or> n \<le> 3" and "u < n" "v < n" "m \<in> set (outbox s ! u)" "m' \<in> set (outbox s ! v)"
    and "amCommandValid m" "amCommandValid m'" "amCommandIndex m = amCommandIndex m'"
  shows "amCommand m = amCommand m'"
  by (rule applied_agree [OF assms])

definition applied_last :: "nat \<Rightarrow> (nat, nat) ApplyMsg" where
  "applied_last v = last (outbox (run_of 3 commit_run) ! v)"

lemma commit_run_outbox:
  "applied_last 0 \<in> set (outbox (run_of 3 commit_run) ! 0)" "applied_last 1 \<in> set (outbox (run_of 3 commit_run) ! 1)"
  "amCommandValid (applied_last 0)" "amCommandValid (applied_last 1)" "amCommandIndex (applied_last 0) = amCommandIndex (applied_last 1)"
proof -
  have "outbox (run_of 3 commit_run) ! 0 \<noteq> []" "outbox (run_of 3 commit_run) ! 1 \<noteq> []" by code_simp+
  then show "applied_last 0 \<in> set (outbox (run_of 3 commit_run) ! 0)" "applied_last 1 \<in> set (outbox (run_of 3 commit_run) ! 1)"
    by (simp_all add: applied_last_def)
qed code_simp+

theorem state_machine_safety_witness: "amCommand (applied_last 0) = amCommand (applied_last 1) \<and> amCommandIndex (applied_last 0) = 2"
proof
  show "amCommand (applied_last 0) = amCommand (applied_last 1)"
    by (rule state_machine_safety [OF commit_run_Some _ _ _ commit_run_outbox]) simp_all
qed code_simp

text \<open>
  C7. Log matching: if the logs of two servers have entries of the same term at the same index, then they have the same
  entries up to that index, as far as neither has replaced them by a snapshot. Vote requests are prompt or there are at
  most three servers.
\<close>

theorem log_matching:
  assumes "crun es (init_cluster n) = Some s" "prompt s \<or> n \<le> 3" and "u < n" "v < n"
    and "get (nodes s ! u) j = Some e" "get (nodes s ! v) j = Some e'" "entTerm e = entTerm e'"
    and "snapIndex (nodes s ! u) < i" "snapIndex (nodes s ! v) < i" "i \<le> j"
  shows "get (nodes s ! u) i = get (nodes s ! v) i"
proof -
  obtain a where a: "spec_inv n a" "sim n s a" by (rule run_sim [OF assms(1,2)])
  note U = node_simD(1) [OF simD(3) [OF a(2) assms(3)]] and V = node_simD(1) [OF simD(3) [OF a(2) assms(4)]]
  have j: "j < int (length (spLog a u))" "j < int (length (spLog a v))"
    using assms(5,6) log_sim_length [OF U] log_sim_length [OF V] by (auto simp: get_Some_iff)
  have "e = spLog a u ! nat j" "e' = spLog a v ! nat j" using log_sim_get [OF U, of j] log_sim_get [OF V, of j] j assms(5-10) by auto
  moreover have "legit a (spLog a u)" "legit a (spLog a v)" using spec_invD(3) [OF a(1)] assms(3,4) by (auto simp: logs_ok_def)
  moreover have "0 < i" using assms(8) log_simD(2) [OF U] by simp
  ultimately have "take (Suc (nat j)) (spLog a u) = take (Suc (nat j)) (spLog a v)"
    using assms(7,10) j by (intro legit_match) auto
  moreover have "nat i < Suc (nat j)" using assms(10) by linarith
  ultimately have "spLog a u ! nat i = spLog a v ! nat i" by (metis nth_take)
  then show ?thesis using log_sim_get [OF U assms(8)] log_sim_get [OF V assms(9)] assms(10) j by simp
qed

definition second_entry :: "nat Entry" where
  "second_entry = \<lparr>entTerm = 1, entCommand = Some 8\<rparr>"

lemma commit_run_entries:
  "get (nodes (run_of 3 commit_run) ! 0) 2 = Some second_entry" "get (nodes (run_of 3 commit_run) ! 1) 2 = Some second_entry"
  "snapIndex (nodes (run_of 3 commit_run) ! 0) < 2" "snapIndex (nodes (run_of 3 commit_run) ! 1) < 2"
  by code_simp+

theorem log_matching_witness:
  "get (nodes (run_of 3 commit_run) ! 0) 2 = get (nodes (run_of 3 commit_run) ! 1) 2 \<and> get (nodes (run_of 3 commit_run) ! 0) 2 \<noteq> None"
proof
  show "get (nodes (run_of 3 commit_run) ! 0) 2 = get (nodes (run_of 3 commit_run) ! 1) 2"
    by (rule log_matching [OF commit_run_Some _ _ _ commit_run_entries(1,2) refl commit_run_entries(3,4)]) simp_all
qed (simp add: commit_run_entries)

text \<open>
  C6. Leader completeness: a leader whose term no server has passed has, at its index, every command that any
  server has ever handed to its service, or has covered it by its snapshot. Vote requests are prompt or there are at
  most three servers.
\<close>

theorem leader_completeness:
  assumes "crun es (init_cluster n) = Some s" "prompt s \<or> n \<le> 3"
    and "p < n" "state (nodes s ! p) = Leader" "\<forall>u < n. currentTerm (nodes s ! u) \<le> currentTerm (nodes s ! p)"
    and "v < n" "m \<in> set (outbox s ! v)" "amCommandValid m"
  shows "0 < amCommandIndex m \<and> (amCommandIndex m \<le> snapIndex (nodes s ! p) \<or>
    map_option entCommand (get (nodes s ! p) (amCommandIndex m)) = Some (amCommand m))"
proof -
  obtain a where a: "spec_inv n a" "sim n s a" by (rule run_sim [OF assms(1,2)])
  let ?rf = "nodes s ! p" and ?i = "amCommandIndex m" and ?l = "spLog a p"
  note N = node_simD [OF simD(3) [OF a(2)]] and L = leader_log [OF simD(3) [OF a(2) assms(3)] assms(3,4) a(1)]
  have "msg_sim n a m" using simD(7) [OF a(2)] assms(6,7) by auto
  then obtain k T where k: "0 < ?i" "nat ?i \<le> k" "chosen n a k T" "amCommand m = entCommand (spLead a T ! nat ?i)"
    unfolding msg_sim_def using assms(8) by auto
  from k(3) obtain Q where Q: "majority n Q" "\<forall>u \<in> Q. acked a u k T" and len: "k < length (spLead a T)" by (auto simp: chosen_def)
  then obtain u where "acked a u k T" using majority_overlap [OF Q(1) Q(1)] by auto
  then have "u < n" "T \<le> spTerm a u" using acked_term [OF a(1)] by auto
  then have T: "T \<le> currentTerm ?rf" using assms(5) N(2) [of u] by fastforce
  have eq: "take (Suc k) ?l = take (Suc k) (spLead a T)" using chosen_in_leader [OF a(1) k(3) T L(2)] L(1) by simp
  then have "length (take (Suc k) ?l) = Suc k" using len by simp
  then have "?i < int (length ?l)" using k(1,2) by (simp add: nat_le_iff)
  moreover have "?l ! nat ?i = spLead a T ! nat ?i" using arg_cong [OF eq, of "\<lambda>xs. xs ! nat ?i"] k(2) by simp
  ultimately show ?thesis using k(1,4) log_sim_get [OF N(1) [OF assms(3)], of ?i] by (cases "?i \<le> snapIndex ?rf") auto
qed

lemma commit_run_leader:
  "state (nodes (run_of 3 commit_run) ! 0) = Leader"
  "\<forall>u < 3. currentTerm (nodes (run_of 3 commit_run) ! u) \<le> currentTerm (nodes (run_of 3 commit_run) ! 0)"
proof -
  show "state (nodes (run_of 3 commit_run) ! 0) = Leader" by code_simp
  have "list_all (\<lambda>u. currentTerm (nodes (run_of 3 commit_run) ! u) \<le> currentTerm (nodes (run_of 3 commit_run) ! 0)) [0..<3]" by code_simp
  then show "\<forall>u < 3. currentTerm (nodes (run_of 3 commit_run) ! u) \<le> currentTerm (nodes (run_of 3 commit_run) ! 0)"
    by (simp add: list_all_iff)
qed

theorem leader_completeness_witness:
  "map_option entCommand (get (nodes (run_of 3 commit_run) ! 0) 2) = Some (amCommand (applied_last 1))"
proof -
  have i: "amCommandIndex (applied_last 1) = 2" by code_simp
  show ?thesis
    using leader_completeness [OF commit_run_Some _ _ commit_run_leader _ commit_run_outbox(2,4)] commit_run_snapshots(1) i by simp
qed

end
