(* ===== verification/SnapshotOrigin.thy ===== *)
theory SnapshotOrigin
  imports StateMachineSafety
begin

text \<open>
  Which events move \<^verbatim>\<open>lastApplied\<close>, \<^verbatim>\<open>snapIndex\<close> and the snapshot of a peer, and where snapshots come from: every
  snapshot that a peer holds, that travels in a request or that is handed to a service was given to Raft by a
  service, with the same index.
\<close>

section \<open>What handlers leave alone\<close>

definition kept :: "('c, 'b) Raft \<Rightarrow> ('c, 'b) Raft \<Rightarrow> bool" where
  "kept rf rf' \<longleftrightarrow> lastApplied rf' = lastApplied rf \<and> snapIndex rf' = snapIndex rf \<and> snapshot rf' = snapshot rf"

lemma kept_refl [simp]: "kept rf rf"
  by (simp add: kept_def)

lemma kept_newGen [simp]: "kept rf (newGen rf t)"
  by (simp add: kept_def newGen_def persist_def)

lemma kept_tick: "kept rf (fst (tick now rf))"
  using tick_cases [of now rf] by (auto simp: kept_def becomeCandidate_def newGen_def persist_def Let_def)

lemma kept_RequestVote: "log_ok rf \<Longrightarrow> RequestVote now rf args = Some (rf', r) \<Longrightarrow> kept rf rf'"
proof -
  assume ok: "log_ok rf" and ev: "RequestVote now rf args = Some (rf', r)"
  have "log_ok (newGen rf (rvTerm args))" using ok by (simp add: log_ok_def)
  then show ?thesis
    using ev ok by (auto simp: kept_def RequestVote_def newGen_def Let_def tryVotingFor_ok persist_def split: if_splits)
qed

lemma kept_voteReply: "kept rf (fst (voteReply rf spt args reply))"
  using voteReply_outcome [of rf reply spt args] by (auto simp: kept_def newGen_def persist_def becomeLeader_def Let_def)

lemma kept_Start: "kept rf (fst (Start rf c))"
  by (simp add: kept_def Start_def Let_def append_entry_def persist_def bEffortKick_def)

lemma kept_AppendEntries:
  assumes "node_ok rf" "AppendEntries now rf args = Some (rf', r)"
  shows "kept rf rf'"
proof (cases "aeTerm args < currentTerm rf")
  case True
  then show ?thesis using assms(2) by (simp add: AppendEntries_stale)
next
  case False
  let ?rf = "accept_term now rf (aeTerm args)"
  have ok: "log_ok ?rf" using assms(1) by (auto simp: node_ok_def log_ok_def)
  have k: "kept rf ?rf" by (simp add: kept_def accept_term_def touched_def newGen_def toFollower_def persist_def)
  have ev: "AppendEntries_log ?rf args = Some (rf', r)" using assms(2) False by (simp add: AppendEntries_current)
  have "kept ?rf rf'"
  proof (cases rule: AppendEntries_log_cases [of args ?rf, case_names inside merge short conflict])
    case inside
    then show ?thesis using ev AppendEntries_log_inside [OF inside] by (auto simp: kept_def tryUpdateCommit_def bEffortKick_def Let_def)
  next
    case merge
    then show ?thesis
      using ev AppendEntries_log_merge [OF ok merge] by (auto simp: kept_def tryUpdateCommit_def bEffortKick_def persist_def Let_def)
  next
    case short
    then show ?thesis using ev AppendEntries_log_too_short [OF short] by auto
  next
    case (conflict t)
    then show ?thesis using ev AppendEntries_log_conflict [OF conflict] by auto
  qed
  then show ?thesis using k by (simp add: kept_def)
qed

lemma kept_append_reply:
  assumes "node_ok rf" "i < npeers rf" "singleAppend_reply rf i args reply = Some (rf', b)"
  shows "kept rf rf'"
proof -
  have fail: "kept rf rf'" if h: "state rf = Leader" "stepBack rf i x y z = Some rf'" for x y z
  proof -
    obtain v where "stepBack rf i x y z = Some (rf\<lparr>nextIndex := (nextIndex rf)[i := v]\<rparr>)"
      by (rule stepBack_step [OF assms(1) h(1) assms(2)])
    then show ?thesis using h(2) by (auto simp: kept_def)
  qed
  have ok: "kept rf rf'"
    if "state rf = Leader" "updateCommitIndex (rf\<lparr>matchIndex := (matchIndex rf)[i := x], nextIndex := (nextIndex rf)[i := y]\<rparr>) = Some rf'" for x y
    using updateCommitIndex_spec [of "rf\<lparr>matchIndex := (matchIndex rf)[i := x], nextIndex := (nextIndex rf)[i := y]\<rparr>"] that assms(1)
    by (auto simp: node_ok_def commit_outcome_def kept_def bEffortKick_def)
  show ?thesis
    using assms(3) fail ok by (auto simp: singleAppend_reply_def Let_def update_int_def split: if_splits)
qed

lemma kept_install_reply: "helpInstall_reply rf i args reply = Some rf' \<Longrightarrow> kept rf rf'"
  by (auto simp: kept_def helpInstall_reply_def update_int_def newGen_def persist_def split: if_splits)

lemma guardKick_outcome:
  "guardKick rf = Some (rf', ms) \<Longrightarrow> snapIndex rf' = snapIndex rf \<and> snapshot rf' = snapshot rf \<and>
     lastApplied rf' = max (lastApplied rf) (commitIndex rf)"
  by (auto simp: guardKick_def Let_def split: if_splits)

lemma Snapshot_outcome:
  "Snapshot rf x d = Some rf' \<Longrightarrow> lastApplied rf' = lastApplied rf \<and>
     (if x \<le> snapIndex rf then rf' = rf else snapIndex rf' = x \<and> snapshot rf' = d)"
  by (auto simp: Snapshot_def persist_def)

lemma InstallSnapshot_outcome:
  assumes "InstallSnapshot now rf args = Some (rf', r, ms)"
  obtains (ignored) "kept rf rf'" "ms = []"
  | (behind) "snapIndex rf < isLastIncludedIndex args" "isLastIncludedIndex args \<le> lastApplied rf"
      "lastApplied rf' = lastApplied rf" "snapIndex rf' = isLastIncludedIndex args" "snapshot rf' = isData args" "ms = []"
  | (ahead) "snapIndex rf < isLastIncludedIndex args" "lastApplied rf < isLastIncludedIndex args"
      "lastApplied rf' = isLastIncludedIndex args" "snapIndex rf' = isLastIncludedIndex args" "snapshot rf' = isData args"
      "ms = [\<lparr>amCommandValid = False, amCommand = None, amCommandIndex = 0, amSnapshotValid = True, amSnapshot = isData args,
         amSnapshotTerm = isLastIncludedTerm args, amSnapshotIndex = isLastIncludedIndex args\<rparr>]"
proof -
  let ?rf = "touched now (if isTerm args > currentTerm rf then newGen rf (isTerm args) else rf)"
  have f: "snapIndex ?rf = snapIndex rf" "lastApplied ?rf = lastApplied rf" "kept rf ?rf"
    by (auto simp: touched_def kept_def newGen_def persist_def)
  consider "isTerm args < currentTerm rf" | "\<not> isTerm args < currentTerm rf" "isLastIncludedIndex args \<le> snapIndex rf"
    | "\<not> isTerm args < currentTerm rf" "\<not> isLastIncludedIndex args \<le> snapIndex rf" by blast
  then show thesis
  proof cases
    case 1
    then show thesis using assms ignored by (simp add: InstallSnapshot_def)
  next
    case 2
    then show thesis using assms ignored f by (auto simp: InstallSnapshot_def Let_def)
  next
    case 3
    then show thesis
      using assms ahead behind f
      by (auto simp: InstallSnapshot_def Let_def setSnap_def update_int_def nth_int_def persist_def split: if_splits option.splits)
  qed
qed

section \<open>Steps of the cluster\<close>

text \<open>The events that do not concern snapshots and the service.\<close>

fun routine :: "('c, 'b) event \<Rightarrow> bool" where
  "routine (CAppendSend i j) = False"
| "routine (CInstallServe k now) = False"
| "routine (CApply i) = False"
| "routine (CSnapshot i x d) = False"
| "routine (CRestart i now) = False"
| "routine _ = True"

lemma kept_nth: "v < length (nodes s) \<Longrightarrow> kept (nodes s ! i) rf \<Longrightarrow> kept (nodes s ! v) ((nodes s)[i := rf] ! v)"
  by (cases "i = v") auto

lemma icArgs_closed: "icArgs ` set (xs[k := (xs ! k)\<lparr>icOpen := False\<rparr>]) = icArgs ` set xs"
proof -
  have "map icArgs (xs[k := (xs ! k)\<lparr>icOpen := False\<rparr>]) = map icArgs xs"
    by (cases "k < length xs") (simp_all add: map_update list_update_same_conv list_update_beyond)
  from arg_cong [OF this, of set] show ?thesis by simp
qed

lemma icArgs_all_closed: "icArgs ` set (map (\<lambda>c. if P c then c\<lparr>icOpen := False\<rparr> else c) xs) = icArgs ` set xs"
proof -
  have "icArgs \<circ> (\<lambda>c. if P c then c\<lparr>icOpen := False\<rparr> else c) = icArgs" by auto
  then show ?thesis unfolding set_map image_comp by simp
qed

lemma routine_step:
  assumes wf: "wf_cluster n s" and en: "enabled e s" and ex: "exec e s = Some s'" and e: "routine e" and v: "v < n"
  shows "length (nodes s') = length (nodes s) \<and> kept (nodes s ! v) (nodes s' ! v) \<and> outbox s' = outbox s \<and>
    icArgs ` set (icalls s') = icArgs ` set (icalls s)"
proof -
  note D = wf_clusterD [OF wf]
  note upd = kept_nth [of v s, unfolded D(1), OF v]
  show ?thesis
  proof (cases e)
    case (CTick i now)
    then show ?thesis using ex by (auto simp: Let_def start_round_def intro!: upd split: prod.splits if_splits) (metis fst_conv kept_tick)+
  next
    case (CVoteServe k now)
    then have "vcPeer (vcalls s ! k) < n" using en D(6) [of k] by (auto simp: wf_call_def)
    then have ok: "log_ok (nodes s ! vcPeer (vcalls s ! k))" using D(4) by (simp add: node_ok_def)
    show ?thesis using ex CVoteServe by (auto simp: Let_def intro!: upd dest: kept_RequestVote [OF ok])
  next
    case (CVoteRecv k)
    let ?o = "call_owner s (vcalls s ! k)" and ?spt = "rdSupporter (rounds s ! vcRound (vcalls s ! k))"
    obtain args reply where ar: "vcArgs (vcalls s ! k) = Some args" "vcReply (vcalls s ! k) = Some reply"
      using en CVoteRecv D(6) [of k] by (auto simp: wf_call_def)
    have "nodes s' = (nodes s)[?o := fst (voteReply (nodes s ! ?o) ?spt args reply)]" "outbox s' = outbox s" "icalls s' = icalls s"
      using ex CVoteRecv ar by (auto simp: Let_def split: prod.splits)
    then show ?thesis using upd [OF kept_voteReply] by simp
  next
    case (CStart i c)
    then show ?thesis using ex upd [OF kept_Start] by auto
  next
    case (CAppendServe k now)
    then have "acPeer (acalls s ! k) < n" using en D(7) [of k] by auto
    then show ?thesis using ex CAppendServe by (auto simp: Let_def intro!: upd dest: kept_AppendEntries [OF D(4)])
  next
    case (CAppendRecv k)
    then have o: "acOwner (acalls s ! k) < n" "acPeer (acalls s ! k) < n" using en D(7) [of k] by auto
    then have "acPeer (acalls s ! k) < npeers (nodes s ! acOwner (acalls s ! k))" using D(3) by simp
    then show ?thesis
      using ex CAppendRecv by (auto simp: Let_def intro!: upd dest: kept_append_reply [OF D(4) [OF o(1)]])
  next
    case (CInstallRecv k)
    then obtain reply rf where ev: "helpInstall_reply (nodes s ! icOwner (icalls s ! k)) (icPeer (icalls s ! k)) (icArgs (icalls s ! k)) reply = Some rf"
      and s': "s' = set_node (icOwner (icalls s ! k)) rf (s\<lparr>icalls := (icalls s)[k := (icalls s ! k)\<lparr>icOpen := False\<rparr>]\<rparr>)"
      using ex by (auto simp: Let_def)
    show ?thesis using upd [OF kept_install_reply [OF ev]] by (simp add: s' icArgs_closed)
  next
    case (CInstallDrop k)
    then have "s' = s\<lparr>icalls := (icalls s)[k := (icalls s ! k)\<lparr>icOpen := False\<rparr>]\<rparr>" using ex by simp
    then show ?thesis by (simp add: icArgs_closed)
  qed (use ex e in \<open>auto simp: Let_def\<close>)
qed

lemma append_send_step:
  assumes "exec (CAppendSend i j) s = Some s'"
  shows "nodes s' = nodes s \<and> outbox s' = outbox s \<and> (icalls s' = icalls s \<or> (\<exists>c. icalls s' = icalls s @ [c] \<and>
    isLastIncludedIndex (icArgs c) = snapIndex (nodes s ! i) \<and> isData (icArgs c) = snapshot (nodes s ! i)))"
proof -
  obtain plan where p: "singleAppend_args (nodes s ! i) j = Some plan" and s': "s' = (case plan of NotLeader \<Rightarrow> s
      | SendEntries args \<Rightarrow> s\<lparr>acalls := acalls s @ [\<lparr>acOwner = i, acPeer = j, acArgs = args, acReply = None, acOpen = True\<rparr>]\<rparr>
      | SendSnapshot args \<Rightarrow> s\<lparr>icalls := icalls s @ [\<lparr>icOwner = i, icPeer = j, icArgs = args, icReply = None, icOpen = True\<rparr>]\<rparr>)"
    using assms by auto
  have "isLastIncludedIndex args = snapIndex (nodes s ! i) \<and> isData args = snapshot (nodes s ! i)" if "plan = SendSnapshot args" for args
    using p that by (auto simp: singleAppend_args_def helpInstall_args_def Let_def split: if_splits)
  then show ?thesis by (cases plan) (auto simp: s')
qed

lemma restart_step:
  assumes wf: "wf_cluster n s" and i: "i < n" and ex: "exec (CRestart i now) s = Some s'"
  obtains rf where "nodes s' = (nodes s)[i := rf]" "lastApplied rf = 0" "snapIndex rf = snapIndex (nodes s ! i)"
    "snapshot rf = snapshot (nodes s ! i)" "outbox s' = outbox s" "icArgs ` set (icalls s') = icArgs ` set (icalls s)"
    "Make (npeers (nodes s ! i)) (me (nodes s ! i)) (Copy (persister (nodes s ! i))) now = Some rf"
proof -
  let ?rf = "nodes s ! i"
  obtain rf where m: "Make (npeers ?rf) (me ?rf) (persister ?rf) now = Some rf" "persistent_state rf = persistent_state ?rf" "snapshot rf = snapshot ?rf"
    by (rule Make_step [OF wf_clusterD(4) [OF wf i]])
  have "Copy (persister ?rf) = persister ?rf" by simp
  moreover have "lastApplied rf = 0" using m(1) by (auto simp: Make_def readPersist_def initRaft_def split: if_splits option.splits)
  moreover have "icArgs ` set (map (\<lambda>c. if icOwner c = i then c\<lparr>icOpen := False\<rparr> else c) (icalls s)) = icArgs ` set (icalls s)"
    by (rule icArgs_all_closed)
  ultimately show thesis using that [of rf] ex m by (auto simp: persistent_state_def)
qed

text \<open>The snapshots in a cluster.\<close>

definition held :: "('c, 'b) cluster \<Rightarrow> (int \<times> 'b list) set" where
  "held s = (\<lambda>rf. (snapIndex rf, snapshot rf)) ` set (nodes s) \<union>
     (\<lambda>args. (isLastIncludedIndex args, isData args)) ` icArgs ` set (icalls s) \<union>
     (\<lambda>m. (amSnapshotIndex m, amSnapshot m)) ` {m. m \<in> set (concat (outbox s)) \<and> amSnapshotValid m}"

lemma heldI:
  "v < length (nodes s) \<Longrightarrow> (snapIndex (nodes s ! v), snapshot (nodes s ! v)) \<in> held s"
  "args \<in> icArgs ` set (icalls s) \<Longrightarrow> (isLastIncludedIndex args, isData args) \<in> held s"
  "v < length (outbox s) \<Longrightarrow> m \<in> set (outbox s ! v) \<Longrightarrow> amSnapshotValid m \<Longrightarrow> (amSnapshotIndex m, amSnapshot m) \<in> held s"
  unfolding held_def by (auto simp: image_iff) (metis nth_mem)+

text \<open>A state holds only what another does, if its peers, requests and messages do.\<close>

lemma held_subset:
  assumes "\<And>v. v < length (nodes s') \<Longrightarrow> (snapIndex (nodes s' ! v), snapshot (nodes s' ! v)) \<in> H"
    and "\<And>args. args \<in> icArgs ` set (icalls s') \<Longrightarrow> (isLastIncludedIndex args, isData args) \<in> H"
    and "\<And>v m. v < length (outbox s') \<Longrightarrow> m \<in> set (outbox s' ! v) \<Longrightarrow> amSnapshotValid m \<Longrightarrow> (amSnapshotIndex m, amSnapshot m) \<in> H"
  shows "held s' \<subseteq> H"
proof -
  have "(snapIndex rf, snapshot rf) \<in> H" if "rf \<in> set (nodes s')" for rf using assms(1) that by (auto simp: in_set_conv_nth)
  moreover have "(amSnapshotIndex m, amSnapshot m) \<in> H" if h: "m \<in> set (concat (outbox s'))" "amSnapshotValid m" for m
  proof -
    obtain ms where "ms \<in> set (outbox s')" "m \<in> set ms" using h(1) by auto
    then obtain v where "v < length (outbox s')" "m \<in> set (outbox s' ! v)" by (auto simp: in_set_conv_nth [of ms])
    then show ?thesis using assms(3) h(2) by blast
  qed
  ultimately show ?thesis using assms(2) unfolding held_def by blast
qed

lemma collect_applies_commands: "collect_applies rf i stop = Some ms \<Longrightarrow> m \<in> set ms \<Longrightarrow> amCommandValid m \<and> \<not> amSnapshotValid m"
proof (induction rf i stop arbitrary: ms rule: collect_applies.induct)
  case (1 rf i stop)
  show ?case
  proof (cases "i \<le> stop")
    case True
    show ?thesis
      using 1 True unfolding collect_applies.simps [of rf i stop] by (cases "i \<le> snapIndex rf") (auto split: bind_splits, blast+)
  qed (use 1 in \<open>simp add: collect_applies.simps [of rf i stop]\<close>)
qed

lemma guardKick_commands: "guardKick rf = Some (rf', ms) \<Longrightarrow> m \<in> set ms \<Longrightarrow> amCommandValid m \<and> \<not> amSnapshotValid m"
  using collect_applies_commands by (fastforce simp: guardKick_def Let_def split: if_splits bind_splits)

lemma held_step:
  assumes wf: "wf_cluster n s" and out: "length (outbox s) = n" and en: "enabled e s" and ex: "exec e s = Some s'"
  shows "held s' \<subseteq> held s \<union> {(x, d). \<exists>i. e = CSnapshot i x d}"
proof -
  note D = wf_clusterD [OF wf]
  have upd: "(snapIndex ((nodes s)[i := rf] ! v), snapshot ((nodes s)[i := rf] ! v)) \<in> H"
    if "(snapIndex rf, snapshot rf) \<in> H" "held s \<subseteq> H" "v < length (nodes s)" for i rf v H
    using that heldI(1) [of v s] by (cases "i = v") auto
  have emit: "(amSnapshotIndex m, amSnapshot m) \<in> H"
    if "m \<in> set (((outbox s)[i := outbox s ! i @ ms]) ! v)" "v < length (outbox s)" "amSnapshotValid m"
      "\<And>m. m \<in> set ms \<Longrightarrow> amSnapshotValid m \<Longrightarrow> (amSnapshotIndex m, amSnapshot m) \<in> H" "held s \<subseteq> H" for m i ms v H
    using that heldI(3) [of v s m] by (cases "i = v") auto
  show ?thesis
  proof (cases "routine e")
    case True
    show ?thesis
    proof (cases "n = 0")
      case z: True
      then have "nodes s = []" "vcalls s = []" "acalls s = []" "icalls s = []" using D(1) D(6-8) [of 0] by (auto simp: wf_call_def)
      then show ?thesis using en True by (cases e) auto
    next
      case False
      note R = routine_step [OF wf en ex True]
      then have len: "length (nodes s') = n" "outbox s' = outbox s" "icArgs ` set (icalls s') = icArgs ` set (icalls s)"
        using D(1) False by blast+
      have "(snapIndex (nodes s' ! v), snapshot (nodes s' ! v)) \<in> held s" if "v < length (nodes s')" for v
        using R [of v] heldI(1) [of v s] that len(1) D(1) by (simp add: kept_def)
      then show ?thesis using heldI(2,3) [of _ s] len by (intro le_supI1 held_subset) auto
    qed
  next
    case False
    show ?thesis
    proof (cases e)
      case (CAppendSend i j)
      have i: "i < length (nodes s)" using en CAppendSend by simp
      note A = append_send_step [OF ex [unfolded CAppendSend]]
      have "(isLastIncludedIndex args, isData args) \<in> held s" if "args \<in> icArgs ` set (icalls s')" for args
      proof (cases "args \<in> icArgs ` set (icalls s)")
        case False
        then have "isLastIncludedIndex args = snapIndex (nodes s ! i) \<and> isData args = snapshot (nodes s ! i)" using A that by auto
        then show ?thesis using heldI(1) [OF i] by simp
      qed (rule heldI(2))
      moreover have "nodes s' = nodes s" "outbox s' = outbox s" using A by auto
      ultimately show ?thesis using heldI [of _ s] by (intro le_supI1 held_subset) auto
    next
      case (CInstallServe k now)
      let ?c = "icalls s ! k" and ?i = "icPeer (icalls s ! k)"
      have k: "k < length (icalls s)" using en CInstallServe by simp
      obtain rf r ms where ev: "InstallSnapshot now (nodes s ! ?i) (icArgs ?c) = Some (rf, r, ms)"
        and s': "s' = emit ?i ms (set_node ?i rf (s\<lparr>icalls := (icalls s)[k := ?c\<lparr>icReply := Some r\<rparr>]\<rparr>))"
        using ex CInstallServe by (auto simp: Let_def)
      have i: "?i < length (nodes s)" using D(1) D(8) [of k] k by simp
      have old: "(isLastIncludedIndex (icArgs ?c), isData (icArgs ?c)) \<in> held s" using k by (intro heldI(2)) simp
      have "(snapIndex rf, snapshot rf) \<in> held s" and ms: "\<And>m. m \<in> set ms \<Longrightarrow> (amSnapshotIndex m, amSnapshot m) \<in> held s"
        using ev by (cases rule: InstallSnapshot_outcome; use old heldI(1) [OF i] in \<open>auto simp: kept_def\<close>)+
      moreover have "(isLastIncludedIndex args, isData args) \<in> held s" if "args \<in> icArgs ` set (icalls s')" for args
        using that heldI(2) [of args s] old by (auto simp: s' emit_def dest!: set_updateD)
      ultimately show ?thesis
        by (intro le_supI1 held_subset) (auto simp: s' emit_def intro: upd emit [OF _ _ _ ms])
    next
      case (CApply i)
      then obtain rf ms where ev: "guardKick (nodes s ! i) = Some (rf, ms)" and s': "s' = emit i ms (set_node i rf s)" using ex by auto
      have i: "i < length (nodes s)" using en CApply by simp
      have "(snapIndex rf, snapshot rf) \<in> held s" using guardKick_outcome [OF ev] heldI(1) [OF i] by simp
      then show ?thesis
        using heldI(2) [of _ s] guardKick_commands [OF ev]
        by (intro le_supI1 held_subset) (auto simp: s' emit_def intro: upd emit)
    next
      case (CSnapshot i x d)
      then obtain rf where ev: "Snapshot (nodes s ! i) x d = Some rf" and s': "s' = set_node i rf s" using ex by auto
      have i: "i < length (nodes s)" using en CSnapshot by simp
      have "(snapIndex rf, snapshot rf) \<in> held s \<union> {(x, d)}" using Snapshot_outcome [OF ev] heldI(1) [OF i] by (auto split: if_splits)
      then have "(snapIndex ((nodes s)[i := rf] ! v), snapshot ((nodes s)[i := rf] ! v)) \<in> held s \<union> {(x, d)}" if "v < length (nodes s)" for v
        using that by (intro upd) auto
      then have "held s' \<subseteq> held s \<union> {(x, d)}"
        using heldI(2,3) [of _ s] by (intro held_subset) (simp_all add: s')
      then show ?thesis using CSnapshot by blast
    next
      case (CRestart i now)
      have i: "i < n" using en CRestart D(1) by simp
      obtain rf where rf: "nodes s' = (nodes s)[i := rf]" "snapIndex rf = snapIndex (nodes s ! i)" "snapshot rf = snapshot (nodes s ! i)"
        "outbox s' = outbox s" "icArgs ` set (icalls s') = icArgs ` set (icalls s)"
        by (rule restart_step [OF wf i ex [unfolded CRestart]])
      then have "(snapIndex rf, snapshot rf) \<in> held s" using heldI(1) [of i s] i D(1) by simp
      then have "(snapIndex ((nodes s)[i := rf] ! v), snapshot ((nodes s)[i := rf] ! v)) \<in> held s" if "v < length (nodes s)" for v
        using that by (intro upd) auto
      then show ?thesis using rf(1,4,5) heldI(2,3) [of _ s] by (intro le_supI1 held_subset) simp_all
    qed (use False in auto)
  qed
qed

text \<open>Without snapshots of the service there are none.\<close>

definition snapless :: "('c, 'b) cluster \<Rightarrow> bool" where
  "snapless s \<longleftrightarrow> (\<forall>(x, d) \<in> held s. x = 0)"

lemma snapless_init: "snapless (init_cluster n)"
  by (auto simp: snapless_def held_def init_cluster_def initRaft_def)

lemma snaplessD:
  assumes "snapless s"
  shows "v < length (nodes s) \<Longrightarrow> snapIndex (nodes s ! v) = 0" "k < length (icalls s) \<Longrightarrow> isLastIncludedIndex (icArgs (icalls s ! k)) = 0"
    "v < length (outbox s) \<Longrightarrow> m \<in> set (outbox s ! v) \<Longrightarrow> msg_sim n a m \<Longrightarrow> amCommandValid m"
proof -
  show "v < length (nodes s) \<Longrightarrow> snapIndex (nodes s ! v) = 0" using assms heldI(1) [of v s] by (auto simp: snapless_def)
  show "k < length (icalls s) \<Longrightarrow> isLastIncludedIndex (icArgs (icalls s ! k)) = 0"
    using assms heldI(2) [of "icArgs (icalls s ! k)" s] by (auto simp: snapless_def)
  assume m: "v < length (outbox s)" "m \<in> set (outbox s ! v)" "msg_sim n a m"
  then have "\<not> amSnapshotValid m \<or> amSnapshotIndex m = 0" using assms heldI(3) [of v s m] by (auto simp: snapless_def)
  then show "amCommandValid m" using m(3) by (auto simp: msg_sim_def split: if_splits)
qed

lemma snapless_step:
  assumes "wf_cluster n s" "length (outbox s) = n" "enabled e s" "exec e s = Some s'" "\<not> takes_snapshot e" "snapless s"
  shows "snapless s'"
  using held_step [OF assms(1-4)] assms(5,6) by (fastforce simp: snapless_def)

end
