(* ===== verification/RaftService.thy ===== *)
theory RaftService
  imports SnapshotOrigin
begin

text \<open>
  A service on top of Raft. \<open>svc_step\<close> composes a cluster with a service on every peer: the service reads
  what its peer put on \<^verbatim>\<open>applyCh\<close>, in that order, hands snapshots back, and is started again from the
  snapshot of the persister after a crash. The locale \<open>service\<close> is what Raft relies on and promises:
  a service that follows any log in order ends up following one log on all peers, at every moment of every run.
\<close>

section \<open>The committed log\<close>

text \<open>\<open>ops\<close> has the commands of everything that is committed.\<close>

definition log_of :: "nat \<Rightarrow> 'c spec \<Rightarrow> 'c list \<Rightarrow> bool" where
  "log_of n a ops \<longleftrightarrow> (\<forall>k T. chosen n a k T \<longrightarrow> k \<le> length ops \<and>
     (\<forall>i. 0 < i \<and> i \<le> k \<longrightarrow> entCommand (spLead a T ! i) = Some (ops ! (i - 1))))"

lemma log_ofD:
  assumes "log_of n a ops" "chosen n a k T" "0 < i" "i \<le> k"
  shows "i \<le> length ops" "entCommand (spLead a T ! i) = Some (ops ! (i - 1))"
  using assms by (auto simp: log_of_def intro: order_trans)

text \<open>What is committed stays committed.\<close>

lemma log_of_back:
  assumes "evolves a a'" "log_of n a' ops"
  shows "log_of n a ops"
  unfolding log_of_def
proof (intro allI impI)
  fix k T assume c: "chosen n a k T"
  then have c': "chosen n a' k T" by (rule evolves_chosen [OF assms(1)])
  have "spLead a' T ! i = spLead a T ! i" if "i \<le> k" for i
    using evolves_take [OF assms(1), of i T] that c by (metis chosen_def lessI nth_take order_le_less_trans)
  moreover have "k \<le> length ops" "\<And>i. 0 < i \<Longrightarrow> i \<le> k \<Longrightarrow> entCommand (spLead a' T ! i) = Some (ops ! (i - 1))"
    using assms(2) c' by (auto simp: log_of_def)
  ultimately show "k \<le> length ops \<and> (\<forall>i. 0 < i \<and> i \<le> k \<longrightarrow> entCommand (spLead a T ! i) = Some (ops ! (i - 1)))"
    by metis
qed

lemma finite_acks: "(spec_step n C)\<^sup>*\<^sup>* a a' \<Longrightarrow> finite (spAck a) \<Longrightarrow> finite (spAck a')"
proof (induction rule: rtranclp_induct)
  case (step b c)
  from step(2) show ?case by (cases rule: spec_step.cases) (use step in auto)
qed

text \<open>The logs hold only commands of \<open>C\<close>, and \<^verbatim>\<open>nil\<close> at index 0.\<close>

definition known :: "'c set \<Rightarrow> 'c spec \<Rightarrow> bool" where
  "known C a \<longleftrightarrow> (\<forall>v. \<forall>e \<in> set (spLog a v). entCommand e \<in> insert None (Some ` C)) \<and>
     (\<forall>T. \<forall>e \<in> set (spLead a T). entCommand e \<in> insert None (Some ` C))"

lemma known_mono: "known C a \<Longrightarrow> C \<subseteq> D \<Longrightarrow> known D a"
  unfolding known_def by blast

lemma known_steps: "(spec_step n C)\<^sup>*\<^sup>* a a' \<Longrightarrow> known C a \<Longrightarrow> known C a'"
proof (induction rule: rtranclp_induct)
  case (step b c)
  note K = step.IH [OF step.prems]
  have "set (adopt (spLog b v) (take (Suc m) (spLead b t))) \<subseteq> set (spLog b v) \<union> set (spLead b t)" for v m t
    by (auto simp: adopt_def dest: in_set_takeD)
  then have acc: "entCommand e \<in> insert None (Some ` C)" if "e \<in> set (adopt (spLog b v) (take (Suc m) (spLead b t)))" for e v m t
    using K that unfolding known_def by blast
  from step(2) show ?case by (cases rule: spec_step.cases) (use K acc in \<open>simp_all add: known_def\<close>)
qed

text \<open>The shortest log of what is committed.\<close>

lemma log_of_exists:
  assumes "spec_inv n a" "finite (spAck a)"
  obtains ops where "log_of n a ops" "\<forall>ops'. log_of n a ops' \<longrightarrow> prefix ops ops'" "\<forall>C. known C a \<longrightarrow> set ops \<subseteq> C"
proof (cases "\<exists>k T. chosen n a k T")
  case True
  let ?K = "{k. \<exists>T. chosen n a k T}"
  have "k \<le> Max ((\<lambda>(u, T, m). m) ` spAck a)" if k: "chosen n a k T" for k T
  proof -
    obtain Q where Q: "majority n Q" "\<forall>u \<in> Q. acked a u k T" using k by (auto simp: chosen_def)
    then obtain u where "acked a u k T" using majority_overlap [OF Q(1) Q(1)] by auto
    then obtain m where "k \<le> m" "(u, T, m) \<in> spAck a" by (auto simp: acked_def)
    moreover from this have "m \<in> (\<lambda>(u, T, m). m) ` spAck a" by force
    ultimately show ?thesis using Max_ge [of "(\<lambda>(u, T, m). m) ` spAck a" m] finite_imageI [OF assms(2)] order_trans by blast
  qed
  then have fin: "finite ?K" by (intro finite_subset [OF _ finite_atMost]) auto
  have "Max ?K \<in> ?K" by (rule Max_in [OF fin]) (use True in auto)
  moreover have "\<And>k. k \<in> ?K \<Longrightarrow> k \<le> Max ?K" by (rule Max_ge [OF fin])
  ultimately obtain T where T: "chosen n a (Max ?K) T" and top: "\<And>k T. chosen n a k T \<Longrightarrow> k \<le> Max ?K" by blast
  define K where "K = Max ?K"
  note T = T [folded K_def] and top = top [folded K_def]
  have len: "K < length (spLead a T)" using T by (simp add: chosen_def)
  then have "spLead a T \<noteq> []" by auto
  then have lg: "legit a (spLead a T)" using spec_invD(3) [OF assms(1)] by (simp add: logs_ok_def)
  define ops where "ops = map (\<lambda>i. the (entCommand (spLead a T ! Suc i))) [0..<K]"
  have "entCommand (spLead a T' ! i) = Some (ops ! (i - 1))" if c: "chosen n a k T'" "0 < i" "i \<le> k" for k T' i
  proof -
    have i: "i \<le> K" "i < length (spLead a T)" using top [OF c(1)] c(3) len by simp_all
    have "spLead a T' ! i = spLead a T ! i" by (rule chosen_agree [OF assms(1) c(1) T c(3) i(1)])
    moreover have "entCommand (spLead a T ! i) \<noteq> None" using lg c(2) i(2) by (simp add: legit_def)
    ultimately show ?thesis using c(2) i(1) by (auto simp: ops_def)
  qed
  moreover have "length ops = K" by (simp add: ops_def)
  ultimately have log: "log_of n a ops" using top unfolding log_of_def by blast
  have "prefix ops ops'" if "log_of n a ops'" for ops'
  proof -
    have len': "K \<le> length ops'" using that T by (auto simp: log_of_def)
    have "ops ! i = ops' ! i" if i: "i < K" for i
      using log_ofD(2) [OF log T, of "Suc i"] log_ofD(2) [OF \<open>log_of n a ops'\<close> T, of "Suc i"] i by simp
    then have "ops = take K ops'" using \<open>length ops = K\<close> len' by (intro nth_equalityI) auto
    then show ?thesis by (metis take_is_prefix)
  qed
  moreover have "set ops \<subseteq> C" if "known C a" for C
  proof
    fix c assume "c \<in> set ops"
    then obtain i where i: "i < K" "c = the (entCommand (spLead a T ! Suc i))" by (auto simp: ops_def)
    have "spLead a T ! Suc i \<in> set (spLead a T)" using i(1) len by simp
    moreover have "entCommand (spLead a T ! Suc i) \<noteq> None" using lg i(1) len by (simp add: legit_def)
    ultimately show "c \<in> C" using that i(2) unfolding known_def by force
  qed
  ultimately show thesis using that log by blast
next
  case False
  then show thesis using that [of "[]"] by (simp add: log_of_def)
qed

section \<open>Messages\<close>

definition plain_msg :: "int \<Rightarrow> 'c \<Rightarrow> ('c, 'b) ApplyMsg" where
  "plain_msg i c = \<lparr>amCommandValid = True, amCommand = Some c, amCommandIndex = i,
     amSnapshotValid = False, amSnapshot = [], amSnapshotTerm = 0, amSnapshotIndex = 0\<rparr>"

definition snap_msg :: "int \<Rightarrow> int \<Rightarrow> 'b list \<Rightarrow> ('c, 'b) ApplyMsg" where
  "snap_msg t i d = \<lparr>amCommandValid = False, amCommand = None, amCommandIndex = 0,
     amSnapshotValid = True, amSnapshot = d, amSnapshotTerm = t, amSnapshotIndex = i\<rparr>"

text \<open>How far a peer has told its service to go.\<close>

definition told_index :: "('c, 'b) Raft \<Rightarrow> int" where
  "told_index rf = max (lastApplied rf) (snapIndex rf)"

lemma kept_told: "kept rf rf' \<Longrightarrow> told_index rf' = told_index rf"
  by (simp add: kept_def told_index_def)

text \<open>The applier hands over the committed commands after \<open>told_index\<close>.\<close>

lemma guardKick_feed:
  assumes sim: "node_sim n a v rf" and log: "log_of n a ops" and ev: "guardKick rf = Some (rf', ms)"
  shows "ms = map (\<lambda>j. plain_msg j (ops ! nat (j - 1))) [told_index rf + 1..told_index rf']" "told_index rf \<le> told_index rf'" "told_index rf' \<le> max (told_index rf) (int (length ops))"
    "lastApplied rf \<le> lastApplied rf'" "told_index rf < told_index rf' \<Longrightarrow> told_index rf' = lastApplied rf'"
proof -
  note N = node_simD [OF sim]
  let ?c = "commitIndex rf" and ?rf = "rf\<lparr>wakeCh := False\<rparr>"
  note out = guardKick_outcome [OF ev]
  show "told_index rf \<le> told_index rf'" "lastApplied rf \<le> lastApplied rf'" "told_index rf < told_index rf' \<Longrightarrow> told_index rf' = lastApplied rf'" using out by (auto simp: told_index_def)
  have cmd: "command_msg ?rf j = plain_msg j (ops ! nat (j - 1)) \<and> j \<le> int (length ops)" if j: "told_index rf < j" "j \<le> ?c" for j
  proof -
    have pos: "0 < j" using j(1) log_simD(2) [OF N(1)] by (simp add: told_index_def)
    have "committed n a (spLog a v) ?c (currentTerm rf)" using N(5) j by (auto simp: told_index_def)
    then obtain k T where k: "nat j \<le> k" "chosen n a k T" "spLog a v ! nat j = spLead a T ! nat j"
      using committed_nth [OF _ pos j(2)] by blast
    have "get rf j = Some (spLog a v ! nat j)"
      using log_sim_get [OF N(1)] j commit_in_log [OF sim] by (simp add: told_index_def)
    moreover have "get ?rf j = get rf j" by (simp add: get_def)
    moreover have "entCommand (spLead a T ! nat j) = Some (ops ! (nat j - 1))" "nat j \<le> length ops"
      using log_ofD [OF log k(2), of "nat j"] pos k(1) by simp_all
    ultimately show ?thesis using k(3) pos by (auto simp: command_msg_def plain_msg_def nat_diff_distrib nat_le_iff)
  qed
  show "ms = map (\<lambda>j. plain_msg j (ops ! nat (j - 1))) [told_index rf + 1..told_index rf']"
  proof (cases "?c < lastApplied rf + 1")
    case True
    then have "ms = []" "told_index rf' = told_index rf" using ev out by (auto simp: guardKick_def Let_def told_index_def)
    then show ?thesis by simp
  next
    case False
    then have "collect_applies ?rf (lastApplied rf + 1) ?c = Some ms" using ev by (auto simp: guardKick_def Let_def)
    moreover have "?c < logLength ?rf" using commit_in_log [OF sim] log_sim_length [OF N(1)] by (simp add: logLength_def)
    ultimately have ms: "ms = map (command_msg ?rf) [told_index rf + 1..?c]"
      using collect_applies_spec [of ?c ?rf "lastApplied rf + 1"] by (simp add: told_index_def max_def split: if_splits)
    have "[told_index rf + 1..?c] = [told_index rf + 1..told_index rf']" using False out by (auto simp: told_index_def max_def)
    moreover have "ms = map (\<lambda>j. plain_msg j (ops ! nat (j - 1))) [told_index rf + 1..?c]" unfolding ms using cmd by auto
    ultimately show ?thesis by simp
  qed
  show "told_index rf' \<le> max (told_index rf) (int (length ops))"
  proof (cases "told_index rf < ?c")
    case True
    then show ?thesis using cmd [of ?c] out by (auto simp: told_index_def)
  qed (use out in \<open>auto simp: told_index_def\<close>)
qed

section \<open>What a service reads\<close>

text \<open>
  \<open>feed enc ops p ms q\<close>: the messages \<open>ms\<close> take a service from position \<open>p\<close> of the log \<open>ops\<close> to position
  \<open>q\<close>, command by command or by the snapshot \<open>enc ops j\<close> of a later position.
\<close>

fun feed :: "('c list \<Rightarrow> nat \<Rightarrow> 'b list) \<Rightarrow> 'c list \<Rightarrow> nat \<Rightarrow> ('c, 'b) ApplyMsg list \<Rightarrow> nat \<Rightarrow> bool" where
  "feed enc ops p [] q \<longleftrightarrow> p = q"
| "feed enc ops p (m # ms) q \<longleftrightarrow>
     p < length ops \<and> m = plain_msg (int p + 1) (ops ! p) \<and> feed enc ops (Suc p) ms q \<or>
     (\<exists>t j. p \<le> j \<and> 0 < j \<and> j \<le> length ops \<and> m = snap_msg t (int j) (enc ops j) \<and> feed enc ops j ms q)"

lemma feed_append: "feed enc ops p ms q \<Longrightarrow> feed enc ops q ms' r \<Longrightarrow> feed enc ops p (ms @ ms') r"
  by (induction ms arbitrary: p) auto

lemma feed_commands:
  assumes "p \<le> q" "q \<le> length ops"
  shows "feed enc ops p (map (\<lambda>j. plain_msg j (ops ! nat (j - 1))) [int p + 1..int q]) q"
  using assms
proof (induction "q - p" arbitrary: p)
  case (Suc d)
  then have p: "p < q" by simp
  then have "[int p + 1..int q] = (int p + 1) # [int (Suc p) + 1..int q]" using upto_rec1 [of "int p + 1" "int q"] by (simp add: add.commute)
  moreover have "feed enc ops (Suc p) (map (\<lambda>j. plain_msg j (ops ! nat (j - 1))) [int (Suc p) + 1..int q]) q"
    by (rule Suc.hyps(1)) (use Suc.hyps(2) Suc.prems p in auto)
  ultimately show ?case using p Suc.prems by auto
qed simp

text \<open>A snapshot that a log has at an index; at index 0 there is none.\<close>

definition stored :: "('c list \<Rightarrow> nat \<Rightarrow> 'b list) \<Rightarrow> 'c list \<Rightarrow> int \<times> 'b list \<Rightarrow> bool" where
  "stored enc ops = (\<lambda>(x, d). if x = 0 then d = [] else 0 < x \<and> nat x \<le> length ops \<and> d = enc ops (nat x))"

text \<open>What an event of the cluster puts on the channels, apart from snapshots and restarts.\<close>

fun by_service :: "('c, 'b) event \<Rightarrow> bool" where
  "by_service (CSnapshot i x d) = True"
| "by_service (CRestart i now) = True"
| "by_service _ = False"

lemma raft_feed:
  assumes sim: "sim n s a" and wf: "wf_cluster n s" and log: "log_of n a ops" and v: "v < n" and la: "0 \<le> lastApplied (nodes s ! v)"
    and en: "enabled e s" and ex: "exec e s = Some s'" and e: "\<not> by_service e" and held: "\<forall>h \<in> held s. stored enc ops h"
    and old: "told_index (nodes s ! v) \<le> int (length ops)"
  obtains ms where "outbox s' ! v = outbox s ! v @ ms" "feed enc ops (nat (told_index (nodes s ! v))) ms (nat (told_index (nodes s' ! v)))"
    "told_index (nodes s' ! v) \<le> int (length ops)" "lastApplied (nodes s ! v) \<le> lastApplied (nodes s' ! v)"
    "\<forall>m \<in> set ms. amCommandIndex m \<le> lastApplied (nodes s' ! v)"
proof -
  note D = wf_clusterD [OF wf] and N = node_simD [OF simD(3) [OF sim v]]
  have len: "length (outbox s) = n" "length (nodes s) = n" using simD(1) [OF sim] D(1) by auto
  let ?rf = "nodes s ! v"
  note stay = that
  have idle: thesis if "kept ?rf (nodes s' ! v)" "outbox s' ! v = outbox s ! v"
    using stay [of "[]"] that old kept_told [OF that(1)] by (auto simp: kept_def)
  show thesis
  proof (cases "routine e")
    case True
    then show thesis using idle routine_step [OF wf en ex True v] by simp
  next
    case False
    show thesis
    proof (cases e)
      case (CAppendSend i j)
      then show thesis using idle append_send_step [of i j s s'] ex by auto
    next
      case (CApply i)
      then obtain rf ms where ev: "guardKick (nodes s ! i) = Some (rf, ms)" and s': "s' = emit i ms (set_node i rf s)" using ex by auto
      show thesis
      proof (cases "i = v")
        case True
        note G = guardKick_feed [OF simD(3) [OF sim v] log ev [unfolded True]]
        have t: "0 \<le> told_index ?rf" using la by (simp add: told_index_def)
        have "feed enc ops (nat (told_index ?rf)) ms (nat (told_index rf))"
          using feed_commands [of "nat (told_index ?rf)" "nat (told_index rf)" ops enc] G(1-3) t old by simp
        moreover have "outbox s' ! v = outbox s ! v @ ms" "nodes s' ! v = rf" using v len True by (auto simp: s' emit_def)
        moreover have "amCommandIndex m \<le> lastApplied rf" if "m \<in> set ms" for m
          using that G(5) unfolding G(1) by (auto simp: plain_msg_def)
        ultimately show thesis using stay [of ms] G(3,4) old by simp
      qed (use idle in \<open>auto simp: s' emit_def\<close>)
    next
      case (CInstallServe k now)
      let ?c = "icalls s ! k" and ?i = "icPeer (icalls s ! k)"
      have k: "k < length (icalls s)" using en CInstallServe by simp
      then have i: "?i < n" using D(8) [of k] by simp
      obtain rf r ms where ev: "InstallSnapshot now (nodes s ! ?i) (icArgs ?c) = Some (rf, r, ms)"
        and s': "s' = emit ?i ms (set_node ?i rf (s\<lparr>icalls := (icalls s)[k := ?c\<lparr>icReply := Some r\<rparr>]\<rparr>))"
        using ex CInstallServe by (auto simp: Let_def)
      let ?x = "isLastIncludedIndex (icArgs ?c)"
      have st: "stored enc ops (?x, isData (icArgs ?c))" using held heldI(2) [of "icArgs ?c" s] k by auto
      show thesis
      proof (cases "?i = v")
        case True
        have out: "outbox s' ! v = outbox s ! v @ ms" "nodes s' ! v = rf" using v len True by (auto simp: s' emit_def)
        from ev [unfolded True] show thesis
        proof (cases rule: InstallSnapshot_outcome)
          case ignored
          then show thesis using idle out by simp
        next
          case behind
          then show thesis using stay [of "[]"] out old by (auto simp: told_index_def)
        next
          case ahead
          then have x: "0 < ?x" "told_index ?rf \<le> ?x" using la by (auto simp: told_index_def)
          then have "nat ?x \<le> length ops" "isData (icArgs ?c) = enc ops (nat ?x)" using st by (auto simp: stored_def)
          then have "feed enc ops (nat (told_index ?rf)) ms (nat ?x)" "told_index rf = ?x"
            using x ahead(3-6) by (auto simp: snap_msg_def told_index_def)
          then show thesis using stay [of ms] out ahead(2-6) x \<open>nat ?x \<le> length ops\<close> by auto
        qed
      qed (use idle in \<open>auto simp: s' emit_def\<close>)
    qed (use e False in auto)
  qed
qed

section \<open>The composed system\<close>

text \<open>
  \<open>syState\<close> is the state of the services of all peers, \<open>syUnread\<close> the messages for \<^verbatim>\<open>applyCh\<close> that each has not
  read yet, and \<open>syTodo\<close> the calls of \<^verbatim>\<open>Snapshot\<close> that its goroutines have not made yet. The messages are sent by \<^verbatim>\<open>guardKick\<close>
  and by the goroutines of \<^verbatim>\<open>InstallSnapshot\<close> after the lock is released, so that the next one to be read
  may be any of them: \<open>SDeliver v k\<close> is the reading of the one before which \<open>k\<close> others were produced.
\<close>

record ('g, 'c, 'b) system =
  syRaft :: "('c, 'b) cluster"
  syState :: 'g
  syUnread :: "('c, 'b) ApplyMsg list list"
  syTodo :: "(int \<times> 'b list) list list"

datatype ('c, 'b, 'h) svc_event =
    SRaft "('c, 'b) event"
  | SDeliver nat nat
  | SCompact nat nat
  | SRestart nat int
  | SHandler nat 'h

definition svc_init :: "nat \<Rightarrow> 'g \<Rightarrow> ('g, 'c, 'b) system" where
  "svc_init n g = \<lparr>syRaft = init_cluster n, syState = g, syUnread = replicate n [], syTodo = replicate n []\<rparr>"

text \<open>
  The parameters are the service: \<open>deliver rf v m\<close> is its apply loop on message \<open>m\<close> of peer \<open>v\<close>, \<open>boot rf v now\<close> its
  start from what the crashed peer \<open>rf\<close> has saved, and \<open>act h v\<close> a step of its handlers. A crash ends the
  goroutines of the old instance and with them the messages it has not read.
\<close>

definition arrived :: "('c, 'b) cluster \<Rightarrow> ('c, 'b) cluster \<Rightarrow> ('c, 'b) ApplyMsg list list \<Rightarrow> ('c, 'b) ApplyMsg list list" where
  "arrived s r qs = map (\<lambda>v. qs ! v @ drop (length (outbox s ! v)) (outbox r ! v)) [0..<length qs]"

fun svc_step ::
  "(('c, 'b) Raft \<Rightarrow> nat \<Rightarrow> ('c, 'b) ApplyMsg \<Rightarrow> 'g \<Rightarrow> ('g \<times> (int \<times> 'b list) option) option) \<Rightarrow>
   (('c, 'b) Raft \<Rightarrow> nat \<Rightarrow> int \<Rightarrow> 'g \<Rightarrow> 'g option) \<Rightarrow> ('h \<Rightarrow> nat \<Rightarrow> 'g \<Rightarrow> 'g option) \<Rightarrow>
   ('c, 'b, 'h) svc_event \<Rightarrow> ('g, 'c, 'b) system \<Rightarrow> ('g, 'c, 'b) system option" where
  "svc_step deliver boot act (SRaft e) sy =
     (if by_service e then None else do { r \<leftarrow> cstep e (syRaft sy); Some (sy\<lparr>syRaft := r, syUnread := arrived (syRaft sy) r (syUnread sy)\<rparr>) })"
| "svc_step deliver boot act (SDeliver v k) sy =
     (let q = syUnread sy ! v in
      if v < length (nodes (syRaft sy)) \<and> k < length q then do {
        (g, call) \<leftarrow> deliver (nodes (syRaft sy) ! v) v (q ! k) (syState sy);
        Some (sy\<lparr>syState := g, syUnread := (syUnread sy)[v := take k q @ drop (Suc k) q],
          syTodo := (syTodo sy)[v := syTodo sy ! v @ (case call of Some c \<Rightarrow> [c] | None \<Rightarrow> [])]\<rparr>)
      } else None)"
| "svc_step deliver boot act (SCompact v k) sy =
     (if v < length (nodes (syRaft sy)) \<and> k < length (syTodo sy ! v) then do {
        let (x, d) = syTodo sy ! v ! k;
        r \<leftarrow> cstep (CSnapshot v x d) (syRaft sy);
        Some (sy\<lparr>syRaft := r, syTodo := (syTodo sy)[v := take k (syTodo sy ! v) @ drop (Suc k) (syTodo sy ! v)]\<rparr>)
      } else None)"
| "svc_step deliver boot act (SRestart v now) sy =
     (if v < length (nodes (syRaft sy)) then do {
        r \<leftarrow> cstep (CRestart v now) (syRaft sy);
        g \<leftarrow> boot (nodes (syRaft sy) ! v) v now (syState sy);
        Some (sy\<lparr>syRaft := r, syState := g, syUnread := (syUnread sy)[v := []], syTodo := (syTodo sy)[v := []]\<rparr>)
      } else None)"
| "svc_step deliver boot act (SHandler v h) sy =
     (if v < length (nodes (syRaft sy)) then do { g \<leftarrow> act h v (syState sy); Some (sy\<lparr>syState := g\<rparr>) } else None)"

fun svc_run ::
  "(('c, 'b) Raft \<Rightarrow> nat \<Rightarrow> ('c, 'b) ApplyMsg \<Rightarrow> 'g \<Rightarrow> ('g \<times> (int \<times> 'b list) option) option) \<Rightarrow>
   (('c, 'b) Raft \<Rightarrow> nat \<Rightarrow> int \<Rightarrow> 'g \<Rightarrow> 'g option) \<Rightarrow> ('h \<Rightarrow> nat \<Rightarrow> 'g \<Rightarrow> 'g option) \<Rightarrow>
   ('c, 'b, 'h) svc_event list \<Rightarrow> ('g, 'c, 'b) system \<Rightarrow> ('g, 'c, 'b) system option" where
  "svc_run deliver boot act [] sy = Some sy"
| "svc_run deliver boot act (e # es) sy = do { sy \<leftarrow> svc_step deliver boot act e sy; svc_run deliver boot act es sy }"

lemma svc_run_append: "svc_run deliver boot act (es @ fs) sy = svc_run deliver boot act es sy \<bind> svc_run deliver boot act fs"
  by (induction es arbitrary: sy) (auto split: bind_splits)

text \<open>The commands that clients have given to \<^verbatim>\<open>Start\<close>.\<close>

definition start_cmds :: "('c, 'b, 'h) svc_event list \<Rightarrow> 'c set" where
  "start_cmds es = {c. \<exists>i. SRaft (CStart i c) \<in> set es}"

text \<open>The service reads its channel in the order in which its peer has produced the messages.\<close>

fun oldest_first :: "('c, 'b, 'h) svc_event \<Rightarrow> bool" where
  "oldest_first (SDeliver v k) \<longleftrightarrow> k = 0"
| "oldest_first _ \<longleftrightarrow> True"

definition reads_in_order :: "('c, 'b, 'h) svc_event list \<Rightarrow> bool" where
  "reads_in_order es \<longleftrightarrow> list_all oldest_first es"

lemma reads_in_order_simps [simp]: "reads_in_order []" "reads_in_order (e # es) \<longleftrightarrow> oldest_first e \<and> reads_in_order es"
  "reads_in_order (es @ fs) \<longleftrightarrow> reads_in_order es \<and> reads_in_order fs"
  by (simp_all add: reads_in_order_def)

section \<open>Services that follow a log\<close>

text \<open>\<open>holds ops g v p\<close>: on peer \<open>v\<close> the service is where the first \<open>p\<close> commands of \<open>ops\<close> take it.\<close>

definition following :: "nat \<Rightarrow> ('c list \<Rightarrow> 'g \<Rightarrow> nat \<Rightarrow> nat \<Rightarrow> bool) \<Rightarrow> 'c list \<Rightarrow> 'g \<Rightarrow> bool" where
  "following n holds ops g \<longleftrightarrow> (\<forall>u < n. \<exists>p \<le> length ops. holds ops g u p)"

definition others_keep :: "nat \<Rightarrow> ('c list \<Rightarrow> 'g \<Rightarrow> nat \<Rightarrow> nat \<Rightarrow> bool) \<Rightarrow> 'c list \<Rightarrow> nat \<Rightarrow> 'g \<Rightarrow> 'g \<Rightarrow> bool" where
  "others_keep n holds ops v g g' \<longleftrightarrow> (\<forall>u < n. u \<noteq> v \<longrightarrow> (\<forall>p. holds ops g u p \<longrightarrow> holds ops g' u p))"

locale service =
  fixes n :: nat
    and deliver :: "('c, 'b) Raft \<Rightarrow> nat \<Rightarrow> ('c, 'b) ApplyMsg \<Rightarrow> 'g \<Rightarrow> ('g \<times> (int \<times> 'b list) option) option"
    and boot :: "('c, 'b) Raft \<Rightarrow> nat \<Rightarrow> int \<Rightarrow> 'g \<Rightarrow> 'g option"
    and act :: "'h \<Rightarrow> nat \<Rightarrow> 'g \<Rightarrow> 'g option"
    and enc :: "'c list \<Rightarrow> nat \<Rightarrow> 'b list"
    and holds :: "'c list \<Rightarrow> 'g \<Rightarrow> nat \<Rightarrow> nat \<Rightarrow> bool"
  assumes deliver_command: "v < n \<Longrightarrow> following n holds ops g \<Longrightarrow> holds ops g v p \<Longrightarrow> p < length ops \<Longrightarrow>
      \<exists>g' call. deliver rf v (plain_msg (int p + 1) (ops ! p)) g = Some (g', call) \<and> holds ops g' v (Suc p) \<and>
        others_keep n holds ops v g g' \<and> (call = None \<or> call = Some (int p + 1, enc ops (Suc p)))"
    and deliver_snapshot: "v < n \<Longrightarrow> following n holds ops g \<Longrightarrow> holds ops g v p \<Longrightarrow> p \<le> j \<Longrightarrow> 0 < j \<Longrightarrow> j \<le> length ops \<Longrightarrow>
      \<exists>g'. deliver rf v (snap_msg t (int j) (enc ops j)) g = Some (g', None) \<and> holds ops g' v j \<and> others_keep n holds ops v g g'"
    and boot_restores: "v < n \<Longrightarrow> following n holds ops g \<Longrightarrow> node_ok rf \<Longrightarrow> me rf = v \<Longrightarrow> npeers rf = n \<Longrightarrow> j \<le> length ops \<Longrightarrow>
      ReadSnapshot (persister rf) = (if j = 0 then [] else enc ops j) \<Longrightarrow>
      \<exists>g'. boot rf v now g = Some g' \<and> holds ops g' v j \<and> others_keep n holds ops v g g'"
    and act_keeps: "v < n \<Longrightarrow> u < n \<Longrightarrow> act h v g = Some g' \<Longrightarrow> holds ops g u p \<Longrightarrow> holds ops g' u p"
begin

text \<open>The invariant of a peer: its channel takes the service to where Raft has told it to go.\<close>

definition peer_ok :: "'c list \<Rightarrow> ('g, 'c, 'b) system \<Rightarrow> nat \<Rightarrow> bool" where
  "peer_ok ops sy v \<longleftrightarrow> (let rf = nodes (syRaft sy) ! v; unread = syUnread sy ! v in
     0 \<le> lastApplied rf \<and> told_index rf \<le> int (length ops) \<and>
     (\<exists>p \<le> length ops. holds ops (syState sy) v p \<and> feed enc ops p unread (nat (told_index rf))) \<and>
     (\<forall>m \<in> set unread. amCommandIndex m \<le> lastApplied rf) \<and>
     (\<forall>c \<in> set (syTodo sy ! v). 0 < fst c \<and> fst c \<le> lastApplied rf \<and> stored enc ops c))"

definition svc_ok :: "'c list \<Rightarrow> ('g, 'c, 'b) system \<Rightarrow> bool" where
  "svc_ok ops sy \<longleftrightarrow> length (syUnread sy) = n \<and> length (syTodo sy) = n \<and>
     (\<forall>h \<in> held (syRaft sy). stored enc ops h) \<and> (\<forall>v < n. peer_ok ops sy v)"

lemma svc_ok_following: "svc_ok ops sy \<Longrightarrow> following n holds ops (syState sy)"
  by (auto simp: svc_ok_def peer_ok_def following_def Let_def)

lemma peer_okE:
  assumes "peer_ok ops sy v"
  obtains p where "p \<le> length ops" "holds ops (syState sy) v p"
    "feed enc ops p (syUnread sy ! v) (nat (told_index (nodes (syRaft sy) ! v)))"
    "0 \<le> lastApplied (nodes (syRaft sy) ! v)" "told_index (nodes (syRaft sy) ! v) \<le> int (length ops)"
  using assms by (auto simp: peer_ok_def Let_def)

text \<open>A step that leaves a peer, its channel and its calls alone.\<close>

lemma peer_ok_frame:
  assumes "peer_ok ops sy v" "nodes (syRaft sy') ! v = nodes (syRaft sy) ! v"
    "syUnread sy' ! v = syUnread sy ! v" "syTodo sy' ! v = syTodo sy ! v" "\<And>p. holds ops (syState sy) v p \<Longrightarrow> holds ops (syState sy') v p"
  shows "peer_ok ops sy' v"
  using assms unfolding peer_ok_def Let_def by auto

lemma ok_raft:
  assumes ok: "svc_ok ops sy" and sim: "sim n (syRaft sy) a" and wf: "wf_cluster n (syRaft sy)" and log: "log_of n a ops"
    and en: "enabled e (syRaft sy)" and ex: "exec e (syRaft sy) = Some r" and e: "\<not> by_service e"
  shows "svc_ok ops (sy\<lparr>syRaft := r, syUnread := arrived (syRaft sy) r (syUnread sy)\<rparr>)"
proof -
  let ?s = "syRaft sy"
  let ?sy = "sy\<lparr>syRaft := r, syUnread := arrived ?s r (syUnread sy)\<rparr>"
  have held: "\<forall>h \<in> held ?s. stored enc ops h" and len: "length (syUnread sy) = n" using ok by (simp_all add: svc_ok_def)
  have grow: "peer_ok ops ?sy v" if v: "v < n" for v
  proof -
    have pv: "peer_ok ops sy v" using ok v by (simp add: svc_ok_def)
    obtain p where p: "p \<le> length ops" "holds ops (syState sy) v p" "feed enc ops p (syUnread sy ! v) (nat (told_index (nodes ?s ! v)))"
      "0 \<le> lastApplied (nodes ?s ! v)" "told_index (nodes ?s ! v) \<le> int (length ops)"
      by (rule peer_okE [OF pv])
    obtain ms where ms: "outbox r ! v = outbox ?s ! v @ ms" "feed enc ops (nat (told_index (nodes ?s ! v))) ms (nat (told_index (nodes r ! v)))"
      "told_index (nodes r ! v) \<le> int (length ops)" "lastApplied (nodes ?s ! v) \<le> lastApplied (nodes r ! v)"
      "\<forall>m \<in> set ms. amCommandIndex m \<le> lastApplied (nodes r ! v)"
      by (rule raft_feed [OF sim wf log v p(4) en ex e held p(5)])
    have "arrived ?s r (syUnread sy) ! v = syUnread sy ! v @ ms" using v len by (simp add: arrived_def ms(1))
    then show ?thesis using feed_append [OF p(3) ms(2)] pv ms p(1,2,4) unfolding peer_ok_def Let_def by auto
  qed
  moreover have "held r \<subseteq> held ?s" using held_step [OF wf simD(1) [OF sim] en ex] e by auto
  ultimately show ?thesis using ok held unfolding svc_ok_def by (auto simp: arrived_def)
qed

lemma ok_deliver:
  assumes ok: "svc_ok ops sy" and v: "v < n" and q: "syUnread sy ! v = m # ms"
  shows "\<exists>g call. deliver rf v m (syState sy) = Some (g, call) \<and>
    svc_ok ops (sy\<lparr>syState := g, syUnread := (syUnread sy)[v := ms],
      syTodo := (syTodo sy)[v := syTodo sy ! v @ (case call of Some c \<Rightarrow> [c] | None \<Rightarrow> [])]\<rparr>)"
proof -
  let ?rf = "nodes (syRaft sy) ! v"
  have pv: "peer_ok ops sy v" and fol: "following n holds ops (syState sy)" and len: "length (syUnread sy) = n" "length (syTodo sy) = n"
    using ok v svc_ok_following by (auto simp: svc_ok_def)
  obtain p where p: "p \<le> length ops" "holds ops (syState sy) v p" "feed enc ops p (m # ms) (nat (told_index ?rf))"
    "0 \<le> lastApplied ?rf" "told_index ?rf \<le> int (length ops)"
    using peer_okE [OF pv] q by metis
  have step: ?thesis
    if d: "deliver rf v m (syState sy) = Some (g, call)" "q \<le> length ops" "holds ops g v q" "others_keep n holds ops v (syState sy) g"
      "feed enc ops q ms (nat (told_index ?rf))"
      "call = None \<or> (\<exists>c. call = Some c \<and> 0 < fst c \<and> fst c \<le> lastApplied ?rf \<and> stored enc ops c)" for g call q
  proof -
    let ?sy = "sy\<lparr>syState := g, syUnread := (syUnread sy)[v := ms],
      syTodo := (syTodo sy)[v := syTodo sy ! v @ (case call of Some c \<Rightarrow> [c] | None \<Rightarrow> [])]\<rparr>"
    have rest: "\<forall>m \<in> set ms. amCommandIndex m \<le> lastApplied ?rf"
      and todo: "\<forall>c \<in> set (syTodo sy ! v). 0 < fst c \<and> fst c \<le> lastApplied ?rf \<and> stored enc ops c"
      using pv q unfolding peer_ok_def Let_def by auto
    have new: "peer_ok ops ?sy v"
      unfolding peer_ok_def Let_def using d(2,3,5,6) rest todo p(4,5) v len by (auto split: option.splits)
    have "peer_ok ops ?sy u" if u: "u < n" for u
    proof (cases "u = v")
      case False
      show ?thesis
        by (rule peer_ok_frame [of ops sy]) (use ok u False d(4) in \<open>auto simp: svc_ok_def others_keep_def\<close>)
    qed (use new in simp)
    then have "svc_ok ops ?sy" using ok len v unfolding svc_ok_def by auto
    then show ?thesis using d(1) by blast
  qed
  from p(3) consider
    (cmd) "p < length ops" "m = plain_msg (int p + 1) (ops ! p)" "feed enc ops (Suc p) ms (nat (told_index ?rf))"
  | (snap) t j where "p \<le> j" "0 < j" "j \<le> length ops" "m = snap_msg t (int j) (enc ops j)" "feed enc ops j ms (nat (told_index ?rf))"
    by auto
  then show ?thesis
  proof cases
    case cmd
    obtain g call where g: "deliver rf v m (syState sy) = Some (g, call)" "holds ops g v (Suc p)"
      "others_keep n holds ops v (syState sy) g" "call = None \<or> call = Some (int p + 1, enc ops (Suc p))"
      using deliver_command [OF v fol p(2) cmd(1), of rf] cmd(2) by auto
    have "amCommandIndex m \<le> lastApplied ?rf" using pv q unfolding peer_ok_def Let_def by auto
    then have "int p + 1 \<le> lastApplied ?rf" by (simp add: cmd(2) plain_msg_def)
    moreover have "stored enc ops (int p + 1, enc ops (Suc p))" using cmd(1) by (simp add: stored_def nat_add_distrib)
    ultimately show ?thesis using step [OF g(1) _ g(2,3) cmd(3)] g(4) cmd(1) by auto
  next
    case (snap t j)
    obtain g where "deliver rf v m (syState sy) = Some (g, None)" "holds ops g v j" "others_keep n holds ops v (syState sy) g"
      using deliver_snapshot [OF v fol p(2) snap(1-3), of rf t] snap(4) by auto
    then show ?thesis using step [of g None j] snap(3,5) by blast
  qed
qed

lemma ok_compact:
  assumes ok: "svc_ok ops sy" and sim: "sim n (syRaft sy) a" and wf: "wf_cluster n (syRaft sy)" and v: "v < n"
    and k: "k < length (syTodo sy ! v)" and c: "syTodo sy ! v ! k = (x, d)" and r: "cstep (CSnapshot v x d) (syRaft sy) = Some r"
  shows "svc_ok ops (sy\<lparr>syRaft := r, syTodo := (syTodo sy)[v := take k (syTodo sy ! v) @ drop (Suc k) (syTodo sy ! v)]\<rparr>)"
proof -
  let ?s = "syRaft sy" and ?rf = "nodes (syRaft sy) ! v"
  let ?sy = "sy\<lparr>syRaft := r, syTodo := (syTodo sy)[v := take k (syTodo sy ! v) @ drop (Suc k) (syTodo sy ! v)]\<rparr>"
  have en: "enabled (CSnapshot v x d) ?s" and ex: "exec (CSnapshot v x d) ?s = Some r" using r by (auto simp: cstep_def split: if_splits)
  obtain rf where ev: "Snapshot ?rf x d = Some rf" and r': "r = set_node v rf ?s" using ex by auto
  have pv: "peer_ok ops sy v" and len: "length (syTodo sy) = n" "length (nodes ?s) = n" using ok v wf_clusterD(1) [OF wf] by (auto simp: svc_ok_def)
  have "(x, d) \<in> set (syTodo sy ! v)" using k c by (metis nth_mem)
  then have x: "0 < x" "x \<le> lastApplied ?rf" "stored enc ops (x, d)" using pv unfolding peer_ok_def Let_def by auto
  have same: "lastApplied rf = lastApplied ?rf" "told_index rf = told_index ?rf"
    using Snapshot_outcome [OF ev] x(2) by (auto simp: told_index_def split: if_splits)
  have sub: "set (take k (syTodo sy ! v) @ drop (Suc k) (syTodo sy ! v)) \<subseteq> set (syTodo sy ! v)"
    by (auto dest: in_set_takeD in_set_dropD)
  have new: "peer_ok ops ?sy v" using pv same sub v len unfolding peer_ok_def Let_def by (auto simp: r')
  have "peer_ok ops ?sy u" if u: "u < n" for u
  proof (cases "u = v")
    case False
    show ?thesis by (rule peer_ok_frame [of ops sy]) (use ok u False in \<open>auto simp: svc_ok_def r'\<close>)
  qed (use new in simp)
  moreover have "held r \<subseteq> held ?s \<union> {(x, d)}" using held_step [OF wf simD(1) [OF sim] en ex] by auto
  ultimately show ?thesis using ok x(3) unfolding svc_ok_def by (auto simp: r')
qed

lemma ok_restart:
  assumes ok: "svc_ok ops sy" and sim: "sim n (syRaft sy) a" and wf: "wf_cluster n (syRaft sy)" and v: "v < n"
    and r: "cstep (CRestart v now) (syRaft sy) = Some r"
  shows "\<exists>g. boot (nodes (syRaft sy) ! v) v now (syState sy) = Some g \<and>
    svc_ok ops (sy\<lparr>syRaft := r, syState := g, syUnread := (syUnread sy)[v := []], syTodo := (syTodo sy)[v := []]\<rparr>)"
proof -
  let ?s = "syRaft sy" and ?rf = "nodes (syRaft sy) ! v"
  note D = wf_clusterD [OF wf]
  have en: "enabled (CRestart v now) ?s" and ex: "exec (CRestart v now) ?s = Some r" using r by (auto simp: cstep_def split: if_splits)
  obtain rf where rf: "nodes r = (nodes ?s)[v := rf]" "lastApplied rf = 0" "snapIndex rf = snapIndex ?rf" "outbox r = outbox ?s"
    by (rule restart_step [OF wf v ex])
  have len: "length (syTodo sy) = n" "length (syUnread sy) = n" "length (nodes ?s) = n" using ok D(1) by (auto simp: svc_ok_def)
  have st: "stored enc ops (snapIndex ?rf, snapshot ?rf)" using ok heldI(1) [of v ?s] v len by (auto simp: svc_ok_def)
  let ?j = "nat (snapIndex ?rf)"
  have x: "0 \<le> snapIndex ?rf" "?j \<le> length ops" using st by (auto simp: stored_def split: if_splits)
  have node: "node_ok ?rf" by (rule D(4) [OF v])
  then have "ReadSnapshot (persister ?rf) = snapshot ?rf" by (simp add: node_ok_def durable_def ReadSnapshot_def clone_def)
  then have snap: "ReadSnapshot (persister ?rf) = (if ?j = 0 then [] else enc ops ?j)" using st x(1) by (auto simp: stored_def split: if_splits)
  obtain g where g: "boot ?rf v now (syState sy) = Some g" "holds ops g v ?j" "others_keep n holds ops v (syState sy) g"
    using boot_restores [OF v svc_ok_following [OF ok] node D(2) [OF v] D(3) [OF v] x(2) snap] by blast
  let ?sy = "sy\<lparr>syRaft := r, syState := g, syUnread := (syUnread sy)[v := []], syTodo := (syTodo sy)[v := []]\<rparr>"
  have new: "peer_ok ops ?sy v" using g(2) rf x v len unfolding peer_ok_def Let_def by (auto simp: told_index_def)
  have "peer_ok ops ?sy u" if u: "u < n" for u
  proof (cases "u = v")
    case False
    show ?thesis by (rule peer_ok_frame [of ops sy]) (use ok u False g(3) rf in \<open>auto simp: svc_ok_def others_keep_def\<close>)
  qed (use new in simp)
  moreover have "held r \<subseteq> held ?s" using held_step [OF wf simD(1) [OF sim] en ex] by auto
  ultimately have "svc_ok ops ?sy" using ok v len rf unfolding svc_ok_def by (auto simp: nth_list_update)
  then show ?thesis using g(1) by blast
qed

lemma ok_handler:
  assumes ok: "svc_ok ops sy" and v: "v < n" and g: "act h v (syState sy) = Some g"
  shows "svc_ok ops (sy\<lparr>syState := g\<rparr>)"
proof -
  have "peer_ok ops (sy\<lparr>syState := g\<rparr>) u" if u: "u < n" for u
    by (rule peer_ok_frame [of ops sy]) (use ok u act_keeps [OF v u g] in \<open>auto simp: svc_ok_def\<close>)
  then show ?thesis using ok by (simp add: svc_ok_def)
qed

text \<open>The invariant of the system: the cluster simulates the protocol, and the services follow what is committed.\<close>

definition svc_inv :: "'c set \<Rightarrow> ('g, 'c, 'b) system \<Rightarrow> 'c spec \<Rightarrow> bool" where
  "svc_inv C sy a \<longleftrightarrow> sim n (syRaft sy) a \<and> election_inv n (syRaft sy) \<and> spec_inv n a \<and> finite (spAck a) \<and> known C a \<and>
     (\<forall>ops. log_of n a ops \<longrightarrow> svc_ok ops sy)"

lemma sys_invD:
  assumes "svc_inv C sy a"
  shows "sim n (syRaft sy) a" "election_inv n (syRaft sy)" "spec_inv n a" "finite (spAck a)" "wf_cluster n (syRaft sy)"
    "length (nodes (syRaft sy)) = n" "log_of n a ops \<Longrightarrow> svc_ok ops sy" "known C a"
  using assms wf_clusterD(1) by (auto simp: svc_inv_def election_inv_def)

lemma svc_inv_raft:
  assumes inv: "svc_inv C sy a" and r: "cstep e (syRaft sy) = Some r" and raft: "syRaft sy' = r" and pr: "prompt r \<or> n \<le> 3"
    and D: "C \<subseteq> D" "\<And>i c. e = CStart i c \<Longrightarrow> c \<in> D"
    and ok: "\<And>ops. log_of n a ops \<Longrightarrow> svc_ok ops sy'"
  shows "\<exists>a'. evolves a a' \<and> svc_inv D sy' a'"
proof -
  note I = sys_invD(1-4) [OF inv]
  obtain a' where a': "(spec_step n D)\<^sup>*\<^sup>* a a'" "sim n r a'" using cstep_sim [OF I(1-3) r pr, of D] D(2) by blast
  have "known D a'" by (rule known_steps [OF a'(1) known_mono [OF sys_invD(8) [OF inv] D(1)]])
  moreover have "spec_inv n a'" "evolves a a'" using spec_steps_inv [OF a'(1) I(3)] by auto
  moreover have "finite (spAck a')" by (rule finite_acks [OF a'(1) I(4)])
  moreover have "election_inv n r" by (rule election_step [OF I(2) r])
  moreover have "svc_ok ops sy'" if "log_of n a' ops" for ops by (rule ok [OF log_of_back [OF \<open>evolves a a'\<close> that]])
  ultimately show ?thesis using a' raft by (auto simp: svc_inv_def)
qed

lemma svc_inv_local:
  assumes "svc_inv C sy a" "C \<subseteq> D" "syRaft sy' = syRaft sy" "\<And>ops. log_of n a ops \<Longrightarrow> svc_ok ops sy'"
  shows "\<exists>a'. evolves a a' \<and> svc_inv D sy' a'"
  using assms known_mono [of C a D] evolves_refl [of a] unfolding svc_inv_def by (intro exI [of _ a]) simp

lemma svc_step_inv:
  assumes inv: "svc_inv C sy a" and ev: "svc_step deliver boot act e sy = Some sy'" "oldest_first e" and pr: "prompt (syRaft sy') \<or> n \<le> 3"
    and D: "C \<subseteq> D" "\<And>i c. e = SRaft (CStart i c) \<Longrightarrow> c \<in> D"
  shows "\<exists>a'. evolves a a' \<and> svc_inv D sy' a'"
proof -
  note I = sys_invD [OF inv]
  show ?thesis
  proof (cases e)
    case (SRaft e')
    then obtain r where r: "\<not> by_service e'" "cstep e' (syRaft sy) = Some r" "sy' = sy\<lparr>syRaft := r, syUnread := arrived (syRaft sy) r (syUnread sy)\<rparr>"
      using ev by (auto split: if_splits)
    then have "enabled e' (syRaft sy)" "exec e' (syRaft sy) = Some r" by (auto simp: cstep_def split: if_splits)
    then show ?thesis using svc_inv_raft [OF inv r(2) _ _ D(1)] ok_raft [OF I(7) I(1) I(5)] r(1,3) pr D(2) SRaft by simp
  next
    case (SDeliver v k)
    let ?r = "syRaft sy"
    have k: "k = 0" using ev(2) SDeliver by simp
    obtain m ms where q: "syUnread sy ! v = m # ms" using ev(1) SDeliver by (cases "syUnread sy ! v") (auto simp: Let_def)
    obtain g call where g: "v < n" "deliver (nodes ?r ! v) v m (syState sy) = Some (g, call)"
      "sy' = sy\<lparr>syState := g, syUnread := (syUnread sy)[v := ms],
        syTodo := (syTodo sy)[v := syTodo sy ! v @ (case call of Some c \<Rightarrow> [c] | None \<Rightarrow> [])]\<rparr>"
      using ev(1) SDeliver I(6) q k by (auto simp: Let_def split: if_splits)
    have "svc_ok ops sy'" if "log_of n a ops" for ops using ok_deliver [OF I(7) [OF that] g(1) q, of "nodes ?r ! v"] g(2,3) by simp
    then show ?thesis using svc_inv_local [OF inv D(1)] g(3) by simp
  next
    case (SCompact v k)
    obtain x d where c: "syTodo sy ! v ! k = (x, d)" by (cases "syTodo sy ! v ! k")
    then obtain r where r: "v < n" "k < length (syTodo sy ! v)" "cstep (CSnapshot v x d) (syRaft sy) = Some r"
      "sy' = sy\<lparr>syRaft := r, syTodo := (syTodo sy)[v := take k (syTodo sy ! v) @ drop (Suc k) (syTodo sy ! v)]\<rparr>"
      using ev SCompact I(6) by (auto split: if_splits)
    then show ?thesis using svc_inv_raft [OF inv r(3) _ _ D(1)] ok_compact [OF I(7) I(1) I(5) r(1,2) c r(3)] pr by simp
  next
    case (SRestart v now)
    then obtain r g where r: "v < n" "cstep (CRestart v now) (syRaft sy) = Some r" "boot (nodes (syRaft sy) ! v) v now (syState sy) = Some g"
      "sy' = sy\<lparr>syRaft := r, syState := g, syUnread := (syUnread sy)[v := []], syTodo := (syTodo sy)[v := []]\<rparr>"
      using ev I(6) by (auto split: if_splits)
    have "svc_ok ops sy'" if "log_of n a ops" for ops using ok_restart [OF I(7) [OF that] I(1) I(5) r(1,2)] r(3,4) by simp
    then show ?thesis using svc_inv_raft [OF inv r(2) _ _ D(1)] r(4) pr by simp
  next
    case (SHandler v h)
    then obtain g where g: "v < n" "act h v (syState sy) = Some g" "sy' = sy\<lparr>syState := g\<rparr>" using ev I(6) by (auto split: if_splits)
    then show ?thesis using svc_inv_local [OF inv D(1)] ok_handler [OF I(7)] by simp
  qed
qed

lemma svc_step_raft:
  assumes "svc_step deliver boot act e sy = Some sy'"
  obtains "syRaft sy' = syRaft sy" | e' where "cstep e' (syRaft sy) = Some (syRaft sy')"
  using assms that by (cases e) (auto simp: Let_def split: if_splits prod.splits)

lemma svc_prompt:
  assumes "svc_run deliver boot act es sy = Some sy'" "election_inv n (syRaft sy)" "prompt (syRaft sy')"
  shows "prompt (syRaft sy)"
  using assms
proof (induction es arbitrary: sy)
  case (Cons e es)
  then obtain sy1 where s1: "svc_step deliver boot act e sy = Some sy1" "svc_run deliver boot act es sy1 = Some sy'" by auto
  from s1(1) show ?case
  proof (cases rule: svc_step_raft)
    case 1
    then show ?thesis using Cons.IH [OF s1(2)] Cons.prems by simp
  next
    case (2 e')
    then show ?thesis
      using Cons.IH [OF s1(2) election_step [OF Cons.prems(2) 2]] Cons.prems(2,3) prompt_cstep [OF _ 2] by (auto simp: election_inv_def)
  qed
qed simp

text \<open>
  One log for every moment of a run: at each moment the services follow a log of which \<open>ops\<close> is a continuation and
  which has only commands that have been started by then.
\<close>

definition followed :: "'c set \<Rightarrow> 'c list \<Rightarrow> ('g, 'c, 'b) system \<Rightarrow> bool" where
  "followed C ops sy \<longleftrightarrow> length (nodes (syRaft sy)) = n \<and> svc_ok ops sy \<and> (\<exists>ops'. prefix ops' ops \<and> set ops' \<subseteq> C \<and> svc_ok ops' sy)"

lemma svc_inv_followed:
  assumes "svc_inv C sy a" "log_of n a ops"
  shows "followed C ops sy"
proof -
  note I = sys_invD [OF assms(1)]
  obtain ops' where "log_of n a ops'" "\<forall>xs. log_of n a xs \<longrightarrow> prefix ops' xs" "\<forall>C. known C a \<longrightarrow> set ops' \<subseteq> C"
    by (rule log_of_exists [OF I(3,4)])
  then show ?thesis using I(6-8) assms(2) unfolding followed_def by blast
qed

lemma svc_run_inv:
  assumes "svc_run deliver boot act es sy = Some sy'" "svc_inv C sy a" "prompt (syRaft sy') \<or> n \<le> 3" "reads_in_order es"
  shows "\<exists>a'. evolves a a' \<and> svc_inv (C \<union> start_cmds es) sy' a' \<and> (\<forall>ops. log_of n a' ops \<longrightarrow>
    (\<forall>k \<le> length es. \<exists>sk. svc_run deliver boot act (take k es) sy = Some sk \<and> followed (C \<union> start_cmds (take k es)) ops sk))"
  using assms
proof (induction es arbitrary: sy a C)
  case Nil
  then show ?case using svc_inv_followed [OF Nil(2)] evolves_refl by (auto simp: start_cmds_def)
next
  case (Cons e es)
  then obtain sy1 where s1: "svc_step deliver boot act e sy = Some sy1" "svc_run deliver boot act es sy1 = Some sy'" by auto
  have "election_inv n (syRaft sy1)"
    using s1(1) by (cases rule: svc_step_raft) (use sys_invD(2) [OF Cons.prems(2)] election_step in auto)
  then have "prompt (syRaft sy1) \<or> n \<le> 3" using svc_prompt [OF s1(2)] Cons.prems(3) by blast
  then obtain a1 where a1: "evolves a a1" "svc_inv (C \<union> start_cmds [e]) sy1 a1"
    using svc_step_inv [OF Cons.prems(2) s1(1), of "C \<union> start_cmds [e]"] Cons.prems(4) by (auto simp: start_cmds_def)
  have st: "C \<union> start_cmds [e] \<union> start_cmds xs = C \<union> start_cmds (e # xs)" for xs by (auto simp: start_cmds_def)
  obtain a' where a': "evolves a1 a'" "svc_inv (C \<union> start_cmds (e # es)) sy' a'"
    and all: "\<And>ops k. log_of n a' ops \<Longrightarrow> k \<le> length es \<Longrightarrow>
      \<exists>sk. svc_run deliver boot act (take k es) sy1 = Some sk \<and> followed (C \<union> start_cmds (e # take k es)) ops sk"
    using Cons.IH [OF s1(2) a1(2) Cons.prems(3)] Cons.prems(4) unfolding st by auto
  have ev: "evolves a a'" by (rule evolves_trans [OF a1(1) a'(1)])
  have "\<exists>sk. svc_run deliver boot act (take k (e # es)) sy = Some sk \<and> followed (C \<union> start_cmds (take k (e # es))) ops sk"
    if "log_of n a' ops" "k \<le> length (e # es)" for ops k
  proof (cases k)
    case 0
    then show ?thesis using svc_inv_followed [OF Cons.prems(2) log_of_back [OF ev that(1)]] by (simp add: start_cmds_def)
  next
    case (Suc j)
    then show ?thesis using all [OF that(1), of j] that(2) s1(1) by simp
  qed
  then show ?case using ev a'(2) by blast
qed

lemma svc_inv_init:
  assumes "\<And>ops v. v < n \<Longrightarrow> holds ops g v 0"
  shows "svc_inv {} (svc_init n g) spec_init"
proof -
  have h: "\<forall>h \<in> held (init_cluster n). stored enc ops h" for ops :: "'c list"
    by (auto simp: held_def init_cluster_def initRaft_def stored_def)
  have "svc_ok ops (svc_init n g)" for ops
    unfolding svc_ok_def peer_ok_def Let_def using assms h [of ops]
    by (auto simp: svc_init_def init_cluster_def initRaft_def told_index_def)
  then show ?thesis
    using init_sim election_init spec_inv_init by (auto simp: svc_inv_def svc_init_def spec_init_def known_def)
qed

lemma one_log:
  assumes "svc_run deliver boot act es (svc_init n g) = Some sy" "prompt (syRaft sy) \<or> n \<le> 3" "\<And>ops v. v < n \<Longrightarrow> holds ops g v 0"
    "reads_in_order es"
  obtains ops where "\<forall>k \<le> length es. \<exists>sk. svc_run deliver boot act (take k es) (svc_init n g) = Some sk \<and> followed (start_cmds (take k es)) ops sk"
proof -
  from svc_run_inv [OF assms(1) svc_inv_init [OF assms(3)] assms(2) assms(4)] obtain a where inv: "svc_inv ({} \<union> start_cmds es) sy a" and
    all: "\<And>ops k. log_of n a ops \<Longrightarrow> k \<le> length es \<Longrightarrow>
      \<exists>sk. svc_run deliver boot act (take k es) (svc_init n g) = Some sk \<and> followed ({} \<union> start_cmds (take k es)) ops sk"
    by blast
  obtain ops where "log_of n a ops" by (rule log_of_exists [OF sys_invD(3,4) [OF inv]])
  then show thesis using that [of ops] all by simp
qed

text \<open>A service never fails on a message that it is given, nor a peer on a snapshot.\<close>

lemma svc_not_stuck:
  assumes ok: "svc_ok ops sy" and wf: "wf_cluster n (syRaft sy)" and sim: "sim n (syRaft sy) a" and v: "v < n"
  shows "syUnread sy ! v \<noteq> [] \<Longrightarrow> svc_step deliver boot act (SDeliver v 0) sy \<noteq> None"
    and "k < length (syTodo sy ! v) \<Longrightarrow> svc_step deliver boot act (SCompact v k) sy \<noteq> None"
    and "svc_step deliver boot act (SRestart v now) sy \<noteq> None"
proof -
  let ?rf = "nodes (syRaft sy) ! v"
  have len: "length (nodes (syRaft sy)) = n" and node: "node_ok ?rf" using wf_clusterD(1,4) [OF wf] v by auto
  note N = node_simD [OF simD(3) [OF sim v]]
  show "syUnread sy ! v \<noteq> [] \<Longrightarrow> svc_step deliver boot act (SDeliver v 0) sy \<noteq> None"
    using ok_deliver [OF ok v, of _ _ ?rf] v len by (cases "syUnread sy ! v") (auto simp: Let_def)
  show "svc_step deliver boot act (SCompact v k) sy \<noteq> None" if k: "k < length (syTodo sy ! v)"
  proof -
    obtain x d where c: "syTodo sy ! v ! k = (x, d)" by (cases "syTodo sy ! v ! k")
    have "peer_ok ops sy v" using ok v by (simp add: svc_ok_def)
    then have x: "x \<le> lastApplied ?rf" using c nth_mem [OF k] unfolding peer_ok_def Let_def by auto
    have "Snapshot ?rf x d \<noteq> None"
    proof (cases "x \<le> snapIndex ?rf")
      case False
      then have "snapIndex ?rf \<le> x" "x < logLength ?rf" using x N(6) commit_in_log [OF simD(3) [OF sim v]] log_sim_length [OF N(1)] by auto
      moreover have "log_ok ?rf" using node by (simp add: node_ok_def)
      ultimately show ?thesis using Snapshot_spec [of ?rf x d] False by auto
    qed (simp add: Snapshot_def)
    then show ?thesis using c k v len x by (auto simp: cstep_def)
  qed
  obtain rf where "Make (npeers ?rf) (me ?rf) (persister ?rf) now = Some rf" by (rule Make_step [OF node])
  then obtain r where r: "cstep (CRestart v now) (syRaft sy) = Some r" using v len by (simp add: cstep_def)
  then show "svc_step deliver boot act (SRestart v now) sy \<noteq> None" using ok_restart [OF ok sim wf v r] v len by auto
qed

lemma run_not_stuck:
  assumes "svc_run deliver boot act es (svc_init n g) = Some sy" "prompt (syRaft sy) \<or> n \<le> 3" "\<And>ops v. v < n \<Longrightarrow> holds ops g v 0" "v < n" "reads_in_order es"
  shows "syUnread sy ! v \<noteq> [] \<Longrightarrow> svc_step deliver boot act (SDeliver v 0) sy \<noteq> None"
    and "k < length (syTodo sy ! v) \<Longrightarrow> svc_step deliver boot act (SCompact v k) sy \<noteq> None"
    and "svc_step deliver boot act (SRestart v now) sy \<noteq> None"
proof -
  obtain a where inv: "svc_inv ({} \<union> start_cmds es) sy a" using svc_run_inv [OF assms(1) svc_inv_init [OF assms(3)] assms(2) assms(5)] by blast
  note I = sys_invD [OF inv]
  obtain ops where "log_of n a ops" by (rule log_of_exists [OF I(3,4)])
  note S = svc_not_stuck [OF I(7) [OF this] I(5,1) assms(4)]
  show "syUnread sy ! v \<noteq> [] \<Longrightarrow> svc_step deliver boot act (SDeliver v 0) sy \<noteq> None" by (rule S(1))
  show "k < length (syTodo sy ! v) \<Longrightarrow> svc_step deliver boot act (SCompact v k) sy \<noteq> None" by (rule S(2))
  show "svc_step deliver boot act (SRestart v now) sy \<noteq> None" by (rule S(3))
qed

text \<open>Where the service of each peer is, in terms of both logs.\<close>

lemma followed_holds:
  assumes "followed C ops sy" "v < n"
  obtains p ops' q where "p \<le> length ops" "holds ops (syState sy) v p" "prefix ops' ops" "set ops' \<subseteq> C" "q \<le> length ops'" "holds ops' (syState sy) v q"
  using assms peer_okE by (metis svc_ok_def followed_def)

lemma followed_following: "followed C ops sy \<Longrightarrow> following n holds ops (syState sy) \<and> length (nodes (syRaft sy)) = n"
  using svc_ok_following by (simp add: followed_def)

end

end
