(* ===== verification/Strconv.thy ===== *)
theory Strconv
  imports Prelude
begin

text \<open>
  Decimal printing of integers, as \<^verbatim>\<open>strconv.Itoa\<close> and the verb \<^verbatim>\<open>%d\<close> of \<^verbatim>\<open>fmt.Sprintf\<close>
  print them. The services build map keys and file names from it, so what matters is that it is
  injective and that its digits and sign differ from the separators.
\<close>

text \<open>\<^verbatim>\<open>fmt.Sprintf("%d", n)\<close>\<close>

fun show_nat :: "nat \<Rightarrow> string" where
  "show_nat n = (if n < 10 then [char_of (48 + n)] else show_nat (n div 10) @ [char_of (48 + n mod 10)])"

declare show_nat.simps [simp del]

definition show_int :: "int \<Rightarrow> string" where
  "show_int i = (if i < 0 then CHR ''-'' # show_nat (nat (- i)) else show_nat (nat i))"

definition read_nat :: "string \<Rightarrow> nat" where
  "read_nat s = foldl (\<lambda>a c. a * 10 + (of_char c - 48)) 0 s"

lemma read_show_nat: "read_nat (show_nat n) = n"
proof (induction n rule: show_nat.induct)
  case (1 n)
  show ?case
  proof (cases "n < 10")
    case True
    then show ?thesis by (subst show_nat.simps) (simp add: read_nat_def)
  next
    case False
    have "(48 + n mod 10) mod 256 = 48 + n mod 10" by (rule mod_less) (simp add: less_le_trans [OF mod_less_divisor])
    then show ?thesis using 1 False by (subst show_nat.simps) (simp add: read_nat_def)
  qed
qed

lemma show_nat_chars: "c \<in> set (show_nat n) \<Longrightarrow> 48 \<le> (of_char c :: nat) \<and> (of_char c :: nat) < 58"
proof (induction n rule: show_nat.induct)
  case (1 n)
  have m: "(48 + k) mod 256 = 48 + k" if "k < 10" for k :: nat using that by simp
  show ?case
  proof (cases "n < 10")
    case True
    then show ?thesis using 1(2) m by (subst (asm) show_nat.simps) simp
  next
    case False
    then have "c \<in> set (show_nat (n div 10)) \<or> c = char_of (48 + n mod 10)"
      using 1(2) by (subst (asm) show_nat.simps) auto
    then show ?thesis using 1(1) [OF False] m [of "n mod 10"] by auto
  qed
qed

lemma show_nat_not_Nil: "show_nat n \<noteq> []"
  by (subst show_nat.simps) simp

lemma show_int_chars: "CHR ''@'' \<notin> set (show_int i)"
  using show_nat_chars [of "CHR ''@''"] by (auto simp: show_int_def)

lemma show_int_inj: "show_int i = show_int j \<Longrightarrow> i = j"
proof -
  have minus: "CHR ''-'' # xs \<noteq> show_nat n" for xs n
    using show_nat_chars [of "CHR ''-''" n] by (cases "show_nat n") auto
  assume eq: "show_int i = show_int j"
  show "i = j"
  proof (cases "i < 0"; cases "j < 0")
    assume "i < 0" "j < 0"
    then have "show_nat (nat (- i)) = show_nat (nat (- j))" using eq by (simp add: show_int_def)
    then have "nat (- i) = nat (- j)" by (metis read_show_nat)
    then show ?thesis using \<open>i < 0\<close> \<open>j < 0\<close> by simp
  next
    assume "\<not> i < 0" "\<not> j < 0"
    then have "show_nat (nat i) = show_nat (nat j)" using eq by (simp add: show_int_def)
    then have "nat i = nat j" by (metis read_show_nat)
    then show ?thesis using \<open>\<not> i < 0\<close> \<open>\<not> j < 0\<close> by simp
  qed (use eq minus minus [symmetric] in \<open>auto simp: show_int_def\<close>)
qed

lemma show_int_nat_chars: "c \<in> set (show_int i) \<Longrightarrow> c = CHR ''-'' \<or> 48 \<le> (of_char c :: nat) \<and> (of_char c :: nat) < 58"
  using show_nat_chars by (auto simp: show_int_def split: if_splits)

lemma show_nat_inj: "show_nat m = show_nat n \<Longrightarrow> m = n"
  by (metis read_show_nat)

text \<open>Two numbers joined by a separator that neither contains can be told apart.\<close>

lemma separated_inj:
  assumes "sep \<notin> set xs" "sep \<notin> set xs'" "xs @ sep # ys = xs' @ sep # ys'"
  shows "xs = xs' \<and> ys = ys'"
proof -
  have tw: "takeWhile (\<lambda>x. x \<noteq> sep) (zs @ sep # us) = zs" if "sep \<notin> set zs" for zs us
    using that by (subst takeWhile_append2) auto
  have "xs = xs'"
    using arg_cong [OF assms(3), of "takeWhile (\<lambda>x. x \<noteq> sep)"] tw assms(1,2) by simp
  then show ?thesis using assms(3) by simp
qed

end
