(* ===== verification/KvServer.thy ===== *)
theory KvServer
  imports RaftProps Strconv
begin

text \<open>
  The key/value service on top of Raft: \<^verbatim>\<open>kvraft/common.go\<close>, \<^verbatim>\<open>kvraft/server.go\<close>,
  \<^verbatim>\<open>kvraft/help_snapshot.go\<close> and \<^verbatim>\<open>kvraft/client.go\<close>. Go maps are partial functions; a read
  of a missing key gives the zero value, as in Go. A wait channel (\<^verbatim>\<open>make(chan struct{}, 1)\<close>)
  is an identifier, and \<open>full\<close> tells which of them hold their one signal. The RPC handlers
  release the lock between their parts, so each part is a definition of its own and they
  interleave freely with the apply loop.
\<close>

section \<open>common.go\<close>

datatype Err = OK | ErrNoKey | ErrWrongLeader | ErrZero

text \<open>\<open>ErrZero\<close> is the empty string of a reply that no handler has filled in.\<close>

record GetArgs =
  gaKey :: string
  gaClientId :: int
  gaSeqNum :: int

record GetReply =
  grValue :: string
  grErr :: Err

record PutAppendArgs =
  paKey :: string
  paValue :: string
  paOp :: string
  paClientId :: int
  paSeqNum :: int

record PutAppendReply =
  prErr :: Err

section \<open>server.go: operations and state\<close>

definition OpGet :: string where "OpGet = ''Get''"

definition OpPut :: string where "OpPut = ''Put''"

definition OpAppend :: string where "OpAppend = ''Append''"

record Op =
  opType :: string
  opKey :: string
  opValue :: string
  opClientId :: int
  opSeqNum :: int

definition helpKey :: "int \<Rightarrow> int \<Rightarrow> string" where
  "helpKey clientId seqNum = show_int clientId @ ''@'' @ show_int seqNum"

text \<open>The values a snapshot is encoded from.\<close>

datatype kvgob = GobKV "string \<rightharpoonup> string" | GobSeq "int \<rightharpoonup> int" | GobApplied int

fun gobKV :: "kvgob \<Rightarrow> (string \<rightharpoonup> string) option" where
  "gobKV (GobKV m) = Some m"
| "gobKV _ = None"

fun gobSeq :: "kvgob \<Rightarrow> (int \<rightharpoonup> int) option" where
  "gobSeq (GobSeq m) = Some m"
| "gobSeq _ = None"

fun gobApplied :: "kvgob \<Rightarrow> int option" where
  "gobApplied (GobApplied i) = Some i"
| "gobApplied _ = None"

record KVServer =
  kvMe :: nat
  kvRf :: "(Op, kvgob) Raft"
  chanMap :: "string \<rightharpoonup> nat"
  nextChan :: nat
  full :: "nat set"
  lastSeq :: "int \<rightharpoonup> int"
  kvMap :: "string \<rightharpoonup> string"
  kvDead :: bool
  kvLastApplied :: int
  maxraftstate :: int

section \<open>help\_snapshot.go\<close>

definition encodeSnapshot :: "KVServer \<Rightarrow> kvgob list" where
  "encodeSnapshot kv =
     Encode (Encode (Encode [] (GobKV (kvMap kv))) (GobSeq (lastSeq kv))) (GobApplied (kvLastApplied kv))"

text \<open>The three \<^verbatim>\<open>Decode\<close> calls; \<open>None\<close> when one of them reports an error.\<close>

definition decodeAll :: "kvgob list \<Rightarrow> ((string \<rightharpoonup> string) \<times> (int \<rightharpoonup> int) \<times> int) option" where
  "decodeAll data = do {
     (m, d) \<leftarrow> Decode gobKV data;
     (s, d) \<leftarrow> Decode gobSeq d;
     (a, d) \<leftarrow> Decode gobApplied d;
     Some (m, s, a)
   }"

definition decodeSnapshot :: "KVServer \<Rightarrow> kvgob list \<Rightarrow> KVServer" where
  "decodeSnapshot kv data =
     (if data = [] then kv
      else case decodeAll data of
        None \<Rightarrow> kv
      | Some (m, s, a) \<Rightarrow> kv\<lparr>kvMap := m, lastSeq := s, kvLastApplied := a\<rparr>)"

section \<open>server.go: starting\<close>

definition StartKVServer ::
  "nat \<Rightarrow> nat \<Rightarrow> (Op, kvgob) Persister \<Rightarrow> int \<Rightarrow> int \<Rightarrow> KVServer option" where
  "StartKVServer n i ps maxstate now = do {
     rf \<leftarrow> Make n i ps now;
     let kv = \<lparr>kvMe = i, kvRf = rf, chanMap = Map.empty, nextChan = 0, full = {}, lastSeq = Map.empty,
               kvMap = Map.empty, kvDead = False, kvLastApplied = 0, maxraftstate = maxstate\<rparr>;
     Some (if length (ReadSnapshot ps) > 0 then decodeSnapshot kv (ReadSnapshot ps) else kv)
   }"

section \<open>server.go: the apply loop\<close>

text \<open>\<^verbatim>\<open>kv.lastSeq[c]\<close> and \<^verbatim>\<open>kv.kvMap[k]\<close>, zero when absent.\<close>

definition seq_of :: "(int \<rightharpoonup> int) \<Rightarrow> int \<Rightarrow> int" where
  "seq_of m c = (case m c of None \<Rightarrow> 0 | Some n \<Rightarrow> n)"

definition val_of :: "(string \<rightharpoonup> string) \<Rightarrow> string \<Rightarrow> string" where
  "val_of m k = (case m k of None \<Rightarrow> [] | Some v \<Rightarrow> v)"

text \<open>The sending half of \<^verbatim>\<open>notifyAndUnlock\<close>: a send that would block is dropped.\<close>

definition notifyAndUnlock :: "KVServer \<Rightarrow> string \<Rightarrow> KVServer" where
  "notifyAndUnlock kv key = (case chanMap kv key of None \<Rightarrow> kv | Some ch \<Rightarrow> kv\<lparr>full := insert ch (full kv)\<rparr>)"

text \<open>The \<^verbatim>\<open>switch op.Type\<close>; other types, such as a get, change nothing.\<close>

definition switch_op :: "Op \<Rightarrow> (string \<rightharpoonup> string) \<Rightarrow> (string \<rightharpoonup> string)" where
  "switch_op op m =
     (if opType op = OpPut then m(opKey op \<mapsto> opValue op)
      else if opType op = OpAppend then m(opKey op \<mapsto> val_of m (opKey op) @ opValue op)
      else m)"

text \<open>
  One iteration of \<^verbatim>\<open>guardApply\<close>. \<open>None\<close> is the panic of the type assertion on a command that
  is not an \<^verbatim>\<open>Op\<close>. The second component is the call of \<^verbatim>\<open>kv.rf.Snapshot\<close> that a new goroutine
  executes later, with its arguments, which Go evaluates at once. \<open>gobsize\<close> is the size of an
  encoded Raft state in bytes.
\<close>

definition guardApply ::
  "(Op gob list \<Rightarrow> int) \<Rightarrow> KVServer \<Rightarrow> (Op, kvgob) ApplyMsg \<Rightarrow> (KVServer \<times> (int \<times> kvgob list) option) option" where
  "guardApply gobsize kv msg =
     (if amSnapshotValid msg
      then Some ((decodeSnapshot kv (amSnapshot msg))\<lparr>kvLastApplied := amSnapshotIndex msg\<rparr>, None)
      else do {
        op \<leftarrow> amCommand msg;
        let key = helpKey (opClientId op) (opSeqNum op);
        if opSeqNum op \<le> seq_of (lastSeq kv) (opClientId op)
        then Some (notifyAndUnlock (kv\<lparr>kvLastApplied := amCommandIndex msg\<rparr>) key, None)
        else do {
          let kv = kv\<lparr>lastSeq := (lastSeq kv)(opClientId op \<mapsto> opSeqNum op),
                      kvMap := switch_op op (kvMap kv), kvLastApplied := amCommandIndex msg\<rparr>;
          let kv = notifyAndUnlock kv key;
          Some (kv, if maxraftstate kv \<noteq> - 1 \<and> RaftStateSize gobsize (persister (kvRf kv)) > maxraftstate kv
                    then Some (kvLastApplied kv, encodeSnapshot kv) else None)
        }
      })"

text \<open>The goroutine started at the end of an iteration.\<close>

definition runSnapshot :: "KVServer \<Rightarrow> int \<times> kvgob list \<Rightarrow> KVServer option" where
  "runSnapshot kv = (\<lambda>(index, data). do { rf \<leftarrow> Snapshot (kvRf kv) index data; Some (kv\<lparr>kvRf := rf\<rparr>) })"

section \<open>server.go: the RPC handlers\<close>

text \<open>Registering the wait channel, at the start of both handlers.\<close>

definition handler_register :: "KVServer \<Rightarrow> string \<Rightarrow> KVServer \<times> nat" where
  "handler_register kv key =
     (kv\<lparr>chanMap := (chanMap kv)(key \<mapsto> nextChan kv), nextChan := nextChan kv + 1\<rparr>, nextChan kv)"

text \<open>\<^verbatim>\<open>kv.rf.Start(op)\<close>, with its third result.\<close>

definition handler_start :: "KVServer \<Rightarrow> Op \<Rightarrow> KVServer \<times> bool" where
  "handler_start kv op = (let (rf, _, _, ok) = Start (kvRf kv) op in (kv\<lparr>kvRf := rf\<rparr>, ok))"

text \<open>The deferred clean-up of both handlers.\<close>

definition handler_cleanup :: "KVServer \<Rightarrow> string \<Rightarrow> KVServer" where
  "handler_cleanup kv key = kv\<lparr>chanMap := (chanMap kv)(key := None)\<rparr>"

definition getOp :: "GetArgs \<Rightarrow> Op" where
  "getOp args = \<lparr>opType = OpGet, opKey = gaKey args, opValue = [], opClientId = gaClientId args,
     opSeqNum = gaSeqNum args\<rparr>"

definition putAppendOp :: "PutAppendArgs \<Rightarrow> Op" where
  "putAppendOp args = \<lparr>opType = paOp args, opKey = paKey args, opValue = paValue args,
     opClientId = paClientId args, opSeqNum = paSeqNum args\<rparr>"

text \<open>
  The \<^verbatim>\<open>select\<close> of the two handlers. \<open>signalled\<close> says which case was taken: the wait channel
  had a signal, which receiving consumes, or the 500 ms passed.
\<close>

definition Get_select :: "KVServer \<Rightarrow> GetArgs \<Rightarrow> nat \<Rightarrow> bool \<Rightarrow> KVServer \<times> GetReply" where
  "Get_select kv args ch signalled =
     (if signalled
      then let kv = kv\<lparr>full := full kv - {ch}\<rparr> in
           case kvMap kv (gaKey args) of
             None \<Rightarrow> (kv, \<lparr>grValue = [], grErr = ErrNoKey\<rparr>)
           | Some val \<Rightarrow> (kv, \<lparr>grValue = val, grErr = OK\<rparr>)
      else (kv, \<lparr>grValue = [], grErr = ErrWrongLeader\<rparr>))"

definition PutAppend_select :: "KVServer \<Rightarrow> nat \<Rightarrow> bool \<Rightarrow> KVServer \<times> PutAppendReply" where
  "PutAppend_select kv ch signalled =
     (if signalled then (kv\<lparr>full := full kv - {ch}\<rparr>, \<lparr>prErr = OK\<rparr>)
      else (kv, \<lparr>prErr = ErrWrongLeader\<rparr>))"

definition kv_Kill :: "KVServer \<Rightarrow> KVServer" where
  "kv_Kill kv = kv\<lparr>kvDead := True, kvRf := Kill (kvRf kv)\<rparr>"

definition kv_killed :: "KVServer \<Rightarrow> bool" where
  "kv_killed kv = kvDead kv"

section \<open>client.go\<close>

record Clerk =
  ckServers :: nat
  ckClientId :: int
  ckSeqNum :: int
  ckLeader :: nat

definition MakeClerk :: "nat \<Rightarrow> int \<Rightarrow> Clerk" where
  "MakeClerk n i = \<lparr>ckServers = n, ckClientId = i, ckSeqNum = 1, ckLeader = 0\<rparr>"

text \<open>The arguments of an attempt of \<^verbatim>\<open>Get\<close>, and of \<^verbatim>\<open>PutAppend\<close>.\<close>

definition getArgs :: "Clerk \<Rightarrow> string \<Rightarrow> GetArgs" where
  "getArgs ck key = \<lparr>gaKey = key, gaClientId = ckClientId ck, gaSeqNum = ckSeqNum ck\<rparr>"

definition putAppendArgs :: "Clerk \<Rightarrow> string \<Rightarrow> string \<Rightarrow> string \<Rightarrow> PutAppendArgs" where
  "putAppendArgs ck key val op =
     \<lparr>paKey = key, paValue = val, paOp = op, paClientId = ckClientId ck, paSeqNum = ckSeqNum ck\<rparr>"

text \<open>
  The retry loops. The network and the servers decide what each attempt returns: the last
  argument lists, attempt by attempt, how they respond to a call (which server, which arguments):
  what \<^verbatim>\<open>Call\<close> returns, and the reply. The result is the clerk and value when the loop
  returns, with the attempts it did not need; \<open>Inl\<close> is the clerk still retrying when the list is
  used up. A failed attempt moves on to the next server; the modulus is by the number of servers,
  which is positive.
\<close>

type_synonym ('args, 'reply) attempt = "nat \<Rightarrow> 'args \<Rightarrow> bool \<times> 'reply"

definition next_server :: "Clerk \<Rightarrow> Clerk" where
  "next_server ck = ck\<lparr>ckLeader := (ckLeader ck + 1) mod ckServers ck\<rparr>"

fun Clerk_Get ::
  "Clerk \<Rightarrow> string \<Rightarrow> (GetArgs, GetReply) attempt list \<Rightarrow>
   Clerk + (Clerk \<times> string \<times> (GetArgs, GetReply) attempt list)" where
  "Clerk_Get ck key [] = Inl ck"
| "Clerk_Get ck key (call # calls) =
     (let (ok, reply) = call (ckLeader ck) (getArgs ck key) in
      if \<not> ok \<or> grErr reply = ErrWrongLeader then Clerk_Get (next_server ck) key calls
      else let ck = ck\<lparr>ckSeqNum := ckSeqNum ck + 1\<rparr> in
        (case grErr reply of
           ErrNoKey \<Rightarrow> Inr (ck, [], calls)
         | OK \<Rightarrow> Inr (ck, grValue reply, calls)
         | _ \<Rightarrow> Clerk_Get ck key calls))"

fun Clerk_PutAppend ::
  "Clerk \<Rightarrow> string \<Rightarrow> string \<Rightarrow> string \<Rightarrow> (PutAppendArgs, PutAppendReply) attempt list \<Rightarrow>
   Clerk + (Clerk \<times> (PutAppendArgs, PutAppendReply) attempt list)" where
  "Clerk_PutAppend ck key val op [] = Inl ck"
| "Clerk_PutAppend ck key val op (call # calls) =
     (let (ok, reply) = call (ckLeader ck) (putAppendArgs ck key val op) in
      if \<not> ok \<or> prErr reply = ErrWrongLeader then Clerk_PutAppend (next_server ck) key val op calls
      else if prErr reply = OK then Inr (ck\<lparr>ckSeqNum := ckSeqNum ck + 1\<rparr>, calls)
      else Clerk_PutAppend ck key val op calls)"

definition Clerk_Put ::
  "Clerk \<Rightarrow> string \<Rightarrow> string \<Rightarrow> (PutAppendArgs, PutAppendReply) attempt list \<Rightarrow>
   Clerk + (Clerk \<times> (PutAppendArgs, PutAppendReply) attempt list)" where
  "Clerk_Put ck key val calls = Clerk_PutAppend ck key val ''Put'' calls"

definition Clerk_Append ::
  "Clerk \<Rightarrow> string \<Rightarrow> string \<Rightarrow> (PutAppendArgs, PutAppendReply) attempt list \<Rightarrow>
   Clerk + (Clerk \<times> (PutAppendArgs, PutAppendReply) attempt list)" where
  "Clerk_Append ck key val calls = Clerk_PutAppend ck key val ''Append'' calls"

end
