(* ===== verification/KvProps.thy ===== *)
theory KvProps
  imports KvServer
begin

text \<open>
  The key/value service is a replicated state machine with at-most-once execution: a replica that
  is fed the log in order, with snapshots in place of prefixes, holds the state the log defines;
  duplicates that clerks put into the log by retrying have no effect; a snapshot that is delivered late
  loses an update; a clerk asks the servers in turn under one number until one of them succeeds.
\<close>

section \<open>Replicas\<close>

text \<open>
  The interface between a consensus log and the services that consume it. \<open>moves i m j\<close>: the
  message \<open>m\<close> takes a replica that has consumed \<open>i\<close> entries to \<open>j\<close> entries. The law is that
  delivering it does so to the state as well.
\<close>

locale replica =
  fixes deliver :: "'m \<Rightarrow> 'k \<Rightarrow> 'k option"
    and moves :: "nat \<Rightarrow> 'm \<Rightarrow> nat \<Rightarrow> bool"
    and state_at :: "nat \<Rightarrow> 's"
    and view :: "'k \<Rightarrow> 's"
    and pos :: "'k \<Rightarrow> int"
  assumes deliver_moves: "moves i m j \<Longrightarrow> view k = state_at i \<Longrightarrow> pos k = int i \<Longrightarrow>
    \<exists>k'. deliver m k = Some k' \<and> view k' = state_at j \<and> pos k' = int j"
begin

fun chain :: "nat \<Rightarrow> 'm list \<Rightarrow> nat \<Rightarrow> bool" where
  "chain i [] j \<longleftrightarrow> i = j"
| "chain i (m # ms) j \<longleftrightarrow> (\<exists>h. moves i m h \<and> chain h ms j)"

fun deliver_all :: "'m list \<Rightarrow> 'k \<Rightarrow> 'k option" where
  "deliver_all [] k = Some k"
| "deliver_all (m # ms) k = do { k \<leftarrow> deliver m k; deliver_all ms k }"

lemma deliver_chain:
  "chain i ms j \<Longrightarrow> view k = state_at i \<Longrightarrow> pos k = int i \<Longrightarrow>
   \<exists>k'. deliver_all ms k = Some k' \<and> view k' = state_at j \<and> pos k' = int j"
proof (induction ms arbitrary: i k)
  case (Cons m ms)
  from Cons.prems(1) obtain h where h: "moves i m h" "chain h ms j" by auto
  obtain k1 where k1: "deliver m k = Some k1" "view k1 = state_at h" "pos k1 = int h"
    using deliver_moves [OF h(1) Cons.prems(2,3)] by blast
  then show ?case using Cons.IH [OF h(2) k1(2,3)] by simp
qed simp

lemma convergence:
  assumes "chain i ms j" "view k = state_at i" "pos k = int i"
    and "chain i' ms' j" "view k' = state_at i'" "pos k' = int i'"
  shows "\<exists>r r'. deliver_all ms k = Some r \<and> deliver_all ms' k' = Some r' \<and> view r = view r'"
  using deliver_chain [OF assms(1-3)] deliver_chain [OF assms(4-6)] by auto

end

section \<open>The state a log defines\<close>

type_synonym kvstate = "(string \<rightharpoonup> string) \<times> (int \<rightharpoonup> int)"

definition kv_apply :: "Op \<Rightarrow> kvstate \<Rightarrow> kvstate" where
  "kv_apply op = (\<lambda>(m, s). if opSeqNum op \<le> seq_of s (opClientId op) then (m, s)
     else (switch_op op m, s(opClientId op \<mapsto> opSeqNum op)))"

definition kv_state :: "Op list \<Rightarrow> nat \<Rightarrow> kvstate" where
  "kv_state ops j = fold kv_apply (take j ops) (Map.empty, Map.empty)"

definition kv_view :: "KVServer \<Rightarrow> kvstate" where
  "kv_view kv = (kvMap kv, lastSeq kv)"

lemma kv_state_Suc: "i < length ops \<Longrightarrow> kv_state ops (Suc i) = kv_apply (ops ! i) (kv_state ops i)"
  by (simp add: kv_state_def take_Suc_conv_app_nth)

text \<open>The messages Raft may deliver to a replica that has consumed \<open>i\<close> entries of \<open>ops\<close>.\<close>

definition commandMsg :: "nat \<Rightarrow> Op \<Rightarrow> (Op, kvgob) ApplyMsg" where
  "commandMsg i op = \<lparr>amCommandValid = True, amCommand = Some op, amCommandIndex = int i,
     amSnapshotValid = False, amSnapshot = [], amSnapshotTerm = 0, amSnapshotIndex = 0\<rparr>"

definition snapshotMsg :: "int \<Rightarrow> nat \<Rightarrow> kvstate \<Rightarrow> (Op, kvgob) ApplyMsg" where
  "snapshotMsg t i st = \<lparr>amCommandValid = False, amCommand = None, amCommandIndex = 0,
     amSnapshotValid = True, amSnapshot = [GobKV (fst st), GobSeq (snd st), GobApplied (int i)],
     amSnapshotTerm = t, amSnapshotIndex = int i\<rparr>"

definition kv_moves :: "Op list \<Rightarrow> nat \<Rightarrow> (Op, kvgob) ApplyMsg \<Rightarrow> nat \<Rightarrow> bool" where
  "kv_moves ops i m j \<longleftrightarrow>
     j = Suc i \<and> i < length ops \<and> m = commandMsg (Suc i) (ops ! i) \<or>
     i \<le> j \<and> j \<le> length ops \<and> (\<exists>t. m = snapshotMsg t j (kv_state ops j))"

interpretation kvsnap: codec
  "\<lambda>(m, s, a). Encode (Encode (Encode [] (GobKV m)) (GobSeq s)) (GobApplied a)" decodeAll
  by unfold_locales (auto simp: Encode_def decodeAll_def)

lemma decode_encode_Snapshot [simp]:
  "decodeSnapshot kv (encodeSnapshot kv') =
     kv\<lparr>kvMap := kvMap kv', lastSeq := lastSeq kv', kvLastApplied := kvLastApplied kv'\<rparr>"
  using kvsnap.dec_enc [of "(kvMap kv', lastSeq kv', kvLastApplied kv')"]
  by (simp add: decodeSnapshot_def encodeSnapshot_def Encode_def)

lemma notify_frame [simp]:
  "kvMap (notifyAndUnlock kv key) = kvMap kv" "lastSeq (notifyAndUnlock kv key) = lastSeq kv"
  "kvLastApplied (notifyAndUnlock kv key) = kvLastApplied kv" "chanMap (notifyAndUnlock kv key) = chanMap kv"
  "nextChan (notifyAndUnlock kv key) = nextChan kv" "kvRf (notifyAndUnlock kv key) = kvRf kv"
  "maxraftstate (notifyAndUnlock kv key) = maxraftstate kv"
  by (simp_all add: notifyAndUnlock_def split: option.splits)

text \<open>One iteration of the apply loop on a command: it executes \<open>kv_apply\<close> and always notifies.\<close>

lemma guardApply_command:
  "\<exists>kv' call. guardApply gs kv (commandMsg i op) = Some (kv', call) \<and> kv_view kv' = kv_apply op (kv_view kv) \<and>
     kvLastApplied kv' = int i \<and> chanMap kv' = chanMap kv \<and> nextChan kv' = nextChan kv \<and> kvRf kv' = kvRf kv \<and>
     full kv' = full kv \<union> {ch. chanMap kv (helpKey (opClientId op) (opSeqNum op)) = Some ch}"
  by (auto simp: guardApply_def commandMsg_def kv_view_def kv_apply_def notifyAndUnlock_def Let_def
      split: option.splits)

lemma guardApply_snapshot:
  "guardApply gs kv (snapshotMsg t i st) =
     Some (kv\<lparr>kvMap := fst st, lastSeq := snd st, kvLastApplied := int i\<rparr>, None)"
  by (simp add: guardApply_def snapshotMsg_def decodeSnapshot_def decodeAll_def)

interpretation kv: replica "\<lambda>m kv. map_option fst (guardApply gs kv m)" "kv_moves ops" "kv_state ops"
  kv_view kvLastApplied for gs ops
proof
  fix i m j k
  assume m: "kv_moves ops i m j" and k: "kv_view k = kv_state ops i" "kvLastApplied k = int i"
  show "\<exists>k'. map_option fst (guardApply gs k m) = Some k' \<and> kv_view k' = kv_state ops j \<and> kvLastApplied k' = int j"
    using m unfolding kv_moves_def
  proof
    assume "j = Suc i \<and> i < length ops \<and> m = commandMsg (Suc i) (ops ! i)"
    then show ?thesis
      using guardApply_command [of gs k "Suc i" "ops ! i"] k by (auto simp: kv_state_Suc)
  next
    assume "i \<le> j \<and> j \<le> length ops \<and> (\<exists>t. m = snapshotMsg t j (kv_state ops j))"
    then show ?thesis by (auto simp: guardApply_snapshot kv_view_def)
  qed
qed

fun deliveries :: "(Op gob list \<Rightarrow> int) \<Rightarrow> (Op, kvgob) ApplyMsg list \<Rightarrow> KVServer \<Rightarrow> KVServer option" where
  "deliveries gs [] kv = Some kv"
| "deliveries gs (m # ms) kv = do { (kv, _) \<leftarrow> guardApply gs kv m; deliveries gs ms kv }"

fun delivery_order :: "Op list \<Rightarrow> nat \<Rightarrow> (Op, kvgob) ApplyMsg list \<Rightarrow> nat \<Rightarrow> bool" where
  "delivery_order ops i [] j \<longleftrightarrow> i = j"
| "delivery_order ops i (m # ms) j \<longleftrightarrow> (\<exists>h. kv_moves ops i m h \<and> delivery_order ops h ms j)"

lemma deliveries_eq: "deliveries gs ms kv = kv.deliver_all gs ms kv"
  by (induction ms arbitrary: kv) (auto split: option.splits bind_splits)

lemma delivery_order_eq: "delivery_order ops i ms j = kv.chain ops i ms j"
  by (induction ms arbitrary: i) auto

section \<open>Duplicates\<close>

text \<open>
  A clerk numbers its requests 1, 2, ... and repeats one until it succeeds, so a number that
  enters the log for the first time is greater than every number of that clerk before it. The
  argument \<open>seen\<close> collects the requests so far.
\<close>

definition request :: "Op \<Rightarrow> int \<times> int" where
  "request op = (opClientId op, opSeqNum op)"

fun disciplined :: "(int \<times> int) set \<Rightarrow> Op list \<Rightarrow> bool" where
  "disciplined seen [] \<longleftrightarrow> True"
| "disciplined seen (op # ops) \<longleftrightarrow> 0 < opSeqNum op \<and>
     (request op \<notin> seen \<longrightarrow> (\<forall>(c, n) \<in> seen. c = opClientId op \<longrightarrow> n < opSeqNum op)) \<and>
     disciplined (insert (request op) seen) ops"

text \<open>The log without repetitions.\<close>

fun firsts :: "(int \<times> int) set \<Rightarrow> Op list \<Rightarrow> Op list" where
  "firsts seen [] = []"
| "firsts seen (op # ops) =
     (if request op \<in> seen then firsts seen ops else op # firsts (insert (request op) seen) ops)"

definition seqs_match :: "(int \<times> int) set \<Rightarrow> (int \<rightharpoonup> int) \<Rightarrow> bool" where
  "seqs_match seen s \<longleftrightarrow> (\<forall>c n. (c, n) \<in> seen \<longrightarrow> n \<le> seq_of s c) \<and>
     (\<forall>c. seq_of s c = 0 \<or> (c, seq_of s c) \<in> seen)"

lemma firsts_distinct: "distinct (map request (firsts seen ops)) \<and> set (map request (firsts seen ops)) \<inter> seen = {}"
  by (induction seen ops rule: firsts.induct) auto

lemma firsts_requests: "request ` set (firsts seen ops) = request ` set ops - seen"
  by (induction seen ops rule: firsts.induct) auto

lemma firsts_apply:
  assumes "disciplined seen ops" "seqs_match seen s"
  shows "fst (fold kv_apply ops (m, s)) = fold switch_op (firsts seen ops) m"
  using assms
proof (induction seen ops arbitrary: m s rule: firsts.induct)
  case (2 seen op ops)
  show ?case
  proof (cases "request op \<in> seen")
    case True
    then have "opSeqNum op \<le> seq_of s (opClientId op)"
      using 2(4) by (auto simp: seqs_match_def request_def)
    moreover have "disciplined seen ops" using 2(3) True by (simp add: insert_absorb)
    ultimately show ?thesis using True 2(1) 2(4) by (simp add: kv_apply_def)
  next
    case False
    let ?c = "opClientId op" and ?n = "opSeqNum op"
    let ?s = "s(?c \<mapsto> ?n)"
    have "\<And>n. (?c, n) \<in> seen \<Longrightarrow> n < ?n" "0 < ?n" "seq_of s ?c = 0 \<or> (?c, seq_of s ?c) \<in> seen"
      using 2(3,4) False by (auto simp: seqs_match_def request_def)
    then have lt: "seq_of s ?c < ?n" by metis
    then have k: "kv_apply op (m, s) = (switch_op op m, ?s)" by (simp add: kv_apply_def)
    have s: "seq_of ?s c = (if c = ?c then ?n else seq_of s c)" for c by (simp add: seq_of_def)
    have "seqs_match (insert (request op) seen) ?s"
      using 2(4) lt unfolding seqs_match_def s by (auto simp: request_def) (meson le_less_trans less_imp_le)
    then show ?thesis using 2(2) [OF False] 2(3) False k by simp
  qed
qed simp

section \<open>Request keys\<close>

lemma helpKey_inj:
  assumes "helpKey c n = helpKey d m"
  shows "c = d \<and> n = m"
  using separated_inj [OF show_int_chars show_int_chars, of c "show_int n" d "show_int m"] assms show_int_inj
  by (auto simp: helpKey_def)

section \<open>Properties of the service\<close>

definition fresh_kv :: "(Op, kvgob) Raft \<Rightarrow> KVServer" where
  "fresh_kv rf = \<lparr>kvMe = 0, kvRf = rf, chanMap = Map.empty, nextChan = 0, full = {}, lastSeq = Map.empty,
     kvMap = Map.empty, kvDead = False, kvLastApplied = 0, maxraftstate = - 1\<rparr>"

lemma fresh_kv_view [simp]: "kv_view (fresh_kv rf) = kv_state ops 0" "kvLastApplied (fresh_kv rf) = 0"
  by (simp_all add: fresh_kv_def kv_view_def kv_state_def)

definition put_ax :: Op where
  "put_ax = \<lparr>opType = OpPut, opKey = ''a'', opValue = ''x'', opClientId = 7, opSeqNum = 1\<rparr>"

definition append_ay :: Op where
  "append_ay = \<lparr>opType = OpAppend, opKey = ''a'', opValue = ''y'', opClientId = 7, opSeqNum = 2\<rparr>"

lemmas kv_eval = put_ax_def append_ay_def OpPut_def OpAppend_def OpGet_def kv_apply_def switch_op_def
  seq_of_def val_of_def

text \<open>
  State machine replication: a replica to which Raft delivers the log in order, where a prefix
  may be replaced by the snapshot of the state after that prefix, never panics and ends in exactly
  the state that executing the log up to its position gives. So replicas at the same position hold
  the same state, whatever mix of commands and snapshots each received.
\<close>

lemma replicas_follow_log:
  assumes "delivery_order ops i ms j" "kv_view kv = kv_state ops i" "kvLastApplied kv = int i"
  shows "\<exists>kv'. deliveries gs ms kv = Some kv' \<and> kv_view kv' = kv_state ops j \<and> kvLastApplied kv' = int j"
  using kv.deliver_chain [of ops i ms j kv gs] assms by (simp add: deliveries_eq delivery_order_eq)

text \<open>
  Exactly once: if clerks number their requests as \<^verbatim>\<open>client.go\<close> does, then executing a log
  with repeated requests gives the same key/value map as executing every request of the log once,
  in the order of its first appearance.
\<close>

lemma exactly_once:
  assumes "disciplined {} ops"
  shows "fst (kv_state ops (length ops)) = fold switch_op (firsts {} ops) Map.empty \<and>
    distinct (map request (firsts {} ops)) \<and> request ` set (firsts {} ops) = request ` set ops"
proof -
  have "seqs_match {} Map.empty" by (simp add: seqs_match_def seq_of_def)
  then show ?thesis
    using firsts_apply [OF assms, of Map.empty Map.empty] firsts_distinct [of "{}" ops] firsts_requests [of "{}" ops]
    by (simp add: kv_state_def)
qed

text \<open>
  The run behind the next property: an empty follower installs a snapshot of index 1, then
  accepts entry 2, already committed, and its applier delivers that entry.
\<close>

definition follower1 :: "(Op, kvgob) Raft" where
  "follower1 = initRaft 3 1 MakePersister 0"

definition snap_args :: "kvgob InstallSnapshotArgs" where
  "snap_args = \<lparr>isTerm = 1, isLeaderId = 0, isLastIncludedIndex = 1, isLastIncludedTerm = 1,
     isData = amSnapshot (snapshotMsg 1 1 (kv_state [put_ax, append_ay] 1))\<rparr>"

definition entry2_args :: "Op AppendEntriesArgs" where
  "entry2_args = \<lparr>aeTerm = 1, aeLeaderId = 0, aePrevLogIndex = 1, aePrevLogTerm = 1,
     aeEntries = [\<lparr>entTerm = 1, entCommand = Some append_ay\<rparr>], aeLeaderCommit = 2\<rparr>"

lemma follower1_run:
  obtains f1 r1 f2 r2 f3 where
    "InstallSnapshot 0 follower1 snap_args = Some (f1, r1, [snapshotMsg 1 1 (kv_state [put_ax, append_ay] 1)])"
    "AppendEntries 0 f1 entry2_args = Some (f2, r2)" "guardKick f2 = Some (f3, [commandMsg 2 append_ay])"
    "lastApplied f3 = 2"
proof -
  let ?st = "kv_state [put_ax, append_ay] 1"
  let ?f0 = "installed 0 follower1 snap_args"
  let ?f1 = "?f0\<lparr>lastApplied := 1, commitIndex := 1\<rparr>"
  have m: "snapshot_msg snap_args = snapshotMsg 1 1 ?st"
    by (simp add: snapshot_msg_def snap_args_def snapshotMsg_def)
  have f: "currentTerm follower1 \<le> isTerm snap_args" "snapIndex follower1 < isLastIncludedIndex snap_args"
    "lastApplied follower1 < isLastIncludedIndex snap_args"
    by (simp_all add: follower1_def snap_args_def initRaft_def)
  have i: "InstallSnapshot 0 follower1 snap_args = Some (?f1, \<lparr>isrTerm = 1\<rparr>, [snapshotMsg 1 1 ?st])"
    using InstallSnapshot_new [OF f(1,2), of 0] f(3) m by (simp add: Let_def) (simp add: snap_args_def)
  have l: "log ?f1 = [\<lparr>entTerm = 1, entCommand = None\<rparr>]" "currentTerm ?f1 = 1" "snapIndex ?f1 = 1"
    "lastApplied ?f1 = 1" "commitIndex ?f1 = 1"
    by (simp_all add: installed_def Let_def touched_def follower1_def snap_args_def initRaft_def from_idx_def)
  have ok: "log_ok ?f1" "currentTerm ?f1 \<le> aeTerm entry2_args" "consistent_at ?f1 entry2_args"
    using l by (simp_all add: log_ok_def entry2_args_def consistent_at_def)
  obtain f2 where a: "AppendEntries 0 ?f1 entry2_args =
      Some (f2, zeroReply\<lparr>aerTerm := aeTerm entry2_args, aerSuccess := True\<rparr>)"
    "log f2 = merged_log ?f1 (merge_point ?f1 entry2_args + 1) (new_entries ?f1 entry2_args)"
    "snapIndex f2 = snapIndex ?f1" "commitIndex f2 = (if aeLeaderCommit entry2_args > commitIndex ?f1
       then min (aeLeaderCommit entry2_args) (logLength f2 - 1) else commitIndex ?f1)"
    "lastApplied f2 = lastApplied ?f1"
    by (rule AppendEntries_accept [OF ok, of 0])
  have log2: "log f2 = [\<lparr>entTerm = 1, entCommand = None\<rparr>, \<lparr>entTerm = 1, entCommand = Some append_ay\<rparr>]"
    using a(2) l by (simp add: merge_point_def new_entries_def entry2_args_def merged_log_def upto_idx_def from_idx_def)
  have c2: "commitIndex f2 = 2" "lastApplied f2 = 1" "snapIndex f2 = 1"
    using a(3,4,5) l log2 by (simp_all add: entry2_args_def logLength_def)
  have g: "guardKick f2 = Some (f2\<lparr>wakeCh := False, lastApplied := 2\<rparr>, [commandMsg 2 append_ay])"
    using c2 log2 by (simp add: guardKick_def Let_def collect_applies.simps get_def nth_int_def commandMsg_def)
  show thesis by (rule that [OF i a(1) g]) simp
qed

lemma kv_states: "kv_state [put_ax, append_ay] 1 = ([''a'' \<mapsto> ''x''], [7 \<mapsto> 1])"
  "kv_state [put_ax, append_ay] 2 = ([''a'' \<mapsto> ''xy''], [7 \<mapsto> 2])"
  by (simp_all add: kv_state_def kv_eval numeral_2_eq_2)

text \<open>
  C37. A late snapshot loses an update. \<^verbatim>\<open>InstallSnapshot\<close> hands its message to \<^verbatim>\<open>applyCh\<close> from
  a goroutine of its own, so the applier may deliver a later command first, and \<^verbatim>\<open>guardApply\<close>
  does not compare \<^verbatim>\<open>SnapshotIndex\<close> with what it has applied. There is a run of one follower in
  which the two messages, delivered in the order in which they were produced, give the state of
  the log, and in the other order leave the replica without the effect of entry 2, although Raft
  counts it as applied.
\<close>

theorem late_snapshot_loses_update:
  "\<exists>f1 r1 ms1 f2 r2 f3 ms2 kv kv'.
     InstallSnapshot 0 follower1 snap_args = Some (f1, r1, ms1) \<and>
     AppendEntries 0 f1 entry2_args = Some (f2, r2) \<and> guardKick f2 = Some (f3, ms2) \<and> lastApplied f3 = 2 \<and>
     deliveries gs (ms1 @ ms2) (fresh_kv f3) = Some kv \<and> kvMap kv ''a'' = Some ''xy'' \<and> kvLastApplied kv = 2 \<and>
     deliveries gs (ms2 @ ms1) (fresh_kv f3) = Some kv' \<and> kvMap kv' ''a'' = Some ''x'' \<and> kvLastApplied kv' = 1"
proof -
  obtain f1 r1 f2 r2 f3 where f:
    "InstallSnapshot 0 follower1 snap_args = Some (f1, r1, [snapshotMsg 1 1 (kv_state [put_ax, append_ay] 1)])"
    "AppendEntries 0 f1 entry2_args = Some (f2, r2)" "guardKick f2 = Some (f3, [commandMsg 2 append_ay])"
    and la: "lastApplied f3 = 2"
    by (rule follower1_run)
  let ?cmd = "commandMsg 2 append_ay" and ?snap = "snapshotMsg 1 1 (kv_state [put_ax, append_ay] 1)"
  have "\<exists>kv. deliveries gs ([?snap] @ [?cmd]) (fresh_kv f3) = Some kv \<and> kvMap kv ''a'' = Some ''xy'' \<and> kvLastApplied kv = 2"
    "\<exists>kv. deliveries gs ([?cmd] @ [?snap]) (fresh_kv f3) = Some kv \<and> kvMap kv ''a'' = Some ''x'' \<and> kvLastApplied kv = 1"
  proof -
    let ?kv1 = "(fresh_kv f3)\<lparr>kvMap := [''a'' \<mapsto> ''x''], lastSeq := [7 \<mapsto> 1], kvLastApplied := 1\<rparr>"
    obtain kv call where kv: "guardApply gs ?kv1 ?cmd = Some (kv, call)"
      "kv_view kv = kv_apply append_ay (kv_view ?kv1)" "kvLastApplied kv = 2"
      using guardApply_command [of gs ?kv1 2 append_ay] by auto
    have "kvMap kv ''a'' = Some ''xy''" using kv(2) by (simp add: kv_view_def kv_eval)
    then show "\<exists>kv. deliveries gs ([?snap] @ [?cmd]) (fresh_kv f3) = Some kv \<and> kvMap kv ''a'' = Some ''xy'' \<and>
        kvLastApplied kv = 2"
      using kv(1,3) by (simp add: guardApply_snapshot kv_states [simplified])
    obtain kv call where "guardApply gs (fresh_kv f3) ?cmd = Some (kv, call)"
      using guardApply_command [of gs "fresh_kv f3" 2 append_ay] by auto
    then show "\<exists>kv. deliveries gs ([?cmd] @ [?snap]) (fresh_kv f3) = Some kv \<and> kvMap kv ''a'' = Some ''x'' \<and>
        kvLastApplied kv = 1"
      by (simp add: guardApply_snapshot kv_states [simplified])
  qed
  with f la show ?thesis by blast
qed

text \<open>
  Compaction and restart: after the goroutine that \<^verbatim>\<open>guardApply\<close> starts has run
  \<^verbatim>\<open>Snapshot\<close>, a server restarted from a copy of the persister has the key/value map, the table
  of executed requests and the position that the server had when it took the snapshot.
\<close>

lemma restart_from_snapshot:
  assumes "node_ok (kvRf kv)" "snapIndex (kvRf kv) < kvLastApplied kv" "kvLastApplied kv < logLength (kvRf kv)"
  shows "\<exists>kv1 kv2. runSnapshot kv (kvLastApplied kv, encodeSnapshot kv) = Some kv1 \<and>
    StartKVServer (npeers (kvRf kv)) (me (kvRf kv)) (Copy (persister (kvRf kv1))) maxstate now = Some kv2 \<and>
    kv_view kv2 = kv_view kv \<and> kvLastApplied kv2 = kvLastApplied kv \<and>
    snapIndex (kvRf kv2) = kvLastApplied kv \<and> log (kvRf kv2) = log (kvRf kv1)"
proof -
  let ?rf = "kvRf kv"
  have "log_ok ?rf" using assms(1) by (simp add: node_ok_def)
  then obtain rf1 where s: "Snapshot ?rf (kvLastApplied kv) (encodeSnapshot kv) = Some rf1"
    "snapshot rf1 = encodeSnapshot kv" "snapIndex rf1 = kvLastApplied kv"
    using Snapshot_spec [of ?rf "kvLastApplied kv" "encodeSnapshot kv"] assms by auto
  have ok: "node_ok rf1" "quiet ?rf rf1" using Snapshot_step [OF assms(1) s(1)] by auto
  then have n: "npeers rf1 = npeers ?rf" "me rf1 = me ?rf" by (auto simp: quiet_def)
  obtain rf2 where m: "Make (npeers rf1) (me rf1) (persister rf1) now = Some rf2"
    "persistent_state rf2 = persistent_state rf1"
    by (rule Make_step [OF ok(1), of now])
  have p: "ReadSnapshot (persister rf1) = encodeSnapshot kv"
    using ok(1) s(2) by (simp add: node_ok_def durable_def ReadSnapshot_def clone_def)
  have "encodeSnapshot kv \<noteq> []" by (simp add: encodeSnapshot_def Encode_def)
  then show ?thesis
    using s m n p by (auto simp: runSnapshot_def StartKVServer_def Let_def kv_view_def persistent_state_def)
qed

definition kv_at_1 :: KVServer where
  "kv_at_1 = (fresh_kv ((initRaft 3 0 MakePersister 0)
       \<lparr>log := [\<lparr>entTerm = - 1, entCommand = None\<rparr>, \<lparr>entTerm = 1, entCommand = Some put_ax\<rparr>],
        persister := \<lparr>raftstate = encodeRaftState (0, - 1,
          [\<lparr>entTerm = - 1, entCommand = None\<rparr>, \<lparr>entTerm = 1, entCommand = Some put_ax\<rparr>], 0), psnapshot = []\<rparr>\<rparr>))
     \<lparr>kvMap := [''a'' \<mapsto> ''x''], lastSeq := [7 \<mapsto> 1], kvLastApplied := 1\<rparr>"

text \<open>
  No two requests share a wait channel: \<^verbatim>\<open>helpKey\<close>, which prints client and sequence number
  in decimal with an \<^verbatim>\<open>@\<close> between them, is injective.
\<close>

lemma helpKey_injective: "helpKey c n = helpKey d m \<longleftrightarrow> c = d \<and> n = m"
  using helpKey_inj by blast

section \<open>Clerks\<close>

text \<open>The clerk after \<open>k\<close> failed attempts.\<close>

definition rotated :: "Clerk \<Rightarrow> nat \<Rightarrow> Clerk" where
  "rotated ck k = ck\<lparr>ckLeader := (ckLeader ck + k) mod ckServers ck\<rparr>"

lemma rotated_next:
  "ckLeader ck < ckServers ck \<Longrightarrow> rotated (next_server ck) k = rotated ck (Suc k)"
  using mod_add_left_eq [of "Suc (ckLeader ck)" "ckServers ck" k] by (simp add: rotated_def next_server_def)

lemma rotated_leader: "ckLeader (rotated ck k) = (ckLeader ck + k) mod ckServers ck"
  by (simp add: rotated_def)

lemma rotated_0: "ckLeader ck < ckServers ck \<Longrightarrow> rotated ck 0 = ck"
  by (simp add: rotated_def)

lemma next_server_ok: "ckLeader ck < ckServers ck \<Longrightarrow> ckLeader (next_server ck) < ckServers (next_server ck)"
  by (simp add: next_server_def)

lemma clerk_args [simp]:
  "putAppendArgs (next_server ck) key val op = putAppendArgs ck key val op"
  "getArgs (next_server ck) key = getArgs ck key"
  "putAppendArgs (rotated ck k) key val op = putAppendArgs ck key val op"
  "getArgs (rotated ck k) key = getArgs ck key"
  by (simp_all add: putAppendArgs_def getArgs_def next_server_def rotated_def)

definition put_failed :: "bool \<times> PutAppendReply \<Rightarrow> bool" where
  "put_failed r \<longleftrightarrow> \<not> fst r \<or> prErr (snd r) = ErrWrongLeader"

definition get_failed :: "bool \<times> GetReply \<Rightarrow> bool" where
  "get_failed r \<longleftrightarrow> \<not> fst r \<or> grErr (snd r) = ErrWrongLeader"

lemma Clerk_PutAppend_failures:
  assumes "ckLeader ck < ckServers ck"
    "\<And>k. k < length calls \<Longrightarrow> put_failed ((calls ! k) (ckLeader (rotated ck k)) (putAppendArgs ck key val op))"
  shows "Clerk_PutAppend ck key val op (calls @ rest) = Clerk_PutAppend (rotated ck (length calls)) key val op rest"
  using assms
proof (induction calls arbitrary: ck)
  case Nil
  then show ?case by (simp add: rotated_0)
next
  case (Cons call calls)
  have "put_failed (call (ckLeader ck) (putAppendArgs ck key val op))"
    using Cons.prems(2) [of 0] Cons.prems(1) by (simp add: rotated_0)
  then have "Clerk_PutAppend ck key val op ((call # calls) @ rest) =
      Clerk_PutAppend (next_server ck) key val op (calls @ rest)"
    by (auto simp: put_failed_def split_beta)
  also have "\<dots> = Clerk_PutAppend (rotated (next_server ck) (length calls)) key val op rest"
    using Cons.prems(2) [of "Suc k" for k] rotated_next [OF Cons.prems(1)]
    by (intro Cons.IH next_server_ok Cons.prems(1)) auto
  finally show ?case using rotated_next [OF Cons.prems(1)] by simp
qed

lemma Clerk_Get_failures:
  assumes "ckLeader ck < ckServers ck"
    "\<And>k. k < length calls \<Longrightarrow> get_failed ((calls ! k) (ckLeader (rotated ck k)) (getArgs ck key))"
  shows "Clerk_Get ck key (calls @ rest) = Clerk_Get (rotated ck (length calls)) key rest"
  using assms
proof (induction calls arbitrary: ck)
  case Nil
  then show ?case by (simp add: rotated_0)
next
  case (Cons call calls)
  have "get_failed (call (ckLeader ck) (getArgs ck key))"
    using Cons.prems(2) [of 0] Cons.prems(1) by (simp add: rotated_0)
  then have "Clerk_Get ck key ((call # calls) @ rest) = Clerk_Get (next_server ck) key (calls @ rest)"
    by (auto simp: get_failed_def split_beta)
  also have "\<dots> = Clerk_Get (rotated (next_server ck) (length calls)) key rest"
    using Cons.prems(2) [of "Suc k" for k] rotated_next [OF Cons.prems(1)]
    by (intro Cons.IH next_server_ok Cons.prems(1)) auto
  finally show ?case using rotated_next [OF Cons.prems(1)] by simp
qed

text \<open>
  A clerk's put or append: through any number of failed attempts it sends the same request,
  with the same number, to the servers in turn, so that as many attempts as there are servers reach
  every one of them; on the first success it returns and moves to the next number, once.
\<close>

lemma clerk_put_retries:
  assumes "ckLeader ck < ckServers ck"
    "\<forall>k < length calls. put_failed ((calls ! k) ((ckLeader ck + k) mod ckServers ck) (putAppendArgs ck key val op))"
    "call ((ckLeader ck + length calls) mod ckServers ck) (putAppendArgs ck key val op) = (True, \<lparr>prErr = OK\<rparr>)"
  shows "Clerk_PutAppend ck key val op (calls @ call # rest) =
    Inr (ck\<lparr>ckLeader := (ckLeader ck + length calls) mod ckServers ck, ckSeqNum := ckSeqNum ck + 1\<rparr>, rest)"
proof -
  have "Clerk_PutAppend ck key val op (calls @ call # rest) =
      Clerk_PutAppend (rotated ck (length calls)) key val op (call # rest)"
    using assms(2) by (intro Clerk_PutAppend_failures assms(1)) (simp add: rotated_def)
  then show ?thesis using assms(3) by (simp add: rotated_leader) (simp add: rotated_def)
qed

text \<open>
  A clerk's get: like a put it retries under one number, and its value is the value of the
  first attempt that succeeds, or the empty string if that attempt reports that the key is absent.
\<close>

lemma clerk_get_retries:
  assumes "ckLeader ck < ckServers ck"
    "\<forall>k < length calls. get_failed ((calls ! k) ((ckLeader ck + k) mod ckServers ck) (getArgs ck key))"
    "call ((ckLeader ck + length calls) mod ckServers ck) (getArgs ck key) = (True, reply)" "grErr reply \<in> {OK, ErrNoKey}"
  shows "Clerk_Get ck key (calls @ call # rest) =
    Inr (ck\<lparr>ckLeader := (ckLeader ck + length calls) mod ckServers ck, ckSeqNum := ckSeqNum ck + 1\<rparr>,
         if grErr reply = OK then grValue reply else [], rest)"
proof -
  have "Clerk_Get ck key (calls @ call # rest) = Clerk_Get (rotated ck (length calls)) key (call # rest)"
    using assms(2) by (intro Clerk_Get_failures assms(1)) (simp add: rotated_def)
  then show ?thesis using assms(3,4) by (auto simp: rotated_leader) (simp_all add: rotated_def)
qed

end
