(* ===== verification/ReplicatedService.thy ===== *)
theory ReplicatedService
  imports RaftService KvProps
begin

text \<open>
  The key/value service on its cluster: a run of the servers of \<^verbatim>\<open>kvraft/\<close> together with their peers, with
  snapshots, crashes, and handlers that wait for their request to come back. The servers are an instance of the
  interface \<open>service\<close>, so all of them follow one list of operations.
\<close>

section \<open>The servers\<close>

text \<open>A server and its calls: the operation of each handler with its wait channel.\<close>

type_synonym kvnode = "KVServer \<times> (Op \<times> nat) list"

text \<open>The steps of a handler: registering its channel, replying after its signal, and the deferred clean-up.\<close>

datatype kv_handler = ARegister Op | AReply Op nat | ACleanup Op

definition op_key_of :: "Op \<Rightarrow> string" where
  "op_key_of op = helpKey (opClientId op) (opSeqNum op)"

definition get_args_of :: "Op \<Rightarrow> GetArgs" where
  "get_args_of op = \<lparr>gaKey = opKey op, gaClientId = opClientId op, gaSeqNum = opSeqNum op\<rparr>"

fun kv_act :: "kv_handler \<Rightarrow> nat \<Rightarrow> kvnode list \<Rightarrow> kvnode list option" where
  "kv_act (ARegister op) v g =
     (let (kv, calls) = g ! v; (kv, ch) = handler_register kv (op_key_of op) in Some (g[v := (kv, (op, ch) # calls)]))"
| "kv_act (AReply op ch) v g =
     (let (kv, calls) = g ! v in
      if (op, ch) \<in> set calls \<and> ch \<in> full kv
      then Some (g[v := (if opType op = OpGet then fst (Get_select kv (get_args_of op) ch True)
                         else fst (PutAppend_select kv ch True), calls)])
      else None)"
| "kv_act (ACleanup op) v g = (let (kv, calls) = g ! v in Some (g[v := (handler_cleanup kv (op_key_of op), calls)]))"

text \<open>The apply loop, where \<^verbatim>\<open>kv.rf\<close> is the peer as it is now; and starting a server after a crash.\<close>

definition kv_deliver :: "(Op gob list \<Rightarrow> int) \<Rightarrow> (Op, kvgob) Raft \<Rightarrow> nat \<Rightarrow> (Op, kvgob) ApplyMsg \<Rightarrow> kvnode list \<Rightarrow>
    (kvnode list \<times> (int \<times> kvgob list) option) option" where
  "kv_deliver gs rf v m g = (let (kv, calls) = g ! v in do {
     (kv, call) \<leftarrow> guardApply gs (kv\<lparr>kvRf := rf\<rparr>) m;
     Some (g[v := (kv, calls)], call)
   })"

definition kv_boot :: "int \<Rightarrow> (Op, kvgob) Raft \<Rightarrow> nat \<Rightarrow> int \<Rightarrow> kvnode list \<Rightarrow> kvnode list option" where
  "kv_boot mx rf v now g = do {
     kv \<leftarrow> StartKVServer (npeers rf) v (Copy (persister rf)) mx now;
     Some (g[v := (kv, [])])
   }"

definition kv_servers :: "nat \<Rightarrow> int \<Rightarrow> kvnode list" where
  "kv_servers n mx = map (\<lambda>v. (the (StartKVServer n v MakePersister mx 0), [])) [0..<n]"

type_synonym kvsystem = "(kvnode list, Op, kvgob) system"

definition kv_sys :: "(Op gob list \<Rightarrow> int) \<Rightarrow> int \<Rightarrow> nat \<Rightarrow> (Op, kvgob, kv_handler) svc_event list \<Rightarrow> kvsystem option" where
  "kv_sys gs mx n es = svc_run (kv_deliver gs) (kv_boot mx) kv_act es (svc_init n (kv_servers n mx))"

abbreviation kv_at :: "kvsystem \<Rightarrow> nat \<Rightarrow> KVServer" where
  "kv_at sy v \<equiv> fst (syState sy ! v)"

section \<open>The servers follow a log\<close>

text \<open>The requests of the first \<open>p\<close> operations.\<close>

definition asked :: "Op list \<Rightarrow> nat \<Rightarrow> (int \<times> int) set" where
  "asked ops p = request ` set (take p ops)"

lemma asked_mono: "p \<le> q \<Longrightarrow> asked ops p \<subseteq> asked ops q"
  by (auto simp: asked_def intro!: imageI dest: set_take_subset_set_take [THEN subsetD])

lemma asked_Suc: "p < length ops \<Longrightarrow> asked ops (Suc p) = insert (request (ops ! p)) (asked ops p)"
  by (simp add: asked_def take_Suc_conv_app_nth)

text \<open>Every wait channel belongs to one call, and a signal means that the request is in the log.\<close>

definition acks :: "Op list \<Rightarrow> nat \<Rightarrow> kvnode \<Rightarrow> bool" where
  "acks ops p = (\<lambda>(kv, calls).
     (\<forall>op ch. chanMap kv (op_key_of op) = Some ch \<longrightarrow> (\<exists>op'. (op', ch) \<in> set calls \<and> request op' = request op)) \<and>
     (\<forall>op ch. (op, ch) \<in> set calls \<longrightarrow> ch < nextChan kv \<and> (ch \<in> full kv \<longrightarrow> request op \<in> asked ops p)) \<and>
     (\<forall>ch \<in> full kv. ch < nextChan kv) \<and> distinct (map snd calls))"

definition kv_holds :: "Op list \<Rightarrow> kvnode list \<Rightarrow> nat \<Rightarrow> nat \<Rightarrow> bool" where
  "kv_holds ops g v p \<longleftrightarrow> v < length g \<and> kv_view (fst (g ! v)) = kv_state ops p \<and> kvLastApplied (fst (g ! v)) = int p \<and> acks ops p (g ! v)"

definition kv_enc :: "Op list \<Rightarrow> nat \<Rightarrow> kvgob list" where
  "kv_enc ops j = [GobKV (fst (kv_state ops j)), GobSeq (snd (kv_state ops j)), GobApplied (int j)]"

lemma op_key_of_eq: "op_key_of op = op_key_of op' \<longleftrightarrow> request op = request op'"
  using helpKey_inj by (auto simp: op_key_of_def request_def)

lemma acks_mono:
  "acks ops p (kv, calls) \<Longrightarrow> p \<le> q \<Longrightarrow> chanMap kv' = chanMap kv \<Longrightarrow> nextChan kv' = nextChan kv \<Longrightarrow> full kv' = full kv \<Longrightarrow>
   acks ops q (kv', calls)"
  using asked_mono [of p q ops] by (auto simp: acks_def)

lemma acks_register:
  assumes "acks ops p (kv, calls)"
  shows "acks ops p (fst (handler_register kv (op_key_of op)), (op, snd (handler_register kv (op_key_of op))) # calls)"
proof -
  have "nextChan kv \<notin> snd ` set calls" "nextChan kv \<notin> full kv" using assms by (fastforce simp: acks_def)+
  then show ?thesis
    using assms by (auto simp: acks_def handler_register_def op_key_of_eq less_Suc_eq split: if_splits) fast
qed

lemma acks_reply: "acks ops p (kv, calls) \<Longrightarrow> acks ops p (kv\<lparr>full := full kv - {ch}\<rparr>, calls)"
  by (auto simp: acks_def)

lemma acks_cleanup: "acks ops p (kv, calls) \<Longrightarrow> acks ops p (handler_cleanup kv key, calls)"
  by (auto simp: acks_def handler_cleanup_def split: if_splits)

lemma select_full:
  "fst (Get_select kv args ch True) = kv\<lparr>full := full kv - {ch}\<rparr>" "fst (PutAppend_select kv ch True) = kv\<lparr>full := full kv - {ch}\<rparr>"
  by (simp_all add: Get_select_def PutAppend_select_def Let_def split: option.split)

lemma acks_command:
  assumes "acks ops p (kv, calls)" "p < length ops" "chanMap kv' = chanMap kv" "nextChan kv' = nextChan kv"
    "full kv' = full kv \<union> {ch. chanMap kv (op_key_of (ops ! p)) = Some ch}"
  shows "acks ops (Suc p) (kv', calls)"
proof -
  have "request op = request (ops ! p)" if h: "(op, ch) \<in> set calls" "chanMap kv (op_key_of (ops ! p)) = Some ch" for op ch
  proof -
    obtain op' where "(op', ch) \<in> set calls" "request op' = request (ops ! p)" using assms(1) h(2) unfolding acks_def by fast
    moreover have "inj_on snd (set calls)" using assms(1) by (simp add: acks_def distinct_map)
    ultimately have "op' = op" using h(1) inj_onD [of snd "set calls" "(op', ch)" "(op, ch)"] by simp
    moreover note \<open>request op' = request (ops ! p)\<close>
    ultimately show ?thesis by simp
  qed
  then show ?thesis using assms asked_Suc [OF assms(2)] unfolding acks_def by fastforce
qed

lemma guardApply_call:
  assumes "guardApply gs kv (commandMsg i op) = Some (kv', call)"
  shows "call = None \<or> call = Some (int i, encodeSnapshot kv')"
  using assms by (auto simp: guardApply_def commandMsg_def Let_def notify_frame split: if_splits)

lemma encode_view: "encodeSnapshot kv = [GobKV (fst (kv_view kv)), GobSeq (snd (kv_view kv)), GobApplied (kvLastApplied kv)]"
  by (simp add: encodeSnapshot_def Encode_def kv_view_def)

lemma kv_others: "\<forall>u. u \<noteq> v \<longrightarrow> g' ! u = g ! u \<Longrightarrow> length g' = length g \<Longrightarrow> others_keep n kv_holds ops v g g'"
  by (auto simp: others_keep_def kv_holds_def)

interpretation kvs: service n "kv_deliver gs" "kv_boot mx" kv_act kv_enc kv_holds for n gs mx
proof
  fix v ops p rf and g :: "kvnode list"
  assume h: "kv_holds ops g v p" "p < length ops"
  obtain kv calls where g: "g ! v = (kv, calls)" by (cases "g ! v")
  let ?kv = "kv\<lparr>kvRf := rf\<rparr>"
  obtain kv' call where kv': "guardApply gs ?kv (commandMsg (Suc p) (ops ! p)) = Some (kv', call)" "kv_view kv' = kv_apply (ops ! p) (kv_view ?kv)"
    "kvLastApplied kv' = int (Suc p)" "chanMap kv' = chanMap ?kv" "nextChan kv' = nextChan ?kv"
    "full kv' = full ?kv \<union> {ch. chanMap ?kv (helpKey (opClientId (ops ! p)) (opSeqNum (ops ! p))) = Some ch}"
    using guardApply_command [of gs ?kv "Suc p" "ops ! p"] by blast
  have view: "kv_view kv' = kv_state ops (Suc p)" using h g kv'(2) by (simp add: kv_holds_def kv_state_Suc kv_view_def)
  have "acks ops (Suc p) (kv', calls)"
    by (rule acks_command [of ops p kv]) (use h g kv'(4-6) in \<open>auto simp: kv_holds_def op_key_of_def\<close>)
  then have "kv_holds ops (g[v := (kv', calls)]) v (Suc p)" using h(1) view kv'(3) by (simp add: kv_holds_def)
  moreover have "call = None \<or> call = Some (int p + 1, kv_enc ops (Suc p))"
    using guardApply_call [OF kv'(1)] view kv'(3) by (auto simp: encode_view kv_enc_def)
  moreover have "plain_msg (int p + 1) (ops ! p) = commandMsg (Suc p) (ops ! p)" by (simp add: plain_msg_def commandMsg_def)
  ultimately show "\<exists>g' call. kv_deliver gs rf v (plain_msg (int p + 1) (ops ! p)) g = Some (g', call) \<and> kv_holds ops g' v (Suc p) \<and>
        others_keep n kv_holds ops v g g' \<and> (call = None \<or> call = Some (int p + 1, kv_enc ops (Suc p)))"
    using g kv'(1) by (auto simp: kv_deliver_def intro: kv_others)
next
  fix v ops p j rf t and g :: "kvnode list"
  assume h: "kv_holds ops g v p" "p \<le> j"
  obtain kv calls where g: "g ! v = (kv, calls)" by (cases "g ! v")
  let ?kv = "kv\<lparr>kvRf := rf, kvMap := fst (kv_state ops j), lastSeq := snd (kv_state ops j), kvLastApplied := int j\<rparr>"
  have m: "snap_msg t (int j) (kv_enc ops j) = snapshotMsg t j (kv_state ops j)" by (simp add: snap_msg_def snapshotMsg_def kv_enc_def)
  have "acks ops j (?kv, calls)" by (rule acks_mono [of ops p kv]) (use h g in \<open>auto simp: kv_holds_def\<close>)
  then have "kv_holds ops (g[v := (?kv, calls)]) v j" using h(1) by (simp add: kv_holds_def kv_view_def)
  then show "\<exists>g'. kv_deliver gs rf v (snap_msg t (int j) (kv_enc ops j)) g = Some (g', None) \<and> kv_holds ops g' v j \<and> others_keep n kv_holds ops v g g'"
    using g by (auto simp: kv_deliver_def m guardApply_snapshot intro: kv_others)
next
  fix v ops j now and g :: "kvnode list" and rf :: "(Op, kvgob) Raft"
  assume h: "v < n" "following n kv_holds ops g" "node_ok rf" "me rf = v" "npeers rf = n"
    "ReadSnapshot (persister rf) = (if j = 0 then [] else kv_enc ops j)"
  have v: "v < length g" using h(1,2) by (auto simp: following_def kv_holds_def)
  obtain rf' where m: "Make n v (persister rf) now = Some rf'" using Make_step [OF h(3), of now] h(4,5) by metis
  have "\<exists>kv. StartKVServer n v (persister rf) mx now = Some kv \<and> kv_view kv = kv_state ops j \<and> kvLastApplied kv = int j \<and>
    chanMap kv = Map.empty \<and> full kv = {}"
  proof (cases "j = 0")
    case True
    then show ?thesis using m h(6) by (simp add: StartKVServer_def kv_view_def kv_state_def)
  next
    case False
    then show ?thesis using m h(6) by (simp add: StartKVServer_def kv_view_def kv_enc_def decodeSnapshot_def decodeAll_def)
  qed
  then obtain kv where kv: "StartKVServer n v (persister rf) mx now = Some kv" "kv_view kv = kv_state ops j" "kvLastApplied kv = int j"
    "chanMap kv = Map.empty" "full kv = {}"
    by blast
  then have "kv_holds ops (g[v := (kv, [])]) v j" using v by (simp add: kv_holds_def acks_def)
  then show "\<exists>g'. kv_boot mx rf v now g = Some g' \<and> kv_holds ops g' v j \<and> others_keep n kv_holds ops v g g'"
    using kv(1) h(5) by (auto simp: kv_boot_def intro: kv_others)
next
  fix v u h p ops and g g' :: "kvnode list"
  assume a: "kv_act h v g = Some g'" "kv_holds ops g u p"
  obtain kv calls where g: "g ! v = (kv, calls)" by (cases "g ! v")
  have upd: "kv_holds ops (g[v := (kv', calls')]) u p"
    if "kv_view kv' = kv_view kv" "kvLastApplied kv' = kvLastApplied kv" "acks ops p (kv, calls) \<Longrightarrow> acks ops p (kv', calls')" for kv' calls'
    using that a(2) g by (cases "u = v") (auto simp: kv_holds_def)
  show "kv_holds ops g' u p"
  proof (cases h)
    case (ARegister op)
    then show ?thesis using a(1) g acks_register [of ops p kv calls op] by (auto simp: split_beta handler_register_def kv_view_def intro!: upd)
  next
    case (AReply op ch)
    then show ?thesis using a(1) g acks_reply [of ops p kv calls ch] by (auto simp: select_full kv_view_def split: if_splits intro!: upd)
  next
    case (ACleanup op)
    then show ?thesis using a(1) g acks_cleanup [of ops p kv calls] by (auto simp: kv_view_def handler_cleanup_def intro!: upd)
  qed
qed

lemma kv_servers_start: "v < n \<Longrightarrow> kv_holds ops (kv_servers n mx) v 0"
proof -
  assume v: "v < n"
  have "StartKVServer n v MakePersister mx 0 = Some \<lparr>kvMe = v, kvRf = initRaft n v MakePersister 0, chanMap = Map.empty, nextChan = 0,
      full = {}, lastSeq = Map.empty, kvMap = Map.empty, kvDead = False, kvLastApplied = 0, maxraftstate = mx\<rparr>"
    by (simp add: StartKVServer_def Make_def MakePersister_def ReadRaftState_def ReadSnapshot_def clone_def readPersist_def initRaft_def)
  then show ?thesis using v by (simp add: kv_holds_def kv_servers_def acks_def kv_view_def kv_state_def)
qed

text \<open>One log for all servers and all times, of which each has executed only what has been started by then.\<close>

lemma kv_log:
  assumes "kv_sys gs mx n es = Some sy" "prompt (syRaft sy) \<or> n \<le> 3" "reads_in_order es"
  obtains ops where "\<forall>k \<le> length es. \<exists>sk. kv_sys gs mx n (take k es) = Some sk \<and> length (nodes (syRaft sk)) = n \<and>
    (\<forall>v < n. \<exists>p \<le> length ops. kv_holds ops (syState sk) v p \<and> set (take p ops) \<subseteq> start_cmds (take k es))"
proof -
  from assms(1) have "svc_run (kv_deliver gs) (kv_boot mx) kv_act es (svc_init n (kv_servers n mx)) = Some sy" by (simp add: kv_sys_def)
  then obtain ops where ops: "\<forall>k \<le> length es.
      \<exists>sk. svc_run (kv_deliver gs) (kv_boot mx) kv_act (take k es) (svc_init n (kv_servers n mx)) = Some sk \<and> kvs.followed n (start_cmds (take k es)) ops sk"
    by (rule kvs.one_log [OF _ assms(2) kv_servers_start assms(3)])
  have "\<exists>p \<le> length ops. kv_holds ops (syState sk) v p \<and> set (take p ops) \<subseteq> C" if f: "kvs.followed n C ops sk" and v: "v < n" for sk v C
  proof -
    obtain p ops' q where p: "p \<le> length ops" "kv_holds ops (syState sk) v p" "prefix ops' ops" "set ops' \<subseteq> C" "q \<le> length ops'"
      "kv_holds ops' (syState sk) v q"
      by (rule kvs.followed_holds [OF f v])
    then have "p = q" by (simp add: kv_holds_def)
    then have "take p ops = take p ops'" using p(3,5) by (auto simp: prefix_def)
    then show ?thesis using p(1,2,4) by (metis order_trans set_take_subset)
  qed
  then show thesis using that ops kvs.followed_following [of n] unfolding kv_sys_def by meson
qed

section \<open>Properties\<close>

text \<open>
  The run of the witnesses, with servers that snapshot after every operation: a put is committed and executed by
  server 0, whose handler replies; the snapshot goes to server 1, and server 0 crashes and restarts from it.
\<close>

definition kv_events :: "(Op, kvgob, kv_handler) svc_event list" where
  "kv_events = map SRaft [CTick 0 timeout, CVoteSend 0, CVoteSend 1, CVoteServe 1 timeout, CVoteRecv 1] @
     [SHandler 0 (ARegister put_ax)] @ map SRaft [CStart 0 put_ax, CAppendSend 0 2, CAppendServe 0 timeout, CAppendRecv 0, CApply 0] @
     [SDeliver 0 0]"

definition kv_events_after :: "(Op, kvgob, kv_handler) svc_event list" where
  "kv_events_after = [SHandler 0 (AReply put_ax 0), SHandler 0 (ACleanup put_ax), SCompact 0 0] @
     map SRaft [CAppendSend 0 1, CInstallServe 0 timeout] @ [SDeliver 1 0, SRestart 0 timeout]"

definition kv_end :: kvsystem where
  "kv_end = the (kv_sys (\<lambda>_. 1) 0 3 (kv_events @ kv_events_after))"

definition kv_mid :: kvsystem where
  "kv_mid = the (kv_sys (\<lambda>_. 1) 0 3 kv_events)"

lemma kv_runs:
  "kv_sys (\<lambda>_. 1) 0 3 (kv_events @ kv_events_after) = Some kv_end" "kv_sys (\<lambda>_. 1) 0 3 kv_events = Some kv_mid"
proof -
  have "kv_sys (\<lambda>_. 1) 0 3 (kv_events @ kv_events_after) \<noteq> None" "kv_sys (\<lambda>_. 1) 0 3 kv_events \<noteq> None" by code_simp+
  then show "kv_sys (\<lambda>_. 1) 0 3 (kv_events @ kv_events_after) = Some kv_end" "kv_sys (\<lambda>_. 1) 0 3 kv_events = Some kv_mid"
    by (auto simp: kv_end_def kv_mid_def)
qed

lemma kv_in_order: "reads_in_order kv_events" "reads_in_order kv_events_after"
  by (simp_all add: kv_events_def kv_events_after_def)

lemma kv_run_facts:
  "kvLastApplied (kv_at kv_end 0) = 1" "kvLastApplied (kv_at kv_end 1) = 1" "0 \<in> full (kv_at kv_mid 0)" "kvLastApplied (kv_at kv_mid 0) = 1"
  "length (syTodo kv_mid ! 0) = 1"
  by code_simp+

lemma kv_mid_call: "(put_ax, 0) \<in> set (snd (syState kv_mid ! 0))"
  by code_simp

text \<open>
  C3. The replicated service: take a run of a cluster of key/value servers, over crashes and restarts, with
  snapshots taken, sent to slow servers and loaded after a crash, in which every server reads its apply channel in the order in
  which its peer produces the messages, and vote requests are prompt or there are at most three servers. There
  is one list of operations such that at every moment of the run each server is in the state that the first
  \<^verbatim>\<open>lastApplied\<close> operations of the list define, and these are operations that handlers have given to \<^verbatim>\<open>Start\<close>. So
  servers that have applied as many operations have the same keys, values and client numbers, at the
  same or at different times.
\<close>

theorem replicated_service:
  assumes "kv_sys gs mx n es = Some sy" "prompt (syRaft sy) \<or> n \<le> 3" "reads_in_order es"
  shows "\<exists>ops. \<forall>k \<le> length es. \<exists>sk. kv_sys gs mx n (take k es) = Some sk \<and> (\<forall>v < n.
    0 \<le> kvLastApplied (kv_at sk v) \<and> kvLastApplied (kv_at sk v) \<le> int (length ops) \<and>
    kv_view (kv_at sk v) = kv_state ops (nat (kvLastApplied (kv_at sk v))) \<and>
    set (take (nat (kvLastApplied (kv_at sk v))) ops) \<subseteq> start_cmds (take k es))"
proof -
  obtain ops where ops: "\<forall>k \<le> length es.
      \<exists>sk. kv_sys gs mx n (take k es) = Some sk \<and> length (nodes (syRaft sk)) = n \<and>
        (\<forall>v < n. \<exists>p \<le> length ops. kv_holds ops (syState sk) v p \<and> set (take p ops) \<subseteq> start_cmds (take k es))"
    by (rule kv_log [OF assms])
  show ?thesis by (rule exI [of _ ops]) (use ops in \<open>fastforce simp: kv_holds_def\<close>)
qed

theorem replicated_service_witness:
  "kv_view (kv_at kv_end 0) = kv_view (kv_at kv_end 1) \<and> kv_view (kv_at kv_end 0) = kv_view (kv_at kv_mid 0)"
proof -
  obtain ops where ops: "\<forall>k \<le> length (kv_events @ kv_events_after). \<exists>sk. kv_sys (\<lambda>_. 1) 0 3 (take k (kv_events @ kv_events_after)) = Some sk \<and>
      (\<forall>v < 3. 0 \<le> kvLastApplied (kv_at sk v) \<and> kvLastApplied (kv_at sk v) \<le> int (length ops) \<and>
        kv_view (kv_at sk v) = kv_state ops (nat (kvLastApplied (kv_at sk v))) \<and>
        set (take (nat (kvLastApplied (kv_at sk v))) ops) \<subseteq> start_cmds (take k (kv_events @ kv_events_after)))"
    using replicated_service [OF kv_runs(1)] kv_in_order by auto
  from ops [rule_format, of "length (kv_events @ kv_events_after)"] ops [rule_format, of "length kv_events"]
  show ?thesis using kv_runs kv_run_facts by simp
qed

text \<open>
  C13. No acknowledged request is lost, in runs in which the apply channels are read in order and vote requests are prompt or
  there are at most three servers: when at any moment a handler gets its signal, and so replies, its request
  is among the operations that its server has executed, and it is in the one list that all servers still follow at the
  end of the run, whatever crashed and whichever leaders were elected in between.
\<close>

theorem acknowledged_is_committed:
  assumes "kv_sys gs mx n es = Some sy" "prompt (syRaft sy) \<or> n \<le> 3" "reads_in_order es" "kv_sys gs mx n (take k es) = Some sk"
    and "k \<le> length es" "v < n" "(op, ch) \<in> set (snd (syState sk ! v))" "ch \<in> full (kv_at sk v)"
  shows "\<exists>ops i. int i < kvLastApplied (kv_at sk v) \<and> i < length ops \<and> request (ops ! i) = request op \<and>
    kv_view (kv_at sk v) = kv_state ops (nat (kvLastApplied (kv_at sk v))) \<and>
    (\<forall>u < n. kv_view (kv_at sy u) = kv_state ops (nat (kvLastApplied (kv_at sy u))))"
proof -
  obtain ops where ops: "\<forall>k \<le> length es.
      \<exists>sk. kv_sys gs mx n (take k es) = Some sk \<and> length (nodes (syRaft sk)) = n \<and>
        (\<forall>v < n. \<exists>p \<le> length ops. kv_holds ops (syState sk) v p \<and> set (take p ops) \<subseteq> start_cmds (take k es))"
    by (rule kv_log [OF assms(1-3)])
  obtain p where p: "p \<le> length ops" "kv_holds ops (syState sk) v p" using ops assms(4-6) by fastforce
  then have "acks ops p (syState sk ! v)" by (simp add: kv_holds_def)
  then have "request op \<in> asked ops p" using assms(7,8) by (auto simp: acks_def split: prod.splits)
  then obtain i where "i < p" "i < length ops" "request (ops ! i) = request op"
    by (auto simp: asked_def in_set_conv_nth)
  moreover have "\<forall>u < n. \<exists>q. kv_holds ops (syState sy) u q" using ops [rule_format, of "length es"] assms(1) by auto
  ultimately show ?thesis using p(2) unfolding kv_holds_def by (intro exI [of _ ops] exI [of _ i]) fastforce
qed

theorem acknowledged_is_committed_witness:
  "\<exists>ops i. int i < kvLastApplied (kv_at kv_mid 0) \<and> i < length ops \<and> request (ops ! i) = request put_ax \<and>
    kv_view (kv_at kv_end 1) = kv_state ops (nat (kvLastApplied (kv_at kv_end 1)))"
proof -
  from acknowledged_is_committed [OF kv_runs(1) _ _ _ _ _ kv_mid_call kv_run_facts(3), of "length kv_events"] kv_runs(2) kv_in_order
  obtain ops i where "int i < kvLastApplied (kv_at kv_mid 0)" "i < length ops" "request (ops ! i) = request put_ax"
    "\<forall>u < 3. kv_view (kv_at kv_end u) = kv_state ops (nat (kvLastApplied (kv_at kv_end u)))"
    by auto
  then show ?thesis by (intro exI [of _ ops] exI [of _ i]) simp
qed

text \<open>
  C38. The servers do not fail as long as the apply channels are read in order and vote requests are prompt or there are at most
  three servers: at every moment of such a run each server can handle the oldest message of its channel, make a
  snapshot that it has announced, and be restarted from what it has saved; none of these panics.
\<close>

theorem servers_never_fail:
  assumes "kv_sys gs mx n es = Some sy" "prompt (syRaft sy) \<or> n \<le> 3" "reads_in_order es" "v < n"
  shows "(syUnread sy ! v \<noteq> [] \<longrightarrow> kv_sys gs mx n (es @ [SDeliver v 0]) \<noteq> None) \<and>
    (\<forall>k < length (syTodo sy ! v). kv_sys gs mx n (es @ [SCompact v k]) \<noteq> None) \<and>
    kv_sys gs mx n (es @ [SRestart v now]) \<noteq> None"
proof -
  have run: "svc_run (kv_deliver gs) (kv_boot mx) kv_act es (svc_init n (kv_servers n mx)) = Some sy" using assms(1) by (simp add: kv_sys_def)
  note S = kvs.run_not_stuck [OF run assms(2) kv_servers_start assms(4,3)]
  have "kv_sys gs mx n (es @ [e]) = svc_step (kv_deliver gs) (kv_boot mx) kv_act e sy" for e
    using run by (simp add: kv_sys_def svc_run_append bind_eq_Some_conv split: bind_split)
  then show ?thesis using S by simp
qed

theorem servers_never_fail_witness:
  "kv_sys (\<lambda>_. 1) 0 3 (kv_events @ [SCompact 0 0]) \<noteq> None \<and> kv_sys (\<lambda>_. 1) 0 3 (kv_events @ [SRestart 0 7]) \<noteq> None"
  using servers_never_fail [OF kv_runs(2), of 0 7] kv_run_facts(5) kv_in_order(1) by simp

end
