(* ===== verification/Bitset.thy ===== *)
theory Bitset
  imports Prelude "HOL-Library.Word"
begin

unbundle bit_operations_syntax

text \<open>
  The bit sets of \<^verbatim>\<open>porcupine/bitset.go\<close>: a slice of 64-bit words, bit \<open>p\<close> in word \<open>p div 64\<close>.
  An access outside the slice panics (\<open>None\<close>). The methods that write work in place and
  return the receiver; the model returns the new value, and \<open>bitset_clone\<close> is what keeps the
  old one apart. The locale \<open>position_set\<close> is what the checker relies on: a bit set made for
  \<open>n\<close> positions is a set of numbers below \<open>n\<close>.
\<close>

type_synonym bitset = "64 word list"

definition newBitset :: "nat \<Rightarrow> bitset" where
  "newBitset bits =
     (let extra = (if bits mod 64 \<noteq> 0 then 1 else 0); chunks = bits div 64 + extra in replicate chunks 0)"

definition bitset_clone :: "bitset \<Rightarrow> bitset" where
  "bitset_clone b = take (length b) b @ drop (length b) (replicate (length b) 0)"

definition bitsetIndex :: "nat \<Rightarrow> nat \<times> nat" where
  "bitsetIndex pos = (pos div 64, pos mod 64)"

definition bitset_set :: "bitset \<Rightarrow> nat \<Rightarrow> bitset option" where
  "bitset_set b pos =
     (let (major, minor) = bitsetIndex pos in
      if major < length b then Some (b[major := b ! major OR push_bit minor 1]) else None)"

definition bitset_clear :: "bitset \<Rightarrow> nat \<Rightarrow> bitset option" where
  "bitset_clear b pos =
     (let (major, minor) = bitsetIndex pos in
      if major < length b then Some (b[major := b ! major AND NOT (push_bit minor 1)]) else None)"

definition bitset_get :: "bitset \<Rightarrow> nat \<Rightarrow> bool option" where
  "bitset_get b pos =
     (let (major, minor) = bitsetIndex pos in
      if major < length b then Some (b ! major AND push_bit minor 1 \<noteq> 0) else None)"

text \<open>\<^verbatim>\<open>bits.OnesCount64\<close>\<close>

definition OnesCount64 :: "64 word \<Rightarrow> nat" where
  "OnesCount64 v = length (filter (bit v) [0..<64])"

definition popcnt :: "bitset \<Rightarrow> nat" where
  "popcnt b = fold (\<lambda>v total. total + OnesCount64 v) b 0"

definition bitset_hash :: "bitset \<Rightarrow> 64 word" where
  "bitset_hash b = fold (\<lambda>v hash. hash XOR v) b (of_nat (popcnt b))"

definition bitset_equals :: "bitset \<Rightarrow> bitset \<Rightarrow> bool" where
  "bitset_equals b b2 \<longleftrightarrow> length b = length b2 \<and> list_all (\<lambda>i. b ! i = b2 ! i) [0..<length b]"

section \<open>The set of positions\<close>

definition bits_of :: "bitset \<Rightarrow> nat set" where
  "bits_of b = {p. p < 64 * length b \<and> bit (b ! (p div 64)) (p mod 64)}"

definition fits :: "nat \<Rightarrow> bitset \<Rightarrow> bool" where
  "fits n b \<longleftrightarrow> length b = length (newBitset n)"

lemma bitset_clone_id [simp]: "bitset_clone b = b"
  by (simp add: bitset_clone_def)

lemma bitset_equals_iff [simp]: "bitset_equals b b2 \<longleftrightarrow> b = b2"
  by (auto simp: bitset_equals_def list_all_iff intro: nth_equalityI)

lemma newBitset_room: "p < n \<Longrightarrow> p div 64 < length (newBitset n)"
  unfolding newBitset_def Let_def length_replicate by (cases "n mod 64 = 0") auto

lemma fits_new [simp]: "fits n (newBitset n)"
  by (simp add: fits_def)

lemma fits_update [simp]: "fits n (b[i := v]) \<longleftrightarrow> fits n b"
  by (simp add: fits_def)

lemma fits_room: "fits n b \<Longrightarrow> p < n \<Longrightarrow> p div 64 < length b"
  by (simp add: fits_def newBitset_room)

lemma mem_bits_of: "p \<in> bits_of b \<longleftrightarrow> p div 64 < length b \<and> bit (b ! (p div 64)) (p mod 64)"
  unfolding bits_of_def by auto

lemma bits_of_new [simp]: "bits_of (newBitset n) = {}"
  by (auto simp: mem_bits_of newBitset_def Let_def simp del: replicate.simps replicate_Suc)

lemma div_mod_64: "(p div 64 = q div 64 \<and> p mod 64 = q mod 64) \<longleftrightarrow> p = (q :: nat)"
  by (metis div_mult_mod_eq)

lemma bit_push_1: "k < 64 \<Longrightarrow> bit (2 ^ m :: 64 word) k \<longleftrightarrow> k = m"
  by (auto simp: bit_exp_iff)

lemma bitset_set_spec:
  assumes "p div 64 < length b"
  shows "\<exists>b'. bitset_set b p = Some b' \<and> length b' = length b \<and> bits_of b' = insert p (bits_of b)"
proof -
  let ?b = "b[p div 64 := b ! (p div 64) OR push_bit (p mod 64) 1]"
  have "q \<in> bits_of ?b \<longleftrightarrow> q \<in> insert p (bits_of b)" for q
    using assms div_mod_64 [of q p]
    by (cases "q div 64 = p div 64") (auto simp: mem_bits_of bit_or_iff bit_push_1)
  then show ?thesis
    using assms by (auto simp: bitset_set_def bitsetIndex_def)
qed

lemma bitset_clear_spec:
  assumes "p div 64 < length b"
  shows "\<exists>b'. bitset_clear b p = Some b' \<and> length b' = length b \<and> bits_of b' = bits_of b - {p}"
proof -
  let ?b = "b[p div 64 := b ! (p div 64) AND NOT (push_bit (p mod 64) 1)]"
  have "q \<in> bits_of ?b \<longleftrightarrow> q \<in> bits_of b - {p}" for q
    using assms div_mod_64 [of q p]
    by (cases "q div 64 = p div 64") (auto simp: mem_bits_of bit_and_iff bit_not_iff bit_push_1)
  then show ?thesis
    using assms by (auto simp: bitset_clear_def bitsetIndex_def)
qed

lemma and_push_bit_1: "m < 64 \<Longrightarrow> ((w :: 64 word) AND 2 ^ m \<noteq> 0) \<longleftrightarrow> bit w m"
  by (auto simp: bit_eq_iff [of "w AND 2 ^ m" 0] bit_and_iff bit_push_1)

lemma bitset_get_spec: "p div 64 < length b \<Longrightarrow> bitset_get b p = Some (p \<in> bits_of b)"
  by (simp add: bitset_get_def bitsetIndex_def and_push_bit_1 mem_bits_of)

lemma bits_of_inj:
  assumes "length b = length b'" "bits_of b = bits_of b'"
  shows "b = b'"
proof (rule nth_equalityI)
  fix i assume i: "i < length b"
  show "b ! i = b' ! i"
  proof (rule bit_eqI)
    fix k assume "possible_bit TYPE(64 word) k"
    then have k: "k < 64" by simp
    have *: "(64 * i + k) div 64 = i" "(64 * i + k) mod 64 = k" "k mod 64 = k" using k by auto
    show "bit (b ! i) k = bit (b' ! i) k"
      using arg_cong [OF assms(2), of "\<lambda>S. 64 * i + k \<in> S"] i assms(1)
      by (simp add: mem_bits_of *)
  qed
qed (use assms in simp)

section \<open>The contract\<close>

locale position_set =
  fixes elems :: "'b \<Rightarrow> nat set"
    and okay :: "nat \<Rightarrow> 'b \<Rightarrow> bool"
    and new :: "nat \<Rightarrow> 'b"
    and ins del :: "'b \<Rightarrow> nat \<Rightarrow> 'b option"
    and mem :: "'b \<Rightarrow> nat \<Rightarrow> bool option"
    and eq :: "'b \<Rightarrow> 'b \<Rightarrow> bool"
  assumes new_okay: "okay n (new n)"
    and new_elems: "elems (new n) = {}"
    and ins_spec: "okay n b \<Longrightarrow> p < n \<Longrightarrow>
        \<exists>b'. ins b p = Some b' \<and> okay n b' \<and> elems b' = insert p (elems b)"
    and del_spec: "okay n b \<Longrightarrow> p < n \<Longrightarrow>
        \<exists>b'. del b p = Some b' \<and> okay n b' \<and> elems b' = elems b - {p}"
    and mem_spec: "okay n b \<Longrightarrow> p < n \<Longrightarrow> mem b p = Some (p \<in> elems b)"
    and eq_spec: "okay n b \<Longrightarrow> okay n b' \<Longrightarrow> eq b b' \<longleftrightarrow> elems b = elems b'"
begin

text \<open>Taking out again what was just put in gives an equal set.\<close>

lemma del_ins:
  assumes "okay n b" "p < n" "p \<notin> elems b" "ins b p = Some b'" "okay n b'"
  shows "\<exists>b''. del b' p = Some b'' \<and> okay n b'' \<and> eq b'' b"
  using ins_spec [OF assms(1,2)] del_spec [OF assms(5,2)] assms eq_spec by auto

lemma mem_ins:
  assumes "okay n b" "p < n" "q < n" "ins b p = Some b'"
  shows "mem b' q = Some (q = p \<or> q \<in> elems b)"
  using ins_spec [OF assms(1,2)] mem_spec assms by auto

end

interpretation bits: position_set bits_of fits newBitset bitset_set bitset_clear bitset_get bitset_equals
proof
  show "\<exists>b'. bitset_set b p = Some b' \<and> fits n b' \<and> bits_of b' = insert p (bits_of b)"
    if "fits n b" "p < n" for n b p
    using bitset_set_spec [OF fits_room [OF that]] that by (auto simp: fits_def)
  show "\<exists>b'. bitset_clear b p = Some b' \<and> fits n b' \<and> bits_of b' = bits_of b - {p}"
    if "fits n b" "p < n" for n b p
    using bitset_clear_spec [OF fits_room [OF that]] that by (auto simp: fits_def)
  show "bitset_get b p = Some (p \<in> bits_of b)" if "fits n b" "p < n" for n b p
    by (rule bitset_get_spec [OF fits_room [OF that]])
  show "bitset_equals b b' \<longleftrightarrow> bits_of b = bits_of b'" if "fits n b" "fits n b'" for n b b'
    using that bits_of_inj [of b b'] by (auto simp: fits_def)
qed simp_all

section \<open>Counting\<close>

lemma OnesCount64_card: "OnesCount64 v = card {k. k < 64 \<and> bit v k}"
proof -
  have "OnesCount64 v = card (set (filter (bit v) [0..<64]))"
    unfolding OnesCount64_def by (intro distinct_card [symmetric]) simp
  also have "set (filter (bit v) [0..<64]) = {k. k < 64 \<and> bit v k}" by auto
  finally show ?thesis .
qed

lemma popcnt_fold: "fold (\<lambda>v total. total + OnesCount64 v) b t = t + sum_list (map OnesCount64 b)"
  by (induction b arbitrary: t) auto

lemma bits_of_snoc: "bits_of (b @ [v]) = bits_of b \<union> (\<lambda>k. 64 * length b + k) ` {k. k < 64 \<and> bit v k}"
proof (rule set_eqI)
  fix p
  consider "p div 64 < length b" | "p div 64 = length b" | "p div 64 > length b" by linarith
  then show "p \<in> bits_of (b @ [v]) \<longleftrightarrow> p \<in> bits_of b \<union> (\<lambda>k. 64 * length b + k) ` {k. k < 64 \<and> bit v k}"
  proof cases
    case 2
    then have "p = 64 * length b + p mod 64" by presburger
    then show ?thesis using 2 by (auto simp: mem_bits_of nth_append image_iff intro: exI [of _ "p mod 64"])
  qed (auto simp: mem_bits_of nth_append)
qed

lemma finite_bits_of [simp]: "finite (bits_of b)"
  by (rule finite_subset [of _ "{..<64 * length b}"]) (auto simp: bits_of_def)

lemma popcnt_card: "popcnt b = card (bits_of b)"
proof -
  have "sum_list (map OnesCount64 b) = card (bits_of b)"
  proof (induction b rule: rev_induct)
    case (snoc v b)
    have "bits_of b \<inter> (\<lambda>k. 64 * length b + k) ` {k. k < 64 \<and> bit v k} = {}"
      by (auto simp: bits_of_def)
    then show ?case using snoc
      by (simp add: bits_of_snoc card_Un_disjoint card_image OnesCount64_card)
  qed (simp add: bits_of_def)
  then show ?thesis by (simp add: popcnt_def popcnt_fold)
qed

end
