(* ===== verification/Checker.thy ===== *)
theory Checker
  imports Bitset "HOL-Library.While_Combinator"
begin

text \<open>
  The linearizability checker of \<^verbatim>\<open>porcupine/model.go\<close>, \<^verbatim>\<open>porcupine/checker.go\<close> and
  \<^verbatim>\<open>porcupine/porcupine.go\<close>, as the code has it: a doubly linked list of call and return
  entries in a heap, from which linearized operations are unlinked and into which they are
  linked again when the search backtracks, a stack of calls, and a cache of the configurations
  seen before.

  A value of type \<^verbatim>\<open>interface{}\<close> in a history is of type \<open>'v\<close>, a state of the model under test of
  type \<open>'s\<close>. A pointer to a node is \<open>nat option\<close>, an index into the heap or \<^verbatim>\<open>nil\<close>. \<open>None\<close> is a panic: a
  \<^verbatim>\<open>nil\<close> dereference, an index out of range, or a panic of the model's \<^verbatim>\<open>Step\<close>.
\<close>

section \<open>model.go\<close>

record 'v Operation =
  poClientId :: int
  poInput :: 'v
  poCall :: int
  poOutput :: 'v
  poReturn :: int

datatype EventKind = CallEvent | ReturnEvent

record 'v Event =
  evClientId :: int
  evKind :: EventKind
  evValue :: 'v
  evId :: int

text \<open>
  The fields that may be left \<^verbatim>\<open>nil\<close> are options; \<open>fillDefault\<close> fills them in. A partition and a step
  may panic on a value of an unexpected type.
\<close>

record ('v, 's) Model =
  mPartition :: "('v Operation list \<Rightarrow> 'v Operation list list option) option"
  mPartitionEvent :: "('v Event list \<Rightarrow> 'v Event list list option) option"
  mInit :: 's
  mStep :: "'s \<Rightarrow> 'v \<Rightarrow> 'v \<Rightarrow> (bool \<times> 's) option"
  mEqual :: "('s \<Rightarrow> 's \<Rightarrow> bool) option"
  mDescribeOperation :: "('v \<Rightarrow> 'v \<Rightarrow> string option) option"
  mDescribeState :: "('s \<Rightarrow> string) option"

definition NoPartition :: "'v Operation list \<Rightarrow> 'v Operation list list" where
  "NoPartition history = [history]"

definition NoPartitionEvent :: "'v Event list \<Rightarrow> 'v Event list list" where
  "NoPartitionEvent history = [history]"

definition ShallowEqual :: "'s \<Rightarrow> 's \<Rightarrow> bool" where
  "ShallowEqual state1 state2 \<longleftrightarrow> state1 = state2"

text \<open>\<open>fmtv\<close> is the formatting of an arbitrary value by the verb \<^verbatim>\<open>%v\<close>.\<close>

definition DefaultDescribeOperation :: "('v \<Rightarrow> string) \<Rightarrow> 'v \<Rightarrow> 'v \<Rightarrow> string" where
  "DefaultDescribeOperation fmtv input output = fmtv input @ '' -> '' @ fmtv output"

definition DefaultDescribeState :: "('s \<Rightarrow> string) \<Rightarrow> 's \<Rightarrow> string" where
  "DefaultDescribeState fmts state = fmts state"

datatype CheckResult = Unknown | Ok | Illegal

section \<open>Entries\<close>

datatype entryKind = callEntry | returnEntry

record 'v entry =
  enKind :: entryKind
  enValue :: 'v
  enId :: int
  enTime :: int
  enClientId :: int

definition byTime_Less :: "'v entry \<Rightarrow> 'v entry \<Rightarrow> bool" where
  "byTime_Less a b =
     (if enTime a \<noteq> enTime b then enTime a < enTime b
      else enKind a = callEntry \<and> enKind b = returnEntry)"

fun entries_loop :: "'v Operation list \<Rightarrow> int \<Rightarrow> 'v entry list \<Rightarrow> 'v entry list" where
  "entries_loop [] i entries = entries"
| "entries_loop (elem # history) i entries =
     entries_loop history (i + 1)
       (entries @ [\<lparr>enKind = callEntry, enValue = poInput elem, enId = i, enTime = poCall elem,
                    enClientId = poClientId elem\<rparr>]
                @ [\<lparr>enKind = returnEntry, enValue = poOutput elem, enId = i, enTime = poReturn elem,
                    enClientId = poClientId elem\<rparr>])"

text \<open>\<open>srt\<close> is \<^verbatim>\<open>sort.Sort(byTime(...))\<close>, which leaves the order of equal elements open.\<close>

definition makeEntries :: "('v entry list \<Rightarrow> 'v entry list) \<Rightarrow> 'v Operation list \<Rightarrow> 'v entry list" where
  "makeEntries srt history = srt (entries_loop history 0 [])"

fun renumber_loop :: "'v Event list \<Rightarrow> (int \<rightharpoonup> int) \<Rightarrow> int \<Rightarrow> 'v Event list \<Rightarrow> 'v Event list" where
  "renumber_loop [] m i e = e"
| "renumber_loop (v # events) m i e =
     (case m (evId v) of
        Some r \<Rightarrow> renumber_loop events m i (e @ [v\<lparr>evId := r\<rparr>])
      | None \<Rightarrow> renumber_loop events (m(evId v \<mapsto> i)) (i + 1) (e @ [v\<lparr>evId := i\<rparr>]))"

definition renumber :: "'v Event list \<Rightarrow> 'v Event list" where
  "renumber events = renumber_loop events Map.empty 0 []"

fun convert_loop :: "'v Event list \<Rightarrow> int \<Rightarrow> 'v entry list \<Rightarrow> 'v entry list" where
  "convert_loop [] i entries = entries"
| "convert_loop (elem # events) i entries =
     convert_loop events (i + 1)
       (entries @ [\<lparr>enKind = (if evKind elem = ReturnEvent then returnEntry else callEntry),
                    enValue = evValue elem, enId = evId elem, enTime = i, enClientId = evClientId elem\<rparr>])"

definition convertEntries :: "'v Event list \<Rightarrow> 'v entry list" where
  "convertEntries events = convert_loop events 0 []"

section \<open>The linked list\<close>

type_synonym ptr = "nat option"

record 'v node =
  ndValue :: "'v option"
  ndMatch :: ptr
  ndId :: int
  ndNext :: ptr
  ndPrev :: ptr

type_synonym 'v heap = "'v node list"

definition deref :: "'v heap \<Rightarrow> ptr \<Rightarrow> 'v node option" where
  "deref h p = (case p of None \<Rightarrow> None | Some a \<Rightarrow> if a < length h then Some (h ! a) else None)"

definition set_next :: "'v heap \<Rightarrow> ptr \<Rightarrow> ptr \<Rightarrow> 'v heap option" where
  "set_next h p v =
     (case p of None \<Rightarrow> None | Some a \<Rightarrow> if a < length h then Some (h[a := (h ! a)\<lparr>ndNext := v\<rparr>]) else None)"

definition set_prev :: "'v heap \<Rightarrow> ptr \<Rightarrow> ptr \<Rightarrow> 'v heap option" where
  "set_prev h p v =
     (case p of None \<Rightarrow> None | Some a \<Rightarrow> if a < length h then Some (h[a := (h ! a)\<lparr>ndPrev := v\<rparr>]) else None)"

definition insertBefore :: "'v heap \<Rightarrow> ptr \<Rightarrow> ptr \<Rightarrow> 'v heap option" where
  "insertBefore h n mark =
     (if mark \<noteq> None then do {
        m \<leftarrow> deref h mark;
        let beforeMark = ndPrev m;
        h \<leftarrow> set_prev h mark n;
        h \<leftarrow> set_next h n mark;
        if beforeMark \<noteq> None then do {
          h \<leftarrow> set_prev h n beforeMark;
          set_next h beforeMark n
        } else Some h
      } else Some h)"

partial_function (option) node_length :: "'v heap \<Rightarrow> ptr \<Rightarrow> nat \<Rightarrow> nat option" where
  "node_length h n l =
     (if n \<noteq> None then do {
        nd \<leftarrow> deref h n;
        node_length h (ndNext nd) (l + 1)
      } else Some l)"

text \<open>The loop of \<^verbatim>\<open>makeLinkedEntries\<close> runs from the last entry to the first.\<close>

fun link_loop :: "'v entry list \<Rightarrow> 'v heap \<Rightarrow> ptr \<Rightarrow> (int \<rightharpoonup> nat) \<Rightarrow> ('v heap \<times> ptr) option" where
  "link_loop [] h root match = Some (h, root)"
| "link_loop (elem # entries) h root match =
     (let a = length h in
      if enKind elem = returnEntry then do {
        let h = h @ [\<lparr>ndValue = Some (enValue elem), ndMatch = None, ndId = enId elem,
                      ndNext = None, ndPrev = None\<rparr>];
        h \<leftarrow> insertBefore h (Some a) root;
        link_loop entries h (Some a) (match(enId elem \<mapsto> a))
      } else do {
        let h = h @ [\<lparr>ndValue = Some (enValue elem), ndMatch = match (enId elem), ndId = enId elem,
                      ndNext = None, ndPrev = None\<rparr>];
        h \<leftarrow> insertBefore h (Some a) root;
        link_loop entries h (Some a) match
      })"

definition makeLinkedEntries :: "'v entry list \<Rightarrow> ('v heap \<times> ptr) option" where
  "makeLinkedEntries entries = link_loop (rev entries) [] None Map.empty"

definition lift :: "'v heap \<Rightarrow> ptr \<Rightarrow> 'v heap option" where
  "lift h p = do {
     entry \<leftarrow> deref h p;
     h \<leftarrow> set_next h (ndPrev entry) (ndNext entry);
     entry \<leftarrow> deref h p;
     h \<leftarrow> set_prev h (ndNext entry) (ndPrev entry);
     entry \<leftarrow> deref h p;
     match \<leftarrow> deref h (ndMatch entry);
     h \<leftarrow> set_next h (ndPrev match) (ndNext match);
     match \<leftarrow> deref h (ndMatch entry);
     if ndNext match \<noteq> None then set_prev h (ndNext match) (ndPrev match) else Some h
   }"

definition unlift :: "'v heap \<Rightarrow> ptr \<Rightarrow> 'v heap option" where
  "unlift h p = do {
     entry \<leftarrow> deref h p;
     let m = ndMatch entry;
     match \<leftarrow> deref h m;
     h \<leftarrow> set_next h (ndPrev match) m;
     match \<leftarrow> deref h m;
     h \<leftarrow> (if ndNext match \<noteq> None then set_prev h (ndNext match) m else Some h);
     entry \<leftarrow> deref h p;
     h \<leftarrow> set_next h (ndPrev entry) p;
     entry \<leftarrow> deref h p;
     set_prev h (ndNext entry) p
   }"

section \<open>checkSingle\<close>

type_synonym 's cache = "64 word \<Rightarrow> (bitset \<times> 's) list"

fun cache_scan :: "('v, 's) Model \<Rightarrow> (bitset \<times> 's) list \<Rightarrow> bitset \<Rightarrow> 's \<Rightarrow> bool option" where
  "cache_scan m [] linearized state = Some False"
| "cache_scan m (elem # elems) linearized state =
     (if bitset_equals linearized (fst elem)
      then do {
        equal \<leftarrow> mEqual m;
        if equal state (snd elem) then Some True else cache_scan m elems linearized state
      }
      else cache_scan m elems linearized state)"

definition cacheContains :: "('v, 's) Model \<Rightarrow> 's cache \<Rightarrow> bitset \<times> 's \<Rightarrow> bool option" where
  "cacheContains m cache entry = cache_scan m (cache (bitset_hash (fst entry))) (fst entry) (snd entry)"

text \<open>
  A pointer to a slice of ids in \<^verbatim>\<open>longest\<close> is the slice together with the number of the
  iteration that allocated it, at most one per iteration: two pointers are equal when these
  numbers are.
\<close>

type_synonym longest = "(nat \<times> int list) option list"

record ('v, 's) search =
  csHeap :: "'v heap"
  csEntry :: ptr
  csLinearized :: bitset
  csCache :: "'s cache"
  csCalls :: "(nat \<times> 's) list"
  csLongest :: longest
  csState :: 's
  csIter :: nat

datatype ('v, 's) loop = Running "('v, 's) search" | Returned bool longest

text \<open>\<^verbatim>\<open>uint(i)\<close>\<close>

definition to_uint :: "int \<Rightarrow> nat" where
  "to_uint i = nat (i mod 2 ^ 64)"

text \<open>The branch for a call entry: \<open>a\<close> is the entry, \<open>nd\<close> its node.\<close>

definition try_call :: "('v, 's) Model \<Rightarrow> nat \<Rightarrow> ('v, 's) search \<Rightarrow> nat \<Rightarrow> 'v node \<Rightarrow> ('v, 's) search option" where
  "try_call m headEntry s a nd = do {
     matching \<leftarrow> deref (csHeap s) (ndMatch nd);
     input \<leftarrow> ndValue nd;
     output \<leftarrow> ndValue matching;
     (ok, newState) \<leftarrow> mStep m (csState s) input output;
     if ok then do {
       newLinearized \<leftarrow> bitset_set (bitset_clone (csLinearized s)) (to_uint (ndId nd));
       contained \<leftarrow> cacheContains m (csCache s) (newLinearized, newState);
       if \<not> contained then do {
         let hash = bitset_hash newLinearized;
         let cache = (csCache s)(hash := csCache s hash @ [(newLinearized, newState)]);
         linearized \<leftarrow> bitset_set (csLinearized s) (to_uint (ndId nd));
         h \<leftarrow> lift (csHeap s) (Some a);
         hd \<leftarrow> deref h (Some headEntry);
         Some (s\<lparr>csHeap := h, csEntry := ndNext hd, csLinearized := linearized, csCache := cache,
                 csCalls := csCalls s @ [(a, csState s)], csState := newState\<rparr>)
       } else Some (s\<lparr>csEntry := ndNext nd\<rparr>)
     } else Some (s\<lparr>csEntry := ndNext nd\<rparr>)
   }"

text \<open>The ids of the calls on the stack.\<close>

fun ids_of_calls :: "'v heap \<Rightarrow> (nat \<times> 's) list \<Rightarrow> int list option" where
  "ids_of_calls h [] = Some []"
| "ids_of_calls h (c # calls) = do {
     nd \<leftarrow> deref h (Some (fst c));
     seq \<leftarrow> ids_of_calls h calls;
     Some (ndId nd # seq)
   }"

text \<open>\<open>seq\<close> is created lazily by the code, with the same content each time.\<close>

fun longest_loop :: "nat \<Rightarrow> int list \<Rightarrow> int list \<Rightarrow> longest \<Rightarrow> longest option" where
  "longest_loop k seq [] longest = Some longest"
| "longest_loop k seq (i # is) longest = do {
     l \<leftarrow> nth_int longest i;
     if l = None \<or> length seq > length (snd (the l)) then do {
       longest \<leftarrow> update_int longest i (Some (k, seq));
       longest_loop k seq is longest
     } else longest_loop k seq is longest
   }"

definition backtrack :: "bool \<Rightarrow> ('v, 's) search \<Rightarrow> ('v, 's) loop option" where
  "backtrack computePartial s =
     (if csCalls s = [] then Some (Returned False (csLongest s))
      else do {
        longest \<leftarrow> (if computePartial then do {
                     seq \<leftarrow> ids_of_calls (csHeap s) (csCalls s);
                     longest_loop (csIter s) seq seq (csLongest s)
                   } else Some (csLongest s));
        let callsTop = last (csCalls s);
        nd \<leftarrow> deref (csHeap s) (Some (fst callsTop));
        linearized \<leftarrow> bitset_clear (csLinearized s) (to_uint (ndId nd));
        h \<leftarrow> unlift (csHeap s) (Some (fst callsTop));
        nd \<leftarrow> deref h (Some (fst callsTop));
        Some (Running (s\<lparr>csHeap := h, csEntry := ndNext nd, csLinearized := linearized,
                         csCalls := butlast (csCalls s), csLongest := longest,
                         csState := snd callsTop\<rparr>))
      })"

text \<open>One iteration; \<open>kill k\<close> is the value that iteration \<open>k\<close> loads from the flag.\<close>

definition check_iter ::
  "('v, 's) Model \<Rightarrow> bool \<Rightarrow> (nat \<Rightarrow> int) \<Rightarrow> nat \<Rightarrow> ('v, 's) search \<Rightarrow> ('v, 's) loop option" where
  "check_iter m computePartial kill headEntry s =
     (if kill (csIter s) \<noteq> 0 then Some (Returned False (csLongest s))
      else do {
        a \<leftarrow> csEntry s;
        nd \<leftarrow> deref (csHeap s) (Some a);
        let s = s\<lparr>csIter := csIter s + 1\<rparr>;
        if ndMatch nd \<noteq> None then map_option Running (try_call m headEntry s a nd)
        else backtrack computePartial s
      })"

text \<open>The loop condition \<^verbatim>\<open>headEntry.next != nil\<close>; the loop has ended after a return or a panic.\<close>

fun check_more :: "nat \<Rightarrow> ('v, 's) loop option \<Rightarrow> bool" where
  "check_more headEntry (Some (Running s)) =
     (headEntry < length (csHeap s) \<and> ndNext (csHeap s ! headEntry) \<noteq> None)"
| "check_more headEntry _ = False"

fun check_body :: "('v, 's) Model \<Rightarrow> bool \<Rightarrow> (nat \<Rightarrow> int) \<Rightarrow> nat \<Rightarrow> ('v, 's) loop option \<Rightarrow> ('v, 's) loop option" where
  "check_body m computePartial kill headEntry (Some (Running s)) = check_iter m computePartial kill headEntry s"
| "check_body m computePartial kill headEntry l = l"

definition checkSingle_init :: "('v, 's) Model \<Rightarrow> 'v entry list \<Rightarrow> (nat \<times> nat \<times> ('v, 's) search) option" where
  "checkSingle_init m history = do {
     (h, entry) \<leftarrow> makeLinkedEntries history;
     len \<leftarrow> node_length h entry 0;
     let n = len div 2;
     let headEntry = length h;
     let h = h @ [\<lparr>ndValue = None, ndMatch = None, ndId = -1, ndNext = None, ndPrev = None\<rparr>];
     h \<leftarrow> insertBefore h (Some headEntry) entry;
     Some (n, headEntry,
       \<lparr>csHeap = h, csEntry = entry, csLinearized = newBitset n, csCache = (\<lambda>_. []), csCalls = [],
        csLongest = replicate n None, csState = mInit m, csIter = 0\<rparr>)
   }"

definition checkSingle ::
  "('v, 's) Model \<Rightarrow> 'v entry list \<Rightarrow> bool \<Rightarrow> (nat \<Rightarrow> int) \<Rightarrow> (bool \<times> longest) option" where
  "checkSingle m history computePartial kill = do {
     (n, headEntry, s) \<leftarrow> checkSingle_init m history;
     out \<leftarrow> while_option (check_more headEntry) (check_body m computePartial kill headEntry) (Some (Running s));
     out \<leftarrow> out;
     case out of
       Returned b longest \<Rightarrow> Some (b, longest)
     | Running s \<Rightarrow> do {
         seq \<leftarrow> ids_of_calls (csHeap s) (csCalls s);
         Some (True, replicate n (Some (csIter s, seq)))
       }
   }"

section \<open>checkParallel\<close>

definition fillDefault :: "('v \<Rightarrow> string) \<Rightarrow> ('s \<Rightarrow> string) \<Rightarrow> ('v, 's) Model \<Rightarrow> ('v, 's) Model" where
  "fillDefault fmtv fmts m =
     (let m = (if mPartition m = None then m\<lparr>mPartition := Some (\<lambda>h. Some (NoPartition h))\<rparr> else m);
          m = (if mPartitionEvent m = None then m\<lparr>mPartitionEvent := Some (\<lambda>h. Some (NoPartitionEvent h))\<rparr> else m);
          m = (if mEqual m = None then m\<lparr>mEqual := Some ShallowEqual\<rparr> else m);
          m = (if mDescribeOperation m = None
               then m\<lparr>mDescribeOperation := Some (\<lambda>input output. Some (DefaultDescribeOperation fmtv input output))\<rparr> else m);
          m = (if mDescribeState m = None then m\<lparr>mDescribeState := Some (DefaultDescribeState fmts)\<rparr> else m)
      in m)"

text \<open>
  What the \<^verbatim>\<open>select\<close> of \<^verbatim>\<open>checkParallel\<close> takes next: the result of a goroutine, by its index, or the
  expiry of the timer.
\<close>

datatype arrival = ResultOf nat | TimeUp

text \<open>
  The loop over \<^verbatim>\<open>select\<close>: \<open>results\<close> gives what each goroutine sends, \<open>ntotal\<close> is \<^verbatim>\<open>len(history)\<close>. The
  value is \<open>(ok, timedOut, count)\<close> when the loop is left, and \<open>None\<close> when it is still waiting after the
  given arrivals: for a result that has yet to come, or, if the arrivals have those of all goroutines and there
  is no timeout, for ever.
\<close>

fun select_loop :: "bool \<Rightarrow> nat \<Rightarrow> (nat \<Rightarrow> bool) \<Rightarrow> arrival list \<Rightarrow> nat \<Rightarrow> bool \<Rightarrow> (bool \<times> bool \<times> nat) option" where
  "select_loop computeInfo ntotal results [] count ok = None"
| "select_loop computeInfo ntotal results (ResultOf i # as) count ok =
     (let count = count + 1; ok = (ok \<and> results i) in
      if \<not> ok \<and> \<not> computeInfo then Some (ok, False, count)
      else if count \<ge> ntotal then Some (ok, False, count)
      else select_loop computeInfo ntotal results as count ok)"
| "select_loop computeInfo ntotal results (TimeUp # as) count ok = Some (ok, True, count)"

record 'v linearizationInfo =
  liHistory :: "'v entry list list"
  liPartialLinearizations :: "int list list list"

text \<open>
  The set of distinct pointers in \<^verbatim>\<open>longest[i]\<close>, as the slices they point to; \<open>perm\<close> is the order of
  the \<^verbatim>\<open>range\<close> over the set.
\<close>

definition partials_of :: "((nat \<times> int list) list \<Rightarrow> (nat \<times> int list) list) \<Rightarrow> longest \<Rightarrow> int list list" where
  "partials_of perm longest = map snd (perm (remdups (List.map_filter (\<lambda>l. l) longest)))"

text \<open>
  The run of the goroutines whose results the loop takes ends before the flag \<^verbatim>\<open>kill\<close> is set, because
  it is set only when the loop is left. \<open>kills i\<close> is what goroutine \<open>i\<close> loads from the flag when it is
  not among those.
\<close>

definition checkParallel ::
  "((nat \<times> int list) list \<Rightarrow> (nat \<times> int list) list) \<Rightarrow> ('v, 's) Model \<Rightarrow> 'v entry list list \<Rightarrow> bool \<Rightarrow>
   arrival list \<Rightarrow> (nat \<Rightarrow> nat \<Rightarrow> int) \<Rightarrow> (CheckResult \<times> 'v linearizationInfo) option" where
  "checkParallel perm m history computeInfo arrivals kills = do {
     runs \<leftarrow> those (map (\<lambda>subhistory. checkSingle m subhistory computeInfo (\<lambda>_. 0)) history);
     (ok, timedOut, count) \<leftarrow> select_loop computeInfo (length history) (\<lambda>i. fst (runs ! i)) arrivals 0 True;
     info \<leftarrow> (if computeInfo then do {
          longest \<leftarrow> those (map (\<lambda>i. if ResultOf i \<in> set (take count arrivals)
                                        then Some (snd (runs ! i))
                                        else map_option snd (checkSingle m (history ! i) computeInfo (kills i)))
                               [0..<length history]);
          Some \<lparr>liHistory = history, liPartialLinearizations = map (partials_of perm) longest\<rparr>
        } else Some \<lparr>liHistory = [], liPartialLinearizations = []\<rparr>);
     let result = (if \<not> ok then Illegal else if timedOut then Unknown else Ok);
     Some (result, info)
   }"

definition checkEvents where
  "checkEvents fmtv fmts perm m history verbose arrivals kills = do {
     let m = fillDefault fmtv fmts m;
     partition \<leftarrow> mPartitionEvent m;
     partitions \<leftarrow> partition history;
     let l = map (\<lambda>subhistory. convertEntries (renumber subhistory)) partitions;
     checkParallel perm m l verbose arrivals kills
   }"

definition checkOperations where
  "checkOperations fmtv fmts perm srt m history verbose arrivals kills = do {
     let m = fillDefault fmtv fmts m;
     partition \<leftarrow> mPartition m;
     partitions \<leftarrow> partition history;
     let l = map (makeEntries srt) partitions;
     checkParallel perm m l verbose arrivals kills
   }"

section \<open>porcupine.go\<close>

definition CheckOperations where
  "CheckOperations fmtv fmts perm srt m history arrivals kills = do {
     (res, info) \<leftarrow> checkOperations fmtv fmts perm srt m history False arrivals kills;
     Some (res = Ok)
   }"

definition CheckOperationsTimeout where
  "CheckOperationsTimeout fmtv fmts perm srt m history arrivals kills =
     map_option fst (checkOperations fmtv fmts perm srt m history False arrivals kills)"

definition CheckOperationsVerbose where
  "CheckOperationsVerbose fmtv fmts perm srt m history arrivals kills =
     checkOperations fmtv fmts perm srt m history True arrivals kills"

definition CheckEvents where
  "CheckEvents fmtv fmts perm m history arrivals kills = do {
     (res, info) \<leftarrow> checkEvents fmtv fmts perm m history False arrivals kills;
     Some (res = Ok)
   }"

definition CheckEventsTimeout where
  "CheckEventsTimeout fmtv fmts perm m history arrivals kills =
     map_option fst (checkEvents fmtv fmts perm m history False arrivals kills)"

definition CheckEventsVerbose where
  "CheckEventsVerbose fmtv fmts perm m history arrivals kills =
     checkEvents fmtv fmts perm m history True arrivals kills"

end
