(* ===== verification/CheckerList.thy ===== *)
theory CheckerList
  imports Checker
begin

text \<open>
  The linked list of the checker as a HOL list of addresses. \<open>linked h xs\<close> says that the nodes
  \<open>xs\<close>, in this order, form a doubly linked list in the heap \<open>h\<close>. Shown: \<open>insertBefore\<close> and
  \<open>makeLinkedEntries\<close> build the list of the history, \<open>lift\<close> takes a call and its return out
  of it, and \<open>unlift\<close> is its exact inverse, so that after backtracking the heap is what it was.
\<close>

definition first :: "nat list \<Rightarrow> ptr \<Rightarrow> ptr" where
  "first xs q = (case xs of [] \<Rightarrow> q | x # _ \<Rightarrow> Some x)"

definition final :: "nat list \<Rightarrow> ptr \<Rightarrow> ptr" where
  "final xs p = (if xs = [] then p else Some (last xs))"

lemma first_simps [simp]: "first [] q = q" "first (x # xs) q = Some x"
  by (simp_all add: first_def)

lemma first_append [simp]: "first (xs @ ys) q = first xs (first ys q)"
  by (cases xs) simp_all

lemma final_simps [simp]: "final [] p = p" "final (x # xs) p = final xs (Some x)"
  by (simp_all add: final_def)

lemma final_append [simp]: "final (xs @ ys) p = final ys (final xs p)"
  by (simp add: final_def)

fun dseg :: "'v heap \<Rightarrow> ptr \<Rightarrow> nat list \<Rightarrow> ptr \<Rightarrow> bool" where
  "dseg h p [] q = True"
| "dseg h p (a # as) q \<longleftrightarrow> a < length h \<and> ndPrev (h ! a) = p \<and> ndNext (h ! a) = first as q \<and>
     dseg h (Some a) as q"

definition linked :: "'v heap \<Rightarrow> nat list \<Rightarrow> bool" where
  "linked h xs \<longleftrightarrow> distinct xs \<and> dseg h None xs None"

text \<open>The fields that no operation on the list changes.\<close>

definition payload :: "'v node \<Rightarrow> 'v option \<times> ptr \<times> int" where
  "payload nd = (ndValue nd, ndMatch nd, ndId nd)"

definition same_payload :: "'v heap \<Rightarrow> 'v heap \<Rightarrow> bool" where
  "same_payload h h' \<longleftrightarrow> map payload h' = map payload h"

lemma payload_update [simp]:
  "payload (nd\<lparr>ndNext := p\<rparr>) = payload nd" "payload (nd\<lparr>ndPrev := p\<rparr>) = payload nd"
  by (simp_all add: payload_def)

lemma same_payload_refl [simp]: "same_payload h h"
  by (simp add: same_payload_def)

lemma same_payload_trans: "same_payload h h' \<Longrightarrow> same_payload h' h'' \<Longrightarrow> same_payload h h''"
  by (simp add: same_payload_def)

lemma same_payload_length: "same_payload h h' \<Longrightarrow> length h' = length h"
  unfolding same_payload_def by (metis length_map)

lemma same_payload_nth:
  assumes "same_payload h h'" "a < length h"
  shows "ndValue (h' ! a) = ndValue (h ! a)" "ndMatch (h' ! a) = ndMatch (h ! a)" "ndId (h' ! a) = ndId (h ! a)"
proof -
  have "payload (h' ! a) = payload (h ! a)"
    using assms same_payload_length [OF assms(1)] unfolding same_payload_def by (metis nth_map)
  then show "ndValue (h' ! a) = ndValue (h ! a)" "ndMatch (h' ! a) = ndMatch (h ! a)" "ndId (h' ! a) = ndId (h ! a)"
    by (simp_all add: payload_def)
qed

lemma same_payload_update [simp]:
  assumes "a < length h"
  shows "same_payload h (h[a := (h ! a)\<lparr>ndNext := p\<rparr>])" "same_payload h (h[a := (h ! a)\<lparr>ndPrev := p\<rparr>])"
  using assms unfolding same_payload_def
  by (simp_all add: map_update) (metis length_map list_update_id nth_map)+

lemma deref_Some [simp]: "a < length h \<Longrightarrow> deref h (Some a) = Some (h ! a)"
  by (simp add: deref_def)

lemma set_next_Some [simp]: "a < length h \<Longrightarrow> set_next h (Some a) v = Some (h[a := (h ! a)\<lparr>ndNext := v\<rparr>])"
  by (simp add: set_next_def)

lemma set_prev_Some [simp]: "a < length h \<Longrightarrow> set_prev h (Some a) v = Some (h[a := (h ! a)\<lparr>ndPrev := v\<rparr>])"
  by (simp add: set_prev_def)

section \<open>Segments\<close>

lemma dseg_append: "dseg h p (xs @ ys) q \<longleftrightarrow> dseg h p xs (first ys q) \<and> dseg h (final xs p) ys q"
  by (induction xs arbitrary: p) auto

lemma dseg_frame [simp]: "a \<notin> set xs \<Longrightarrow> dseg (h[a := v]) p xs q = dseg h p xs q"
  by (induction xs arbitrary: p) (auto simp: nth_list_update)

lemma dseg_grow: "dseg h p xs q \<Longrightarrow> dseg (h @ g) p xs q"
  by (induction xs arbitrary: p) (auto simp: nth_append)

lemma dseg_bound: "dseg h p xs q \<Longrightarrow> a \<in> set xs \<Longrightarrow> a < length h"
  by (induction xs arbitrary: p) auto

lemma dseg_set_prev:
  "dseg h p (w # ws) q \<Longrightarrow> w \<notin> set ws \<Longrightarrow> dseg (h[w := (h ! w)\<lparr>ndPrev := p'\<rparr>]) p' (w # ws) q"
  by simp

lemma dseg_set_next:
  assumes "dseg h p (xs @ [x]) q" "x \<notin> set xs"
  shows "dseg (h[x := (h ! x)\<lparr>ndNext := q'\<rparr>]) p (xs @ [x]) q'"
  using assms by (simp add: dseg_append)

lemma linked_bound: "linked h xs \<Longrightarrow> a \<in> set xs \<Longrightarrow> a < length h"
  by (auto simp: linked_def intro: dseg_bound)

lemma linked_next: "linked h (xs @ a # ys) \<Longrightarrow> ndNext (h ! a) = first ys None"
  by (simp add: linked_def dseg_append)

section \<open>Taking one node out and putting it back\<close>

definition unlink :: "'v heap \<Rightarrow> nat \<Rightarrow> 'v heap option" where
  "unlink h a = do {
     nd \<leftarrow> deref h (Some a);
     h \<leftarrow> set_next h (ndPrev nd) (ndNext nd);
     nd \<leftarrow> deref h (Some a);
     if ndNext nd \<noteq> None then set_prev h (ndNext nd) (ndPrev nd) else Some h
   }"

definition relink :: "'v heap \<Rightarrow> nat \<Rightarrow> 'v heap option" where
  "relink h a = do {
     nd \<leftarrow> deref h (Some a);
     h \<leftarrow> set_next h (ndPrev nd) (Some a);
     nd \<leftarrow> deref h (Some a);
     if ndNext nd \<noteq> None then set_prev h (ndNext nd) (Some a) else Some h
   }"

lemma unlink_linked:
  assumes "linked h (xs @ a # ws)" "xs \<noteq> []"
  shows "\<exists>h'. unlink h a = Some h' \<and> linked h' (xs @ ws) \<and> relink h' a = Some h \<and> same_payload h h' \<and> h' ! a = h ! a"
proof -
  obtain us x where xs: "xs = us @ [x]" using assms(2) by (cases xs rule: rev_cases) auto
  have d: "distinct (us @ x # a # ws)" "dseg h None (us @ x # a # ws) None"
    using assms(1) xs by (auto simp: linked_def)
  then have x: "x < length h" "ndNext (h ! x) = Some a" and a: "a < length h" "ndPrev (h ! a) = Some x"
      "ndNext (h ! a) = first ws None"
    by (auto simp: dseg_append)
  let ?g = "h[x := (h ! x)\<lparr>ndNext := first ws None\<rparr>]"
  show ?thesis
  proof (cases ws)
    case Nil
    have "linked ?g (xs @ ws)" using d Nil xs by (auto simp: linked_def dseg_append)
    moreover have "?g[x := (?g ! x)\<lparr>ndNext := Some a\<rparr>] = h"
      using x by (auto intro!: nth_equalityI simp: nth_list_update)
    ultimately show ?thesis
      using d x a Nil by (intro exI [of _ ?g]) (auto simp: unlink_def relink_def)
  next
    case (Cons w vs)
    have w: "w < length h" "ndPrev (h ! w) = Some a" using d Cons by (auto simp: dseg_append)
    let ?k = "?g[w := (?g ! w)\<lparr>ndPrev := Some x\<rparr>]"
    have "linked ?k (xs @ ws)" using d Cons xs by (auto simp: linked_def dseg_append)
    moreover have "?k[x := (?k ! x)\<lparr>ndNext := Some a\<rparr>, w := (?k ! w)\<lparr>ndPrev := Some a\<rparr>] = h"
      using d x w Cons by (auto intro!: nth_equalityI simp: nth_list_update)
    moreover have "same_payload h ?k"
      using x w by (intro same_payload_trans [OF same_payload_update(1) same_payload_update(2)]) auto
    ultimately show ?thesis
      using d x a w Cons by (intro exI [of _ ?k]) (auto simp: unlink_def relink_def)
  qed
qed

section \<open>lift and unlift\<close>

lemma lift_linked:
  assumes "linked h (xs @ e # ys @ r # zs)" "xs \<noteq> []" "ndMatch (h ! e) = Some r"
  shows "\<exists>h'. lift h (Some e) = Some h' \<and> linked h' (xs @ ys @ zs) \<and> unlift h' (Some e) = Some h \<and> same_payload h h'"
proof -
  obtain h1 where h1: "unlink h e = Some h1" "linked h1 (xs @ ys @ r # zs)" "relink h1 e = Some h"
      "same_payload h h1" "h1 ! e = h ! e"
    using unlink_linked [OF assms(1,2)] by auto
  obtain h2 where h2: "unlink h1 r = Some h2" "linked h2 ((xs @ ys) @ zs)" "relink h2 r = Some h1" "same_payload h1 h2"
    using unlink_linked [of h1 "xs @ ys" r zs] h1(2) assms(2) by auto
  have b: "e < length h" "r < length h" using linked_bound [OF assms(1)] by auto
  have len: "length h1 = length h" "length h2 = length h"
    using same_payload_length h1(4) h2(4) by metis+
  have nx: "ndNext (h ! e) \<noteq> None" using linked_next [OF assms(1)] by (cases ys) auto
  have "lift h (Some e) = unlink h e \<bind> (\<lambda>h. unlink h r)"
  proof -
    obtain x where x: "ndPrev (h ! e) = Some x" "x < length h" "x \<noteq> e"
      using assms(1,2) by (cases xs rule: rev_cases) (auto simp: linked_def dseg_append)
    obtain f where f: "ndNext (h ! e) = Some f" "f < length h" "f \<noteq> e"
      using assms(1) by (cases ys) (auto simp: linked_def dseg_append)
    show ?thesis
      using x f b assms(3) by (simp add: lift_def unlink_def Let_def)
  qed
  moreover have "unlift h2 (Some e) = relink h2 r \<bind> (\<lambda>h. relink h e)"
  proof -
    have m: "ndMatch (h2 ! e) = Some r" "ndNext (h1 ! e) \<noteq> None"
      using same_payload_nth h1(4,5) h2(4) b len assms(3) nx by metis+
    have *: "relink h2 r \<bind> (\<lambda>h. relink h e) = relink h1 e" using h2(3) by simp
    have "unlift h2 (Some e) = relink h2 r \<bind> (\<lambda>h. do {
        nd \<leftarrow> deref h (Some e); h \<leftarrow> set_next h (ndPrev nd) (Some e); nd \<leftarrow> deref h (Some e); set_prev h (ndNext nd) (Some e)})"
      using m b len by (simp add: unlift_def relink_def Let_def Option.bind_assoc cong: if_cong)
    also have "\<dots> = relink h1 e"
    proof -
      obtain x where x: "ndPrev (h1 ! e) = Some x" "x < length h1" "x \<noteq> e"
        using assms(1,2) h1(5) len(1) by (cases xs rule: rev_cases) (auto simp: linked_def dseg_append)
      show ?thesis unfolding h2(3) using m x b len by (simp add: relink_def [of h1])
    qed
    finally show ?thesis using * by simp
  qed
  ultimately show ?thesis
    using h1 h2 same_payload_trans [OF h1(4) h2(4)] by (intro exI [of _ h2]) auto
qed

section \<open>Building the list\<close>

lemma insertBefore_linked:
  assumes "linked h xs" "a < length h" "a \<notin> set xs" "ndNext (h ! a) = None" "ndPrev (h ! a) = None"
  shows "\<exists>h'. insertBefore h (Some a) (first xs None) = Some h' \<and> linked h' (a # xs) \<and> same_payload h h'"
proof (cases xs)
  case Nil
  then show ?thesis using assms by (simp add: insertBefore_def linked_def)
next
  case (Cons m ms)
  have m: "m < length h" "ndPrev (h ! m) = None" "m \<noteq> a" "m \<notin> set ms"
    using assms Cons by (auto simp: linked_def)
  let ?g = "h[m := (h ! m)\<lparr>ndPrev := Some a\<rparr>]"
  let ?k = "?g[a := (?g ! a)\<lparr>ndNext := Some m\<rparr>]"
  have "linked ?k (a # xs)" using assms Cons m by (auto simp: linked_def)
  moreover have "same_payload h ?k"
    using m assms(2) by (intro same_payload_trans [OF same_payload_update(2) same_payload_update(1)]) auto
  ultimately show ?thesis
    using m assms Cons by (intro exI [of _ ?k]) (auto simp: insertBefore_def Let_def)
qed

fun payloads :: "'v entry list \<Rightarrow> nat \<Rightarrow> (int \<rightharpoonup> nat) \<Rightarrow> ('v option \<times> ptr \<times> int) list" where
  "payloads [] k mt = []"
| "payloads (e # es) k mt =
     (if enKind e = returnEntry
      then (Some (enValue e), None, enId e) # payloads es (k + 1) (mt(enId e \<mapsto> k))
      else (Some (enValue e), mt (enId e), enId e) # payloads es (k + 1) mt)"

lemma length_payloads [simp]: "length (payloads es k mt) = length es"
  by (induction es arbitrary: k mt) auto

lemma link_loop_linked:
  assumes "linked h (rev [0..<length h])" "root = first (rev [0..<length h]) None"
  shows "\<exists>h'. link_loop es h root mt = Some (h', first (rev [0..<length h + length es]) None) \<and>
    linked h' (rev [0..<length h + length es]) \<and> map payload h' = map payload h @ payloads es (length h) mt"
  using assms
proof (induction es arbitrary: h root mt)
  case (Cons e es)
  define match where "match = (if enKind e = returnEntry then None else mt (enId e))"
  define mt' where "mt' = (if enKind e = returnEntry then mt(enId e \<mapsto> length h) else mt)"
  let ?nd = "\<lparr>ndValue = Some (enValue e), ndMatch = match, ndId = enId e, ndNext = None, ndPrev = None\<rparr>"
  have "linked (h @ [?nd]) (rev [0..<length h])"
    using Cons.prems(1) by (auto simp: linked_def intro: dseg_grow)
  from insertBefore_linked [OF this, of "length h"] obtain g where
    g: "insertBefore (h @ [?nd]) (Some (length h)) root = Some g" "linked g (length h # rev [0..<length h])"
      "same_payload (h @ [?nd]) g"
    using Cons.prems(2) by auto
  have len: "length g = Suc (length h)" using same_payload_length [OF g(3)] by simp
  have "linked g (rev [0..<length g])" "Some (length h) = first (rev [0..<length g]) None"
    using g(2) len by simp_all
  from Cons.IH [OF this, of mt'] obtain h' where
    "link_loop es g (Some (length h)) mt' = Some (h', first (rev [0..<length g + length es]) None)"
    "linked h' (rev [0..<length g + length es])" "map payload h' = map payload g @ payloads es (length g) mt'"
    by blast
  moreover have "map payload g = map payload h @ [(Some (enValue e), match, enId e)]"
    using g(3) by (simp add: same_payload_def payload_def)
  moreover have "link_loop (e # es) h root mt = link_loop es g (Some (length h)) mt'"
    using g(1) by (simp add: match_def mt'_def Let_def split: if_splits)
  ultimately show ?case by (auto simp: len match_def mt'_def)
qed simp

lemma payloads_fresh:
  "j < length es \<Longrightarrow> \<forall>e \<in> set (take j es). enKind e = returnEntry \<longrightarrow> enId e \<noteq> enId (es ! j) \<Longrightarrow>
   payloads es k mt ! j = (Some (enValue (es ! j)), if enKind (es ! j) = returnEntry then None else mt (enId (es ! j)), enId (es ! j))"
proof (induction es arbitrary: j k mt)
  case (Cons e es)
  then show ?case by (cases j) auto
qed simp

lemma payloads_return:
  "j < length es \<Longrightarrow> enKind (es ! j) = returnEntry \<Longrightarrow>
   payloads es k mt ! j = (Some (enValue (es ! j)), None, enId (es ! j))"
proof (induction es arbitrary: j k mt)
  case (Cons e es)
  then show ?case by (cases j) auto
qed simp

lemma payloads_match:
  "r < j \<Longrightarrow> j < length es \<Longrightarrow> enKind (es ! j) = callEntry \<Longrightarrow> enKind (es ! r) = returnEntry \<Longrightarrow> enId (es ! r) = enId (es ! j) \<Longrightarrow>
   \<forall>i. r < i \<and> i < j \<and> enKind (es ! i) = returnEntry \<longrightarrow> enId (es ! i) \<noteq> enId (es ! j) \<Longrightarrow>
   payloads es k mt ! j = (Some (enValue (es ! j)), Some (k + r), enId (es ! j))"
proof (induction es arbitrary: j r k mt)
  case (Cons e es)
  obtain i where j: "j = Suc i" "i < length es" using Cons.prems(1,2) by (cases j) auto
  show ?case
  proof (cases r)
    case 0
    have "\<forall>e' \<in> set (take i es). enKind e' = returnEntry \<longrightarrow> enId e' \<noteq> enId (es ! i)"
    proof (intro ballI impI)
      fix e' assume "e' \<in> set (take i es)" "enKind e' = returnEntry"
      moreover from this obtain l where "l < i" "e' = es ! l" by (auto simp: in_set_conv_nth)
      ultimately show "enId e' \<noteq> enId (es ! i)" using Cons.prems(6) j 0 by (auto dest: spec [of _ "Suc l"])
    qed
    from payloads_fresh [OF j(2) this] show ?thesis using Cons.prems(3-5) 0 j by simp
  next
    case (Suc q)
    have "\<forall>l. q < l \<and> l < i \<and> enKind (es ! l) = returnEntry \<longrightarrow> enId (es ! l) \<noteq> enId (es ! i)"
      using Cons.prems(6) j Suc by (metis Suc_less_eq nth_Cons_Suc)
    then show ?thesis using Cons.IH [of q i] Cons.prems j Suc by (auto simp: add.assoc)
  qed
qed simp

lemma node_length_dseg:
  "dseg h p xs None \<Longrightarrow> node_length h (first xs None) l = Some (l + length xs)"
proof (induction xs arbitrary: p l)
  case (Cons x xs)
  then have "node_length h (first xs None) (Suc l) = Some (Suc l + length xs)" by auto
  with Cons.prems show ?case by (subst node_length.simps) simp
qed (simp add: node_length.simps)

text \<open>What the loop of \<^verbatim>\<open>checkSingle\<close> starts with.\<close>

lemma checkSingle_init_linked:
  "\<exists>h. checkSingle_init m hist = Some (length hist div 2, length hist,
      \<lparr>csHeap = h, csEntry = first (rev [0..<length hist]) None, csLinearized = newBitset (length hist div 2),
       csCache = (\<lambda>_. []), csCalls = [], csLongest = replicate (length hist div 2) None, csState = mInit m, csIter = 0\<rparr>) \<and>
     linked h (length hist # rev [0..<length hist]) \<and>
     map payload h = payloads (rev hist) 0 Map.empty @ [(None, None, -1)]"
proof -
  let ?n = "length hist"
  obtain h where h: "makeLinkedEntries hist = Some (h, first (rev [0..<?n]) None)"
    "linked h (rev [0..<?n])" "map payload h = payloads (rev hist) 0 Map.empty"
    using link_loop_linked [of "[]" None "rev hist" Map.empty] by (auto simp: makeLinkedEntries_def linked_def)
  have len: "length h = ?n" using arg_cong [OF h(3), of length] by simp
  have l: "node_length h (first (rev [0..<?n]) None) 0 = Some ?n"
    using node_length_dseg [of h None "rev [0..<?n]" 0] h(2) by (simp add: linked_def)
  let ?nd = "\<lparr>ndValue = None, ndMatch = None, ndId = -1, ndNext = None, ndPrev = None\<rparr>"
  have "linked (h @ [?nd]) (rev [0..<?n])" using h(2) by (auto simp: linked_def intro: dseg_grow)
  from insertBefore_linked [OF this, of ?n] obtain g where
    g: "insertBefore (h @ [?nd]) (Some ?n) (first (rev [0..<?n]) None) = Some g" "linked g (?n # rev [0..<?n])"
       "same_payload (h @ [?nd]) g"
    using len by (auto simp: nth_append)
  have "map payload g = payloads (rev hist) 0 Map.empty @ [(None, None, -1)]"
    using g(3) h(3) by (simp add: same_payload_def payload_def)
  then show ?thesis using h(1) l g len by (auto simp: checkSingle_init_def Let_def)
qed

end
