(* ===== verification/Linearizable.thy ===== *)
theory Linearizable
  imports CheckerList
begin

text \<open>
  What the checker decides. A history is a list of calls and returns in the order of time; an
  operation precedes another if it returned before the other was called. A linearization is an
  order of all operations that contradicts no precedence and in which every step is allowed by the
  model. The second part is the search space of \<^verbatim>\<open>checkSingle\<close>: the entries that are still
  linked after some operations have been linearized, and which configurations cannot be completed.
\<close>

section \<open>Linearizability\<close>

definition ops_count :: "'v entry list \<Rightarrow> nat" where
  "ops_count hist = length hist div 2"

definition op_ids :: "'v entry list \<Rightarrow> int set" where
  "op_ids hist = {0..<int (ops_count hist)}"

text \<open>
  One call and one later return for each id from 0 up. The last line is the bound that Go's type \<^verbatim>\<open>int\<close>
  puts on the length of a slice.
\<close>

definition wf_history :: "'v entry list \<Rightarrow> bool" where
  "wf_history hist \<longleftrightarrow> length hist = 2 * ops_count hist \<and>
     distinct (map (\<lambda>e. (enKind e, enId e)) hist) \<and>
     (\<forall>e \<in> set hist. 0 \<le> enId e \<and> enId e < int (ops_count hist)) \<and>
     (\<forall>q < length hist. \<forall>p < q. enKind (hist ! p) = returnEntry \<and> enKind (hist ! q) = callEntry \<longrightarrow>
        enId (hist ! p) \<noteq> enId (hist ! q)) \<and>
     int (length hist) < 2 ^ 63"

definition value_of :: "'v entry list \<Rightarrow> entryKind \<Rightarrow> int \<Rightarrow> 'v" where
  "value_of hist k i = enValue (hd (filter (\<lambda>e. enKind e = k \<and> enId e = i) hist))"

definition precedes :: "'v entry list \<Rightarrow> int \<Rightarrow> int \<Rightarrow> bool" where
  "precedes hist i j \<longleftrightarrow> (\<exists>q < length hist. \<exists>p < q.
     enKind (hist ! p) = returnEntry \<and> enId (hist ! p) = i \<and> enKind (hist ! q) = callEntry \<and> enId (hist ! q) = j)"

fun runs :: "('v, 's) Model \<Rightarrow> 'v entry list \<Rightarrow> 's \<Rightarrow> int list \<Rightarrow> 's option" where
  "runs m hist st [] = Some st"
| "runs m hist st (i # ids) =
     (case mStep m st (value_of hist callEntry i) (value_of hist returnEntry i) of
        Some (True, st') \<Rightarrow> runs m hist st' ids
      | _ \<Rightarrow> None)"

definition in_order :: "'v entry list \<Rightarrow> int list \<Rightarrow> bool" where
  "in_order hist ids \<longleftrightarrow> sorted_wrt (\<lambda>i j. \<not> precedes hist j i) ids"

definition linearization :: "('v, 's) Model \<Rightarrow> 'v entry list \<Rightarrow> int list \<Rightarrow> bool" where
  "linearization m hist ids \<longleftrightarrow> distinct ids \<and> set ids = op_ids hist \<and> in_order hist ids \<and>
     runs m hist (mInit m) ids \<noteq> None"

definition linearizable :: "('v, 's) Model \<Rightarrow> 'v entry list \<Rightarrow> bool" where
  "linearizable m hist \<longleftrightarrow> (\<exists>ids. linearization m hist ids)"

text \<open>A linearization of some of the operations that leaves out none that precedes one of them.\<close>

definition partial_linearization :: "('v, 's) Model \<Rightarrow> 'v entry list \<Rightarrow> int list \<Rightarrow> bool" where
  "partial_linearization m hist ids \<longleftrightarrow> distinct ids \<and> set ids \<subseteq> op_ids hist \<and> in_order hist ids \<and>
     runs m hist (mInit m) ids \<noteq> None \<and> (\<forall>i \<in> set ids. \<forall>j. precedes hist j i \<longrightarrow> j \<in> set ids)"

lemma runs_append: "runs m hist st (xs @ ys) = runs m hist st xs \<bind> (\<lambda>st. runs m hist st ys)"
  by (induction xs arbitrary: st) (auto split: option.splits bool.splits)

section \<open>Well-formed histories\<close>

abbreviation ev :: "'v entry list \<Rightarrow> nat \<Rightarrow> 'v entry" where
  "ev hist a \<equiv> rev hist ! a"

lemma wf_unique:
  assumes "wf_history hist" "a < length hist" "b < length hist"
    "enKind (ev hist a) = enKind (ev hist b)" "enId (ev hist a) = enId (ev hist b)"
  shows "a = b"
proof -
  have "distinct (rev (map (\<lambda>e. (enKind e, enId e)) hist))" using assms(1) by (simp add: wf_history_def)
  then have "distinct (map (\<lambda>e. (enKind e, enId e)) (rev hist))" by (simp add: rev_map)
  then show ?thesis using assms(2-5) by (auto simp: distinct_conv_nth)
qed

lemma ev_mem: "a < length hist \<Longrightarrow> ev hist a \<in> set hist"
  using nth_mem [of a "rev hist"] by simp

lemma mem_ev: "e \<in> set hist \<Longrightarrow> \<exists>a < length hist. ev hist a = e"
  by (metis in_set_conv_nth length_rev set_rev)

lemma ev_id: "wf_history hist \<Longrightarrow> a < length hist \<Longrightarrow> enId (ev hist a) \<in> op_ids hist"
  using ev_mem [of a hist] by (auto simp: wf_history_def op_ids_def)

lemma wf_all_present:
  assumes "wf_history hist" "i \<in> op_ids hist"
  shows "\<exists>a < length hist. enKind (ev hist a) = k \<and> enId (ev hist a) = i"
proof -
  let ?key = "\<lambda>e. (enKind e, enId e)"
  have kinds: "(UNIV :: entryKind set) = {callEntry, returnEntry}" by (auto intro: entryKind.exhaust)
  have fin: "finite ((UNIV :: entryKind set) \<times> op_ids hist)" by (simp add: kinds op_ids_def)
  have "?key ` set hist \<subseteq> UNIV \<times> op_ids hist" using assms(1) by (auto simp: wf_history_def op_ids_def)
  moreover have "card (?key ` set hist) = card ((UNIV :: entryKind set) \<times> op_ids hist)"
  proof -
    have "card (?key ` set hist) = length hist"
      using assms(1) distinct_card [of "map ?key hist"] by (simp add: wf_history_def)
    moreover have "card (UNIV :: entryKind set) = 2" by (simp add: kinds)
    ultimately show ?thesis using assms(1) by (simp add: card_cartesian_product op_ids_def wf_history_def)
  qed
  ultimately have "?key ` set hist = UNIV \<times> op_ids hist" by (intro card_subset_eq [OF fin])
  then have "(k, i) \<in> ?key ` set hist" using assms(2) by auto
  then show ?thesis using mem_ev [of _ hist] by fastforce
qed

lemma value_of_ev:
  assumes "wf_history hist" "a < length hist"
  shows "value_of hist (enKind (ev hist a)) (enId (ev hist a)) = enValue (ev hist a)"
proof -
  let ?P = "\<lambda>e. enKind e = enKind (ev hist a) \<and> enId e = enId (ev hist a)"
  have "ev hist a \<in> set (filter ?P hist)" using assms(2) ev_mem by simp
  then have "filter ?P hist \<noteq> []" by (metis empty_iff empty_set)
  then have "hd (filter ?P hist) \<in> set (filter ?P hist)" by (rule hd_in_set)
  then have h: "?P (hd (filter ?P hist))" "hd (filter ?P hist) \<in> set hist" by auto
  then obtain b where "b < length hist" "ev hist b = hd (filter ?P hist)" using mem_ev by blast
  then show ?thesis using wf_unique [OF assms(1) _ assms(2), of b] h(1) by (metis value_of_def)
qed

text \<open>Addresses grow backwards in time.\<close>

lemma precedes_ev:
  "precedes hist i j \<longleftrightarrow> (\<exists>a < length hist. \<exists>b < a. enKind (ev hist a) = returnEntry \<and> enId (ev hist a) = i \<and>
     enKind (ev hist b) = callEntry \<and> enId (ev hist b) = j)" (is "_ \<longleftrightarrow> ?R")
proof
  assume "precedes hist i j"
  then obtain p q where "q < length hist" "p < q" "enKind (hist ! p) = returnEntry" "enId (hist ! p) = i"
    "enKind (hist ! q) = callEntry" "enId (hist ! q) = j" unfolding precedes_def by blast
  then show ?R
    by (intro exI [of _ "length hist - 1 - p"] exI [of _ "length hist - 1 - q"] conjI) (auto simp: rev_nth)
next
  assume ?R
  then obtain a b where *: "a < length hist" "b < a" "enKind (ev hist a) = returnEntry" "enId (ev hist a) = i"
    "enKind (ev hist b) = callEntry" "enId (ev hist b) = j" by blast
  then show "precedes hist i j" unfolding precedes_def
    by (intro exI [of _ "length hist - 1 - b"] exI [of _ "length hist - 1 - a"] conjI) (auto simp: rev_nth)
qed

lemma return_below_call:
  assumes "wf_history hist" "a < length hist" "b < length hist" "enKind (ev hist a) = callEntry"
    "enKind (ev hist b) = returnEntry" "enId (ev hist a) = enId (ev hist b)"
  shows "b < a"
proof (rule ccontr)
  assume "\<not> b < a"
  moreover have "a \<noteq> b" using assms(4,5) by auto
  ultimately have "length hist - 1 - b < length hist - 1 - a" using assms(2,3) by auto
  moreover have "hist ! (length hist - 1 - b) = ev hist b" "hist ! (length hist - 1 - a) = ev hist a"
    using assms(2,3) by (auto simp: rev_nth)
  ultimately show False
    using assms unfolding wf_history_def
    by (metis (no_types, lifting) diff_less_Suc diff_Suc_less gr_implies_not0 length_greater_0_conv less_nat_zero_code list.size(3) diff_diff_left plus_1_eq_Suc)
qed

section \<open>The entries still linked\<close>

definition alive :: "'v entry list \<Rightarrow> int set \<Rightarrow> nat list" where
  "alive hist S = filter (\<lambda>a. enId (ev hist a) \<notin> S) (rev [0..<length hist])"

lemma alive_empty [simp]: "alive hist {} = rev [0..<length hist]"
  by (simp add: alive_def)

lemma mem_alive: "a \<in> set (alive hist S) \<longleftrightarrow> a < length hist \<and> enId (ev hist a) \<notin> S"
  by (auto simp: alive_def)

lemma alive_sorted: "sorted_wrt (>) (alive hist S)"
  unfolding alive_def by (rule sorted_wrt_filter) (simp add: sorted_wrt_rev)

lemma alive_distinct [simp]: "distinct (alive hist S)"
  by (simp add: alive_def)

lemma alive_insert: "alive hist (insert i S) = filter (\<lambda>a. enId (ev hist a) \<noteq> i) (alive hist S)"
  by (auto simp: alive_def intro: filter_cong)

lemma alive_Nil_iff:
  assumes "wf_history hist" "S \<subseteq> op_ids hist"
  shows "alive hist S = [] \<longleftrightarrow> S = op_ids hist"
proof
  assume e: "alive hist S = []"
  have "i \<in> S" if i: "i \<in> op_ids hist" for i
  proof -
    obtain a where "a < length hist" "enId (ev hist a) = i" using wf_all_present [OF assms(1) i, of callEntry] by auto
    then show ?thesis using e mem_alive [of a hist S] by auto
  qed
  then show "S = op_ids hist" using assms(2) by auto
next
  assume "S = op_ids hist"
  then show "alive hist S = []" using ev_id [OF assms(1)] mem_alive [of _ hist S] by (metis list.set_intros(1) neq_Nil_conv)
qed

text \<open>Taking out a call takes out exactly the call and its return.\<close>

lemma alive_split:
  assumes wf: "wf_history hist" and al: "alive hist S = pre @ a # suf" and k: "enKind (ev hist a) = callEntry"
  shows "\<exists>ys r zs. suf = ys @ r # zs \<and> enKind (ev hist r) = returnEntry \<and> enId (ev hist r) = enId (ev hist a) \<and>
    r < a \<and> alive hist (insert (enId (ev hist a)) S) = pre @ ys @ zs"
proof -
  have a: "a < length hist" "enId (ev hist a) \<notin> S"
    using al mem_alive [of a hist S] by auto
  obtain r where r: "r < length hist" "enKind (ev hist r) = returnEntry" "enId (ev hist r) = enId (ev hist a)"
    using wf_all_present [OF wf ev_id [OF wf a(1)]] by blast
  have ra: "r < a" using return_below_call [OF wf a(1) r(1) k r(2)] r(3) by simp
  have "r \<in> set (pre @ a # suf)" using r a(2) al mem_alive [of r hist S] by simp
  moreover have srt: "sorted_wrt (>) (pre @ a # suf)" using alive_sorted [of hist S] al by simp
  ultimately have "r \<in> set suf" using ra by (auto simp: sorted_wrt_append)
  then obtain ys zs where suf: "suf = ys @ r # zs" by (auto simp: in_set_conv_decomp)
  have keep: "enId (ev hist b) \<noteq> enId (ev hist a)" if "b \<in> set (alive hist S)" "b \<noteq> a" "b \<noteq> r" for b
    using that wf_unique [OF wf _ a(1), of b] wf_unique [OF wf _ r(1), of b] r k
    by (auto simp: mem_alive) (metis entryKind.exhaust)
  have "distinct (pre @ a # ys @ r # zs)" using alive_distinct [of hist S] al suf by simp
  then have "enId (ev hist b) \<noteq> enId (ev hist a)" if "b \<in> set (pre @ ys @ zs)" for b
    using that keep [of b] al suf by auto
  then have "filter (\<lambda>b. enId (ev hist b) \<noteq> enId (ev hist a)) xs = xs" if "\<forall>b \<in> set xs. b \<in> set (pre @ ys @ zs)" for xs
    using that by (intro filter_True) blast
  from this [of pre] this [of ys] this [of zs]
  have "filter (\<lambda>b. enId (ev hist b) \<noteq> enId (ev hist a)) (pre @ a # ys @ r # zs) = pre @ ys @ zs"
    using r(3) by simp
  then show ?thesis using suf r ra al by (auto simp: alive_insert)
qed

lemma alive_last_return:
  assumes "wf_history hist" "a \<in> set (alive hist S)"
  shows "\<exists>r \<in> set (alive hist S). enKind (ev hist r) = returnEntry"
proof -
  obtain r where "r < length hist" "enKind (ev hist r) = returnEntry" "enId (ev hist r) = enId (ev hist a)"
    using assms wf_all_present [OF assms(1) ev_id [OF assms(1)], of a returnEntry] by (auto simp: mem_alive)
  then show ?thesis using assms(2) by (auto simp: mem_alive)
qed

section \<open>Configurations\<close>

definition completes :: "('v, 's) Model \<Rightarrow> 'v entry list \<Rightarrow> int set \<Rightarrow> 's \<Rightarrow> int list \<Rightarrow> bool" where
  "completes m hist S st ext \<longleftrightarrow> distinct ext \<and> set ext = op_ids hist - S \<and> in_order hist ext \<and>
     runs m hist st ext \<noteq> None"

definition dead :: "('v, 's) Model \<Rightarrow> 'v entry list \<Rightarrow> int set \<Rightarrow> 's \<Rightarrow> bool" where
  "dead m hist S st \<longleftrightarrow> (\<forall>ext. \<not> completes m hist S st ext)"

text \<open>Linearizing the call at address \<open>b\<close> next leads nowhere.\<close>

definition refuted :: "('v, 's) Model \<Rightarrow> 'v entry list \<Rightarrow> int set \<Rightarrow> 's \<Rightarrow> nat \<Rightarrow> bool" where
  "refuted m hist S st b \<longleftrightarrow> (let i = enId (ev hist b) in
     \<forall>st'. mStep m st (value_of hist callEntry i) (value_of hist returnEntry i) = Some (True, st') \<longrightarrow>
        dead m hist (insert i S) st')"

text \<open>The search of a configuration has come to the entry \<open>p\<close>.\<close>

definition scanned :: "('v, 's) Model \<Rightarrow> 'v entry list \<Rightarrow> int set \<Rightarrow> 's \<Rightarrow> ptr \<Rightarrow> bool" where
  "scanned m hist S st p \<longleftrightarrow> (\<exists>pre suf. alive hist S = pre @ suf \<and> p = first suf None \<and>
     (\<forall>b \<in> set pre. enKind (ev hist b) = callEntry \<and> refuted m hist S st b))"

lemma scanned_start: "scanned m hist S st (first (alive hist S) None)"
  unfolding scanned_def by (intro exI [of _ "[]"] exI [of _ "alive hist S"]) auto

lemma first_Some: "Some a = first suf None \<longleftrightarrow> (\<exists>ys. suf = a # ys)"
  by (cases suf) auto

lemma scanned_SomeE:
  assumes "scanned m hist S st (Some a)"
  obtains pre suf where "alive hist S = pre @ a # suf"
    "\<And>b. b \<in> set pre \<Longrightarrow> enKind (ev hist b) = callEntry" "\<And>b. b \<in> set pre \<Longrightarrow> refuted m hist S st b"
  using assms unfolding scanned_def first_Some by blast

lemma scanned_advance:
  assumes "scanned m hist S st (Some a)" "enKind (ev hist a) = callEntry" "refuted m hist S st a"
    "alive hist S = pre @ a # suf"
  shows "scanned m hist S st (first suf None)"
proof -
  obtain pre' suf' where *: "alive hist S = pre' @ a # suf'"
    "\<And>b. b \<in> set pre' \<Longrightarrow> enKind (ev hist b) = callEntry" "\<And>b. b \<in> set pre' \<Longrightarrow> refuted m hist S st b"
    using assms(1) by (rule scanned_SomeE) blast
  have "distinct (pre @ a # suf)" using alive_distinct [of hist S] assms(4) by simp
  then have "pre' = pre" "suf' = suf"
    using *(1) assms(4) by (auto dest!: append_Cons_eq_iff [THEN iffD1, rotated 2])
  then show ?thesis
    using * assms(2,3) unfolding scanned_def by (intro exI [of _ "pre @ [a]"] exI [of _ suf]) auto
qed

text \<open>A configuration in which the scan reaches a return cannot be completed.\<close>

lemma scanned_return_dead:
  assumes wf: "wf_history hist" and S: "S \<subseteq> op_ids hist"
    and sc: "scanned m hist S st (Some a)" and k: "enKind (ev hist a) = returnEntry"
  shows "dead m hist S st"
  unfolding dead_def
proof (intro allI notI)
  fix ext assume c: "completes m hist S st ext"
  obtain pre suf where al: "alive hist S = pre @ a # suf" and ref: "\<And>b. b \<in> set pre \<Longrightarrow> refuted m hist S st b"
    using sc by (rule scanned_SomeE) blast
  have a: "a < length hist" "enId (ev hist a) \<notin> S" using al mem_alive [of a hist S] by auto
  have mem: "enId (ev hist a) \<in> set ext" using c a ev_id [OF wf a(1)] by (auto simp: completes_def)
  then obtain i es where ext: "ext = i # es" by (cases ext) auto
  have i: "i \<in> op_ids hist" "i \<notin> S" using c ext by (auto simp: completes_def)
  obtain b where b: "b < length hist" "enKind (ev hist b) = callEntry" "enId (ev hist b) = i"
    using wf_all_present [OF wf i(1)] by blast
  have "\<not> b < a"
  proof
    assume "b < a"
    then have "precedes hist (enId (ev hist a)) i" using a b k by (auto simp: precedes_ev)
    moreover have "enId (ev hist a) \<noteq> i" using return_below_call [OF wf b(1) a(1) b(2) k] b(3) \<open>b < a\<close> by auto
    ultimately show False using c ext mem by (auto simp: completes_def in_order_def)
  qed
  moreover have "b \<in> set (pre @ a # suf)" using b i al mem_alive [of b hist S] by simp
  moreover have "sorted_wrt (>) (pre @ a # suf)" using alive_sorted [of hist S] al by simp
  ultimately have "b \<in> set pre" using b k by (auto simp: sorted_wrt_append)
  obtain st' where st': "mStep m st (value_of hist callEntry i) (value_of hist returnEntry i) = Some (True, st')"
    "runs m hist st' es \<noteq> None" using c ext by (auto simp: completes_def split: option.splits bool.splits)
  have "completes m hist (insert i S) st' es"
    using c ext i st'(2) by (auto simp: completes_def in_order_def)
  then show False using ref [OF \<open>b \<in> set pre\<close>] st'(1) b(3) by (auto simp: refuted_def dead_def)
qed

end
