(* ===== verification/CheckerInv.thy ===== *)
theory CheckerInv
  imports Linearizable
begin

text \<open>
  The invariant of the loop of \<^verbatim>\<open>checkSingle\<close>. The calls on the stack are a partial linearization
  (\<open>stack_ok\<close>); the heap is the heap of the history from which these calls have been lifted in this
  order; every entry before the current one is a call that was tried in vain; a cached configuration
  is on the stack or cannot be completed.
\<close>

section \<open>The stack\<close>

abbreviation call_ids :: "'v entry list \<Rightarrow> (nat \<times> 's) list \<Rightarrow> int list" where
  "call_ids hist calls \<equiv> map (\<lambda>c. enId (ev hist (fst c))) calls"

inductive stack_ok :: "('v, 's) Model \<Rightarrow> 'v entry list \<Rightarrow> (nat \<times> 's) list \<Rightarrow> 's \<Rightarrow> bool" for m hist where
  stack_start: "stack_ok m hist [] (mInit m)"
| stack_push: "stack_ok m hist calls st \<Longrightarrow> scanned m hist (set (call_ids hist calls)) st (Some a) \<Longrightarrow>
     enKind (ev hist a) = callEntry \<Longrightarrow> i = enId (ev hist a) \<Longrightarrow>
     mStep m st (value_of hist callEntry i) (value_of hist returnEntry i) = Some (True, st') \<Longrightarrow>
     stack_ok m hist (calls @ [(a, st)]) st'"

inductive_cases stack_popE: "stack_ok m hist (calls @ [c]) st"

lemma scanned_mem: "scanned m hist S st (Some a) \<Longrightarrow> a < length hist \<and> enId (ev hist a) \<notin> S"
  by (erule scanned_SomeE) (metis in_set_conv_decomp mem_alive)

lemma stack_runs: "stack_ok m hist calls st \<Longrightarrow> runs m hist (mInit m) (call_ids hist calls) = Some st"
  by (induction rule: stack_ok.induct) (auto simp: runs_append)

lemma stack_ids:
  assumes "stack_ok m hist calls st" "wf_history hist"
  shows "distinct (call_ids hist calls) \<and> set (call_ids hist calls) \<subseteq> op_ids hist"
  using assms by (induction rule: stack_ok.induct) (auto dest: scanned_mem intro: ev_id)

text \<open>Nothing that is still linked precedes a call that the scan has reached.\<close>

lemma scanned_no_precedes:
  assumes "wf_history hist" "scanned m hist S st (Some a)" "enKind (ev hist a) = callEntry" "j \<notin> S"
  shows "\<not> precedes hist j (enId (ev hist a))"
proof
  assume "precedes hist j (enId (ev hist a))"
  then obtain r b where r: "r < length hist" "b < r" "enKind (ev hist r) = returnEntry" "enId (ev hist r) = j"
      and b: "enKind (ev hist b) = callEntry" "enId (ev hist b) = enId (ev hist a)"
    unfolding precedes_ev by blast
  have "a < length hist" using scanned_mem [OF assms(2)] by simp
  then have ba: "b = a" using wf_unique [OF assms(1), of b a] r b assms(3) by auto
  obtain pre suf where al: "alive hist S = pre @ a # suf" and c: "\<And>b. b \<in> set pre \<Longrightarrow> enKind (ev hist b) = callEntry"
    using assms(2) by (rule scanned_SomeE) blast
  have "r \<in> set (pre @ a # suf)" using r assms(4) al mem_alive [of r hist S] by simp
  moreover have "sorted_wrt (>) (pre @ a # suf)" using alive_sorted [of hist S] al by simp
  ultimately have "r \<in> set pre" using r(2) ba by (auto simp: sorted_wrt_append)
  then show False using c r(3) by auto
qed

lemma stack_order:
  assumes "stack_ok m hist calls st" "wf_history hist"
  shows "in_order hist (call_ids hist calls) \<and>
    (\<forall>i \<in> set (call_ids hist calls). \<forall>j. precedes hist j i \<longrightarrow> j \<in> set (call_ids hist calls))"
  using assms
proof (induction rule: stack_ok.induct)
  case (stack_push calls st a i st')
  have new: "\<not> precedes hist j i" if "j \<notin> set (call_ids hist calls)" for j
    using scanned_no_precedes [OF stack_push.prems stack_push.hyps(2,3) that] stack_push.hyps(4) by simp
  have "i \<notin> set (call_ids hist calls)" using scanned_mem [OF stack_push.hyps(2)] stack_push.hyps(4) by simp
  then have old: "\<not> precedes hist i j" if "j \<in> set (call_ids hist calls)" for j
    using stack_push.IH stack_push.prems that by blast
  show ?case
    using stack_push.IH stack_push.prems new old stack_push.hyps(4)
    by (auto simp: in_order_def sorted_wrt_append)
qed (simp add: in_order_def)

lemma stack_partial:
  assumes "stack_ok m hist calls st" "wf_history hist"
  shows "partial_linearization m hist (call_ids hist calls)"
  using stack_runs [OF assms(1)] stack_ids [OF assms] stack_order [OF assms]
  by (simp add: partial_linearization_def)

lemma stack_complete:
  assumes "stack_ok m hist calls st" "wf_history hist" "alive hist (set (call_ids hist calls)) = []"
  shows "linearization m hist (call_ids hist calls)"
  using stack_runs [OF assms(1)] stack_ids [OF assms(1,2)] stack_order [OF assms(1,2)] assms(3)
    alive_Nil_iff [OF assms(2), of "set (call_ids hist calls)"]
  by (simp add: linearization_def)

section \<open>The heap\<close>

definition history_heap :: "'v entry list \<Rightarrow> 'v heap \<Rightarrow> bool" where
  "history_heap hist h \<longleftrightarrow> linked h (length hist # rev [0..<length hist]) \<and>
     (\<forall>a < length hist. ndId (h ! a) = enId (ev hist a) \<and> ndValue (h ! a) = Some (enValue (ev hist a)) \<and>
        (enKind (ev hist a) = returnEntry \<longrightarrow> ndMatch (h ! a) = None) \<and>
        (\<forall>r < length hist. enKind (ev hist a) = callEntry \<and> enKind (ev hist r) = returnEntry \<and>
            enId (ev hist r) = enId (ev hist a) \<longrightarrow> ndMatch (h ! a) = Some r))"

lemma history_heap_init:
  assumes "wf_history hist" "linked h (length hist # rev [0..<length hist])"
    "map payload h = payloads (rev hist) 0 Map.empty @ [(None, None, -1)]"
  shows "history_heap hist h"
  unfolding history_heap_def
proof (intro conjI allI impI assms(2))
  fix a assume a: "a < length hist"
  have len: "length h = length hist + 1" using arg_cong [OF assms(3), of length] by simp
  have pl: "payload (h ! a) = payloads (rev hist) 0 Map.empty ! a"
    using arg_cong [OF assms(3), of "\<lambda>xs. xs ! a"] a len by (simp add: nth_append)
  show "ndMatch (h ! a) = None" if "enKind (ev hist a) = returnEntry"
    using payloads_return [of a "rev hist"] that a pl by (simp add: payload_def)
  show m: "ndMatch (h ! a) = Some r"
    if "r < length hist" "enKind (ev hist a) = callEntry \<and> enKind (ev hist r) = returnEntry \<and> enId (ev hist r) = enId (ev hist a)" for r
  proof -
    have "enId (ev hist i) \<noteq> enId (ev hist a)" if "r < i" "i < a" "enKind (ev hist i) = returnEntry" for i
      using wf_unique [OF assms(1), of i r] that a \<open>r < length hist\<close> \<open>enKind (ev hist a) = callEntry \<and> _\<close> by auto
    then show ?thesis
      using payloads_match [of r a "rev hist" 0 Map.empty] return_below_call [OF assms(1) a that(1)] that a pl
      by (simp add: payload_def)
  qed
  show "ndId (h ! a) = enId (ev hist a)" "ndValue (h ! a) = Some (enValue (ev hist a))"
  proof -
    have "ndId (h ! a) = enId (ev hist a) \<and> ndValue (h ! a) = Some (enValue (ev hist a))"
    proof (cases "enKind (ev hist a)")
      case returnEntry
      then show ?thesis using payloads_return [of a "rev hist"] a pl by (simp add: payload_def)
    next
      case callEntry
      obtain r where r: "r < length hist" "enKind (ev hist r) = returnEntry" "enId (ev hist r) = enId (ev hist a)"
        using wf_all_present [OF assms(1) ev_id [OF assms(1) a]] by blast
      have "enId (ev hist i) \<noteq> enId (ev hist a)" if "r < i" "i < a" "enKind (ev hist i) = returnEntry" for i
        using wf_unique [OF assms(1), of i r] that a r by auto
      then show ?thesis
        using payloads_match [of r a "rev hist" 0 Map.empty] return_below_call [OF assms(1) a r(1) callEntry] r a pl callEntry
        by (simp add: payload_def)
    qed
    then show "ndId (h ! a) = enId (ev hist a)" "ndValue (h ! a) = Some (enValue (ev hist a))" by auto
  qed
qed

fun lifts :: "'v heap \<Rightarrow> nat list \<Rightarrow> 'v heap option" where
  "lifts h [] = Some h"
| "lifts h (a # as) = do { h \<leftarrow> lift h (Some a); lifts h as }"

lemma lifts_snoc: "lifts h (as @ [a]) = do { h \<leftarrow> lifts h as; lift h (Some a) }"
  by (induction as arbitrary: h) (auto split: bind_split)

lemma lift_step:
  assumes wf: "wf_history hist" and h0: "history_heap hist h0" and sp: "same_payload h0 h"
    and ln: "linked h (length hist # alive hist S)"
    and sc: "scanned m hist S st (Some a)" and k: "enKind (ev hist a) = callEntry"
  shows "\<exists>h'. lift h (Some a) = Some h' \<and> unlift h' (Some a) = Some h \<and> same_payload h h' \<and>
    linked h' (length hist # alive hist (insert (enId (ev hist a)) S))"
proof -
  obtain pre suf where al: "alive hist S = pre @ a # suf" using sc by (rule scanned_SomeE) blast
  obtain ys r zs where r: "suf = ys @ r # zs" "enKind (ev hist r) = returnEntry" "enId (ev hist r) = enId (ev hist a)"
      "r < a" and al': "alive hist (insert (enId (ev hist a)) S) = pre @ ys @ zs"
    using alive_split [OF wf al k] by blast
  have a: "a < length hist" using scanned_mem [OF sc] by simp
  have "length h0 = length h" using same_payload_length [OF sp] by simp
  moreover have "a < length h" using linked_bound [OF ln] al by simp
  ultimately have "ndMatch (h ! a) = Some r"
    using same_payload_nth(2) [OF sp, of a] h0 a r k unfolding history_heap_def by auto
  then show ?thesis
    using lift_linked [of h "length hist # pre" a ys r zs] ln al al' r(1) by auto
qed

lemma lifts_linked:
  assumes "stack_ok m hist calls st" "wf_history hist" "history_heap hist h0" "lifts h0 (map fst calls) = Some h"
  shows "linked h (length hist # alive hist (set (call_ids hist calls))) \<and> same_payload h0 h"
  using assms
proof (induction arbitrary: h rule: stack_ok.induct)
  case stack_start
  then show ?case by (simp add: history_heap_def)
next
  case (stack_push calls st a i st')
  obtain g where g: "lifts h0 (map fst calls) = Some g" "lift g (Some a) = Some h"
    using stack_push.prems(3) by (auto simp: lifts_snoc)
  have IH: "linked g (length hist # alive hist (set (call_ids hist calls)))" "same_payload h0 g"
    using stack_push.IH [OF stack_push.prems(1,2) g(1)] by auto
  show ?case
    using lift_step [OF stack_push.prems(1,2) IH(2,1) stack_push.hyps(2,3)] g(2) same_payload_trans [OF IH(2)] by auto
qed

section \<open>The invariant\<close>

definition equal_ok :: "('v, 's) Model \<Rightarrow> bool" where
  "equal_ok m \<longleftrightarrow> (\<exists>eq. mEqual m = Some eq \<and> (\<forall>s. eq s s) \<and>
     (\<forall>s t i u s'. eq s t \<and> mStep m s i u = Some (True, s') \<longrightarrow> (\<exists>t'. mStep m t i u = Some (True, t') \<and> eq s' t')))"

definition steps_total :: "('v, 's) Model \<Rightarrow> 'v entry list \<Rightarrow> bool" where
  "steps_total m hist \<longleftrightarrow>
     (\<forall>st. \<forall>i \<in> op_ids hist. mStep m st (value_of hist callEntry i) (value_of hist returnEntry i) \<noteq> None)"

definition checkable :: "('v, 's) Model \<Rightarrow> 'v entry list \<Rightarrow> bool" where
  "checkable m hist \<longleftrightarrow> wf_history hist \<and> equal_ok m \<and> steps_total m hist"

definition on_stack :: "'v entry list \<Rightarrow> (nat \<times> 's) list \<Rightarrow> 's \<Rightarrow> nat set \<Rightarrow> 's \<Rightarrow> bool" where
  "on_stack hist calls st B t \<longleftrightarrow>
     (\<exists>k \<le> length calls. B = nat ` set (take k (call_ids hist calls)) \<and> t = (map snd calls @ [st]) ! k)"

definition reach :: "('v, 's) Model \<Rightarrow> 'v entry list \<Rightarrow> (nat set \<times> 's option) set" where
  "reach m hist = (\<lambda>ids. (nat ` set ids, runs m hist (mInit m) ids)) ` {ids. set ids \<subseteq> op_ids hist \<and> distinct ids}"

definition cached :: "'s cache \<Rightarrow> (nat set \<times> 's option) set" where
  "cached cache = {(bits_of b, Some t) | k b t. (b, t) \<in> set (cache k)}"

definition cache_ok :: "('v, 's) Model \<Rightarrow> 'v entry list \<Rightarrow> (nat \<times> 's) list \<Rightarrow> 's \<Rightarrow> 's cache \<Rightarrow> bool" where
  "cache_ok m hist calls st cache \<longleftrightarrow> cached cache \<subseteq> reach m hist \<and>
     (\<forall>k b t. (b, t) \<in> set (cache k) \<longrightarrow> k = bitset_hash b \<and> fits (ops_count hist) b \<and>
        (dead m hist (int ` bits_of b) t \<or> on_stack hist calls st (bits_of b) t))"

definition longest_ok :: "('v, 's) Model \<Rightarrow> 'v entry list \<Rightarrow> longest \<Rightarrow> bool" where
  "longest_ok m hist longest \<longleftrightarrow> length longest = ops_count hist \<and>
     (\<forall>k seq. Some (k, seq) \<in> set longest \<longrightarrow> partial_linearization m hist seq)"

definition search_inv :: "('v, 's) Model \<Rightarrow> 'v entry list \<Rightarrow> 'v heap \<Rightarrow> ('v, 's) search \<Rightarrow> bool" where
  "search_inv m hist h0 s \<longleftrightarrow>
     stack_ok m hist (csCalls s) (csState s) \<and>
     lifts h0 (map fst (csCalls s)) = Some (csHeap s) \<and>
     scanned m hist (set (call_ids hist (csCalls s))) (csState s) (csEntry s) \<and>
     fits (ops_count hist) (csLinearized s) \<and>
     bits_of (csLinearized s) = nat ` set (call_ids hist (csCalls s)) \<and>
     cache_ok m hist (csCalls s) (csState s) (csCache s) \<and>
     longest_ok m hist (csLongest s)"

lemma finite_reach: "finite (reach m hist)"
proof -
  have "finite {ids. set ids \<subseteq> op_ids hist \<and> distinct ids}"
    by (rule finite_subset_distinct) (simp add: op_ids_def)
  then show ?thesis by (simp add: reach_def)
qed

lemma int_nat_ids: "S \<subseteq> op_ids hist \<Longrightarrow> int ` nat ` S = S"
  by (force simp: op_ids_def image_iff)

lemma to_uint_id:
  assumes "wf_history hist" "i \<in> op_ids hist"
  shows "to_uint i = nat i" "nat i < ops_count hist"
proof -
  have "0 \<le> i" "i < int (ops_count hist)" using assms(2) by (auto simp: op_ids_def)
  moreover have "int (ops_count hist) < 2 ^ 63" using assms(1) by (auto simp: wf_history_def)
  ultimately show "to_uint i = nat i" "nat i < ops_count hist" by (auto simp: to_uint_def)
qed

lemma runs_equal:
  assumes "mEqual m = Some eq"
    "\<forall>s t i u s'. eq s t \<and> mStep m s i u = Some (True, s') \<longrightarrow> (\<exists>t'. mStep m t i u = Some (True, t') \<and> eq s' t')"
  shows "eq s t \<Longrightarrow> runs m hist s ids \<noteq> None \<Longrightarrow> runs m hist t ids \<noteq> None"
proof (induction ids arbitrary: s t)
  case (Cons i ids)
  obtain s' where s': "mStep m s (value_of hist callEntry i) (value_of hist returnEntry i) = Some (True, s')"
      "runs m hist s' ids \<noteq> None"
    using Cons.prems(2) by (auto split: option.splits bool.splits)
  then obtain t' where "mStep m t (value_of hist callEntry i) (value_of hist returnEntry i) = Some (True, t')" "eq s' t'"
    using assms(2) Cons.prems(1) by blast
  then show ?case using Cons.IH [OF _ s'(2)] by auto
qed simp

lemma dead_equal:
  assumes "mEqual m = Some eq" "eq s t"
    "\<forall>s t i u s'. eq s t \<and> mStep m s i u = Some (True, s') \<longrightarrow> (\<exists>t'. mStep m t i u = Some (True, t') \<and> eq s' t')"
    "dead m hist S t"
  shows "dead m hist S s"
  using runs_equal [OF assms(1,3,2)] assms(4) unfolding dead_def completes_def by blast

end
