(* ===== verification/CheckerLoop.thy ===== *)
theory CheckerLoop
  imports CheckerInv
begin

text \<open>
  Every iteration of \<^verbatim>\<open>checkSingle\<close> keeps the invariant and makes progress: it caches a new
  configuration, or shortens the stack, or moves on in the list. So the loop ends, and when it ends
  its answer is right.
\<close>

section \<open>Progress\<close>

definition rank :: "('v, 's) Model \<Rightarrow> 'v entry list \<Rightarrow> ('v, 's) search \<Rightarrow> nat \<times> nat \<times> nat" where
  "rank m hist s =
     (card (reach m hist - cached (csCache s)), length (csCalls s),
      length (dropWhile (\<lambda>x. Some x \<noteq> csEntry s) (alive hist (set (call_ids hist (csCalls s))))))"

definition progress :: "('v, 's) Model \<Rightarrow> 'v entry list \<Rightarrow> (('v, 's) search \<times> ('v, 's) search) set" where
  "progress m hist = inv_image (less_than <*lex*> less_than <*lex*> less_than) (rank m hist)"

lemma wf_progress: "wf (progress m hist)"
  unfolding progress_def by (intro wf_inv_image wf_lex_prod wf_less_than)

lemma rank_iter [simp]: "rank m hist (s\<lparr>csIter := k\<rparr>) = rank m hist s"
  by (simp add: rank_def)

lemma search_inv_iter [simp]: "search_inv m hist h0 (s\<lparr>csIter := k\<rparr>) = search_inv m hist h0 s"
  by (simp add: search_inv_def)

lemma dropWhile_entry:
  assumes "distinct (pre @ suf)" "p = first suf None"
  shows "dropWhile (\<lambda>x. Some x \<noteq> p) (pre @ suf) = suf"
proof (cases suf)
  case (Cons a xs)
  then have "\<forall>x \<in> set pre. Some x \<noteq> p" using assms by auto
  then show ?thesis using Cons assms(2) by (simp add: dropWhile_append2)
qed (use assms in \<open>simp add: dropWhile_append3\<close>)

section \<open>Reading the list\<close>

text \<open>What the invariant says about the heap and the entry at hand.\<close>

lemma search_heap:
  assumes "search_inv m hist h0 s" "wf_history hist" "history_heap hist h0"
  shows "linked (csHeap s) (length hist # alive hist (set (call_ids hist (csCalls s))))" "same_payload h0 (csHeap s)"
    "length hist < length (csHeap s)"
proof -
  show l: "linked (csHeap s) (length hist # alive hist (set (call_ids hist (csCalls s))))" "same_payload h0 (csHeap s)"
    using lifts_linked [of m hist "csCalls s" "csState s" h0 "csHeap s"] assms by (auto simp: search_inv_def)
  show "length hist < length (csHeap s)" using linked_bound [OF l(1)] by simp
qed

lemma search_node:
  assumes "search_inv m hist h0 s" "wf_history hist" "history_heap hist h0" "a < length hist"
  shows "ndId (csHeap s ! a) = enId (ev hist a)" "ndValue (csHeap s ! a) = Some (enValue (ev hist a))"
    "enKind (ev hist a) = returnEntry \<Longrightarrow> ndMatch (csHeap s ! a) = None"
    "enKind (ev hist a) = callEntry \<Longrightarrow> enKind (ev hist r) = returnEntry \<Longrightarrow> r < length hist \<Longrightarrow>
       enId (ev hist r) = enId (ev hist a) \<Longrightarrow> ndMatch (csHeap s ! a) = Some r"
proof -
  note h = search_heap [OF assms(1-3)]
  have "a < length h0" using h assms(4) same_payload_length [OF h(2)] by simp
  note eq = same_payload_nth [OF h(2) this]
  show "ndId (csHeap s ! a) = enId (ev hist a)" "ndValue (csHeap s ! a) = Some (enValue (ev hist a))"
    "enKind (ev hist a) = returnEntry \<Longrightarrow> ndMatch (csHeap s ! a) = None"
    "enKind (ev hist a) = callEntry \<Longrightarrow> enKind (ev hist r) = returnEntry \<Longrightarrow> r < length hist \<Longrightarrow>
       enId (ev hist r) = enId (ev hist a) \<Longrightarrow> ndMatch (csHeap s ! a) = Some r"
    using assms(3,4) eq unfolding history_heap_def by auto
qed

lemma search_skip:
  assumes inv: "search_inv m hist h0 s" and wf: "wf_history hist" and h0: "history_heap hist h0"
    and e: "csEntry s = Some a" and k: "enKind (ev hist a) = callEntry"
    and ref: "refuted m hist (set (call_ids hist (csCalls s))) (csState s) a"
  shows "search_inv m hist h0 (s\<lparr>csEntry := ndNext (csHeap s ! a)\<rparr>) \<and>
    (s\<lparr>csEntry := ndNext (csHeap s ! a)\<rparr>, s) \<in> progress m hist"
proof -
  let ?S = "set (call_ids hist (csCalls s))"
  have sc: "scanned m hist ?S (csState s) (Some a)" using inv e by (simp add: search_inv_def)
  obtain pre suf where al: "alive hist ?S = pre @ a # suf" using sc by (rule scanned_SomeE) blast
  have nx: "ndNext (csHeap s ! a) = first suf None"
    using linked_next [of "csHeap s" "length hist # pre" a suf] search_heap(1) [OF inv wf h0] al by simp
  have d: "distinct (pre @ a # suf)" by (metis al alive_distinct)
  have "dropWhile (\<lambda>x. Some x \<noteq> csEntry s) (alive hist ?S) = a # suf"
    using dropWhile_entry [of pre "a # suf"] d al e by simp
  moreover have "dropWhile (\<lambda>x. Some x \<noteq> first suf None) (alive hist ?S) = suf"
    using dropWhile_entry [of "pre @ [a]" suf] d al by simp
  ultimately show ?thesis
    using inv scanned_advance [OF sc k ref al] nx by (simp add: search_inv_def progress_def rank_def)
qed

section \<open>The cache\<close>

lemma cache_scan_eq:
  "mEqual m = Some eq \<Longrightarrow> cache_scan m els lin st = Some (\<exists>t. (lin, t) \<in> set els \<and> eq st t)"
  by (induction els) auto

lemma cached_update:
  "cached (cache(k := cache k @ [(b, t)])) = insert (bits_of b, Some t) (cached cache)"
  unfolding cached_def by (auto split: if_splits) (metis fun_upd_def in_set_conv_decomp Un_iff set_append)+

lemma on_stack_push:
  assumes "on_stack hist calls st B t"
  shows "on_stack hist (calls @ [(a, st)]) st' B t"
proof -
  obtain k where k: "k \<le> length calls" "B = nat ` set (take k (call_ids hist calls))" "t = (map snd calls @ [st]) ! k"
    using assms unfolding on_stack_def by blast
  then show ?thesis unfolding on_stack_def by (intro exI [of _ k]) (auto simp: nth_append)
qed

lemma on_stack_pop:
  assumes "on_stack hist (calls @ [(a, st)]) st' B t"
  shows "on_stack hist calls st B t \<or> B = nat ` set (call_ids hist (calls @ [(a, st)])) \<and> t = st'"
proof -
  obtain k where k: "k \<le> length (calls @ [(a, st)])" "B = nat ` set (take k (call_ids hist (calls @ [(a, st)])))"
      "t = (map snd (calls @ [(a, st)]) @ [st']) ! k"
    using assms unfolding on_stack_def by blast
  show ?thesis
  proof (cases "k \<le> length calls")
    case True
    then show ?thesis using k unfolding on_stack_def by (intro disjI1 exI [of _ k]) (auto simp: nth_append)
  next
    case False
    then have "k = length calls + 1" using k(1) by simp
    then show ?thesis using k by (simp add: nth_append)
  qed
qed

lemma cache_hit_refutes:
  assumes ck: "checkable m hist" and c: "cache_ok m hist calls st cache" and st: "stack_ok m hist calls st"
    and i: "i \<in> op_ids hist" "i \<notin> set (call_ids hist calls)"
    and b: "bits_of b = insert (nat i) (nat ` set (call_ids hist calls))"
    and hit: "(b, t) \<in> set (cache k)" and eq: "mEqual m = Some eq" "eq st' t"
  shows "dead m hist (insert i (set (call_ids hist calls))) st'"
proof -
  have wf: "wf_history hist" using ck by (simp add: checkable_def)
  note ids = stack_ids [OF st wf]
  have pos: "0 \<le> j" if "j \<in> insert i (set (call_ids hist calls))" for j using ids i(1) that by (auto simp: op_ids_def)
  have "\<not> on_stack hist calls st (bits_of b) t"
  proof
    assume "on_stack hist calls st (bits_of b) t"
    then obtain k where "bits_of b = nat ` set (take k (call_ids hist calls))" unfolding on_stack_def by blast
    then have "nat i \<in> nat ` set (take k (call_ids hist calls))" using b by (metis insertI1)
    then have "nat i \<in> nat ` set (call_ids hist calls)" by (meson image_mono set_take_subset subsetD)
    then obtain j where "j \<in> set (call_ids hist calls)" "nat i = nat j" by blast
    then show False using i(2) pos by (metis insertI1 insertI2 nat_eq_iff2 eq_nat_nat_iff)
  qed
  then have d: "dead m hist (int ` bits_of b) t" using c hit unfolding cache_ok_def by blast
  have "int ` bits_of b = insert i (set (call_ids hist calls))"
    using b int_nat_ids [of "insert i (set (call_ids hist calls))" hist] ids i(1) by simp
  then show ?thesis
    using dead_equal [of m eq st' t hist] d eq ck by (auto simp: checkable_def equal_ok_def)
qed

section \<open>The branch for a call\<close>

lemma stack_reach:
  assumes "stack_ok m hist calls st" "wf_history hist"
  shows "(nat ` set (call_ids hist calls), Some st) \<in> reach m hist"
  unfolding reach_def
  by (rule image_eqI [where x = "call_ids hist calls"]) (use stack_runs [OF assms(1)] stack_ids [OF assms] in auto)

lemma search_push:
  assumes inv: "search_inv m hist h0 s" and wf: "wf_history hist" and h0: "history_heap hist h0"
    and e: "csEntry s = Some a" and k: "enKind (ev hist a) = callEntry" and i: "i = enId (ev hist a)"
    and st: "mStep m (csState s) (value_of hist callEntry i) (value_of hist returnEntry i) = Some (True, st')"
    and lin: "fits (ops_count hist) lin" "bits_of lin = insert (nat i) (bits_of (csLinearized s))"
    and miss: "(bits_of lin, Some st') \<notin> cached (csCache s)"
  shows "\<exists>h'. lift (csHeap s) (Some a) = Some h' \<and> length hist < length h' \<and>
    (\<forall>s'. s' = s\<lparr>csHeap := h', csEntry := ndNext (h' ! length hist), csLinearized := lin,
        csCache := (csCache s)(bitset_hash lin := csCache s (bitset_hash lin) @ [(lin, st')]),
        csCalls := csCalls s @ [(a, csState s)], csState := st'\<rparr> \<longrightarrow>
      search_inv m hist h0 s' \<and> (s', s) \<in> progress m hist)"
proof -
  let ?calls = "csCalls s @ [(a, csState s)]"
  let ?cache = "(csCache s)(bitset_hash lin := csCache s (bitset_hash lin) @ [(lin, st')])"
  note parts = inv [unfolded search_inv_def]
  have sc: "scanned m hist (set (call_ids hist (csCalls s))) (csState s) (Some a)" using parts e by simp
  have stk: "stack_ok m hist ?calls st'" using stack_push [OF _ sc k i st] parts by simp
  have ids: "set (call_ids hist ?calls) = insert i (set (call_ids hist (csCalls s)))" using i by auto
  note h = search_heap [OF inv wf h0]
  obtain h' where h': "lift (csHeap s) (Some a) = Some h'" "same_payload (csHeap s) h'"
      "linked h' (length hist # alive hist (set (call_ids hist ?calls)))"
    using lift_step [OF wf h0 h(2,1) sc k] ids i by auto
  have nx: "ndNext (h' ! length hist) = first (alive hist (set (call_ids hist ?calls))) None"
    using linked_next [of h' "[]"] h'(3) by simp
  have bits: "bits_of lin = nat ` set (call_ids hist ?calls)" using lin(2) parts ids by auto
  have new: "(bits_of lin, Some st') \<in> reach m hist" using stack_reach [OF stk wf] bits by simp
  have on: "on_stack hist ?calls st' (bits_of lin) st'"
    unfolding on_stack_def by (rule exI [of _ "length ?calls"]) (simp add: bits nth_append)
  have cok: "cache_ok m hist ?calls st' ?cache"
    unfolding cache_ok_def
  proof (intro conjI allI impI)
    show "cached ?cache \<subseteq> reach m hist" using parts new by (auto simp: cached_update cache_ok_def)
    fix k b t assume "(b, t) \<in> set (?cache k)"
    then consider "(b, t) \<in> set (csCache s k)" | "k = bitset_hash lin" "b = lin" "t = st'"
      by (auto split: if_splits)
    then show "k = bitset_hash b" "fits (ops_count hist) b" "dead m hist (int ` bits_of b) t \<or> on_stack hist ?calls st' (bits_of b) t"
      using parts on lin(1) on_stack_push [of hist "csCalls s" "csState s" "bits_of b" t a st']
      by (cases; force simp: cache_ok_def)+
  qed
  have "card (reach m hist - cached ?cache) < card (reach m hist - cached (csCache s))"
    using new miss by (intro psubset_card_mono) (auto simp: cached_update finite_reach)
  then show ?thesis
    using h' nx stk sc parts lin bits cok scanned_start [of m hist "set (call_ids hist ?calls)" st'] same_payload_length [OF h'(2)] h(3)
    by (intro exI [of _ h']) (simp add: search_inv_def lifts_snoc progress_def rank_def)
qed

lemma try_call_step:
  assumes ck: "checkable m hist" and h0: "history_heap hist h0" and inv: "search_inv m hist h0 s"
    and e: "csEntry s = Some a" and k: "enKind (ev hist a) = callEntry"
  shows "\<exists>s'. try_call m (length hist) s a (csHeap s ! a) = Some s' \<and> search_inv m hist h0 s' \<and> (s', s) \<in> progress m hist"
proof -
  define i where "i = enId (ev hist a)"
  let ?S = "set (call_ids hist (csCalls s))"
  have wf: "wf_history hist" using ck by (simp add: checkable_def)
  note parts = inv [unfolded search_inv_def]
  have sc: "scanned m hist ?S (csState s) (Some a)" using parts e by simp
  have a: "a < length hist" "i \<notin> ?S" using scanned_mem [OF sc] by (auto simp: i_def)
  have io: "i \<in> op_ids hist" using ev_id [OF wf a(1)] by (simp add: i_def)
  obtain r where r: "r < length hist" "enKind (ev hist r) = returnEntry" "enId (ev hist r) = i"
    using wf_all_present [OF wf io] by blast
  note nd = search_node [OF inv wf h0 a(1)] and ndr = search_node(2) [OF inv wf h0 r(1)] and u = to_uint_id [OF wf io]
  have vals: "enValue (ev hist a) = value_of hist callEntry i" "enValue (ev hist r) = value_of hist returnEntry i"
    using value_of_ev [OF wf a(1)] value_of_ev [OF wf r(1)] k r by (simp_all add: i_def)
  have rl: "r < length (csHeap s)" using r(1) search_heap(3) [OF inv wf h0] by simp
  obtain ok st' where st: "mStep m (csState s) (value_of hist callEntry i) (value_of hist returnEntry i) = Some (ok, st')"
    using ck io by (force simp: checkable_def steps_total_def)
  obtain lin where lin: "bitset_set (csLinearized s) (nat i) = Some lin" "fits (ops_count hist) lin"
      "bits_of lin = insert (nat i) (bits_of (csLinearized s))"
    using bits.ins_spec [of "ops_count hist" "csLinearized s", OF _ u(2)] parts by auto
  obtain eq where eq: "mEqual m = Some eq" "\<And>s. eq s s" using ck by (auto simp: checkable_def equal_ok_def)
  have ref: "refuted m hist ?S (csState s) a" if hit: "ok \<Longrightarrow> \<exists>t. (lin, t) \<in> set (csCache s (bitset_hash lin)) \<and> eq st' t"
    unfolding refuted_def Let_def i_def [symmetric]
  proof (intro allI impI)
    fix s1 assume "mStep m (csState s) (value_of hist callEntry i) (value_of hist returnEntry i) = Some (True, s1)"
    then have s1: "ok" "s1 = st'" using st by auto
    then obtain t where t: "(lin, t) \<in> set (csCache s (bitset_hash lin))" "eq s1 t" using hit by blast
    have "bits_of lin = insert (nat i) (nat ` ?S)" using lin(3) parts by simp
    then show "dead m hist (insert i ?S) s1"
      using cache_hit_refutes [OF ck _ _ io a(2) _ _ eq(1) t(2), of "csState s" "csCache s" lin "bitset_hash lin"]
        t(1) parts by simp
  qed
  note skip = search_skip [OF inv wf h0 e k ref]
  have pre: "deref (csHeap s) (ndMatch (csHeap s ! a)) = Some (csHeap s ! r)" using nd(4) k r rl i_def by simp
  show ?thesis
  proof (cases "ok \<and> \<not> (\<exists>t. (lin, t) \<in> set (csCache s (bitset_hash lin)) \<and> eq st' t)")
    case True
    have "(bits_of lin, Some st') \<notin> cached (csCache s)"
    proof
      assume "(bits_of lin, Some st') \<in> cached (csCache s)"
      then obtain q b where b: "(b, st') \<in> set (csCache s q)" "bits_of b = bits_of lin" by (auto simp: cached_def)
      then have "q = bitset_hash b" "b = lin" using parts lin(2) bits_of_inj [of b lin]
        by (auto simp: cache_ok_def fits_def)
      then show False using True b(1) eq(2) by blast
    qed
    then obtain h' where h': "lift (csHeap s) (Some a) = Some h'" "length hist < length h'"
      and s': "\<And>s'. s' = s\<lparr>csHeap := h', csEntry := ndNext (h' ! length hist), csLinearized := lin,
        csCache := (csCache s)(bitset_hash lin := csCache s (bitset_hash lin) @ [(lin, st')]),
        csCalls := csCalls s @ [(a, csState s)], csState := st'\<rparr> \<Longrightarrow> search_inv m hist h0 s' \<and> (s', s) \<in> progress m hist"
      using search_push [OF inv wf h0 e k i_def _ lin(2,3), of st'] st True by auto
    have cc: "cacheContains m (csCache s) (lin, st') = Some False"
      using True by (simp add: cacheContains_def cache_scan_eq [OF eq(1)])
    show ?thesis
      using True pre nd(1,2) ndr vals st lin(1) u(1) h' s' [OF refl] cc
      by (simp add: try_call_def Let_def i_def)
  next
    case False
    have "try_call m (length hist) s a (csHeap s ! a) = Some (s\<lparr>csEntry := ndNext (csHeap s ! a)\<rparr>)"
      using False pre nd(1,2) ndr vals st lin(1) u(1)
      by (auto simp: try_call_def Let_def i_def cacheContains_def cache_scan_eq [OF eq(1)])
    then show ?thesis using skip False by auto
  qed
qed

section \<open>The branch for a return\<close>

lemma ids_of_calls_eq:
  assumes "\<forall>c \<in> set calls. fst c < length h \<and> ndId (h ! fst c) = enId (ev hist (fst c))"
  shows "ids_of_calls h calls = Some (call_ids hist calls)"
  using assms by (induction calls) auto

lemma stack_bound: "stack_ok m hist calls st \<Longrightarrow> c \<in> set calls \<Longrightarrow> fst c < length hist"
  by (induction rule: stack_ok.induct) (auto dest: scanned_mem)

lemma search_ids:
  assumes "search_inv m hist h0 s" "wf_history hist" "history_heap hist h0"
  shows "ids_of_calls (csHeap s) (csCalls s) = Some (call_ids hist (csCalls s))"
proof (rule ids_of_calls_eq, intro ballI conjI)
  fix c assume "c \<in> set (csCalls s)"
  then have c: "fst c < length hist" using assms(1) stack_bound [of m hist "csCalls s" "csState s" c]
    by (simp add: search_inv_def)
  then show "fst c < length (csHeap s)" using search_heap(3) [OF assms] by simp
  show "ndId (csHeap s ! fst c) = enId (ev hist (fst c))" by (rule search_node(1) [OF assms c])
qed

lemma longest_loop_ok:
  assumes "partial_linearization m hist seq" "longest_ok m hist longest" "set is \<subseteq> op_ids hist"
  shows "\<exists>l. longest_loop k seq is longest = Some l \<and> longest_ok m hist l"
  using assms(2,3)
proof (induction "is" arbitrary: longest)
  case (Cons i "is")
  have i: "0 \<le> i" "i < int (length longest)" using Cons.prems by (auto simp: longest_ok_def op_ids_def)
  have "longest_ok m hist (longest[nat i := Some (k, seq)])"
    using Cons.prems(1) assms(1) by (auto simp: longest_ok_def dest!: set_update_subset_insert [THEN subsetD])
  then show ?case
    using Cons.IH [of longest] Cons.IH [of "longest[nat i := Some (k, seq)]"] Cons.prems i
    by (auto simp: nth_int_in_range update_int_def)
qed simp

lemma dead_start: "dead m hist {} (mInit m) \<longleftrightarrow> \<not> linearizable m hist"
  by (simp add: dead_def completes_def linearizable_def linearization_def)

lemma nat_image_diff:
  assumes "insert i S \<subseteq> op_ids hist" "i \<notin> S"
  shows "nat ` insert i S - {nat i} = nat ` S"
proof -
  have "nat j \<noteq> nat i" if "j \<in> S" for j using that assms by (auto simp: op_ids_def eq_nat_nat_iff)
  then show ?thesis by auto
qed

lemma stack_nil: "stack_ok m hist [] st \<Longrightarrow> st = mInit m"
  by (cases rule: stack_ok.cases) auto

lemma search_pop:
  assumes inv: "search_inv m hist h0 s" and wf: "wf_history hist" and h0: "history_heap hist h0"
    and dd: "dead m hist (set (call_ids hist (csCalls s))) (csState s)"
    and calls: "csCalls s = cs @ [(c, st)]" and l: "longest_ok m hist l"
  shows "\<exists>g lin. unlift (csHeap s) (Some c) = Some g \<and> c < length g \<and>
     bitset_clear (csLinearized s) (to_uint (enId (ev hist c))) = Some lin \<and>
     (\<forall>s'. s' = s\<lparr>csHeap := g, csEntry := ndNext (g ! c), csLinearized := lin, csCalls := cs, csLongest := l, csState := st\<rparr> \<longrightarrow>
        search_inv m hist h0 s' \<and> (s', s) \<in> progress m hist)"
proof -
  note parts = inv [unfolded search_inv_def]
  define i where "i = enId (ev hist c)"
  have stk: "stack_ok m hist cs st" and sc: "scanned m hist (set (call_ids hist cs)) st (Some c)"
    and k: "enKind (ev hist c) = callEntry"
    and step: "mStep m st (value_of hist callEntry i) (value_of hist returnEntry i) = Some (True, csState s)"
    using parts calls stack_popE [of m hist cs "(c, st)" "csState s"] by (auto simp: i_def)
  have c: "c < length hist" "i \<notin> set (call_ids hist cs)" using scanned_mem [OF sc] by (auto simp: i_def)
  have io: "i \<in> op_ids hist" using ev_id [OF wf c(1)] by (simp add: i_def)
  note u = to_uint_id [OF wf io] and ids = stack_ids [OF stk wf]
  have S: "set (call_ids hist (csCalls s)) = insert i (set (call_ids hist cs))" using calls by (auto simp: i_def)
  obtain g where g: "lifts h0 (map fst cs) = Some g" "lift g (Some c) = Some (csHeap s)"
    using parts calls by (auto simp: lifts_snoc)
  have gl: "linked g (length hist # alive hist (set (call_ids hist cs)))" "same_payload h0 g"
    using lifts_linked [OF stk wf h0 g(1)] by auto
  have un: "unlift (csHeap s) (Some c) = Some g"
    using lift_step [OF wf h0 gl(2,1) sc k] g(2) by auto
  have cg: "c < length g" using linked_bound [OF gl(1), of "length hist"] c(1) by simp
  obtain lin where lin: "bitset_clear (csLinearized s) (nat i) = Some lin" "fits (ops_count hist) lin"
      "bits_of lin = bits_of (csLinearized s) - {nat i}"
    using bits.del_spec [of "ops_count hist" "csLinearized s", OF _ u(2)] parts by auto
  have bl: "bits_of lin = nat ` set (call_ids hist cs)"
    using lin(3) parts S nat_image_diff [of i "set (call_ids hist cs)" hist] ids io c(2) by simp
  have ref: "refuted m hist (set (call_ids hist cs)) st c"
    using dd step S by (simp add: refuted_def i_def)
  have cok: "cache_ok m hist cs st (csCache s)"
    unfolding cache_ok_def
  proof (intro conjI allI impI)
    show "cached (csCache s) \<subseteq> reach m hist" using parts by (simp add: cache_ok_def)
    fix q b t assume b: "(b, t) \<in> set (csCache s q)"
    show "q = bitset_hash b" "fits (ops_count hist) b" using parts b by (auto simp: cache_ok_def)
    have "int ` nat ` set (call_ids hist (csCalls s)) = set (call_ids hist (csCalls s))"
      using int_nat_ids [of "set (call_ids hist (csCalls s))" hist] ids io S by simp
    moreover have "dead m hist (int ` bits_of b) t \<or> on_stack hist (cs @ [(c, st)]) (csState s) (bits_of b) t"
      using parts b calls by (auto simp: cache_ok_def)
    ultimately show "dead m hist (int ` bits_of b) t \<or> on_stack hist cs st (bits_of b) t"
      using on_stack_pop [of hist cs c st "csState s" "bits_of b" t] dd calls by auto
  qed
  let ?s = "s\<lparr>csHeap := g, csEntry := Some c, csLinearized := lin, csCalls := cs, csLongest := l, csState := st\<rparr>"
  have "search_inv m hist h0 ?s" using stk g(1) sc lin(2) bl cok l by (simp add: search_inv_def)
  from search_skip [OF this wf h0, of c] k ref have "search_inv m hist h0 (?s\<lparr>csEntry := ndNext (g ! c)\<rparr>)" by simp
  moreover have "?s\<lparr>csEntry := ndNext (g ! c)\<rparr> = s\<lparr>csHeap := g, csEntry := ndNext (g ! c), csLinearized := lin,
      csCalls := cs, csLongest := l, csState := st\<rparr>" by (cases s) simp
  ultimately show ?thesis
    using un cg lin(1) u(1) calls by (simp add: i_def progress_def rank_def)
qed

lemma backtrack_step:
  assumes ck: "checkable m hist" and h0: "history_heap hist h0" and inv: "search_inv m hist h0 s"
    and e: "csEntry s = Some a" and k: "enKind (ev hist a) = returnEntry"
  shows "backtrack cp s = Some (Returned False (csLongest s)) \<and> \<not> linearizable m hist \<or>
    (\<exists>s'. backtrack cp s = Some (Running s') \<and> search_inv m hist h0 s' \<and> (s', s) \<in> progress m hist)"
proof -
  have wf: "wf_history hist" using ck by (simp add: checkable_def)
  note parts = inv [unfolded search_inv_def]
  have stk: "stack_ok m hist (csCalls s) (csState s)" using parts by simp
  note ids = stack_ids [OF stk wf]
  have dd: "dead m hist (set (call_ids hist (csCalls s))) (csState s)"
    using scanned_return_dead [OF wf _ _ k, of "set (call_ids hist (csCalls s))" m "csState s"] ids parts e by simp
  show ?thesis
  proof (cases "csCalls s" rule: rev_cases)
    case Nil
    then show ?thesis using dd stack_nil [of m hist "csState s"] stk dead_start [of m hist] by (simp add: backtrack_def)
  next
    case (snoc cs d)
    obtain c st where d: "d = (c, st)" by fastforce
    have c: "c < length hist" using stack_bound [OF stk, of d] snoc d by simp
    define lo where "lo = (if cp then longest_loop (csIter s) (call_ids hist (csCalls s)) (call_ids hist (csCalls s)) (csLongest s)
      else Some (csLongest s))"
    obtain l where l: "lo = Some l" "longest_ok m hist l"
      using longest_loop_ok [OF stack_partial [OF stk wf], of "csLongest s" "call_ids hist (csCalls s)" "csIter s"] ids parts
      by (cases cp) (auto simp: lo_def)
    obtain g lin where g: "unlift (csHeap s) (Some c) = Some g" "c < length g"
        "bitset_clear (csLinearized s) (to_uint (enId (ev hist c))) = Some lin"
      and s': "\<And>s'. s' = s\<lparr>csHeap := g, csEntry := ndNext (g ! c), csLinearized := lin, csCalls := cs, csLongest := l, csState := st\<rparr> \<Longrightarrow>
        search_inv m hist h0 s' \<and> (s', s) \<in> progress m hist"
      using search_pop [OF inv wf h0 dd, of cs c st l] snoc d l(2) by auto
    have lo: "(if cp then do { seq \<leftarrow> ids_of_calls (csHeap s) (csCalls s); longest_loop (csIter s) seq seq (csLongest s) }
       else Some (csLongest s)) = Some l" using l(1) search_ids [OF inv wf h0] by (cases cp) (simp_all add: lo_def)
    have "backtrack cp s = Some (Running (s\<lparr>csHeap := g, csEntry := ndNext (g ! c), csLinearized := lin, csCalls := cs, csLongest := l, csState := st\<rparr>))"
      unfolding backtrack_def lo
      using g c snoc d search_node(1) [OF inv wf h0 c] search_heap(3) [OF inv wf h0] by simp
    then show ?thesis using s' by blast
  qed
qed

section \<open>The loop\<close>

fun loop_inv :: "('v, 's) Model \<Rightarrow> 'v entry list \<Rightarrow> (nat \<Rightarrow> int) \<Rightarrow> 'v heap \<Rightarrow> ('v, 's) loop option \<Rightarrow> bool" where
  "loop_inv m hist kill h0 None = False"
| "loop_inv m hist kill h0 (Some (Running s)) = search_inv m hist h0 s"
| "loop_inv m hist kill h0 (Some (Returned b longest)) =
     (\<not> b \<and> longest_ok m hist longest \<and> ((\<forall>k. kill k = 0) \<longrightarrow> \<not> linearizable m hist))"

fun loop_rank :: "('v, 's) Model \<Rightarrow> 'v entry list \<Rightarrow> ('v, 's) loop option \<Rightarrow> nat \<times> nat \<times> nat \<times> nat" where
  "loop_rank m hist (Some (Running s)) = (1, rank m hist s)"
| "loop_rank m hist l = (0, 0, 0, 0)"

lemma search_entry:
  assumes inv: "search_inv m hist h0 s" and wf: "wf_history hist" and h0: "history_heap hist h0"
    and more: "check_more (length hist) (Some (Running s))"
  obtains a where "csEntry s = Some a" "a < length hist"
proof (cases "csEntry s")
  case None
  let ?S = "set (call_ids hist (csCalls s))"
  obtain pre suf where al: "alive hist ?S = pre @ suf" "first suf None = None"
      and c: "\<forall>b \<in> set pre. enKind (ev hist b) = callEntry"
    using inv None unfolding search_inv_def scanned_def by auto
  then have "suf = []" by (cases suf) auto
  moreover have "alive hist ?S \<noteq> []"
    using more linked_next [of "csHeap s" "[]"] search_heap(1) [OF inv wf h0] by (cases "alive hist ?S") auto
  ultimately show thesis
    using alive_last_return [OF wf, of "hd (alive hist ?S)" ?S] c al(1) by (auto dest: hd_in_set)
next
  case (Some a)
  then have "a < length hist"
    using inv scanned_mem [of m hist "set (call_ids hist (csCalls s))" "csState s" a] by (simp add: search_inv_def)
  then show thesis using that Some by blast
qed

lemma loop_step:
  assumes ck: "checkable m hist" and h0: "history_heap hist h0"
    and inv: "loop_inv m hist kill h0 l" and more: "check_more (length hist) l"
  shows "loop_inv m hist kill h0 (check_body m cp kill (length hist) l) \<and>
    (loop_rank m hist (check_body m cp kill (length hist) l), loop_rank m hist l)
      \<in> less_than <*lex*> less_than <*lex*> less_than <*lex*> less_than"
proof -
  obtain s where l: "l = Some (Running s)" using more by (cases "(length hist, l)" rule: check_more.cases) auto
  have wf: "wf_history hist" using ck by (simp add: checkable_def)
  have si: "search_inv m hist h0 s" using inv l by simp
  show ?thesis
  proof (cases "kill (csIter s) = 0")
    case False
    then have "\<exists>k. kill k \<noteq> 0" by blast
    then show ?thesis using l False si by (auto simp: check_iter_def search_inv_def)
  next
    case True
    obtain a where a: "csEntry s = Some a" "a < length hist" by (rule search_entry [OF si wf h0]) (use more l in auto)
    let ?s = "s\<lparr>csIter := csIter s + 1\<rparr>"
    have inv': "search_inv m hist h0 ?s" "csEntry ?s = Some a" using si a(1) by simp_all
    have len: "a < length (csHeap s)" using a(2) search_heap(3) [OF si wf h0] by simp
    show ?thesis
    proof (cases "enKind (ev hist a)")
      case callEntry
      obtain r where "r < length hist" "enKind (ev hist r) = returnEntry" "enId (ev hist r) = enId (ev hist a)"
        using wf_all_present [OF wf ev_id [OF wf a(2)]] by blast
      then have "ndMatch (csHeap s ! a) \<noteq> None" using search_node(4) [OF si wf h0 a(2) callEntry] by simp
      then show ?thesis
        using try_call_step [OF ck h0 inv' callEntry] True l a len by (auto simp: check_iter_def Let_def progress_def)
    next
      case returnEntry
      then have "ndMatch (csHeap s ! a) = None" using search_node(3) [OF si wf h0 a(2)] by simp
      moreover have "longest_ok m hist (csLongest s)" using si by (simp add: search_inv_def)
      ultimately show ?thesis
        using backtrack_step [OF ck h0 inv' returnEntry, of cp] True l a len by (auto simp: check_iter_def Let_def progress_def)
    qed
  qed
qed

lemma checkSingle_start:
  assumes "checkable m hist"
  obtains h0 s where "checkSingle_init m hist = Some (ops_count hist, length hist, s)" "history_heap hist h0" "search_inv m hist h0 s"
proof -
  have wf: "wf_history hist" using assms by (simp add: checkable_def)
  obtain h where h: "checkSingle_init m hist = Some (length hist div 2, length hist,
      \<lparr>csHeap = h, csEntry = first (rev [0..<length hist]) None, csLinearized = newBitset (length hist div 2),
       csCache = (\<lambda>_. []), csCalls = [], csLongest = replicate (length hist div 2) None, csState = mInit m, csIter = 0\<rparr>)"
     "linked h (length hist # rev [0..<length hist])" "map payload h = payloads (rev hist) 0 Map.empty @ [(None, None, -1)]"
    using checkSingle_init_linked by blast
  show thesis
  proof (rule that)
    show "history_heap hist h" by (rule history_heap_init [OF wf h(2,3)])
    show "search_inv m hist h \<lparr>csHeap = h, csEntry = first (rev [0..<length hist]) None, csLinearized = newBitset (length hist div 2),
       csCache = (\<lambda>_. []), csCalls = [], csLongest = replicate (length hist div 2) None, csState = mInit m, csIter = 0\<rparr>"
      using scanned_start [of m hist "{}" "mInit m"]
      by (simp add: search_inv_def stack_start ops_count_def cache_ok_def cached_def longest_ok_def)
  qed (use h(1) in \<open>simp add: ops_count_def\<close>)
qed

lemma checkSingle_total:
  assumes ck: "checkable m hist"
  shows "\<exists>b longest. checkSingle m hist cp kill = Some (b, longest) \<and> (b \<longrightarrow> linearizable m hist) \<and>
    ((\<forall>k. kill k = 0) \<longrightarrow> b = linearizable m hist) \<and> longest_ok m hist longest"
proof -
  obtain h0 s where s: "checkSingle_init m hist = Some (ops_count hist, length hist, s)"
      and h0: "history_heap hist h0" and inv: "search_inv m hist h0 s"
    using checkSingle_start [OF ck] by blast
  have wf: "wf_history hist" using ck by (simp add: checkable_def)
  let ?b = "check_more (length hist)" and ?c = "check_body m cp kill (length hist)" and ?P = "loop_inv m hist kill h0"
  have "wf {(t, l). (?P l \<and> ?b l) \<and> t = ?c l}"
    by (rule wf_subset [OF wf_inv_image [of "less_than <*lex*> less_than <*lex*> less_than <*lex*> less_than" "loop_rank m hist"]])
      (use loop_step [OF ck h0] in auto)
  then obtain t where t: "while_option ?b ?c (Some (Running s)) = Some t"
    using wf_while_option_Some [of ?P ?b ?c "Some (Running s)"] loop_step [OF ck h0] inv by auto
  have P: "?P t" by (rule while_option_rule [where P = ?P, OF _ t]) (use loop_step [OF ck h0] inv in auto)
  have nb: "\<not> ?b t" by (rule while_option_stop [OF t])
  show ?thesis
  proof (cases "(m, hist, kill, h0, t)" rule: loop_inv.cases)
    case (2 _ _ _ _ u)
    then have u: "search_inv m hist h0 u" and tu: "t = Some (Running u)" using P by auto
    have stk: "stack_ok m hist (csCalls u) (csState u)" using u by (simp add: search_inv_def)
    have "alive hist (set (call_ids hist (csCalls u))) = []"
      using nb tu linked_next [of "csHeap u" "[]"] search_heap [OF u wf h0]
      by (cases "alive hist (set (call_ids hist (csCalls u)))") auto
    then have "linearizable m hist" using stack_complete [OF stk wf] by (auto simp: linearizable_def)
    moreover have "longest_ok m hist (replicate (ops_count hist) (Some (csIter u, call_ids hist (csCalls u))))"
      using stack_partial [OF stk wf] by (auto simp: longest_ok_def)
    ultimately show ?thesis using s t tu search_ids [OF u wf h0] by (auto simp: checkSingle_def)
  next
    case (3 _ _ _ _ b longest)
    then show ?thesis using P s t by (auto simp: checkSingle_def)
  qed (use P in auto)
qed

end
