(* ===== verification/KvModel.thy ===== *)
theory KvModel
  imports Checker "HOL-Library.List_Lexorder" "HOL-Library.Char_ord"
begin

text \<open>
  The sequential specification of the key/value service that the tests give to the checker,
  \<^verbatim>\<open>models/kv.go\<close>. A value of a history is a \<^verbatim>\<open>KvInput\<close> or a \<^verbatim>\<open>KvOutput\<close>; a type assertion on the
  other of the two panics.
\<close>

record KvInput =
  kiOp :: "8 word"
  kiKey :: string
  kiValue :: string

record KvOutput =
  koValue :: string

datatype kvval = KvIn KvInput | KvOut KvOutput

fun as_input :: "kvval \<Rightarrow> KvInput option" where
  "as_input (KvIn inp) = Some inp"
| "as_input (KvOut out) = None"

fun as_output :: "kvval \<Rightarrow> KvOutput option" where
  "as_output (KvOut out) = Some out"
| "as_output (KvIn inp) = None"

text \<open>\<^verbatim>\<open>m[key] = append(m[key], v)\<close>, with the map as the list of its entries.\<close>

fun add_op :: "string \<Rightarrow> 'a \<Rightarrow> (string \<times> 'a list) list \<Rightarrow> (string \<times> 'a list) list" where
  "add_op key v [] = [(key, [v])]"
| "add_op key v ((k, vs) # m) = (if k = key then (k, vs @ [v]) # m else (k, vs) # add_op key v m)"

fun group_ops :: "kvval Operation list \<Rightarrow> (string \<times> kvval Operation list) list \<Rightarrow>
    (string \<times> kvval Operation list) list option" where
  "group_ops [] m = Some m"
| "group_ops (v # history) m = do {
     inp \<leftarrow> as_input (poInput v);
     group_ops history (add_op (kiKey inp) v m)
   }"

text \<open>The keys are distinct, so sorting them does not depend on the order of the \<^verbatim>\<open>range\<close>.\<close>

definition kv_Partition :: "kvval Operation list \<Rightarrow> kvval Operation list list option" where
  "kv_Partition history = do {
     m \<leftarrow> group_ops history [];
     let keys = sort (map fst m);
     Some (map (\<lambda>k. case map_of m k of Some vs \<Rightarrow> vs | None \<Rightarrow> []) keys)
   }"

definition kv_Step :: "string \<Rightarrow> kvval \<Rightarrow> kvval \<Rightarrow> (bool \<times> string) option" where
  "kv_Step st input output = do {
     inp \<leftarrow> as_input input;
     out \<leftarrow> as_output output;
     Some (if kiOp inp = 0 then (koValue out = st, st)
           else if kiOp inp = 1 then (True, kiValue inp)
           else (True, st @ kiValue inp))
   }"

definition kv_DescribeOperation :: "kvval \<Rightarrow> kvval \<Rightarrow> string option" where
  "kv_DescribeOperation input output = do {
     inp \<leftarrow> as_input input;
     out \<leftarrow> as_output output;
     Some (let q = [CHR 0x27] in
       if kiOp inp = 0 then ''get('' @ q @ kiKey inp @ q @ '') -> '' @ q @ koValue out @ q
       else if kiOp inp = 1 then ''put('' @ q @ kiKey inp @ q @ '', '' @ q @ kiValue inp @ q @ '')''
       else if kiOp inp = 2 then ''append('' @ q @ kiKey inp @ q @ '', '' @ q @ kiValue inp @ q @ '')''
       else ''<invalid>'')
   }"

definition KvModel :: "(kvval, string) Model" where
  "KvModel = \<lparr>mPartition = Some kv_Partition, mPartitionEvent = None, mInit = [], mStep = kv_Step,
     mEqual = None, mDescribeOperation = Some kv_DescribeOperation, mDescribeState = None\<rparr>"

end
