(* ===== verification/CheckerProps.thy ===== *)
theory CheckerProps
  imports CheckerLoop KvModel "HOL-Library.Multiset"
begin

text \<open>
  From operations with time stamps to the verdict of the checker: \<open>makeEntries\<close> turns a list of
  operations into a well-formed history in which one operation precedes another exactly if it
  returned at an earlier time than the other was called; the results of the partitions are collected
  in any order; the key/value model splits a history by keys.
\<close>

section \<open>Linearizable operations\<close>

fun ops_run :: "('v, 's) Model \<Rightarrow> 'v Operation list \<Rightarrow> 's \<Rightarrow> nat list \<Rightarrow> 's option" where
  "ops_run m ops st [] = Some st"
| "ops_run m ops st (i # ids) =
     (case mStep m st (poInput (ops ! i)) (poOutput (ops ! i)) of
        Some (True, st') \<Rightarrow> ops_run m ops st' ids
      | _ \<Rightarrow> None)"

text \<open>
  An order of all operations in which none comes before one that had returned when it was called,
  and in which every step is allowed by the model.
\<close>

definition ops_linearizable :: "('v, 's) Model \<Rightarrow> 'v Operation list \<Rightarrow> bool" where
  "ops_linearizable m ops \<longleftrightarrow> (\<exists>ids. distinct ids \<and> set ids = {0..<length ops} \<and>
     sorted_wrt (\<lambda>i j. \<not> poReturn (ops ! j) < poCall (ops ! i)) ids \<and> ops_run m ops (mInit m) ids \<noteq> None)"

text \<open>What \<^verbatim>\<open>sort.Sort\<close> promises.\<close>

definition sorts_by_time :: "('v entry list \<Rightarrow> 'v entry list) \<Rightarrow> bool" where
  "sorts_by_time srt \<longleftrightarrow> (\<forall>es. mset (srt es) = mset es \<and> sorted_wrt (\<lambda>a b. \<not> byTime_Less b a) (srt es))"

definition timely :: "'v Operation list \<Rightarrow> bool" where
  "timely ops \<longleftrightarrow> (\<forall>op \<in> set ops. poCall op \<le> poReturn op) \<and> 2 * int (length ops) < 2 ^ 63"

section \<open>makeEntries\<close>

definition call_of :: "'v Operation list \<Rightarrow> nat \<Rightarrow> 'v entry" where
  "call_of ops k = \<lparr>enKind = callEntry, enValue = poInput (ops ! k), enId = int k, enTime = poCall (ops ! k),
     enClientId = poClientId (ops ! k)\<rparr>"

definition return_of :: "'v Operation list \<Rightarrow> nat \<Rightarrow> 'v entry" where
  "return_of ops k = \<lparr>enKind = returnEntry, enValue = poOutput (ops ! k), enId = int k, enTime = poReturn (ops ! k),
     enClientId = poClientId (ops ! k)\<rparr>"

lemma entries_loop_eq:
  "entries_loop ops i acc = acc @ concat (map (\<lambda>k. [(call_of ops k)\<lparr>enId := i + int k\<rparr>, (return_of ops k)\<lparr>enId := i + int k\<rparr>]) [0..<length ops])"
proof (induction ops arbitrary: i acc)
  case (Cons op ops)
  have "call_of (op # ops) (Suc k) = (call_of ops k)\<lparr>enId := int (Suc k)\<rparr>"
    "return_of (op # ops) (Suc k) = (return_of ops k)\<lparr>enId := int (Suc k)\<rparr>" for k
    by (simp_all add: call_of_def return_of_def)
  then show ?case
    unfolding length_Cons map_upt_Suc
    by (simp add: Cons call_of_def [of _ 0] return_of_def [of _ 0] comp_def algebra_simps)
qed simp

lemma entries_eq: "entries_loop ops 0 [] = concat (map (\<lambda>k. [call_of ops k, return_of ops k]) [0..<length ops])"
proof -
  have "(call_of ops k)\<lparr>enId := int k\<rparr> = call_of ops k" "(return_of ops k)\<lparr>enId := int k\<rparr> = return_of ops k" for k
    by (simp_all add: call_of_def return_of_def)
  then show ?thesis by (simp add: entries_loop_eq)
qed

lemma length_pairs: "length (concat (map (\<lambda>k. [f k, g k]) xs)) = 2 * length xs"
  by (induction xs) auto

lemma distinct_pairs:
  "distinct xs \<Longrightarrow> inj_on f (set xs) \<Longrightarrow> inj_on g (set xs) \<Longrightarrow> (\<forall>x \<in> set xs. \<forall>y \<in> set xs. f x \<noteq> g y) \<Longrightarrow>
   distinct (concat (map (\<lambda>k. [f k, g k]) xs))"
  by (induction xs) (auto simp: inj_on_def)


lemma entries_distinct: "distinct (map (\<lambda>e. (enKind e, enId e)) (entries_loop ops 0 []))"
proof -
  have "map (\<lambda>e. (enKind e, enId e)) (entries_loop ops 0 []) =
      concat (map (\<lambda>k. [(callEntry, int k), (returnEntry, int k)]) [0..<length ops])"
    by (simp add: entries_eq map_concat comp_def call_of_def return_of_def)
  then show ?thesis by (simp add: distinct_pairs inj_on_def)
qed

lemma set_entries: "set (entries_loop ops 0 []) = call_of ops ` {0..<length ops} \<union> return_of ops ` {0..<length ops}"
  by (auto simp: entries_eq)

lemma makeEntries_facts:
  assumes "sorts_by_time srt"
  shows "length (makeEntries srt ops) = 2 * length ops"
    "distinct (map (\<lambda>e. (enKind e, enId e)) (makeEntries srt ops))"
    "set (makeEntries srt ops) = call_of ops ` {0..<length ops} \<union> return_of ops ` {0..<length ops}"
    "sorted_wrt (\<lambda>a b. \<not> byTime_Less b a) (makeEntries srt ops)"
    "ops_count (makeEntries srt ops) = length ops"
proof -
  have m: "mset (makeEntries srt ops) = mset (entries_loop ops 0 [])"
    and s: "sorted_wrt (\<lambda>a b. \<not> byTime_Less b a) (makeEntries srt ops)"
    using assms by (auto simp: sorts_by_time_def makeEntries_def)
  show "sorted_wrt (\<lambda>a b. \<not> byTime_Less b a) (makeEntries srt ops)" by (rule s)
  show l: "length (makeEntries srt ops) = 2 * length ops"
    using mset_eq_length [OF m] length_pairs [of "call_of ops" "return_of ops"] by (simp add: entries_eq)
  show "distinct (map (\<lambda>e. (enKind e, enId e)) (makeEntries srt ops))"
    using m entries_distinct [of ops] by (metis mset_eq_imp_distinct_iff mset_map)
  show "set (makeEntries srt ops) = call_of ops ` {0..<length ops} \<union> return_of ops ` {0..<length ops}"
    using mset_eq_setD [OF m] set_entries by simp
  show "ops_count (makeEntries srt ops) = length ops" using l by (simp add: ops_count_def)
qed

lemma makeEntries_mem:
  assumes "sorts_by_time srt" "e \<in> set (makeEntries srt ops)"
  shows "\<exists>k < length ops. enId e = int k \<and> e = (if enKind e = callEntry then call_of ops k else return_of ops k)"
proof -
  have "e \<in> call_of ops ` {0..<length ops} \<union> return_of ops ` {0..<length ops}"
    using assms makeEntries_facts(3) by metis
  then show ?thesis by (auto simp: call_of_def return_of_def)
qed

lemma makeEntries_wf:
  assumes "sorts_by_time srt" "timely ops"
  shows "wf_history (makeEntries srt ops)"
proof -
  let ?h = "makeEntries srt ops"
  note f = makeEntries_facts [OF assms(1), of ops]
  have "enId (?h ! p) \<noteq> enId (?h ! q)"
    if pq: "q < length ?h" "p < q" "enKind (?h ! p) = returnEntry" "enKind (?h ! q) = callEntry" for p q
  proof
    assume eq: "enId (?h ! p) = enId (?h ! q)"
    have mem: "?h ! p \<in> set ?h" "?h ! q \<in> set ?h" using pq by auto
    obtain k where k: "k < length ops" "?h ! p = return_of ops k" "enId (?h ! p) = int k"
      using makeEntries_mem [OF assms(1) mem(1)] pq(3) by auto
    obtain j where j: "?h ! q = call_of ops j" "enId (?h ! q) = int j"
      using makeEntries_mem [OF assms(1) mem(2)] pq(4) by auto
    have "\<not> byTime_Less (?h ! q) (?h ! p)" using f(4) pq(1,2) by (auto simp: sorted_wrt_iff_nth_less)
    moreover have "poCall (ops ! k) \<le> poReturn (ops ! k)" using assms(2) k(1) by (simp add: timely_def)
    ultimately show False using eq k j by (auto simp: byTime_Less_def call_of_def return_of_def split: if_splits)
  qed
  moreover have "0 \<le> enId e \<and> enId e < int (length ops)" if "e \<in> set ?h" for e
    using makeEntries_mem [OF assms(1) that] by auto
  ultimately show ?thesis
    using f assms(2) unfolding wf_history_def by (auto simp: timely_def)
qed

lemma makeEntries_precedes:
  assumes "sorts_by_time srt" "i < length ops" "j < length ops"
  shows "precedes (makeEntries srt ops) (int i) (int j) \<longleftrightarrow> poReturn (ops ! i) < poCall (ops ! j)"
proof
  let ?h = "makeEntries srt ops"
  note f = makeEntries_facts [OF assms(1), of ops]
  show "poReturn (ops ! i) < poCall (ops ! j)" if pr: "precedes ?h (int i) (int j)"
  proof -
    obtain p q where pq: "q < length ?h" "p < q" "enKind (?h ! p) = returnEntry" "enId (?h ! p) = int i"
      "enKind (?h ! q) = callEntry" "enId (?h ! q) = int j" using pr unfolding precedes_def by blast
    have mem: "?h ! p \<in> set ?h" "?h ! q \<in> set ?h" using pq by auto
    have e: "?h ! p = return_of ops i" "?h ! q = call_of ops j"
      using makeEntries_mem [OF assms(1) mem(1)] makeEntries_mem [OF assms(1) mem(2)] pq(3-6) by auto
    have "\<not> byTime_Less (?h ! q) (?h ! p)" using f(4) pq(1,2) by (auto simp: sorted_wrt_iff_nth_less)
    then show ?thesis using e by (auto simp: byTime_Less_def call_of_def return_of_def split: if_splits)
  qed
  show "precedes ?h (int i) (int j)" if lt: "poReturn (ops ! i) < poCall (ops ! j)"
  proof -
    have "return_of ops i \<in> set ?h" "call_of ops j \<in> set ?h" using f(3) assms(2,3) by auto
    then obtain p q where p: "p < length ?h" "?h ! p = return_of ops i" and q: "q < length ?h" "?h ! q = call_of ops j"
      by (auto simp: in_set_conv_nth)
    have "\<not> byTime_Less (?h ! p) (?h ! q)" if "q < p" using f(4) p(1) that by (simp add: sorted_wrt_iff_nth_less)
    then have "\<not> q < p" using p(2) q(2) lt by (auto simp: byTime_Less_def call_of_def return_of_def)
    moreover have "p \<noteq> q" using p q by (auto simp: call_of_def return_of_def)
    ultimately show ?thesis
      using p q unfolding precedes_def by (intro exI [of _ q] exI [of _ p] conjI) (auto simp: call_of_def return_of_def)
  qed
qed

lemma makeEntries_value:
  assumes "sorts_by_time srt" "k < length ops"
  shows "value_of (makeEntries srt ops) callEntry (int k) = poInput (ops ! k)"
    "value_of (makeEntries srt ops) returnEntry (int k) = poOutput (ops ! k)"
proof -
  let ?h = "makeEntries srt ops"
  have val: "value_of ?h kd (int k) = enValue e" if "e \<in> set ?h" "enKind e = kd" "enId e = int k" for e kd
  proof -
    have "filter (\<lambda>e. enKind e = kd \<and> enId e = int k) ?h \<noteq> []" using that by (auto simp: filter_empty_conv)
    then have "hd (filter (\<lambda>e. enKind e = kd \<and> enId e = int k) ?h) \<in> set (filter (\<lambda>e. enKind e = kd \<and> enId e = int k) ?h)"
      by (rule hd_in_set)
    then have "hd (filter (\<lambda>e. enKind e = kd \<and> enId e = int k) ?h) = e"
      using that makeEntries_facts(2) [OF assms(1), of ops] by (auto simp: distinct_map inj_on_def)
    then show ?thesis by (simp add: value_of_def)
  qed
  show "value_of ?h callEntry (int k) = poInput (ops ! k)"
    using val [of "call_of ops k" callEntry] makeEntries_facts(3) [OF assms(1), of ops] assms(2) by (simp add: call_of_def)
  show "value_of ?h returnEntry (int k) = poOutput (ops ! k)"
    using val [of "return_of ops k" returnEntry] makeEntries_facts(3) [OF assms(1), of ops] assms(2) by (simp add: return_of_def)
qed

lemma makeEntries_runs:
  assumes "sorts_by_time srt" "set ids \<subseteq> {0..<length ops}"
  shows "runs m (makeEntries srt ops) st (map int ids) = ops_run m ops st ids"
  using assms(2)
  by (induction ids arbitrary: st) (auto simp: makeEntries_value [OF assms(1)] split: option.splits bool.splits)

lemma makeEntries_order:
  assumes "sorts_by_time srt" "set ids \<subseteq> {0..<length ops}"
  shows "in_order (makeEntries srt ops) (map int ids) \<longleftrightarrow> sorted_wrt (\<lambda>i j. \<not> poReturn (ops ! j) < poCall (ops ! i)) ids"
  using assms(2)
proof (induction ids)
  case (Cons a ids)
  then have "\<forall>x \<in> set ids. precedes (makeEntries srt ops) (int x) (int a) \<longleftrightarrow> poReturn (ops ! x) < poCall (ops ! a)"
    by (auto simp: makeEntries_precedes [OF assms(1)])
  with Cons show ?case by (simp add: in_order_def)
qed (simp add: in_order_def)

lemma makeEntries_linearizable:
  assumes "sorts_by_time srt"
  shows "linearizable m (makeEntries srt ops) \<longleftrightarrow> ops_linearizable m ops"
proof
  let ?h = "makeEntries srt ops"
  have U: "op_ids ?h = {0..<int (length ops)}" by (simp add: op_ids_def makeEntries_facts(5) [OF assms])
  have range: "{0..<int (length ops)} = int ` {0..<length ops}" by (simp add: image_int_atLeastLessThan)
  have tr: "linearization m ?h (map int ids) \<longleftrightarrow> distinct ids \<and> set ids = {0..<length ops} \<and>
      sorted_wrt (\<lambda>i j. \<not> poReturn (ops ! j) < poCall (ops ! i)) ids \<and> ops_run m ops (mInit m) ids \<noteq> None" for ids
    using makeEntries_runs [OF assms, of ids ops m "mInit m"] makeEntries_order [OF assms, of ids ops]
    by (cases "ops_run m ops (mInit m) ids")
      (auto simp: linearization_def U range distinct_map inj_image_eq_iff [OF inj_of_nat])
  show "ops_linearizable m ops" if lin: "linearizable m ?h"
  proof -
    obtain ids where ids: "linearization m ?h ids" using lin by (auto simp: linearizable_def)
    then have "map int (map nat ids) = ids" by (auto simp: linearization_def U intro!: map_idI)
    then show ?thesis using tr [of "map nat ids"] ids unfolding ops_linearizable_def by metis
  qed
  show "linearizable m ?h" if "ops_linearizable m ops"
    using that tr unfolding ops_linearizable_def linearizable_def by blast
qed

section \<open>Collecting the results\<close>

lemma select_loop_all:
  assumes "cnt + length is = n" "is \<noteq> []"
  shows "\<exists>c. select_loop False n results (map ResultOf is @ rest) cnt True = Some (\<forall>i \<in> set is. results i, False, c)"
  using assms
proof (induction "is" arbitrary: cnt)
  case (Cons i "is")
  then show ?case using Cons.IH [of "cnt + 1"] by (cases "is = []") (auto simp: Let_def)
qed simp

text \<open>Whatever arrives, and also when the time is up, a verdict is backed by the results received.\<close>

lemma select_loop_sound:
  "select_loop ci n results arrivals cnt ok = Some (ok', timedOut, c) \<Longrightarrow>
   (ok' \<longrightarrow> ok \<and> (\<forall>i. ResultOf i \<in> set (take (c - cnt) arrivals) \<longrightarrow> results i)) \<and>
   (\<not> ok' \<longrightarrow> \<not> ok \<or> (\<exists>i. ResultOf i \<in> set arrivals \<and> \<not> results i)) \<and>
   cnt \<le> c \<and> c - cnt \<le> length arrivals \<and> (\<not> timedOut \<and> ok' \<longrightarrow> n \<le> c) \<and>
   (\<forall>a \<in> set (take (c - cnt) arrivals). a \<noteq> TimeUp)"
proof (induction arrivals arbitrary: cnt ok)
  case (Cons a arrivals)
  show ?case
  proof (cases a)
    case (ResultOf i)
    show ?thesis
    proof (cases "(\<not> (ok \<and> results i) \<and> \<not> ci) \<or> cnt + 1 \<ge> n")
      case True
      then show ?thesis using Cons.prems ResultOf by (auto simp: Let_def split: if_splits)
    next
      case False
      then have "select_loop ci n results arrivals (cnt + 1) (ok \<and> results i) = Some (ok', timedOut, c)"
        using Cons.prems ResultOf by (auto simp: Let_def)
      from Cons.IH [OF this] have IH: "(ok' \<longrightarrow> (ok \<and> results i) \<and> (\<forall>i. ResultOf i \<in> set (take (c - (cnt + 1)) arrivals) \<longrightarrow> results i))"
        "(\<not> ok' \<longrightarrow> \<not> (ok \<and> results i) \<or> (\<exists>i. ResultOf i \<in> set arrivals \<and> \<not> results i))"
        "cnt + 1 \<le> c" "c - (cnt + 1) \<le> length arrivals" "\<not> timedOut \<and> ok' \<longrightarrow> n \<le> c"
        "\<forall>a \<in> set (take (c - (cnt + 1)) arrivals). a \<noteq> TimeUp" by blast+
      obtain d where d: "c - cnt = Suc d" "c - (cnt + 1) = d" using IH(3) by (metis Suc_diff_Suc Suc_eq_plus1 Suc_le_lessD)
      show ?thesis using IH d ResultOf by auto
    qed
  next
    case TimeUp
    then show ?thesis using Cons.prems by auto
  qed
qed simp

section \<open>Checking a list of partitions\<close>

definition steps_defined :: "('v, 's) Model \<Rightarrow> 'v Operation list \<Rightarrow> bool" where
  "steps_defined m ops \<longleftrightarrow> (\<forall>op \<in> set ops. \<forall>st. mStep m st (poInput op) (poOutput op) \<noteq> None)"

lemma makeEntries_checkable:
  assumes "sorts_by_time srt" "timely ops" "steps_defined m ops" "equal_ok m"
  shows "checkable m (makeEntries srt ops)"
proof -
  have "mStep m st (value_of (makeEntries srt ops) callEntry i) (value_of (makeEntries srt ops) returnEntry i) \<noteq> None"
    if i: "i \<in> op_ids (makeEntries srt ops)" for st i
  proof -
    obtain k where "i = int k" "k < length ops"
      using i makeEntries_facts(5) [OF assms(1), of ops] by (auto simp: op_ids_def elim!: nonneg_int_cases)
    then show ?thesis using assms(3) makeEntries_value [OF assms(1)] by (simp add: steps_defined_def)
  qed
  then show ?thesis using makeEntries_wf [OF assms(1,2)] assms(4) by (simp add: checkable_def steps_total_def)
qed

lemma runs_of_partitions:
  assumes "\<forall>h \<in> set hs. checkable m h"
  shows "\<exists>rs. those (map (\<lambda>h. checkSingle m h ci (\<lambda>_. 0)) hs) = Some rs \<and> length rs = length hs \<and>
    (\<forall>i < length hs. fst (rs ! i) = linearizable m (hs ! i))"
  using assms
proof (induction hs)
  case (Cons h hs)
  then obtain rs where rs: "those (map (\<lambda>h. checkSingle m h ci (\<lambda>_. 0)) hs) = Some rs" "length rs = length hs"
    "\<forall>i < length hs. fst (rs ! i) = linearizable m (hs ! i)" by auto
  obtain b l where "checkSingle m h ci (\<lambda>_. 0) = Some (b, l)" "b = linearizable m h"
    using checkSingle_total [of m h ci "\<lambda>_. 0"] Cons.prems by auto
  then show ?case using rs by (auto simp: nth_Cons split: nat.splits)
qed simp

lemma fillDefault_simps [simp]:
  "mStep (fillDefault fmtv fmts m) = mStep m" "mInit (fillDefault fmtv fmts m) = mInit m"
  "mEqual (fillDefault fmtv fmts m) = Some (case mEqual m of None \<Rightarrow> ShallowEqual | Some eq \<Rightarrow> eq)"
  "mPartition (fillDefault fmtv fmts m) = Some (case mPartition m of None \<Rightarrow> (\<lambda>h. Some (NoPartition h)) | Some f \<Rightarrow> f)"
  by (auto simp: fillDefault_def Let_def split: option.splits)

lemma fillDefault_equal_ok: "mEqual m = None \<Longrightarrow> equal_ok (fillDefault fmtv fmts m)"
  by (simp add: equal_ok_def ShallowEqual_def)

lemma ops_run_cong: "mStep m = mStep m' \<Longrightarrow> ops_run m ops st ids = ops_run m' ops st ids"
  by (induction ids arbitrary: st) (auto split: option.splits bool.splits)

lemma ops_linearizable_fillDefault [simp]:
  "ops_linearizable (fillDefault fmtv fmts m) ops = ops_linearizable m ops"
  by (simp add: ops_linearizable_def ops_run_cong [of "fillDefault fmtv fmts m" m])

lemma checkOperations_verdict:
  assumes part: "mPartition m = Some f" "f history = Some parts"
    and srt: "sorts_by_time srt" and eq: "equal_ok (fillDefault fmtv fmts m)"
    and ok: "\<forall>p \<in> set parts. timely p \<and> steps_defined m p"
    and arr: "distinct is" "set is = {0..<length parts}" and ne: "parts \<noteq> []"
  shows "CheckOperations fmtv fmts perm srt m history (map ResultOf is) kills = Some (\<forall>p \<in> set parts. ops_linearizable m p)"
proof -
  let ?m = "fillDefault fmtv fmts m" and ?hs = "map (makeEntries srt) parts"
  have "\<forall>h \<in> set ?hs. checkable ?m h"
    using ok makeEntries_checkable [OF srt _ _ eq] by (auto simp: steps_defined_def)
  from runs_of_partitions [OF this, of False] obtain rs where
    rs: "those (map (\<lambda>h. checkSingle ?m h False (\<lambda>_. 0)) ?hs) = Some rs" "length rs = length ?hs"
      "\<forall>i < length ?hs. fst (rs ! i) = linearizable ?m (?hs ! i)" by blast
  have "length is = length parts" using distinct_card [OF arr(1)] arr(2) by simp
  moreover have "is \<noteq> []" using arr(2) ne by auto
  ultimately obtain c where
    c: "select_loop False (length ?hs) (\<lambda>i. fst (rs ! i)) (map ResultOf is) 0 True = Some (\<forall>i \<in> set is. fst (rs ! i), False, c)"
    using select_loop_all [of 0 "is" "length ?hs" "\<lambda>i. fst (rs ! i)" "[]"] by auto
  have "(\<forall>i \<in> set is. fst (rs ! i)) \<longleftrightarrow> (\<forall>p \<in> set parts. ops_linearizable m p)"
    using rs(3) arr(2) by (auto simp: makeEntries_linearizable [OF srt] all_set_conv_all_nth)
  then show ?thesis
    using part rs(1) c by (simp add: CheckOperations_def checkOperations_def checkParallel_def Let_def)
qed

section \<open>The partition of the key/value model\<close>

definition kv_history :: "kvval Operation list \<Rightarrow> bool" where
  "kv_history ops \<longleftrightarrow> (\<forall>op \<in> set ops. (\<exists>inp. poInput op = KvIn inp) \<and> (\<exists>out. poOutput op = KvOut out))"

definition op_key :: "kvval Operation \<Rightarrow> string" where
  "op_key op = (case poInput op of KvIn inp \<Rightarrow> kiKey inp | KvOut _ \<Rightarrow> [])"

definition on_key :: "string \<Rightarrow> kvval Operation list \<Rightarrow> kvval Operation list" where
  "on_key k ops = filter (\<lambda>op. op_key op = k) ops"

lemma fst_add_op: "map fst (add_op k v m) = (if k \<in> fst ` set m then map fst m else map fst m @ [k])"
  by (induction k v m rule: add_op.induct) auto

lemma map_of_add_op:
  "map_of (add_op k v m) j = (if j = k then Some ((case map_of m k of None \<Rightarrow> [] | Some vs \<Rightarrow> vs) @ [v]) else map_of m j)"
  by (induction k v m rule: add_op.induct) auto

lemma distinct_add_op: "distinct (map fst m) \<Longrightarrow> distinct (map fst (add_op k v m))"
  by (auto simp: fst_add_op)

lemma group_ops_eq:
  assumes "kv_history ops" "distinct (map fst m)"
  shows "\<exists>m'. group_ops ops m = Some m' \<and> distinct (map fst m') \<and> fst ` set m' = fst ` set m \<union> op_key ` set ops \<and>
    (\<forall>k. k \<in> fst ` set m' \<longrightarrow> map_of m' k = Some ((case map_of m k of None \<Rightarrow> [] | Some vs \<Rightarrow> vs) @ on_key k ops))"
  using assms
proof (induction ops arbitrary: m)
  case Nil
  then show ?case by (auto simp: on_key_def map_of_eq_None_iff split: option.splits)
next
  case (Cons op ops)
  obtain inp where inp: "poInput op = KvIn inp" using Cons.prems(1) by (auto simp: kv_history_def)
  have k: "kiKey inp = op_key op" by (simp add: op_key_def inp)
  have "fst ` set (add_op (op_key op) op m) = insert (op_key op) (fst ` set m)"
    using arg_cong [OF fst_add_op [of "op_key op" op m], of set] by (auto split: if_splits)
  moreover obtain m' where "group_ops ops (add_op (op_key op) op m) = Some m'" "distinct (map fst m')"
    "fst ` set m' = fst ` set (add_op (op_key op) op m) \<union> op_key ` set ops"
    "\<forall>k. k \<in> fst ` set m' \<longrightarrow> map_of m' k = Some ((case map_of (add_op (op_key op) op m) k of None \<Rightarrow> [] | Some vs \<Rightarrow> vs) @ on_key k ops)"
    using Cons.IH [OF _ distinct_add_op [OF Cons.prems(2), of "op_key op" op]] Cons.prems(1)
    unfolding kv_history_def by (meson list.set_intros(2))
  ultimately show ?case using inp k by (auto simp: map_of_add_op on_key_def)
qed

lemma kv_Partition_eq:
  assumes "kv_history ops"
  shows "\<exists>keys. distinct keys \<and> sorted keys \<and> set keys = op_key ` set ops \<and> kv_Partition ops = Some (map (\<lambda>k. on_key k ops) keys)"
proof -
  obtain m where m: "group_ops ops [] = Some m" "distinct (map fst m)" "fst ` set m = op_key ` set ops"
    "\<forall>k. k \<in> fst ` set m \<longrightarrow> map_of m k = Some (on_key k ops)"
    using group_ops_eq [OF assms, of "[]"] by auto
  show ?thesis
    by (rule exI [of _ "sort (map fst m)"]) (use m in \<open>auto simp: kv_Partition_def Let_def\<close>)
qed

lemma kv_steps_defined: "kv_history ops \<Longrightarrow> steps_defined KvModel ops"
  unfolding kv_history_def steps_defined_def
proof (intro ballI allI)
  fix op st assume "\<forall>op \<in> set ops. (\<exists>inp. poInput op = KvIn inp) \<and> (\<exists>out. poOutput op = KvOut out)" "op \<in> set ops"
  then obtain inp out where "poInput op = KvIn inp" "poOutput op = KvOut out" by blast
  then show "mStep KvModel st (poInput op) (poOutput op) \<noteq> None" by (simp add: KvModel_def kv_Step_def)
qed

end
