(* ===== verification/CheckerTheorems.thy ===== *)
theory CheckerTheorems
  imports CheckerProps
begin

text \<open>
  The properties of the checker: bit sets, the linked list, the decision procedure, its verdicts
  under timeouts, and the check of a key/value history.
\<close>

section \<open>Bit sets\<close>

fun bitset_ops :: "(bool \<times> nat) list \<Rightarrow> bitset \<Rightarrow> bitset option" where
  "bitset_ops [] b = Some b"
| "bitset_ops ((ins, p) # ops) b = do {
     b \<leftarrow> (if ins then bitset_set b p else bitset_clear b p);
     bitset_ops ops b
   }"

fun set_ops :: "(bool \<times> nat) list \<Rightarrow> nat set \<Rightarrow> nat set" where
  "set_ops [] S = S"
| "set_ops ((ins, p) # ops) S = set_ops ops (if ins then insert p S else S - {p})"

lemma bitset_ops_sim:
  "fits n b \<Longrightarrow> \<forall>(ins, p) \<in> set ops. p < n \<Longrightarrow>
   \<exists>b'. bitset_ops ops b = Some b' \<and> fits n b' \<and> bits_of b' = set_ops ops (bits_of b)"
proof (induction ops arbitrary: b)
  case (Cons op ops)
  obtain ins p where op: "op = (ins, p)" by fastforce
  then have p: "p < n" "\<forall>(ins, p) \<in> set ops. p < n" using Cons.prems(2) by auto
  obtain c where c: "(if ins then bitset_set b p else bitset_clear b p) = Some c" "fits n c"
      "bits_of c = (if ins then insert p (bits_of b) else bits_of b - {p})"
    using bits.ins_spec [OF Cons.prems(1) p(1)] bits.del_spec [OF Cons.prems(1) p(1)] by (cases ins) auto
  then show ?case using Cons.IH [OF c(2) p(2)] op by auto
qed simp

text \<open>
  Bit sets are sets: after any sequence of \<^verbatim>\<open>set\<close> and \<^verbatim>\<open>clear\<close> at positions below the size the set was
  made for, none of which panics, \<^verbatim>\<open>get\<close> tells membership in the set that the same insertions and
  deletions give, \<^verbatim>\<open>popcnt\<close> is its size, and \<^verbatim>\<open>equals\<close> is equality of such sets.
\<close>

lemma bitset_refines_set:
  assumes "\<forall>(ins, p) \<in> set ops. p < n" "\<forall>(ins, p) \<in> set ops'. p < n" "q < n"
  shows "\<exists>b b'. bitset_ops ops (newBitset n) = Some b \<and> bitset_ops ops' (newBitset n) = Some b' \<and>
    bitset_get b q = Some (q \<in> set_ops ops {}) \<and> popcnt b = card (set_ops ops {}) \<and>
    (bitset_equals b b' \<longleftrightarrow> set_ops ops {} = set_ops ops' {})"
proof -
  obtain b where b: "bitset_ops ops (newBitset n) = Some b" "fits n b" "bits_of b = set_ops ops {}"
    using bitset_ops_sim [OF fits_new assms(1)] by auto
  obtain b' where b': "bitset_ops ops' (newBitset n) = Some b'" "fits n b'" "bits_of b' = set_ops ops' {}"
    using bitset_ops_sim [OF fits_new assms(2)] by auto
  show ?thesis
    using b b' bits.mem_spec [OF b(2) assms(3)] bits.eq_spec [OF b(2) b'(2)] popcnt_card [of b] by auto
qed

section \<open>The linked list\<close>

text \<open>
  Lifting and unlifting: on a well-linked list, lifting a call unlinks exactly the call and its
  return, leaves every other node in its place, and unlifting the call gives back the very heap there
  was before.
\<close>

lemma unlift_undoes_lift:
  assumes "linked h (hd0 # xs @ e # ys @ r # zs)" "ndMatch (h ! e) = Some r"
  shows "\<exists>h'. lift h (Some e) = Some h' \<and> linked h' (hd0 # xs @ ys @ zs) \<and> unlift h' (Some e) = Some h"
  using lift_linked [of h "hd0 # xs" e ys r zs] assms by auto

section \<open>The decision procedure\<close>

text \<open>
  C9. \<^verbatim>\<open>checkSingle\<close> decides linearizability: on a well-formed history, for a model whose \<^verbatim>\<open>Step\<close> does not
  panic on it and whose \<^verbatim>\<open>Equal\<close> is reflexive and respected by \<^verbatim>\<open>Step\<close>, the search ends without a panic. If
  the flag \<^verbatim>\<open>kill\<close> stays 0 it returns true exactly for a linearizable history; whatever the flag does, true
  is only returned for a linearizable history, and every sequence it reports is a linearization of
  some of the operations that leaves out none that precedes one of them.
\<close>

theorem checkSingle_decides:
  assumes "checkable m hist"
  shows "\<exists>b longest. checkSingle m hist computePartial kill = Some (b, longest) \<and>
    (b \<longrightarrow> linearizable m hist) \<and> ((\<forall>k. kill k = 0) \<longrightarrow> (b \<longleftrightarrow> linearizable m hist)) \<and>
    length longest = ops_count hist \<and>
    (\<forall>k seq. Some (k, seq) \<in> set longest \<longrightarrow> partial_linearization m hist seq)"
  using checkSingle_total [OF assms, of computePartial kill] unfolding longest_ok_def by blast

definition kv_get :: "string \<Rightarrow> kvval" where
  "kv_get k = KvIn \<lparr>kiOp = 0, kiKey = k, kiValue = []\<rparr>"

definition kv_put :: "string \<Rightarrow> string \<Rightarrow> kvval" where
  "kv_put k v = KvIn \<lparr>kiOp = 1, kiKey = k, kiValue = v\<rparr>"

definition kv_out :: "string \<Rightarrow> kvval" where
  "kv_out v = KvOut \<lparr>koValue = v\<rparr>"

definition kv_model :: "(kvval, string) Model" where
  "kv_model = fillDefault (\<lambda>_. []) (\<lambda>_. []) KvModel"

text \<open>A put and a get that overlap: the get is called first and sees the value.\<close>

definition overlap :: "kvval entry list" where
  "overlap = [\<lparr>enKind = callEntry, enValue = kv_get ''x'', enId = 0, enTime = 0, enClientId = 0\<rparr>,
     \<lparr>enKind = callEntry, enValue = kv_put ''x'' ''a'', enId = 1, enTime = 1, enClientId = 1\<rparr>,
     \<lparr>enKind = returnEntry, enValue = kv_out ''a'', enId = 0, enTime = 2, enClientId = 0\<rparr>,
     \<lparr>enKind = returnEntry, enValue = kv_out [], enId = 1, enTime = 3, enClientId = 1\<rparr>]"

lemma overlap_wf: "wf_history overlap"
  by code_simp

lemma kv_model_simps: "mStep kv_model = kv_Step" "mInit kv_model = []"
  by (simp_all add: kv_model_def KvModel_def)

lemma kv_model_equal: "equal_ok kv_model"
  unfolding kv_model_def by (rule fillDefault_equal_ok) (simp add: KvModel_def)

lemma overlap_checkable: "checkable kv_model overlap"
proof -
  have "{0..<int (ops_count overlap)} = {0, 1}" by code_simp
  then have "steps_total kv_model overlap"
    by (auto simp: steps_total_def op_ids_def kv_model_simps value_of_def overlap_def kv_get_def kv_put_def kv_out_def kv_Step_def)
  then show ?thesis using overlap_wf kv_model_equal by (simp add: checkable_def)
qed

lemma overlap_linearizable: "linearizable kv_model overlap"
proof -
  have "{0..<int (ops_count overlap)} = {0, 1}" by code_simp
  moreover have "in_order overlap [1, 0]" by code_simp
  ultimately have "linearization kv_model overlap [1, 0]"
    by (auto simp: linearization_def op_ids_def kv_model_simps value_of_def overlap_def kv_get_def kv_put_def kv_out_def kv_Step_def)
  then show ?thesis by (auto simp: linearizable_def)
qed

theorem checkSingle_decides_witness: "\<exists>longest. checkSingle kv_model overlap True (\<lambda>_. 0) = Some (True, longest)"
  using checkSingle_decides [OF overlap_checkable, of True "\<lambda>_. 0"] overlap_linearizable by auto

section \<open>Verdicts\<close>

text \<open>As many different results as there are partitions are the results of all of them.\<close>

lemma results_cover:
  assumes "distinct (filter (\<lambda>a. a \<noteq> TimeUp) arrivals)" "\<forall>i. ResultOf i \<in> set arrivals \<longrightarrow> i < n"
    "c \<le> length arrivals" "n \<le> c" "\<And>a. a \<in> set (take c arrivals) \<Longrightarrow> a \<noteq> TimeUp" "i < n"
  shows "ResultOf i \<in> set (take c arrivals)"
proof -
  let ?t = "take c arrivals"
  have "distinct (filter (\<lambda>a. a \<noteq> TimeUp) ?t)"
    using assms(1) append_take_drop_id [of c arrivals] by (metis distinct_append filter_append)
  moreover have "filter (\<lambda>a. a \<noteq> TimeUp) ?t = ?t" using assms(5) by (intro filter_True) auto
  ultimately have c: "card (set ?t) = c" using assms(3) distinct_card [of ?t] by simp
  have sub: "set ?t \<subseteq> ResultOf ` {0..<n}"
  proof
    fix a assume a: "a \<in> set ?t"
    obtain i where "a = ResultOf i" by (metis a arrival.exhaust assms(5))
    then show "a \<in> ResultOf ` {0..<n}" using a assms(2) by (auto dest: in_set_takeD)
  qed
  have "card (ResultOf ` {0..<n}) = n" by (simp add: card_image inj_on_def)
  then have "set ?t = ResultOf ` {0..<n}"
    using c sub assms(4) card_mono [OF _ sub] by (intro card_subset_eq) auto
  then show ?thesis using assms(6) by simp
qed

lemma select_loop_time: "select_loop ci n results arrivals c ok = Some (ok', True, c') \<Longrightarrow> TimeUp \<in> set arrivals"
  by (induction ci n results arrivals c ok rule: select_loop.induct) (auto simp: Let_def split: if_splits)

text \<open>
  C33. A verdict is never wrong: whatever the model's partition, the order in which results arrive and the
  moment at which the time is up, \<^verbatim>\<open>Ok\<close> is only returned if every partition is linearizable, and
  \<^verbatim>\<open>Illegal\<close> only if some partition is not; \<^verbatim>\<open>Unknown\<close> needs a timeout.
\<close>

theorem verdicts_are_right:
  assumes part: "mPartition m = Some f" "f history = Some parts" and srt: "sorts_by_time srt"
    and eq: "equal_ok (fillDefault fmtv fmts m)" and ok: "\<forall>p \<in> set parts. timely p \<and> steps_defined m p"
    and arr: "distinct (filter (\<lambda>a. a \<noteq> TimeUp) arrivals)" "\<forall>i. ResultOf i \<in> set arrivals \<longrightarrow> i < length parts"
    and res: "checkOperations fmtv fmts perm srt m history verbose arrivals kills = Some (result, info)"
  shows "(result = Ok \<longrightarrow> (\<forall>p \<in> set parts. ops_linearizable m p)) \<and>
    (result = Illegal \<longrightarrow> (\<exists>p \<in> set parts. \<not> ops_linearizable m p)) \<and>
    (result = Unknown \<longrightarrow> TimeUp \<in> set arrivals)"
proof -
  let ?m = "fillDefault fmtv fmts m" and ?hs = "map (makeEntries srt) parts"
  have "\<forall>h \<in> set ?hs. checkable ?m h"
    using ok makeEntries_checkable [OF srt _ _ eq] by (auto simp: steps_defined_def)
  from runs_of_partitions [OF this, of verbose] obtain rs where
    rs: "those (map (\<lambda>h. checkSingle ?m h verbose (\<lambda>_. 0)) ?hs) = Some rs"
      "\<forall>i < length ?hs. fst (rs ! i) = linearizable ?m (?hs ! i)" by blast
  then have lin: "fst (rs ! i) = ops_linearizable m (parts ! i)" if "i < length parts" for i
    using that by (simp add: makeEntries_linearizable [OF srt])
  obtain okay timedOut c where
    sel: "select_loop verbose (length parts) (\<lambda>i. fst (rs ! i)) arrivals 0 True = Some (okay, timedOut, c)"
    and r: "result = (if \<not> okay then Illegal else if timedOut then Unknown else Ok)"
    using res part rs(1) by (auto simp: checkOperations_def checkParallel_def Let_def)
  have s: "okay \<Longrightarrow> ResultOf i \<in> set (take c arrivals) \<Longrightarrow> fst (rs ! i)"
      "\<not> okay \<Longrightarrow> \<exists>i. ResultOf i \<in> set arrivals \<and> \<not> fst (rs ! i)" "c \<le> length arrivals"
      "\<not> timedOut \<Longrightarrow> okay \<Longrightarrow> length parts \<le> c" "a \<in> set (take c arrivals) \<Longrightarrow> a \<noteq> TimeUp" for i a
    using select_loop_sound [OF sel] by auto
  have "\<forall>p \<in> set parts. ops_linearizable m p" if t: "okay" "\<not> timedOut"
    using results_cover [OF arr s(3)] s(5) s(4) [OF t(2,1)] s(1) [OF t(1)] lin
    by (auto simp: all_set_conv_all_nth)
  moreover have "\<exists>p \<in> set parts. \<not> ops_linearizable m p" if nok: "\<not> okay"
  proof -
    obtain i where "ResultOf i \<in> set arrivals" "\<not> fst (rs ! i)" using s(2) [OF nok] by blast
    then show ?thesis using arr(2) lin by (auto intro!: bexI [of _ "parts ! i"])
  qed
  moreover have "TimeUp \<in> set arrivals" if "timedOut"
    using select_loop_time [of verbose "length parts" "\<lambda>i. fst (rs ! i)" arrivals 0 True okay c] sel that by simp
  ultimately show ?thesis using r by (auto split: if_splits)
qed

text \<open>A sorting function as \<^verbatim>\<open>sort.Sort\<close> may be, for the concrete runs.\<close>

definition by_time :: "'v entry list \<Rightarrow> 'v entry list" where
  "by_time es = sort_key (\<lambda>e. 2 * enTime e + (if enKind e = callEntry then 0 else 1)) es"

lemma by_time_sorts: "sorts_by_time by_time"
  unfolding sorts_by_time_def
proof (intro allI conjI)
  fix es :: "'v entry list"
  let ?f = "\<lambda>e :: 'v entry. 2 * enTime e + (if enKind e = callEntry then 0 else 1)"
  show "mset (by_time es) = mset es" by (simp add: by_time_def)
  have "sorted_wrt (\<lambda>a b. ?f a \<le> ?f b) (by_time es)"
    using sorted_sort_key [of ?f es] by (simp add: by_time_def sorted_wrt_map)
  then show "sorted_wrt (\<lambda>a b. \<not> byTime_Less b a) (by_time es)"
    by (rule sorted_wrt_mono_rel [rotated]) (auto simp: byTime_Less_def split: if_splits)
qed

definition stale_read :: "kvval Operation list" where
  "stale_read = [\<lparr>poClientId = 0, poInput = kv_put ''x'' ''a'', poCall = 0, poOutput = kv_out [], poReturn = 1\<rparr>,
     \<lparr>poClientId = 1, poInput = kv_get ''x'', poCall = 2, poOutput = kv_out [], poReturn = 3\<rparr>]"

lemma stale_read_ok: "timely stale_read" "kv_history stale_read"
  by (simp_all add: timely_def kv_history_def stale_read_def kv_put_def kv_get_def kv_out_def)

definition whole_model :: "(kvval, string) Model" where
  "whole_model = KvModel\<lparr>mPartition := Some (\<lambda>h. Some [h])\<rparr>"

lemma whole_model_ok: "equal_ok (fillDefault fmtv fmts whole_model)" "steps_defined whole_model stale_read"
  using kv_steps_defined [OF stale_read_ok(2)]
  by (auto simp: whole_model_def KvModel_def steps_defined_def intro: fillDefault_equal_ok)

lemma stale_read_order: "distinct ids \<Longrightarrow> set ids = {0..<2} \<Longrightarrow> ids = [0, 1] \<or> ids = [1, 0 :: nat]"
proof -
  assume d: "distinct ids" "set ids = {0..<2}"
  then have "length ids = 2" using distinct_card [OF d(1)] by simp
  then obtain a b where "ids = [a, b]" by (auto simp: length_Suc_conv numeral_2_eq_2)
  moreover have "{0..<2} = {0, 1 :: nat}" by auto
  ultimately show ?thesis using d by (auto simp: doubleton_eq_iff)
qed

lemma stale_read_not_linearizable: "mStep m = kv_Step \<Longrightarrow> mInit m = [] \<Longrightarrow> \<not> ops_linearizable m stale_read"
proof
  assume m: "mStep m = kv_Step" "mInit m = []" and "ops_linearizable m stale_read"
  then obtain ids where ids: "distinct ids" "set ids = {0..<length stale_read}"
      "sorted_wrt (\<lambda>i j. \<not> poReturn (stale_read ! j) < poCall (stale_read ! i)) ids" "ops_run m stale_read [] ids \<noteq> None"
    by (auto simp: ops_linearizable_def)
  have "length stale_read = 2" by (simp add: stale_read_def)
  then have "ids = [0, 1] \<or> ids = [1, 0]" using stale_read_order ids(1,2) by simp
  then show False
    using ids(3,4) m by (auto simp: stale_read_def kv_put_def kv_get_def kv_out_def kv_Step_def split: if_splits)
qed

theorem verdicts_are_right_witness:
  "(\<exists>p \<in> {stale_read}. \<not> ops_linearizable whole_model p) \<and>
   map_option fst (checkOperations (\<lambda>_. []) (\<lambda>_. []) id by_time whole_model stale_read False [ResultOf 0] (\<lambda>_ _. 0)) = Some Illegal"
proof -
  let ?r = "checkOperations (\<lambda>_. []) (\<lambda>_. []) id by_time whole_model stale_read False [ResultOf 0] (\<lambda>_ _. 0)"
  have nl: "\<not> ops_linearizable whole_model stale_read"
    by (rule stale_read_not_linearizable) (simp_all add: whole_model_def KvModel_def)
  have "checkable (fillDefault (\<lambda>_. []) (\<lambda>_. []) whole_model) (makeEntries by_time stale_read)"
    using makeEntries_checkable [OF by_time_sorts stale_read_ok(1) _ whole_model_ok(1)] whole_model_ok(2) by (simp add: steps_defined_def)
  then obtain b l where "checkSingle (fillDefault (\<lambda>_. []) (\<lambda>_. []) whole_model) (makeEntries by_time stale_read) False (\<lambda>_. 0) = Some (b, l)"
    using checkSingle_total by blast
  then obtain res info where r: "?r = Some (res, info)"
    by (cases b) (auto simp: checkOperations_def checkParallel_def Let_def whole_model_def)
  have p: "mPartition whole_model = Some (\<lambda>h. Some [h])" by (simp add: whole_model_def)
  from verdicts_are_right [OF p _ by_time_sorts whole_model_ok(1) _ _ _ r] nl stale_read_ok(1) whole_model_ok(2)
  have "res \<noteq> Ok" "res \<noteq> Unknown" by auto
  then show ?thesis using r nl by (cases res) auto
qed

section \<open>Checking a key/value history\<close>

lemma timely_on_key: "timely ops \<Longrightarrow> timely (on_key k ops)"
  unfolding timely_def on_key_def using length_filter_le [of "\<lambda>op. op_key op = k" ops]
  by (auto simp del: length_filter_le intro: le_less_trans)

lemma kv_history_on_key: "kv_history ops \<Longrightarrow> kv_history (on_key k ops)"
  by (auto simp: kv_history_def on_key_def)

lemma no_ops_linearizable: "ops_linearizable m []"
  by (simp add: ops_linearizable_def exI [of _ "[]"])

text \<open>
  \<^verbatim>\<open>CheckOperations\<close> on a key/value history: without a timeout, and in whatever order the results of
  the partitions arrive, it returns true exactly if for every key the operations on that key are
  linearizable. The partition that \<^verbatim>\<open>KvModel\<close> computes has one part for each key that occurs.
\<close>

lemma kv_check_verdict:
  assumes "kv_history ops" "timely ops" "ops \<noteq> []" "sorts_by_time srt" "distinct is" "set is = {0..<card (op_key ` set ops)}"
  shows "CheckOperations fmtv fmts perm srt KvModel ops (map ResultOf is) kills =
    Some (\<forall>k. ops_linearizable KvModel (on_key k ops))"
proof -
  obtain keys where keys: "distinct keys" "set keys = op_key ` set ops" "kv_Partition ops = Some (map (\<lambda>k. on_key k ops) keys)"
    using kv_Partition_eq [OF assms(1)] by blast
  let ?parts = "map (\<lambda>k. on_key k ops) keys"
  have n: "length ?parts = card (op_key ` set ops)" using distinct_card [OF keys(1)] keys(2) by simp
  have "\<forall>p \<in> set ?parts. timely p \<and> steps_defined KvModel p"
    using timely_on_key [OF assms(2)] kv_steps_defined [OF kv_history_on_key [OF assms(1)]] by auto
  moreover have "?parts \<noteq> []" using keys(2) assms(3) by auto
  moreover have "mPartition KvModel = Some kv_Partition" "mEqual KvModel = None" by (simp_all add: KvModel_def)
  ultimately have "CheckOperations fmtv fmts perm srt KvModel ops (map ResultOf is) kills = Some (\<forall>p \<in> set ?parts. ops_linearizable KvModel p)"
    using checkOperations_verdict [where m = KvModel and f = kv_Partition and perm = perm and kills = kills,
        OF _ keys(3) assms(4) _ _ assms(5)] fillDefault_equal_ok [of KvModel] assms(6) n by simp
  moreover have "on_key k ops = []" if "k \<notin> set keys" for k
    using that keys(2) by (auto simp: on_key_def filter_empty_conv)
  then have "(\<forall>p \<in> set ?parts. ops_linearizable KvModel p) \<longleftrightarrow> (\<forall>k. ops_linearizable KvModel (on_key k ops))"
    using no_ops_linearizable [of KvModel] by fastforce
  ultimately show ?thesis by simp
qed

lemma select_loop_results: "select_loop c n results (map ResultOf is) cnt ok = Some (ok', timedOut, cnt') \<Longrightarrow> \<not> timedOut"
  by (induction "is" arbitrary: cnt ok) (auto simp: Let_def split: if_splits)

lemma select_loop_more: "select_loop c n results as cnt ok = Some x \<Longrightarrow> select_loop c n results (as @ bs) cnt ok = Some x"
  by (induction c n results as cnt ok rule: select_loop.induct) (auto simp: Let_def split: if_splits)

text \<open>A check that has returned when all results are in does not see the timeout that comes after them.\<close>

lemma checkOperations_before_timeout:
  assumes "checkOperations fmtv fmts perm srt m ops False (map ResultOf is) kills = Some (r, info)"
  shows "r \<noteq> Unknown \<and> checkOperations fmtv fmts perm srt m ops False (map ResultOf is @ [TimeUp]) kills = Some (r, info)"
proof -
  have par: "r \<noteq> Unknown \<and> checkParallel perm m h False (map ResultOf is @ [TimeUp]) kills = Some (r, info)"
    if p: "checkParallel perm m h False (map ResultOf is) kills = Some (r, info)" for m h
  proof -
    from p obtain runs ok timedOut cnt where s: "those (map (\<lambda>sub. checkSingle m sub False (\<lambda>_. 0)) h) = Some runs"
      "select_loop False (length h) (\<lambda>i. fst (runs ! i)) (map ResultOf is) 0 True = Some (ok, timedOut, cnt)"
      "r = (if \<not> ok then Illegal else if timedOut then Unknown else Ok)"
      by (auto simp: checkParallel_def Let_def)
    then show ?thesis using p select_loop_results [OF s(2)] select_loop_more [OF s(2)] by (auto simp: checkParallel_def Let_def)
  qed
  obtain f parts where "mPartition (fillDefault fmtv fmts m) = Some f" "f ops = Some parts"
    "checkParallel perm (fillDefault fmtv fmts m) (map (makeEntries srt) parts) False (map ResultOf is) kills = Some (r, info)"
    using assms by (auto simp: checkOperations_def Let_def)
  with par [OF this(3)] show ?thesis by (simp add: checkOperations_def Let_def)
qed

text \<open>
  C39. Only the check of the empty history hangs. Let the results of all partitions of a key/value history arrive, in any order.
  Then \<^verbatim>\<open>CheckOperations\<close> has returned exactly if the history is not empty. \<^verbatim>\<open>KvModel\<close> splits the empty history, which is
  linearizable, into no partition, so that no goroutine is started, and the loop of \<^verbatim>\<open>checkParallel\<close> waits for a first
  result that never comes; with a timeout it ends, and the verdict is \<^verbatim>\<open>Unknown\<close>, which no other history gets when
  the results come before the timeout.
\<close>

theorem only_empty_history_hangs:
  assumes "kv_history ops" "timely ops" "sorts_by_time srt" "distinct is" "set is = {0..<card (op_key ` set ops)}"
  shows "(CheckOperations fmtv fmts perm srt KvModel ops (map ResultOf is) kills = None \<longleftrightarrow> ops = []) \<and>
    (map_option fst (checkOperations fmtv fmts perm srt KvModel ops False (map ResultOf is @ [TimeUp]) kills) = Some Unknown \<longleftrightarrow> ops = [])"
proof (cases "ops = []")
  case True
  then have "is = []" using assms(5) by simp
  have "checkOperations fmtv fmts perm srt KvModel [] False as kills =
    checkParallel perm (fillDefault fmtv fmts KvModel) [] False as kills" for as
    by (simp add: checkOperations_def KvModel_def kv_Partition_def Let_def)
  then show ?thesis using True \<open>is = []\<close> by (auto simp: CheckOperations_def checkParallel_def Let_def)
next
  case False
  then have v: "CheckOperations fmtv fmts perm srt KvModel ops (map ResultOf is) kills \<noteq> None"
    using kv_check_verdict [OF assms(1,2) False assms(3-5)] by simp
  then obtain r info where "checkOperations fmtv fmts perm srt KvModel ops False (map ResultOf is) kills = Some (r, info)"
    by (auto simp: CheckOperations_def)
  then show ?thesis using v False checkOperations_before_timeout by fastforce
qed

theorem only_empty_history_hangs_witness:
  "CheckOperations (\<lambda>_. []) (\<lambda>_. []) id by_time KvModel [] (map ResultOf []) (\<lambda>_ _. 0) = None \<and>
   CheckOperations (\<lambda>_. []) (\<lambda>_. []) id by_time KvModel stale_read (map ResultOf [0]) (\<lambda>_ _. 0) \<noteq> None"
proof -
  have "card (op_key ` set stale_read) = 1" by (simp add: stale_read_def op_key_def kv_put_def kv_get_def)
  then show ?thesis
    using only_empty_history_hangs [of "[]" by_time "[]"] only_empty_history_hangs [OF stale_read_ok(2,1) by_time_sorts, of "[0]"]
      by_time_sorts
    by (auto simp: kv_history_def timely_def stale_read_def)
qed

end
