(* ===== verification/KvLocality.thy ===== *)
theory KvLocality
  imports CheckerTheorems
begin

text \<open>
  Checking key by key is checking the store: \<^verbatim>\<open>KvModel\<close> partitions a history by keys, and the parts are
  checked on their own. A history is linearizable as a history of the whole store, a function from
  keys to values, exactly if the operations on each key are. The linearizations of the keys are merged
  along points in time, one inside the interval of each operation.
\<close>

definition store_Step :: "(string \<Rightarrow> string) \<Rightarrow> kvval \<Rightarrow> kvval \<Rightarrow> (bool \<times> (string \<Rightarrow> string)) option" where
  "store_Step st input output = do {
     inp \<leftarrow> as_input input;
     (ok, v) \<leftarrow> kv_Step (st (kiKey inp)) input output;
     Some (ok, st(kiKey inp := v))
   }"

definition store_model :: "(kvval, string \<Rightarrow> string) Model" where
  "store_model = \<lparr>mPartition = None, mPartitionEvent = None, mInit = (\<lambda>_. []), mStep = store_Step, mEqual = None,
     mDescribeOperation = None, mDescribeState = None\<rparr>"

section \<open>Points in time\<close>

lemma sorted_last: "sorted (map t L) \<Longrightarrow> i \<in> set L \<Longrightarrow> t i \<le> t (last L)"
  by (induction L) auto

lemma linearization_points:
  fixes call ret :: "'a \<Rightarrow> int"
  assumes "sorted_wrt (\<lambda>i j. \<not> ret j < call i) L" "\<forall>i \<in> set L. call i \<le> ret i" "distinct L"
  shows "\<exists>t. sorted (map t L) \<and> (\<forall>i \<in> set L. call i \<le> t i \<and> t i \<le> ret i \<and> t i \<in> call ` set L)"
  using assms
proof (induction L rule: rev_induct)
  case (snoc x L)
  then obtain t where t: "sorted (map t L)" "\<forall>i \<in> set L. call i \<le> t i \<and> t i \<le> ret i \<and> t i \<in> call ` set L"
    by (auto simp: sorted_wrt_append)
  define u where "u = (if L = [] then call x else max (call x) (t (last L)))"
  have le: "t i \<le> u" if i: "i \<in> set L" for i
    using sorted_last [OF t(1) i] i by (auto simp: u_def)
  have u: "call x \<le> u" "u \<le> ret x" "u \<in> call ` set (L @ [x])"
  proof -
    show "call x \<le> u" by (simp add: u_def)
    have "c \<le> ret x" if "c \<in> call ` set L" for c using snoc.prems(1) that by (auto simp: sorted_wrt_append)
    then show "u \<le> ret x" "u \<in> call ` set (L @ [x])" using snoc.prems(2) t(2) by (auto simp: u_def max_def)
  qed
  have x: "x \<notin> set L" using snoc.prems(3) by simp
  have "sorted (map (t(x := u)) (L @ [x]))" using t(1) le x by (auto simp: sorted_append map_fun_upd)
  moreover have "\<forall>i \<in> set (L @ [x]). call i \<le> (t(x := u)) i \<and> (t(x := u)) i \<le> ret i \<and> (t(x := u)) i \<in> call ` set (L @ [x])"
    using t(2) u x by auto
  ultimately show ?case by blast
qed simp

lemma filter_other_keys:
  assumes "distinct ks" "\<And>k i. k \<in> set ks \<Longrightarrow> i \<in> set (L k) \<Longrightarrow> key i = k"
  shows "filter (\<lambda>i. key i = k) (concat (map L ks)) = (if k \<in> set ks then L k else [])"
  using assms
proof (induction ks)
  case (Cons j ks)
  have "filter (\<lambda>i. key i = k) (L j) = (if j = k then L j else [])"
    using Cons.prems(2) [of j] by (auto simp: filter_empty_conv filter_id_conv)
  then show ?case using Cons by auto
qed simp

lemma sort_key_sorted: "sorted (map f xs) \<Longrightarrow> sort_key f xs = xs"
  by (induction xs) (auto simp: insort_is_Cons)

text \<open>Orders of the keys that respect real time are parts of one order that does.\<close>

lemma merge_orders:
  fixes call ret :: "'a \<Rightarrow> int"
  assumes "distinct ks" "\<And>k i. k \<in> set ks \<Longrightarrow> i \<in> set (L k) \<Longrightarrow> key i = k"
    "\<And>k. k \<in> set ks \<Longrightarrow> distinct (L k) \<and> sorted_wrt (\<lambda>i j. \<not> ret j < call i) (L k) \<and> (\<forall>i \<in> set (L k). call i \<le> ret i)"
  obtains M where "mset M = mset (concat (map L ks))" "sorted_wrt (\<lambda>i j. \<not> ret j < call i) M"
    "\<And>k. filter (\<lambda>i. key i = k) M = (if k \<in> set ks then L k else [])"
proof -
  have "\<forall>k \<in> set ks. \<exists>t. sorted (map t (L k)) \<and> (\<forall>i \<in> set (L k). call i \<le> t i \<and> t i \<le> ret i)"
    using linearization_points [of ret call] assms(3) by blast
  then obtain T where T: "\<And>k. k \<in> set ks \<Longrightarrow> sorted (map (T k) (L k)) \<and> (\<forall>i \<in> set (L k). call i \<le> T k i \<and> T k i \<le> ret i)" by metis
  define t where "t i = T (key i) i" for i
  let ?M = "sort_key t (concat (map L ks))"
  have tk: "map t (L k) = map (T k) (L k)" if "k \<in> set ks" for k using assms(2) [OF that] by (auto simp: t_def)
  have b: "call i \<le> t i \<and> t i \<le> ret i" if i: "i \<in> set ?M" for i
  proof -
    obtain k where k: "k \<in> set ks" "i \<in> set (L k)" using i by auto
    then show ?thesis using T [OF k(1)] assms(2) [OF k] by (auto simp: t_def)
  qed
  show thesis
  proof (rule that [of ?M])
    have "sorted_wrt (\<lambda>i j. t i \<le> t j) ?M" using sorted_sort_key [of t] by (simp add: sorted_wrt_map)
    then show "sorted_wrt (\<lambda>i j. \<not> ret j < call i) ?M"
      using b by (smt (verit, ccfv_threshold) sorted_wrt_mono_rel)
    show "filter (\<lambda>i. key i = k) ?M = (if k \<in> set ks then L k else [])" for k
    proof -
      have "filter (\<lambda>i. key i = k) (concat (map L ks)) = (if k \<in> set ks then L k else [])"
        by (rule filter_other_keys [OF assms(1)]) (rule assms(2))
      moreover have "sort_key t (L k) = L k" if k: "k \<in> set ks"
        using T [OF k] by (intro sort_key_sorted) (simp add: tk [OF k])
      ultimately show ?thesis by (simp add: filter_sort)
    qed
  qed simp
qed

section \<open>The operations on a key\<close>

definition positions :: "string \<Rightarrow> kvval Operation list \<Rightarrow> nat list" where
  "positions k ops = filter (\<lambda>i. op_key (ops ! i) = k) [0..<length ops]"

lemma on_key_positions: "on_key k ops = map ((!) ops) (positions k ops)"
proof -
  have "map ((!) ops) [0..<length ops] = ops" by (rule map_nth)
  then show ?thesis unfolding on_key_def positions_def by (metis (no_types, lifting) filter_cong filter_map comp_apply)
qed

lemma positions_facts: "distinct (positions k ops)" "set (positions k ops) = {i. i < length ops \<and> op_key (ops ! i) = k}"
  "length (positions k ops) = length (on_key k ops)"
  by (auto simp: positions_def on_key_positions)

lemma nth_on_key: "j < length (on_key k ops) \<Longrightarrow> on_key k ops ! j = ops ! (positions k ops ! j)"
  by (simp add: on_key_positions)

lemma ops_run_on_key:
  "set js \<subseteq> {0..<length (on_key k ops)} \<Longrightarrow> ops_run m (on_key k ops) st js = ops_run m ops st (map ((!) (positions k ops)) js)"
  by (induction js arbitrary: st) (auto simp: nth_on_key split: option.splits bool.splits)

text \<open>Linearizability of the operations on a key, in terms of their positions in the history.\<close>

definition key_order :: "kvval Operation list \<Rightarrow> string \<Rightarrow> nat list \<Rightarrow> bool" where
  "key_order ops k L \<longleftrightarrow> distinct L \<and> set L = set (positions k ops) \<and>
     sorted_wrt (\<lambda>i j. \<not> poReturn (ops ! j) < poCall (ops ! i)) L \<and> ops_run KvModel ops [] L \<noteq> None"

lemma on_key_linearizable: "ops_linearizable KvModel (on_key k ops) \<longleftrightarrow> (\<exists>L. key_order ops k L)"
proof
  let ?p = "(!) (positions k ops)" and ?n = "length (on_key k ops)"
  have inj: "inj_on ?p {0..<?n}" using positions_facts(1,3) by (simp add: inj_on_nth)
  have img: "?p ` {0..<?n} = set (positions k ops)" using positions_facts(3) [of k ops] by (metis nth_image order.refl take_all)
  have wrt: "sorted_wrt (\<lambda>i j. \<not> poReturn (on_key k ops ! j) < poCall (on_key k ops ! i)) js \<longleftrightarrow>
      sorted_wrt (\<lambda>i j. \<not> poReturn (ops ! j) < poCall (ops ! i)) (map ?p js)" if "set js \<subseteq> {0..<?n}" for js
    using that by (induction js) (auto simp: nth_on_key subset_iff)
  show "\<exists>L. key_order ops k L" if lin: "ops_linearizable KvModel (on_key k ops)"
  proof -
    obtain js where js: "distinct js" "set js = {0..<?n}"
      "sorted_wrt (\<lambda>i j. \<not> poReturn (on_key k ops ! j) < poCall (on_key k ops ! i)) js" "ops_run KvModel (on_key k ops) [] js \<noteq> None"
      using lin by (auto simp: ops_linearizable_def KvModel_def)
    have "key_order ops k (map ?p js)"
      unfolding key_order_def using js inj img wrt [of js] ops_run_on_key [of js k ops KvModel "[]"] by (auto simp: distinct_map)
    then show ?thesis by blast
  qed
  show "ops_linearizable KvModel (on_key k ops)" if ex: "\<exists>L. key_order ops k L"
  proof -
    obtain L where L: "distinct L" "set L = set (positions k ops)" "sorted_wrt (\<lambda>i j. \<not> poReturn (ops ! j) < poCall (ops ! i)) L"
      "ops_run KvModel ops [] L \<noteq> None" using ex by (auto simp: key_order_def)
    have "L \<in> lists (?p ` {0..<?n})" using L(2) img by auto
    then obtain js where js: "L = map ?p js" "set js \<subseteq> {0..<?n}" unfolding lists_image by auto
    have "distinct js" using L(1) js(1) by (simp add: distinct_map)
    moreover have "?p ` set js = ?p ` {0..<?n}" using L(2) js(1) img by simp
    then have "set js = {0..<?n}" using inj js(2) by (simp add: inj_on_image_eq_iff)
    ultimately show ?thesis
      unfolding ops_linearizable_def using L(3,4) js wrt [of js] ops_run_on_key [of js k ops KvModel "[]"]
      by (intro exI [of _ js]) (simp add: KvModel_def)
  qed
qed

section \<open>Locality\<close>

lemma kv_op:
  assumes "kv_history ops" "i < length ops"
  obtains inp out where "poInput (ops ! i) = KvIn inp" "poOutput (ops ! i) = KvOut out" "op_key (ops ! i) = kiKey inp"
  using assms nth_mem [OF assms(2)] unfolding kv_history_def op_key_def by fastforce

text \<open>The store steps through a history exactly if every key does, each through its own operations.\<close>

lemma store_run:
  assumes "kv_history ops" "set ids \<subseteq> {0..<length ops}"
  shows "ops_run store_model ops st ids \<noteq> None \<longleftrightarrow>
    (\<forall>k. ops_run KvModel ops (st k) (filter (\<lambda>i. op_key (ops ! i) = k) ids) \<noteq> None)"
  using assms(2)
proof (induction ids arbitrary: st)
  case (Cons i ids)
  obtain inp out where op: "poInput (ops ! i) = KvIn inp" "poOutput (ops ! i) = KvOut out" "op_key (ops ! i) = kiKey inp"
    using kv_op [OF assms(1), of i] Cons.prems by auto
  obtain ok v where step: "kv_Step (st (kiKey inp)) (KvIn inp) (KvOut out) = Some (ok, v)"
    by (cases "kv_Step (st (kiKey inp)) (KvIn inp) (KvOut out)") (auto simp: kv_Step_def)
  have store: "ops_run store_model ops st (i # ids) = (if ok then ops_run store_model ops (st(kiKey inp := v)) ids else None)"
    by (simp add: store_model_def store_Step_def op step)
  have key: "ops_run KvModel ops (st k) (filter (\<lambda>j. op_key (ops ! j) = k) (i # ids)) =
      (if k = kiKey inp \<and> \<not> ok then None else ops_run KvModel ops ((st(kiKey inp := v)) k) (filter (\<lambda>j. op_key (ops ! j) = k) ids))" for k
    by (auto simp: KvModel_def op step)
  show ?case unfolding store key using Cons.IH [of "st(kiKey inp := v)"] Cons.prems by (cases ok) (auto simp del: fun_upd_apply)
qed simp

lemma store_order_keys:
  assumes "kv_history ops" "distinct M" "set M = {0..<length ops}"
    "sorted_wrt (\<lambda>i j. \<not> poReturn (ops ! j) < poCall (ops ! i)) M" "ops_run store_model ops (\<lambda>_. []) M \<noteq> None"
  shows "key_order ops k (filter (\<lambda>i. op_key (ops ! i) = k) M)"
  unfolding key_order_def
  using assms(2-4) store_run [OF assms(1), of M "\<lambda>_. []"] assms(5) by (auto simp: sorted_wrt_filter positions_facts)

lemma distinct_by_parts: "(\<And>k. distinct (filter (\<lambda>x. f x = k) xs)) \<Longrightarrow> distinct xs"
proof (induction xs)
  case (Cons a xs)
  have "distinct (filter (\<lambda>x. f x = k) xs)" for k using Cons.prems [of k] by (simp split: if_splits)
  then show ?case using Cons.IH Cons.prems [of "f a"] by simp
qed simp

theorem kv_locality:
  assumes "kv_history ops" "timely ops"
  shows "ops_linearizable store_model ops \<longleftrightarrow> (\<forall>k. ops_linearizable KvModel (on_key k ops))"
proof
  assume "ops_linearizable store_model ops"
  then show "\<forall>k. ops_linearizable KvModel (on_key k ops)"
    unfolding on_key_linearizable using store_order_keys [OF assms(1)]
    by (auto simp: ops_linearizable_def store_model_def)
next
  assume "\<forall>k. ops_linearizable KvModel (on_key k ops)"
  then obtain L where L: "\<And>k. key_order ops k (L k)" unfolding on_key_linearizable by metis
  let ?ks = "remdups (map op_key ops)" and ?key = "\<lambda>i. op_key (ops ! i)"
  have bounds: "\<forall>i \<in> set (L k). poCall (ops ! i) \<le> poReturn (ops ! i)" for k
    using L [of k] assms(2) by (auto simp: key_order_def positions_facts timely_def)
  have keys: "i \<in> set (L k) \<longleftrightarrow> i < length ops \<and> ?key i = k" for i k using L [of k] by (auto simp: key_order_def positions_facts)
  obtain M where M: "mset M = mset (concat (map L ?ks))" "sorted_wrt (\<lambda>i j. \<not> poReturn (ops ! j) < poCall (ops ! i)) M"
    "\<And>k. filter (\<lambda>i. ?key i = k) M = (if k \<in> set ?ks then L k else [])"
    using merge_orders [of ?ks L ?key "\<lambda>i. poReturn (ops ! i)" "\<lambda>i. poCall (ops ! i)"] L bounds keys
    by (auto simp: key_order_def)
  have "i \<in> set M \<longleftrightarrow> ?key i \<in> set ?ks \<and> i < length ops" for i using mset_eq_setD [OF M(1)] keys by auto
  then have set: "set M = {0..<length ops}" by auto
  have none: "L k = []" if "k \<notin> set ?ks" for k using that keys [of "hd (L k)" k] by (cases "L k") auto
  have fil: "filter (\<lambda>i. ?key i = k) M = L k" for k using M(3) [of k] none [of k] by auto
  have "distinct M" using distinct_by_parts [of ?key M] L unfolding fil by (simp add: key_order_def)
  moreover have "ops_run store_model ops (\<lambda>_. []) M \<noteq> None"
    using store_run [OF assms(1), of M "\<lambda>_. []"] set fil L by (auto simp: key_order_def)
  ultimately show "ops_linearizable store_model ops"
    unfolding ops_linearizable_def using M(2) set by (auto simp: store_model_def)
qed

text \<open>
  C21. \<^verbatim>\<open>CheckOperations\<close> with \<^verbatim>\<open>KvModel\<close> decides linearizability of the whole key/value store, for histories with at least one operation
  (on the empty one it does not return). The model splits a history by keys and checks the parts in parallel; without
  a timeout, once the results of all parts have arrived, in whatever order, the check has returned, and returns true exactly
  if all the operations, on all keys, can be put into one order that respects real time and that a store, a map from keys to
  strings which starts with empty strings, can execute with the recorded results.
\<close>

theorem kv_check_whole_store:
  assumes "kv_history ops" "timely ops" "ops \<noteq> []" "sorts_by_time srt" "distinct is" "set is = {0..<card (op_key ` set ops)}"
  shows "CheckOperations fmtv fmts perm srt KvModel ops (map ResultOf is) kills = Some (ops_linearizable store_model ops)"
  using kv_check_verdict [OF assms] kv_locality [OF assms(1,2)] by simp

lemma stale_read_store: "\<not> ops_linearizable store_model stale_read"
proof -
  have "on_key ''x'' stale_read = stale_read" by (simp add: on_key_def stale_read_def op_key_def kv_put_def kv_get_def)
  moreover have "\<not> ops_linearizable KvModel stale_read" by (rule stale_read_not_linearizable) (simp_all add: KvModel_def)
  ultimately show ?thesis unfolding kv_locality [OF stale_read_ok(2,1)] by metis
qed

theorem kv_check_whole_store_witness:
  "CheckOperations (\<lambda>_. []) (\<lambda>_. []) id by_time KvModel stale_read (map ResultOf [0]) (\<lambda>_ _. 0) = Some False"
proof -
  have "op_key ` set stale_read = {''x''}" by (simp add: stale_read_def op_key_def kv_put_def kv_get_def)
  moreover have "stale_read \<noteq> []" by (simp add: stale_read_def)
  ultimately show ?thesis
    using kv_check_whole_store [OF stale_read_ok(2,1) _ by_time_sorts, of "[0]" "\<lambda>_. []" "\<lambda>_. []" id "\<lambda>_ _. 0"] stale_read_store
    by simp
qed

end
