(* ===== verification/KvLinearizable.thy ===== *)
theory KvLinearizable
  imports ReplicatedService KvLocality
begin

text \<open>
  The key/value service is linearizable. A history of the clerks' calls is explained by the one log that
  \<^verbatim>\<open>ReplicatedService\<close> gives for a run: a put or append takes effect where its request first appears in the log, a get
  where its server had got to when it read its map.
\<close>

section \<open>Histories of clerks\<close>

text \<open>
  A call of a clerk: its operation and the positions in the run at which it begins, at which the handler whose answer
  it takes replies, and at which it returns.
\<close>

record client_call =
  ccOp :: Op
  ccCall :: nat
  ccReply :: nat
  ccReturn :: nat

definition is_get :: "Op \<Rightarrow> bool" where
  "is_get op \<longleftrightarrow> opType op = OpGet"

text \<open>
  What \<^verbatim>\<open>client.go\<close> ensures: a clerk numbers its calls from 1 and makes the next one after the last has returned, and
  it asks for gets, puts and appends.
\<close>

definition clerk_calls :: "client_call list \<Rightarrow> bool" where
  "clerk_calls H \<longleftrightarrow> distinct (map (\<lambda>h. request (ccOp h)) H) \<and>
     (\<forall>h \<in> set H. 0 < opSeqNum (ccOp h) \<and> opType (ccOp h) \<in> {OpGet, OpPut, OpAppend} \<and> ccCall h \<le> ccReply h \<and> ccReply h < ccReturn h) \<and>
     (\<forall>h \<in> set H. \<forall>h' \<in> set H. opClientId (ccOp h) = opClientId (ccOp h') \<and> opSeqNum (ccOp h) < opSeqNum (ccOp h') \<longrightarrow>
        ccReturn h \<le> ccCall h')"

fun reply_of :: "(Op, kvgob, kv_handler) svc_event \<Rightarrow> (nat \<times> Op \<times> nat) option" where
  "reply_of (SHandler v (AReply op ch)) = Some (v, op, ch)"
| "reply_of _ = None"

fun start_of :: "(Op, kvgob, kv_handler) svc_event \<Rightarrow> Op option" where
  "start_of (SRaft (CStart i op)) = Some op"
| "start_of _ = None"

text \<open>
  A run serves these calls and no others: the answer to each comes from a handler of its operation, and every
  operation that a handler gives to \<^verbatim>\<open>Start\<close> belongs to a call that has begun. Handlers may run several times for a call, on several
  servers, and long after it has returned.
\<close>

definition serves :: "(Op, kvgob, kv_handler) svc_event list \<Rightarrow> client_call list \<Rightarrow> bool" where
  "serves es H \<longleftrightarrow>
     (\<forall>h \<in> set H. ccReply h < length es \<and> map_option (\<lambda>(v, op, ch). op) (reply_of (es ! ccReply h)) = Some (ccOp h)) \<and>
     (\<forall>k \<in> {0..<length es}. case start_of (es ! k) of Some op \<Rightarrow> (\<exists>h \<in> set H. ccOp h = op \<and> ccCall h \<le> k) | None \<Rightarrow> True)"

text \<open>What the clerk's call returns: the value of the reply of \<^verbatim>\<open>Get\<close>, empty for \<^verbatim>\<open>ErrNoKey\<close>; nothing for a put or append.\<close>

definition answer :: "(Op gob list \<Rightarrow> int) \<Rightarrow> int \<Rightarrow> nat \<Rightarrow> (Op, kvgob, kv_handler) svc_event list \<Rightarrow> client_call \<Rightarrow> string" where
  "answer gs mx n es h =
     (case (kv_sys gs mx n (take (ccReply h) es), reply_of (es ! ccReply h)) of
        (Some sy, Some (v, op, ch)) \<Rightarrow> if is_get op then grValue (snd (Get_select (kv_at sy v) (get_args_of op) ch True)) else []
      | _ \<Rightarrow> [])"

definition kv_input :: "Op \<Rightarrow> KvInput" where
  "kv_input op = \<lparr>kiOp = (if opType op = OpPut then 1 else if opType op = OpAppend then 2 else 0),
     kiKey = opKey op, kiValue = opValue op\<rparr>"

text \<open>The operation that the tests record, with the times that a clock shows when the call begins and returns.\<close>

definition logged :: "(Op gob list \<Rightarrow> int) \<Rightarrow> int \<Rightarrow> nat \<Rightarrow> (Op, kvgob, kv_handler) svc_event list \<Rightarrow> (nat \<Rightarrow> int) \<Rightarrow>
    client_call \<Rightarrow> kvval Operation" where
  "logged gs mx n es clock h = \<lparr>poClientId = opClientId (ccOp h), poInput = KvIn (kv_input (ccOp h)), poCall = clock (ccCall h),
     poOutput = KvOut \<lparr>koValue = answer gs mx n es h\<rparr>, poReturn = clock (ccReturn h)\<rparr>"

section \<open>Executing a history\<close>

lemma switch_get: "is_get op \<Longrightarrow> switch_op op m = m"
  by (simp add: switch_op_def is_get_def OpGet_def OpPut_def OpAppend_def)

lemma fold_switch_writes: "fold switch_op ops m = fold switch_op (filter (\<lambda>op. \<not> is_get op) ops) m"
  by (induction ops arbitrary: m) (auto simp: switch_get)

lemma store_Step_write:
  "\<not> is_get op \<Longrightarrow> opType op \<in> {OpGet, OpPut, OpAppend} \<Longrightarrow>
   store_Step (val_of m) (KvIn (kv_input op)) (KvOut out) = Some (True, val_of (switch_op op m))"
  by (auto simp: store_Step_def kv_Step_def kv_input_def is_get_def switch_op_def val_of_def OpGet_def OpPut_def OpAppend_def)

lemma store_Step_get:
  "is_get op \<Longrightarrow> koValue out = val_of m (opKey op) \<Longrightarrow>
   store_Step (val_of m) (KvIn (kv_input op)) (KvOut out) = Some (True, val_of m)"
  by (simp add: store_Step_def kv_Step_def kv_input_def is_get_def OpGet_def OpPut_def OpAppend_def)

text \<open>A store accepts a history in which every get returns what the writes before it leave.\<close>

lemma store_run_reads:
  assumes "\<And>i. i \<in> set ids \<Longrightarrow> poInput (hist ! i) = KvIn (kv_input (op i)) \<and> opType (op i) \<in> {OpGet, OpPut, OpAppend} \<and>
      poOutput (hist ! i) = KvOut (out i)"
    and "\<And>xs i ys. ids = xs @ i # ys \<Longrightarrow> is_get (op i) \<Longrightarrow> koValue (out i) = val_of (fold switch_op (map op xs) m) (opKey (op i))"
  shows "ops_run store_model hist (val_of m) ids \<noteq> None"
  using assms
proof (induction ids arbitrary: m)
  case (Cons i ids)
  have "store_Step (val_of m) (poInput (hist ! i)) (poOutput (hist ! i)) = Some (True, val_of (switch_op (op i) m))"
  proof (cases "is_get (op i)")
    case True
    then show ?thesis using Cons.prems(1) [of i] Cons.prems(2) [of "[]" i ids] by (simp add: store_Step_get switch_get)
  next
    case False
    then show ?thesis using Cons.prems(1) [of i] store_Step_write [OF False] by simp
  qed
  moreover have "ops_run store_model hist (val_of (switch_op (op i) m)) ids \<noteq> None"
  proof (rule Cons.IH)
    show "poInput (hist ! j) = KvIn (kv_input (op j)) \<and> opType (op j) \<in> {OpGet, OpPut, OpAppend} \<and> poOutput (hist ! j) = KvOut (out j)"
      if "j \<in> set ids" for j using Cons.prems(1) [of j] that by simp
    show "koValue (out j) = val_of (fold switch_op (map op xs) (switch_op (op i) m)) (opKey (op j))" if "ids = xs @ j # ys" "is_get (op j)" for xs j ys
      using Cons.prems(2) [of "i # xs" j ys] that by simp
  qed
  ultimately show ?case by (simp add: store_model_def)
qed simp

section \<open>Logs that explain a history\<close>

text \<open>
  \<open>p i\<close> is how far the server that answers call \<open>i\<close> has got when it replies: it has executed the operation of the call, and
  only operations of calls that had begun by then.
\<close>

definition explains :: "Op list \<Rightarrow> client_call list \<Rightarrow> (nat \<Rightarrow> nat) \<Rightarrow> bool" where
  "explains ops H p \<longleftrightarrow> (\<forall>i < length H. p i \<le> length ops \<and> (\<exists>x < p i. ops ! x = ccOp (H ! i)) \<and>
     (\<forall>x < p i. \<exists>j < length H. ops ! x = ccOp (H ! j) \<and> ccCall (H ! j) < ccReply (H ! i)))"

definition first_at :: "Op list \<Rightarrow> nat \<Rightarrow> bool" where
  "first_at ops x \<longleftrightarrow> request (ops ! x) \<notin> request ` set (take x ops)"

definition pos_of :: "Op list \<Rightarrow> Op \<Rightarrow> nat" where
  "pos_of ops op = (LEAST x. request (ops ! x) = request op)"

lemma clerk_callsD:
  assumes "clerk_calls H" "i < length H" "j < length H"
  shows "request (ccOp (H ! i)) = request (ccOp (H ! j)) \<Longrightarrow> i = j"
    and "0 < opSeqNum (ccOp (H ! i))" "opType (ccOp (H ! i)) \<in> {OpGet, OpPut, OpAppend}"
    and "ccCall (H ! i) \<le> ccReply (H ! i)" "ccReply (H ! i) < ccReturn (H ! i)"
    and "opClientId (ccOp (H ! i)) = opClientId (ccOp (H ! j)) \<Longrightarrow> opSeqNum (ccOp (H ! i)) < opSeqNum (ccOp (H ! j)) \<Longrightarrow>
      ccReturn (H ! i) \<le> ccCall (H ! j)"
  using assms nth_mem [OF assms(2)] nth_mem [OF assms(3)] unfolding clerk_calls_def by (auto simp: distinct_conv_nth)

lemma explainsD:
  assumes "explains ops H p" "i < length H"
  shows "p i \<le> length ops" "\<exists>x < p i. ops ! x = ccOp (H ! i)"
    and "x < p i \<Longrightarrow> \<exists>j < length H. ops ! x = ccOp (H ! j) \<and> ccCall (H ! j) < ccReply (H ! i)"
  using assms by (auto simp: explains_def)

lemma pos_of_call:
  assumes H: "clerk_calls H" "explains ops H p" and i: "i < length H"
  shows "pos_of ops (ccOp (H ! i)) < p i" "ops ! pos_of ops (ccOp (H ! i)) = ccOp (H ! i)" "first_at ops (pos_of ops (ccOp (H ! i)))"
proof -
  let ?op = "ccOp (H ! i)"
  let ?f = "pos_of ops ?op"
  obtain x where x: "x < p i" "ops ! x = ?op" using explainsD(2) [OF H(2) i] by blast
  then have le: "?f \<le> x" unfolding pos_of_def by (intro Least_le) simp
  then show lt: "?f < p i" using x(1) by simp
  have req: "request (ops ! ?f) = request ?op" unfolding pos_of_def by (rule LeastI [of _ x]) (simp add: x(2))
  obtain j where j: "j < length H" "ops ! ?f = ccOp (H ! j)" using explainsD(3) [OF H(2) i lt] by blast
  then have "j = i" using clerk_callsD(1) [OF H(1) j(1) i] req by simp
  then show "ops ! ?f = ?op" using j(2) by simp
  have "request (ops ! y) \<noteq> request ?op" if "y < ?f" for y using not_less_Least [of y] that unfolding pos_of_def by blast
  then show "first_at ops ?f" unfolding first_at_def req by (force simp: in_set_conv_nth)
qed

lemma first_at_pos: "first_at ops x \<Longrightarrow> x < length ops \<Longrightarrow> x = pos_of ops (ops ! x)"
proof -
  assume f: "first_at ops x" and x: "x < length ops"
  have "pos_of ops (ops ! x) \<le> x" unfolding pos_of_def by (rule Least_le) simp
  moreover have "request (ops ! pos_of ops (ops ! x)) = request (ops ! x)" unfolding pos_of_def by (rule LeastI [of _ x]) simp
  moreover have "request (ops ! y) \<noteq> request (ops ! x)" if "y < x" for y
  proof
    assume "request (ops ! y) = request (ops ! x)"
    moreover have "ops ! y \<in> set (take x ops)" using that x by (auto simp: in_set_conv_nth)
    ultimately show False using f unfolding first_at_def by (metis imageI)
  qed
  ultimately show ?thesis by (metis order_le_less)
qed

text \<open>A call that begins after another has returned takes effect after everything that the answer to the other has seen.\<close>

lemma real_time:
  assumes H: "clerk_calls H" "explains ops H p" and i: "i < length H" and j: "j < length H" and le: "ccReturn (H ! i) \<le> ccCall (H ! j)"
  shows "p i \<le> pos_of ops (ccOp (H ! j))"
proof (rule ccontr)
  let ?f = "pos_of ops (ccOp (H ! j))"
  assume "\<not> p i \<le> ?f"
  then obtain j' where j': "j' < length H" "ops ! ?f = ccOp (H ! j')" "ccCall (H ! j') < ccReply (H ! i)"
    using explainsD(3) [OF H(2) i, of ?f] not_le by blast
  have "ccOp (H ! j') = ccOp (H ! j)" using j'(2) pos_of_call(2) [OF H j] by (rule trans [OF sym])
  then have "j' = j" by (intro clerk_callsD(1) [OF H(1) j'(1) j]) (rule arg_cong)
  then show False using j'(3) le clerk_callsD(5) [OF H(1) i i] by simp
qed

text \<open>In the log the requests of a clerk appear in the order of their numbers.\<close>

lemma log_disciplined:
  assumes H: "clerk_calls H" "explains ops H p" and i: "i < length H" and x: "x \<le> p i"
  shows "y \<le> x \<Longrightarrow> disciplined (request ` set (take y ops)) (drop y (take x ops))"
proof (induction "x - y" arbitrary: y)
  case (Suc d)
  then have y: "y < x" "y < p i" "y < length ops" using x explainsD(1) [OF H(2) i] by auto
  obtain a where a: "a < length H" "ops ! y = ccOp (H ! a)" using explainsD(3) [OF H(2) i y(2)] by blast
  have "n < opSeqNum (ops ! y)" if new: "request (ops ! y) \<notin> request ` set (take y ops)"
    and seen: "(c, n) \<in> request ` set (take y ops)" "c = opClientId (ops ! y)" for c n
  proof -
    obtain z where z: "z < y" "request (ops ! z) = (c, n)" using seen(1) by (auto simp: in_set_conv_nth)
    obtain b where b: "b < length H" "ops ! z = ccOp (H ! b)" using explainsD(3) [OF H(2) i, of z] z(1) y(2) by auto
    have n: "n = opSeqNum (ops ! z)" "opClientId (ops ! z) = opClientId (ops ! y)" using z(2) seen(2) by (auto simp: request_def)
    have "n \<noteq> opSeqNum (ops ! y)" using new seen by (auto simp: request_def)
    moreover have False if gt: "opSeqNum (ops ! y) < n"
    proof -
      have "ccReturn (H ! a) \<le> ccCall (H ! b)" using clerk_callsD(6) [OF H(1) a(1) b(1)] a(2) b(2) n gt by simp
      then have "p a \<le> pos_of ops (ccOp (H ! b))" by (rule real_time [OF H a(1) b(1)])
      moreover have "y = pos_of ops (ops ! y)" using first_at_pos [of ops y] new y(3) by (simp add: first_at_def)
      then have "y < p a" using pos_of_call(1) [OF H a(1)] a(2) by simp
      moreover have "pos_of ops (ccOp (H ! b)) \<le> z" using b(2) unfolding pos_of_def by (intro Least_le) simp
      ultimately show False using z(1) by simp
    qed
    ultimately show ?thesis by (meson linorder_neqE)
  qed
  then have step: "request (ops ! y) \<notin> request ` set (take y ops) \<longrightarrow>
      (\<forall>(c, n) \<in> request ` set (take y ops). c = opClientId (ops ! y) \<longrightarrow> n < opSeqNum (ops ! y))" by fastforce
  have "disciplined (request ` set (take (Suc y) ops)) (drop (Suc y) (take x ops))" by (rule Suc.hyps(1)) (use Suc.hyps(2) y in auto)
  moreover have "drop y (take x ops) = ops ! y # drop (Suc y) (take x ops)" using y by (simp add: Cons_nth_drop_Suc [symmetric])
  moreover have "request ` set (take (Suc y) ops) = insert (request (ops ! y)) (request ` set (take y ops))" using y(3) by (simp add: take_Suc_conv_app_nth)
  moreover have "0 < opSeqNum (ops ! y)" using clerk_callsD(2) [OF H(1) a(1) a(1)] a(2) by simp
  ultimately show ?case using step by simp
qed simp

lemma firsts_positions:
  "y \<le> x \<Longrightarrow> x \<le> length ops \<Longrightarrow> firsts (request ` set (take y ops)) (drop y (take x ops)) = map ((!) ops) (filter (first_at ops) [y..<x])"
proof (induction "x - y" arbitrary: y)
  case (Suc d)
  then have y: "y < x" "y < length ops" by auto
  have "firsts (request ` set (take (Suc y) ops)) (drop (Suc y) (take x ops)) = map ((!) ops) (filter (first_at ops) [Suc y..<x])"
    by (rule Suc.hyps(1)) (use Suc.hyps(2) Suc.prems y in auto)
  moreover have "drop y (take x ops) = ops ! y # drop (Suc y) (take x ops)" using y by (simp add: Cons_nth_drop_Suc [symmetric])
  moreover have "request ` set (take (Suc y) ops) = insert (request (ops ! y)) (request ` set (take y ops))" using y(2) by (simp add: take_Suc_conv_app_nth)
  moreover have "[y..<x] = y # [Suc y..<x]" using y(1) by (simp add: upt_conv_Cons)
  ultimately show ?case by (auto simp: first_at_def insert_absorb)
qed simp

text \<open>The map of a server is what the first appearances of writes make of it.\<close>

lemma explained_state:
  assumes H: "clerk_calls H" "explains ops H p" and i: "i < length H" and x: "x \<le> p i"
  shows "fst (kv_state ops x) = fold switch_op (map ((!) ops) (filter (\<lambda>z. first_at ops z \<and> \<not> is_get (ops ! z)) [0..<x])) Map.empty"
proof -
  have "seqs_match {} Map.empty" by (simp add: seqs_match_def seq_of_def)
  then have "fst (kv_state ops x) = fold switch_op (firsts {} (take x ops)) Map.empty"
    using firsts_apply [of "{}" "take x ops"] log_disciplined [OF H i x, of 0] by (simp add: kv_state_def)
  also have "firsts {} (take x ops) = map ((!) ops) (filter (first_at ops) [0..<x])"
    using firsts_positions [of 0 x ops] x explainsD(1) [OF H(2) i] by simp
  also have "fold switch_op \<dots> Map.empty = fold switch_op (map ((!) ops) (filter (\<lambda>z. \<not> is_get (ops ! z)) (filter (first_at ops) [0..<x]))) Map.empty"
    by (subst fold_switch_writes) (simp add: filter_map comp_def)
  finally show ?thesis by (simp add: conj_commute)
qed

section \<open>The linearization\<close>

text \<open>The points in the log at which the calls take effect: a write at its request, a get between two requests.\<close>

definition point :: "Op list \<Rightarrow> (nat \<Rightarrow> nat) \<Rightarrow> client_call list \<Rightarrow> nat \<Rightarrow> nat" where
  "point ops p H i = (if is_get (ccOp (H ! i)) then 2 * p i else 2 * pos_of ops (ccOp (H ! i)) + 1)"

lemma point_real_time:
  assumes H: "clerk_calls H" "explains ops H p" and i: "i < length H" and j: "j < length H" and le: "ccReturn (H ! i) \<le> ccCall (H ! j)"
  shows "point ops p H i < point ops p H j"
  using real_time [OF H i j le] pos_of_call(1) [OF H i] pos_of_call(1) [OF H j] by (auto simp: point_def)

lemma pos_of_inj:
  assumes H: "clerk_calls H" "explains ops H p" and i: "i < length H" and j: "j < length H"
    and eq: "pos_of ops (ccOp (H ! i)) = pos_of ops (ccOp (H ! j))"
  shows "i = j"
  using pos_of_call(2) [OF H i] pos_of_call(2) [OF H j] unfolding eq by (intro clerk_callsD(1) [OF H(1) i j]) (metis arg_cong)

text \<open>The writes before a get in the order of the points are those that its server has executed.\<close>

lemma writes_before:
  assumes H: "clerk_calls H" "explains ops H p" and L: "L = sort_key (point ops p H) [0..<length H]" "L = xs @ i # ys" and g: "is_get (ccOp (H ! i))"
  shows "map (\<lambda>j. pos_of ops (ccOp (H ! j))) (filter (\<lambda>j. \<not> is_get (ccOp (H ! j))) xs) = filter (\<lambda>z. first_at ops z \<and> \<not> is_get (ops ! z)) [0..<p i]"
proof -
  let ?f = "\<lambda>j. pos_of ops (ccOp (H ! j))" and ?k = "point ops p H" and ?w = "\<lambda>j. \<not> is_get (ccOp (H ! j))"
  have set: "set L = {0..<length H}" "distinct L" and srt: "sorted (map ?k L)" by (simp_all add: L(1))
  have i: "i < length H" and xs: "set xs \<subseteq> {0..<length H}" using set(1) L(2) by auto
  have ki: "?k i = 2 * p i" using g by (simp add: point_def)
  have before: "?k j \<le> ?k i" if "j \<in> set xs" for j using srt that unfolding L(2) by (auto simp: sorted_append)
  have after: "?k i \<le> ?k j" if "j \<in> set ys" for j using srt that unfolding L(2) by (auto simp: sorted_append)
  have "sorted (map ?f (filter ?w xs))"
  proof -
    have "sorted (map ?k xs)" using srt unfolding L(2) by (simp add: sorted_append)
    then have "sorted (map ?k (filter ?w xs))" by (rule sorted_filter)
    moreover have "map ?k (filter ?w xs) = map (\<lambda>j. 2 * ?f j + 1) (filter ?w xs)" by (simp add: point_def)
    ultimately have "sorted_wrt (\<lambda>a b. 2 * ?f a + 1 \<le> 2 * ?f b + 1) (filter ?w xs)" by (simp add: sorted_map)
    then show ?thesis unfolding sorted_map by (rule sorted_wrt_mono_rel [rotated]) simp
  qed
  moreover have "distinct (map ?f (filter ?w xs))"
    using set(2) xs pos_of_inj [OF H] unfolding L(2) distinct_map by (auto simp: inj_on_def subset_iff)
  moreover have "set (map ?f (filter ?w xs)) = set (filter (\<lambda>z. first_at ops z \<and> \<not> is_get (ops ! z)) [0..<p i])"
  proof (intro equalityI subsetI)
    fix z assume "z \<in> set (map ?f (filter ?w xs))"
    then obtain j where j: "j \<in> set xs" "?w j" "z = ?f j" by auto
    have jl: "j < length H" using j(1) xs by auto
    have "z < p i" using before [OF j(1)] j(2,3) ki by (simp add: point_def)
    then show "z \<in> set (filter (\<lambda>z. first_at ops z \<and> \<not> is_get (ops ! z)) [0..<p i])"
      using pos_of_call(2,3) [OF H jl] j(2,3) by simp
  next
    fix z assume "z \<in> set (filter (\<lambda>z. first_at ops z \<and> \<not> is_get (ops ! z)) [0..<p i])"
    then have z: "z < p i" "first_at ops z" "\<not> is_get (ops ! z)" by auto
    obtain j where j: "j < length H" "ops ! z = ccOp (H ! j)" using explainsD(3) [OF H(2) i z(1)] by blast
    have "z < length ops" using z(1) explainsD(1) [OF H(2) i] by simp
    then have zf: "z = ?f j" using first_at_pos [OF z(2)] j(2) by simp
    then have "?k j < ?k i" using z(1,3) j(2) ki by (simp add: point_def)
    moreover have "j \<in> set L" using j(1) set(1) by simp
    ultimately have "j \<in> set xs" using after [of j] unfolding L(2) by auto
    then show "z \<in> set (map ?f (filter ?w xs))" using zf z(3) j(2) by auto
  qed
  ultimately show ?thesis using sorted_wrt_filter [OF sorted_upt, of _ 0 "p i"] by (intro sorted_distinct_set_unique) simp_all
qed

lemma explained_reads:
  assumes H: "clerk_calls H" "explains ops H p" and L: "L = sort_key (point ops p H) [0..<length H]" "L = xs @ i # ys" and g: "is_get (ccOp (H ! i))"
  shows "fold switch_op (map (\<lambda>j. ccOp (H ! j)) xs) Map.empty = fst (kv_state ops (p i))"
proof -
  let ?w = "\<lambda>j. \<not> is_get (ccOp (H ! j))"
  have sub: "set (xs @ i # ys) = {0..<length H}" using L(1) unfolding L(2) [symmetric] by simp
  then have i: "i < length H" by auto
  have "fold switch_op (map (\<lambda>j. ccOp (H ! j)) xs) Map.empty = fold switch_op (map (\<lambda>j. ccOp (H ! j)) (filter ?w xs)) Map.empty"
    by (subst fold_switch_writes) (simp add: filter_map comp_def)
  also have "map (\<lambda>j. ccOp (H ! j)) (filter ?w xs) = map ((!) ops) (map (\<lambda>j. pos_of ops (ccOp (H ! j))) (filter ?w xs))"
  proof -
    have "ops ! pos_of ops (ccOp (H ! j)) = ccOp (H ! j)" if "j \<in> set xs" for j using pos_of_call(2) [OF H, of j] sub that by fastforce
    then show ?thesis by simp
  qed
  finally show ?thesis unfolding writes_before [OF H L g] explained_state [OF H i order_refl] .
qed

lemma explained_linearizable:
  assumes H: "clerk_calls H" "explains ops H p" and clock: "mono clock"
    and hist: "\<And>i. i < length H \<Longrightarrow> poInput (hist ! i) = KvIn (kv_input (ccOp (H ! i))) \<and> poOutput (hist ! i) = KvOut (out i) \<and>
      poCall (hist ! i) = clock (ccCall (H ! i)) \<and> poReturn (hist ! i) = clock (ccReturn (H ! i))" "length hist = length H"
    and out: "\<And>i. i < length H \<Longrightarrow> is_get (ccOp (H ! i)) \<Longrightarrow> koValue (out i) = val_of (fst (kv_state ops (p i))) (opKey (ccOp (H ! i)))"
  shows "ops_linearizable store_model hist"
  unfolding ops_linearizable_def
proof (intro exI conjI)
  let ?L = "sort_key (point ops p H) [0..<length H]"
  show "distinct ?L" "set ?L = {0..<length hist}" using hist(2) by simp_all
  have "\<not> poReturn (hist ! j) < poCall (hist ! i)" if "i < length H" "j < length H" "point ops p H i \<le> point ops p H j" for i j
  proof
    assume "poReturn (hist ! j) < poCall (hist ! i)"
    then have "clock (ccReturn (H ! j)) < clock (ccCall (H ! i))" using hist(1) that by simp
    then have "ccReturn (H ! j) \<le> ccCall (H ! i)" using monoD [OF clock, of "ccCall (H ! i)" "ccReturn (H ! j)"] by (metis leD le_cases)
    then show False using point_real_time [OF H that(2,1)] that(3) by simp
  qed
  moreover have "sorted_wrt (\<lambda>i j. point ops p H i \<le> point ops p H j) ?L" using sorted_sort_key [of "point ops p H"] unfolding sorted_map .
  ultimately show "sorted_wrt (\<lambda>i j. \<not> poReturn (hist ! j) < poCall (hist ! i)) ?L"
    by (auto intro: sorted_wrt_mono_rel [rotated])
  have "ops_run store_model hist (val_of Map.empty) ?L \<noteq> None"
  proof (rule store_run_reads [where op = "\<lambda>i. ccOp (H ! i)" and out = out])
    show "poInput (hist ! i) = KvIn (kv_input (ccOp (H ! i))) \<and> opType (ccOp (H ! i)) \<in> {OpGet, OpPut, OpAppend} \<and> poOutput (hist ! i) = KvOut (out i)"
      if "i \<in> set ?L" for i using that hist(1) [of i] clerk_callsD(3) [OF H(1), of i i] by simp
    show "koValue (out i) = val_of (fold switch_op (map (\<lambda>i. ccOp (H ! i)) xs) Map.empty) (opKey (ccOp (H ! i)))"
      if L: "?L = xs @ i # ys" and g: "is_get (ccOp (H ! i))" for xs i ys
    proof -
      have "i \<in> set ?L" unfolding L by simp
      then have "i < length H" by simp
      then show ?thesis using out [OF _ g] explained_reads [OF H refl L g] by simp
    qed
  qed
  moreover have "val_of Map.empty = mInit store_model" by (simp add: store_model_def val_of_def fun_eq_iff)
  ultimately show "ops_run store_model hist (mInit store_model) ?L \<noteq> None" by simp
qed

section \<open>Runs explain their histories\<close>

lemma reply_event:
  assumes "kv_sys gs mx n (take (Suc k) es) \<noteq> None" "k < length es" "kv_sys gs mx n (take k es) = Some sk" "length (nodes (syRaft sk)) = n"
    "map_option (\<lambda>(v, op, ch). op) (reply_of (es ! k)) = Some op"
  obtains v ch where "reply_of (es ! k) = Some (v, op, ch)" "v < n" "(op, ch) \<in> set (snd (syState sk ! v))" "ch \<in> full (kv_at sk v)"
proof -
  obtain v ch where e: "es ! k = SHandler v (AReply op ch)" using assms(5) by (cases "es ! k" rule: reply_of.cases) auto
  have "take (Suc k) es = take k es @ [es ! k]" using assms(2) by (rule take_Suc_conv_app_nth)
  then have "svc_step (kv_deliver gs) (kv_boot mx) kv_act (es ! k) sk \<noteq> None"
    using assms(1,3) by (auto simp: kv_sys_def svc_run_append)
  then have "v < n" "kv_act (AReply op ch) v (syState sk) \<noteq> None" using assms(4) by (auto simp: e split: if_splits)
  then show thesis using that [of v ch] e by (auto simp: Let_def split: prod.splits if_splits)
qed

lemma kv_explains:
  assumes run: "kv_sys gs mx n es = Some sy" "prompt (syRaft sy) \<or> n \<le> 3" "reads_in_order es" and H: "clerk_calls H" "serves es H"
  obtains ops p where "explains ops H p"
    "\<forall>i < length H. is_get (ccOp (H ! i)) \<longrightarrow> answer gs mx n es (H ! i) = val_of (fst (kv_state ops (p i))) (opKey (ccOp (H ! i)))"
proof -
  obtain ops where ops: "\<forall>k \<le> length es. \<exists>sk. kv_sys gs mx n (take k es) = Some sk \<and> length (nodes (syRaft sk)) = n \<and>
    (\<forall>v < n. \<exists>p \<le> length ops. kv_holds ops (syState sk) v p \<and> set (take p ops) \<subseteq> start_cmds (take k es))"
    by (rule kv_log [OF run])
  let ?good = "\<lambda>i p. p \<le> length ops \<and> request (ccOp (H ! i)) \<in> asked ops p \<and> set (take p ops) \<subseteq> start_cmds (take (ccReply (H ! i)) es) \<and>
    (is_get (ccOp (H ! i)) \<longrightarrow> answer gs mx n es (H ! i) = val_of (fst (kv_state ops p)) (opKey (ccOp (H ! i))))"
  have "\<exists>p. ?good i p" if i: "i < length H" for i
  proof -
    let ?k = "ccReply (H ! i)" and ?op = "ccOp (H ! i)"
    have k: "?k < length es" "map_option (\<lambda>(v, op, ch). op) (reply_of (es ! ?k)) = Some ?op" using H(2) i by (auto simp: serves_def)
    obtain sk where sk: "kv_sys gs mx n (take ?k es) = Some sk" "length (nodes (syRaft sk)) = n"
      and all: "\<forall>v < n. \<exists>p \<le> length ops. kv_holds ops (syState sk) v p \<and> set (take p ops) \<subseteq> start_cmds (take ?k es)"
      using ops [rule_format, of ?k] k(1) by auto
    have "kv_sys gs mx n (take (Suc ?k) es) \<noteq> None" using ops [rule_format, of "Suc ?k"] k(1) by auto
    then obtain v ch where v: "reply_of (es ! ?k) = Some (v, ?op, ch)" "v < n" "(?op, ch) \<in> set (snd (syState sk ! v))" "ch \<in> full (kv_at sk v)"
      by (rule reply_event [OF _ k(1) sk k(2)])
    obtain p where p: "p \<le> length ops" "kv_holds ops (syState sk) v p" "set (take p ops) \<subseteq> start_cmds (take ?k es)" using all v(2) by auto
    have "request ?op \<in> asked ops p" using p(2) v(3,4) by (auto simp: kv_holds_def acks_def split: prod.splits)
    moreover have "answer gs mx n es (H ! i) = val_of (fst (kv_state ops p)) (opKey ?op)" if "is_get ?op"
    proof -
      have "kvMap (kv_at sk v) = fst (kv_state ops p)" using p(2) by (simp add: kv_holds_def kv_view_def) (metis fst_conv)
      then show ?thesis using sk(1) v(1) that by (simp add: answer_def Get_select_def get_args_of_def val_of_def Let_def split: option.split)
    qed
    ultimately show ?thesis using p(1,3) by blast
  qed
  then obtain p where p: "\<And>i. i < length H \<Longrightarrow> ?good i (p i)" by metis
  have known: "\<exists>j < length H. ops ! x = ccOp (H ! j) \<and> ccCall (H ! j) < ccReply (H ! i)" if i: "i < length H" and x: "x < p i" for i x
  proof -
    have "ops ! x \<in> set (take (p i) ops)" using x p [OF i] by (auto simp: in_set_conv_nth)
    then obtain v where "SRaft (CStart v (ops ! x)) \<in> set (take (ccReply (H ! i)) es)" using p [OF i] by (auto simp: start_cmds_def)
    then obtain k where k: "k < ccReply (H ! i)" "k < length es" "es ! k = SRaft (CStart v (ops ! x))" by (auto simp: in_set_conv_nth)
    have "case start_of (es ! k) of Some op \<Rightarrow> (\<exists>h \<in> set H. ccOp h = op \<and> ccCall h \<le> k) | None \<Rightarrow> True"
      using H(2) k(2) unfolding serves_def by simp
    then obtain h where "h \<in> set H" "ccOp h = ops ! x" "ccCall h \<le> k" unfolding k(3) by auto
    then show ?thesis using k(1) by (metis in_set_conv_nth order_le_less_trans)
  qed
  have "\<exists>x < p i. ops ! x = ccOp (H ! i)" if i: "i < length H" for i
  proof -
    obtain x where x: "x < p i" "request (ops ! x) = request (ccOp (H ! i))" using p [OF i] by (auto simp: asked_def in_set_conv_nth)
    obtain j where "j < length H" "ops ! x = ccOp (H ! j)" using known [OF i x(1)] by blast
    then show ?thesis using clerk_callsD(1) [OF H(1) _ i] x by metis
  qed
  then have "explains ops H p" using p known by (simp add: explains_def)
  then show thesis using that p by blast
qed

section \<open>What the clerks record\<close>

lemma logged_linearizable:
  assumes "kv_sys gs mx n es = Some sy" "prompt (syRaft sy) \<or> n \<le> 3" "reads_in_order es" "clerk_calls H" "serves es H" "mono clock"
  shows "ops_linearizable store_model (map (logged gs mx n es clock) H)"
proof -
  obtain ops p where ops: "explains ops H p"
    "\<forall>i < length H. is_get (ccOp (H ! i)) \<longrightarrow> answer gs mx n es (H ! i) = val_of (fst (kv_state ops (p i))) (opKey (ccOp (H ! i)))"
    by (rule kv_explains [OF assms(1-5)])
  show ?thesis
    by (rule explained_linearizable [OF assms(4) ops(1) assms(6), where out = "\<lambda>i. \<lparr>koValue = answer gs mx n es (H ! i)\<rparr>"])
      (use ops(2) in \<open>auto simp: logged_def\<close>)
qed

end
