(* ===== verification/LabRpc.thy ===== *)
theory LabRpc
  imports Prelude "HOL-Library.Word"
begin

text \<open>
  The simulated network \<^verbatim>\<open>labrpc/labrpc.go\<close>. \<open>'n\<close> are the names of end points and servers, \<open>'w\<close> is the
  state of the objects that serve RPCs, and a method called with its encoded arguments runs a sequence of critical
  sections on that state and ends with the encoded reply. A server is known by its address, as the code compares pointers;
  \<open>None\<close> is \<^verbatim>\<open>nil\<close>, a panic or \<^verbatim>\<open>log.Fatalf\<close>.

  A call of \<^verbatim>\<open>processReq\<close> runs in a goroutine of its own, and the handler in another, which holds no lock of the
  network: the call and its handler are
  split where the code sleeps, waits or takes a lock, and the parts are events that interleave with
  those of other calls and with changes of the network. What the code draws at random is an argument
  of the event.
\<close>

type_synonym bytes = "8 word list"

section \<open>Messages, services and servers\<close>

record 'n reqMsg =
  rqEndname :: 'n
  rqSvcMeth :: string
  rqArgs :: bytes

record replyMsg =
  rpOk :: bool
  rpReply :: bytes

definition noReply :: replyMsg where
  "noReply = \<lparr>rpOk = False, rpReply = []\<rparr>"

text \<open>A method that is running: it has its reply, or it comes to its next critical section.\<close>

datatype 'w handler_run = Returned bytes | Section "'w \<Rightarrow> 'w \<times> 'w handler_run"

type_synonym 'w handler = "bytes \<Rightarrow> 'w handler_run"

text \<open>What reflection tells of a method: \<^verbatim>\<open>PkgPath\<close> (empty if exported), the numbers of
  parameters and results, and whether the third parameter is a pointer.\<close>

record 'w method_sig =
  msName :: string
  msPkgPath :: string
  msNumIn :: nat
  msIn2Ptr :: bool
  msNumOut :: nat
  msFunc :: "'w handler"

record 'w Service =
  svName :: string
  svMethods :: "string \<rightharpoonup> 'w handler"

fun add_methods :: "'w method_sig list \<Rightarrow> (string \<rightharpoonup> 'w handler) \<Rightarrow> (string \<rightharpoonup> 'w handler)" where
  "add_methods [] ms = ms"
| "add_methods (m # rest) ms =
     (if msPkgPath m \<noteq> [] \<or> msNumIn m \<noteq> 3 \<or> \<not> msIn2Ptr m \<or> msNumOut m \<noteq> 0
      then add_methods rest ms
      else add_methods rest (ms(msName m \<mapsto> msFunc m)))"

definition MakeService :: "string \<Rightarrow> 'w method_sig list \<Rightarrow> 'w Service" where
  "MakeService name ms = \<lparr>svName = name, svMethods = add_methods ms Map.empty\<rparr>"

text \<open>\<^verbatim>\<open>Service.dispatch\<close> up to the call of the method; what follows the call is in \<open>process_section\<close>.\<close>

definition Service_dispatch :: "'w Service \<Rightarrow> string \<Rightarrow> 'n reqMsg \<Rightarrow> 'w handler_run option" where
  "Service_dispatch svc methname req = map_option (\<lambda>f. f (rqArgs req)) (svMethods svc methname)"

record 'w Server =
  srServices :: "string \<rightharpoonup> 'w Service"
  srCount :: int

definition MakeServer :: "'w Server" where
  "MakeServer = \<lparr>srServices = Map.empty, srCount = 0\<rparr>"

definition AddService :: "'w Server \<Rightarrow> 'w Service \<Rightarrow> 'w Server" where
  "AddService rs svc = rs\<lparr>srServices := (srServices rs)(svName svc \<mapsto> svc)\<rparr>"

text \<open>\<^verbatim>\<open>strings.LastIndex(s, ".")\<close>\<close>

fun last_dot :: "string \<Rightarrow> nat \<Rightarrow> int \<Rightarrow> int" where
  "last_dot [] i r = r"
| "last_dot (c # cs) i r = last_dot cs (i + 1) (if c = CHR ''.'' then int i else r)"

definition Server_dispatch :: "'w Server \<Rightarrow> 'n reqMsg \<Rightarrow> ('w Server \<times> 'w handler_run) option" where
  "Server_dispatch rs req = do {
     let rs = rs\<lparr>srCount := srCount rs + 1\<rparr>;
     let dot = last_dot (rqSvcMeth req) 0 (-1);
     serviceName \<leftarrow> slice_to (rqSvcMeth req) dot;
     methodName \<leftarrow> slice_from (rqSvcMeth req) (dot + 1);
     service \<leftarrow> srServices rs serviceName;
     h \<leftarrow> Service_dispatch service methodName req;
     Some (rs, h)
   }"

definition Server_GetCount :: "'w Server \<Rightarrow> int" where
  "Server_GetCount rs = srCount rs"

section \<open>The network\<close>

record 'n ClientEnd =
  ceEndname :: 'n

record 'n Network =
  nwReliable :: bool
  nwLongDelays :: bool
  nwLongReordering :: bool
  nwEnds :: "'n \<rightharpoonup> 'n ClientEnd"
  nwEnabled :: "'n \<rightharpoonup> bool"
  nwServers :: "'n \<rightharpoonup> nat option"
  nwConnections :: "'n \<rightharpoonup> 'n option"
  nwDone :: bool
  nwCount :: "32 word"
  nwBytes :: "64 word"

definition MakeNetwork :: "'n Network" where
  "MakeNetwork = \<lparr>nwReliable = True, nwLongDelays = False, nwLongReordering = False, nwEnds = Map.empty,
     nwEnabled = Map.empty, nwServers = Map.empty, nwConnections = Map.empty, nwDone = False,
     nwCount = 0, nwBytes = 0\<rparr>"

definition Cleanup :: "'n Network \<Rightarrow> 'n Network option" where
  "Cleanup rn = (if nwDone rn then None else Some (rn\<lparr>nwDone := True\<rparr>))"

definition Reliable :: "bool \<Rightarrow> 'n Network \<Rightarrow> 'n Network" where
  "Reliable yes rn = rn\<lparr>nwReliable := yes\<rparr>"

definition LongReordering :: "bool \<Rightarrow> 'n Network \<Rightarrow> 'n Network" where
  "LongReordering yes rn = rn\<lparr>nwLongReordering := yes\<rparr>"

definition LongDelays :: "bool \<Rightarrow> 'n Network \<Rightarrow> 'n Network" where
  "LongDelays yes rn = rn\<lparr>nwLongDelays := yes\<rparr>"

text \<open>Reading a Go map: the zero value for a missing key.\<close>

definition isEnabled :: "'n Network \<Rightarrow> 'n \<Rightarrow> bool" where
  "isEnabled rn e = (nwEnabled rn e = Some True)"

definition connectionOf :: "'n Network \<Rightarrow> 'n \<Rightarrow> 'n option" where
  "connectionOf rn e = (case nwConnections rn e of None \<Rightarrow> None | Some s \<Rightarrow> s)"

definition serverOf :: "'n Network \<Rightarrow> 'n \<Rightarrow> nat option" where
  "serverOf rn s = (case nwServers rn s of None \<Rightarrow> None | Some p \<Rightarrow> p)"

definition readEndnameInfo :: "'n Network \<Rightarrow> 'n \<Rightarrow> bool \<times> 'n option \<times> nat option \<times> bool \<times> bool" where
  "readEndnameInfo rn endname =
     (let enabled = isEnabled rn endname;
          servername = connectionOf rn endname;
          server = (case servername of None \<Rightarrow> None | Some s \<Rightarrow> serverOf rn s)
      in (enabled, servername, server, nwReliable rn, nwLongReordering rn))"

definition isServerDead :: "'n Network \<Rightarrow> 'n \<Rightarrow> 'n \<Rightarrow> nat \<Rightarrow> bool" where
  "isServerDead rn endname servername server =
     (\<not> isEnabled rn endname \<or> serverOf rn servername \<noteq> Some server)"

definition MakeEnd :: "'n Network \<Rightarrow> 'n \<Rightarrow> ('n Network \<times> 'n ClientEnd) option" where
  "MakeEnd rn endname =
     (case nwEnds rn endname of
        Some _ \<Rightarrow> None
      | None \<Rightarrow> (let e = \<lparr>ceEndname = endname\<rparr> in
          Some (rn\<lparr>nwEnds := (nwEnds rn)(endname \<mapsto> e), nwEnabled := (nwEnabled rn)(endname \<mapsto> False),
                   nwConnections := (nwConnections rn)(endname \<mapsto> None)\<rparr>, e)))"

definition AddServer :: "'n \<Rightarrow> nat \<Rightarrow> 'n Network \<Rightarrow> 'n Network" where
  "AddServer servername rs rn = rn\<lparr>nwServers := (nwServers rn)(servername \<mapsto> Some rs)\<rparr>"

definition DeleteServer :: "'n \<Rightarrow> 'n Network \<Rightarrow> 'n Network" where
  "DeleteServer servername rn = rn\<lparr>nwServers := (nwServers rn)(servername \<mapsto> None)\<rparr>"

definition Connect :: "'n \<Rightarrow> 'n \<Rightarrow> 'n Network \<Rightarrow> 'n Network" where
  "Connect endname servername rn = rn\<lparr>nwConnections := (nwConnections rn)(endname \<mapsto> Some servername)\<rparr>"

definition Enable :: "'n \<Rightarrow> bool \<Rightarrow> 'n Network \<Rightarrow> 'n Network" where
  "Enable endname enabled rn = rn\<lparr>nwEnabled := (nwEnabled rn)(endname \<mapsto> enabled)\<rparr>"

definition GetCount :: "(nat \<rightharpoonup> 'w Server) \<Rightarrow> 'n Network \<Rightarrow> 'n \<Rightarrow> int option" where
  "GetCount servers rn servername = do {
     p \<leftarrow> serverOf rn servername;
     svr \<leftarrow> servers p;
     Some (Server_GetCount svr)
   }"

definition GetTotalCount :: "'n Network \<Rightarrow> int" where
  "GetTotalCount rn = sint (nwCount rn)"

definition GetTotalBytes :: "'n Network \<Rightarrow> int" where
  "GetTotalBytes rn = sint (nwBytes rn)"

section \<open>Calls in progress\<close>

text \<open>
  Where a call of \<^verbatim>\<open>processReq\<close> is: before \<^verbatim>\<open>readEndnameInfo\<close>; before the handler is started; waiting for the
  handler; before the final check, with \<^verbatim>\<open>replyOK\<close>; or with a reply on \<^verbatim>\<open>replyCh\<close>.
\<close>

datatype phase = PRead | PDeliver | PWait | PFinal bool | PDone replyMsg

record 'n call =
  caReq :: "'n reqMsg"
  caServername :: "'n option"
  caServer :: "nat option"
  caReliable :: bool
  caReorder :: bool
  caPhase :: phase
  caStarted :: bool
  caEch :: "replyMsg option"

record ('n, 'w) rpcnet =
  rnNet :: "'n Network"
  rnServers :: "nat \<rightharpoonup> 'w Server"
  rnWorld :: 'w
  rnCalls :: "'n call list"
  rnRunning :: "nat \<rightharpoonup> 'w handler_run"

text \<open>The first half of \<^verbatim>\<open>ClientEnd.Call\<close>: \<open>None\<close> is the early \<^verbatim>\<open>return false\<close> on a destroyed network. The
  goroutine of \<^verbatim>\<open>MakeNetwork\<close> counts the request and starts \<^verbatim>\<open>processReq\<close>.\<close>

definition Call_send :: "('n, 'w) rpcnet \<Rightarrow> 'n ClientEnd \<Rightarrow> string \<Rightarrow> bytes \<Rightarrow> ('n, 'w) rpcnet option" where
  "Call_send s e svcMeth args =
     (if nwDone (rnNet s) then None
      else let req = \<lparr>rqEndname = ceEndname e, rqSvcMeth = svcMeth, rqArgs = args\<rparr>; rn = rnNet s in
        Some (s\<lparr>rnNet := rn\<lparr>nwCount := nwCount rn + 1, nwBytes := nwBytes rn + of_nat (length args)\<rparr>,
                rnCalls := rnCalls s @ [\<lparr>caReq = req, caServername = None, caServer = None, caReliable = True,
                  caReorder = False, caPhase = PRead, caStarted = False, caEch = None\<rparr>]\<rparr>))"

text \<open>The second half: \<open>dec\<close> decodes the reply; a reply that cannot be decoded is fatal.\<close>

definition Call_finish :: "(bytes \<Rightarrow> 'r option) \<Rightarrow> replyMsg \<Rightarrow> (bool \<times> 'r option) option" where
  "Call_finish dec rep =
     (if rpOk rep then do { r \<leftarrow> dec (rpReply rep); Some (True, Some r) } else Some (False, None))"

definition process_read :: "'n Network \<Rightarrow> 'n call \<Rightarrow> 'n call" where
  "process_read rn c =
     (let (enabled, servername, server, reliable, longreordering) = readEndnameInfo rn (rqEndname (caReq c)) in
      if enabled \<and> servername \<noteq> None \<and> server \<noteq> None
      then c\<lparr>caServername := servername, caServer := server, caReliable := reliable,
             caReorder := longreordering, caPhase := PDeliver\<rparr>
      else c\<lparr>caPhase := PDone noReply\<rparr>)"

definition process_deliver :: "bool \<Rightarrow> 'n call \<Rightarrow> 'n call" where
  "process_deliver lost c =
     (if \<not> caReliable c \<and> lost then c\<lparr>caPhase := PDone noReply\<rparr>
      else c\<lparr>caPhase := PWait, caStarted := True\<rparr>)"

text \<open>
  The goroutine of call \<open>k\<close> that runs the handler: it starts the method, which then executes one critical section after the other,
  whether or not anybody still waits for it, and at the end puts the encoded reply on \<^verbatim>\<open>ech\<close>.
\<close>

definition process_dispatch :: "nat \<Rightarrow> ('n, 'w) rpcnet \<Rightarrow> ('n, 'w) rpcnet option" where
  "process_dispatch k s = do {
     let c = rnCalls s ! k;
     p \<leftarrow> caServer c;
     server \<leftarrow> rnServers s p;
     (server, h) \<leftarrow> Server_dispatch server (caReq c);
     Some (s\<lparr>rnServers := (rnServers s)(p \<mapsto> server), rnRunning := (rnRunning s)(k \<mapsto> h)\<rparr>)
   }"

definition process_section :: "nat \<Rightarrow> ('n, 'w) rpcnet \<Rightarrow> ('n, 'w) rpcnet option" where
  "process_section k s = do {
     h \<leftarrow> rnRunning s k;
     Some (case h of
         Section f \<Rightarrow> (let (w, h) = f (rnWorld s) in s\<lparr>rnWorld := w, rnRunning := (rnRunning s)(k \<mapsto> h)\<rparr>)
       | Returned reply \<Rightarrow>
           s\<lparr>rnCalls := (rnCalls s)[k := (rnCalls s ! k)\<lparr>caEch := Some \<lparr>rpOk = True, rpReply = reply\<rparr>\<rparr>],
             rnRunning := (rnRunning s)(k := None)\<rparr>)
   }"

text \<open>The two cases of the \<^verbatim>\<open>select\<close> of the waiting loop.\<close>

definition process_take :: "'n call \<Rightarrow> 'n call" where
  "process_take c = c\<lparr>caPhase := PFinal True\<rparr>"

definition process_tick :: "'n Network \<Rightarrow> 'n call \<Rightarrow> 'n call" where
  "process_tick rn c =
     (if isServerDead rn (rqEndname (caReq c)) (the (caServername c)) (the (caServer c))
      then c\<lparr>caPhase := PFinal False\<rparr> else c)"

text \<open>
  The end of \<^verbatim>\<open>processReq\<close>: \<open>lost\<close> is whether the reply is lost on an unreliable network. A reply delayed by
  long reordering is sent later, by a timer, as it is.
\<close>

definition process_final :: "bool \<Rightarrow> nat \<Rightarrow> ('n, 'w) rpcnet \<Rightarrow> ('n, 'w) rpcnet" where
  "process_final lost k s =
     (let c = rnCalls s ! k; rn = rnNet s;
          serverDead = isServerDead rn (rqEndname (caReq c)) (the (caServername c)) (the (caServer c))
      in if caPhase c = PFinal False \<or> serverDead then s\<lparr>rnCalls := (rnCalls s)[k := c\<lparr>caPhase := PDone noReply\<rparr>]\<rparr>
         else if \<not> caReliable c \<and> lost then s\<lparr>rnCalls := (rnCalls s)[k := c\<lparr>caPhase := PDone noReply\<rparr>]\<rparr>
         else let r = the (caEch c) in
           s\<lparr>rnNet := rn\<lparr>nwBytes := nwBytes rn + of_nat (length (rpReply r))\<rparr>,
             rnCalls := (rnCalls s)[k := c\<lparr>caPhase := PDone r\<rparr>]\<rparr>)"

datatype 'n rpc_event =
    ECall "'n ClientEnd" string bytes
  | ERead nat
  | EDeliver nat bool
  | EDispatch nat
  | ESection nat
  | ETake nat
  | ETick nat
  | EFinal nat bool
  | EAdmin "'n Network \<Rightarrow> 'n Network"

text \<open>
  When an event can happen. An administrative event is one of the operations on the network that do not
  touch the counters.
\<close>

definition admin_ok :: "('n Network \<Rightarrow> 'n Network) \<Rightarrow> bool" where
  "admin_ok f \<longleftrightarrow> (\<exists>b. f = Reliable b) \<or> (\<exists>b. f = LongReordering b) \<or> (\<exists>b. f = LongDelays b) \<or>
     (\<exists>n p. f = AddServer n p) \<or> (\<exists>n. f = DeleteServer n) \<or> (\<exists>e n. f = Connect e n) \<or> (\<exists>e b. f = Enable e b)"

fun rpc_enabled :: "'n rpc_event \<Rightarrow> ('n, 'w) rpcnet \<Rightarrow> bool" where
  "rpc_enabled (ECall e m a) s = True"
| "rpc_enabled (ERead k) s = (k < length (rnCalls s) \<and> caPhase (rnCalls s ! k) = PRead)"
| "rpc_enabled (EDeliver k lost) s = (k < length (rnCalls s) \<and> caPhase (rnCalls s ! k) = PDeliver)"
| "rpc_enabled (EDispatch k) s =
     (k < length (rnCalls s) \<and> caStarted (rnCalls s ! k) \<and> caEch (rnCalls s ! k) = None \<and> rnRunning s k = None)"
| "rpc_enabled (ESection k) s = (k < length (rnCalls s) \<and> rnRunning s k \<noteq> None)"
| "rpc_enabled (ETake k) s = (k < length (rnCalls s) \<and> caPhase (rnCalls s ! k) = PWait \<and> caEch (rnCalls s ! k) \<noteq> None)"
| "rpc_enabled (ETick k) s = (k < length (rnCalls s) \<and> caPhase (rnCalls s ! k) = PWait)"
| "rpc_enabled (EFinal k lost) s = (k < length (rnCalls s) \<and> (\<exists>b. caPhase (rnCalls s ! k) = PFinal b))"
| "rpc_enabled (EAdmin f) s = admin_ok f"

fun rpc_exec :: "'n rpc_event \<Rightarrow> ('n, 'w) rpcnet \<Rightarrow> ('n, 'w) rpcnet option" where
  "rpc_exec (ECall e m a) s = Call_send s e m a"
| "rpc_exec (ERead k) s = Some (s\<lparr>rnCalls := (rnCalls s)[k := process_read (rnNet s) (rnCalls s ! k)]\<rparr>)"
| "rpc_exec (EDeliver k lost) s = Some (s\<lparr>rnCalls := (rnCalls s)[k := process_deliver lost (rnCalls s ! k)]\<rparr>)"
| "rpc_exec (EDispatch k) s = process_dispatch k s"
| "rpc_exec (ESection k) s = process_section k s"
| "rpc_exec (ETake k) s = Some (s\<lparr>rnCalls := (rnCalls s)[k := process_take (rnCalls s ! k)]\<rparr>)"
| "rpc_exec (ETick k) s = Some (s\<lparr>rnCalls := (rnCalls s)[k := process_tick (rnNet s) (rnCalls s ! k)]\<rparr>)"
| "rpc_exec (EFinal k lost) s = Some (process_final lost k s)"
| "rpc_exec (EAdmin f) s = Some (s\<lparr>rnNet := f (rnNet s)\<rparr>)"

definition rpc_step :: "'n rpc_event \<Rightarrow> ('n, 'w) rpcnet \<Rightarrow> ('n, 'w) rpcnet option" where
  "rpc_step e s = (if rpc_enabled e s then rpc_exec e s else None)"

end
