(* ===== verification/RaftHarness.thy ===== *)
theory RaftHarness
  imports RaftApply LabRpc
begin

text \<open>
  The test harness \<^verbatim>\<open>raft/config.go\<close>: it builds a network of peers, crashes, restarts and disconnects
  them, reads what they apply and judges it.

  Every slice of a \<^verbatim>\<open>config\<close> has length \<^verbatim>\<open>n\<close> (but for the rows of \<^verbatim>\<open>endnames\<close>, which are \<^verbatim>\<open>nil\<close> until the
  server is started), and \<^verbatim>\<open>make_config\<close> and the tests use the numbers below \<^verbatim>\<open>n\<close> as servers. \<open>None\<close> is a panic or an
  exit by \<^verbatim>\<open>log.Fatalf\<close> or \<^verbatim>\<open>t.Fatal\<close> outside the checks; what the checks complain about are values. A
  snapshot is the stream of an index and a log.

  The peer in \<^verbatim>\<open>rafts[i]\<close> and \<^verbatim>\<open>saved[i]\<close> share one persister: \<^verbatim>\<open>start1\<close> passes \<^verbatim>\<open>saved[i]\<close> to
  \<^verbatim>\<open>Make\<close>, and \<^verbatim>\<open>crash1\<close> gives \<^verbatim>\<open>saved[i]\<close> a copy and clears \<^verbatim>\<open>rafts[i]\<close>. So while there is a peer, \<^verbatim>\<open>saved[i]\<close> is
  read from it (\<open>live_saved\<close>).
\<close>

section \<open>State\<close>

datatype 'c hgob = HInt int | HLog "'c option list"

fun hInt :: "'c hgob \<Rightarrow> int option" where
  "hInt (HInt i) = Some i"
| "hInt _ = None"

fun hLog :: "'c hgob \<Rightarrow> 'c option list option" where
  "hLog (HLog l) = Some l"
| "hLog _ = None"

text \<open>The keys of the tables of the network: strings for end points, numbers for servers.\<close>

datatype netname = EndName string | ServerName nat

record 'c config =
  cfNet :: "netname Network"
  cfN :: nat
  cfRafts :: "('c, 'c hgob) Raft option list"
  cfApplyErr :: "string list"
  cfConnected :: "bool list"
  cfSaved :: "('c, 'c hgob) Persister option list"
  cfEndnames :: "string list list"
  cfLogs :: "(int \<rightharpoonup> 'c option) list"
  cfLastApplied :: "int list"
  cfMaxIndex :: int
  cfFinished :: bool
  cfStart :: int
  cfT0 :: int
  cfRpcs0 :: int
  cfCmds0 :: int
  cfBytes0 :: int
  cfMaxIndex0 :: int

datatype 'c apply_error =
    NilSnapshot
  | SnapshotDecode
  | SnapshotMismatch nat
  | CommitMismatch int nat "'c option" nat "'c option"
  | OutOfOrder nat int
  | ExpectedIndex nat int int

section \<open>Connections\<close>

definition endname :: "'c config \<Rightarrow> nat \<Rightarrow> nat \<Rightarrow> string option" where
  "endname cfg i j = do { row \<leftarrow> nth_int (cfEndnames cfg) (int i); nth_int row (int j) }"

definition enable_ends :: "string list \<Rightarrow> bool \<Rightarrow> netname Network \<Rightarrow> netname Network" where
  "enable_ends es b = fold (\<lambda>e. Enable (EndName e) b) es"

definition harness_connect :: "'c config \<Rightarrow> nat \<Rightarrow> 'c config option" where
  "harness_connect cfg i = do {
     connected \<leftarrow> update_int (cfConnected cfg) (int i) True;
     let js = filter (\<lambda>j. connected ! j) [0..<cfN cfg];
     outgoing \<leftarrow> those (map (\<lambda>j. endname cfg i j) js);
     incoming \<leftarrow> those (map (\<lambda>j. endname cfg j i) js);
     Some (cfg\<lparr>cfConnected := connected,
               cfNet := enable_ends incoming True (enable_ends outgoing True (cfNet cfg))\<rparr>)
   }"

definition harness_disconnect :: "'c config \<Rightarrow> nat \<Rightarrow> 'c config option" where
  "harness_disconnect cfg i = do {
     connected \<leftarrow> update_int (cfConnected cfg) (int i) False;
     outgoing \<leftarrow> those (map (\<lambda>j. endname cfg i j) (filter (\<lambda>j. cfEndnames cfg ! i \<noteq> []) [0..<cfN cfg]));
     incoming \<leftarrow> those (map (\<lambda>j. endname cfg j i) (filter (\<lambda>j. cfEndnames cfg ! j \<noteq> []) [0..<cfN cfg]));
     Some (cfg\<lparr>cfConnected := connected,
               cfNet := enable_ends incoming False (enable_ends outgoing False (cfNet cfg))\<rparr>)
   }"

section \<open>What the appliers check\<close>

text \<open>The loop over \<^verbatim>\<open>cfg.logs\<close>: a later mismatch overwrites the message of an earlier one.\<close>

fun checkLogs_loop :: "nat \<Rightarrow> int \<Rightarrow> 'c option \<Rightarrow> (int \<rightharpoonup> 'c option) list \<Rightarrow> nat \<Rightarrow> 'c apply_error option \<Rightarrow> 'c apply_error option" where
  "checkLogs_loop i index v [] j err = err"
| "checkLogs_loop i index v (l # ls) j err =
     checkLogs_loop i index v ls (j + 1)
       (case l index of
          Some old \<Rightarrow> if old \<noteq> v then Some (CommitMismatch index i v j old) else err
        | None \<Rightarrow> err)"

definition checkLogs :: "'c config \<Rightarrow> nat \<Rightarrow> ('c, 'b) ApplyMsg \<Rightarrow> 'c config \<times> 'c apply_error option \<times> bool" where
  "checkLogs cfg i m =
     (let v = amCommand m; index = amCommandIndex m;
          err = checkLogs_loop i index v (cfLogs cfg) 0 None;
          prevok = ((cfLogs cfg ! i) (index - 1) \<noteq> None)
      in (cfg\<lparr>cfLogs := (cfLogs cfg)[i := (cfLogs cfg ! i)(index \<mapsto> v)],
              cfMaxIndex := (if index > cfMaxIndex cfg then index else cfMaxIndex cfg)\<rparr>, err, prevok))"

text \<open>One message of the loop of \<^verbatim>\<open>applier\<close>; an error ends the program.\<close>

definition applier :: "'c config \<Rightarrow> nat \<Rightarrow> ('c, 'b) ApplyMsg \<Rightarrow> 'c apply_error + 'c config" where
  "applier cfg i m =
     (if \<not> amCommandValid m then Inr cfg
      else let (cfg, err, prevok) = checkLogs cfg i m;
               err = (if amCommandIndex m > 1 \<and> \<not> prevok then Some (OutOfOrder i (amCommandIndex m)) else err)
           in case err of Some e \<Rightarrow> Inl e | None \<Rightarrow> Inr cfg)"

definition decodeHarness :: "'c hgob list \<Rightarrow> (int \<times> 'c option list) option" where
  "decodeHarness d = do {
     (lastIncludedIndex, d) \<leftarrow> Decode hInt d;
     (xlog, d) \<leftarrow> Decode hLog d;
     Some (lastIncludedIndex, xlog)
   }"

definition ingestSnap :: "'c config \<Rightarrow> nat \<Rightarrow> 'c hgob list \<Rightarrow> int \<Rightarrow> 'c apply_error + 'c config" where
  "ingestSnap cfg i data index =
     (if data = [] then Inl NilSnapshot
      else case decodeHarness data of
        None \<Rightarrow> Inl SnapshotDecode
      | Some (lastIncludedIndex, xlog) \<Rightarrow>
          if index \<noteq> - 1 \<and> index \<noteq> lastIncludedIndex then Inl (SnapshotMismatch i)
          else Inr (cfg\<lparr>cfLogs := (cfLogs cfg)[i := (\<lambda>j. if 0 \<le> j \<and> j < int (length xlog) then Some (xlog ! nat j) else None)],
                        cfLastApplied := (cfLastApplied cfg)[i := lastIncludedIndex]\<rparr>))"

definition SnapShotInterval :: int where
  "SnapShotInterval = 10"

text \<open>The snapshot of \<^verbatim>\<open>applierSnap\<close>: the index and the log up to it, \<^verbatim>\<open>nil\<close> where there is no entry.\<close>

definition encodeHarness :: "int \<times> 'c option list \<Rightarrow> 'c hgob list" where
  "encodeHarness = (\<lambda>(index, xlog). Encode (Encode [] (HInt index)) (HLog xlog))"

definition snapLog :: "(int \<rightharpoonup> 'c option) \<Rightarrow> int \<Rightarrow> 'c option list" where
  "snapLog l index = map (\<lambda>j. case l j of Some c \<Rightarrow> c | None \<Rightarrow> None) [0..index]"

text \<open>
  One message of the loop of \<^verbatim>\<open>applierSnap\<close>. The second component of the result is the call of
  \<^verbatim>\<open>rf.Snapshot\<close>, which the peer executes on its own lock.
\<close>

definition applierSnap :: "'c config \<Rightarrow> nat \<Rightarrow> ('c, 'c hgob) ApplyMsg \<Rightarrow> 'c apply_error + 'c config \<times> (int \<times> 'c hgob list) option" where
  "applierSnap cfg i m =
     (if amSnapshotValid m then
        (case ingestSnap cfg i (amSnapshot m) (amSnapshotIndex m) of Inl e \<Rightarrow> Inl e | Inr cfg \<Rightarrow> Inr (cfg, None))
      else if amCommandValid m then
        let index = amCommandIndex m; expected = cfLastApplied cfg ! i + 1;
            (cfg, err) =
              (if index \<noteq> expected then (cfg, Some (ExpectedIndex i expected index))
               else let (cfg, err, prevok) = checkLogs cfg i m
                    in (cfg, if index > 1 \<and> \<not> prevok then Some (OutOfOrder i index) else err));
            cfg = cfg\<lparr>cfLastApplied := (cfLastApplied cfg)[i := index]\<rparr>;
            req = (if (index + 1) mod SnapShotInterval = 0
                   then Some (index, encodeHarness (index, snapLog (cfLogs cfg ! i) index)) else None)
        in case err of Some e \<Rightarrow> Inl e | None \<Rightarrow> Inr (cfg, req)
      else Inr (cfg, None))"

section \<open>Crashing and starting servers\<close>

definition live_saved :: "'c config \<Rightarrow> nat \<Rightarrow> ('c, 'c hgob) Persister option" where
  "live_saved cfg i = (case cfRafts cfg ! i of Some rf \<Rightarrow> Some (persister rf) | None \<Rightarrow> cfSaved cfg ! i)"

text \<open>\<^verbatim>\<open>crash1\<close>, with the killed peer, to which nothing refers any more.\<close>

definition crash1 :: "'c config \<Rightarrow> nat \<Rightarrow> ('c config \<times> ('c, 'c hgob) Raft option) option" where
  "crash1 cfg i = do {
     cfg \<leftarrow> harness_disconnect cfg i;
     let cfg = cfg\<lparr>cfNet := DeleteServer (ServerName i) (cfNet cfg)\<rparr>;
     let copied = map_option Copy (live_saved cfg i);
     let gone = map_option Kill (cfRafts cfg ! i);
     let fresh = map_option (\<lambda>ps. Save MakePersister (ReadRaftState ps) (ReadSnapshot ps)) copied;
     Some (cfg\<lparr>cfRafts := (cfRafts cfg)[i := None], cfSaved := (cfSaved cfg)[i := fresh]\<rparr>, gone)
   }"

fun make_ends :: "string list \<Rightarrow> nat \<Rightarrow> netname Network \<Rightarrow> netname Network option" where
  "make_ends [] j rn = Some rn"
| "make_ends (e # es) j rn = do {
     (rn, ce) \<leftarrow> MakeEnd rn (EndName e);
     make_ends es (j + 1) (Connect (EndName e) (ServerName j) rn)
   }"

text \<open>The fresh persister of \<^verbatim>\<open>start1\<close>, with the snapshot in it taken into \<^verbatim>\<open>cfg.logs\<close>.\<close>

definition fresh_saved :: "'c config \<Rightarrow> nat \<Rightarrow> ('c config \<times> ('c, 'c hgob) Persister) option" where
  "fresh_saved cfg i =
     (case live_saved cfg i of
        Some ps \<Rightarrow>
          let ps = Copy ps; data = ReadSnapshot ps in
          if data \<noteq> [] then
            (case ingestSnap cfg i data (- 1) of Inl e \<Rightarrow> None | Inr cfg \<Rightarrow> Some (cfg, ps))
          else Some (cfg, ps)
      | None \<Rightarrow> Some (cfg, MakePersister))"

text \<open>
  \<^verbatim>\<open>start1\<close>: \<open>names\<close> are the random names of the new end points, \<open>srv\<close> is the address of the new
  \<^verbatim>\<open>labrpc.Server\<close> and \<open>now\<close> the time at which \<^verbatim>\<open>Make\<close> reads the clock.
\<close>

definition start1 :: "'c config \<Rightarrow> nat \<Rightarrow> (nat \<Rightarrow> string) \<Rightarrow> nat \<Rightarrow> int \<Rightarrow> 'c config option" where
  "start1 cfg i names srv now = do {
     (cfg, gone) \<leftarrow> crash1 cfg i;
     let row = map names [0..<cfN cfg];
     rn \<leftarrow> make_ends row 0 (cfNet cfg);
     let cfg = cfg\<lparr>cfEndnames := (cfEndnames cfg)[i := row], cfNet := rn,
                   cfLastApplied := (cfLastApplied cfg)[i := 0]\<rparr>;
     (cfg, ps) \<leftarrow> fresh_saved cfg i;
     rf \<leftarrow> Make (cfN cfg) i ps now;
     Some (cfg\<lparr>cfSaved := (cfSaved cfg)[i := Some ps], cfRafts := (cfRafts cfg)[i := Some rf],
               cfNet := AddServer (ServerName i) srv (cfNet cfg)\<rparr>)
   }"

definition setunreliable :: "bool \<Rightarrow> 'c config \<Rightarrow> 'c config" where
  "setunreliable unrel cfg = cfg\<lparr>cfNet := Reliable (\<not> unrel) (cfNet cfg)\<rparr>"

definition setlongreordering :: "bool \<Rightarrow> 'c config \<Rightarrow> 'c config" where
  "setlongreordering longrel cfg = cfg\<lparr>cfNet := LongReordering longrel (cfNet cfg)\<rparr>"

definition empty_config :: "nat \<Rightarrow> int \<Rightarrow> 'c config" where
  "empty_config n now = \<lparr>cfNet = MakeNetwork, cfN = n, cfRafts = replicate n None, cfApplyErr = replicate n [],
     cfConnected = replicate n False, cfSaved = replicate n None, cfEndnames = replicate n [],
     cfLogs = replicate n Map.empty, cfLastApplied = replicate n 0, cfMaxIndex = 0, cfFinished = False,
     cfStart = now, cfT0 = 0, cfRpcs0 = 0, cfCmds0 = 0, cfBytes0 = 0, cfMaxIndex0 = 0\<rparr>"

text \<open>The two loops of \<^verbatim>\<open>make_config\<close>; \<open>names i\<close>, \<open>srv i\<close> and \<open>now i\<close> are what \<^verbatim>\<open>start1\<close> draws for server \<open>i\<close>.\<close>

fun start_all :: "nat list \<Rightarrow> (nat \<Rightarrow> nat \<Rightarrow> string) \<Rightarrow> (nat \<Rightarrow> nat) \<Rightarrow> (nat \<Rightarrow> int) \<Rightarrow> 'c config \<Rightarrow> 'c config option" where
  "start_all [] names srv now cfg = Some cfg"
| "start_all (i # is) names srv now cfg = do {
     cfg \<leftarrow> start1 (cfg\<lparr>cfLogs := (cfLogs cfg)[i := Map.empty]\<rparr>) i (names i) (srv i) (now i);
     start_all is names srv now cfg
   }"

fun connect_all :: "nat list \<Rightarrow> 'c config \<Rightarrow> 'c config option" where
  "connect_all [] cfg = Some cfg"
| "connect_all (i # is) cfg = do { cfg \<leftarrow> harness_connect cfg i; connect_all is cfg }"

definition make_config :: "nat \<Rightarrow> bool \<Rightarrow> (nat \<Rightarrow> nat \<Rightarrow> string) \<Rightarrow> (nat \<Rightarrow> nat) \<Rightarrow> (nat \<Rightarrow> int) \<Rightarrow> int \<Rightarrow> 'c config option" where
  "make_config n unreliable names srv now t = do {
     let cfg = setunreliable unreliable (empty_config n t);
     let cfg = cfg\<lparr>cfNet := LongDelays True (cfNet cfg)\<rparr>;
     cfg \<leftarrow> start_all [0..<n] names srv now cfg;
     connect_all [0..<n] cfg
   }"

section \<open>Ending and measuring a test\<close>

text \<open>\<open>True\<close> is the \<^verbatim>\<open>t.Fatal\<close> of a test that took too long; times are in nanoseconds.\<close>

definition checkTimeout :: "'c config \<Rightarrow> bool \<Rightarrow> int \<Rightarrow> bool" where
  "checkTimeout cfg failed now = (\<not> failed \<and> now - cfStart cfg > 120 * 1000000000)"

definition checkFinished :: "'c config \<Rightarrow> bool" where
  "checkFinished cfg = cfFinished cfg"

definition harness_cleanup :: "'c config \<Rightarrow> bool \<Rightarrow> int \<Rightarrow> ('c config \<times> bool) option" where
  "harness_cleanup cfg failed now = do {
     let cfg = cfg\<lparr>cfFinished := True, cfRafts := map (map_option Kill) (cfRafts cfg)\<rparr>;
     rn \<leftarrow> Cleanup (cfNet cfg);
     let cfg = cfg\<lparr>cfNet := rn\<rparr>;
     Some (cfg, checkTimeout cfg failed now)
   }"

definition rpcCount :: "(nat \<rightharpoonup> 'w Server) \<Rightarrow> 'c config \<Rightarrow> nat \<Rightarrow> int option" where
  "rpcCount servers cfg server = GetCount servers (cfNet cfg) (ServerName server)"

definition rpcTotal :: "'c config \<Rightarrow> int" where
  "rpcTotal cfg = GetTotalCount (cfNet cfg)"

definition bytesTotal :: "'c config \<Rightarrow> int" where
  "bytesTotal cfg = GetTotalBytes (cfNet cfg)"

definition begin_test :: "int \<Rightarrow> 'c config \<Rightarrow> 'c config" where
  "begin_test now cfg = cfg\<lparr>cfT0 := now, cfRpcs0 := rpcTotal cfg, cfBytes0 := bytesTotal cfg, cfCmds0 := 0,
     cfMaxIndex0 := cfMaxIndex cfg\<rparr>"

text \<open>The numbers that \<^verbatim>\<open>end\<close> prints (time, peers, RPCs, bytes, agreements), if the test has not failed.\<close>

definition end_test :: "'c config \<Rightarrow> bool \<Rightarrow> int \<Rightarrow> (int \<times> nat \<times> int \<times> int \<times> int) option" where
  "end_test cfg failed now =
     (if checkTimeout cfg failed now \<or> failed then None
      else Some (now - cfT0 cfg, cfN cfg, rpcTotal cfg - cfRpcs0 cfg, bytesTotal cfg - cfBytes0 cfg,
                 cfMaxIndex cfg - cfMaxIndex0 cfg))"

fun logSize_loop :: "('c gob list \<Rightarrow> int) \<Rightarrow> ('c, 'b) Persister option list \<Rightarrow> int \<Rightarrow> int option" where
  "logSize_loop gobsize [] logsize = Some logsize"
| "logSize_loop gobsize (None # ps) logsize = None"
| "logSize_loop gobsize (Some p # ps) logsize =
     (let n = RaftStateSize gobsize p in logSize_loop gobsize ps (if n > logsize then n else logsize))"

definition LogSize :: "('c gob list \<Rightarrow> int) \<Rightarrow> 'c config \<Rightarrow> int option" where
  "LogSize gobsize cfg = logSize_loop gobsize (map (live_saved cfg) [0..<cfN cfg]) 0"

section \<open>Judging the servers\<close>

text \<open>
  These functions call \<^verbatim>\<open>GetState\<close> of one server after the other, or read one server's log after
  the other, while the servers run. Their arguments are what each read returned; \<open>con\<close> are the
  flags \<^verbatim>\<open>connected\<close>.
\<close>

fun add_leader :: "int \<Rightarrow> nat \<Rightarrow> (int \<times> nat list) list \<Rightarrow> (int \<times> nat list) list" where
  "add_leader t i [] = [(t, [i])]"
| "add_leader t i ((t', is) # ls) = (if t' = t then (t', is @ [i]) # ls else (t', is) # add_leader t i ls)"

text \<open>The map \<^verbatim>\<open>leaders\<close> of an iteration of \<^verbatim>\<open>checkOneLeader\<close>, as a list of its entries.\<close>

fun poll_leaders :: "nat \<Rightarrow> bool list \<Rightarrow> (int \<times> bool) list \<Rightarrow> (int \<times> nat list) list \<Rightarrow> (int \<times> nat list) list" where
  "poll_leaders i (c # con) ((term, leader) # sts) ls =
     poll_leaders (i + 1) con sts (if c \<and> leader then add_leader term i ls else ls)"
| "poll_leaders i con sts ls = ls"

fun max_term :: "(int \<times> nat list) list \<Rightarrow> int \<Rightarrow> int" where
  "max_term [] t = t"
| "max_term ((t', is) # ls) t = max_term ls (if t' > t then t' else t)"

text \<open>The verdicts: too many leaders of one term, no leader in any iteration, or a leader.\<close>

datatype leader_verdict = TooManyLeaders | NoLeader | OneLeader nat

fun checkOneLeader :: "bool list \<Rightarrow> (int \<times> bool) list list \<Rightarrow> leader_verdict option" where
  "checkOneLeader con [] = Some NoLeader"
| "checkOneLeader con (sts # polls) =
     (let leaders = poll_leaders 0 con sts [] in
      if \<exists>(t, is) \<in> set leaders. length is > 1 then Some TooManyLeaders
      else if leaders \<noteq> [] then do {
        is \<leftarrow> map_of leaders (max_term leaders (- 1));
        i \<leftarrow> nth_int is 0;
        Some (OneLeader i)
      } else checkOneLeader con polls)"

text \<open>\<open>None\<close> is \<^verbatim>\<open>t.Fatalf("servers disagree on term")\<close>.\<close>

fun checkTerms_loop :: "bool list \<Rightarrow> (int \<times> bool) list \<Rightarrow> int \<Rightarrow> int option" where
  "checkTerms_loop (c # con) ((xterm, leader) # sts) term =
     (if c then
        if term = - 1 then checkTerms_loop con sts xterm
        else if term \<noteq> xterm then None else checkTerms_loop con sts term
      else checkTerms_loop con sts term)"
| "checkTerms_loop con sts term = Some term"

definition checkTerms :: "bool list \<Rightarrow> (int \<times> bool) list \<Rightarrow> int option" where
  "checkTerms con sts = checkTerms_loop con sts (- 1)"

text \<open>The first connected server that claims to be leader, which \<^verbatim>\<open>checkNoLeader\<close> complains about.\<close>

fun checkNoLeader :: "nat \<Rightarrow> bool list \<Rightarrow> (int \<times> bool) list \<Rightarrow> nat option" where
  "checkNoLeader i (c # con) ((term, is_leader) # sts) =
     (if c \<and> is_leader then Some i else checkNoLeader (i + 1) con sts)"
| "checkNoLeader i con sts = None"

text \<open>
  \<^verbatim>\<open>nCommitted\<close>: \<open>errs\<close> are the entries of \<^verbatim>\<open>applyErr\<close>, \<open>seen\<close> what \<^verbatim>\<open>cfg.logs[i][index]\<close> was when it was read.
\<close>

datatype 'c commit_fatal = ApplyErr string | ValuesDiffer "'c option" "'c option" | TooFew int int | NoAgreement

fun nCommitted_loop :: "string list \<Rightarrow> 'c option option list \<Rightarrow> int \<Rightarrow> 'c option \<Rightarrow> 'c commit_fatal + int \<times> 'c option" where
  "nCommitted_loop (err # errs) (look # seen) n cmd =
     (if err \<noteq> [] then Inl (ApplyErr err)
      else case look of
        None \<Rightarrow> nCommitted_loop errs seen n cmd
      | Some cmd1 \<Rightarrow>
          if n > 0 \<and> cmd \<noteq> cmd1 then Inl (ValuesDiffer cmd cmd1)
          else nCommitted_loop errs seen (n + 1) cmd1)"
| "nCommitted_loop errs seen n cmd = Inr (n, cmd)"

definition nCommitted :: "string list \<Rightarrow> 'c option option list \<Rightarrow> 'c commit_fatal + int \<times> 'c option" where
  "nCommitted errs seen = nCommitted_loop errs seen 0 None"

text \<open>
  \<^verbatim>\<open>wait\<close>: each element of \<open>obs\<close> is an iteration, with what its call of \<^verbatim>\<open>nCommitted\<close> reads and the terms
  of the servers after the sleep; \<open>final\<close> is what the last call of \<^verbatim>\<open>nCommitted\<close> reads. The code makes at
  most 30 iterations. The result -1 is \<open>MovedOn\<close>.
\<close>

datatype 'c wait_result = MovedOn | Decided "'c option"

definition wait_end :: "int \<Rightarrow> string list \<Rightarrow> 'c option option list \<Rightarrow> 'c commit_fatal + 'c wait_result" where
  "wait_end n errs final =
     (case nCommitted errs final of
        Inl f \<Rightarrow> Inl f
      | Inr (nd, cmd) \<Rightarrow> if nd < n then Inl (TooFew nd n) else Inr (Decided cmd))"

fun wait_loop :: "int \<Rightarrow> int \<Rightarrow> string list \<Rightarrow> ('c option option list \<times> int list) list \<Rightarrow> 'c option option list \<Rightarrow>
    'c commit_fatal + 'c wait_result" where
  "wait_loop n startTerm errs [] final = wait_end n errs final"
| "wait_loop n startTerm errs ((seen, terms) # obs) final =
     (case nCommitted errs seen of
        Inl f \<Rightarrow> Inl f
      | Inr (nd, cmd) \<Rightarrow>
          if nd \<ge> n then wait_end n errs final
          else if startTerm > - 1 \<and> (\<exists>t \<in> set terms. t > startTerm) then Inr MovedOn
          else wait_loop n startTerm errs obs final)"

definition wait :: "int \<Rightarrow> int \<Rightarrow> string list \<Rightarrow> ('c option option list \<times> int list) list \<Rightarrow> 'c option option list \<Rightarrow>
    'c commit_fatal + 'c wait_result" where
  "wait n startTerm errs obs final = wait_loop n startTerm errs (take 30 obs) final"

text \<open>
  \<^verbatim>\<open>one\<close>: in each iteration of its outer loop it asks the servers in turn; \<open>ask i\<close> is what \<^verbatim>\<open>Start\<close> returns
  (\<open>None\<close> if server \<open>i\<close> is not connected or there is no peer). Then it polls \<^verbatim>\<open>nCommitted\<close> until two seconds have
  passed; \<open>polls\<close> are the answers. The list of iterations ends when ten seconds have passed or the
  test is finished.
\<close>

fun ask_servers :: "nat \<Rightarrow> (nat \<Rightarrow> (int \<times> int \<times> bool) option) \<Rightarrow> nat \<Rightarrow> nat \<Rightarrow> int \<times> nat" where
  "ask_servers n ask 0 starts = (- 1, starts)"
| "ask_servers n ask (Suc k) starts =
     (let starts = (starts + 1) mod n in
      case ask starts of
        Some (index1, term, ok) \<Rightarrow> if ok then (index1, starts) else ask_servers n ask k starts
      | None \<Rightarrow> ask_servers n ask k starts)"

fun await_agreement :: "'c \<Rightarrow> int \<Rightarrow> string list \<Rightarrow> 'c option option list list \<Rightarrow> 'c commit_fatal + bool" where
  "await_agreement cmd expected errs [] = Inr False"
| "await_agreement cmd expected errs (seen # polls) =
     (case nCommitted errs seen of
        Inl f \<Rightarrow> Inl f
      | Inr (nd, cmd1) \<Rightarrow>
          if nd > 0 \<and> nd \<ge> expected \<and> cmd1 = Some cmd then Inr True
          else await_agreement cmd expected errs polls)"

fun one :: "nat \<Rightarrow> 'c \<Rightarrow> int \<Rightarrow> bool \<Rightarrow> string list \<Rightarrow> nat \<Rightarrow>
    ((nat \<Rightarrow> (int \<times> int \<times> bool) option) \<times> (int \<Rightarrow> 'c option option list list)) list \<Rightarrow> bool \<Rightarrow> 'c commit_fatal + int" where
  "one n cmd expected retry errs starts [] finished = (if finished then Inr (- 1) else Inl NoAgreement)"
| "one n cmd expected retry errs starts ((ask, polls) # its) finished =
     (let (index, starts) = ask_servers n ask n starts in
      if index \<noteq> - 1 then
        (case await_agreement cmd expected errs (polls index) of
           Inl f \<Rightarrow> Inl f
         | Inr agreed \<Rightarrow>
             if agreed then Inr index
             else if \<not> retry then Inl NoAgreement
             else one n cmd expected retry errs starts its finished)
      else one n cmd expected retry errs starts its finished)"

end
