(* ===== verification/HarnessLeaders.thy ===== *)
theory HarnessLeaders
  imports RaftHarness StateMachineSafety
begin

text \<open>
  \<^verbatim>\<open>checkOneLeader\<close> asks one server after the other while the cluster runs. Election safety therefore has to
  hold across the states of a run: this theory shows that the votes on record only grow, so that leaders
  of one term at different times are the same server, and that the check never fails for two leaders.
\<close>

section \<open>Leaders at different times\<close>

lemma voted_cstep:
  assumes inv: "election_inv n s" and ev: "cstep e s = Some s'" and v: "voted s T v c"
  shows "voted s' T v c"
proof -
  have wf: "wf_cluster n s" using inv by (simp add: election_inv_def)
  show ?thesis
  proof (cases rule: cstep_cases [OF wf ev, case_names quiet started voted counted])
    case quiet
    then have "voted s' = voted s" by (intro voted_frame [OF wf]) (auto simp: quiet_step_def)
    then show ?thesis using v by simp
  next
    case (started i)
    then show ?thesis using voted_round [OF wf started] v by simp
  next
    case (voted k args rf reply)
    then show ?thesis using voted_cast [OF voted(1-4,13)] v by simp
  next
    case (counted k r rf)
    have w: "wf_call n s (vcalls s ! k)" using wf_clusterD(6) [OF wf counted(1)] .
    have cs: "calls_step s (vcalls s')" unfolding counted(7)
      by (simp, rule calls_step_update [OF wf counted(1)]) (rule call_step_close [OF w])
    have "map rdOwner (rounds s') = map rdOwner (rounds s)" "map rdTerm (rounds s') = map rdTerm (rounds s)"
      using w counted(2) by (simp_all add: counted(7) map_update list_update_same_conv wf_call_def)
    moreover have "map vote_of (vcalls s') = map vote_of (vcalls s)" using counted(1) by (simp add: counted(7) map_vote_of_update)
    ultimately have "voted s' = voted s" by (intro voted_frame [OF wf cs])
    then show ?thesis using v by simp
  qed
qed

lemma voted_crun: "crun es s = Some s' \<Longrightarrow> election_inv n s \<Longrightarrow> voted s T v c \<Longrightarrow> voted s' T v c"
proof (induction es arbitrary: s)
  case (Cons e es)
  then obtain s1 where s1: "cstep e s = Some s1" "crun es s1 = Some s'" by auto
  show ?case
    by (rule Cons.IH [OF s1(2) election_step [OF Cons.prems(2) s1(1)] voted_cstep [OF Cons.prems(2) s1(1) Cons.prems(3)]])
qed simp

text \<open>The states that a run has passed through.\<close>

definition passed :: "nat \<Rightarrow> ('c, 'b) event list \<Rightarrow> ('c, 'b) cluster \<Rightarrow> bool" where
  "passed n es s \<longleftrightarrow> (\<exists>k \<le> length es. crun (take k es) (init_cluster n) = Some s)"

lemma crun_append: "crun (es @ es') s = Option.bind (crun es s) (crun es')"
proof (induction es arbitrary: s)
  case (Cons e es)
  then show ?case by (cases "cstep e s") auto
qed simp

lemma passed_rest:
  assumes "crun es (init_cluster n) = Some s'" "passed n es s"
  obtains es' where "crun es' s = Some s'"
proof -
  from assms(2) obtain k where k: "crun (take k es) (init_cluster n) = Some s" by (auto simp: passed_def)
  have "crun (take k es @ drop k es) (init_cluster n) = Some s'" using assms(1) by simp
  then have "crun (drop k es) s = Some s'" unfolding crun_append k by simp
  then show thesis by (rule that)
qed

lemma passed_inv: "passed n es s \<Longrightarrow> election_inv n s"
  by (auto simp: passed_def intro: reachable_inv reachable_crun [OF reachable_init])

text \<open>A leader seen at any time of a run has the votes of a majority on the final record.\<close>

lemma leader_majority:
  assumes run: "crun es (init_cluster n) = Some f" "prompt f \<or> n \<le> 3" and s: "passed n es s"
    and i: "i < n" "state (nodes s ! i) = Leader"
  shows "majority n {v. v < n \<and> voted f (currentTerm (nodes s ! i)) v i}"
proof -
  have inv: "election_inv n s" by (rule passed_inv [OF s])
  obtain es' where es': "crun es' s = Some f" by (rule passed_rest [OF run(1) s])
  have "prompt s \<or> n \<le> 3" using prompt_crun [OF es' inv] run(2) by blast
  then have "majority n {v. v < n \<and> voted s (currentTerm (nodes s ! i)) v i}"
    using inv i by (auto simp: election_inv_def leaders_inv_def)
  then show ?thesis by (rule majority_mono) (use voted_crun [OF es' inv] in auto)
qed

lemma leaders_over_time:
  assumes run: "crun es (init_cluster n) = Some f" "prompt f \<or> n \<le> 3" and s: "passed n es s" "passed n es s'"
    and i: "i < n" "state (nodes s ! i) = Leader" and j: "j < n" "state (nodes s' ! j) = Leader"
    and same: "currentTerm (nodes s ! i) = currentTerm (nodes s' ! j)"
  shows "i = j"
proof -
  have inv: "election_inv n f" by (rule reachable_inv [OF reachable_crun [OF reachable_init run(1)]])
  then have one: "c = d" if "voted f (currentTerm (nodes s ! i)) v c" "voted f (currentTerm (nodes s ! i)) v d" for v c d
    using that unfolding election_inv_def ballot_inv_def by blast
  have maj: "majority n {v. v < n \<and> voted f (currentTerm (nodes s ! i)) v i}"
    "majority n {v. v < n \<and> voted f (currentTerm (nodes s ! i)) v j}"
    using leader_majority [OF run s(1) i] leader_majority [OF run s(2) j] same by simp_all
  show ?thesis
    by (rule peers.at_most_one_winner [where voted = "voted f (currentTerm (nodes s ! i))", OF one maj(1) _ maj(2)]) auto
qed

lemma terms_nonneg_cstep:
  assumes inv: "election_inv n s" and ev: "cstep e s = Some s'" and t: "\<And>i. i < n \<Longrightarrow> 0 \<le> currentTerm (nodes s ! i)" and i: "i < n"
  shows "0 \<le> currentTerm (nodes s' ! i)"
proof -
  have wf: "wf_cluster n s" using inv by (simp add: election_inv_def)
  note D = wf_clusterD [OF wf]
  show ?thesis
  proof (cases rule: cstep_cases [OF wf ev, case_names quiet started voted counted])
    case quiet
    then show ?thesis using t i D(1) by (fastforce simp: quiet_step_def quiet_def nth_list_update)
  next
    case (started j)
    then show ?thesis using t i D(1) by (cases "i = j") (auto simp: becomeCandidate_def add_increasing2)
  next
    case (voted k args rf reply)
    then have "i = vcPeer (vcalls s ! k) \<Longrightarrow> 0 \<le> rvTerm args" using t [OF i] by simp
    then show ?thesis using t [OF i] voted(8,13) i D(1) by (cases "i = vcPeer (vcalls s ! k)") auto
  next
    case (counted k r rf)
    then have "currentTerm rf = currentTerm (nodes s ! rdOwner (rounds s ! r))" by auto
    then show ?thesis using t i D(1) counted(7) by (cases "i = rdOwner (rounds s ! r)") auto
  qed
qed

lemma reachable_terms: "reachable n s \<Longrightarrow> i < n \<Longrightarrow> 0 \<le> currentTerm (nodes s ! i)"
proof (induction arbitrary: i rule: reachable.induct)
  case reachable_init
  then show ?case by (simp add: init_cluster_def initRaft_def)
next
  case (reachable_step s e s')
  show ?case
    by (rule terms_nonneg_cstep [OF reachable_inv [OF reachable_step.hyps(1)] reachable_step.hyps(2) reachable_step.IH])
      (use reachable_step.prems in simp_all)
qed

section \<open>The check\<close>

lemma max_term_bounds: "t \<le> max_term ls t" "(t', is) \<in> set ls \<Longrightarrow> t' \<le> max_term ls t"
  by (induction ls t rule: max_term.induct) (auto split: if_splits)

lemma max_term_in: "max_term ls t = t \<or> max_term ls t \<in> fst ` set ls"
  by (induction ls t rule: max_term.induct) (auto split: if_splits)

text \<open>The entries of the map: one for each term, with the servers \<open>i\<close> of which \<open>P t i\<close> holds.\<close>

definition leaders_map :: "(int \<Rightarrow> nat \<Rightarrow> bool) \<Rightarrow> (int \<times> nat list) list \<Rightarrow> bool" where
  "leaders_map P ls \<longleftrightarrow> distinct (map fst ls) \<and> (\<forall>(t, is) \<in> set ls. is \<noteq> [] \<and> distinct is) \<and>
     (\<forall>t i. P t i \<longleftrightarrow> (\<exists>is. (t, is) \<in> set ls \<and> i \<in> set is))"

lemma add_leader_terms: "fst ` set (add_leader t i ls) = insert t (fst ` set ls)"
  by (induction t i ls rule: add_leader.induct) auto

lemma add_leader_distinct: "distinct (map fst ls) \<Longrightarrow> distinct (map fst (add_leader t i ls))"
  by (induction t i ls rule: add_leader.induct) (auto simp: add_leader_terms)

lemma add_leader_mem:
  "distinct (map fst ls) \<Longrightarrow> (t', is) \<in> set (add_leader t i ls) \<longleftrightarrow>
     (if t' = t then is = (case map_of ls t of None \<Rightarrow> [] | Some js \<Rightarrow> js) @ [i] else (t', is) \<in> set ls)"
  by (induction t i ls rule: add_leader.induct) (auto simp: image_iff split: option.splits)

lemma add_leader_map:
  assumes "leaders_map P ls" "\<And>t. \<not> P t i"
  shows "leaders_map (\<lambda>t' j. P t' j \<or> t' = t \<and> j = i) (add_leader t i ls)"
proof -
  have d: "distinct (map fst ls)" and ent: "\<And>t is. (t, is) \<in> set ls \<Longrightarrow> is \<noteq> [] \<and> distinct is"
    and P: "\<And>t j. P t j \<longleftrightarrow> (\<exists>is. (t, is) \<in> set ls \<and> j \<in> set is)"
    using assms(1) unfolding leaders_map_def by auto
  let ?js = "case map_of ls t of None \<Rightarrow> [] | Some js \<Rightarrow> js"
  have old: "P t j \<longleftrightarrow> j \<in> set ?js" for j
    using P [of t j] d by (auto split: option.splits dest: map_of_SomeD simp: map_of_eq_None_iff image_iff)
  have "i \<notin> set ?js" using old assms(2) by blast
  moreover have "distinct ?js" using ent by (auto split: option.splits dest: map_of_SomeD)
  ultimately have "distinct (?js @ [i])" by simp
  then have "is \<noteq> [] \<and> distinct is" if "(t', is) \<in> set (add_leader t i ls)" for t' "is"
    using that ent [of t' "is"] by (auto simp: add_leader_mem [OF d] split: if_splits)
  moreover have "P t' j \<or> t' = t \<and> j = i \<longleftrightarrow> (\<exists>is. (t', is) \<in> set (add_leader t i ls) \<and> j \<in> set is)" for t' j
    using P [of t' j] old [of j] by (cases "t' = t") (auto simp: add_leader_mem [OF d])
  ultimately show ?thesis using add_leader_distinct [OF d] unfolding leaders_map_def by blast
qed

lemma poll_leaders_map:
  assumes "length sts = length con" "leaders_map P ls" "\<And>t j. P t j \<Longrightarrow> j < i"
  shows "leaders_map (\<lambda>t j. P t j \<or> i \<le> j \<and> j - i < length con \<and> con ! (j - i) \<and> sts ! (j - i) = (t, True))
    (poll_leaders i con sts ls)"
  using assms
proof (induction i con sts ls arbitrary: P rule: poll_leaders.induct)
  case (1 i c con "term" leader sts ls)
  let ?P = "\<lambda>t j. P t j \<or> (c \<and> leader \<and> t = term \<and> j = i)"
  have m: "leaders_map ?P (if c \<and> leader then add_leader term i ls else ls)"
  proof (cases "c \<and> leader")
    case True
    have "\<not> P t i" for t using 1(4) by blast
    then show ?thesis using add_leader_map [OF 1(3), of i "term"] True by simp
  qed (use 1(3) in auto)
  have "leaders_map (\<lambda>t j. ?P t j \<or> Suc i \<le> j \<and> j - Suc i < length con \<and> con ! (j - Suc i) \<and> sts ! (j - Suc i) = (t, True))
      (poll_leaders (Suc i) con sts (if c \<and> leader then add_leader term i ls else ls))"
  proof (rule 1(1) [of ?P, unfolded Suc_eq_plus1 [symmetric], OF _ m])
    show "j < Suc i" if "?P t j" for t j using that less_SucI [OF 1(4)] by auto
  qed (use 1(2) in simp)
  moreover have "(\<lambda>t j. ?P t j \<or> Suc i \<le> j \<and> j - Suc i < length con \<and> con ! (j - Suc i) \<and> sts ! (j - Suc i) = (t, True)) =
      (\<lambda>t j. P t j \<or> i \<le> j \<and> j - i < length (c # con) \<and> (c # con) ! (j - i) \<and> ((term, leader) # sts) ! (j - i) = (t, True))"
    by (intro ext) (auto simp: nth_Cons' Suc_diff_Suc)
  ultimately show ?case by simp
qed auto


text \<open>What one poll shows is \<open>fair\<close>: no two leaders of one term, and terms that are not negative.\<close>

definition fair_poll :: "nat \<Rightarrow> (int \<times> bool) list \<Rightarrow> bool" where
  "fair_poll n sts \<longleftrightarrow> length sts = n \<and> (\<forall>i < n. snd (sts ! i) \<longrightarrow> 0 \<le> fst (sts ! i)) \<and>
     (\<forall>i < n. \<forall>j < n. snd (sts ! i) \<and> snd (sts ! j) \<and> fst (sts ! i) = fst (sts ! j) \<longrightarrow> i = j)"

definition best_leader :: "bool list \<Rightarrow> (int \<times> bool) list \<Rightarrow> nat \<Rightarrow> bool" where
  "best_leader con sts i \<longleftrightarrow> i < length con \<and> con ! i \<and> snd (sts ! i) \<and>
     (\<forall>j < length con. con ! j \<and> snd (sts ! j) \<longrightarrow> fst (sts ! j) \<le> fst (sts ! i))"

lemma poll_verdict:
  assumes fair: "fair_poll (length con) sts" and ls: "ls = poll_leaders 0 con sts []"
  shows "\<not> (\<exists>(t, is) \<in> set ls. length is > 1)"
    and "ls = [] \<Longrightarrow> j < length con \<Longrightarrow> con ! j \<Longrightarrow> \<not> snd (sts ! j)"
    and "ls \<noteq> [] \<Longrightarrow> \<exists>is i. map_of ls (max_term ls (- 1)) = Some is \<and> nth_int is 0 = Some i \<and> best_leader con sts i"
proof -
  have len: "length sts = length con" and uniq: "\<And>i j. i < length con \<Longrightarrow> j < length con \<Longrightarrow> snd (sts ! i) \<Longrightarrow> snd (sts ! j) \<Longrightarrow>
      fst (sts ! i) = fst (sts ! j) \<Longrightarrow> i = j" and pos: "\<And>i. i < length con \<Longrightarrow> snd (sts ! i) \<Longrightarrow> 0 \<le> fst (sts ! i)"
    using fair unfolding fair_poll_def by auto
  have m: "leaders_map (\<lambda>t j. j < length con \<and> con ! j \<and> sts ! j = (t, True)) ls"
    using poll_leaders_map [OF len, of "\<lambda>_ _. False" "[]" 0] by (simp add: leaders_map_def ls)
  then have d: "distinct (map fst ls)" and ent: "\<And>t is. (t, is) \<in> set ls \<Longrightarrow> is \<noteq> [] \<and> distinct is"
    and mem: "\<And>t j. j < length con \<and> con ! j \<and> sts ! j = (t, True) \<longleftrightarrow> (\<exists>is. (t, is) \<in> set ls \<and> j \<in> set is)"
    unfolding leaders_map_def by auto
  have single: "is = [hd is]" if "(t, is) \<in> set ls" for t "is"
  proof -
    have "x = hd is" if x: "x \<in> set is" for x
    proof -
      have "hd is \<in> set is" using ent [OF \<open>(t, is) \<in> set ls\<close>] by simp
      then have "x < length con \<and> sts ! x = (t, True)" "hd is < length con \<and> sts ! hd is = (t, True)"
        using mem x \<open>(t, is) \<in> set ls\<close> by blast+
      then show ?thesis by (intro uniq) auto
    qed
    then have "set is \<subseteq> {hd is}" by blast
    then have "card (set is) \<le> 1" using card_mono [of "{hd is}" "set is"] by simp
    then show ?thesis using ent [OF that] distinct_card [of "is"] by (cases "is") auto
  qed
  then show "\<not> (\<exists>(t, is) \<in> set ls. length is > 1)" by (metis (mono_tags, lifting) case_prodE length_Cons less_irrefl list.size(3) One_nat_def)
  show "\<not> snd (sts ! j)" if "ls = []" "j < length con" "con ! j"
    using mem [of j "fst (sts ! j)"] that by (metis empty_iff empty_set prod.collapse)
  assume ne: "ls \<noteq> []"
  then obtain t0 is0 where t0: "(t0, is0) \<in> set ls" by (metis list.set_sel(1) prod.collapse)
  then have "hd is0 \<in> set is0" using ent by auto
  then have "0 \<le> t0" using mem [of "hd is0" t0] t0 pos [of "hd is0"] by auto
  then have "max_term ls (- 1) \<noteq> - 1" using max_term_bounds(2) [OF t0, of "- 1"] by linarith
  then obtain t "is" where t: "t = max_term ls (- 1)" "(t, is) \<in> set ls" using max_term_in [of ls "- 1"] by force
  have "is = [hd is]" by (rule single [OF t(2)])
  then obtain i where i: "is = [i]" by blast
  have "i < length con" "con ! i" "sts ! i = (t, True)" using mem [of i t] t(2) i by force+
  moreover have "fst (sts ! j) \<le> t" if j: "j < length con" "con ! j" "snd (sts ! j)" for j
  proof -
    have "sts ! j = (fst (sts ! j), True)" using j(3) by (simp add: prod_eq_iff)
    then obtain js where "(fst (sts ! j), js) \<in> set ls" using mem j(1,2) by blast
    then show ?thesis using max_term_bounds(2) t(1) by blast
  qed
  ultimately have "best_leader con sts i" by (auto simp: best_leader_def)
  then show "\<exists>is i. map_of ls (max_term ls (- 1)) = Some is \<and> nth_int is 0 = Some i \<and> best_leader con sts i"
    using t i d by (intro exI [of _ "[i]"] exI [of _ i]) (auto simp: nth_int_def)
qed

text \<open>The verdicts that a correct cluster can get.\<close>

fun right_verdict :: "bool list \<Rightarrow> (int \<times> bool) list list \<Rightarrow> leader_verdict option \<Rightarrow> bool" where
  "right_verdict con polls (Some NoLeader) = (\<forall>sts \<in> set polls. \<forall>j < length con. con ! j \<longrightarrow> \<not> snd (sts ! j))"
| "right_verdict con polls (Some (OneLeader i)) = (\<exists>sts \<in> set polls. best_leader con sts i)"
| "right_verdict con polls _ = False"

lemma checkOneLeader_right:
  "\<forall>sts \<in> set polls. fair_poll (length con) sts \<Longrightarrow> right_verdict con polls (checkOneLeader con polls)"
proof (induction con polls rule: checkOneLeader.induct)
  case (2 con sts polls)
  let ?ls = "poll_leaders 0 con sts []"
  have fair: "fair_poll (length con) sts" using 2(2) by simp
  note V = poll_verdict [OF fair refl]
  show ?case
  proof (cases "?ls = []")
    case True
    then have IH: "right_verdict con polls (checkOneLeader con polls)" using 2 V(1) by auto
    have "checkOneLeader con (sts # polls) = checkOneLeader con polls" using True by simp
    moreover have "right_verdict con polls r \<Longrightarrow> right_verdict con (sts # polls) r" for r
      using V(2) [OF True] by (induction con polls r rule: right_verdict.induct) auto
    ultimately show ?thesis using IH by simp
  next
    case False
    then obtain "is" i where "map_of ?ls (max_term ?ls (- 1)) = Some is" "nth_int is 0 = Some i" "best_leader con sts i"
      using V(3) by blast
    then show ?thesis using V(1) False by (simp add: Let_def)
  qed
qed simp

section \<open>Property\<close>

text \<open>
  C14. The leader check of the harness: \<^verbatim>\<open>checkOneLeader\<close> calls \<^verbatim>\<open>GetState\<close> of one server after the other while
  the cluster goes on, so what it sees comes from different states of a run. It never reports a term with two leaders;
  the server it returns is connected and was seen as leader of the highest term of a poll, and it reports that there is
  no leader only if no connected server was seen as one. Vote requests must be prompt, or there be at most three servers.
\<close>

theorem checkOneLeader_correct:
  fixes s :: "('c, 'b) cluster"
  assumes "crun es (init_cluster n) = Some s" "prompt s \<or> n \<le> 3" "length con = n"
    and "\<forall>sts \<in> set polls. length sts = n \<and> (\<forall>i < n. \<exists>s'. passed n es s' \<and> sts ! i = GetState (nodes s' ! i))"
  shows "right_verdict con polls (checkOneLeader con polls)"
proof (rule checkOneLeader_right, intro ballI)
  fix sts assume sts: "sts \<in> set polls"
  then have len: "length sts = n" and ex: "\<And>i. i < n \<Longrightarrow> \<exists>s'. passed n es s' \<and> sts ! i = GetState (nodes s' ! i)"
    using assms(4) by auto
  have lead: "\<exists>s'. passed n es s' \<and> state (nodes s' ! i) = Leader \<and> fst (sts ! i) = currentTerm (nodes s' ! i)"
    if i: "i < n" "snd (sts ! i)" for i
    using ex [OF i(1)] i(2) by (auto simp: GetState_def split: if_splits)
  have "0 \<le> fst (sts ! i)" if i: "i < n" "snd (sts ! i)" for i
    using lead [OF i] by (auto simp: passed_def intro: reachable_terms [OF reachable_crun [OF reachable_init] i(1)])
  moreover have "i = j" if ij: "i < n" "j < n" "snd (sts ! i)" "snd (sts ! j)" "fst (sts ! i) = fst (sts ! j)" for i j
  proof -
    obtain si sj where "passed n es si" "state (nodes si ! i) = Leader" "fst (sts ! i) = currentTerm (nodes si ! i)"
      "passed n es sj" "state (nodes sj ! j) = Leader" "fst (sts ! j) = currentTerm (nodes sj ! j)"
      using lead ij by metis
    then show ?thesis using leaders_over_time [OF assms(1,2)] ij by metis
  qed
  ultimately show "fair_poll (length con) sts" using len unfolding fair_poll_def assms(3) by blast
qed

lemma elect_run_poll:
  "checkOneLeader [True, True, True] [[GetState (nodes (run_of 3 elect_run) ! 0), (0, False), GetState (nodes (run_of 3 elect_run) ! 2)]]
     = Some (OneLeader 0)"
  by code_simp

theorem checkOneLeader_correct_witness:
  "best_leader [True, True, True] [GetState (nodes (run_of 3 elect_run) ! 0), (0, False), GetState (nodes (run_of 3 elect_run) ! 2)] 0"
proof -
  let ?sts = "[GetState (nodes (run_of 3 elect_run) ! 0), (0, False), GetState (nodes (run_of 3 elect_run) ! 2)]"
  have run: "crun elect_run (init_cluster 3) = Some (run_of 3 elect_run)"
  proof -
    have "crun elect_run (init_cluster 3) \<noteq> None" by code_simp
    then show ?thesis by (auto simp: run_of_def)
  qed
  have last: "passed 3 elect_run (run_of 3 elect_run)" using run by (auto simp: passed_def intro: exI [of _ "length elect_run"])
  have first: "passed 3 elect_run (init_cluster 3)" by (auto simp: passed_def intro: exI [of _ 0])
  have "GetState (nodes (init_cluster 3 :: (nat, nat) cluster) ! 1) = (0, False)" by code_simp
  then have "\<exists>s'. passed 3 elect_run s' \<and> ?sts ! i = GetState (nodes s' ! i)" if "i < 3" for i
  proof -
    have "i = 0 \<or> i = 1 \<or> i = 2" using that by auto
    then show ?thesis using first last \<open>GetState _ = (0, False)\<close> by auto
  qed
  then have "right_verdict [True, True, True] [?sts] (checkOneLeader [True, True, True] [?sts])"
    by (intro checkOneLeader_correct [OF run]) auto
  then show ?thesis unfolding elect_run_poll by simp
qed

end
