(* ===== verification/HarnessNet.thy ===== *)
theory HarnessNet
  imports RaftHarness Cluster
begin

text \<open>
  The network that \<^verbatim>\<open>raft/config.go\<close> builds: which end points are enabled after any sequence of connecting,
  disconnecting, crashing and restarting servers, and that starting a server is what the cluster
  model calls a restart.
\<close>

section \<open>End points\<close>

lemma enable_ends_simps [simp]:
  "nwEnds (enable_ends es b rn) = nwEnds rn" "nwConnections (enable_ends es b rn) = nwConnections rn"
  "nwServers (enable_ends es b rn) = nwServers rn"
  by (induction es arbitrary: rn) (auto simp: enable_ends_def Enable_def)

lemma isEnabled_enable_ends [simp]:
  "isEnabled (enable_ends es b rn) (EndName e) \<longleftrightarrow> (if e \<in> set es then b else isEnabled rn (EndName e))"
  by (induction es arbitrary: rn) (auto simp: enable_ends_def Enable_def isEnabled_def)

lemma connectionOf_enable_ends [simp]: "connectionOf (enable_ends es b rn) = connectionOf rn"
  by (rule ext) (simp add: connectionOf_def)

lemma make_ends_step:
  assumes "make_ends (e # es) j rn = Some rn'"
  obtains rn1 where "nwEnds rn (EndName e) = None" "make_ends es (Suc j) rn1 = Some rn'"
    "nwEnds rn1 = (nwEnds rn)(EndName e \<mapsto> \<lparr>ceEndname = EndName e\<rparr>)" "nwEnabled rn1 = (nwEnabled rn)(EndName e \<mapsto> False)"
    "nwConnections rn1 = (nwConnections rn)(EndName e \<mapsto> Some (ServerName j))" "nwServers rn1 = nwServers rn"
  using assms by (fastforce simp: MakeEnd_def Connect_def Let_def split: option.splits)

lemma make_ends_frame:
  "make_ends es j rn = Some rn' \<Longrightarrow> x \<notin> EndName ` set es \<Longrightarrow>
   nwEnds rn' x = nwEnds rn x \<and> nwEnabled rn' x = nwEnabled rn x \<and> nwConnections rn' x = nwConnections rn x"
proof (induction es arbitrary: j rn)
  case (Cons e es)
  from Cons.prems(1) obtain rn1 where rn1: "make_ends es (Suc j) rn1 = Some rn'"
    "nwEnds rn1 = (nwEnds rn)(EndName e \<mapsto> \<lparr>ceEndname = EndName e\<rparr>)" "nwEnabled rn1 = (nwEnabled rn)(EndName e \<mapsto> False)"
    "nwConnections rn1 = (nwConnections rn)(EndName e \<mapsto> Some (ServerName j))" by (rule make_ends_step)
  show ?case using Cons.IH [OF rn1(1)] Cons.prems(2) rn1(2-4) by auto
qed simp

lemma make_ends_fresh:
  "make_ends es j rn = Some rn' \<Longrightarrow> distinct es \<and> (\<forall>e \<in> set es. nwEnds rn (EndName e) = None)"
proof (induction es arbitrary: j rn)
  case (Cons e es)
  from Cons.prems(1) obtain rn1 where rn1: "nwEnds rn (EndName e) = None" "make_ends es (Suc j) rn1 = Some rn'"
    "nwEnds rn1 = (nwEnds rn)(EndName e \<mapsto> \<lparr>ceEndname = EndName e\<rparr>)" by (rule make_ends_step)
  then show ?case using Cons.IH [OF rn1(2)] by (auto split: if_splits)
qed simp

lemma make_ends_new:
  "make_ends es j rn = Some rn' \<Longrightarrow> k < length es \<Longrightarrow> nwEnds rn' (EndName (es ! k)) \<noteq> None \<and>
   nwEnabled rn' (EndName (es ! k)) = Some False \<and> nwConnections rn' (EndName (es ! k)) = Some (Some (ServerName (j + k)))"
proof (induction es arbitrary: j rn k)
  case (Cons e es)
  from Cons.prems(1) obtain rn1 where rn1: "make_ends es (Suc j) rn1 = Some rn'"
    "nwEnds rn1 = (nwEnds rn)(EndName e \<mapsto> \<lparr>ceEndname = EndName e\<rparr>)" "nwEnabled rn1 = (nwEnabled rn)(EndName e \<mapsto> False)"
    "nwConnections rn1 = (nwConnections rn)(EndName e \<mapsto> Some (ServerName j))" by (rule make_ends_step)
  show ?case
  proof (cases k)
    case 0
    have "e \<notin> set es" using make_ends_fresh [OF Cons.prems(1)] by simp
    then show ?thesis using 0 make_ends_frame [OF rn1(1), of "EndName e"] rn1(2-4) by auto
  next
    case (Suc k')
    then show ?thesis using Cons.IH [OF rn1(1)] Cons.prems(2) by auto
  qed
qed simp

lemma make_ends_servers: "make_ends es j rn = Some rn' \<Longrightarrow> nwServers rn' = nwServers rn"
proof (induction es arbitrary: j rn)
  case (Cons e es)
  from Cons.prems(1) obtain rn1 where "make_ends es (Suc j) rn1 = Some rn'" "nwServers rn1 = nwServers rn" by (rule make_ends_step)
  then show ?case using Cons.IH by simp
qed simp

section \<open>The invariant of the network\<close>

definition shape_ok :: "'c config \<Rightarrow> bool" where
  "shape_ok cfg \<longleftrightarrow> length (cfConnected cfg) = cfN cfg \<and> length (cfEndnames cfg) = cfN cfg \<and> length (cfRafts cfg) = cfN cfg \<and>
     length (cfSaved cfg) = cfN cfg \<and> length (cfLogs cfg) = cfN cfg \<and> length (cfLastApplied cfg) = cfN cfg \<and>
     (\<forall>i < cfN cfg. cfEndnames cfg ! i = [] \<or> length (cfEndnames cfg ! i) = cfN cfg)"

definition net_ok :: "'c config \<Rightarrow> bool" where
  "net_ok cfg \<longleftrightarrow> shape_ok cfg \<and>
     (\<forall>i j i' j' e. endname cfg i j = Some e \<and> endname cfg i' j' = Some e \<longrightarrow> i = i' \<and> j = j') \<and>
     (\<forall>i j e. endname cfg i j = Some e \<longrightarrow> nwEnds (cfNet cfg) (EndName e) \<noteq> None \<and>
        isEnabled (cfNet cfg) (EndName e) = (cfConnected cfg ! i \<and> cfConnected cfg ! j) \<and>
        connectionOf (cfNet cfg) (EndName e) = Some (ServerName j))"

lemma net_okD:
  assumes "net_ok cfg"
  shows "shape_ok cfg" and "endname cfg i j = Some e \<Longrightarrow> endname cfg i' j' = Some e \<Longrightarrow> i = i' \<and> j = j'"
    and "endname cfg i j = Some e \<Longrightarrow> nwEnds (cfNet cfg) (EndName e) \<noteq> None"
    and "endname cfg i j = Some e \<Longrightarrow> isEnabled (cfNet cfg) (EndName e) = (cfConnected cfg ! i \<and> cfConnected cfg ! j)"
    and "endname cfg i j = Some e \<Longrightarrow> connectionOf (cfNet cfg) (EndName e) = Some (ServerName j)"
  using assms unfolding net_ok_def by blast+

lemma endname_Some_iff:
  "endname cfg i j = Some e \<longleftrightarrow> i < length (cfEndnames cfg) \<and> j < length (cfEndnames cfg ! i) \<and> cfEndnames cfg ! i ! j = e"
  by (auto simp: endname_def nth_int_Some_iff)

lemma endname_bounds: "shape_ok cfg \<Longrightarrow> endname cfg i j = Some e \<Longrightarrow> i < cfN cfg \<and> j < cfN cfg"
  by (auto simp: endname_Some_iff shape_ok_def)

lemma those_map_Some: "those (map f xs) = Some ys \<Longrightarrow> (e \<in> set ys) = (\<exists>x \<in> set xs. f x = Some e)"
  by (induction xs arbitrary: ys) (auto split: option.splits)

lemma outgoing_iff:
  assumes "net_ok cfg" "those (map (endname cfg i) js) = Some es" "endname cfg a b = Some e"
  shows "(e \<in> set es) = (a = i \<and> b \<in> set js)"
  unfolding those_map_Some [OF assms(2)] using net_okD(2) [OF assms(1) assms(3)] assms(3) by blast

lemma incoming_iff:
  assumes "net_ok cfg" "those (map (\<lambda>j. endname cfg j i) js) = Some es" "endname cfg a b = Some e"
  shows "(e \<in> set es) = (b = i \<and> a \<in> set js)"
  unfolding those_map_Some [OF assms(2)] using net_okD(2) [OF assms(1) assms(3)] assms(3) by blast

text \<open>Changing the flags \<^verbatim>\<open>connected\<close> and enabling or disabling the end points of server \<open>i\<close>.\<close>

lemma net_ok_switch:
  assumes ok: "net_ok cfg" and i: "i < cfN cfg"
    and S: "\<And>a b e. endname cfg a b = Some e \<Longrightarrow> (e \<in> S) = (a = i \<and> B b \<or> b = i \<and> B a)"
    and B: "\<And>j. j < cfN cfg \<Longrightarrow> cfConnected cfg ! j \<Longrightarrow> j \<noteq> i \<Longrightarrow> B j" "\<And>j. j < cfN cfg \<Longrightarrow> v \<Longrightarrow> B j \<Longrightarrow> j \<noteq> i \<Longrightarrow> cfConnected cfg ! j" "B i"
    and rn: "nwEnds rn = nwEnds (cfNet cfg)" "connectionOf rn = connectionOf (cfNet cfg)"
      "\<And>e. isEnabled rn (EndName e) = (if e \<in> S then v else isEnabled (cfNet cfg) (EndName e))"
  shows "net_ok (cfg\<lparr>cfConnected := (cfConnected cfg)[i := v], cfNet := rn\<rparr>)"
proof -
  note D = net_okD [OF ok]
  have e: "endname (cfg\<lparr>cfConnected := (cfConnected cfg)[i := v], cfNet := rn\<rparr>) = endname cfg" by (intro ext) (simp add: endname_def)
  have "isEnabled rn (EndName e) = ((cfConnected cfg)[i := v] ! a \<and> (cfConnected cfg)[i := v] ! b)" if h: "endname cfg a b = Some e" for a b e
  proof -
    have ab: "a < cfN cfg" "b < cfN cfg" "length (cfConnected cfg) = cfN cfg" using endname_bounds [OF D(1) h] D(1) by (auto simp: shape_ok_def)
    have con: "(cfConnected cfg)[i := v] ! j = (if j = i then v else cfConnected cfg ! j)" if "j < cfN cfg" for j
      using that ab(3) by simp
    have dir: "cfConnected cfg ! j \<longrightarrow> j = i \<or> B j" "v \<and> B j \<longrightarrow> j = i \<or> cfConnected cfg ! j" if "j < cfN cfg" for j
      using B(1,2) [OF that] by blast+
    show ?thesis
      unfolding con [OF ab(1)] con [OF ab(2)] rn(3) S [OF h] D(4) [OF h]
      using dir [OF ab(1)] dir [OF ab(2)] B(3) by (cases "a = i"; cases "b = i"; cases v; simp; blast?)
  qed
  note enabled = this
  show ?thesis unfolding net_ok_def e
  proof (intro conjI allI impI)
    show "shape_ok (cfg\<lparr>cfConnected := (cfConnected cfg)[i := v], cfNet := rn\<rparr>)" using D(1) by (simp add: shape_ok_def)
  qed (use D(2,3,5) enabled rn(1,2) in \<open>simp_all, blast+\<close>)
qed

lemma connect_net_ok:
  assumes ok: "net_ok cfg" and ev: "harness_connect cfg i = Some cfg'"
  shows "net_ok cfg' \<and> cfConnected cfg' = (cfConnected cfg)[i := True] \<and> i < cfN cfg"
proof -
  note D = net_okD [OF ok]
  let ?con = "(cfConnected cfg)[i := True]"
  obtain outs ins where i: "i < cfN cfg"
    and outs: "those (map (endname cfg i) (filter (\<lambda>j. ?con ! j) [0..<cfN cfg])) = Some outs"
    and ins: "those (map (\<lambda>j. endname cfg j i) (filter (\<lambda>j. ?con ! j) [0..<cfN cfg])) = Some ins"
    and cfg': "cfg' = cfg\<lparr>cfConnected := ?con, cfNet := enable_ends ins True (enable_ends outs True (cfNet cfg))\<rparr>"
    using ev D(1) by (auto simp: harness_connect_def update_int_Some_iff shape_ok_def Let_def)
  have S: "(e \<in> set outs \<union> set ins) = (a = i \<and> ?con ! b \<or> b = i \<and> ?con ! a)" if h: "endname cfg a b = Some e" for a b e
    using endname_bounds [OF D(1) h] by (auto simp: outgoing_iff [OF ok outs h] incoming_iff [OF ok ins h])
  have "net_ok cfg'" unfolding cfg'
    by (rule net_ok_switch [OF ok i S]) (use i D(1) in \<open>auto simp: shape_ok_def\<close>)
  then show ?thesis using i cfg' by simp
qed

lemma disconnect_net_ok:
  assumes ok: "net_ok cfg" and ev: "harness_disconnect cfg i = Some cfg'"
  shows "net_ok cfg' \<and> i < cfN cfg \<and> (\<exists>rn. cfg' = cfg\<lparr>cfConnected := (cfConnected cfg)[i := False], cfNet := rn\<rparr>)"
proof -
  note D = net_okD [OF ok]
  obtain outs ins where i: "i < cfN cfg"
    and outs: "those (map (endname cfg i) (filter (\<lambda>j. cfEndnames cfg ! i \<noteq> []) [0..<cfN cfg])) = Some outs"
    and ins: "those (map (\<lambda>j. endname cfg j i) (filter (\<lambda>j. cfEndnames cfg ! j \<noteq> []) [0..<cfN cfg])) = Some ins"
    and cfg': "cfg' = cfg\<lparr>cfConnected := (cfConnected cfg)[i := False], cfNet := enable_ends ins False (enable_ends outs False (cfNet cfg))\<rparr>"
    using ev D(1) by (auto simp: harness_disconnect_def update_int_Some_iff shape_ok_def)
  have S: "(e \<in> set outs \<union> set ins) = (a = i \<and> True \<or> b = i \<and> True)" if h: "endname cfg a b = Some e" for a b e
  proof -
    have "cfEndnames cfg ! a \<noteq> []" using h by (auto simp: endname_Some_iff)
    then show ?thesis
      using endname_bounds [OF D(1) h] by (auto simp: outgoing_iff [OF ok outs h] incoming_iff [OF ok ins h])
  qed
  have "net_ok cfg'" unfolding cfg'
    by (rule net_ok_switch [OF ok i S]) auto
  then show ?thesis using i cfg' by auto
qed

lemma crash_net_ok:
  assumes ok: "net_ok cfg" and ev: "crash1 cfg i = Some (cfg', gone)"
  shows "net_ok cfg' \<and> i < cfN cfg \<and> cfN cfg' = cfN cfg \<and> \<not> cfConnected cfg' ! i"
proof -
  obtain cfg1 where d: "harness_disconnect cfg i = Some cfg1"
    and cfg': "cfg' = cfg1\<lparr>cfNet := DeleteServer (ServerName i) (cfNet cfg1), cfRafts := (cfRafts cfg1)[i := None], cfSaved := (cfSaved cfg1)[i :=
      map_option (\<lambda>ps. Save MakePersister (ReadRaftState ps) (ReadSnapshot ps)) (map_option Copy
        (live_saved (cfg1\<lparr>cfNet := DeleteServer (ServerName i) (cfNet cfg1)\<rparr>) i))]\<rparr>"
    using ev by (auto simp: crash1_def Let_def)
  note N = disconnect_net_ok [OF ok d]
  have e: "endname cfg' = endname cfg1" by (intro ext) (simp add: cfg' endname_def)
  have "net_ok cfg'"
    using N unfolding net_ok_def e by (simp add: cfg' shape_ok_def DeleteServer_def isEnabled_def connectionOf_def)
  moreover have "length (cfConnected cfg) = cfN cfg" using net_okD(1) [OF ok] by (simp add: shape_ok_def)
  ultimately show ?thesis using N by (auto simp: cfg')
qed

lemma ingestSnap_frame:
  assumes "ingestSnap cfg i data index = Inr cfg'"
  obtains ls la where "cfg' = cfg\<lparr>cfLogs := ls, cfLastApplied := la\<rparr>" "length ls = length (cfLogs cfg)"
    "length la = length (cfLastApplied cfg)"
proof -
  from assms obtain x k where "cfg' = cfg\<lparr>cfLogs := (cfLogs cfg)[i := x], cfLastApplied := (cfLastApplied cfg)[i := k]\<rparr>"
    by (auto simp: ingestSnap_def split: if_splits option.splits)
  then show thesis by (intro that [where ls = "(cfLogs cfg)[i := x]" and la = "(cfLastApplied cfg)[i := k]"]) auto
qed

lemma fresh_saved_frame:
  assumes "fresh_saved cfg i = Some (cfg', ps)"
  shows "ps = (case live_saved cfg i of Some ps \<Rightarrow> ps | None \<Rightarrow> MakePersister) \<and>
    (\<exists>ls la. cfg' = cfg\<lparr>cfLogs := ls, cfLastApplied := la\<rparr> \<and> length ls = length (cfLogs cfg) \<and>
       length la = length (cfLastApplied cfg) \<and> (psnapshot ps = [] \<longrightarrow> ls = cfLogs cfg \<and> la = cfLastApplied cfg))"
proof (cases "\<exists>p. live_saved cfg i = Some p \<and> psnapshot p \<noteq> []")
  case True
  then obtain p where p: "live_saved cfg i = Some p" "psnapshot p \<noteq> []" by blast
  then obtain cfg2 where s: "ingestSnap cfg i (psnapshot p) (- 1) = Inr cfg2" and e: "cfg' = cfg2" "ps = p"
    using assms by (auto simp: fresh_saved_def ReadSnapshot_def clone_def Let_def split: sum.splits)
  from s obtain ls la where "cfg2 = cfg\<lparr>cfLogs := ls, cfLastApplied := la\<rparr>" "length ls = length (cfLogs cfg)"
    "length la = length (cfLastApplied cfg)" by (rule ingestSnap_frame)
  then show ?thesis using p e by auto
next
  case False
  then have "cfg' = cfg" "ps = (case live_saved cfg i of Some ps \<Rightarrow> ps | None \<Rightarrow> MakePersister)"
    using assms by (auto simp: fresh_saved_def ReadSnapshot_def clone_def Let_def split: option.splits)
  then show ?thesis by (intro conjI exI [of _ "cfLogs cfg"] exI [of _ "cfLastApplied cfg"]) simp_all
qed

text \<open>What \<^verbatim>\<open>start1\<close> leaves, in terms of the configuration after \<^verbatim>\<open>crash1\<close>.\<close>

lemma start1_cases:
  assumes "start1 cfg i names srv now = Some cfg'"
  obtains cfg1 gone rn ps rf ls la where "crash1 cfg i = Some (cfg1, gone)"
    "make_ends (map names [0..<cfN cfg1]) 0 (cfNet cfg1) = Some rn" "Make (cfN cfg1) i ps now = Some rf"
    "cfg' = cfg1\<lparr>cfEndnames := (cfEndnames cfg1)[i := map names [0..<cfN cfg1]], cfLogs := ls, cfLastApplied := la,
       cfSaved := (cfSaved cfg1)[i := Some ps], cfRafts := (cfRafts cfg1)[i := Some rf], cfNet := AddServer (ServerName i) srv rn\<rparr>"
    "ps = (case live_saved cfg1 i of Some ps \<Rightarrow> ps | None \<Rightarrow> MakePersister)"
    "length ls = length (cfLogs cfg1)" "length la = length (cfLastApplied cfg1)" "psnapshot ps = [] \<longrightarrow> ls = cfLogs cfg1 \<and> la = (cfLastApplied cfg1)[i := 0]"
proof -
  note result = that
  obtain cfg1 gone where c: "crash1 cfg i = Some (cfg1, gone)" using assms by (auto simp: start1_def)
  obtain rn where rn: "make_ends (map names [0..<cfN cfg1]) 0 (cfNet cfg1) = Some rn"
    using assms c by (auto simp: start1_def Let_def)
  let ?cfg = "cfg1\<lparr>cfEndnames := (cfEndnames cfg1)[i := map names [0..<cfN cfg1]], cfNet := rn,
     cfLastApplied := (cfLastApplied cfg1)[i := 0]\<rparr>"
  have live: "live_saved ?cfg i = live_saved cfg1 i" by (simp add: live_saved_def cong: option.case_cong)
  obtain cfg2 ps rf where cfg2: "fresh_saved ?cfg i = Some (cfg2, ps)" and rf: "Make (cfN cfg2) i ps now = Some rf"
    and cfg': "cfg' = cfg2\<lparr>cfSaved := (cfSaved cfg2)[i := Some ps], cfRafts := (cfRafts cfg2)[i := Some rf],
               cfNet := AddServer (ServerName i) srv (cfNet cfg2)\<rparr>"
    using assms c rn by (auto simp: start1_def Let_def)
  note F = fresh_saved_frame [OF cfg2, unfolded live]
  from F obtain ls la where l: "cfg2 = ?cfg\<lparr>cfLogs := ls, cfLastApplied := la\<rparr>" "length ls = length (cfLogs cfg1)"
    "length la = length (cfLastApplied cfg1)" "psnapshot ps = [] \<longrightarrow> ls = cfLogs cfg1 \<and> la = (cfLastApplied cfg1)[i := 0]" by auto
  show thesis
    by (rule result [OF c rn _ _ _ l(2-4)]) (use rf l(1) F in \<open>simp_all add: cfg'\<close>)
qed

lemma start_net_ok:
  assumes ok: "net_ok cfg" and ev: "start1 cfg i names srv now = Some cfg'"
  shows "net_ok cfg' \<and> cfN cfg' = cfN cfg \<and> \<not> cfConnected cfg' ! i \<and> i < cfN cfg"
proof -
  from ev obtain cfg1 gone rn ps rf ls la where s: "crash1 cfg i = Some (cfg1, gone)"
    "make_ends (map names [0..<cfN cfg1]) 0 (cfNet cfg1) = Some rn"
    "cfg' = cfg1\<lparr>cfEndnames := (cfEndnames cfg1)[i := map names [0..<cfN cfg1]], cfLogs := ls, cfLastApplied := la,
       cfSaved := (cfSaved cfg1)[i := Some ps], cfRafts := (cfRafts cfg1)[i := Some rf], cfNet := AddServer (ServerName i) srv rn\<rparr>"
    "length ls = length (cfLogs cfg1)" "length la = length (cfLastApplied cfg1)" by (rule start1_cases)
  note C = crash_net_ok [OF ok s(1)]
  have ok1: "net_ok cfg1" and i: "i < cfN cfg1" and con: "\<not> cfConnected cfg1 ! i" using C by auto
  note D = net_okD [OF ok1]
  have sh: "length (cfEndnames cfg1) = cfN cfg1" using D(1) by (simp add: shape_ok_def)
  have e: "endname cfg' a b = (if a = i then (if b < cfN cfg1 then Some (names b) else None) else endname cfg1 a b)" for a b
    using i sh by (auto simp: s(3) endname_def nth_int_def nth_list_update)
  have fresh: "distinct (map names [0..<cfN cfg1])" "\<And>b. b < cfN cfg1 \<Longrightarrow> nwEnds (cfNet cfg1) (EndName (names b)) = None"
    using make_ends_fresh [OF s(2)] by auto
  have old: "x \<notin> EndName ` names ` {..<cfN cfg1}" if "endname cfg1 a b = Some e" "x = EndName e" for a b x e
    using D(3) [OF that(1)] that(2) fresh(2) by auto
  have new: "nwEnds rn (EndName (names b)) \<noteq> None \<and> nwEnabled rn (EndName (names b)) = Some False \<and>
      nwConnections rn (EndName (names b)) = Some (Some (ServerName b))" if "b < cfN cfg1" for b
    using make_ends_new [OF s(2), of b] that by simp
  have frame: "nwEnds rn x = nwEnds (cfNet cfg1) x \<and> nwEnabled rn x = nwEnabled (cfNet cfg1) x \<and> nwConnections rn x = nwConnections (cfNet cfg1) x"
    if "endname cfg1 a b = Some e" "x = EndName e" for a b x e
    using make_ends_frame [OF s(2), of x] old [OF that] by (auto simp: lessThan_atLeast0)
  have "a = a' \<and> b = b'" if h: "endname cfg' a b = Some e" "endname cfg' a' b' = Some e" for a b a' b' e
  proof -
    have inj: "b = b'" if "b < cfN cfg1" "b' < cfN cfg1" "names b = names b'"
      using fresh(1) that by (auto simp: distinct_map inj_on_def)
    have new_old: False if "names x = e" "x < cfN cfg1" "endname cfg1 c d = Some e" for x c d
      using old [OF that(3) refl] that(1,2) by auto
    show ?thesis
    proof (cases "a = i"; cases "a' = i")
      assume "a = i" "a' = i"
      then show ?thesis using h inj unfolding e by (auto split: if_splits)
    next
      assume "a = i" "a' \<noteq> i"
      then show ?thesis using h new_old [of b] unfolding e by (auto split: if_splits)
    next
      assume "a \<noteq> i" "a' = i"
      then show ?thesis using h new_old [of b'] unfolding e by (auto split: if_splits)
    next
      assume "a \<noteq> i" "a' \<noteq> i"
      then show ?thesis using h D(2) unfolding e by simp
    qed
  qed
  moreover have "nwEnds (cfNet cfg') (EndName e) \<noteq> None \<and>
        isEnabled (cfNet cfg') (EndName e) = (cfConnected cfg' ! a \<and> cfConnected cfg' ! b) \<and>
        connectionOf (cfNet cfg') (EndName e) = Some (ServerName b)" if h: "endname cfg' a b = Some e" for a b e
  proof (cases "a = i")
    case True
    then show ?thesis using h new con unfolding e by (auto simp: s(3) AddServer_def isEnabled_def connectionOf_def split: if_splits)
  next
    case False
    then have h1: "endname cfg1 a b = Some e" using h unfolding e by simp
    show ?thesis using frame [OF h1 refl] D(3-5) [OF h1] by (auto simp: s(3) AddServer_def isEnabled_def connectionOf_def)
  qed
  moreover have "shape_ok cfg'" using D(1) i s(4,5) by (auto simp: shape_ok_def s(3) nth_list_update)
  ultimately have "net_ok cfg'" unfolding net_ok_def by blast
  then show ?thesis using C by (simp add: s(3))
qed

section \<open>Sequences of operations\<close>

text \<open>The operations of the harness, and \<open>HPeer\<close>: a running peer has changed its state.\<close>

datatype 'c harness_op =
    HConnect nat
  | HDisconnect nat
  | HCrash nat
  | HStart nat "nat \<Rightarrow> string" nat int
  | HPeer nat "('c, 'c hgob) Raft"

fun harness_step :: "'c harness_op \<Rightarrow> 'c config \<Rightarrow> 'c config option" where
  "harness_step (HConnect i) cfg = harness_connect cfg i"
| "harness_step (HDisconnect i) cfg = harness_disconnect cfg i"
| "harness_step (HCrash i) cfg = map_option fst (crash1 cfg i)"
| "harness_step (HStart i names srv now) cfg = start1 cfg i names srv now"
| "harness_step (HPeer i rf) cfg =
     (if i < length (cfRafts cfg) \<and> cfRafts cfg ! i \<noteq> None then Some (cfg\<lparr>cfRafts := (cfRafts cfg)[i := Some rf]\<rparr>) else None)"

fun harness_run :: "'c harness_op list \<Rightarrow> 'c config \<Rightarrow> 'c config option" where
  "harness_run [] cfg = Some cfg"
| "harness_run (h # hs) cfg = do { cfg \<leftarrow> harness_step h cfg; harness_run hs cfg }"

lemma net_ok_rafts: "net_ok cfg \<Longrightarrow> length rs = length (cfRafts cfg) \<Longrightarrow> net_ok (cfg\<lparr>cfRafts := rs\<rparr>)"
  by (simp add: net_ok_def shape_ok_def endname_def)

lemma harness_step_ok: "net_ok cfg \<Longrightarrow> harness_step h cfg = Some cfg' \<Longrightarrow> net_ok cfg'"
  by (cases h) (auto split: if_splits dest: connect_net_ok disconnect_net_ok crash_net_ok start_net_ok intro: net_ok_rafts)

lemma harness_run_ok: "net_ok cfg \<Longrightarrow> harness_run hs cfg = Some cfg' \<Longrightarrow> net_ok cfg'"
  by (induction hs arbitrary: cfg) (auto dest: harness_step_ok)

lemma start_all_ok: "net_ok cfg \<Longrightarrow> start_all is names srv now cfg = Some cfg' \<Longrightarrow> net_ok cfg'"
proof (induction "is" arbitrary: cfg)
  case (Cons i "is")
  have e: "endname (cfg\<lparr>cfLogs := (cfLogs cfg)[i := Map.empty]\<rparr>) = endname cfg" by (intro ext) (simp add: endname_def)
  have "net_ok (cfg\<lparr>cfLogs := (cfLogs cfg)[i := Map.empty]\<rparr>)" using Cons.prems(1) unfolding net_ok_def e by (simp add: shape_ok_def)
  then show ?case using Cons start_net_ok by fastforce
qed simp

lemma connect_all_ok: "net_ok cfg \<Longrightarrow> connect_all is cfg = Some cfg' \<Longrightarrow> net_ok cfg'"
  by (induction "is" arbitrary: cfg) (auto dest: connect_net_ok)

lemma net_ok_empty: "cfEndnames cfg = replicate (cfN cfg) [] \<Longrightarrow> shape_ok cfg \<Longrightarrow> net_ok cfg"
  by (auto simp: net_ok_def endname_Some_iff)

lemma make_config_cases:
  fixes cfg :: "'c config"
  assumes "make_config n unrel names srv now t = Some cfg"
  obtains cfg0 cfg1 where "cfg0 = (empty_config n t)\<lparr>cfNet := LongDelays True (Reliable (\<not> unrel) MakeNetwork)\<rparr>"
    "start_all [0..<n] names srv now cfg0 = Some cfg1" "connect_all [0..<n] cfg1 = Some cfg"
  using assms by (auto simp: make_config_def Let_def setunreliable_def empty_config_def)

lemma make_config_ok:
  assumes "make_config n unrel names srv now t = Some cfg"
  shows "net_ok cfg"
proof -
  from assms obtain cfg0 cfg1 where cfg0: "cfg0 = (empty_config n t)\<lparr>cfNet := LongDelays True (Reliable (\<not> unrel) MakeNetwork)\<rparr>"
    and s: "start_all [0..<n] names srv now cfg0 = Some cfg1" and c: "connect_all [0..<n] cfg1 = Some cfg" by (rule make_config_cases)
  have "net_ok cfg0" by (rule net_ok_empty) (auto simp: cfg0 empty_config_def shape_ok_def)
  then show ?thesis using start_all_ok [OF _ s] connect_all_ok [OF _ c] by blast
qed

section \<open>Starting a server\<close>

text \<open>
  Whatever the harness has saved for a server or its running peer has persisted is what the new
  peer is made from, as in a restart of the cluster model.
\<close>

lemma crash1_saved:
  assumes "crash1 cfg i = Some (cfg', gone)" "i < length (cfRafts cfg)" "i < length (cfSaved cfg)"
  shows "live_saved cfg' i = live_saved cfg i"
proof -
  obtain cfg1 rn con where d: "harness_disconnect cfg i = Some cfg1" "cfg1 = cfg\<lparr>cfConnected := con, cfNet := rn\<rparr>"
    using assms(1) by (auto simp: crash1_def harness_disconnect_def)
  show ?thesis
    using assms
    by (cases "cfSaved cfg ! i") (auto simp: crash1_def Let_def d live_saved_def Save_def MakePersister_def ReadRaftState_def ReadSnapshot_def clone_def
        split: option.splits)
qed

lemma start1_peer:
  assumes ok: "net_ok cfg" and ev: "start1 cfg i names srv now = Some cfg'"
  shows "\<exists>rf. Make (cfN cfg) i (case live_saved cfg i of Some ps \<Rightarrow> ps | None \<Rightarrow> MakePersister) now = Some rf \<and>
    cfRafts cfg' = (cfRafts cfg)[i := Some rf]"
proof -
  from ev obtain cfg1 gone rn ps rf ls la where s: "crash1 cfg i = Some (cfg1, gone)" "Make (cfN cfg1) i ps now = Some rf"
    "cfg' = cfg1\<lparr>cfEndnames := (cfEndnames cfg1)[i := map names [0..<cfN cfg1]], cfLogs := ls, cfLastApplied := la,
       cfSaved := (cfSaved cfg1)[i := Some ps], cfRafts := (cfRafts cfg1)[i := Some rf], cfNet := AddServer (ServerName i) srv rn\<rparr>"
    "ps = (case live_saved cfg1 i of Some ps \<Rightarrow> ps | None \<Rightarrow> MakePersister)" by (rule start1_cases)
  have "i < cfN cfg" "length (cfRafts cfg) = cfN cfg" "length (cfSaved cfg) = cfN cfg"
    using start_net_ok [OF ok ev] net_okD(1) [OF ok] by (auto simp: shape_ok_def)
  then have "live_saved cfg1 i = live_saved cfg i" using crash1_saved [OF s(1)] by simp
  moreover have "cfN cfg1 = cfN cfg" using crash_net_ok [OF ok s(1)] by simp
  moreover have "cfRafts cfg1 = (cfRafts cfg)[i := None]" using s(1) by (auto simp: crash1_def Let_def harness_disconnect_def)
  ultimately show ?thesis using s(2-4) by auto
qed

lemma crash1_frame:
  assumes "crash1 cfg i = Some (cfg', gone)"
  shows "cfLogs cfg' = cfLogs cfg \<and> cfLastApplied cfg' = cfLastApplied cfg \<and> cfApplyErr cfg' = cfApplyErr cfg \<and> cfN cfg' = cfN cfg \<and>
    cfRafts cfg' = (cfRafts cfg)[i := None] \<and>
    (\<forall>j. j \<noteq> i \<longrightarrow> cfSaved cfg' ! j = cfSaved cfg ! j)"
  using assms by (auto simp: crash1_def Let_def harness_disconnect_def)

lemma start1_fresh:
  assumes ok: "net_ok cfg" and ev: "start1 cfg i names srv now = Some cfg'" and fresh: "cfRafts cfg ! i = None" "cfSaved cfg ! i = None"
  shows "cfLogs cfg' = cfLogs cfg \<and> cfLastApplied cfg' = (cfLastApplied cfg)[i := 0] \<and> cfApplyErr cfg' = cfApplyErr cfg \<and> cfN cfg' = cfN cfg \<and>
    cfRafts cfg' = (cfRafts cfg)[i := Some (initRaft (cfN cfg) i MakePersister now)] \<and> (\<forall>j. j \<noteq> i \<longrightarrow> cfSaved cfg' ! j = cfSaved cfg ! j)"
proof -
  from ev obtain cfg1 gone rn ps rf ls la where s: "crash1 cfg i = Some (cfg1, gone)" "Make (cfN cfg1) i ps now = Some rf"
    "cfg' = cfg1\<lparr>cfEndnames := (cfEndnames cfg1)[i := map names [0..<cfN cfg1]], cfLogs := ls, cfLastApplied := la,
       cfSaved := (cfSaved cfg1)[i := Some ps], cfRafts := (cfRafts cfg1)[i := Some rf], cfNet := AddServer (ServerName i) srv rn\<rparr>"
    "ps = (case live_saved cfg1 i of Some ps \<Rightarrow> ps | None \<Rightarrow> MakePersister)" "psnapshot ps = [] \<longrightarrow> ls = cfLogs cfg1 \<and> la = (cfLastApplied cfg1)[i := 0]"
    by (rule start1_cases)
  have "i < cfN cfg" "length (cfRafts cfg) = cfN cfg" "length (cfSaved cfg) = cfN cfg"
    using start_net_ok [OF ok ev] net_okD(1) [OF ok] by (auto simp: shape_ok_def)
  then have "live_saved cfg1 i = None" using crash1_saved [OF s(1)] fresh by (simp add: live_saved_def)
  then have ps: "ps = MakePersister" using s(4) by simp
  then have "ls = cfLogs cfg1 \<and> la = (cfLastApplied cfg1)[i := 0]" using s(5) by (simp add: MakePersister_def)
  moreover have "rf = initRaft (cfN cfg) i MakePersister now"
    using s(2) ps crash1_frame [OF s(1)] by (simp add: Make_def readPersist_def ReadRaftState_def clone_def MakePersister_def)
  ultimately show ?thesis using crash1_frame [OF s(1)] by (simp add: s(3))
qed

lemma start_all_rafts:
  assumes "net_ok cfg" "start_all is names srv now cfg = Some cfg'" "distinct is"
    "\<And>i. i \<in> set is \<Longrightarrow> cfRafts cfg ! i = None \<and> cfSaved cfg ! i = None" "cfLogs cfg = replicate (cfN cfg) Map.empty"
    "cfLastApplied cfg = replicate (cfN cfg) 0"
  shows "cfLogs cfg' = cfLogs cfg \<and> cfLastApplied cfg' = cfLastApplied cfg \<and> cfN cfg' = cfN cfg \<and> cfApplyErr cfg' = cfApplyErr cfg \<and> length (cfRafts cfg') = cfN cfg \<and>
    (\<forall>i < cfN cfg. cfRafts cfg' ! i = (if i \<in> set is then Some (initRaft (cfN cfg) i MakePersister (now i)) else cfRafts cfg ! i))"
  using assms
proof (induction "is" arbitrary: cfg)
  case Nil
  then show ?case using net_okD(1) by (auto simp: shape_ok_def)
next
  case (Cons i "is")
  have "(cfLogs cfg)[i := Map.empty] = cfLogs cfg"
    unfolding Cons.prems(5) by (cases "i < cfN cfg") (simp_all add: list_update_same_conv list_update_beyond)
  then have "cfg\<lparr>cfLogs := (cfLogs cfg)[i := Map.empty]\<rparr> = cfg" by simp
  then obtain cfg1 where ev: "start1 cfg i (names i) (srv i) (now i) = Some cfg1" and rest: "start_all is names srv now cfg1 = Some cfg'"
    using Cons.prems(2) by auto
  have fr: "cfRafts cfg ! i = None" "cfSaved cfg ! i = None" using Cons.prems(4) [of i] by auto
  note F = start1_fresh [OF Cons.prems(1) ev fr]
  have ok: "net_ok cfg1" and i: "i < cfN cfg" using start_net_ok [OF Cons.prems(1) ev] by auto
  have len: "length (cfRafts cfg) = cfN cfg" using net_okD(1) [OF Cons.prems(1)] by (simp add: shape_ok_def)
  have "cfRafts cfg1 ! j = None \<and> cfSaved cfg1 ! j = None" if "j \<in> set is" for j
  proof -
    have "j \<noteq> i" using Cons.prems(3) that by auto
    then show ?thesis using F Cons.prems(4) [of j] that by simp
  qed
  moreover have la: "cfLastApplied cfg1 = cfLastApplied cfg"
    using F unfolding Cons.prems(6) by (cases "i < cfN cfg") (simp_all add: list_update_same_conv list_update_beyond)
  ultimately have IH: "cfLogs cfg' = cfLogs cfg1 \<and> cfLastApplied cfg' = cfLastApplied cfg1 \<and> cfN cfg' = cfN cfg1 \<and> cfApplyErr cfg' = cfApplyErr cfg1 \<and> length (cfRafts cfg') = cfN cfg1 \<and>
      (\<forall>i < cfN cfg1. cfRafts cfg' ! i = (if i \<in> set is then Some (initRaft (cfN cfg1) i MakePersister (now i)) else cfRafts cfg1 ! i))"
    using Cons.IH [OF ok rest] Cons.prems(3,5,6) F by simp
  show ?case
    using IH F la i len Cons.prems(3) by (auto simp: nth_list_update)
qed

lemma connect_frame:
  "connect_all is cfg = Some cfg' \<Longrightarrow> cfLogs cfg' = cfLogs cfg \<and> cfLastApplied cfg' = cfLastApplied cfg \<and> cfN cfg' = cfN cfg \<and> cfApplyErr cfg' = cfApplyErr cfg \<and> cfRafts cfg' = cfRafts cfg"
proof (induction "is" arbitrary: cfg)
  case (Cons i "is")
  then obtain cfg1 where c: "harness_connect cfg i = Some cfg1" "connect_all is cfg1 = Some cfg'" by auto
  have "cfLogs cfg1 = cfLogs cfg \<and> cfLastApplied cfg1 = cfLastApplied cfg \<and> cfN cfg1 = cfN cfg \<and> cfApplyErr cfg1 = cfApplyErr cfg \<and> cfRafts cfg1 = cfRafts cfg"
    using c(1) by (auto simp: harness_connect_def Let_def)
  then show ?case using Cons.IH [OF c(2)] by simp
qed simp

lemma make_config_state:
  assumes "make_config n unrel names srv now t = Some cfg"
  shows "cfN cfg = n \<and> cfLogs cfg = replicate n Map.empty \<and> cfLastApplied cfg = replicate n 0 \<and> cfApplyErr cfg = replicate n [] \<and>
    cfRafts cfg = map (\<lambda>i. Some (initRaft n i MakePersister (now i))) [0..<n]"
proof -
  from assms obtain cfg0 cfg1 where cfg0: "cfg0 = (empty_config n t)\<lparr>cfNet := LongDelays True (Reliable (\<not> unrel) MakeNetwork)\<rparr>"
    and s: "start_all [0..<n] names srv now cfg0 = Some cfg1" and c: "connect_all [0..<n] cfg1 = Some cfg" by (rule make_config_cases)
  have ok: "net_ok cfg0" by (rule net_ok_empty) (auto simp: cfg0 empty_config_def shape_ok_def)
  have "cfLogs cfg1 = cfLogs cfg0 \<and> cfLastApplied cfg1 = cfLastApplied cfg0 \<and> cfN cfg1 = cfN cfg0 \<and> cfApplyErr cfg1 = cfApplyErr cfg0 \<and> length (cfRafts cfg1) = cfN cfg0 \<and>
    (\<forall>i < cfN cfg0. cfRafts cfg1 ! i = (if i \<in> set [0..<n] then Some (initRaft (cfN cfg0) i MakePersister (now i)) else cfRafts cfg0 ! i))"
    by (rule start_all_rafts [OF ok s]) (auto simp: cfg0 empty_config_def)
  then have "cfLogs cfg1 = replicate n Map.empty \<and> cfLastApplied cfg1 = replicate n 0 \<and> cfN cfg1 = n \<and> cfApplyErr cfg1 = replicate n [] \<and> length (cfRafts cfg1) = n \<and>
    (\<forall>i < n. cfRafts cfg1 ! i = Some (initRaft n i MakePersister (now i)))" by (simp add: cfg0 empty_config_def)
  then show ?thesis using connect_frame [OF c] by (auto intro!: nth_equalityI)
qed

section \<open>Properties\<close>

text \<open>
  C19. The network of the harness: after \<^verbatim>\<open>make_config\<close> and any sequence of connecting, disconnecting, crashing and
  restarting servers, the end point from one server to another leads to that server and is enabled
  exactly if both are connected, no two end points share a name, and a name is never used again.
\<close>

theorem harness_network:
  assumes "make_config n unrel names srv now t = Some cfg" "harness_run hs cfg = Some cfg'"
    and "endname cfg' i j = Some e"
  shows "connectionOf (cfNet cfg') (EndName e) = Some (ServerName j) \<and>
    isEnabled (cfNet cfg') (EndName e) = (cfConnected cfg' ! i \<and> cfConnected cfg' ! j) \<and>
    {(i', j'). endname cfg' i' j' = Some e} = {(i, j)} \<and> MakeEnd (cfNet cfg') (EndName e) = None"
proof -
  have ok: "net_ok cfg'" by (rule harness_run_ok [OF make_config_ok [OF assms(1)] assms(2)])
  note D = net_okD [OF ok]
  have "{(i', j'). endname cfg' i' j' = Some e} = {(i, j)}" using D(2) [OF assms(3)] assms(3) by blast
  moreover have "MakeEnd (cfNet cfg') (EndName e) = None" using D(3) [OF assms(3)] by (auto simp: MakeEnd_def)
  ultimately show ?thesis using D(4,5) [OF assms(3)] by blast
qed

text \<open>Two servers, the second of which is restarted, connected again and then the first disconnected.\<close>

definition net_names :: "nat \<Rightarrow> nat \<Rightarrow> string" where
  "net_names i j = [char_of i, char_of j]"

definition net_ops :: "nat harness_op list" where
  "net_ops = [HStart 1 (\<lambda>j. [char_of (5::nat), char_of j]) 9 0, HConnect 1, HDisconnect 0]"

definition net_config :: "nat config" where
  "net_config = the (make_config 2 False net_names id (\<lambda>_. 0) 0)"

definition net_final :: "nat config" where
  "net_final = the (harness_run net_ops net_config)"

lemma net_runs:
  "make_config 2 False net_names id (\<lambda>_. 0) 0 \<noteq> (None :: nat config option)" "harness_run net_ops net_config \<noteq> None"
  "endname net_final 1 0 = Some [char_of (5::nat), char_of (0::nat)]" "cfConnected net_final = [False, True]"
  by code_simp+

theorem harness_network_witness:
  "connectionOf (cfNet net_final) (EndName [char_of (5::nat), char_of (0::nat)]) = Some (ServerName 0) \<and>
   \<not> isEnabled (cfNet net_final) (EndName [char_of (5::nat), char_of (0::nat)])"
proof -
  have "make_config 2 False net_names id (\<lambda>_. 0) 0 = Some net_config" "harness_run net_ops net_config = Some net_final"
    using net_runs(1,2) by (auto simp: net_config_def net_final_def)
  from harness_network [OF this net_runs(3)] show ?thesis using net_runs(4) by simp
qed

text \<open>
  C20. The harness runs the cluster of the model: \<^verbatim>\<open>make_config\<close> leaves the peers of the initial cluster, and when the peers are
  those of a state of the cluster, restarting a live one with \<^verbatim>\<open>start1\<close>, which first crashes it, copies its persister three
  times and makes a new peer from the last copy, leaves the peers that the restart event of the
  cluster leaves.
\<close>

theorem harness_restarts_cluster:
  fixes s :: "('c, 'c hgob) cluster"
  assumes "make_config n unrel names srv (\<lambda>_. 0) t = Some cfg0" "harness_run hs cfg0 = Some cfg"
    and "cfRafts cfg ! i = Some (nodes s ! i)" "me (nodes s ! i) = i" "npeers (nodes s ! i) = cfN cfg" "length (nodes s) = cfN cfg"
    and "start1 cfg i names' srv' now' = Some cfg'"
  shows "cfRafts cfg0 = map Some (nodes (init_cluster n)) \<and>
    (\<exists>s'. exec (CRestart i now') s = Some s' \<and> cfRafts cfg' = (cfRafts cfg)[i := Some (nodes s' ! i)])"
proof -
  have ok: "net_ok cfg" by (rule harness_run_ok [OF make_config_ok [OF assms(1)] assms(2)])
  have i: "i < cfN cfg" using start_net_ok [OF ok assms(7)] by simp
  obtain rf where rf: "Make (cfN cfg) i (persister (nodes s ! i)) now' = Some rf" "cfRafts cfg' = (cfRafts cfg)[i := Some rf]"
    using start1_peer [OF ok assms(7)] assms(3) by (auto simp: live_saved_def)
  then have "\<exists>s'. exec (CRestart i now') s = Some s' \<and> nodes s' ! i = rf" using assms(4-6) i by auto
  moreover have "cfRafts cfg0 = map Some (nodes (init_cluster n))"
    using make_config_state [OF assms(1)] by (simp add: init_cluster_def)
  ultimately show ?thesis using rf(2) by auto
qed

definition net_cluster :: "(nat, nat hgob) cluster" where
  "net_cluster = the (crun [CTick 1 (SELECTION_TIMEOUT + 1)] (init_cluster 2))"

lemma net_cluster_run:
  "harness_run [HPeer 1 (nodes net_cluster ! 1)] net_config \<noteq> None"
  "cfRafts (the (harness_run [HPeer 1 (nodes net_cluster ! 1)] net_config)) ! 1 = Some (nodes net_cluster ! 1)"
  "me (nodes net_cluster ! 1) = 1" "npeers (nodes net_cluster ! 1) = cfN (the (harness_run [HPeer 1 (nodes net_cluster ! 1)] net_config))"
  "length (nodes net_cluster) = cfN (the (harness_run [HPeer 1 (nodes net_cluster ! 1)] net_config))"
  "start1 (the (harness_run [HPeer 1 (nodes net_cluster ! 1)] net_config)) 1 (\<lambda>j. [char_of (7::nat), char_of j]) 9 0 \<noteq> None"
  by code_simp+

theorem harness_restarts_cluster_witness:
  "cfRafts net_config = map Some (nodes (init_cluster 2)) \<and> (\<exists>s'. exec (CRestart 1 0) net_cluster = Some s')"
proof -
  let ?cfg = "the (harness_run [HPeer 1 (nodes net_cluster ! 1)] net_config)"
  have "make_config 2 False net_names id (\<lambda>_. 0) 0 = Some net_config" using net_runs(1) by (auto simp: net_config_def)
  moreover have "harness_run [HPeer 1 (nodes net_cluster ! 1)] net_config = Some ?cfg" using net_cluster_run(1) by auto
  moreover obtain cfg' where "start1 ?cfg 1 (\<lambda>j. [char_of (7::nat), char_of j]) 9 0 = Some cfg'" using net_cluster_run(6) by auto
  ultimately show ?thesis using harness_restarts_cluster [OF _ _ net_cluster_run(2-5)] by blast
qed

end
