(* ===== verification/ApplyOrder.thy ===== *)
theory ApplyOrder
  imports RaftService
begin

text \<open>
  The order of the channel of a peer when no snapshots are taken: the messages that it hands to its service
  since it last started are the commands 1, 2, 3 and so on.
\<close>

section \<open>Messages come in order\<close>

text \<open>The messages of a server since it last started.\<close>

definition delivered :: "('c, 'b) cluster \<Rightarrow> nat \<Rightarrow> ('c, 'b) ApplyMsg list" where
  "delivered s v = drop (length (outbox s ! v) - nat (lastApplied (nodes s ! v))) (outbox s ! v)"

definition order_ok :: "('c, 'b) cluster \<Rightarrow> nat \<Rightarrow> bool" where
  "order_ok s v \<longleftrightarrow> 0 \<le> lastApplied (nodes s ! v) \<and> nat (lastApplied (nodes s ! v)) \<le> length (outbox s ! v) \<and>
     (\<exists>cs. delivered s v = map2 plain_msg [1..lastApplied (nodes s ! v)] cs \<and> int (length cs) = lastApplied (nodes s ! v))"

lemma delivered_cong:
  "lastApplied (nodes s' ! v) = lastApplied (nodes s ! v) \<Longrightarrow> outbox s' ! v = outbox s ! v \<Longrightarrow>
   delivered s' v = delivered s v \<and> order_ok s' v = order_ok s v"
  by (simp add: delivered_def order_ok_def)

text \<open>Only the applier moves \<^verbatim>\<open>lastApplied\<close> of a running server, when there are no snapshots.\<close>

lemma frame_step:
  assumes sim: "sim n s a" and wf: "wf_cluster n s" and none: "snapless s" and v: "v < n" and en: "enabled e s" and ex: "exec e s = Some s'"
    and plain: "\<not> takes_snapshot e" and e: "\<forall>now. e \<noteq> CRestart v now" "e \<noteq> CApply v"
  shows "lastApplied (nodes s' ! v) = lastApplied (nodes s ! v) \<and> outbox s' ! v = outbox s ! v"
proof (cases "routine e")
  case True
  then show ?thesis using routine_step [OF wf en ex True v] by (simp add: kept_def)
next
  case False
  note D = wf_clusterD [OF wf]
  show ?thesis
  proof (cases e)
    case (CAppendSend i j)
    then show ?thesis using append_send_step [of i j s s'] ex by auto
  next
    case (CInstallServe k now)
    let ?c = "icalls s ! k" and ?i = "icPeer (icalls s ! k)"
    have k: "k < length (icalls s)" using en CInstallServe by simp
    then have i: "?i < length (nodes s)" using D(1) D(8) [of k] by simp
    obtain rf r ms where ev: "InstallSnapshot now (nodes s ! ?i) (icArgs ?c) = Some (rf, r, ms)"
      and s': "s' = emit ?i ms (set_node ?i rf (s\<lparr>icalls := (icalls s)[k := ?c\<lparr>icReply := Some r\<rparr>]\<rparr>))"
      using ex CInstallServe by (auto simp: Let_def)
    from ev have "kept (nodes s ! ?i) rf \<and> ms = []"
      by (cases rule: InstallSnapshot_outcome) (use snaplessD(1) [OF none i] snaplessD(2) [OF none k] in auto)
    then show ?thesis using kept_nth [of v s ?i rf] v D(1) simD(1) [OF sim] by (cases "?i = v") (auto simp: s' emit_def kept_def)
  qed (use ex e plain False in \<open>auto simp: emit_def\<close>)
qed

lemma order_apply:
  assumes sim: "sim n s a" and inv: "spec_inv n a" and wf: "wf_cluster n s" and none: "snapless s" and v: "v < n" and ok: "order_ok s v"
    and ev: "guardKick (nodes s ! v) = Some (rf, ms)" and s': "s' = emit v ms (set_node v rf s)"
  shows "order_ok s' v"
proof -
  let ?rf = "nodes s ! v"
  let ?la = "lastApplied ?rf" and ?c = "commitIndex ?rf"
  note N = node_simD [OF simD(3) [OF sim v]]
  have len: "length (outbox s) = n" "length (nodes s) = n" using simD(1) [OF sim] wf_clusterD(1) [OF wf] by auto
  have z: "snapIndex ?rf = 0" using snaplessD(1) [OF none] v len by simp
  then have l: "spLog a v = log ?rf" using N(1) by (simp add: log_sim_def)
  show ?thesis
  proof (cases "?c < ?la + 1")
    case True
    then have "rf = ?rf\<lparr>wakeCh := False\<rparr>" "ms = []" using ev by (auto simp: guardKick_def Let_def)
    then show ?thesis using ok delivered_cong [of s' v s] v len by (simp add: s' emit_def)
  next
    case False
    have la: "0 \<le> ?la" "nat ?la \<le> length (outbox s ! v)" using ok by (auto simp: order_ok_def)
    have c: "nat ?c < length (log ?rf)" using commit_in_log [OF simD(3) [OF sim v]] log_sim_length [OF N(1)] z False la
      by (simp add: logLength_def nat_less_iff)
    have "rf = ?rf\<lparr>wakeCh := False, lastApplied := ?c\<rparr>"
      and "collect_applies (?rf\<lparr>wakeCh := False\<rparr>) (?la + 1) ?c = Some ms"
      using ev False by (auto simp: guardKick_def Let_def)
    then have rf: "lastApplied rf = ?c" and ms: "ms = map (command_msg (?rf\<lparr>wakeCh := False\<rparr>)) [?la + 1..?c]"
      using collect_applies_spec [of ?c "?rf\<lparr>wakeCh := False\<rparr>" "?la + 1"] c la(1) False z by (auto simp: logLength_def)
    let ?cmd = "\<lambda>i. the (entCommand (log ?rf ! nat i))"
    have "command_msg (?rf\<lparr>wakeCh := False\<rparr>) i = plain_msg i (?cmd i)" if i: "?la + 1 \<le> i" "i \<le> ?c" for i
    proof -
      have lg: "legit a (log ?rf)" using spec_invD(3) [OF inv] v l by (auto simp: logs_ok_def)
      have j: "0 < nat i" "nat i < length (log ?rf)" using i la(1) c by linarith+
      then have "get (?rf\<lparr>wakeCh := False\<rparr>) i = Some (log ?rf ! nat i)" using z by (auto simp: get_Some_iff logLength_def)
      moreover have "entCommand (log ?rf ! nat i) \<noteq> None" using lg j by (auto simp: legit_def)
      ultimately show ?thesis by (auto simp: command_msg_def plain_msg_def)
    qed
    then have ms2: "ms = map2 plain_msg [?la + 1..?c] (map ?cmd [?la + 1..?c])"
      unfolding ms by (auto simp: zip_map2 zip_same_conv_map)
    from ok obtain cs where cs: "delivered s v = map2 plain_msg [1..?la] cs" "int (length cs) = ?la" by (auto simp: order_ok_def)
    have out: "outbox s' ! v = outbox s ! v @ ms" "lastApplied (nodes s' ! v) = ?c" using v len rf by (auto simp: s' emit_def)
    have "length ms = nat (?c - ?la)" using False by (simp add: ms)
    then have "length (outbox s' ! v) - nat ?c = length (outbox s ! v) - nat ?la" using la False out(1) by (simp add: nat_diff_distrib)
    then have d: "delivered s' v = delivered s v @ ms" using la by (simp add: delivered_def out)
    have "[1..?c] = [1..?la] @ [?la + 1..?c]" using la(1) False by (cases "?la = 0") (auto simp: upto_split2)
    then have "delivered s' v = map2 plain_msg [1..?c] (cs @ map ?cmd [?la + 1..?c])"
      using cs la(1) unfolding d ms2 by (simp add: zip_append nat_eq_iff)
    moreover have "int (length (cs @ map ?cmd [?la + 1..?c])) = ?c" using cs(2) False by simp
    moreover have "nat ?c \<le> length (outbox s' ! v)" using la False out(1) \<open>length ms = _\<close> by simp
    ultimately show ?thesis using la(1) False unfolding order_ok_def out(2) by (intro conjI exI) auto
  qed
qed

lemma order_step:
  assumes sim: "sim n s a" and inv: "spec_inv n a" and wf: "wf_cluster n s" and none: "snapless s" and v: "v < n" and ok: "order_ok s v"
    and ev: "cstep e s = Some s'" and plain: "\<not> takes_snapshot e"
  shows "order_ok s' v"
proof -
  from ev have en: "enabled e s" and ex: "exec e s = Some s'" by (auto simp: cstep_def split: if_splits)
  consider (applied) "e = CApply v" | (restart) now where "e = CRestart v now" | (other) "e \<noteq> CApply v" "\<forall>now. e \<noteq> CRestart v now" by blast
  then show ?thesis
  proof cases
    case applied
    then show ?thesis using ex order_apply [OF sim inv wf none v ok] by auto
  next
    case (restart now)
    then obtain rf where rf: "Make (npeers (nodes s ! v)) (me (nodes s ! v)) (Copy (persister (nodes s ! v))) now = Some rf"
      "nodes s' = (nodes s)[v := rf]" using ex by auto
    then have "lastApplied rf = 0" by (auto simp: Make_def readPersist_def initRaft_def split: if_splits option.splits)
    then show ?thesis using rf(2) v wf_clusterD(1) [OF wf] by (simp add: order_ok_def delivered_def)
  next
    case other
    then show ?thesis using frame_step [OF sim wf none v en ex plain] delivered_cong ok by blast
  qed
qed

lemma order_crun:
  assumes "crun es s = Some s'" "sim n s a" "election_inv n s" "spec_inv n a" "prompt s' \<or> n \<le> 3" "\<forall>e \<in> set es. \<not> takes_snapshot e"
    "snapless s" "\<forall>v < n. order_ok s v"
  shows "snapless s' \<and> (\<forall>v < n. order_ok s' v)"
  using assms
proof (induction es arbitrary: s a)
  case (Cons e es)
  then obtain s1 where s1: "cstep e s = Some s1" "crun es s1 = Some s'" by auto
  then have ex: "enabled e s" "exec e s = Some s1" by (auto simp: cstep_def split: if_splits)
  have wf: "wf_cluster n s" using Cons.prems(3) by (simp add: election_inv_def)
  have el: "election_inv n s1" by (rule election_step [OF Cons.prems(3) s1(1)])
  have "prompt s1 \<or> n \<le> 3" using Cons.prems(5) prompt_crun [OF s1(2) el] by blast
  then obtain a1 where a1: "(spec_step n UNIV)\<^sup>*\<^sup>* a a1" "sim n s1 a1"
    using cstep_sim [OF Cons.prems(2-4) s1(1), of UNIV] by auto
  have inv1: "spec_inv n a1" using spec_steps_inv [OF a1(1) Cons.prems(4)] by simp
  have "snapless s1" using snapless_step [OF wf simD(1) [OF Cons.prems(2)] ex] Cons.prems(6,7) by simp
  moreover have "\<forall>v < n. order_ok s1 v"
    using order_step [OF Cons.prems(2,4) wf Cons.prems(7) _ _ s1(1)] Cons.prems(6,8) by simp
  ultimately show ?case using Cons.IH [OF s1(2) a1(2) el inv1 Cons.prems(5)] Cons.prems(6) by auto
qed simp

lemma run_order:
  assumes "crun es (init_cluster n) = Some s" "\<forall>e \<in> set es. \<not> takes_snapshot e" "prompt s \<or> n \<le> 3"
  shows "snapless s" "v < n \<Longrightarrow> order_ok s v"
  using order_crun [OF assms(1) init_sim election_init spec_inv_init assms(3,2) snapless_init]
  by (auto simp: order_ok_def delivered_def init_cluster_def initRaft_def)

lemma map2_plain_nth: "k < length cs \<Longrightarrow> map2 plain_msg [1..int (length cs)] cs ! k = plain_msg (int k + 1) (cs ! k)"
  by (simp add: nth_upto add.commute)

end
