(* ===== verification/HarnessApply.thy ===== *)
theory HarnessApply
  imports HarnessLeaders HarnessNet ApplyOrder
begin

text \<open>
  What the appliers of the harness see. The servers of a cluster hand their committed commands to the
  appliers of \<^verbatim>\<open>raft/config.go\<close>, one goroutine for each instance of a server; this theory shows that no
  applier ever complains and that \<^verbatim>\<open>nCommitted\<close> never finds servers that disagree. It also treats the
  snapshots of \<^verbatim>\<open>applierSnap\<close>.
\<close>

section \<open>The stream of an instance has no gaps\<close>

definition consecutive :: "('c, 'b) ApplyMsg list \<Rightarrow> bool" where
  "consecutive xs \<longleftrightarrow> (\<forall>p < length xs. amCommandValid (xs ! p) \<and> 1 \<le> amCommandIndex (xs ! p) \<and>
     (amCommandIndex (xs ! p) > 1 \<longrightarrow> 0 < p \<and> amCommandIndex (xs ! (p - 1)) = amCommandIndex (xs ! p) - 1))"

text \<open>A list whose old part is consecutive and that ends in the messages 1, 2, \dots of an instance.\<close>

lemma consecutive_extend:
  assumes "consecutive xs" "length ms \<le> k" "k \<le> length (xs @ ms)"
    and tail: "drop (length (xs @ ms) - k) (xs @ ms) = map2 plain_msg [1..int k] cs" "length cs = k"
  shows "consecutive (xs @ ms)"
  unfolding consecutive_def
proof (intro allI impI)
  fix p assume p: "p < length (xs @ ms)"
  let ?d = "length (xs @ ms) - k"
  have at: "(xs @ ms) ! (?d + q) = plain_msg (int q + 1) (cs ! q)" if "q < k" for q
  proof -
    have "(xs @ ms) ! (?d + q) = drop ?d (xs @ ms) ! q" using that assms(3) by (subst nth_drop) auto
    then show ?thesis using map2_plain_nth [of q cs] that tail by simp
  qed
  show "amCommandValid ((xs @ ms) ! p) \<and> 1 \<le> amCommandIndex ((xs @ ms) ! p) \<and> (amCommandIndex ((xs @ ms) ! p) > 1 \<longrightarrow>
      0 < p \<and> amCommandIndex ((xs @ ms) ! (p - 1)) = amCommandIndex ((xs @ ms) ! p) - 1)"
  proof (cases "?d \<le> p")
    case True
    then obtain q where q: "p = ?d + q" "q < k" using p assms(3) by (metis le_add_diff_inverse add_diff_inverse_nat diff_add leD nat_add_left_cancel_less)
    show ?thesis
    proof (cases q)
      case (Suc r)
      then show ?thesis using at [of q] at [of r] q by (auto simp: plain_msg_def)
    qed (use at [of 0] q in \<open>auto simp: plain_msg_def\<close>)
  next
    case False
    then have "p < length xs" using assms(2,3) by auto
    then show ?thesis using assms(1) by (auto simp: consecutive_def nth_append)
  qed
qed

lemma outbox_step:
  assumes ev: "cstep e s = Some s'" and run: "crun es (init_cluster n) = Some s" "\<forall>e \<in> set es. \<not> takes_snapshot e"
    and pr: "prompt s \<or> n \<le> 3" and plain: "\<not> takes_snapshot e" and v: "v < n"
  obtains "outbox s' ! v = outbox s ! v"
  | rf ms where "e = CApply v" "guardKick (nodes s ! v) = Some (rf, ms)" "s' = emit v ms (set_node v rf s)"
proof -
  obtain a where a: "sim n s a" by (rule run_sim [OF run(1) pr])
  have wf: "wf_cluster n s"
    using reachable_inv [OF reachable_crun [OF reachable_init run(1)]] by (simp add: election_inv_def)
  from ev have en: "enabled e s" and ex: "exec e s = Some s'" by (auto simp: cstep_def split: if_splits)
  consider (applied) "e = CApply v" | (restart) now where "e = CRestart v now" | (other) "e \<noteq> CApply v" "\<forall>now. e \<noteq> CRestart v now" by blast
  then show thesis
  proof cases
    case applied
    then show thesis using ex that(2) by auto
  next
    case (restart now)
    then show thesis using ex that(1) by auto
  next
    case other
    then show thesis using frame_step [OF a wf run_order(1) [OF run pr] v en ex plain] that(1) by blast
  qed
qed

lemma collect_applies_length: "collect_applies rf i stop = Some ms \<Longrightarrow> length ms \<le> nat (stop + 1 - i)"
proof (induction rf i stop arbitrary: ms rule: collect_applies.induct)
  case (1 rf i stop)
  show ?case
  proof (cases "i \<le> stop")
    case True
    have step: "nat (stop + 1 - i) = Suc (nat (stop + 1 - (i + 1)))" using True by simp
    show ?thesis
    proof (cases "i \<le> snapIndex rf")
      case True
      then show ?thesis using 1 \<open>i \<le> stop\<close> step by (fastforce simp: collect_applies.simps [of rf i])
    next
      case False
      then obtain e ms' where "get rf i = Some e" "collect_applies rf (i + 1) stop = Some ms'" "length ms = Suc (length ms')"
        using 1(3) True by (auto simp: collect_applies.simps [of rf i])
      then show ?thesis using 1(2) [OF True False] step by simp
    qed
  qed (use 1(3) in \<open>simp add: collect_applies.simps [of rf i]\<close>)
qed

lemma apply_tail:
  assumes "guardKick rf = Some (rf', ms)" "0 \<le> lastApplied rf"
  shows "int (length ms) \<le> lastApplied rf'"
proof (cases "commitIndex rf < lastApplied rf + 1")
  case False
  then have "collect_applies (rf\<lparr>wakeCh := False\<rparr>) (lastApplied rf + 1) (commitIndex rf) = Some ms" "lastApplied rf' = commitIndex rf"
    using assms(1) by (auto simp: guardKick_def Let_def)
  then show ?thesis using collect_applies_length [of _ "lastApplied rf + 1" "commitIndex rf" ms] assms(2) False by fastforce
qed (use assms in \<open>auto simp: guardKick_def Let_def\<close>)

lemma run_consecutive:
  assumes "crun es (init_cluster n) = Some s" "\<forall>e \<in> set es. \<not> takes_snapshot e" "prompt s \<or> n \<le> 3" "v < n"
  shows "consecutive (outbox s ! v)"
  using assms
proof (induction es arbitrary: s rule: rev_induct)
  case Nil
  then show ?case by (auto simp: init_cluster_def consecutive_def)
next
  case (snoc e es)
  then obtain s0 where s0: "crun es (init_cluster n) = Some s0" "cstep e s0 = Some s" by (auto simp: crun_append)
  have el: "election_inv n s0" by (rule reachable_inv [OF reachable_crun [OF reachable_init s0(1)]])
  have pr: "prompt s0 \<or> n \<le> 3" using prompt_cstep [OF _ s0(2)] el snoc.prems(3) by (auto simp: election_inv_def)
  have plain: "\<forall>e \<in> set es. \<not> takes_snapshot e" "\<not> takes_snapshot e" using snoc.prems(2) by auto
  have IH: "consecutive (outbox s0 ! v)" by (rule snoc.IH [OF s0(1) plain(1) pr snoc.prems(4)])
  show ?case
  proof (cases rule: outbox_step [OF s0(2,1) plain(1) pr plain(2) snoc.prems(4)])
    case 1
    then show ?thesis using IH by simp
  next
    case (2 rf ms)
    have ok: "order_ok s0 v" "order_ok s v"
      by (rule run_order(2) [OF s0(1) plain(1) pr snoc.prems(4)]) (rule run_order(2) [OF snoc.prems])
    have len: "length (outbox s0) = n" "length (nodes s0) = n"
      using run_sim [OF s0(1) pr] simD(1) wf_clusterD(1) el by (metis, auto simp: election_inv_def)
    have out: "outbox s ! v = outbox s0 ! v @ ms" "nodes s ! v = rf" using 2(3) len snoc.prems(4) by (auto simp: emit_def)
    let ?k = "nat (lastApplied rf)"
    have la: "0 \<le> lastApplied (nodes s0 ! v)" "0 \<le> lastApplied rf" using ok out(2) by (auto simp: order_ok_def)
    obtain cs where cs: "delivered s v = map2 plain_msg [1..lastApplied rf] cs" "int (length cs) = lastApplied rf" "?k \<le> length (outbox s ! v)"
      using ok(2) out(2) by (auto simp: order_ok_def)
    show ?thesis unfolding out(1)
    proof (rule consecutive_extend [OF IH])
      show "length ms \<le> ?k" using apply_tail [OF 2(2) la(1)] by linarith
      show "?k \<le> length (outbox s0 ! v @ ms)" using cs(3) out(1) by simp
      show "drop (length (outbox s0 ! v @ ms) - ?k) (outbox s0 ! v @ ms) = map2 plain_msg [1..int ?k] cs"
        using cs(1) la(2) out by (simp add: delivered_def)
      show "length cs = ?k" using cs(2) by linarith
    qed
  qed
qed

section \<open>The appliers\<close>

fun applier_run :: "(nat \<times> ('c, 'b) ApplyMsg) list \<Rightarrow> 'c config \<Rightarrow> 'c apply_error + 'c config" where
  "applier_run [] cfg = Inr cfg"
| "applier_run ((i, m) # rs) cfg = (case applier cfg i m of Inl e \<Rightarrow> Inl e | Inr cfg \<Rightarrow> applier_run rs cfg)"

text \<open>
  The order in which messages are read: \<open>(v, p)\<close> is message \<open>p\<close> of server \<open>v\<close>. The applier of an instance reads its
  channel in order, so a message is read after the one before it, unless it is the first of its
  instance, whose index is 1. The appliers of several servers, and of an old and a new instance of one server,
  interleave in any way.
\<close>

fun reads_ok :: "('c, 'b) ApplyMsg list list \<Rightarrow> (nat \<times> nat) set \<Rightarrow> (nat \<times> nat) list \<Rightarrow> bool" where
  "reads_ok out R [] = True"
| "reads_ok out R ((v, p) # rs) =
     (v < length out \<and> p < length (out ! v) \<and>
      (amCommandIndex (out ! v ! p) > 1 \<longrightarrow> 0 < p \<and> (v, p - 1) \<in> R) \<and> reads_ok out (insert (v, p) R) rs)"

definition read_msg :: "('c, 'b) ApplyMsg list list \<Rightarrow> nat \<times> nat \<Rightarrow> nat \<times> ('c, 'b) ApplyMsg" where
  "read_msg out = (\<lambda>(v, p). (v, out ! v ! p))"

lemma checkLogs_loop_agree:
  "(\<And>l old. l \<in> set ls \<Longrightarrow> l index = Some old \<Longrightarrow> old = v) \<Longrightarrow> checkLogs_loop i index v ls j err = err"
proof (induction ls arbitrary: j err)
  case (Cons l ls)
  have "(case l index of Some old \<Rightarrow> if old \<noteq> v then Some (CommitMismatch index i v j old) else err | None \<Rightarrow> err) = err"
    using Cons.prems [of l] by (auto split: option.split)
  moreover have "checkLogs_loop i index v ls (j + 1) err = err" using Cons.prems by (intro Cons.IH) (metis list.set_intros(2))
  ultimately show ?case by simp
qed simp

definition agreeing :: "('c, 'b) ApplyMsg list list \<Rightarrow> bool" where
  "agreeing out \<longleftrightarrow> (\<forall>u < length out. \<forall>v < length out. \<forall>p < length (out ! u). \<forall>q < length (out ! v).
     amCommandIndex (out ! u ! p) = amCommandIndex (out ! v ! q) \<longrightarrow> amCommand (out ! u ! p) = amCommand (out ! v ! q))"

text \<open>The logs hold what was read, and nothing else.\<close>

definition logs_of :: "('c, 'b) ApplyMsg list list \<Rightarrow> (nat \<times> nat) set \<Rightarrow> 'c config \<Rightarrow> bool" where
  "logs_of out R cfg \<longleftrightarrow> length (cfLogs cfg) = length out \<and>
     (\<forall>v p. (v, p) \<in> R \<longrightarrow> v < length out \<and> (cfLogs cfg ! v) (amCommandIndex (out ! v ! p)) \<noteq> None) \<and>
     (\<forall>v < length out. \<forall>index c. (cfLogs cfg ! v) index = Some c \<longrightarrow>
        (\<exists>p < length (out ! v). amCommandIndex (out ! v ! p) = index \<and> amCommand (out ! v ! p) = c))"

lemma applier_step:
  assumes agree: "agreeing out"
    and cons: "consecutive (out ! v)" and logs: "logs_of out R cfg"
    and v: "v < length out" "p < length (out ! v)" and prev: "amCommandIndex (out ! v ! p) > 1 \<Longrightarrow> 0 < p \<and> (v, p - 1) \<in> R"
  shows "\<exists>cfg'. applier cfg v (out ! v ! p) = Inr cfg' \<and> logs_of out (insert (v, p) R) cfg'"
proof -
  let ?m = "out ! v ! p"
  have valid: "amCommandValid ?m" using cons v(2) by (simp add: consecutive_def)
  have "old = amCommand ?m" if h: "l \<in> set (cfLogs cfg)" "l (amCommandIndex ?m) = Some old" for l old
  proof -
    obtain u where u: "u < length out" "l = cfLogs cfg ! u" using h(1) logs by (auto simp: logs_of_def in_set_conv_nth)
    then obtain q where q: "q < length (out ! u)" "amCommandIndex (out ! u ! q) = amCommandIndex ?m" "amCommand (out ! u ! q) = old"
      using logs h(2) unfolding logs_of_def by blast
    then show ?thesis using agree u(1) v unfolding agreeing_def by metis
  qed
  then have no: "checkLogs_loop v (amCommandIndex ?m) (amCommand ?m) (cfLogs cfg) 0 None = None" by (rule checkLogs_loop_agree)
  have "(cfLogs cfg ! v) (amCommandIndex ?m - 1) \<noteq> None" if "amCommandIndex ?m > 1"
  proof -
    have "amCommandIndex (out ! v ! (p - 1)) = amCommandIndex ?m - 1" using cons v(2) that by (simp add: consecutive_def)
    then show ?thesis using prev [OF that] logs unfolding logs_of_def by metis
  qed
  then have "applier cfg v ?m = Inr (fst (checkLogs cfg v ?m))" using valid no by (auto simp: applier_def checkLogs_def Let_def)
  moreover have "logs_of out (insert (v, p) R) (fst (checkLogs cfg v ?m))"
    using logs v by (auto simp: logs_of_def checkLogs_def Let_def nth_list_update)
  ultimately show ?thesis by blast
qed

lemma applier_run_ok:
  assumes agree: "agreeing out"
    and cons: "\<And>v. v < length out \<Longrightarrow> consecutive (out ! v)"
  shows "logs_of out R cfg \<Longrightarrow> reads_ok out R rs \<Longrightarrow>
    \<exists>cfg'. applier_run (map (read_msg out) rs) cfg = Inr cfg' \<and> logs_of out (set rs \<union> R) cfg'"
proof (induction rs arbitrary: R cfg)
  case (Cons r rs)
  obtain v p where r: "r = (v, p)" by (cases r)
  have ok: "v < length out" "p < length (out ! v)" "amCommandIndex (out ! v ! p) > 1 \<Longrightarrow> 0 < p \<and> (v, p - 1) \<in> R"
    "reads_ok out (insert r R) rs" using Cons.prems(2) r by auto
  obtain cfg1 where cfg1: "applier cfg v (out ! v ! p) = Inr cfg1" "logs_of out (insert r R) cfg1"
    using applier_step [OF agree cons [OF ok(1)] Cons.prems(1) ok(1-3)] r by blast
  then show ?case using Cons.IH [OF cfg1(2) ok(4)] by (auto simp: r read_msg_def)
qed simp

section \<open>Counting\<close>

lemma nCommitted_loop_agree:
  assumes "\<And>x. Some x \<in> set seen \<Longrightarrow> x = c" "n > 0 \<Longrightarrow> cmd = c" "length errs = length seen" "set errs \<subseteq> {[]}" "n \<ge> 0"
  shows "nCommitted_loop errs seen n cmd =
    Inr (n + int (length (filter (\<lambda>x. x \<noteq> None) seen)), if \<exists>x. Some x \<in> set seen then c else cmd)"
  using assms
proof (induction errs seen n cmd rule: nCommitted_loop.induct)
  case (1 err errs look seen n cmd)
  show ?case
  proof (cases look)
    case None
    then show ?thesis using 1 by auto
  next
    case (Some x)
    then have x: "x = c" using 1(3) by simp
    have "nCommitted_loop errs seen (n + 1) c =
        Inr (n + 1 + int (length (filter (\<lambda>x. x \<noteq> None) seen)), if \<exists>x. Some x \<in> set seen then c else c)"
    proof -
      have "n = 0 \<or> cmd = c" using 1(4,7) by force
      then show ?thesis using 1(2) [OF _ Some _ 1(3)] 1(3-7) by (simp add: x)
    qed
    then show ?thesis using Some x 1(4,6) by auto
  qed
qed auto

lemma nCommitted_agree:
  assumes "\<And>x. Some x \<in> set seen \<Longrightarrow> x = c" "length errs = length seen" "set errs \<subseteq> {[]}"
  shows "\<exists>d. nCommitted errs seen = Inr (int (length (filter (\<lambda>x. x \<noteq> None) seen)), d) \<and> (\<forall>x. Some x \<in> set seen \<longrightarrow> d = x)"
  unfolding nCommitted_def using nCommitted_loop_agree [where cmd = None and n = 0, OF assms(1) _ assms(2,3)] assms(1) by auto

section \<open>Snapshots of the harness\<close>

interpretation harness_codec: codec encodeHarness decodeHarness
  by unfold_locales (auto simp: encodeHarness_def decodeHarness_def Encode_def)

text \<open>Ingesting what \<^verbatim>\<open>applierSnap\<close> encoded restores the log up to the index, with \<^verbatim>\<open>nil\<close> where there was no entry.\<close>

lemma ingest_restores:
  assumes "ingestSnap cfg i (encodeHarness (index, snapLog l index)) k = Inr cfg'" "i < length (cfLogs cfg)" "i < length (cfLastApplied cfg)"
    "0 \<le> j" "j \<le> index"
  shows "(cfLogs cfg' ! i) j = Some (case l j of Some c \<Rightarrow> c | None \<Rightarrow> None) \<and> cfLastApplied cfg' ! i = index"
  using assms harness_codec.dec_enc [of "(index, snapLog l index)"]
  by (auto simp: ingestSnap_def snapLog_def nth_upto split: if_splits)

section \<open>Property\<close>

lemma applier_errs: "applier cfg v m = Inr cfg' \<Longrightarrow> cfApplyErr cfg' = cfApplyErr cfg"
  by (auto simp: applier_def checkLogs_def Let_def split: if_splits option.splits)

lemma applier_run_errs: "applier_run ms cfg = Inr cfg' \<Longrightarrow> cfApplyErr cfg' = cfApplyErr cfg"
  by (induction ms cfg rule: applier_run.induct) (auto split: sum.splits dest: applier_errs)

text \<open>
  C12. The harness never complains about a correct cluster: for a run without snapshots, of at most three servers or with
  prompt vote requests, and for every order in which the appliers of \<^verbatim>\<open>raft/config.go\<close> can read what the
  servers apply, over crashes and restarts, no applier finds two servers with different commands at an
  index or a command out of order, and afterwards \<^verbatim>\<open>nCommitted\<close> returns for every index how many
  servers have applied it, with the one command that they have applied.
\<close>

theorem harness_accepts_cluster:
  fixes s :: "('c, 'b) cluster" and cfg :: "'c config"
  assumes "crun es (init_cluster n) = Some s" "\<forall>e \<in> set es. \<not> takes_snapshot e" "prompt s \<or> n \<le> 3"
    and "make_config n unrel names srv now t = Some cfg" "reads_ok (outbox s) {} rs"
  shows "\<exists>cfg'. applier_run (map (read_msg (outbox s)) rs) cfg = Inr cfg' \<and>
    (\<forall>index. \<exists>c. nCommitted (cfApplyErr cfg') (map (\<lambda>l. l index) (cfLogs cfg')) =
         Inr (int (length (filter (\<lambda>l. l index \<noteq> None) (cfLogs cfg'))), c) \<and>
       (\<forall>l \<in> set (cfLogs cfg'). \<forall>x. l index = Some x \<longrightarrow> c = x))"
proof -
  let ?out = "outbox s"
  obtain a where a: "spec_inv n a" "sim n s a" by (rule run_sim [OF assms(1,3)])
  have len: "length ?out = n" using simD(1) [OF a(2)] by simp
  note cfg = make_config_state [OF assms(4)]
  have cons: "consecutive (?out ! v)" if "v < length ?out" for v using run_consecutive [OF assms(1-3)] that len by simp
  then have "amCommandValid (?out ! v ! p)" if "v < length ?out" "p < length (?out ! v)" for v p using that by (simp add: consecutive_def)
  then have agree: "agreeing ?out" unfolding agreeing_def len
    using applied_agree [OF assms(1,3)] nth_mem len by metis
  have "logs_of ?out {} cfg" using cfg len by (simp add: logs_of_def)
  then obtain cfg' where cfg': "applier_run (map (read_msg ?out) rs) cfg = Inr cfg'" "logs_of ?out (set rs \<union> {}) cfg'"
    using applier_run_ok [OF agree cons _ assms(5)] by blast
  have "\<exists>c. nCommitted (cfApplyErr cfg') (map (\<lambda>l. l index) (cfLogs cfg')) =
         Inr (int (length (filter (\<lambda>l. l index \<noteq> None) (cfLogs cfg'))), c) \<and>
       (\<forall>l \<in> set (cfLogs cfg'). \<forall>x. l index = Some x \<longrightarrow> c = x)" for index
  proof -
    have mem: "\<exists>u < n. \<exists>p < length (?out ! u). amCommandIndex (?out ! u ! p) = index \<and> amCommand (?out ! u ! p) = x"
      if h: "Some x \<in> set (map (\<lambda>l. l index) (cfLogs cfg'))" for x
    proof -
      obtain u where "u < length (cfLogs cfg')" "(cfLogs cfg' ! u) index = Some x" using h by (auto simp: in_set_conv_nth)
      then show ?thesis using cfg'(2) unfolding logs_of_def len by blast
    qed
    have "\<exists>c. \<forall>x. Some x \<in> set (map (\<lambda>l. l index) (cfLogs cfg')) \<longrightarrow> x = c"
      using mem agree unfolding agreeing_def len by metis
    then obtain c where c: "\<And>x. Some x \<in> set (map (\<lambda>l. l index) (cfLogs cfg')) \<Longrightarrow> x = c" by blast
    have e: "length (cfApplyErr cfg') = length (map (\<lambda>l. l index) (cfLogs cfg'))" "set (cfApplyErr cfg') \<subseteq> {[]}"
      using applier_run_errs [OF cfg'(1)] cfg cfg'(2) len by (auto simp: logs_of_def)
    from nCommitted_agree [OF c e] obtain d where "nCommitted (cfApplyErr cfg') (map (\<lambda>l. l index) (cfLogs cfg')) =
        Inr (int (length (filter (\<lambda>x. x \<noteq> None) (map (\<lambda>l. l index) (cfLogs cfg')))), d)"
      and d: "\<And>x. Some x \<in> set (map (\<lambda>l. l index) (cfLogs cfg')) \<Longrightarrow> d = x" by blast
    then have "nCommitted (cfApplyErr cfg') (map (\<lambda>l. l index) (cfLogs cfg')) = Inr (int (length (filter (\<lambda>l. l index \<noteq> None) (cfLogs cfg'))), d)"
      by (simp add: filter_map comp_def)
    moreover have "d = x" if "l \<in> set (cfLogs cfg')" "l index = Some x" for l x using d [of x] that by (auto simp: image_iff) metis
    ultimately show ?thesis by blast
  qed
  then show ?thesis using cfg'(1) by blast
qed

definition apply_config :: "nat config" where
  "apply_config = the (make_config 3 False net_names id (\<lambda>_. 0) 0)"

lemma apply_config_made: "make_config 3 False net_names id (\<lambda>_. 0) 0 = Some apply_config"
proof -
  have "make_config 3 False net_names id (\<lambda>_. 0) 0 \<noteq> (None :: nat config option)" by code_simp
  then show ?thesis by (auto simp: apply_config_def)
qed

text \<open>A run without snapshots: server 0 is elected and replicates a command to server 2, and both apply it.\<close>

definition quiet_run :: "(nat, nat) event list" where
  "quiet_run = elect_run @ [CStart 0 7, CAppendSend 0 2, CAppendServe 0 timeout, CAppendRecv 0, CApply 0,
     CAppendSend 0 2, CAppendServe 1 timeout, CApply 2]"

lemma quiet_run_ok: "crun quiet_run (init_cluster 3) = Some (run_of 3 quiet_run)" "\<forall>e \<in> set quiet_run. \<not> takes_snapshot e"
  "reads_ok (outbox (run_of 3 quiet_run)) {} [(2, 0), (0, 0)]"
proof -
  have "crun quiet_run (init_cluster 3) \<noteq> None" by code_simp
  then show "crun quiet_run (init_cluster 3) = Some (run_of 3 quiet_run)" by (auto simp: run_of_def)
qed code_simp+

theorem harness_accepts_cluster_witness:
  "\<exists>cfg'. applier_run (map (read_msg (outbox (run_of 3 quiet_run))) [(2, 0), (0, 0)]) apply_config = Inr cfg'"
  using harness_accepts_cluster [OF quiet_run_ok(1,2) _ apply_config_made quiet_run_ok(3)] by auto

end
