(* ===== verification/HarnessSnap.thy ===== *)
theory HarnessSnap
  imports HarnessApply
begin

text \<open>
  The harness with \<^verbatim>\<open>applierSnap\<close>, whose appliers take a snapshot of their log every ten commands and load the
  snapshots they are given: the appliers are an instance of the interface \<open>service\<close>, so none of them ever
  complains about a cluster.
\<close>

section \<open>The appliers on the cluster\<close>

definition harness_deliver :: "('c, 'c hgob) Raft \<Rightarrow> nat \<Rightarrow> ('c, 'c hgob) ApplyMsg \<Rightarrow> 'c config \<Rightarrow>
    ('c config \<times> (int \<times> 'c hgob list) option) option" where
  "harness_deliver rf v m cfg = (case applierSnap cfg v m of Inl e \<Rightarrow> None | Inr res \<Rightarrow> Some res)"

text \<open>What \<^verbatim>\<open>start1\<close> does for the applier of a crashed peer, of which \<^verbatim>\<open>crash1\<close> has kept the persister.\<close>

definition harness_boot :: "('c, 'c hgob) Raft \<Rightarrow> nat \<Rightarrow> int \<Rightarrow> 'c config \<Rightarrow> 'c config option" where
  "harness_boot rf v now cfg = do {
     (cfg, ps) \<leftarrow> fresh_saved (cfg\<lparr>cfRafts := (cfRafts cfg)[v := None], cfSaved := (cfSaved cfg)[v := Some (persister rf)],
       cfLastApplied := (cfLastApplied cfg)[v := 0]\<rparr>) v;
     Some cfg
   }"

text \<open>
  The applier of an earlier instance of server \<open>v\<close> is a goroutine that \<^verbatim>\<open>crash1\<close> does not end. A message \<open>m\<close> that still
  reaches it changes the log and \<^verbatim>\<open>lastApplied\<close> that it shares with its successor; its calls of \<^verbatim>\<open>Snapshot\<close> go to the
  killed peer.
\<close>

definition stale_act :: "('c, 'c hgob) ApplyMsg \<Rightarrow> nat \<Rightarrow> 'c config \<Rightarrow> 'c config option" where
  "stale_act m v cfg = (case applierSnap cfg v m of Inl e \<Rightarrow> None | Inr (cfg', call) \<Rightarrow> Some cfg')"

fun no_stale :: "('c, 'b, 'h) svc_event \<Rightarrow> bool" where
  "no_stale (SHandler v h) \<longleftrightarrow> False"
| "no_stale _ \<longleftrightarrow> True"

definition no_act :: "'h \<Rightarrow> nat \<Rightarrow> 'c config \<Rightarrow> 'c config option" where
  "no_act h v cfg = None"

definition harness_sys :: "'c config \<Rightarrow> nat \<Rightarrow> ('c, 'c hgob, ('c, 'c hgob) ApplyMsg) svc_event list \<Rightarrow> ('c config, 'c, 'c hgob) system option" where
  "harness_sys cfg n es = svc_run harness_deliver harness_boot stale_act es (svc_init n cfg)"

text \<open>Without messages for old appliers the handlers of the system do not matter.\<close>

lemma no_stale_run:
  "list_all no_stale es \<Longrightarrow> svc_run harness_deliver harness_boot stale_act es sy = svc_run harness_deliver harness_boot no_act es sy"
proof (induction es arbitrary: sy)
  case (Cons e es)
  have "svc_step harness_deliver harness_boot stale_act e sy = svc_step harness_deliver harness_boot no_act e sy"
    using Cons.prems by (cases e) simp_all
  then show ?case using Cons by (auto split: bind_splits)
qed simp

section \<open>The appliers follow a log\<close>

text \<open>
  The log of a server has the commands up to \<^verbatim>\<open>lastApplied\<close>, and perhaps, from an earlier instance, some after it; a loaded
  snapshot leaves \<^verbatim>\<open>nil\<close> at index 0.
\<close>

definition harness_holds :: "nat \<Rightarrow> 'c list \<Rightarrow> 'c config \<Rightarrow> nat \<Rightarrow> nat \<Rightarrow> bool" where
  "harness_holds n ops cfg v p \<longleftrightarrow> length (cfLogs cfg) = n \<and> length (cfLastApplied cfg) = n \<and> length (cfRafts cfg) = n \<and> length (cfSaved cfg) = n \<and>
     cfLastApplied cfg ! v = int p \<and>
     (\<forall>j. 1 \<le> j \<and> j \<le> int p \<longrightarrow> (cfLogs cfg ! v) j = Some (Some (ops ! nat (j - 1)))) \<and>
     (\<forall>j c. (cfLogs cfg ! v) j = Some c \<longrightarrow> j = 0 \<and> c = None \<or> 1 \<le> j \<and> j \<le> int (length ops) \<and> c = Some (ops ! nat (j - 1)))"

definition harness_enc :: "'c list \<Rightarrow> nat \<Rightarrow> 'c hgob list" where
  "harness_enc ops j = encodeHarness (int j, None # map Some (take j ops))"

lemma snapLog_holds:
  assumes "\<And>j. 1 \<le> j \<Longrightarrow> j \<le> int p \<Longrightarrow> l j = Some (Some (ops ! nat (j - 1)))" "\<And>c. l 0 = Some c \<Longrightarrow> c = None" "p \<le> length ops"
  shows "snapLog l (int p) = None # map Some (take p ops)"
proof -
  have z: "(case l 0 of Some c \<Rightarrow> c | None \<Rightarrow> None) = None" using assms(2) by (auto split: option.split)
  have "[0..int p] = 0 # [1..int p]" by (simp add: upto_rec1)
  moreover have "map (\<lambda>j. case l j of Some c \<Rightarrow> c | None \<Rightarrow> None) [1..int p] = map Some (take p ops)"
    using assms(1,3) by (intro nth_equalityI) (auto simp: nth_upto add.commute)
  ultimately show ?thesis using z by (simp add: snapLog_def)
qed

lemma harness_others:
  assumes "\<forall>u. u \<noteq> v \<longrightarrow> cfLogs cfg' ! u = cfLogs cfg ! u \<and> cfLastApplied cfg' ! u = cfLastApplied cfg ! u" "length (cfLogs cfg') = length (cfLogs cfg)"
    "length (cfLastApplied cfg') = length (cfLastApplied cfg)" "length (cfRafts cfg') = length (cfRafts cfg)" "length (cfSaved cfg') = length (cfSaved cfg)"
  shows "others_keep n (harness_holds n) ops v cfg cfg'"
  using assms by (auto simp: others_keep_def harness_holds_def)

lemma harness_agree:
  assumes "following n (harness_holds n) ops cfg" "v < n" "l \<in> set (cfLogs cfg)" "l (int p + 1) = Some c"
  shows "c = Some (ops ! p)"
proof -
  obtain u where u: "u < length (cfLogs cfg)" "l = cfLogs cfg ! u" using assms(3) by (auto simp: in_set_conv_nth)
  have "length (cfLogs cfg) = n" using assms(1,2) by (auto simp: following_def harness_holds_def)
  then obtain q where "harness_holds n ops cfg u q" using u(1) assms(1) by (auto simp: following_def)
  then show ?thesis using u(2) assms(4) by (fastforce simp: harness_holds_def)
qed

lemma ingest_enc:
  assumes "index = - 1 \<or> index = int j" "j \<le> length ops" "v < n" "length (cfLogs cfg) = n" "length (cfLastApplied cfg) = n"
    "length (cfRafts cfg) = n" "length (cfSaved cfg) = n"
  shows "\<exists>cfg'. ingestSnap cfg v (harness_enc ops j) index = Inr cfg' \<and> harness_holds n ops cfg' v j \<and>
    (\<forall>u. u \<noteq> v \<longrightarrow> cfLogs cfg' ! u = cfLogs cfg ! u \<and> cfLastApplied cfg' ! u = cfLastApplied cfg ! u) \<and>
    length (cfLogs cfg') = n \<and> length (cfLastApplied cfg') = n \<and> length (cfRafts cfg') = n \<and> length (cfSaved cfg') = n"
proof -
  let ?x = "None # map Some (take j ops)"
  let ?l = "\<lambda>i. if 0 \<le> i \<and> i < int (length ?x) then Some (?x ! nat i) else None"
  have ne: "harness_enc ops j \<noteq> []" by (simp add: harness_enc_def encodeHarness_def Encode_def)
  have dec: "decodeHarness (harness_enc ops j) = Some (int j, ?x)" using harness_codec.dec_enc [of "(int j, ?x)"] by (simp add: harness_enc_def)
  have x: "?x ! nat i = Some (ops ! nat (i - 1))" if "1 \<le> i" "i \<le> int j" for i
  proof -
    have "nat i = Suc (nat (i - 1))" "nat (i - 1) < j" using that by auto
    then show ?thesis using assms(2) by simp
  qed
  have l1: "?l i = Some (Some (ops ! nat (i - 1)))" if "1 \<le> i" "i \<le> int j" for i
    using x [OF that] that assms(2) by simp
  have l2: "i = 0 \<and> c = None \<or> 1 \<le> i \<and> i \<le> int (length ops) \<and> c = Some (ops ! nat (i - 1))" if h: "?l i = Some c" for i c
  proof (cases "i = 0")
    case False
    then have i: "1 \<le> i" "i \<le> int j" using h assms(2) by (auto split: if_splits)
    then show ?thesis using h x [OF i] assms(2) by (auto split: if_splits)
  qed (use h in simp)
  let ?cfg = "cfg\<lparr>cfLogs := (cfLogs cfg)[v := ?l], cfLastApplied := (cfLastApplied cfg)[v := int j]\<rparr>"
  have "ingestSnap cfg v (harness_enc ops j) index = Inr ?cfg" using ne dec assms(1) by (auto simp: ingestSnap_def)
  moreover have "harness_holds n ops ?cfg v j" unfolding harness_holds_def using assms(3-7) l1 l2 by simp
  ultimately show ?thesis using assms(4-7) by simp
qed

lemma applierSnap_command:
  assumes "following n (harness_holds n) ops cfg" "v < n" "harness_holds n ops cfg v p" "p < length ops"
  shows "\<exists>cfg' call. applierSnap cfg v (plain_msg (int p + 1) (ops ! p)) = Inr (cfg', call) \<and> harness_holds n ops cfg' v (Suc p) \<and>
    others_keep n (harness_holds n) ops v cfg cfg' \<and> (call = None \<or> call = Some (int p + 1, harness_enc ops (Suc p)))"
proof -
  let ?m = "plain_msg (int p + 1) (ops ! p)" and ?l = "(cfLogs cfg ! v)(int p + 1 \<mapsto> Some (ops ! p))"
  have H: "length (cfLogs cfg) = n" "length (cfLastApplied cfg) = n" "cfLastApplied cfg ! v = int p"
    "\<And>j. 1 \<le> j \<Longrightarrow> j \<le> int p \<Longrightarrow> (cfLogs cfg ! v) j = Some (Some (ops ! nat (j - 1)))"
    "\<And>j c. (cfLogs cfg ! v) j = Some c \<Longrightarrow> j = 0 \<and> c = None \<or> 1 \<le> j \<and> j \<le> int (length ops) \<and> c = Some (ops ! nat (j - 1))"
    "length (cfRafts cfg) = n" "length (cfSaved cfg) = n"
    using assms(3) by (auto simp: harness_holds_def)
  have no: "checkLogs_loop v (int p + 1) (Some (ops ! p)) (cfLogs cfg) 0 None = None"
    by (rule checkLogs_loop_agree) (rule harness_agree [OF assms(1,2)])
  have prev: "(cfLogs cfg ! v) (int p) \<noteq> None" if "int p + 1 > 1" using H(4) [of "int p"] that by simp
  let ?cfg = "cfg\<lparr>cfLogs := (cfLogs cfg)[v := ?l], cfMaxIndex := (if int p + 1 > cfMaxIndex cfg then int p + 1 else cfMaxIndex cfg),
    cfLastApplied := (cfLastApplied cfg)[v := int p + 1]\<rparr>"
  have l: "?l j = Some (Some (ops ! nat (j - 1)))" if "1 \<le> j" "j \<le> int (Suc p)" for j
    using H(4) [of j] that by (cases "j = int p + 1") auto
  have l2: "j = 0 \<and> c = None \<or> 1 \<le> j \<and> j \<le> int (length ops) \<and> c = Some (ops ! nat (j - 1))" if "?l j = Some c" for j c
    using H(5) [of j c] that assms(4) by (auto split: if_splits)
  have snap: "snapLog ?l (int (Suc p)) = None # map Some (take (Suc p) ops)"
  proof (rule snapLog_holds [OF l])
    show "c = None" if "?l 0 = Some c" for c using l2 [OF that] by simp
  qed (use assms(4) in auto)
  have "applierSnap cfg v ?m = Inr (?cfg, if (int p + 2) mod SnapShotInterval = 0 then Some (int p + 1, harness_enc ops (Suc p)) else None)"
  proof (cases "p = 0")
    case True
    then show ?thesis using no H(1,3) assms(2) snap by (simp add: applierSnap_def plain_msg_def checkLogs_def Let_def harness_enc_def)
  next
    case False
    then show ?thesis
      using no prev H(1,3) assms(2) snap by (simp add: applierSnap_def plain_msg_def checkLogs_def Let_def harness_enc_def add.commute)
  qed
  moreover have "harness_holds n ops ?cfg v (Suc p)" unfolding harness_holds_def using H(1,2,6,7) l l2 assms(2) by simp
  moreover have "others_keep n (harness_holds n) ops v cfg ?cfg" by (rule harness_others) simp_all
  ultimately show ?thesis by auto
qed

interpretation harness: service n harness_deliver harness_boot no_act harness_enc "harness_holds n" for n
proof
  fix v ops p rf and cfg :: "'c config"
  assume "v < n" "following n (harness_holds n) ops cfg" "harness_holds n ops cfg v p" "p < length ops"
  from applierSnap_command [OF this(2,1,3,4)]
  show "\<exists>g' call. harness_deliver rf v (plain_msg (int p + 1) (ops ! p)) cfg = Some (g', call) \<and> harness_holds n ops g' v (Suc p) \<and>
        others_keep n (harness_holds n) ops v cfg g' \<and> (call = None \<or> call = Some (int p + 1, harness_enc ops (Suc p)))"
    by (auto simp: harness_deliver_def)
next
  fix v ops p j rf t and cfg :: "'c config"
  assume h: "v < n" "harness_holds n ops cfg v p" "j \<le> length ops"
  then obtain cfg' where "ingestSnap cfg v (harness_enc ops j) (int j) = Inr cfg'" "harness_holds n ops cfg' v j"
    "\<forall>u. u \<noteq> v \<longrightarrow> cfLogs cfg' ! u = cfLogs cfg ! u \<and> cfLastApplied cfg' ! u = cfLastApplied cfg ! u" "length (cfLogs cfg') = n"
    "length (cfLastApplied cfg') = n" "length (cfRafts cfg') = n" "length (cfSaved cfg') = n"
    using ingest_enc [of "int j" j ops v n cfg] by (auto simp: harness_holds_def)
  then show "\<exists>g'. harness_deliver rf v (snap_msg t (int j) (harness_enc ops j)) cfg = Some (g', None) \<and> harness_holds n ops g' v j \<and>
      others_keep n (harness_holds n) ops v cfg g'"
    using h(2) by (auto simp: harness_deliver_def applierSnap_def snap_msg_def harness_holds_def intro!: harness_others)
next
  fix v ops j now and cfg :: "'c config" and rf :: "('c, 'c hgob) Raft"
  assume h: "v < n" "following n (harness_holds n) ops cfg" "j \<le> length ops"
    "ReadSnapshot (persister rf) = (if j = 0 then [] else harness_enc ops j)"
  obtain p where p: "harness_holds n ops cfg v p" using h(1,2) by (auto simp: following_def)
  let ?cfg = "cfg\<lparr>cfRafts := (cfRafts cfg)[v := None], cfSaved := (cfSaved cfg)[v := Some (persister rf)], cfLastApplied := (cfLastApplied cfg)[v := 0]\<rparr>"
  have live: "live_saved ?cfg v = Some (persister rf)" using p h(1) by (simp add: live_saved_def harness_holds_def)
  show "\<exists>g'. harness_boot rf v now cfg = Some g' \<and> harness_holds n ops g' v j \<and> others_keep n (harness_holds n) ops v cfg g'"
  proof (cases "j = 0")
    case True
    then have "harness_boot rf v now cfg = Some ?cfg" using live h(4) by (simp add: harness_boot_def fresh_saved_def Let_def)
    moreover have "harness_holds n ops ?cfg v 0" using p h(1) by (simp add: harness_holds_def)
    moreover have "others_keep n (harness_holds n) ops v cfg ?cfg" by (rule harness_others) simp_all
    ultimately show ?thesis using True by blast
  next
    case False
    obtain cfg' where c: "ingestSnap ?cfg v (harness_enc ops j) (- 1) = Inr cfg'" "harness_holds n ops cfg' v j"
      "\<forall>u. u \<noteq> v \<longrightarrow> cfLogs cfg' ! u = cfLogs ?cfg ! u \<and> cfLastApplied cfg' ! u = cfLastApplied ?cfg ! u" "length (cfLogs cfg') = n"
      "length (cfLastApplied cfg') = n" "length (cfRafts cfg') = n" "length (cfSaved cfg') = n"
      using ingest_enc [of "- 1" j ops v n ?cfg] p h(1,3) by (auto simp: harness_holds_def)
    have "harness_enc ops j \<noteq> []" by (simp add: harness_enc_def encodeHarness_def Encode_def)
    then have "harness_boot rf v now cfg = Some cfg'" using live h(4) c(1) False by (simp add: harness_boot_def fresh_saved_def Let_def)
    moreover have "others_keep n (harness_holds n) ops v cfg cfg'" by (rule harness_others) (use c p in \<open>auto simp: harness_holds_def\<close>)
    ultimately show ?thesis using c(2) by blast
  qed
qed (simp add: no_act_def)

section \<open>Property\<close>

lemma harness_start: "v < n \<Longrightarrow> make_config n unrel names srv now t = Some cfg \<Longrightarrow> harness_holds n ops cfg v 0"
proof -
  assume v: "v < n" and cfg: "make_config n unrel names srv now t = Some cfg"
  note S = make_config_state [OF cfg] and N = net_okD(1) [OF make_config_ok [OF cfg]]
  then show ?thesis using v by (simp add: harness_holds_def shape_ok_def)
qed

text \<open>
  C11. The harness does not complain about snapshots: take a run of a cluster under \<^verbatim>\<open>applierSnap\<close>, with at most three servers or
  prompt vote requests, over crashes and restarts, in which the appliers read their channels in order and the applier of a
  crashed server gets no more messages. Then each applier accepts its next message, a server starts again from the
  snapshot it has saved, and all logs of the harness hold commands of one list, up to \<^verbatim>\<open>lastApplied\<close> without a gap.
\<close>

theorem harness_accepts_snapshots:
  fixes cfg :: "'c config"
  assumes "make_config n unrel names srv now t = Some cfg" "harness_sys cfg n es = Some sy" "prompt (syRaft sy) \<or> n \<le> 3" "v < n"
    and "reads_in_order es" "list_all no_stale es"
  shows "(syUnread sy ! v \<noteq> [] \<longrightarrow> (\<exists>res. applierSnap (syState sy) v (hd (syUnread sy ! v)) = Inr res)) \<and>
    harness_sys cfg n (es @ [SRestart v now']) \<noteq> None \<and>
    (\<exists>ops. \<forall>u < n. \<forall>j. (1 \<le> j \<and> j \<le> cfLastApplied (syState sy) ! u \<longrightarrow> (cfLogs (syState sy) ! u) j \<noteq> None) \<and>
       (\<forall>c. 1 \<le> j \<and> (cfLogs (syState sy) ! u) j = Some c \<longrightarrow> j \<le> int (length ops) \<and> c = Some (ops ! nat (j - 1))))"
proof -
  have run: "svc_run harness_deliver harness_boot no_act es (svc_init n cfg) = Some sy"
    using assms(2) no_stale_run [OF assms(6)] by (simp add: harness_sys_def)
  have start: "\<And>ops v. v < n \<Longrightarrow> harness_holds n ops cfg v 0" by (rule harness_start [OF _ assms(1)])
  note S = harness.run_not_stuck [OF run assms(3) start assms(4,5)]
  have again: "harness_sys cfg n (es @ [SRestart v now']) \<noteq> None"
    using run no_stale_run [of "es @ [SRestart v now']" "svc_init n cfg"] assms(6) S(3) [of now']
    by (simp add: harness_sys_def svc_run_append bind_eq_Some_conv split: bind_split)
  obtain ops where ops: "\<forall>k \<le> length es. \<exists>sk. svc_run harness_deliver harness_boot no_act (take k es) (svc_init n cfg) = Some sk \<and>
      harness.followed n (start_cmds (take k es)) ops sk"
    by (rule harness.one_log [OF run assms(3) start assms(5)])
  then have "following n (harness_holds n) ops (syState sy)" using run harness.followed_following [of n _ ops] by fastforce
  then have "\<forall>u < n. \<exists>p. harness_holds n ops (syState sy) u p" by (auto simp: following_def)
  moreover have "\<exists>res. applierSnap (syState sy) v (hd (syUnread sy ! v)) = Inr res" if "syUnread sy ! v \<noteq> []"
    using S(1) [OF _ that] that by (auto simp: Let_def harness_deliver_def hd_conv_nth split: if_splits sum.splits)
  ultimately show ?thesis using again unfolding harness_holds_def by (intro conjI exI [of _ ops]) fastforce+
qed

text \<open>
  The run of the witness: server 0 is elected, applies nine commands, takes a snapshot, which the ninth calls for, and
  installs it on server 1, whose applier has it as its next message.
\<close>

definition snap_run :: "(nat, nat hgob, (nat, nat hgob) ApplyMsg) svc_event list" where
  "snap_run = map SRaft [CTick 0 timeout, CVoteSend 0, CVoteSend 1, CVoteServe 1 timeout, CVoteRecv 1] @
     map (\<lambda>c. SRaft (CStart 0 c)) [1, 2, 3, 4, 5, 6, 7, 8, 9] @
     map SRaft [CAppendSend 0 2, CAppendServe 0 timeout, CAppendRecv 0, CApply 0] @ replicate 9 (SDeliver 0 0) @
     [SCompact 0 0] @ map SRaft [CAppendSend 0 1, CInstallServe 0 timeout]"

definition snap_end :: "(nat config, nat, nat hgob) system" where
  "snap_end = the (harness_sys apply_config 3 snap_run)"

lemma snap_run_ok: "harness_sys apply_config 3 snap_run = Some snap_end"
proof -
  have "harness_sys apply_config 3 snap_run \<noteq> None" by code_simp
  then show ?thesis by (auto simp: snap_end_def)
qed

lemma snap_run_order: "reads_in_order snap_run" "list_all no_stale snap_run"
  by code_simp+

lemma snap_end_facts: "map amSnapshotIndex (syUnread snap_end ! 1) = [9]"
  by code_simp

theorem harness_accepts_snapshots_witness:
  "\<exists>res. applierSnap (syState snap_end) 1 (hd (syUnread snap_end ! 1)) = Inr res"
  using harness_accepts_snapshots [OF apply_config_made snap_run_ok _ _ snap_run_order, of 1] snap_end_facts by auto

end
