(* ===== verification/KvHarness.thy ===== *)
theory KvHarness
  imports RaftHarness KvServer
begin

text \<open>
  The harness of the key/value service, \<^verbatim>\<open>kvraft/config.go\<close>, and its copy for the shard controller,
  \<^verbatim>\<open>shardctrler/config.go\<close>. The two files differ in the type of the servers, in how a server is
  started and killed and in \<^verbatim>\<open>Leader\<close>; so the definitions are over a type \<open>'s\<close> of servers and take as
  arguments \<open>start\<close> (\<^verbatim>\<open>StartKVServer\<close> or \<^verbatim>\<open>StartServer\<close>, given the number of servers, its own number, its
  persister and the clock), \<open>kill\<close>, and \<open>rf_of\<close>, the peer of a server. As in \<^verbatim>\<open>RaftHarness\<close>, the
  persister in \<^verbatim>\<open>saved[i]\<close> is that of the running server, and \<open>None\<close> is a panic or an exit. A clerk is known by
  its address.
\<close>

section \<open>State\<close>

record ('s, 'c, 'b) kvconfig =
  kcNet :: "netname Network"
  kcN :: nat
  kcServers :: "'s option list"
  kcSaved :: "('c, 'b) Persister option list"
  kcEndnames :: "string list list"
  kcClerks :: "nat \<rightharpoonup> string list"
  kcNextClientId :: int
  kcMaxraftstate :: int
  kcStart :: int
  kcT0 :: int
  kcRpcs0 :: int
  kcOps :: "32 word"

text \<open>\<^verbatim>\<open>random_handles\<close>: \<open>r i\<close> is what \<^verbatim>\<open>rand.Intn(i + 1)\<close> returns.\<close>

definition swap :: "'a list \<Rightarrow> nat \<Rightarrow> nat \<Rightarrow> 'a list" where
  "swap xs i j = xs[i := xs ! j, j := xs ! i]"

definition random_handles :: "(nat \<Rightarrow> nat) \<Rightarrow> 'a list \<Rightarrow> 'a list" where
  "random_handles r kvh = fold (\<lambda>i sa. swap sa i (r i)) [0..<length kvh] kvh"

section \<open>Connections\<close>

definition kc_endname :: "('s, 'c, 'b) kvconfig \<Rightarrow> nat \<Rightarrow> nat \<Rightarrow> string option" where
  "kc_endname cfg i j = do { row \<leftarrow> nth_int (kcEndnames cfg) (int i); nth_int row (int j) }"

definition connectUnlocked :: "('s, 'c, 'b) kvconfig \<Rightarrow> nat \<Rightarrow> nat list \<Rightarrow> ('s, 'c, 'b) kvconfig option" where
  "connectUnlocked cfg i tos = do {
     outgoing \<leftarrow> those (map (\<lambda>j. kc_endname cfg i j) tos);
     incoming \<leftarrow> those (map (\<lambda>j. kc_endname cfg j i) tos);
     Some (cfg\<lparr>kcNet := enable_ends incoming True (enable_ends outgoing True (kcNet cfg))\<rparr>)
   }"

text \<open>
  The second loop of \<^verbatim>\<open>disconnectUnlocked\<close> tests \<^verbatim>\<open>cfg.endnames[j]\<close> where the first loop's
  counterpart would be \<^verbatim>\<open>cfg.endnames[from[j]]\<close>; \<open>j\<close> is the position in the list.
\<close>

definition disconnectUnlocked :: "('s, 'c, 'b) kvconfig \<Rightarrow> nat \<Rightarrow> nat list \<Rightarrow> ('s, 'c, 'b) kvconfig option" where
  "disconnectUnlocked cfg i froms = do {
     row \<leftarrow> (if froms = [] then Some [] else nth_int (kcEndnames cfg) (int i));
     outgoing \<leftarrow> those (map (\<lambda>j. kc_endname cfg i j) (if row \<noteq> [] then froms else []));
     rows \<leftarrow> those (map (\<lambda>k. nth_int (kcEndnames cfg) (int k)) [0..<length froms]);
     incoming \<leftarrow> those (map (\<lambda>(k, j). kc_endname cfg j i) (filter (\<lambda>(k, j). rows ! k \<noteq> []) (enumerate 0 froms)));
     Some (cfg\<lparr>kcNet := enable_ends incoming False (enable_ends outgoing False (kcNet cfg))\<rparr>)
   }"

definition kc_connect :: "('s, 'c, 'b) kvconfig \<Rightarrow> nat \<Rightarrow> nat list \<Rightarrow> ('s, 'c, 'b) kvconfig option" where
  "kc_connect cfg i tos = connectUnlocked cfg i tos"

definition kc_disconnect :: "('s, 'c, 'b) kvconfig \<Rightarrow> nat \<Rightarrow> nat list \<Rightarrow> ('s, 'c, 'b) kvconfig option" where
  "kc_disconnect cfg i froms = disconnectUnlocked cfg i froms"

definition All :: "('s, 'c, 'b) kvconfig \<Rightarrow> nat list" where
  "All cfg = [0..<kcN cfg]"

fun connect_each :: "nat list \<Rightarrow> nat list \<Rightarrow> ('s, 'c, 'b) kvconfig \<Rightarrow> ('s, 'c, 'b) kvconfig option" where
  "connect_each [] tos cfg = Some cfg"
| "connect_each (i # is) tos cfg = do { cfg \<leftarrow> connectUnlocked cfg i tos; connect_each is tos cfg }"

definition ConnectAll :: "('s, 'c, 'b) kvconfig \<Rightarrow> ('s, 'c, 'b) kvconfig option" where
  "ConnectAll cfg = connect_each (All cfg) (All cfg) cfg"

fun separate :: "nat list \<Rightarrow> nat list \<Rightarrow> nat list \<Rightarrow> ('s, 'c, 'b) kvconfig \<Rightarrow> ('s, 'c, 'b) kvconfig option" where
  "separate [] own other cfg = Some cfg"
| "separate (i # is) own other cfg = do {
     cfg \<leftarrow> disconnectUnlocked cfg i other;
     cfg \<leftarrow> connectUnlocked cfg i own;
     separate is own other cfg
   }"

definition kc_partition :: "nat list \<Rightarrow> nat list \<Rightarrow> ('s, 'c, 'b) kvconfig \<Rightarrow> ('s, 'c, 'b) kvconfig option" where
  "kc_partition p1 p2 cfg = do { cfg \<leftarrow> separate p1 p1 p2 cfg; separate p2 p2 p1 cfg }"

section \<open>Clerks\<close>

text \<open>\<^verbatim>\<open>cfg.clerks[ck]\<close> is \<^verbatim>\<open>nil\<close> for an unknown clerk.\<close>

definition clerk_ends :: "('s, 'c, 'b) kvconfig \<Rightarrow> nat \<Rightarrow> nat list \<Rightarrow> string list option" where
  "clerk_ends cfg ck js =
     those (map (\<lambda>j. nth_int (case kcClerks cfg ck of Some names \<Rightarrow> names | None \<Rightarrow> []) (int j)) js)"

definition ConnectClientUnlocked :: "('s, 'c, 'b) kvconfig \<Rightarrow> nat \<Rightarrow> nat list \<Rightarrow> ('s, 'c, 'b) kvconfig option" where
  "ConnectClientUnlocked cfg ck tos = do {
     es \<leftarrow> clerk_ends cfg ck tos;
     Some (cfg\<lparr>kcNet := enable_ends es True (kcNet cfg)\<rparr>)
   }"

definition DisconnectClientUnlocked :: "('s, 'c, 'b) kvconfig \<Rightarrow> nat \<Rightarrow> nat list \<Rightarrow> ('s, 'c, 'b) kvconfig option" where
  "DisconnectClientUnlocked cfg ck froms = do {
     es \<leftarrow> clerk_ends cfg ck froms;
     Some (cfg\<lparr>kcNet := enable_ends es False (kcNet cfg)\<rparr>)
   }"

text \<open>
  \<^verbatim>\<open>makeClient\<close>: \<open>names\<close> are random strings, \<open>ck\<close> the address of the new clerk, \<open>r\<close> the choices of
  \<^verbatim>\<open>random_handles\<close>; the second result lists the servers in the order in which the clerk has its ends.
\<close>

definition makeClient :: "('s, 'c, 'b) kvconfig \<Rightarrow> nat list \<Rightarrow> (nat \<Rightarrow> string) \<Rightarrow> nat \<Rightarrow> (nat \<Rightarrow> nat) \<Rightarrow>
    (('s, 'c, 'b) kvconfig \<times> nat list) option" where
  "makeClient cfg tos names ck r = do {
     let endnames = map names [0..<kcN cfg];
     rn \<leftarrow> make_ends endnames 0 (kcNet cfg);
     let order = random_handles r [0..<kcN cfg];
     let cfg = cfg\<lparr>kcNet := rn, kcClerks := (kcClerks cfg)(ck \<mapsto> endnames), kcNextClientId := kcNextClientId cfg + 1\<rparr>;
     cfg \<leftarrow> ConnectClientUnlocked cfg ck tos;
     Some (cfg, order)
   }"

definition deleteClient :: "('s, 'c, 'b) kvconfig \<Rightarrow> nat \<Rightarrow> ('s, 'c, 'b) kvconfig" where
  "deleteClient cfg ck = cfg\<lparr>kcClerks := (kcClerks cfg)(ck := None)\<rparr>"

section \<open>Servers\<close>

definition kc_saved :: "('s \<Rightarrow> ('c, 'b) Raft) \<Rightarrow> ('s, 'c, 'b) kvconfig \<Rightarrow> nat \<Rightarrow> ('c, 'b) Persister option" where
  "kc_saved rf_of cfg i = (case kcServers cfg ! i of Some kv \<Rightarrow> Some (persister (rf_of kv)) | None \<Rightarrow> kcSaved cfg ! i)"

text \<open>\<^verbatim>\<open>ShutdownServer\<close>, with the killed server, to which nothing refers any more.\<close>

definition ShutdownServer :: "('s \<Rightarrow> ('c, 'b) Raft) \<Rightarrow> ('s \<Rightarrow> 's) \<Rightarrow> ('s, 'c, 'b) kvconfig \<Rightarrow> nat \<Rightarrow>
    (('s, 'c, 'b) kvconfig \<times> 's option) option" where
  "ShutdownServer rf_of kill cfg i = do {
     cfg \<leftarrow> disconnectUnlocked cfg i (All cfg);
     let cfg = cfg\<lparr>kcNet := DeleteServer (ServerName i) (kcNet cfg)\<rparr>;
     let copied = map_option Copy (kc_saved rf_of cfg i);
     let gone = map_option kill (kcServers cfg ! i);
     Some (cfg\<lparr>kcSaved := (kcSaved cfg)[i := copied], kcServers := (kcServers cfg)[i := None]\<rparr>, gone)
   }"

definition StartServer :: "('s \<Rightarrow> ('c, 'b) Raft) \<Rightarrow> (nat \<Rightarrow> nat \<Rightarrow> ('c, 'b) Persister \<Rightarrow> int \<Rightarrow> int \<Rightarrow> 's option) \<Rightarrow>
    ('s, 'c, 'b) kvconfig \<Rightarrow> nat \<Rightarrow> (nat \<Rightarrow> string) \<Rightarrow> nat \<Rightarrow> int \<Rightarrow> ('s, 'c, 'b) kvconfig option" where
  "StartServer rf_of start cfg i names srv now = do {
     let row = map names [0..<kcN cfg];
     endnames \<leftarrow> update_int (kcEndnames cfg) (int i) row;
     rn \<leftarrow> make_ends row 0 (kcNet cfg);
     let ps = (case kc_saved rf_of cfg i of Some ps \<Rightarrow> Copy ps | None \<Rightarrow> MakePersister);
     kv \<leftarrow> start (kcN cfg) i ps (kcMaxraftstate cfg) now;
     Some (cfg\<lparr>kcEndnames := endnames, kcSaved := (kcSaved cfg)[i := Some ps], kcServers := (kcServers cfg)[i := Some kv],
               kcNet := AddServer (ServerName i) srv rn\<rparr>)
   }"

text \<open>\<^verbatim>\<open>Leader\<close>: the flags are what \<^verbatim>\<open>GetState\<close> of each server returns; \<^verbatim>\<open>kvraft\<close> panics on a server that is down.\<close>

fun Leader_loop :: "nat \<Rightarrow> bool option list \<Rightarrow> (bool \<times> nat) option" where
  "Leader_loop i [] = Some (False, 0)"
| "Leader_loop i (None # sts) = None"
| "Leader_loop i (Some is_leader # sts) = (if is_leader then Some (True, i) else Leader_loop (i + 1) sts)"

definition kc_Leader :: "('s \<Rightarrow> ('c, 'b) Raft) \<Rightarrow> ('s, 'c, 'b) kvconfig \<Rightarrow> (bool \<times> nat) option" where
  "kc_Leader rf_of cfg = Leader_loop 0 (map (map_option (\<lambda>kv. snd (GetState (rf_of kv)))) (kcServers cfg))"

text \<open>The version of \<^verbatim>\<open>shardctrler/config.go\<close> skips a server that is down.\<close>

fun sc_Leader_loop :: "nat \<Rightarrow> bool option list \<Rightarrow> bool \<times> nat" where
  "sc_Leader_loop i [] = (False, 0)"
| "sc_Leader_loop i (st # sts) = (if st = Some True then (True, i) else sc_Leader_loop (i + 1) sts)"

definition sc_Leader :: "('s \<Rightarrow> ('c, 'b) Raft) \<Rightarrow> ('s, 'c, 'b) kvconfig \<Rightarrow> bool \<times> nat" where
  "sc_Leader rf_of cfg = sc_Leader_loop 0 (map (map_option (\<lambda>kv. snd (GetState (rf_of kv)))) (kcServers cfg))"

text \<open>The loop of \<^verbatim>\<open>make_partition\<close>, over the servers, with \<^verbatim>\<open>j\<close> and the two slices; a write past the end panics.\<close>

fun partition_loop :: "nat list \<Rightarrow> nat \<Rightarrow> nat \<Rightarrow> nat list \<Rightarrow> nat list \<Rightarrow> (nat list \<times> nat list) option" where
  "partition_loop [] l j p1 p2 = Some (p1, p2)"
| "partition_loop (i # is) l j p1 p2 =
     (if i \<noteq> l then
        if j < length p1 then partition_loop is l (j + 1) (p1[j := i]) p2
        else do {
          p2 \<leftarrow> update_int p2 (int j - int (length p1)) i;
          partition_loop is l (j + 1) p1 p2
        }
      else partition_loop is l j p1 p2)"

definition make_partition :: "nat \<Rightarrow> nat \<Rightarrow> (nat list \<times> nat list) option" where
  "make_partition n l = do {
     (p1, p2) \<leftarrow> partition_loop [0..<n] l 0 (replicate (n div 2 + 1) 0) (replicate (n div 2) 0);
     p2 \<leftarrow> update_int p2 (int (length p2) - 1) l;
     Some (p1, p2)
   }"

section \<open>Tests\<close>

fun start_each :: "('s \<Rightarrow> ('c, 'b) Raft) \<Rightarrow> (nat \<Rightarrow> nat \<Rightarrow> ('c, 'b) Persister \<Rightarrow> int \<Rightarrow> int \<Rightarrow> 's option) \<Rightarrow> nat list \<Rightarrow>
    (nat \<Rightarrow> nat \<Rightarrow> string) \<Rightarrow> (nat \<Rightarrow> nat) \<Rightarrow> (nat \<Rightarrow> int) \<Rightarrow> ('s, 'c, 'b) kvconfig \<Rightarrow> ('s, 'c, 'b) kvconfig option" where
  "start_each rf_of start [] names srv now cfg = Some cfg"
| "start_each rf_of start (i # is) names srv now cfg = do {
     cfg \<leftarrow> StartServer rf_of start cfg i (names i) (srv i) (now i);
     start_each rf_of start is names srv now cfg
   }"

definition kc_empty :: "nat \<Rightarrow> int \<Rightarrow> int \<Rightarrow> ('s, 'c, 'b) kvconfig" where
  "kc_empty n maxstate t = \<lparr>kcNet = MakeNetwork, kcN = n, kcServers = replicate n None, kcSaved = replicate n None,
     kcEndnames = replicate n [], kcClerks = Map.empty, kcNextClientId = int n + 1000, kcMaxraftstate = maxstate,
     kcStart = t, kcT0 = 0, kcRpcs0 = 0, kcOps = 0\<rparr>"

definition kc_make_config :: "('s \<Rightarrow> ('c, 'b) Raft) \<Rightarrow> (nat \<Rightarrow> nat \<Rightarrow> ('c, 'b) Persister \<Rightarrow> int \<Rightarrow> int \<Rightarrow> 's option) \<Rightarrow>
    nat \<Rightarrow> bool \<Rightarrow> int \<Rightarrow> (nat \<Rightarrow> nat \<Rightarrow> string) \<Rightarrow> (nat \<Rightarrow> nat) \<Rightarrow> (nat \<Rightarrow> int) \<Rightarrow> int \<Rightarrow> ('s, 'c, 'b) kvconfig option" where
  "kc_make_config rf_of start n unreliable maxstate names srv now t = do {
     cfg \<leftarrow> start_each rf_of start [0..<n] names srv now (kc_empty n maxstate t);
     cfg \<leftarrow> ConnectAll cfg;
     Some (cfg\<lparr>kcNet := Reliable (\<not> unreliable) (kcNet cfg)\<rparr>)
   }"

definition kc_checkTimeout :: "('s, 'c, 'b) kvconfig \<Rightarrow> bool \<Rightarrow> int \<Rightarrow> bool" where
  "kc_checkTimeout cfg failed now = (\<not> failed \<and> now - kcStart cfg > 120 * 1000000000)"

definition kc_cleanup :: "('s \<Rightarrow> 's) \<Rightarrow> ('s, 'c, 'b) kvconfig \<Rightarrow> bool \<Rightarrow> int \<Rightarrow> (('s, 'c, 'b) kvconfig \<times> bool) option" where
  "kc_cleanup kill cfg failed now = do {
     let cfg = cfg\<lparr>kcServers := map (map_option kill) (kcServers cfg)\<rparr>;
     rn \<leftarrow> Cleanup (kcNet cfg);
     Some (cfg\<lparr>kcNet := rn\<rparr>, kc_checkTimeout cfg failed now)
   }"

definition kc_LogSize :: "('c gob list \<Rightarrow> int) \<Rightarrow> ('s \<Rightarrow> ('c, 'b) Raft) \<Rightarrow> ('s, 'c, 'b) kvconfig \<Rightarrow> int option" where
  "kc_LogSize gobsize rf_of cfg = logSize_loop gobsize (map (kc_saved rf_of cfg) [0..<kcN cfg]) 0"

fun snapshotSize_loop :: "('c, 'b) Persister option list \<Rightarrow> int \<Rightarrow> int option" where
  "snapshotSize_loop [] snapshotsize = Some snapshotsize"
| "snapshotSize_loop (None # ps) snapshotsize = None"
| "snapshotSize_loop (Some p # ps) snapshotsize =
     (let n = RaftTypes.SnapshotSize p in snapshotSize_loop ps (if n > snapshotsize then n else snapshotsize))"

definition kc_SnapshotSize :: "('s \<Rightarrow> ('c, 'b) Raft) \<Rightarrow> ('s, 'c, 'b) kvconfig \<Rightarrow> int option" where
  "kc_SnapshotSize rf_of cfg = snapshotSize_loop (map (kc_saved rf_of cfg) [0..<kcN cfg]) 0"

definition kc_rpcTotal :: "('s, 'c, 'b) kvconfig \<Rightarrow> int" where
  "kc_rpcTotal cfg = GetTotalCount (kcNet cfg)"

definition kc_begin :: "int \<Rightarrow> ('s, 'c, 'b) kvconfig \<Rightarrow> ('s, 'c, 'b) kvconfig" where
  "kc_begin now cfg = cfg\<lparr>kcT0 := now, kcRpcs0 := kc_rpcTotal cfg, kcOps := 0\<rparr>"

definition kc_op :: "('s, 'c, 'b) kvconfig \<Rightarrow> ('s, 'c, 'b) kvconfig" where
  "kc_op cfg = cfg\<lparr>kcOps := kcOps cfg + 1\<rparr>"

text \<open>The numbers that \<^verbatim>\<open>end\<close> prints, if the test has not failed.\<close>

definition kc_end :: "('s, 'c, 'b) kvconfig \<Rightarrow> bool \<Rightarrow> int \<Rightarrow> (int \<times> nat \<times> int \<times> int) option" where
  "kc_end cfg failed now =
     (if kc_checkTimeout cfg failed now \<or> failed then None
      else Some (now - kcT0 cfg, kcN cfg, kc_rpcTotal cfg - kcRpcs0 cfg, sint (kcOps cfg)))"

section \<open>The two harnesses\<close>

type_synonym kvraft_config = "(KVServer, Op, kvgob) kvconfig"

abbreviation kvraft_StartServer :: "kvraft_config \<Rightarrow> nat \<Rightarrow> (nat \<Rightarrow> string) \<Rightarrow> nat \<Rightarrow> int \<Rightarrow> kvraft_config option" where
  "kvraft_StartServer \<equiv> StartServer kvRf StartKVServer"

abbreviation kvraft_ShutdownServer :: "kvraft_config \<Rightarrow> nat \<Rightarrow> (kvraft_config \<times> KVServer option) option" where
  "kvraft_ShutdownServer \<equiv> ShutdownServer kvRf kv_Kill"

end
