(* ===== verification/KvHarnessProps.thy ===== *)
theory KvHarnessProps
  imports KvHarness HarnessNet "HOL-Library.Multiset"
begin

text \<open>
  Properties of the harness of the key/value service: clerks get every server once, end points never share
  a name, partitions of the network are what they say, and \<^verbatim>\<open>make_partition\<close> cuts the leader off from
  the majority of an odd number of servers.
\<close>

section \<open>Shuffling\<close>

lemma swap_perm: "i < length xs \<Longrightarrow> j < length xs \<Longrightarrow> mset (swap xs i j) = mset xs"
  unfolding swap_def by (rule mset_swap)

lemma random_handles_perm:
  assumes "\<And>i. r i \<le> i"
  shows "mset (random_handles r kvh) = mset kvh"
proof -
  have "mset (fold (\<lambda>i sa. swap sa i (r i)) is sa) = mset sa \<and> length (fold (\<lambda>i sa. swap sa i (r i)) is sa) = length sa"
    if "\<forall>i \<in> set is. i < length sa" for "is" sa
    using that
  proof (induction "is" arbitrary: sa)
    case (Cons i "is")
    have l: "length (swap sa i (r i)) = length sa" by (simp add: swap_def)
    have "i < length sa" "r i < length sa" using Cons.prems assms [of i] by (auto simp: le_less_trans)
    then show ?case using Cons.IH [of "swap sa i (r i)"] Cons.prems swap_perm [of i sa "r i"] l by simp
  qed simp
  from this [of "[0..<length kvh]" kvh] show ?thesis by (simp add: random_handles_def)
qed

section \<open>Where end points are\<close>

text \<open>An end point belongs to a pair of servers or to a clerk and a server.\<close>

datatype slot = Between nat nat | OfClerk nat nat

fun slot_name :: "('s, 'c, 'b) kvconfig \<Rightarrow> slot \<Rightarrow> string option" where
  "slot_name cfg (Between i j) = kc_endname cfg i j"
| "slot_name cfg (OfClerk ck j) = (case kcClerks cfg ck of Some names \<Rightarrow> nth_int names (int j) | None \<Rightarrow> None)"

fun slot_target :: "slot \<Rightarrow> nat" where
  "slot_target (Between i j) = j"
| "slot_target (OfClerk ck j) = j"

definition ends_ok :: "('s, 'c, 'b) kvconfig \<Rightarrow> bool" where
  "ends_ok cfg \<longleftrightarrow> length (kcEndnames cfg) = kcN cfg \<and> (\<forall>i < kcN cfg. kcEndnames cfg ! i = [] \<or> length (kcEndnames cfg ! i) = kcN cfg) \<and>
     (\<forall>x y e. slot_name cfg x = Some e \<and> slot_name cfg y = Some e \<longrightarrow> x = y) \<and>
     (\<forall>x e. slot_name cfg x = Some e \<longrightarrow> nwEnds (kcNet cfg) (EndName e) \<noteq> None \<and>
        connectionOf (kcNet cfg) (EndName e) = Some (ServerName (slot_target x)))"

lemma ends_okD:
  assumes "ends_ok cfg"
  shows "length (kcEndnames cfg) = kcN cfg" and "i < kcN cfg \<Longrightarrow> kcEndnames cfg ! i = [] \<or> length (kcEndnames cfg ! i) = kcN cfg"
    and "slot_name cfg x = Some e \<Longrightarrow> slot_name cfg y = Some e \<Longrightarrow> x = y"
    and "slot_name cfg x = Some e \<Longrightarrow> nwEnds (kcNet cfg) (EndName e) \<noteq> None"
    and "slot_name cfg x = Some e \<Longrightarrow> connectionOf (kcNet cfg) (EndName e) = Some (ServerName (slot_target x))"
  using assms unfolding ends_ok_def by blast+

text \<open>Operations that only enable, disable or serve keep it.\<close>

lemma ends_ok_net:
  assumes "ends_ok cfg" "nwEnds rn = nwEnds (kcNet cfg)" "nwConnections rn = nwConnections (kcNet cfg)"
    and "kcEndnames cfg' = kcEndnames cfg" "kcClerks cfg' = kcClerks cfg" "kcN cfg' = kcN cfg" "kcNet cfg' = rn"
  shows "ends_ok cfg'"
proof -
  have "slot_name cfg' = slot_name cfg"
  proof
    show "slot_name cfg' x = slot_name cfg x" for x using assms(4,5) by (cases x) (simp_all add: kc_endname_def cong: option.case_cong)
  qed
  moreover have "connectionOf rn = connectionOf (kcNet cfg)" using assms(3) by (intro ext) (simp add: connectionOf_def)
  ultimately show ?thesis using assms unfolding ends_ok_def by simp
qed

text \<open>New end points, as \<^verbatim>\<open>StartServer\<close> and \<^verbatim>\<open>makeClient\<close> make them, replacing the ones in the slots \<open>f j\<close>.\<close>

lemma ends_ok_new:
  assumes ok: "ends_ok cfg" and me: "make_ends (map names [0..<k]) 0 (kcNet cfg) = Some rn" and k: "kcN cfg = k"
    and net: "nwEnds (kcNet cfg') = nwEnds rn" "nwConnections (kcNet cfg') = nwConnections rn"
    and shape: "kcN cfg' = kcN cfg" "length (kcEndnames cfg') = kcN cfg"
      "\<forall>i < kcN cfg. kcEndnames cfg' ! i = [] \<or> length (kcEndnames cfg' ! i) = kcN cfg"
    and new: "\<And>x e. slot_name cfg' x = Some e \<Longrightarrow> (\<exists>j < k. x = f j \<and> e = names j) \<or> slot_name cfg x = Some e"
    and f: "inj f" "\<And>j. slot_target (f j) = j"
  shows "ends_ok cfg'"
proof -
  note D = ends_okD [OF ok]
  have fresh: "distinct (map names [0..<k])" "\<And>j. j < k \<Longrightarrow> nwEnds (kcNet cfg) (EndName (names j)) = None"
    using make_ends_fresh [OF me] by auto
  have made: "nwEnds rn (EndName (names j)) \<noteq> None \<and> nwConnections rn (EndName (names j)) = Some (Some (ServerName j))" if "j < k" for j
    using make_ends_new [OF me, of j] that by simp
  have frame: "nwEnds rn (EndName e) = nwEnds (kcNet cfg) (EndName e) \<and> nwConnections rn (EndName e) = nwConnections (kcNet cfg) (EndName e)"
    if "slot_name cfg x = Some e" for x e
  proof -
    have "e \<notin> set (map names [0..<k])" using D(4) [OF that] fresh(2) by auto
    then show ?thesis using make_ends_frame [OF me, of "EndName e"] by auto
  qed
  have clash: "names j \<noteq> e" if "slot_name cfg x = Some e" "j < k" for x e j using D(4) [OF that(1)] fresh(2) [OF that(2)] by auto
  have "x = y" if h: "slot_name cfg' x = Some e" "slot_name cfg' y = Some e" for x y e
  proof -
    have inj: "j = j'" if "j < k" "j' < k" "names j = names j'" for j j' using fresh(1) that by (auto simp: distinct_map inj_on_def)
    show ?thesis using new [OF h(1)] new [OF h(2)] clash D(3) [of x e y] inj by metis
  qed
  moreover have "nwEnds (kcNet cfg') (EndName e) \<noteq> None \<and> connectionOf (kcNet cfg') (EndName e) = Some (ServerName (slot_target x))"
    if h: "slot_name cfg' x = Some e" for x e
    using new [OF h]
  proof
    assume "\<exists>j < k. x = f j \<and> e = names j"
    then show ?thesis using made f(2) by (auto simp: net connectionOf_def)
  next
    assume "slot_name cfg x = Some e"
    then show ?thesis using frame D(4,5) by (simp add: net connectionOf_def)
  qed
  ultimately show ?thesis using shape(2,3) unfolding ends_ok_def shape(1) by blast
qed

lemma ends_ok_upd:
  "ends_ok cfg \<Longrightarrow> nwEnds rn = nwEnds (kcNet cfg) \<Longrightarrow> nwConnections rn = nwConnections (kcNet cfg) \<Longrightarrow> ends_ok (cfg\<lparr>kcNet := rn\<rparr>)"
  by (rule ends_ok_net) simp_all

lemma connectUnlocked_ok: "ends_ok cfg \<Longrightarrow> connectUnlocked cfg i tos = Some cfg' \<Longrightarrow> ends_ok cfg' \<and> kcN cfg' = kcN cfg \<and> kcEndnames cfg' = kcEndnames cfg"
  by (auto simp: connectUnlocked_def intro: ends_ok_upd)

lemma disconnectUnlocked_ok: "ends_ok cfg \<Longrightarrow> disconnectUnlocked cfg i froms = Some cfg' \<Longrightarrow> ends_ok cfg' \<and> kcN cfg' = kcN cfg \<and> kcEndnames cfg' = kcEndnames cfg"
  by (auto simp: disconnectUnlocked_def intro: ends_ok_upd)

section \<open>Links\<close>

text \<open>Whether server \<open>a\<close> can send to server \<open>b\<close>.\<close>

definition link :: "('s, 'c, 'b) kvconfig \<Rightarrow> nat \<Rightarrow> nat \<Rightarrow> bool" where
  "link cfg a b \<longleftrightarrow> (\<exists>e. kc_endname cfg a b = Some e \<and> isEnabled (kcNet cfg) (EndName e))"

definition started :: "('s, 'c, 'b) kvconfig \<Rightarrow> bool" where
  "started cfg \<longleftrightarrow> (\<forall>i < kcN cfg. kcEndnames cfg ! i \<noteq> [])"

lemma kc_endname_started:
  assumes "ends_ok cfg" "started cfg" "a < kcN cfg" "b < kcN cfg"
  obtains e where "kc_endname cfg a b = Some e"
  using assms ends_okD(1,2) [OF assms(1)] by (auto simp: kc_endname_def started_def)

lemma kc_endname_bounds: "ends_ok cfg \<Longrightarrow> kc_endname cfg a b = Some e \<Longrightarrow> a < kcN cfg \<and> b < kcN cfg"
  using ends_okD(1,2) by (fastforce simp: kc_endname_def nth_int_Some_iff)

lemma kc_endname_inj: "ends_ok cfg \<Longrightarrow> kc_endname cfg a b = Some e \<Longrightarrow> kc_endname cfg a' b' = Some e \<Longrightarrow> a = a' \<and> b = b'"
  using ends_okD(3) [of cfg "Between a b" e "Between a' b'"] by simp

lemma those_names:
  assumes "those (map (\<lambda>j. kc_endname cfg (f j) (g j)) js) = Some es" "ends_ok cfg" "kc_endname cfg a b = Some e"
  shows "e \<in> set es \<longleftrightarrow> (\<exists>j \<in> set js. f j = a \<and> g j = b)"
  unfolding those_map_Some [OF assms(1)] using kc_endname_inj [OF assms(2,3)] assms(3) by blast

lemma connect_link:
  assumes ok: "ends_ok cfg" and ev: "connectUnlocked cfg i tos = Some cfg'" and h: "kc_endname cfg a b = Some e"
  shows "link cfg' a b \<longleftrightarrow> link cfg a b \<or> a = i \<and> b \<in> set tos \<or> b = i \<and> a \<in> set tos"
proof -
  from ev obtain outs ins where o: "those (map (\<lambda>j. kc_endname cfg i j) tos) = Some outs" "those (map (\<lambda>j. kc_endname cfg j i) tos) = Some ins"
    and cfg': "cfg' = cfg\<lparr>kcNet := enable_ends ins True (enable_ends outs True (kcNet cfg))\<rparr>"
    by (auto simp: connectUnlocked_def)
  have e': "kc_endname cfg' a b = Some e" using h by (simp add: cfg' kc_endname_def)
  have "e \<in> set outs \<longleftrightarrow> a = i \<and> b \<in> set tos" "e \<in> set ins \<longleftrightarrow> b = i \<and> a \<in> set tos"
    using those_names [OF o(1) ok h] those_names [OF o(2) ok h] by auto
  then show ?thesis unfolding link_def h e' by (auto simp: cfg')
qed

lemma disconnect_link:
  assumes ok: "ends_ok cfg" and st: "started cfg" and ev: "disconnectUnlocked cfg i froms = Some cfg'" and h: "kc_endname cfg a b = Some e"
  shows "link cfg' a b \<longleftrightarrow> link cfg a b \<and> \<not> (a = i \<and> b \<in> set froms \<or> b = i \<and> a \<in> set froms)"
proof -
  from ev obtain row outs rows ins where row: "(if froms = [] then Some [] else nth_int (kcEndnames cfg) (int i)) = Some row"
    and o: "those (map (\<lambda>j. kc_endname cfg i j) (if row \<noteq> [] then froms else [])) = Some outs"
    and rows: "those (map (\<lambda>k. nth_int (kcEndnames cfg) (int k)) [0..<length froms]) = Some rows"
    and ins: "those (map (\<lambda>(k, j). kc_endname cfg j i) (filter (\<lambda>(k, j). rows ! k \<noteq> []) (enumerate 0 froms))) = Some ins"
    and cfg': "cfg' = cfg\<lparr>kcNet := enable_ends ins False (enable_ends outs False (kcNet cfg))\<rparr>"
    by (auto simp: disconnectUnlocked_def)
  note L = ends_okD(1) [OF ok]
  have "row \<noteq> []" if "froms \<noteq> []" using row that st L by (auto simp: started_def nth_int_Some_iff)
  then have outs: "those (map (\<lambda>j. kc_endname cfg i j) froms) = Some outs" using o by (cases "froms = []") auto
  have "rows ! k \<noteq> []" if k: "k < length froms" for k
  proof -
    have "map (\<lambda>k. nth_int (kcEndnames cfg) (int k)) [0..<length froms] ! k = Some (rows ! k)"
      by (rule those_nth [OF rows]) (use k in simp)
    then show ?thesis using k st L by (auto simp: started_def nth_int_Some_iff)
  qed
  then have "filter (\<lambda>(k, j). rows ! k \<noteq> []) (enumerate 0 froms) = enumerate 0 froms"
    by (auto simp: in_set_enumerate_eq intro!: filter_True)
  then have "those (map (\<lambda>x. kc_endname cfg (snd x) i) (enumerate 0 froms)) = Some ins" using ins by (simp add: case_prod_unfold)
  then have ins': "e \<in> set ins \<longleftrightarrow> (\<exists>x \<in> set (enumerate 0 froms). snd x = a \<and> i = b)" by (rule those_names [OF _ ok h])
  have e': "kc_endname cfg' a b = Some e" using h by (simp add: cfg' kc_endname_def)
  have "e \<in> set outs \<longleftrightarrow> a = i \<and> b \<in> set froms" using those_names [OF outs ok h] by auto
  moreover have "e \<in> set ins \<longleftrightarrow> b = i \<and> a \<in> set froms"
    unfolding ins' by (metis (no_types, lifting) in_set_conv_nth in_set_enumerate_eq length_enumerate nth_enumerate_eq snd_conv map_snd_enumerate image_iff list.set_map)
  ultimately show ?thesis unfolding link_def h e' by (simp add: cfg')
qed

lemma started_cong: "kcEndnames cfg' = kcEndnames cfg \<Longrightarrow> kcN cfg' = kcN cfg \<Longrightarrow> started cfg' = started cfg \<and> kc_endname cfg' = kc_endname cfg"
  by (simp add: started_def kc_endname_def fun_eq_iff)

lemma separate_link:
  assumes "ends_ok cfg" "started cfg" "separate is own other cfg = Some cfg'" "kc_endname cfg a b = Some e" "set own \<inter> set other = {}" "set is \<subseteq> set own"
  shows "ends_ok cfg' \<and> kcN cfg' = kcN cfg \<and> kcEndnames cfg' = kcEndnames cfg \<and>
    (link cfg' a b \<longleftrightarrow> (link cfg a b \<and> \<not> (a \<in> set is \<and> b \<in> set other \<or> b \<in> set is \<and> a \<in> set other)) \<or>
       a \<in> set is \<and> b \<in> set own \<or> b \<in> set is \<and> a \<in> set own)"
  using assms
proof (induction "is" arbitrary: cfg)
  case (Cons i "is")
  then obtain c1 c2 where c: "disconnectUnlocked cfg i other = Some c1" "connectUnlocked c1 i own = Some c2" "separate is own other c2 = Some cfg'" by auto
  have 1: "ends_ok c1" "kcN c1 = kcN cfg" "kcEndnames c1 = kcEndnames cfg" using disconnectUnlocked_ok [OF Cons.prems(1) c(1)] by auto
  have 2: "ends_ok c2" "kcN c2 = kcN c1" "kcEndnames c2 = kcEndnames c1" using connectUnlocked_ok [OF 1(1) c(2)] by auto
  have h: "kc_endname c1 a b = Some e" "kc_endname c2 a b = Some e" "started c2"
    using Cons.prems(2,4) started_cong [OF 1(3,2)] started_cong [OF 2(3,2)] by auto
  have i: "i \<in> set own" "i \<notin> set other" "set is \<subseteq> set own" using Cons.prems(5,6) by auto
  have l: "link c2 a b \<longleftrightarrow> (link cfg a b \<and> \<not> (a = i \<and> b \<in> set other \<or> b = i \<and> a \<in> set other)) \<or> a = i \<and> b \<in> set own \<or> b = i \<and> a \<in> set own"
    using connect_link [OF 1(1) c(2) h(1)] disconnect_link [OF Cons.prems(1,2) c(1) Cons.prems(4)] by simp
  have dis: "x \<in> set own \<Longrightarrow> x \<notin> set other" for x using Cons.prems(5) by blast
  have "ends_ok cfg' \<and> kcN cfg' = kcN c2 \<and> kcEndnames cfg' = kcEndnames c2 \<and>
    (link cfg' a b \<longleftrightarrow> (link c2 a b \<and> \<not> (a \<in> set is \<and> b \<in> set other \<or> b \<in> set is \<and> a \<in> set other)) \<or>
       a \<in> set is \<and> b \<in> set own \<or> b \<in> set is \<and> a \<in> set own)"
    by (rule Cons.IH [OF 2(1) h(3) c(3) h(2) Cons.prems(5) i(3)])
  then show ?case unfolding l using 1 2 i dis by auto
qed simp

lemma partition_link:
  assumes ok: "ends_ok cfg" "started cfg" and ev: "kc_partition p1 p2 cfg = Some cfg'" and p: "set p1 \<inter> set p2 = {}"
    and ab: "a \<in> set p1 \<union> set p2" "b \<in> set p1 \<union> set p2" "a < kcN cfg" "b < kcN cfg"
  shows "ends_ok cfg' \<and> kcN cfg' = kcN cfg \<and> started cfg' \<and> (link cfg' a b \<longleftrightarrow> (a \<in> set p1 \<longleftrightarrow> b \<in> set p1))"
proof -
  from ev obtain c1 where c: "separate p1 p1 p2 cfg = Some c1" "separate p2 p2 p1 c1 = Some cfg'" by (auto simp: kc_partition_def)
  obtain e where h: "kc_endname cfg a b = Some e" by (rule kc_endname_started [OF ok ab(3,4)])
  have p': "set p2 \<inter> set p1 = {}" using p by blast
  note S1 = separate_link [OF ok c(1) h p subset_refl]
  have h1: "kc_endname c1 a b = Some e" "started c1" using S1 ok(2) h started_cong [of c1 cfg] by auto
  have ok1: "ends_ok c1" using S1 by simp
  note S2 = separate_link [OF ok1 h1(2) c(2) h1(1) p' subset_refl]
  have "started cfg'" using S1 S2 ok(2) started_cong [of cfg' cfg] by auto
  moreover have "link cfg' a b \<longleftrightarrow> (a \<in> set p1 \<longleftrightarrow> b \<in> set p1)" using S1 S2 p ab(1,2) by auto
  ultimately show ?thesis using S1 S2 by simp
qed

section \<open>Choosing the partition\<close>

lemma update_append: "update_int p2 (int j - int (length p1)) i = Some p2' \<Longrightarrow> length p1 \<le> j \<Longrightarrow> p1 @ p2' = (p1 @ p2)[j := i]"
  by (auto simp: update_int_Some_iff list_update_append nat_diff_distrib)

lemma partition_loop_spec:
  assumes "j + length (filter (\<lambda>i. i \<noteq> l) is) \<le> length p1 + length p2"
  shows "\<exists>p1' p2'. partition_loop is l j p1 p2 = Some (p1', p2') \<and> length p1' = length p1 \<and> length p2' = length p2 \<and>
    p1' @ p2' = take j (p1 @ p2) @ filter (\<lambda>i. i \<noteq> l) is @ drop (j + length (filter (\<lambda>i. i \<noteq> l) is)) (p1 @ p2)"
  using assms
proof (induction "is" arbitrary: j p1 p2)
  case (Cons i "is")
  show ?case
  proof (cases "i = l")
    case True
    then show ?thesis using Cons by simp
  next
    case False
    let ?f = "filter (\<lambda>i. i \<noteq> l) is"
    have j: "j < length (p1 @ p2)" "j + 1 + length ?f \<le> length p1 + length p2" using Cons.prems False by auto
    have upd: "take (Suc j) ((p1 @ p2)[j := i]) = take j (p1 @ p2) @ [i]" using j(1) by (simp add: take_Suc_conv_app_nth)
    have rest: "drop (j + 1 + length ?f) ((p1 @ p2)[j := i]) = drop (j + 1 + length ?f) (p1 @ p2)" by simp
    show ?thesis
    proof (cases "j < length p1")
      case True
      have e: "p1[j := i] @ p2 = (p1 @ p2)[j := i]" using True by (simp add: list_update_append)
      obtain p1' p2' where "partition_loop is l (j + 1) (p1[j := i]) p2 = Some (p1', p2')" "length p1' = length p1" "length p2' = length p2"
        "p1' @ p2' = take (j + 1) (p1[j := i] @ p2) @ ?f @ drop (j + 1 + length ?f) (p1[j := i] @ p2)"
        using Cons.IH [of "j + 1" "p1[j := i]" p2] j(2) by auto
      then show ?thesis using False True unfolding e by (auto simp: upd)
    next
      case h: False
      then obtain q where q: "update_int p2 (int j - int (length p1)) i = Some q" "length q = length p2"
        using j(1) by (auto simp: update_int_def)
      have e: "p1 @ q = (p1 @ p2)[j := i]" by (rule update_append [OF q(1)]) (use h in simp)
      obtain p1' p2' where "partition_loop is l (j + 1) p1 q = Some (p1', p2')" "length p1' = length p1" "length p2' = length p2"
        "p1' @ p2' = take (j + 1) (p1 @ q) @ ?f @ drop (j + 1 + length ?f) (p1 @ q)"
        using Cons.IH [of "j + 1" p1 q] j(2) q(2) by auto
      then show ?thesis using False h q(1) unfolding e by (auto simp: upd)
    qed
  qed
qed (simp del: take_append drop_append)

lemma length_one: "length xs = 1 \<Longrightarrow> \<exists>z. xs = [z]"
  by (cases xs) auto

lemma others_length: "l < n \<Longrightarrow> length (filter (\<lambda>i. i \<noteq> l) [0..<n]) = n - 1"
proof -
  assume "l < n"
  have "distinct (filter (\<lambda>i. i \<noteq> l) [0..<n])" by simp
  then have "length (filter (\<lambda>i. i \<noteq> l) [0..<n]) = card ({0..<n} - {l})"
    by (subst distinct_card [symmetric]) (auto intro!: arg_cong [where f = card])
  then show ?thesis using \<open>l < n\<close> by simp
qed

lemma make_partition_odd:
  assumes "odd n" "2 \<le> n" "l < n"
  shows "\<exists>p1 p2. make_partition n l = Some (p1, p2) \<and> p1 @ p2 = filter (\<lambda>i. i \<noteq> l) [0..<n] @ [l] \<and> length p1 = n div 2 + 1"
proof -
  let ?f = "filter (\<lambda>i. i \<noteq> l) [0..<n]" and ?p1 = "replicate (n div 2 + 1) (0::nat)" and ?p2 = "replicate (n div 2) (0::nat)"
  have n: "n = 2 * (n div 2) + 1" using assms(1) by (metis odd_two_times_div_two_succ)
  have len: "length ?f = n - 1" by (rule others_length [OF assms(3)])
  have tot: "length ?p1 + length ?p2 = n" unfolding length_replicate using n by linarith
  obtain p1 p2 where p: "partition_loop [0..<n] l 0 ?p1 ?p2 = Some (p1, p2)" "length p1 = n div 2 + 1" "length p2 = n div 2"
    "p1 @ p2 = ?f @ drop (n - 1) (?p1 @ ?p2)"
    using partition_loop_spec [of 0 l "[0..<n]" ?p1 ?p2] len tot assms(2) by auto
  have "length (drop (n - 1) (?p1 @ ?p2)) = 1" using tot assms(2) by simp
  then obtain z where "drop (n - 1) (?p1 @ ?p2) = [z]" using length_one by blast
  then have z: "p1 @ p2 = ?f @ [z]" using p(4) by simp
  obtain q where q: "update_int p2 (int (length p2) - 1) l = Some q" using p(3) assms(2) by (auto simp: update_int_def)
  have "int (length p2) - 1 = int (n - 1) - int (length p1)" using p(2,3) n by linarith
  then have "update_int p2 (int (n - 1) - int (length p1)) l = Some q" using q by argo
  moreover have "length p1 \<le> n - 1" using p(2) assms(1,2) by presburger
  ultimately have "p1 @ q = (p1 @ p2)[n - 1 := l]" by (rule update_append)
  then have "p1 @ q = ?f @ [l]" unfolding z using len by (simp add: list_update_append)
  then show ?thesis using p q by (auto simp: make_partition_def)
qed

section \<open>Sequences of operations\<close>

datatype 's kv_op =
    KConnect nat "nat list"
  | KDisconnect nat "nat list"
  | KPartition "nat list" "nat list"
  | KMakeClient "nat list" "nat \<Rightarrow> string" nat "nat \<Rightarrow> nat"
  | KDeleteClient nat
  | KConnectClient nat "nat list"
  | KDisconnectClient nat "nat list"
  | KShutdown nat
  | KStart nat "nat \<Rightarrow> string" nat int
  | KServer nat 's

text \<open>The operations of the harness, and \<open>KServer\<close>: a running server has changed its state.\<close>

fun kc_step :: "('s \<Rightarrow> ('c, 'b) Raft) \<Rightarrow> ('s \<Rightarrow> 's) \<Rightarrow> (nat \<Rightarrow> nat \<Rightarrow> ('c, 'b) Persister \<Rightarrow> int \<Rightarrow> int \<Rightarrow> 's option) \<Rightarrow> 's kv_op \<Rightarrow>
    ('s, 'c, 'b) kvconfig \<Rightarrow> ('s, 'c, 'b) kvconfig option" where
  "kc_step rf_of kill start (KConnect i tos) cfg = kc_connect cfg i tos"
| "kc_step rf_of kill start (KDisconnect i froms) cfg = kc_disconnect cfg i froms"
| "kc_step rf_of kill start (KPartition p1 p2) cfg = kc_partition p1 p2 cfg"
| "kc_step rf_of kill start (KMakeClient tos names ck r) cfg =
     (if kcClerks cfg ck = None then map_option fst (makeClient cfg tos names ck r) else None)"
| "kc_step rf_of kill start (KDeleteClient ck) cfg = Some (deleteClient cfg ck)"
| "kc_step rf_of kill start (KConnectClient ck tos) cfg = ConnectClientUnlocked cfg ck tos"
| "kc_step rf_of kill start (KDisconnectClient ck froms) cfg = DisconnectClientUnlocked cfg ck froms"
| "kc_step rf_of kill start (KShutdown i) cfg = map_option fst (ShutdownServer rf_of kill cfg i)"
| "kc_step rf_of kill start (KStart i names srv now) cfg = StartServer rf_of start cfg i names srv now"
| "kc_step rf_of kill start (KServer i kv) cfg =
     (if i < length (kcServers cfg) \<and> kcServers cfg ! i \<noteq> None then Some (cfg\<lparr>kcServers := (kcServers cfg)[i := Some kv]\<rparr>) else None)"

fun kc_run where
  "kc_run rf_of kill start [] cfg = Some cfg"
| "kc_run rf_of kill start (h # hs) cfg = do { cfg \<leftarrow> kc_step rf_of kill start h cfg; kc_run rf_of kill start hs cfg }"

definition kv_ok :: "('s, 'c, 'b) kvconfig \<Rightarrow> bool" where
  "kv_ok cfg \<longleftrightarrow> ends_ok cfg \<and> started cfg"

lemma ends_ok_same:
  "ends_ok cfg \<Longrightarrow> kcNet cfg' = kcNet cfg \<Longrightarrow> kcEndnames cfg' = kcEndnames cfg \<Longrightarrow> kcClerks cfg' = kcClerks cfg \<Longrightarrow> kcN cfg' = kcN cfg \<Longrightarrow> ends_ok cfg'"
  using ends_ok_net [of cfg "kcNet cfg"] by simp

lemma StartServer_ok:
  assumes ok: "ends_ok cfg" and ev: "StartServer rf_of start cfg i names srv now = Some cfg'"
  shows "ends_ok cfg' \<and> kcN cfg' = kcN cfg \<and> i < kcN cfg \<and> kcEndnames cfg' = (kcEndnames cfg)[i := map names [0..<kcN cfg]]"
proof -
  let ?row = "map names [0..<kcN cfg]"
  from ev obtain rn ps kv where i: "i < length (kcEndnames cfg)" and rn: "make_ends ?row 0 (kcNet cfg) = Some rn"
    and cfg': "cfg' = cfg\<lparr>kcEndnames := (kcEndnames cfg)[i := ?row], kcSaved := (kcSaved cfg)[i := Some ps], kcServers := (kcServers cfg)[i := Some kv],
               kcNet := AddServer (ServerName i) srv rn\<rparr>"
    by (auto simp: StartServer_def Let_def update_int_Some_iff)
  note D = ends_okD [OF ok]
  have "ends_ok cfg'"
  proof (rule ends_ok_new [OF ok rn refl, where f = "Between i"])
    fix x e assume h: "slot_name cfg' x = Some e"
    show "(\<exists>j < kcN cfg. x = Between i j \<and> e = names j) \<or> slot_name cfg x = Some e"
    proof (cases x)
      case (Between a b)
      then show ?thesis using h i by (cases "a = i") (auto simp: cfg' kc_endname_def nth_int_Some_iff)
    next
      case (OfClerk c j)
      then show ?thesis using h by (simp add: cfg' cong: option.case_cong)
    qed
  qed (use D(1,2) i in \<open>auto simp: cfg' AddServer_def inj_def nth_list_update\<close>)
  then show ?thesis using i D(1) by (simp add: cfg')
qed

lemma makeClient_ok:
  assumes ok: "ends_ok cfg" and ev: "makeClient cfg tos names ck r = Some (cfg', order)"
  shows "ends_ok cfg' \<and> kcN cfg' = kcN cfg \<and> kcEndnames cfg' = kcEndnames cfg"
proof -
  let ?row = "map names [0..<kcN cfg]"
  let ?cfg = "\<lambda>rn. cfg\<lparr>kcNet := rn, kcClerks := (kcClerks cfg)(ck \<mapsto> ?row), kcNextClientId := kcNextClientId cfg + 1\<rparr>"
  from ev obtain rn es where rn: "make_ends ?row 0 (kcNet cfg) = Some rn" and cfg': "cfg' = (?cfg rn)\<lparr>kcNet := enable_ends es True rn\<rparr>"
    by (auto simp: makeClient_def Let_def ConnectClientUnlocked_def)
  note D = ends_okD [OF ok]
  have "ends_ok (?cfg rn)"
  proof (rule ends_ok_new [OF ok rn refl, where f = "OfClerk ck"])
    fix x e assume h: "slot_name (?cfg rn) x = Some e"
    show "(\<exists>j < kcN cfg. x = OfClerk ck j \<and> e = names j) \<or> slot_name cfg x = Some e"
    proof (cases x)
      case (Between a b)
      then show ?thesis using h by (simp add: kc_endname_def)
    next
      case (OfClerk c j)
      then show ?thesis using h by (cases "c = ck") (auto simp: nth_int_Some_iff cong: option.case_cong)
    qed
  qed (use D(1,2) in \<open>auto simp: inj_def\<close>)
  then have "ends_ok cfg'" unfolding cfg' by (rule ends_ok_upd) simp_all
  then show ?thesis by (simp add: cfg')
qed

lemma deleteClient_ok: "ends_ok cfg \<Longrightarrow> ends_ok (deleteClient cfg ck)"
proof -
  assume ok: "ends_ok cfg"
  have s: "slot_name (deleteClient cfg ck) x = Some e \<Longrightarrow> slot_name cfg x = Some e" for x e
    by (cases x) (auto simp: deleteClient_def kc_endname_def split: if_splits)
  then show ?thesis using ok unfolding ends_ok_def by (simp add: deleteClient_def) blast
qed

lemma ShutdownServer_ok:
  assumes "ends_ok cfg" "ShutdownServer rf_of kill cfg i = Some (cfg', gone)"
  shows "ends_ok cfg' \<and> kcN cfg' = kcN cfg \<and> kcEndnames cfg' = kcEndnames cfg"
proof -
  from assms(2) obtain c1 where c: "disconnectUnlocked cfg i (All cfg) = Some c1"
    and e: "kcNet cfg' = DeleteServer (ServerName i) (kcNet c1)" "kcEndnames cfg' = kcEndnames c1" "kcClerks cfg' = kcClerks c1" "kcN cfg' = kcN c1"
    by (auto simp: ShutdownServer_def Let_def)
  have "ends_ok c1" "kcN c1 = kcN cfg" "kcEndnames c1 = kcEndnames cfg" using disconnectUnlocked_ok [OF assms(1) c] by auto
  then show ?thesis using ends_ok_net [of c1 "kcNet cfg'" cfg'] e by (simp add: DeleteServer_def)
qed

lemma separate_ok: "ends_ok cfg \<Longrightarrow> separate is own other cfg = Some cfg' \<Longrightarrow> ends_ok cfg' \<and> kcN cfg' = kcN cfg \<and> kcEndnames cfg' = kcEndnames cfg"
proof (induction "is" arbitrary: cfg)
  case (Cons i "is")
  then obtain c1 c2 where c: "disconnectUnlocked cfg i other = Some c1" "connectUnlocked c1 i own = Some c2" "separate is own other c2 = Some cfg'" by auto
  have "ends_ok c1" "kcN c1 = kcN cfg" "kcEndnames c1 = kcEndnames cfg" using disconnectUnlocked_ok [OF Cons.prems(1) c(1)] by auto
  then show ?case using connectUnlocked_ok [OF _ c(2)] Cons.IH [OF _ c(3)] by auto
qed simp

lemma kv_okI: "ends_ok cfg' \<Longrightarrow> kcN cfg' = kcN cfg \<Longrightarrow> kcEndnames cfg' = kcEndnames cfg \<Longrightarrow> kv_ok cfg \<Longrightarrow> kv_ok cfg' \<and> kcN cfg' = kcN cfg"
  by (simp add: kv_ok_def started_def)

lemma kv_step_ok:
  assumes ok: "kv_ok cfg" and ev: "kc_step rf_of kill start h cfg = Some cfg'"
  shows "kv_ok cfg' \<and> kcN cfg' = kcN cfg"
proof -
  have e: "ends_ok cfg" using ok by (simp add: kv_ok_def)
  show ?thesis
  proof (cases h)
    case (KConnect i tos)
    then show ?thesis using ev connectUnlocked_ok [OF e, of i tos cfg'] by (intro kv_okI [OF _ _ _ ok]) (auto simp: kc_connect_def)
  next
    case (KDisconnect i froms)
    then show ?thesis using ev disconnectUnlocked_ok [OF e, of i froms cfg'] by (intro kv_okI [OF _ _ _ ok]) (auto simp: kc_disconnect_def)
  next
    case (KPartition p1 p2)
    then obtain c1 where c: "separate p1 p1 p2 cfg = Some c1" "separate p2 p2 p1 c1 = Some cfg'" using ev by (auto simp: kc_partition_def)
    then show ?thesis using separate_ok [OF e c(1)] separate_ok [OF _ c(2)] by (intro kv_okI [OF _ _ _ ok]) auto
  next
    case (KMakeClient tos names ck r)
    then show ?thesis using ev makeClient_ok [OF e] by (intro kv_okI [OF _ _ _ ok]) (auto split: if_splits)
  next
    case (KDeleteClient ck)
    then show ?thesis using ev deleteClient_ok [OF e] by (intro kv_okI [OF _ _ _ ok]) (auto simp: deleteClient_def)
  next
    case (KConnectClient ck tos)
    then show ?thesis using ev by (intro kv_okI [OF _ _ _ ok]) (auto simp: ConnectClientUnlocked_def intro: ends_ok_upd [OF e])
  next
    case (KDisconnectClient ck froms)
    then show ?thesis using ev by (intro kv_okI [OF _ _ _ ok]) (auto simp: DisconnectClientUnlocked_def intro: ends_ok_upd [OF e])
  next
    case (KShutdown i)
    then show ?thesis using ev ShutdownServer_ok [OF e] by (intro kv_okI [OF _ _ _ ok]) auto
  next
    case (KStart i names srv now)
    then show ?thesis using ev StartServer_ok [OF e, of rf_of start i names srv now cfg'] ok ends_okD(1) [OF e]
      by (auto simp: kv_ok_def started_def nth_list_update)
  next
    case (KServer i kv)
    then show ?thesis using ev by (intro kv_okI [OF _ _ _ ok]) (auto split: if_splits intro: ends_ok_same [OF e])
  qed
qed

lemma kv_run_ok: "kv_ok cfg \<Longrightarrow> kc_run rf_of kill start hs cfg = Some cfg' \<Longrightarrow> kv_ok cfg' \<and> kcN cfg' = kcN cfg"
proof (induction hs arbitrary: cfg)
  case (Cons h hs)
  then obtain c1 where c: "kc_step rf_of kill start h cfg = Some c1" "kc_run rf_of kill start hs c1 = Some cfg'" by auto
  show ?case using kv_step_ok [OF Cons.prems(1) c(1)] Cons.IH [OF _ c(2)] by simp
qed simp

lemma start_each_ok:
  "ends_ok cfg \<Longrightarrow> start_each rf_of start is names srv now cfg = Some cfg' \<Longrightarrow>
   ends_ok cfg' \<and> kcN cfg' = kcN cfg \<and> (\<forall>i < kcN cfg. i \<in> set is \<or> kcEndnames cfg ! i \<noteq> [] \<longrightarrow> kcEndnames cfg' ! i \<noteq> [])"
proof (induction "is" arbitrary: cfg)
  case (Cons i "is")
  then obtain c1 where c: "StartServer rf_of start cfg i (names i) (srv i) (now i) = Some c1" "start_each rf_of start is names srv now c1 = Some cfg'" by auto
  note S = StartServer_ok [OF Cons.prems(1) c(1)]
  have "length (kcEndnames cfg) = kcN cfg" by (rule ends_okD(1) [OF Cons.prems(1)])
  then have "kcEndnames c1 ! j \<noteq> []" if "j < kcN cfg" "j = i \<or> kcEndnames cfg ! j \<noteq> []" for j
    using S that by (auto simp: nth_list_update)
  then show ?case using S Cons.IH [OF _ c(2)] by auto
qed simp

lemma connect_each_ok: "ends_ok cfg \<Longrightarrow> connect_each is tos cfg = Some cfg' \<Longrightarrow> ends_ok cfg' \<and> kcN cfg' = kcN cfg \<and> kcEndnames cfg' = kcEndnames cfg"
proof (induction "is" arbitrary: cfg)
  case (Cons i "is")
  then obtain c1 where c: "connectUnlocked cfg i tos = Some c1" "connect_each is tos c1 = Some cfg'" by auto
  show ?case using connectUnlocked_ok [OF Cons.prems(1) c(1)] Cons.IH [OF _ c(2)] by simp
qed simp

lemma kc_make_config_ok:
  assumes "kc_make_config rf_of start n unrel maxstate names srv now t = Some cfg"
  shows "kv_ok cfg \<and> kcN cfg = n"
proof -
  from assms obtain c1 c2 where c: "start_each rf_of start [0..<n] names srv now (kc_empty n maxstate t) = Some c1" "connect_each (All c1) (All c1) c1 = Some c2"
    and cfg: "cfg = c2\<lparr>kcNet := Reliable (\<not> unrel) (kcNet c2)\<rparr>"
    by (auto simp: kc_make_config_def ConnectAll_def)
  have none: "slot_name (kc_empty n maxstate t) x = None" for x
    by (cases x) (auto simp: kc_empty_def kc_endname_def nth_int_def bind_None_iff)
  have "ends_ok (kc_empty n maxstate t :: ('a, 'b, 'c) kvconfig)"
    unfolding ends_ok_def none by (simp add: kc_empty_def)
  then have 1: "ends_ok c1" "kcN c1 = n" "\<forall>i < n. kcEndnames c1 ! i \<noteq> []"
    using start_each_ok [OF _ c(1)] by (auto simp: kc_empty_def)
  have 2: "ends_ok c2" "kcN c2 = kcN c1" "kcEndnames c2 = kcEndnames c1" using connect_each_ok [OF 1(1) c(2)] by auto
  have "ends_ok cfg" unfolding cfg by (rule ends_ok_upd [OF 2(1)]) (simp_all add: Reliable_def)
  then show ?thesis using 1 2 by (simp add: kv_ok_def started_def cfg)
qed

section \<open>Properties\<close>

text \<open>
  C17. Cutting off the leader: for an odd number of at least three servers, \<^verbatim>\<open>make_partition\<close> gives a
  majority and a minority that together are all servers, with the leader in the minority; and after
  \<^verbatim>\<open>partition\<close>, whatever the harness did before, a server can send to another exactly if both are on the same side,
  over an end point that leads to that server.
\<close>

theorem partition_cuts_off_leader:
  fixes cfg :: "('s, 'c, 'b) kvconfig"
  assumes "kc_make_config rf_of start n unrel maxstate names srv now t = Some cfg0" "kc_run rf_of kill start hs cfg0 = Some cfg"
    and "odd n" "2 \<le> n" "l < n" "make_partition n l = Some (p1, p2)" "kc_partition p1 p2 cfg = Some cfg'"
  shows "l \<in> set p2 \<and> 2 * length p1 > n \<and> distinct (p1 @ p2) \<and> set (p1 @ p2) = {0..<n} \<and>
    (\<forall>a < n. \<forall>b < n. \<exists>e. kc_endname cfg' a b = Some e \<and> connectionOf (kcNet cfg') (EndName e) = Some (ServerName b) \<and>
       isEnabled (kcNet cfg') (EndName e) = ((a \<in> set p1) = (b \<in> set p1)))"
proof -
  have ok: "kv_ok cfg" "kcN cfg = n" using kv_run_ok [OF _ assms(2)] kc_make_config_ok [OF assms(1)] by auto
  have p: "p1 @ p2 = filter (\<lambda>i. i \<noteq> l) [0..<n] @ [l]" "length p1 = n div 2 + 1" using make_partition_odd [OF assms(3-5)] assms(6) by auto
  have len: "length (p1 @ p2) = n" unfolding p(1) using others_length [OF assms(5)] assms(4) by simp
  have all: "distinct (p1 @ p2)" "set (p1 @ p2) = {0..<n}" unfolding p(1) using assms(5) by auto
  have half: "2 * length p1 > n" using p(2) by linarith
  have "p2 \<noteq> []"
  proof
    assume "p2 = []"
    then have "n div 2 + 1 = n" using len p(2) by simp
    then show False using assms(3,4) by presburger
  qed
  then have "l = last p2" using arg_cong [OF p(1), of last] by simp
  then have l: "l \<in> set p2" using \<open>p2 \<noteq> []\<close> by simp
  have dis: "set p1 \<inter> set p2 = {}" using all(1) by simp
  have "\<exists>e. kc_endname cfg' a b = Some e \<and> connectionOf (kcNet cfg') (EndName e) = Some (ServerName b) \<and>
       isEnabled (kcNet cfg') (EndName e) = ((a \<in> set p1) = (b \<in> set p1))" if ab: "a < n" "b < n" for a b
  proof -
    have mem: "a \<in> set p1 \<union> set p2" "b \<in> set p1 \<union> set p2" using all(2) ab by auto
    have P: "ends_ok cfg' \<and> kcN cfg' = kcN cfg \<and> started cfg' \<and> (link cfg' a b \<longleftrightarrow> (a \<in> set p1 \<longleftrightarrow> b \<in> set p1))"
      by (rule partition_link [OF _ _ assms(7) dis mem]) (use ok ab in \<open>auto simp: kv_ok_def\<close>)
    then obtain e where e: "kc_endname cfg' a b = Some e" using kc_endname_started [of cfg' a b] ok(2) ab by auto
    then show ?thesis using P ends_okD(5) [of cfg' "Between a b" e] by (auto simp: link_def)
  qed
  then show ?thesis using l half all by blast
qed

definition kv_names :: "nat \<Rightarrow> nat \<Rightarrow> string" where
  "kv_names i j = [char_of i, char_of j]"

definition kv_config0 :: kvraft_config where
  "kv_config0 = the (kc_make_config kvRf StartKVServer 3 False (- 1) kv_names id (\<lambda>_. 0) 0)"

lemma kv_config0_made:
  "kc_make_config kvRf StartKVServer 3 False (- 1) kv_names id (\<lambda>_. 0) 0 = Some kv_config0"
proof -
  have "kc_make_config kvRf StartKVServer 3 False (- 1) kv_names id (\<lambda>_. 0) 0 \<noteq> None" by code_simp
  then show ?thesis by (auto simp: kv_config0_def)
qed

lemma kv_partition_runs: "make_partition 3 1 = Some ([0, 2], [1])" "kc_partition [0, 2] [1] kv_config0 \<noteq> None"
  by code_simp+

theorem partition_cuts_off_leader_witness:
  "\<exists>cfg' e. kc_partition [0, 2] [1] kv_config0 = Some cfg' \<and> kc_endname cfg' 0 1 = Some e \<and> \<not> isEnabled (kcNet cfg') (EndName e)"
proof -
  obtain cfg' where c: "kc_partition [0, 2] [1] kv_config0 = Some cfg'" using kv_partition_runs(2) by blast
  have "kc_run kvRf kv_Kill StartKVServer [] kv_config0 = Some kv_config0" by simp
  from partition_cuts_off_leader [OF kv_config0_made this _ _ _ kv_partition_runs(1) c]
  have "\<forall>a < 3. \<forall>b < 3. \<exists>e. kc_endname cfg' a b = Some e \<and> connectionOf (kcNet cfg') (EndName e) = Some (ServerName b) \<and>
       isEnabled (kcNet cfg') (EndName e) = ((a \<in> set [0, 2]) = (b \<in> set [0, 2::nat]))" by simp
  from this [rule_format, of 0 1] show ?thesis using c by auto
qed

text \<open>With an even number of servers the two sides overlap: server 0 is on both.\<close>

lemma even_partition_overlaps: "make_partition 4 1 = Some ([0, 2, 3], [0, 1])"
  by code_simp

end
