(* ===== verification/Shard.thy ===== *)
theory Shard
  imports KvServer
begin

text \<open>
  The sharded service as far as the repository has it: \<^verbatim>\<open>shardctrler/common.go\<close>, \<^verbatim>\<open>client.go\<close> and \<^verbatim>\<open>server.go\<close>, and the same files of
  \<^verbatim>\<open>shardkv/\<close>. The handlers of both servers are empty: they leave the reply at its zero value. The clerks are
  complete; they retry for ever, so each takes the outcomes of its RPCs as a list (\<open>None\<close> when \<^verbatim>\<open>Call\<close>
  returns false) and has no result when the list runs out.
\<close>

section \<open>The shard controller\<close>

definition NShards :: nat where
  "NShards = 10"

record Config =
  cgNum :: int
  cgShards :: "int list"
  cgGroups :: "int \<rightharpoonup> string list"

text \<open>The zero value: no groups, and group 0 for every shard.\<close>

definition zeroConfig :: Config where
  "zeroConfig = \<lparr>cgNum = 0, cgShards = replicate NShards 0, cgGroups = Map.empty\<rparr>"

record JoinArgs =
  jaServers :: "int \<rightharpoonup> string list"

record LeaveArgs =
  laGIDs :: "int list"

record MoveArgs =
  maShard :: int
  maGID :: int

record QueryArgs =
  qaNum :: int

text \<open>\<^verbatim>\<open>JoinReply\<close>, \<^verbatim>\<open>LeaveReply\<close> and \<^verbatim>\<open>MoveReply\<close> have the same fields.\<close>

record CtrlReply =
  crWrongLeader :: bool
  crErr :: string

record QueryReply = CtrlReply +
  qrConfig :: Config

definition zeroCtrlReply :: CtrlReply where
  "zeroCtrlReply = \<lparr>crWrongLeader = False, crErr = []\<rparr>"

definition zeroQueryReply :: QueryReply where
  "zeroQueryReply = \<lparr>crWrongLeader = False, crErr = [], qrConfig = zeroConfig\<rparr>"

record ('c, 'b) ShardCtrler =
  scMe :: nat
  scRf :: "('c, 'b) Raft"
  scConfigs :: "Config list"

definition sc_Join :: "('c, 'b) ShardCtrler \<Rightarrow> JoinArgs \<Rightarrow> CtrlReply \<Rightarrow> ('c, 'b) ShardCtrler \<times> CtrlReply" where
  "sc_Join sc args reply = (sc, reply)"

definition sc_Leave :: "('c, 'b) ShardCtrler \<Rightarrow> LeaveArgs \<Rightarrow> CtrlReply \<Rightarrow> ('c, 'b) ShardCtrler \<times> CtrlReply" where
  "sc_Leave sc args reply = (sc, reply)"

definition sc_Move :: "('c, 'b) ShardCtrler \<Rightarrow> MoveArgs \<Rightarrow> CtrlReply \<Rightarrow> ('c, 'b) ShardCtrler \<times> CtrlReply" where
  "sc_Move sc args reply = (sc, reply)"

definition sc_Query :: "('c, 'b) ShardCtrler \<Rightarrow> QueryArgs \<Rightarrow> QueryReply \<Rightarrow> ('c, 'b) ShardCtrler \<times> QueryReply" where
  "sc_Query sc args reply = (sc, reply)"

definition sc_Kill :: "('c, 'b) ShardCtrler \<Rightarrow> ('c, 'b) ShardCtrler" where
  "sc_Kill sc = sc\<lparr>scRf := Kill (scRf sc)\<rparr>"

definition sc_Raft :: "('c, 'b) ShardCtrler \<Rightarrow> ('c, 'b) Raft" where
  "sc_Raft sc = scRf sc"

definition sc_StartServer :: "nat \<Rightarrow> nat \<Rightarrow> ('c, 'b) Persister \<Rightarrow> int \<Rightarrow> ('c, 'b) ShardCtrler option" where
  "sc_StartServer n i ps now = do {
     let configs = [zeroConfig];
     rf \<leftarrow> Make n i ps now;
     Some \<lparr>scMe = i, scRf = rf, scConfigs = configs\<rparr>
   }"

section \<open>The clerk of the shard controller\<close>

text \<open>
  The loops of \<^verbatim>\<open>Query\<close>, \<^verbatim>\<open>Join\<close>, \<^verbatim>\<open>Leave\<close> and \<^verbatim>\<open>Move\<close>: the servers are asked round and round until one answers that it
  is not the wrong leader. A call is what the network makes of it, a function from the server and the arguments
  to the reply, if any. The result names the server. With no servers no call is ever made.
\<close>

fun ask_ctrlers :: "nat \<Rightarrow> nat \<Rightarrow> 'q \<Rightarrow> (nat \<Rightarrow> 'q \<Rightarrow> 'a CtrlReply_scheme option) list \<Rightarrow> (nat \<times> 'a CtrlReply_scheme) option" where
  "ask_ctrlers n i args [] = None"
| "ask_ctrlers n i args (call # calls) =
     (case call i args of
        Some reply \<Rightarrow> if \<not> crWrongLeader reply then Some (i, reply) else ask_ctrlers n ((i + 1) mod n) args calls
      | None \<Rightarrow> ask_ctrlers n ((i + 1) mod n) args calls)"

record CtrlClerk =
  ccServers :: nat

definition cc_MakeClerk :: "nat \<Rightarrow> CtrlClerk" where
  "cc_MakeClerk n = \<lparr>ccServers = n\<rparr>"

definition cc_ask :: "CtrlClerk \<Rightarrow> 'q \<Rightarrow> (nat \<Rightarrow> 'q \<Rightarrow> 'a CtrlReply_scheme option) list \<Rightarrow> (nat \<times> 'a CtrlReply_scheme) option" where
  "cc_ask ck args calls = (if ccServers ck = 0 then None else ask_ctrlers (ccServers ck) 0 args calls)"

definition cc_Query :: "CtrlClerk \<Rightarrow> int \<Rightarrow> (nat \<Rightarrow> QueryArgs \<Rightarrow> QueryReply option) list \<Rightarrow> Config option" where
  "cc_Query ck num calls = map_option (\<lambda>(i, reply). qrConfig reply) (cc_ask ck \<lparr>qaNum = num\<rparr> calls)"

definition cc_Join :: "CtrlClerk \<Rightarrow> (int \<rightharpoonup> string list) \<Rightarrow> (nat \<Rightarrow> JoinArgs \<Rightarrow> CtrlReply option) list \<Rightarrow> unit option" where
  "cc_Join ck servers calls = map_option (\<lambda>_. ()) (cc_ask ck \<lparr>jaServers = servers\<rparr> calls)"

definition cc_Leave :: "CtrlClerk \<Rightarrow> int list \<Rightarrow> (nat \<Rightarrow> LeaveArgs \<Rightarrow> CtrlReply option) list \<Rightarrow> unit option" where
  "cc_Leave ck gids calls = map_option (\<lambda>_. ()) (cc_ask ck \<lparr>laGIDs = gids\<rparr> calls)"

definition cc_Move :: "CtrlClerk \<Rightarrow> int \<Rightarrow> int \<Rightarrow> (nat \<Rightarrow> MoveArgs \<Rightarrow> CtrlReply option) list \<Rightarrow> unit option" where
  "cc_Move ck shard gid calls = map_option (\<lambda>_. ()) (cc_ask ck \<lparr>maShard = shard, maGID = gid\<rparr> calls)"

section \<open>The sharded key/value service\<close>

datatype ShErr = ShOK | ShNoKey | ShWrongGroup | ShWrongLeader | ShZero

text \<open>\<open>ShZero\<close> is the empty string of a reply that no handler has filled in.\<close>

record ShPutAppendArgs =
  spKey :: string
  spValue :: string
  spOp :: string

record ShPutAppendReply =
  sprErr :: ShErr

record ShGetArgs =
  sgKey :: string

record ShGetReply =
  sgrErr :: ShErr
  sgrValue :: string

record ('c, 'b) ShardKV =
  skMe :: nat
  skRf :: "('c, 'b) Raft"
  skGid :: int
  skCtrlers :: nat
  skMaxraftstate :: int

definition sk_Get :: "('c, 'b) ShardKV \<Rightarrow> ShGetArgs \<Rightarrow> ShGetReply \<Rightarrow> ('c, 'b) ShardKV \<times> ShGetReply" where
  "sk_Get kv args reply = (kv, reply)"

definition sk_PutAppend :: "('c, 'b) ShardKV \<Rightarrow> ShPutAppendArgs \<Rightarrow> ShPutAppendReply \<Rightarrow> ('c, 'b) ShardKV \<times> ShPutAppendReply" where
  "sk_PutAppend kv args reply = (kv, reply)"

definition sk_Kill :: "('c, 'b) ShardKV \<Rightarrow> ('c, 'b) ShardKV" where
  "sk_Kill kv = kv\<lparr>skRf := Kill (skRf kv)\<rparr>"

definition sk_StartServer :: "nat \<Rightarrow> nat \<Rightarrow> ('c, 'b) Persister \<Rightarrow> int \<Rightarrow> int \<Rightarrow> nat \<Rightarrow> int \<Rightarrow> ('c, 'b) ShardKV option" where
  "sk_StartServer n i ps maxstate gid ctrlers now = do {
     rf \<leftarrow> Make n i ps now;
     Some \<lparr>skMe = i, skRf = rf, skGid = gid, skCtrlers = ctrlers, skMaxraftstate = maxstate\<rparr>
   }"

section \<open>The clerk of the sharded service\<close>

definition key2shard :: "string \<Rightarrow> nat" where
  "key2shard key = (let shard = (if length key > 0 then of_char (key ! 0) else 0) in shard mod NShards)"

record ShClerk =
  shSm :: CtrlClerk
  shConfig :: Config

definition sh_MakeClerk :: "nat \<Rightarrow> ShClerk" where
  "sh_MakeClerk ctrlers = \<lparr>shSm = cc_MakeClerk ctrlers, shConfig = zeroConfig\<rparr>"

text \<open>
  The inner loop over the servers of a group: \<open>good\<close> says which replies end the operation and \<open>wrong\<close> which
  end the loop. \<open>None\<close> means that a call has not returned.
\<close>

datatype 'r group_answer = Answer string 'r | TryAgain

fun ask_group :: "('r \<Rightarrow> bool) \<Rightarrow> ('r \<Rightarrow> bool) \<Rightarrow> 'q \<Rightarrow> string list \<Rightarrow> (string \<Rightarrow> 'q \<Rightarrow> 'r option) list \<Rightarrow> 'r group_answer option" where
  "ask_group good wrong args [] calls = Some TryAgain"
| "ask_group good wrong args (srv # srvs) [] = None"
| "ask_group good wrong args (srv # srvs) (call # calls) =
     (case call srv args of
        Some reply \<Rightarrow>
          if good reply then Some (Answer srv reply)
          else if wrong reply then Some TryAgain
          else ask_group good wrong args srvs calls
      | None \<Rightarrow> ask_group good wrong args srvs calls)"

text \<open>
  The outer loop, shared by \<^verbatim>\<open>Get\<close> and \<^verbatim>\<open>PutAppend\<close>: each iteration has the calls to the group and
  the calls of \<^verbatim>\<open>ck.sm.Query(-1)\<close> that follow if there was no answer.
\<close>

type_synonym ('q, 'r) iteration = "(string \<Rightarrow> 'q \<Rightarrow> 'r option) list \<times> (nat \<Rightarrow> QueryArgs \<Rightarrow> QueryReply option) list"

fun group_loop :: "('r \<Rightarrow> bool) \<Rightarrow> ('r \<Rightarrow> bool) \<Rightarrow> 'q \<Rightarrow> string \<Rightarrow> ShClerk \<Rightarrow> ('q, 'r) iteration list \<Rightarrow> (ShClerk \<times> string \<times> 'r) option" where
  "group_loop good wrong args key ck [] = None"
| "group_loop good wrong args key ck ((calls, qcalls) # its) = do {
     gid \<leftarrow> nth_int (cgShards (shConfig ck)) (int (key2shard key));
     ans \<leftarrow> (case cgGroups (shConfig ck) gid of Some servers \<Rightarrow> ask_group good wrong args servers calls | None \<Rightarrow> Some TryAgain);
     (case ans of
        Answer srv reply \<Rightarrow> Some (ck, srv, reply)
      | TryAgain \<Rightarrow> do {
          config \<leftarrow> cc_Query (shSm ck) (- 1) qcalls;
          group_loop good wrong args key (ck\<lparr>shConfig := config\<rparr>) its
        })
   }"

definition sh_Get :: "ShClerk \<Rightarrow> string \<Rightarrow> (ShGetArgs, ShGetReply) iteration list \<Rightarrow> (ShClerk \<times> string) option" where
  "sh_Get ck key its = do {
     (ck, srv, reply) \<leftarrow> group_loop (\<lambda>r. sgrErr r = ShOK \<or> sgrErr r = ShNoKey) (\<lambda>r. sgrErr r = ShWrongGroup) \<lparr>sgKey = key\<rparr> key ck its;
     Some (ck, sgrValue reply)
   }"

definition sh_PutAppend :: "ShClerk \<Rightarrow> string \<Rightarrow> string \<Rightarrow> string \<Rightarrow> (ShPutAppendArgs, ShPutAppendReply) iteration list \<Rightarrow> ShClerk option" where
  "sh_PutAppend ck key value op its =
     map_option fst (group_loop (\<lambda>r. sprErr r = ShOK) (\<lambda>r. sprErr r = ShWrongGroup) \<lparr>spKey = key, spValue = value, spOp = op\<rparr> key ck its)"

definition sh_Put :: "ShClerk \<Rightarrow> string \<Rightarrow> string \<Rightarrow> (ShPutAppendArgs, ShPutAppendReply) iteration list \<Rightarrow> ShClerk option" where
  "sh_Put ck key value its = sh_PutAppend ck key value ''Put'' its"

definition sh_Append :: "ShClerk \<Rightarrow> string \<Rightarrow> string \<Rightarrow> (ShPutAppendArgs, ShPutAppendReply) iteration list \<Rightarrow> ShClerk option" where
  "sh_Append ck key value its = sh_PutAppend ck key value ''Append'' its"

section \<open>Facts\<close>

text \<open>The group that a configuration makes responsible for a key.\<close>

definition responsible :: "Config \<Rightarrow> string \<Rightarrow> string list option" where
  "responsible cfg key = cgGroups cfg (cgShards cfg ! key2shard key)"

definition config_ok :: "Config \<Rightarrow> bool" where
  "config_ok cfg \<longleftrightarrow> length (cgShards cfg) = NShards"

lemma key2shard_bound: "key2shard key < NShards"
  by (simp add: key2shard_def NShards_def Let_def)

lemma nth_shard: "config_ok cfg \<Longrightarrow> nth_int (cgShards cfg) (int (key2shard key)) = Some (cgShards cfg ! key2shard key)"
  using key2shard_bound [of key] by (simp add: config_ok_def)

text \<open>A call of the operation to server \<open>srv\<close> had the reply \<open>r\<close>.\<close>

definition replied :: "(string \<Rightarrow> 'q \<Rightarrow> 'r option) list \<Rightarrow> string \<Rightarrow> 'q \<Rightarrow> 'r \<Rightarrow> bool" where
  "replied calls srv args r \<longleftrightarrow> (\<exists>call \<in> set calls. call srv args = Some r)"

lemma ask_group_answer:
  "ask_group good wrong args srvs calls = Some (Answer srv r) \<Longrightarrow> good r \<and> replied calls srv args r \<and> srv \<in> set srvs"
  by (induction good wrong args srvs calls rule: ask_group.induct) (auto simp: replied_def split: option.splits if_splits)

lemma ask_ctrlers_answer:
  "ask_ctrlers n i args calls = Some (j, r) \<Longrightarrow> i < n \<Longrightarrow> j < n \<and> (\<exists>call \<in> set calls. call j args = Some r) \<and> \<not> crWrongLeader r"
  by (induction n i args calls rule: ask_ctrlers.induct) (auto split: option.splits if_splits)

lemma cc_Query_answer:
  "cc_Query ck num calls = Some cfg \<Longrightarrow>
   \<exists>j < ccServers ck. \<exists>call \<in> set calls. \<exists>r. call j \<lparr>qaNum = num\<rparr> = Some r \<and> \<not> crWrongLeader r \<and> qrConfig r = cfg"
  by (auto simp: cc_Query_def cc_ask_def split: if_splits dest!: ask_ctrlers_answer)

text \<open>The configurations that a run of the outer loop can be told: answers of a controller to \<^verbatim>\<open>Query(-1)\<close>.\<close>

definition told :: "nat \<Rightarrow> ('q, 'r) iteration list \<Rightarrow> Config set" where
  "told n its = {qrConfig r | r j call calls qcalls. (calls, qcalls) \<in> set its \<and> call \<in> set qcalls \<and> j < n \<and>
     call j \<lparr>qaNum = - 1\<rparr> = Some r \<and> \<not> crWrongLeader r}"

lemma told_sub: "told n its \<subseteq> told n (it # its)"
  unfolding told_def by auto blast

lemma group_loop_answer:
  assumes "group_loop good wrong args key ck its = Some (ck', srv, r)" "config_ok (shConfig ck)" "\<forall>c \<in> told (ccServers (shSm ck)) its. config_ok c"
  shows "good r \<and> (\<exists>(calls, qcalls) \<in> set its. replied calls srv args r) \<and> shSm ck' = shSm ck \<and>
    shConfig ck' \<in> insert (shConfig ck) (told (ccServers (shSm ck)) its) \<and>
    (\<exists>servers. responsible (shConfig ck') key = Some servers \<and> srv \<in> set servers)"
  using assms
proof (induction good wrong args key ck its rule: group_loop.induct)
  case (2 good wrong args key ck calls qcalls its)
  let ?n = "ccServers (shSm ck)"
  have gid: "nth_int (cgShards (shConfig ck)) (int (key2shard key)) = Some (cgShards (shConfig ck) ! key2shard key)"
    by (rule nth_shard [OF 2(3)])
  have sub: "told ?n its \<subseteq> told ?n ((calls, qcalls) # its)" by (rule told_sub)
  obtain ans where ans: "(case cgGroups (shConfig ck) (cgShards (shConfig ck) ! key2shard key) of
      Some servers \<Rightarrow> ask_group good wrong args servers calls | None \<Rightarrow> Some TryAgain) = Some ans"
    using 2(2) gid by auto
  show ?case
  proof (cases ans)
    case (Answer s q)
    then have "ck' = ck" "s = srv" "q = r" using 2(2) gid ans by auto
    moreover obtain servers where "responsible (shConfig ck) key = Some servers" "ask_group good wrong args servers calls = Some (Answer srv r)"
      using ans Answer calculation by (auto simp: responsible_def split: option.splits)
    ultimately show ?thesis using ask_group_answer [of good wrong args servers calls srv r] by auto
  next
    case TryAgain
    then obtain config where c: "cc_Query (shSm ck) (- 1) qcalls = Some config"
      and rest: "group_loop good wrong args key (ck\<lparr>shConfig := config\<rparr>) its = Some (ck', srv, r)"
      using 2(2) gid ans by auto
    have mem: "config \<in> told ?n ((calls, qcalls) # its)" using cc_Query_answer [OF c] unfolding told_def by auto blast
    have "good r \<and> (\<exists>(calls, qcalls) \<in> set its. replied calls srv args r) \<and> shSm ck' = shSm (ck\<lparr>shConfig := config\<rparr>) \<and>
        shConfig ck' \<in> insert (shConfig (ck\<lparr>shConfig := config\<rparr>)) (told (ccServers (shSm (ck\<lparr>shConfig := config\<rparr>))) its) \<and>
        (\<exists>servers. responsible (shConfig ck') key = Some servers \<and> srv \<in> set servers)"
      by (rule 2(1) [OF gid ans TryAgain c rest]) (use 2(4) mem sub in auto)
    then show ?thesis using mem sub by auto
  qed
qed simp

section \<open>Properties\<close>

text \<open>
  C27. The clerk of the sharded service: when \<^verbatim>\<open>Get\<close> returns, it has called \<^verbatim>\<open>ShardKV.Get\<close> with its key on a server of the
  group that is responsible for the key in the configuration the clerk then has, the reply of that server was
  \<^verbatim>\<open>OK\<close> or \<^verbatim>\<open>ErrNoKey\<close>, and its value is the result. That configuration is the one the clerk had before or the
  answer of a controller to \<^verbatim>\<open>Query(-1)\<close>. (Configurations have their ten shards.)
\<close>

theorem shard_Get_asks_responsible_group:
  assumes "sh_Get ck key its = Some (ck', v)" "config_ok (shConfig ck)" "\<forall>c \<in> told (ccServers (shSm ck)) its. config_ok c"
  shows "\<exists>srv servers r calls qcalls. responsible (shConfig ck') key = Some servers \<and> srv \<in> set servers \<and>
    (calls, qcalls) \<in> set its \<and> replied calls srv \<lparr>sgKey = key\<rparr> r \<and> sgrErr r \<in> {ShOK, ShNoKey} \<and> sgrValue r = v \<and>
    shConfig ck' \<in> insert (shConfig ck) (told (ccServers (shSm ck)) its)"
proof -
  obtain srv r where g: "group_loop (\<lambda>r. sgrErr r = ShOK \<or> sgrErr r = ShNoKey) (\<lambda>r. sgrErr r = ShWrongGroup) \<lparr>sgKey = key\<rparr> key ck its =
      Some (ck', srv, r)"
    and v: "sgrValue r = v" using assms(1) by (auto simp: sh_Get_def)
  from group_loop_answer [OF g assms(2,3)] v show ?thesis by blast
qed

definition shard_config :: Config where
  "shard_config = \<lparr>cgNum = 1, cgShards = replicate 10 100, cgGroups = [100 \<mapsto> [''server-100-0'', ''server-100-1'']]\<rparr>"

text \<open>Controller 1 leads; server 1 of the group knows the key; another group would answer something else.\<close>

definition shard_query :: "nat \<Rightarrow> QueryArgs \<Rightarrow> QueryReply option" where
  "shard_query j args = (if j = 1 then Some \<lparr>crWrongLeader = False, crErr = ''OK'', qrConfig = shard_config\<rparr> else None)"

definition shard_call :: "string \<Rightarrow> ShGetArgs \<Rightarrow> ShGetReply option" where
  "shard_call srv args =
     (if srv = ''server-100-0'' then Some \<lparr>sgrErr = ShWrongLeader, sgrValue = []\<rparr>
      else if srv = ''server-100-1'' \<and> sgKey args = ''k'' then Some \<lparr>sgrErr = ShOK, sgrValue = ''v''\<rparr>
      else Some \<lparr>sgrErr = ShOK, sgrValue = ''other''\<rparr>)"

definition shard_its :: "(ShGetArgs, ShGetReply) iteration list" where
  "shard_its = [([], [shard_query, shard_query]), ([shard_call, shard_call], [])]"

lemma shard_run: "sh_Get (sh_MakeClerk 3) ''k'' shard_its = Some ((sh_MakeClerk 3)\<lparr>shConfig := shard_config\<rparr>, ''v'')"
  by (simp add: sh_Get_def shard_its_def sh_MakeClerk_def cc_MakeClerk_def zeroConfig_def NShards_def key2shard_def shard_config_def
      cc_Query_def cc_ask_def nth_int_def shard_query_def shard_call_def)

theorem shard_Get_asks_responsible_group_witness:
  "\<exists>srv r calls qcalls. srv \<in> {''server-100-0'', ''server-100-1''} \<and> (calls, qcalls) \<in> set shard_its \<and>
     replied calls srv \<lparr>sgKey = ''k''\<rparr> r \<and> sgrValue r = ''v''"
proof -
  have ok: "config_ok (shConfig (sh_MakeClerk 3))" by (simp add: sh_MakeClerk_def config_ok_def zeroConfig_def)
  have "\<forall>c \<in> told (ccServers (shSm (sh_MakeClerk 3))) shard_its. config_ok c"
    by (auto simp: told_def shard_its_def shard_query_def config_ok_def shard_config_def NShards_def split: if_splits)
  from shard_Get_asks_responsible_group [OF shard_run ok this]
  obtain srv servers r calls qcalls where g: "responsible shard_config ''k'' = Some servers" "srv \<in> set servers"
    "(calls, qcalls) \<in> set shard_its" "replied calls srv \<lparr>sgKey = ''k''\<rparr> r" "sgrValue r = ''v''"
    by auto
  moreover have "servers = [''server-100-0'', ''server-100-1'']"
    using g(1) by (auto simp: responsible_def shard_config_def split: if_splits)
  ultimately show ?thesis by auto
qed

text \<open>
  With the empty handlers of this repository the controller answers the zero configuration, which has no
  groups: a clerk then never gets an answer, however long it runs.
\<close>

lemma empty_controller_blocks_clerk:
  assumes "shConfig ck = zeroConfig" "told (ccServers (shSm ck)) its \<subseteq> {zeroConfig}"
  shows "group_loop good wrong args key ck its = None"
proof (rule ccontr)
  assume "group_loop good wrong args key ck its \<noteq> None"
  then obtain ck' srv r where g: "group_loop good wrong args key ck its = Some (ck', srv, r)" by auto
  have "config_ok zeroConfig" by (simp add: config_ok_def zeroConfig_def)
  then have "responsible (shConfig ck') key \<noteq> None" "shConfig ck' = zeroConfig"
    using group_loop_answer [OF g] assms by auto
  then show False by (simp add: responsible_def zeroConfig_def)
qed

end
