(* ===== verification/CtrlHarness.thy ===== *)
theory CtrlHarness
  imports KvHarnessProps Shard
begin

text \<open>
  The harness of the shard controller, \<^verbatim>\<open>shardctrler/config.go\<close>: the code of \<^verbatim>\<open>kvraft/config.go\<close>, for servers of
  type \<open>ShardCtrler\<close>, without the statistics of a test and without a bound on the size of the Raft state, and
  with a \<^verbatim>\<open>Leader\<close> that skips servers that are down. Each operation is that of \<^verbatim>\<open>KvHarness\<close> at this type.
\<close>

type_synonym ('c, 'b) ctrl_config = "(('c, 'b) ShardCtrler, 'c, 'b) kvconfig"

definition ctrl_start :: "nat \<Rightarrow> nat \<Rightarrow> ('c, 'b) Persister \<Rightarrow> int \<Rightarrow> int \<Rightarrow> ('c, 'b) ShardCtrler option" where
  "ctrl_start n i ps maxstate now = sc_StartServer n i ps now"

definition ctrl_checkTimeout :: "('c, 'b) ctrl_config \<Rightarrow> bool \<Rightarrow> int \<Rightarrow> bool" where
  "ctrl_checkTimeout cfg failed now = kc_checkTimeout cfg failed now"

definition ctrl_cleanup :: "('c, 'b) ctrl_config \<Rightarrow> bool \<Rightarrow> int \<Rightarrow> (('c, 'b) ctrl_config \<times> bool) option" where
  "ctrl_cleanup cfg failed now = kc_cleanup sc_Kill cfg failed now"

definition ctrl_LogSize :: "('c gob list \<Rightarrow> int) \<Rightarrow> ('c, 'b) ctrl_config \<Rightarrow> int option" where
  "ctrl_LogSize gobsize cfg = kc_LogSize gobsize sc_Raft cfg"

definition ctrl_connectUnlocked :: "('c, 'b) ctrl_config \<Rightarrow> nat \<Rightarrow> nat list \<Rightarrow> ('c, 'b) ctrl_config option" where
  "ctrl_connectUnlocked cfg i tos = connectUnlocked cfg i tos"

definition ctrl_disconnectUnlocked :: "('c, 'b) ctrl_config \<Rightarrow> nat \<Rightarrow> nat list \<Rightarrow> ('c, 'b) ctrl_config option" where
  "ctrl_disconnectUnlocked cfg i froms = disconnectUnlocked cfg i froms"

definition ctrl_ConnectAll :: "('c, 'b) ctrl_config \<Rightarrow> ('c, 'b) ctrl_config option" where
  "ctrl_ConnectAll cfg = ConnectAll cfg"

definition ctrl_partition :: "nat list \<Rightarrow> nat list \<Rightarrow> ('c, 'b) ctrl_config \<Rightarrow> ('c, 'b) ctrl_config option" where
  "ctrl_partition p1 p2 cfg = kc_partition p1 p2 cfg"

definition ctrl_makeClient :: "('c, 'b) ctrl_config \<Rightarrow> nat list \<Rightarrow> (nat \<Rightarrow> string) \<Rightarrow> nat \<Rightarrow> (nat \<Rightarrow> nat) \<Rightarrow>
    (('c, 'b) ctrl_config \<times> CtrlClerk \<times> nat list) option" where
  "ctrl_makeClient cfg tos names ck r =
     map_option (\<lambda>(cfg', order). (cfg', cc_MakeClerk (kcN cfg), order)) (makeClient cfg tos names ck r)"

definition ctrl_deleteClient :: "('c, 'b) ctrl_config \<Rightarrow> nat \<Rightarrow> ('c, 'b) ctrl_config" where
  "ctrl_deleteClient cfg ck = deleteClient cfg ck"

definition ctrl_ConnectClient :: "('c, 'b) ctrl_config \<Rightarrow> nat \<Rightarrow> nat list \<Rightarrow> ('c, 'b) ctrl_config option" where
  "ctrl_ConnectClient cfg ck tos = ConnectClientUnlocked cfg ck tos"

definition ctrl_DisconnectClient :: "('c, 'b) ctrl_config \<Rightarrow> nat \<Rightarrow> nat list \<Rightarrow> ('c, 'b) ctrl_config option" where
  "ctrl_DisconnectClient cfg ck froms = DisconnectClientUnlocked cfg ck froms"

definition ctrl_ShutdownServer :: "('c, 'b) ctrl_config \<Rightarrow> nat \<Rightarrow> (('c, 'b) ctrl_config \<times> ('c, 'b) ShardCtrler option) option" where
  "ctrl_ShutdownServer cfg i = ShutdownServer sc_Raft sc_Kill cfg i"

definition ctrl_StartServer :: "('c, 'b) ctrl_config \<Rightarrow> nat \<Rightarrow> (nat \<Rightarrow> string) \<Rightarrow> nat \<Rightarrow> int \<Rightarrow> ('c, 'b) ctrl_config option" where
  "ctrl_StartServer cfg i names srv now = StartServer sc_Raft ctrl_start cfg i names srv now"

text \<open>\<^verbatim>\<open>make_partition\<close> calls \<^verbatim>\<open>Leader\<close>, which is server 0 when there is no leader.\<close>

definition ctrl_make_partition :: "('c, 'b) ctrl_config \<Rightarrow> (nat list \<times> nat list) option" where
  "ctrl_make_partition cfg = (let (found, l) = sc_Leader sc_Raft cfg in make_partition (kcN cfg) l)"

definition ctrl_make_config :: "nat \<Rightarrow> bool \<Rightarrow> (nat \<Rightarrow> nat \<Rightarrow> string) \<Rightarrow> (nat \<Rightarrow> nat) \<Rightarrow> (nat \<Rightarrow> int) \<Rightarrow> int \<Rightarrow> ('c, 'b) ctrl_config option" where
  "ctrl_make_config n unreliable names srv now t = kc_make_config sc_Raft ctrl_start n unreliable 0 names srv now t"

section \<open>Facts\<close>

lemma sc_Leader_loop_found:
  "sc_Leader_loop i sts = (True, l) \<Longrightarrow> i \<le> l \<and> l < i + length sts \<and> sts ! (l - i) = Some True"
proof (induction i sts rule: sc_Leader_loop.induct)
  case (2 i st sts)
  then show ?case by (cases "l = i") (auto split: if_splits)
qed simp

lemma sc_Leader_loop_none: "sc_Leader_loop i sts = (False, l) \<Longrightarrow> l = 0 \<and> Some True \<notin> set sts"
  by (induction i sts rule: sc_Leader_loop.induct) (auto split: if_splits)

text \<open>\<^verbatim>\<open>Leader\<close> finds a running server that takes itself for the leader, and reports none only if there is none.\<close>

lemma ctrl_Leader:
  assumes "sc_Leader sc_Raft cfg = (found, l)"
  shows "if found then l < length (kcServers cfg) \<and> (\<exists>sc. kcServers cfg ! l = Some sc \<and> snd (GetState (sc_Raft sc)))
    else l = 0 \<and> (\<forall>sc. Some sc \<in> set (kcServers cfg) \<longrightarrow> \<not> snd (GetState (sc_Raft sc)))"
proof (cases found)
  case True
  with assms sc_Leader_loop_found [of 0 "map (map_option (\<lambda>kv. snd (GetState (sc_Raft kv)))) (kcServers cfg)" l]
  show ?thesis by (auto simp: sc_Leader_def)
next
  case False
  with assms sc_Leader_loop_none [of 0 "map (map_option (\<lambda>kv. snd (GetState (sc_Raft kv)))) (kcServers cfg)" l]
  show ?thesis by (force simp: sc_Leader_def)
qed

text \<open>A controller that is shut down and started again begins with what the old one had persisted.\<close>

lemma ctrl_restart:
  assumes "ctrl_ShutdownServer cfg i = Some (cfg1, gone)" "ctrl_StartServer cfg1 i names srv now = Some cfg2"
    and "i < length (kcServers cfg)" "i < length (kcSaved cfg)" "kcServers cfg ! i = Some sc"
  shows "\<exists>sc'. kcServers cfg2 ! i = Some sc' \<and> sc_StartServer (kcN cfg) i (persister (sc_Raft sc)) now = Some sc' \<and>
    gone = Some (sc_Kill sc)"
  using assms
  by (auto simp: ctrl_ShutdownServer_def ctrl_StartServer_def ShutdownServer_def StartServer_def disconnectUnlocked_def
      Let_def kc_saved_def ctrl_start_def Copy_def)

end
