(* ===== verification/ShardHarness.thy ===== *)
theory ShardHarness
  imports Shard LabRpc
begin

text \<open>
  The harness of the sharded service, \<^verbatim>\<open>shardkv/config.go\<close>: three controllers and three groups of servers on one
  network. End points and servers are known by strings. As in the other harnesses the persister in
  \<^verbatim>\<open>saved[i]\<close> is that of the running server, random names are arguments, and \<open>None\<close> is a panic or an
  exit.
\<close>

section \<open>State\<close>

record ('c, 'b) group =
  ggGid :: int
  ggServers :: "('c, 'b) ShardKV option list"
  ggSaved :: "('c, 'b) Persister option list"
  ggEndnames :: "string list list"
  ggMendnames :: "string list list"

record ('c, 'b) shconfig =
  hcNet :: "string Network"
  hcStart :: int
  hcNctrlers :: nat
  hcCtrlers :: "('c, 'b) ShardCtrler option list"
  hcMck :: "CtrlClerk option"
  hcNgroups :: nat
  hcN :: nat
  hcGroups :: "('c, 'b) group list"
  hcClerks :: "nat \<rightharpoonup> string list"
  hcNextClientId :: int
  hcMaxraftstate :: int

definition ctrlername :: "nat \<Rightarrow> string" where
  "ctrlername i = ''ctrler'' @ show_int (int i)"

definition servername :: "int \<Rightarrow> nat \<Rightarrow> string" where
  "servername gid i = ''server-'' @ show_int gid @ ''-'' @ show_int (int i)"

text \<open>The end points of a list of names and the servers they lead to, all enabled.\<close>

fun open_ends :: "(string \<times> string) list \<Rightarrow> string Network \<Rightarrow> string Network option" where
  "open_ends [] rn = Some rn"
| "open_ends ((name, srv) # es) rn = do {
     (rn, ce) \<leftarrow> MakeEnd rn name;
     open_ends es (Enable name True (Connect name srv rn))
   }"

text \<open>The function \<^verbatim>\<open>make_end\<close> that clerks and servers are given.\<close>

definition make_end :: "('c, 'b) shconfig \<Rightarrow> string \<Rightarrow> string \<Rightarrow> ('c, 'b) shconfig option" where
  "make_end cfg name srv = do { rn \<leftarrow> open_ends [(name, srv)] (hcNet cfg); Some (cfg\<lparr>hcNet := rn\<rparr>) }"

section \<open>Controllers and clerks\<close>

definition StartCtrlerserver :: "('c, 'b) shconfig \<Rightarrow> nat \<Rightarrow> (nat \<Rightarrow> string) \<Rightarrow> nat \<Rightarrow> int \<Rightarrow> ('c, 'b) shconfig option" where
  "StartCtrlerserver cfg i names srv now = do {
     rn \<leftarrow> open_ends (map (\<lambda>j. (names j, ctrlername j)) [0..<hcNctrlers cfg]) (hcNet cfg);
     let p = MakePersister;
     sc \<leftarrow> sc_StartServer (hcNctrlers cfg) i p now;
     ctrlers \<leftarrow> update_int (hcCtrlers cfg) (int i) (Some sc);
     Some (cfg\<lparr>hcCtrlers := ctrlers, hcNet := AddServer (ctrlername i) srv rn\<rparr>)
   }"

definition shardclerk :: "('c, 'b) shconfig \<Rightarrow> (nat \<Rightarrow> string) \<Rightarrow> (('c, 'b) shconfig \<times> CtrlClerk) option" where
  "shardclerk cfg names = do {
     rn \<leftarrow> open_ends (map (\<lambda>j. (names j, ctrlername j)) [0..<hcNctrlers cfg]) (hcNet cfg);
     Some (cfg\<lparr>hcNet := rn\<rparr>, cc_MakeClerk (hcNctrlers cfg))
   }"

text \<open>\<^verbatim>\<open>makeClient\<close> writes the names of \<^verbatim>\<open>nctrlers\<close> end points into a slice of length \<^verbatim>\<open>n\<close>.\<close>

fun fill_names :: "nat list \<Rightarrow> (nat \<Rightarrow> string) \<Rightarrow> string list \<Rightarrow> string list option" where
  "fill_names [] names row = Some row"
| "fill_names (j # js) names row = do { row \<leftarrow> update_int row (int j) (names j); fill_names js names row }"

definition sh_makeClient :: "('c, 'b) shconfig \<Rightarrow> (nat \<Rightarrow> string) \<Rightarrow> nat \<Rightarrow> (('c, 'b) shconfig \<times> ShClerk) option" where
  "sh_makeClient cfg names ck = do {
     endnames \<leftarrow> fill_names [0..<hcNctrlers cfg] names (replicate (hcN cfg) []);
     rn \<leftarrow> open_ends (map (\<lambda>j. (names j, ctrlername j)) [0..<hcNctrlers cfg]) (hcNet cfg);
     Some (cfg\<lparr>hcNet := rn, hcClerks := (hcClerks cfg)(ck \<mapsto> endnames), hcNextClientId := hcNextClientId cfg + 1\<rparr>,
           sh_MakeClerk (hcNctrlers cfg))
   }"

definition sh_deleteClient :: "('c, 'b) shconfig \<Rightarrow> nat \<Rightarrow> ('c, 'b) shconfig" where
  "sh_deleteClient cfg ck = cfg\<lparr>hcClerks := (hcClerks cfg)(ck := None)\<rparr>"

section \<open>Servers\<close>

definition sk_saved :: "('c, 'b) group \<Rightarrow> nat \<Rightarrow> ('c, 'b) Persister option" where
  "sk_saved gg i = (case ggServers gg ! i of Some kv \<Rightarrow> Some (persister (skRf kv)) | None \<Rightarrow> ggSaved gg ! i)"

text \<open>\<open>names\<close> and \<open>mnames\<close> are the random names of the end points to the group and to the controllers.\<close>

definition sh_StartServer :: "('c, 'b) shconfig \<Rightarrow> nat \<Rightarrow> nat \<Rightarrow> (nat \<Rightarrow> string) \<Rightarrow> (nat \<Rightarrow> string) \<Rightarrow> nat \<Rightarrow> int \<Rightarrow>
    ('c, 'b) shconfig option" where
  "sh_StartServer cfg gi i names mnames srv now = do {
     gg \<leftarrow> nth_int (hcGroups cfg) (int gi);
     endnames \<leftarrow> update_int (ggEndnames gg) (int i) (map names [0..<hcN cfg]);
     rn \<leftarrow> open_ends (map (\<lambda>j. (names j, servername (ggGid gg) j)) [0..<hcN cfg]) (hcNet cfg);
     mendnames \<leftarrow> update_int (ggMendnames gg) (int i) (map mnames [0..<hcNctrlers cfg]);
     rn \<leftarrow> open_ends (map (\<lambda>j. (mnames j, ctrlername j)) [0..<hcNctrlers cfg]) rn;
     let ps = (case sk_saved gg i of Some ps \<Rightarrow> Copy ps | None \<Rightarrow> MakePersister);
     kv \<leftarrow> sk_StartServer (hcN cfg) i ps (hcMaxraftstate cfg) (ggGid gg) (hcNctrlers cfg) now;
     let gg = gg\<lparr>ggEndnames := endnames, ggMendnames := mendnames, ggSaved := (ggSaved gg)[i := Some ps],
                 ggServers := (ggServers gg)[i := Some kv]\<rparr>;
     Some (cfg\<lparr>hcGroups := (hcGroups cfg)[gi := gg], hcNet := AddServer (servername (ggGid gg) i) srv rn\<rparr>)
   }"

fun sh_start_each :: "nat list \<Rightarrow> nat \<Rightarrow> (nat \<Rightarrow> nat \<Rightarrow> string) \<Rightarrow> (nat \<Rightarrow> nat \<Rightarrow> string) \<Rightarrow> (nat \<Rightarrow> nat) \<Rightarrow> (nat \<Rightarrow> int) \<Rightarrow>
    ('c, 'b) shconfig \<Rightarrow> ('c, 'b) shconfig option" where
  "sh_start_each [] gi names mnames srv now cfg = Some cfg"
| "sh_start_each (i # is) gi names mnames srv now cfg = do {
     cfg \<leftarrow> sh_StartServer cfg gi i (names i) (mnames i) (srv i) (now i);
     sh_start_each is gi names mnames srv now cfg
   }"

definition StartGroup :: "nat \<Rightarrow> (nat \<Rightarrow> nat \<Rightarrow> string) \<Rightarrow> (nat \<Rightarrow> nat \<Rightarrow> string) \<Rightarrow> (nat \<Rightarrow> nat) \<Rightarrow> (nat \<Rightarrow> int) \<Rightarrow>
    ('c, 'b) shconfig \<Rightarrow> ('c, 'b) shconfig option" where
  "StartGroup gi names mnames srv now cfg = sh_start_each [0..<hcN cfg] gi names mnames srv now cfg"

text \<open>\<^verbatim>\<open>ShutdownServer\<close>, with the killed server, to which nothing refers any more.\<close>

definition sh_ShutdownServer :: "('c, 'b) shconfig \<Rightarrow> nat \<Rightarrow> nat \<Rightarrow> (('c, 'b) shconfig \<times> ('c, 'b) ShardKV option) option" where
  "sh_ShutdownServer cfg gi i = do {
     gg \<leftarrow> nth_int (hcGroups cfg) (int gi);
     row \<leftarrow> nth_int (ggEndnames gg) (int i);
     es \<leftarrow> those (map (\<lambda>j. nth_int row (int j)) [0..<length (ggServers gg)]);
     mrow \<leftarrow> nth_int (ggMendnames gg) (int i);
     let rn = fold (\<lambda>e. Enable e False) (es @ mrow) (hcNet cfg);
     let rn = DeleteServer (servername (ggGid gg) i) rn;
     let copied = map_option Copy (sk_saved gg i);
     let gone = map_option sk_Kill (ggServers gg ! i);
     let gg = gg\<lparr>ggSaved := (ggSaved gg)[i := copied], ggServers := (ggServers gg)[i := None]\<rparr>;
     Some (cfg\<lparr>hcGroups := (hcGroups cfg)[gi := gg], hcNet := rn\<rparr>, gone)
   }"

fun shutdown_each :: "nat list \<Rightarrow> nat \<Rightarrow> ('c, 'b) shconfig \<Rightarrow> ('c, 'b) shconfig option" where
  "shutdown_each [] gi cfg = Some cfg"
| "shutdown_each (i # is) gi cfg = do {
     (cfg, gone) \<leftarrow> sh_ShutdownServer cfg gi i;
     shutdown_each is gi cfg
   }"

definition ShutdownGroup :: "nat \<Rightarrow> ('c, 'b) shconfig \<Rightarrow> ('c, 'b) shconfig option" where
  "ShutdownGroup gi cfg = shutdown_each [0..<hcN cfg] gi cfg"

fun shutdown_groups :: "nat list \<Rightarrow> ('c, 'b) shconfig \<Rightarrow> ('c, 'b) shconfig option" where
  "shutdown_groups [] cfg = Some cfg"
| "shutdown_groups (gi # gis) cfg = do { cfg \<leftarrow> ShutdownGroup gi cfg; shutdown_groups gis cfg }"

text \<open>\<open>True\<close> is the \<^verbatim>\<open>t.Fatal\<close> of a test that took too long; times are in nanoseconds.\<close>

definition sh_checkTimeout :: "('c, 'b) shconfig \<Rightarrow> bool \<Rightarrow> int \<Rightarrow> bool" where
  "sh_checkTimeout cfg failed now = (\<not> failed \<and> now - hcStart cfg > 120 * 1000000000)"

definition sh_cleanup :: "('c, 'b) shconfig \<Rightarrow> bool \<Rightarrow> int \<Rightarrow> (('c, 'b) shconfig \<times> bool) option" where
  "sh_cleanup cfg failed now = do {
     cfg \<leftarrow> shutdown_groups [0..<hcNgroups cfg] cfg;
     ctrlers \<leftarrow> those (hcCtrlers cfg);
     let cfg = cfg\<lparr>hcCtrlers := map (\<lambda>sc. Some (sc_Kill sc)) ctrlers\<rparr>;
     rn \<leftarrow> Cleanup (hcNet cfg);
     Some (cfg\<lparr>hcNet := rn\<rparr>, sh_checkTimeout cfg failed now)
   }"

text \<open>The complaints of \<^verbatim>\<open>checklogs\<close>; \<open>None\<close> is a nil persister.\<close>

datatype log_verdict = LogsFine | LogTooBig int | UnexpectedSnapshot

fun checklogs_loop :: "('c gob list \<Rightarrow> int) \<Rightarrow> int \<Rightarrow> ('c, 'b) Persister option list \<Rightarrow> log_verdict option" where
  "checklogs_loop gobsize maxstate [] = Some LogsFine"
| "checklogs_loop gobsize maxstate (None # ps) = None"
| "checklogs_loop gobsize maxstate (Some p # ps) =
     (let rsize = RaftStateSize gobsize p; snap = length (ReadSnapshot p) in
      if maxstate \<ge> 0 \<and> rsize > 8 * maxstate then Some (LogTooBig rsize)
      else if maxstate < 0 \<and> snap > 0 then Some UnexpectedSnapshot
      else checklogs_loop gobsize maxstate ps)"

definition checklogs :: "('c gob list \<Rightarrow> int) \<Rightarrow> ('c, 'b) shconfig \<Rightarrow> log_verdict option" where
  "checklogs gobsize cfg = do {
     ggs \<leftarrow> those (map (\<lambda>gi. nth_int (hcGroups cfg) (int gi)) [0..<hcNgroups cfg]);
     checklogs_loop gobsize (hcMaxraftstate cfg) (concat (map (\<lambda>gg. map (sk_saved gg) [0..<hcN cfg]) ggs))
   }"

section \<open>Joining and leaving\<close>

fun join_map :: "int list \<Rightarrow> nat \<Rightarrow> (int \<rightharpoonup> string list) \<Rightarrow> (int \<rightharpoonup> string list)" where
  "join_map [] n m = m"
| "join_map (gid # gids) n m = join_map gids n (m(gid \<mapsto> map (servername gid) [0..<n]))"

definition gids_of :: "('c, 'b) shconfig \<Rightarrow> nat list \<Rightarrow> int list option" where
  "gids_of cfg gis = those (map (\<lambda>g. map_option ggGid (nth_int (hcGroups cfg) (int g))) gis)"

text \<open>The outer \<open>option\<close> is a panic, the inner one a clerk that is still waiting for its answer.\<close>

definition joinm :: "('c, 'b) shconfig \<Rightarrow> nat list \<Rightarrow> (nat \<Rightarrow> JoinArgs \<Rightarrow> CtrlReply option) list \<Rightarrow> unit option option" where
  "joinm cfg gis calls = do {
     gids \<leftarrow> gids_of cfg gis;
     mck \<leftarrow> hcMck cfg;
     Some (cc_Join mck (join_map gids (hcN cfg) Map.empty) calls)
   }"

definition sh_join :: "('c, 'b) shconfig \<Rightarrow> nat \<Rightarrow> (nat \<Rightarrow> JoinArgs \<Rightarrow> CtrlReply option) list \<Rightarrow> unit option option" where
  "sh_join cfg gi calls = joinm cfg [gi] calls"

definition leavem :: "('c, 'b) shconfig \<Rightarrow> nat list \<Rightarrow> (nat \<Rightarrow> LeaveArgs \<Rightarrow> CtrlReply option) list \<Rightarrow> unit option option" where
  "leavem cfg gis calls = do {
     gids \<leftarrow> gids_of cfg gis;
     mck \<leftarrow> hcMck cfg;
     Some (cc_Leave mck gids calls)
   }"

definition sh_leave :: "('c, 'b) shconfig \<Rightarrow> nat \<Rightarrow> (nat \<Rightarrow> LeaveArgs \<Rightarrow> CtrlReply option) list \<Rightarrow> unit option option" where
  "sh_leave cfg gi calls = leavem cfg [gi] calls"

section \<open>Building it all\<close>

fun start_ctrlers :: "nat list \<Rightarrow> (nat \<Rightarrow> nat \<Rightarrow> string) \<Rightarrow> (nat \<Rightarrow> nat) \<Rightarrow> (nat \<Rightarrow> int) \<Rightarrow> ('c, 'b) shconfig \<Rightarrow> ('c, 'b) shconfig option" where
  "start_ctrlers [] names srv now cfg = Some cfg"
| "start_ctrlers (i # is) names srv now cfg = do {
     cfg \<leftarrow> StartCtrlerserver cfg i (names i) (srv i) (now i);
     start_ctrlers is names srv now cfg
   }"

text \<open>A new group; \<^verbatim>\<open>mendnames\<close> has one row per controller, not one per server.\<close>

definition new_group :: "nat \<Rightarrow> nat \<Rightarrow> nat \<Rightarrow> ('c, 'b) group" where
  "new_group gi n nctrlers = \<lparr>ggGid = 100 + int gi, ggServers = replicate n None, ggSaved = replicate n None,
     ggEndnames = replicate n [], ggMendnames = replicate nctrlers []\<rparr>"

fun start_groups :: "nat list \<Rightarrow> (nat \<Rightarrow> nat \<Rightarrow> nat \<Rightarrow> string) \<Rightarrow> (nat \<Rightarrow> nat \<Rightarrow> nat \<Rightarrow> string) \<Rightarrow> (nat \<Rightarrow> nat \<Rightarrow> nat) \<Rightarrow> (nat \<Rightarrow> nat \<Rightarrow> int) \<Rightarrow>
    ('c, 'b) shconfig \<Rightarrow> ('c, 'b) shconfig option" where
  "start_groups [] names mnames srv now cfg = Some cfg"
| "start_groups (gi # gis) names mnames srv now cfg = do {
     groups \<leftarrow> update_int (hcGroups cfg) (int gi) (new_group gi (hcN cfg) (hcNctrlers cfg));
     cfg \<leftarrow> sh_start_each [0..<hcN cfg] gi (names gi) (mnames gi) (srv gi) (now gi) (cfg\<lparr>hcGroups := groups\<rparr>);
     start_groups gis names mnames srv now cfg
   }"

text \<open>
  \<^verbatim>\<open>make_config\<close>: \<open>cnames\<close>, \<open>csrv\<close> and \<open>cnow\<close> are what the controllers draw, \<open>knames\<close> the names of the controller
  clerk, the other functions what the servers of each group draw. \<^verbatim>\<open>groups\<close> holds nil pointers before
  the loop sets them.
\<close>

definition sh_make_config :: "nat \<Rightarrow> bool \<Rightarrow> int \<Rightarrow> (nat \<Rightarrow> nat \<Rightarrow> string) \<Rightarrow> (nat \<Rightarrow> nat) \<Rightarrow> (nat \<Rightarrow> int) \<Rightarrow> (nat \<Rightarrow> string) \<Rightarrow>
    (nat \<Rightarrow> nat \<Rightarrow> nat \<Rightarrow> string) \<Rightarrow> (nat \<Rightarrow> nat \<Rightarrow> nat \<Rightarrow> string) \<Rightarrow> (nat \<Rightarrow> nat \<Rightarrow> nat) \<Rightarrow> (nat \<Rightarrow> nat \<Rightarrow> int) \<Rightarrow> int \<Rightarrow>
    ('c, 'b) shconfig option" where
  "sh_make_config n unreliable maxstate cnames csrv cnow knames names mnames srv now t = do {
     let cfg = \<lparr>hcNet = MakeNetwork, hcStart = t, hcNctrlers = 3, hcCtrlers = replicate 3 None, hcMck = None, hcNgroups = 3,
                hcN = n, hcGroups = replicate 3 (new_group 0 0 0), hcClerks = Map.empty, hcNextClientId = int n + 1000,
                hcMaxraftstate = maxstate\<rparr>;
     cfg \<leftarrow> start_ctrlers [0..<3] cnames csrv cnow cfg;
     (cfg, mck) \<leftarrow> shardclerk cfg knames;
     let cfg = cfg\<lparr>hcMck := Some mck\<rparr>;
     cfg \<leftarrow> start_groups [0..<3] names mnames srv now cfg;
     Some (cfg\<lparr>hcNet := Reliable (\<not> unreliable) (hcNet cfg)\<rparr>)
   }"

section \<open>Names\<close>

lemma dash_split: "CHR ''-'' \<notin> set xs \<Longrightarrow> CHR ''-'' \<notin> set xs' \<Longrightarrow> xs @ CHR ''-'' # ys = xs' @ CHR ''-'' # ys' \<Longrightarrow> xs = xs' \<and> ys = ys'"
proof -
  assume d: "CHR ''-'' \<notin> set xs" "CHR ''-'' \<notin> set xs'" and e: "xs @ CHR ''-'' # ys = xs' @ CHR ''-'' # ys'"
  have t: "takeWhile (\<lambda>c. c \<noteq> CHR ''-'') (zs @ CHR ''-'' # ws) = zs" if "CHR ''-'' \<notin> set zs" for zs ws
    using that by (induction zs) auto
  have "xs = xs'" using arg_cong [OF e, of "takeWhile (\<lambda>c. c \<noteq> CHR ''-'')"] unfolding t [OF d(1)] t [OF d(2)] .
  then show ?thesis using e by simp
qed

lemma show_nonneg_no_dash: "0 \<le> i \<Longrightarrow> CHR ''-'' \<notin> set (show_int i)"
  using show_nat_chars [of "CHR ''-''" "nat i"] by (auto simp: show_int_def)

lemma servername_inj:
  assumes "0 \<le> g" "0 \<le> g'" "servername g i = servername g' i'"
  shows "g = g' \<and> i = i'"
proof -
  have "show_int g @ CHR ''-'' # show_int (int i) = show_int g' @ CHR ''-'' # show_int (int i')" using assms(3) by (simp add: servername_def)
  then have "show_int g = show_int g'" "show_int (int i) = show_int (int i')"
    using dash_split [OF show_nonneg_no_dash [OF assms(1)] show_nonneg_no_dash [OF assms(2)]] by auto
  then show ?thesis by (auto dest!: show_int_inj)
qed

lemma ctrlername_inj: "ctrlername i = ctrlername j \<Longrightarrow> i = j"
  by (auto simp: ctrlername_def dest!: show_int_inj)

lemma ctrlername_servername: "ctrlername i \<noteq> servername g j"
  by (simp add: ctrlername_def servername_def)

section \<open>The size of the groups\<close>

lemma fill_names_bound: "fill_names js names row = Some row' \<Longrightarrow> j \<in> set js \<Longrightarrow> j < length row"
proof (induction js arbitrary: row)
  case (Cons k js)
  then obtain row1 where r: "update_int row (int k) (names k) = Some row1" "fill_names js names row1 = Some row'" by auto
  then have "k < length row" "length row1 = length row" by (auto simp: update_int_Some_iff)
  then show ?case using Cons.IH [OF r(2)] Cons.prems(2) by auto
qed simp

lemma sh_StartServer_rows:
  assumes "sh_StartServer cfg gi i names mnames srv now = Some cfg'"
  shows "gi < length (hcGroups cfg) \<and> i < length (ggMendnames (hcGroups cfg ! gi)) \<and> length (hcGroups cfg') = length (hcGroups cfg) \<and>
    length (ggMendnames (hcGroups cfg' ! gi)) = length (ggMendnames (hcGroups cfg ! gi)) \<and> hcN cfg' = hcN cfg \<and> hcNctrlers cfg' = hcNctrlers cfg"
  using assms by (auto simp: sh_StartServer_def Let_def nth_int_Some_iff update_int_Some_iff)

lemma sh_start_each_rows:
  "sh_start_each is gi names mnames srv now cfg = Some cfg' \<Longrightarrow> i \<in> set is \<Longrightarrow> i < length (ggMendnames (hcGroups cfg ! gi))"
proof (induction "is" arbitrary: cfg)
  case (Cons k "is")
  then obtain c1 where c: "sh_StartServer cfg gi k (names k) (mnames k) (srv k) (now k) = Some c1" "sh_start_each is gi names mnames srv now c1 = Some cfg'" by auto
  show ?case using sh_StartServer_rows [OF c(1)] Cons.IH [OF c(2)] Cons.prems(2) by auto
qed simp

lemma sh_start_each_size:
  "sh_start_each is gi names mnames srv now cfg = Some cfg' \<Longrightarrow> hcN cfg' = hcN cfg \<and> hcNctrlers cfg' = hcNctrlers cfg"
proof (induction "is" arbitrary: cfg)
  case (Cons k "is")
  then obtain c1 where c: "sh_StartServer cfg gi k (names k) (mnames k) (srv k) (now k) = Some c1" "sh_start_each is gi names mnames srv now c1 = Some cfg'" by auto
  show ?case using sh_StartServer_rows [OF c(1)] Cons.IH [OF c(2)] by auto
qed simp

lemma start_groups_size:
  "start_groups gis names mnames srv now cfg = Some cfg' \<Longrightarrow> hcN cfg' = hcN cfg \<and> hcNctrlers cfg' = hcNctrlers cfg"
proof (induction gis arbitrary: cfg)
  case (Cons gi gis)
  then obtain gs c1 where c: "sh_start_each [0..<hcN cfg] gi (names gi) (mnames gi) (srv gi) (now gi) (cfg\<lparr>hcGroups := gs\<rparr>) = Some c1"
    "start_groups gis names mnames srv now c1 = Some cfg'" by auto
  show ?case using sh_start_each_size [OF c(1)] Cons.IH [OF c(2)] by simp
qed simp

lemma start_groups_bound:
  assumes "start_groups (gi # gis) names mnames srv now cfg = Some cfg'" "i < hcN cfg"
  shows "i < hcNctrlers cfg"
proof -
  obtain gs c1 where g: "gs = (hcGroups cfg)[gi := new_group gi (hcN cfg) (hcNctrlers cfg)]" "gi < length (hcGroups cfg)"
    and c: "sh_start_each [0..<hcN cfg] gi (names gi) (mnames gi) (srv gi) (now gi) (cfg\<lparr>hcGroups := gs\<rparr>) = Some c1"
    using assms(1) by (auto simp: update_int_Some_iff)
  show ?thesis using sh_start_each_rows [OF c, of i] assms(2) g by (simp add: new_group_def)
qed

lemma start_ctrlers_size: "start_ctrlers is names srv now cfg = Some cfg' \<Longrightarrow> hcN cfg' = hcN cfg \<and> hcNctrlers cfg' = hcNctrlers cfg"
proof (induction "is" arbitrary: cfg)
  case (Cons i "is")
  then obtain c1 where c: "StartCtrlerserver cfg i (names i) (srv i) (now i) = Some c1" "start_ctrlers is names srv now c1 = Some cfg'" by auto
  have "hcN c1 = hcN cfg \<and> hcNctrlers c1 = hcNctrlers cfg" using c(1) by (auto simp: StartCtrlerserver_def Let_def)
  then show ?case using Cons.IH [OF c(2)] by simp
qed simp

text \<open>
  C28. The harness of the sharded service works for groups of three servers only: when \<^verbatim>\<open>make_config\<close> returns and
  \<^verbatim>\<open>makeClient\<close> then returns, the groups have three servers. With more, \<^verbatim>\<open>StartServer\<close> writes past the end of
  \<^verbatim>\<open>mendnames\<close>, which has a row for each of the three controllers; with fewer, \<^verbatim>\<open>makeClient\<close> writes
  past the end of \<^verbatim>\<open>endnames\<close>, which has an entry for each server.
\<close>

theorem shard_harness_needs_three:
  assumes "sh_make_config n unrel maxstate cnames csrv cnow knames names mnames srv now t = Some cfg" "sh_makeClient cfg names' ck = Some (cfg', clerk)"
  shows "n = 3"
proof -
  obtain c0 c1 c2 mck where c: "hcN c0 = n" "hcNctrlers c0 = 3" "start_ctrlers [0..<3] cnames csrv cnow c0 = Some c1"
    "shardclerk c1 knames = Some (c2, mck)" "\<exists>c3. start_groups [0..<3] names mnames srv now (c2\<lparr>hcMck := Some mck\<rparr>) = Some c3 \<and>
      cfg = c3\<lparr>hcNet := Reliable (\<not> unrel) (hcNet c3)\<rparr>"
  proof -
    define c0 :: "('a, 'b) shconfig" where "c0 = \<lparr>hcNet = MakeNetwork, hcStart = t, hcNctrlers = 3, hcCtrlers = replicate 3 None, hcMck = None, hcNgroups = 3,
                hcN = n, hcGroups = replicate 3 (new_group 0 0 0), hcClerks = Map.empty, hcNextClientId = int n + 1000,
                hcMaxraftstate = maxstate\<rparr>"
    from assms(1) show ?thesis
      unfolding sh_make_config_def Let_def c0_def [symmetric]
      by (auto intro!: that [of c0] simp: c0_def)
  qed
  then obtain c3 where c3: "start_groups [0..<3] names mnames srv now (c2\<lparr>hcMck := Some mck\<rparr>) = Some c3" "cfg = c3\<lparr>hcNet := Reliable (\<not> unrel) (hcNet c3)\<rparr>"
    by blast
  have 2: "hcN c2 = n" "hcNctrlers c2 = 3" using start_ctrlers_size [OF c(3)] c(1,2,4) by (auto simp: shardclerk_def)
  have list: "[0..<3] = 0 # [1..<3::nat]" by (simp add: upt_rec)
  have "i < n \<Longrightarrow> i < 3" for i using start_groups_bound [OF c3(1) [unfolded list], of i] 2 by simp
  then have le: "n \<le> 3" by (meson leI less_irrefl)
  have 3: "hcN cfg = n" "hcNctrlers cfg = 3" using start_groups_size [OF c3(1)] 2 c3(2) by auto
  obtain row where "fill_names [0..<3] names' (replicate n []) = Some row" using assms(2) 3 by (auto simp: sh_makeClient_def)
  then have "2 < n" using fill_names_bound [of "[0..<3]" names' "replicate n []" row 2] by simp
  then show ?thesis using le by simp
qed

definition sh_name :: "nat \<Rightarrow> nat \<Rightarrow> nat \<Rightarrow> nat \<Rightarrow> string" where
  "sh_name kind gi i j = [char_of kind, char_of gi, char_of i, char_of j]"

definition sh_config0 :: "(nat, nat) shconfig" where
  "sh_config0 = the (sh_make_config 3 False (- 1) (sh_name 0 0) id (\<lambda>_. 0) (sh_name 1 0 0) (sh_name 2) (sh_name 3) (\<lambda>gi i. 10 * gi + i) (\<lambda>_ _. 0) 0)"

lemma sh_config0_runs:
  "sh_make_config 3 False (- 1) (sh_name 0 0) id (\<lambda>_. 0) (sh_name 1 0 0) (sh_name 2) (sh_name 3) (\<lambda>gi i. 10 * gi + i) (\<lambda>_ _. 0) 0 \<noteq>
     (None :: (nat, nat) shconfig option)"
  "sh_makeClient sh_config0 (sh_name 4 0 0) 0 \<noteq> None"
  by code_simp+

theorem shard_harness_needs_three_witness:
  "\<exists>n cfg r. sh_make_config n False (- 1) (sh_name 0 0) id (\<lambda>_. 0) (sh_name 1 0 0) (sh_name 2) (sh_name 3) (\<lambda>gi i. 10 * gi + i) (\<lambda>_ _. 0) 0 =
       Some (cfg :: (nat, nat) shconfig) \<and> sh_makeClient cfg (sh_name 4 0 0) 0 = Some r \<and> n = 3"
proof -
  have made: "sh_make_config 3 False (- 1) (sh_name 0 0) id (\<lambda>_. 0) (sh_name 1 0 0) (sh_name 2) (sh_name 3) (\<lambda>gi i. 10 * gi + i) (\<lambda>_ _. 0) 0 = Some sh_config0"
    using sh_config0_runs(1) by (auto simp: sh_config0_def)
  obtain cfg' ck where client: "sh_makeClient sh_config0 (sh_name 4 0 0) 0 = Some (cfg', ck)" using sh_config0_runs(2) by auto
  show ?thesis
    by (intro exI conjI) (rule made, rule client, rule shard_harness_needs_three [OF made client])
qed

end
