(* ===== verification/MrCoordinator.thy ===== *)
theory MrCoordinator
  imports Prelude
begin

text \<open>
  The MapReduce coordinator, \<^verbatim>\<open>mr/coordinator.go\<close>, with the RPC structs of \<^verbatim>\<open>mr/rpc.go\<close>.
  A slice of pointers is a list of options, \<open>None\<close> for nil; reading through nil, or an index out
  of range, is a panic and gives \<open>None\<close>. Time is in nanoseconds and an argument \<open>now\<close>.
\<close>

section \<open>rpc.go\<close>

datatype TaskType = TaskNone | TaskMap | TaskReduce | TaskExit

record TaskAssignment =
  taTaskType :: TaskType
  taFilename :: string
  taLowerX :: int
  taLowerY :: int
  taX :: int
  taY :: int

record TaskCompletion =
  tcLowerX :: int
  tcLowerY :: int

section \<open>State\<close>

definition Second :: int where
  "Second = 1000000000"

datatype TaskStatus = Todo | Doing | Done

record MapTask =
  mtFilename :: string
  mtStatus :: TaskStatus
  mtAssignedAt :: int

record ReduceTask =
  rtStatus :: TaskStatus
  rtAssignedAt :: int

record Coordinator =
  phase :: int
  mapTask :: "MapTask option list"
  reduceTask :: "ReduceTask option list"
  capX :: int
  capY :: int

text \<open>\<^verbatim>\<open>&MapTask{filename: fname}\<close> and \<^verbatim>\<open>&ReduceTask{}\<close>: the other fields are zero.\<close>

definition newMapTask :: "string \<Rightarrow> MapTask" where
  "newMapTask fname = \<lparr>mtFilename = fname, mtStatus = Todo, mtAssignedAt = 0\<rparr>"

definition newReduceTask :: ReduceTask where
  "newReduceTask = \<lparr>rtStatus = Todo, rtAssignedAt = 0\<rparr>"

section \<open>Operations\<close>

fun fill_maps :: "MapTask option list \<Rightarrow> int \<Rightarrow> string list \<Rightarrow> MapTask option list option" where
  "fill_maps ts x [] = Some ts"
| "fill_maps ts x (fname # fnames) = do {
     ts \<leftarrow> update_int ts x (Some (newMapTask fname));
     fill_maps ts (x + 1) fnames
   }"

definition MakeCoordinator :: "string list \<Rightarrow> nat \<Rightarrow> Coordinator option" where
  "MakeCoordinator fnames nReduce = do {
     let fileNum = length fnames;
     maps \<leftarrow> fill_maps (replicate (fileNum + 1) None) 1 fnames;
     Some \<lparr>phase = 0, mapTask = maps, reduceTask = replicate (nReduce + 1) None,
           capX = int fileNum, capY = int nReduce\<rparr>
   }"

function fillReduce_loop :: "Coordinator \<Rightarrow> int \<Rightarrow> Coordinator option" where
  "fillReduce_loop c y =
     (if y \<le> capY c then do {
        ts \<leftarrow> update_int (reduceTask c) y (Some newReduceTask);
        fillReduce_loop (c\<lparr>reduceTask := ts\<rparr>) (y + 1)
      } else Some c)"
  by pat_completeness auto
termination
  by (relation "measure (\<lambda>(c, y). nat (capY c + 1 - y))") auto

declare fillReduce_loop.simps [simp del]

definition fillReduce :: "Coordinator \<Rightarrow> Coordinator option" where
  "fillReduce c = fillReduce_loop c 1"

text \<open>\<^verbatim>\<open>c.mapTask[x]\<close>, dereferenced, and assignments through it.\<close>

definition the_map :: "Coordinator \<Rightarrow> int \<Rightarrow> MapTask option" where
  "the_map c x = Option.bind (nth_int (mapTask c) x) (\<lambda>t. t)"

definition the_reduce :: "Coordinator \<Rightarrow> int \<Rightarrow> ReduceTask option" where
  "the_reduce c y = Option.bind (nth_int (reduceTask c) y) (\<lambda>t. t)"

definition set_map :: "Coordinator \<Rightarrow> int \<Rightarrow> MapTask \<Rightarrow> Coordinator" where
  "set_map c x t = c\<lparr>mapTask := (mapTask c)[nat x := Some t]\<rparr>"

definition set_reduce :: "Coordinator \<Rightarrow> int \<Rightarrow> ReduceTask \<Rightarrow> Coordinator" where
  "set_reduce c y t = c\<lparr>reduceTask := (reduceTask c)[nat y := Some t]\<rparr>"

text \<open>
  The scanning loops of \<^verbatim>\<open>fetchMap\<close> and \<^verbatim>\<open>fetchReduce\<close>. The result is the coordinator, the
  index returned from inside the loop or 0 when it runs to its end, and \<^verbatim>\<open>taskLeft\<close>.
\<close>

function fetchMap_loop :: "int \<Rightarrow> Coordinator \<Rightarrow> int \<Rightarrow> int \<Rightarrow> (Coordinator \<times> int \<times> int) option" where
  "fetchMap_loop now c x taskLeft =
     (if x \<le> capX c then do {
        tp \<leftarrow> the_map c x;
        (case mtStatus tp of
           Todo \<Rightarrow> Some (c, x, taskLeft)
         | Doing \<Rightarrow> if now - mtAssignedAt tp > 15 * Second
                    then Some (set_map c x (tp\<lparr>mtStatus := Todo\<rparr>), x, taskLeft)
                    else fetchMap_loop now c (x + 1) taskLeft
         | Done \<Rightarrow> fetchMap_loop now c (x + 1) (taskLeft - 1))
      } else Some (c, 0, taskLeft))"
  by pat_completeness auto
termination
  by (relation "measure (\<lambda>(now, c, x, taskLeft). nat (capX c + 1 - x))") auto

declare fetchMap_loop.simps [simp del]

definition fetchMap :: "int \<Rightarrow> Coordinator \<Rightarrow> (Coordinator \<times> int) option" where
  "fetchMap now c = do {
     (c, x, taskLeft) \<leftarrow> fetchMap_loop now c 1 (capX c);
     if x > 0 then Some (c, x)
     else if taskLeft = 0 then do { c \<leftarrow> fillReduce (c\<lparr>phase := 1\<rparr>); Some (c, 0) }
     else Some (c, 0)
   }"

function fetchReduce_loop :: "int \<Rightarrow> Coordinator \<Rightarrow> int \<Rightarrow> int \<Rightarrow> (Coordinator \<times> int \<times> int) option" where
  "fetchReduce_loop now c y taskLeft =
     (if y \<le> capY c then do {
        tp \<leftarrow> the_reduce c y;
        (case rtStatus tp of
           Todo \<Rightarrow> Some (c, y, taskLeft)
         | Doing \<Rightarrow> if now - rtAssignedAt tp > 10 * Second
                    then Some (set_reduce c y (tp\<lparr>rtStatus := Todo\<rparr>), y, taskLeft)
                    else fetchReduce_loop now c (y + 1) taskLeft
         | Done \<Rightarrow> fetchReduce_loop now c (y + 1) (taskLeft - 1))
      } else Some (c, 0, taskLeft))"
  by pat_completeness auto
termination
  by (relation "measure (\<lambda>(now, c, y, taskLeft). nat (capY c + 1 - y))") auto

declare fetchReduce_loop.simps [simp del]

definition fetchReduce :: "int \<Rightarrow> Coordinator \<Rightarrow> (Coordinator \<times> int) option" where
  "fetchReduce now c = do {
     (c, y, taskLeft) \<leftarrow> fetchReduce_loop now c 1 (capY c);
     if y > 0 then Some (c, y)
     else if taskLeft = 0 then Some (c\<lparr>phase := 2\<rparr>, 0)
     else Some (c, 0)
   }"

definition RequestTask :: "int \<Rightarrow> Coordinator \<Rightarrow> (Coordinator \<times> TaskAssignment) option" where
  "RequestTask now c = do {
     let tap = \<lparr>taTaskType = TaskNone, taFilename = [], taLowerX = 0, taLowerY = 0,
                taX = capX c, taY = capY c\<rparr>;
     (c, x) \<leftarrow> (if phase c = 0 then fetchMap now c else Some (c, 0));
     (c, y) \<leftarrow> (if phase c = 1 then fetchReduce now c else Some (c, 0));
     if phase c = 2 then Some (c, tap\<lparr>taTaskType := TaskExit\<rparr>)
     else if x > 0 then do {
       tp \<leftarrow> the_map c x;
       Some (set_map c x (tp\<lparr>mtStatus := Doing, mtAssignedAt := now\<rparr>),
             tap\<lparr>taTaskType := TaskMap, taFilename := mtFilename tp, taLowerX := x\<rparr>)
     } else if y > 0 then do {
       tp \<leftarrow> the_reduce c y;
       Some (set_reduce c y (tp\<lparr>rtStatus := Doing, rtAssignedAt := now\<rparr>),
             tap\<lparr>taTaskType := TaskReduce, taLowerY := y\<rparr>)
     } else Some (c, tap)
   }"

text \<open>The second \<^verbatim>\<open>if\<close> of the handler, reached when the first is not taken.\<close>

definition ResponseTask_reduce :: "Coordinator \<Rightarrow> TaskCompletion \<Rightarrow> Coordinator option" where
  "ResponseTask_reduce c tcp =
     (if tcLowerY tcp \<noteq> 0 then do {
        tp \<leftarrow> the_reduce c (tcLowerY tcp);
        Some (if rtStatus tp \<noteq> Done then set_reduce c (tcLowerY tcp) (tp\<lparr>rtStatus := Done\<rparr>) else c)
      } else Some c)"

definition ResponseTask :: "Coordinator \<Rightarrow> TaskCompletion \<Rightarrow> Coordinator option" where
  "ResponseTask c tcp =
     (if tcLowerX tcp \<noteq> 0 then do {
        tp \<leftarrow> the_map c (tcLowerX tcp);
        if mtStatus tp \<noteq> Done then Some (set_map c (tcLowerX tcp) (tp\<lparr>mtStatus := Done\<rparr>))
        else ResponseTask_reduce c tcp
      } else ResponseTask_reduce c tcp)"

definition CoordinatorDone :: "Coordinator \<Rightarrow> bool" where
  "CoordinatorDone c = (phase c = 2)"

end
