(* ===== verification/MrCoordProps.thy ===== *)
theory MrCoordProps
  imports MrCoordinator
begin

text \<open>
  The coordinator hands out tasks in two phases. The scan over the task table is analysed once, in
  the locale \<open>task_scan\<close>, and used for map and for reduce tasks; on top of it stand the invariant
  of the coordinator, the safety of the phase change, the re-assignment of lost tasks and the
  termination of the job.
\<close>

section \<open>Scanning a task table\<close>

lemma length_filter_all: "length (filter P xs) = length xs \<longleftrightarrow> (\<forall>x \<in> set xs. P x)"
proof (induction xs)
  case (Cons a xs)
  have "length (filter P xs) \<noteq> Suc (length xs)" using length_filter_le [of P xs] by linarith
  with Cons show ?case by auto
qed simp

locale task_scan =
  fixes loop :: "int \<Rightarrow> 'c \<Rightarrow> int \<Rightarrow> int \<Rightarrow> ('c \<times> int \<times> int) option"
    and cap :: "'c \<Rightarrow> int"
    and task :: "'c \<Rightarrow> int \<Rightarrow> 't option"
    and status :: "'t \<Rightarrow> TaskStatus"
    and assigned :: "'t \<Rightarrow> int"
    and reset :: "'c \<Rightarrow> int \<Rightarrow> 't \<Rightarrow> 'c"
    and limit :: int
  assumes loop_unfold: "loop now c x left =
    (if x \<le> cap c then
       (case task c x of
          None \<Rightarrow> None
        | Some t \<Rightarrow>
            (case status t of
               Todo \<Rightarrow> Some (c, x, left)
             | Doing \<Rightarrow> if now - assigned t > limit then Some (reset c x t, x, left)
                        else loop now c (x + 1) left
             | Done \<Rightarrow> loop now c (x + 1) (left - 1)))
     else Some (c, 0, left))"
begin

definition available :: "int \<Rightarrow> 't \<Rightarrow> bool" where
  "available now t \<longleftrightarrow> status t = Todo \<or> status t = Doing \<and> now - assigned t > limit"

definition done_from :: "'c \<Rightarrow> int \<Rightarrow> int" where
  "done_from c x = int (length (filter (\<lambda>z. status (the (task c z)) = Done) [x..cap c]))"

text \<open>The scan returns the first available task, or 0 and the number of tasks that are not done.\<close>

lemma scan:
  assumes "\<forall>z. x \<le> z \<and> z \<le> cap c \<longrightarrow> task c z \<noteq> None"
  shows "(\<exists>y t l. x \<le> y \<and> y \<le> cap c \<and> task c y = Some t \<and> available now t \<and>
            (\<forall>z. x \<le> z \<and> z < y \<longrightarrow> \<not> available now (the (task c z))) \<and>
            loop now c x left = Some (if status t = Todo then c else reset c y t, y, l)) \<or>
         ((\<forall>z. x \<le> z \<and> z \<le> cap c \<longrightarrow> \<not> available now (the (task c z))) \<and>
            loop now c x left = Some (c, 0, left - done_from c x))"
  using assms
proof (induction "nat (cap c + 1 - x)" arbitrary: x left)
  case 0
  then show ?case by (subst loop_unfold) (auto simp: done_from_def)
next
  case (Suc n)
  then have x: "x \<le> cap c" by simp
  then obtain t where t: "task c x = Some t" using Suc.prems by auto
  have split: "x \<le> z \<longleftrightarrow> z = x \<or> x + 1 \<le> z" for z by auto
  have d: "done_from c x = (if status t = Done then 1 else 0) + done_from c (x + 1)"
    using x t by (simp add: done_from_def upto_rec1)
  show ?case
  proof (cases "available now t")
    case True
    then have "loop now c x left = Some (if status t = Todo then c else reset c x t, x, left)"
      using x t by (subst loop_unfold) (auto simp: available_def)
    then show ?thesis using True x t by (intro disjI1 exI [of _ x] exI [of _ t] exI [of _ left]) auto
  next
    case False
    let ?left = "if status t = Done then left - 1 else left"
    have l: "loop now c x left = loop now c (x + 1) ?left"
      using x t False by (subst loop_unfold) (auto simp: available_def split: TaskStatus.splits)
    have IH: "(\<exists>y t l. x + 1 \<le> y \<and> y \<le> cap c \<and> task c y = Some t \<and> available now t \<and>
            (\<forall>z. x + 1 \<le> z \<and> z < y \<longrightarrow> \<not> available now (the (task c z))) \<and>
            loop now c (x + 1) ?left = Some (if status t = Todo then c else reset c y t, y, l)) \<or>
         ((\<forall>z. x + 1 \<le> z \<and> z \<le> cap c \<longrightarrow> \<not> available now (the (task c z))) \<and>
            loop now c (x + 1) ?left = Some (c, 0, ?left - done_from c (x + 1)))"
      using Suc.hyps(2) Suc.prems by (intro Suc.hyps(1)) auto
    have fx: "\<not> available now (the (task c x))" using False t by simp
    have below: "\<forall>z. x \<le> z \<and> z < y \<longrightarrow> \<not> available now (the (task c z))"
      if "\<forall>z. x + 1 \<le> z \<and> z < y \<longrightarrow> \<not> available now (the (task c z))" for y
      using that fx by (simp add: split) blast
    have all: "\<forall>z. x \<le> z \<and> z \<le> cap c \<longrightarrow> \<not> available now (the (task c z))"
      if "\<forall>z. x + 1 \<le> z \<and> z \<le> cap c \<longrightarrow> \<not> available now (the (task c z))"
      using that fx by (simp add: split) blast
    have last: "?left - done_from c (x + 1) = left - done_from c x" by (simp add: d)
    from IH show ?thesis
    proof
      assume "\<exists>y t l. x + 1 \<le> y \<and> y \<le> cap c \<and> task c y = Some t \<and> available now t \<and>
            (\<forall>z. x + 1 \<le> z \<and> z < y \<longrightarrow> \<not> available now (the (task c z))) \<and>
            loop now c (x + 1) ?left = Some (if status t = Todo then c else reset c y t, y, l)"
      then obtain y t' l' where "x + 1 \<le> y" "y \<le> cap c" "task c y = Some t'" "available now t'"
        "\<forall>z. x + 1 \<le> z \<and> z < y \<longrightarrow> \<not> available now (the (task c z))"
        "loop now c (x + 1) ?left = Some (if status t' = Todo then c else reset c y t', y, l')" by blast
      then show ?thesis using below l by (intro disjI1 exI [of _ y] exI [of _ t'] exI [of _ l']) auto
    next
      assume "(\<forall>z. x + 1 \<le> z \<and> z \<le> cap c \<longrightarrow> \<not> available now (the (task c z))) \<and>
            loop now c (x + 1) ?left = Some (c, 0, ?left - done_from c (x + 1))"
      then show ?thesis using all l last by simp
    qed
  qed
qed

lemma all_done_iff:
  assumes "0 \<le> cap c"
  shows "cap c - done_from c 1 = 0 \<longleftrightarrow> (\<forall>z. 1 \<le> z \<and> z \<le> cap c \<longrightarrow> status (the (task c z)) = Done)"
  using assms length_filter_all [of "\<lambda>z. status (the (task c z)) = Done" "[1..cap c]"]
  by (auto simp: done_from_def)

end

interpretation maps: task_scan fetchMap_loop capX the_map mtStatus mtAssignedAt
  "\<lambda>c x t. set_map c x (t\<lparr>mtStatus := Todo\<rparr>)" "15 * Second"
  by unfold_locales (subst fetchMap_loop.simps, auto split: option.splits TaskStatus.splits)

interpretation reduces: task_scan fetchReduce_loop capY the_reduce rtStatus rtAssignedAt
  "\<lambda>c y t. set_reduce c y (t\<lparr>rtStatus := Todo\<rparr>)" "10 * Second"
  by unfold_locales (subst fetchReduce_loop.simps, auto split: option.splits TaskStatus.splits)

section \<open>The task tables\<close>

definition tables_ok :: "Coordinator \<Rightarrow> bool" where
  "tables_ok c \<longleftrightarrow> 0 \<le> capX c \<and> 0 \<le> capY c \<and> length (mapTask c) = nat (capX c) + 1 \<and>
     length (reduceTask c) = nat (capY c) + 1 \<and> (\<forall>x. 1 \<le> x \<and> x \<le> capX c \<longrightarrow> the_map c x \<noteq> None)"

definition maps_done :: "Coordinator \<Rightarrow> bool" where
  "maps_done c \<longleftrightarrow> (\<forall>x. 1 \<le> x \<and> x \<le> capX c \<longrightarrow> map_option mtStatus (the_map c x) = Some Done)"

definition reduces_done :: "Coordinator \<Rightarrow> bool" where
  "reduces_done c \<longleftrightarrow> (\<forall>y. 1 \<le> y \<and> y \<le> capY c \<longrightarrow> map_option rtStatus (the_reduce c y) = Some Done)"

definition coord_ok :: "Coordinator \<Rightarrow> bool" where
  "coord_ok c \<longleftrightarrow> tables_ok c \<and> phase c \<in> {0, 1, 2} \<and>
     (phase c \<noteq> 0 \<longrightarrow> maps_done c \<and> (\<forall>y. 1 \<le> y \<and> y \<le> capY c \<longrightarrow> the_reduce c y \<noteq> None)) \<and>
     (phase c = 2 \<longrightarrow> reduces_done c)"

lemma set_map_simps [simp]:
  "phase (set_map c x t) = phase c" "capX (set_map c x t) = capX c" "capY (set_map c x t) = capY c"
  "reduceTask (set_map c x t) = reduceTask c" "the_reduce (set_map c x t) = the_reduce c"
  "length (mapTask (set_map c x t)) = length (mapTask c)"
  "set_map (set_map c x t) x t' = set_map c x t'"
  by (simp_all add: set_map_def the_reduce_def fun_eq_iff)

lemma set_reduce_simps [simp]:
  "phase (set_reduce c y t) = phase c" "capX (set_reduce c y t) = capX c" "capY (set_reduce c y t) = capY c"
  "mapTask (set_reduce c y t) = mapTask c" "the_map (set_reduce c y t) = the_map c"
  "length (reduceTask (set_reduce c y t)) = length (reduceTask c)"
  "set_reduce (set_reduce c y t) y t' = set_reduce c y t'"
  by (simp_all add: set_reduce_def the_map_def fun_eq_iff)

lemma the_map_set:
  "the_map c x \<noteq> None \<Longrightarrow> the_map (set_map c x t) z = (if z = x then Some t else the_map c z)"
  by (auto simp: the_map_def set_map_def nth_int_def split: if_splits)

lemma the_reduce_set:
  "the_reduce c y \<noteq> None \<Longrightarrow> the_reduce (set_reduce c y t) z = (if z = y then Some t else the_reduce c z)"
  by (auto simp: the_reduce_def set_reduce_def nth_int_def split: if_splits)

lemma phase_update_simps [simp]:
  "the_map (c\<lparr>phase := p\<rparr>) = the_map c" "the_reduce (c\<lparr>phase := p\<rparr>) = the_reduce c"
  "tables_ok (c\<lparr>phase := p\<rparr>) = tables_ok c" "maps_done (c\<lparr>phase := p\<rparr>) = maps_done c"
  "reduces_done (c\<lparr>phase := p\<rparr>) = reduces_done c"
  by (simp_all add: the_map_def the_reduce_def tables_ok_def maps_done_def reduces_done_def fun_eq_iff)

text \<open>The coordinator at the start of the reduce phase.\<close>

definition filled :: "Coordinator \<Rightarrow> Coordinator" where
  "filled c = c\<lparr>phase := 1, reduceTask := hd (reduceTask c) # replicate (nat (capY c)) (Some newReduceTask)\<rparr>"

lemma fillReduce_loop_fills:
  assumes "1 \<le> y" "y \<le> capY c + 1" "length (reduceTask c) = nat (capY c) + 1"
  shows "fillReduce_loop c y = Some (c\<lparr>reduceTask := take (nat y) (reduceTask c) @
    replicate (nat (capY c + 1 - y)) (Some newReduceTask)\<rparr>)"
  using assms
proof (induction c y rule: fillReduce_loop.induct)
  case (1 c y)
  show ?case
  proof (cases "y \<le> capY c")
    case False
    then show ?thesis using 1(2-) by (subst fillReduce_loop.simps) auto
  next
    case True
    let ?ts = "(reduceTask c)[nat y := Some newReduceTask]"
    have u: "update_int (reduceTask c) y (Some newReduceTask) = Some ?ts"
      using True 1(2-) by (simp add: update_int_def)
    have "fillReduce_loop c y = fillReduce_loop (c\<lparr>reduceTask := ?ts\<rparr>) (y + 1)"
      using True u by (subst fillReduce_loop.simps) simp
    also have "\<dots> = Some (c\<lparr>reduceTask := take (nat (y + 1)) ?ts @
        replicate (nat (capY c + 1 - (y + 1))) (Some newReduceTask)\<rparr>)"
      using 1(1) [OF True u] 1(2-) True by simp
    also have "take (nat (y + 1)) ?ts = take (nat y) (reduceTask c) @ [Some newReduceTask]"
      using True 1(2-) by (simp add: nat_add_distrib take_Suc_conv_app_nth)
    also have "(take (nat y) (reduceTask c) @ [Some newReduceTask]) @ replicate (nat (capY c + 1 - (y + 1))) (Some newReduceTask) =
        take (nat y) (reduceTask c) @ replicate (nat (capY c + 1 - y)) (Some newReduceTask)"
      using True by (simp add: nat_diff_distrib' Suc_diff_le replicate_Suc [symmetric] del: replicate_Suc)
    finally show ?thesis .
  qed
qed

lemma fillReduce_filled: "tables_ok c \<Longrightarrow> fillReduce (c\<lparr>phase := 1\<rparr>) = Some (filled c)"
  by (cases "reduceTask c") (auto simp: fillReduce_def fillReduce_loop_fills tables_ok_def filled_def)

lemma filled_facts:
  assumes "tables_ok c"
  shows "phase (filled c) = 1" "capX (filled c) = capX c" "capY (filled c) = capY c"
    "the_map (filled c) = the_map c" "tables_ok (filled c)" "maps_done (filled c) = maps_done c"
    "1 \<le> y \<Longrightarrow> y \<le> capY c \<Longrightarrow> the_reduce (filled c) y = Some newReduceTask"
  using assms
  by (auto simp: filled_def tables_ok_def maps_done_def the_map_def the_reduce_def nth_int_def nth_Cons' fun_eq_iff)

section \<open>What a request gets\<close>

lemma bind_cong_same: "(\<And>x. f x = g x) \<Longrightarrow> Option.bind m f = Option.bind m g"
  by (cases m) auto

text \<open>The reply with no task, and with each kind of task.\<close>

definition no_task :: "Coordinator \<Rightarrow> TaskAssignment" where
  "no_task c = \<lparr>taTaskType = TaskNone, taFilename = [], taLowerX = 0, taLowerY = 0, taX = capX c, taY = capY c\<rparr>"

lemma fetchMap_cases:
  assumes "tables_ok c"
  obtains (found) x t where "1 \<le> x" "x \<le> capX c" "the_map c x = Some t" "maps.available now t"
      "fetchMap now c = Some (if mtStatus t = Todo then c else set_map c x (t\<lparr>mtStatus := Todo\<rparr>), x)"
  | (wait) "\<not> maps_done c" "fetchMap now c = Some (c, 0)"
      "\<And>x t. 1 \<le> x \<Longrightarrow> x \<le> capX c \<Longrightarrow> the_map c x = Some t \<Longrightarrow> \<not> maps.available now t"
  | (finished) "maps_done c" "fetchMap now c = Some (filled c, 0)"
proof -
  have all: "\<forall>z. 1 \<le> z \<and> z \<le> capX c \<longrightarrow> the_map c z \<noteq> None" using assms by (simp add: tables_ok_def)
  have md: "capX c - maps.done_from c 1 = 0 \<longleftrightarrow> maps_done c"
    using maps.all_done_iff [of c] assms all by (force simp: maps_done_def tables_ok_def)
  from maps.scan [OF all, of now "capX c"] consider
    (f) x t l where "1 \<le> x" "x \<le> capX c" "the_map c x = Some t" "maps.available now t"
      "fetchMap_loop now c 1 (capX c) = Some (if mtStatus t = Todo then c else set_map c x (t\<lparr>mtStatus := Todo\<rparr>), x, l)"
    | (n) "\<forall>z. 1 \<le> z \<and> z \<le> capX c \<longrightarrow> \<not> maps.available now (the (the_map c z))"
      "fetchMap_loop now c 1 (capX c) = Some (c, 0, capX c - maps.done_from c 1)" by blast
  then show thesis
  proof cases
    case f
    show thesis by (rule found [OF f(1-4)]) (use f(1,5) in \<open>simp add: fetchMap_def\<close>)
  next
    case n
    show thesis
    proof (cases "maps_done c")
      case True
      then show thesis
        using md n(2) fillReduce_filled [OF assms] by (intro finished) (auto simp: fetchMap_def)
    next
      case False
      then show thesis using md n by (intro wait) (auto simp: fetchMap_def)
    qed
  qed
qed

lemma fetchReduce_cases:
  assumes "tables_ok c" "\<forall>y. 1 \<le> y \<and> y \<le> capY c \<longrightarrow> the_reduce c y \<noteq> None"
  obtains (found) y t where "1 \<le> y" "y \<le> capY c" "the_reduce c y = Some t" "reduces.available now t"
      "fetchReduce now c = Some (if rtStatus t = Todo then c else set_reduce c y (t\<lparr>rtStatus := Todo\<rparr>), y)"
  | (wait) "\<not> reduces_done c" "fetchReduce now c = Some (c, 0)"
      "\<And>y t. 1 \<le> y \<Longrightarrow> y \<le> capY c \<Longrightarrow> the_reduce c y = Some t \<Longrightarrow> \<not> reduces.available now t"
  | (finished) "reduces_done c" "fetchReduce now c = Some (c\<lparr>phase := 2\<rparr>, 0)"
proof -
  have rd: "capY c - reduces.done_from c 1 = 0 \<longleftrightarrow> reduces_done c"
    using reduces.all_done_iff [of c] assms by (force simp: reduces_done_def tables_ok_def)
  from reduces.scan [OF assms(2), of now "capY c"] consider
    (f) y t l where "1 \<le> y" "y \<le> capY c" "the_reduce c y = Some t" "reduces.available now t"
      "fetchReduce_loop now c 1 (capY c) = Some (if rtStatus t = Todo then c else set_reduce c y (t\<lparr>rtStatus := Todo\<rparr>), y, l)"
    | (n) "\<forall>z. 1 \<le> z \<and> z \<le> capY c \<longrightarrow> \<not> reduces.available now (the (the_reduce c z))"
      "fetchReduce_loop now c 1 (capY c) = Some (c, 0, capY c - reduces.done_from c 1)" by blast
  then show thesis
  proof cases
    case f
    show thesis by (rule found [OF f(1-4)]) (use f(1,5) in \<open>simp add: fetchReduce_def\<close>)
  next
    case n
    show thesis
    proof (cases "reduces_done c")
      case True
      then show thesis using rd n(2) by (intro finished) (auto simp: fetchReduce_def)
    next
      case False
      then show thesis using rd n by (intro wait) (auto simp: fetchReduce_def)
    qed
  qed
qed

lemma RequestTask_cases:
  assumes ok: "coord_ok c"
  obtains (map) x t where "phase c = 0" "1 \<le> x" "x \<le> capX c" "the_map c x = Some t" "maps.available now t"
      "RequestTask now c = Some (set_map c x (t\<lparr>mtStatus := Doing, mtAssignedAt := now\<rparr>),
         (no_task c)\<lparr>taTaskType := TaskMap, taFilename := mtFilename t, taLowerX := x\<rparr>)"
  | (map_wait) "phase c = 0" "\<not> maps_done c" "RequestTask now c = Some (c, no_task c)"
      "\<And>x t. 1 \<le> x \<Longrightarrow> x \<le> capX c \<Longrightarrow> the_map c x = Some t \<Longrightarrow> \<not> maps.available now t"
  | (reduce) c1 y t where "c1 = (if phase c = 0 then filled c else c)" "phase c \<noteq> 2" "maps_done c"
      "1 \<le> y" "y \<le> capY c" "the_reduce c1 y = Some t" "reduces.available now t"
      "RequestTask now c = Some (set_reduce c1 y (t\<lparr>rtStatus := Doing, rtAssignedAt := now\<rparr>),
         (no_task c)\<lparr>taTaskType := TaskReduce, taLowerY := y\<rparr>)"
  | (reduce_wait) c1 where "c1 = (if phase c = 0 then filled c else c)" "phase c \<noteq> 2" "maps_done c"
      "\<not> reduces_done c1" "RequestTask now c = Some (c1, no_task c)"
      "\<And>y t. 1 \<le> y \<Longrightarrow> y \<le> capY c \<Longrightarrow> the_reduce c1 y = Some t \<Longrightarrow> \<not> reduces.available now t"
  | (exit) c1 where "c1 = (if phase c = 0 then filled c else c)" "maps_done c" "reduces_done c1"
      "RequestTask now c = Some (c1\<lparr>phase := 2\<rparr>, (no_task c)\<lparr>taTaskType := TaskExit\<rparr>)"
proof -
  have t: "tables_ok c" and ph: "phase c \<in> {0, 1, 2}" using ok by (auto simp: coord_ok_def)
  note F = filled_facts [OF t]
  have stage: thesis if c1: "c1 = (if phase c = 0 then filled c else c)" and p: "phase c \<noteq> 2" and md: "maps_done c"
    and req: "RequestTask now c = do {
       (c', y) \<leftarrow> fetchReduce now c1;
       if phase c' = 2 then Some (c', (no_task c)\<lparr>taTaskType := TaskExit\<rparr>)
       else if y > 0 then do {
         tp \<leftarrow> the_reduce c' y;
         Some (set_reduce c' y (tp\<lparr>rtStatus := Doing, rtAssignedAt := now\<rparr>),
               (no_task c)\<lparr>taTaskType := TaskReduce, taLowerY := y\<rparr>)
       } else Some (c', no_task c) }" for c1
  proof -
    have 1: "tables_ok c1" "phase c1 = 1" "capY c1 = capY c" "\<forall>y. 1 \<le> y \<and> y \<le> capY c1 \<longrightarrow> the_reduce c1 y \<noteq> None"
      using c1 t F ph p ok by (auto simp: coord_ok_def)
    show thesis
    proof (cases rule: fetchReduce_cases [OF 1(1,4), of now, case_names found wait finished])
      case (found y t)
      then show thesis
        using req 1 by (intro reduce [OF c1 p md, of y t]) (auto simp: the_reduce_set)
    next
      case wait
      then show thesis using req 1 by (intro reduce_wait [OF c1 p md]) auto
    next
      case finished
      then show thesis using req 1 by (intro exit [OF c1 md]) auto
    qed
  qed
  from ph consider "phase c = 0" | "phase c = 1" | "phase c = 2" by auto
  then show thesis
  proof cases
    case p: 1
    show thesis
    proof (cases rule: fetchMap_cases [OF t, of now, case_names found wait finished])
      case (found x t)
      then show thesis
        using p by (intro map [of x t]) (auto simp: RequestTask_def no_task_def the_map_set)
    next
      case wait
      then show thesis using p by (intro map_wait) (auto simp: RequestTask_def no_task_def)
    next
      case finished
      then show thesis
        using p F(1) by (intro stage [of "filled c"]) (auto simp: RequestTask_def no_task_def Let_def intro!: bind_cong_same)
    qed
  next
    case p: 2
    then have "maps_done c" using ok by (simp add: coord_ok_def)
    then show thesis using p by (intro stage [of c]) (auto simp: RequestTask_def no_task_def Let_def intro!: bind_cong_same)
  next
    case p: 3
    have "c\<lparr>phase := 2\<rparr> = c" using p by simp
    then show thesis
      using p ok by (intro exit [of c]) (auto simp: RequestTask_def no_task_def coord_ok_def)
  qed
qed

section \<open>The invariant\<close>

lemma coord_ok_set_map:
  "coord_ok c \<Longrightarrow> the_map c x \<noteq> None \<Longrightarrow> (phase c \<noteq> 0 \<longrightarrow> mtStatus t = Done) \<Longrightarrow> coord_ok (set_map c x t)"
  by (auto simp: coord_ok_def tables_ok_def maps_done_def reduces_done_def the_map_set)

lemma coord_ok_set_reduce:
  "coord_ok c \<Longrightarrow> the_reduce c y \<noteq> None \<Longrightarrow> (phase c = 2 \<longrightarrow> rtStatus t = Done) \<Longrightarrow> coord_ok (set_reduce c y t)"
  by (auto simp: coord_ok_def tables_ok_def maps_done_def reduces_done_def the_reduce_set)

lemma coord_ok_filled: "coord_ok c \<Longrightarrow> maps_done c \<Longrightarrow> phase c = 0 \<Longrightarrow> coord_ok (filled c)"
  using filled_facts [of c] by (auto simp: coord_ok_def)

lemma RequestTask_ok:
  assumes ok: "coord_ok c" and r: "RequestTask now c = Some (c', tap)"
  shows "coord_ok c' \<and> capX c' = capX c \<and> capY c' = capY c \<and> phase c \<le> phase c'"
proof -
  have t: "tables_ok c" and ph: "phase c \<in> {0, 1, 2}" using ok by (auto simp: coord_ok_def)
  have f: "coord_ok (if phase c = 0 then filled c else c)" if "maps_done c"
    using ok that coord_ok_filled by simp
  note F = filled_facts [OF t]
  show ?thesis
  proof (cases rule: RequestTask_cases [OF ok, of now, case_names map mw red rw ex])
    case (map x t)
    then show ?thesis using r ok coord_ok_set_map [OF ok, of x] by auto
  next
    case mw
    then show ?thesis using r ok by auto
  next
    case (red c1 y t)
    then have "coord_ok c1" using f by simp
    then show ?thesis
      using red r F ph coord_ok_set_reduce [of c1 y] by (auto simp: coord_ok_def split: if_splits)
  next
    case (rw c1)
    then show ?thesis using r f F ph by (auto split: if_splits)
  next
    case (ex c1)
    then have "coord_ok c1" using f by simp
    moreover have "phase c1 \<noteq> 0" using ex F by (auto split: if_splits)
    ultimately have "coord_ok (c1\<lparr>phase := 2\<rparr>)" using ex by (auto simp: coord_ok_def)
    then show ?thesis using ex r F ph by (auto split: if_splits)
  qed
qed

text \<open>A completion message that answers an assignment of this coordinator.\<close>

definition valid_completion :: "Coordinator \<Rightarrow> TaskCompletion \<Rightarrow> bool" where
  "valid_completion c tcp \<longleftrightarrow>
     1 \<le> tcLowerX tcp \<and> tcLowerX tcp \<le> capX c \<and> tcLowerY tcp = 0 \<or>
     tcLowerX tcp = 0 \<and> 1 \<le> tcLowerY tcp \<and> tcLowerY tcp \<le> capY c \<and> phase c \<noteq> 0"

lemma ResponseTask_map:
  assumes "coord_ok c" "1 \<le> x" "x \<le> capX c"
  obtains t where "the_map c x = Some t"
    "ResponseTask c \<lparr>tcLowerX = x, tcLowerY = 0\<rparr> =
       Some (if mtStatus t = Done then c else set_map c x (t\<lparr>mtStatus := Done\<rparr>))"
proof -
  obtain t where "the_map c x = Some t" using assms by (auto simp: coord_ok_def tables_ok_def)
  then show thesis
    by (rule that) (use assms(2) \<open>the_map c x = Some t\<close> in \<open>simp add: ResponseTask_def ResponseTask_reduce_def\<close>)
qed

lemma ResponseTask_reduce_done:
  assumes "coord_ok c" "1 \<le> y" "y \<le> capY c" "phase c \<noteq> 0"
  obtains t where "the_reduce c y = Some t"
    "ResponseTask c \<lparr>tcLowerX = 0, tcLowerY = y\<rparr> =
       Some (if rtStatus t = Done then c else set_reduce c y (t\<lparr>rtStatus := Done\<rparr>))"
proof -
  obtain t where "the_reduce c y = Some t" using assms by (auto simp: coord_ok_def)
  then show thesis
    by (rule that) (use assms(2) \<open>the_reduce c y = Some t\<close> in \<open>simp add: ResponseTask_def ResponseTask_reduce_def\<close>)
qed

lemma ResponseTask_ok:
  assumes "coord_ok c" "valid_completion c tcp"
  shows "\<exists>c'. ResponseTask c tcp = Some c' \<and> coord_ok c' \<and> capX c' = capX c \<and> capY c' = capY c \<and> phase c' = phase c"
proof -
  from assms(2) consider
    (m) "1 \<le> tcLowerX tcp" "tcLowerX tcp \<le> capX c" "tcp = \<lparr>tcLowerX = tcLowerX tcp, tcLowerY = 0\<rparr>"
    | (r) "1 \<le> tcLowerY tcp" "tcLowerY tcp \<le> capY c" "phase c \<noteq> 0" "tcp = \<lparr>tcLowerX = 0, tcLowerY = tcLowerY tcp\<rparr>"
    unfolding valid_completion_def by (cases tcp) auto
  then show ?thesis
  proof cases
    case m
    obtain t where "the_map c (tcLowerX tcp) = Some t" "ResponseTask c tcp =
        Some (if mtStatus t = Done then c else set_map c (tcLowerX tcp) (t\<lparr>mtStatus := Done\<rparr>))"
      by (rule ResponseTask_map [OF assms(1) m(1,2)]) (use m(3) in metis)
    then show ?thesis using assms(1) coord_ok_set_map [OF assms(1)] by auto
  next
    case r
    obtain t where "the_reduce c (tcLowerY tcp) = Some t" "ResponseTask c tcp =
        Some (if rtStatus t = Done then c else set_reduce c (tcLowerY tcp) (t\<lparr>rtStatus := Done\<rparr>))"
      by (rule ResponseTask_reduce_done [OF assms(1) r(1,2,3)]) (use r(4) in metis)
    then show ?thesis using assms(1) coord_ok_set_reduce [OF assms(1)] by auto
  qed
qed

lemma fill_maps_all:
  assumes "length ts = k + 1 + length fnames" "\<forall>x. 1 \<le> x \<and> x \<le> k \<longrightarrow> ts ! x \<noteq> None"
  shows "\<exists>ts'. fill_maps ts (int k + 1) fnames = Some ts' \<and> length ts' = length ts \<and>
    (\<forall>x. 1 \<le> x \<and> x \<le> k + length fnames \<longrightarrow> ts' ! x =
       (if x \<le> k then ts ! x else Some (newMapTask (fnames ! (x - k - 1)))))"
  using assms
proof (induction fnames arbitrary: ts k)
  case (Cons f fs)
  let ?ts = "ts[k + 1 := Some (newMapTask f)]"
  have u: "update_int ts (int k + 1) (Some (newMapTask f)) = Some ?ts"
    using Cons.prems(1) by (simp add: update_int_def nat_add_distrib)
  have "\<exists>ts'. fill_maps ?ts (int (k + 1) + 1) fs = Some ts' \<and> length ts' = length ?ts \<and>
    (\<forall>x. 1 \<le> x \<and> x \<le> (k + 1) + length fs \<longrightarrow> ts' ! x =
       (if x \<le> k + 1 then ?ts ! x else Some (newMapTask (fs ! (x - (k + 1) - 1)))))"
    using Cons.prems by (intro Cons.IH) (auto simp: nth_list_update)
  then obtain ts' where ts': "fill_maps ?ts (int k + 1 + 1) fs = Some ts'" "length ts' = length ts"
    "\<And>x. 1 \<le> x \<Longrightarrow> x \<le> k + 1 + length fs \<Longrightarrow> ts' ! x =
       (if x \<le> k + 1 then ?ts ! x else Some (newMapTask (fs ! (x - (k + 1) - 1))))" by auto
  have "ts' ! x = (if x \<le> k then ts ! x else Some (newMapTask ((f # fs) ! (x - k - 1))))"
    if "1 \<le> x" "x \<le> k + length (f # fs)" for x
    using ts'(3) [of x] that Cons.prems(1) by (auto simp: nth_Cons' nth_list_update)
  then show ?case using u ts'(1,2) by simp
qed simp

lemma MakeCoordinator_ok:
  obtains c where "MakeCoordinator fnames n = Some c" "coord_ok c" "phase c = 0" "capX c = int (length fnames)"
    "capY c = int n" "\<And>k. k < length fnames \<Longrightarrow> the_map c (int k + 1) = Some (newMapTask (fnames ! k))"
proof -
  obtain ts where ts: "fill_maps (replicate (length fnames + 1) None) 1 fnames = Some ts"
    "length ts = length fnames + 1" "\<And>x. 1 \<le> x \<Longrightarrow> x \<le> length fnames \<Longrightarrow> ts ! x = Some (newMapTask (fnames ! (x - 1)))"
    using fill_maps_all [of "replicate (length fnames + 1) None" 0 fnames] by auto
  let ?c = "\<lparr>phase = 0, mapTask = ts, reduceTask = replicate (n + 1) None, capX = int (length fnames), capY = int n\<rparr>"
  have m: "the_map ?c (int k + 1) = Some (newMapTask (fnames ! k))" if "k < length fnames" for k
    using ts(2) ts(3) [of "k + 1"] that by (simp add: the_map_def nth_int_def nat_add_distrib)
  have "the_map ?c x \<noteq> None" if "1 \<le> x" "x \<le> int (length fnames)" for x
    using m [of "nat (x - 1)"] that by simp
  then show thesis
    using ts m by (intro that [of ?c]) (auto simp: MakeCoordinator_def coord_ok_def tables_ok_def)
qed

section \<open>Progress\<close>

text \<open>A worker that completes at once every task it is given, asking at the listed times.\<close>

definition round_trip :: "int \<Rightarrow> Coordinator \<Rightarrow> Coordinator option" where
  "round_trip now c = do {
     (c, tap) \<leftarrow> RequestTask now c;
     (case taTaskType tap of
        TaskMap \<Rightarrow> ResponseTask c \<lparr>tcLowerX = taLowerX tap, tcLowerY = 0\<rparr>
      | TaskReduce \<Rightarrow> ResponseTask c \<lparr>tcLowerX = 0, tcLowerY = taLowerY tap\<rparr>
      | _ \<Rightarrow> Some c)
   }"

fun diligent :: "int list \<Rightarrow> Coordinator \<Rightarrow> Coordinator option" where
  "diligent [] c = Some c"
| "diligent (now # ts) c = do { c \<leftarrow> round_trip now c; diligent ts c }"

definition open_maps :: "Coordinator \<Rightarrow> int set" where
  "open_maps c = {x. 1 \<le> x \<and> x \<le> capX c \<and> map_option mtStatus (the_map c x) \<noteq> Some Done}"

definition open_reduces :: "Coordinator \<Rightarrow> int set" where
  "open_reduces c = {y. 1 \<le> y \<and> y \<le> capY c \<and> map_option rtStatus (the_reduce c y) \<noteq> Some Done}"

definition work_left :: "Coordinator \<Rightarrow> nat" where
  "work_left c = card (open_maps c) + (if phase c = 0 then nat (capY c) else card (open_reduces c))"

text \<open>Every task in progress was handed out by the time \<open>t0\<close>.\<close>

definition settled :: "int \<Rightarrow> Coordinator \<Rightarrow> bool" where
  "settled t0 c \<longleftrightarrow>
     (\<forall>x t. 1 \<le> x \<and> x \<le> capX c \<and> the_map c x = Some t \<and> mtStatus t = Doing \<longrightarrow> mtAssignedAt t \<le> t0) \<and>
     (phase c \<noteq> 0 \<longrightarrow>
       (\<forall>y t. 1 \<le> y \<and> y \<le> capY c \<and> the_reduce c y = Some t \<and> rtStatus t = Doing \<longrightarrow> rtAssignedAt t \<le> t0))"

lemma open_finite [simp]: "finite (open_maps c)" "finite (open_reduces c)"
  by (rule finite_subset [of _ "{1..capX c}"], auto simp: open_maps_def,
      rule finite_subset [of _ "{1..capY c}"], auto simp: open_reduces_def)

lemma maps_done_open: "maps_done c \<longleftrightarrow> open_maps c = {}"
  by (auto simp: maps_done_def open_maps_def)

lemma reduces_done_open: "reduces_done c \<longleftrightarrow> open_reduces c = {}"
  by (auto simp: reduces_done_def open_reduces_def)

lemma open_map_set:
  "the_map c x \<noteq> None \<Longrightarrow> mtStatus t = Done \<Longrightarrow> open_maps (set_map c x t) = open_maps c - {x}"
  by (auto simp: open_maps_def the_map_set)

lemma open_reduce_set:
  "the_reduce c y \<noteq> None \<Longrightarrow> rtStatus t = Done \<Longrightarrow> open_reduces (set_reduce c y t) = open_reduces c - {y}"
  by (auto simp: open_reduces_def the_reduce_set)

lemma open_maps_frame [simp]: "open_maps (set_reduce c y t) = open_maps c"
  by (simp add: open_maps_def)

lemma open_filled:
  assumes "tables_ok c"
  shows "open_maps (filled c) = open_maps c" "card (open_reduces (filled c)) = nat (capY c)"
proof -
  have "open_reduces (filled c) = {1..capY c}"
    using filled_facts [OF assms] by (auto simp: open_reduces_def newReduceTask_def)
  then show "open_maps (filled c) = open_maps c" "card (open_reduces (filled c)) = nat (capY c)"
    using filled_facts [OF assms] by (simp_all add: open_maps_def)
qed

lemma filled_settled: "tables_ok c \<Longrightarrow> settled t0 c \<Longrightarrow> settled t0 (filled c)"
  using filled_facts [of c] by (auto simp: settled_def newReduceTask_def)

lemma settled_set:
  "settled t0 c \<Longrightarrow> the_map c x \<noteq> None \<Longrightarrow> mtStatus t = Done \<Longrightarrow> settled t0 (set_map c x t)"
  "settled t0 c \<Longrightarrow> the_reduce c y \<noteq> None \<Longrightarrow> rtStatus u = Done \<Longrightarrow> settled t0 (set_reduce c y u)"
  by (auto simp: settled_def the_map_set the_reduce_set)

lemma settled_available:
  assumes "settled t0 c" "now > t0 + 15 * Second"
  shows "1 \<le> x \<Longrightarrow> x \<le> capX c \<Longrightarrow> the_map c x = Some t \<Longrightarrow> mtStatus t \<noteq> Done \<Longrightarrow> maps.available now t"
    and "phase c \<noteq> 0 \<Longrightarrow> 1 \<le> y \<Longrightarrow> y \<le> capY c \<Longrightarrow> the_reduce c y = Some u \<Longrightarrow> rtStatus u \<noteq> Done \<Longrightarrow>
      reduces.available now u"
proof -
  have s: "10 * Second \<le> 15 * Second" by (simp add: Second_def)
  show "1 \<le> x \<Longrightarrow> x \<le> capX c \<Longrightarrow> the_map c x = Some t \<Longrightarrow> mtStatus t \<noteq> Done \<Longrightarrow> maps.available now t"
    using assms by (cases "mtStatus t") (force simp: settled_def maps.available_def)+
  show "phase c \<noteq> 0 \<Longrightarrow> 1 \<le> y \<Longrightarrow> y \<le> capY c \<Longrightarrow> the_reduce c y = Some u \<Longrightarrow> rtStatus u \<noteq> Done \<Longrightarrow>
      reduces.available now u"
    using assms s by (cases "rtStatus u") (force simp: settled_def reduces.available_def)+
qed

lemma round_trip_map:
  assumes "coord_ok c" "phase c = 0" "1 \<le> x" "x \<le> capX c" "the_map c x = Some t" "maps.available now t"
    "RequestTask now c = Some (set_map c x (t\<lparr>mtStatus := Doing, mtAssignedAt := now\<rparr>),
       (no_task c)\<lparr>taTaskType := TaskMap, taFilename := mtFilename t, taLowerX := x\<rparr>)"
  shows "round_trip now c = Some (set_map c x (t\<lparr>mtStatus := Done, mtAssignedAt := now\<rparr>))"
proof -
  let ?c = "set_map c x (t\<lparr>mtStatus := Doing, mtAssignedAt := now\<rparr>)"
  have "the_map ?c x = Some (t\<lparr>mtStatus := Doing, mtAssignedAt := now\<rparr>)" using assms(5) by (simp add: the_map_set)
  then have "ResponseTask ?c \<lparr>tcLowerX = x, tcLowerY = 0\<rparr> = Some (set_map c x (t\<lparr>mtStatus := Done, mtAssignedAt := now\<rparr>))"
    using assms(3) by (cases t) (simp add: ResponseTask_def)
  then show ?thesis using assms(7) by (simp add: round_trip_def)
qed

lemma round_trip_reduce:
  assumes "1 \<le> y" "the_reduce c1 y = Some t"
    "RequestTask now c = Some (set_reduce c1 y (t\<lparr>rtStatus := Doing, rtAssignedAt := now\<rparr>),
       (no_task c)\<lparr>taTaskType := TaskReduce, taLowerY := y\<rparr>)"
  shows "round_trip now c = Some (set_reduce c1 y (t\<lparr>rtStatus := Done, rtAssignedAt := now\<rparr>))"
proof -
  let ?c = "set_reduce c1 y (t\<lparr>rtStatus := Doing, rtAssignedAt := now\<rparr>)"
  have "the_reduce ?c y = Some (t\<lparr>rtStatus := Doing, rtAssignedAt := now\<rparr>)" using assms(2) by (simp add: the_reduce_set)
  then have "ResponseTask ?c \<lparr>tcLowerX = 0, tcLowerY = y\<rparr> = Some (set_reduce c1 y (t\<lparr>rtStatus := Done, rtAssignedAt := now\<rparr>))"
    using assms(1) by (cases t) (simp add: ResponseTask_def ResponseTask_reduce_def)
  then show ?thesis using assms(3) by (simp add: round_trip_def)
qed

text \<open>A round trip finishes a task, or finds the job finished.\<close>

lemma round_trip_progress:
  assumes ok: "coord_ok c" and st: "settled t0 c" and now: "now > t0 + 15 * Second"
  obtains c' where "round_trip now c = Some c'" "coord_ok c'" "settled t0 c'"
    "phase c' = 2 \<or> phase c \<noteq> 2 \<and> work_left c' < work_left c"
proof -
  have t: "tables_ok c" using ok by (simp add: coord_ok_def)
  note F = filled_facts [OF t] open_filled [OF t]
  have c1: "coord_ok (if phase c = 0 then filled c else c)" "settled t0 (if phase c = 0 then filled c else c)"
    "work_left (if phase c = 0 then filled c else c) = work_left c" if "maps_done c"
    using ok st that coord_ok_filled filled_settled [OF t] F by (auto simp: work_left_def)
  show thesis
  proof (cases rule: RequestTask_cases [OF ok, of now, case_names map mw red rw ex])
    case (map x t)
    let ?c = "set_map c x (t\<lparr>mtStatus := Done, mtAssignedAt := now\<rparr>)"
    have x: "x \<in> open_maps c" using map by (auto simp: open_maps_def maps.available_def)
    have "open_maps ?c = open_maps c - {x}" using map by (intro open_map_set) auto
    then have "card (open_maps ?c) < card (open_maps c)" using card_Diff1_less [OF open_finite(1) x] by simp
    then have "work_left ?c < work_left c" using map by (simp add: work_left_def)
    then show thesis
      using round_trip_map [OF ok map] map coord_ok_set_map [OF ok] settled_set(1) [OF st]
      by (intro that [of ?c]) auto
  next
    case mw
    then obtain x where "x \<in> open_maps c" by (auto simp: maps_done_open)
    then obtain t where "1 \<le> x" "x \<le> capX c" "the_map c x = Some t" "mtStatus t \<noteq> Done"
      using t by (auto simp: open_maps_def tables_ok_def)
    then show thesis using mw(4) settled_available(1) [OF st now] by blast
  next
    case (red c1 y t)
    let ?c = "set_reduce c1 y (t\<lparr>rtStatus := Done, rtAssignedAt := now\<rparr>)"
    have C: "coord_ok c1" "settled t0 c1" "work_left c1 = work_left c" "phase c1 \<noteq> 0" "capY c1 = capY c"
      using c1 [OF red(3)] red(1) F by auto
    have y: "y \<in> open_reduces c1" using red C(5) by (auto simp: open_reduces_def reduces.available_def)
    have "open_reduces ?c = open_reduces c1 - {y}" using red by (intro open_reduce_set) auto
    then have "card (open_reduces ?c) < card (open_reduces c1)" using card_Diff1_less [OF open_finite(2) y] by simp
    then have "work_left ?c < work_left c" using C by (simp add: work_left_def)
    then show thesis
      using round_trip_reduce [OF red(4,6,8)] red coord_ok_set_reduce [OF C(1)] settled_set(2) [OF C(2)]
      by (intro that [of ?c]) auto
  next
    case (rw c1)
    have C: "coord_ok c1" "settled t0 c1" "phase c1 \<noteq> 0" "capY c1 = capY c" using c1 [OF rw(3)] rw(1) F by auto
    obtain y where "y \<in> open_reduces c1" using rw(4) by (auto simp: reduces_done_open)
    then obtain t where "1 \<le> y" "y \<le> capY c1" "the_reduce c1 y = Some t" "rtStatus t \<noteq> Done"
      using C(1,3) by (auto simp: open_reduces_def coord_ok_def)
    then show thesis using rw(6) C settled_available(2) [OF C(2) now] by auto
  next
    case (ex c1)
    have C: "coord_ok c1" "settled t0 c1" "phase c1 \<noteq> 0" using c1 [OF ex(2)] ex(1) F by auto
    have "coord_ok (c1\<lparr>phase := 2\<rparr>)" "settled t0 (c1\<lparr>phase := 2\<rparr>)"
      using C ex(2,3) by (auto simp: coord_ok_def settled_def)
    moreover have "round_trip now c = Some (c1\<lparr>phase := 2\<rparr>)" using ex(4) by (simp add: round_trip_def)
    ultimately show thesis by (intro that [of "c1\<lparr>phase := 2\<rparr>"]) auto
  qed
qed

lemma diligent_finishes:
  assumes "coord_ok c" "settled t0 c" "\<forall>now \<in> set ts. now > t0 + 15 * Second"
    "phase c = 2 \<or> work_left c < length ts"
  shows "\<exists>c'. diligent ts c = Some c' \<and> coord_ok c' \<and> phase c' = 2"
  using assms
proof (induction ts arbitrary: c)
  case (Cons now ts)
  obtain c' where c': "round_trip now c = Some c'" "coord_ok c'" "settled t0 c'"
    "phase c' = 2 \<or> phase c \<noteq> 2 \<and> work_left c' < work_left c"
    by (rule round_trip_progress [OF Cons.prems(1,2), of now]) (use Cons.prems(3) in auto)
  have "phase c' = 2 \<or> work_left c' < length ts" using c'(4) Cons.prems(4) by auto
  then show ?case using Cons.IH [OF c'(2,3)] Cons.prems(3) c'(1) by auto
qed auto

section \<open>Properties of the coordinator\<close>

datatype mr_event = MRequest int | MResponse TaskCompletion

fun mr_step :: "mr_event \<Rightarrow> Coordinator \<Rightarrow> Coordinator option" where
  "mr_step (MRequest now) c = map_option fst (RequestTask now c)"
| "mr_step (MResponse tcp) c = ResponseTask c tcp"

fun mr_run :: "mr_event list \<Rightarrow> Coordinator \<Rightarrow> Coordinator option" where
  "mr_run [] c = Some c"
| "mr_run (e # es) c = do { c \<leftarrow> mr_step e c; mr_run es c }"

text \<open>Completion messages name a map task, or, once the reduce phase has begun, a reduce task.\<close>

fun mr_valid :: "mr_event list \<Rightarrow> Coordinator \<Rightarrow> bool" where
  "mr_valid [] c \<longleftrightarrow> True"
| "mr_valid (e # es) c \<longleftrightarrow> (case e of MRequest now \<Rightarrow> True | MResponse tcp \<Rightarrow> valid_completion c tcp) \<and>
     (case mr_step e c of None \<Rightarrow> True | Some c' \<Rightarrow> mr_valid es c')"

lemma RequestTask_total: "coord_ok c \<Longrightarrow> \<exists>c' tap. RequestTask now c = Some (c', tap)"
  by (cases rule: RequestTask_cases [of c now]) auto

lemma mr_run_ok:
  assumes "coord_ok c" "mr_valid es c"
  shows "\<exists>c'. mr_run es c = Some c' \<and> coord_ok c' \<and> phase c \<le> phase c' \<and> capX c' = capX c \<and> capY c' = capY c"
  using assms
proof (induction es arbitrary: c)
  case (Cons e es)
  have "\<exists>c1. mr_step e c = Some c1 \<and> coord_ok c1 \<and> phase c \<le> phase c1 \<and> capX c1 = capX c \<and> capY c1 = capY c"
  proof (cases e)
    case (MRequest now)
    then show ?thesis using RequestTask_total [OF Cons.prems(1), of now] RequestTask_ok [OF Cons.prems(1), of now] by auto
  next
    case (MResponse tcp)
    then show ?thesis using ResponseTask_ok [OF Cons.prems(1), of tcp] Cons.prems(2) by auto
  qed
  then obtain c1 where c1: "mr_step e c = Some c1" "coord_ok c1" "phase c \<le> phase c1" "capX c1 = capX c" "capY c1 = capY c"
    by blast
  then show ?case using Cons.IH [OF c1(2)] Cons.prems(2) by auto
qed auto

text \<open>A job with one input file and one reduce task.\<close>

definition tiny_job :: Coordinator where
  "tiny_job = the (MakeCoordinator [''in''] 1)"

lemma tiny_job_make: "MakeCoordinator [''in''] 1 = Some tiny_job"
  by code_simp

lemma tiny_job_ok: "coord_ok tiny_job" "phase tiny_job = 0" "capX tiny_job = 1" "capY tiny_job = 1"
  "the_map tiny_job 1 = Some (newMapTask ''in'')"
proof -
  show "phase tiny_job = 0" "capX tiny_job = 1" "capY tiny_job = 1" "the_map tiny_job 1 = Some (newMapTask ''in'')"
    by code_simp+
  obtain c where "MakeCoordinator [''in''] 1 = Some c" "coord_ok c"
    by (rule MakeCoordinator_ok [of "[''in'']" 1])
  then show "coord_ok tiny_job" using tiny_job_make by simp
qed

text \<open>
  C32. The coordinator never panics and keeps its invariant under every sequence of requests and of
  completions of tasks: the tables keep their sizes, the phase only moves forward, the reduce phase
  holds only when every map task is done, and the final phase only when every reduce task is done too.
\<close>

theorem coordinator_invariant:
  assumes "MakeCoordinator fnames n = Some c0" "mr_valid es c0"
  shows "\<exists>c. mr_run es c0 = Some c \<and> phase c \<in> {0, 1, 2} \<and>
    length (mapTask c) = length fnames + 1 \<and> length (reduceTask c) = n + 1 \<and>
    (phase c \<noteq> 0 \<longrightarrow> maps_done c) \<and> (CoordinatorDone c \<longrightarrow> reduces_done c)"
proof -
  obtain c where c: "MakeCoordinator fnames n = Some c" "coord_ok c" "capX c = int (length fnames)" "capY c = int n"
    by (rule MakeCoordinator_ok [of fnames n])
  then have "c = c0" using assms(1) by simp
  then show ?thesis
    using mr_run_ok [of c0 es] c assms(2)
    by (auto simp: coord_ok_def tables_ok_def CoordinatorDone_def)
qed

definition tiny_events :: "mr_event list" where
  "tiny_events = [MRequest 5, MResponse \<lparr>tcLowerX = 1, tcLowerY = 0\<rparr>, MRequest 6,
     MResponse \<lparr>tcLowerX = 0, tcLowerY = 1\<rparr>, MRequest 7]"

theorem coordinator_invariant_witness:
  "\<exists>c. mr_run tiny_events tiny_job = Some c \<and> CoordinatorDone c \<and> maps_done c \<and> reduces_done c"
proof -
  have "mr_valid tiny_events tiny_job" by code_simp
  moreover have "map_option phase (mr_run tiny_events tiny_job) = Some 2" by code_simp
  ultimately show ?thesis
    using coordinator_invariant [OF tiny_job_make, of tiny_events] by (auto simp: CoordinatorDone_def)
qed

text \<open>
  C31. What a worker is told to do: a reduce task only after every map task is done, and to exit only
  after every task is done. A task is handed out only if it is not done and either nobody has it or
  the last assignment is more than 15 seconds (map) or 10 seconds (reduce) old; it is then recorded
  as assigned now. A map task comes with the file name of its slot.
\<close>

theorem assignments_are_safe:
  assumes "coord_ok c" "RequestTask now c = Some (c', tap)"
  shows "(taTaskType tap = TaskMap \<longrightarrow> (\<exists>t. the_map c (taLowerX tap) = Some t \<and> taFilename tap = mtFilename t \<and>
       1 \<le> taLowerX tap \<and> taLowerX tap \<le> capX c \<and>
       (mtStatus t = Todo \<or> mtStatus t = Doing \<and> now - mtAssignedAt t > 15 * Second) \<and>
       the_map c' (taLowerX tap) = Some (t\<lparr>mtStatus := Doing, mtAssignedAt := now\<rparr>))) \<and>
    (taTaskType tap = TaskReduce \<longrightarrow> maps_done c' \<and> 1 \<le> taLowerY tap \<and> taLowerY tap \<le> capY c \<and>
       (\<forall>t. phase c = 1 \<and> the_reduce c (taLowerY tap) = Some t \<longrightarrow>
          rtStatus t = Todo \<or> rtStatus t = Doing \<and> now - rtAssignedAt t > 10 * Second)) \<and>
    (taTaskType tap = TaskExit \<longrightarrow> maps_done c' \<and> reduces_done c' \<and> CoordinatorDone c')"
proof -
  have t: "tables_ok c" and ph: "phase c \<in> {0, 1, 2}" using assms(1) by (auto simp: coord_ok_def)
  note F = filled_facts [OF t]
  show ?thesis
  proof (cases rule: RequestTask_cases [OF assms(1), of now, case_names map mw red rw ex])
    case (map x t)
    then show ?thesis using assms(2) by (auto simp: the_map_set maps.available_def)
  next
    case (red c1 y t)
    have "maps_done (set_reduce c1 y u) = maps_done c1" for u by (simp add: maps_done_def)
    then show ?thesis using assms(2) red F(6) by (auto simp: reduces.available_def split: if_splits)
  next
    case (ex c1)
    then show ?thesis using assms(2) F(6) by (auto simp: CoordinatorDone_def)
  qed (use assms(2) in \<open>auto simp: no_task_def\<close>)
qed

theorem assignments_are_safe_witness:
  "\<exists>c' tap. RequestTask 5 tiny_job = Some (c', tap) \<and> taTaskType tap = TaskMap \<and>
     1 \<le> taLowerX tap \<and> taLowerX tap \<le> capX tiny_job"
proof -
  obtain c' tap where r: "RequestTask 5 tiny_job = Some (c', tap)"
    using RequestTask_total [OF tiny_job_ok(1), of 5] by blast
  have "map_option (\<lambda>(c', tap). taTaskType tap) (RequestTask 5 tiny_job) = Some TaskMap" by code_simp
  then show ?thesis using r assignments_are_safe [OF tiny_job_ok(1) r] by auto
qed

text \<open>
  C29. The job finishes in spite of crashed workers: from any state in which the tasks in progress were
  handed out by time \<open>t0\<close>, possibly to workers that are gone, one worker that keeps asking after
  \<open>t0\<close> plus 15 seconds and completes what it gets brings the coordinator to its final phase
  within \<^verbatim>\<open>X + Y + 1\<close> requests.
\<close>

theorem job_finishes:
  assumes "coord_ok c" "settled t0 c" "\<forall>now \<in> set ts. now > t0 + 15 * Second"
    "int (length ts) > capX c + capY c"
  shows "\<exists>c'. diligent ts c = Some c' \<and> CoordinatorDone c' \<and> maps_done c' \<and> reduces_done c'"
proof -
  have cap: "0 \<le> capX c" "0 \<le> capY c" using assms(1) by (auto simp: coord_ok_def tables_ok_def)
  have "card (open_maps c) \<le> card {1..capX c}" by (rule card_mono) (auto simp: open_maps_def)
  moreover have "card (open_reduces c) \<le> card {1..capY c}" by (rule card_mono) (auto simp: open_reduces_def)
  ultimately have "work_left c < length ts" using cap assms(4) by (auto simp: work_left_def)
  then obtain c' where "diligent ts c = Some c'" "coord_ok c'" "phase c' = 2"
    using diligent_finishes [OF assms(1-3)] by blast
  then show ?thesis by (auto simp: coord_ok_def CoordinatorDone_def)
qed

theorem job_finishes_witness:
  "\<exists>c'. diligent [16 * Second, 17 * Second, 18 * Second] tiny_job = Some c' \<and> CoordinatorDone c'"
proof -
  have "mtStatus t \<noteq> Doing" if "1 \<le> x" "x \<le> 1" "the_map tiny_job x = Some t" for x t
    using tiny_job_ok(5) that by (auto simp: newMapTask_def)
  then have "settled 0 tiny_job" using tiny_job_ok by (auto simp: settled_def)
  from job_finishes [OF tiny_job_ok(1) this, of "[16 * Second, 17 * Second, 18 * Second]"] show ?thesis
    using tiny_job_ok by (auto simp: Second_def)
qed

end
