(* ===== verification/MrWorker.thy ===== *)
theory MrWorker
  imports MrCoordinator Strconv "HOL-Library.Word" "HOL-Library.List_Lexorder" "HOL-Library.Char_ord"
begin

text \<open>
  The MapReduce worker, \<^verbatim>\<open>mr/worker.go\<close>, the sequential reference implementation
  \<^verbatim>\<open>main/mrsequential.go\<close>, and the applications \<^verbatim>\<open>mrapps/wc.go\<close>, \<^verbatim>\<open>mrapps/indexer.go\<close> and
  \<^verbatim>\<open>mrapps/nocrash.go\<close>. The file system is a partial map from names to contents; a content is the
  sequence of the items written (JSON records, or the strings of the \<^verbatim>\<open>Fprintf\<close> calls). Reading a
  missing file, or a file of the wrong kind, is an error value \<open>Inl\<close>; writing does not fail. Here a task
  is one function on the file system, what it does when no other worker interferes; the theory of the
  job splits it into its file operations. Keys and values are valid UTF-8, so that encoding a record as
  JSON and decoding it again gives the record back. The application's functions are arguments, as in
  the code.
\<close>

record KeyValue =
  kvKey :: string
  kvValue :: string

datatype content = Text string | Json "KeyValue list" | Out "string list"

type_synonym FS = "string \<rightharpoonup> content"

section \<open>Hashing\<close>

text \<open>\<^verbatim>\<open>hash/fnv\<close>, \<^verbatim>\<open>New32a\<close>: 32-bit FNV-1a, over the bytes of the string.\<close>

definition fnv32a :: "string \<Rightarrow> 32 word" where
  "fnv32a s = foldl (\<lambda>h c. (xor h (word_of_nat (of_char c))) * 16777619) 2166136261 s"

definition ihash :: "string \<Rightarrow> int" where
  "ihash key = uint (and (fnv32a key) 0x7fffffff)"

text \<open>Go's \<^verbatim>\<open>%\<close> panics on a zero divisor; the dividend is never negative.\<close>

definition yOf :: "string \<Rightarrow> int \<Rightarrow> int option" where
  "yOf key Y = (if Y = 0 then None else Some (ihash key mod \<bar>Y\<bar> + 1))"

section \<open>The map task\<close>

definition mr_name :: "int \<Rightarrow> int \<Rightarrow> string" where
  "mr_name x y = ''mr-'' @ show_int x @ ''-'' @ show_int y"

definition out_name :: "int \<Rightarrow> string" where
  "out_name y = ''mr-out-'' @ show_int (y - 1)"

text \<open>The map \<^verbatim>\<open>mp\<close> of the mapper; a missing key reads as the empty slice.\<close>

fun divide :: "int \<Rightarrow> KeyValue list \<Rightarrow> (int \<Rightarrow> KeyValue list) \<Rightarrow> (int \<Rightarrow> KeyValue list) option" where
  "divide Y [] mp = Some mp"
| "divide Y (kv # kvs) mp = do { y \<leftarrow> yOf (kvKey kv) Y; divide Y kvs (mp(y := mp y @ [kv])) }"

definition intermediateFileWriter :: "FS \<Rightarrow> string \<Rightarrow> KeyValue list \<Rightarrow> FS" where
  "intermediateFileWriter fs filename kvs =
     (let tmp = filename @ ''.tmp''; fs = fs(tmp \<mapsto> Json kvs) in fs(filename := fs tmp, tmp := None))"

function write_buckets :: "FS \<Rightarrow> int \<Rightarrow> int \<Rightarrow> int \<Rightarrow> (int \<Rightarrow> KeyValue list) \<Rightarrow> FS" where
  "write_buckets fs x y Y mp =
     (if y \<le> Y then write_buckets (intermediateFileWriter fs (mr_name x y) (mp y)) x (y + 1) Y mp else fs)"
  by pat_completeness auto
termination
  by (relation "measure (\<lambda>(fs, x, y, Y, mp). nat (Y + 1 - y))") auto

declare write_buckets.simps [simp del]

type_synonym mapf = "string \<Rightarrow> string \<Rightarrow> KeyValue list"

type_synonym reducef = "string \<Rightarrow> string list \<Rightarrow> string"

text \<open>The outer \<open>option\<close> is the panic of \<^verbatim>\<open>yOf\<close>; \<open>Inl\<close> is the returned error.\<close>

definition mapper :: "FS \<Rightarrow> string \<Rightarrow> int \<Rightarrow> int \<Rightarrow> mapf \<Rightarrow> (string + FS) option" where
  "mapper fs filename x Y mapf =
     (case fs filename of
        Some (Text txt) \<Rightarrow> do {
          mp \<leftarrow> divide Y (mapf filename txt) (\<lambda>_. []);
          Some (Inr (write_buckets fs x 1 Y mp))
        }
      | _ \<Rightarrow> Some (Inl ''open''))"

section \<open>The reduce task\<close>

text \<open>
  \<^verbatim>\<open>mp[kv.Key] = append(mp[kv.Key], kv.Value)\<close>, with the map as a list of its entries in the order in
  which the keys were first seen.
\<close>

fun add_value :: "KeyValue \<Rightarrow> (string \<times> string list) list \<Rightarrow> (string \<times> string list) list" where
  "add_value kv [] = [(kvKey kv, [kvValue kv])]"
| "add_value kv ((k, vs) # mp) = (if k = kvKey kv then (k, vs @ [kvValue kv]) # mp else (k, vs) # add_value kv mp)"

function read_buckets ::
  "FS \<Rightarrow> int \<Rightarrow> int \<Rightarrow> int \<Rightarrow> (string \<times> string list) list \<Rightarrow> string + (string \<times> string list) list" where
  "read_buckets fs x X y mp =
     (if x \<le> X then
        (case fs (mr_name x y) of
           Some (Json kvs) \<Rightarrow> read_buckets fs (x + 1) X y (fold add_value kvs mp)
         | _ \<Rightarrow> Inl ''open'')
      else Inr mp)"
  by pat_completeness auto
termination
  by (relation "measure (\<lambda>(fs, x, X, y, mp). nat (X + 1 - x))") auto

declare read_buckets.simps [simp del]

text \<open>\<^verbatim>\<open>fmt.Fprintf(f, "%v %v\n", key, output)\<close>\<close>

definition out_line :: "string \<Rightarrow> string \<Rightarrow> string" where
  "out_line key output = key @ '' '' @ output @ [CHR 0x0A]"

text \<open>\<open>perm\<close> is the order in which \<^verbatim>\<open>range mp\<close> visits the map, which Go leaves open.\<close>

definition reducer ::
  "((string \<times> string list) list \<Rightarrow> (string \<times> string list) list) \<Rightarrow> FS \<Rightarrow> int \<Rightarrow> int \<Rightarrow> reducef \<Rightarrow> string + FS" where
  "reducer perm fs y X reducef =
     (case read_buckets fs 1 X y [] of
        Inl err \<Rightarrow> Inl err
      | Inr mp \<Rightarrow> Inr (fs(out_name y \<mapsto> Out (map (\<lambda>(k, vs). out_line k (reducef k vs)) (perm mp)))))"

section \<open>The worker loop\<close>

text \<open>
  \<^verbatim>\<open>eachCall\<close>, given the reply of \<^verbatim>\<open>RequestTask\<close> (\<open>None\<close> when the call failed): the pair (exit, wait), the
  new file system, and the completion it reports, if any.
\<close>

definition eachCall ::
  "((string \<times> string list) list \<Rightarrow> (string \<times> string list) list) \<Rightarrow> mapf \<Rightarrow> reducef \<Rightarrow> FS \<Rightarrow> TaskAssignment option \<Rightarrow>
   ((bool \<times> bool) \<times> FS \<times> TaskCompletion option) option" where
  "eachCall perm mapf reducef fs called =
     (case called of
        None \<Rightarrow> Some ((False, True), fs, None)
      | Some tap \<Rightarrow>
          (case taTaskType tap of
             TaskExit \<Rightarrow> Some ((True, False), fs, None)
           | TaskNone \<Rightarrow> Some ((False, True), fs, None)
           | TaskMap \<Rightarrow> do {
               r \<leftarrow> mapper fs (taFilename tap) (taLowerX tap) (taY tap) mapf;
               Some (case r of
                   Inl err \<Rightarrow> ((False, False), fs, None)
                 | Inr fs \<Rightarrow> ((False, False), fs, Some \<lparr>tcLowerX = taLowerX tap, tcLowerY = 0\<rparr>))
             }
           | TaskReduce \<Rightarrow>
               Some (case reducer perm fs (taLowerY tap) (taX tap) reducef of
                   Inl err \<Rightarrow> ((False, False), fs, None)
                 | Inr fs \<Rightarrow> ((False, False), fs, Some \<lparr>tcLowerX = 0, tcLowerY = taLowerY tap\<rparr>))))"

section \<open>mrsequential.go\<close>

definition Less :: "KeyValue \<Rightarrow> KeyValue \<Rightarrow> bool" where
  "Less a b \<longleftrightarrow> kvKey a < kvKey b"

fun read_all :: "FS \<Rightarrow> mapf \<Rightarrow> string list \<Rightarrow> KeyValue list \<Rightarrow> KeyValue list option" where
  "read_all fs mapf [] intermediate = Some intermediate"
| "read_all fs mapf (filename # fnames) intermediate =
     (case fs filename of
        Some (Text txt) \<Rightarrow> read_all fs mapf fnames (intermediate @ mapf filename txt)
      | _ \<Rightarrow> None)"

function seq_end :: "KeyValue list \<Rightarrow> nat \<Rightarrow> nat \<Rightarrow> nat" where
  "seq_end kvs i j = (if j < length kvs \<and> kvKey (kvs ! j) = kvKey (kvs ! i) then seq_end kvs i (j + 1) else j)"
  by pat_completeness auto
termination
  by (relation "measure (\<lambda>(kvs, i, j). length kvs - j)") auto

declare seq_end.simps [simp del]

lemma seq_end_le: "j \<le> seq_end kvs i j"
proof (induction kvs i j rule: seq_end.induct)
  case (1 kvs i j)
  then show ?case by (subst seq_end.simps) (auto dest: Suc_leD)
qed

function seq_reduce :: "reducef \<Rightarrow> KeyValue list \<Rightarrow> nat \<Rightarrow> string list" where
  "seq_reduce reducef kvs i =
     (if i < length kvs
      then let j = seq_end kvs i (i + 1); values = map (\<lambda>k. kvValue (kvs ! k)) [i..<j] in
           out_line (kvKey (kvs ! i)) (reducef (kvKey (kvs ! i)) values) # seq_reduce reducef kvs j
      else [])"
  by pat_completeness auto
termination
proof (relation "measure (\<lambda>(reducef, kvs, i). length kvs - i)")
  fix kvs :: "KeyValue list" and i j :: nat and vals :: "string list" and reducef :: reducef
  assume "i < length kvs" "j = seq_end kvs i (i + 1)"
  then show "((reducef, kvs, j), reducef, kvs, i) \<in> measure (\<lambda>(reducef, kvs, i). length kvs - i)"
    using seq_end_le [of "i + 1" kvs i] by auto
qed simp

declare seq_reduce.simps [simp del]

text \<open>
  \<open>srt\<close> is \<^verbatim>\<open>sort.Sort\<close>, which orders by \<^verbatim>\<open>Less\<close> and leaves the order of equal keys open. \<open>None\<close> is
  \<^verbatim>\<open>log.Fatalf\<close> on an unreadable file.
\<close>

definition mrsequential ::
  "(KeyValue list \<Rightarrow> KeyValue list) \<Rightarrow> FS \<Rightarrow> mapf \<Rightarrow> reducef \<Rightarrow> string list \<Rightarrow> string list option" where
  "mrsequential srt fs mapf reducef fnames = do {
     intermediate \<leftarrow> read_all fs mapf fnames [];
     Some (seq_reduce reducef (srt intermediate) 0)
   }"

section \<open>Applications\<close>

text \<open>
  \<^verbatim>\<open>strings.FieldsFunc(s, sep)\<close>: the maximal runs without separators. A character of the string is
  one rune, and \<open>letter\<close> is \<^verbatim>\<open>unicode.IsLetter\<close>.
\<close>

fun fields_func :: "(char \<Rightarrow> bool) \<Rightarrow> string \<Rightarrow> string \<Rightarrow> string list" where
  "fields_func sep cur [] = (if cur = [] then [] else [rev cur])"
| "fields_func sep cur (c # cs) =
     (if sep c then (if cur = [] then fields_func sep [] cs else rev cur # fields_func sep [] cs)
      else fields_func sep (c # cur) cs)"

definition wc_Map :: "(char \<Rightarrow> bool) \<Rightarrow> mapf" where
  "wc_Map letter filename contents =
     map (\<lambda>w. \<lparr>kvKey = w, kvValue = ''1''\<rparr>) (fields_func (\<lambda>r. \<not> letter r) [] contents)"

definition wc_Reduce :: reducef where
  "wc_Reduce key values = show_nat (length values)"

text \<open>The indexer; \<open>perm\<close> is again the order of a \<^verbatim>\<open>range\<close> over a map.\<close>

definition indexer_Map :: "(string list \<Rightarrow> string list) \<Rightarrow> (char \<Rightarrow> bool) \<Rightarrow> mapf" where
  "indexer_Map perm letter document value =
     map (\<lambda>w. \<lparr>kvKey = w, kvValue = document\<rparr>) (perm (remdups (fields_func (\<lambda>r. \<not> letter r) [] value)))"

fun join :: "string \<Rightarrow> string list \<Rightarrow> string" where
  "join sep [] = []"
| "join sep [s] = s"
| "join sep (s # t # ss) = s @ sep @ join sep (t # ss)"

definition indexer_Reduce :: reducef where
  "indexer_Reduce key values = (let values = sort values in show_nat (length values) @ '' '' @ join '','' values)"

definition nocrash_Map :: mapf where
  "nocrash_Map filename contents =
     [\<lparr>kvKey = ''a'', kvValue = filename\<rparr>, \<lparr>kvKey = ''b'', kvValue = show_nat (length filename)\<rparr>,
      \<lparr>kvKey = ''c'', kvValue = show_nat (length contents)\<rparr>, \<lparr>kvKey = ''d'', kvValue = ''xyzzy''\<rparr>]"

definition nocrash_Reduce :: reducef where
  "nocrash_Reduce key values = join '' '' (sort values)"

end
