(* ===== verification/MrWorkerProps.thy ===== *)
theory MrWorkerProps
  imports MrWorker "HOL-Library.Multiset"
begin

text \<open>
  What the worker's tasks compute, and that together they compute what the sequential program does:
  the lines of all output files of a distributed run are, as a multiset, the lines of
  \<^verbatim>\<open>mrsequential\<close>.
\<close>

section \<open>File names\<close>

lemma show_int_no_minus: "0 \<le> i \<Longrightarrow> CHR ''-'' \<notin> set (show_int i)"
  using show_nat_chars [of "CHR ''-''"] by (auto simp: show_int_def)

lemma show_int_digits:
  "0 \<le> i \<Longrightarrow> c \<in> set (show_int i) \<Longrightarrow> 48 \<le> (of_char c :: nat) \<and> (of_char c :: nat) < 58"
  using show_nat_chars by (auto simp: show_int_def)

lemma show_int_Cons:
  assumes "0 \<le> i"
  obtains c cs where "show_int i = c # cs" "48 \<le> (of_char c :: nat)" "(of_char c :: nat) < 58"
proof -
  have "show_int i \<noteq> []" using assms by (simp add: show_int_def show_nat_not_Nil)
  then obtain c cs where "show_int i = c # cs" by (cases "show_int i") auto
  then show thesis using show_int_digits [OF assms, of c] that by auto
qed

lemma mr_name_inj: "0 \<le> x \<Longrightarrow> 0 \<le> x' \<Longrightarrow> mr_name x y = mr_name x' y' \<Longrightarrow> x = x' \<and> y = y'"
  using separated_inj [of "CHR ''-''" "show_int x" "show_int x'" "show_int y" "show_int y'"]
    show_int_no_minus show_int_inj by (auto simp: mr_name_def)

lemma mr_name_dot: "CHR ''.'' \<notin> set (mr_name x y)"
  using show_int_nat_chars [of "CHR ''.''"] by (auto simp: mr_name_def)

lemma out_name_dot: "CHR ''.'' \<notin> set (out_name y)"
  using show_int_nat_chars [of "CHR ''.''"] by (auto simp: out_name_def)

lemma tmp_name: "mr_name x y @ ''.tmp'' \<noteq> mr_name x' y'" "mr_name x y @ ''.tmp'' \<noteq> out_name z"
  using mr_name_dot [of x' y'] out_name_dot [of z] by (auto simp: eq_commute)

lemma out_mr_name: "0 \<le> x \<Longrightarrow> out_name y \<noteq> mr_name x z"
  by (rule show_int_Cons [of x]) (auto simp: out_name_def mr_name_def)

lemma out_name_inj: "out_name y = out_name z \<Longrightarrow> y = z"
  using show_int_inj by (force simp: out_name_def)

text \<open>The names a job writes; input files are assumed to have other names.\<close>

definition job_name :: "string \<Rightarrow> bool" where
  "job_name n \<longleftrightarrow> take 3 n = ''mr-''"

lemma job_names [simp]: "job_name (mr_name x y)" "job_name (mr_name x y @ s)" "job_name (out_name y)"
  by (simp_all add: job_name_def mr_name_def out_name_def)

section \<open>The map task\<close>

definition bucket :: "int \<Rightarrow> int \<Rightarrow> KeyValue list \<Rightarrow> KeyValue list" where
  "bucket Y y kvs = filter (\<lambda>kv. yOf (kvKey kv) Y = Some y) kvs"

lemma divide_buckets: "Y \<noteq> 0 \<Longrightarrow> divide Y kvs mp = Some (\<lambda>y. mp y @ bucket Y y kvs)"
  by (induction kvs arbitrary: mp) (auto simp: bucket_def yOf_def)

lemma writer_simp:
  "intermediateFileWriter fs (mr_name x y) kvs =
     fs(mr_name x y \<mapsto> Json kvs, mr_name x y @ ''.tmp'' := None)"
  using tmp_name(1) [of x y x y] by (auto simp: intermediateFileWriter_def Let_def fun_eq_iff)

lemma write_buckets_spec:
  assumes "0 \<le> x"
  shows "(\<forall>z. y \<le> z \<and> z \<le> Y \<longrightarrow> write_buckets fs x y Y mp (mr_name x z) = Some (Json (mp z))) \<and>
    (\<forall>n. (\<forall>z. y \<le> z \<longrightarrow> n \<noteq> mr_name x z) \<and> (\<forall>z. n \<noteq> mr_name x z @ ''.tmp'') \<longrightarrow> write_buckets fs x y Y mp n = fs n)"
proof (induction fs x y Y mp rule: write_buckets.induct)
  case (1 fs x y Y mp)
  show ?case
  proof (cases "y \<le> Y")
    case False
    then show ?thesis by (subst (1 2) write_buckets.simps) auto
  next
    case True
    let ?fs = "intermediateFileWriter fs (mr_name x y) (mp y)"
    have step: "write_buckets fs x y Y mp = write_buckets ?fs x (y + 1) Y mp"
      using True by (subst write_buckets.simps) simp
    have inj: "mr_name x z = mr_name x z' \<Longrightarrow> z = z'" for z z'
      using show_int_inj by (auto simp: mr_name_def)
    have IH: "y + 1 \<le> z \<Longrightarrow> z \<le> Y \<Longrightarrow> write_buckets ?fs x (y + 1) Y mp (mr_name x z) = Some (Json (mp z))"
      "(\<forall>z. y + 1 \<le> z \<longrightarrow> n \<noteq> mr_name x z) \<Longrightarrow> (\<forall>z. n \<noteq> mr_name x z @ ''.tmp'') \<Longrightarrow>
        write_buckets ?fs x (y + 1) Y mp n = ?fs n" for z n
      using 1 [OF True] by auto
    have first: "write_buckets ?fs x (y + 1) Y mp (mr_name x y) = Some (Json (mp y))"
    proof -
      have "mr_name x y \<noteq> mr_name x z" if "y + 1 \<le> z" for z using inj [of y z] that by auto
      moreover have "mr_name x y \<noteq> mr_name x z @ ''.tmp''" for z by (rule tmp_name(1) [symmetric])
      ultimately show ?thesis using IH(2) [of "mr_name x y"] tmp_name(1) [of x y x y] by (auto simp: writer_simp)
    qed
    have other: "?fs n = fs n" if "n \<noteq> mr_name x y" "n \<noteq> mr_name x y @ ''.tmp''" for n
      using that by (simp add: writer_simp)
    have "write_buckets fs x y Y mp (mr_name x z) = Some (Json (mp z))" if "y \<le> z" "z \<le> Y" for z
      using that IH(1) [of z] first unfolding step by (cases "z = y") auto
    moreover have "write_buckets fs x y Y mp n = fs n"
      if "\<forall>z. y \<le> z \<longrightarrow> n \<noteq> mr_name x z" "\<forall>z. n \<noteq> mr_name x z @ ''.tmp''" for n
      using that IH(2) [of n] other [of n] unfolding step by auto
    ultimately show ?thesis by blast
  qed
qed

lemma mapper_spec:
  assumes "1 \<le> x" "1 \<le> Y" "fs f = Some (Text txt)"
  obtains fs' where "mapper fs f x Y mapf = Some (Inr fs')"
    "\<And>y. 1 \<le> y \<Longrightarrow> y \<le> Y \<Longrightarrow> fs' (mr_name x y) = Some (Json (bucket Y y (mapf f txt)))"
    "\<And>n. (\<And>z. n \<noteq> mr_name x z) \<Longrightarrow> (\<And>z. n \<noteq> mr_name x z @ ''.tmp'') \<Longrightarrow> fs' n = fs n"
proof (rule that)
  let ?mp = "\<lambda>y. bucket Y y (mapf f txt)"
  show "mapper fs f x Y mapf = Some (Inr (write_buckets fs x 1 Y ?mp))"
    using assms by (simp add: mapper_def divide_buckets)
qed (use write_buckets_spec [of x 1 Y fs "\<lambda>y. bucket Y y (mapf f txt)"] assms(1) in auto)

section \<open>The reduce task\<close>

definition values_of :: "string \<Rightarrow> KeyValue list \<Rightarrow> string list" where
  "values_of k kvs = map kvValue (filter (\<lambda>kv. kvKey kv = k) kvs)"

definition keys_of :: "KeyValue list \<Rightarrow> string set" where
  "keys_of kvs = kvKey ` set kvs"

lemma finite_keys [simp]: "finite (keys_of kvs)"
  by (simp add: keys_of_def)

definition groups :: "(string \<times> string list) list \<Rightarrow> KeyValue list \<Rightarrow> bool" where
  "groups mp kvs \<longleftrightarrow> distinct (map fst mp) \<and>
     map_of mp = (\<lambda>k. if k \<in> keys_of kvs then Some (values_of k kvs) else None)"

lemma fst_add_value: "fst ` set (add_value kv mp) = insert (kvKey kv) (fst ` set mp)"
  by (induction kv mp rule: add_value.induct) auto

lemma distinct_add_value: "distinct (map fst mp) \<Longrightarrow> distinct (map fst (add_value kv mp))"
proof (induction kv mp rule: add_value.induct)
  case (2 kv k vs mp)
  then show ?case using fst_add_value [of kv mp] by auto
qed simp

lemma map_of_add_value:
  "map_of (add_value kv mp) k =
     (if k = kvKey kv then Some ((case map_of mp k of None \<Rightarrow> [] | Some vs \<Rightarrow> vs) @ [kvValue kv]) else map_of mp k)"
  by (induction kv mp rule: add_value.induct) auto

lemma groups_add_value: "groups mp kvs \<Longrightarrow> groups (add_value kv mp) (kvs @ [kv])"
  unfolding groups_def
  by (auto simp: distinct_add_value map_of_add_value fun_eq_iff keys_of_def values_of_def)
    (auto simp: filter_empty_conv image_iff)

lemma groups_fold: "groups mp kvs \<Longrightarrow> groups (fold add_value kvs' mp) (kvs @ kvs')"
proof (induction kvs' arbitrary: mp kvs)
  case (Cons kv kvs')
  show ?case using Cons.IH [OF groups_add_value [OF Cons.prems, of kv]] by simp
qed simp

lemma groups_all: "groups (fold add_value kvs []) kvs"
  using groups_fold [of "[]" "[]" kvs] by (simp add: groups_def keys_of_def fun_eq_iff)

lemma read_buckets_all:
  assumes "\<And>z. x \<le> z \<Longrightarrow> z \<le> X \<Longrightarrow> fs (mr_name z y) = Some (Json (f z))"
  shows "read_buckets fs x X y mp = Inr (fold add_value (concat (map f [x..X])) mp)"
  using assms
proof (induction fs x X y mp rule: read_buckets.induct)
  case (1 fs x X y mp)
  show ?case
  proof (cases "x \<le> X")
    case False
    then show ?thesis by (subst read_buckets.simps) simp
  next
    case True
    have f: "fs (mr_name x y) = Some (Json (f x))" using 1(2) True by simp
    then have "read_buckets fs x X y mp = read_buckets fs (x + 1) X y (fold add_value (f x) mp)"
      using True by (subst read_buckets.simps) simp
    also have "\<dots> = Inr (fold add_value (concat (map f [x + 1..X])) (fold add_value (f x) mp))"
      using 1(2) by (intro 1(1) [OF True f]) auto
    finally show ?thesis using True by (simp add: upto_rec1)
  qed
qed

definition group_lines :: "reducef \<Rightarrow> KeyValue list \<Rightarrow> string set \<Rightarrow> string multiset" where
  "group_lines reducef kvs K = image_mset (\<lambda>k. out_line k (reducef k (values_of k kvs))) (mset_set K)"

lemma groups_lines:
  assumes "groups mp kvs"
  shows "mset (map (\<lambda>(k, vs). out_line k (reducef k vs)) mp) = group_lines reducef kvs (keys_of kvs)"
proof -
  have d: "distinct (map fst mp)" and m: "map_of mp = (\<lambda>k. if k \<in> keys_of kvs then Some (values_of k kvs) else None)"
    using assms by (auto simp: groups_def)
  have v: "vs = values_of k kvs" if "(k, vs) \<in> set mp" for k vs
    using map_of_is_SomeI [OF d that] m by (simp split: if_splits)
  have "map (\<lambda>(k, vs). out_line k (reducef k vs)) mp = map (\<lambda>k. out_line k (reducef k (values_of k kvs))) (map fst mp)"
    using v by (auto simp: comp_def)
  moreover have "fst ` set mp = keys_of kvs"
    unfolding dom_map_of_conv_image_fst [symmetric] m by (auto simp: dom_def split: if_splits)
  then have "mset (map fst mp) = mset_set (keys_of kvs)"
    using d by (metis mset_set_set set_map)
  ultimately show ?thesis by (simp only: group_lines_def mset_map)
qed

lemma concat_bucket: "concat (map (\<lambda>x. bucket Y y (f x)) xs) = bucket Y y (concat (map f xs))"
  by (induction xs) (simp_all add: bucket_def)

lemma keys_bucket: "keys_of (bucket Y y kvs) = {k \<in> keys_of kvs. yOf k Y = Some y}"
  by (auto simp: keys_of_def bucket_def)

lemma values_bucket: "yOf k Y = Some y \<Longrightarrow> values_of k (bucket Y y kvs) = values_of k kvs"
  unfolding values_of_def bucket_def filter_filter by (rule arg_cong [where f = "map kvValue"]) (rule filter_cong, auto)

lemma reducer_spec:
  assumes perm: "\<And>mp. mset (perm mp) = mset mp"
    and files: "\<And>x. 1 \<le> x \<Longrightarrow> x \<le> X \<Longrightarrow> fs (mr_name x y) = Some (Json (bucket Y y (f x)))"
  obtains ls where "reducer perm fs y X reducef = Inr (fs(out_name y \<mapsto> Out ls))"
    "mset ls = group_lines reducef (concat (map f [1..X])) {k \<in> keys_of (concat (map f [1..X])). yOf k Y = Some y}"
proof -
  let ?all = "concat (map f [1..X])"
  let ?mp = "fold add_value (bucket Y y ?all) []"
  let ?line = "\<lambda>(k, vs). out_line k (reducef k vs)"
  have r: "read_buckets fs 1 X y [] = Inr ?mp"
    using read_buckets_all [of 1 X fs y "\<lambda>x. bucket Y y (f x)" "[]"] files by (simp add: concat_bucket)
  have "mset (map ?line (perm ?mp)) = mset (map ?line ?mp)" using perm by simp
  also have "\<dots> = group_lines reducef (bucket Y y ?all) (keys_of (bucket Y y ?all))"
    by (rule groups_lines [OF groups_all])
  also have "\<dots> = group_lines reducef ?all {k \<in> keys_of ?all. yOf k Y = Some y}"
    unfolding group_lines_def keys_bucket by (rule image_mset_cong) (auto simp: values_bucket)
  finally show thesis using r by (intro that [of "map ?line (perm ?mp)"]) (simp_all add: reducer_def)
qed

section \<open>The sequential program\<close>

text \<open>The grouping loop as a recursion on the rest of the list.\<close>

function group_rest :: "reducef \<Rightarrow> KeyValue list \<Rightarrow> string list" where
  "group_rest reducef [] = []"
| "group_rest reducef (kv # kvs) =
     out_line (kvKey kv) (reducef (kvKey kv) (map kvValue (kv # takeWhile (\<lambda>u. kvKey u = kvKey kv) kvs))) #
     group_rest reducef (dropWhile (\<lambda>u. kvKey u = kvKey kv) kvs)"
  by pat_completeness auto
termination
  by (relation "measure (\<lambda>(reducef, kvs). length kvs)") (auto simp: less_Suc_eq_le length_dropWhile_le)

lemma seq_end_takeWhile:
  "j \<le> length kvs \<Longrightarrow> seq_end kvs i j = j + length (takeWhile (\<lambda>u. kvKey u = kvKey (kvs ! i)) (drop j kvs))"
proof (induction kvs i j rule: seq_end.induct)
  case (1 kvs i j)
  show ?case
  proof (cases "j < length kvs")
    case False
    then show ?thesis by (subst seq_end.simps) simp
  next
    case True
    have d: "drop j kvs = kvs ! j # drop (j + 1) kvs" using True by (simp add: Cons_nth_drop_Suc)
    show ?thesis
    proof (cases "kvKey (kvs ! j) = kvKey (kvs ! i)")
      case eq: True
      have "seq_end kvs i j = seq_end kvs i (j + 1)" using True eq by (subst seq_end.simps) simp
      also have "\<dots> = j + 1 + length (takeWhile (\<lambda>u. kvKey u = kvKey (kvs ! i)) (drop (j + 1) kvs))"
        using 1 True eq by simp
      finally show ?thesis unfolding d using eq by simp
    next
      case False
      have "seq_end kvs i j = j" using False by (subst seq_end.simps) simp
      then show ?thesis unfolding d using False by simp
    qed
  qed
qed

lemma map_nth_upt: "j \<le> length xs \<Longrightarrow> map (\<lambda>k. xs ! k) [i..<j] = take (j - i) (drop i xs)"
  by (rule nth_equalityI) simp_all

lemma seq_reduce_group_rest: "i \<le> length kvs \<Longrightarrow> seq_reduce reducef kvs i = group_rest reducef (drop i kvs)"
proof (induction reducef kvs i rule: seq_reduce.induct)
  case (1 reducef kvs i)
  show ?case
  proof (cases "i < length kvs")
    case False
    then show ?thesis by (subst seq_reduce.simps) simp
  next
    case True
    let ?kv = "kvs ! i" and ?rest = "drop (i + 1) kvs"
    let ?same = "takeWhile (\<lambda>u. kvKey u = kvKey ?kv) ?rest"
    let ?j = "seq_end kvs i (i + 1)"
    have d: "drop i kvs = ?kv # ?rest" using True by (simp add: Cons_nth_drop_Suc)
    have j: "?j = i + 1 + length ?same" using True by (intro seq_end_takeWhile) simp
    have le: "length ?same \<le> length ?rest" by (rule length_takeWhile_le)
    then have jl: "?j \<le> length kvs" using j True by simp
    have "drop ?j kvs = drop (length ?same) ?rest" using j by (simp add: add.commute)
    then have dj: "drop ?j kvs = dropWhile (\<lambda>u. kvKey u = kvKey ?kv) ?rest" by (simp add: dropWhile_eq_drop)
    have "map (\<lambda>k. kvValue (kvs ! k)) [i..<?j] = map kvValue (take (length ?same + 1) (drop i kvs))"
      using map_nth_upt [OF jl, of i] j by (simp flip: map_map [unfolded comp_def])
    also have "take (length ?same + 1) (drop i kvs) = ?kv # ?same"
      unfolding d by (simp add: takeWhile_eq_take [symmetric])
    finally have v: "map (\<lambda>k. kvValue (kvs ! k)) [i..<?j] = map kvValue (?kv # ?same)" .
    have "seq_reduce reducef kvs i =
        out_line (kvKey ?kv) (reducef (kvKey ?kv) (map kvValue (?kv # ?same))) # seq_reduce reducef kvs ?j"
      using True v by (subst seq_reduce.simps) (simp add: Let_def)
    also have "seq_reduce reducef kvs ?j = group_rest reducef (drop ?j kvs)"
      using 1(1) [OF True refl refl] jl by simp
    finally show ?thesis unfolding dj d by simp
  qed
qed

lemma sorted_split:
  assumes "sorted (map kvKey (kv # kvs))"
  shows "takeWhile (\<lambda>u. kvKey u = kvKey kv) kvs = filter (\<lambda>u. kvKey u = kvKey kv) kvs"
    "dropWhile (\<lambda>u. kvKey u = kvKey kv) kvs = filter (\<lambda>u. kvKey u \<noteq> kvKey kv) kvs"
proof -
  have "takeWhile (\<lambda>u. kvKey u = kvKey kv) kvs = filter (\<lambda>u. kvKey u = kvKey kv) kvs \<and>
    dropWhile (\<lambda>u. kvKey u = kvKey kv) kvs = filter (\<lambda>u. kvKey u \<noteq> kvKey kv) kvs"
    using assms
  proof (induction kvs)
    case (Cons u kvs)
    show ?case
    proof (cases "kvKey u = kvKey kv")
      case True
      then show ?thesis using Cons by simp
    next
      case False
      then have "\<forall>v \<in> set kvs. kvKey v \<noteq> kvKey kv" using Cons.prems by force
      then show ?thesis using False by (auto simp: filter_empty_conv filter_id_conv intro!: filter_True [symmetric])
    qed
  qed simp
  then show "takeWhile (\<lambda>u. kvKey u = kvKey kv) kvs = filter (\<lambda>u. kvKey u = kvKey kv) kvs"
    "dropWhile (\<lambda>u. kvKey u = kvKey kv) kvs = filter (\<lambda>u. kvKey u \<noteq> kvKey kv) kvs" by auto
qed

lemma group_rest_sorted:
  "sorted (map kvKey kvs) \<Longrightarrow> mset (group_rest reducef kvs) = group_lines reducef kvs (keys_of kvs)"
proof (induction reducef kvs rule: group_rest.induct)
  case (1 reducef)
  then show ?case by (simp add: group_lines_def keys_of_def)
next
  case (2 reducef kv kvs)
  let ?k = "kvKey kv" and ?rest = "filter (\<lambda>u. kvKey u \<noteq> kvKey kv) kvs"
  note split = sorted_split [OF 2(2)]
  have keys: "keys_of (kv # kvs) = insert ?k (keys_of ?rest)" "?k \<notin> keys_of ?rest"
    by (auto simp: keys_of_def)
  have vals: "values_of ?k (kv # kvs) = map kvValue (kv # filter (\<lambda>u. kvKey u = ?k) kvs)"
    "k \<in> keys_of ?rest \<Longrightarrow> values_of k (kv # kvs) = values_of k ?rest" for k
  proof -
    show "values_of ?k (kv # kvs) = map kvValue (kv # filter (\<lambda>u. kvKey u = ?k) kvs)" by (simp add: values_of_def)
    assume "k \<in> keys_of ?rest"
    then have "k \<noteq> ?k" using keys(2) by auto
    then have "filter (\<lambda>u. kvKey u = k) ?rest = filter (\<lambda>u. kvKey u = k) kvs"
      unfolding filter_filter by (intro filter_cong) auto
    then show "values_of k (kv # kvs) = values_of k ?rest" using \<open>k \<noteq> ?k\<close> by (auto simp: values_of_def)
  qed
  have "sorted (map kvKey ?rest)" using 2(2) by (simp add: sorted_filter)
  then have IH: "mset (group_rest reducef ?rest) = group_lines reducef ?rest (keys_of ?rest)"
    using 2(1) split(2) by simp
  have "group_lines reducef ?rest (keys_of ?rest) = group_lines reducef (kv # kvs) (keys_of ?rest)"
    unfolding group_lines_def by (rule image_mset_cong) (simp add: vals)
  then show ?case
    using IH keys vals(1) by (simp add: split group_lines_def)
qed

lemma read_all_files:
  assumes "\<And>f. f \<in> set fnames \<Longrightarrow> fs f = Some (Text (txt f))"
  shows "read_all fs mapf fnames acc = Some (acc @ concat (map (\<lambda>f. mapf f (txt f)) fnames))"
  using assms by (induction fnames arbitrary: acc) auto

section \<open>Buckets partition the keys\<close>

lemma yOf_range:
  assumes "1 \<le> Y"
  shows "\<exists>y. yOf k Y = Some y \<and> 1 \<le> y \<and> y \<le> Y"
proof -
  have "0 < Y" using assms by simp
  then have "ihash k mod Y + 1 \<le> Y" "1 \<le> ihash k mod Y + 1"
    using pos_mod_bound [of Y "ihash k"] pos_mod_sign [of Y "ihash k"] by linarith+
  then show ?thesis using assms unfolding yOf_def by simp
qed

lemma buckets_partition:
  assumes "1 \<le> Y" "finite K"
  shows "(\<Sum>y \<in> {1..Y}. group_lines reducef kvs {k \<in> K. yOf k Y = Some y}) = group_lines reducef kvs K"
  using assms(2)
proof (induction K)
  case empty
  then show ?case by (simp add: group_lines_def)
next
  case (insert k K)
  obtain y0 where y0: "yOf k Y = Some y0" "1 \<le> y0" "y0 \<le> Y" using yOf_range [OF assms(1)] by blast
  let ?g = "\<lambda>k. out_line k (reducef k (values_of k kvs))"
  have "group_lines reducef kvs {j \<in> insert k K. yOf j Y = Some y} =
      (if y = y0 then {#?g k#} else {#}) + group_lines reducef kvs {j \<in> K. yOf j Y = Some y}" for y
  proof (cases "y = y0")
    case True
    have "{j \<in> insert k K. yOf j Y = Some y} = insert k {j \<in> K. yOf j Y = Some y}" using y0 True by auto
    then show ?thesis using insert.hyps True by (simp add: group_lines_def)
  next
    case False
    then have "{j \<in> insert k K. yOf j Y = Some y} = {j \<in> K. yOf j Y = Some y}" using y0 by auto
    then show ?thesis using False by simp
  qed
  then have "(\<Sum>y \<in> {1..Y}. group_lines reducef kvs {j \<in> insert k K. yOf j Y = Some y}) =
      (\<Sum>y \<in> {1..Y}. if y = y0 then {#?g k#} else {#}) + group_lines reducef kvs K"
    using insert.IH by (simp add: sum.distrib)
  also have "(\<Sum>y \<in> {1..Y}. if y = y0 then {#?g k#} else {#}) = {#?g k#}" using y0 by (simp add: sum.delta)
  finally show ?case using insert.hyps by (simp add: group_lines_def)
qed

end
