(* ===== verification/MrSystem.thy ===== *)
theory MrSystem
  imports MrCoordProps MrWorkerProps
begin

text \<open>
  What a MapReduce job promises: the coordinator, the files as they must be, the assignments that
  workers hold and the completions they are about to report. The invariant ties the coordinator's
  tables to the contents of the files; requests and reports keep it, and when the coordinator says
  that the job is done it gives the output of the sequential program, as a multiset of lines. The
  theory of the job itself shows that the workers' file operations implement it.
\<close>

record mrsys =
  coord :: Coordinator
  fs :: FS
  held :: "TaskAssignment list"
  reports :: "TaskCompletion list"

definition sys_init :: "Coordinator \<Rightarrow> FS \<Rightarrow> mrsys" where
  "sys_init c fs0 = \<lparr>coord = c, fs = fs0, held = [], reports = []\<rparr>"

section \<open>The invariant\<close>

text \<open>
  The job's inputs: file names, their texts, and the number of reduce tasks. \<open>kvs_of x\<close> is what map
  task \<open>x\<close> emits, \<open>map_ok\<close> and \<open>reduce_ok\<close> say that a task's files hold the right contents.
\<close>

definition kvs_of :: "mapf \<Rightarrow> string list \<Rightarrow> (string \<Rightarrow> string) \<Rightarrow> int \<Rightarrow> KeyValue list" where
  "kvs_of mapf fnames txt x = mapf (fnames ! nat (x - 1)) (txt (fnames ! nat (x - 1)))"

definition map_ok :: "mapf \<Rightarrow> string list \<Rightarrow> (string \<Rightarrow> string) \<Rightarrow> int \<Rightarrow> FS \<Rightarrow> int \<Rightarrow> bool" where
  "map_ok mapf fnames txt Y f x \<longleftrightarrow>
     (\<forall>y. 1 \<le> y \<and> y \<le> Y \<longrightarrow> f (mr_name x y) = Some (Json (bucket Y y (kvs_of mapf fnames txt x))))"

definition all_kvs :: "mapf \<Rightarrow> string list \<Rightarrow> (string \<Rightarrow> string) \<Rightarrow> KeyValue list" where
  "all_kvs mapf fnames txt = concat (map (\<lambda>f. mapf f (txt f)) fnames)"

definition reduce_ok :: "mapf \<Rightarrow> reducef \<Rightarrow> string list \<Rightarrow> (string \<Rightarrow> string) \<Rightarrow> int \<Rightarrow> FS \<Rightarrow> int \<Rightarrow> bool" where
  "reduce_ok mapf reducef fnames txt Y f y \<longleftrightarrow>
     (\<exists>ls. f (out_name y) = Some (Out ls) \<and> mset ls =
        group_lines reducef (all_kvs mapf fnames txt) {k \<in> keys_of (all_kvs mapf fnames txt). yOf k Y = Some y})"

definition sys_ok :: "mapf \<Rightarrow> reducef \<Rightarrow> string list \<Rightarrow> (string \<Rightarrow> string) \<Rightarrow> int \<Rightarrow> mrsys \<Rightarrow> bool" where
  "sys_ok mapf reducef fnames txt Y s \<longleftrightarrow>
     coord_ok (coord s) \<and> capX (coord s) = int (length fnames) \<and> capY (coord s) = Y \<and>
     (\<forall>x t. 1 \<le> x \<and> x \<le> int (length fnames) \<and> the_map (coord s) x = Some t \<longrightarrow>
        mtFilename t = fnames ! nat (x - 1) \<and> (mtStatus t = Done \<longrightarrow> map_ok mapf fnames txt Y (fs s) x)) \<and>
     (phase (coord s) \<noteq> 0 \<longrightarrow> (\<forall>y t. 1 \<le> y \<and> y \<le> Y \<and> the_reduce (coord s) y = Some t \<and> rtStatus t = Done \<longrightarrow>
        reduce_ok mapf reducef fnames txt Y (fs s) y)) \<and>
     (\<forall>f \<in> set fnames. fs s f = Some (Text (txt f))) \<and>
     (\<forall>tap \<in> set (held s). taX tap = int (length fnames) \<and> taY tap = Y \<and>
        (taTaskType tap = TaskMap \<longrightarrow> 1 \<le> taLowerX tap \<and> taLowerX tap \<le> int (length fnames) \<and>
           taFilename tap = fnames ! nat (taLowerX tap - 1)) \<and>
        (taTaskType tap = TaskReduce \<longrightarrow> 1 \<le> taLowerY tap \<and> taLowerY tap \<le> Y \<and> phase (coord s) \<noteq> 0)) \<and>
     (\<forall>tcp \<in> set (reports s).
        1 \<le> tcLowerX tcp \<and> tcLowerX tcp \<le> int (length fnames) \<and> tcLowerY tcp = 0 \<and>
          map_ok mapf fnames txt Y (fs s) (tcLowerX tcp) \<or>
        tcLowerX tcp = 0 \<and> 1 \<le> tcLowerY tcp \<and> tcLowerY tcp \<le> Y \<and> phase (coord s) \<noteq> 0 \<and>
          reduce_ok mapf reducef fnames txt Y (fs s) (tcLowerY tcp))"

lemma map_ok_frame:
  assumes "\<And>y. f' (mr_name x y) = f (mr_name x y)"
  shows "map_ok mapf fnames txt Y f' x = map_ok mapf fnames txt Y f x"
  using assms by (simp add: map_ok_def)

text \<open>The invariant only looks at the contents of the files of completed tasks, and at sets of messages.\<close>

lemma sys_ok_files:
  assumes "sys_ok mapf reducef fnames txt Y s"
    and "\<And>x. 1 \<le> x \<Longrightarrow> map_ok mapf fnames txt Y (fs s) x \<Longrightarrow> map_ok mapf fnames txt Y f x"
    and "\<And>y t. the_reduce (coord s) y = Some t \<Longrightarrow> rtStatus t = Done \<Longrightarrow> reduce_ok mapf reducef fnames txt Y (fs s) y \<Longrightarrow>
      reduce_ok mapf reducef fnames txt Y f y"
    and "\<And>tcp. tcp \<in> set (reports s) \<Longrightarrow> tcLowerX tcp = 0 \<Longrightarrow> reduce_ok mapf reducef fnames txt Y (fs s) (tcLowerY tcp) \<Longrightarrow>
      reduce_ok mapf reducef fnames txt Y f (tcLowerY tcp)"
    and "\<And>g. g \<in> set fnames \<Longrightarrow> f g = fs s g"
  shows "sys_ok mapf reducef fnames txt Y (s\<lparr>fs := f\<rparr>)"
  using assms unfolding sys_ok_def by (auto 4 3)

lemma sys_ok_subset:
  assumes "sys_ok mapf reducef fnames txt Y s" "set h \<subseteq> set (held s)" "set r \<subseteq> set (reports s)"
  shows "sys_ok mapf reducef fnames txt Y (s\<lparr>held := h, reports := r\<rparr>)"
  using assms unfolding sys_ok_def by auto

lemma sys_ok_finish:
  assumes "sys_ok mapf reducef fnames txt Y s"
    and "1 \<le> tcLowerX tcp \<and> tcLowerX tcp \<le> int (length fnames) \<and> tcLowerY tcp = 0 \<and>
          map_ok mapf fnames txt Y (fs s) (tcLowerX tcp) \<or>
        tcLowerX tcp = 0 \<and> 1 \<le> tcLowerY tcp \<and> tcLowerY tcp \<le> Y \<and> phase (coord s) \<noteq> 0 \<and>
          reduce_ok mapf reducef fnames txt Y (fs s) (tcLowerY tcp)"
  shows "sys_ok mapf reducef fnames txt Y (s\<lparr>reports := tcp # reports s\<rparr>)"
  using assms unfolding sys_ok_def by auto

lemma sys_ok_request:
  assumes ok: "sys_ok mapf reducef fnames txt Y s" and r: "RequestTask now (coord s) = Some (c', tap)"
  shows "sys_ok mapf reducef fnames txt Y (s\<lparr>coord := c', held := tap # held s\<rparr>)"
proof -
  let ?c = "coord s"
  have c: "coord_ok ?c" "capX ?c = int (length fnames)" "capY ?c = Y" using ok by (auto simp: sys_ok_def)
  then have tb: "tables_ok ?c" by (simp add: coord_ok_def)
  have c': "coord_ok c'" "capX c' = int (length fnames)" "capY c' = Y" "phase ?c \<le> phase c'"
    using RequestTask_ok [OF c(1) r] c by auto
  have ph: "phase ?c \<noteq> 0 \<longrightarrow> phase c' \<noteq> 0" using c' c(1) by (auto simp: coord_ok_def)
  note F = filled_facts [OF tb]
  have M: "mtFilename t = fnames ! nat (x - 1) \<and> (mtStatus t = Done \<longrightarrow> map_ok mapf fnames txt Y (fs s) x)"
    if "1 \<le> x" "x \<le> int (length fnames)" "the_map ?c x = Some t" for x t
    using ok that by (auto simp: sys_ok_def)
  have R: "reduce_ok mapf reducef fnames txt Y (fs s) y"
    if "phase ?c \<noteq> 0" "1 \<le> y" "y \<le> Y" "the_reduce ?c y = Some t" "rtStatus t = Done" for y t
    using ok that by (auto simp: sys_ok_def)
  have c1R: "reduce_ok mapf reducef fnames txt Y (fs s) y"
    if "c1 = (if phase ?c = 0 then filled ?c else ?c)" "1 \<le> y" "y \<le> Y" "the_reduce c1 y = Some t" "rtStatus t = Done" for c1 y t
    using that R [of y t] F(7) [of y] c(3) by (auto simp: newReduceTask_def split: if_splits)
  let ?maps = "\<forall>x t. 1 \<le> x \<and> x \<le> int (length fnames) \<and> the_map c' x = Some t \<longrightarrow>
      mtFilename t = fnames ! nat (x - 1) \<and> (mtStatus t = Done \<longrightarrow> map_ok mapf fnames txt Y (fs s) x)"
  let ?reds = "phase c' \<noteq> 0 \<longrightarrow> (\<forall>y t. 1 \<le> y \<and> y \<le> Y \<and> the_reduce c' y = Some t \<and> rtStatus t = Done \<longrightarrow>
        reduce_ok mapf reducef fnames txt Y (fs s) y)"
  let ?hold = "taX tap = int (length fnames) \<and> taY tap = Y \<and>
        (taTaskType tap = TaskMap \<longrightarrow> 1 \<le> taLowerX tap \<and> taLowerX tap \<le> int (length fnames) \<and>
           taFilename tap = fnames ! nat (taLowerX tap - 1)) \<and>
        (taTaskType tap = TaskReduce \<longrightarrow> 1 \<le> taLowerY tap \<and> taLowerY tap \<le> Y \<and> phase c' \<noteq> 0)"
  have same: "?maps" if "the_map c' = the_map ?c" using M that by simp
  have c1: "the_map c1 = the_map ?c" "phase c1 \<noteq> 0" if "c1 = (if phase ?c = 0 then filled ?c else ?c)" for c1
    using that F(1,4) by auto
  have "?maps \<and> ?reds \<and> ?hold"
  proof (cases rule: RequestTask_cases [OF c(1), of now, case_names map mw red rw ex])
    case (map x t)
    then have e: "c' = set_map ?c x (t\<lparr>mtStatus := Doing, mtAssignedAt := now\<rparr>)"
      "tap = (no_task ?c)\<lparr>taTaskType := TaskMap, taFilename := mtFilename t, taLowerX := x\<rparr>" using r by auto
    have "?maps" using M map(4) unfolding e by (auto simp: the_map_set)
    moreover have "?hold" using map c M [of x t] unfolding e by (simp add: no_task_def)
    ultimately show ?thesis using map(1) unfolding e by simp
  next
    case mw
    then show ?thesis using r same R c by (auto simp: no_task_def)
  next
    case (red d y t)
    then have e: "c' = set_reduce d y (t\<lparr>rtStatus := Doing, rtAssignedAt := now\<rparr>)"
      "tap = (no_task ?c)\<lparr>taTaskType := TaskReduce, taLowerY := y\<rparr>" using r by auto
    have "?maps" using same c1(1) [OF red(1)] unfolding e by simp
    moreover have "?reds" using c1R [OF red(1)] red(6) unfolding e by (auto simp: the_reduce_set)
    moreover have "?hold" using red c c1(2) [OF red(1)] unfolding e by (simp add: no_task_def)
    ultimately show ?thesis by blast
  next
    case (rw d)
    then have e: "c' = d" "tap = no_task ?c" using r by auto
    then show ?thesis using same c1(1) [OF rw(1)] c1R [OF rw(1)] c by (simp add: no_task_def)
  next
    case (ex d)
    then have e: "c' = d\<lparr>phase := 2\<rparr>" "tap = (no_task ?c)\<lparr>taTaskType := TaskExit\<rparr>" using r by auto
    then show ?thesis using same c1(1) [OF ex(1)] c1R [OF ex(1)] c by (simp add: no_task_def)
  qed
  then have maps: ?maps and reds: ?reds and hold: ?hold by blast+
  show ?thesis using ok c' ph maps reds hold unfolding sys_ok_def by auto
qed

lemma concat_kvs: "concat (map (kvs_of mapf fnames txt) [1..int (length fnames)]) = all_kvs mapf fnames txt"
proof -
  have "map (kvs_of mapf fnames txt) [1..int (length fnames)] = map (\<lambda>f. mapf f (txt f)) fnames"
    by (rule nth_equalityI) (auto simp: kvs_of_def)
  then show ?thesis by (simp add: all_kvs_def)
qed

lemma sys_ok_report:
  assumes ok: "sys_ok mapf reducef fnames txt Y s" and tcp: "tcp \<in> set (reports s)"
  shows "\<exists>c'. ResponseTask (coord s) tcp = Some c' \<and> phase c' = phase (coord s) \<and>
    sys_ok mapf reducef fnames txt Y (s\<lparr>coord := c'\<rparr>)"
proof -
  let ?c = "coord s"
  have c: "coord_ok ?c" "capX ?c = int (length fnames)" "capY ?c = Y" using ok by (auto simp: sys_ok_def)
  from ok tcp consider
    (m) "1 \<le> tcLowerX tcp" "tcLowerX tcp \<le> int (length fnames)" "tcLowerY tcp = 0"
      "map_ok mapf fnames txt Y (fs s) (tcLowerX tcp)"
    | (r) "tcLowerX tcp = 0" "1 \<le> tcLowerY tcp" "tcLowerY tcp \<le> Y" "phase ?c \<noteq> 0"
      "reduce_ok mapf reducef fnames txt Y (fs s) (tcLowerY tcp)"
    by (auto simp: sys_ok_def)
  then show ?thesis
  proof cases
    case m
    let ?x = "tcLowerX tcp"
    have tcp': "tcp = \<lparr>tcLowerX = ?x, tcLowerY = 0\<rparr>" using m(3) by (cases tcp) simp
    have xle: "?x \<le> capX ?c" using m(2) c(2) by simp
    obtain t where t: "the_map ?c ?x = Some t" "ResponseTask ?c tcp =
        Some (if mtStatus t = Done then ?c else set_map ?c ?x (t\<lparr>mtStatus := Done\<rparr>))"
      by (rule ResponseTask_map [OF c(1) m(1) xle]) (use tcp' in metis)
    have "coord_ok (set_map ?c ?x (t\<lparr>mtStatus := Done\<rparr>))" using t(1) by (intro coord_ok_set_map [OF c(1)]) auto
    then have "sys_ok mapf reducef fnames txt Y (s\<lparr>coord := set_map ?c ?x (t\<lparr>mtStatus := Done\<rparr>)\<rparr>)"
      using ok m t(1) unfolding sys_ok_def by (auto simp: the_map_set)
    then show ?thesis using t(2) ok by auto
  next
    case r
    let ?y = "tcLowerY tcp"
    have tcp': "tcp = \<lparr>tcLowerX = 0, tcLowerY = ?y\<rparr>" using r(1) by (cases tcp) simp
    have yle: "?y \<le> capY ?c" using r(3) c(3) by simp
    obtain t where t: "the_reduce ?c ?y = Some t" "ResponseTask ?c tcp =
        Some (if rtStatus t = Done then ?c else set_reduce ?c ?y (t\<lparr>rtStatus := Done\<rparr>))"
      by (rule ResponseTask_reduce_done [OF c(1) r(2) yle r(4)]) (use tcp' in metis)
    have "coord_ok (set_reduce ?c ?y (t\<lparr>rtStatus := Done\<rparr>))" using t(1) by (intro coord_ok_set_reduce [OF c(1)]) auto
    then have "sys_ok mapf reducef fnames txt Y (s\<lparr>coord := set_reduce ?c ?y (t\<lparr>rtStatus := Done\<rparr>)\<rparr>)"
      using ok r t(1) unfolding sys_ok_def by (auto simp: the_reduce_set)
    then show ?thesis using t(2) ok by auto
  qed
qed

lemma sys_ok_init:
  assumes "MakeCoordinator fnames n = Some c" "\<And>g. g \<in> set fnames \<Longrightarrow> f g = Some (Text (txt g))"
  shows "sys_ok mapf reducef fnames txt (int n) (sys_init c f)"
proof -
  obtain c0 where c0: "MakeCoordinator fnames n = Some c0" "coord_ok c0" "phase c0 = 0"
    "capX c0 = int (length fnames)" "capY c0 = int n"
    "\<And>k. k < length fnames \<Longrightarrow> the_map c0 (int k + 1) = Some (newMapTask (fnames ! k))"
    by (rule MakeCoordinator_ok [of fnames n]) blast
  then have "c0 = c" using assms(1) by simp
  moreover have "the_map c0 x = Some (newMapTask (fnames ! nat (x - 1)))" if "1 \<le> x" "x \<le> int (length fnames)" for x
    using c0(6) [of "nat (x - 1)"] that by simp
  ultimately show ?thesis
    using c0 assms(2) by (auto simp: sys_ok_def sys_init_def newMapTask_def)
qed

section \<open>The output of a finished job\<close>

text \<open>All lines of the output files.\<close>

definition output_lines :: "FS \<Rightarrow> int \<Rightarrow> string list" where
  "output_lines f y = (case f (out_name y) of Some (Out ls) \<Rightarrow> ls | _ \<Rightarrow> [])"

definition job_output :: "FS \<Rightarrow> int \<Rightarrow> string multiset" where
  "job_output f Y = (\<Sum>y \<in> {1..Y}. mset (output_lines f y))"

lemma done_reduce_ok:
  assumes "sys_ok mapf reducef fnames txt Y s" "CoordinatorDone (coord s)" "1 \<le> y" "y \<le> Y"
  shows "reduce_ok mapf reducef fnames txt Y (fs s) y"
proof -
  have "reduces_done (coord s)" "phase (coord s) \<noteq> 0" "capY (coord s) = Y"
    using assms(1,2) by (auto simp: sys_ok_def coord_ok_def CoordinatorDone_def)
  then show ?thesis using assms unfolding sys_ok_def reduces_done_def by (metis map_option_eq_Some)
qed

lemma job_output_done:
  assumes "sys_ok mapf reducef fnames txt Y s" "CoordinatorDone (coord s)" "1 \<le> Y"
  shows "job_output (fs s) Y = group_lines reducef (all_kvs mapf fnames txt) (keys_of (all_kvs mapf fnames txt))"
proof -
  let ?K = "keys_of (all_kvs mapf fnames txt)"
  have "mset (output_lines (fs s) y) = group_lines reducef (all_kvs mapf fnames txt) {k \<in> ?K. yOf k Y = Some y}"
    if "y \<in> {1..Y}" for y
    using that done_reduce_ok [OF assms(1,2), of y] by (force simp: reduce_ok_def output_lines_def)
  then have "job_output (fs s) Y = (\<Sum>y \<in> {1..Y}. group_lines reducef (all_kvs mapf fnames txt) {k \<in> ?K. yOf k Y = Some y})"
    unfolding job_output_def by (intro sum.cong) auto
  then show ?thesis using buckets_partition [OF assms(3), of ?K] by simp
qed

text \<open>In a state of the invariant in which the job is done, the output is that of the sequential program.\<close>

lemma done_equals_sequential:
  assumes ok: "sys_ok mapf reducef fnames txt (int n) s" and n: "1 \<le> n" and "CoordinatorDone (coord s)"
    and inputs: "\<forall>g \<in> set fnames. f g = Some (Text (txt g))"
    and srt: "\<forall>kvs. sorted (map kvKey (srt kvs)) \<and> mset (srt kvs) = mset kvs"
    and comm: "\<forall>k vs vs'. mset vs = mset vs' \<longrightarrow> reducef k vs = reducef k vs'"
  shows "\<exists>ls. mrsequential srt f mapf reducef fnames = Some ls \<and> job_output (fs s) (int n) = mset ls"
proof -
  let ?all = "all_kvs mapf fnames txt"
  have out: "job_output (fs s) (int n) = group_lines reducef ?all (keys_of ?all)"
    using job_output_done [OF ok assms(3)] n by simp
  have seq: "mrsequential srt f mapf reducef fnames = Some (seq_reduce reducef (srt ?all) 0)"
    using read_all_files [of fnames f "txt" mapf "[]"] inputs by (simp add: mrsequential_def all_kvs_def)
  have "mset (seq_reduce reducef (srt ?all) 0) = group_lines reducef (srt ?all) (keys_of (srt ?all))"
    using seq_reduce_group_rest [of 0 "srt ?all" reducef] group_rest_sorted [of "srt ?all" reducef] srt by simp
  also have "keys_of (srt ?all) = keys_of ?all" using srt by (metis keys_of_def mset_eq_setD)
  also have "group_lines reducef (srt ?all) (keys_of ?all) = group_lines reducef ?all (keys_of ?all)"
  proof -
    have "mset (values_of k (srt ?all)) = mset (values_of k ?all)" for k
      using srt by (simp add: values_of_def)
    then have "reducef k (values_of k (srt ?all)) = reducef k (values_of k ?all)" for k using comm by blast
    then show ?thesis by (simp add: group_lines_def)
  qed
  finally show ?thesis using seq out by simp
qed

text \<open>
  The bucket of a key: for a positive number of reduce tasks, \<^verbatim>\<open>yOf\<close> does not panic and returns a
  task number from 1 to \<^verbatim>\<open>Y\<close>, the same for equal keys; \<^verbatim>\<open>ihash\<close> fits in 31 bits, so it is not
  negative. With no reduce task it panics.
\<close>

lemma yOf_bounds:
  "(1 \<le> Y \<longrightarrow> (\<exists>y. yOf key Y = Some y \<and> 1 \<le> y \<and> y \<le> Y)) \<and> yOf key 0 = None \<and>
   0 \<le> ihash key \<and> ihash key < 2 ^ 31"
proof -
  have "uint (and (fnv32a key) 0x7fffffff) \<le> uint (0x7fffffff :: 32 word)"
    using word_and_le1 [of "fnv32a key" "0x7fffffff"] by (simp only: word_le_def)
  then have "ihash key < 2 ^ 31" by (simp add: ihash_def)
  moreover have "0 \<le> ihash key" by (simp add: ihash_def)
  ultimately show ?thesis using yOf_range by (auto simp: yOf_def)
qed

end
