(* ===== verification/MrJob.thy ===== *)
theory MrJob
  imports MrSystem
begin

text \<open>
  The running job: the coordinator, any number of worker processes and the file system they share.
  A worker executes its task one file operation at a time (\<^verbatim>\<open>os.Create\<close>, one encoded record or one
  output line, \<^verbatim>\<open>os.Rename\<close>), interleaved with those of the other workers, and its process may die
  between any two of them, or exit inside \<^verbatim>\<open>Map\<close> or \<^verbatim>\<open>Reduce\<close>. The contents of one input or
  intermediate file are read in one step: such a file is not written any more once it has its name.
  A file operation names its file, which is the one the worker has open as long as no other worker
  writes the files of the same task; the properties of the job assume that (\<open>orderly\<close>), and the
  repository's notes on the lab name it as the assumption of its fault tolerance.
\<close>

section \<open>File operations\<close>

datatype fileop = OpCreate string | OpWrite string KeyValue | OpRename string string

fun apply_op :: "fileop \<Rightarrow> FS \<Rightarrow> FS" where
  "apply_op (OpCreate n) f = f(n \<mapsto> Json [])"
| "apply_op (OpWrite n kv) f = (case f n of Some (Json kvs) \<Rightarrow> f(n \<mapsto> Json (kvs @ [kv])) | _ \<Rightarrow> f)"
| "apply_op (OpRename a b) f = f(b := f a, a := None)"

text \<open>What \<^verbatim>\<open>intermediateFileWriter\<close> does, and the loop of \<^verbatim>\<open>mapper\<close> over the buckets.\<close>

definition writer_ops :: "string \<Rightarrow> KeyValue list \<Rightarrow> fileop list" where
  "writer_ops filename kvs =
     OpCreate (filename @ ''.tmp'') # map (OpWrite (filename @ ''.tmp'')) kvs @ [OpRename (filename @ ''.tmp'') filename]"

definition mapper_ops :: "int \<Rightarrow> int \<Rightarrow> int \<Rightarrow> (int \<Rightarrow> KeyValue list) \<Rightarrow> fileop list" where
  "mapper_ops x y Y mp = concat (map (\<lambda>y. writer_ops (mr_name x y) (mp y)) [y..Y])"

text \<open>Without interference they do what the definitions of the worker do in one step.\<close>

lemma apply_writes:
  "f n = Some (Json kvs) \<Longrightarrow> fold apply_op (map (OpWrite n) kvs') f = f(n \<mapsto> Json (kvs @ kvs'))"
  by (induction kvs' arbitrary: f kvs) (auto simp: fun_eq_iff)

lemma apply_writer_ops: "fold apply_op (writer_ops filename kvs) f = intermediateFileWriter f filename kvs"
  by (simp add: writer_ops_def apply_writes [of _ _ "[]"] intermediateFileWriter_def Let_def)

lemma apply_mapper_ops: "fold apply_op (mapper_ops x y Y mp) f = write_buckets f x y Y mp"
proof (induction f x y Y mp rule: write_buckets.induct)
  case (1 f x y Y mp)
  show ?case
  proof (cases "y \<le> Y")
    case True
    then have "mapper_ops x y Y mp = writer_ops (mr_name x y) (mp y) @ mapper_ops x (y + 1) Y mp"
      by (simp add: mapper_ops_def upto_rec1)
    then show ?thesis using 1 True by (simp add: apply_writer_ops write_buckets.simps [of f])
  qed (simp add: mapper_ops_def write_buckets.simps [of f])
qed

section \<open>Worker processes\<close>

text \<open>
  Where a worker stands in its loop: \<open>Got\<close> an assignment, has the result of \<^verbatim>\<open>Map\<close>, writes the
  intermediate files of task \<open>x\<close>, has read the files of reduce task \<open>y\<close> up to a number, writes the lines
  of its output file, or has finished and is about to report.
\<close>

datatype worker_state =
    Idle
  | Got TaskAssignment
  | Mapped int int "KeyValue list"
  | WritingMap int "fileop list"
  | Reading int int int "(string \<times> string list) list"
  | WritingOut int "(string \<times> string list) list"
  | Finished TaskCompletion
  | Gone

type_synonym app_map = "int \<Rightarrow> string \<Rightarrow> string \<Rightarrow> KeyValue list option"

type_synonym app_reduce = "int \<Rightarrow> string \<Rightarrow> string list \<Rightarrow> string option"

type_synonym map_order = "(string \<times> string list) list \<Rightarrow> (string \<times> string list) list"

text \<open>
  One step of a worker. The application's functions take the number that a call draws at random, which
  an ordinary application ignores, and return \<open>None\<close> for \<^verbatim>\<open>os.Exit\<close>. The outer \<open>None\<close> is a panic, or
  no step.
\<close>

fun worker_step :: "map_order \<Rightarrow> app_map \<Rightarrow> app_reduce \<Rightarrow> int \<Rightarrow> worker_state \<Rightarrow> FS \<Rightarrow> (worker_state \<times> FS) option" where
  "worker_step perm mapf reducef rr (Got tap) f =
     (case taTaskType tap of
        TaskExit \<Rightarrow> Some (Gone, f)
      | TaskNone \<Rightarrow> Some (Idle, f)
      | TaskMap \<Rightarrow>
          (case f (taFilename tap) of
             Some (Text txt) \<Rightarrow>
               (case mapf rr (taFilename tap) txt of
                  None \<Rightarrow> Some (Gone, f)
                | Some kvs \<Rightarrow> Some (Mapped (taLowerX tap) (taY tap) kvs, f))
           | _ \<Rightarrow> Some (Idle, f))
      | TaskReduce \<Rightarrow> Some (Reading (taLowerY tap) (taX tap) 1 [], f))"
| "worker_step perm mapf reducef rr (Mapped x Y kvs) f = do {
     mp \<leftarrow> divide Y kvs (\<lambda>_. []);
     Some (WritingMap x (mapper_ops x 1 Y mp), f)
   }"
| "worker_step perm mapf reducef rr (WritingMap x (op # ops)) f = Some (WritingMap x ops, apply_op op f)"
| "worker_step perm mapf reducef rr (WritingMap x []) f = Some (Finished \<lparr>tcLowerX = x, tcLowerY = 0\<rparr>, f)"
| "worker_step perm mapf reducef rr (Reading y X x mp) f =
     (if x \<le> X then
        (case f (mr_name x y) of
           Some (Json kvs) \<Rightarrow> Some (Reading y X (x + 1) (fold add_value kvs mp), f)
         | _ \<Rightarrow> Some (Idle, f))
      else Some (WritingOut y (perm mp), f(out_name y \<mapsto> Out [])))"
| "worker_step perm mapf reducef rr (WritingOut y ((key, vals) # mp)) f =
     (case reducef rr key vals of
        None \<Rightarrow> Some (Gone, f)
      | Some output \<Rightarrow>
          Some (WritingOut y mp,
                case f (out_name y) of
                  Some (Out ls) \<Rightarrow> f(out_name y \<mapsto> Out (ls @ [out_line key output]))
                | _ \<Rightarrow> f))"
| "worker_step perm mapf reducef rr (WritingOut y []) f = Some (Finished \<lparr>tcLowerX = 0, tcLowerY = y\<rparr>, f)"
| "worker_step perm mapf reducef rr st f = None"

section \<open>The job\<close>

record job =
  jcoord :: Coordinator
  jfs :: FS
  jworkers :: "worker_state list"

datatype job_event = JRequest nat int | JStep nat int | JReport nat | JDie nat | JSpawn nat

definition get_worker :: "job \<Rightarrow> nat \<Rightarrow> worker_state option" where
  "get_worker j w = (if w < length (jworkers j) then Some (jworkers j ! w) else None)"

definition set_worker :: "job \<Rightarrow> nat \<Rightarrow> worker_state \<Rightarrow> job" where
  "set_worker j w st = j\<lparr>jworkers := (jworkers j)[w := st]\<rparr>"

text \<open>
  \<open>JRequest\<close> is the handler of \<^verbatim>\<open>RequestTask\<close> and its reply, \<open>JReport\<close> that of \<^verbatim>\<open>ResponseTask\<close>; a process
  dies with \<open>JDie\<close> (also when a call fails), and a new one takes its place with \<open>JSpawn\<close>.
\<close>

fun job_step :: "map_order \<Rightarrow> app_map \<Rightarrow> app_reduce \<Rightarrow> job_event \<Rightarrow> job \<Rightarrow> job option" where
  "job_step perm mapf reducef (JRequest w now) j =
     (if get_worker j w = Some Idle then do {
        (c, tap) \<leftarrow> RequestTask now (jcoord j);
        Some ((set_worker j w (Got tap))\<lparr>jcoord := c\<rparr>)
      } else None)"
| "job_step perm mapf reducef (JStep w rr) j = do {
     st \<leftarrow> get_worker j w;
     (st, f) \<leftarrow> worker_step perm mapf reducef rr st (jfs j);
     Some ((set_worker j w st)\<lparr>jfs := f\<rparr>)
   }"
| "job_step perm mapf reducef (JReport w) j =
     (case get_worker j w of
        Some (Finished tcp) \<Rightarrow> do {
          c \<leftarrow> ResponseTask (jcoord j) tcp;
          Some ((set_worker j w Idle)\<lparr>jcoord := c\<rparr>)
        }
      | _ \<Rightarrow> None)"
| "job_step perm mapf reducef (JDie w) j = (if w < length (jworkers j) then Some (set_worker j w Gone) else None)"
| "job_step perm mapf reducef (JSpawn w) j = (if get_worker j w = Some Gone then Some (set_worker j w Idle) else None)"

fun job_run :: "map_order \<Rightarrow> app_map \<Rightarrow> app_reduce \<Rightarrow> job_event list \<Rightarrow> job \<Rightarrow> job option" where
  "job_run perm mapf reducef [] j = Some j"
| "job_run perm mapf reducef (e # es) j = do { j \<leftarrow> job_step perm mapf reducef e j; job_run perm mapf reducef es j }"

definition job_init :: "Coordinator \<Rightarrow> FS \<Rightarrow> nat \<Rightarrow> job" where
  "job_init c f n = \<lparr>jcoord = c, jfs = f, jworkers = replicate n Idle\<rparr>"

section \<open>Orderly runs\<close>

text \<open>
  A worker starts to write the files of a task only if no other worker is writing files of the same
  task, and none leaves the output file of a reduce task incomplete after the task has been completed.
\<close>

definition completed :: "job \<Rightarrow> int \<Rightarrow> bool" where
  "completed j y \<longleftrightarrow> map_option rtStatus (the_reduce (jcoord j) y) = Some Done \<or>
     Finished \<lparr>tcLowerX = 0, tcLowerY = y\<rparr> \<in> set (jworkers j)"

text \<open>The task whose files a worker is writing: a map task on the left, a reduce task on the right.\<close>

fun target :: "worker_state \<Rightarrow> (int + int) option" where
  "target (WritingMap x ops) = Some (Inl x)"
| "target (WritingOut y mp) = Some (Inr y)"
| "target st = None"

definition being_written :: "job \<Rightarrow> int + int \<Rightarrow> bool" where
  "being_written j t \<longleftrightarrow> Some t \<in> set (map target (jworkers j))"

fun step_orderly :: "app_reduce \<Rightarrow> int \<Rightarrow> job \<Rightarrow> worker_state \<Rightarrow> bool" where
  "step_orderly reducef rr j (Mapped x Y kvs) \<longleftrightarrow> \<not> being_written j (Inl x)"
| "step_orderly reducef rr j (Reading y X x mp) \<longleftrightarrow> (X < x \<longrightarrow> \<not> being_written j (Inr y))"
| "step_orderly reducef rr j (WritingOut y ((key, vals) # mp)) \<longleftrightarrow>
     (reducef rr key vals = None \<longrightarrow> \<not> completed j y)"
| "step_orderly reducef rr j st \<longleftrightarrow> True"

fun orderly :: "app_reduce \<Rightarrow> job_event \<Rightarrow> job \<Rightarrow> bool" where
  "orderly reducef (JStep w rr) j \<longleftrightarrow> (case get_worker j w of None \<Rightarrow> True | Some st \<Rightarrow> step_orderly reducef rr j st)"
| "orderly reducef (JDie w) j \<longleftrightarrow> (case get_worker j w of Some (WritingOut y mp) \<Rightarrow> \<not> completed j y | _ \<Rightarrow> True)"
| "orderly reducef e j \<longleftrightarrow> True"

fun run_orderly :: "map_order \<Rightarrow> app_map \<Rightarrow> app_reduce \<Rightarrow> job_event list \<Rightarrow> job \<Rightarrow> bool" where
  "run_orderly perm mapf reducef [] j \<longleftrightarrow> True"
| "run_orderly perm mapf reducef (e # es) j \<longleftrightarrow> orderly reducef e j \<and>
     (case job_step perm mapf reducef e j of None \<Rightarrow> True | Some j' \<Rightarrow> run_orderly perm mapf reducef es j')"

text \<open>No output file is being written.\<close>

definition outputs_closed :: "job \<Rightarrow> bool" where
  "outputs_closed j \<longleftrightarrow> list_all (\<lambda>st. case target st of Some (Inr y) \<Rightarrow> False | _ \<Rightarrow> True) (jworkers j)"

section \<open>What a worker has done so far\<close>

text \<open>
  The intermediate files of a map task below bucket \<open>y\<close> are in place, and the temporary file of bucket \<open>y\<close>
  holds the records encoded so far.
\<close>

abbreviation tmp_of :: "int \<Rightarrow> int \<Rightarrow> string" where
  "tmp_of x y \<equiv> mr_name x y @ ''.tmp''"

definition map_pending :: "int \<Rightarrow> KeyValue list \<Rightarrow> FS \<Rightarrow> int \<Rightarrow> fileop list \<Rightarrow> bool" where
  "map_pending Y kvs f x ops \<longleftrightarrow> (\<exists>y. 1 \<le> y \<and> y \<le> Y + 1 \<and>
     (\<forall>z. 1 \<le> z \<and> z < y \<longrightarrow> f (mr_name x z) = Some (Json (bucket Y z kvs))) \<and>
     (ops = mapper_ops x y Y (\<lambda>y. bucket Y y kvs) \<or>
      y \<le> Y \<and> (\<exists>before rest. bucket Y y kvs = before @ rest \<and> f (tmp_of x y) = Some (Json before) \<and>
        ops = map (OpWrite (tmp_of x y)) rest @ OpRename (tmp_of x y) (mr_name x y) #
              mapper_ops x (y + 1) Y (\<lambda>y. bucket Y y kvs))))"

lemma mapper_ops_next:
  "y \<le> Y \<Longrightarrow> mapper_ops x y Y mp = OpCreate (tmp_of x y) # map (OpWrite (tmp_of x y)) (mp y) @
     OpRename (tmp_of x y) (mr_name x y) # mapper_ops x (y + 1) Y mp"
  by (simp add: mapper_ops_def upto_rec1 [of y Y] writer_ops_def)

lemma mapper_ops_end: "Y < y \<Longrightarrow> mapper_ops x y Y mp = []"
  by (simp add: mapper_ops_def)

lemma map_pending_frame:
  assumes "\<And>z. f' (mr_name x z) = f (mr_name x z)" "\<And>z. f' (tmp_of x z) = f (tmp_of x z)"
  shows "map_pending Y kvs f' x ops = map_pending Y kvs f x ops"
  using assms by (simp add: map_pending_def)

lemma map_pending_start:
  assumes "1 \<le> Y"
  shows "map_pending Y kvs f x (mapper_ops x 1 Y (\<lambda>y. bucket Y y kvs))"
  using assms unfolding map_pending_def by (intro exI [of _ 1]) auto

lemma map_pending_done:
  assumes "map_pending Y kvs f x []" "1 \<le> y" "y \<le> Y"
  shows "f (mr_name x y) = Some (Json (bucket Y y kvs))"
proof -
  obtain y0 where y0: "1 \<le> y0" "y0 \<le> Y + 1" "\<And>z. 1 \<le> z \<Longrightarrow> z < y0 \<Longrightarrow> f (mr_name x z) = Some (Json (bucket Y z kvs))"
    "[] = mapper_ops x y0 Y (\<lambda>y. bucket Y y kvs)"
    using assms(1) by (auto simp: map_pending_def)
  have "y0 = Y + 1" using y0(2,4) mapper_ops_next [of y0 Y x] by (cases "y0 \<le> Y") auto
  then show ?thesis using y0(3) assms(2,3) by simp
qed

text \<open>One operation of the map task: it touches its own files, and a file gets its name complete.\<close>

lemma map_pending_step:
  assumes p: "map_pending Y kvs f x (op # ops)" and x: "0 \<le> x"
  shows "map_pending Y kvs (apply_op op f) x ops \<and>
    (\<forall>n. apply_op op f n = f n \<or> (\<exists>z. n = tmp_of x z) \<or>
      (\<exists>z. n = mr_name x z \<and> apply_op op f n = Some (Json (bucket Y z kvs))))"
proof -
  let ?mp = "\<lambda>y. bucket Y y kvs"
  obtain y where y: "1 \<le> y" "y \<le> Y + 1" "\<And>z. 1 \<le> z \<Longrightarrow> z < y \<Longrightarrow> f (mr_name x z) = Some (Json (bucket Y z kvs))"
    and c: "op # ops = mapper_ops x y Y ?mp \<or> y \<le> Y \<and> (\<exists>before rest. bucket Y y kvs = before @ rest \<and>
        f (tmp_of x y) = Some (Json before) \<and>
        op # ops = map (OpWrite (tmp_of x y)) rest @ OpRename (tmp_of x y) (mr_name x y) # mapper_ops x (y + 1) Y ?mp)"
    using p unfolding map_pending_def by blast
  have d: "tmp_of x y \<noteq> mr_name x z" "mr_name x z \<noteq> tmp_of x y" for z
    using tmp_name(1) [of x y x z] by (auto simp: eq_commute)
  consider (create) "y \<le> Y" "op = OpCreate (tmp_of x y)"
      "ops = map (OpWrite (tmp_of x y)) (?mp y) @ OpRename (tmp_of x y) (mr_name x y) # mapper_ops x (y + 1) Y ?mp"
    | (item) before kv rest where "y \<le> Y" "bucket Y y kvs = before @ kv # rest" "f (tmp_of x y) = Some (Json before)"
      "op = OpWrite (tmp_of x y) kv"
      "ops = map (OpWrite (tmp_of x y)) rest @ OpRename (tmp_of x y) (mr_name x y) # mapper_ops x (y + 1) Y ?mp"
    | (rename) "y \<le> Y" "f (tmp_of x y) = Some (Json (?mp y))" "op = OpRename (tmp_of x y) (mr_name x y)"
      "ops = mapper_ops x (y + 1) Y ?mp"
    using c
  proof (elim disjE conjE exE)
    assume e: "op # ops = mapper_ops x y Y ?mp"
    then have "y \<le> Y" using mapper_ops_end [of Y y x ?mp] by (cases "y \<le> Y") auto
    then show thesis using create e mapper_ops_next [of y Y x ?mp] by auto
  next
    fix before rest
    assume b: "y \<le> Y" "bucket Y y kvs = before @ rest" "f (tmp_of x y) = Some (Json before)"
      "op # ops = map (OpWrite (tmp_of x y)) rest @ OpRename (tmp_of x y) (mr_name x y) # mapper_ops x (y + 1) Y ?mp"
    then show thesis using item rename by (cases rest) auto
  qed
  then show ?thesis
  proof cases
    case create
    have "map_pending Y kvs (apply_op op f) x ops"
      unfolding map_pending_def using create y d by (intro exI [of _ y]) auto
    then show ?thesis using create by auto
  next
    case item
    have "map_pending Y kvs (apply_op op f) x ops"
      unfolding map_pending_def using item y d
      by (intro exI [of _ y]) (auto intro!: exI [of _ "before @ [kv]"])
    then show ?thesis using item by auto
  next
    case rename
    have n: "mr_name x z = mr_name x y \<longleftrightarrow> z = y" for z using mr_name_inj [OF x x] by auto
    have "map_pending Y kvs (apply_op op f) x ops"
      unfolding map_pending_def using rename y n d by (intro exI [of _ "y + 1"]) auto
    then show ?thesis using rename d by auto
  qed
qed

section \<open>The invariant of the running job\<close>

text \<open>How far each worker has come, in terms of the files; \<open>ph\<close> is the coordinator's phase.\<close>

fun exec_ok ::
  "map_order \<Rightarrow> mapf \<Rightarrow> reducef \<Rightarrow> string list \<Rightarrow> (string \<Rightarrow> string) \<Rightarrow> int \<Rightarrow> int \<Rightarrow> FS \<Rightarrow> worker_state \<Rightarrow> bool" where
  "exec_ok perm mapf reducef fnames txt Y ph f (Mapped x Y' kvs) \<longleftrightarrow>
     1 \<le> x \<and> x \<le> int (length fnames) \<and> Y' = Y \<and> kvs = kvs_of mapf fnames txt x"
| "exec_ok perm mapf reducef fnames txt Y ph f (WritingMap x ops) \<longleftrightarrow>
     1 \<le> x \<and> x \<le> int (length fnames) \<and> map_pending Y (kvs_of mapf fnames txt x) f x ops"
| "exec_ok perm mapf reducef fnames txt Y ph f (Reading y X x mp) \<longleftrightarrow>
     1 \<le> y \<and> y \<le> Y \<and> ph \<noteq> 0 \<and> X = int (length fnames) \<and> 1 \<le> x \<and> x \<le> X + 1 \<and>
     mp = fold add_value (concat (map (\<lambda>x. bucket Y y (kvs_of mapf fnames txt x)) [1..x - 1])) []"
| "exec_ok perm mapf reducef fnames txt Y ph f (WritingOut y mp) \<longleftrightarrow>
     1 \<le> y \<and> y \<le> Y \<and> ph \<noteq> 0 \<and>
     (\<exists>written. perm (fold add_value (bucket Y y (all_kvs mapf fnames txt)) []) = written @ mp \<and>
        f (out_name y) = Some (Out (map (\<lambda>(k, vs). out_line k (reducef k vs)) written)))"
| "exec_ok perm mapf reducef fnames txt Y ph f st \<longleftrightarrow> True"

text \<open>The files that a worker owns while it writes.\<close>

fun owned :: "worker_state \<Rightarrow> string \<Rightarrow> bool" where
  "owned (WritingMap x ops) n \<longleftrightarrow> (\<exists>z. n = mr_name x z \<or> n = tmp_of x z)"
| "owned (WritingOut y mp) n \<longleftrightarrow> n = out_name y"
| "owned st n \<longleftrightarrow> False"

lemma exec_ok_frame:
  assumes "\<And>n. owned st n \<Longrightarrow> f' n = f n"
  shows "exec_ok perm mapf reducef fnames txt Y ph f' st = exec_ok perm mapf reducef fnames txt Y ph f st"
proof (cases st)
  case (WritingMap x ops)
  have "map_pending Y (kvs_of mapf fnames txt x) f' x ops = map_pending Y (kvs_of mapf fnames txt x) f x ops"
    by (rule map_pending_frame) (use assms WritingMap in auto)
  then show ?thesis by (simp add: WritingMap)
qed (use assms in auto)

lemma exec_ok_phase:
  "exec_ok perm mapf reducef fnames txt Y ph f st \<Longrightarrow> (ph \<noteq> 0 \<Longrightarrow> ph' \<noteq> 0) \<Longrightarrow>
   exec_ok perm mapf reducef fnames txt Y ph' f st"
  by (cases st) auto

lemma owned_disjoint:
  assumes "exec_ok perm mapf reducef fnames txt Y ph f st" "exec_ok perm' mapf' reducef' fnames' txt' Y' ph' f' st'"
    "owned st n" "owned st' n"
  shows "target st = target st'"
proof -
  have tmp: "tmp_of a b = tmp_of a' b' \<Longrightarrow> mr_name a b = mr_name a' b'" for a b a' b' by simp
  show ?thesis
    using assms mr_name_inj tmp_name out_mr_name out_name_inj
    by (cases st; cases st') (auto dest!: tmp, (force dest: sym)+)
qed

fun got :: "worker_state \<Rightarrow> TaskAssignment list" where
  "got (Got tap) = [tap]"
| "got st = []"

fun reporting :: "worker_state \<Rightarrow> TaskCompletion list" where
  "reporting (Finished tcp) = [tcp]"
| "reporting st = []"

lemma reporting_Finished: "tcp \<in> set (reporting st) \<Longrightarrow> st = Finished tcp"
  by (cases st) auto

lemma got_Got: "tap \<in> set (got st) \<Longrightarrow> st = Got tap"
  by (cases st) auto

definition job_abs :: "job \<Rightarrow> FS \<Rightarrow> mrsys" where
  "job_abs j g = \<lparr>coord = jcoord j, fs = g, held = concat (map got (jworkers j)),
     reports = concat (map reporting (jworkers j))\<rparr>"

definition single_writers :: "worker_state list \<Rightarrow> bool" where
  "single_writers ws \<longleftrightarrow> (\<forall>u v. u < length ws \<and> v < length ws \<and> target (ws ! u) \<noteq> None \<and>
     target (ws ! u) = target (ws ! v) \<longrightarrow> u = v)"

text \<open>\<open>settled j g\<close>: the files are as in \<open>g\<close>, up to temporary files and the output files being written.\<close>

definition settled :: "job \<Rightarrow> FS \<Rightarrow> bool" where
  "settled j g \<longleftrightarrow> (\<forall>n. (\<forall>x z. n \<noteq> tmp_of x z) \<and> (\<forall>y. n = out_name y \<longrightarrow> \<not> being_written j (Inr y)) \<longrightarrow>
     jfs j n = g n)"

definition job_ok :: "map_order \<Rightarrow> mapf \<Rightarrow> reducef \<Rightarrow> string list \<Rightarrow> (string \<Rightarrow> string) \<Rightarrow> int \<Rightarrow> job \<Rightarrow> FS \<Rightarrow> bool" where
  "job_ok perm mapf reducef fnames txt Y j g \<longleftrightarrow>
     sys_ok mapf reducef fnames txt Y (job_abs j g) \<and> settled j g \<and> single_writers (jworkers j) \<and>
     (\<forall>st \<in> set (jworkers j). exec_ok perm mapf reducef fnames txt Y (phase (jcoord j)) (jfs j) st)"

lemma single_writers_update:
  assumes "single_writers ws" "w < length ws"
    and "target st \<noteq> None \<Longrightarrow> target st = target (ws ! w) \<or> target st \<notin> set (map target ws)"
  shows "single_writers (ws[w := st])"
  using assms unfolding single_writers_def
  by (auto simp: nth_list_update in_set_conv_nth) (metis nth_mem image_eqI in_set_conv_nth)+

section \<open>Every step keeps it\<close>

lemma set_worker_simps [simp]:
  "jcoord (set_worker j w st) = jcoord j" "jfs (set_worker j w st) = jfs j"
  "jworkers (set_worker j w st) = (jworkers j)[w := st]"
  by (simp_all add: set_worker_def)

lemma get_worker_Some: "get_worker j w = Some st \<Longrightarrow> w < length (jworkers j) \<and> st \<in> set (jworkers j) \<and> jworkers j ! w = st"
  by (auto simp: get_worker_def split: if_splits)

lemma target_owned: "owned st n \<Longrightarrow> target st \<noteq> None"
  by (cases st) auto

lemma set_concat_update:
  "w < length ws \<Longrightarrow> set (concat (map h (ws[w := st]))) \<subseteq> set (h st) \<union> set (concat (map h ws))"
  using set_update_subset_insert [of ws w st] by fastforce

lemma sys_ok_quiet:
  assumes "sys_ok mapf reducef fnames txt Y ((job_abs j g)\<lparr>fs := g'\<rparr>)" "w < length (jworkers j)"
    "got st = []" "reporting st = []"
  shows "sys_ok mapf reducef fnames txt Y (job_abs ((set_worker j w st)\<lparr>jfs := f\<rparr>) g')"
proof -
  let ?ws = "(jworkers j)[w := st]"
  have "set (concat (map got ?ws)) \<subseteq> set (concat (map got (jworkers j)))"
    "set (concat (map reporting ?ws)) \<subseteq> set (concat (map reporting (jworkers j)))"
    using set_concat_update [of w "jworkers j" got st] set_concat_update [of w "jworkers j" reporting st] assms by auto
  then have "sys_ok mapf reducef fnames txt Y ((job_abs j g)\<lparr>fs := g', held := concat (map got ?ws),
      reports := concat (map reporting ?ws)\<rparr>)"
    using sys_ok_subset [OF assms(1)] by (simp add: job_abs_def)
  then show ?thesis by (simp add: job_abs_def)
qed

lemma sys_ok_finished:
  assumes "sys_ok mapf reducef fnames txt Y ((job_abs j g)\<lparr>fs := g'\<rparr>)" "w < length (jworkers j)"
    and "1 \<le> tcLowerX tcp \<and> tcLowerX tcp \<le> int (length fnames) \<and> tcLowerY tcp = 0 \<and>
          map_ok mapf fnames txt Y g' (tcLowerX tcp) \<or>
        tcLowerX tcp = 0 \<and> 1 \<le> tcLowerY tcp \<and> tcLowerY tcp \<le> Y \<and> phase (jcoord j) \<noteq> 0 \<and>
          reduce_ok mapf reducef fnames txt Y g' (tcLowerY tcp)"
  shows "sys_ok mapf reducef fnames txt Y (job_abs ((set_worker j w (Finished tcp))\<lparr>jfs := f\<rparr>) g')"
proof -
  let ?ws = "(jworkers j)[w := Finished tcp]" and ?a = "(job_abs j g)\<lparr>fs := g'\<rparr>"
  have "sys_ok mapf reducef fnames txt Y (?a\<lparr>reports := tcp # reports ?a\<rparr>)"
    using assms(1,3) by (intro sys_ok_finish) (simp_all add: job_abs_def)
  moreover have "set (concat (map got ?ws)) \<subseteq> set (concat (map got (jworkers j)))"
    "set (concat (map reporting ?ws)) \<subseteq> insert tcp (set (concat (map reporting (jworkers j))))"
    using set_concat_update [of w "jworkers j" got "Finished tcp"]
      set_concat_update [of w "jworkers j" reporting "Finished tcp"] assms(2) by auto
  ultimately have "sys_ok mapf reducef fnames txt Y (?a\<lparr>reports := tcp # reports ?a\<rparr>\<lparr>held := concat (map got ?ws),
      reports := concat (map reporting ?ws)\<rparr>)"
    by (intro sys_ok_subset) (simp_all add: job_abs_def)
  then show ?thesis by (simp add: job_abs_def)
qed

text \<open>A step of one worker does not disturb the others.\<close>

lemma job_ok_worker:
  assumes ok: "job_ok perm mapf reducef fnames txt Y j g" and w: "get_worker j w = Some st"
    and e: "exec_ok perm mapf reducef fnames txt Y (phase (jcoord j)) f st'"
    and t: "target st' \<noteq> None \<Longrightarrow> target st' = target st \<or> target st' \<notin> set (map target (jworkers j))"
    and f: "\<And>n. f n \<noteq> jfs j n \<Longrightarrow> owned st n \<or> owned st' n"
    and s: "sys_ok mapf reducef fnames txt Y (job_abs ((set_worker j w st')\<lparr>jfs := f\<rparr>) g')"
      "settled ((set_worker j w st')\<lparr>jfs := f\<rparr>) g'"
  shows "job_ok perm mapf reducef fnames txt Y ((set_worker j w st')\<lparr>jfs := f\<rparr>) g'"
proof -
  let ?ws = "jworkers j"
  have w': "w < length ?ws" "st = ?ws ! w" using w by (auto simp: get_worker_def split: if_splits)
  have si: "single_writers ?ws" and ex: "\<And>st. st \<in> set ?ws \<Longrightarrow> exec_ok perm mapf reducef fnames txt Y (phase (jcoord j)) (jfs j) st"
    using ok by (auto simp: job_ok_def)
  have si': "single_writers (?ws[w := st'])" using si w' t by (intro single_writers_update) auto
  have "exec_ok perm mapf reducef fnames txt Y (phase (jcoord j)) f (?ws[w := st'] ! u)" if u: "u < length ?ws" for u
  proof (cases "u = w")
    case False
    have eu: "exec_ok perm mapf reducef fnames txt Y (phase (jcoord j)) (jfs j) (?ws ! u)" using ex u by simp
    have "f n = jfs j n" if n: "owned (?ws ! u) n" for n
    proof (rule ccontr)
      assume "f n \<noteq> jfs j n"
      then consider "owned st n" | "owned st' n" using f by blast
      then show False
      proof cases
        case 1
        then have "target st = target (?ws ! u)" using owned_disjoint [OF _ eu _ n] ex w' nth_mem by metis
        then show False using si w' u False target_owned [OF n] unfolding single_writers_def by metis
      next
        case 2
        then have "target st' = target (?ws ! u)" using owned_disjoint [OF e eu _ n] by blast
        then have "target (?ws[w := st'] ! w) = target (?ws[w := st'] ! u)" using False w' u by simp
        then show False using si' w' u False target_owned [OF n] unfolding single_writers_def
          by (metis length_list_update nth_list_update_neq)
      qed
    qed
    then show ?thesis using eu False exec_ok_frame [of "?ws ! u" f "jfs j"] by simp
  qed (use e w' in simp)
  then have "\<forall>st \<in> set (?ws[w := st']). exec_ok perm mapf reducef fnames txt Y (phase (jcoord j)) f st"
    by (auto simp: in_set_conv_nth)
  then show ?thesis using s si' by (simp add: job_ok_def)
qed

lemma settled_update:
  assumes se: "settled j g" and w: "get_worker j w = Some st"
    and own: "\<And>y. target st = Some (Inr y) \<Longrightarrow> target st' = Some (Inr y) \<or> f (out_name y) = g' (out_name y)"
    and other: "\<And>n. (\<And>x z. n \<noteq> tmp_of x z) \<Longrightarrow>
      (\<And>y. n = out_name y \<Longrightarrow> target st \<noteq> Some (Inr y) \<and> target st' \<noteq> Some (Inr y)) \<Longrightarrow>
      f n = jfs j n \<and> g' n = g n \<or> f n = g' n"
  shows "settled ((set_worker j w st')\<lparr>jfs := f\<rparr>) g'"
  unfolding settled_def
proof (intro allI impI, elim conjE)
  let ?j = "(set_worker j w st')\<lparr>jfs := f\<rparr>" and ?ws = "jworkers j"
  fix n assume n: "\<forall>x z. n \<noteq> tmp_of x z" "\<forall>y. n = out_name y \<longrightarrow> \<not> being_written ?j (Inr y)"
  have w': "w < length ?ws" "st = ?ws ! w" using w by (auto simp: get_worker_def split: if_splits)
  have new: "target st' \<noteq> Some (Inr y)" if "n = out_name y" for y
    using n(2) that w' set_update_memI [of w ?ws st'] by (force simp: being_written_def)
  have old: "\<not> being_written j (Inr y)" if y: "n = out_name y" "target st \<noteq> Some (Inr y)" for y
  proof
    assume "being_written j (Inr y)"
    then obtain u where "u < length ?ws" "target (?ws ! u) = Some (Inr y)"
      by (auto simp: being_written_def in_set_conv_nth)
    then have "u < length (?ws[w := st'])" "target (?ws[w := st'] ! u) = Some (Inr y)" using y w' by (auto simp: nth_list_update)
    then have "Some (Inr y) \<in> target ` set (?ws[w := st'])" by (metis imageI nth_mem)
    then have "being_written ?j (Inr y)" by (simp add: being_written_def)
    then show False using n(2) y by blast
  qed
  show "jfs ?j n = g' n"
  proof (cases "\<exists>y. n = out_name y \<and> target st = Some (Inr y)")
    case True
    then show ?thesis using own new by auto
  next
    case False
    then have "jfs j n = g n" using se n(1) old unfolding settled_def by blast
    then show ?thesis using other [of n] n(1) new False by auto
  qed
qed

text \<open>What the completed map tasks have left for a reduce task.\<close>

lemma settled_mr_name:
  assumes "job_ok perm mapf reducef fnames txt Y j g" "0 \<le> x"
  shows "jfs j (mr_name x y) = g (mr_name x y)"
  using assms out_mr_name [OF assms(2)] tmp_name(1) unfolding job_ok_def settled_def by metis

lemma phase_maps_ok:
  assumes "sys_ok mapf reducef fnames txt Y s" "phase (coord s) \<noteq> 0" "1 \<le> x" "x \<le> int (length fnames)"
  shows "map_ok mapf fnames txt Y (fs s) x"
proof -
  have "maps_done (coord s)" using assms(1,2) by (auto simp: sys_ok_def coord_ok_def)
  then show ?thesis using assms unfolding sys_ok_def maps_done_def by (metis map_option_eq_Some)
qed

lemma reduce_ok_lines:
  assumes "perm (fold add_value (bucket Y y (all_kvs mapf fnames txt)) []) = mp" "\<And>mp. mset (perm mp) = mset mp"
    and "f (out_name y) = Some (Out (map (\<lambda>(k, vs). out_line k (reducef k vs)) mp))"
  shows "reduce_ok mapf reducef fnames txt Y f y"
proof -
  let ?all = "all_kvs mapf fnames txt" and ?line = "\<lambda>(k, vs). out_line k (reducef k vs)"
  let ?mp = "fold add_value (bucket Y y ?all) []"
  have "mset mp = mset ?mp" by (simp flip: assms(1) add: assms(2))
  then have "mset (map ?line mp) = mset (map ?line ?mp)" by (simp only: mset_map)
  also have "\<dots> = group_lines reducef (bucket Y y ?all) (keys_of (bucket Y y ?all))"
    by (rule groups_lines) (rule groups_all)
  also have "\<dots> = group_lines reducef ?all {k \<in> keys_of ?all. yOf k Y = Some y}"
    unfolding keys_bucket group_lines_def
    by (rule image_mset_cong) (auto simp: values_bucket)
  finally show ?thesis using assms(3) by (auto simp: reduce_ok_def)
qed

text \<open>The application: what it returns, when it returns, is a function of its arguments.\<close>

definition implements :: "app_map \<Rightarrow> mapf \<Rightarrow> bool" where
  "implements mapf mapf0 \<longleftrightarrow> (\<forall>rr a b v. mapf rr a b = Some v \<longrightarrow> v = mapf0 a b)"

definition implements_reduce :: "app_reduce \<Rightarrow> reducef \<Rightarrow> bool" where
  "implements_reduce reducef reducef0 \<longleftrightarrow> (\<forall>rr a b v. reducef rr a b = Some v \<longrightarrow> v = reducef0 a b)"

text \<open>A worker that leaves an incomplete output file, of a task that nobody has completed.\<close>

lemma job_ok_abandon:
  assumes ok: "job_ok perm mapf reducef fnames txt Y j g" and w: "get_worker j w = Some (WritingOut y mp)"
    and c: "\<not> completed j y" and names: "\<And>n. n \<in> set fnames \<Longrightarrow> \<not> job_name n"
  shows "\<exists>g'. job_ok perm mapf reducef fnames txt Y ((set_worker j w Gone)\<lparr>jfs := jfs j\<rparr>) g'"
proof -
  let ?g = "g(out_name y := jfs j (out_name y))"
  have s: "sys_ok mapf reducef fnames txt Y (job_abs j g)" and se: "settled j g" using ok by (auto simp: job_ok_def)
  have w': "w < length (jworkers j)" using w by (auto simp: get_worker_def split: if_splits)
  have m: "map_ok mapf fnames txt Y ?g x = map_ok mapf fnames txt Y g x" if "1 \<le> x" for x
    using out_mr_name [of x y] that by (intro map_ok_frame) (simp add: not_sym)
  have r: "reduce_ok mapf reducef fnames txt Y ?g z = reduce_ok mapf reducef fnames txt Y g z" if "z \<noteq> y" for z
    using that out_name_inj [of z y] by (auto simp: reduce_ok_def)
  have fin: "tcLowerY tcp \<noteq> y" if "Finished tcp \<in> set (jworkers j)" "tcLowerX tcp = 0" for tcp
    using c that by (cases tcp) (auto simp: completed_def)
  have "sys_ok mapf reducef fnames txt Y ((job_abs j g)\<lparr>fs := ?g\<rparr>)"
  proof (rule sys_ok_files [OF s])
    fix tcp assume t: "tcp \<in> set (reports (job_abs j g))" "tcLowerX tcp = 0"
    then have "Finished tcp \<in> set (jworkers j)" by (auto simp: job_abs_def dest: reporting_Finished)
    then show "reduce_ok mapf reducef fnames txt Y ?g (tcLowerY tcp)"
      if "reduce_ok mapf reducef fnames txt Y (fs (job_abs j g)) (tcLowerY tcp)"
      using that r fin t(2) by (simp add: job_abs_def)
  next
    show "reduce_ok mapf reducef fnames txt Y ?g z"
      if "the_reduce (coord (job_abs j g)) z = Some t" "rtStatus t = Done"
        "reduce_ok mapf reducef fnames txt Y (fs (job_abs j g)) z" for z t
      using that r [of z] c by (cases "z = y") (auto simp: job_abs_def completed_def)
    show "?g n = fs (job_abs j g) n" if "n \<in> set fnames" for n using names [OF that] by (auto simp: job_abs_def)
  qed (use m in \<open>simp add: job_abs_def\<close>)
  then have "sys_ok mapf reducef fnames txt Y (job_abs ((set_worker j w Gone)\<lparr>jfs := jfs j\<rparr>) ?g)"
    using w' by (intro sys_ok_quiet) auto
  moreover have "settled ((set_worker j w Gone)\<lparr>jfs := jfs j\<rparr>) ?g"
    by (rule settled_update [OF se w]) auto
  ultimately have "job_ok perm mapf reducef fnames txt Y ((set_worker j w Gone)\<lparr>jfs := jfs j\<rparr>) ?g"
    by (intro job_ok_worker [OF ok w]) auto
  then show ?thesis by blast
qed

text \<open>A step that changes no file.\<close>

lemma job_ok_no_files:
  assumes ok: "job_ok perm mapf reducef fnames txt Y j g" and w: "get_worker j w = Some st"
    and "got st' = []" "reporting st' = []" "\<And>y. target st \<noteq> Some (Inr y)"
    and "exec_ok perm mapf reducef fnames txt Y (phase (jcoord j)) (jfs j) st'"
    and "target st' \<noteq> None \<Longrightarrow> target st' = target st \<or> target st' \<notin> set (map target (jworkers j))"
  shows "job_ok perm mapf reducef fnames txt Y ((set_worker j w st')\<lparr>jfs := jfs j\<rparr>) g"
proof -
  have s: "sys_ok mapf reducef fnames txt Y (job_abs j g)" and se: "settled j g" using ok by (auto simp: job_ok_def)
  then have a: "sys_ok mapf reducef fnames txt Y ((job_abs j g)\<lparr>fs := g\<rparr>)" by (simp add: job_abs_def)
  have "w < length (jworkers j)" using w by (auto simp: get_worker_def split: if_splits)
  then have "sys_ok mapf reducef fnames txt Y (job_abs ((set_worker j w st')\<lparr>jfs := jfs j\<rparr>) g)"
    using a assms(3,4) by (intro sys_ok_quiet) auto
  moreover have "settled ((set_worker j w st')\<lparr>jfs := jfs j\<rparr>) g"
    by (rule settled_update [OF se w]) (use assms(5) in auto)
  ultimately show ?thesis using assms(6,7) by (intro job_ok_worker [OF ok w]) auto
qed

lemma job_ok_map_op:
  assumes ok: "job_ok perm mapf reducef fnames txt Y j g" and w: "get_worker j w = Some (WritingMap x (op # ops))"
    and names: "\<And>n. n \<in> set fnames \<Longrightarrow> \<not> job_name n"
  shows "\<exists>g'. job_ok perm mapf reducef fnames txt Y ((set_worker j w (WritingMap x ops))\<lparr>jfs := apply_op op (jfs j)\<rparr>) g'"
proof -
  let ?f = "apply_op op (jfs j)" and ?st = "WritingMap x (op # ops)" and ?st' = "WritingMap x ops"
  have s: "sys_ok mapf reducef fnames txt Y (job_abs j g)" and se: "settled j g" using ok by (auto simp: job_ok_def)
  have w': "w < length (jworkers j)" "?st \<in> set (jworkers j)" using get_worker_Some [OF w] by auto
  then have "exec_ok perm mapf reducef fnames txt Y (phase (jcoord j)) (jfs j) ?st" using ok by (auto simp: job_ok_def)
  then have x: "1 \<le> x" "x \<le> int (length fnames)" and p: "map_pending Y (kvs_of mapf fnames txt x) (jfs j) x (op # ops)" by auto
  have p': "map_pending Y (kvs_of mapf fnames txt x) ?f x ops"
    and ch: "\<And>n. ?f n = jfs j n \<or> (\<exists>z. n = tmp_of x z) \<or>
      (\<exists>z. n = mr_name x z \<and> ?f n = Some (Json (bucket Y z (kvs_of mapf fnames txt x))))"
    using map_pending_step [OF p] x by auto
  define g' where "g' = (\<lambda>n. if ?f n = jfs j n \<or> (\<exists>z. n = tmp_of x z) then g n else ?f n)"
  have right: "g' n = g n \<or> (\<exists>z. n = mr_name x z \<and> g' n = Some (Json (bucket Y z (kvs_of mapf fnames txt x))))" for n
    using ch [of n] by (auto simp: g'_def)
  have o: "g' (out_name y) = g (out_name y)" for y
    using right [of "out_name y"] out_mr_name [of x y] x by auto
  have "sys_ok mapf reducef fnames txt Y ((job_abs j g)\<lparr>fs := g'\<rparr>)"
  proof (rule sys_ok_files [OF s])
    fix z assume z: "1 \<le> z" and "map_ok mapf fnames txt Y (fs (job_abs j g)) z"
    then have m: "g (mr_name z y) = Some (Json (bucket Y y (kvs_of mapf fnames txt z)))" if "1 \<le> y" "y \<le> Y" for y
      using that by (simp add: map_ok_def job_abs_def)
    have "g' (mr_name z y) = Some (Json (bucket Y y (kvs_of mapf fnames txt z)))" if "1 \<le> y" "y \<le> Y" for y
      using right [of "mr_name z y"] m [OF that] mr_name_inj [of z x y] z x by auto
    then show "map_ok mapf fnames txt Y g' z" by (simp add: map_ok_def)
  next
    show "g' n = fs (job_abs j g) n" if "n \<in> set fnames" for n
      using right [of n] names [OF that] by (auto simp: job_abs_def)
  qed (simp_all add: reduce_ok_def o job_abs_def)
  then have "sys_ok mapf reducef fnames txt Y (job_abs ((set_worker j w ?st')\<lparr>jfs := ?f\<rparr>) g')"
    using w' by (intro sys_ok_quiet) auto
  moreover have "settled ((set_worker j w ?st')\<lparr>jfs := ?f\<rparr>) g'"
    by (rule settled_update [OF se w]) (auto simp: g'_def)
  ultimately have "job_ok perm mapf reducef fnames txt Y ((set_worker j w ?st')\<lparr>jfs := ?f\<rparr>) g'"
    using p' x ch by (intro job_ok_worker [OF ok w]) auto
  then show ?thesis by blast
qed

text \<open>A worker that has written the whole output file.\<close>

lemma job_ok_out_done:
  assumes ok: "job_ok perm mapf reducef fnames txt Y j g" and w: "get_worker j w = Some (WritingOut y [])"
    and perm: "\<And>mp. mset (perm mp) = mset mp" and names: "\<And>n. n \<in> set fnames \<Longrightarrow> \<not> job_name n"
  shows "\<exists>g'. job_ok perm mapf reducef fnames txt Y
    ((set_worker j w (Finished \<lparr>tcLowerX = 0, tcLowerY = y\<rparr>))\<lparr>jfs := jfs j\<rparr>) g'"
proof -
  let ?g = "g(out_name y := jfs j (out_name y))" and ?t = "\<lparr>tcLowerX = 0, tcLowerY = y\<rparr>"
  have s: "sys_ok mapf reducef fnames txt Y (job_abs j g)" and se: "settled j g" using ok by (auto simp: job_ok_def)
  have w': "w < length (jworkers j)" "WritingOut y [] \<in> set (jworkers j)" using get_worker_Some [OF w] by auto
  then have "exec_ok perm mapf reducef fnames txt Y (phase (jcoord j)) (jfs j) (WritingOut y [])" using ok by (auto simp: job_ok_def)
  then have y: "1 \<le> y" "y \<le> Y" "phase (jcoord j) \<noteq> 0" "jfs j (out_name y) = Some (Out (map (\<lambda>(k, vs). out_line k (reducef k vs))
      (perm (fold add_value (bucket Y y (all_kvs mapf fnames txt)) []))))" by auto
  have r: "reduce_ok mapf reducef fnames txt Y ?g y" by (rule reduce_ok_lines [OF refl perm]) (simp add: y(4))
  have m: "map_ok mapf fnames txt Y ?g x = map_ok mapf fnames txt Y g x" if "1 \<le> x" for x
    using out_mr_name [of x y] that by (intro map_ok_frame) (simp add: not_sym)
  have r': "reduce_ok mapf reducef fnames txt Y ?g z" if "reduce_ok mapf reducef fnames txt Y g z" for z
    using r that out_name_inj [of z y] by (cases "z = y") (auto simp: reduce_ok_def)
  have "sys_ok mapf reducef fnames txt Y ((job_abs j g)\<lparr>fs := ?g\<rparr>)"
    by (rule sys_ok_files [OF s]) (use m r' names job_names(3) [of y] in \<open>fastforce simp: job_abs_def\<close>)+
  then have "sys_ok mapf reducef fnames txt Y (job_abs ((set_worker j w (Finished ?t))\<lparr>jfs := jfs j\<rparr>) ?g)"
    using w' r y by (intro sys_ok_finished) auto
  moreover have "settled ((set_worker j w (Finished ?t))\<lparr>jfs := jfs j\<rparr>) ?g"
    by (rule settled_update [OF se w]) auto
  ultimately have "job_ok perm mapf reducef fnames txt Y ((set_worker j w (Finished ?t))\<lparr>jfs := jfs j\<rparr>) ?g"
    by (intro job_ok_worker [OF ok w]) auto
  then show ?thesis by blast
qed

text \<open>A worker that creates the output file or adds a line to it.\<close>

lemma job_ok_out_line:
  assumes ok: "job_ok perm mapf reducef fnames txt Y j g" and w: "get_worker j w = Some st"
    and e: "exec_ok perm mapf reducef fnames txt Y (phase (jcoord j)) f (WritingOut y mp)"
    and t: "target st = Some (Inr y) \<or> target st = None \<and> \<not> being_written j (Inr y)"
    and f: "\<And>n. n \<noteq> out_name y \<Longrightarrow> f n = jfs j n"
  shows "job_ok perm mapf reducef fnames txt Y ((set_worker j w (WritingOut y mp))\<lparr>jfs := f\<rparr>) g"
proof -
  have s: "sys_ok mapf reducef fnames txt Y (job_abs j g)" and se: "settled j g" using ok by (auto simp: job_ok_def)
  then have a: "sys_ok mapf reducef fnames txt Y ((job_abs j g)\<lparr>fs := g\<rparr>)" by (simp add: job_abs_def)
  have "w < length (jworkers j)" using w by (auto simp: get_worker_def split: if_splits)
  then have "sys_ok mapf reducef fnames txt Y (job_abs ((set_worker j w (WritingOut y mp))\<lparr>jfs := f\<rparr>) g)"
    using a by (intro sys_ok_quiet) auto
  moreover have "settled ((set_worker j w (WritingOut y mp))\<lparr>jfs := f\<rparr>) g"
    by (rule settled_update [OF se w]) (use t f in auto)
  ultimately show ?thesis
    using e t f by (intro job_ok_worker [OF ok w]) (auto simp: being_written_def)
qed

text \<open>A worker with its assignment: it reads the input and calls \<^verbatim>\<open>Map\<close>, or goes on to read.\<close>

lemma job_ok_Got:
  assumes ok: "job_ok perm mapf reducef fnames txt Y j g" and w: "get_worker j w = Some (Got tap)"
    and names: "\<And>n. n \<in> set fnames \<Longrightarrow> \<not> job_name n" and app: "implements amap mapf"
    and st: "worker_step perm amap areduce rr (Got tap) (jfs j) = Some (st', f)"
  shows "job_ok perm mapf reducef fnames txt Y ((set_worker j w st')\<lparr>jfs := f\<rparr>) g"
proof -
  have s: "sys_ok mapf reducef fnames txt Y (job_abs j g)" using ok by (auto simp: job_ok_def)
  have "tap \<in> set (held (job_abs j g))" using get_worker_Some [OF w] by (force simp: job_abs_def)
  then have tap: "taX tap = int (length fnames)" "taY tap = Y"
    "taTaskType tap = TaskMap \<Longrightarrow> 1 \<le> taLowerX tap \<and> taLowerX tap \<le> int (length fnames) \<and>
       taFilename tap = fnames ! nat (taLowerX tap - 1)"
    "taTaskType tap = TaskReduce \<Longrightarrow> 1 \<le> taLowerY tap \<and> taLowerY tap \<le> Y \<and> phase (jcoord j) \<noteq> 0"
    using s by (auto simp: sys_ok_def job_abs_def)
  have input: "jfs j n = Some (Text (txt n))" if "n \<in> set fnames" for n
  proof -
    have "n \<noteq> tmp_of x z" "n \<noteq> out_name y" for x y z using names [OF that] by auto
    then have "jfs j n = g n" using ok unfolding job_ok_def settled_def by blast
    then show ?thesis using s that by (simp add: sys_ok_def job_abs_def)
  qed
  have f: "f = jfs j" and st': "got st' = []" "reporting st' = []" "target st' = None"
    using st by (auto split: TaskType.splits option.splits content.splits)
  have "exec_ok perm mapf reducef fnames txt Y (phase (jcoord j)) (jfs j) st'"
  proof (cases "taTaskType tap")
    case TaskMap
    have "taFilename tap \<in> set fnames" using tap(3) [OF TaskMap] by (auto intro!: nth_mem)
    then show ?thesis
      using st TaskMap tap input [of "taFilename tap"] app by (auto simp: implements_def kvs_of_def split: option.splits)
  qed (use st tap in auto)
  then show ?thesis using job_ok_no_files [OF ok w, of st'] st' f by auto
qed

text \<open>A worker that has renamed its last intermediate file.\<close>

lemma job_ok_map_done:
  assumes ok: "job_ok perm mapf reducef fnames txt Y j g" and w: "get_worker j w = Some (WritingMap x [])"
  shows "job_ok perm mapf reducef fnames txt Y
    ((set_worker j w (Finished \<lparr>tcLowerX = x, tcLowerY = 0\<rparr>))\<lparr>jfs := jfs j\<rparr>) g"
proof -
  let ?st = "Finished \<lparr>tcLowerX = x, tcLowerY = 0\<rparr>"
  have s: "sys_ok mapf reducef fnames txt Y ((job_abs j g)\<lparr>fs := g\<rparr>)" using ok by (auto simp: job_ok_def job_abs_def)
  have x: "1 \<le> x" "x \<le> int (length fnames)" "map_pending Y (kvs_of mapf fnames txt x) (jfs j) x []"
    using ok get_worker_Some [OF w] by (fastforce simp: job_ok_def)+
  have "map_ok mapf fnames txt Y g x"
    using map_pending_done [OF x(3)] settled_mr_name [OF ok, of x] x(1) by (auto simp: map_ok_def)
  then have "sys_ok mapf reducef fnames txt Y (job_abs ((set_worker j w ?st)\<lparr>jfs := jfs j\<rparr>) g)"
    using s get_worker_Some [OF w] x by (intro sys_ok_finished) auto
  moreover have "settled ((set_worker j w ?st)\<lparr>jfs := jfs j\<rparr>) g"
    by (rule settled_update [OF _ w]) (use ok in \<open>auto simp: job_ok_def\<close>)
  ultimately show ?thesis by (intro job_ok_worker [OF ok w]) auto
qed

text \<open>A worker that reads the next intermediate file, or has read them all.\<close>

lemma job_ok_Reading:
  assumes ok: "job_ok perm mapf reducef fnames txt Y j g" and w: "get_worker j w = Some (Reading y X x mp)"
    and st: "worker_step perm amap areduce rr (Reading y X x mp) (jfs j) = Some (st', f)"
    and o: "step_orderly areduce rr j (Reading y X x mp)"
  shows "job_ok perm mapf reducef fnames txt Y ((set_worker j w st')\<lparr>jfs := f\<rparr>) g"
proof -
  have s: "sys_ok mapf reducef fnames txt Y (job_abs j g)" using ok by (auto simp: job_ok_def)
  have "exec_ok perm mapf reducef fnames txt Y (phase (jcoord j)) (jfs j) (Reading y X x mp)"
    using ok get_worker_Some [OF w] by (auto simp: job_ok_def)
  then have r: "1 \<le> y" "y \<le> Y" "phase (jcoord j) \<noteq> 0" "X = int (length fnames)" "1 \<le> x" "x \<le> X + 1"
    "mp = fold add_value (concat (map (\<lambda>x. bucket Y y (kvs_of mapf fnames txt x)) [1..x - 1])) []" by auto
  show ?thesis
  proof (cases "x \<le> X")
    case True
    have "map_ok mapf fnames txt Y g x" using phase_maps_ok [OF s, of x] r True by (simp add: job_abs_def)
    then have "jfs j (mr_name x y) = Some (Json (bucket Y y (kvs_of mapf fnames txt x)))"
      using settled_mr_name [OF ok, of x y] r by (auto simp: map_ok_def)
    then have st': "st' = Reading y X (x + 1) (fold add_value (bucket Y y (kvs_of mapf fnames txt x)) mp)" "f = jfs j"
      using st True by auto
    have "[1..x] = [1..x - 1] @ [x]" using r(5) by (simp add: upto_rec2)
    then show ?thesis using job_ok_no_files [OF ok w, of st'] r True unfolding st' by auto
  next
    case False
    then have st': "st' = WritingOut y (perm mp)" "f = (jfs j)(out_name y \<mapsto> Out [])" using st by auto
    have "x - 1 = int (length fnames)" using False r by simp
    then have "mp = fold add_value (bucket Y y (all_kvs mapf fnames txt)) []"
      using r(7) by (simp add: concat_bucket concat_kvs)
    then show ?thesis using r o False unfolding st' by (intro job_ok_out_line [OF ok w]) auto
  qed
qed

lemma job_ok_WritingOut:
  assumes ok: "job_ok perm mapf reducef fnames txt Y j g" and w: "get_worker j w = Some (WritingOut y mp)"
    and perm: "\<And>mp. mset (perm mp) = mset mp" and names: "\<And>n. n \<in> set fnames \<Longrightarrow> \<not> job_name n"
    and app: "implements_reduce areduce reducef"
    and st: "worker_step perm amap areduce rr (WritingOut y mp) (jfs j) = Some (st', f)"
    and o: "step_orderly areduce rr j (WritingOut y mp)"
  shows "\<exists>g'. job_ok perm mapf reducef fnames txt Y ((set_worker j w st')\<lparr>jfs := f\<rparr>) g'"
proof (cases mp)
  case Nil
  then show ?thesis using job_ok_out_done [OF ok _ perm names, of w y] w st by auto
next
  case (Cons kv rest)
  obtain key vals where kv: "kv = (key, vals)" by (cases kv)
  show ?thesis
  proof (cases "areduce rr key vals")
    case None
    then show ?thesis using job_ok_abandon [OF ok w _ names] st o Cons kv by auto
  next
    case (Some out)
    then have out: "out = reducef key vals" using app by (auto simp: implements_reduce_def)
    have "exec_ok perm mapf reducef fnames txt Y (phase (jcoord j)) (jfs j) (WritingOut y mp)"
      using ok get_worker_Some [OF w] by (auto simp: job_ok_def)
    then obtain written where wr: "1 \<le> y" "y \<le> Y" "phase (jcoord j) \<noteq> 0"
      "perm (fold add_value (bucket Y y (all_kvs mapf fnames txt)) []) = written @ mp"
      "jfs j (out_name y) = Some (Out (map (\<lambda>(k, vs). out_line k (reducef k vs)) written))" by auto
    have st': "st' = WritingOut y rest"
      "f = (jfs j)(out_name y \<mapsto> Out (map (\<lambda>(k, vs). out_line k (reducef k vs)) written @ [out_line key out]))"
      using st Cons kv Some wr(5) by auto
    have "job_ok perm mapf reducef fnames txt Y ((set_worker j w st')\<lparr>jfs := f\<rparr>) g"
      using wr Cons kv out unfolding st'
      by (intro job_ok_out_line [OF ok w]) (auto intro!: exI [of _ "written @ [(key, vals)]"])
    then show ?thesis by blast
  qed
qed

lemma job_ok_JStep:
  assumes ok: "job_ok perm mapf reducef fnames txt Y j g" and w: "get_worker j w = Some st" and Y: "1 \<le> Y"
    and perm: "\<And>mp. mset (perm mp) = mset mp" and names: "\<And>n. n \<in> set fnames \<Longrightarrow> \<not> job_name n"
    and app: "implements amap mapf" "implements_reduce areduce reducef"
    and st: "worker_step perm amap areduce rr st (jfs j) = Some (st', f)" and o: "step_orderly areduce rr j st"
  shows "\<exists>g'. job_ok perm mapf reducef fnames txt Y ((set_worker j w st')\<lparr>jfs := f\<rparr>) g'"
proof (cases st)
  case (Got tap)
  then show ?thesis using job_ok_Got [OF ok _ names app(1), of w tap] w st by blast
next
  case (Mapped x Y' kvs)
  have "exec_ok perm mapf reducef fnames txt Y (phase (jcoord j)) (jfs j) st"
    using ok get_worker_Some [OF w] by (auto simp: job_ok_def)
  then have x: "1 \<le> x" "x \<le> int (length fnames)" "Y' = Y" "kvs = kvs_of mapf fnames txt x" using Mapped by auto
  have "divide Y kvs (\<lambda>_. []) = Some (\<lambda>y. bucket Y y kvs)" using Y by (simp add: divide_buckets)
  then have st': "st' = WritingMap x (mapper_ops x 1 Y (\<lambda>y. bucket Y y kvs))" "f = jfs j" using st Mapped x(3) by auto
  then have "job_ok perm mapf reducef fnames txt Y ((set_worker j w st')\<lparr>jfs := f\<rparr>) g"
    using job_ok_no_files [OF ok w, of st'] Mapped x o map_pending_start [OF Y] by (auto simp: being_written_def)
  then show ?thesis by blast
next
  case (WritingMap x ops)
  then show ?thesis
    using job_ok_map_done [OF ok, of w x] job_ok_map_op [OF ok _ names, of w x] w st by (cases ops) auto
next
  case (Reading y X x mp)
  then show ?thesis using job_ok_Reading [OF ok _ _ _, of w y X x mp] w st o by blast
next
  case (WritingOut y mp)
  then show ?thesis using job_ok_WritingOut [OF ok _ perm names app(2), of w y mp] w st o by blast
qed (use st in auto)

text \<open>The two RPCs.\<close>

lemma job_ok_coord:
  assumes "job_ok perm mapf reducef fnames txt Y j g" "get_worker j w = Some st" "target st = None" "target st' = None"
    and "exec_ok perm mapf reducef fnames txt Y (phase c) (jfs j) st'"
    and "phase (jcoord j) \<noteq> 0 \<longrightarrow> phase c \<noteq> 0"
    and "sys_ok mapf reducef fnames txt Y (job_abs ((set_worker j w st')\<lparr>jcoord := c\<rparr>) g)"
  shows "job_ok perm mapf reducef fnames txt Y ((set_worker j w st')\<lparr>jcoord := c\<rparr>) g"
proof -
  have w: "w < length (jworkers j)" "jworkers j ! w = st" using get_worker_Some [OF assms(2)] by auto
  have "single_writers ((jworkers j)[w := st'])"
    using assms(1,4) w by (intro single_writers_update) (auto simp: job_ok_def)
  moreover have "settled ((set_worker j w st')\<lparr>jfs := jfs j\<rparr>) g"
    by (rule settled_update [OF _ assms(2)]) (use assms(1,3,4) in \<open>auto simp: job_ok_def\<close>)
  then have "settled ((set_worker j w st')\<lparr>jcoord := c\<rparr>) g" by (simp add: settled_def being_written_def)
  moreover have "exec_ok perm mapf reducef fnames txt Y (phase c) (jfs j) st1" if "st1 \<in> set ((jworkers j)[w := st'])" for st1
  proof -
    have "st1 = st' \<or> st1 \<in> set (jworkers j)" using set_update_subset_insert that by fastforce
    then show ?thesis using assms(1,5,6) exec_ok_phase by (metis job_ok_def)
  qed
  ultimately show ?thesis using assms(7) by (simp add: job_ok_def)
qed

lemma job_ok_JRequest:
  assumes ok: "job_ok perm mapf reducef fnames txt Y j g" and w: "get_worker j w = Some Idle"
    and r: "RequestTask now (jcoord j) = Some (c, tap)"
  shows "job_ok perm mapf reducef fnames txt Y ((set_worker j w (Got tap))\<lparr>jcoord := c\<rparr>) g"
proof (rule job_ok_coord [OF ok w])
  let ?ws = "(jworkers j)[w := Got tap]" and ?a = "(job_abs j g)\<lparr>coord := c, held := tap # held (job_abs j g)\<rparr>"
  have s: "sys_ok mapf reducef fnames txt Y (job_abs j g)" using ok by (simp add: job_ok_def)
  then have "coord_ok (jcoord j)" by (simp add: sys_ok_def job_abs_def)
  from RequestTask_ok [OF this r] this show "phase (jcoord j) \<noteq> 0 \<longrightarrow> phase c \<noteq> 0" by (auto simp: coord_ok_def)
  have "sys_ok mapf reducef fnames txt Y ?a"
    using sys_ok_request [OF s, of now c tap] r by (simp add: job_abs_def)
  then have "sys_ok mapf reducef fnames txt Y (?a\<lparr>held := concat (map got ?ws), reports := concat (map reporting ?ws)\<rparr>)"
    using set_concat_update [of w "jworkers j" got "Got tap"] set_concat_update [of w "jworkers j" reporting "Got tap"]
      get_worker_Some [OF w] by (intro sys_ok_subset) (auto simp: job_abs_def)
  then show "sys_ok mapf reducef fnames txt Y (job_abs ((set_worker j w (Got tap))\<lparr>jcoord := c\<rparr>) g)"
    by (simp add: job_abs_def)
qed simp_all

lemma job_ok_JReport:
  assumes ok: "job_ok perm mapf reducef fnames txt Y j g" and w: "get_worker j w = Some (Finished tcp)"
    and r: "ResponseTask (jcoord j) tcp = Some c"
  shows "job_ok perm mapf reducef fnames txt Y ((set_worker j w Idle)\<lparr>jcoord := c\<rparr>) g"
proof (rule job_ok_coord [OF ok w])
  let ?ws = "(jworkers j)[w := Idle]" and ?a = "(job_abs j g)\<lparr>coord := c\<rparr>"
  have s: "sys_ok mapf reducef fnames txt Y (job_abs j g)" using ok by (simp add: job_ok_def)
  have tcp: "tcp \<in> set (reports (job_abs j g))" using get_worker_Some [OF w] by (force simp: job_abs_def)
  have "sys_ok mapf reducef fnames txt Y ?a" "phase (jcoord j) = phase c"
    using sys_ok_report [OF s tcp] r by (auto simp: job_abs_def)
  then show "phase (jcoord j) \<noteq> 0 \<longrightarrow> phase c \<noteq> 0" by simp
  have "sys_ok mapf reducef fnames txt Y (?a\<lparr>held := concat (map got ?ws), reports := concat (map reporting ?ws)\<rparr>)"
    using \<open>sys_ok mapf reducef fnames txt Y ?a\<close> set_concat_update [of w "jworkers j" got Idle]
      set_concat_update [of w "jworkers j" reporting Idle] get_worker_Some [OF w]
    by (intro sys_ok_subset) (auto simp: job_abs_def)
  then show "sys_ok mapf reducef fnames txt Y (job_abs ((set_worker j w Idle)\<lparr>jcoord := c\<rparr>) g)"
    by (simp add: job_abs_def)
qed simp_all

lemma job_ok_step:
  assumes ok: "job_ok perm mapf reducef fnames txt Y j g" and Y: "1 \<le> Y"
    and perm: "\<And>mp. mset (perm mp) = mset mp" and names: "\<And>n. n \<in> set fnames \<Longrightarrow> \<not> job_name n"
    and app: "implements amap mapf" "implements_reduce areduce reducef"
    and st: "job_step perm amap areduce e j = Some j'" and o: "orderly areduce e j"
  shows "\<exists>g'. job_ok perm mapf reducef fnames txt Y j' g'"
proof (cases e)
  case (JRequest w now)
  then show ?thesis using st job_ok_JRequest [OF ok, of w now] by (auto split: if_splits)
next
  case (JStep w rr)
  then obtain st1 st2 f where "get_worker j w = Some st1" "worker_step perm amap areduce rr st1 (jfs j) = Some (st2, f)"
    "j' = (set_worker j w st2)\<lparr>jfs := f\<rparr>" using st by auto
  then show ?thesis using job_ok_JStep [OF ok _ Y perm names app] o JStep by auto
next
  case (JReport w)
  then show ?thesis
    using st job_ok_JReport [OF ok, of w] by (auto split: option.splits worker_state.splits)
next
  case (JDie w)
  then obtain st1 where st1: "get_worker j w = Some st1" "j' = set_worker j w Gone"
    using st by (auto simp: get_worker_def split: if_splits)
  have j': "j' = (set_worker j w Gone)\<lparr>jfs := jfs j\<rparr>" using st1(2) by simp
  show ?thesis
  proof (cases "\<exists>y mp. st1 = WritingOut y mp")
    case True
    then show ?thesis using job_ok_abandon [OF ok _ _ names] st1(1) o JDie j' by auto
  next
    case False
    then have "target st1 \<noteq> Some (Inr y)" for y by (cases st1) auto
    then show ?thesis using job_ok_no_files [OF ok st1(1), of Gone] j' by auto
  qed
next
  case (JSpawn w)
  then have "get_worker j w = Some Gone" "j' = (set_worker j w Idle)\<lparr>jfs := jfs j\<rparr>" using st by (auto split: if_splits)
  then show ?thesis using job_ok_no_files [OF ok, of w Gone Idle] by auto
qed

lemma job_ok_run:
  assumes "1 \<le> Y" "\<And>mp. mset (perm mp) = mset mp" "\<And>n. n \<in> set fnames \<Longrightarrow> \<not> job_name n"
    "implements amap mapf" "implements_reduce areduce reducef"
  shows "job_ok perm mapf reducef fnames txt Y j g \<Longrightarrow> job_run perm amap areduce es j = Some j' \<Longrightarrow>
    run_orderly perm amap areduce es j \<Longrightarrow> \<exists>g'. job_ok perm mapf reducef fnames txt Y j' g'"
proof (induction es arbitrary: j g)
  case (Cons e es)
  then obtain j1 where j1: "job_step perm amap areduce e j = Some j1" "job_run perm amap areduce es j1 = Some j'"
    "orderly areduce e j" "run_orderly perm amap areduce es j1" by auto
  obtain g1 where "job_ok perm mapf reducef fnames txt Y j1 g1"
    using job_ok_step [OF Cons.prems(1) assms j1(1,3)] by blast
  then show ?case using Cons.IH j1 by blast
qed auto

lemma job_ok_init:
  assumes "MakeCoordinator fnames n = Some c" "\<And>g. g \<in> set fnames \<Longrightarrow> f g = Some (Text (txt g))"
  shows "job_ok perm mapf reducef fnames txt (int n) (job_init c f m) f"
proof -
  have "concat (map got (replicate m Idle)) = []" "concat (map reporting (replicate m Idle)) = []" by (induction m) auto
  then have "job_abs (job_init c f m) f = sys_init c f" by (simp add: job_abs_def job_init_def sys_init_def)
  then show ?thesis
    using sys_ok_init [OF assms] by (auto simp: job_ok_def job_init_def settled_def single_writers_def)
qed

section \<open>Properties of the job\<close>

text \<open>At the end of an orderly run, with no output file open, the files are as the invariant wants them.\<close>

lemma job_reached:
  assumes "MakeCoordinator fnames n = Some c" "1 \<le> n"
    and inputs: "\<forall>g \<in> set fnames. f g = Some (Text (txt g)) \<and> \<not> job_name g"
    and perm: "\<forall>mp. mset (perm mp) = mset mp"
    and app: "implements amap mapf" "implements_reduce areduce reducef"
    and run: "job_run perm amap areduce es (job_init c f m) = Some j" "run_orderly perm amap areduce es (job_init c f m)"
  shows "\<exists>g. job_ok perm mapf reducef fnames txt (int n) j g"
proof -
  have "job_ok perm mapf reducef fnames txt (int n) (job_init c f m) f"
    using assms(1) inputs by (intro job_ok_init) auto
  then show ?thesis by (rule job_ok_run [rotated 5]) (use assms(2) perm inputs app run in auto)
qed

lemma closed_outputs:
  assumes "job_ok perm mapf reducef fnames txt Y j g" "outputs_closed j"
  shows "jfs j (out_name y) = g (out_name y)"
proof -
  have "\<not> being_written j (Inr y)" for y
  proof
    assume "being_written j (Inr y)"
    then obtain st where "st \<in> set (jworkers j)" "target st = Some (Inr y)" by (auto simp: being_written_def)
    then show False using assms(2) by (auto simp: outputs_closed_def list_all_iff)
  qed
  moreover have "out_name y \<noteq> tmp_of x z" for x z using tmp_name(2) by metis
  ultimately show ?thesis using assms(1) unfolding job_ok_def settled_def by blast
qed

lemma job_done:
  assumes "MakeCoordinator fnames n = Some c" "1 \<le> n"
    and inputs: "\<forall>g \<in> set fnames. f g = Some (Text (txt g)) \<and> \<not> job_name g"
    and perm: "\<forall>mp. mset (perm mp) = mset mp"
    and app: "implements amap mapf" "implements_reduce areduce reducef"
    and run: "job_run perm amap areduce es (job_init c f m) = Some j" "run_orderly perm amap areduce es (job_init c f m)"
    and closed: "outputs_closed j"
  obtains s where "sys_ok mapf reducef fnames txt (int n) s" "coord s = jcoord j"
    "\<And>Y. job_output (fs s) Y = job_output (jfs j) Y"
proof -
  obtain g where g: "job_ok perm mapf reducef fnames txt (int n) j g"
    using job_reached [OF assms(1,2) inputs perm app run] by blast
  then have "job_output g Y = job_output (jfs j) Y" for Y
    using closed_outputs [OF g closed] by (simp add: job_output_def output_lines_def)
  then show thesis using that [of "job_abs j g"] g by (auto simp: job_ok_def job_abs_def)
qed

text \<open>An ordinary application draws no numbers and always returns.\<close>

definition plain_map :: "mapf \<Rightarrow> app_map" where
  "plain_map mapf = (\<lambda>rr a b. Some (mapf a b))"

definition plain_reduce :: "reducef \<Rightarrow> app_reduce" where
  "plain_reduce reducef = (\<lambda>rr a b. Some (reducef a b))"

lemma plain_implements: "implements (plain_map mapf) mapf" "implements_reduce (plain_reduce reducef) reducef"
  by (simp_all add: implements_def implements_reduce_def plain_map_def plain_reduce_def)

text \<open>
  C10. The distributed job computes what the sequential program computes. Take any interleaving of the
  requests, reports and single file operations of any number of workers, at any times, with tasks
  handed out and executed more than once and processes that die at any point, as long as no two
  workers write the files of one task at the same time and no process dies while it rewrites the
  output file of a reduce task that has already been completed. When the coordinator says that the job
  is done and no output file is being written, the lines of all output files are, as a multiset, the
  lines that \<^verbatim>\<open>mrsequential\<close> prints for the same files, for any map function, any reduce function that
  does not depend on the order of its values, any iteration order of Go's maps, and any sort by key.
  Input files have names that do not start with \<^verbatim>\<open>mr-\<close>, and encoding records as JSON loses nothing.
\<close>

theorem mapreduce_equals_sequential:
  assumes "MakeCoordinator fnames n = Some c" "1 \<le> n"
    and inputs: "\<forall>g \<in> set fnames. f g = Some (Text (txt g)) \<and> \<not> job_name g"
    and perm: "\<forall>mp. mset (perm mp) = mset mp"
    and "job_run perm (plain_map mapf) (plain_reduce reducef) es (job_init c f m) = Some j"
    and "run_orderly perm (plain_map mapf) (plain_reduce reducef) es (job_init c f m)"
    and "outputs_closed j" "CoordinatorDone (jcoord j)"
    and srt: "\<forall>kvs. sorted (map kvKey (srt kvs)) \<and> mset (srt kvs) = mset kvs"
    and comm: "\<forall>k vs vs'. mset vs = mset vs' \<longrightarrow> reducef k vs = reducef k vs'"
  shows "\<exists>ls. mrsequential srt f mapf reducef fnames = Some ls \<and> job_output (jfs j) (int n) = mset ls"
proof -
  obtain s where s: "sys_ok mapf reducef fnames txt (int n) s" "coord s = jcoord j"
    "\<And>Y. job_output (fs s) Y = job_output (jfs j) Y"
    by (rule job_done [OF assms(1,2) inputs perm plain_implements assms(5,6,7)]) blast
  then show ?thesis using done_equals_sequential [OF s(1) assms(2) _ _ srt comm, of f] assms(8) inputs by auto
qed

text \<open>
  A word count over two files with two workers. Their map tasks run at the same time, operation by
  operation; then one of them dies between two lines of its output, and a new process does the task again.
\<close>

definition ascii_letter :: "char \<Rightarrow> bool" where
  "ascii_letter ch \<longleftrightarrow> (let k = of_char ch :: nat in 65 \<le> k \<and> k \<le> 90 \<or> 97 \<le> k \<and> k \<le> 122)"

definition wc_files :: FS where
  "wc_files = [''in1'' \<mapsto> Text ''to be'', ''in2'' \<mapsto> Text ''or to'']"

definition wc_job :: Coordinator where
  "wc_job = the (MakeCoordinator [''in1'', ''in2''] 1)"

definition wc_events :: "job_event list" where
  "wc_events = [JRequest 0 0, JRequest 1 0] @ concat (replicate 7 [JStep 0 0, JStep 1 0]) @ [JReport 0, JReport 1] @
     [JRequest 0 (1 * Second)] @ replicate 5 (JStep 0 0) @ [JDie 0, JSpawn 0, JRequest 1 (20 * Second)] @
     replicate 8 (JStep 1 0) @ [JReport 1, JRequest 1 (21 * Second)]"

definition wc_final :: job where
  "wc_final = the (job_run (\<lambda>mp. mp) (plain_map (wc_Map ascii_letter)) (plain_reduce wc_Reduce) wc_events (job_init wc_job wc_files 2))"

lemma wc_run_done:
  "map_option (\<lambda>j. CoordinatorDone (jcoord j) \<and> outputs_closed j)
     (job_run (\<lambda>mp. mp) (plain_map (wc_Map ascii_letter)) (plain_reduce wc_Reduce) wc_events (job_init wc_job wc_files 2)) = Some True"
  by code_simp

lemma wc_run:
  "job_run (\<lambda>mp. mp) (plain_map (wc_Map ascii_letter)) (plain_reduce wc_Reduce) wc_events (job_init wc_job wc_files 2) = Some wc_final"
  "outputs_closed wc_final" "CoordinatorDone (jcoord wc_final)"
  using wc_run_done by (auto simp: wc_final_def)

lemma wc_run_orderly:
  "run_orderly (\<lambda>mp. mp) (plain_map (wc_Map ascii_letter)) (plain_reduce wc_Reduce) wc_events (job_init wc_job wc_files 2)"
  by code_simp

lemma wc_job_make: "MakeCoordinator [''in1'', ''in2''] 1 = Some wc_job"
  by (rule MakeCoordinator_ok [of "[''in1'', ''in2'']" 1]) (simp add: wc_job_def)

definition wc_txt :: "string \<Rightarrow> string" where
  "wc_txt g = (if g = ''in1'' then ''to be'' else ''or to'')"

lemma wc_inputs: "\<forall>g \<in> set [''in1'', ''in2'']. wc_files g = Some (Text (wc_txt g)) \<and> \<not> job_name g"
  by (simp add: wc_files_def wc_txt_def job_name_def)

theorem mapreduce_equals_sequential_witness:
  "\<exists>ls. mrsequential (sort_key kvKey) wc_files (wc_Map ascii_letter) wc_Reduce [''in1'', ''in2''] = Some ls \<and>
     job_output (jfs wc_final) (int 1) = mset ls"
proof (rule mapreduce_equals_sequential [OF wc_job_make _ wc_inputs _ wc_run(1) wc_run_orderly wc_run(2,3)])
  show "\<forall>k vs vs'. mset vs = mset vs' \<longrightarrow> wc_Reduce k vs = wc_Reduce k vs'"
    by (auto simp: wc_Reduce_def dest: mset_eq_length)
qed simp_all

text \<open>
  C40. Word count, end to end: when a job with the \<^verbatim>\<open>wc\<close> application is done and no output file is being
  written, its output files hold exactly one line for every word that occurs in the inputs, with the
  number of its occurrences in all files together. The workers' file operations interleave in any way
  and processes may die, as long as no two workers write the files of one task at the same time and
  none dies while it rewrites the output of a completed reduce task.
\<close>

theorem word_count_correct:
  assumes "MakeCoordinator fnames n = Some c" "1 \<le> n"
    and inputs: "\<forall>g \<in> set fnames. f g = Some (Text (txt g)) \<and> \<not> job_name g"
    and perm: "\<forall>mp. mset (perm mp) = mset mp"
    and "job_run perm (plain_map (wc_Map letter)) (plain_reduce wc_Reduce) es (job_init c f m) = Some j"
    and "run_orderly perm (plain_map (wc_Map letter)) (plain_reduce wc_Reduce) es (job_init c f m)"
    and "outputs_closed j" "CoordinatorDone (jcoord j)"
  shows "job_output (jfs j) (int n) =
    (let ws = concat (map (\<lambda>g. fields_func (\<lambda>r. \<not> letter r) [] (txt g)) fnames) in
     image_mset (\<lambda>w. out_line w (show_nat (count_list ws w))) (mset_set (set ws)))"
proof -
  let ?all = "all_kvs (wc_Map letter) fnames txt"
  let ?ws = "concat (map (\<lambda>g. fields_func (\<lambda>r. \<not> letter r) [] (txt g)) fnames)"
  have all: "?all = map (\<lambda>w. \<lparr>kvKey = w, kvValue = ''1''\<rparr>) ?ws"
    by (simp add: all_kvs_def wc_Map_def map_concat comp_def)
  obtain s where s: "sys_ok (wc_Map letter) wc_Reduce fnames txt (int n) s" "coord s = jcoord j"
    "\<And>Y. job_output (fs s) Y = job_output (jfs j) Y"
    by (rule job_done [OF assms(1,2) inputs perm plain_implements assms(5,6,7)]) blast
  then have "job_output (jfs j) (int n) = group_lines wc_Reduce ?all (keys_of ?all)"
    using job_output_done [OF s(1)] assms(2,8) by auto
  moreover have "keys_of ?all = set ?ws" unfolding all by (auto simp: keys_of_def image_iff)
  moreover have "length (values_of w ?all) = count_list ?ws w" for w
  proof -
    have "filter (\<lambda>u. u = w) ?ws = filter ((=) w) ?ws" by (rule filter_cong) auto
    then show ?thesis unfolding all values_of_def by (simp add: filter_map comp_def count_list_eq_length_filter)
  qed
  ultimately show ?thesis by (simp add: group_lines_def wc_Reduce_def Let_def)
qed

theorem word_count_correct_witness:
  "out_line ''to'' ''2'' \<in># job_output (jfs wc_final) 1"
proof -
  let ?ws = "concat (map (\<lambda>g. fields_func (\<lambda>r. \<not> ascii_letter r) [] (wc_txt g)) [''in1'', ''in2''])"
  have "job_output (jfs wc_final) (int 1) =
    (let ws = ?ws in image_mset (\<lambda>w. out_line w (show_nat (count_list ws w))) (mset_set (set ws)))"
    by (rule word_count_correct [OF wc_job_make _ wc_inputs _ wc_run(1) wc_run_orderly wc_run(2,3)]) simp_all
  moreover have ws: "?ws = [''to'', ''be'', ''or'', ''to'']" by code_simp
  moreover have "show_nat (Suc (Suc 0)) = ''2''" by code_simp
  ultimately show ?thesis unfolding ws by simp
qed

section \<open>A worker on its own\<close>

text \<open>
  A task executed without interference, from the assignment to the report: the steps give what
  \<^verbatim>\<open>eachCall\<close> computes as one function.
\<close>

fun worker_run :: "map_order \<Rightarrow> app_map \<Rightarrow> app_reduce \<Rightarrow> int list \<Rightarrow> worker_state \<Rightarrow> FS \<Rightarrow> (worker_state \<times> FS) option" where
  "worker_run perm mapf reducef [] st f = Some (st, f)"
| "worker_run perm mapf reducef (rr # rrs) st f = do {
     (st, f) \<leftarrow> worker_step perm mapf reducef rr st f;
     worker_run perm mapf reducef rrs st f
   }"

lemma worker_run_append:
  "worker_run perm mapf reducef (as @ bs) st f =
     do { (st, f) \<leftarrow> worker_run perm mapf reducef as st f; worker_run perm mapf reducef bs st f }"
  by (induction as arbitrary: st f) (auto split: bind_split)

lemma run_WritingMap:
  "length rrs = Suc (length ops) \<Longrightarrow>
   worker_run perm mapf reducef rrs (WritingMap x ops) f =
     Some (Finished \<lparr>tcLowerX = x, tcLowerY = 0\<rparr>, fold apply_op ops f)"
proof (induction ops arbitrary: rrs f)
  case Nil
  then show ?case by (cases rrs) auto
next
  case (Cons op ops)
  then show ?case by (cases rrs) auto
qed

lemma run_WritingOut:
  "length rrs = Suc (length mp) \<Longrightarrow> f (out_name y) = Some (Out ls) \<Longrightarrow>
   worker_run perm mapf (plain_reduce reducef) rrs (WritingOut y mp) f =
     Some (Finished \<lparr>tcLowerX = 0, tcLowerY = y\<rparr>,
       f(out_name y \<mapsto> Out (ls @ map (\<lambda>(k, vs). out_line k (reducef k vs)) mp)))"
proof (induction mp arbitrary: rrs f ls)
  case Nil
  then show ?case by (cases rrs) (auto simp: fun_eq_iff)
next
  case (Cons kv mp)
  then show ?case by (cases rrs; cases kv) (auto simp: plain_reduce_def)
qed

lemma run_Reading:
  assumes "read_buckets f x X y mp = Inr mp'" "length rrs = Suc (nat (X + 1 - x))"
  shows "worker_run perm mapf reducef rrs (Reading y X x mp) f = Some (WritingOut y (perm mp'), f(out_name y \<mapsto> Out []))"
  using assms
proof (induction f x X y mp arbitrary: rrs rule: read_buckets.induct)
  case (1 f x X y mp)
  obtain rr rrs' where rrs: "rrs = rr # rrs'" using 1(3) by (cases rrs) auto
  show ?case
  proof (cases "x \<le> X")
    case True
    then obtain kvs where k: "f (mr_name x y) = Some (Json kvs)" "read_buckets f (x + 1) X y (fold add_value kvs mp) = Inr mp'"
      using 1(2) by (subst (asm) read_buckets.simps) (auto split: option.splits content.splits)
    have "length rrs' = Suc (nat (X + 1 - (x + 1)))" using 1(3) True rrs by simp
    then have "worker_run perm mapf reducef rrs' (Reading y X (x + 1) (fold add_value kvs mp)) f =
        Some (WritingOut y (perm mp'), f(out_name y \<mapsto> Out []))"
      using 1(1) [OF True k(1) refl k(2)] by blast
    then show ?thesis using True k(1) rrs by (simp add: fun_upd_def)
  next
    case False
    then have "mp' = mp" using 1(2) by (subst (asm) read_buckets.simps) simp
    moreover have "rrs' = []" using False 1(3) rrs by simp
    ultimately show ?thesis using False rrs by (simp add: fun_upd_def)
  qed
qed

lemma task_alone:
  assumes "eachCall perm mapf reducef f (Some tap) = Some (r, f', Some tcp)"
  shows "\<exists>rrs. worker_run perm (plain_map mapf) (plain_reduce reducef) rrs (Got tap) f = Some (Finished tcp, f')"
proof (cases "taTaskType tap")
  case TaskMap
  then obtain t mp where m: "f (taFilename tap) = Some (Text t)" "divide (taY tap) (mapf (taFilename tap) t) (\<lambda>_. []) = Some mp"
    "f' = write_buckets f (taLowerX tap) 1 (taY tap) mp" "tcp = \<lparr>tcLowerX = taLowerX tap, tcLowerY = 0\<rparr>"
    using assms by (auto simp: eachCall_def mapper_def split: option.splits content.splits)
  let ?ops = "mapper_ops (taLowerX tap) 1 (taY tap) mp"
  have "worker_run perm (plain_map mapf) (plain_reduce reducef) (0 # 0 # replicate (Suc (length ?ops)) 0) (Got tap) f =
      Some (Finished tcp, f')"
    using TaskMap m by (simp del: replicate_Suc add: run_WritingMap apply_mapper_ops plain_map_def)
  then show ?thesis by blast
next
  case TaskReduce
  then obtain mp where m: "read_buckets f 1 (taX tap) (taLowerY tap) [] = Inr mp"
    "f' = f(out_name (taLowerY tap) \<mapsto> Out (map (\<lambda>(k, vs). out_line k (reducef k vs)) (perm mp)))"
    "tcp = \<lparr>tcLowerX = 0, tcLowerY = taLowerY tap\<rparr>"
    using assms by (auto simp: eachCall_def reducer_def split: sum.splits)
  define rrs :: "int list" where "rrs = replicate (Suc (nat (taX tap))) 0"
  have "worker_run perm (plain_map mapf) (plain_reduce reducef) rrs (Reading (taLowerY tap) (taX tap) 1 []) f =
      Some (WritingOut (taLowerY tap) (perm mp), f(out_name (taLowerY tap) \<mapsto> Out []))"
    by (rule run_Reading [OF m(1)]) (simp add: rrs_def)
  then have "worker_run perm (plain_map mapf) (plain_reduce reducef) (0 # rrs @ replicate (Suc (length (perm mp))) 0) (Got tap) f =
      Some (Finished tcp, f')"
    using TaskReduce m by (simp del: replicate_Suc add: worker_run_append run_WritingOut [where ls = "[]"])
  then show ?thesis by blast
qed (use assms in \<open>auto simp: eachCall_def\<close>)

text \<open>The steps of one worker as a run of the job.\<close>

lemma job_run_worker:
  assumes "get_worker j w = Some st" "worker_run perm mapf reducef rrs st (jfs j) = Some (st', f)"
  shows "job_run perm mapf reducef (map (JStep w) rrs) j = Some ((set_worker j w st')\<lparr>jfs := f\<rparr>)"
  using assms
proof (induction rrs arbitrary: j st)
  case Nil
  then have "set_worker j w st' = j" by (auto simp: get_worker_def set_worker_def split: if_splits)
  then show ?case using Nil by simp
next
  case (Cons rr rrs)
  then obtain st1 f1 where s: "worker_step perm mapf reducef rr st (jfs j) = Some (st1, f1)"
    "worker_run perm mapf reducef rrs st1 f1 = Some (st', f)" by auto
  let ?j = "(set_worker j w st1)\<lparr>jfs := f1\<rparr>"
  have "get_worker ?j w = Some st1" using get_worker_Some [OF Cons.prems(1)] by (simp add: get_worker_def)
  then have "job_run perm mapf reducef (map (JStep w) rrs) ?j = Some ((set_worker ?j w st')\<lparr>jfs := f\<rparr>)"
    using Cons.IH s(2) by simp
  moreover have "(set_worker ?j w st')\<lparr>jfs := f\<rparr> = (set_worker j w st')\<lparr>jfs := f\<rparr>" by (simp add: set_worker_def)
  ultimately show ?case using s(1) Cons.prems(1) by simp
qed

end
