(* ===== verification/MrApps.thy ===== *)
theory MrApps
  imports MrWorker "HOL-Library.Sublist"
begin

text \<open>
  The test applications of \<^verbatim>\<open>mrapps/\<close>, the worker process with its RPC calls (\<^verbatim>\<open>mr/worker.go\<close>), and the two main
  programs.

  The numbers drawn by random generators, the process id, the listing of the directory and which
  processes are alive are arguments. Sleeping has no effect.
\<close>

section \<open>crash.go\<close>

text \<open>\<open>None\<close> is \<^verbatim>\<open>os.Exit(1)\<close>; \<open>rr\<close> is the number below 1000 that \<^verbatim>\<open>maybeCrash\<close> draws.\<close>

definition maybeCrash :: "int \<Rightarrow> unit option" where
  "maybeCrash rr = (if rr < 330 then None else Some ())"

definition crash_Map :: "int \<Rightarrow> string \<Rightarrow> string \<Rightarrow> KeyValue list option" where
  "crash_Map rr filename contents = do {
     maybeCrash rr;
     Some ([] @ [\<lparr>kvKey = ''a'', kvValue = filename\<rparr>] @ [\<lparr>kvKey = ''b'', kvValue = show_nat (length filename)\<rparr>]
              @ [\<lparr>kvKey = ''c'', kvValue = show_nat (length contents)\<rparr>] @ [\<lparr>kvKey = ''d'', kvValue = ''xyzzy''\<rparr>])
   }"

definition crash_Reduce :: "int \<Rightarrow> string \<Rightarrow> string list \<Rightarrow> string option" where
  "crash_Reduce rr key values = do {
     maybeCrash rr;
     let vv = sort values;
     Some (join '' '' vv)
   }"

section \<open>early_exit.go, jobcount.go, mtiming.go and rtiming.go\<close>

definition early_exit_Map :: mapf where
  "early_exit_Map filename contents = [\<lparr>kvKey = filename, kvValue = ''1''\<rparr>]"

definition early_exit_Reduce :: reducef where
  "early_exit_Reduce key values = show_nat (length values)"

text \<open>\<^verbatim>\<open>Map\<close> of \<^verbatim>\<open>jobcount.go\<close> leaves a file and counts its calls in the package variable \<^verbatim>\<open>count\<close>.\<close>

definition jobcount_file :: "int \<Rightarrow> int \<Rightarrow> string" where
  "jobcount_file me cnt = ''mr-worker-jobcount-'' @ show_int me @ ''-'' @ show_int cnt"

definition jobcount_Map :: "int \<Rightarrow> FS \<times> int \<Rightarrow> string \<Rightarrow> string \<Rightarrow> (FS \<times> int) \<times> KeyValue list" where
  "jobcount_Map me st filename contents =
     (let (fs, cnt) = st; f = jobcount_file me cnt
      in ((fs(f \<mapsto> Text ''x''), cnt + 1), [\<lparr>kvKey = ''a'', kvValue = ''x''\<rparr>]))"

text \<open>\<open>files\<close> are the names that \<^verbatim>\<open>ioutil.ReadDir(".")\<close> lists.\<close>

definition jobcount_Reduce :: "string list \<Rightarrow> string \<Rightarrow> string list \<Rightarrow> string" where
  "jobcount_Reduce files key values = show_nat (length (filter (prefix ''mr-worker-jobcount'') files))"

text \<open>
  \<^verbatim>\<open>fmt.Sscanf(name, "mr-worker-phase-%d", &xpid)\<close>: the text of the format must match, then come
  spaces that are skipped, an optional sign and digits; what follows is not looked at.
\<close>

definition is_digit :: "char \<Rightarrow> bool" where
  "is_digit c = (48 \<le> (of_char c :: nat) \<and> (of_char c :: nat) \<le> 57)"

definition scan_int :: "string \<Rightarrow> int option" where
  "scan_int s =
     (let s = dropWhile (\<lambda>c. c = CHR '' '') s;
          neg = (s \<noteq> [] \<and> hd s = CHR ''-'');
          s = (if s \<noteq> [] \<and> (hd s = CHR ''-'' \<or> hd s = CHR ''+'') then tl s else s);
          ds = takeWhile is_digit s;
          v = foldl (\<lambda>n c. 10 * n + (of_char c - 48)) 0 ds
      in if ds = [] then None else Some (if neg then - v else v))"

definition scan_pid :: "string \<Rightarrow> string \<Rightarrow> int option" where
  "scan_pid ph name =
     (let pat = ''mr-worker-'' @ ph @ ''-''
      in if prefix pat name then scan_int (drop (length pat) name) else None)"

text \<open>
  \<^verbatim>\<open>nparallel\<close>: the file system in between, which holds the worker's own file while it looks, is
  given to \<open>names\<close>, the listing of the directory; \<open>alive\<close> says which processes take a signal.
\<close>

definition nparallel_file :: "string \<Rightarrow> int \<Rightarrow> string" where
  "nparallel_file ph pid = ''mr-worker-'' @ ph @ ''-'' @ show_int pid"

definition nparallel :: "string \<Rightarrow> int \<Rightarrow> (FS \<Rightarrow> string list) \<Rightarrow> (int \<Rightarrow> bool) \<Rightarrow> FS \<Rightarrow> FS \<times> nat" where
  "nparallel ph pid listing alive fs =
     (let fs = fs(nparallel_file ph pid \<mapsto> Text ''x'');
          ret = length (filter (\<lambda>name. case scan_pid ph name of Some xpid \<Rightarrow> alive xpid | None \<Rightarrow> False) (listing fs))
      in (fs(nparallel_file ph pid := None), ret))"

text \<open>\<open>ts\<close> is the time, printed with one decimal.\<close>

definition mtiming_Map :: "string \<Rightarrow> int \<Rightarrow> (FS \<Rightarrow> string list) \<Rightarrow> (int \<Rightarrow> bool) \<Rightarrow> FS \<Rightarrow> string \<Rightarrow> string \<Rightarrow> FS \<times> KeyValue list" where
  "mtiming_Map ts pid listing alive fs filename contents =
     (let (fs, n) = nparallel ''map'' pid listing alive fs
      in (fs, [\<lparr>kvKey = ''times-'' @ show_int pid, kvValue = ts\<rparr>, \<lparr>kvKey = ''parallel-'' @ show_int pid, kvValue = show_nat n\<rparr>]))"

definition mtiming_Reduce :: reducef where
  "mtiming_Reduce key values = (let vv = sort values in join '' '' vv)"

definition rtiming_Map :: mapf where
  "rtiming_Map filename contents = map (\<lambda>c. \<lparr>kvKey = [c], kvValue = ''1''\<rparr>) ''abcdefghij''"

definition rtiming_Reduce :: "int \<Rightarrow> (FS \<Rightarrow> string list) \<Rightarrow> (int \<Rightarrow> bool) \<Rightarrow> FS \<Rightarrow> string \<Rightarrow> string list \<Rightarrow> FS \<times> string" where
  "rtiming_Reduce pid listing alive fs key values =
     (let (fs, n) = nparallel ''reduce'' pid listing alive fs in (fs, show_nat n))"

section \<open>RPC calls of the worker\<close>

definition coordinatorSock :: "int \<Rightarrow> string" where
  "coordinatorSock uid = ''/var/tmp/5840-mr-'' @ show_int uid"

datatype 'r call_outcome = Exited | Failed | Replied 'r

text \<open>\<open>dial\<close> is \<^verbatim>\<open>rpc.DialHTTP("unix", ...)\<close>, whose failure ends the process, and \<open>send\<close> the method \<^verbatim>\<open>Call\<close> of the connection.\<close>

definition mr_call :: "(string \<Rightarrow> 'conn option) \<Rightarrow> ('conn \<Rightarrow> string \<Rightarrow> 'a \<Rightarrow> 'r option) \<Rightarrow> int \<Rightarrow> string \<Rightarrow> 'a \<Rightarrow> 'r call_outcome" where
  "mr_call dial send uid rpcname args =
     (case dial (coordinatorSock uid) of
        None \<Rightarrow> Exited
      | Some c \<Rightarrow> (case send c rpcname args of Some r \<Rightarrow> Replied r | None \<Rightarrow> Failed))"

definition Example :: "Coordinator \<Rightarrow> int \<Rightarrow> Coordinator \<times> int" where
  "Example c argX = (c, argX + 1)"

text \<open>What \<^verbatim>\<open>CallExample\<close> prints, \<open>None\<close> for the message of a failed call.\<close>

definition CallExample :: "(string \<Rightarrow> 'conn option) \<Rightarrow> ('conn \<Rightarrow> string \<Rightarrow> int \<Rightarrow> int option) \<Rightarrow> int \<Rightarrow> int option call_outcome" where
  "CallExample dial send uid =
     (case mr_call dial send uid ''Coordinator.Example'' 99 of
        Exited \<Rightarrow> Exited
      | Failed \<Rightarrow> Replied None
      | Replied replyY \<Rightarrow> Replied (Some replyY))"

section \<open>The worker process\<close>

datatype worker = Working FS | Returned FS | Died FS | Panicked

text \<open>
  \<^verbatim>\<open>Worker\<close>: each iteration has the outcome of the call of \<^verbatim>\<open>RequestTask\<close> and, used when a task was completed, that of
  \<^verbatim>\<open>ResponseTask\<close>, whose failure is ignored. With no further iteration given, the worker is still working.
\<close>

fun mr_Worker ::
  "((string \<times> string list) list \<Rightarrow> (string \<times> string list) list) \<Rightarrow> mapf \<Rightarrow> reducef \<Rightarrow> FS \<Rightarrow>
   (TaskAssignment call_outcome \<times> unit call_outcome) list \<Rightarrow> worker" where
  "mr_Worker perm mapf reducef fs [] = Working fs"
| "mr_Worker perm mapf reducef fs ((req, resp) # its) =
     (if req = Exited then Died fs
      else case eachCall perm mapf reducef fs (case req of Replied tap \<Rightarrow> Some tap | _ \<Rightarrow> None) of
        None \<Rightarrow> Panicked
      | Some ((exit, wait), fs', completion) \<Rightarrow>
          if completion \<noteq> None \<and> resp = Exited then Died fs'
          else if exit then Returned fs'
          else mr_Worker perm mapf reducef fs' its)"

text \<open>A worker returns only when it was told to exit.\<close>

lemma worker_returns_on_exit:
  "mr_Worker perm mapf reducef fs its = Returned fs' \<Longrightarrow> \<exists>tap resp. (Replied tap, resp) \<in> set its \<and> taTaskType tap = TaskExit"
proof (induction perm mapf reducef fs its rule: mr_Worker.induct)
  case (2 perm mapf reducef fs req resp its)
  show ?case
  proof (cases "\<exists>tap. req = Replied tap \<and> taTaskType tap = TaskExit")
    case False
    have "\<not> exit" if "eachCall perm mapf reducef fs (case req of Replied tap \<Rightarrow> Some tap | _ \<Rightarrow> None) = Some ((exit, wait), fs1, completion)"
      for exit wait fs1 completion
      using that False
      by (auto simp: eachCall_def split: call_outcome.splits TaskType.splits sum.splits) (metis sum.exhaust)
    then show ?thesis using 2 by (fastforce split: if_splits option.splits prod.splits)
  qed auto
qed simp

section \<open>The main programs\<close>

text \<open>\<^verbatim>\<open>main/mrcoordinator.go\<close>: \<open>None\<close> is the usage message; \<open>polled\<close> are the states that the loop sees, one each second.\<close>

fun await_done :: "Coordinator list \<Rightarrow> bool" where
  "await_done [] = False"
| "await_done (m # ms) = (if CoordinatorDone m then True else await_done ms)"

definition mrcoordinator_main :: "string list \<Rightarrow> Coordinator list \<Rightarrow> (Coordinator option \<times> bool) option" where
  "mrcoordinator_main args polled =
     (if length args < 2 then None else Some (MakeCoordinator (tl args) 10, await_done polled))"

text \<open>\<open>open_plugin\<close> is \<^verbatim>\<open>plugin.Open\<close>; the symbols of a plugin are either function or something else.\<close>

datatype symbol = MapSymbol mapf | ReduceSymbol reducef | OtherSymbol

definition loadPlugin :: "(string \<Rightarrow> (string \<rightharpoonup> symbol) option) \<Rightarrow> string \<Rightarrow> (mapf \<times> reducef) option" where
  "loadPlugin open_plugin filename = do {
     p \<leftarrow> open_plugin filename;
     xmapf \<leftarrow> p ''Map'';
     mapf \<leftarrow> (case xmapf of MapSymbol f \<Rightarrow> Some f | _ \<Rightarrow> None);
     xreducef \<leftarrow> p ''Reduce'';
     reducef \<leftarrow> (case xreducef of ReduceSymbol f \<Rightarrow> Some f | _ \<Rightarrow> None);
     Some (mapf, reducef)
   }"

definition mrworker_main ::
  "((string \<times> string list) list \<Rightarrow> (string \<times> string list) list) \<Rightarrow> (string \<Rightarrow> (string \<rightharpoonup> symbol) option) \<Rightarrow> string list \<Rightarrow> FS \<Rightarrow>
   (TaskAssignment call_outcome \<times> unit call_outcome) list \<Rightarrow> worker option" where
  "mrworker_main perm open_plugin args fs its =
     (if length args \<noteq> 2 then None
      else do {
        (mapf, reducef) \<leftarrow> loadPlugin open_plugin (args ! 1);
        Some (mr_Worker perm mapf reducef fs its)
      })"

end
