(* ===== verification/MrCrash.thy ===== *)
theory MrCrash
  imports MrJob MrApps
begin

text \<open>
  Jobs run with \<^verbatim>\<open>mrapps/crash.go\<close>, as the crash test of \<^verbatim>\<open>main/test-mr.sh\<close> does: a worker may exit inside \<^verbatim>\<open>Map\<close>, before it
  has written anything, or inside \<^verbatim>\<open>Reduce\<close>, when it has created its output file and written some of
  its lines. The test compares the output with that of \<^verbatim>\<open>mrsequential\<close> and \<^verbatim>\<open>nocrash.go\<close>. The job is
  that of the general theory, with the application of \<^verbatim>\<open>crash.go\<close>: the number a call draws in \<^verbatim>\<open>maybeCrash\<close> is
  the number of the step.
\<close>

section \<open>The application\<close>

lemma crash_implements: "implements crash_Map nocrash_Map" "implements_reduce crash_Reduce nocrash_Reduce"
  by (auto simp: implements_def implements_reduce_def crash_Map_def nocrash_Map_def crash_Reduce_def
      nocrash_Reduce_def Let_def)

lemma nocrash_Reduce_mset: "mset vs = mset vs' \<Longrightarrow> nocrash_Reduce k vs = nocrash_Reduce k vs'"
proof -
  assume m: "mset vs = mset vs'"
  have "sort vs = sort vs'" by (rule properties_for_sort) (simp_all add: m)
  then show ?thesis by (simp add: nocrash_Reduce_def Let_def)
qed

text \<open>The output of a finished job.\<close>

lemma crash_output:
  assumes "MakeCoordinator fnames n = Some c" "1 \<le> n"
    and inputs: "\<forall>g \<in> set fnames. f g = Some (Text (txt g)) \<and> \<not> job_name g"
    and perm: "\<forall>mp. mset (perm mp) = mset mp"
    and run: "job_run perm crash_Map crash_Reduce es (job_init c f m) = Some j"
      "run_orderly perm crash_Map crash_Reduce es (job_init c f m)" "outputs_closed j" "CoordinatorDone (jcoord j)"
    and srt: "\<forall>kvs. sorted (map kvKey (srt kvs)) \<and> mset (srt kvs) = mset kvs"
  shows "\<exists>ls. mrsequential srt f nocrash_Map nocrash_Reduce fnames = Some ls \<and> job_output (jfs j) (int n) = mset ls"
proof -
  obtain s where s: "sys_ok nocrash_Map nocrash_Reduce fnames txt (int n) s" "coord s = jcoord j"
    "\<And>Y. job_output (fs s) Y = job_output (jfs j) Y"
    by (rule job_done [OF assms(1,2) inputs perm crash_implements run(1,2,3)]) blast
  have comm: "\<forall>k vs vs'. mset vs = mset vs' \<longrightarrow> nocrash_Reduce k vs = nocrash_Reduce k vs'"
    using nocrash_Reduce_mset by blast
  have "CoordinatorDone (coord s)" "\<forall>g \<in> set fnames. f g = Some (Text (txt g))" using run(4) s(2) inputs by auto
  from done_equals_sequential [OF s(1) assms(2) this srt comm] show ?thesis by (simp only: s(3))
qed

text \<open>C15. The crash test. Let workers run the application \<^verbatim>\<open>crash.go\<close>, with any numbers drawn: some exit inside \<^verbatim>\<open>Map\<close>, some
  inside \<^verbatim>\<open>Reduce\<close> and leave a truncated output file behind, and others do the tasks again, their file operations interleaved in
  any way; but no two workers write the files of one task at the same time, and none exits or dies while it rewrites the output
  of a reduce task that has already been completed. When the coordinator says that the job is done and no output file is being written, the
  output files hold the lines that \<^verbatim>\<open>mrsequential\<close> prints with \<^verbatim>\<open>nocrash.go\<close>.\<close>

theorem crash_test_passes:
  assumes "MakeCoordinator fnames n = Some c" "1 \<le> n"
    and inputs: "\<forall>g \<in> set fnames. f g = Some (Text (txt g)) \<and> \<not> job_name g"
    and perm: "\<forall>mp. mset (perm mp) = mset mp"
    and run: "job_run perm crash_Map crash_Reduce es (job_init c f m) = Some j"
      "run_orderly perm crash_Map crash_Reduce es (job_init c f m)" "outputs_closed j" "CoordinatorDone (jcoord j)"
    and srt: "\<forall>kvs. sorted (map kvKey (srt kvs)) \<and> mset (srt kvs) = mset kvs"
  shows "\<exists>ls. mrsequential srt f nocrash_Map nocrash_Reduce fnames = Some ls \<and> job_output (jfs j) (int n) = mset ls"
  using crash_output [OF assms] .

text \<open>
  A job over one file with one reduce task and two workers: worker 0 exits in \<^verbatim>\<open>Map\<close>, worker 1 does the map
  task and exits in the second call of \<^verbatim>\<open>Reduce\<close>, and a new process completes the job.
\<close>

definition crash_files :: FS where
  "crash_files = [''in'' \<mapsto> Text ''hello'']"

definition crash_events :: "job_event list" where
  "crash_events = [JRequest 0 0, JStep 0 100, JRequest 1 (20 * Second)] @ replicate 9 (JStep 1 700) @
     [JReport 1, JRequest 1 (21 * Second)] @ replicate 4 (JStep 1 700) @ [JStep 1 5, JSpawn 0, JRequest 0 (40 * Second)] @
     replicate 8 (JStep 0 500) @ [JReport 0, JRequest 0 (41 * Second)]"

definition crash_final :: job where
  "crash_final = the (job_run (\<lambda>mp. mp) crash_Map crash_Reduce crash_events (job_init tiny_job crash_files 2))"

lemma crash_events_run:
  "map_option (\<lambda>j. CoordinatorDone (jcoord j) \<and> outputs_closed j)
     (job_run (\<lambda>mp. mp) crash_Map crash_Reduce crash_events (job_init tiny_job crash_files 2)) = Some True"
  by code_simp

lemma crash_run:
  "job_run (\<lambda>mp. mp) crash_Map crash_Reduce crash_events (job_init tiny_job crash_files 2) = Some crash_final"
  "outputs_closed crash_final" "CoordinatorDone (jcoord crash_final)"
  using crash_events_run by (auto simp: crash_final_def)

lemma crash_events_orderly:
  "run_orderly (\<lambda>mp. mp) crash_Map crash_Reduce crash_events (job_init tiny_job crash_files 2)"
  by code_simp

lemma crash_inputs: "\<forall>g \<in> set [''in'']. crash_files g = Some (Text ((\<lambda>_. ''hello'') g)) \<and> \<not> job_name g"
  by (simp add: crash_files_def job_name_def)

theorem crash_test_passes_witness:
  "\<exists>ls. mrsequential (sort_key kvKey) crash_files nocrash_Map nocrash_Reduce [''in''] = Some ls \<and>
     job_output (jfs crash_final) (int 1) = mset ls"
  by (rule crash_test_passes [OF tiny_job_make _ crash_inputs _ crash_run(1) crash_events_orderly crash_run(2,3)]) simp_all

section \<open>A late exit\<close>

lemma late_reading:
  assumes ok: "job_ok perm mapf reducef fnames txt Y j g" and w: "get_worker j w = Some (Got tap)"
    and tap: "taTaskType tap = TaskReduce"
  shows "worker_run perm amap areduce (replicate (length fnames + 2) 0) (Got tap) (jfs j) =
    Some (WritingOut (taLowerY tap) (perm (fold add_value (bucket Y (taLowerY tap) (all_kvs mapf fnames txt)) [])),
      (jfs j)(out_name (taLowerY tap) \<mapsto> Out []))"
proof -
  let ?y = "taLowerY tap" and ?X = "int (length fnames)"
  have s: "sys_ok mapf reducef fnames txt Y (job_abs j g)" using ok by (simp add: job_ok_def)
  have "tap \<in> set (held (job_abs j g))" using get_worker_Some [OF w] by (force simp: job_abs_def)
  then have t: "taX tap = ?X" "1 \<le> ?y" "?y \<le> Y" "phase (jcoord j) \<noteq> 0" using s tap by (auto simp: sys_ok_def job_abs_def)
  have "jfs j (mr_name x ?y) = Some (Json (bucket Y ?y (kvs_of mapf fnames txt x)))" if "1 \<le> x" "x \<le> ?X" for x
    using phase_maps_ok [OF s, of x] settled_mr_name [OF ok, of x ?y] that t by (auto simp: map_ok_def job_abs_def)
  then have "read_buckets (jfs j) 1 ?X ?y [] =
      Inr (fold add_value (concat (map (\<lambda>x. bucket Y ?y (kvs_of mapf fnames txt x)) [1..?X])) [])"
    by (intro read_buckets_all) auto
  then have r: "read_buckets (jfs j) 1 ?X ?y [] = Inr (fold add_value (bucket Y ?y (all_kvs mapf fnames txt)) [])"
    by (simp add: concat_bucket concat_kvs)
  have "worker_run perm amap areduce (replicate (length fnames + 1) 0) (Reading ?y ?X 1 []) (jfs j) =
      Some (WritingOut ?y (perm (fold add_value (bucket Y ?y (all_kvs mapf fnames txt)) [])),
        (jfs j)(out_name ?y \<mapsto> Out []))"
    by (rule run_Reading [OF r]) simp
  moreover have "replicate (length fnames + 2) (0::int) = 0 # replicate (length fnames + 1) 0" by simp
  ultimately show ?thesis using tap t(1) by simp
qed

text \<open>Emptying one output file that had lines makes the output smaller.\<close>

lemma job_output_truncated:
  assumes "1 \<le> y" "y \<le> Y" "output_lines f y \<noteq> []"
  shows "size (job_output (f(out_name y \<mapsto> Out [])) Y) < size (job_output f Y)"
proof -
  let ?f = "f(out_name y \<mapsto> Out [])"
  have o: "output_lines ?f z = (if z = y then [] else output_lines f z)" for z
    using out_name_inj [of z y] by (auto simp: output_lines_def)
  have s: "job_output h Y = mset (output_lines h y) + (\<Sum>z \<in> {1..Y} - {y}. mset (output_lines h z))" for h
    using assms unfolding job_output_def by (subst sum.remove [of _ y]) auto
  have "(\<Sum>z \<in> {1..Y} - {y}. mset (output_lines ?f z)) = (\<Sum>z \<in> {1..Y} - {y}. mset (output_lines f z))"
    by (rule sum.cong) (auto simp: o)
  then show ?thesis using assms(3) by (simp add: s [of f] s [of ?f] o)
qed

text \<open>A file with lines means that the reduce task has keys.\<close>

lemma late_lines:
  assumes ok: "job_ok perm mapf reducef fnames txt Y j g" and "outputs_closed j" "CoordinatorDone (jcoord j)" "1 \<le> y" "y \<le> Y"
    and "output_lines (jfs j) y \<noteq> []"
  shows "fold add_value (bucket Y y (all_kvs mapf fnames txt)) [] \<noteq> []"
proof
  let ?all = "all_kvs mapf fnames txt"
  assume e: "fold add_value (bucket Y y ?all) [] = []"
  have "keys_of (bucket Y y ?all) = {}" using groups_all [of "bucket Y y ?all"] by (simp add: e groups_def fun_eq_iff split: if_splits)
  then have k: "{k \<in> keys_of ?all. yOf k Y = Some y} = {}" by (simp only: keys_bucket)
  have "reduce_ok mapf reducef fnames txt Y (fs (job_abs j g)) y"
    using ok assms(3,4,5) by (intro done_reduce_ok) (auto simp: job_ok_def job_abs_def)
  then obtain ls where ls: "g (out_name y) = Some (Out ls)" "mset ls = {#}"
    unfolding reduce_ok_def k by (auto simp: group_lines_def job_abs_def)
  then have "output_lines (jfs j) y = []" using closed_outputs [OF ok assms(2)] by (simp add: output_lines_def)
  then show False using assms(6) by simp
qed

text \<open>C23. A late exit loses output: \<^verbatim>\<open>reducer\<close> creates its output file under its final name. Take any orderly run of a job with
  \<^verbatim>\<open>crash.go\<close> after which the coordinator says that the job is done and no output file is being written (so that the output is right),
  and a worker that still holds an assignment of a reduce task whose output file has lines. If this worker now executes its task and exits in
  its first call of \<^verbatim>\<open>Reduce\<close>, the output file is empty and the files hold fewer lines than \<^verbatim>\<open>mrsequential\<close> prints,
  while the job is still done.\<close>

theorem late_exit_loses_output:
  assumes "MakeCoordinator fnames n = Some c" "1 \<le> n"
    and inputs: "\<forall>g \<in> set fnames. f g = Some (Text (txt g)) \<and> \<not> job_name g"
    and perm: "\<forall>mp. mset (perm mp) = mset mp"
    and run: "job_run perm crash_Map crash_Reduce es (job_init c f m) = Some j"
      "run_orderly perm crash_Map crash_Reduce es (job_init c f m)" "outputs_closed j" "CoordinatorDone (jcoord j)"
    and srt: "\<forall>kvs. sorted (map kvKey (srt kvs)) \<and> mset (srt kvs) = mset kvs"
    and late: "get_worker j w = Some (Got tap)" "taTaskType tap = TaskReduce" "output_lines (jfs j) (taLowerY tap) \<noteq> []"
  shows "\<exists>j' ls. job_run perm crash_Map crash_Reduce (replicate (length fnames + 3) (JStep w 0)) j = Some j' \<and>
    CoordinatorDone (jcoord j') \<and> jfs j' (out_name (taLowerY tap)) = Some (Out []) \<and>
    mrsequential srt f nocrash_Map nocrash_Reduce fnames = Some ls \<and> size (job_output (jfs j') (int n)) < length ls"
proof -
  let ?y = "taLowerY tap" and ?Y = "int n" and ?all = "all_kvs nocrash_Map fnames txt"
  let ?mp = "fold add_value (bucket ?Y ?y ?all) []" and ?f = "(jfs j)(out_name ?y \<mapsto> Out [])"
  obtain g where g: "job_ok perm nocrash_Map nocrash_Reduce fnames txt ?Y j g"
    using job_reached [OF assms(1,2) inputs perm crash_implements run(1,2)] by blast
  then have s: "sys_ok nocrash_Map nocrash_Reduce fnames txt ?Y (job_abs j g)" by (simp add: job_ok_def)
  have "tap \<in> set (held (job_abs j g))" using get_worker_Some [OF late(1)] by (force simp: job_abs_def)
  then have y: "1 \<le> ?y" "?y \<le> ?Y" using s late(2) by (auto simp: sys_ok_def job_abs_def)
  obtain kv rest where kv: "perm ?mp = kv # rest"
    using late_lines [OF g run(3,4) y late(3)] perm by (metis mset.simps(1) mset_zero_iff neq_Nil_conv)
  have r1: "worker_run perm crash_Map crash_Reduce (replicate (length fnames + 2) 0) (Got tap) (jfs j) =
      Some (WritingOut ?y (kv # rest), ?f)"
    using late_reading [OF g late(1,2), of crash_Map crash_Reduce] kv by simp
  have "worker_run perm crash_Map crash_Reduce (replicate (length fnames + 2) 0 @ [0]) (Got tap) (jfs j) = Some (Gone, ?f)"
    unfolding worker_run_append r1 by (cases kv) (simp add: crash_Reduce_def maybeCrash_def)
  from job_run_worker [OF late(1) this]
  have run': "job_run perm crash_Map crash_Reduce (replicate (length fnames + 3) (JStep w 0)) j =
      Some ((set_worker j w Gone)\<lparr>jfs := ?f\<rparr>)"
    by (simp add: numeral_3_eq_3 replicate_append_same)
  obtain ls where ls: "mrsequential srt f nocrash_Map nocrash_Reduce fnames = Some ls" "job_output (jfs j) ?Y = mset ls"
    using crash_output [OF assms(1,2) inputs perm run srt] by blast
  have "size (job_output ?f ?Y) < length ls"
    using job_output_truncated [OF y late(3)] ls(2) by simp
  then show ?thesis using run' run(4) ls(1) by simp
qed

definition late_events :: "job_event list" where
  "late_events = [JRequest 0 0] @ replicate 9 (JStep 0 700) @ [JReport 0, JRequest 1 (1 * Second), JRequest 0 (20 * Second)] @
     replicate 8 (JStep 0 700) @ [JReport 0, JRequest 0 (21 * Second)]"

definition late_job :: job where
  "late_job = the (job_run (\<lambda>mp. mp) crash_Map crash_Reduce late_events (job_init tiny_job crash_files 2))"

definition late_task :: TaskAssignment where
  "late_task = \<lparr>taTaskType = TaskReduce, taFilename = [], taLowerX = 0, taLowerY = 1, taX = 1, taY = 1\<rparr>"

lemma late_run_facts:
  "map_option (\<lambda>j. CoordinatorDone (jcoord j) \<and> outputs_closed j \<and> get_worker j 1 = Some (Got late_task) \<and>
       output_lines (jfs j) 1 \<noteq> [])
     (job_run (\<lambda>mp. mp) crash_Map crash_Reduce late_events (job_init tiny_job crash_files 2)) = Some True"
  by code_simp

lemma late_run:
  "job_run (\<lambda>mp. mp) crash_Map crash_Reduce late_events (job_init tiny_job crash_files 2) = Some late_job"
  "outputs_closed late_job" "CoordinatorDone (jcoord late_job)" "get_worker late_job 1 = Some (Got late_task)"
  "output_lines (jfs late_job) 1 \<noteq> []"
  using late_run_facts by (auto simp: late_job_def)

lemma late_events_orderly:
  "run_orderly (\<lambda>mp. mp) crash_Map crash_Reduce late_events (job_init tiny_job crash_files 2)"
  by code_simp

theorem late_exit_loses_output_witness:
  "\<exists>j' ls. job_run (\<lambda>mp. mp) crash_Map crash_Reduce (replicate 4 (JStep 1 0)) late_job = Some j' \<and>
    CoordinatorDone (jcoord j') \<and> jfs j' (out_name 1) = Some (Out []) \<and>
    mrsequential (sort_key kvKey) crash_files nocrash_Map nocrash_Reduce [''in''] = Some ls \<and>
    size (job_output (jfs j') 1) < length ls"
proof -
  have "replicate (length [''in''] + 3) (JStep 1 0) = replicate 4 (JStep 1 0)" "int 1 = 1" "taLowerY late_task = 1"
    by (simp_all add: late_task_def numeral_eq_Suc)
  then show ?thesis
    using late_exit_loses_output [OF tiny_job_make _ crash_inputs _ late_run(1) late_events_orderly late_run(2,3) _ late_run(4),
        of "sort_key kvKey"] late_run(5)
    by (simp add: late_task_def)
qed

end
