(* ===== verification/Visualization.thy ===== *)
theory Visualization
  imports CheckerTheorems
begin

text \<open>
  \<^verbatim>\<open>porcupine/visualization.go\<close>: the data shown for a history that was checked verbosely, and the two
  functions that write it out. \<open>nilv\<close> is the \<^verbatim>\<open>nil\<close> interface, which reading a map at a missing key gives;
  \<open>None\<close> is a panic. \<open>byLen\<close> is \<^verbatim>\<open>sort.Slice\<close> with the comparison of lengths; it sorts the slices of its
  argument in place, so that the information is returned with them in the new order.
\<close>

section \<open>computeVisualizationData\<close>

record historyElement =
  heClientId :: int
  heStart :: int
  heEnd :: int
  heDescription :: string

record linearizationStep =
  lsIndex :: int
  lsStateDescription :: string

type_synonym partialLinearization = "linearizationStep list"

record partitionVisualizationData =
  pvHistory :: "historyElement list"
  pvPartialLinearizations :: "partialLinearization list"
  pvLargest :: "int \<rightharpoonup> nat"

type_synonym visualizationData = "partitionVisualizationData list"

definition empty_element :: historyElement where
  "empty_element = \<lparr>heClientId = 0, heStart = 0, heEnd = 0, heDescription = []\<rparr>"

definition at_or :: "'b \<Rightarrow> ('a \<rightharpoonup> 'b) \<Rightarrow> 'a \<Rightarrow> 'b" where
  "at_or d m k = (case m k of None \<Rightarrow> d | Some v \<Rightarrow> v)"

text \<open>The loop over the entries of a partition; the triple is \<^verbatim>\<open>history\<close>, \<^verbatim>\<open>callValue\<close> and \<^verbatim>\<open>returnValue\<close>.\<close>

fun history_loop :: "('v, 's) Model \<Rightarrow> 'v \<Rightarrow> 'v entry list \<Rightarrow> historyElement list \<times> (int \<rightharpoonup> 'v) \<times> (int \<rightharpoonup> 'v) \<Rightarrow>
    (historyElement list \<times> (int \<rightharpoonup> 'v) \<times> (int \<rightharpoonup> 'v)) option" where
  "history_loop m nilv [] r = Some r"
| "history_loop m nilv (elem # es) (history, callValue, returnValue) =
     (if enId elem < 0 \<or> int (length history) \<le> enId elem then None
      else let i = nat (enId elem) in
        case enKind elem of
          callEntry \<Rightarrow>
            history_loop m nilv es
              (history[i := (history ! i)\<lparr>heClientId := enClientId elem, heStart := enTime elem\<rparr>],
               callValue(enId elem \<mapsto> enValue elem), returnValue)
        | returnEntry \<Rightarrow> do {
            describe \<leftarrow> mDescribeOperation m;
            d \<leftarrow> describe (at_or nilv callValue (enId elem)) (enValue elem);
            history_loop m nilv es
              (history[i := (history ! i)\<lparr>heEnd := enTime elem, heDescription := d\<rparr>],
               callValue, returnValue(enId elem \<mapsto> enValue elem))
          })"

text \<open>
  The loop over a partial linearization, the \<open>i\<close>th, of length \<open>len\<close>; the triple is \<^verbatim>\<open>linearization\<close>,
  \<^verbatim>\<open>largestSize\<close> and \<^verbatim>\<open>largestIndex\<close>.
\<close>

fun steps_loop :: "('v, 's) Model \<Rightarrow> (int \<Rightarrow> 'v) \<Rightarrow> (int \<Rightarrow> 'v) \<Rightarrow> nat \<Rightarrow> nat \<Rightarrow> int list \<Rightarrow> 's \<Rightarrow>
    partialLinearization \<times> (int \<rightharpoonup> nat) \<times> (int \<rightharpoonup> nat) \<Rightarrow>
    (partialLinearization \<times> (int \<rightharpoonup> nat) \<times> (int \<rightharpoonup> nat)) option" where
  "steps_loop m callValue returnValue i len [] state r = Some r"
| "steps_loop m callValue returnValue i len (histId # partial) state (lin, largestSize, largestIndex) = do {
     (ok, state) \<leftarrow> mStep m state (callValue histId) (returnValue histId);
     if \<not> ok then None
     else do {
       describeState \<leftarrow> mDescribeState m;
       steps_loop m callValue returnValue i len partial state
         (lin @ [\<lparr>lsIndex = histId, lsStateDescription = describeState state\<rparr>],
          if at_or 0 largestSize histId < len then largestSize(histId \<mapsto> len) else largestSize,
          if at_or 0 largestSize histId < len then largestIndex(histId \<mapsto> i) else largestIndex)
     }
   }"

fun partials_loop :: "('v, 's) Model \<Rightarrow> (int \<Rightarrow> 'v) \<Rightarrow> (int \<Rightarrow> 'v) \<Rightarrow> nat \<Rightarrow> int list list \<Rightarrow>
    partialLinearization list \<times> (int \<rightharpoonup> nat) \<times> (int \<rightharpoonup> nat) \<Rightarrow>
    (partialLinearization list \<times> (int \<rightharpoonup> nat) \<times> (int \<rightharpoonup> nat)) option" where
  "partials_loop m callValue returnValue i [] r = Some r"
| "partials_loop m callValue returnValue i (partial # partials) (linearizations, largestSize, largestIndex) = do {
     (lin, largestSize, largestIndex) \<leftarrow>
       steps_loop m callValue returnValue i (length partial) partial (mInit m) ([], largestSize, largestIndex);
     partials_loop m callValue returnValue (i + 1) partials (linearizations @ [lin], largestSize, largestIndex)
   }"

definition visualize_partition :: "('v, 's) Model \<Rightarrow> 'v \<Rightarrow> 'v entry list \<Rightarrow> int list list \<Rightarrow> partitionVisualizationData option" where
  "visualize_partition m nilv hist partials = do {
     (history, callValue, returnValue) \<leftarrow>
       history_loop m nilv hist (replicate (length hist div 2) empty_element, Map.empty, Map.empty);
     (linearizations, largestSize, largestIndex) \<leftarrow>
       partials_loop m (at_or nilv callValue) (at_or nilv returnValue) 0 partials ([], Map.empty, Map.empty);
     Some \<lparr>pvHistory = history, pvPartialLinearizations = linearizations, pvLargest = largestIndex\<rparr>
   }"

fun data_loop :: "('v, 's) Model \<Rightarrow> 'v \<Rightarrow> (int list list \<Rightarrow> int list list) \<Rightarrow> 'v entry list list \<Rightarrow> int list list list \<Rightarrow>
    (visualizationData \<times> int list list list) option" where
  "data_loop m nilv byLen [] pss = Some ([], pss)"
| "data_loop m nilv byLen (hist # hists) [] = None"
| "data_loop m nilv byLen (hist # hists) (partials # pss) = do {
     d \<leftarrow> visualize_partition m nilv hist (byLen partials);
     (data, pss) \<leftarrow> data_loop m nilv byLen hists pss;
     Some (d # data, byLen partials # pss)
   }"

definition computeVisualizationData ::
  "('v \<Rightarrow> string) \<Rightarrow> ('s \<Rightarrow> string) \<Rightarrow> 'v \<Rightarrow> (int list list \<Rightarrow> int list list) \<Rightarrow> ('v, 's) Model \<Rightarrow>
   'v linearizationInfo \<Rightarrow> (visualizationData \<times> 'v linearizationInfo) option" where
  "computeVisualizationData fmtv fmts nilv byLen model info = do {
     (data, pss) \<leftarrow> data_loop (fillDefault fmtv fmts model) nilv byLen (liHistory info) (liPartialLinearizations info);
     Some (data, info\<lparr>liPartialLinearizations := pss\<rparr>)
   }"

section \<open>Writing it out\<close>

text \<open>
  \<open>marshal\<close> is \<^verbatim>\<open>json.Marshal\<close> and \<open>print_html\<close> is \<^verbatim>\<open>fmt.Fprintf\<close> with the page that the constant
  \<^verbatim>\<open>html\<close> holds, on a world \<open>'w\<close> of files; the value is the error and the new world.
\<close>

definition Visualize ::
  "('v \<Rightarrow> string) \<Rightarrow> ('s \<Rightarrow> string) \<Rightarrow> 'v \<Rightarrow> (int list list \<Rightarrow> int list list) \<Rightarrow> (visualizationData \<Rightarrow> 'e + 'j) \<Rightarrow>
   ('f \<Rightarrow> 'j \<Rightarrow> 'w \<Rightarrow> 'e option \<times> 'w) \<Rightarrow> ('v, 's) Model \<Rightarrow> 'v linearizationInfo \<Rightarrow> 'f \<Rightarrow> 'w \<Rightarrow> ('e option \<times> 'w) option" where
  "Visualize fmtv fmts nilv byLen marshal print_html model info output w = do {
     (data, info) \<leftarrow> computeVisualizationData fmtv fmts nilv byLen model info;
     case marshal data of
       Inl err \<Rightarrow> Some (Some err, w)
     | Inr jsonData \<Rightarrow> Some (print_html output jsonData w)
   }"

text \<open>\<open>create\<close> is \<^verbatim>\<open>os.Create\<close>; the deferred \<^verbatim>\<open>Close\<close> also runs when \<^verbatim>\<open>Visualize\<close> fails, and its error is dropped.\<close>

definition VisualizePath ::
  "('v \<Rightarrow> string) \<Rightarrow> ('s \<Rightarrow> string) \<Rightarrow> 'v \<Rightarrow> (int list list \<Rightarrow> int list list) \<Rightarrow> (visualizationData \<Rightarrow> 'e + 'j) \<Rightarrow>
   ('f \<Rightarrow> 'j \<Rightarrow> 'w \<Rightarrow> 'e option \<times> 'w) \<Rightarrow> (string \<Rightarrow> 'w \<Rightarrow> ('e + 'f) \<times> 'w) \<Rightarrow> ('f \<Rightarrow> 'w \<Rightarrow> 'w) \<Rightarrow>
   ('v, 's) Model \<Rightarrow> 'v linearizationInfo \<Rightarrow> string \<Rightarrow> 'w \<Rightarrow> ('e option \<times> 'w) option" where
  "VisualizePath fmtv fmts nilv byLen marshal print_html create closef model info path w =
     (case create path w of
        (Inl err, w) \<Rightarrow> Some (Some err, w)
      | (Inr f, w) \<Rightarrow> do {
          (err, w) \<leftarrow> Visualize fmtv fmts nilv byLen marshal print_html model info f w;
          Some (err, closef f w)
        })"

section \<open>The history shown\<close>

text \<open>What the loop has recorded when it has gone through the entries \<open>p\<close>.\<close>

definition recorded :: "('v \<Rightarrow> 'v \<Rightarrow> string option) \<Rightarrow> 'v Operation list \<Rightarrow> 'v entry set \<Rightarrow> nat \<Rightarrow> historyElement" where
  "recorded describe ops p k =
     \<lparr>heClientId = (if call_of ops k \<in> p then poClientId (ops ! k) else 0),
      heStart = (if call_of ops k \<in> p then poCall (ops ! k) else 0),
      heEnd = (if return_of ops k \<in> p then poReturn (ops ! k) else 0),
      heDescription = (if return_of ops k \<in> p then the (describe (poInput (ops ! k)) (poOutput (ops ! k))) else [])\<rparr>"

definition values_in :: "(nat \<Rightarrow> 'v entry) \<Rightarrow> nat \<Rightarrow> 'v entry set \<Rightarrow> int \<rightharpoonup> 'v" where
  "values_in f n p i = (if 0 \<le> i \<and> nat i < n \<and> f (nat i) \<in> p then Some (enValue (f (nat i))) else None)"

lemma entry_eq [simp]:
  "call_of ops k = call_of ops j \<longleftrightarrow> k = j" "return_of ops k = return_of ops j \<longleftrightarrow> k = j"
  "call_of ops k \<noteq> return_of ops j" "return_of ops j \<noteq> call_of ops k"
  by (auto simp: call_of_def return_of_def)

lemma entry_sel [simp]:
  "enKind (call_of ops k) = callEntry" "enKind (return_of ops k) = returnEntry"
  "enId (call_of ops k) = int k" "enId (return_of ops k) = int k"
  "enValue (call_of ops k) = poInput (ops ! k)" "enValue (return_of ops k) = poOutput (ops ! k)"
  "enTime (call_of ops k) = poCall (ops ! k)" "enTime (return_of ops k) = poReturn (ops ! k)"
  "enClientId (call_of ops k) = poClientId (ops ! k)" "enClientId (return_of ops k) = poClientId (ops ! k)"
  by (simp_all add: call_of_def return_of_def)

lemma values_in_call: "k < n \<Longrightarrow>
  (values_in (call_of ops) n p)(int k \<mapsto> poInput (ops ! k)) = values_in (call_of ops) n (insert (call_of ops k) p)"
  by (auto simp: values_in_def fun_eq_iff)

lemma values_in_return: "k < n \<Longrightarrow>
  (values_in (return_of ops) n p)(int k \<mapsto> poOutput (ops ! k)) = values_in (return_of ops) n (insert (return_of ops k) p)"
  by (auto simp: values_in_def fun_eq_iff)

lemma values_in_other [simp]:
  "values_in (call_of ops) n (insert (return_of ops k) p) = values_in (call_of ops) n p"
  "values_in (return_of ops) n (insert (call_of ops k) p) = values_in (return_of ops) n p"
  by (auto simp: values_in_def fun_eq_iff)

lemma recorded_call: "k < length ops \<Longrightarrow>
  (map (recorded d ops p) [0..<length ops])[k := (recorded d ops p k)\<lparr>heClientId := poClientId (ops ! k), heStart := poCall (ops ! k)\<rparr>]
   = map (recorded d ops (insert (call_of ops k) p)) [0..<length ops]"
  by (rule nth_equalityI) (auto simp: nth_list_update recorded_def)

lemma recorded_return: "k < length ops \<Longrightarrow> d (poInput (ops ! k)) (poOutput (ops ! k)) = Some s \<Longrightarrow>
  (map (recorded d ops p) [0..<length ops])[k := (recorded d ops p k)\<lparr>heEnd := poReturn (ops ! k), heDescription := s\<rparr>]
   = map (recorded d ops (insert (return_of ops k) p)) [0..<length ops]"
  by (rule nth_equalityI) (auto simp: nth_list_update recorded_def)

lemma call_before_return:
  assumes "wf_history (p @ return_of ops k # es)" "call_of ops k \<in> set (p @ return_of ops k # es)"
  shows "call_of ops k \<in> set p"
proof (rule ccontr)
  assume "call_of ops k \<notin> set p"
  then have "call_of ops k \<in> set es" using assms(2) by auto
  then obtain j where j: "j < length es" "es ! j = call_of ops k" by (metis in_set_conv_nth)
  let ?h = "p @ return_of ops k # es" and ?q = "length p + Suc j"
  have "?q < length ?h" "length p < ?q" "?h ! length p = return_of ops k" "?h ! ?q = call_of ops k"
    using j by (simp_all add: nth_append)
  moreover have "\<forall>q < length ?h. \<forall>p < q. enKind (?h ! p) = returnEntry \<and> enKind (?h ! q) = callEntry \<longrightarrow> enId (?h ! p) \<noteq> enId (?h ! q)"
    using assms(1) unfolding wf_history_def by blast
  ultimately show False by (metis entry_sel(1-4))
qed

lemma history_loop_records:
  assumes "wf_history (p @ es)" "set (p @ es) = call_of ops ` {0..<length ops} \<union> return_of ops ` {0..<length ops}"
    and d: "mDescribeOperation m = Some d" "\<forall>op \<in> set ops. d (poInput op) (poOutput op) \<noteq> None"
  shows "history_loop m nilv es (map (recorded d ops (set p)) [0..<length ops],
      values_in (call_of ops) (length ops) (set p), values_in (return_of ops) (length ops) (set p))
    = Some (map (recorded d ops (set (p @ es))) [0..<length ops],
        values_in (call_of ops) (length ops) (set (p @ es)), values_in (return_of ops) (length ops) (set (p @ es)))"
  using assms(1,2)
proof (induction es arbitrary: p)
  case (Cons e es)
  have "e \<in> set (p @ e # es)" by simp
  then have "e \<in> call_of ops ` {0..<length ops} \<union> return_of ops ` {0..<length ops}" using Cons.prems(2) by blast
  then obtain k where k: "k < length ops" and e: "e = call_of ops k \<or> e = return_of ops k" by auto
  note IH = Cons.IH [of "p @ [e]"]
  from e show ?case
  proof
    assume e: "e = call_of ops k"
    then show ?thesis using IH Cons.prems k by (simp add: recorded_call values_in_call)
  next
    assume e: "e = return_of ops k"
    obtain s where s: "d (poInput (ops ! k)) (poOutput (ops ! k)) = Some s" using d(2) k by fastforce
    have "call_of ops k \<in> set (p @ e # es)" using Cons.prems(2) k by auto
    then have "call_of ops k \<in> set p" using call_before_return Cons.prems(1) unfolding e by blast
    then have "at_or nilv (values_in (call_of ops) (length ops) (set p)) (int k) = poInput (ops ! k)"
      using k by (simp add: at_or_def values_in_def)
    then show ?thesis using IH Cons.prems k s d(1) e by (simp add: recorded_return values_in_return)
  qed
qed simp

section \<open>The linearizations shown\<close>

definition shown :: "('v, 's) Model \<Rightarrow> 'v entry list \<Rightarrow> ('s \<Rightarrow> string) \<Rightarrow> 's \<Rightarrow> int list \<Rightarrow> partialLinearization" where
  "shown m hist ds st q =
     map (\<lambda>j. \<lparr>lsIndex = q ! j, lsStateDescription = ds (the (runs m hist st (take (Suc j) q)))\<rparr>) [0..<length q]"

lemma shown_Cons:
  "mStep m st (value_of hist callEntry k) (value_of hist returnEntry k) = Some (True, st') \<Longrightarrow>
   shown m hist ds st (k # q) = \<lparr>lsIndex = k, lsStateDescription = ds st'\<rparr> # shown m hist ds st' q"
  unfolding shown_def length_Cons map_upt_Suc by simp

definition improves :: "int list \<Rightarrow> (int \<rightharpoonup> nat) \<Rightarrow> nat \<Rightarrow> int \<Rightarrow> bool" where
  "improves q largestSize len k = (k \<in> set q \<and> at_or 0 largestSize k < len)"

lemma steps_loop_shows:
  assumes "\<forall>k \<in> set q. cv k = value_of hist callEntry k \<and> rv k = value_of hist returnEntry k"
    and "mDescribeState m = Some ds" "runs m hist st q \<noteq> None"
  shows "steps_loop m cv rv i len q st (l, sz, ix) =
    Some (l @ shown m hist ds st q, (\<lambda>k. if improves q sz len k then Some len else sz k),
      (\<lambda>k. if improves q sz len k then Some i else ix k))"
  using assms(1,3)
proof (induction q arbitrary: st l sz ix)
  case Nil
  then show ?case by (simp add: shown_def improves_def)
next
  case (Cons k q)
  obtain st' where st': "mStep m st (value_of hist callEntry k) (value_of hist returnEntry k) = Some (True, st')"
      "runs m hist st' q \<noteq> None"
    using Cons.prems(2) by (auto split: option.splits bool.splits)
  show ?case
    using Cons.IH [OF _ st'(2)] Cons.prems(1) st'(1) assms(2)
    by (auto simp: shown_Cons improves_def at_or_def fun_eq_iff split: option.splits)
qed

text \<open>\<^verbatim>\<open>largestIndex\<close> names, for every operation that occurs, a longest linearization it occurs in.\<close>

definition largest_of :: "int list list \<Rightarrow> int \<Rightarrow> nat \<Rightarrow> bool" where
  "largest_of ps k j = (j < length ps \<and> k \<in> set (ps ! j) \<and> (\<forall>q \<in> set ps. k \<in> set q \<longrightarrow> length q \<le> length (ps ! j)))"

definition largest_inv :: "int list list \<Rightarrow> (int \<rightharpoonup> nat) \<Rightarrow> (int \<rightharpoonup> nat) \<Rightarrow> bool" where
  "largest_inv ps sz ix = (\<forall>k. case ix k of
     None \<Rightarrow> sz k = None \<and> (\<forall>q \<in> set ps. k \<notin> set q)
   | Some j \<Rightarrow> largest_of ps k j \<and> sz k = Some (length (ps ! j)))"

lemma largest_inv_snoc:
  assumes "largest_inv ps sz ix"
  shows "largest_inv (ps @ [q]) (\<lambda>k. if improves q sz (length q) k then Some (length q) else sz k)
    (\<lambda>k. if improves q sz (length q) k then Some (length ps) else ix k)"
  unfolding largest_inv_def
proof
  fix k
  have inv: "case ix k of None \<Rightarrow> sz k = None \<and> (\<forall>q \<in> set ps. k \<notin> set q)
     | Some j \<Rightarrow> largest_of ps k j \<and> sz k = Some (length (ps ! j))"
    using assms unfolding largest_inv_def by blast
  have pos: "k \<in> set q \<Longrightarrow> 0 < length q" by (cases q) auto
  show "case (if improves q sz (length q) k then Some (length ps) else ix k) of
      None \<Rightarrow> (if improves q sz (length q) k then Some (length q) else sz k) = None \<and> (\<forall>p \<in> set (ps @ [q]). k \<notin> set p)
    | Some j \<Rightarrow> largest_of (ps @ [q]) k j \<and> (if improves q sz (length q) k then Some (length q) else sz k) = Some (length ((ps @ [q]) ! j))"
    using inv pos by (cases "ix k") (auto simp: improves_def at_or_def largest_of_def nth_append)
qed

lemma partials_loop_shows:
  assumes "\<forall>q \<in> set ps. \<forall>k \<in> set q. cv k = value_of hist callEntry k \<and> rv k = value_of hist returnEntry k"
    and "mDescribeState m = Some ds" "\<forall>q \<in> set ps. runs m hist (mInit m) q \<noteq> None" "largest_inv qs sz ix"
  shows "\<exists>sz' ix'. partials_loop m cv rv (length qs) ps (ls, sz, ix) =
      Some (ls @ map (shown m hist ds (mInit m)) ps, sz', ix') \<and> largest_inv (qs @ ps) sz' ix'"
  using assms(1,3,4)
proof (induction ps arbitrary: qs ls sz ix)
  case (Cons q ps)
  have "steps_loop m cv rv (length qs) (length q) q (mInit m) ([], sz, ix) =
      Some (shown m hist ds (mInit m) q, (\<lambda>k. if improves q sz (length q) k then Some (length q) else sz k),
        (\<lambda>k. if improves q sz (length q) k then Some (length qs) else ix k))"
    using steps_loop_shows [of q cv hist rv m ds "mInit m" "length qs" "length q" "[]" sz ix] Cons.prems assms(2) by simp
  then show ?case
    using Cons.IH [of "qs @ [q]" _ _ "ls @ [shown m hist ds (mInit m) q]"] largest_inv_snoc [OF Cons.prems(3), of q] Cons.prems(1,2)
    by auto
qed auto

section \<open>A partition\<close>

lemma values_in_all:
  assumes "sorts_by_time srt" "k \<in> op_ids (makeEntries srt ops)"
  shows "at_or nilv (values_in (call_of ops) (length ops) (set (makeEntries srt ops))) k = value_of (makeEntries srt ops) callEntry k"
    "at_or nilv (values_in (return_of ops) (length ops) (set (makeEntries srt ops))) k = value_of (makeEntries srt ops) returnEntry k"
proof -
  obtain j where j: "k = int j" "j < length ops"
    using assms(2) makeEntries_facts(5) [OF assms(1), of ops] by (auto simp: op_ids_def elim!: nonneg_int_cases)
  have "call_of ops j \<in> set (makeEntries srt ops)" "return_of ops j \<in> set (makeEntries srt ops)"
    using j makeEntries_facts(3) [OF assms(1), of ops] by auto
  then show "at_or nilv (values_in (call_of ops) (length ops) (set (makeEntries srt ops))) k = value_of (makeEntries srt ops) callEntry k"
    "at_or nilv (values_in (return_of ops) (length ops) (set (makeEntries srt ops))) k = value_of (makeEntries srt ops) returnEntry k"
    using j makeEntries_value [OF assms(1)] by (simp_all add: at_or_def values_in_def)
qed

definition element_of :: "('v \<Rightarrow> 'v \<Rightarrow> string option) \<Rightarrow> 'v Operation \<Rightarrow> historyElement" where
  "element_of d op = \<lparr>heClientId = poClientId op, heStart = poCall op, heEnd = poReturn op,
     heDescription = the (d (poInput op) (poOutput op))\<rparr>"

lemma visualize_partition_shows:
  assumes srt: "sorts_by_time srt" and t: "timely ops"
    and d: "mDescribeOperation m = Some d" "\<forall>op \<in> set ops. d (poInput op) (poOutput op) \<noteq> None" "mDescribeState m = Some ds"
    and ps: "\<forall>q \<in> set ps. partial_linearization m (makeEntries srt ops) q"
  shows "\<exists>largest. visualize_partition m nilv (makeEntries srt ops) ps =
      Some \<lparr>pvHistory = map (element_of d) ops,
        pvPartialLinearizations = map (shown m (makeEntries srt ops) ds (mInit m)) ps, pvLargest = largest\<rparr> \<and>
    (\<forall>k. case largest k of None \<Rightarrow> \<forall>q \<in> set ps. k \<notin> set q | Some j \<Rightarrow> largest_of ps k j)"
proof -
  let ?h = "makeEntries srt ops"
  note f = makeEntries_facts [OF srt, of ops]
  have empty: "recorded d ops {} = (\<lambda>_. empty_element)" by (auto simp: empty_element_def recorded_def)
  have start: "replicate (length ?h div 2) empty_element = map (recorded d ops {}) [0..<length ops]"
    "Map.empty = values_in (call_of ops) (length ops) {}" "Map.empty = values_in (return_of ops) (length ops) {}"
    using f(1) by (auto simp: empty values_in_def map_replicate_const fun_eq_iff)
  have "map (recorded d ops (set ?h)) [0..<length ops] = map (element_of d) ops"
    by (rule nth_equalityI) (auto simp: f(3) recorded_def element_of_def)
  then have hist: "history_loop m nilv ?h (replicate (length ?h div 2) empty_element, Map.empty, Map.empty) =
      Some (map (element_of d) ops, values_in (call_of ops) (length ops) (set ?h), values_in (return_of ops) (length ops) (set ?h))"
    using history_loop_records [of "[]" ?h ops m d nilv] makeEntries_wf [OF srt t] f(3) d(1,2)
    by (simp add: start(1) start(2,3) [symmetric])
  have ids: "\<forall>q \<in> set ps. \<forall>k \<in> set q. k \<in> op_ids ?h" "\<forall>q \<in> set ps. runs m ?h (mInit m) q \<noteq> None"
    using ps by (auto simp: partial_linearization_def)
  have "largest_inv [] Map.empty Map.empty" by (simp add: largest_inv_def)
  from partials_loop_shows [OF _ d(3) ids(2) this, of "at_or nilv (values_in (call_of ops) (length ops) (set ?h))"
      "at_or nilv (values_in (return_of ops) (length ops) (set ?h))" "[]"] ids(1) values_in_all [OF srt]
  obtain sz ix where "partials_loop m (at_or nilv (values_in (call_of ops) (length ops) (set ?h)))
      (at_or nilv (values_in (return_of ops) (length ops) (set ?h))) 0 ps ([], Map.empty, Map.empty) =
      Some (map (shown m ?h ds (mInit m)) ps, sz, ix)" "largest_inv ps sz ix" by auto
  moreover from this(2) have "\<forall>k. case ix k of None \<Rightarrow> \<forall>q \<in> set ps. k \<notin> set q | Some j \<Rightarrow> largest_of ps k j"
    unfolding largest_inv_def by (metis (mono_tags, lifting) option.case_eq_if)
  ultimately show ?thesis using hist by (auto simp: visualize_partition_def)
qed

section \<open>All partitions\<close>

definition sorts_by_length :: "(int list list \<Rightarrow> int list list) \<Rightarrow> bool" where
  "sorts_by_length byLen \<longleftrightarrow> (\<forall>ps. mset (byLen ps) = mset ps \<and> sorted_wrt (\<lambda>p q. length q \<le> length p) (byLen ps))"

lemma partials_of_ok:
  assumes "\<And>xs. mset (perm xs) = mset xs" "longest_ok m hist longest" "q \<in> set (partials_of perm longest)"
  shows "partial_linearization m hist q"
proof -
  have "set (perm xs) = set xs" for xs using assms(1) [of xs] by (metis set_mset_mset)
  then obtain k where "Some (k, q) \<in> set longest" using assms(3) by (auto simp: partials_of_def List.map_filter_def)
  then show ?thesis using assms(2) by (auto simp: longest_ok_def)
qed

lemma checkSingle_longest_ok: "checkable m hist \<Longrightarrow> checkSingle m hist cp kill = Some r \<Longrightarrow> longest_ok m hist (snd r)"
  using checkSingle_total [of m hist cp kill] by auto

lemma checkParallel_info:
  assumes "\<forall>h \<in> set hists. checkable m h" "\<And>xs. mset (perm xs) = mset xs"
    and res: "checkParallel perm m hists True arrivals kills = Some (result, info)"
  shows "liHistory info = hists \<and> length (liPartialLinearizations info) = length hists \<and>
    (\<forall>i < length hists. \<forall>q \<in> set (liPartialLinearizations info ! i). partial_linearization m (hists ! i) q)"
proof -
  obtain rs count longest where
    rs: "those (map (\<lambda>h. checkSingle m h True (\<lambda>_. 0)) hists) = Some rs"
    and l: "those (map (\<lambda>i. if ResultOf i \<in> set (take count arrivals) then Some (snd (rs ! i))
        else map_option snd (checkSingle m (hists ! i) True (kills i))) [0..<length hists]) = Some longest"
    and info: "info = \<lparr>liHistory = hists, liPartialLinearizations = map (partials_of perm) longest\<rparr>"
    using res by (auto simp: checkParallel_def Let_def split: option.splits bind_splits)
  have "longest_ok m (hists ! i) (longest ! i)" if i: "i < length hists" for i
  proof -
    have "checkSingle m (hists ! i) True (\<lambda>_. 0) = Some (rs ! i)"
      using those_nth [OF rs, of i] i by simp
    moreover have "(if ResultOf i \<in> set (take count arrivals) then Some (snd (rs ! i))
        else map_option snd (checkSingle m (hists ! i) True (kills i))) = Some (longest ! i)"
      using those_nth [OF l, of i] i by (simp cong: if_cong)
    moreover have "checkable m (hists ! i)" using assms(1) i by simp
    ultimately show ?thesis by (auto split: if_splits dest: checkSingle_longest_ok)
  qed
  then show ?thesis using info those_length [OF l] partials_of_ok [OF assms(2), of m] by auto
qed

lemma data_loop_shows:
  assumes "length pss = length hists"
    and "\<And>i. i < length hists \<Longrightarrow> \<exists>d. visualize_partition m nilv (hists ! i) (byLen (pss ! i)) = Some d \<and> P i d"
  shows "\<exists>data. data_loop m nilv byLen hists pss = Some (data, map byLen pss) \<and> length data = length hists \<and>
    (\<forall>i < length hists. P i (data ! i))"
  using assms
proof (induction hists arbitrary: pss P)
  case (Cons h hists)
  then obtain ps pss' where pss: "pss = ps # pss'" "length pss' = length hists" by (cases pss) auto
  obtain d where d: "visualize_partition m nilv h (byLen ps) = Some d" "P 0 d" using Cons.prems(2) [of 0] pss by auto
  have "\<exists>data. data_loop m nilv byLen hists pss' = Some (data, map byLen pss') \<and> length data = length hists \<and>
      (\<forall>i < length hists. P (Suc i) (data ! i))"
    by (rule Cons.IH [OF pss(2)]) (use Cons.prems(2) [of "Suc _"] pss(1) in auto)
  then show ?case using d pss by (auto simp: nth_Cons split: nat.splits)
qed simp

lemma fillDefault_describe [simp]:
  "mDescribeOperation (fillDefault fmtv fmts m) = Some (case mDescribeOperation m of
      None \<Rightarrow> (\<lambda>i out. Some (DefaultDescribeOperation fmtv i out)) | Some d \<Rightarrow> d)"
  "mDescribeState (fillDefault fmtv fmts m) = Some (case mDescribeState m of None \<Rightarrow> DefaultDescribeState fmts | Some d \<Rightarrow> d)"
  by (auto simp: fillDefault_def Let_def split: option.splits)

lemma shown_ops:
  assumes "sorts_by_time srt" "set q \<subseteq> op_ids (makeEntries srt ops)"
  shows "map lsIndex (shown m (makeEntries srt ops) ds st q) = q"
    "map lsStateDescription (shown m (makeEntries srt ops) ds st q) =
      map (\<lambda>j. ds (the (ops_run m ops st (map nat (take (Suc j) q))))) [0..<length q]"
proof -
  show "map lsIndex (shown m (makeEntries srt ops) ds st q) = q" by (simp add: shown_def comp_def map_nth)
  have "runs m (makeEntries srt ops) st (take (Suc j) q) = ops_run m ops st (map nat (take (Suc j) q))" for j
  proof -
    have sub: "set (take (Suc j) q) \<subseteq> {0..<int (length ops)}"
      using assms(2) makeEntries_facts(5) [OF assms(1), of ops] set_take_subset [of "Suc j" q] by (auto simp: op_ids_def)
    then have "map int (map nat (take (Suc j) q)) = take (Suc j) q" by (auto intro!: map_idI)
    moreover have "set (map nat (take (Suc j) q)) \<subseteq> {0..<length ops}" using sub by (force simp: nat_less_iff)
    ultimately show ?thesis using makeEntries_runs [OF assms(1), of "map nat (take (Suc j) q)" ops m st] by metis
  qed
  then show "map lsStateDescription (shown m (makeEntries srt ops) ds st q) =
      map (\<lambda>j. ds (the (ops_run m ops st (map nat (take (Suc j) q))))) [0..<length q]"
    by (simp add: shown_def comp_def)
qed

text \<open>The picture of a partition: \<open>ps\<close> are the linearizations, \<open>d\<close> and \<open>ds\<close> describe operations and states.\<close>

definition pictured :: "('v, 's) Model \<Rightarrow> ('v \<Rightarrow> 'v \<Rightarrow> string option) \<Rightarrow> ('s \<Rightarrow> string) \<Rightarrow> 'v Operation list \<Rightarrow> int list list \<Rightarrow>
    partitionVisualizationData \<Rightarrow> bool" where
  "pictured m d ds ops ps dt \<longleftrightarrow>
     pvHistory dt = map (element_of d) ops \<and>
     map (map lsIndex) (pvPartialLinearizations dt) = ps \<and>
     map (map lsStateDescription) (pvPartialLinearizations dt) =
       map (\<lambda>q. map (\<lambda>j. ds (the (ops_run m ops (mInit m) (map nat (take (Suc j) q))))) [0..<length q]) ps \<and>
     (\<forall>k. case pvLargest dt k of None \<Rightarrow> \<forall>q \<in> set ps. k \<notin> set q | Some j \<Rightarrow> largest_of ps k j)"

lemma visualize_partition_pictured:
  assumes "sorts_by_time srt" "timely ops"
    "mDescribeOperation m = Some d" "\<forall>op \<in> set ops. d (poInput op) (poOutput op) \<noteq> None" "mDescribeState m = Some ds"
    "\<forall>q \<in> set ps. partial_linearization m (makeEntries srt ops) q"
  shows "\<exists>dt. visualize_partition m nilv (makeEntries srt ops) ps = Some dt \<and> pictured m d ds ops ps dt"
proof -
  have "map lsIndex (shown m (makeEntries srt ops) ds (mInit m) q) = q \<and>
      map lsStateDescription (shown m (makeEntries srt ops) ds (mInit m) q) =
        map (\<lambda>j. ds (the (ops_run m ops (mInit m) (map nat (take (Suc j) q))))) [0..<length q]" if "q \<in> set ps" for q
    using shown_ops [OF assms(1), of q ops m ds "mInit m"] assms(6) that by (simp add: partial_linearization_def)
  then show ?thesis
    using visualize_partition_shows [OF assms, of nilv] by (auto simp: pictured_def comp_def intro!: map_idI)
qed

lemma pictured_fillDefault [simp]: "pictured (fillDefault fmtv fmts m) d ds ops ps dt = pictured m d ds ops ps dt"
  by (simp add: pictured_def ops_run_cong [of "fillDefault fmtv fmts m" m])

lemma reported_range:
  assumes "sorts_by_time srt" "partial_linearization m (makeEntries srt ops) q"
  shows "distinct q \<and> set q \<subseteq> {0..<int (length ops)}"
  using assms makeEntries_facts(5) [OF assms(1), of ops] by (auto simp: partial_linearization_def op_ids_def)

text \<open>C16. Visualizing a checked history. Whatever \<^verbatim>\<open>CheckOperationsVerbose\<close> reports of a history, also after a timeout,
  \<^verbatim>\<open>computeVisualizationData\<close> makes a picture of it without running into its panic "valid partial
  linearization returned non-ok result" or an index out of range, if the model describes the operations.
  The picture has one part for each partition. It shows every operation with its client, its two time
  stamps and its description; the reported linearizations, the longest first, each a sequence of different
  operations of the partition with the states that the model goes through; and for every operation that
  occurs in one the number of a longest of those it occurs in.\<close>

theorem visualization_of_check:
  assumes part: "mPartition m = Some f" "f history = Some parts" and srt: "sorts_by_time srt"
    and eq: "equal_ok (fillDefault fmtv fmts m)" and ok: "\<forall>p \<in> set parts. timely p \<and> steps_defined m p"
    and perm: "\<And>xs. mset (perm xs) = mset xs" and len: "sorts_by_length byLen"
    and d: "mDescribeOperation m = Some d" "\<forall>p \<in> set parts. \<forall>op \<in> set p. d (poInput op) (poOutput op) \<noteq> None"
    and res: "CheckOperationsVerbose fmtv fmts perm srt m history arrivals kills = Some (result, info)"
  shows "let ds = (case mDescribeState m of None \<Rightarrow> fmts | Some ds \<Rightarrow> ds) in
    \<exists>data info'. computeVisualizationData fmtv fmts nilv byLen m info = Some (data, info') \<and> length data = length parts \<and>
      (\<forall>i < length parts. let ps = byLen (liPartialLinearizations info ! i) in
        pictured m d ds (parts ! i) ps (data ! i) \<and> sorted_wrt (\<lambda>p q. length q \<le> length p) ps \<and>
        (\<forall>q \<in> set ps. distinct q \<and> set q \<subseteq> {0..<int (length (parts ! i))}))"
proof -
  let ?m = "fillDefault fmtv fmts m" and ?hs = "map (makeEntries srt) parts"
  let ?ds = "case mDescribeState m of None \<Rightarrow> fmts | Some ds \<Rightarrow> ds" and ?ps = "\<lambda>i. byLen (liPartialLinearizations info ! i)"
  have ck: "\<forall>h \<in> set ?hs. checkable ?m h"
    using ok makeEntries_checkable [OF srt _ _ eq] by (auto simp: steps_defined_def)
  have "checkParallel perm ?m ?hs True arrivals kills = Some (result, info)"
    using res part by (simp add: CheckOperationsVerbose_def checkOperations_def Let_def)
  from checkParallel_info [OF ck perm this]
  have info: "liHistory info = ?hs" "length (liPartialLinearizations info) = length ?hs"
    and "\<And>i q. i < length parts \<Longrightarrow> q \<in> set (liPartialLinearizations info ! i) \<Longrightarrow> partial_linearization ?m (makeEntries srt (parts ! i)) q"
    by auto
  moreover have sorted: "set (byLen ps) = set ps" "sorted_wrt (\<lambda>p q. length q \<le> length p) (byLen ps)" for ps
    using len set_mset_mset unfolding sorts_by_length_def by metis+
  ultimately have pl: "\<forall>q \<in> set (?ps i). partial_linearization ?m (makeEntries srt (parts ! i)) q" if "i < length parts" for i
    using that by auto
  have ds: "mDescribeState ?m = Some ?ds" "mDescribeOperation ?m = Some d"
    using d(1) by (auto simp: DefaultDescribeState_def fun_eq_iff split: option.split)
  have "\<exists>dt. visualize_partition ?m nilv (?hs ! i) (?ps i) = Some dt \<and> pictured m d ?ds (parts ! i) (?ps i) dt"
    if i: "i < length ?hs" for i
  proof -
    have p: "timely (parts ! i)" "\<forall>op \<in> set (parts ! i). d (poInput op) (poOutput op) \<noteq> None"
      using ok d(2) nth_mem [of i parts] i unfolding length_map by blast+
    then show ?thesis using visualize_partition_pictured [OF srt p(1) ds(2) p(2) ds(1) pl, of nilv] i by simp
  qed
  from data_loop_shows [where P = "\<lambda>i. pictured m d ?ds (parts ! i) (?ps i)", OF info(2) this]
  obtain data where "data_loop ?m nilv byLen ?hs (liPartialLinearizations info) = Some (data, map byLen (liPartialLinearizations info))"
    "length data = length parts" "\<forall>i < length parts. pictured m d ?ds (parts ! i) (?ps i) (data ! i)" by auto
  moreover have "\<forall>q \<in> set (?ps i). distinct q \<and> set q \<subseteq> {0..<int (length (parts ! i))}" if i: "i < length parts" for i
    using pl [OF i] reported_range [OF srt, of ?m "parts ! i"] by blast
  ultimately show ?thesis using sorted(2) info(1) by (simp add: computeVisualizationData_def Let_def)
qed

text \<open>A way to sort by length, and the picture of a history that is not linearizable.\<close>

definition longest_first :: "int list list \<Rightarrow> int list list" where
  "longest_first = sort_key (\<lambda>q. - int (length q))"

lemma longest_first_sorts: "sorts_by_length longest_first"
  unfolding sorts_by_length_def
proof (intro allI conjI)
  fix ps
  have "sorted_wrt (\<lambda>a b. - int (length a) \<le> - int (length b)) (longest_first ps)"
    using sorted_sort_key [of "\<lambda>q. - int (length q)" ps] by (simp add: longest_first_def sorted_wrt_map)
  then show "sorted_wrt (\<lambda>p q. length q \<le> length p) (longest_first ps)" by (rule sorted_wrt_mono_rel [rotated]) simp
qed (simp add: longest_first_def)

theorem visualization_of_check_witness:
  "\<exists>res info data info'. CheckOperationsVerbose (\<lambda>_. []) (\<lambda>_. []) id by_time whole_model stale_read [ResultOf 0] (\<lambda>_ _. 0) = Some (res, info) \<and>
     computeVisualizationData (\<lambda>_. []) (\<lambda>_. []) (kv_out []) longest_first whole_model info = Some (data, info') \<and>
     pvHistory (data ! 0) = map (element_of kv_DescribeOperation) stale_read"
proof -
  have "checkable (fillDefault (\<lambda>_. []) (\<lambda>_. []) whole_model) (makeEntries by_time stale_read)"
    using makeEntries_checkable [OF by_time_sorts stale_read_ok(1) _ whole_model_ok(1)] whole_model_ok(2) by (simp add: steps_defined_def)
  then obtain b l where "checkSingle (fillDefault (\<lambda>_. []) (\<lambda>_. []) whole_model) (makeEntries by_time stale_read) True (\<lambda>_. 0) = Some (b, l)"
    using checkSingle_total by blast
  then obtain res info where
    r: "CheckOperationsVerbose (\<lambda>_. []) (\<lambda>_. []) id by_time whole_model stale_read [ResultOf 0] (\<lambda>_ _. 0) = Some (res, info)"
    by (cases b) (auto simp: CheckOperationsVerbose_def checkOperations_def checkParallel_def Let_def whole_model_def)
  have m: "mPartition whole_model = Some (\<lambda>h. Some [h])" "mDescribeOperation whole_model = Some kv_DescribeOperation"
    by (simp_all add: whole_model_def KvModel_def)
  have "\<forall>p \<in> set [stale_read]. \<forall>op \<in> set p. kv_DescribeOperation (poInput op) (poOutput op) \<noteq> None"
    by (simp add: stale_read_def kv_DescribeOperation_def kv_put_def kv_get_def kv_out_def)
  from visualization_of_check [OF m(1) refl by_time_sorts whole_model_ok(1) _ _ longest_first_sorts m(2) this r, of "kv_out []"]
  show ?thesis using r stale_read_ok(1) whole_model_ok(2) by (auto simp: pictured_def Let_def)
qed

end
