(* ===== verification/LabRpcProps.thy ===== *)
theory LabRpcProps
  imports LabRpc
begin

text \<open>
  What a caller may rely on. The abstract contract \<open>rpc_spec\<close> of a set of calls: a call is executed at most
  once, at any time after it was issued; it returns at most once, either with the reply of its
  execution or with a failure, and a failure says nothing about the execution. The network refines
  this contract; the cluster model of Raft is built on it.
\<close>

section \<open>Runs\<close>

definition rpc_init :: "(nat \<rightharpoonup> 'w Server) \<Rightarrow> 'w \<Rightarrow> ('n, 'w) rpcnet" where
  "rpc_init servers w = \<lparr>rnNet = MakeNetwork, rnServers = servers, rnWorld = w, rnCalls = [], rnRunning = Map.empty\<rparr>"

inductive rpc_reachable :: "(nat \<rightharpoonup> 'w Server) \<Rightarrow> 'w \<Rightarrow> ('n, 'w) rpcnet \<Rightarrow> bool" for servers w where
  rpc_start: "rpc_reachable servers w (rpc_init servers w)"
| rpc_next: "rpc_reachable servers w s \<Longrightarrow> rpc_step e s = Some s' \<Longrightarrow> rpc_reachable servers w s'"

fun rpc_run :: "'n rpc_event list \<Rightarrow> ('n, 'w) rpcnet \<Rightarrow> ('n, 'w) rpcnet option" where
  "rpc_run [] s = Some s"
| "rpc_run (e # es) s = do { s \<leftarrow> rpc_step e s; rpc_run es s }"

lemma rpc_reachable_run: "rpc_reachable servers w s \<Longrightarrow> rpc_run es s = Some s' \<Longrightarrow> rpc_reachable servers w s'"
  by (induction es arbitrary: s) (auto intro: rpc_next)

definition call_ok :: "'n call \<Rightarrow> bool" where
  "call_ok c \<longleftrightarrow> (caPhase c = PFinal True \<longrightarrow> caEch c \<noteq> None) \<and>
     (caEch c \<noteq> None \<longrightarrow> caStarted c) \<and>
     (caPhase c \<in> {PRead, PDeliver} \<longrightarrow> \<not> caStarted c) \<and>
     (\<forall>r. caPhase c = PDone r \<longrightarrow> r = noReply \<or> caEch c = Some r) \<and>
     (\<forall>r. caEch c = Some r \<longrightarrow> rpOk r)"

text \<open>A handler runs for a call that waits for its reply.\<close>

definition running_ok :: "('n, 'w) rpcnet \<Rightarrow> bool" where
  "running_ok s \<longleftrightarrow> (\<forall>k \<in> dom (rnRunning s). k < length (rnCalls s) \<and> caStarted (rnCalls s ! k) \<and> caEch (rnCalls s ! k) = None)"

definition rpcs_ok :: "('n, 'w) rpcnet \<Rightarrow> bool" where
  "rpcs_ok s \<longleftrightarrow> (\<forall>c \<in> set (rnCalls s). call_ok c) \<and> running_ok s"

lemma Server_dispatch_services: "Server_dispatch rs req = Some (rs', h) \<Longrightarrow> srServices rs' = srServices rs"
  by (auto simp: Server_dispatch_def Let_def)

text \<open>What an event does to the calls: it adds one, or changes one in one of these ways.\<close>

lemma process_ok:
  assumes "call_ok c"
  shows "caPhase c = PRead \<Longrightarrow> call_ok (process_read rn c)"
    "caPhase c = PDeliver \<Longrightarrow> call_ok (process_deliver lost c)"
    "caPhase c = PWait \<Longrightarrow> caEch c \<noteq> None \<Longrightarrow> call_ok (process_take c)"
    "caPhase c = PWait \<Longrightarrow> call_ok (process_tick rn c)"
    "caStarted c \<Longrightarrow> caEch c = None \<Longrightarrow> rpOk r \<Longrightarrow> call_ok (c\<lparr>caEch := Some r\<rparr>)"
    "caPhase c = PFinal b \<Longrightarrow> call_ok (c\<lparr>caPhase := PDone noReply\<rparr>)"
    "caPhase c = PFinal True \<Longrightarrow> call_ok (c\<lparr>caPhase := PDone (the (caEch c))\<rparr>)"
  using assms
  by (auto simp: call_ok_def process_read_def process_deliver_def process_take_def process_tick_def readEndnameInfo_def Let_def)

lemma calls_update:
  assumes "\<forall>c \<in> set cs. P c" "P c'"
  shows "\<forall>c \<in> set (cs[k := c']). P c"
  using assms set_update_subset_insert [of cs k c'] by auto

lemma process_running:
  "caStarted (process_take c) = caStarted c" "caStarted (process_tick rn c) = caStarted c" "caStarted (process_read rn c) = caStarted c"
  "caEch (process_take c) = caEch c" "caEch (process_tick rn c) = caEch c" "caEch (process_read rn c) = caEch c"
  "caEch (process_deliver lost c) = caEch c" "caStarted c \<Longrightarrow> caStarted (process_deliver lost c)"
  by (auto simp: process_take_def process_tick_def process_read_def process_deliver_def Let_def split: prod.splits)

lemma running_update:
  assumes "running_ok s" "rnCalls s' = (rnCalls s)[k := c']" "rnRunning s' = rnRunning s"
    "caStarted (rnCalls s ! k) \<longrightarrow> caStarted c'" "caEch c' = caEch (rnCalls s ! k)"
  shows "running_ok s'"
  unfolding running_ok_def
proof
  fix j assume "j \<in> dom (rnRunning s')"
  then have "j < length (rnCalls s) \<and> caStarted (rnCalls s ! j) \<and> caEch (rnCalls s ! j) = None" using assms(1,3) by (simp add: running_ok_def)
  then show "j < length (rnCalls s') \<and> caStarted (rnCalls s' ! j) \<and> caEch (rnCalls s' ! j) = None"
    using assms(2,4,5) by (cases "j = k") simp_all
qed

lemma process_final_call:
  assumes "caPhase (rnCalls s ! k) = PFinal b"
  obtains r where "rnCalls (process_final lost k s) = (rnCalls s)[k := (rnCalls s ! k)\<lparr>caPhase := PDone r\<rparr>]"
    "r = noReply \<or> b \<and> r = the (caEch (rnCalls s ! k))" "rnRunning (process_final lost k s) = rnRunning s"
    "rnServers (process_final lost k s) = rnServers s" "rnWorld (process_final lost k s) = rnWorld s"
proof -
  let ?c = "rnCalls s ! k"
  let ?dead = "isServerDead (rnNet s) (rqEndname (caReq ?c)) (the (caServername ?c)) (the (caServer ?c))"
  show thesis
  proof (cases "\<not> b \<or> ?dead \<or> \<not> caReliable ?c \<and> lost")
    case True
    then have "process_final lost k s = s\<lparr>rnCalls := (rnCalls s)[k := ?c\<lparr>caPhase := PDone noReply\<rparr>]\<rparr>"
      using assms by (auto simp: process_final_def Let_def)
    then show thesis using that [of noReply] by simp
  next
    case False
    let ?r = "the (caEch ?c)"
    have "process_final lost k s = s\<lparr>rnNet := (rnNet s)\<lparr>nwBytes := nwBytes (rnNet s) + of_nat (length (rpReply ?r))\<rparr>,
        rnCalls := (rnCalls s)[k := ?c\<lparr>caPhase := PDone ?r\<rparr>]\<rparr>"
      using False assms by (auto simp: process_final_def Let_def)
    then show thesis using that [of ?r] False by simp
  qed
qed

lemma rpc_step_ok:
  assumes ok: "rpcs_ok s" and st: "rpc_step e s = Some s'"
  shows "rpcs_ok s'"
proof -
  have C: "\<forall>c \<in> set (rnCalls s). call_ok c" and R: "running_ok s" using ok by (simp_all add: rpcs_ok_def)
  have c: "call_ok (rnCalls s ! k)" if "k < length (rnCalls s)" for k using C that by simp
  have en: "rpc_enabled e s" and ex: "rpc_exec e s = Some s'" using st by (auto simp: rpc_step_def split: if_splits)
  have upd: "rpcs_ok s'" if "rnCalls s' = (rnCalls s)[k := c']" "rnRunning s' = rnRunning s" "call_ok c'"
    "caStarted (rnCalls s ! k) \<longrightarrow> caStarted c'" "caEch c' = caEch (rnCalls s ! k)" for k c'
    using calls_update [OF C that(3), of k] running_update [OF R that(1,2,4,5)] that(1) by (simp add: rpcs_ok_def)
  show ?thesis
  proof (cases e)
    case (ECall x m a)
    then obtain c where s': "rnCalls s' = rnCalls s @ [c]" "rnRunning s' = rnRunning s" "call_ok c"
      using ex by (auto simp: Call_send_def Let_def call_ok_def split: if_splits)
    have "running_ok s'" unfolding running_ok_def
    proof
      fix j assume "j \<in> dom (rnRunning s')"
      then have "j < length (rnCalls s) \<and> caStarted (rnCalls s ! j) \<and> caEch (rnCalls s ! j) = None" using R s'(2) by (simp add: running_ok_def)
      then show "j < length (rnCalls s') \<and> caStarted (rnCalls s' ! j) \<and> caEch (rnCalls s' ! j) = None" by (simp add: s'(1) nth_append)
    qed
    then show ?thesis using C s'(1,3) by (simp add: rpcs_ok_def)
  next
    case (EDispatch k)
    then have "rnCalls s' = rnCalls s" "dom (rnRunning s') = insert k (dom (rnRunning s))"
      using ex by (auto simp: process_dispatch_def Let_def)
    then show ?thesis using EDispatch en C R by (auto simp: rpcs_ok_def running_ok_def)
  next
    case (ESection k)
    then obtain h where h: "rnRunning s k = Some h" using en by auto
    then have k: "k < length (rnCalls s)" "caStarted (rnCalls s ! k)" "caEch (rnCalls s ! k) = None" using R by (auto simp: running_ok_def)
    show ?thesis
    proof (cases h)
      case (Returned b)
      let ?r = "\<lparr>rpOk = True, rpReply = b\<rparr>"
      have "rnCalls s' = (rnCalls s)[k := (rnCalls s ! k)\<lparr>caEch := Some ?r\<rparr>]" "rnRunning s' = (rnRunning s)(k := None)"
        using ex ESection h Returned by (auto simp: process_section_def)
      then show ?thesis using calls_update [OF C process_ok(5) [OF c [OF k(1)] k(2,3)], of ?r k] R
        by (auto simp: rpcs_ok_def running_ok_def)
    next
      case (Section f)
      then have "rnCalls s' = rnCalls s" "dom (rnRunning s') = dom (rnRunning s)"
        using ex ESection h by (auto simp: process_section_def dom_def split: prod.splits if_splits)
      then show ?thesis using C R by (simp add: rpcs_ok_def running_ok_def)
    qed
  next
    case (EFinal k lost)
    then obtain b where b: "caPhase (rnCalls s ! k) = PFinal b" "k < length (rnCalls s)" using en by auto
    obtain r where r: "rnCalls s' = (rnCalls s)[k := (rnCalls s ! k)\<lparr>caPhase := PDone r\<rparr>]"
      "r = noReply \<or> b \<and> r = the (caEch (rnCalls s ! k))" "rnRunning s' = rnRunning s"
      using process_final_call [OF b(1), of lost] ex EFinal by auto
    have "call_ok ((rnCalls s ! k)\<lparr>caPhase := PDone r\<rparr>)"
      using r(2) process_ok(6) [OF c [OF b(2)] b(1)] process_ok(7) [OF c [OF b(2)]] b(1) by auto
    then show ?thesis using upd [OF r(1,3)] by simp
  next
    case (ERead k)
    then show ?thesis using ex en upd [of k] process_ok(1) [OF c] by (auto simp: process_running)
  next
    case (EDeliver k lost)
    then show ?thesis using ex en upd [of k] process_ok(2) [OF c] by (auto simp: process_running)
  next
    case (ETake k)
    then show ?thesis using ex en upd [of k] process_ok(3) [OF c] by (auto simp: process_running)
  next
    case (ETick k)
    then show ?thesis using ex en upd [of k] process_ok(4) [OF c] by (auto simp: process_running)
  next
    case (EAdmin f)
    then show ?thesis using ex ok by (auto simp: rpcs_ok_def running_ok_def)
  qed
qed

lemma rpc_reachable_ok: "rpc_reachable servers w s \<Longrightarrow> rpcs_ok s"
proof (induction rule: rpc_reachable.induct)
  case (rpc_next s e s')
  then show ?case using rpc_step_ok by blast
qed (simp add: rpc_init_def rpcs_ok_def running_ok_def)

section \<open>The contract\<close>

text \<open>The abstract state of a call: what its execution replied, and what it returned.\<close>

type_synonym acall = "replyMsg option \<times> replyMsg option"

inductive rpc_spec :: "acall list \<Rightarrow> acall list \<Rightarrow> bool" where
  spec_stutter: "rpc_spec cs cs"
| spec_issue: "rpc_spec cs (cs @ [(None, None)])"
| spec_execute: "k < length cs \<Longrightarrow> cs ! k = (None, ret) \<Longrightarrow> rpOk r \<Longrightarrow> rpc_spec cs (cs[k := (Some r, ret)])"
| spec_return: "k < length cs \<Longrightarrow> cs ! k = (Some r, None) \<Longrightarrow> rpc_spec cs (cs[k := (Some r, Some r)])"
| spec_fail: "k < length cs \<Longrightarrow> cs ! k = (ex, None) \<Longrightarrow> rpc_spec cs (cs[k := (ex, Some noReply)])"

definition abs_call :: "'n call \<Rightarrow> acall" where
  "abs_call c = (caEch c, case caPhase c of PDone r \<Rightarrow> Some r | _ \<Rightarrow> None)"

lemma map_abs_update: "k < length cs \<Longrightarrow> abs_call c' = abs_call (cs ! k) \<Longrightarrow> map abs_call (cs[k := c']) = map abs_call cs"
  by (simp add: map_update list_update_same_conv)

lemma spec_fail_call:
  "k < length cs \<Longrightarrow> abs_call (cs ! k) = (ex, None) \<Longrightarrow> abs_call c' = (ex, Some noReply) \<Longrightarrow>
   rpc_spec (map abs_call cs) (map abs_call (cs[k := c']))"
  by (simp add: map_update spec_fail)

lemma rpc_refines:
  assumes ok: "rpcs_ok s" and st: "rpc_step e s = Some s'"
  shows "rpc_spec (map abs_call (rnCalls s)) (map abs_call (rnCalls s'))"
proof -
  have en: "rpc_enabled e s" and ex: "rpc_exec e s = Some s'" using st by (auto simp: rpc_step_def split: if_splits)
  show ?thesis
  proof (cases e)
    case (ECall x m a)
    then show ?thesis using ex spec_issue by (auto simp: Call_send_def Let_def abs_call_def split: if_splits)
  next
    case (ERead k)
    let ?c = "rnCalls s ! k"
    have "k < length (rnCalls s)" "caPhase ?c = PRead" using en ERead by auto
    then show ?thesis using ex ERead map_abs_update [of k "rnCalls s" "process_read (rnNet s) ?c"]
        spec_fail_call [of k "rnCalls s" "caEch ?c" "process_read (rnNet s) ?c"] spec_stutter
      by (auto simp: process_read_def abs_call_def Let_def split: prod.splits if_splits)
  next
    case (EDeliver k lost)
    let ?c = "rnCalls s ! k"
    have "k < length (rnCalls s)" "caPhase ?c = PDeliver" using en EDeliver by auto
    then show ?thesis using ex EDeliver map_abs_update [of k "rnCalls s" "process_deliver lost ?c"]
        spec_fail_call [of k "rnCalls s" "caEch ?c" "process_deliver lost ?c"] spec_stutter
      by (auto simp: process_deliver_def abs_call_def split: if_splits)
  next
    case (EDispatch k)
    then have "rnCalls s' = rnCalls s" using ex by (auto simp: process_dispatch_def Let_def)
    then show ?thesis using spec_stutter by simp
  next
    case (ESection k)
    then obtain h where h: "rnRunning s k = Some h" using en by auto
    then have k: "k < length (rnCalls s)" "caEch (rnCalls s ! k) = None" using ok by (auto simp: rpcs_ok_def running_ok_def)
    show ?thesis
    proof (cases h)
      case (Returned b)
      let ?r = "\<lparr>rpOk = True, rpReply = b\<rparr>"
      have "rnCalls s' = (rnCalls s)[k := (rnCalls s ! k)\<lparr>caEch := Some ?r\<rparr>]"
        using ex ESection h Returned by (auto simp: process_section_def)
      then show ?thesis using k spec_execute [of k "map abs_call (rnCalls s)" _ ?r] by (auto simp: abs_call_def map_update)
    next
      case (Section f)
      then have "rnCalls s' = rnCalls s" using ex ESection h by (auto simp: process_section_def split: prod.splits)
      then show ?thesis using spec_stutter by simp
    qed
  next
    case (ETake k)
    then show ?thesis using ex en map_abs_update [of k "rnCalls s" "process_take (rnCalls s ! k)"] spec_stutter
      by (auto simp: process_take_def abs_call_def)
  next
    case (ETick k)
    then show ?thesis using ex en map_abs_update [of k "rnCalls s" "process_tick (rnNet s) (rnCalls s ! k)"] spec_stutter
      by (auto simp: process_tick_def abs_call_def)
  next
    case (EFinal k lost)
    let ?c = "rnCalls s ! k"
    obtain b where b: "caPhase ?c = PFinal b" "k < length (rnCalls s)" using en EFinal by auto
    have "rnCalls s' = (rnCalls s)[k := ?c\<lparr>caPhase := PDone noReply\<rparr>] \<or>
        b \<and> rnCalls s' = (rnCalls s)[k := ?c\<lparr>caPhase := PDone (the (caEch ?c))\<rparr>]"
      using process_final_call [OF b(1), of lost] ex EFinal by auto
    moreover have "caEch ?c \<noteq> None" if "b" using ok b that by (auto simp: rpcs_ok_def call_ok_def)
    ultimately show ?thesis
      using spec_fail [of k "map abs_call (rnCalls s)" "caEch ?c"] spec_return [of k "map abs_call (rnCalls s)"] b
      by (auto simp: abs_call_def map_update)
  next
    case (EAdmin f)
    then show ?thesis using ex spec_stutter by auto
  qed
qed

section \<open>The effects of the calls\<close>

text \<open>
  Handlers at work: \<open>H k\<close> is what the handler of call \<open>k\<close> has still to do, and \<open>interleave ks\<close> lets the handlers of
  the calls \<open>ks\<close> execute their next critical section, in this order.
\<close>

fun interleave :: "nat list \<Rightarrow> (nat \<rightharpoonup> 'w handler_run) \<Rightarrow> 'w \<Rightarrow> ('w \<times> (nat \<rightharpoonup> 'w handler_run)) option" where
  "interleave [] H w = Some (w, H)"
| "interleave (k # ks) H w =
     (case H k of
        Some (Section f) \<Rightarrow> (let (w, h) = f w in interleave ks (H(k \<mapsto> h)) w)
      | _ \<Rightarrow> None)"

lemma interleave_append: "interleave (ks @ ls) H w = interleave ks H w \<bind> (\<lambda>(w, H). interleave ls H w)"
  by (induction ks arbitrary: H w) (auto split: option.splits handler_run.splits prod.splits)

lemma interleave_new: "interleave ks H w = Some (w', H') \<Longrightarrow> H k = None \<Longrightarrow> interleave ks (H(k \<mapsto> h)) w = Some (w', H'(k \<mapsto> h))"
proof (induction ks arbitrary: H w)
  case (Cons j ks)
  then obtain f where f: "H j = Some (Section f)" "interleave ks (H(j \<mapsto> snd (f w))) (fst (f w)) = Some (w', H')"
    by (auto split: option.splits handler_run.splits prod.splits)
  have "j \<noteq> k" using f(1) Cons.prems(2) by auto
  moreover have "interleave ks (H(j \<mapsto> snd (f w), k \<mapsto> h)) (fst (f w)) = Some (w', H'(k \<mapsto> h))"
    by (rule Cons.IH [OF f(2)]) (use Cons.prems(2) \<open>j \<noteq> k\<close> in simp)
  moreover have "H(j \<mapsto> snd (f w), k \<mapsto> h) = H(k \<mapsto> h, j \<mapsto> snd (f w))" by (rule fun_upd_twist [OF \<open>j \<noteq> k\<close>])
  ultimately show ?case using f(1) by (cases "f w") (simp del: fun_upd_apply add: fun_upd_other)
qed simp

text \<open>The handler that a call starts, and how far it has got.\<close>

definition handler_of :: "(nat \<rightharpoonup> 'w Server) \<Rightarrow> 'n call \<Rightarrow> 'w handler_run option" where
  "handler_of servers c = do { p \<leftarrow> caServer c; server \<leftarrow> servers p; map_option snd (Server_dispatch server (caReq c)) }"

definition replied_to :: "('n, 'w) rpcnet \<Rightarrow> nat \<Rightarrow> bool" where
  "replied_to s k \<longleftrightarrow> k < length (rnCalls s) \<and> caEch (rnCalls s ! k) \<noteq> None"

definition begun :: "(nat \<rightharpoonup> 'w Server) \<Rightarrow> ('n, 'w) rpcnet \<Rightarrow> nat \<rightharpoonup> 'w handler_run" where
  "begun servers s k = (if replied_to s k \<or> rnRunning s k \<noteq> None then handler_of servers (rnCalls s ! k) else None)"

definition progress :: "('n, 'w) rpcnet \<Rightarrow> nat \<rightharpoonup> 'w handler_run" where
  "progress s k = (if replied_to s k then Some (Returned (rpReply (the (caEch (rnCalls s ! k))))) else rnRunning s k)"

definition same_services :: "(nat \<rightharpoonup> 'w Server) \<Rightarrow> (nat \<rightharpoonup> 'w Server) \<Rightarrow> bool" where
  "same_services ss ss' \<longleftrightarrow> (\<forall>p. map_option srServices (ss p) = map_option srServices (ss' p))"

definition effects_ok :: "(nat \<rightharpoonup> 'w Server) \<Rightarrow> 'w \<Rightarrow> ('n, 'w) rpcnet \<Rightarrow> bool" where
  "effects_ok servers w s \<longleftrightarrow> same_services servers (rnServers s) \<and>
     (\<exists>ks. interleave ks (begun servers s) w = Some (rnWorld s, progress s))"

lemma dispatch_services:
  assumes "srServices rs = srServices rs'"
  shows "map_option snd (Server_dispatch rs req) = map_option snd (Server_dispatch rs' req)"
  using assms by (auto simp: Server_dispatch_def Let_def map_option_bind comp_def intro!: Option.bind_cong)

lemma handler_of_same:
  assumes "same_services servers ss" "caServer c = Some p" "ss p = Some rs" "Server_dispatch rs (caReq c) = Some (rs', h)"
  shows "handler_of servers c = Some h"
proof -
  obtain rs0 where rs0: "servers p = Some rs0" "srServices rs0 = srServices rs"
    using assms(1,3) unfolding same_services_def by (metis option.map_disc_iff option.map_sel option.sel option.collapse option.discI)
  then show ?thesis using dispatch_services [OF rs0(2), of "caReq c"] assms(2,4) by (simp add: handler_of_def)
qed

text \<open>A step that changes no handler and no call whose handler was started.\<close>

lemma effects_update:
  assumes "effects_ok servers w s" "rnServers s' = rnServers s" "rnWorld s' = rnWorld s" "rnRunning s' = rnRunning s"
    "rnCalls s' = (rnCalls s)[k := c']" "caEch c' = caEch (rnCalls s ! k)"
    "replied_to s k \<or> rnRunning s k \<noteq> None \<Longrightarrow> caServer c' = caServer (rnCalls s ! k) \<and> caReq c' = caReq (rnCalls s ! k)"
  shows "effects_ok servers w s'"
proof -
  have e: "caEch (rnCalls s' ! j) = caEch (rnCalls s ! j)" for j
    using assms(5,6) by (cases "j = k"; cases "k < length (rnCalls s)") (simp_all add: list_update_beyond)
  then have r: "replied_to s' j = replied_to s j" for j using assms(5) by (simp add: replied_to_def)
  have "begun servers s' j = begun servers s j" for j
    using assms(4,5,7) r by (cases "j = k"; cases "k < length (rnCalls s)") (auto simp: begun_def handler_of_def list_update_beyond)
  moreover have "progress s' j = progress s j" for j
    using assms(4) r e by (simp add: progress_def)
  ultimately have "begun servers s' = begun servers s" "progress s' = progress s" by (auto simp: fun_eq_iff)
  then show ?thesis using assms(1-3) by (simp add: effects_ok_def)
qed

lemma effects_dispatch:
  assumes ef: "effects_ok servers w s" and en: "rpc_enabled (EDispatch k) s" and st: "process_dispatch k s = Some s'"
  shows "effects_ok servers w s'"
proof -
  let ?c = "rnCalls s ! k"
  obtain p rs rs' h where p: "caServer ?c = Some p" "rnServers s p = Some rs" "Server_dispatch rs (caReq ?c) = Some (rs', h)"
      and s': "s' = s\<lparr>rnServers := (rnServers s)(p \<mapsto> rs'), rnRunning := (rnRunning s)(k \<mapsto> h)\<rparr>"
    using st by (auto simp: process_dispatch_def Let_def)
  obtain ks where ss: "same_services servers (rnServers s)" and ks: "interleave ks (begun servers s) w = Some (rnWorld s, progress s)"
    using ef by (auto simp: effects_ok_def)
  have r: "replied_to s' j = replied_to s j" "\<not> replied_to s k" for j using en by (auto simp: replied_to_def s')
  have "begun servers s' = (begun servers s)(k \<mapsto> h)"
    using r handler_of_same [OF ss p] by (auto simp: fun_eq_iff begun_def s')
  moreover have "progress s' = (progress s)(k \<mapsto> h)" using r by (auto simp: fun_eq_iff progress_def s')
  moreover have "begun servers s k = None" using en r by (simp add: begun_def)
  moreover have "same_services servers (rnServers s')"
    using ss p(2) Server_dispatch_services [OF p(3)] by (auto simp: same_services_def s')
  moreover have "rnWorld s' = rnWorld s" by (simp add: s')
  ultimately show ?thesis using interleave_new [OF ks] unfolding effects_ok_def by auto
qed

lemma effects_section:
  assumes ok: "running_ok s" and ef: "effects_ok servers w s" and st: "process_section k s = Some s'"
  shows "effects_ok servers w s'"
proof -
  obtain h where h: "rnRunning s k = Some h" using st by (auto simp: process_section_def)
  then have k: "k < length (rnCalls s)" "caEch (rnCalls s ! k) = None" using ok by (auto simp: running_ok_def)
  obtain ks where ss: "same_services servers (rnServers s)" and ks: "interleave ks (begun servers s) w = Some (rnWorld s, progress s)"
    using ef by (auto simp: effects_ok_def)
  show ?thesis
  proof (cases h)
    case (Returned b)
    then have s': "s' = s\<lparr>rnCalls := (rnCalls s)[k := (rnCalls s ! k)\<lparr>caEch := Some \<lparr>rpOk = True, rpReply = b\<rparr>\<rparr>],
        rnRunning := (rnRunning s)(k := None)\<rparr>" using st h by (simp add: process_section_def)
    have "begun servers s' j = begun servers s j" for j
      using k h by (cases "j = k") (auto simp: begun_def replied_to_def handler_of_def s')
    moreover have "progress s' j = progress s j" for j
      using k h Returned by (cases "j = k") (auto simp: progress_def replied_to_def s')
    ultimately have "begun servers s' = begun servers s" "progress s' = progress s" by (auto simp: fun_eq_iff)
    moreover have "rnServers s' = rnServers s" "rnWorld s' = rnWorld s" by (simp_all add: s')
    ultimately show ?thesis using ef by (simp add: effects_ok_def)
  next
    case (Section f)
    obtain w' h' where f: "f (rnWorld s) = (w', h')" by (cases "f (rnWorld s)")
    then have s': "rnWorld s' = w'" "rnRunning s' = (rnRunning s)(k \<mapsto> h')" "rnCalls s' = rnCalls s" "rnServers s' = rnServers s"
      using st h Section by (auto simp: process_section_def)
    have r: "replied_to s' = replied_to s" "\<not> replied_to s k" using k by (auto simp: replied_to_def s'(3))
    have "begun servers s' = begun servers s" using h by (auto simp: fun_eq_iff begun_def s'(2,3) r(1))
    moreover have "progress s' = (progress s)(k \<mapsto> h')" using r(2) by (auto simp: fun_eq_iff progress_def s'(2,3) r(1))
    moreover have "progress s k = Some (Section f)" using h r Section by (simp add: progress_def)
    ultimately have "interleave (ks @ [k]) (begun servers s') w = Some (rnWorld s', progress s')"
      using ks f s'(1) by (simp add: interleave_append)
    then show ?thesis using ss s'(4) unfolding effects_ok_def by auto
  qed
qed

lemma effects_step:
  assumes ok: "rpcs_ok s" and ef: "effects_ok servers w s" and st: "rpc_step e s = Some s'"
  shows "effects_ok servers w s'"
proof -
  have en: "rpc_enabled e s" and ex: "rpc_exec e s = Some s'" using st by (auto simp: rpc_step_def split: if_splits)
  have R: "running_ok s" and c: "\<And>k. k < length (rnCalls s) \<Longrightarrow> call_ok (rnCalls s ! k)" using ok by (auto simp: rpcs_ok_def)
  show ?thesis
  proof (cases e)
    case (ECall x m a)
    then have s': "rnServers s' = rnServers s" "rnWorld s' = rnWorld s" "rnRunning s' = rnRunning s"
      "\<exists>c. rnCalls s' = rnCalls s @ [c] \<and> caEch c = None"
      using ex by (auto simp: Call_send_def Let_def split: if_splits)
    have r: "replied_to s' j = replied_to s j" for j using s'(4) by (auto simp: replied_to_def nth_append less_Suc_eq)
    have n: "rnCalls s' ! j = rnCalls s ! j" if "replied_to s j \<or> rnRunning s j \<noteq> None" for j
      using s'(4) that R by (auto simp: replied_to_def running_ok_def nth_append)
    have "begun servers s' = begun servers s" "progress s' = progress s"
      using r n s'(3) by (auto simp: fun_eq_iff begun_def progress_def)
    then show ?thesis using ef s' by (simp add: effects_ok_def)
  next
    case (ERead k)
    then have k: "k < length (rnCalls s)" "\<not> caStarted (rnCalls s ! k)" using en c [of k] by (auto simp: call_ok_def)
    then have "\<not> replied_to s k" "rnRunning s k = None" using c [of k] R by (auto simp: replied_to_def call_ok_def running_ok_def)
    then show ?thesis using ex ERead
      by (intro effects_update [OF ef, of s' k "process_read (rnNet s) (rnCalls s ! k)"]) (auto simp: process_running)
  next
    case (EDeliver k lost)
    then show ?thesis using ex
      by (intro effects_update [OF ef, of s' k "process_deliver lost (rnCalls s ! k)"]) (auto simp: process_deliver_def)
  next
    case (EDispatch k)
    then show ?thesis using effects_dispatch [OF ef, of k s'] en ex by simp
  next
    case (ESection k)
    then show ?thesis using effects_section [OF R ef] ex by simp
  next
    case (ETake k)
    then show ?thesis using ex
      by (intro effects_update [OF ef, of s' k "process_take (rnCalls s ! k)"]) (auto simp: process_take_def)
  next
    case (ETick k)
    then show ?thesis using ex
      by (intro effects_update [OF ef, of s' k "process_tick (rnNet s) (rnCalls s ! k)"]) (auto simp: process_tick_def)
  next
    case (EFinal k lost)
    then obtain b where b: "caPhase (rnCalls s ! k) = PFinal b" using en by auto
    obtain r where "rnCalls s' = (rnCalls s)[k := (rnCalls s ! k)\<lparr>caPhase := PDone r\<rparr>]" "rnRunning s' = rnRunning s"
      "rnServers s' = rnServers s" "rnWorld s' = rnWorld s"
      using process_final_call [OF b, of lost] ex EFinal by auto
    then show ?thesis by (intro effects_update [OF ef, of s' k "(rnCalls s ! k)\<lparr>caPhase := PDone r\<rparr>"]) auto
  next
    case (EAdmin f)
    then have "begun servers s' = begun servers s" "progress s' = progress s"
      using ex by (auto simp: fun_eq_iff begun_def progress_def replied_to_def)
    then show ?thesis using ex ef EAdmin by (auto simp: effects_ok_def)
  qed
qed

lemma rpc_reachable_effects: "rpc_reachable servers w s \<Longrightarrow> effects_ok servers w s"
proof (induction rule: rpc_reachable.induct)
  case rpc_start
  show ?case unfolding effects_ok_def
    by (intro conjI exI [of _ "[]"]) (auto simp: same_services_def fun_eq_iff begun_def progress_def replied_to_def rpc_init_def)
next
  case (rpc_next s e s')
  then show ?case using effects_step [of s servers w e s'] rpc_reachable_ok [of servers w s] by blast
qed

section \<open>Properties\<close>

text \<open>
  C25. The network refines the contract of remote procedure calls: along every run, with calls in
  progress at the same time, lost messages, servers added and deleted and ends enabled and disabled,
  each event is a step of \<open>rpc_spec\<close> on the calls. So a call is executed at most once, returns at
  most once, and returns success only with the reply of its execution.
\<close>

theorem network_refines_contract:
  assumes "rpc_reachable servers w s" "rpc_step e s = Some s'"
  shows "rpc_spec (map abs_call (rnCalls s)) (map abs_call (rnCalls s'))"
  by (rule rpc_refines [OF rpc_reachable_ok [OF assms(1)] assms(2)])

text \<open>
  A counter whose method \<^verbatim>\<open>Inc\<close> reads the counter in one critical section and writes it in another, so that two calls
  can interfere.
\<close>

definition counter_server :: "nat Server" where
  "counter_server = AddService MakeServer (MakeService ''Counter''
     [\<lparr>msName = ''Inc'', msPkgPath = [], msNumIn = 3, msIn2Ptr = True, msNumOut = 0,
       msFunc = (\<lambda>a. Section (\<lambda>w. (w, Section (\<lambda>w'. (w + 1, Returned [of_nat w])))))\<rparr>])"

definition counter_net :: "(nat, nat) rpcnet" where
  "counter_net = rpc_init [0 \<mapsto> counter_server] 5"

definition counter_setup :: "nat rpc_event list" where
  "counter_setup = [EAdmin (AddServer 7 0), EAdmin (Connect 3 7), EAdmin (Enable 3 True),
     ECall \<lparr>ceEndname = 3\<rparr> ''Counter.Inc'' [], ECall \<lparr>ceEndname = 3\<rparr> ''Counter.Inc'' [], ERead 0, ERead 1,
     EDeliver 0 False, EDeliver 1 False, EDispatch 0, EDispatch 1, ESection 0, ESection 1, ESection 1, ESection 0]"

definition counter_running :: "(nat, nat) rpcnet" where
  "counter_running = the (rpc_run counter_setup counter_net)"

lemma admin_ok_simps [simp]: "admin_ok (AddServer n p)" "admin_ok (Connect e n)" "admin_ok (Enable e b)"
  by (auto simp: admin_ok_def)

lemmas counter_eval = counter_setup_def counter_net_def rpc_init_def rpc_step_def MakeNetwork_def AddServer_def Connect_def Enable_def
  Call_send_def Let_def process_read_def readEndnameInfo_def isEnabled_def connectionOf_def serverOf_def process_deliver_def
  process_dispatch_def process_section_def Server_dispatch_def Service_dispatch_def counter_server_def MakeServer_def AddService_def
  MakeService_def slice_to_def slice_from_def admin_ok_simps [unfolded AddServer_def Connect_def Enable_def]

lemma counter_run: "rpc_run counter_setup counter_net \<noteq> None"
  by (simp add: counter_eval)

lemma counter_running_facts:
  "map abs_call (rnCalls counter_running) = [(None, None), (None, None)]" "rnRunning counter_running 0 = Some (Returned [5])"
  "rnWorld counter_running = 6" "length (rnCalls counter_running) = 2"
  by (simp_all add: counter_running_def counter_eval abs_call_def)

lemma counter_reachable: "rpc_reachable [0 \<mapsto> counter_server] 5 counter_running"
  using rpc_reachable_run [OF rpc_start, of counter_setup] counter_run
  by (auto simp: counter_running_def counter_net_def)

lemma counter_reply:
  obtains s' where "rpc_step (ESection 0) counter_running = Some s'" "rnWorld s' = 6"
    "map abs_call (rnCalls s') = [(Some \<lparr>rpOk = True, rpReply = [5]\<rparr>, None), (None, None)]"
  using that counter_running_facts
  by (cases "rnCalls counter_running"; cases "tl (rnCalls counter_running)") (auto simp: rpc_step_def process_section_def abs_call_def)

theorem network_refines_contract_witness:
  "rpc_spec [(None, None), (None, None)] [(Some \<lparr>rpOk = True, rpReply = [5]\<rparr>, None), (None, None)]"
proof -
  obtain s' where s': "rpc_step (ESection 0) counter_running = Some s'"
      "map abs_call (rnCalls s') = [(Some \<lparr>rpOk = True, rpReply = [5]\<rparr>, None), (None, None)]" by (rule counter_reply)
  show ?thesis using network_refines_contract [OF counter_reachable s'(1)] s'(2) by (simp add: counter_running_facts)
qed

text \<open>
  C30. The effects of remote procedure calls: in every reachable state the state of the served objects is what the handlers of
  the calls whose handler was started, each started once, make of it when their critical sections are interleaved in some
  order. Each of them has got as far as the network has it: those that have put a reply on their channel have run to their end,
  and this is their reply. Every call that returned success is among these, with its own reply; a
  call that failed may or may not be.
\<close>

theorem rpc_effects_once:
  assumes "rpc_reachable servers w s"
  shows "(\<exists>ks H. interleave ks (begun servers s) w = Some (rnWorld s, H) \<and>
      (\<forall>k. H k = (if replied_to s k then Some (Returned (rpReply (the (caEch (rnCalls s ! k))))) else rnRunning s k))) \<and>
    (\<forall>k < length (rnCalls s). \<forall>r. caPhase (rnCalls s ! k) = PDone r \<and> rpOk r \<longrightarrow> replied_to s k \<and> caEch (rnCalls s ! k) = Some r)"
proof
  show "\<exists>ks H. interleave ks (begun servers s) w = Some (rnWorld s, H) \<and>
      (\<forall>k. H k = (if replied_to s k then Some (Returned (rpReply (the (caEch (rnCalls s ! k))))) else rnRunning s k))"
    using rpc_reachable_effects [OF assms] unfolding effects_ok_def progress_def by blast
  have "call_ok (rnCalls s ! k)" if "k < length (rnCalls s)" for k using rpc_reachable_ok [OF assms] that by (simp add: rpcs_ok_def)
  then show "\<forall>k < length (rnCalls s). \<forall>r. caPhase (rnCalls s ! k) = PDone r \<and> rpOk r \<longrightarrow> replied_to s k \<and> caEch (rnCalls s ! k) = Some r"
    by (fastforce simp: call_ok_def noReply_def replied_to_def)
qed

theorem rpc_effects_once_witness:
  "\<exists>ks H. interleave ks (begun [0 \<mapsto> counter_server] counter_running) 5 = Some (6, H) \<and> H 0 = Some (Returned [5])"
proof -
  have "\<not> replied_to counter_running 0" using counter_running_facts by (auto simp: replied_to_def abs_call_def)
  then show ?thesis using conjunct1 [OF rpc_effects_once [OF counter_reachable]] counter_running_facts(2,3) by metis
qed

end
