(* ===== verification/Labgob.thy ===== *)
theory Labgob
  imports Prelude
begin

text \<open>
  \<^verbatim>\<open>labgob/labgob.go\<close>: the wrapper of \<^verbatim>\<open>encoding/gob\<close> that warns about fields gob does not send and about
  decoding into variables that are not empty. What \<^verbatim>\<open>reflect\<close> tells of the types of a program is a
  table: a type is an index into it, so types may refer to each other in cycles. Field names are
  ASCII. The gob encoder and decoder are those of \<^verbatim>\<open>Prelude\<close>.
\<close>

section \<open>Types\<close>

datatype rtype =
    TStruct string "(string \<times> nat) list"
  | TElem nat
  | TMap nat nat
  | TOther

type_synonym rtypes = "rtype list"

definition kind_of :: "rtypes \<Rightarrow> nat \<Rightarrow> rtype" where
  "kind_of ts t = (if t < length ts then ts ! t else TOther)"

text \<open>\<^verbatim>\<open>unicode.IsUpper\<close> of the first rune of a name; the empty string has no upper-case rune.\<close>

definition starts_upper :: "string \<Rightarrow> bool" where
  "starts_upper name = (case name of [] \<Rightarrow> False | c # _ \<Rightarrow> 65 \<le> (of_char c :: nat) \<and> (of_char c :: nat) \<le> 90)"

text \<open>The package variables, and the lines printed so far.\<close>

datatype warning = LowerCase string string | NonDefault string

record labgob =
  errorCount :: int
  checked :: "nat set"
  printed :: "warning list"

section \<open>checkType\<close>

text \<open>
  The statements that the switch of \<^verbatim>\<open>checkType\<close> executes for a type, in order: complaining about a
  field and descending into a type.
\<close>

datatype action = Complain string string | Visit nat

fun field_actions :: "string \<Rightarrow> (string \<times> nat) list \<Rightarrow> action list" where
  "field_actions tname [] = []"
| "field_actions tname ((fname, ft) # fs) =
     (if \<not> starts_upper fname then [Complain fname tname, Visit ft] else [Visit ft]) @ field_actions tname fs"

fun actions :: "rtype \<Rightarrow> action list" where
  "actions (TStruct tname fs) = field_actions tname fs"
| "actions (TElem t) = [Visit t]"
| "actions (TMap elem key) = [Visit elem, Visit key]"
| "actions TOther = []"

definition complain :: "string \<Rightarrow> string \<Rightarrow> labgob \<Rightarrow> labgob" where
  "complain fname tname g = g\<lparr>printed := printed g @ [LowerCase fname tname], errorCount := errorCount g + 1\<rparr>"

lemma complain_checked [simp]: "checked (complain f t g) = checked g"
  by (simp add: complain_def)

text \<open>For the termination of the search: each new type of the table is visited once, and a type outside the table has no components.\<close>

lemma unchecked_less:
  assumes "C \<subseteq> C'" "k < l"
  shows "(({t. t < (n::nat)} - C', k), ({t. t < n} - C, l)) \<in> finite_psubset <*lex*> less_than"
proof (cases "{t. t < n} - C' = {t. t < n} - C")
  case True
  then show ?thesis using assms(2) by simp
next
  case False
  then have "{t. t < n} - C' \<subset> {t. t < n} - C" using assms(1) by blast
  moreover have "finite ({t. t < n} - C)" by simp
  ultimately show ?thesis by (simp add: finite_psubset_def)
qed

lemma visit_less:
  assumes "t \<notin> C"
  shows "(({u. u < length ts} - insert t C, length (actions (kind_of ts t))), ({u. u < length ts} - C, Suc k)) \<in> finite_psubset <*lex*> less_than"
proof (cases "t < length ts")
  case True
  then have "{u. u < length ts} - insert t C \<subset> {u. u < length ts} - C" using assms by auto
  moreover have "finite ({u. u < length ts} - C)" by simp
  ultimately show ?thesis by (simp add: finite_psubset_def)
next
  case False
  then have "{u. u < length ts} - insert t C = {u. u < length ts} - C" by auto
  then show ?thesis using False by (simp add: kind_of_def)
qed

function check_actions :: "rtypes \<Rightarrow> action list \<Rightarrow> labgob \<Rightarrow> labgob" where
  "check_actions ts [] g = g"
| "check_actions ts (Complain fname tname # as) g = check_actions ts as (complain fname tname g)"
| "check_actions ts (Visit t # as) g =
     (if t \<in> checked g then check_actions ts as g
      else check_actions ts as (check_actions ts (actions (kind_of ts t)) (g\<lparr>checked := insert t (checked g)\<rparr>)))"
  by pat_completeness auto
termination
proof (relation "inv_image (finite_psubset <*lex*> less_than) (\<lambda>(ts, as, g). ({t. t < length ts} - checked g, length as))")
  show "wf (inv_image (finite_psubset <*lex*> less_than) (\<lambda>(ts :: rtypes, as :: action list, g :: labgob). ({t. t < length ts} - checked g, length as)))"
    by (intro wf_inv_image wf_lex_prod wf_finite_psubset wf_less_than)
next
  fix ts fname tname as g
  show "((ts, as, complain fname tname g), (ts, Complain fname tname # as, g))
      \<in> inv_image (finite_psubset <*lex*> less_than) (\<lambda>(ts, as, g). ({t. t < length ts} - checked g, length as))"
    using unchecked_less [OF subset_refl, of "length as" "Suc (length as)"] by simp
next
  fix ts t as g
  assume "t \<in> checked (g::labgob)"
  show "((ts, as, g), (ts, Visit t # as, g))
      \<in> inv_image (finite_psubset <*lex*> less_than) (\<lambda>(ts, as, g). ({t. t < length ts} - checked g, length as))"
    using unchecked_less [OF subset_refl, of "length as" "Suc (length as)"] by simp
next
  fix ts t as g
  assume "t \<notin> checked (g::labgob)"
  then show "((ts, actions (kind_of ts t), g\<lparr>checked := insert t (checked g)\<rparr>), (ts, Visit t # as, g))
      \<in> inv_image (finite_psubset <*lex*> less_than) (\<lambda>(ts, as, g). ({t. t < length ts} - checked g, length as))"
    using visit_less [of t "checked g" ts "length as"] by simp
next
  fix ts t as g
  assume "t \<notin> checked (g::labgob)" and d: "check_actions_dom (ts, actions (kind_of ts t), g\<lparr>checked := insert t (checked g)\<rparr>)"
  have mono: "checked h \<subseteq> checked (check_actions ts as h)" if "check_actions_dom (ts, as, h)" for ts as h
    using that by (induction ts as h rule: check_actions.pinduct) (auto simp: check_actions.psimps)
  have "checked g \<subseteq> checked (check_actions ts (actions (kind_of ts t)) (g\<lparr>checked := insert t (checked g)\<rparr>))"
    using mono [OF d] by auto
  then show "((ts, as, check_actions ts (actions (kind_of ts t)) (g\<lparr>checked := insert t (checked g)\<rparr>)), (ts, Visit t # as, g))
      \<in> inv_image (finite_psubset <*lex*> less_than) (\<lambda>(ts, as, g). ({t. t < length ts} - checked g, length as))"
    using unchecked_less [of "checked g" _ "length as" "Suc (length as)"] by simp
qed

definition checkType :: "rtypes \<Rightarrow> nat \<Rightarrow> labgob \<Rightarrow> labgob" where
  "checkType ts t g = check_actions ts [Visit t] g"

text \<open>
  A value is what an \<^verbatim>\<open>interface{}\<close> holds; \<open>type_of\<close> is \<^verbatim>\<open>reflect.TypeOf\<close>, which has no type for nil,
  and asking no type for its kind panics. \<open>None\<close> is a panic.
\<close>

definition checkValue :: "rtypes \<Rightarrow> ('v \<Rightarrow> nat option) \<Rightarrow> 'v \<Rightarrow> labgob \<Rightarrow> labgob option" where
  "checkValue ts type_of v g = (case type_of v of None \<Rightarrow> None | Some t \<Rightarrow> Some (checkType ts t g))"

section \<open>checkDefault\<close>

text \<open>
  A value as \<^verbatim>\<open>reflect\<close> shows it: the fields of a struct, what a pointer points to, or a basic
  value with the name of its type and whether it is the zero value. Other kinds are not looked into.
  \<^verbatim>\<open>Value.Interface\<close> panics on a value reached through a field that is not exported, which the flag
  \<open>ro\<close> records.
\<close>

datatype rvalue =
    VStruct "(string \<times> rvalue) list"
  | VPtr "rvalue option"
  | VBasic string bool
  | VOther

definition nonDefault :: "string \<Rightarrow> labgob \<Rightarrow> labgob" where
  "nonDefault what g =
     g\<lparr>printed := (if errorCount g < 1 then printed g @ [NonDefault what] else printed g), errorCount := errorCount g + 1\<rparr>"

fun checkDefault1 :: "bool \<Rightarrow> rvalue \<Rightarrow> nat \<Rightarrow> string \<Rightarrow> labgob \<Rightarrow> labgob option"
  and checkDefault_fields :: "bool \<Rightarrow> (string \<times> rvalue) list \<Rightarrow> nat \<Rightarrow> string \<Rightarrow> labgob \<Rightarrow> labgob option" where
  "checkDefault1 ro (VStruct fs) depth name g =
     (if depth > 3 then Some g else checkDefault_fields ro fs depth name g)"
| "checkDefault1 ro (VPtr None) depth name g = Some g"
| "checkDefault1 ro (VPtr (Some v)) depth name g =
     (if depth > 3 then Some g else checkDefault1 ro v (depth + 1) name g)"
| "checkDefault1 ro (VBasic tname zero) depth name g =
     (if depth > 3 then Some g
      else if ro then None
      else if \<not> zero then Some (nonDefault (if name = [] then tname else name) g)
      else Some g)"
| "checkDefault1 ro VOther depth name g = Some g"
| "checkDefault_fields ro [] depth name g = Some g"
| "checkDefault_fields ro ((fname, vv) # fs) depth name g =
     (let name1 = if name \<noteq> [] then name @ ''.'' @ fname else fname
      in case checkDefault1 (ro \<or> \<not> starts_upper fname) vv (depth + 1) name1 g of
           None \<Rightarrow> None
         | Some g' \<Rightarrow> checkDefault_fields ro fs depth name g')"

text \<open>\<open>None\<close> is the nil interface.\<close>

definition checkDefault :: "rvalue option \<Rightarrow> labgob \<Rightarrow> labgob option" where
  "checkDefault value g = (case value of None \<Rightarrow> Some g | Some v \<Rightarrow> checkDefault1 False v 1 [] g)"

section \<open>The wrappers\<close>

definition lab_Encode :: "rtypes \<Rightarrow> ('v \<Rightarrow> nat option) \<Rightarrow> 'v \<Rightarrow> labgob \<Rightarrow> 'v list \<Rightarrow> (labgob \<times> 'v list) option" where
  "lab_Encode ts type_of e g w = (case checkValue ts type_of e g of None \<Rightarrow> None | Some g' \<Rightarrow> Some (g', Encode w e))"

text \<open>\<^verbatim>\<open>value.Interface()\<close> of a value that is not read only is the value.\<close>

definition lab_EncodeValue :: "rtypes \<Rightarrow> ('v \<Rightarrow> nat option) \<Rightarrow> bool \<Rightarrow> 'v \<Rightarrow> labgob \<Rightarrow> 'v list \<Rightarrow> (labgob \<times> 'v list) option" where
  "lab_EncodeValue ts type_of ro value g w =
     (if ro then None
      else case checkValue ts type_of value g of None \<Rightarrow> None | Some g' \<Rightarrow> Some (g', Encode w value))"

text \<open>\<open>e\<close> is the pointer decoded through, and \<open>view\<close> is \<^verbatim>\<open>reflect.ValueOf\<close>; the variable it points to is read back from the result.\<close>

definition lab_Decode :: "rtypes \<Rightarrow> ('p \<Rightarrow> nat option) \<Rightarrow> ('p \<Rightarrow> rvalue option) \<Rightarrow> 'p \<Rightarrow> ('v \<Rightarrow> 'a option) \<Rightarrow> labgob \<Rightarrow> 'v list
    \<Rightarrow> (labgob \<times> ('a \<times> 'v list) option) option" where
  "lab_Decode ts type_of view e prj g s =
     (case checkValue ts type_of e g of
        None \<Rightarrow> None
      | Some g1 \<Rightarrow> (case checkDefault (view e) g1 of None \<Rightarrow> None | Some g2 \<Rightarrow> Some (g2, Decode prj s)))"

text \<open>\<^verbatim>\<open>gob.Register\<close> and \<^verbatim>\<open>gob.RegisterName\<close> keep a table of gob's own, the argument \<open>reg\<close>.\<close>

definition Register :: "rtypes \<Rightarrow> ('v \<Rightarrow> nat option) \<Rightarrow> ('v \<Rightarrow> 't \<Rightarrow> 't) \<Rightarrow> 'v \<Rightarrow> labgob \<times> 't \<Rightarrow> (labgob \<times> 't) option" where
  "Register ts type_of reg value gt = (case checkValue ts type_of value (fst gt) of None \<Rightarrow> None | Some g \<Rightarrow> Some (g, reg value (snd gt)))"

definition RegisterName :: "rtypes \<Rightarrow> ('v \<Rightarrow> nat option) \<Rightarrow> (string \<Rightarrow> 'v \<Rightarrow> 't \<Rightarrow> 't) \<Rightarrow> string \<Rightarrow> 'v \<Rightarrow> labgob \<times> 't \<Rightarrow> (labgob \<times> 't) option" where
  "RegisterName ts type_of reg name value gt =
     (case checkValue ts type_of value (fst gt) of None \<Rightarrow> None | Some g \<Rightarrow> Some (g, reg name value (snd gt)))"

end
