(* ===== verification/LabgobProps.thy ===== *)
theory LabgobProps
  imports Labgob "HOL-Library.Multiset"
begin

text \<open>
  What \<^verbatim>\<open>labgob\<close> reports: \<^verbatim>\<open>checkType\<close> visits the types reachable from its argument, each once, and
  \<^verbatim>\<open>checkDefault\<close> looks at the basic values up to three levels down.
\<close>

section \<open>The types reachable from a type\<close>

fun targets :: "action list \<Rightarrow> nat set" where
  "targets [] = {}"
| "targets (Complain f t # as) = targets as"
| "targets (Visit t # as) = insert t (targets as)"

fun complaints :: "action list \<Rightarrow> warning list" where
  "complaints [] = []"
| "complaints (Complain f t # as) = LowerCase f t # complaints as"
| "complaints (Visit t # as) = complaints as"

definition mentions :: "rtypes \<Rightarrow> (nat \<times> nat) set" where
  "mentions ts = {(t, u). u \<in> targets (actions (kind_of ts t))}"

definition type_complaints :: "rtypes \<Rightarrow> nat \<Rightarrow> warning list" where
  "type_complaints ts t = complaints (actions (kind_of ts t))"

text \<open>Between two calls of \<^verbatim>\<open>checkType\<close> the components of every checked type are checked.\<close>

definition closed :: "rtypes \<Rightarrow> nat set \<Rightarrow> bool" where
  "closed ts C = (mentions ts `` C \<subseteq> C)"

lemma field_targets [simp]: "targets (field_actions s fs) = snd ` set fs"
  by (induction s fs rule: field_actions.induct) auto

lemma field_complaints [simp]:
  "complaints (field_actions s fs) = map (\<lambda>f. LowerCase (fst f) s) (filter (\<lambda>f. \<not> starts_upper (fst f)) fs)"
  by (induction s fs rule: field_actions.induct) auto

lemma closed_rtrancl:
  assumes "closed ts C" "(t, u) \<in> (mentions ts)\<^sup>*" "t \<in> C"
  shows "u \<in> C"
  using assms(2,3,1) by (induction rule: rtrancl_induct) (auto simp: closed_def)

section \<open>The depth-first search\<close>

lemma check_actions_grows: "checked g \<subseteq> checked (check_actions ts as g)"
  by (induction ts as g rule: check_actions.induct) auto

lemma check_actions_covers: "targets as \<subseteq> checked (check_actions ts as g)"
proof (induction ts as g rule: check_actions.induct)
  case (3 ts t as g)
  then show ?case
    using check_actions_grows [of g ts as]
      check_actions_grows [of "g\<lparr>checked := insert t (checked g)\<rparr>" ts "actions (kind_of ts t)"]
      check_actions_grows [of "check_actions ts (actions (kind_of ts t)) (g\<lparr>checked := insert t (checked g)\<rparr>)" ts as]
    by auto
qed auto

lemma check_actions_closes:
  "mentions ts `` (checked (check_actions ts as g) - checked g) \<subseteq> checked (check_actions ts as g)"
proof (induction ts as g rule: check_actions.induct)
  case (3 ts t as g)
  show ?case
  proof (cases "t \<in> checked g")
    case False
    let ?h = "check_actions ts (actions (kind_of ts t)) (g\<lparr>checked := insert t (checked g)\<rparr>)"
    have "mentions ts `` {t} \<subseteq> checked ?h"
      using check_actions_covers [of "actions (kind_of ts t)" ts] by (auto simp: mentions_def)
    with 3(2,3) [OF False] check_actions_grows [of ?h ts as] False show ?thesis by simp blast
  qed (use 3(1) in simp)
qed auto

lemma check_actions_reaches:
  "checked (check_actions ts as g) \<subseteq> checked g \<union> (mentions ts)\<^sup>* `` targets as"
proof (induction ts as g rule: check_actions.induct)
  case (3 ts t as g)
  show ?case
  proof (cases "t \<in> checked g")
    case False
    have "(mentions ts)\<^sup>* `` targets (actions (kind_of ts t)) \<subseteq> (mentions ts)\<^sup>* `` {t}"
      by (auto simp: mentions_def intro: converse_rtrancl_into_rtrancl)
    with 3(2,3) [OF False] False show ?thesis by simp blast
  qed (use 3(1) in auto)
qed auto

lemma check_actions_finite: "finite (checked (check_actions ts as g) - checked g)"
proof (induction ts as g rule: check_actions.induct)
  case (3 ts t as g)
  show ?case
  proof (cases "t \<in> checked g")
    case False
    let ?h = "check_actions ts (actions (kind_of ts t)) (g\<lparr>checked := insert t (checked g)\<rparr>)"
    have "checked (check_actions ts as ?h) - checked g
        \<subseteq> (checked (check_actions ts as ?h) - checked ?h) \<union> insert t (checked ?h - insert t (checked g))"
      by blast
    with 3(2,3) [OF False] False show ?thesis by (simp add: finite_subset)
  qed (use 3(1) in simp)
qed auto

lemma sum_stages:
  fixes f :: "'a \<Rightarrow> 'b::comm_monoid_add"
  assumes "insert t G \<subseteq> H" "H \<subseteq> K" "t \<notin> G" "finite (K - H)" "finite (H - insert t G)"
  shows "sum f (K - G) = f t + (sum f (K - H) + sum f (H - insert t G))"
proof -
  have split: "K - G = insert t ((K - H) \<union> (H - insert t G))" using assms by blast
  have "(K - H) \<inter> (H - insert t G) = {}" by blast
  then have "sum f ((K - H) \<union> (H - insert t G)) = sum f (K - H) + sum f (H - insert t G)"
    using assms by (intro sum.union_disjoint) auto
  moreover have "t \<notin> (K - H) \<union> (H - insert t G)" using assms by blast
  ultimately show ?thesis using assms by (simp add: split)
qed

text \<open>Every newly checked type contributes its complaints once.\<close>

lemma check_actions_prints:
  "mset (printed (check_actions ts as g)) = mset (printed g) + mset (complaints as) +
     (\<Sum>u \<in> checked (check_actions ts as g) - checked g. mset (type_complaints ts u))"
proof (induction ts as g rule: check_actions.induct)
  case (3 ts t as g)
  show ?case
  proof (cases "t \<in> checked g")
    case False
    let ?g = "g\<lparr>checked := insert t (checked g)\<rparr>"
    let ?h = "check_actions ts (actions (kind_of ts t)) ?g"
    let ?k = "check_actions ts as ?h"
    let ?f = "\<lambda>u. mset (type_complaints ts u)"
    note grows = check_actions_grows [of ?g ts "actions (kind_of ts t)"] check_actions_grows [of ?h ts as]
    have "sum ?f (checked ?k - checked g) = ?f t + (sum ?f (checked ?k - checked ?h) + sum ?f (checked ?h - insert t (checked g)))"
      using grows False check_actions_finite [of ts as ?h] check_actions_finite [of ts "actions (kind_of ts t)" ?g]
      by (intro sum_stages) simp_all
    with 3(2,3) [OF False] False show ?thesis by (simp add: type_complaints_def ac_simps)
  qed (use 3(1) in simp)
qed (auto simp: complain_def)

lemma check_actions_counts:
  "errorCount (check_actions ts as g) - int (length (printed (check_actions ts as g))) = errorCount g - int (length (printed g))"
  by (induction ts as g rule: check_actions.induct) (auto simp: complain_def)

lemma size_mset_sum: "size (\<Sum>u \<in> A. mset (f u)) = (\<Sum>u \<in> A. length (f u))"
  by (induction A rule: infinite_finite_induct) auto

lemma checkType_checked:
  assumes "closed ts (checked g)"
  shows "checked (checkType ts t g) = checked g \<union> (mentions ts)\<^sup>* `` {t}"
proof -
  let ?k = "checkType ts t g"
  have t: "t \<in> checked ?k" using check_actions_covers [of "[Visit t]" ts g] by (simp add: checkType_def)
  have g: "checked g \<subseteq> checked ?k" unfolding checkType_def by (rule check_actions_grows)
  have "closed ts (checked ?k)"
    using assms check_actions_closes [of ts "[Visit t]" g] g unfolding closed_def checkType_def by blast
  then show ?thesis
    using t g closed_rtrancl check_actions_reaches [of ts "[Visit t]" g] by (auto simp: checkType_def)
qed

text \<open>C18. Complaining once. When the components of every checked type are checked (as initially, with
  nothing checked), \<^verbatim>\<open>checkType\<close> returns even on types that contain themselves, marks exactly
  the types reachable from its argument, prints one line for each lower-case field of each type that is
  new and none for a type seen before, counts them in \<^verbatim>\<open>errorCount\<close>, and a second call for any of the
  types it went through changes nothing.\<close>

theorem checkType_complains_once:
  assumes "closed ts (checked g)"
  shows "let new = (mentions ts)\<^sup>* `` {t} - checked g; g' = checkType ts t g in
    checked g' = checked g \<union> (mentions ts)\<^sup>* `` {t} \<and> closed ts (checked g') \<and> finite new
    \<and> mset (printed g') = mset (printed g) + (\<Sum>u \<in> new. mset (type_complaints ts u))
    \<and> errorCount g' = errorCount g + int (\<Sum>u \<in> new. length (type_complaints ts u))
    \<and> (\<forall>u. (t, u) \<in> (mentions ts)\<^sup>* \<longrightarrow> checkType ts u g' = g')"
proof -
  let ?new = "(mentions ts)\<^sup>* `` {t} - checked g" and ?g = "checkType ts t g"
  have checked: "checked ?g = checked g \<union> (mentions ts)\<^sup>* `` {t}" by (rule checkType_checked [OF assms])
  then have new: "checked ?g - checked g = ?new" by blast
  have fin: "finite ?new" using check_actions_finite [of ts "[Visit t]" g] new by (simp only: checkType_def)
  have printed: "mset (printed ?g) = mset (printed g) + (\<Sum>u \<in> ?new. mset (type_complaints ts u))"
    using check_actions_prints [of ts "[Visit t]" g] new by (simp add: checkType_def del: check_actions.simps)
  have "length (printed ?g) = length (printed g) + (\<Sum>u \<in> ?new. length (type_complaints ts u))"
    using arg_cong [OF printed, of "\<lambda>m. size m"] by (simp add: size_mset_sum)
  then have count: "errorCount ?g = errorCount g + int (\<Sum>u \<in> ?new. length (type_complaints ts u))"
    using check_actions_counts [of ts "[Visit t]" g] by (simp add: checkType_def del: check_actions.simps)
  have closed: "closed ts (checked ?g)"
    using assms checked by (auto simp: closed_def intro: rtrancl_into_rtrancl)
  have again: "checkType ts u ?g = ?g" if "(t, u) \<in> (mentions ts)\<^sup>*" for u
    using that checked by (simp add: checkType_def [of ts u])
  show ?thesis using checked closed fin printed count again by (simp add: Let_def)
qed

text \<open>A list cell with a lower-case link, which contains itself through a pointer.\<close>

theorem checkType_complains_once_witness:
  "closed [TStruct ''Cell'' [(''Val'', 2), (''next'', 1)], TElem 0, TOther] {}
    \<and> finite ((mentions [TStruct ''Cell'' [(''Val'', 2), (''next'', 1)], TElem 0, TOther])\<^sup>* `` {1})
    \<and> checkType [TStruct ''Cell'' [(''Val'', 2), (''next'', 1)], TElem 0, TOther] 1 \<lparr>errorCount = 0, checked = {}, printed = []\<rparr>
        = \<lparr>errorCount = 1, checked = {0, 1, 2}, printed = [LowerCase ''next'' ''Cell'']\<rparr>"
proof -
  let ?ts = "[TStruct ''Cell'' [(''Val'', 2), (''next'', 1)], TElem 0, TOther]"
  have 1: "closed ?ts {}" by (simp add: closed_def)
  have "finite ((mentions ?ts)\<^sup>* `` {1})"
    using checkType_complains_once [of ?ts "\<lparr>errorCount = 0, checked = {}, printed = []\<rparr>" 1] 1 by (simp add: Let_def)
  moreover have "checkType ?ts 1 \<lparr>errorCount = 0, checked = {}, printed = []\<rparr>
        = \<lparr>errorCount = 1, checked = {0, 1, 2}, printed = [LowerCase ''next'' ''Cell'']\<rparr>"
    by (auto simp: checkType_def kind_of_def starts_upper_def complain_def)
  ultimately show ?thesis using 1 by blast
qed

section \<open>Variables that are not empty\<close>

text \<open>The basic values that \<^verbatim>\<open>checkDefault1\<close> comes to, with whether they may be read, what they are called
  and whether they are zero.\<close>

fun basics :: "bool \<Rightarrow> rvalue \<Rightarrow> nat \<Rightarrow> string \<Rightarrow> (bool \<times> string \<times> bool) list"
  and basics_fields :: "bool \<Rightarrow> (string \<times> rvalue) list \<Rightarrow> nat \<Rightarrow> string \<Rightarrow> (bool \<times> string \<times> bool) list" where
  "basics ro (VStruct fs) depth name = (if depth \<le> 3 then basics_fields ro fs depth name else [])"
| "basics ro (VPtr None) depth name = []"
| "basics ro (VPtr (Some v)) depth name = (if depth \<le> 3 then basics ro v (depth + 1) name else [])"
| "basics ro (VBasic tname zero) depth name =
     (if depth \<le> 3 then [(ro, if name = [] then tname else name, zero)] else [])"
| "basics ro VOther depth name = []"
| "basics_fields ro [] depth name = []"
| "basics_fields ro ((fname, v) # fs) depth name =
     basics (ro \<or> \<not> starts_upper fname) v (depth + 1) (if name \<noteq> [] then name @ ''.'' @ fname else fname)
       @ basics_fields ro fs depth name"

definition leftovers :: "(bool \<times> string \<times> bool) list \<Rightarrow> string list" where
  "leftovers bs = map (fst \<circ> snd) (filter (\<lambda>(ro, name, zero). \<not> zero) bs)"

definition report :: "(bool \<times> string \<times> bool) list \<Rightarrow> labgob \<Rightarrow> labgob option" where
  "report bs g = (if \<exists>b \<in> set bs. fst b then None else Some (foldl (\<lambda>g w. nonDefault w g) g (leftovers bs)))"

lemma leftovers_append [simp]: "leftovers (as @ bs) = leftovers as @ leftovers bs"
  by (simp add: leftovers_def)

lemma report_append: "report (as @ bs) g = (case report as g of None \<Rightarrow> None | Some g' \<Rightarrow> report bs g')"
  by (auto simp: report_def)

lemma report_Nil [simp]: "report [] g = Some g"
  by (simp add: report_def leftovers_def)

lemma checkDefault1_reports:
  "checkDefault1 ro v depth name g = report (basics ro v depth name) g"
  "checkDefault_fields ro fs depth name g = report (basics_fields ro fs depth name) g"
  by (induction ro v depth name g and ro fs depth name g rule: checkDefault1_checkDefault_fields.induct)
    (auto simp: report_append Let_def split: option.split, auto simp: report_def leftovers_def)

text \<open>Only the first warning is printed.\<close>

lemma foldl_nonDefault:
  "0 \<le> errorCount g \<Longrightarrow> foldl (\<lambda>g w. nonDefault w g) g ws =
     g\<lparr>printed := printed g @ (if errorCount g = 0 then map NonDefault (take 1 ws) else []),
       errorCount := errorCount g + int (length ws)\<rparr>"
  by (induction ws arbitrary: g) (auto simp: nonDefault_def)

lemma basics_flat:
  "basics_fields False (map (\<lambda>(f, t, z). (f, VBasic t z)) fs) 2 [] =
     map (\<lambda>(f, t, z). (\<not> starts_upper f, if f = [] then t else f, z)) fs"
  by (induction fs) auto

text \<open>Decoding into a variable. When \<^verbatim>\<open>Decode\<close> gets a pointer to a struct of basic fields (an RPC reply)
  and the error count is not negative, it panics if a field name does not start with a capital letter,
  since \<^verbatim>\<open>checkDefault1\<close> asks for the value of a field that is not exported; otherwise it adds to the
  error count the number of fields that are not zero, prints a warning for the first of them and only if
  nothing was counted before, and decodes what gob decodes.\<close>

lemma Decode_checks_reply:
  assumes "type_of e = Some t" "view e = Some (VPtr (Some (VStruct (map (\<lambda>(f, tn, z). (f, VBasic tn z)) fs))))"
    and "0 \<le> errorCount (checkType ts t g)"
  shows "let g1 = checkType ts t g; old = map fst (filter (\<lambda>(f, tn, z). \<not> z) fs) in
    lab_Decode ts type_of view e prj g s =
      (if \<forall>(f, tn, z) \<in> set fs. starts_upper f
       then Some (g1\<lparr>printed := printed g1 @ (if errorCount g1 = 0 then map NonDefault (take 1 old) else []),
                     errorCount := errorCount g1 + int (length old)\<rparr>, Decode prj s)
       else None)"
proof -
  let ?bs = "map (\<lambda>(f, t, z). (\<not> starts_upper f, if f = [] then t else f, z)) fs"
  have "checkDefault (view e) g1 = report ?bs g1" for g1
    using assms(2) by (simp add: checkDefault_def checkDefault1_reports numeral_2_eq_2 [symmetric] basics_flat)
  moreover have "(\<exists>b \<in> set ?bs. fst b) = (\<not> (\<forall>(f, tn, z) \<in> set fs. starts_upper f))"
    by (induction fs) auto
  moreover have "leftovers ?bs = map fst (filter (\<lambda>(f, tn, z). \<not> z) fs)"
    if "\<forall>(f, tn, z) \<in> set fs. starts_upper f"
    using that by (induction fs) (auto simp: leftovers_def starts_upper_def)
  ultimately show ?thesis
    using assms(1) foldl_nonDefault [OF assms(3)] by (simp add: lab_Decode_def checkValue_def report_def Let_def)
qed

end
