(* ===== verification/Spec2Isabelle.thy ===== *)
theory Spec2Isabelle
  imports RaftInt64 KvLinearizable HarnessSnap CtrlHarness ShardHarness MrCrash Visualization LabRpcProps LabgobProps
begin

text \<open>
  Verification of the 6.5840 labs: a Raft library, a replicated key/value service, MapReduce, and the
  test infrastructure that judges them (the simulated network and the linearizability checker).

  \<^bold>\<open>The program.\<close> \<^verbatim>\<open>raft/\<close> replicates a log of commands over peers that talk by remote procedure
  calls (\<^verbatim>\<open>labrpc/\<close>) and keep their durable state in a \<^verbatim>\<open>Persister\<close>. \<^verbatim>\<open>kvraft/\<close> is a client of it: a
  server hands the operations of its clerks to \<^verbatim>\<open>Start\<close>, executes what comes out of the apply channel,
  and gives snapshots back to Raft. \<^verbatim>\<open>mr/\<close> is a coordinator that hands map and reduce tasks to
  workers which share a file system; \<^verbatim>\<open>main/mrsequential.go\<close> is the sequential program it has to agree
  with and \<^verbatim>\<open>mrapps/\<close> the applications. \<^verbatim>\<open>porcupine/\<close> decides whether a history of a concurrent object is
  linearizable; with \<^verbatim>\<open>models/kv.go\<close> it checks the histories of the key/value clerks. \<^verbatim>\<open>shardctrler/\<close> and \<^verbatim>\<open>shardkv/\<close> are a
  sharded service with complete clients and empty servers. The files \<^verbatim>\<open>config.go\<close> are the harnesses in
  which servers are tested: they build the network, crash, restart and partition servers and judge what they do.

  \<^bold>\<open>Style of the model.\<close> A struct is a record, a method a function from the state before to the
  state after; \<^verbatim>\<open>None\<close> is a panic or, for the goroutines and loops that may wait for ever, the absence of a
  result. A Go slice is a list with its bounds checks written out, a map a partial function, a pointer
  into a linked structure an index into a heap. Code between two acquisitions of a lock is one
  function; code that holds the lock around an RPC is split into the part that builds the arguments
  and the part that handles the reply. Whatever the scheduler, the clock, the random source or the network
  decides is an argument, an event of a step relation or a list of choices. Go's \<^verbatim>\<open>int\<close> and \<^verbatim>\<open>int64\<close> are unbounded
  integers, except that \<^verbatim>\<open>RaftInt64\<close> repeats the Raft peer with the arithmetic of 64-bit integers and says when the two
  agree; the hash of the worker and the words of the bit sets keep their width. The theorems about clusters, services
  and harnesses are about runs in which terms, indices, sequence numbers and times stay below \<open>2 ^ 63\<close>.

  \<^bold>\<open>Foundations.\<close> \<^verbatim>\<open>Prelude\<close>: slices, streams of encoded values and the interface \<open>codec\<close> of an encoder with
  its decoder, whose providers are the Raft state (\<^verbatim>\<open>RaftLog\<close>) and the snapshot of the service
  (\<^verbatim>\<open>KvProps\<close>); \<^verbatim>\<open>Strconv\<close>: decimal printing.

  \<^bold>\<open>Raft, one peer.\<close> \<^verbatim>\<open>RaftTypes\<close> (\<^verbatim>\<open>types.go\<close>, \<^verbatim>\<open>constants.go\<close>, the persister), \<^verbatim>\<open>RaftLog\<close> (\<^verbatim>\<open>help_log.go\<close>,
  \<^verbatim>\<open>persister.go\<close>), \<^verbatim>\<open>RaftElection\<close> (\<^verbatim>\<open>election.go\<close>, \<^verbatim>\<open>help_election.go\<close>, \<^verbatim>\<open>raft.go\<close>), \<^verbatim>\<open>RaftReplicate\<close>
  (\<^verbatim>\<open>replicate.go\<close>, \<^verbatim>\<open>help_replicate.go\<close>, \<^verbatim>\<open>install.go\<close>), \<^verbatim>\<open>RaftApply\<close> (\<^verbatim>\<open>log_commit.go\<close>). \<^verbatim>\<open>RaftNode\<close> is a peer
  as a machine with an event for each critical section, its representation invariant, and that every event
  keeps it. \<^verbatim>\<open>RaftReplicateProps\<close> and \<^verbatim>\<open>RaftCommitProps\<close> give reference definitions of the merge of logs, of the commit
  rules and of backing up, and that the loops of the code compute them; \<^verbatim>\<open>RaftProps\<close> holds the properties:
  recovery from a crash at any moment (through the interface \<open>recoverable\<close>), and the contract of each handler on
  each of its branches. \<^verbatim>\<open>RaftInt64\<close> is the peer with wrap-around: the one kind of message that panics it
  (a \<^verbatim>\<open>PrevLogIndex\<close> so far below the snapshot index that the difference overflows), and the invariant along every run
  whose numbers stay below \<open>2 ^ 62\<close>.

  \<^bold>\<open>Raft, the cluster.\<close> \<^verbatim>\<open>Cluster\<close> composes peers with calls that are in flight, lost, delayed, duplicated in
  time and reordered, and with crashes and restarts. \<^verbatim>\<open>Quorum\<close> is the interface of majorities;
  \<^verbatim>\<open>ElectionSafety\<close> proves one vote per server and term, and one leader per term provided that vote requests
  are sent in the term in which their round began or that there are at most three servers. The code does
  not ensure this for larger clusters, and a run with five servers and two leaders of one term is exhibited.
  \<^verbatim>\<open>RaftSpec\<close> is the abstract protocol (terms, votes, elections, the log of each term's leader, adopting a
  prefix of it) with its inductive invariant. \<^verbatim>\<open>RaftSimulation\<close> is the relation between a cluster and the protocol,
  with the compacted part of a log standing for entries that the protocol still has, and \<^verbatim>\<open>RaftRefinement\<close> shows that each
  event is matched by steps of the protocol, among them \<^verbatim>\<open>Snapshot\<close> and the three parts of an \<^verbatim>\<open>InstallSnapshot\<close>
  call. \<^verbatim>\<open>StateMachineSafety\<close> reads off log matching, leader completeness and that no two servers apply different
  commands at an index, under the condition on votes above, whatever snapshots are taken and installed.
  \<^verbatim>\<open>SnapshotOrigin\<close> follows snapshots through the cluster: each was handed to \<^verbatim>\<open>Snapshot\<close> by a service.

  \<^bold>\<open>The service.\<close> \<^verbatim>\<open>RaftService\<close> puts services on top of the cluster: a run interleaves events of Raft, the
  reading of the apply channels, compactions, restarts and handlers. A service may read any unread message of its channel;
  the theorems are about the runs that read the oldest one (\<open>reads_in_order\<close>). The interface \<open>service\<close> says what a service must promise (a command
  takes it one position on in the log, a snapshot to the position it was made at) and gives one log that all servers
  follow; its providers are the key/value servers (\<^verbatim>\<open>ReplicatedService\<close>) and the appliers of the test harness
  (\<^verbatim>\<open>HarnessSnap\<close>). \<^verbatim>\<open>KvServer\<close> models \<^verbatim>\<open>kvraft/\<close> with its clerk; \<^verbatim>\<open>KvProps\<close> shows that a replica follows its
  log (interface \<open>replica\<close>), that duplicates have no effect, how
  snapshots and restarts behave, and that a snapshot which overtakes commands loses an update.
  \<^verbatim>\<open>ReplicatedService\<close>: all replicas are in the state that a prefix of one list of operations defines, whatever the network does
  and whichever of them crash, replay, compact and are caught up by a snapshot; they never panic; and what a handler
  acknowledges was executed. \<^verbatim>\<open>KvLinearizable\<close> adds the clerks, which number their requests and retry: what they record
  is explained by that list, and this theory concludes that the service is linearizable and that the
  checker of the tests finds no violation. \<^verbatim>\<open>guardKick\<close> and \<^verbatim>\<open>InstallSnapshot\<close> send after they have released the lock, so that the code does not ensure
  the order of the messages, and \<open>late_snapshot_loses_update\<close> shows what happens in the other order.

  \<^bold>\<open>MapReduce.\<close> \<^verbatim>\<open>MrCoordinator\<close> and \<^verbatim>\<open>MrWorker\<close> model \<^verbatim>\<open>mr/\<close>, \<^verbatim>\<open>mrsequential.go\<close> and the applications wc, indexer and
  nocrash. \<^verbatim>\<open>MrCoordProps\<close>: the scan for a task (interface \<open>task_scan\<close>, provided by the map and the
  reduce table), the invariant, phase safety and that one live worker finishes the job. \<^verbatim>\<open>MrWorkerProps\<close>:
  what a task does to the files. \<^verbatim>\<open>MrSystem\<close> is the specification of a job: its files, assignments and reports, and that
  a finished job holds the lines of the sequential program. \<^verbatim>\<open>MrJob\<close> is the running job: the file
  operations of any number of workers interleave one by one, tasks are done several times, and processes die at any point;
  the specification is met as long as no two workers write the files of one task at the same time and none dies while it
  rewrites the output of a completed reduce task, and without interference the operations do what the functions of \<^verbatim>\<open>MrWorker\<close> do.
  \<^verbatim>\<open>MrApps\<close> models the test applications, the loop of a worker process and the main programs; \<^verbatim>\<open>MrCrash\<close> the jobs
  of \<^verbatim>\<open>crash.go\<close>, whose workers exit inside a task: the result is still right under the same condition, and
  an exit that violates it empties a finished output file.

  \<^bold>\<open>The network.\<close> \<^verbatim>\<open>LabRpc\<close> models \<^verbatim>\<open>labrpc.go\<close>: tables of end points and servers, \<^verbatim>\<open>Call\<close>, the phases of \<^verbatim>\<open>processReq\<close>
  as events, dispatch to services, whose handlers run as sequences of critical sections that interleave with those of other calls.
  \<^verbatim>\<open>LabRpcProps\<close>: it refines the contract of an RPC that is executed at
  most once and whose success carries the reply of that execution, which is what \<^verbatim>\<open>Cluster\<close> assumes of
  its calls; and the served objects see the critical sections of each executed call once. \<^verbatim>\<open>Labgob\<close> and \<^verbatim>\<open>LabgobProps\<close> are the checks that
  \<^verbatim>\<open>labgob.go\<close> makes before it encodes and decodes: a depth-first search through the types of the program, which complains
  once about each lower-case field, and the warning about variables that are not empty.

  \<^bold>\<open>The harnesses.\<close> \<^verbatim>\<open>RaftHarness\<close> models \<^verbatim>\<open>raft/config.go\<close>. \<^verbatim>\<open>HarnessNet\<close>: the end points of the network and which of
  them are enabled, along any use of the harness, and that it creates and restarts the peers of the cluster model.
  \<^verbatim>\<open>HarnessLeaders\<close>, \<^verbatim>\<open>ApplyOrder\<close>, \<^verbatim>\<open>HarnessApply\<close> and \<^verbatim>\<open>HarnessSnap\<close>: a cluster passes its checks, that is,
  \<^verbatim>\<open>checkOneLeader\<close> never sees two leaders of a term and the appliers, with and without snapshots, and \<^verbatim>\<open>nCommitted\<close>
  never find two different commands, as long as channels are read in order and the applier of a crashed server
  gets no more messages (with the snapshots of the harness as a further provider of \<open>codec\<close>). \<^verbatim>\<open>KvHarness\<close> models \<^verbatim>\<open>kvraft/config.go\<close> over any type of servers, and \<^verbatim>\<open>CtrlHarness\<close>
  is its instance \<^verbatim>\<open>shardctrler/config.go\<close>; \<^verbatim>\<open>KvHarnessProps\<close> shows that \<^verbatim>\<open>partition\<close> cuts the leader off.

  \<^bold>\<open>The sharded service.\<close> \<^verbatim>\<open>Shard\<close> models the clients and the empty servers of \<^verbatim>\<open>shardctrler/\<close> and \<^verbatim>\<open>shardkv/\<close>: a clerk takes
  its answers from the group responsible for the key, and with empty handlers it never gets one. \<^verbatim>\<open>ShardHarness\<close>
  models \<^verbatim>\<open>shardkv/config.go\<close> and shows that it needs groups of three.

  \<^bold>\<open>The checker.\<close> \<^verbatim>\<open>Bitset\<close> (\<^verbatim>\<open>bitset.go\<close>, interface \<open>position_set\<close>), \<^verbatim>\<open>Checker\<close> (\<^verbatim>\<open>model.go\<close>, \<^verbatim>\<open>checker.go\<close>,
  \<^verbatim>\<open>porcupine.go\<close>), \<^verbatim>\<open>KvModel\<close> (\<^verbatim>\<open>models/kv.go\<close>). \<^verbatim>\<open>Linearizable\<close> is the specification. \<^verbatim>\<open>CheckerList\<close>
  treats the doubly linked list, \<^verbatim>\<open>CheckerInv\<close> the invariant of the search, \<^verbatim>\<open>CheckerLoop\<close> its progress and
  result, \<^verbatim>\<open>CheckerProps\<close> the way from time-stamped operations and partitions to verdicts; the properties
  are in \<^verbatim>\<open>CheckerTheorems\<close>. \<^verbatim>\<open>KvLocality\<close>: checking key by key decides linearizability of
  the whole store. \<^verbatim>\<open>Visualization\<close> (\<^verbatim>\<open>visualization.go\<close>): what the checker reports can be drawn without a panic.

  \<^bold>\<open>Loops and bounds.\<close> No function uses fuel. Loops over a slice or a range are structural or have a
  termination proof; the loops of \<^verbatim>\<open>RaftInt64\<close>, whose counters may wrap, are partial functions, shown to be those of
  the unbounded peer as long as nothing overflows; the search loop of the checker is \<^verbatim>\<open>while_option\<close>, and that it ends is part of its
  theorem; the retry loops of the clerk consume a list of RPC outcomes and have no result when it runs out.

  \<^bold>\<open>Not modelled.\<close> The byte formats of gob and JSON (encoders give streams of values, and the bytes of an RPC are
  parameters); the web page of \<^verbatim>\<open>visualization.go\<close>; what programs print, random seeds and sleeping; failing
  writes in \<^verbatim>\<open>mr/\<close> and the start of its RPC server; what two workers leave in the files of one task when they write them at the same time, the danger that the notes
  of \<^verbatim>\<open>mr/\<close> describe;
  \<^verbatim>\<open>diskvd.go\<close>, \<^verbatim>\<open>lockc.go\<close>, \<^verbatim>\<open>lockd.go\<close>, \<^verbatim>\<open>pbc.go\<close>, \<^verbatim>\<open>pbd.go\<close> and \<^verbatim>\<open>viewd.go\<close> of \<^verbatim>\<open>main/\<close>, which start packages that
  are not in the repository.
\<close>

section \<open>The service, its clerks and its test\<close>

text \<open>
  C1. The key/value service is linearizable: take any run of the servers, with leaders elected and deposed, requests retried on any
  server and executed several times, messages lost and delayed, crashes, restarts and snapshots, in which the apply
  channels are read in order and vote requests are prompt or there are at most three servers, and calls of clerks that
  have all returned. The calls can be put into one order that respects real time and in which every get returns what the
  puts and appends before it leave in a single store.
\<close>

theorem kvraft_linearizable:
  assumes "kv_sys gs mx n es = Some sy" "prompt (syRaft sy) \<or> n \<le> 3" "reads_in_order es" "clerk_calls H" "serves es H" "mono clock"
  shows "ops_linearizable store_model (map (logged gs mx n es clock) H)"
  by (rule logged_linearizable [OF assms])

text \<open>The run of the witnesses: client 7 puts, then client 8 gets; both answers come from server 0.\<close>

definition get_a :: Op where
  "get_a = \<lparr>opType = OpGet, opKey = ''a'', opValue = [], opClientId = 8, opSeqNum = 1\<rparr>"

definition lin_events :: "(Op, kvgob, kv_handler) svc_event list" where
  "lin_events = kv_events @ [SHandler 0 (AReply put_ax 0), SHandler 0 (ARegister get_a)] @
     map SRaft [CStart 0 get_a, CAppendSend 0 2, CAppendServe 1 timeout, CAppendRecv 1, CApply 0] @ [SDeliver 0 0, SHandler 0 (AReply get_a 1)]"

definition lin_calls :: "client_call list" where
  "lin_calls = [\<lparr>ccOp = get_a, ccCall = 13, ccReply = 20, ccReturn = 21\<rparr>, \<lparr>ccOp = put_ax, ccCall = 0, ccReply = 12, ccReturn = 13\<rparr>]"

lemma lin_run: "kv_sys (\<lambda>_. 1) 0 3 lin_events = Some (the (kv_sys (\<lambda>_. 1) 0 3 lin_events))"
proof -
  have "kv_sys (\<lambda>_. 1) 0 3 lin_events \<noteq> None" by code_simp
  then show ?thesis by simp
qed

lemma lin_in_order: "reads_in_order lin_events"
  by (simp add: lin_events_def kv_events_def)

lemma lin_facts: "clerk_calls lin_calls" "serves lin_events lin_calls" "answer (\<lambda>_. 1) 0 3 lin_events (hd lin_calls) = ''x''"
  by code_simp+

theorem kvraft_linearizable_witness:
  "ops_linearizable store_model (map (logged (\<lambda>_. 1) 0 3 lin_events int) lin_calls) \<and>
   poOutput (logged (\<lambda>_. 1) 0 3 lin_events int (hd lin_calls)) = KvOut \<lparr>koValue = ''x''\<rparr>"
  using kvraft_linearizable [OF lin_run _ lin_in_order lin_facts(1,2), of int] lin_facts(3) by (simp add: logged_def mono_def)

text \<open>
  C8. The service passes its test: in such a run (channels read in order, prompt votes or at most three servers), on what the
  clerks record of one or more calls that have all returned, in whatever order these were appended to the history,
  \<^verbatim>\<open>CheckOperations\<close> with \<^verbatim>\<open>KvModel\<close> finds no violation once the results of all partitions are in, in whatever
  order they come. (On the empty history it does not return.)
\<close>

theorem kvraft_passes_checker:
  assumes "kv_sys gs mx n es = Some sy" "prompt (syRaft sy) \<or> n \<le> 3" "reads_in_order es" "clerk_calls H" "serves es H" "mono clock"
    and "H \<noteq> []" "2 * int (length H) < 2 ^ 63" "sorts_by_time srt" "distinct is" "set is = {0..<card ((\<lambda>h. opKey (ccOp h)) ` set H)}"
  shows "CheckOperations fmtv fmts perm srt KvModel (map (logged gs mx n es clock) H) (map ResultOf is) kills = Some True"
proof -
  let ?h = "map (logged gs mx n es clock) H"
  have kv: "kv_history ?h" by (auto simp: kv_history_def logged_def)
  have "\<forall>h \<in> set H. ccCall h \<le> ccReturn h" using assms(4) unfolding clerk_calls_def by fastforce
  then have t: "timely ?h" using assms(6,8) by (auto simp: timely_def logged_def mono_def)
  have "op_key ` set ?h = (\<lambda>h. opKey (ccOp h)) ` set H" by (force simp: op_key_def logged_def kv_input_def)
  moreover have "\<forall>k. ops_linearizable KvModel (on_key k ?h)" using logged_linearizable [OF assms(1-6)] kv_locality [OF kv t] by simp
  ultimately show ?thesis using kv_check_verdict [OF kv t _ assms(9,10)] assms(7,11) by simp
qed

theorem kvraft_passes_checker_witness:
  "CheckOperations (\<lambda>_. []) (\<lambda>_. []) id by_time KvModel (map (logged (\<lambda>_. 1) 0 3 lin_events int) lin_calls) (map ResultOf [0]) (\<lambda>_ _. 0) = Some True"
  by (rule kvraft_passes_checker [OF lin_run _ lin_in_order lin_facts(1,2)])
    (auto simp: lin_calls_def by_time_sorts put_ax_def get_a_def mono_def)

end
